(* ===== verification/Enpu_Prelude.thy ===== *)
theory Enpu_Prelude
  imports Main "HOL-Library.Word" "HOL-Library.Monad_Syntax"
begin

unbundle bit_operations_syntax

text \<open>
  Shared ground of the development: the return codes and limits of
  \<^verbatim>\<open>core/include/common.h\<close>, C values (fixed-width integers, bounded strings, decimal
  formatting), C execution that may be undefined, and the generic lemmas the components use.

  Undefined behaviour. A C operation that the standard leaves undefined (a shift by 64 or more,
  an array access out of bounds, the dereference of a dangling or null pointer) has the value
  \<^term>\<open>None\<close>; a defined execution is \<^term>\<open>Some\<close> of its result. Functions whose body
  contains such an operation live in the option monad, so "this call is free of undefined
  behaviour" is the statement that its value is not \<^term>\<open>None\<close>.

  Locking. Every function of the modelled sources runs its body inside the critical section of
  its own mutex, and the model executes that body as one atomic step; mutexes are not values of
  the model.
\<close>

named_theorems c_defs "unfolding rules for the C-level helper operations"

section \<open>Machine integers and return codes\<close>

type_synonym u64 = "64 word"
type_synonym u32 = "32 word"
type_synonym u8 = "8 word"

text \<open>\<open>i32\<close> is the two's complement reading of a 32-bit cell, used for \<^verbatim>\<open>atomic_int\<close>
  counters on which the code does wrapping \<^verbatim>\<open>atomic_fetch_add\<close> and \<^verbatim>\<open>atomic_fetch_sub\<close>.\<close>

type_synonym i32 = "32 word"

abbreviation (input) ENPU_SUCCESS :: int where "ENPU_SUCCESS \<equiv> 0"
abbreviation (input) ENPU_FAIL :: int where "ENPU_FAIL \<equiv> -1"
abbreviation (input) RT_ENPU_FAIL :: int where "RT_ENPU_FAIL \<equiv> 1"
abbreviation (input) ENPU_INVALID_PARAM :: int where "ENPU_INVALID_PARAM \<equiv> -2"
abbreviation (input) ENPU_NO_RESOURCE :: int where "ENPU_NO_RESOURCE \<equiv> -3"
abbreviation (input) ENPU_ALREADY_EXISTS :: int where "ENPU_ALREADY_EXISTS \<equiv> -4"
abbreviation (input) ENPU_NOT_FOUND :: int where "ENPU_NOT_FOUND \<equiv> -5"

abbreviation (input) MAX_NPU_PER_NODE :: nat where "MAX_NPU_PER_NODE \<equiv> 16"
abbreviation (input) MAX_VNPU_PER_DIE :: nat where "MAX_VNPU_PER_DIE \<equiv> 128"
abbreviation (input) MAX_VNPU_SCHED :: nat where "MAX_VNPU_SCHED \<equiv> 100"
abbreviation (input) MAX_PROCESSES_PER_VNPU :: nat where "MAX_PROCESSES_PER_VNPU \<equiv> 64"
abbreviation (input) HUNDRED_CORE :: int where "HUNDRED_CORE \<equiv> 100"
abbreviation (input) VNPU_PRIORITY_NORMAL :: int where "VNPU_PRIORITY_NORMAL \<equiv> 0"
abbreviation (input) VNPU_PRIORITY_HIGH :: int where "VNPU_PRIORITY_HIGH \<equiv> 1"
abbreviation (input) MAX_ALLOC_COUNT :: nat where "MAX_ALLOC_COUNT \<equiv> 1024"
abbreviation (input) MAX_PATH_LEN :: nat where "MAX_PATH_LEN \<equiv> 256"
abbreviation (input) MAX_UUID_LEN :: nat where "MAX_UUID_LEN \<equiv> 64"
abbreviation (input) DIE_ID_LEN :: nat where "DIE_ID_LEN \<equiv> 64"
abbreviation (input) MAX_NAME_LEN :: nat where "MAX_NAME_LEN \<equiv> 32"
abbreviation (input) SHM_ID_LEN :: nat where "SHM_ID_LEN \<equiv> DIE_ID_LEN"

abbreviation (input) SCHED_POLICY_FIXED_SHARE :: int where "SCHED_POLICY_FIXED_SHARE \<equiv> 1"
abbreviation (input) SCHED_POLICY_ELASTIC :: int where "SCHED_POLICY_ELASTIC \<equiv> 2"
abbreviation (input) SCHED_POLICY_BEST_EFFORT :: int where "SCHED_POLICY_BEST_EFFORT \<equiv> 3"

abbreviation (input) SWAP_PRIORITY_HIGH :: int where "SWAP_PRIORITY_HIGH \<equiv> 0"
abbreviation (input) SWAP_PRIORITY_MEDIUM :: int where "SWAP_PRIORITY_MEDIUM \<equiv> 1"
abbreviation (input) SWAP_PRIORITY_LOW :: int where "SWAP_PRIORITY_LOW \<equiv> 2"

section \<open>Shifts, bounded strings, decimal output\<close>

text \<open>\<^verbatim>\<open>1ULL << n\<close>: undefined unless \<open>0 \<le> n < 64\<close>.\<close>

definition bmask :: "nat \<Rightarrow> u64" where
  "bmask i = push_bit i 1"

definition shl64 :: "int \<Rightarrow> u64 option" where
  "shl64 n = (if 0 \<le> n \<and> n < 64 then Some (bmask (nat n)) else None)"

text \<open>A C string is the list of its characters before the terminating NUL. Copying into a
  buffer of \<open>len\<close> bytes with \<^verbatim>\<open>strncpy_s(dst, len, src, strnlen(src, len - 1))\<close> keeps the
  first \<open>len - 1\<close> characters.\<close>

definition copy_str :: "nat \<Rightarrow> string \<Rightarrow> string" where
  "copy_str len s = take (len - 1) s"

fun dec_nat :: "nat \<Rightarrow> string" where
  "dec_nat n = (if n < 10 then [char_of (48 + n)]
                else dec_nat (n div 10) @ [char_of (48 + n mod 10)])"

declare dec_nat.simps [simp del]

text \<open>\<^verbatim>\<open>%d\<close> of \<^verbatim>\<open>printf\<close>.\<close>

definition dec_int :: "int \<Rightarrow> string" where
  "dec_int i = (if i < 0 then CHR ''-'' # dec_nat (nat (- i)) else dec_nat (nat i))"

section \<open>Lemmas on shifts and bits\<close>

lemma shl64_None [simp]: "shl64 n = None \<longleftrightarrow> n < 0 \<or> 64 \<le> n"
  by (auto simp: shl64_def)

lemma shl64_SomeD: "shl64 n = Some b \<Longrightarrow> 0 \<le> n \<and> n < 64 \<and> b = bmask (nat n)"
  by (auto simp: shl64_def split: if_splits)

lemma shl64_in_range [simp]: "0 \<le> n \<Longrightarrow> n < 64 \<Longrightarrow> shl64 n = Some (bmask (nat n))"
  by (simp add: shl64_def)

lemma shl64_nat [simp]: "i < 64 \<Longrightarrow> shl64 (int i) = Some (bmask i)"
  by (simp add: shl64_def)

lemma bit_bmask [simp]: "bit (bmask i) j \<longleftrightarrow> j = i \<and> i < 64"
  by (auto simp: bmask_def bit_push_bit_iff bit_1_iff simp del: push_bit_of_1)

lemma mask_test_iff: "i < 64 \<Longrightarrow> w AND bmask i = 0 \<longleftrightarrow> \<not> bit w i"
proof
  assume i: "i < 64" and eq: "w AND bmask i = 0"
  have "\<not> bit (w AND bmask i) i" by (simp add: eq)
  then show "\<not> bit w i" using i by (simp add: bit_and_iff)
next
  assume "i < 64" and "\<not> bit w i"
  then show "w AND bmask i = 0" by (intro bit_eqI) (auto simp: bit_and_iff)
qed

lemma mask_test_nonzero_iff: "i < 64 \<Longrightarrow> w AND bmask i \<noteq> 0 \<longleftrightarrow> bit w i"
  using mask_test_iff [of i w] by blast

lemma bit_clear_iff: "bit (w AND NOT (bmask i)) j \<longleftrightarrow> bit w j \<and> j \<noteq> i"
  by (auto simp: bit_and_iff bit_not_iff dest: bit_imp_le_length)

lemma bit_set_iff: "i < 64 \<Longrightarrow> bit (w OR bmask i) j \<longleftrightarrow> bit w j \<or> j = i"
  by (auto simp: bit_or_iff)

lemma bit_u64_less: "bit (w :: u64) i \<Longrightarrow> i < 64"
  using bit_imp_le_length [of w i] by simp

lemma all_ones: "(0xFFFFFFFFFFFFFFFF :: u64) = -1"
  by simp

lemma clear_set_bit: "i < 64 \<Longrightarrow> bit w i \<Longrightarrow> (w AND NOT (bmask i)) OR bmask i = w"
  by (rule bit_eqI) (auto simp: bit_clear_iff bit_set_iff)

lemma set_clear_bit: "i < 64 \<Longrightarrow> \<not> bit w i \<Longrightarrow> (w OR bmask i) AND NOT (bmask i) = w"
  by (rule bit_eqI) (auto simp: bit_clear_iff bit_set_iff)

lemma u64_nonzero_bit: "(w :: u64) \<noteq> 0 \<longleftrightarrow> (\<exists>i < 64. bit w i)"
proof
  assume "w \<noteq> 0"
  then obtain i where "bit w i" using bit_eqI [of w 0] by auto
  then show "\<exists>i < 64. bit w i" using bit_u64_less by blast
qed auto

lemma unat_and_not_mask: "unat (w AND NOT (mask n) :: u64) = unat w div 2 ^ n * 2 ^ n"
proof -
  have "w AND NOT (mask n) = push_bit n (drop_bit n w)"
    by (rule bit_eqI) (auto simp: bit_and_iff bit_not_iff bit_mask_iff bit_push_bit_iff bit_drop_bit_eq)
  also have "\<dots> = w - take_bit n w" by (metis add_diff_cancel_right' bits_ident)
  finally have eq: "w AND NOT (mask n) = w - take_bit n w" .
  have "take_bit n w \<le> w" by (simp add: word_le_nat_alt unsigned_take_bit_eq)
  moreover have "unat (take_bit n w) = unat w mod 2 ^ n" by (simp add: unsigned_take_bit_eq) (simp add: take_bit_eq_mod)
  ultimately have "unat (w - take_bit n w) = unat w div 2 ^ n * 2 ^ n" by (simp add: unat_sub minus_mod_eq_div_mult)
  then show ?thesis by (simp only: eq)
qed
section \<open>Lemmas on lists\<close>

lemma copy_str_id [simp]: "length s < n \<Longrightarrow> copy_str n s = s"
  by (simp add: copy_str_def)

lemma copy_str_idem [simp]: "copy_str n (copy_str n s) = copy_str n s"
  by (simp add: copy_str_def)

lemma copy_str_length: "0 < n \<Longrightarrow> length (copy_str n s) < n"
  by (simp add: copy_str_def)

lemma find_SomeD: "List.find P xs = Some x \<Longrightarrow> x \<in> set xs \<and> P x"
  by (auto simp: find_Some_iff)

lemma dec_nat_nonempty [simp]: "dec_nat n \<noteq> []"
  by (subst dec_nat.simps) simp

section \<open>Slot sets\<close>

text \<open>
  The manager keeps sets of small numbers as bit masks: the free vNPU slots of a die in one
  64-bit mask (\<^verbatim>\<open>npu_tree.c\<close>) and the allocated vNPUs of a die in a two-word bitmap
  (\<^verbatim>\<open>shm_manager.h\<close>). The locale states what such a representation promises and derives the
  set-level reading that the client proofs use.
\<close>

locale slot_set =
  fixes test :: "'s \<Rightarrow> nat \<Rightarrow> bool"
    and occupy :: "'s \<Rightarrow> nat \<Rightarrow> 's"
    and vacate :: "'s \<Rightarrow> nat \<Rightarrow> 's"
    and cap :: nat
  assumes test_cap: "test s i \<Longrightarrow> i < cap"
    and test_occupy: "i < cap \<Longrightarrow> test (occupy s i) j \<longleftrightarrow> j = i \<or> test s j"
    and test_vacate: "i < cap \<Longrightarrow> test (vacate s i) j \<longleftrightarrow> j \<noteq> i \<and> test s j"
begin

definition members :: "'s \<Rightarrow> nat set" where
  "members s = {i. test s i}"

lemma members_iff [simp]: "i \<in> members s \<longleftrightarrow> test s i"
  by (simp add: members_def)

lemma members_bounded: "members s \<subseteq> {..<cap}"
  by (auto dest: test_cap)

lemma finite_members [simp]: "finite (members s)"
  by (rule finite_subset [OF members_bounded]) simp

lemma card_members_le: "card (members s) \<le> cap"
  using card_mono [OF _ members_bounded] by simp

lemma members_occupy: "i < cap \<Longrightarrow> members (occupy s i) = insert i (members s)"
  by (auto simp: test_occupy)

lemma members_vacate: "i < cap \<Longrightarrow> members (vacate s i) = members s - {i}"
  by (auto simp: test_vacate)

lemma card_occupy: "i < cap \<Longrightarrow> \<not> test s i \<Longrightarrow> card (members (occupy s i)) = Suc (card (members s))"
  by (simp add: members_occupy)

lemma card_vacate: "test s i \<Longrightarrow> Suc (card (members (vacate s i))) = card (members s)"
  by (metis card_Suc_Diff1 finite_members members_iff members_vacate test_cap)

lemma occupy_vacate_members: "i < cap \<Longrightarrow> \<not> test s i \<Longrightarrow> members (vacate (occupy s i) i) = members s"
  by (auto simp: test_vacate test_occupy)

end

end
