(* ===== verification/Shm_State.thy ===== *)
theory Shm_State
  imports Enpu_Prelude
begin

text \<open>
  The shared-memory state of a die (\<^verbatim>\<open>core/include/shm_manager.h\<close>) and the manager operations on it
  (\<^verbatim>\<open>core/src/shm_manager.c\<close> up to the swap buffer). The C arrays are functions from indices; the
  operations index them only within the bounds their guards establish, and where a guard is missing
  the access is undefined. The operating-system calls of the code (\<^verbatim>\<open>shm_open\<close>, \<^verbatim>\<open>ftruncate\<close>, \<^verbatim>\<open>mmap\<close>)
  are parameters that say whether they succeed.
\<close>

section \<open>Data\<close>

record process_entry =
  pr_vcann_rt_id :: int
  pr_pid :: int
  pr_swapped :: bool
  pr_active :: bool
  pr_last_heartbeat_ns :: u64
  pr_hbm_used :: u64
  pr_swap_offset :: u64
  pr_swap_size :: u64
  pr_ack_pending_seq :: u64

record swap_cmd =
  cm_target_pod_uid :: string
  cm_target_vnpu_id :: int
  cm_action :: int
  cm_completed :: bool
  cm_refcount :: int
  cm_cmd_seq :: u64
  cm_timestamp_ns :: u64

record swap_out_cmd =
  so_target_vnpu_id :: int
  so_action :: int
  so_completed :: bool

record vnpu_time_slice_sched =
  ts_last_alive_time_ns :: "nat \<Rightarrow> u64"
  ts_last_kernel_time_ns :: "nat \<Rightarrow> u64"
  ts_vnpu_schedule_turn :: "nat \<Rightarrow> u8"
  ts_vnpu_core_limit_quota :: "nat \<Rightarrow> u8"
  ts_vnpu_priority :: "nat \<Rightarrow> u8"
  ts_owner :: int
  ts_magic_number :: u32
  ts_slide_window_len :: int
  ts_last_slide_window_time_ns :: u64
  ts_vnpu_quota_timeslice :: "nat \<Rightarrow> u64"
  ts_vnpu_cur_timeslice :: "nat \<Rightarrow> u64"
  ts_vnpu_quota_injected_for_turn :: "nat \<Rightarrow> u8"
  ts_vnpu_sync_expected :: "nat \<Rightarrow> int"
  ts_vnpu_sync_completed :: "nat \<Rightarrow> int"
  ts_vnpu_turn_max_sync :: "nat \<Rightarrow> u64"
  ts_vnpu_timeslice_for_turn :: "nat \<Rightarrow> u64"

record vnpu_shm_entry =
  ve_vnpu_id :: int
  ve_hbm_request :: u64
  ve_hbm_limit :: u64
  ve_hbm_used :: u64
  ve_sched_policy :: int
  ve_swap_enabled :: bool
  ve_swap_priority :: int
  ve_processes :: "nat \<Rightarrow> process_entry"

type_synonym vnpu_bitmap = "u64 \<times> u64"

record shm_state =
  ss_version :: int
  ss_phy_id :: int
  ss_shm_id :: string
  ss_hbm_total :: u64
  ss_entries :: "nat \<Rightarrow> vnpu_shm_entry"
  ss_vnpu_bitmap :: vnpu_bitmap
  ss_sched_policy :: int
  ss_initialized :: bool
  ss_swap_cmd :: swap_cmd
  ss_swap_out_cmd :: swap_out_cmd
  ss_next_vcann_rt_id :: int

record shm_manager =
  sm_shm_states :: "nat \<Rightarrow> shm_state option"
  sm_sched_structs :: "nat \<Rightarrow> vnpu_time_slice_sched option"
  sm_shm_state_count :: int
  sm_initialized :: bool

abbreviation (input) MAGIC_INITIALIZED :: u32 where "MAGIC_INITIALIZED \<equiv> 0x495A4547"
abbreviation (input) SHM_STATE_VERSION :: int where "SHM_STATE_VERSION \<equiv> 4"
abbreviation (input) SWAP_ACTION_NONE :: int where "SWAP_ACTION_NONE \<equiv> 0"
abbreviation (input) SWAP_ACTION_OUT :: int where "SWAP_ACTION_OUT \<equiv> 1"
abbreviation (input) SWAP_ACTION_IN :: int where "SWAP_ACTION_IN \<equiv> 2"
abbreviation (input) SWAP_OUT_NONE :: int where "SWAP_OUT_NONE \<equiv> 0"
abbreviation (input) SWAP_OUT_FROM_BORROWED :: int where "SWAP_OUT_FROM_BORROWED \<equiv> 1"
abbreviation (input) SWAP_OUT_FROM_ALL :: int where "SWAP_OUT_FROM_ALL \<equiv> 2"
abbreviation (input) PROCESS_ALIVE_TIMEOUT_NS :: u64 where "PROCESS_ALIVE_TIMEOUT_NS \<equiv> 5000000000"

section \<open>The vNPU bitmap\<close>

definition bitmap_word :: "vnpu_bitmap \<Rightarrow> nat \<Rightarrow> u64" where
  "bitmap_word b idx = (if idx = 0 then fst b else snd b)"

definition bitmap_upd :: "vnpu_bitmap \<Rightarrow> nat \<Rightarrow> (u64 \<Rightarrow> u64) \<Rightarrow> vnpu_bitmap" where
  "bitmap_upd b idx f = (if idx = 0 then (f (fst b), snd b) else (fst b, f (snd b)))"

definition vnpu_bitmap_test :: "vnpu_bitmap \<Rightarrow> int \<Rightarrow> bool" where
  "vnpu_bitmap_test b vnpu_id =
     (if vnpu_id < 0 \<or> vnpu_id \<ge> int MAX_VNPU_PER_DIE then False
      else drop_bit (nat vnpu_id mod 64) (bitmap_word b (nat vnpu_id div 64)) AND 1 \<noteq> 0)"

definition vnpu_bitmap_set :: "vnpu_bitmap \<Rightarrow> int \<Rightarrow> vnpu_bitmap" where
  "vnpu_bitmap_set b vnpu_id =
     (if vnpu_id < 0 \<or> vnpu_id \<ge> int MAX_VNPU_PER_DIE then b
      else bitmap_upd b (nat vnpu_id div 64) (\<lambda>w. w OR bmask (nat vnpu_id mod 64)))"

definition vnpu_bitmap_clear :: "vnpu_bitmap \<Rightarrow> int \<Rightarrow> vnpu_bitmap" where
  "vnpu_bitmap_clear b vnpu_id =
     (if vnpu_id < 0 \<or> vnpu_id \<ge> int MAX_VNPU_PER_DIE then b
      else bitmap_upd b (nat vnpu_id div 64) (\<lambda>w. w AND NOT (bmask (nat vnpu_id mod 64))))"

lemma bitmap_test_bit:
  "vnpu_bitmap_test b (int i) \<longleftrightarrow> i < 128 \<and> bit (bitmap_word b (i div 64)) (i mod 64)"
  by (auto simp: vnpu_bitmap_test_def and_one_eq mod_2_eq_odd bit_iff_odd_drop_bit)

lemma bit_bitmap_upd:
  "k < 2 \<Longrightarrow> j < 2 \<Longrightarrow> bitmap_word (bitmap_upd b k f) j = (if j = k then f (bitmap_word b j) else bitmap_word b j)"
  by (auto simp: bitmap_word_def bitmap_upd_def)

lemma div_mod_64_eq: "i div 64 = j div 64 \<Longrightarrow> i mod 64 = j mod 64 \<Longrightarrow> i = (j :: nat)"
  by (metis mod_div_mult_eq)

interpretation bitmap: slot_set "\<lambda>b i. vnpu_bitmap_test b (int i)" "\<lambda>b i. vnpu_bitmap_set b (int i)"
  "\<lambda>b i. vnpu_bitmap_clear b (int i)" MAX_VNPU_PER_DIE
proof unfold_locales
  fix s :: vnpu_bitmap and i j :: nat
  show "vnpu_bitmap_test s (int i) \<Longrightarrow> i < MAX_VNPU_PER_DIE" by (simp add: bitmap_test_bit)
  assume i: "i < MAX_VNPU_PER_DIE"
  show "vnpu_bitmap_test (vnpu_bitmap_set s (int i)) (int j) \<longleftrightarrow> j = i \<or> vnpu_bitmap_test s (int j)"
    using i div_mod_64_eq [of j i]
    by (auto simp: bitmap_test_bit vnpu_bitmap_set_def bit_bitmap_upd bit_set_iff split: if_splits)
  show "vnpu_bitmap_test (vnpu_bitmap_clear s (int i)) (int j) \<longleftrightarrow> j \<noteq> i \<and> vnpu_bitmap_test s (int j)"
    using i div_mod_64_eq [of j i]
    by (auto simp: bitmap_test_bit vnpu_bitmap_clear_def bit_bitmap_upd bit_clear_iff split: if_splits)
qed

section \<open>Names\<close>

text \<open>\<^verbatim>\<open>snprintf_s\<close> with a count of \<open>len - 1\<close> fails when the text does not fit.\<close>

definition shm_id_format_standardize :: "int \<Rightarrow> string \<Rightarrow> int \<Rightarrow> int \<times> string option" where
  "shm_id_format_standardize phy_id die_id_str buf_len =
     (if phy_id < 0 \<or> buf_len \<le> 0 then (ENPU_INVALID_PARAM, None)
      else let s = ''/die-'' @ dec_int phy_id @ ''-'' @ die_id_str in
        if int (length s) \<ge> buf_len then (ENPU_FAIL, Some (take (nat buf_len - 1) s)) else (ENPU_SUCCESS, Some s))"

section \<open>The scheduling structure\<close>

text \<open>The outcome of the system calls of \<^verbatim>\<open>shm_struct_init\<close>. \<open>xe_existing\<close> is the content of an
  object that is already large enough.\<close>

record sched_env =
  xe_open :: bool
  xe_existing :: "vnpu_time_slice_sched option"
  xe_map_existing :: bool
  xe_reopen :: bool
  xe_truncate :: bool
  xe_map :: bool

definition sched_init :: vnpu_time_slice_sched where
  "sched_init =
     \<lparr>ts_last_alive_time_ns = (\<lambda>_. 0), ts_last_kernel_time_ns = (\<lambda>_. 0), ts_vnpu_schedule_turn = (\<lambda>_. 0),
      ts_vnpu_core_limit_quota = (\<lambda>_. 0), ts_vnpu_priority = (\<lambda>_. 0), ts_owner = -1,
      ts_magic_number = MAGIC_INITIALIZED, ts_slide_window_len = 0, ts_last_slide_window_time_ns = 0,
      ts_vnpu_quota_timeslice = (\<lambda>_. 0), ts_vnpu_cur_timeslice = (\<lambda>_. 0),
      ts_vnpu_quota_injected_for_turn = (\<lambda>_. 0xFF), ts_vnpu_sync_expected = (\<lambda>_. 0),
      ts_vnpu_sync_completed = (\<lambda>_. 0), ts_vnpu_turn_max_sync = (\<lambda>_. 0), ts_vnpu_timeslice_for_turn = (\<lambda>_. 0)\<rparr>"

definition shm_struct_create :: "sched_env \<Rightarrow> int \<times> vnpu_time_slice_sched option" where
  "shm_struct_create env =
     (if \<not> xe_truncate env then (ENPU_FAIL, None)
      else if \<not> xe_map env then (ENPU_FAIL, None)
      else (ENPU_SUCCESS, Some sched_init))"

definition shm_struct_init :: "sched_env \<Rightarrow> int \<times> vnpu_time_slice_sched option" where
  "shm_struct_init env =
     (if \<not> xe_open env then (ENPU_FAIL, None)
      else case xe_existing env of
        Some sched \<Rightarrow>
          if \<not> xe_map_existing env then (ENPU_FAIL, None)
          else if ts_magic_number sched = MAGIC_INITIALIZED then (ENPU_SUCCESS, Some sched)
          else if \<not> xe_reopen env then (ENPU_FAIL, None)
          else shm_struct_create env
      | None \<Rightarrow> shm_struct_create env)"

section \<open>Creating and finding states\<close>

definition process_init :: process_entry where
  "process_init = \<lparr>pr_vcann_rt_id = 0, pr_pid = 0, pr_swapped = False, pr_active = False, pr_last_heartbeat_ns = 0,
     pr_hbm_used = 0, pr_swap_offset = 0, pr_swap_size = 0, pr_ack_pending_seq = 0\<rparr>"

definition entry_init :: vnpu_shm_entry where
  "entry_init = \<lparr>ve_vnpu_id = 0, ve_hbm_request = 0, ve_hbm_limit = 0, ve_hbm_used = 0, ve_sched_policy = 0,
     ve_swap_enabled = False, ve_swap_priority = 0, ve_processes = (\<lambda>_. process_init)\<rparr>"

definition shm_state_posix_shm_create :: "bool \<Rightarrow> int \<Rightarrow> string \<Rightarrow> shm_state option" where
  "shm_state_posix_shm_create os_ok phy_id die_id =
     (if phy_id < 0 then None
      else if length (''/shm_state-'' @ dec_int phy_id @ ''-'' @ die_id) \<ge> 128 then None
      else if \<not> os_ok then None
      else Some \<lparr>ss_version = SHM_STATE_VERSION, ss_phy_id = phy_id, ss_shm_id = copy_str DIE_ID_LEN die_id,
             ss_hbm_total = 0, ss_entries = (\<lambda>_. entry_init), ss_vnpu_bitmap = (0, 0), ss_sched_policy = -1,
             ss_initialized = False,
             ss_swap_cmd = \<lparr>cm_target_pod_uid = [], cm_target_vnpu_id = 0, cm_action = 0, cm_completed = False,
               cm_refcount = 0, cm_cmd_seq = 0, cm_timestamp_ns = 0\<rparr>,
             ss_swap_out_cmd = \<lparr>so_target_vnpu_id = 0, so_action = 0, so_completed = False\<rparr>,
             ss_next_vcann_rt_id = 1\<rparr>)"

text \<open>Attaching to an existing object: \<open>found\<close> is the object of the expected size, if there is one.\<close>

definition shm_state_posix_shm_attach :: "shm_state option \<Rightarrow> int \<Rightarrow> string \<Rightarrow> shm_state option" where
  "shm_state_posix_shm_attach found phy_id die_id =
     (if phy_id < 0 then None
      else if length (''/shm_state-'' @ dec_int phy_id @ ''-'' @ die_id) \<ge> 128 then None
      else case found of None \<Rightarrow> None
        | Some st \<Rightarrow> if ss_version st \<noteq> SHM_STATE_VERSION then None else Some st)"

definition shm_manager_create :: shm_manager where
  "shm_manager_create = \<lparr>sm_shm_states = (\<lambda>_. None), sm_sched_structs = (\<lambda>_. None), sm_shm_state_count = 0,
     sm_initialized = True\<rparr>"

definition shm_manager_get_state :: "shm_manager \<Rightarrow> int \<Rightarrow> shm_state option" where
  "shm_manager_get_state mgr phy_id =
     (if phy_id < 0 \<or> phy_id \<ge> int MAX_NPU_PER_NODE then None else sm_shm_states mgr (nat phy_id))"

definition shm_manager_get_sched_struct :: "shm_manager \<Rightarrow> int \<Rightarrow> vnpu_time_slice_sched option" where
  "shm_manager_get_sched_struct mgr phy_id =
     (if phy_id < 0 \<or> phy_id \<ge> int MAX_NPU_PER_NODE then None else sm_sched_structs mgr (nat phy_id))"

definition put_state :: "shm_manager \<Rightarrow> int \<Rightarrow> shm_state \<Rightarrow> shm_manager" where
  "put_state mgr phy_id st = mgr\<lparr>sm_shm_states := (sm_shm_states mgr)(nat phy_id := Some st)\<rparr>"

definition put_sched :: "shm_manager \<Rightarrow> int \<Rightarrow> vnpu_time_slice_sched \<Rightarrow> shm_manager" where
  "put_sched mgr phy_id sc = mgr\<lparr>sm_sched_structs := (sm_sched_structs mgr)(nat phy_id := Some sc)\<rparr>"

text \<open>\<open>out_len\<close> is the size of the buffer for the name, \<^term>\<open>None\<close> for a NULL buffer; the third
  component is the name written.\<close>

definition shm_manager_get_or_create_shm ::
    "bool \<Rightarrow> sched_env \<Rightarrow> shm_manager \<Rightarrow> int \<Rightarrow> string \<Rightarrow> nat option \<Rightarrow> int \<times> shm_manager \<times> string option" where
  "shm_manager_get_or_create_shm os_ok env mgr phy_id die_id out_len =
     (if phy_id < 0 \<or> phy_id \<ge> int MAX_NPU_PER_NODE then (ENPU_INVALID_PARAM, mgr, None)
      else let writes = (\<lambda>st. case out_len of Some l \<Rightarrow> l > 0 | None \<Rightarrow> False);
               fits = (\<lambda>st. length (ss_shm_id st) < the out_len) in
        case shm_manager_get_state mgr phy_id of
          Some st \<Rightarrow>
            if writes st \<and> \<not> fits st then (ENPU_FAIL, mgr, Some (take (the out_len - 1) (ss_shm_id st)))
            else (ENPU_SUCCESS, mgr, if writes st then Some (ss_shm_id st) else None)
        | None \<Rightarrow>
          (case shm_state_posix_shm_create os_ok phy_id die_id of
             None \<Rightarrow> (ENPU_FAIL, mgr, None)
           | Some st \<Rightarrow>
             if writes st \<and> \<not> fits st then (ENPU_FAIL, mgr, Some (take (the out_len - 1) (ss_shm_id st)))
             else let mgr1 = (put_state mgr phy_id (st\<lparr>ss_initialized := True\<rparr>))
                               \<lparr>sm_shm_state_count := sm_shm_state_count mgr + 1\<rparr>;
                      mgr2 = (case shm_struct_init env of (ret, sched) \<Rightarrow>
                                if ret = ENPU_SUCCESS
                                then mgr1\<lparr>sm_sched_structs := (sm_sched_structs mgr1)(nat phy_id := sched)\<rparr>
                                else mgr1)
                  in (ENPU_SUCCESS, mgr2, if writes st then Some (ss_shm_id st) else None)))"

section \<open>Registering vNPUs\<close>

definition shm_manager_register_vnpu :: "shm_manager \<Rightarrow> int \<Rightarrow> int \<Rightarrow> int \<Rightarrow> int \<Rightarrow> int \<times> shm_manager" where
  "shm_manager_register_vnpu mgr phy_id vnpu_id aicore_quota sched_policy =
     (if phy_id < 0 \<or> vnpu_id < 0 then (ENPU_INVALID_PARAM, mgr)
      else if vnpu_id \<ge> int MAX_VNPU_PER_DIE then (ENPU_INVALID_PARAM, mgr)
      else case shm_manager_get_state mgr phy_id of
        None \<Rightarrow> (ENPU_NOT_FOUND, mgr)
      | Some st \<Rightarrow>
        if \<not> ss_initialized st then (ENPU_FAIL, mgr)
        else if vnpu_bitmap_test (ss_vnpu_bitmap st) vnpu_id then (ENPU_ALREADY_EXISTS, mgr)
        else if ss_sched_policy st \<noteq> -1 \<and> ss_sched_policy st \<noteq> sched_policy then (ENPU_INVALID_PARAM, mgr)
        else (ENPU_SUCCESS, put_state mgr phy_id (st\<lparr>
               ss_sched_policy := sched_policy,
               ss_entries := (ss_entries st)(nat vnpu_id := entry_init\<lparr>ve_vnpu_id := vnpu_id, ve_sched_policy := sched_policy\<rparr>),
               ss_vnpu_bitmap := vnpu_bitmap_set (ss_vnpu_bitmap st) vnpu_id\<rparr>)))"

text \<open>\<^verbatim>\<open>shm_manager_unregister_vnpu\<close> has no upper bound check: a number of 128 or more reads past the
  bitmap.\<close>

definition shm_manager_unregister_vnpu :: "shm_manager \<Rightarrow> int \<Rightarrow> int \<Rightarrow> (int \<times> shm_manager) option" where
  "shm_manager_unregister_vnpu mgr phy_id vnpu_id =
     (if phy_id < 0 \<or> vnpu_id < 0 then Some (ENPU_INVALID_PARAM, mgr)
      else case shm_manager_get_state mgr phy_id of
        None \<Rightarrow> Some (ENPU_NOT_FOUND, mgr)
      | Some st \<Rightarrow>
        if vnpu_id \<ge> int MAX_VNPU_PER_DIE then None
        else if \<not> vnpu_bitmap_test (ss_vnpu_bitmap st) vnpu_id then Some (ENPU_NOT_FOUND, mgr)
        else let b = vnpu_bitmap_clear (ss_vnpu_bitmap st) vnpu_id in
          Some (ENPU_SUCCESS, put_state mgr phy_id (st\<lparr>
            ss_entries := (ss_entries st)(nat vnpu_id := (ss_entries st (nat vnpu_id))\<lparr>ve_vnpu_id := -1\<rparr>),
            ss_vnpu_bitmap := b,
            ss_sched_policy := (if b = (0, 0) then -1 else ss_sched_policy st)\<rparr>)))"

definition shm_manager_add_entry :: "shm_manager \<Rightarrow> int \<Rightarrow> vnpu_shm_entry \<Rightarrow> int \<times> shm_manager" where
  "shm_manager_add_entry mgr phy_id entry =
     (if phy_id < 0 then (ENPU_INVALID_PARAM, mgr)
      else if ve_vnpu_id entry < 0 \<or> ve_vnpu_id entry \<ge> int MAX_VNPU_PER_DIE then (ENPU_INVALID_PARAM, mgr)
      else case shm_manager_get_state mgr phy_id of
        None \<Rightarrow> (ENPU_NOT_FOUND, mgr)
      | Some st \<Rightarrow>
        if vnpu_bitmap_test (ss_vnpu_bitmap st) (ve_vnpu_id entry) then (ENPU_ALREADY_EXISTS, mgr)
        else (ENPU_SUCCESS, put_state mgr phy_id (st\<lparr>
               ss_entries := (ss_entries st)(nat (ve_vnpu_id entry) := entry),
               ss_vnpu_bitmap := vnpu_bitmap_set (ss_vnpu_bitmap st) (ve_vnpu_id entry)\<rparr>)))"

definition shm_manager_remove_entry :: "shm_manager \<Rightarrow> int \<Rightarrow> int \<Rightarrow> int \<times> shm_manager" where
  "shm_manager_remove_entry mgr phy_id vnpu_id =
     (if phy_id < 0 \<or> vnpu_id < 0 then (ENPU_INVALID_PARAM, mgr)
      else if vnpu_id \<ge> int MAX_VNPU_PER_DIE then (ENPU_INVALID_PARAM, mgr)
      else case shm_manager_get_state mgr phy_id of
        None \<Rightarrow> (ENPU_NOT_FOUND, mgr)
      | Some st \<Rightarrow>
        if \<not> vnpu_bitmap_test (ss_vnpu_bitmap st) vnpu_id then (ENPU_NOT_FOUND, mgr)
        else (ENPU_SUCCESS, put_state mgr phy_id (st\<lparr>
               ss_entries := (ss_entries st)(nat vnpu_id := (ss_entries st (nat vnpu_id))\<lparr>ve_vnpu_id := -1\<rparr>),
               ss_vnpu_bitmap := vnpu_bitmap_clear (ss_vnpu_bitmap st) vnpu_id\<rparr>)))"

definition shm_manager_init_state :: "shm_manager \<Rightarrow> int \<Rightarrow> u64 \<Rightarrow> int \<times> shm_manager" where
  "shm_manager_init_state mgr phy_id hbm_total =
     (if phy_id < 0 then (ENPU_INVALID_PARAM, mgr)
      else case shm_manager_get_state mgr phy_id of
        None \<Rightarrow> (ENPU_NOT_FOUND, mgr)
      | Some st \<Rightarrow> (ENPU_SUCCESS, put_state mgr phy_id (st\<lparr>ss_hbm_total := hbm_total,
            ss_swap_cmd := (ss_swap_cmd st)\<lparr>cm_completed := True\<rparr>,
            ss_swap_out_cmd := (ss_swap_out_cmd st)\<lparr>so_completed := True\<rparr>\<rparr>)))"

section \<open>Swap commands\<close>

definition find_entry :: "shm_state \<Rightarrow> int \<Rightarrow> vnpu_shm_entry option" where
  "find_entry st vnpu_id =
     (if vnpu_id < 0 \<or> vnpu_id \<ge> int MAX_VNPU_PER_DIE then None
      else if vnpu_bitmap_test (ss_vnpu_bitmap st) vnpu_id then Some (ss_entries st (nat vnpu_id))
      else None)"

definition upd_entry :: "shm_state \<Rightarrow> int \<Rightarrow> (vnpu_shm_entry \<Rightarrow> vnpu_shm_entry) \<Rightarrow> shm_state" where
  "upd_entry st vnpu_id f = st\<lparr>ss_entries := (ss_entries st)(nat vnpu_id := f (ss_entries st (nat vnpu_id)))\<rparr>"

definition upd_process :: "shm_state \<Rightarrow> int \<Rightarrow> nat \<Rightarrow> (process_entry \<Rightarrow> process_entry) \<Rightarrow> shm_state" where
  "upd_process st vnpu_id slot f =
     upd_entry st vnpu_id (\<lambda>e. e\<lparr>ve_processes := (ve_processes e)(slot := f (ve_processes e slot))\<rparr>)"

abbreviation (input) slots :: "nat list" where "slots \<equiv> [0..<MAX_PROCESSES_PER_VNPU]"

text \<open>\<^verbatim>\<open>shm_manager_set_swap_state\<close> only checks its arguments: the swap state is kept per process.\<close>

definition shm_manager_set_swap_state :: "shm_manager \<Rightarrow> int \<Rightarrow> int \<Rightarrow> u64 \<Rightarrow> u64 \<Rightarrow> int \<times> shm_manager" where
  "shm_manager_set_swap_state mgr phy_id vnpu_id offset sz =
     (if phy_id < 0 \<or> vnpu_id < 0 then (ENPU_INVALID_PARAM, mgr)
      else case shm_manager_get_state mgr phy_id of
        None \<Rightarrow> (ENPU_NOT_FOUND, mgr)
      | Some st \<Rightarrow> (case find_entry st vnpu_id of None \<Rightarrow> (ENPU_NOT_FOUND, mgr) | Some _ \<Rightarrow> (ENPU_SUCCESS, mgr)))"

fun swap_state_scan :: "(nat \<Rightarrow> process_entry) \<Rightarrow> nat list \<Rightarrow> bool \<times> u64 \<times> u64 \<Rightarrow> bool \<times> u64 \<times> u64" where
  "swap_state_scan ps [] r = r"
| "swap_state_scan ps (i # is) (swapped, offset, sz) =
     swap_state_scan ps is
       (if pr_active (ps i) \<and> \<not> pr_swapped (ps i) then False else swapped,
        if offset = 0 \<and> pr_swap_size (ps i) \<noteq> 0 then pr_swap_offset (ps i) else offset,
        sz + pr_swap_size (ps i))"

definition shm_manager_get_swap_state :: "shm_manager \<Rightarrow> int \<Rightarrow> int \<Rightarrow> int \<times> (bool \<times> u64 \<times> u64) option" where
  "shm_manager_get_swap_state mgr phy_id vnpu_id =
     (if phy_id < 0 \<or> vnpu_id < 0 then (ENPU_INVALID_PARAM, None)
      else case shm_manager_get_state mgr phy_id of
        None \<Rightarrow> (ENPU_NOT_FOUND, None)
      | Some st \<Rightarrow> (case find_entry st vnpu_id of
          None \<Rightarrow> (ENPU_NOT_FOUND, None)
        | Some e \<Rightarrow> (ENPU_SUCCESS, Some (swap_state_scan (ve_processes e) slots (True, 0, 0)))))"

definition mark_active :: "u64 \<Rightarrow> vnpu_shm_entry \<Rightarrow> vnpu_shm_entry" where
  "mark_active seq e = e\<lparr>ve_processes := (\<lambda>i.
     if i < MAX_PROCESSES_PER_VNPU \<and> pr_active (ve_processes e i)
     then (ve_processes e i)\<lparr>pr_ack_pending_seq := seq\<rparr> else ve_processes e i)\<rparr>"

definition active_count :: "vnpu_shm_entry \<Rightarrow> nat" where
  "active_count e = length (filter (\<lambda>i. pr_active (ve_processes e i)) slots)"

text \<open>The critical section of \<^verbatim>\<open>shm_manager_write_swap_cmd\<close> on the state of the die; \<open>now_s\<close> is the
  value of \<^verbatim>\<open>time(NULL)\<close>.\<close>

definition write_swap_cmd_locked :: "u64 \<Rightarrow> shm_state \<Rightarrow> string \<Rightarrow> int \<Rightarrow> int \<Rightarrow> int \<Rightarrow> int \<times> shm_state" where
  "write_swap_cmd_locked now_s st pod_uid vnpu_id action to_swap_out =
     (if length pod_uid \<ge> MAX_UUID_LEN
      then (ENPU_FAIL, st\<lparr>ss_swap_cmd := (ss_swap_cmd st)\<lparr>cm_target_pod_uid := take (MAX_UUID_LEN - 1) pod_uid\<rparr>\<rparr>)
      else let c1 = (ss_swap_cmd st)\<lparr>cm_target_pod_uid := pod_uid, cm_target_vnpu_id := vnpu_id\<rparr>;
               o1 = (if to_swap_out \<noteq> SWAP_OUT_NONE
                     then (ss_swap_out_cmd st)\<lparr>so_target_vnpu_id := vnpu_id\<rparr> else ss_swap_out_cmd st);
               st1 = st\<lparr>ss_swap_out_cmd := o1\<rparr>;
               st2 = (if action = SWAP_ACTION_OUT
                      then let seq = cm_cmd_seq c1 + 1;
                               count = active_count (ss_entries st (nat vnpu_id))
                           in (upd_entry st1 vnpu_id (mark_active seq))
                                \<lparr>ss_swap_cmd := c1\<lparr>cm_cmd_seq := seq, cm_refcount := int count,
                                                   cm_completed := (count = 0)\<rparr>\<rparr>
                      else st1\<lparr>ss_swap_cmd := c1\<lparr>cm_completed := False\<rparr>\<rparr>)
           in (ENPU_SUCCESS, st2\<lparr>ss_swap_cmd := (ss_swap_cmd st2)
                \<lparr>cm_timestamp_ns := now_s * 1000000000, cm_action := action\<rparr>\<rparr>))"

definition shm_manager_write_swap_cmd ::
    "u64 \<Rightarrow> shm_manager \<Rightarrow> int \<Rightarrow> string \<Rightarrow> int \<Rightarrow> int \<Rightarrow> int \<Rightarrow> int \<times> shm_manager" where
  "shm_manager_write_swap_cmd now_s mgr phy_id pod_uid vnpu_id action to_swap_out =
     (if phy_id < 0 then (ENPU_INVALID_PARAM, mgr)
      else if vnpu_id < 0 \<or> vnpu_id \<ge> int MAX_VNPU_PER_DIE then (ENPU_INVALID_PARAM, mgr)
      else if action < SWAP_ACTION_NONE \<or> action > SWAP_ACTION_IN then (ENPU_INVALID_PARAM, mgr)
      else case shm_manager_get_state mgr phy_id of
        None \<Rightarrow> (ENPU_NOT_FOUND, mgr)
      | Some st \<Rightarrow> (case write_swap_cmd_locked now_s st pod_uid vnpu_id action to_swap_out of
          (ret, st') \<Rightarrow> (ret, put_state mgr phy_id st')))"

definition shm_manager_read_swap_cmd :: "shm_manager \<Rightarrow> int \<Rightarrow> int \<times> (string \<times> int \<times> int \<times> bool) option" where
  "shm_manager_read_swap_cmd mgr phy_id =
     (if phy_id < 0 then (ENPU_INVALID_PARAM, None)
      else case shm_manager_get_state mgr phy_id of
        None \<Rightarrow> (ENPU_NOT_FOUND, None)
      | Some st \<Rightarrow> let c = ss_swap_cmd st in
          (ENPU_SUCCESS, Some (cm_target_pod_uid c, cm_target_vnpu_id c, cm_action c, cm_completed c)))"

definition owes_ack :: "vnpu_shm_entry \<Rightarrow> u64 \<Rightarrow> bool" where
  "owes_ack e seq = list_ex (\<lambda>i. pr_ack_pending_seq (ve_processes e i) = seq) slots"

definition swap_cmd_has_pending_ack_locked :: "shm_state \<Rightarrow> int \<Rightarrow> u64 \<Rightarrow> bool" where
  "swap_cmd_has_pending_ack_locked st vnpu_id seq =
     (case find_entry st vnpu_id of None \<Rightarrow> False | Some e \<Rightarrow> owes_ack e seq)"

definition swap_cmd_mark_completed_locked :: "shm_state \<Rightarrow> shm_state" where
  "swap_cmd_mark_completed_locked st =
     st\<lparr>ss_swap_cmd := (ss_swap_cmd st)\<lparr>cm_completed := True, cm_action := SWAP_ACTION_NONE\<rparr>,
        ss_swap_out_cmd := (if cm_target_vnpu_id (ss_swap_cmd st) = so_target_vnpu_id (ss_swap_out_cmd st)
                            then (ss_swap_out_cmd st)\<lparr>so_completed := True\<rparr> else ss_swap_out_cmd st)\<rparr>"

definition shm_manager_ack_swap_cmd :: "shm_manager \<Rightarrow> int \<Rightarrow> int \<times> shm_manager" where
  "shm_manager_ack_swap_cmd mgr phy_id =
     (if phy_id < 0 then (ENPU_INVALID_PARAM, mgr)
      else case shm_manager_get_state mgr phy_id of
        None \<Rightarrow> (ENPU_NOT_FOUND, mgr)
      | Some st \<Rightarrow> (ENPU_SUCCESS, put_state mgr phy_id (swap_cmd_mark_completed_locked st)))"

text \<open>The critical sections of the two watchdog operations on the state of a die.\<close>

definition proxy_ack_locked :: "shm_state \<Rightarrow> int \<Rightarrow> nat \<Rightarrow> shm_state" where
  "proxy_ack_locked st vnpu_id slot =
     (if cm_action (ss_swap_cmd st) \<noteq> SWAP_ACTION_OUT then st
      else let seq = cm_cmd_seq (ss_swap_cmd st) in
        if seq = 0 then st
        else let pending = pr_ack_pending_seq (ve_processes (ss_entries st (nat vnpu_id)) slot);
                 st1 = upd_process st vnpu_id slot (\<lambda>pe. pe\<lparr>pr_ack_pending_seq := 0\<rparr>) in
          if pending \<noteq> seq then st1
          else let st2 = st1\<lparr>ss_swap_cmd := (ss_swap_cmd st1)\<lparr>cm_refcount := cm_refcount (ss_swap_cmd st1) - 1\<rparr>\<rparr> in
            if \<not> swap_cmd_has_pending_ack_locked st2 vnpu_id seq then swap_cmd_mark_completed_locked st2 else st2)"

definition shm_manager_proxy_ack_process :: "shm_manager \<Rightarrow> int \<Rightarrow> int \<Rightarrow> int \<Rightarrow> int \<times> shm_manager" where
  "shm_manager_proxy_ack_process mgr phy_id vnpu_id slot =
     (if phy_id < 0 then (ENPU_INVALID_PARAM, mgr)
      else if vnpu_id < 0 \<or> vnpu_id \<ge> int MAX_VNPU_PER_DIE \<or> slot < 0 \<or> slot \<ge> int MAX_PROCESSES_PER_VNPU
      then (ENPU_INVALID_PARAM, mgr)
      else case shm_manager_get_state mgr phy_id of
        None \<Rightarrow> (ENPU_NOT_FOUND, mgr)
      | Some st \<Rightarrow> (ENPU_SUCCESS, put_state mgr phy_id (proxy_ack_locked st vnpu_id (nat slot))))"

definition try_complete_locked :: "shm_state \<Rightarrow> shm_state" where
  "try_complete_locked st =
     (let c = ss_swap_cmd st; seq = cm_cmd_seq c; vnpu_id = cm_target_vnpu_id c in
      if cm_completed c \<or> cm_action c \<noteq> SWAP_ACTION_OUT then st
      else if seq = 0 \<or> vnpu_id < 0 \<or> vnpu_id \<ge> int MAX_VNPU_PER_DIE then st
      else if swap_cmd_has_pending_ack_locked st vnpu_id seq then st
      else swap_cmd_mark_completed_locked st)"

definition shm_manager_try_complete_swap_cmd :: "shm_manager \<Rightarrow> int \<Rightarrow> int \<times> shm_manager" where
  "shm_manager_try_complete_swap_cmd mgr phy_id =
     (if phy_id < 0 then (ENPU_INVALID_PARAM, mgr)
      else case shm_manager_get_state mgr phy_id of
        None \<Rightarrow> (ENPU_NOT_FOUND, mgr)
      | Some st \<Rightarrow> (ENPU_SUCCESS, put_state mgr phy_id (try_complete_locked st)))"

definition all_swapped :: "vnpu_shm_entry \<Rightarrow> bool" where
  "all_swapped e =
     (let active = filter (\<lambda>i. pr_active (ve_processes e i)) slots;
          swapped = filter (\<lambda>i. pr_swapped (ve_processes e i)) active
      in length active > 0 \<and> length swapped = length active)"

definition shm_manager_get_vnpu_all_swapped :: "shm_manager \<Rightarrow> int \<Rightarrow> int \<Rightarrow> int \<times> bool option" where
  "shm_manager_get_vnpu_all_swapped mgr phy_id vnpu_id =
     (if phy_id < 0 \<or> vnpu_id < 0 then (ENPU_INVALID_PARAM, None)
      else case shm_manager_get_state mgr phy_id of
        None \<Rightarrow> (ENPU_NOT_FOUND, None)
      | Some st \<Rightarrow> (case find_entry st vnpu_id of
          None \<Rightarrow> (ENPU_NOT_FOUND, None)
        | Some e \<Rightarrow> (ENPU_SUCCESS, Some (all_swapped e))))"

definition shm_manager_set_swap_enabled :: "shm_manager \<Rightarrow> int \<Rightarrow> int \<Rightarrow> bool \<Rightarrow> int \<times> shm_manager" where
  "shm_manager_set_swap_enabled mgr phy_id vnpu_id enabled =
     (if phy_id < 0 \<or> vnpu_id < 0 then (ENPU_INVALID_PARAM, mgr)
      else case shm_manager_get_state mgr phy_id of
        None \<Rightarrow> (ENPU_NOT_FOUND, mgr)
      | Some st \<Rightarrow> (case find_entry st vnpu_id of
          None \<Rightarrow> (ENPU_NOT_FOUND, mgr)
        | Some _ \<Rightarrow> (ENPU_SUCCESS, put_state mgr phy_id (upd_entry st vnpu_id (\<lambda>e. e\<lparr>ve_swap_enabled := enabled\<rparr>)))))"

definition shm_manager_get_swap_enabled :: "shm_manager \<Rightarrow> int \<Rightarrow> int \<Rightarrow> int \<times> bool option" where
  "shm_manager_get_swap_enabled mgr phy_id vnpu_id =
     (if phy_id < 0 \<or> vnpu_id < 0 then (ENPU_INVALID_PARAM, None)
      else case shm_manager_get_state mgr phy_id of
        None \<Rightarrow> (ENPU_NOT_FOUND, None)
      | Some st \<Rightarrow> (case find_entry st vnpu_id of
          None \<Rightarrow> (ENPU_NOT_FOUND, None)
        | Some e \<Rightarrow> (ENPU_SUCCESS, Some (ve_swap_enabled e))))"

section \<open>The destruction of the manager\<close>

definition bitmap_count :: "vnpu_bitmap \<Rightarrow> nat" where
  "bitmap_count b = length (filter (\<lambda>v. vnpu_bitmap_test b (int v)) [0..<MAX_VNPU_PER_DIE])"

text \<open>The unlinked scheduling objects and states: \<^verbatim>\<open>shm_struct_cleanup\<close> keeps a structure whose die
  still has vNPUs. The name of the structure is read through the state pointer without a check.\<close>

fun destroy_dies :: "shm_manager \<Rightarrow> nat list \<Rightarrow> (nat list \<times> nat list) option" where
  "destroy_dies mgr [] = Some ([], [])"
| "destroy_dies mgr (i # is) =
     (case (sm_sched_structs mgr i, sm_shm_states mgr i) of
        (Some _, None) \<Rightarrow> None
      | (sched, st) \<Rightarrow> do {
          (unlinked, destroyed) \<leftarrow> destroy_dies mgr is;
          Some ((if sched \<noteq> None \<and> bitmap_count (ss_vnpu_bitmap (the st)) = 0 then i # unlinked else unlinked),
                (if st \<noteq> None then i # destroyed else destroyed))
        })"

definition shm_manager_destroy :: "shm_manager \<Rightarrow> (int \<times> nat list \<times> nat list) option" where
  "shm_manager_destroy mgr =
     do { (unlinked, destroyed) \<leftarrow> destroy_dies mgr [0..<MAX_NPU_PER_NODE]; Some (ENPU_SUCCESS, unlinked, destroyed) }"

end
