(* ===== verification/Swap_Protocol.thy ===== *)
theory Swap_Protocol
  imports Shm_State
begin

text \<open>
  The swap-out protocol between the manager and the runtime processes. The manager writes a command
  and marks every active process slot of the target vNPU as owing an acknowledgement for the epoch
  (\<^verbatim>\<open>shm_manager_write_swap_cmd\<close>); a process acknowledges for itself
  (\<^verbatim>\<open>vcann-rt/src/shm_manager.c\<close>: \<^verbatim>\<open>shm_try_ack_swap_cmd\<close>), or the watchdog acknowledges for a dead
  one (\<^verbatim>\<open>shm_manager_proxy_ack_process\<close>). The first part takes each acknowledgement as one step and
  shows exactly-once accounting and completion for every order of acknowledgements.
\<close>

section \<open>The runtime side\<close>

definition shm_get_entry :: "shm_state \<Rightarrow> int \<Rightarrow> vnpu_shm_entry option" where
  "shm_get_entry st vnpu_id =
     (if vnpu_id < 0 \<or> vnpu_id \<ge> int MAX_VNPU_PER_DIE then None
      else if \<not> vnpu_bitmap_test (ss_vnpu_bitmap st) vnpu_id then None
      else Some (ss_entries st (nat vnpu_id)))"

definition shm_update_hbm_request :: "shm_state \<Rightarrow> int \<Rightarrow> u64 \<Rightarrow> int \<times> shm_state" where
  "shm_update_hbm_request st vnpu_id request_quota =
     (case shm_get_entry st vnpu_id of None \<Rightarrow> (RT_ENPU_FAIL, st)
      | Some _ \<Rightarrow> (ENPU_SUCCESS, upd_entry st vnpu_id (\<lambda>e. e\<lparr>ve_hbm_request := request_quota\<rparr>)))"

definition shm_update_used :: "shm_state \<Rightarrow> int \<Rightarrow> u64 \<Rightarrow> int \<times> shm_state" where
  "shm_update_used st vnpu_id used =
     (case shm_get_entry st vnpu_id of None \<Rightarrow> (RT_ENPU_FAIL, st)
      | Some _ \<Rightarrow> (ENPU_SUCCESS, upd_entry st vnpu_id (\<lambda>e. e\<lparr>ve_hbm_used := used\<rparr>)))"

abbreviation (input) MB_TO_B :: u64 where "MB_TO_B \<equiv> 1048576"

fun free_totals :: "shm_state \<Rightarrow> nat list \<Rightarrow> u64 \<times> u64 \<Rightarrow> u64 \<times> u64" where
  "free_totals st [] r = r"
| "free_totals st (v # vs) (total_used, total_hbm_request) =
     free_totals st vs
       (if vnpu_bitmap_test (ss_vnpu_bitmap st) (int v)
        then let used = ve_hbm_used (ss_entries st v); hbm_request = ve_hbm_request (ss_entries st v) * MB_TO_B
             in (if used > hbm_request then total_used + used - hbm_request else total_used,
                 total_hbm_request + hbm_request)
        else (total_used, total_hbm_request))"

definition shm_get_dynamic_free :: "shm_state \<Rightarrow> u64" where
  "shm_get_dynamic_free st =
     (case free_totals st [0..<MAX_VNPU_PER_DIE] (0, 0) of (total_used, total_hbm_request) \<Rightarrow>
        if ss_hbm_total st \<le> total_hbm_request then 0
        else if ss_hbm_total st - total_hbm_request > total_used
             then ss_hbm_total st - total_hbm_request - total_used else 0)"

definition shm_get_hbm_request_free :: "shm_state \<Rightarrow> u64" where
  "shm_get_hbm_request_free st =
     (case free_totals st [0..<MAX_VNPU_PER_DIE] (0, 0) of (_, total_hbm_request) \<Rightarrow>
        if ss_hbm_total st > total_hbm_request then ss_hbm_total st - total_hbm_request else 0)"

definition shm_check_swap_cmd :: "shm_state \<Rightarrow> int \<times> int" where
  "shm_check_swap_cmd st = (cm_target_vnpu_id (ss_swap_cmd st), cm_action (ss_swap_cmd st))"

definition shm_ack_swap_cmd :: "shm_state \<Rightarrow> shm_state" where
  "shm_ack_swap_cmd st =
     st\<lparr>ss_swap_cmd := (ss_swap_cmd st)\<lparr>cm_completed := True, cm_action := SWAP_ACTION_NONE\<rparr>,
        ss_swap_out_cmd := (if cm_target_vnpu_id (ss_swap_cmd st) = so_target_vnpu_id (ss_swap_out_cmd st)
                            then (ss_swap_out_cmd st)\<lparr>so_completed := True\<rparr> else ss_swap_out_cmd st)\<rparr>"

definition shm_swap_ack_done :: "shm_state \<Rightarrow> int \<Rightarrow> u64 \<Rightarrow> bool" where
  "shm_swap_ack_done st vnpu_id seq =
     (if vnpu_id < 0 \<or> vnpu_id \<ge> int MAX_VNPU_PER_DIE then False
      else if seq = 0 then True
      else \<not> owes_ack (ss_entries st (nat vnpu_id)) seq)"

definition swap_cmd_finish_if_epoch :: "shm_state \<Rightarrow> int \<Rightarrow> u64 \<Rightarrow> shm_state" where
  "swap_cmd_finish_if_epoch st vnpu_id seq =
     (if cm_cmd_seq (ss_swap_cmd st) \<noteq> seq then st
      else if cm_action (ss_swap_cmd st) \<noteq> SWAP_ACTION_OUT then st
      else if \<not> shm_swap_ack_done st vnpu_id seq then st
      else if cm_cmd_seq (ss_swap_cmd st) \<noteq> seq then st
      else shm_ack_swap_cmd st)"

definition shm_try_ack_swap_cmd :: "shm_state \<Rightarrow> int \<Rightarrow> int \<Rightarrow> u64 \<Rightarrow> int \<times> shm_state" where
  "shm_try_ack_swap_cmd st vnpu_id slot seq =
     (if vnpu_id < 0 \<or> vnpu_id \<ge> int MAX_VNPU_PER_DIE \<or> slot < 0 \<or> slot \<ge> int MAX_PROCESSES_PER_VNPU \<or> seq = 0
      then (-1, st)
      else let pending = pr_ack_pending_seq (ve_processes (ss_entries st (nat vnpu_id)) (nat slot));
               st1 = upd_process st vnpu_id (nat slot) (\<lambda>pe. pe\<lparr>pr_ack_pending_seq := 0\<rparr>) in
        if pending \<noteq> seq then (-1, st1)
        else let prev = cm_refcount (ss_swap_cmd st1);
                 st2 = st1\<lparr>ss_swap_cmd := (ss_swap_cmd st1)\<lparr>cm_refcount := prev - 1\<rparr>\<rparr>
             in (if prev > 0 then prev - 1 else 0, swap_cmd_finish_if_epoch st2 vnpu_id seq))"

definition shm_set_process_swapped :: "shm_state \<Rightarrow> int \<Rightarrow> int \<Rightarrow> bool \<Rightarrow> shm_state" where
  "shm_set_process_swapped st vnpu_id slot swapped =
     (if vnpu_id < 0 \<or> vnpu_id \<ge> int MAX_VNPU_PER_DIE \<or> slot < 0 \<or> slot \<ge> int MAX_PROCESSES_PER_VNPU then st
      else upd_process st vnpu_id (nat slot) (\<lambda>pe. pe\<lparr>pr_swapped := swapped\<rparr>))"

definition shm_get_vnpu_all_swapped :: "shm_state \<Rightarrow> int \<Rightarrow> bool" where
  "shm_get_vnpu_all_swapped st vnpu_id =
     (if vnpu_id < 0 \<or> vnpu_id \<ge> int MAX_VNPU_PER_DIE then False
      else list_all (\<lambda>i. \<not> (pr_active (ve_processes (ss_entries st (nat vnpu_id)) i)
                         \<and> \<not> pr_swapped (ve_processes (ss_entries st (nat vnpu_id)) i))) slots)"

section \<open>Accounting of one epoch\<close>

text \<open>The slots of a vNPU that owe an acknowledgement for the epoch.\<close>

definition pending :: "shm_state \<Rightarrow> int \<Rightarrow> u64 \<Rightarrow> nat set" where
  "pending st v seq = {i. i < MAX_PROCESSES_PER_VNPU \<and> pr_ack_pending_seq (ve_processes (ss_entries st (nat v)) i) = seq}"

definition epoch_ok :: "shm_state \<Rightarrow> int \<Rightarrow> u64 \<Rightarrow> bool" where
  "epoch_ok st v seq \<longleftrightarrow> 0 \<le> v \<and> v < int MAX_VNPU_PER_DIE \<and> vnpu_bitmap_test (ss_vnpu_bitmap st) v \<and> seq \<noteq> 0
     \<and> cm_cmd_seq (ss_swap_cmd st) = seq \<and> cm_target_vnpu_id (ss_swap_cmd st) = v
     \<and> cm_action (ss_swap_cmd st) = (if cm_completed (ss_swap_cmd st) then SWAP_ACTION_NONE else SWAP_ACTION_OUT)
     \<and> (cm_completed (ss_swap_cmd st) \<longleftrightarrow> pending st v seq = {})
     \<and> cm_refcount (ss_swap_cmd st) = int (card (pending st v seq))"

datatype ack = Rt_ack nat | Proxy_ack nat

fun ack_slot :: "ack \<Rightarrow> nat" where
  "ack_slot (Rt_ack i) = i"
| "ack_slot (Proxy_ack i) = i"

fun do_ack :: "int \<Rightarrow> u64 \<Rightarrow> ack \<Rightarrow> shm_state \<Rightarrow> shm_state" where
  "do_ack v seq (Rt_ack i) st = snd (shm_try_ack_swap_cmd st v (int i) seq)"
| "do_ack v seq (Proxy_ack i) st = proxy_ack_locked st v i"

lemma owes_ack_pending: "owes_ack (ss_entries st (nat v)) seq \<longleftrightarrow> pending st v seq \<noteq> {}"
  by (auto simp: owes_ack_def pending_def list_ex_iff)

lemma pending_clear:
  "seq \<noteq> 0 \<Longrightarrow> pending (upd_process st v i (\<lambda>pe. pe\<lparr>pr_ack_pending_seq := 0\<rparr>)) v seq = pending st v seq - {i}"
  by (auto simp: pending_def upd_process_def upd_entry_def)

lemma pending_cmd [simp]:
  "pending (st\<lparr>ss_swap_cmd := c\<rparr>) v seq = pending st v seq"
  "pending (st\<lparr>ss_swap_cmd := c, ss_swap_out_cmd := d\<rparr>) v seq = pending st v seq"
  by (simp_all add: pending_def)

lemma upd_process_frame [simp]:
  "ss_swap_cmd (upd_process st v i f) = ss_swap_cmd st"
  "ss_vnpu_bitmap (upd_process st v i f) = ss_vnpu_bitmap st"
  "ss_swap_out_cmd (upd_process st v i f) = ss_swap_out_cmd st"
  by (simp_all add: upd_process_def upd_entry_def)

lemma finite_pending [simp]: "finite (pending st v seq)"
  by (simp add: pending_def)

definition take_ack :: "shm_state \<Rightarrow> int \<Rightarrow> nat \<Rightarrow> shm_state" where
  "take_ack st v i = (upd_process st v i (\<lambda>pe. pe\<lparr>pr_ack_pending_seq := 0\<rparr>))
     \<lparr>ss_swap_cmd := (ss_swap_cmd st)\<lparr>cm_refcount := cm_refcount (ss_swap_cmd st) - 1\<rparr>\<rparr>"

lemma take_ack_simps:
  "ss_swap_cmd (take_ack st v i) = (ss_swap_cmd st)\<lparr>cm_refcount := cm_refcount (ss_swap_cmd st) - 1\<rparr>"
  "ss_vnpu_bitmap (take_ack st v i) = ss_vnpu_bitmap st"
  "seq \<noteq> 0 \<Longrightarrow> pending (take_ack st v i) v seq = pending st v seq - {i}"
  using pending_clear [of seq st v i] by (simp_all add: take_ack_def)

lemma shm_ack_swap_cmd_simps:
  "ss_swap_cmd (shm_ack_swap_cmd st) = (ss_swap_cmd st)\<lparr>cm_completed := True, cm_action := SWAP_ACTION_NONE\<rparr>"
  "ss_vnpu_bitmap (shm_ack_swap_cmd st) = ss_vnpu_bitmap st"
  "pending (shm_ack_swap_cmd st) v seq = pending st v seq"
  by (simp_all add: shm_ack_swap_cmd_def)

lemma mark_completed_eq: "swap_cmd_mark_completed_locked = shm_ack_swap_cmd"
  by (simp add: fun_eq_iff swap_cmd_mark_completed_locked_def shm_ack_swap_cmd_def)

lemma do_ack_pending:
  assumes "epoch_ok st v seq" "ack_slot a \<in> pending st v seq"
  shows "do_ack v seq a st = (if pending st v seq - {ack_slot a} = {} then shm_ack_swap_cmd (take_ack st v (ack_slot a))
                              else take_ack st v (ack_slot a))"
proof -
  let ?i = "ack_slot a"
  have open_cmd: "cm_action (ss_swap_cmd st) = SWAP_ACTION_OUT" and seq: "seq \<noteq> 0" "cm_cmd_seq (ss_swap_cmd st) = seq"
    and v: "0 \<le> v" "v < 128" "vnpu_bitmap_test (ss_vnpu_bitmap st) v"
    using assms by (auto simp: epoch_ok_def split: if_splits)
  have i: "?i < 64" "pr_ack_pending_seq (ve_processes (ss_entries st (nat v)) ?i) = seq"
    using assms(2) by (auto simp: pending_def)
  have frame: "cm_action (ss_swap_cmd (take_ack st v ?i)) = SWAP_ACTION_OUT"
    "cm_cmd_seq (ss_swap_cmd (take_ack st v ?i)) = seq"
    "ss_vnpu_bitmap (take_ack st v ?i) = ss_vnpu_bitmap st"
    by (simp_all add: take_ack_def open_cmd seq)
  have pend: "pending (take_ack st v ?i) v seq = pending st v seq - {?i}"
    using pending_clear [OF seq(1)] by (simp add: take_ack_def)
  have owes: "owes_ack (ss_entries (take_ack st v ?i) (nat v)) seq \<longleftrightarrow> pending st v seq - {?i} \<noteq> {}"
    using owes_ack_pending [of "take_ack st v ?i" v seq] by (simp add: pend)
  show ?thesis
  proof (cases a)
    case (Rt_ack k)
    then have k: "k = ?i" by simp
    have "do_ack v seq a st = swap_cmd_finish_if_epoch (take_ack st v ?i) v seq"
      using Rt_ack i v seq(1) by (simp add: shm_try_ack_swap_cmd_def Let_def take_ack_def)
    then show ?thesis
      using v seq frame owes by (simp add: swap_cmd_finish_if_epoch_def shm_swap_ack_done_def)
  next
    case (Proxy_ack k)
    then have k: "k = ?i" by simp
    have "do_ack v seq a st = (if \<not> swap_cmd_has_pending_ack_locked (take_ack st v ?i) v seq
        then swap_cmd_mark_completed_locked (take_ack st v ?i) else take_ack st v ?i)"
      using Proxy_ack i seq open_cmd by (simp add: proxy_ack_locked_def Let_def take_ack_def)
    then show ?thesis
      using v frame owes by (simp add: swap_cmd_has_pending_ack_locked_def find_entry_def mark_completed_eq)
  qed
qed

lemma do_ack_not_pending:
  assumes "epoch_ok st v seq" "ack_slot a < MAX_PROCESSES_PER_VNPU" "ack_slot a \<notin> pending st v seq"
  shows "do_ack v seq a st = st \<or>
         do_ack v seq a st = upd_process st v (ack_slot a) (\<lambda>pe. pe\<lparr>pr_ack_pending_seq := 0\<rparr>)"
proof -
  have "pr_ack_pending_seq (ve_processes (ss_entries st (nat v)) (ack_slot a)) \<noteq> seq"
    using assms(2,3) by (simp add: pending_def)
  then show ?thesis
    using assms(1,2)
    by (cases a) (auto simp: shm_try_ack_swap_cmd_def proxy_ack_locked_def Let_def epoch_ok_def)
qed

text \<open>Every acknowledgement, by whichever side, takes its slot out of the pending set, keeps the
  counter equal to the size of that set, and completes the command exactly with the last one.\<close>

lemma do_ack_epoch:
  assumes "epoch_ok st v seq" "ack_slot a < MAX_PROCESSES_PER_VNPU"
  shows "epoch_ok (do_ack v seq a st) v seq" "pending (do_ack v seq a st) v seq = pending st v seq - {ack_slot a}"
proof -
  let ?i = "ack_slot a"
  have seq: "seq \<noteq> 0" using assms(1) by (simp add: epoch_ok_def)
  have "epoch_ok (do_ack v seq a st) v seq \<and> pending (do_ack v seq a st) v seq = pending st v seq - {?i}"
  proof (cases "?i \<in> pending st v seq")
    case True
    define Q where "Q = pending st v seq - {?i}"
    have refc: "cm_refcount (ss_swap_cmd st) - 1 = int (card Q)"
      using card_Suc_Diff1 [OF finite_pending True] assms(1) by (simp add: epoch_ok_def Q_def)
    have "\<not> cm_completed (ss_swap_cmd st)" using assms(1) True by (auto simp: epoch_ok_def)
    then have facts: "0 \<le> v" "v < int MAX_VNPU_PER_DIE" "vnpu_bitmap_test (ss_vnpu_bitmap st) v"
      "cm_cmd_seq (ss_swap_cmd st) = seq" "cm_target_vnpu_id (ss_swap_cmd st) = v"
      "\<not> cm_completed (ss_swap_cmd st)" "cm_action (ss_swap_cmd st) = SWAP_ACTION_OUT"
      using assms(1) by (auto simp: epoch_ok_def)
    have P: "pending (take_ack st v ?i) v seq = Q" using take_ack_simps(3) [OF seq] by (simp add: Q_def)
    have "do_ack v seq a st = (if Q = {} then shm_ack_swap_cmd (take_ack st v ?i) else take_ack st v ?i)"
      unfolding Q_def by (rule do_ack_pending [OF assms(1) True])
    then show ?thesis
      using facts seq refc P unfolding Q_def [symmetric]
      by (simp add: epoch_ok_def take_ack_simps(1,2) shm_ack_swap_cmd_simps)
  next
    case False
    then have same: "pending st v seq - {?i} = pending st v seq" by simp
    then have clr: "pending (upd_process st v ?i (\<lambda>pe. pe\<lparr>pr_ack_pending_seq := 0\<rparr>)) v seq = pending st v seq"
      using pending_clear [OF seq] by simp
    from do_ack_not_pending [OF assms False] show ?thesis
    proof
      assume "do_ack v seq a st = st"
      then show ?thesis using assms(1) same by simp
    next
      assume "do_ack v seq a st = upd_process st v ?i (\<lambda>pe. pe\<lparr>pr_ack_pending_seq := 0\<rparr>)"
      then show ?thesis using assms(1) unfolding same by (simp add: epoch_ok_def clr)
    qed
  qed
  then show "epoch_ok (do_ack v seq a st) v seq" "pending (do_ack v seq a st) v seq = pending st v seq - {ack_slot a}"
    by auto
qed

lemma do_acks_epoch:
  assumes "epoch_ok st v seq" "\<forall>a \<in> set acks. ack_slot a < MAX_PROCESSES_PER_VNPU"
  shows "epoch_ok (fold (do_ack v seq) acks st) v seq
       \<and> pending (fold (do_ack v seq) acks st) v seq = pending st v seq - ack_slot ` set acks"
  using assms
proof (induction acks arbitrary: st)
  case (Cons a acks)
  then show ?case using do_ack_epoch [of st v seq a] by auto
qed simp

section \<open>Issuing a command\<close>

definition active_slots :: "shm_state \<Rightarrow> int \<Rightarrow> nat set" where
  "active_slots st v = {i. i < MAX_PROCESSES_PER_VNPU \<and> pr_active (ve_processes (ss_entries st (nat v)) i)}"

lemma active_count_card: "active_count (ss_entries st (nat v)) = card (active_slots st v)"
proof -
  have "active_slots st v = set (filter (\<lambda>i. pr_active (ve_processes (ss_entries st (nat v)) i)) slots)"
    by (auto simp: active_slots_def)
  then show ?thesis by (simp add: active_count_def distinct_card del: set_filter)
qed

lemma get_put_state: "0 \<le> phy \<Longrightarrow> phy < 16 \<Longrightarrow> shm_manager_get_state (put_state mgr phy st) phy = Some st"
  by (simp add: shm_manager_get_state_def put_state_def)

lemma get_state_range: "shm_manager_get_state mgr phy = Some st \<Longrightarrow> 0 \<le> phy \<and> phy < 16"
  by (simp add: shm_manager_get_state_def split: if_splits)

lemma write_swap_out:
  assumes "shm_manager_get_state mgr phy = Some st" "0 \<le> v" "v < int MAX_VNPU_PER_DIE"
    "vnpu_bitmap_test (ss_vnpu_bitmap st) v" "length pod < MAX_UUID_LEN" "cm_cmd_seq (ss_swap_cmd st) + 1 \<noteq> 0"
    "pending st v (cm_cmd_seq (ss_swap_cmd st) + 1) = {}" "active_slots st v \<noteq> {}"
  obtains mgr' st' where "shm_manager_write_swap_cmd now mgr phy pod v SWAP_ACTION_OUT flag = (ENPU_SUCCESS, mgr')"
    "shm_manager_get_state mgr' phy = Some st'" "epoch_ok st' v (cm_cmd_seq (ss_swap_cmd st) + 1)"
    "pending st' v (cm_cmd_seq (ss_swap_cmd st) + 1) = active_slots st v"
proof -
  let ?seq = "cm_cmd_seq (ss_swap_cmd st) + 1"
  let ?n = "card (active_slots st v)"
  define out where "out = (if flag \<noteq> SWAP_OUT_NONE then (ss_swap_out_cmd st)\<lparr>so_target_vnpu_id := v\<rparr> else ss_swap_out_cmd st)"
  define st' where "st' = (upd_entry (st\<lparr>ss_swap_out_cmd := out\<rparr>) v (mark_active ?seq))
    \<lparr>ss_swap_cmd := (ss_swap_cmd st)\<lparr>cm_target_pod_uid := pod, cm_target_vnpu_id := v, cm_cmd_seq := ?seq,
       cm_refcount := int ?n, cm_completed := (?n = 0), cm_timestamp_ns := now * 1000000000,
       cm_action := SWAP_ACTION_OUT\<rparr>\<rparr>"
  have phy: "0 \<le> phy" "phy < 16" using get_state_range [OF assms(1)] by auto
  have fin: "finite (active_slots st v)" by (simp add: active_slots_def)
  have w: "shm_manager_write_swap_cmd now mgr phy pod v SWAP_ACTION_OUT flag = (ENPU_SUCCESS, put_state mgr phy st')"
    using assms(1-3,5) phy
    by (simp add: shm_manager_write_swap_cmd_def write_swap_cmd_locked_def Let_def st'_def out_def active_count_card upd_entry_def)
  have P: "pending st' v ?seq = active_slots st v"
    using assms(7) by (auto simp: pending_def active_slots_def st'_def upd_entry_def mark_active_def split: if_splits)
  have "epoch_ok st' v ?seq"
    using assms fin P by (simp add: epoch_ok_def) (simp add: st'_def upd_entry_def)
  then show ?thesis using that [OF w] P get_put_state [OF phy] by blast
qed

section \<open>Properties\<close>

text \<open>C20: the swap-out command completes exactly when every process has acknowledged. After the
  manager has written a swap-out command for a vNPU with at least one active process, take any
  sequence of acknowledgements, by processes themselves and by the watchdog on their behalf, in any
  order, with repetitions and with slots that owe nothing. Then the command is completed if and only
  if every process that was active acknowledged at least once; the reference counter is the number
  of processes still owing (so each is counted exactly once); and the action is reset exactly on
  completion.\<close>

theorem swap_out_completes_when_all_acked:
  assumes "shm_manager_get_state mgr phy = Some st" "0 \<le> v" "v < int MAX_VNPU_PER_DIE"
    "vnpu_bitmap_test (ss_vnpu_bitmap st) v" "length pod < MAX_UUID_LEN" "cm_cmd_seq (ss_swap_cmd st) + 1 \<noteq> 0"
    "pending st v (cm_cmd_seq (ss_swap_cmd st) + 1) = {}" "active_slots st v \<noteq> {}"
    "\<forall>a \<in> set acks. ack_slot a < MAX_PROCESSES_PER_VNPU"
  shows "\<exists>mgr' st'. shm_manager_write_swap_cmd now mgr phy pod v SWAP_ACTION_OUT flag = (ENPU_SUCCESS, mgr')
     \<and> shm_manager_get_state mgr' phy = Some st'
     \<and> (let c = ss_swap_cmd (fold (do_ack v (cm_cmd_seq (ss_swap_cmd st) + 1)) acks st') in
          (cm_completed c \<longleftrightarrow> active_slots st v \<subseteq> ack_slot ` set acks)
        \<and> cm_refcount c = int (card (active_slots st v - ack_slot ` set acks))
        \<and> cm_action c = (if cm_completed c then SWAP_ACTION_NONE else SWAP_ACTION_OUT))"
proof -
  let ?seq = "cm_cmd_seq (ss_swap_cmd st) + 1"
  obtain mgr' st' where w: "shm_manager_write_swap_cmd now mgr phy pod v SWAP_ACTION_OUT flag = (ENPU_SUCCESS, mgr')"
    "shm_manager_get_state mgr' phy = Some st'" "epoch_ok st' v ?seq" "pending st' v ?seq = active_slots st v"
    using write_swap_out [OF assms(1-8)] by blast
  let ?r = "fold (do_ack v ?seq) acks st'"
  have e: "epoch_ok ?r v ?seq" "pending ?r v ?seq = active_slots st v - ack_slot ` set acks"
    using do_acks_epoch [OF w(3) assms(9)] w(4) by auto
  have "cm_completed (ss_swap_cmd ?r) \<longleftrightarrow> active_slots st v \<subseteq> ack_slot ` set acks"
    using e by (simp add: epoch_ok_def)
  moreover have "cm_refcount (ss_swap_cmd ?r) = int (card (active_slots st v - ack_slot ` set acks))"
    using e(1) unfolding epoch_ok_def e(2) by blast
  moreover have "cm_action (ss_swap_cmd ?r) = (if cm_completed (ss_swap_cmd ?r) then SWAP_ACTION_NONE else SWAP_ACTION_OUT)"
    using e(1) unfolding epoch_ok_def by blast
  ultimately show ?thesis using w(1,2) by (auto simp: Let_def)
qed

section \<open>Witnesses\<close>

definition demo_state :: shm_state where
  "demo_state = (upd_process (the (shm_state_posix_shm_create True 0 ''die0'')) 3 7 (\<lambda>pe. pe\<lparr>pr_active := True\<rparr>))
     \<lparr>ss_vnpu_bitmap := vnpu_bitmap_set (0, 0) 3\<rparr>"

definition demo_mgr :: shm_manager where
  "demo_mgr = put_state shm_manager_create 0 demo_state"

lemma demo_state_simps:
  "ss_vnpu_bitmap demo_state = vnpu_bitmap_set (0, 0) 3" "cm_cmd_seq (ss_swap_cmd demo_state) = 0"
  "ve_processes (ss_entries demo_state 3) i = (if i = 7 then process_init\<lparr>pr_active := True\<rparr> else process_init)"
  by (simp_all add: demo_state_def shm_state_posix_shm_create_def dec_int_def dec_nat.simps upd_process_def
      upd_entry_def entry_init_def)

theorem swap_out_completes_witness:
  "\<exists>mgr' st'. shm_manager_write_swap_cmd 0 demo_mgr 0 ''pod'' 3 SWAP_ACTION_OUT 0 = (ENPU_SUCCESS, mgr')
     \<and> shm_manager_get_state mgr' 0 = Some st'
     \<and> cm_completed (ss_swap_cmd (fold (do_ack 3 1) [Rt_ack 5, Proxy_ack 7, Rt_ack 7] st'))"
proof -
  have "shm_manager_get_state demo_mgr 0 = Some demo_state" by (simp add: demo_mgr_def get_put_state)
  moreover have "vnpu_bitmap_test (ss_vnpu_bitmap demo_state) 3"
    using bitmap.test_occupy [of 3 "(0, 0)" 3] by (simp add: demo_state_simps)
  moreover have "active_slots demo_state 3 = {7}"
    by (auto simp: active_slots_def demo_state_simps process_init_def)
  moreover have "pending demo_state 3 1 = {}" by (simp add: pending_def demo_state_simps process_init_def)
  ultimately show ?thesis
    using swap_out_completes_when_all_acked [of demo_mgr 0 demo_state 3 "''pod''" "[Rt_ack 5, Proxy_ack 7, Rt_ack 7]" 0 0]
    by (auto simp: demo_state_simps Let_def)
qed

section \<open>Interleaved acknowledgements\<close>

text \<open>
  The runtime does not take the manager's lock: \<^verbatim>\<open>shm_try_ack_swap_cmd\<close> is a sequence of atomic
  accesses. \<open>rt_step\<close> performs one of them; the program counter carries the arguments of the call.
  Run without interference it is the function above (\<open>rt_run_eq\<close>); with other threads in between it
  need not be.
\<close>

datatype rt_pc = Rt_idle | Rt_exchange int nat u64 | Rt_decrement int u64 | Rt_check_seq int u64
  | Rt_check_action int u64 | Rt_scan int u64 | Rt_recheck_seq u64 | Rt_store_completed | Rt_store_action
  | Rt_store_out

fun rt_step :: "rt_pc \<Rightarrow> shm_state \<Rightarrow> rt_pc \<times> shm_state" where
  "rt_step Rt_idle st = (Rt_idle, st)"
| "rt_step (Rt_exchange v i seq) st =
     (if pr_ack_pending_seq (ve_processes (ss_entries st (nat v)) i) \<noteq> seq then Rt_idle else Rt_decrement v seq,
      upd_process st v i (\<lambda>pe. pe\<lparr>pr_ack_pending_seq := 0\<rparr>))"
| "rt_step (Rt_decrement v seq) st =
     (Rt_check_seq v seq, st\<lparr>ss_swap_cmd := (ss_swap_cmd st)\<lparr>cm_refcount := cm_refcount (ss_swap_cmd st) - 1\<rparr>\<rparr>)"
| "rt_step (Rt_check_seq v seq) st =
     (if cm_cmd_seq (ss_swap_cmd st) \<noteq> seq then Rt_idle else Rt_check_action v seq, st)"
| "rt_step (Rt_check_action v seq) st =
     (if cm_action (ss_swap_cmd st) \<noteq> SWAP_ACTION_OUT then Rt_idle else Rt_scan v seq, st)"
| "rt_step (Rt_scan v seq) st = (if \<not> shm_swap_ack_done st v seq then Rt_idle else Rt_recheck_seq seq, st)"
| "rt_step (Rt_recheck_seq seq) st =
     (if cm_cmd_seq (ss_swap_cmd st) \<noteq> seq then Rt_idle else Rt_store_completed, st)"
| "rt_step Rt_store_completed st =
     (Rt_store_action, st\<lparr>ss_swap_cmd := (ss_swap_cmd st)\<lparr>cm_completed := True\<rparr>\<rparr>)"
| "rt_step Rt_store_action st =
     (Rt_store_out, st\<lparr>ss_swap_cmd := (ss_swap_cmd st)\<lparr>cm_action := SWAP_ACTION_NONE\<rparr>\<rparr>)"
| "rt_step Rt_store_out st =
     (Rt_idle, if cm_target_vnpu_id (ss_swap_cmd st) = so_target_vnpu_id (ss_swap_out_cmd st)
               then st\<lparr>ss_swap_out_cmd := (ss_swap_out_cmd st)\<lparr>so_completed := True\<rparr>\<rparr> else st)"

text \<open>A system of runtime threads and the manager, which issues the next command once the last one
  is completed.\<close>

type_synonym race_conf = "(nat \<Rightarrow> rt_pc) \<times> shm_state"

inductive race_step :: "race_conf \<Rightarrow> race_conf \<Rightarrow> bool" where
  rt: "rt_step (th k) st = (pc, st') \<Longrightarrow> race_step (th, st) (th(k := pc), st')"
| issue: "cm_completed (ss_swap_cmd st) \<Longrightarrow>
     write_swap_cmd_locked now st pod v SWAP_ACTION_OUT flag = (ENPU_SUCCESS, st') \<Longrightarrow> race_step (th, st) (th, st')"

inductive_cases race_stepE: "race_step c c'"

datatype race_ev = Run nat | Issue int

fun race_exec :: "race_ev \<Rightarrow> race_conf \<Rightarrow> race_conf option" where
  "race_exec (Run k) (th, st) = (case rt_step (th k) st of (pc, st') \<Rightarrow> Some (th(k := pc), st'))"
| "race_exec (Issue v) (th, st) =
     (if cm_completed (ss_swap_cmd st)
      then Some (th, snd (write_swap_cmd_locked 0 st ''pod'' v SWAP_ACTION_OUT 0)) else None)"

fun race_run :: "race_ev list \<Rightarrow> race_conf \<Rightarrow> race_conf option" where
  "race_run [] c = Some c"
| "race_run (e # es) c = race_exec e c \<bind> race_run es"

lemma race_exec_step: "race_exec e c = Some c' \<Longrightarrow> race_step c c'"
proof (induction e c rule: race_exec.induct)
  case (1 k th st)
  then show ?case by (auto split: prod.splits intro: race_step.rt)
next
  case (2 v th st)
  then have "cm_completed (ss_swap_cmd st)" "c' = (th, snd (write_swap_cmd_locked 0 st ''pod'' v SWAP_ACTION_OUT 0))"
    by (auto split: if_splits)
  moreover have "fst (write_swap_cmd_locked 0 st ''pod'' v SWAP_ACTION_OUT 0) = ENPU_SUCCESS"
    by (simp add: write_swap_cmd_locked_def Let_def)
  ultimately show ?case using race_step.issue by (metis prod.collapse)
qed

lemma race_run_steps: "race_run es c = Some c' \<Longrightarrow> race_step\<^sup>*\<^sup>* c c'"
proof (induction es arbitrary: c)
  case (Cons e es)
  then obtain c1 where "race_exec e c = Some c1" "race_run es c1 = Some c'" by (auto simp: bind_eq_Some_conv)
  then show ?case using Cons.IH race_exec_step by (metis converse_rtranclp_into_rtranclp)
qed simp

lemma rt_run_eq:
  assumes "0 \<le> v" "v < int MAX_VNPU_PER_DIE" "i < MAX_PROCESSES_PER_VNPU" "seq \<noteq> 0"
  shows "(case_prod rt_step ^^ 9) (Rt_exchange v i seq, st) = (Rt_idle, snd (shm_try_ack_swap_cmd st v (int i) seq))"
  using assms
  by (simp add: numeral_eq_Suc shm_try_ack_swap_cmd_def Let_def swap_cmd_finish_if_epoch_def shm_ack_swap_cmd_def)

text \<open>Two processes of vNPU 3 have swapped out and are about to acknowledge epoch 1; a process is
  active on vNPU 4.\<close>

definition race_start :: race_conf where
  "race_start =
     ((\<lambda>_. Rt_idle)(0 := Rt_exchange 3 7 1, 1 := Rt_exchange 3 8 1),
      snd (write_swap_cmd_locked 0
        (fold (\<lambda>(v, i) st. upd_process st v i (\<lambda>pe. pe\<lparr>pr_active := True\<rparr>)) [(3, 7), (3, 8), (4, 0)]
          (the (shm_state_posix_shm_create True 0 ''die0''))) ''pod'' 3 SWAP_ACTION_OUT 0))"

definition race_schedule :: "race_ev list" where
  "race_schedule = [Run 0, Run 0, Run 1, Run 1, Run 0, Run 0, Run 0, Run 0,
     Run 1, Run 1, Run 1, Run 1, Run 1, Run 1, Run 1, Issue 4, Run 0, Run 0]"

lemma race_outcome:
  "map_option (\<lambda>(th, st). cm_cmd_seq (ss_swap_cmd st) = 2 \<and> cm_completed (ss_swap_cmd st)
      \<and> cm_action (ss_swap_cmd st) = SWAP_ACTION_NONE \<and> owes_ack (ss_entries st (nat 4)) 2)
    (race_run race_schedule race_start) = Some True"
  by code_simp

text \<open>An acknowledgement can complete the wrong command. The comment above
  \<^verbatim>\<open>swap_cmd_finish_if_epoch\<close> says that the epoch is checked so that an acknowledgement is never
  applied to a command the manager has just issued, but nothing prevents a new command between the
  second check of the epoch and the stores of \<^verbatim>\<open>shm_ack_swap_cmd\<close>. From a state in which two processes
  acknowledge epoch 1, the interleaved system reaches a state in which the command of epoch 2 is
  marked completed although a process of its target vNPU still owes its acknowledgement.\<close>

lemma late_ack_completes_next_command:
  "\<exists>th st. race_step\<^sup>*\<^sup>* race_start (th, st) \<and> cm_cmd_seq (ss_swap_cmd st) = 2 \<and> cm_completed (ss_swap_cmd st)
     \<and> cm_action (ss_swap_cmd st) = SWAP_ACTION_NONE \<and> pending st 4 2 \<noteq> {}"
proof -
  obtain th st where "race_run race_schedule race_start = Some (th, st)" "cm_cmd_seq (ss_swap_cmd st) = 2"
    "cm_completed (ss_swap_cmd st)" "cm_action (ss_swap_cmd st) = SWAP_ACTION_NONE"
    "owes_ack (ss_entries st (nat 4)) 2"
    using race_outcome by auto
  then show ?thesis using race_run_steps owes_ack_pending by blast
qed

end
