(* ===== verification/Tlsf.thy ===== *)
theory Tlsf
  imports Enpu_Prelude "HOL-Library.Log_Nat"
begin

text \<open>
  The two-level segregated fit allocator that hands out offsets of the swap buffer
  (\<^verbatim>\<open>core/src/shm_manager.c\<close>, \<^verbatim>\<open>TLSFManager\<close> and \<^verbatim>\<open>tlsf_*\<close>). Block headers live in the manager process
  and are identified by their address; the linked lists of the code (the physical order through
  \<^verbatim>\<open>prev_phys\<close>/\<^verbatim>\<open>next_phys\<close>, the free list of each class and the used list through
  \<^verbatim>\<open>prev_free\<close>/\<^verbatim>\<open>next_free\<close>) are the lists of addresses in link order. Bit 0 of the size field is the
  used flag. The locale \<open>offset_allocator\<close> states the contract of an allocator of address ranges;
  the last section interprets it on this one.
\<close>

section \<open>Block headers\<close>

record tlsf_block =
  bk_size :: u64
  bk_data_offset :: u64

record tlsf_manager =
  tl_initialized :: bool
  tl_blocks :: "nat \<Rightarrow> tlsf_block"
  tl_next :: nat
  tl_phys :: "nat list"
  tl_free_list :: "nat \<Rightarrow> nat \<Rightarrow> nat list"
  tl_used_list :: "nat list"
  tl_shm_base :: u64
  tl_shm_total_size :: u64
  tl_total_used :: u64

abbreviation (input) TLSF_ALIGN :: u64 where "TLSF_ALIGN \<equiv> 64"
abbreviation (input) TLSF_MAX_FL :: nat where "TLSF_MAX_FL \<equiv> 30"
abbreviation (input) TLSF_MAX_SL :: nat where "TLSF_MAX_SL \<equiv> 16"

definition block_get_size :: "tlsf_block \<Rightarrow> u64" where
  "block_get_size b = bk_size b AND NOT 1"

definition block_is_used :: "tlsf_block \<Rightarrow> bool" where
  "block_is_used b \<longleftrightarrow> bk_size b AND 1 \<noteq> 0"

definition block_set_size :: "u64 \<Rightarrow> tlsf_block \<Rightarrow> tlsf_block" where
  "block_set_size sz b = b\<lparr>bk_size := sz OR (bk_size b AND 1)\<rparr>"

definition block_mark_as_free :: "tlsf_block \<Rightarrow> tlsf_block" where
  "block_mark_as_free b = b\<lparr>bk_size := bk_size b AND NOT 1\<rparr>"

definition block_mark_as_used :: "tlsf_block \<Rightarrow> tlsf_block" where
  "block_mark_as_used b = b\<lparr>bk_size := bk_size b OR 1\<rparr>"

definition upd_block :: "tlsf_manager \<Rightarrow> nat \<Rightarrow> (tlsf_block \<Rightarrow> tlsf_block) \<Rightarrow> tlsf_manager" where
  "upd_block t p f = t\<lparr>tl_blocks := (tl_blocks t)(p := f (tl_blocks t p))\<rparr>"

definition tlsf_round :: "u64 \<Rightarrow> u64" where
  "tlsf_round sz = (sz + TLSF_ALIGN - 1) AND NOT (TLSF_ALIGN - 1)"

section \<open>Size classes\<close>

definition tlsf_calc_fl_sl :: "u64 \<Rightarrow> nat \<times> nat" where
  "tlsf_calc_fl_sl sz =
     (let align_sz = (if tlsf_round sz < TLSF_ALIGN then TLSF_ALIGN else tlsf_round sz) in
      if align_sz < 256 then (0, unat (align_sz - 1) div 16)
      else let log2_val = floorlog 2 (unat align_sz) - 1;
               fl = log2_val;
               sl = unat (drop_bit (fl - 4) align_sz AND 15)
           in (if fl \<ge> TLSF_MAX_FL then TLSF_MAX_FL - 1 else fl, if sl \<ge> TLSF_MAX_SL then TLSF_MAX_SL - 1 else sl))"

definition free_list_upd :: "tlsf_manager \<Rightarrow> nat \<times> nat \<Rightarrow> (nat list \<Rightarrow> nat list) \<Rightarrow> tlsf_manager" where
  "free_list_upd t c f = (case c of (fl, sl) \<Rightarrow>
     t\<lparr>tl_free_list := (tl_free_list t)(fl := (tl_free_list t fl)(sl := f (tl_free_list t fl sl)))\<rparr>)"

definition tlsf_insert_free_block :: "tlsf_manager \<Rightarrow> nat \<Rightarrow> tlsf_manager" where
  "tlsf_insert_free_block t p =
     free_list_upd t (tlsf_calc_fl_sl (block_get_size (tl_blocks t p))) (\<lambda>xs. p # xs)"

definition tlsf_remove_free_block :: "tlsf_manager \<Rightarrow> nat \<Rightarrow> tlsf_manager" where
  "tlsf_remove_free_block t p =
     free_list_upd t (tlsf_calc_fl_sl (block_get_size (tl_blocks t p))) (remove1 p)"

definition tlsf_insert_used_block :: "tlsf_manager \<Rightarrow> nat \<Rightarrow> tlsf_manager" where
  "tlsf_insert_used_block t p = t\<lparr>tl_used_list := p # tl_used_list t\<rparr>"

definition tlsf_remove_used_block :: "tlsf_manager \<Rightarrow> nat \<Rightarrow> tlsf_manager" where
  "tlsf_remove_used_block t p = t\<lparr>tl_used_list := remove1 p (tl_used_list t)\<rparr>"

text \<open>The classes in the order the search loops visit them, from first level \<open>fl\<close> on.\<close>

definition classes_from :: "nat \<Rightarrow> (nat \<times> nat) list" where
  "classes_from fl = concat (map (\<lambda>i. map (Pair i) [0..<TLSF_MAX_SL]) [fl..<TLSF_MAX_FL])"

definition tlsf_find_block_by_offset :: "tlsf_manager \<Rightarrow> u64 \<Rightarrow> nat option" where
  "tlsf_find_block_by_offset t offset =
     List.find (\<lambda>p. bk_data_offset (tl_blocks t p) = offset)
       (tl_used_list t @ concat (map (\<lambda>(i, j). tl_free_list t i j) (classes_from 0)))"

definition tlsf_find_block :: "tlsf_manager \<Rightarrow> u64 \<Rightarrow> nat option" where
  "tlsf_find_block t sz =
     List.find (\<lambda>p. block_get_size (tl_blocks t p) \<ge> sz)
       (concat (map (\<lambda>(i, j). tl_free_list t i j) (classes_from (fst (tlsf_calc_fl_sl sz)))))"

section \<open>Splitting, allocating and freeing\<close>

fun insert_after :: "nat \<Rightarrow> nat \<Rightarrow> nat list \<Rightarrow> nat list" where
  "insert_after p q [] = []"
| "insert_after p q (x # xs) = (if x = p then x # q # xs else x # insert_after p q xs)"

fun next_phys :: "nat \<Rightarrow> nat list \<Rightarrow> nat option" where
  "next_phys p [] = None"
| "next_phys p (x # xs) = (if x = p then (case xs of [] \<Rightarrow> None | y # _ \<Rightarrow> Some y) else next_phys p xs)"

fun prev_phys :: "nat \<Rightarrow> nat list \<Rightarrow> nat option" where
  "prev_phys p [] = None"
| "prev_phys p [x] = None"
| "prev_phys p (x # y # xs) = (if x = p then None else if y = p then Some x else prev_phys p (y # xs))"

text \<open>The new header comes from \<^verbatim>\<open>malloc\<close>; \<open>junk\<close> is its uninitialised content, of which
  \<^verbatim>\<open>block_set_size\<close> reads the flag bit before \<^verbatim>\<open>block_mark_as_free\<close> clears it.\<close>

definition tlsf_split_block :: "bool \<Rightarrow> tlsf_block \<Rightarrow> tlsf_manager \<Rightarrow> nat \<Rightarrow> u64 \<Rightarrow> tlsf_manager" where
  "tlsf_split_block mem_ok junk t p need =
     (let blk = tl_blocks t p; remain = block_get_size blk - need in
      if remain < TLSF_ALIGN then t
      else if \<not> mem_ok then t
      else let q = tl_next t;
               new_blk = (block_mark_as_free (block_set_size remain junk))\<lparr>bk_data_offset := bk_data_offset blk + need\<rparr>;
               t1 = t\<lparr>tl_blocks := (tl_blocks t)(q := new_blk), tl_next := Suc q,
                      tl_phys := insert_after p q (tl_phys t)\<rparr>;
               t2 = upd_block t1 p (block_set_size need)
           in tlsf_insert_free_block t2 q)"

definition tlsf_pool_init :: "bool \<Rightarrow> tlsf_block \<Rightarrow> tlsf_manager \<Rightarrow> u64 \<Rightarrow> u64 \<Rightarrow> int \<times> tlsf_manager" where
  "tlsf_pool_init mem_ok junk t shm_base shm_size =
     (if tl_initialized t then (0, t)
      else let t1 = t\<lparr>tl_free_list := (\<lambda>_ _. []), tl_used_list := [], tl_shm_base := shm_base,
                      tl_shm_total_size := shm_size, tl_total_used := 0\<rparr> in
        if \<not> mem_ok then (-1, t1)
        else let q = tl_next t1;
                 start_blk = (block_mark_as_free (block_set_size shm_size junk))\<lparr>bk_data_offset := 0\<rparr>;
                 t2 = t1\<lparr>tl_blocks := (tl_blocks t1)(q := start_blk), tl_next := Suc q, tl_phys := [q]\<rparr>
             in (0, (tlsf_insert_free_block t2 q)\<lparr>tl_initialized := True\<rparr>))"

abbreviation (input) TLSF_FAIL :: u64 where "TLSF_FAIL \<equiv> 0xFFFFFFFFFFFFFFFF"

definition tlsf_alloc :: "bool \<Rightarrow> tlsf_block \<Rightarrow> tlsf_manager \<Rightarrow> u64 \<Rightarrow> u64 \<times> tlsf_manager" where
  "tlsf_alloc mem_ok junk t sz =
     (if \<not> tl_initialized t \<or> sz = 0 then (TLSF_FAIL, t)
      else let alloc_sz = tlsf_round sz in
        case tlsf_find_block t alloc_sz of
          None \<Rightarrow> (TLSF_FAIL, t)
        | Some p \<Rightarrow>
          let t1 = tlsf_remove_free_block t p;
              t2 = tlsf_split_block mem_ok junk t1 p alloc_sz;
              t3 = upd_block t2 p block_mark_as_used;
              t4 = tlsf_insert_used_block t3 p;
              t5 = t4\<lparr>tl_total_used := tl_total_used t4 + block_get_size (tl_blocks t4 p)\<rparr>
          in (bk_data_offset (tl_blocks t5 p), t5))"

definition merge_prev :: "tlsf_manager \<Rightarrow> nat \<Rightarrow> nat \<times> tlsf_manager" where
  "merge_prev t p =
     (case prev_phys p (tl_phys t) of
        None \<Rightarrow> (p, t)
      | Some q \<Rightarrow>
        if block_is_used (tl_blocks t q) then (p, t)
        else let t1 = tlsf_remove_free_block t q;
                 t2 = upd_block t1 q (block_set_size (block_get_size (tl_blocks t1 q) + block_get_size (tl_blocks t1 p)))
             in (q, t2\<lparr>tl_phys := remove1 p (tl_phys t2)\<rparr>))"

definition merge_next :: "tlsf_manager \<Rightarrow> nat \<Rightarrow> tlsf_manager" where
  "merge_next t p =
     (case next_phys p (tl_phys t) of
        None \<Rightarrow> t
      | Some q \<Rightarrow>
        if block_is_used (tl_blocks t q) then t
        else let t1 = tlsf_remove_free_block t q;
                 t2 = upd_block t1 p (block_set_size (block_get_size (tl_blocks t1 p) + block_get_size (tl_blocks t1 q)))
             in t2\<lparr>tl_phys := remove1 q (tl_phys t2)\<rparr>)"

definition tlsf_free :: "tlsf_manager \<Rightarrow> u64 \<Rightarrow> tlsf_manager" where
  "tlsf_free t offset =
     (if \<not> tl_initialized t \<or> offset \<ge> tl_shm_total_size t then t
      else case tlsf_find_block_by_offset t offset of
        None \<Rightarrow> t
      | Some p \<Rightarrow>
        if \<not> block_is_used (tl_blocks t p) then t
        else let t1 = tlsf_remove_used_block t p;
                 t2 = t1\<lparr>tl_total_used := tl_total_used t1 - block_get_size (tl_blocks t1 p)\<rparr>;
                 t3 = upd_block t2 p block_mark_as_free
             in (case merge_prev t3 p of (b, t4) \<Rightarrow> tlsf_insert_free_block (merge_next t4 b) b))"

definition shm_swap_buffer_get_status :: "tlsf_manager \<Rightarrow> int \<times> (u64 \<times> u64 \<times> u64) option" where
  "shm_swap_buffer_get_status t =
     (if \<not> tl_initialized t then (ENPU_FAIL, None)
      else let tot = tl_shm_total_size t; used = tl_total_used t
           in (ENPU_SUCCESS, Some (tot, used, if tot > used then tot - used else 0)))"

section \<open>Lemmas on headers and classes\<close>

lemma even_and_not_one: "even (w AND NOT (1 :: u64))"
  by (simp add: even_and_iff even_not_iff)

lemma bit_and_not_one: "bit (w AND NOT (1 :: u64)) n \<longleftrightarrow> n \<noteq> 0 \<and> bit w n"
  by (cases n) (auto simp: bit_and_iff bit_not_iff bit_1_iff dest: bit_imp_le_length)

lemma bit_and_one: "bit (w AND (1 :: u64)) n \<longleftrightarrow> n = 0 \<and> bit w n"
  by (cases n) (auto simp: bit_and_iff bit_1_iff)

lemma and_not_one_even [simp]: "even w \<Longrightarrow> w AND NOT (1 :: u64) = w"
  by (rule bit_eqI) (metis bit_0 bit_and_not_one)

lemma even_get_size [simp]: "even (block_get_size b)"
  unfolding block_get_size_def by (rule even_and_not_one)

lemma is_used_odd: "block_is_used b \<longleftrightarrow> odd (bk_size b)"
  by (simp add: block_is_used_def and_one_eq mod_2_eq_odd)

lemma or_and_one_even:
  assumes "even (s :: u64)"
  shows "(s OR (w AND 1)) AND NOT 1 = s" "odd (s OR (w AND 1)) \<longleftrightarrow> odd w"
proof -
  have b: "\<not> bit s 0" using assms by (simp add: bit_0)
  show "(s OR (w AND 1)) AND NOT 1 = s"
    using b by (intro bit_eqI) (metis bit_and_not_one bit_and_one bit_or_iff)
  show "odd (s OR (w AND 1)) \<longleftrightarrow> odd w"
    using assms by (simp add: even_or_iff even_and_iff)
qed

lemma or_one_and_not_one: "(w OR 1) AND NOT 1 = w AND NOT (1 :: u64)"
  by (rule bit_eqI) (metis bit_and_not_one bit_1_iff bit_or_iff)

lemma and_not_one_twice: "(w AND NOT 1) AND NOT 1 = w AND NOT (1 :: u64)"
  by (rule bit_eqI) (metis bit_and_not_one)

lemma block_simps [simp]:
  "even s \<Longrightarrow> block_get_size (block_set_size s b) = s"
  "even s \<Longrightarrow> block_is_used (block_set_size s b) = block_is_used b"
  "block_get_size (block_mark_as_free b) = block_get_size b"
  "block_get_size (block_mark_as_used b) = block_get_size b"
  "\<not> block_is_used (block_mark_as_free b)"
  "block_is_used (block_mark_as_used b)"
  "bk_data_offset (block_set_size s b) = bk_data_offset b"
  "bk_data_offset (block_mark_as_free b) = bk_data_offset b"
  "bk_data_offset (block_mark_as_used b) = bk_data_offset b"
  "block_get_size (b\<lparr>bk_data_offset := off\<rparr>) = block_get_size b"
  "block_is_used (b\<lparr>bk_data_offset := off\<rparr>) = block_is_used b"
  using or_and_one_even [of s "bk_size b"] or_one_and_not_one [of "bk_size b"] and_not_one_twice [of "bk_size b"]
    even_and_not_one [of "bk_size b"]
  by (simp_all add: block_get_size_def block_set_size_def block_mark_as_free_def block_mark_as_used_def is_used_odd
      even_or_iff)

lemma and_not_63: "unat (w AND NOT (63 :: u64)) = unat w div 64 * 64"
proof -
  have "(63 :: u64) = mask 6" by (simp add: mask_eq_exp_minus_1)
  then show ?thesis using unat_and_not_mask [of w 6] by (simp only:) simp
qed
lemma round_unat: "unat sz + 63 < 2 ^ 64 \<Longrightarrow> unat (tlsf_round sz) = (unat sz + 63) div 64 * 64"
proof -
  assume "unat sz + 63 < 2 ^ 64"
  then have u: "unat (sz + 63) = unat sz + 63" using unat_add_lem [of sz 63] by simp
  have "sz + 64 - 1 = sz + 63" "(64 :: u64) - 1 = 63" by simp_all
  then have "tlsf_round sz = (sz + 63) AND NOT 63" by (simp only: tlsf_round_def)
  then show ?thesis by (simp only: and_not_63 u)
qed

lemma round_ge: "unat sz + 63 < 2 ^ 64 \<Longrightarrow> unat sz \<le> unat (tlsf_round sz)"
  by (simp add: round_unat)

lemma even_unat: "even (unat (w :: u64)) \<longleftrightarrow> even w"
  by (metis bit_0 bit_unsigned_iff possible_bit_nat)

lemma even_round: "unat sz + 63 < 2 ^ 64 \<Longrightarrow> even (tlsf_round sz)"
  using round_unat [of sz] even_unat [of "tlsf_round sz"] by simp

lemma class_bounds: "fst (tlsf_calc_fl_sl sz) < TLSF_MAX_FL" "snd (tlsf_calc_fl_sl sz) < TLSF_MAX_SL"
proof -
  show "fst (tlsf_calc_fl_sl sz) < TLSF_MAX_FL" by (simp add: tlsf_calc_fl_sl_def Let_def)
  have "unat (a - 1) div 16 < 16" if "a < (256 :: u64)" "64 \<le> a" for a
  proof -
    have "a \<noteq> 0" using that(2) by auto
    then have "unat (a - 1) = unat a - 1" by (rule unat_minus_one)
    moreover have "unat a < 256" using that(1) by (simp add: word_less_nat_alt)
    ultimately show ?thesis by auto
  qed
  then show "snd (tlsf_calc_fl_sl sz) < TLSF_MAX_SL"
    by (auto simp: tlsf_calc_fl_sl_def Let_def not_less)
qed

text \<open>A larger size never has a smaller first level.\<close>

lemma class_mono:
  assumes "unat b + 63 < 2 ^ 64" "a \<le> b"
  shows "fst (tlsf_calc_fl_sl a) \<le> fst (tlsf_calc_fl_sl b)"
proof -
  have le: "unat a \<le> unat b" using assms(2) by (simp add: word_le_nat_alt)
  have "(unat a + 63) div 64 * 64 \<le> (unat b + 63) div 64 * 64" using le by (simp add: div_le_mono)
  then have "unat (tlsf_round a) \<le> unat (tlsf_round b)" using round_unat [of a] round_unat [of b] assms(1) le by simp
  then have r: "tlsf_round a \<le> tlsf_round b" by (simp add: word_le_nat_alt)
  define al where "al = (\<lambda>s. if tlsf_round s < TLSF_ALIGN then TLSF_ALIGN else tlsf_round s)"
  have "al a \<le> al b" using r by (auto simp: al_def not_less)
  then have fl: "floorlog 2 (unat (al a)) \<le> floorlog 2 (unat (al b))"
    by (intro floorlog_mono) (simp add: word_le_nat_alt)
  have "fst (tlsf_calc_fl_sl s) = (if al s < 256 then 0
      else if floorlog 2 (unat (al s)) - 1 \<ge> 30 then 29 else floorlog 2 (unat (al s)) - 1)" for s
    by (simp add: tlsf_calc_fl_sl_def Let_def al_def)
  then show ?thesis using fl \<open>al a \<le> al b\<close> by auto
qed

lemma classes_from_set: "set (classes_from fl) = {fl..<TLSF_MAX_FL} \<times> {..<TLSF_MAX_SL}"
  by (auto simp: classes_from_def)

section \<open>The invariant\<close>

abbreviation bsz :: "tlsf_manager \<Rightarrow> nat \<Rightarrow> nat" where
  "bsz t p \<equiv> unat (block_get_size (tl_blocks t p))"

abbreviation boff :: "tlsf_manager \<Rightarrow> nat \<Rightarrow> nat" where
  "boff t p \<equiv> unat (bk_data_offset (tl_blocks t p))"

abbreviation bused :: "tlsf_manager \<Rightarrow> nat \<Rightarrow> bool" where
  "bused t p \<equiv> block_is_used (tl_blocks t p)"

abbreviation bclass :: "tlsf_manager \<Rightarrow> nat \<Rightarrow> nat \<times> nat" where
  "bclass t p \<equiv> tlsf_calc_fl_sl (block_get_size (tl_blocks t p))"

text \<open>The blocks tile the pool from offset \<open>a\<close> to \<open>e\<close> in physical order.\<close>

fun tiles :: "tlsf_manager \<Rightarrow> nat \<Rightarrow> nat list \<Rightarrow> nat \<Rightarrow> bool" where
  "tiles t a [] e \<longleftrightarrow> a = e"
| "tiles t a (p # ps) e \<longleftrightarrow> boff t p = a \<and> 0 < bsz t p \<and> tiles t (a + bsz t p) ps e"

text \<open>The free lists hold exactly the free blocks, each in the list of its class; the used list
  holds exactly the used blocks; no two neighbours are both free; the counter is the sum of the used
  sizes.\<close>

definition free_lists_ok :: "tlsf_manager \<Rightarrow> nat set \<Rightarrow> bool" where
  "free_lists_ok t F \<longleftrightarrow> (\<forall>i j. distinct (tl_free_list t i j) \<and> set (tl_free_list t i j) = {p \<in> F. bclass t p = (i, j)})"

definition tlsf_ok :: "tlsf_manager \<Rightarrow> bool" where
  "tlsf_ok t \<longleftrightarrow>
     distinct (tl_phys t) \<and> (\<forall>p \<in> set (tl_phys t). p < tl_next t)
     \<and> tiles t 0 (tl_phys t) (unat (tl_shm_total_size t AND NOT 1))
     \<and> unat (tl_shm_total_size t) + 63 < 2 ^ 64
     \<and> successively (\<lambda>p q. bused t p \<or> bused t q) (tl_phys t)
     \<and> free_lists_ok t {p \<in> set (tl_phys t). \<not> bused t p}
     \<and> distinct (tl_used_list t) \<and> set (tl_used_list t) = {p \<in> set (tl_phys t). bused t p}
     \<and> unat (tl_total_used t) = (\<Sum>p \<in> set (tl_used_list t). bsz t p)"

lemma tiles_append: "tiles t a (ps @ qs) e \<longleftrightarrow> (\<exists>m. tiles t a ps m \<and> tiles t m qs e)"
  by (induction ps arbitrary: a) auto

lemma tiles_cong: "(\<And>p. p \<in> set ps \<Longrightarrow> tl_blocks t p = tl_blocks t' p) \<Longrightarrow> tiles t a ps e = tiles t' a ps e"
  by (induction ps arbitrary: a) auto

lemma tiles_le: "tiles t a ps e \<Longrightarrow> a \<le> e"
  by (induction ps arbitrary: a) fastforce+

lemma tiles_sum: "tiles t a ps e \<Longrightarrow> a + sum_list (map (bsz t) ps) = e"
  by (induction ps arbitrary: a) (auto simp flip: add.assoc)

lemma tiles_block:
  assumes "tiles t a ps e" "p \<in> set ps"
  shows "a \<le> boff t p" "boff t p + bsz t p \<le> e" "0 < bsz t p"
proof -
  obtain xs ys where ps: "ps = xs @ p # ys" using assms(2) by (meson split_list)
  then obtain m where "tiles t a xs m" "boff t p = m" "0 < bsz t p" "tiles t (m + bsz t p) ys e"
    using assms(1) by (auto simp: tiles_append)
  then show "a \<le> boff t p" "boff t p + bsz t p \<le> e" "0 < bsz t p" using tiles_le by fastforce+
qed

text \<open>Distinct blocks occupy disjoint ranges.\<close>

lemma tiles_disjoint:
  assumes "tiles t a ps e" "distinct ps" "p \<in> set ps" "q \<in> set ps" "p \<noteq> q"
  shows "boff t p + bsz t p \<le> boff t q \<or> boff t q + bsz t q \<le> boff t p"
proof -
  obtain xs ys where ps: "ps = xs @ p # ys" using assms(3) by (meson split_list)
  then obtain m where m: "tiles t a xs m" "boff t p = m" "tiles t (m + bsz t p) ys e"
    using assms(1) by (auto simp: tiles_append)
  from assms(4,5) ps consider "q \<in> set xs" | "q \<in> set ys" by auto
  then show ?thesis
  proof cases
    case 1
    then show ?thesis using tiles_block(2) [OF m(1)] m(2) by auto
  next
    case 2
    then show ?thesis using tiles_block(1) [OF m(3)] m(2) by auto
  qed
qed

section \<open>The list operations\<close>

lemma free_list_upd_simps [simp]:
  "tl_blocks (free_list_upd t c f) = tl_blocks t" "tl_phys (free_list_upd t c f) = tl_phys t"
  "tl_next (free_list_upd t c f) = tl_next t" "tl_used_list (free_list_upd t c f) = tl_used_list t"
  "tl_shm_total_size (free_list_upd t c f) = tl_shm_total_size t" "tl_total_used (free_list_upd t c f) = tl_total_used t"
  "tl_initialized (free_list_upd t c f) = tl_initialized t"
  "tl_free_list (free_list_upd t c f) i j =
     (if c = (i, j) then f (tl_free_list t i j) else tl_free_list t i j)"
  by (auto simp: free_list_upd_def split: prod.splits)

lemma free_block_simps [simp]:
  "tl_blocks (tlsf_insert_free_block t p) = tl_blocks t" "tl_phys (tlsf_insert_free_block t p) = tl_phys t"
  "tl_next (tlsf_insert_free_block t p) = tl_next t" "tl_used_list (tlsf_insert_free_block t p) = tl_used_list t"
  "tl_shm_total_size (tlsf_insert_free_block t p) = tl_shm_total_size t"
  "tl_total_used (tlsf_insert_free_block t p) = tl_total_used t"
  "tl_initialized (tlsf_insert_free_block t p) = tl_initialized t"
  "tl_blocks (tlsf_remove_free_block t p) = tl_blocks t" "tl_phys (tlsf_remove_free_block t p) = tl_phys t"
  "tl_next (tlsf_remove_free_block t p) = tl_next t" "tl_used_list (tlsf_remove_free_block t p) = tl_used_list t"
  "tl_shm_total_size (tlsf_remove_free_block t p) = tl_shm_total_size t"
  "tl_total_used (tlsf_remove_free_block t p) = tl_total_used t"
  "tl_initialized (tlsf_remove_free_block t p) = tl_initialized t"
  by (simp_all add: tlsf_insert_free_block_def tlsf_remove_free_block_def)

lemma free_lists_remove:
  "free_lists_ok t F \<Longrightarrow> p \<in> F \<Longrightarrow> free_lists_ok (tlsf_remove_free_block t p) (F - {p})"
  by (auto simp: free_lists_ok_def tlsf_remove_free_block_def)

lemma free_lists_insert:
  "free_lists_ok t F \<Longrightarrow> p \<notin> F \<Longrightarrow> free_lists_ok (tlsf_insert_free_block t p) (insert p F)"
  by (auto simp: free_lists_ok_def tlsf_insert_free_block_def)

lemma free_lists_cong:
  assumes "free_lists_ok t F" "tl_free_list t' = tl_free_list t" "\<And>p. p \<in> F \<Longrightarrow> tl_blocks t' p = tl_blocks t p"
  shows "free_lists_ok t' F"
proof -
  have "{p \<in> F. bclass t' p = c} = {p \<in> F. bclass t p = c}" for c using assms(3) by auto
  then show ?thesis using assms(1,2) by (simp add: free_lists_ok_def)
qed

lemma find_block_Some:
  assumes "free_lists_ok t F" "tlsf_find_block t sz = Some p"
  shows "p \<in> F" "sz \<le> block_get_size (tl_blocks t p)"
  using assms by (auto simp: tlsf_find_block_def free_lists_ok_def dest!: find_SomeD)

lemma find_block_None:
  assumes "free_lists_ok t F" "tlsf_find_block t sz = None" "p \<in> F" "bsz t p + 63 < 2 ^ 64"
  shows "block_get_size (tl_blocks t p) < sz"
proof (rule ccontr)
  assume "\<not> block_get_size (tl_blocks t p) < sz"
  then have le: "sz \<le> block_get_size (tl_blocks t p)" by simp
  obtain i j where c: "bclass t p = (i, j)" by (cases "bclass t p")
  then have "p \<in> set (tl_free_list t i j)" using assms(1,3) by (auto simp: free_lists_ok_def)
  moreover have "(i, j) \<in> set (classes_from (fst (tlsf_calc_fl_sl sz)))"
    using class_mono [OF assms(4) le] class_bounds [of "block_get_size (tl_blocks t p)"] c
    by (simp add: classes_from_set)
  ultimately show False using assms(2) le by (auto simp: tlsf_find_block_def find_None_iff)
qed

lemma find_by_offset_in:
  assumes "tlsf_find_block_by_offset t off = Some p" "free_lists_ok t F"
  shows "p \<in> set (tl_used_list t) \<union> F" "bk_data_offset (tl_blocks t p) = off"
  using assms by (auto simp: tlsf_find_block_by_offset_def free_lists_ok_def dest!: find_SomeD)

lemma find_by_offset_complete:
  assumes "free_lists_ok t F" "p \<in> set (tl_used_list t) \<union> F" "bk_data_offset (tl_blocks t p) = off"
  shows "tlsf_find_block_by_offset t off \<noteq> None"
proof -
  obtain i j where c: "bclass t p = (i, j)" by (cases "bclass t p")
  then have "p \<in> set (tl_used_list t) \<or> p \<in> set (tl_free_list t i j)"
    using assms(1,2) by (auto simp: free_lists_ok_def)
  moreover have "(i, j) \<in> set (classes_from 0)"
    using class_bounds [of "block_get_size (tl_blocks t p)"] c by (simp add: classes_from_set)
  ultimately have "p \<in> set (tl_used_list t @ concat (map (\<lambda>(i, j). tl_free_list t i j) (classes_from 0)))"
    by auto
  then show ?thesis
    using assms(3) unfolding tlsf_find_block_by_offset_def find_None_iff by blast
qed

lemma insert_after_split: "p \<notin> set xs \<Longrightarrow> insert_after p q (xs @ p # ys) = xs @ p # q # ys"
  by (induction xs) auto

lemma next_phys_split: "p \<notin> set xs \<Longrightarrow> next_phys p (xs @ p # ys) = (case ys of [] \<Rightarrow> None | y # _ \<Rightarrow> Some y)"
  by (induction xs) auto

lemma prev_phys_split:
  "p \<notin> set xs \<Longrightarrow> prev_phys p (xs @ p # ys) = (if xs = [] then None else Some (last xs))"
proof (induction xs rule: induct_list012)
  case 1
  then show ?case by (cases ys) auto
next
  case (2 x)
  then show ?case by (cases ys) auto
next
  case (3 x y zs)
  then show ?case by auto
qed

section \<open>Allocation keeps the invariant\<close>

lemma used_sum_le:
  assumes "tlsf_ok t"
  shows "(\<Sum>p \<in> set (tl_used_list t). bsz t p) + (\<Sum>p \<in> {p \<in> set (tl_phys t). \<not> bused t p}. bsz t p)
           = unat (tl_shm_total_size t AND NOT 1)"
proof -
  have "sum_list (map (bsz t) (tl_phys t)) = unat (tl_shm_total_size t AND NOT 1)"
    using tiles_sum [of t 0] assms by (simp add: tlsf_ok_def)
  moreover have "sum_list (map (bsz t) (tl_phys t)) = (\<Sum>p \<in> set (tl_phys t). bsz t p)"
    using assms by (simp add: tlsf_ok_def sum_list_distinct_conv_sum_set)
  moreover have "set (tl_phys t) = set (tl_used_list t) \<union> {p \<in> set (tl_phys t). \<not> bused t p}"
    "set (tl_used_list t) \<inter> {p \<in> set (tl_phys t). \<not> bused t p} = {}"
    using assms by (auto simp: tlsf_ok_def)
  ultimately show ?thesis by (metis (no_types, lifting) List.finite_set finite_Un sum.union_disjoint)
qed

text \<open>The result of taking the free block \<open>p\<close>, shrunk to \<open>need\<close> when a block \<open>q\<close> is split off.\<close>

lemma tlsf_ok_take:
  assumes ok: "tlsf_ok t" and p: "p \<in> set (tl_phys t)" "\<not> bused t p"
    and t': "tl_blocks t' = (tl_blocks t)(p := b)" "block_is_used b" "block_get_size b = block_get_size (tl_blocks t p)"
      "bk_data_offset b = bk_data_offset (tl_blocks t p)"
      "tl_phys t' = tl_phys t" "tl_next t' = tl_next t" "tl_shm_total_size t' = tl_shm_total_size t"
      "tl_free_list t' = tl_free_list (tlsf_remove_free_block t p)" "tl_used_list t' = p # tl_used_list t"
      "tl_total_used t' = tl_total_used t + block_get_size b"
  shows "tlsf_ok t'"
proof -
  have view: "bsz t' r = bsz t r" "boff t' r = boff t r" "bused t' r \<longleftrightarrow> r = p \<or> bused t r" for r
    using t'(1-4) by auto
  have tl: "tiles t' a ps e = tiles t a ps e" for a ps e
    using view(1,2) by (induction ps arbitrary: a) auto
  have pu: "p \<notin> set (tl_used_list t)" using ok p by (auto simp: tlsf_ok_def)
  have free: "{r \<in> set (tl_phys t). \<not> bused t' r} = {r \<in> set (tl_phys t). \<not> bused t r} - {p}"
    using view(3) by auto
  have "free_lists_ok (tlsf_remove_free_block t p) ({r \<in> set (tl_phys t). \<not> bused t r} - {p})"
    using ok p by (intro free_lists_remove) (auto simp: tlsf_ok_def)
  then have fl: "free_lists_ok t' ({r \<in> set (tl_phys t). \<not> bused t r} - {p})"
    by (rule free_lists_cong) (use t' in auto)
  have sum: "(\<Sum>r \<in> set (tl_used_list t'). bsz t' r) = bsz t p + (\<Sum>r \<in> set (tl_used_list t). bsz t r)"
    using pu view(1) t'(9) by simp
  have "bsz t p \<le> (\<Sum>r \<in> {r \<in> set (tl_phys t). \<not> bused t r}. bsz t r)"
    using p by (intro member_le_sum) auto
  then have "bsz t p + (\<Sum>r \<in> set (tl_used_list t). bsz t r) \<le> unat (tl_shm_total_size t AND NOT 1)"
    using used_sum_le [OF ok] by linarith
  also have "\<dots> < 2 ^ LENGTH(64)" by (rule unsigned_less)
  finally have "unat (tl_total_used t') = unat (tl_total_used t) + bsz t p"
    using ok t'(3,10) unat_add_lem [of "tl_total_used t" "block_get_size b"] by (simp add: tlsf_ok_def)
  then have used: "unat (tl_total_used t') = (\<Sum>r \<in> set (tl_used_list t'). bsz t' r)"
    using sum ok by (simp add: tlsf_ok_def)
  have succ: "successively (\<lambda>r s. bused t' r \<or> bused t' s) (tl_phys t)"
    using ok view(3) by (auto simp: tlsf_ok_def elim: successively_mono)
  show ?thesis
    unfolding tlsf_ok_def t'(5-7)
  proof (intro conjI)
    show "free_lists_ok t' {r \<in> set (tl_phys t). \<not> bused t' r}" using fl by (simp only: free)
    show "set (tl_used_list t') = {r \<in> set (tl_phys t). bused t' r}"
      using ok p(1) t'(9) view(3) by (auto simp: tlsf_ok_def)
    show "tiles t' 0 (tl_phys t) (unat (tl_shm_total_size t AND NOT 1))" using ok tl by (simp add: tlsf_ok_def)
  qed (use ok used succ pu t'(9) in \<open>auto simp: tlsf_ok_def\<close>)
qed

lemma tlsf_ok_shrink:
  assumes ok: "tlsf_ok t" and ps: "tl_phys t = xs @ p # ys" "bused t p" "ys \<noteq> [] \<Longrightarrow> bused t (hd ys)"
    and need: "0 < unat need" "unat need < bsz t p"
    and q: "q = tl_next t"
    and b: "block_is_used b" "block_get_size b = need" "bk_data_offset b = bk_data_offset (tl_blocks t p)"
    and c: "\<not> block_is_used c" "block_get_size c = block_get_size (tl_blocks t p) - need"
      "bk_data_offset c = bk_data_offset (tl_blocks t p) + need"
    and t': "tl_blocks t' = (tl_blocks t)(p := b, q := c)" "tl_phys t' = xs @ p # q # ys" "tl_next t' = Suc q"
      "tl_shm_total_size t' = tl_shm_total_size t" "tl_used_list t' = tl_used_list t"
      "\<And>i j. tl_free_list t' i j = (if tlsf_calc_fl_sl (block_get_size c) = (i, j) then q # tl_free_list t i j
                                     else tl_free_list t i j)"
      "tl_total_used t' = tl_total_used t - block_get_size c"
  shows "tlsf_ok t'"
proof -
  let ?E = "unat (tl_shm_total_size t AND NOT 1)"
  have dist: "distinct (xs @ p # ys)" and bound: "\<forall>r \<in> set (xs @ p # ys). r < q"
    using ok ps(1) q by (auto simp: tlsf_ok_def)
  have pq: "p \<noteq> q" "q \<notin> set (xs @ p # ys)" using bound by auto
  have bp: "tl_blocks t' p = b" "tl_blocks t' q = c" using t'(1) pq by auto
  have other: "tl_blocks t' r = tl_blocks t r" if "r \<in> set xs \<union> set ys" for r
    using that t'(1) dist pq by auto
  have le: "need \<le> block_get_size (tl_blocks t p)" using need(2) by (simp add: word_le_nat_alt)
  have szc: "unat (block_get_size c) = bsz t p - unat need" by (simp add: c(2) unat_sub [OF le])
  obtain m where m: "tiles t 0 xs m" "boff t p = m" "tiles t (m + bsz t p) ys ?E"
    using ok ps(1) by (auto simp: tlsf_ok_def tiles_append)
  have "m + bsz t p \<le> ?E" using tiles_le [OF m(3)] .
  also have "?E < 2 ^ LENGTH(64)" by (rule unsigned_less)
  finally have "boff t p + unat need < 2 ^ LENGTH(64)" using m(2) need(2) by linarith
  then have offc: "unat (bk_data_offset c) = boff t p + unat need"
    using unat_add_lem [of "bk_data_offset (tl_blocks t p)" need] by (simp add: c(3))
  have "tiles t' 0 xs m" using m(1) tiles_cong [of xs t t' 0 m] other by auto
  moreover have "tiles t' (m + bsz t p) ys ?E" using m(3) tiles_cong [of ys t t' "m + bsz t p" ?E] other by auto
  ultimately have tl: "tiles t' 0 (xs @ p # q # ys) ?E"
    unfolding tiles_append using m(2) need szc offc b bp by (intro exI [of _ m]) simp
  have usedeq: "bused t' r \<longleftrightarrow> bused t r" if "r \<in> set (xs @ p # ys)" for r
    using that other b(1) ps(2) bp(1) by auto
  have F: "{r \<in> set (xs @ p # q # ys). \<not> bused t' r} = insert q {r \<in> set (xs @ p # ys). \<not> bused t r}"
    using usedeq bp(2) c(1) by auto
  have "q \<notin> {r \<in> set (xs @ p # ys). \<not> bused t r}" using pq by simp
  moreover have "free_lists_ok t {r \<in> set (xs @ p # ys). \<not> bused t r}" using ok ps(1) by (simp add: tlsf_ok_def)
  moreover have "bclass t' r = bclass t r" if "r \<in> set (xs @ p # ys)" "\<not> bused t r" for r
    using that other ps(2) by auto
  ultimately have fl: "free_lists_ok t' (insert q {r \<in> set (xs @ p # ys). \<not> bused t r})"
    using bp(2) unfolding free_lists_ok_def t'(6) by auto
  have usedset: "set (tl_used_list t') = {r \<in> set (xs @ p # q # ys). bused t' r}"
    using ok ps(1) usedeq bp(2) c(1) t'(5) by (auto simp: tlsf_ok_def)
  have pin: "p \<in> set (tl_used_list t)" using ok ps by (simp add: tlsf_ok_def)
  have "(\<Sum>r \<in> set (tl_used_list t). bsz t' r) = bsz t' p + (\<Sum>r \<in> set (tl_used_list t) - {p}. bsz t' r)"
    using pin by (simp add: sum.remove)
  moreover have "(\<Sum>r \<in> set (tl_used_list t) - {p}. bsz t' r) = (\<Sum>r \<in> set (tl_used_list t) - {p}. bsz t r)"
    using ok ps(1) other by (intro sum.cong) (auto simp: tlsf_ok_def)
  moreover have "(\<Sum>r \<in> set (tl_used_list t). bsz t r) = bsz t p + (\<Sum>r \<in> set (tl_used_list t) - {p}. bsz t r)"
    using pin by (simp add: sum.remove)
  ultimately have sum: "(\<Sum>r \<in> set (tl_used_list t). bsz t' r) = (\<Sum>r \<in> set (tl_used_list t). bsz t r) - unat (block_get_size c)"
    using bp(1) b(2) szc need(2) by simp
  have "unat (block_get_size c) \<le> unat (tl_total_used t)"
    using szc member_le_sum [of p "set (tl_used_list t)" "bsz t"] pin ok by (simp add: tlsf_ok_def)
  then have tot: "unat (tl_total_used t') = (\<Sum>r \<in> set (tl_used_list t'). bsz t' r)"
    using sum ok t'(5,7) by (simp add: tlsf_ok_def unat_sub word_le_nat_alt)
  have "successively (\<lambda>r s. bused t r \<or> bused t s) xs" "successively (\<lambda>r s. bused t r \<or> bused t s) ys"
    using ok ps(1) by (auto simp: tlsf_ok_def successively_append_iff successively_Cons)
  then have "successively (\<lambda>r s. bused t' r \<or> bused t' s) xs" "successively (\<lambda>r s. bused t' r \<or> bused t' s) ys"
    using usedeq by (auto cong: successively_cong)
  moreover have "bused t' p" using bp(1) b(1) by simp
  moreover have "ys \<noteq> [] \<Longrightarrow> bused t' (hd ys)" using ps(3) usedeq by simp
  ultimately have succ: "successively (\<lambda>r s. bused t' r \<or> bused t' s) (xs @ p # q # ys)"
    by (auto simp: successively_append_iff successively_Cons)
  show ?thesis
    unfolding tlsf_ok_def t'(2-4)
  proof (intro conjI)
    show "distinct (xs @ p # q # ys)" using dist pq by auto
    show "\<forall>r \<in> set (xs @ p # q # ys). r < Suc q" using bound by (auto intro: less_SucI)
    show "tiles t' 0 (xs @ p # q # ys) ?E" by (rule tl)
    show "unat (tl_shm_total_size t) + 63 < 2 ^ 64" using ok by (simp add: tlsf_ok_def)
    show "successively (\<lambda>r s. bused t' r \<or> bused t' s) (xs @ p # q # ys)" by (rule succ)
    show "free_lists_ok t' {r \<in> set (xs @ p # q # ys). \<not> bused t' r}" using fl by (simp only: F)
    show "distinct (tl_used_list t')" using ok t'(5) by (simp add: tlsf_ok_def)
    show "set (tl_used_list t') = {r \<in> set (xs @ p # q # ys). bused t' r}" by (rule usedset)
    show "unat (tl_total_used t') = (\<Sum>r \<in> set (tl_used_list t'). bsz t' r)" by (rule tot)
  qed
qed

lemma phys_split:
  assumes "tlsf_ok t" "p \<in> set (tl_phys t)"
  obtains xs ys where "tl_phys t = xs @ p # ys" "p \<notin> set xs" "p \<notin> set ys"
proof -
  obtain xs ys where "tl_phys t = xs @ p # ys" using assms(2) by (meson split_list)
  moreover have "distinct (tl_phys t)" using assms(1) by (simp add: tlsf_ok_def)
  ultimately show ?thesis using that by auto
qed

lemma free_neighbour:
  assumes "tlsf_ok t" "tl_phys t = xs @ p # ys" "\<not> bused t p"
  shows "ys \<noteq> [] \<Longrightarrow> bused t (hd ys)" "xs \<noteq> [] \<Longrightarrow> bused t (last xs)"
  using assms by (auto simp: tlsf_ok_def successively_append_iff successively_Cons)

text \<open>A successful allocation: it takes a free block that is large enough, and what it hands out
  is a part of that block of at least the requested size.\<close>

lemma alloc_takes:
  assumes ok: "tlsf_ok t" and init: "tl_initialized t" "sz \<noteq> 0" and fit: "unat sz + 63 < 2 ^ 64"
    and find: "tlsf_find_block t (tlsf_round sz) = Some p"
  obtains t' where "tlsf_alloc mem_ok junk t sz = (bk_data_offset (tl_blocks t p), t')" "tlsf_ok t'"
    "p \<in> set (tl_phys t)" "\<not> bused t p" "tl_used_list t' = p # tl_used_list t"
    "boff t' p = boff t p" "unat (tlsf_round sz) \<le> bsz t' p" "bsz t' p \<le> bsz t p"
    "\<forall>r \<in> set (tl_used_list t). tl_blocks t' r = tl_blocks t r"
    "tl_initialized t'" "tl_shm_total_size t' = tl_shm_total_size t"
proof -
  let ?r = "tlsf_round sz"
  have F: "free_lists_ok t {p \<in> set (tl_phys t). \<not> bused t p}" using ok by (simp add: tlsf_ok_def)
  have p: "p \<in> set (tl_phys t)" "\<not> bused t p" "?r \<le> block_get_size (tl_blocks t p)"
    using find_block_Some [OF F find] by auto
  obtain xs ys where ps: "tl_phys t = xs @ p # ys" "p \<notin> set xs" "p \<notin> set ys"
    using phys_split [OF ok p(1)] .
  have pu: "p \<notin> set (tl_used_list t)" and pn: "p < tl_next t" using ok p(1,2) by (auto simp: tlsf_ok_def)
  have un: "tl_next t \<notin> set (tl_used_list t)" using ok by (auto simp: tlsf_ok_def)
  have "0 < unat sz" using init(2) by (simp add: unat_gt_0)
  then have r: "even ?r" "0 < unat ?r"
    using even_round [OF fit] round_ge [OF fit] by linarith+
  let ?b = "block_mark_as_used (tl_blocks t p)"
  define t1 where "t1 = (tlsf_remove_free_block t p)\<lparr>tl_blocks := (tl_blocks t)(p := ?b),
     tl_used_list := p # tl_used_list t, tl_total_used := tl_total_used t + block_get_size ?b\<rparr>"
  have ok1: "tlsf_ok t1" by (rule tlsf_ok_take [OF ok p(1,2), of t1 ?b]) (simp_all add: t1_def)
  show ?thesis
  proof (cases "block_get_size (tl_blocks t p) - ?r < TLSF_ALIGN \<or> \<not> mem_ok")
    case True
    then have "tlsf_alloc mem_ok junk t sz = (bk_data_offset (tl_blocks t p), t1)"
      using init find p(2)
      by (auto simp: tlsf_alloc_def Let_def tlsf_split_block_def t1_def upd_block_def tlsf_insert_used_block_def
          tlsf_remove_free_block_def free_list_upd_def split: prod.splits)
    then show ?thesis
      by (rule that) (use ok1 p pu init(1) in \<open>auto simp: t1_def word_le_nat_alt\<close>)
  next
    case False
    let ?q = "tl_next t"
    let ?c = "(block_mark_as_free (block_set_size (block_get_size (tl_blocks t p) - ?r) junk))
       \<lparr>bk_data_offset := bk_data_offset (tl_blocks t p) + ?r\<rparr>"
    let ?b' = "block_mark_as_used (block_set_size ?r (tl_blocks t p))"
    define t2 where "t2 = snd (tlsf_alloc mem_ok junk t sz)"
    have q: "?q \<noteq> p" using pn by simp
    have ev: "even (block_get_size (tl_blocks t p) - ?r)" using r(1) by simp
    have lt: "unat ?r < bsz t p"
    proof -
      have "block_get_size (tl_blocks t p) \<noteq> ?r" using False by auto
      then have "?r < block_get_size (tl_blocks t p)" using p(3) by simp
      then show ?thesis by (simp add: word_less_nat_alt)
    qed
    have alloc: "tlsf_alloc mem_ok junk t sz = (bk_data_offset (tl_blocks t p), t2)"
      "tl_blocks t2 = (tl_blocks t)(p := ?b', ?q := ?c)" "tl_phys t2 = xs @ p # ?q # ys" "tl_next t2 = Suc ?q"
      "tl_shm_total_size t2 = tl_shm_total_size t" "tl_used_list t2 = p # tl_used_list t"
      "tl_free_list t2 i j = (if tlsf_calc_fl_sl (block_get_size ?c) = (i, j)
         then ?q # tl_free_list (tlsf_remove_free_block t p) i j else tl_free_list (tlsf_remove_free_block t p) i j)"
      "tl_total_used t2 = tl_total_used t + ?r" "tl_initialized t2" for i j
      using init find False q ps r(1)
      by (auto simp: t2_def tlsf_alloc_def Let_def tlsf_split_block_def upd_block_def tlsf_insert_used_block_def
          tlsf_insert_free_block_def insert_after_split fun_upd_twist)
    have "tlsf_ok t2"
    proof (rule tlsf_ok_shrink [OF ok1, where xs = xs and ys = ys and need = ?r and q = ?q and b = ?b' and c = ?c])
      show "ys \<noteq> [] \<Longrightarrow> bused t1 (hd ys)"
        using free_neighbour(1) [OF ok ps(1) p(2)] by (auto simp: t1_def)
      show "tl_total_used t2 = tl_total_used t1 - block_get_size ?c" using ev by (simp add: alloc(8) t1_def)
      show "tl_free_list t2 i j = (if tlsf_calc_fl_sl (block_get_size ?c) = (i, j) then ?q # tl_free_list t1 i j
          else tl_free_list t1 i j)" for i j by (simp add: alloc(7) t1_def)
    qed (use r lt ps ev in \<open>simp_all add: t1_def alloc\<close>)
    with alloc(1) show ?thesis
      by (rule that) (use p(1,2) alloc(2,5,6,9) r(1) lt pu un q in auto)
  qed
qed

section \<open>Freeing keeps the invariant\<close>

text \<open>The state while a freed block \<open>b\<close> is being merged: it is free but in no free list, and its
  neighbours may be free too.\<close>

definition tlsf_pre :: "tlsf_manager \<Rightarrow> nat \<Rightarrow> bool" where
  "tlsf_pre t b \<longleftrightarrow>
     distinct (tl_phys t) \<and> (\<forall>p \<in> set (tl_phys t). p < tl_next t)
     \<and> tiles t 0 (tl_phys t) (unat (tl_shm_total_size t AND NOT 1))
     \<and> unat (tl_shm_total_size t) + 63 < 2 ^ 64
     \<and> b \<in> set (tl_phys t) \<and> \<not> bused t b
     \<and> successively (\<lambda>p q. bused t p \<or> bused t q \<or> p = b \<or> q = b) (tl_phys t)
     \<and> free_lists_ok t ({p \<in> set (tl_phys t). \<not> bused t p} - {b})
     \<and> distinct (tl_used_list t) \<and> set (tl_used_list t) = {p \<in> set (tl_phys t). bused t p}
     \<and> unat (tl_total_used t) = (\<Sum>p \<in> set (tl_used_list t). bsz t p)"

lemma tlsf_pre_insert:
  assumes pre: "tlsf_pre t b" and ps: "tl_phys t = xs @ b # ys" "ys \<noteq> [] \<Longrightarrow> bused t (hd ys)" "xs \<noteq> [] \<Longrightarrow> bused t (last xs)"
  shows "tlsf_ok (tlsf_insert_free_block t b)"
proof -
  have dist: "b \<notin> set xs" "b \<notin> set ys" using pre ps(1) by (auto simp: tlsf_pre_def)
  have "successively (\<lambda>p q. bused t p \<or> bused t q \<or> p = b \<or> q = b) xs"
    "successively (\<lambda>p q. bused t p \<or> bused t q \<or> p = b \<or> q = b) ys"
    using pre ps(1) by (auto simp: tlsf_pre_def successively_append_iff successively_Cons)
  then have "successively (\<lambda>p q. bused t p \<or> bused t q) xs" "successively (\<lambda>p q. bused t p \<or> bused t q) ys"
    using dist by (auto elim!: successively_mono)
  then have succ: "successively (\<lambda>p q. bused t p \<or> bused t q) (xs @ b # ys)"
    using ps(2,3) by (auto simp: successively_append_iff successively_Cons)
  have "insert b ({p \<in> set (tl_phys t). \<not> bused t p} - {b}) = {p \<in> set (tl_phys t). \<not> bused t p}"
    using pre by (auto simp: tlsf_pre_def)
  moreover have "free_lists_ok (tlsf_insert_free_block t b) (insert b ({p \<in> set (tl_phys t). \<not> bused t p} - {b}))"
    using pre by (intro free_lists_insert) (auto simp: tlsf_pre_def)
  ultimately have fl: "free_lists_ok (tlsf_insert_free_block t b) {p \<in> set (tl_phys t). \<not> bused t p}" by simp
  have tl: "tiles (tlsf_insert_free_block t b) a zs e = tiles t a zs e" for a zs e
    by (rule tiles_cong) simp
  show ?thesis
    using pre succ fl by (simp add: tlsf_ok_def tlsf_pre_def tl ps(1))
qed

lemma tlsf_pre_merge:
  assumes pre: "tlsf_pre t b" and ps: "tl_phys t = xs @ x # y # ys" and free: "\<not> bused t x" "\<not> bused t y"
    and bo: "(b = x \<and> z = y) \<or> (b = y \<and> z = x)"
    and c: "\<not> block_is_used c" "block_get_size c = block_get_size (tl_blocks t x) + block_get_size (tl_blocks t y)"
      "bk_data_offset c = bk_data_offset (tl_blocks t x)"
    and t': "tl_blocks t' = (tl_blocks t)(x := c)" "tl_phys t' = xs @ x # ys" "tl_next t' = tl_next t"
      "tl_shm_total_size t' = tl_shm_total_size t" "tl_used_list t' = tl_used_list t" "tl_total_used t' = tl_total_used t"
      "tl_free_list t' = tl_free_list (tlsf_remove_free_block t z)"
  shows "tlsf_pre t' x"
proof -
  let ?E = "unat (tl_shm_total_size t AND NOT 1)"
  have dist: "distinct (xs @ x # y # ys)" using pre ps by (simp add: tlsf_pre_def)
  have other: "tl_blocks t' r = tl_blocks t r" if "r \<noteq> x" for r using that t'(1) by simp
  obtain m where m: "tiles t 0 xs m" "boff t x = m" "0 < bsz t x" "tiles t (m + bsz t x + bsz t y) ys ?E"
    using pre ps by (auto simp: tlsf_pre_def tiles_append)
  have "m + bsz t x + bsz t y \<le> ?E" using tiles_le [OF m(4)] .
  also have "?E < 2 ^ LENGTH(64)" by (rule unsigned_less)
  finally have "bsz t x + bsz t y < 2 ^ LENGTH(64)" by linarith
  then have szc: "unat (block_get_size c) = bsz t x + bsz t y"
    using unat_add_lem [of "block_get_size (tl_blocks t x)" "block_get_size (tl_blocks t y)"] c(2) by simp
  have "tiles t' 0 xs m" using m(1) tiles_cong [of xs t t' 0 m] other dist by fastforce
  moreover have "tiles t' (m + (bsz t x + bsz t y)) ys ?E"
    using m(4) tiles_cong [of ys t t' "m + (bsz t x + bsz t y)" ?E] other dist by (fastforce simp: add.assoc)
  ultimately have tl: "tiles t' 0 (xs @ x # ys) ?E"
    unfolding tiles_append using m(2,3) szc c(3) t'(1) by (intro exI [of _ m]) simp
  have usedeq: "bused t' r \<longleftrightarrow> bused t r" for r using other free(1) c(1) t'(1) by auto
  have fset: "({r \<in> set (tl_phys t). \<not> bused t r} - {b}) - {z} = {r \<in> set (xs @ x # ys). \<not> bused t' r} - {x}"
    using bo ps dist usedeq by auto
  have "free_lists_ok (tlsf_remove_free_block t z) (({r \<in> set (tl_phys t). \<not> bused t r} - {b}) - {z})"
    using pre bo ps free dist by (intro free_lists_remove) (auto simp: tlsf_pre_def)
  then have fl: "free_lists_ok t' ({r \<in> set (xs @ x # ys). \<not> bused t' r} - {x})"
    unfolding fset by (rule free_lists_cong) (use t'(7) other in auto)
  have used: "set (tl_used_list t') = {r \<in> set (xs @ x # ys). bused t' r}"
    using pre ps free usedeq t'(5) by (auto simp: tlsf_pre_def)
  have "bsz t' r = bsz t r" if "r \<in> set (tl_used_list t)" for r
  proof -
    have "bused t r" using that pre by (simp add: tlsf_pre_def)
    then show ?thesis using other [of r] free(1) by (cases "r = x") auto
  qed
  then have tot: "unat (tl_total_used t') = (\<Sum>r \<in> set (tl_used_list t'). bsz t' r)"
    using pre t'(5,6) by (simp add: tlsf_pre_def)
  let ?P = "\<lambda>p q. bused t p \<or> bused t q \<or> p = b \<or> q = b"
  let ?P' = "\<lambda>p q. bused t' p \<or> bused t' q \<or> p = x \<or> q = x"
  have "successively ?P xs" "successively ?P ys"
    using pre ps by (auto simp: tlsf_pre_def successively_append_iff successively_Cons)
  moreover have "b \<notin> set xs" "b \<notin> set ys" using bo dist by auto
  ultimately have "successively ?P' xs" "successively ?P' ys"
    using usedeq by (auto elim!: successively_mono cong: successively_cong)
  then have succ: "successively ?P' (xs @ x # ys)" by (auto simp: successively_append_iff successively_Cons)
  show ?thesis
    unfolding tlsf_pre_def t'(2-4)
  proof (intro conjI)
    show "distinct (xs @ x # ys)" using dist by auto
    show "\<forall>r \<in> set (xs @ x # ys). r < tl_next t" using pre ps by (auto simp: tlsf_pre_def)
    show "unat (tl_shm_total_size t) + 63 < 2 ^ 64" using pre by (simp add: tlsf_pre_def)
    show "\<not> bused t' x" using usedeq free by simp
    show "distinct (tl_used_list t')" using pre t'(5) by (simp add: tlsf_pre_def)
  qed (use tl succ fl used tot in simp_all)
qed

lemma merge_prev_pre:
  assumes pre: "tlsf_pre t p" and ps: "tl_phys t = xs @ p # ys"
  obtains b t' xs' where "merge_prev t p = (b, t')" "tlsf_pre t' b" "tl_phys t' = xs' @ b # ys"
    "xs' \<noteq> [] \<Longrightarrow> bused t' (last xs')" "tl_used_list t' = tl_used_list t"
    "\<And>r. bused t r \<Longrightarrow> tl_blocks t' r = tl_blocks t r" "tl_initialized t' = tl_initialized t"
    "tl_shm_total_size t' = tl_shm_total_size t"
proof -
  have dist: "distinct (xs @ p # ys)" using pre ps by (simp add: tlsf_pre_def)
  have prev: "prev_phys p (tl_phys t) = (if xs = [] then None else Some (last xs))"
    using dist ps by (simp add: prev_phys_split)
  show ?thesis
  proof (cases "xs = [] \<or> bused t (last xs)")
    case True
    then have "merge_prev t p = (p, t)" using prev by (auto simp: merge_prev_def)
    then show ?thesis by (rule that) (use True pre ps in auto)
  next
    case False
    then obtain zs q where xs: "xs = zs @ [q]" by (cases xs rule: rev_cases) auto
    then have q: "\<not> bused t q" "q \<noteq> p" using False dist by auto
    have pf: "\<not> bused t p" using pre by (simp add: tlsf_pre_def)
    let ?c = "block_set_size (block_get_size (tl_blocks t q) + block_get_size (tl_blocks t p)) (tl_blocks t q)"
    define t' where "t' = (tlsf_remove_free_block t q)\<lparr>tl_blocks := (tl_blocks t)(q := ?c), tl_phys := zs @ q # ys\<rparr>"
    have rem: "remove1 p (tl_phys t) = zs @ q # ys" using ps xs dist by (simp add: remove1_append)
    have m: "merge_prev t p = (q, t')"
      using prev xs q rem by (simp add: merge_prev_def Let_def upd_block_def t'_def)
    have "tlsf_pre t' q"
      by (rule tlsf_pre_merge [OF pre, where xs = zs and x = q and y = p and ys = ys and z = q and c = ?c])
         (use ps xs q pf in \<open>simp_all add: t'_def\<close>)
    moreover have "zs \<noteq> [] \<Longrightarrow> bused t (last zs)"
      using pre ps xs q dist by (auto simp: tlsf_pre_def successively_append_iff successively_Cons)
    ultimately show ?thesis
      using dist xs by (intro that [OF m, of zs]) (auto simp: t'_def q)
  qed
qed

lemma merge_next_pre:
  assumes pre: "tlsf_pre t b" and ps: "tl_phys t = xs @ b # ys" "xs \<noteq> [] \<Longrightarrow> bused t (last xs)"
  obtains t' ys' where "merge_next t b = t'" "tlsf_pre t' b" "tl_phys t' = xs @ b # ys'"
    "xs \<noteq> [] \<Longrightarrow> bused t' (last xs)" "ys' \<noteq> [] \<Longrightarrow> bused t' (hd ys')" "tl_used_list t' = tl_used_list t"
    "\<And>r. bused t r \<Longrightarrow> tl_blocks t' r = tl_blocks t r" "tl_initialized t' = tl_initialized t"
    "tl_shm_total_size t' = tl_shm_total_size t"
proof -
  have dist: "distinct (xs @ b # ys)" using pre ps by (simp add: tlsf_pre_def)
  have nxt: "next_phys b (tl_phys t) = (case ys of [] \<Rightarrow> None | y # _ \<Rightarrow> Some y)"
    using dist ps(1) by (simp add: next_phys_split)
  have bf: "\<not> bused t b" using pre by (simp add: tlsf_pre_def)
  show ?thesis
  proof (cases "ys = [] \<or> bused t (hd ys)")
    case True
    then have "merge_next t b = t" using nxt by (auto simp: merge_next_def split: list.splits)
    then show ?thesis by (rule that) (use True pre ps in auto)
  next
    case False
    then obtain q zs where ys: "ys = q # zs" "\<not> bused t q" by (cases ys) auto
    then have q: "q \<noteq> b" using dist by auto
    let ?c = "block_set_size (block_get_size (tl_blocks t b) + block_get_size (tl_blocks t q)) (tl_blocks t b)"
    define t' where "t' = (tlsf_remove_free_block t q)\<lparr>tl_blocks := (tl_blocks t)(b := ?c), tl_phys := xs @ b # zs\<rparr>"
    have rem: "remove1 q (tl_phys t) = xs @ b # zs" using ps(1) ys q dist by (simp add: remove1_append)
    have m: "merge_next t b = t'"
      using nxt ys q rem by (simp add: merge_next_def Let_def upd_block_def t'_def)
    have "tlsf_pre t' b"
      by (rule tlsf_pre_merge [OF pre, where xs = xs and x = b and y = q and ys = zs and z = q and c = ?c])
         (use ps ys q bf in \<open>simp_all add: t'_def\<close>)
    moreover have "zs \<noteq> [] \<Longrightarrow> bused t (hd zs)"
      using pre ps(1) ys q dist by (auto simp: tlsf_pre_def successively_append_iff successively_Cons)
    moreover have "last xs \<noteq> b" if "xs \<noteq> []" using that dist by auto
    moreover have "hd zs \<noteq> b" if "zs \<noteq> []" using that dist ys by auto
    ultimately show ?thesis
      using ps(2) bf by (intro that [OF m, of zs]) (auto simp: t'_def)
  qed
qed

lemma find_by_offset_unique:
  assumes ok: "tlsf_ok t" and p: "p \<in> set (tl_phys t)"
  shows "tlsf_find_block_by_offset t (bk_data_offset (tl_blocks t p)) = Some p"
proof -
  let ?F = "{p \<in> set (tl_phys t). \<not> bused t p}"
  have F: "free_lists_ok t ?F" and U: "set (tl_used_list t) \<union> ?F = set (tl_phys t)"
    using ok by (auto simp: tlsf_ok_def)
  obtain q where q: "tlsf_find_block_by_offset t (bk_data_offset (tl_blocks t p)) = Some q"
    using find_by_offset_complete [OF F, of p] p U by auto
  then have "q \<in> set (tl_phys t)" "boff t q = boff t p" using find_by_offset_in [OF q F] U by auto
  moreover have "tiles t 0 (tl_phys t) (unat (tl_shm_total_size t AND NOT 1))" "distinct (tl_phys t)"
    using ok by (simp_all add: tlsf_ok_def)
  ultimately have "q = p"
    using tiles_disjoint [of t 0 "tl_phys t" _ p q] tiles_block(3) [of t 0 "tl_phys t" _ p]
      tiles_block(3) [of t 0 "tl_phys t" _ q] p by fastforce
  then show ?thesis using q by simp
qed

lemma offset_inj:
  assumes "tlsf_ok t" "p \<in> set (tl_phys t)" "q \<in> set (tl_phys t)" "boff t p = boff t q"
  shows "p = q"
proof -
  have eq: "bk_data_offset (tl_blocks t p) = bk_data_offset (tl_blocks t q)" using assms(4) by (simp only: word_unat_eq_iff)
  from find_by_offset_unique [OF assms(1,2)] find_by_offset_unique [OF assms(1,3)] show ?thesis unfolding eq by simp
qed

lemma and_not_one_le: "unat (w AND NOT (1 :: u64)) \<le> unat w"
  by (simp add: word_and_le2 flip: word_le_nat_alt)

lemma used_offset_less:
  assumes ok: "tlsf_ok t" and p: "p \<in> set (tl_phys t)"
  shows "bk_data_offset (tl_blocks t p) < tl_shm_total_size t"
proof -
  have "boff t p + bsz t p \<le> unat (tl_shm_total_size t AND NOT 1)" "0 < bsz t p"
    using tiles_block [of t 0 "tl_phys t" _ p] ok p by (auto simp: tlsf_ok_def)
  then show ?thesis using and_not_one_le [of "tl_shm_total_size t"] by (simp add: word_less_nat_alt)
qed

lemma tlsf_pre_release:
  assumes ok: "tlsf_ok t" and p: "p \<in> set (tl_used_list t)"
    and t': "tl_blocks t' = (tl_blocks t)(p := block_mark_as_free (tl_blocks t p))" "tl_phys t' = tl_phys t"
      "tl_next t' = tl_next t" "tl_shm_total_size t' = tl_shm_total_size t" "tl_free_list t' = tl_free_list t"
      "tl_used_list t' = remove1 p (tl_used_list t)"
      "tl_total_used t' = tl_total_used t - block_get_size (tl_blocks t p)"
  shows "tlsf_pre t' p"
proof -
  have pin: "p \<in> set (tl_phys t)" "bused t p" using ok p by (auto simp: tlsf_ok_def)
  have view: "bsz t' r = bsz t r" "boff t' r = boff t r" "bused t' r \<longleftrightarrow> r \<noteq> p \<and> bused t r" for r
    using t'(1) by auto
  have tl: "tiles t' a ps e = tiles t a ps e" for a ps e
    using view(1,2) by (induction ps arbitrary: a) auto
  have F: "{r \<in> set (tl_phys t). \<not> bused t' r} - {p} = {r \<in> set (tl_phys t). \<not> bused t r}"
    using pin view(3) by auto
  have fl: "free_lists_ok t' {r \<in> set (tl_phys t). \<not> bused t r}"
    by (rule free_lists_cong [of t]) (use ok t' pin in \<open>auto simp: tlsf_ok_def\<close>)
  have du: "distinct (tl_used_list t)" using ok by (simp add: tlsf_ok_def)
  have sum: "(\<Sum>r \<in> set (tl_used_list t). bsz t r) = bsz t p + (\<Sum>r \<in> set (tl_used_list t) - {p}. bsz t r)"
    using p by (simp add: sum.remove)
  then have "block_get_size (tl_blocks t p) \<le> tl_total_used t"
    using ok by (simp add: tlsf_ok_def word_le_nat_alt)
  then have tot: "unat (tl_total_used t') = (\<Sum>r \<in> set (tl_used_list t'). bsz t' r)"
    using sum ok du t'(6,7) by (simp add: tlsf_ok_def unat_sub view)
  have succ: "successively (\<lambda>r s. bused t' r \<or> bused t' s \<or> r = p \<or> s = p) (tl_phys t)"
    using ok view(3) by (auto simp: tlsf_ok_def elim!: successively_mono)
  show ?thesis
    unfolding tlsf_pre_def t'(2-4)
  proof (intro conjI)
    show "free_lists_ok t' ({r \<in> set (tl_phys t). \<not> bused t' r} - {p})" using fl by (simp only: F)
    show "set (tl_used_list t') = {r \<in> set (tl_phys t). bused t' r}"
      using ok du t'(6) view(3) by (auto simp: tlsf_ok_def)
    show "tiles t' 0 (tl_phys t) (unat (tl_shm_total_size t AND NOT 1))" using ok tl by (simp add: tlsf_ok_def)
  qed (use ok pin tot succ du t'(6) view(3) in \<open>simp_all add: tlsf_ok_def\<close>)
qed

text \<open>Freeing the offset of a used block \<open>p\<close>.\<close>

lemma free_releases:
  assumes ok: "tlsf_ok t" and init: "tl_initialized t" and p: "p \<in> set (tl_used_list t)"
  obtains t' where "tlsf_free t (bk_data_offset (tl_blocks t p)) = t'" "tlsf_ok t'"
    "set (tl_used_list t') = set (tl_used_list t) - {p}"
    "\<forall>r \<in> set (tl_used_list t) - {p}. tl_blocks t' r = tl_blocks t r"
    "tl_initialized t'" "tl_shm_total_size t' = tl_shm_total_size t"
proof -
  let ?off = "bk_data_offset (tl_blocks t p)"
  have pin: "p \<in> set (tl_phys t)" "bused t p" and usedp: "\<And>r. r \<in> set (tl_used_list t) \<Longrightarrow> bused t r"
    and du: "distinct (tl_used_list t)" using ok p by (auto simp: tlsf_ok_def)
  define t3 where "t3 = t\<lparr>tl_used_list := remove1 p (tl_used_list t),
     tl_total_used := tl_total_used t - block_get_size (tl_blocks t p),
     tl_blocks := (tl_blocks t)(p := block_mark_as_free (tl_blocks t p))\<rparr>"
  have pre: "tlsf_pre t3 p" by (rule tlsf_pre_release [OF ok p]) (simp_all add: t3_def)
  obtain xs ys where ps: "tl_phys t3 = xs @ p # ys" using pin(1) by (auto simp: t3_def dest: split_list)
  obtain b t4 xs' where m1: "merge_prev t3 p = (b, t4)" "tlsf_pre t4 b" "tl_phys t4 = xs' @ b # ys"
    "xs' \<noteq> [] \<Longrightarrow> bused t4 (last xs')" "tl_used_list t4 = tl_used_list t3"
    "\<And>r. bused t3 r \<Longrightarrow> tl_blocks t4 r = tl_blocks t3 r" "tl_initialized t4 = tl_initialized t3"
    "tl_shm_total_size t4 = tl_shm_total_size t3"
    using merge_prev_pre [OF pre ps] by metis
  obtain t5 ys' where m2: "merge_next t4 b = t5" "tlsf_pre t5 b" "tl_phys t5 = xs' @ b # ys'"
    "xs' \<noteq> [] \<Longrightarrow> bused t5 (last xs')" "ys' \<noteq> [] \<Longrightarrow> bused t5 (hd ys')" "tl_used_list t5 = tl_used_list t4"
    "\<And>r. bused t4 r \<Longrightarrow> tl_blocks t5 r = tl_blocks t4 r" "tl_initialized t5 = tl_initialized t4"
    "tl_shm_total_size t5 = tl_shm_total_size t4"
    using merge_next_pre [OF m1(2,3,4)] by metis
  have "tlsf_free t ?off = tlsf_insert_free_block t5 b"
    using init find_by_offset_unique [OF ok pin(1)] pin(2) used_offset_less [OF ok pin(1)] m1(1) m2(1)
    by (simp add: tlsf_free_def Let_def tlsf_remove_used_block_def upd_block_def t3_def not_le)
  moreover have "tlsf_ok (tlsf_insert_free_block t5 b)" by (rule tlsf_pre_insert [OF m2(2,3,5,4)])
  moreover have "tl_blocks t5 r = tl_blocks t r" if "r \<in> set (tl_used_list t) - {p}" for r
  proof -
    have "tl_blocks t3 r = tl_blocks t r" "bused t3 r" using that usedp by (auto simp: t3_def)
    then show ?thesis using m1(6) [of r] m2(7) [of r] by simp
  qed
  ultimately show ?thesis
    using m1(5,7,8) m2(6,8,9) du init by (intro that [of "tlsf_insert_free_block t5 b"]) (auto simp: t3_def)
qed

section \<open>The contract of an allocator of ranges\<close>

text \<open>\<open>'e\<close> is what the environment decides in a call (here whether \<^verbatim>\<open>malloc\<close> succeeds). A range is its
  start and its length. The client keeps a ledger of what it was given; the derived lemma is that
  ranges in the ledger never overlap and stay in the pool, whatever the sequence of calls.\<close>

datatype 'e range_op = Alloc 'e u64 | Free u64

fun range_step :: "('e \<Rightarrow> 's \<Rightarrow> u64 \<Rightarrow> u64 \<times> 's) \<Rightarrow> ('s \<Rightarrow> u64 \<Rightarrow> 's) \<Rightarrow> u64 \<Rightarrow> 'e range_op \<Rightarrow>
    's \<times> (u64 \<rightharpoonup> u64) \<Rightarrow> 's \<times> (u64 \<rightharpoonup> u64)" where
  "range_step alloc release failure (Alloc e n) (s, m) =
     (let (off, s') = alloc e s n in if off = failure then (s', m) else (s', m(off \<mapsto> n)))"
| "range_step alloc release failure (Free off) (s, m) = (release s off, m(off := None))"

locale offset_allocator =
  fixes inv :: "'s \<Rightarrow> bool"
    and ranges :: "'s \<Rightarrow> (nat \<times> nat) set"
    and pool :: "'s \<Rightarrow> nat"
    and request :: "u64 \<Rightarrow> bool"
    and alloc :: "'e \<Rightarrow> 's \<Rightarrow> u64 \<Rightarrow> u64 \<times> 's"
    and release :: "'s \<Rightarrow> u64 \<Rightarrow> 's"
    and failure :: u64
  assumes inv_alloc: "inv s \<Longrightarrow> request n \<Longrightarrow> inv (snd (alloc e s n))"
    and inv_release: "inv s \<Longrightarrow> inv (release s off)"
    and alloc_fails: "inv s \<Longrightarrow> request n \<Longrightarrow> fst (alloc e s n) = failure \<Longrightarrow> snd (alloc e s n) = s"
    and alloc_gives: "inv s \<Longrightarrow> request n \<Longrightarrow> fst (alloc e s n) \<noteq> failure \<Longrightarrow>
          (\<exists>len \<ge> unat n. ranges (snd (alloc e s n)) = insert (unat (fst (alloc e s n)), len) (ranges s))"
    and release_ranges: "inv s \<Longrightarrow> ranges (release s off) = {r \<in> ranges s. fst r \<noteq> unat off}"
    and pool_alloc: "inv s \<Longrightarrow> request n \<Longrightarrow> pool (snd (alloc e s n)) = pool s"
    and pool_release: "inv s \<Longrightarrow> pool (release s off) = pool s"
    and alloc_fresh: "inv s \<Longrightarrow> request n \<Longrightarrow> fst (alloc e s n) \<noteq> failure \<Longrightarrow>
          unat (fst (alloc e s n)) \<notin> fst ` ranges s"
    and ranges_disjoint: "inv s \<Longrightarrow> r \<in> ranges s \<Longrightarrow> r' \<in> ranges s \<Longrightarrow> r \<noteq> r' \<Longrightarrow>
          fst r + snd r \<le> fst r' \<or> fst r' + snd r' \<le> fst r"
    and ranges_in_pool: "inv s \<Longrightarrow> r \<in> ranges s \<Longrightarrow> fst r + snd r \<le> pool s"
begin

abbreviation step :: "'e range_op \<Rightarrow> 's \<times> (u64 \<rightharpoonup> u64) \<Rightarrow> 's \<times> (u64 \<rightharpoonup> u64)" where
  "step \<equiv> range_step alloc release failure"

fun requested :: "'e range_op \<Rightarrow> bool" where
  "requested (Alloc e n) = request n"
| "requested (Free off) = True"

definition backed :: "'s \<Rightarrow> (u64 \<rightharpoonup> u64) \<Rightarrow> bool" where
  "backed s m \<longleftrightarrow> inv s \<and> (\<forall>off n. m off = Some n \<longrightarrow> (\<exists>len \<ge> unat n. (unat off, len) \<in> ranges s))"

lemma backedD:
  assumes "backed s m" "m off = Some n"
  obtains len where "unat n \<le> len" "(unat off, len) \<in> ranges s"
  using assms by (auto simp: backed_def)

lemma backedI:
  assumes "inv s" "\<And>off n. m off = Some n \<Longrightarrow> \<exists>len \<ge> unat n. (unat off, len) \<in> ranges s"
  shows "backed s m"
  using assms by (auto simp: backed_def)

lemma backed_alloc:
  assumes "backed s m" "unat n \<le> len" "ranges s' = insert (unat off, len) (ranges s)" "inv s'"
  shows "backed s' (m(off \<mapsto> n))"
proof (rule backedI [OF assms(4)])
  fix x k
  assume x: "(m(off \<mapsto> n)) x = Some k"
  show "\<exists>len \<ge> unat k. (unat x, len) \<in> ranges s'"
  proof (cases "x = off")
    case True
    then show ?thesis using x assms(2,3) by auto
  next
    case False
    then have "m x = Some k" using x by simp
    from backedD [OF assms(1) this] show ?thesis using assms(3) by blast
  qed
qed

lemma backed_release:
  assumes "backed s m"
  shows "backed (release s off) (m(off := None))"
proof -
  have "inv s" using assms by (simp add: backed_def)
  show ?thesis
  proof (rule backedI [OF inv_release [OF \<open>inv s\<close>]])
    fix x k
    assume x: "(m(off := None)) x = Some k"
    then have "m x = Some k" "x \<noteq> off" by (auto split: if_splits)
    from backedD [OF assms this(1)] obtain len where "unat k \<le> len" "(unat x, len) \<in> ranges s" .
    with \<open>x \<noteq> off\<close> have "(unat x, len) \<in> ranges (release s off)"
      by (simp add: release_ranges [OF \<open>inv s\<close>] word_unat_eq_iff)
    with \<open>unat k \<le> len\<close> show "\<exists>len \<ge> unat k. (unat x, len) \<in> ranges (release s off)" by blast
  qed
qed

lemma backed_step:
  assumes "backed s m" "requested op"
  shows "backed (fst (step op (s, m))) (snd (step op (s, m)))" "pool (fst (step op (s, m))) = pool s"
proof -
  have "backed (fst (step op (s, m))) (snd (step op (s, m))) \<and> pool (fst (step op (s, m))) = pool s"
  proof (cases op)
    case (Alloc e n)
    then have pre: "inv s" "request n" using assms by (auto simp: backed_def)
    show ?thesis
    proof (cases "fst (alloc e s n) = failure")
      case True
      then show ?thesis using Alloc assms alloc_fails [OF pre True] by (simp add: Let_def split_beta)
    next
      case False
      from alloc_gives [OF pre False] obtain len where "len \<ge> unat n"
        "ranges (snd (alloc e s n)) = insert (unat (fst (alloc e s n)), len) (ranges s)" by blast
      from backed_alloc [OF assms(1) this inv_alloc [OF pre]] show ?thesis
        using Alloc False pool_alloc [OF pre] by (simp add: Let_def split_beta)
    qed
  next
    case (Free off)
    then show ?thesis
      using assms(1) backed_release [OF assms(1)] by (simp add: pool_release backed_def)
  qed
  then show "backed (fst (step op (s, m))) (snd (step op (s, m)))" "pool (fst (step op (s, m))) = pool s" by auto
qed

lemma backed_run:
  assumes "backed s m" "\<forall>op \<in> set ops. requested op" "fold step ops (s, m) = (s', m')"
  shows "backed s' m'" "pool s' = pool s"
proof -
  have "backed s' m' \<and> pool s' = pool s"
    using assms
  proof (induction ops arbitrary: s m)
    case (Cons op ops)
    obtain s1 m1 where s1: "step op (s, m) = (s1, m1)" by (cases "step op (s, m)")
    then show ?case using Cons.IH [of s1 m1] Cons.prems backed_step [of s m op] by simp
  qed simp
  then show "backed s' m'" "pool s' = pool s" by auto
qed

lemma ledger_disjoint:
  assumes "backed s m" "m off = Some n" "m off' = Some n'" "off \<noteq> off'"
  shows "unat off + unat n \<le> unat off' \<or> unat off' + unat n' \<le> unat off"
    and "unat off + unat n \<le> pool s"
proof -
  obtain len len' where l: "unat n \<le> len" "(unat off, len) \<in> ranges s" "unat n' \<le> len'" "(unat off', len') \<in> ranges s"
    by (meson backedD [OF assms(1)] assms(2,3))
  moreover have "inv s" using assms(1) by (simp add: backed_def)
  ultimately show "unat off + unat n \<le> unat off' \<or> unat off' + unat n' \<le> unat off"
    "unat off + unat n \<le> pool s"
    using ranges_disjoint [of s "(unat off, len)" "(unat off', len')"] ranges_in_pool [of s "(unat off, len)"] assms(4)
    by (auto simp: word_unat_eq_iff)
qed

end


section \<open>The allocator meets the contract\<close>

definition tlsf_inv :: "tlsf_manager \<Rightarrow> bool" where
  "tlsf_inv t \<longleftrightarrow> tlsf_ok t \<and> tl_initialized t"

definition tlsf_ranges :: "tlsf_manager \<Rightarrow> (nat \<times> nat) set" where
  "tlsf_ranges t = (\<lambda>p. (boff t p, bsz t p)) ` set (tl_used_list t)"

text \<open>A request whose rounding to the alignment does not wrap.\<close>

definition tlsf_request :: "u64 \<Rightarrow> bool" where
  "tlsf_request sz \<longleftrightarrow> unat sz + 63 < 2 ^ 64"

lemma offset_not_fail:
  assumes "tlsf_ok t" "p \<in> set (tl_phys t)"
  shows "bk_data_offset (tl_blocks t p) \<noteq> TLSF_FAIL"
proof -
  have "boff t p < unat (tl_shm_total_size t)" "unat (tl_shm_total_size t) + 63 < 2 ^ 64"
    using used_offset_less [OF assms] assms(1) by (simp_all add: word_less_nat_alt tlsf_ok_def)
  then have "boff t p + 63 < 2 ^ 64" by linarith
  then show ?thesis by (auto simp: word_unat_eq_iff)
qed

lemma tlsf_alloc_cases:
  assumes "tlsf_inv t" "tlsf_request sz"
  obtains (fails) "tlsf_alloc (fst e) (snd e) t sz = (TLSF_FAIL, t)" "sz = 0 \<or> tlsf_find_block t (tlsf_round sz) = None"
  | (gives) p t' where "tlsf_alloc (fst e) (snd e) t sz = (bk_data_offset (tl_blocks t p), t')" "tlsf_inv t'"
      "p \<in> set (tl_phys t)" "\<not> bused t p" "bk_data_offset (tl_blocks t p) \<noteq> TLSF_FAIL"
      "sz \<noteq> 0" "tlsf_find_block t (tlsf_round sz) = Some p"
      "unat sz \<le> bsz t' p" "bsz t' p \<le> bsz t p" "tlsf_ranges t' = insert (boff t p, bsz t' p) (tlsf_ranges t)"
      "tl_shm_total_size t' = tl_shm_total_size t"
proof -
  have ok: "tlsf_ok t" and init: "tl_initialized t" and fit: "unat sz + 63 < 2 ^ 64"
    using assms by (simp_all add: tlsf_inv_def tlsf_request_def)
  show thesis
  proof (cases "sz = 0 \<or> tlsf_find_block t (tlsf_round sz) = None")
    case True
    then show ?thesis using init by (intro fails) (auto simp: tlsf_alloc_def)
  next
    case False
    then obtain p where nz: "sz \<noteq> 0" and p: "tlsf_find_block t (tlsf_round sz) = Some p" by auto
    obtain t' where
      t': "tlsf_alloc (fst e) (snd e) t sz = (bk_data_offset (tl_blocks t p), t')" "tlsf_ok t'"
        "p \<in> set (tl_phys t)" "\<not> bused t p" "tl_used_list t' = p # tl_used_list t" "boff t' p = boff t p"
        "unat (tlsf_round sz) \<le> bsz t' p" "bsz t' p \<le> bsz t p"
        "\<forall>r \<in> set (tl_used_list t). tl_blocks t' r = tl_blocks t r"
        "tl_initialized t'" "tl_shm_total_size t' = tl_shm_total_size t"
      by (rule alloc_takes [OF ok init nz fit p, of "fst e" "snd e"])
    have "tlsf_ranges t' = insert (boff t p, bsz t' p) (tlsf_ranges t)"
      using t'(5,6,9) by (simp add: tlsf_ranges_def)
    moreover have "unat sz \<le> bsz t' p" using round_ge [OF fit] t'(7) by linarith
    moreover have "tlsf_inv t'" using t'(2,10) by (simp add: tlsf_inv_def)
    ultimately show ?thesis
      using gives [OF t'(1)] t'(3,4,8,11) nz p offset_not_fail [OF ok t'(3)] by blast
  qed
qed

lemma tlsf_free_unused:
  assumes ok: "tlsf_ok t" and "\<And>p. p \<in> set (tl_used_list t) \<Longrightarrow> bk_data_offset (tl_blocks t p) \<noteq> off"
  shows "tlsf_free t off = t"
proof -
  have F: "free_lists_ok t {p \<in> set (tl_phys t). \<not> bused t p}"
    and U: "set (tl_used_list t) = {p \<in> set (tl_phys t). bused t p}" using ok by (simp_all add: tlsf_ok_def)
  have "\<not> block_is_used (tl_blocks t p)" if "tlsf_find_block_by_offset t off = Some p" for p
    using find_by_offset_in [OF that F] assms(2) [of p] by auto
  then show ?thesis by (simp add: tlsf_free_def split: option.split)
qed

lemma tlsf_free_spec:
  assumes "tlsf_inv t"
  shows "tlsf_inv (tlsf_free t off)" "tl_shm_total_size (tlsf_free t off) = tl_shm_total_size t"
    "tlsf_ranges (tlsf_free t off) = {r \<in> tlsf_ranges t. fst r \<noteq> unat off}"
proof -
  have ok: "tlsf_ok t" and init: "tl_initialized t" using assms by (simp_all add: tlsf_inv_def)
  have "tlsf_inv (tlsf_free t off) \<and> tl_shm_total_size (tlsf_free t off) = tl_shm_total_size t
    \<and> tlsf_ranges (tlsf_free t off) = {r \<in> tlsf_ranges t. fst r \<noteq> unat off}"
  proof (cases "\<exists>p \<in> set (tl_used_list t). bk_data_offset (tl_blocks t p) = off")
    case False
    then have "tlsf_free t off = t" using tlsf_free_unused [OF ok, of off] by blast
    moreover have "{r \<in> tlsf_ranges t. fst r \<noteq> unat off} = tlsf_ranges t"
      using False by (auto simp: tlsf_ranges_def simp flip: word_unat_eq_iff)
    ultimately show ?thesis using assms by simp
  next
    case True
    then obtain p where p: "p \<in> set (tl_used_list t)" "bk_data_offset (tl_blocks t p) = off" by blast
    obtain t' where
      t': "tlsf_free t (bk_data_offset (tl_blocks t p)) = t'" "tlsf_ok t'"
        "set (tl_used_list t') = set (tl_used_list t) - {p}"
        "\<forall>r \<in> set (tl_used_list t) - {p}. tl_blocks t' r = tl_blocks t r"
        "tl_initialized t'" "tl_shm_total_size t' = tl_shm_total_size t"
      by (rule free_releases [OF ok init p(1)])
    have U: "set (tl_used_list t) \<subseteq> set (tl_phys t)" using ok by (auto simp: tlsf_ok_def)
    have same: "boff t q = unat off \<longleftrightarrow> q = p" if "q \<in> set (tl_used_list t)" for q
      using offset_inj [OF ok subsetD [OF U that] subsetD [OF U p(1)]] p(2) by blast
    have "tlsf_ranges t' = (\<lambda>q. (boff t q, bsz t q)) ` (set (tl_used_list t) - {p})"
      unfolding tlsf_ranges_def t'(3) by (rule image_cong [OF refl]) (simp add: t'(4))
    also have "\<dots> = {r \<in> tlsf_ranges t. fst r \<noteq> unat off}"
      unfolding tlsf_ranges_def using same by force
    finally show ?thesis using t' p(2) by (simp add: tlsf_inv_def)
  qed
  then show "tlsf_inv (tlsf_free t off)" "tl_shm_total_size (tlsf_free t off) = tl_shm_total_size t"
    "tlsf_ranges (tlsf_free t off) = {r \<in> tlsf_ranges t. fst r \<noteq> unat off}" by auto
qed

lemma tlsf_ranges_disjoint:
  assumes "tlsf_inv t" "r \<in> tlsf_ranges t" "r' \<in> tlsf_ranges t" "r \<noteq> r'"
  shows "fst r + snd r \<le> fst r' \<or> fst r' + snd r' \<le> fst r"
proof -
  have T: "tiles t 0 (tl_phys t) (unat (tl_shm_total_size t AND NOT 1))" "distinct (tl_phys t)"
    "set (tl_used_list t) \<subseteq> set (tl_phys t)" using assms(1) by (auto simp: tlsf_inv_def tlsf_ok_def)
  then show ?thesis using tiles_disjoint [OF T(1,2)] assms(2-4) by (fastforce simp: tlsf_ranges_def)
qed

lemma tlsf_ranges_in_pool:
  assumes "tlsf_inv t" "r \<in> tlsf_ranges t"
  shows "fst r + snd r \<le> unat (tl_shm_total_size t)"
proof -
  have T: "tiles t 0 (tl_phys t) (unat (tl_shm_total_size t AND NOT 1))"
    "set (tl_used_list t) \<subseteq> set (tl_phys t)" using assms(1) by (auto simp: tlsf_inv_def tlsf_ok_def)
  then show ?thesis
    using tiles_block(2) [OF T(1)] assms(2) and_not_one_le [of "tl_shm_total_size t"] by (fastforce simp: tlsf_ranges_def)
qed


interpretation tlsf: offset_allocator tlsf_inv tlsf_ranges "\<lambda>t. unat (tl_shm_total_size t)" tlsf_request
  "\<lambda>e. tlsf_alloc (fst e) (snd e)" tlsf_free TLSF_FAIL
proof (unfold_locales, goal_cases)
  case (1 s n e)
  then show ?case by (cases rule: tlsf_alloc_cases [OF 1(1,2), of e]) auto
next
  case (3 s n e)
  then show ?case by (cases rule: tlsf_alloc_cases [OF 3(1,2), of e]) auto
next
  case (4 s n e)
  then show ?case by (cases rule: tlsf_alloc_cases [OF 4(1,2), of e]) auto
next
  case (6 s n e)
  then show ?case by (cases rule: tlsf_alloc_cases [OF 6(1,2), of e]) auto
next
  case (8 s n e)
  from 8(1,2) show ?case
  proof (cases rule: tlsf_alloc_cases [of s n e, case_names fails gives])
    case (gives p t')
    have ok: "tlsf_ok s" using 8(1) by (simp add: tlsf_inv_def)
    then have U: "set (tl_used_list s) = {p \<in> set (tl_phys s). bused s p}" by (simp add: tlsf_ok_def)
    have "boff s q \<noteq> boff s p" if "q \<in> set (tl_used_list s)" for q
      using offset_inj [OF ok _ gives(3), of q] gives(4) that U by blast
    then have "\<forall>q \<in> set (tl_used_list s). boff s p \<noteq> boff s q" by (metis (no_types))
    then have "boff s p \<notin> boff s ` set (tl_used_list s)" by blast
    then show ?thesis unfolding gives(1) tlsf_ranges_def by (simp add: image_image)
  qed (use 8(3) in simp)
qed (simp_all add: tlsf_free_spec tlsf_ranges_disjoint tlsf_ranges_in_pool)

lemma bk_size_upd: "bk_size (b\<lparr>bk_size := w\<rparr>) = w"
  by simp

lemma set_size_get_size: "block_get_size (block_set_size s b) = s AND NOT 1"
  unfolding block_get_size_def block_set_size_def
  by (intro bit_eqI) (metis bit_and_not_one bit_and_one bit_or_iff bk_size_upd)

lemma and_not_one_nonzero: "1 < s \<Longrightarrow> s AND NOT (1 :: u64) \<noteq> 0"
proof
  assume "1 < s" "s AND NOT 1 = 0"
  then have "bit s n \<longleftrightarrow> bit (s AND 1) n" for n
    by (metis bit_and_not_one bit_and_one bit_0_eq bot_apply bot_bool_def)
  then have "s = s AND 1" by (simp add: bit_eq_iff)
  also have "s AND 1 \<le> 1" by (rule word_and_le1)
  finally show False using \<open>1 < s\<close> by simp
qed

lemma pool_init_inv:
  assumes "\<not> tl_initialized t" "1 < shm_size" "unat shm_size + 63 < 2 ^ 64"
  shows "fst (tlsf_pool_init True junk t base shm_size) = 0"
    and "tlsf_inv (snd (tlsf_pool_init True junk t base shm_size))"
    and "tlsf_ranges (snd (tlsf_pool_init True junk t base shm_size)) = {}"
    and "tl_shm_total_size (snd (tlsf_pool_init True junk t base shm_size)) = shm_size"
proof -
  let ?t = "snd (tlsf_pool_init True junk t base shm_size)" and ?q = "tl_next t"
  have eq: "tl_phys ?t = [?q]" "tl_used_list ?t = []" "tl_next ?t = Suc ?q" "tl_total_used ?t = 0"
    "tl_shm_total_size ?t = shm_size" "tl_initialized ?t"
    "block_get_size (tl_blocks ?t ?q) = shm_size AND NOT 1" "\<not> block_is_used (tl_blocks ?t ?q)"
    "bk_data_offset (tl_blocks ?t ?q) = 0"
    "\<And>i j. tl_free_list ?t i j = (if tlsf_calc_fl_sl (shm_size AND NOT 1) = (i, j) then [?q] else [])"
    using assms(1) unfolding tlsf_pool_init_def Let_def
    by (simp_all add: set_size_get_size tlsf_insert_free_block_def)
  show "fst (tlsf_pool_init True junk t base shm_size) = 0"
    using assms(1) by (simp add: tlsf_pool_init_def Let_def)
  have "shm_size AND NOT 1 \<noteq> 0" using and_not_one_nonzero [OF assms(2)] .
  then have "0 < unat (shm_size AND NOT 1)" by (simp only: unat_gt_0 not_False_eq_True)
  then show "tlsf_inv ?t"
    unfolding tlsf_inv_def tlsf_ok_def free_lists_ok_def eq using assms(3) by (simp add: eq) (auto simp: eq)
  show "tlsf_ranges ?t = {}" "tl_shm_total_size ?t = shm_size" by (simp_all add: tlsf_ranges_def eq)
qed


section \<open>Properties\<close>

definition tlsf_run :: "(bool \<times> tlsf_block) range_op list \<Rightarrow> tlsf_manager \<Rightarrow> tlsf_manager \<times> (u64 \<rightharpoonup> u64)" where
  "tlsf_run ops t = fold (range_step (\<lambda>e. tlsf_alloc (fst e) (snd e)) tlsf_free TLSF_FAIL) ops (t, Map.empty)"

text \<open>C14: From a freshly initialised pool, after any sequence of \<^verbatim>\<open>tlsf_alloc\<close> and \<^verbatim>\<open>tlsf_free\<close> calls
  (with any outcome of the header \<^verbatim>\<open>malloc\<close> inside, and with frees of arbitrary offsets) whose requests
  round without wrapping, the ranges the caller still holds are pairwise disjoint and lie in the
  pool, and the allocator's invariant holds.\<close>
theorem tlsf_ranges_safe:
  assumes "\<not> tl_initialized t" "1 < shm_size" "unat shm_size + 63 < 2 ^ 64"
    and "tlsf_pool_init True junk t base shm_size = (r, t0)"
    and "\<forall>e n. Alloc e n \<in> set ops \<longrightarrow> unat n + 63 < 2 ^ 64"
    and "tlsf_run ops t0 = (t', ledger)"
  shows "tlsf_inv t' \<and> (\<forall>off n. ledger off = Some n \<longrightarrow> unat off + unat n \<le> unat shm_size)
    \<and> (\<forall>off n off' n'. ledger off = Some n \<longrightarrow> ledger off' = Some n' \<longrightarrow> off \<noteq> off' \<longrightarrow>
           unat off + unat n \<le> unat off' \<or> unat off' + unat n' \<le> unat off)"
proof -
  have t0: "t0 = snd (tlsf_pool_init True junk t base shm_size)" using assms(4) by simp
  have "tlsf.backed t0 Map.empty" using pool_init_inv(2) [OF assms(1-3)] by (simp add: t0 tlsf.backed_def)
  moreover have "tlsf.requested op" if "op \<in> set ops" for op
    by (cases op) (use assms(5) that in \<open>auto simp: tlsf_request_def\<close>)
  ultimately have b: "tlsf.backed t' ledger" and tot: "tl_shm_total_size t' = tl_shm_total_size t0"
    using tlsf.backed_run [OF _ _ assms(6) [unfolded tlsf_run_def]] by (auto simp flip: word_unat_eq_iff)
  have inv: "tlsf_inv t'" using b by (simp add: tlsf.backed_def)
  have "unat off + unat n \<le> unat shm_size" if l: "ledger off = Some n" for off n
  proof -
    obtain len where "unat n \<le> len" "(unat off, len) \<in> tlsf_ranges t'" by (rule tlsf.backedD [OF b l])
    with tlsf.ranges_in_pool [OF inv this(2)] show ?thesis
      using tot pool_init_inv(4) [OF assms(1-3)] by (simp add: t0)
  qed
  with inv tlsf.ledger_disjoint(1) [OF b] show ?thesis by blast
qed

text \<open>The requests of the witness: two allocations, a free of the first, and a third that splits the
  space it left.\<close>

definition demo_block :: tlsf_block where
  "demo_block = \<lparr>bk_size = 0, bk_data_offset = 0\<rparr>"

definition demo_tlsf :: tlsf_manager where
  "demo_tlsf = \<lparr>tl_initialized = False, tl_blocks = (\<lambda>_. demo_block), tl_next = 0, tl_phys = [],
     tl_free_list = (\<lambda>_ _. []), tl_used_list = [], tl_shm_base = 0, tl_shm_total_size = 0, tl_total_used = 0\<rparr>"

definition demo_ops :: "(bool \<times> tlsf_block) range_op list" where
  "demo_ops = [Alloc (True, demo_block) 200, Alloc (True, demo_block) 100, Free 0, Alloc (True, demo_block) 64]"

lemma demo_run:
  "map_option fst (Some (tlsf_pool_init True demo_block demo_tlsf 0 1024)) = Some 0"
  "snd (tlsf_run demo_ops (snd (tlsf_pool_init True demo_block demo_tlsf 0 1024))) 256 = Some 100"
  "snd (tlsf_run demo_ops (snd (tlsf_pool_init True demo_block demo_tlsf 0 1024))) 0 = Some 64"
  by code_simp+

theorem tlsf_ranges_safe_witness:
  "let t0 = snd (tlsf_pool_init True demo_block demo_tlsf 0 1024); (t', ledger) = tlsf_run demo_ops t0 in
   tlsf_inv t' \<and> ledger 0 = Some 64 \<and> ledger 256 = Some 100
   \<and> (unat (0 :: u64) + unat (64 :: u64) \<le> unat (256 :: u64) \<or> unat (256 :: u64) + unat (100 :: u64) \<le> unat (0 :: u64))"
proof -
  let ?t0 = "snd (tlsf_pool_init True demo_block demo_tlsf 0 1024)"
  obtain t' ledger where run: "tlsf_run demo_ops ?t0 = (t', ledger)" by fastforce
  have l: "ledger 256 = Some 100" "ledger 0 = Some 64" using demo_run(2,3) unfolding run by simp_all
  obtain r where "tlsf_pool_init True demo_block demo_tlsf 0 1024 = (r, ?t0)" by (metis prod.collapse)
  then have "tlsf_inv t' \<and> (\<forall>off n. ledger off = Some n \<longrightarrow> unat off + unat n \<le> unat (1024 :: u64))
    \<and> (\<forall>off n off' n'. ledger off = Some n \<longrightarrow> ledger off' = Some n' \<longrightarrow> off \<noteq> off' \<longrightarrow>
           unat off + unat n \<le> unat off' \<or> unat off' + unat n' \<le> unat off)"
    using run by (intro tlsf_ranges_safe) (auto simp: demo_tlsf_def demo_ops_def)
  then have "tlsf_inv t' \<and> (unat (0 :: u64) + unat (64 :: u64) \<le> unat (256 :: u64) \<or>
      unat (256 :: u64) + unat (100 :: u64) \<le> unat (0 :: u64))"
    using l by fastforce
  then show ?thesis unfolding run Let_def using l by simp
qed

lemma alloc_fails_iff:
  assumes "tlsf_inv t" "tlsf_request sz"
  shows "fst (tlsf_alloc mem_ok junk t sz) = TLSF_FAIL \<longleftrightarrow>
    sz = 0 \<or> (\<forall>p \<in> set (tl_phys t). bused t p \<or> bsz t p < unat (tlsf_round sz))"
proof -
  have ok: "tlsf_ok t" using assms(1) by (simp add: tlsf_inv_def)
  have F: "free_lists_ok t {p \<in> set (tl_phys t). \<not> bused t p}" using ok by (simp add: tlsf_ok_def)
  have small: "bsz t p + 63 < 2 ^ 64" if "p \<in> set (tl_phys t)" for p
  proof -
    have T: "tiles t 0 (tl_phys t) (unat (tl_shm_total_size t AND NOT 1))" "unat (tl_shm_total_size t) + 63 < 2 ^ 64"
      using ok by (simp_all add: tlsf_ok_def)
    from tiles_block(2) [OF T(1) that] T(2) and_not_one_le [of "tl_shm_total_size t"] show ?thesis by linarith
  qed
  have None: "tlsf_find_block t (tlsf_round sz) = None \<longleftrightarrow>
    (\<forall>p \<in> set (tl_phys t). bused t p \<or> bsz t p < unat (tlsf_round sz))" (is "?l = ?r")
  proof
    assume l: ?l
    show ?r
    proof
      fix p assume p: "p \<in> set (tl_phys t)"
      then show "bused t p \<or> bsz t p < unat (tlsf_round sz)"
        using find_block_None [OF F l, of p] small [OF p] by (auto simp: word_less_nat_alt)
    qed
  next
    assume r: ?r
    show ?l
    proof (cases "tlsf_find_block t (tlsf_round sz)")
      case (Some p)
      from find_block_Some [OF F this] r show ?thesis by (auto simp: word_le_nat_alt)
    qed
  qed
  show ?thesis
  proof (cases rule: tlsf_alloc_cases [OF assms, of "(mem_ok, junk)", case_names fails gives])
    case fails
    then show ?thesis using None by simp
  next
    case (gives p t')
    then show ?thesis using None by simp
  qed
qed

text \<open>A pool without used blocks is one free block, or empty.\<close>

lemma unallocated_pool:
  assumes "tlsf_ok t" "tl_used_list t = []"
  shows "tl_total_used t = 0"
    and "(\<exists>p. tl_phys t = [p] \<and> \<not> bused t p \<and> bsz t p = unat (tl_shm_total_size t AND NOT 1))
      \<or> (tl_phys t = [] \<and> unat (tl_shm_total_size t AND NOT 1) = 0)"
proof -
  have ok: "unat (tl_total_used t) = 0" "\<And>p. p \<in> set (tl_phys t) \<Longrightarrow> \<not> bused t p"
    "successively (\<lambda>p q. bused t p \<or> bused t q) (tl_phys t)"
    "tiles t 0 (tl_phys t) (unat (tl_shm_total_size t AND NOT 1))"
    using assms by (auto simp: tlsf_ok_def)
  show "tl_total_used t = 0" using ok(1) by (simp only: unat_eq_0)
  show "(\<exists>p. tl_phys t = [p] \<and> \<not> bused t p \<and> bsz t p = unat (tl_shm_total_size t AND NOT 1))
      \<or> (tl_phys t = [] \<and> unat (tl_shm_total_size t AND NOT 1) = 0)"
  proof (cases "tl_phys t")
    case Nil
    then show ?thesis using ok(4) by simp
  next
    case (Cons p ps)
    then have "ps = []" using ok(2) [of p] ok(2) [of "hd ps"] ok(3) by (cases ps) auto
    then show ?thesis using ok(2) [of p] ok(4) Cons by simp
  qed
qed

text \<open>C15: The search is complete: an allocation of a nonzero size that rounds without wrapping fails
  exactly when no free block is as large as the rounded size. In particular a pool of which nothing is
  allocated has coalesced into one block, so it serves every request that fits it.\<close>
theorem tlsf_alloc_complete:
  assumes "tlsf_inv t" "unat sz + 63 < 2 ^ 64" "sz \<noteq> 0"
  shows "(fst (tlsf_alloc mem_ok junk t sz) = TLSF_FAIL \<longleftrightarrow>
           (\<forall>p \<in> set (tl_phys t). block_is_used (tl_blocks t p)
             \<or> block_get_size (tl_blocks t p) < tlsf_round sz))
    \<and> (tlsf_ranges t = {} \<longrightarrow> tl_total_used t = 0 \<and>
         (fst (tlsf_alloc mem_ok junk t sz) = TLSF_FAIL \<longleftrightarrow> (tl_shm_total_size t AND NOT 1) < tlsf_round sz))"
proof -
  have ok: "tlsf_ok t" and req: "tlsf_request sz" using assms(1,2) by (simp_all add: tlsf_inv_def tlsf_request_def)
  have iff: "fst (tlsf_alloc mem_ok junk t sz) = TLSF_FAIL \<longleftrightarrow>
    (\<forall>p \<in> set (tl_phys t). bused t p \<or> bsz t p < unat (tlsf_round sz))"
    using alloc_fails_iff [OF assms(1) req] assms(3) by simp
  have pos: "0 < unat (tlsf_round sz)" using round_ge [OF assms(2)] assms(3) unat_gt_0 [of sz] by linarith
  have "tl_total_used t = 0 \<and>
    ((\<forall>p \<in> set (tl_phys t). bused t p \<or> bsz t p < unat (tlsf_round sz)) \<longleftrightarrow>
     unat (tl_shm_total_size t AND NOT 1) < unat (tlsf_round sz))"
    if "tlsf_ranges t = {}"
  proof -
    have "tl_used_list t = []" using that by (simp add: tlsf_ranges_def)
    note pool = unallocated_pool [OF ok this]
    from pool(2) show ?thesis
    proof
      assume "\<exists>p. tl_phys t = [p] \<and> \<not> bused t p \<and> bsz t p = unat (tl_shm_total_size t AND NOT 1)"
      then obtain p where "tl_phys t = [p]" "\<not> bused t p" "bsz t p = unat (tl_shm_total_size t AND NOT 1)" by blast
      then show ?thesis using pool(1) by (simp del: word_not_simps)
    next
      assume "tl_phys t = [] \<and> unat (tl_shm_total_size t AND NOT 1) = 0"
      then have "tl_phys t = []" "unat (tl_shm_total_size t AND NOT 1) < unat (tlsf_round sz)" using pos by linarith+
      then show ?thesis using pool(1) by (simp only: list.set ball_empty simp_thms)
    qed
  qed
  then show ?thesis unfolding iff word_less_nat_alt by blast
qed

theorem tlsf_alloc_complete_witness:
  "let t = snd (tlsf_pool_init True demo_block demo_tlsf 0 1024) in
   tlsf_inv t \<and> tlsf_ranges t = {} \<and> fst (tlsf_alloc True demo_block t 1000) \<noteq> TLSF_FAIL"
proof -
  let ?t = "snd (tlsf_pool_init True demo_block demo_tlsf 0 1024)"
  have pre: "\<not> tl_initialized demo_tlsf" "1 < (1024 :: u64)" "unat (1024 :: u64) + 63 < 2 ^ 64" by (simp_all add: demo_tlsf_def)
  note t = pool_init_inv [OF pre, of demo_block 0]
  have "\<not> (tl_shm_total_size ?t AND NOT 1) < tlsf_round 1000" unfolding t(4) by code_simp
  moreover have "unat (1000 :: u64) + 63 < 2 ^ 64" "(1000 :: u64) \<noteq> 0" by simp_all
  note tlsf_alloc_complete [OF t(2) this, of True demo_block, THEN conjunct2]
  ultimately show ?thesis using t(2,3) unfolding Let_def by blast
qed

lemma used_total_le:
  assumes "tlsf_ok t"
  shows "tl_total_used t \<le> tl_shm_total_size t"
  using used_sum_le [OF assms] and_not_one_le [of "tl_shm_total_size t"] assms
  unfolding word_le_nat_alt tlsf_ok_def by linarith

lemma total_used_ranges:
  assumes "tlsf_inv t"
  shows "unat (tl_total_used t) = (\<Sum>r \<in> tlsf_ranges t. snd r)"
proof -
  have ok: "tlsf_ok t" using assms by (simp add: tlsf_inv_def)
  have U: "set (tl_used_list t) \<subseteq> set (tl_phys t)" using ok by (auto simp: tlsf_ok_def)
  have "inj_on (\<lambda>p. (boff t p, bsz t p)) (set (tl_used_list t))"
  proof (rule inj_onI)
    fix p q assume "p \<in> set (tl_used_list t)" "q \<in> set (tl_used_list t)" "(boff t p, bsz t p) = (boff t q, bsz t q)"
    then show "p = q" using offset_inj [OF ok, of p q] U by blast
  qed
  then have "(\<Sum>r \<in> tlsf_ranges t. snd r) = (\<Sum>p \<in> set (tl_used_list t). bsz t p)"
    unfolding tlsf_ranges_def by (simp add: sum.reindex)
  then show ?thesis using ok by (simp add: tlsf_ok_def)
qed

text \<open>C16: Freeing what an allocation returned undoes it: the allocated ranges and the byte counter of
  the pool are those from before the allocation, so alternating the two never drifts. The counter is
  always the sum of the allocated ranges and \<^verbatim>\<open>shm_swap_buffer_get_status\<close> reports it and its
  complement.\<close>
theorem tlsf_free_undoes_alloc:
  assumes "tlsf_inv t" "unat sz + 63 < 2 ^ 64"
    and "tlsf_alloc mem_ok junk t sz = (off, t1)" "off \<noteq> TLSF_FAIL"
  shows "tlsf_inv (tlsf_free t1 off) \<and> tlsf_ranges (tlsf_free t1 off) = tlsf_ranges t
    \<and> tl_total_used (tlsf_free t1 off) = tl_total_used t
    \<and> tl_total_used t < tl_total_used t1
    \<and> shm_swap_buffer_get_status t1 =
        (ENPU_SUCCESS, Some (tl_shm_total_size t, tl_total_used t1, tl_shm_total_size t - tl_total_used t1))"
proof -
  have req: "tlsf_request sz" using assms(2) by (simp add: tlsf_request_def)
  note step = tlsf.inv_alloc [OF assms(1) req, of "(mem_ok, junk)"]
    tlsf.alloc_gives [OF assms(1) req, of "(mem_ok, junk)"]
    tlsf.alloc_fresh [OF assms(1) req, of "(mem_ok, junk)"]
    tlsf.pool_alloc [OF assms(1) req, of "(mem_ok, junk)"]
  obtain len where inv: "tlsf_inv t1" and len: "unat sz \<le> len" "tlsf_ranges t1 = insert (unat off, len) (tlsf_ranges t)"
    and fresh: "unat off \<notin> fst ` tlsf_ranges t" and tot: "tl_shm_total_size t1 = tl_shm_total_size t"
    using step assms(3,4) by (auto simp flip: word_unat_eq_iff)
  have undo: "tlsf_ranges (tlsf_free t1 off) = tlsf_ranges t"
    unfolding tlsf.release_ranges [OF inv] len(2) using fresh by (auto simp: image_iff)
  have inv': "tlsf_inv (tlsf_free t1 off)" by (rule tlsf.inv_release [OF inv])
  have used: "tl_total_used (tlsf_free t1 off) = tl_total_used t"
    using total_used_ranges [OF inv'] total_used_ranges [OF assms(1)] undo by (simp add: word_unat_eq_iff)
  have "finite (tlsf_ranges t)" "(unat off, len) \<notin> tlsf_ranges t"
    using fresh by (auto simp: tlsf_ranges_def image_iff)
  then have sum: "unat (tl_total_used t1) = len + unat (tl_total_used t)"
    unfolding total_used_ranges [OF inv] total_used_ranges [OF assms(1)] len(2) by simp
  have "sz \<noteq> 0" using assms(3,4) by (auto simp: tlsf_alloc_def)
  then have "0 < len" using len(1) by (metis unat_gt_0 less_le_trans)
  with sum have less: "tl_total_used t < tl_total_used t1" by (simp add: word_less_nat_alt)
  have "tl_total_used t1 \<le> tl_shm_total_size t" using used_total_le inv tot by (metis tlsf_inv_def)
  then have "(if tl_shm_total_size t > tl_total_used t1 then tl_shm_total_size t - tl_total_used t1 else 0)
      = tl_shm_total_size t - tl_total_used t1" by (auto simp: not_less)
  then show ?thesis
    using inv inv' undo used less tot by (simp add: shm_swap_buffer_get_status_def Let_def tlsf_inv_def)
qed


theorem tlsf_free_undoes_alloc_witness:
  "let t = snd (tlsf_pool_init True demo_block demo_tlsf 0 1024); (off, t1) = tlsf_alloc True demo_block t 200 in
   off = 0 \<and> tl_total_used (tlsf_free t1 off) = tl_total_used t \<and> tl_total_used t < tl_total_used t1"
proof -
  let ?t = "snd (tlsf_pool_init True demo_block demo_tlsf 0 1024)"
  have inv: "tlsf_inv ?t" by (rule pool_init_inv(2)) (simp_all add: demo_tlsf_def)
  have off: "fst (tlsf_alloc True demo_block ?t 200) = 0" by code_simp
  obtain t1 where t1: "tlsf_alloc True demo_block ?t 200 = (0, t1)" using off by (metis prod.collapse)
  have "unat (200 :: u64) + 63 < 2 ^ 64" "(0 :: u64) \<noteq> TLSF_FAIL" by simp_all
  from tlsf_free_undoes_alloc [OF inv this(1) t1 this(2)] show ?thesis unfolding t1 Let_def by simp
qed

lemma round_wraps:
  assumes "2 ^ 64 \<le> unat sz + 63"
  shows "tlsf_round sz = 0"
proof -
  have "unat sz < 2 ^ 64" using unsigned_less [of sz, where ?'a = nat] by simp
  then have "unat (sz + 63) = unat sz + 63 - 2 ^ 64"
    using assms by (simp add: unat_word_ariths mod_if)
  then have "unat (sz + 63) div 64 * 64 = 0" using \<open>unat sz < 2 ^ 64\<close> by simp
  then have "unat ((sz + 63) AND NOT 63) = 0" by (simp only: and_not_63)
  moreover have "tlsf_round sz = (sz + 63) AND NOT 63" by (simp add: tlsf_round_def add.commute)
  ultimately show ?thesis by (simp only: unat_eq_0)
qed

text \<open>A request within 63 bytes of \<^verbatim>\<open>UINT64_MAX\<close> wraps to 0 when it is rounded to the alignment, and
  the allocator then grants it: as long as any block is free, the call reports an offset in the pool
  instead of a failure, whatever the size of the pool.\<close>
theorem tlsf_alloc_oversized:
  assumes "tlsf_inv t" "2 ^ 64 \<le> unat sz + 63" "p \<in> set (tl_phys t)" "\<not> block_is_used (tl_blocks t p)"
  shows "\<exists>off t'. tlsf_alloc mem_ok junk t sz = (off, t') \<and> off \<noteq> TLSF_FAIL \<and> off < tl_shm_total_size t"
proof -
  have ok: "tlsf_ok t" and init: "tl_initialized t" using assms(1) by (simp_all add: tlsf_inv_def)
  have F: "free_lists_ok t {p \<in> set (tl_phys t). \<not> bused t p}" using ok by (simp add: tlsf_ok_def)
  have nz: "sz \<noteq> 0" using assms(2) by auto
  have "bsz t p + 63 < 2 ^ 64"
    using tiles_block(2) [of t 0 "tl_phys t" _ p] ok assms(3) and_not_one_le [of "tl_shm_total_size t"]
    by (fastforce simp: tlsf_ok_def)
  then obtain q where q: "tlsf_find_block t 0 = Some q"
    using find_block_None [OF F, of 0 p] assms(3,4) by (cases "tlsf_find_block t 0") auto
  then have "q \<in> set (tl_phys t)" using find_block_Some [OF F q] by simp
  moreover have "q \<noteq> tl_next t" using ok \<open>q \<in> set (tl_phys t)\<close> by (auto simp: tlsf_ok_def)
  then have "fst (tlsf_alloc mem_ok junk t sz) = bk_data_offset (tl_blocks t q)"
    using init nz q round_wraps [OF assms(2)]
    by (simp add: tlsf_alloc_def tlsf_split_block_def Let_def upd_block_def tlsf_insert_used_block_def)
  ultimately show ?thesis
    using offset_not_fail [OF ok, of q] used_offset_less [OF ok, of q] by (metis prod.collapse)
qed


theorem tlsf_alloc_oversized_witness:
  "let t = snd (tlsf_pool_init True demo_block demo_tlsf 0 1024) in
   \<exists>off t'. tlsf_alloc True demo_block t 0xFFFFFFFFFFFFFFFF = (off, t') \<and> off \<noteq> TLSF_FAIL \<and> off < 1024"
proof -
  let ?t = "snd (tlsf_pool_init True demo_block demo_tlsf 0 1024)"
  have inv: "tlsf_inv ?t" and tot: "tl_shm_total_size ?t = 1024"
    by (rule pool_init_inv(2,4); simp add: demo_tlsf_def)+
  have "tl_phys ?t = [0]" "\<not> block_is_used (tl_blocks ?t 0)" by code_simp+
  then have "\<exists>off t'. tlsf_alloc True demo_block ?t 0xFFFFFFFFFFFFFFFF = (off, t') \<and> off \<noteq> TLSF_FAIL \<and>
    off < tl_shm_total_size ?t"
    by (intro tlsf_alloc_oversized [OF inv, of _ 0]) simp_all
  then show ?thesis unfolding Let_def tot .
qed

end
