(* ===== verification/Swap_Buffer.thy ===== *)
theory Swap_Buffer
  imports Swap_Protocol Tlsf
begin

text \<open>
  The swap buffer as its clients use it (\<^verbatim>\<open>core/src/shm_manager.c\<close>, \<^verbatim>\<open>shm_swap_buffer_*\<close>, \<^verbatim>\<open>shm_alloc*\<close> and
  \<^verbatim>\<open>shm_free*\<close>): a process slot records the range of the pool it was given in \<^verbatim>\<open>swap_offset\<close> and
  \<^verbatim>\<open>swap_size\<close>. The allocator is the one of \<open>Tlsf\<close>, a single pool for all dies. The ownership invariant
  says that the recorded ranges are allocated ranges, each recorded once; \<open>no_leak\<close> says that every allocated range
  is recorded. \<^verbatim>\<open>shm_alloc_per_process\<close> and \<^verbatim>\<open>shm_free_per_process\<close> take no lock around the slot (the pool
  has its own); each call is one transition of the model, so two calls overlapping on the same slot are not covered.
\<close>

section \<open>Creating and removing the buffer\<close>

text \<open>The outcome of the system calls of \<^verbatim>\<open>shm_swap_buffer_init\<close>: the size of the object, if \<^verbatim>\<open>fstat\<close>
  succeeds, and the address of the mapping.\<close>

record buffer_env =
  be_calloc :: bool
  be_mutex :: bool
  be_open :: bool
  be_stat :: "u64 option"
  be_truncate :: bool
  be_map :: "u64 option"
  be_header :: bool

record swap_buffer_manager =
  bm_swap_buffer_base :: u64
  bm_buffer_size :: u64

definition shm_swap_buffer_init ::
    "buffer_env \<Rightarrow> tlsf_block \<Rightarrow> tlsf_manager \<Rightarrow> u64 \<Rightarrow> swap_buffer_manager option \<times> tlsf_manager" where
  "shm_swap_buffer_init env junk t buffer_size =
     (if buffer_size = 0 then (None, t)
      else if \<not> be_calloc env \<or> \<not> be_mutex env \<or> \<not> be_open env then (None, t)
      else case be_stat env of
        None \<Rightarrow> (None, t)
      | Some st_size \<Rightarrow>
        if st_size = 0 \<and> \<not> be_truncate env then (None, t)
        else if st_size \<noteq> 0 \<and> st_size \<noteq> buffer_size then (None, t)
        else case be_map env of
          None \<Rightarrow> (None, t)
        | Some base \<Rightarrow>
          (case tlsf_pool_init (be_header env) junk t base buffer_size of (ret, t') \<Rightarrow>
             if ret \<noteq> 0 then (None, t')
             else (Some \<lparr>bm_swap_buffer_base = base, bm_buffer_size = buffer_size\<rparr>, t')))"

text \<open>The reset writes zeros over the whole manager; addresses of headers stay unused.\<close>

definition tlsf_cleared :: "tlsf_manager \<Rightarrow> tlsf_manager" where
  "tlsf_cleared t = t\<lparr>tl_initialized := False, tl_phys := [], tl_free_list := (\<lambda>_ _. []), tl_used_list := [],
     tl_shm_base := 0, tl_shm_total_size := 0, tl_total_used := 0\<rparr>"

definition shm_swap_buffer_deinit :: "swap_buffer_manager option \<Rightarrow> tlsf_manager \<Rightarrow> int \<times> tlsf_manager" where
  "shm_swap_buffer_deinit mgr t =
     (case mgr of None \<Rightarrow> (ENPU_INVALID_PARAM, t)
      | Some _ \<Rightarrow> (ENPU_SUCCESS, if tl_initialized t then tlsf_cleared t else t))"

section \<open>Ranges of processes\<close>

abbreviation process_at :: "shm_state \<Rightarrow> int \<Rightarrow> nat \<Rightarrow> process_entry" where
  "process_at st vnpu_id slot \<equiv> ve_processes (ss_entries st (nat vnpu_id)) slot"

definition slot_in_range :: "int \<Rightarrow> int \<Rightarrow> bool" where
  "slot_in_range vnpu_id slot \<longleftrightarrow>
     \<not> (vnpu_id < 0 \<or> vnpu_id \<ge> int MAX_VNPU_PER_DIE \<or> slot < 0 \<or> slot \<ge> int MAX_PROCESSES_PER_VNPU)"

definition shm_swap_buffer_alloc_offset :: "bool \<times> tlsf_block \<Rightarrow> tlsf_manager \<Rightarrow> u64 \<Rightarrow> u64 \<times> tlsf_manager" where
  "shm_swap_buffer_alloc_offset e t sz = tlsf_alloc (fst e) (snd e) t sz"

definition shm_swap_buffer_free_offset :: "tlsf_manager \<Rightarrow> u64 \<Rightarrow> u64 \<Rightarrow> tlsf_manager" where
  "shm_swap_buffer_free_offset t offset sz = tlsf_free t offset"

definition shm_alloc_per_process ::
    "bool \<times> tlsf_block \<Rightarrow> tlsf_manager \<Rightarrow> shm_state \<Rightarrow> int \<Rightarrow> int \<Rightarrow> u64 \<Rightarrow> int \<times> tlsf_manager \<times> shm_state" where
  "shm_alloc_per_process e t st vnpu_id slot sz =
     (if \<not> slot_in_range vnpu_id slot then (-1, t, st)
      else if \<not> pr_active (process_at st vnpu_id (nat slot)) then (-1, t, st)
      else case shm_swap_buffer_alloc_offset e t sz of (off, t') \<Rightarrow>
        if off = TLSF_FAIL then (-1, t', st)
        else (0, t', upd_process st vnpu_id (nat slot) (\<lambda>pe. pe\<lparr>pr_swap_offset := off, pr_swap_size := sz\<rparr>)))"

definition shm_free_per_process :: "tlsf_manager \<Rightarrow> shm_state \<Rightarrow> int \<Rightarrow> int \<Rightarrow> int \<times> tlsf_manager \<times> shm_state" where
  "shm_free_per_process t st vnpu_id slot =
     (if \<not> slot_in_range vnpu_id slot then (-1, t, st)
      else let pe = process_at st vnpu_id (nat slot) in
        if pr_swap_size pe = 0 then (0, t, st)
        else (0, shm_swap_buffer_free_offset t (pr_swap_offset pe) (pr_swap_size pe),
              upd_process st vnpu_id (nat slot) (\<lambda>pe. pe\<lparr>pr_swap_offset := 0, pr_swap_size := 0\<rparr>)))"

definition shm_alloc :: "shm_state \<Rightarrow> int \<Rightarrow> u64 \<Rightarrow> int" where
  "shm_alloc st vnpu_id sz = -1"

definition free_slots :: "int \<Rightarrow> nat list \<Rightarrow> tlsf_manager \<times> shm_state \<Rightarrow> tlsf_manager \<times> shm_state" where
  "free_slots vnpu_id js = fold (\<lambda>j (t, st). snd (shm_free_per_process t st vnpu_id (int j))) js"

definition shm_free :: "tlsf_manager \<Rightarrow> shm_state \<Rightarrow> int \<Rightarrow> int \<times> tlsf_manager \<times> shm_state" where
  "shm_free t st vnpu_id =
     (if vnpu_id < 0 \<or> vnpu_id \<ge> int MAX_VNPU_PER_DIE then (-1, t, st)
      else (0, free_slots vnpu_id slots (t, st)))"

section \<open>Who holds what\<close>

text \<open>The range a process slot of a die records. \<^verbatim>\<open>swap_size\<close> 0 stands for no range.\<close>

type_synonym slot_id = "nat \<times> nat \<times> nat"

definition holds :: "(nat \<Rightarrow> shm_state option) \<Rightarrow> slot_id \<rightharpoonup> u64 \<times> u64" where
  "holds dies = (\<lambda>(i, v, s).
     if v < MAX_VNPU_PER_DIE \<and> s < MAX_PROCESSES_PER_VNPU then
       (case dies i of None \<Rightarrow> None
        | Some st \<Rightarrow> let pe = process_at st (int v) s in
            if pr_swap_size pe = 0 then None else Some (pr_swap_offset pe, pr_swap_size pe))
     else None)"

text \<open>Every recorded range is allocated, at least as large as recorded, and recorded by one slot.\<close>

definition owned :: "('k \<rightharpoonup> u64 \<times> u64) \<Rightarrow> tlsf_manager \<Rightarrow> bool" where
  "owned h t \<longleftrightarrow> tlsf_inv t \<and>
     (\<forall>k off n. h k = Some (off, n) \<longrightarrow> (\<exists>len \<ge> unat n. (unat off, len) \<in> tlsf_ranges t)) \<and>
     (\<forall>k k' off n n'. h k = Some (off, n) \<longrightarrow> h k' = Some (off, n') \<longrightarrow> k = k')"

definition no_leak :: "('k \<rightharpoonup> u64 \<times> u64) \<Rightarrow> tlsf_manager \<Rightarrow> bool" where
  "no_leak h t \<longleftrightarrow> (\<forall>r \<in> tlsf_ranges t. \<exists>k off n. h k = Some (off, n) \<and> unat off = fst r)"

lemma ownedD:
  assumes "owned h t"
  shows "tlsf_inv t"
    and "h k = Some (off, n) \<Longrightarrow> \<exists>len \<ge> unat n. (unat off, len) \<in> tlsf_ranges t"
    and "h k = Some (off, n) \<Longrightarrow> h k' = Some (off, n') \<Longrightarrow> k = k'"
  using assms by (auto simp: owned_def)

lemma owned_alloc:
  assumes o: "owned h t" and req: "tlsf_request n" and a: "tlsf_alloc (fst e) (snd e) t n = (off, t')"
    and ok: "off \<noteq> TLSF_FAIL" and k: "h k = None"
  shows "owned (h(k \<mapsto> (off, n))) t'" "no_leak h t \<Longrightarrow> no_leak (h(k \<mapsto> (off, n))) t'"
proof -
  note inv = ownedD(1) [OF o]
  obtain len where len: "unat n \<le> len" "tlsf_ranges t' = insert (unat off, len) (tlsf_ranges t)"
    using tlsf.alloc_gives [OF inv req, of e] a ok by auto
  have fresh: "unat off \<notin> fst ` tlsf_ranges t" using tlsf.alloc_fresh [OF inv req, of e] a ok by simp
  have new: "off' \<noteq> off" if "h j = Some (off', m)" for j off' m
    using ownedD(2) [OF o that] fresh by (auto simp: image_iff)
  have inv': "tlsf_inv t'" using tlsf.inv_alloc [OF inv req, of e] a by simp
  show "owned (h(k \<mapsto> (off, n))) t'"
    unfolding owned_def
  proof (intro conjI allI impI)
    show "tlsf_inv t'" by (rule inv')
  next
    fix j off' m assume j: "(h(k \<mapsto> (off, n))) j = Some (off', m)"
    show "\<exists>len \<ge> unat m. (unat off', len) \<in> tlsf_ranges t'"
    proof (cases "j = k")
      case True
      then show ?thesis using j len by auto
    next
      case False
      then have "h j = Some (off', m)" using j by simp
      from ownedD(2) [OF o this] show ?thesis using len(2) by blast
    qed
  next
    fix j j' off' m m'
    assume "(h(k \<mapsto> (off, n))) j = Some (off', m)" "(h(k \<mapsto> (off, n))) j' = Some (off', m')"
    then show "j = j'" using new ownedD(3) [OF o, of j off' m j' m'] by (auto split: if_splits)
  qed
  show "no_leak (h(k \<mapsto> (off, n))) t'" if nl: "no_leak h t"
    unfolding no_leak_def len(2)
  proof
    fix r assume "r \<in> insert (unat off, len) (tlsf_ranges t)"
    then consider "r = (unat off, len)" | "r \<in> tlsf_ranges t" by blast
    then show "\<exists>j off' m. (h(k \<mapsto> (off, n))) j = Some (off', m) \<and> unat off' = fst r"
    proof cases
      case 1
      then show ?thesis by (intro exI [of _ k]) auto
    next
      case 2
      then obtain j off' m where "h j = Some (off', m)" "unat off' = fst r" using nl by (auto simp: no_leak_def)
      moreover have "j \<noteq> k" using k calculation(1) by auto
      ultimately show ?thesis by (intro exI [of _ j]) auto
    qed
  qed
qed

lemma owned_free:
  assumes o: "owned h t" and k: "h k = Some (off, n)"
  shows "owned (h(k := None)) (tlsf_free t off)" "no_leak h t \<Longrightarrow> no_leak (h(k := None)) (tlsf_free t off)"
proof -
  note inv = ownedD(1) [OF o]
  note r = tlsf.release_ranges [OF inv, of off]
  have other: "off' \<noteq> off" if "h j = Some (off', m)" "j \<noteq> k" for j off' m
    using ownedD(3) [OF o k, of j m] that by auto
  show "owned (h(k := None)) (tlsf_free t off)"
    unfolding owned_def
  proof (intro conjI allI impI)
    show "tlsf_inv (tlsf_free t off)" by (rule tlsf.inv_release [OF inv])
  next
    fix j off' m assume "(h(k := None)) j = Some (off', m)"
    then have j: "h j = Some (off', m)" "j \<noteq> k" by (auto split: if_splits)
    from ownedD(2) [OF o j(1)] other [OF j] show "\<exists>len \<ge> unat m. (unat off', len) \<in> tlsf_ranges (tlsf_free t off)"
      unfolding r by (auto simp: word_unat_eq_iff)
  next
    fix j j' off' m m'
    assume "(h(k := None)) j = Some (off', m)" "(h(k := None)) j' = Some (off', m')"
    then show "j = j'" using ownedD(3) [OF o, of j off' m j' m'] by (auto split: if_splits)
  qed
  show "no_leak (h(k := None)) (tlsf_free t off)" if nl: "no_leak h t"
    unfolding no_leak_def r
  proof
    fix x assume x: "x \<in> {x \<in> tlsf_ranges t. fst x \<noteq> unat off}"
    then obtain j off' m where j: "h j = Some (off', m)" "unat off' = fst x" using nl by (auto simp: no_leak_def)
    then have "j \<noteq> k" using k x by auto
    then show "\<exists>j off' m. (h(k := None)) j = Some (off', m) \<and> unat off' = fst x"
      using j by (intro exI [of _ j]) auto
  qed
qed

lemma owned_disjoint:
  assumes "owned h t" "h k = Some (off, n)" "h k' = Some (off', n')" "k \<noteq> k'"
  shows "unat off + unat n \<le> unat off' \<or> unat off' + unat n' \<le> unat off"
proof -
  note o = ownedD [OF assms(1)]
  obtain len len' where len: "unat n \<le> len" "(unat off, len) \<in> tlsf_ranges t" "unat n' \<le> len'" "(unat off', len') \<in> tlsf_ranges t"
    using o(2) [OF assms(2)] o(2) [OF assms(3)] by blast
  have "off \<noteq> off'" using o(3) [OF assms(2)] assms(3,4) by blast
  then have "(unat off, len) \<noteq> (unat off', len')" by (simp add: word_unat_eq_iff)
  from tlsf.ranges_disjoint [OF o(1) len(2,4) this] len(1,3) show ?thesis by auto
qed

lemma holds_upd:
  assumes "dies i = Some st" "v < MAX_VNPU_PER_DIE" "s < MAX_PROCESSES_PER_VNPU"
  shows "holds (dies(i \<mapsto> upd_process st (int v) s (\<lambda>pe. pe\<lparr>pr_swap_offset := off, pr_swap_size := n\<rparr>))) =
    (holds dies)((i, v, s) := if n = 0 then None else Some (off, n))"
  using assms by (auto simp: holds_def upd_process_def upd_entry_def Let_def fun_eq_iff split: option.split)

lemma holds_Some:
  "holds dies (i, v, s) = Some (off, n) \<longleftrightarrow> v < MAX_VNPU_PER_DIE \<and> s < MAX_PROCESSES_PER_VNPU \<and>
     (\<exists>st. dies i = Some st \<and> n \<noteq> 0 \<and> pr_swap_size (process_at st (int v) s) = n \<and> pr_swap_offset (process_at st (int v) s) = off)"
  by (auto simp: holds_def Let_def split: option.splits if_splits)


lemma alloc_per_process_cases:
  obtains (fails) t' where "shm_alloc_per_process e t st vnpu_id slot n = (-1, t', st)"
      "t' = t \<or> (TLSF_FAIL, t') = tlsf_alloc (fst e) (snd e) t n"
  | (gives) v s off t' where "vnpu_id = int v" "slot = int s" "v < MAX_VNPU_PER_DIE" "s < MAX_PROCESSES_PER_VNPU"
      "tlsf_alloc (fst e) (snd e) t n = (off, t')" "off \<noteq> TLSF_FAIL" "pr_active (process_at st vnpu_id s)"
      "shm_alloc_per_process e t st vnpu_id slot n =
         (0, t', upd_process st (int v) s (\<lambda>pe. pe\<lparr>pr_swap_offset := off, pr_swap_size := n\<rparr>))"
proof (cases "slot_in_range vnpu_id slot \<and> pr_active (process_at st vnpu_id (nat slot))
    \<and> fst (tlsf_alloc (fst e) (snd e) t n) \<noteq> TLSF_FAIL")
  case True
  obtain off t' where a: "tlsf_alloc (fst e) (snd e) t n = (off, t')" by fastforce
  show ?thesis
    using True a by (intro gives [of "nat vnpu_id" "nat slot" off t'])
      (auto simp: slot_in_range_def shm_alloc_per_process_def shm_swap_buffer_alloc_offset_def)
next
  case False
  obtain off t' where a: "tlsf_alloc (fst e) (snd e) t n = (off, t')" by fastforce
  show ?thesis
  proof (cases "slot_in_range vnpu_id slot \<and> pr_active (process_at st vnpu_id (nat slot))")
    case in_range: True
    then have "off = TLSF_FAIL" using False a by auto
    then show ?thesis
      using in_range a by (intro fails [of t']) (auto simp: shm_alloc_per_process_def shm_swap_buffer_alloc_offset_def)
  next
    case False
    then show ?thesis by (intro fails [of t]) (auto simp: shm_alloc_per_process_def)
  qed
qed

lemma alloc_fail_same:
  assumes "tlsf_inv t" "tlsf_request n" "t' = t \<or> (TLSF_FAIL, t') = tlsf_alloc (fst e) (snd e) t n"
  shows "t' = t"
  using assms tlsf.alloc_fails [of t n e] by (metis fst_conv snd_conv)

lemma alloc_per_process_owned:
  assumes die: "dies i = Some st" and o: "owned (holds dies) t" and req: "tlsf_request n"
    and free: "pr_swap_size (process_at st vnpu_id (nat slot)) = 0"
    and a: "shm_alloc_per_process e t st vnpu_id slot n = (r, t', st')"
  shows "owned (holds (dies(i \<mapsto> st'))) t'" "no_leak (holds dies) t \<Longrightarrow> no_leak (holds (dies(i \<mapsto> st'))) t'"
proof -
  have same: "dies(i \<mapsto> st) = dies" using die by auto
  have "owned (holds (dies(i \<mapsto> st'))) t' \<and> (no_leak (holds dies) t \<longrightarrow> no_leak (holds (dies(i \<mapsto> st'))) t')"
  proof (cases rule: alloc_per_process_cases [of e t st vnpu_id slot n, case_names fails gives])
    case (fails t1)
    then have "t' = t" "st' = st" using a alloc_fail_same [OF ownedD(1) [OF o] req] by auto
    then show ?thesis using o same by simp
  next
    case (gives v s off t1)
    have "n \<noteq> 0" using gives(5,6) by (auto simp: tlsf_alloc_def)
    then have h: "holds (dies(i \<mapsto> st')) = (holds dies)((i, v, s) \<mapsto> (off, n))"
      using holds_upd [of dies i, OF die gives(3,4), of n off] gives(8) a by simp
    have k: "holds dies (i, v, s) = None" using die free gives(1,2) by (simp add: holds_def)
    have "t' = t1" using gives(8) a by simp
    with owned_alloc [OF o req gives(5,6) k] h show ?thesis by simp
  qed
  then show "owned (holds (dies(i \<mapsto> st'))) t'" "no_leak (holds dies) t \<Longrightarrow> no_leak (holds (dies(i \<mapsto> st'))) t'" by auto
qed

lemma free_per_process_cases:
  assumes "shm_free_per_process t st vnpu_id slot = (r, t', st')"
  obtains (idle) "t' = t" "st' = st" "slot_in_range vnpu_id slot \<Longrightarrow> pr_swap_size (process_at st vnpu_id (nat slot)) = 0"
  | (frees) v s where "vnpu_id = int v" "slot = int s" "v < MAX_VNPU_PER_DIE" "s < MAX_PROCESSES_PER_VNPU"
      "pr_swap_size (process_at st vnpu_id s) \<noteq> 0" "t' = tlsf_free t (pr_swap_offset (process_at st vnpu_id s))"
      "st' = upd_process st (int v) s (\<lambda>pe. pe\<lparr>pr_swap_offset := 0, pr_swap_size := 0\<rparr>)"
proof (cases "slot_in_range vnpu_id slot \<and> pr_swap_size (process_at st vnpu_id (nat slot)) \<noteq> 0")
  case True
  then show ?thesis
    using assms by (intro frees [of "nat vnpu_id" "nat slot"])
      (auto simp: slot_in_range_def shm_free_per_process_def shm_swap_buffer_free_offset_def Let_def)
next
  case False
  then have "t' = t \<and> st' = st" using assms
    by (cases "slot_in_range vnpu_id slot") (simp_all add: shm_free_per_process_def Let_def)
  with False show ?thesis using idle by blast
qed

lemma free_per_process_owned:
  assumes die: "dies i = Some st" and o: "owned (holds dies) t"
    and f: "shm_free_per_process t st vnpu_id slot = (r, t', st')"
  shows "owned (holds (dies(i \<mapsto> st'))) t'" "no_leak (holds dies) t \<Longrightarrow> no_leak (holds (dies(i \<mapsto> st'))) t'"
proof -
  have same: "dies(i \<mapsto> st) = dies" using die by auto
  have "owned (holds (dies(i \<mapsto> st'))) t' \<and> (no_leak (holds dies) t \<longrightarrow> no_leak (holds (dies(i \<mapsto> st'))) t')"
    using f
  proof (cases rule: free_per_process_cases)
    case idle
    then show ?thesis using o same by simp
  next
    case (frees v s)
    have h: "holds (dies(i \<mapsto> st')) = (holds dies)((i, v, s) := None)"
      using holds_upd [of dies i, OF die frees(3,4), of 0 0] frees(7) by simp
    have "holds dies (i, v, s) = Some (pr_swap_offset (process_at st vnpu_id s), pr_swap_size (process_at st vnpu_id s))"
      using die frees(1,3-5) by (auto simp: holds_Some)
    from owned_free [OF o this] h frees(6) show ?thesis by simp
  qed
  then show "owned (holds (dies(i \<mapsto> st'))) t'" "no_leak (holds dies) t \<Longrightarrow> no_leak (holds (dies(i \<mapsto> st'))) t'" by auto
qed


lemma free_per_process_holds:
  assumes "dies i = Some st" "v < MAX_VNPU_PER_DIE" "s < MAX_PROCESSES_PER_VNPU"
    "shm_free_per_process t st (int v) (int s) = (r, t', st')"
  shows "holds (dies(i \<mapsto> st')) = (holds dies)((i, v, s) := None)"
  using assms(4)
proof (cases rule: free_per_process_cases)
  case idle
  have "slot_in_range (int v) (int s)" using assms(2,3) by (simp add: slot_in_range_def)
  then have "holds dies (i, v, s) = None" using idle(3) assms(1) by (simp add: holds_def)
  then show ?thesis using idle(2) assms(1) by (auto simp: fun_upd_idem)
next
  case (frees v' s')
  then show ?thesis using holds_upd [of dies i, OF assms(1-3), of 0 0] by simp
qed

lemma free_slots_spec:
  assumes "dies i = Some st" "v < MAX_VNPU_PER_DIE" "set js \<subseteq> {..<MAX_PROCESSES_PER_VNPU}" "owned (holds dies) t"
    "free_slots (int v) js (t, st) = (t', st')"
  shows "owned (holds (dies(i \<mapsto> st'))) t' \<and> (no_leak (holds dies) t \<longrightarrow> no_leak (holds (dies(i \<mapsto> st'))) t')
    \<and> holds (dies(i \<mapsto> st')) = (\<lambda>k. if \<exists>s \<in> set js. k = (i, v, s) then None else holds dies k)"
  using assms
proof (induction js arbitrary: dies t st)
  case Nil
  then have "dies(i \<mapsto> st') = dies" "t' = t" by (auto simp: free_slots_def)
  then show ?case using Nil by simp
next
  case (Cons j js)
  obtain r t1 st1 where f: "shm_free_per_process t st (int v) (int j) = (r, t1, st1)" by (metis prod_cases3)
  have rest: "free_slots (int v) js (t1, st1) = (t', st')" using Cons.prems(5) f by (simp add: free_slots_def)
  let ?dies1 = "dies(i \<mapsto> st1)"
  have d1: "?dies1 i = Some st1" by simp
  note o1 = free_per_process_owned [of dies i, OF Cons.prems(1,4) f]
  have h1: "holds ?dies1 = (holds dies)((i, v, j) := None)"
    using free_per_process_holds [of dies i, OF Cons.prems(1,2) _ f] Cons.prems(3) by simp
  have js: "set js \<subseteq> {..<MAX_PROCESSES_PER_VNPU}" using Cons.prems(3) by simp
  note IH = Cons.IH [OF d1 Cons.prems(2) js o1(1) rest, unfolded fun_upd_upd]
  have "holds (dies(i \<mapsto> st')) = (\<lambda>k. if \<exists>s \<in> set js. k = (i, v, s) then None else holds ?dies1 k)" using IH by blast
  also have "\<dots> = (\<lambda>k. if \<exists>s \<in> set (j # js). k = (i, v, s) then None else holds dies k)" unfolding h1 by auto
  finally show ?case using IH o1(2) by blast
qed

lemma shm_free_spec:
  assumes "dies i = Some st" "owned (holds dies) t" "shm_free t st vnpu_id = (r, t', st')"
  shows "owned (holds (dies(i \<mapsto> st'))) t'" "no_leak (holds dies) t \<Longrightarrow> no_leak (holds (dies(i \<mapsto> st'))) t'"
    "0 \<le> vnpu_id \<Longrightarrow> vnpu_id < int MAX_VNPU_PER_DIE \<Longrightarrow>
       holds (dies(i \<mapsto> st')) = (\<lambda>k. if \<exists>s < MAX_PROCESSES_PER_VNPU. k = (i, nat vnpu_id, s) then None else holds dies k)"
proof -
  have same: "dies(i \<mapsto> st) = dies" using assms(1) by auto
  have "owned (holds (dies(i \<mapsto> st'))) t' \<and> (no_leak (holds dies) t \<longrightarrow> no_leak (holds (dies(i \<mapsto> st'))) t')
    \<and> (0 \<le> vnpu_id \<longrightarrow> vnpu_id < int MAX_VNPU_PER_DIE \<longrightarrow>
       holds (dies(i \<mapsto> st')) = (\<lambda>k. if \<exists>s < MAX_PROCESSES_PER_VNPU. k = (i, nat vnpu_id, s) then None else holds dies k))"
  proof (cases "vnpu_id < 0 \<or> vnpu_id \<ge> int MAX_VNPU_PER_DIE")
    case True
    then have "t' = t" "st' = st" using assms(3) by (auto simp: shm_free_def)
    then show ?thesis using same assms(2) True by auto
  next
    case False
    then have v: "nat vnpu_id < MAX_VNPU_PER_DIE" "int (nat vnpu_id) = vnpu_id" by auto
    have f: "free_slots (int (nat vnpu_id)) slots (t, st) = (t', st')" using assms(3) False v(2) by (simp add: shm_free_def)
    have "set slots \<subseteq> {..<MAX_PROCESSES_PER_VNPU}" by auto
    from free_slots_spec [of dies i, OF assms(1) v(1) this assms(2) f] show ?thesis by (auto simp: fun_eq_iff)
  qed
  then show "owned (holds (dies(i \<mapsto> st'))) t'" "no_leak (holds dies) t \<Longrightarrow> no_leak (holds (dies(i \<mapsto> st'))) t'"
    "0 \<le> vnpu_id \<Longrightarrow> vnpu_id < int MAX_VNPU_PER_DIE \<Longrightarrow>
       holds (dies(i \<mapsto> st')) = (\<lambda>k. if \<exists>s < MAX_PROCESSES_PER_VNPU. k = (i, nat vnpu_id, s) then None else holds dies k)"
    by auto
qed

section \<open>Sequences of calls\<close>

text \<open>The calls on the buffer, on any die and in any order, each one complete before the next begins, and steps of the rest
  of the system. Such a step may reset any process slots, which forgets the ranges they record: the watchdog clears the slots of a
  vNPU it gives up waiting for, and a process that registers again starts with an empty slot. An allocation for a slot
  that already records a range overwrites the record. The third component of a configuration collects the offsets that
  are no longer recorded after such a step.\<close>

type_synonym buffer_conf = "(nat \<Rightarrow> shm_state option) \<times> tlsf_manager \<times> nat set"

definition recorded :: "('k \<rightharpoonup> u64 \<times> u64) \<Rightarrow> nat set" where
  "recorded h = (\<lambda>(off, n). unat off) ` ran h"

inductive buffer_step :: "buffer_conf \<Rightarrow> buffer_conf \<Rightarrow> bool" where
  allocate: "dies i = Some st \<Longrightarrow> tlsf_request n \<Longrightarrow> shm_alloc_per_process e t st vnpu_id slot n = (r, t', st') \<Longrightarrow>
    buffer_step (dies, t, L) (dies(i \<mapsto> st'), t', L \<union> (recorded (holds dies) - recorded (holds (dies(i \<mapsto> st')))))"
| free_slot: "dies i = Some st \<Longrightarrow> shm_free_per_process t st vnpu_id slot = (r, t', st') \<Longrightarrow>
    buffer_step (dies, t, L) (dies(i \<mapsto> st'), t', L)"
| free_vnpu: "dies i = Some st \<Longrightarrow> shm_free t st vnpu_id = (r, t', st') \<Longrightarrow> buffer_step (dies, t, L) (dies(i \<mapsto> st'), t', L)"
| other: "holds dies' \<subseteq>\<^sub>m holds dies \<Longrightarrow>
    buffer_step (dies, t, L) (dies', t, L \<union> (recorded (holds dies) - recorded (holds dies')))"

text \<open>Every allocated range is recorded by a slot or one of the forgotten ones, never both.\<close>

definition accounted :: "('k \<rightharpoonup> u64 \<times> u64) \<Rightarrow> tlsf_manager \<Rightarrow> nat set \<Rightarrow> bool" where
  "accounted h t L \<longleftrightarrow> owned h t \<and> fst ` tlsf_ranges t = recorded h \<union> L \<and> recorded h \<inter> L = {}"

lemma in_recorded: "x \<in> recorded h \<longleftrightarrow> (\<exists>k off n. h k = Some (off, n) \<and> unat off = x)"
  by (force simp: recorded_def ran_def image_iff)

lemma recorded_put: "h k = None \<Longrightarrow> recorded (h(k \<mapsto> (off, n))) = insert (unat off) (recorded h)"
  by (auto simp: recorded_def)

lemma recorded_mono: "h' \<subseteq>\<^sub>m h \<Longrightarrow> recorded h' \<subseteq> recorded h"
  unfolding in_recorded subset_iff map_le_def by (metis domI)

lemma owned_mono: "owned h t \<Longrightarrow> h' \<subseteq>\<^sub>m h \<Longrightarrow> owned h' t"
proof -
  assume o: "owned h t" and "h' \<subseteq>\<^sub>m h"
  then have "h k = Some x" if "h' k = Some x" for k x using that unfolding map_le_def by (metis domI)
  then show "owned h' t" using o unfolding owned_def by meson
qed

lemma accounted_forget: "accounted h t L \<Longrightarrow> h' \<subseteq>\<^sub>m h \<Longrightarrow> accounted h' t (L \<union> (recorded h - recorded h'))"
  unfolding accounted_def using owned_mono recorded_mono by blast

lemma accounted_alloc:
  assumes acc: "accounted h t L" and req: "tlsf_request n" and a: "tlsf_alloc (fst e) (snd e) t n = (off, t')"
    and ok: "off \<noteq> TLSF_FAIL" and k: "h k = None"
  shows "accounted (h(k \<mapsto> (off, n))) t' L" "unat off \<notin> recorded h"
proof -
  have o: "owned h t" using acc by (simp add: accounted_def)
  note inv = ownedD(1) [OF o]
  obtain len where len: "tlsf_ranges t' = insert (unat off, len) (tlsf_ranges t)"
    using tlsf.alloc_gives [OF inv req, of e] a ok by auto
  have "unat off \<notin> fst ` tlsf_ranges t" using tlsf.alloc_fresh [OF inv req, of e] a ok by simp
  then have fresh: "unat off \<notin> recorded h" "unat off \<notin> L" using acc by (auto simp: accounted_def)
  show "accounted (h(k \<mapsto> (off, n))) t' L"
    using acc fresh(2) owned_alloc(1) [OF o req a ok k] unfolding accounted_def len recorded_put [of h k, OF k] by auto
  show "unat off \<notin> recorded h" by (rule fresh(1))
qed

lemma recorded_delete: "owned h t \<Longrightarrow> h k = Some (off, n) \<Longrightarrow> recorded (h(k := None)) = recorded h - {unat off}"
proof -
  assume o: "owned h t" and k: "h k = Some (off, n)"
  have "j = k" if "h j = Some (off', n')" "unat off' = unat off" for j off' n'
    using ownedD(3) [OF o, of j off' n' k n] that k by (simp add: word_unat_eq_iff [symmetric])
  then have "x \<in> recorded (h(k := None)) \<longleftrightarrow> x \<in> recorded h - {unat off}" for x
    unfolding in_recorded Diff_iff fun_upd_apply using k by (metis insertCI option.distinct(1) option.inject prod.inject singletonD)
  then show ?thesis by blast
qed

lemma accounted_free:
  assumes acc: "accounted h t L" and k: "h k = Some (off, n)"
  shows "accounted (h(k := None)) (tlsf_free t off) L"
proof -
  have o: "owned h t" using acc by (simp add: accounted_def)
  have "unat off \<in> recorded h" using k by (auto simp: in_recorded)
  moreover have "fst ` tlsf_ranges (tlsf_free t off) = fst ` tlsf_ranges t - {unat off}"
    unfolding tlsf.release_ranges [OF ownedD(1) [OF o]] by auto
  ultimately show ?thesis using acc owned_free(1) [OF o k] recorded_delete [OF o k] unfolding accounted_def by auto
qed

lemma alloc_per_process_accounted:
  assumes die: "dies i = Some st" and acc: "accounted (holds dies) t L" and req: "tlsf_request n"
    and a: "shm_alloc_per_process e t st vnpu_id slot n = (r, t', st')"
  shows "accounted (holds (dies(i \<mapsto> st'))) t' (L \<union> (recorded (holds dies) - recorded (holds (dies(i \<mapsto> st')))))"
proof (cases rule: alloc_per_process_cases [of e t st vnpu_id slot n, case_names fails gives])
  case (fails t1)
  have "tlsf_inv t" using acc ownedD(1) by (auto simp: accounted_def)
  then have "t' = t" "st' = st" using fails a alloc_fail_same [OF _ req] by auto
  then show ?thesis using acc die by (simp add: fun_upd_idem)
next
  case (gives v s off t1)
  let ?h = "holds dies" and ?k = "(i, v, s)"
  let ?g = "?h(?k := None)"
  have "n \<noteq> 0" using gives(5,6) by (auto simp: tlsf_alloc_def)
  then have h: "holds (dies(i \<mapsto> st')) = ?g(?k \<mapsto> (off, n))"
    using holds_upd [of dies i, OF die gives(3,4), of n off] gives(8) a by simp
  have "?g \<subseteq>\<^sub>m ?h" by (simp add: map_le_def)
  then have acc0: "accounted ?g t (L \<union> (recorded ?h - recorded ?g))" by (rule accounted_forget [OF acc])
  have k0: "?g ?k = None" by simp
  note new = accounted_alloc [OF acc0 req gives(5,6) k0]
  have r: "recorded (?g(?k \<mapsto> (off, n))) = insert (unat off) (recorded ?g)" by (rule recorded_put) (rule k0)
  then have "unat off \<notin> recorded ?h" using new unfolding accounted_def by blast
  with r have "recorded ?h - recorded (?g(?k \<mapsto> (off, n))) = recorded ?h - recorded ?g" by auto
  then show ?thesis using new(1) gives(8) a unfolding h by (simp only: prod.inject)
qed

lemma free_per_process_accounted:
  assumes die: "dies i = Some st" and acc: "accounted (holds dies) t L"
    and f: "shm_free_per_process t st vnpu_id slot = (r, t', st')"
  shows "accounted (holds (dies(i \<mapsto> st'))) t' L"
  using f
proof (cases rule: free_per_process_cases)
  case idle
  then show ?thesis using acc die by (simp add: fun_upd_idem)
next
  case (frees v s)
  have h: "holds (dies(i \<mapsto> st')) = (holds dies)((i, v, s) := None)"
    using holds_upd [of dies i, OF die frees(3,4), of 0 0] frees(7) by simp
  have "holds dies (i, v, s) = Some (pr_swap_offset (process_at st vnpu_id s), pr_swap_size (process_at st vnpu_id s))"
    using die frees(1,3-5) by (auto simp: holds_Some)
  from accounted_free [OF acc this] show ?thesis unfolding h frees(6) .
qed

lemma free_slots_accounted:
  "dies i = Some st \<Longrightarrow> accounted (holds dies) t L \<Longrightarrow> free_slots vnpu_id js (t, st) = (t', st') \<Longrightarrow>
     accounted (holds (dies(i \<mapsto> st'))) t' L"
proof (induction js arbitrary: dies t st)
  case Nil
  then show ?case by (simp add: free_slots_def fun_upd_idem)
next
  case (Cons j js)
  obtain r t1 st1 where f: "shm_free_per_process t st vnpu_id (int j) = (r, t1, st1)" by (metis prod_cases3)
  have "free_slots vnpu_id js (t1, st1) = (t', st')" using Cons.prems(3) f by (simp add: free_slots_def)
  from Cons.IH [OF _ free_per_process_accounted [OF Cons.prems(1,2) f] this] show ?case by (simp only: fun_upd_upd fun_upd_same)
qed

lemma buffer_step_accounted:
  "buffer_step (dies, t, L) (dies', t', L') \<Longrightarrow> accounted (holds dies) t L \<Longrightarrow> accounted (holds dies') t' L'"
proof (induction "(dies, t, L)" "(dies', t', L')" rule: buffer_step.induct)
  case (free_vnpu i st vnpu_id r st')
  then show ?case
    using free_slots_accounted [OF free_vnpu(1,5)] by (auto simp: shm_free_def fun_upd_idem split: if_splits)
qed (auto intro: alloc_per_process_accounted free_per_process_accounted accounted_forget)

lemma buffer_steps_accounted:
  assumes "buffer_step\<^sup>*\<^sup>* c c'" "accounted (holds (fst c)) (fst (snd c)) (snd (snd c))"
  shows "accounted (holds (fst c')) (fst (snd c')) (snd (snd c'))"
  using assms
proof (induction rule: rtranclp_induct)
  case (step c1 c2)
  then show ?case using buffer_step_accounted by (metis prod.collapse)
qed simp


section \<open>Properties\<close>


definition demo_die :: shm_state where
  "demo_die = upd_process (the (shm_state_posix_shm_create True 0 ''die'')) 0 0 (\<lambda>pe. pe\<lparr>pr_active := True\<rparr>)"


end
