(* ===== verification/C_Double.thy ===== *)
theory C_Double
  imports Enpu_Prelude Complex_Main "HOL-Library.Log_Nat"
begin

text \<open>
  The C type \<^verbatim>\<open>double\<close> as the code uses it: oversubscription ratios, watermarks, JSON numbers. A
  finite double is the rational it denotes, and every operation rounds its exact result to the
  nearest multiple of the unit in the last place of a 53-bit significand, ties to even (IEEE 754
  binary64, the default rounding mode). The exponent is not bounded: overflow to infinity,
  subnormals and NaN are outside the model (the values of the code lie between \<open>0\<close> and \<open>2 ^ 70\<close>).
  The conversion of a double to \<^verbatim>\<open>uint64_t\<close> truncates and is undefined out of range.
\<close>

type_synonym double = rat

definition ilog2 :: "rat \<Rightarrow> int" where
  "ilog2 x = (case quotient_of x of (p, q) \<Rightarrow>
     let e = int (floorlog 2 (nat p)) - int (floorlog 2 (nat q))
     in if 2 powi e \<le> x then e else e - 1)"

definition round_half_even :: "rat \<Rightarrow> int" where
  "round_half_even y =
     (let f = \<lfloor>y\<rfloor>; d = y - of_int f
      in if d < 1 / 2 then f else if d > 1 / 2 then f + 1 else if even f then f else f + 1)"

definition rnd :: "rat \<Rightarrow> double" where
  "rnd x = (if x = 0 then 0
            else let u = 2 powi (ilog2 \<bar>x\<bar> - 52) in of_int (round_half_even (x / u)) * u)"

definition fl_add :: "double \<Rightarrow> double \<Rightarrow> double" where
  "fl_add x y = rnd (x + y)"

definition fl_mul :: "double \<Rightarrow> double \<Rightarrow> double" where
  "fl_mul x y = rnd (x * y)"

definition fl_div :: "double \<Rightarrow> double \<Rightarrow> double" where
  "fl_div x y = rnd (x / y)"

definition double_of_u64 :: "u64 \<Rightarrow> double" where
  "double_of_u64 w = rnd (of_int (uint w))"

definition double_of_int :: "int \<Rightarrow> double" where
  "double_of_int i = rnd (of_int i)"

definition u64_of_double :: "double \<Rightarrow> u64 option" where
  "u64_of_double x = (if -1 < x \<and> x < 2 ^ 64 then Some (word_of_int (if x < 0 then 0 else \<lfloor>x\<rfloor>)) else None)"

section \<open>Exactness\<close>

lemma round_half_even_of_int [simp]: "round_half_even (of_int n) = n"
  by (simp add: round_half_even_def)

lemma two_power_of_int:
  assumes "2 ^ m \<le> (i :: int)" "i < 2 ^ n"
  shows "(2 :: rat) ^ m \<le> of_int i" "of_int i < (2 :: rat) ^ n"
proof -
  have "(of_int (2 ^ m) :: rat) \<le> of_int i" using assms(1) by (simp only: of_int_le_iff)
  then show "(2 :: rat) ^ m \<le> of_int i" by simp
  have "(of_int i :: rat) < of_int (2 ^ n)" using assms(2) by (simp only: of_int_less_iff)
  then show "of_int i < (2 :: rat) ^ n" by simp
qed

lemma ilog2_bounds:
  assumes "0 < x"
  shows "2 powi ilog2 x \<le> x" "x < 2 powi (ilog2 x + 1)"
proof -
  obtain p q where pq: "quotient_of x = (p, q)" by (cases "quotient_of x")
  have q: "q > 0" using quotient_of_denom_pos [OF pq] .
  have x: "x = of_int p / of_int q" using quotient_of_div [OF pq] .
  have p: "p > 0" using assms q x by (simp add: zero_less_divide_iff)
  define a where "a = floorlog 2 (nat p)"
  define b where "b = floorlog 2 (nat q)"
  have fa: "2 ^ (a - 1) \<le> nat p" "nat p < 2 ^ a" "a > 0"
    using floorlog_bounds [of "nat p" 2] p by (auto simp: a_def floorlog_def)
  have fb: "2 ^ (b - 1) \<le> nat q" "nat q < 2 ^ b" "b > 0"
    using floorlog_bounds [of "nat q" 2] q by (auto simp: b_def floorlog_def)
  have "(2 :: int) ^ (a - 1) \<le> p" "p < 2 ^ a" using fa p by (simp_all add: le_nat_iff nat_less_iff)
  from two_power_of_int [OF this] have pa: "(2 :: rat) ^ (a - 1) \<le> of_int p" "of_int p < (2 :: rat) ^ a" by simp_all
  have "(2 :: int) ^ (b - 1) \<le> q" "q < 2 ^ b" using fb q by (simp_all add: le_nat_iff nat_less_iff)
  from two_power_of_int [OF this] have qb: "(2 :: rat) ^ (b - 1) \<le> of_int q" "of_int q < (2 :: rat) ^ b" by simp_all
  have qr: "(0 :: rat) < of_int q" "(0 :: rat) < of_int p" using p q by simp_all
  define e where "e = int a - int b"
  have pw: "(2 :: rat) powi (int m - int n) = 2 ^ m / 2 ^ n" for m n
    by (simp add: power_int_diff)
  have upper: "x < 2 powi (e + 1)"
  proof -
    have "x < 2 ^ a / 2 ^ (b - 1)"
      unfolding x using pa qb qr by (intro frac_less) auto
    also have "\<dots> = 2 powi (e + 1)" using pw [of a "b - 1"] fb(3) by (simp add: e_def of_nat_diff algebra_simps)
    finally show ?thesis .
  qed
  have lower: "2 powi (e - 1) < x"
  proof -
    have "2 ^ (a - 1) / 2 ^ b < x"
      unfolding x using pa qb qr by (intro frac_less2) auto
    moreover have "2 ^ (a - 1) / 2 ^ b = (2 :: rat) powi (e - 1)"
      using pw [of "a - 1" b] fa(3) by (simp add: e_def of_nat_diff algebra_simps)
    ultimately show ?thesis by simp
  qed
  have eq: "ilog2 x = (if 2 powi e \<le> x then e else e - 1)"
    by (simp add: ilog2_def pq Let_def e_def a_def b_def)
  show "2 powi ilog2 x \<le> x" using eq lower by auto
  show "x < 2 powi (ilog2 x + 1)" using eq upper by auto
qed

text \<open>Integers of at most 53 bits are doubles.\<close>

lemma rnd_of_int:
  assumes "\<bar>n\<bar> < 2 ^ 53"
  shows "rnd (of_int n) = of_int n"
proof (cases "n = 0")
  case False
  let ?x = "\<bar>of_int n :: rat\<bar>"
  have pos: "0 < ?x" using False by simp
  have x1: "1 \<le> ?x" using False by linarith
  note b = ilog2_bounds [OF pos]
  have "ilog2 ?x < 53"
  proof (rule ccontr)
    assume "\<not> ilog2 ?x < 53"
    then have "(2 :: rat) powi 53 \<le> 2 powi ilog2 ?x" by (intro power_int_increasing) auto
    then have "(2 :: rat) ^ 53 \<le> ?x" using b(1) by simp
    moreover have "?x < 2 ^ 53"
      using two_power_of_int(2) [of 0 "\<bar>n\<bar>" 53] assms False by simp
    ultimately show False by linarith
  qed
  moreover define k where "k = nat (52 - ilog2 ?x)"
  ultimately have e: "ilog2 ?x - 52 = - int k" by simp
  have "of_int n / (2 :: rat) powi (ilog2 ?x - 52) = of_int (n * 2 ^ k)"
    by (simp add: e power_int_minus divide_inverse)
  then have "rnd (of_int n) = of_int (n * 2 ^ k) * 2 powi (ilog2 ?x - 52)"
    using False by (simp add: rnd_def Let_def del: of_int_mult)
  also have "\<dots> = of_int n" by (simp add: e power_int_minus)
  finally show ?thesis .
qed (simp add: rnd_def)

lemma double_of_u64_exact: "uint w < 2 ^ 53 \<Longrightarrow> double_of_u64 w = of_int (uint w)"
  unfolding double_of_u64_def by (rule rnd_of_int) simp

lemma u64_of_double_of_int: "0 \<le> i \<Longrightarrow> i < 2 ^ 64 \<Longrightarrow> u64_of_double (of_int i) = Some (word_of_int i)"
proof -
  assume "0 \<le> i" "i < 2 ^ 64"
  then have "(of_int i :: rat) < of_int (2 ^ 64)" by (simp only: of_int_less_iff)
  then show ?thesis using \<open>0 \<le> i\<close> by (simp add: u64_of_double_def)
qed

text \<open>The round trip \<^verbatim>\<open>(uint64_t)(double)w\<close> is the identity below \<open>2 ^ 53\<close>.\<close>

lemma u64_double_roundtrip: "uint w < 2 ^ 53 \<Longrightarrow> u64_of_double (double_of_u64 w) = Some w"
proof -
  assume w: "uint w < 2 ^ 53"
  then have "u64_of_double (of_int (uint w)) = Some (word_of_int (uint w))"
    by (intro u64_of_double_of_int) auto
  then show ?thesis by (simp only: double_of_u64_exact [OF w] word_of_int_uint)
qed

end
