(* ===== verification/Swap_Resolver.thy ===== *)
theory Swap_Resolver
  imports Swap_Buffer C_Double "HOL-Library.Multiset"
begin

text \<open>
  The swap resolver of a die (\<^verbatim>\<open>core/src/swap_resolver.c\<close>) and one round of its thread
  (\<^verbatim>\<open>core/src/swap_resolver_thread.c\<close>): the water mark, the collection and choice of a vNPU to swap out,
  the allocation of its swap buffers with the swap-out command, and the release of the buffers of
  processes that are back. The round is a function of the manager's shared state and the buffer
  allocator; sleeping and logging are not represented.
\<close>

section \<open>State\<close>

record swap_resolver =
  sr_pre_swap_threshold :: double
  sr_idle_threshold_ns :: u64
  sr_last_usage_ratio :: "nat \<Rightarrow> double"
  sr_is_usage_logged :: "nat \<Rightarrow> bool"

datatype watermark_level = WATERMARK_NORMAL | WATERMARK_PRE_SWAP

text \<open>The field \<^verbatim>\<open>swap_enabled\<close> of the struct is neither written nor read by the resolver and has no
  counterpart here.\<close>

record swap_candidate =
  cd_phy_id :: int
  cd_shm_id :: string
  cd_vnpu_id :: int
  cd_sched_policy :: int
  cd_swap_priority :: int
  cd_last_kernel_time_ns :: u64
  cd_hbm_used :: u64
  cd_swapped :: bool
  cd_swappable :: bool

definition swap_resolver_create :: "bool \<Rightarrow> double \<Rightarrow> u64 \<Rightarrow> swap_resolver option" where
  "swap_resolver_create mem_ok pre_swap_threshold idle_threshold_ns =
     (if pre_swap_threshold < 0 \<or> pre_swap_threshold > 1 then None
      else if \<not> mem_ok then None
      else Some \<lparr>sr_pre_swap_threshold = pre_swap_threshold, sr_idle_threshold_ns = idle_threshold_ns,
             sr_last_usage_ratio = (\<lambda>_. 0), sr_is_usage_logged = (\<lambda>_. False)\<rparr>)"

text \<open>The numbers of the vNPUs in a bitmap, in the order the loops visit them.\<close>

definition bitmap_ids :: "vnpu_bitmap \<Rightarrow> nat list" where
  "bitmap_ids b = filter (\<lambda>v. vnpu_bitmap_test b (int v)) [0..<MAX_VNPU_PER_DIE]"

section \<open>The water mark\<close>

definition swap_resolver_check_watermark ::
    "swap_resolver \<Rightarrow> shm_manager \<Rightarrow> int \<Rightarrow> watermark_level \<times> swap_resolver" where
  "swap_resolver_check_watermark rs mgr phy_id =
     (if phy_id < 0 then (WATERMARK_NORMAL, rs)
      else case shm_manager_get_state mgr phy_id of
        None \<Rightarrow> (WATERMARK_NORMAL, rs)
      | Some st \<Rightarrow>
        let total_used = sum_list (map (\<lambda>v. ve_hbm_used (ss_entries st v)) (bitmap_ids (ss_vnpu_bitmap st))) in
        if ss_hbm_total st = 0 then (WATERMARK_NORMAL, rs)
        else let usage_ratio = fl_div (double_of_u64 total_used) (double_of_u64 (ss_hbm_total st));
                 i = nat phy_id;
                 rs' = (if sr_last_usage_ratio rs i \<noteq> usage_ratio \<or> \<not> sr_is_usage_logged rs i
                        then rs\<lparr>sr_last_usage_ratio := (sr_last_usage_ratio rs)(i := usage_ratio),
                                sr_is_usage_logged := (sr_is_usage_logged rs)(i := True)\<rparr>
                        else rs)
             in (if usage_ratio \<ge> sr_pre_swap_threshold rs then WATERMARK_PRE_SWAP else WATERMARK_NORMAL, rs'))"

section \<open>Collecting and choosing a vNPU\<close>

text \<open>The array of kernel times has 100 entries; the guard of the code lets numbers up to 127 through.\<close>

definition npu_allocator_get_last_kernel_time_ns :: "shm_manager \<Rightarrow> int \<Rightarrow> int \<Rightarrow> (int \<times> u64 option) option" where
  "npu_allocator_get_last_kernel_time_ns mgr phy_id vnpu_id =
     (if vnpu_id < 0 \<or> vnpu_id \<ge> int MAX_VNPU_PER_DIE then Some (ENPU_INVALID_PARAM, None)
      else case shm_manager_get_sched_struct mgr phy_id of
        None \<Rightarrow> Some (ENPU_NOT_FOUND, None)
      | Some sched \<Rightarrow>
        if vnpu_id \<ge> int MAX_VNPU_SCHED then None
        else Some (ENPU_SUCCESS, Some (ts_last_kernel_time_ns sched (nat vnpu_id))))"

definition swap_candidate_of :: "shm_manager \<Rightarrow> int \<Rightarrow> shm_state \<Rightarrow> int \<Rightarrow> nat \<Rightarrow> swap_candidate option" where
  "swap_candidate_of mgr phy_id st to_swap_out v =
     do {
       (_, kernel_time) \<leftarrow> npu_allocator_get_last_kernel_time_ns mgr phy_id (int v);
       let entry = ss_entries st v;
       let hbm_used = ve_hbm_used entry;
       Some \<lparr>cd_phy_id = phy_id, cd_shm_id = ss_shm_id st, cd_vnpu_id = int v,
         cd_sched_policy = ve_sched_policy entry, cd_swap_priority = ve_swap_priority entry,
         cd_last_kernel_time_ns = (case kernel_time of None \<Rightarrow> 0 | Some ns \<Rightarrow> ns),
         cd_hbm_used = hbm_used,
         cd_swapped = (case snd (shm_manager_get_vnpu_all_swapped mgr phy_id (int v)) of None \<Rightarrow> True | Some b \<Rightarrow> b),
         cd_swappable = \<not> (ve_hbm_request entry = ve_hbm_limit entry \<or>
           to_swap_out = SWAP_OUT_FROM_BORROWED \<and> hbm_used \<le> ve_hbm_request entry * 1024 * 1024)\<rparr>
     }"

fun collect_candidates :: "('a \<Rightarrow> 'b option) \<Rightarrow> 'a list \<Rightarrow> 'b list option" where
  "collect_candidates f [] = Some []"
| "collect_candidates f (x # xs) = do { y \<leftarrow> f x; ys \<leftarrow> collect_candidates f xs; Some (y # ys) }"

text \<open>The index of the first candidate with the largest kernel time.\<close>

fun newest_index :: "swap_candidate list \<Rightarrow> nat list \<Rightarrow> nat \<Rightarrow> nat" where
  "newest_index cs [] best = best"
| "newest_index cs (i # is) best =
     newest_index cs is (if cd_last_kernel_time_ns (cs ! i) > cd_last_kernel_time_ns (cs ! best) then i else best)"

definition drop_newest :: "swap_candidate list \<Rightarrow> swap_candidate list" where
  "drop_newest cs =
     (if cs = [] then []
      else let i = newest_index cs [1..<length cs] 0
           in butlast (if length cs > 1 then cs[i := cs ! (length cs - 1)] else cs))"

text \<open>The copy of an identifier that does not fit the buffer ends the collection at the first
  candidate.\<close>

definition swap_resolver_get_idle_models ::
    "shm_manager \<Rightarrow> int \<Rightarrow> int \<Rightarrow> int \<Rightarrow> (int \<times> swap_candidate list) option" where
  "swap_resolver_get_idle_models mgr phy_id max_count to_swap_out =
     (if phy_id < 0 then Some (ENPU_FAIL, [])
      else if max_count \<le> 0 then Some (ENPU_FAIL, [])
      else case shm_manager_get_state mgr phy_id of
        None \<Rightarrow> Some (ENPU_NOT_FOUND, [])
      | Some st \<Rightarrow>
        let ids = take (nat max_count) (bitmap_ids (ss_vnpu_bitmap st)) in do {
          cs \<leftarrow> collect_candidates (swap_candidate_of mgr phy_id st to_swap_out)
                 (if length (ss_shm_id st) \<ge> DIE_ID_LEN then take 1 ids else ids);
          if ids \<noteq> [] \<and> length (ss_shm_id st) \<ge> DIE_ID_LEN then Some (ENPU_FAIL, [])
          else Some (ENPU_SUCCESS, filter (\<lambda>c. cd_hbm_used c \<noteq> 0 \<and> \<not> cd_swapped c \<and> cd_swappable c) (drop_newest cs))
        })"

fun best_candidate :: "swap_candidate \<Rightarrow> swap_candidate list \<Rightarrow> swap_candidate" where
  "best_candidate best [] = best"
| "best_candidate best (c # cs) =
     (if cd_swap_priority c > cd_swap_priority best then best_candidate c cs
      else if cd_swap_priority c = cd_swap_priority best \<and> cd_last_kernel_time_ns c < cd_last_kernel_time_ns best
      then best_candidate c cs
      else best_candidate best cs)"

definition swap_resolver_select_candidate_from_list :: "swap_candidate list \<Rightarrow> int \<times> swap_candidate option" where
  "swap_resolver_select_candidate_from_list cs =
     (case cs of [] \<Rightarrow> (ENPU_NOT_FOUND, None) | c # cs' \<Rightarrow> (ENPU_SUCCESS, Some (best_candidate c cs')))"

section \<open>The swap-out command\<close>

text \<open>The size of a buffer is the memory of the process, rounded up to 4096 bytes.\<close>

definition swap_buffer_aligned :: "u64 \<Rightarrow> u64" where
  "swap_buffer_aligned process_used = (process_used + 4096 - 1) AND NOT (4096 - 1)"

text \<open>\<open>es i\<close> says whether \<^verbatim>\<open>malloc\<close> succeeds in the allocation for slot \<open>i\<close>; \<open>done\<close> is the bit mask of the
  slots served so far, which are freed again when one fails.\<close>

fun alloc_slots :: "(nat \<Rightarrow> bool \<times> tlsf_block) \<Rightarrow> int \<Rightarrow> nat list \<Rightarrow> nat set \<Rightarrow> tlsf_manager \<times> shm_state \<Rightarrow>
    int \<times> tlsf_manager \<times> shm_state" where
  "alloc_slots es vnpu_id [] served (t, st) = (0, t, st)"
| "alloc_slots es vnpu_id (i # is) served (t, st) =
     (let pe = process_at st vnpu_id i in
      if \<not> pr_active pe then alloc_slots es vnpu_id is served (t, st)
      else if pr_swapped pe then alloc_slots es vnpu_id is served (t, st)
      else if pr_hbm_used pe = 0 then alloc_slots es vnpu_id is served (t, st)
      else case shm_alloc_per_process (es i) t st vnpu_id (int i) (swap_buffer_aligned (pr_hbm_used pe)) of
        (ret, t', st') \<Rightarrow>
          if ret \<noteq> ENPU_SUCCESS then (ret, free_slots vnpu_id (filter (\<lambda>j. j \<in> served) slots) (t', st'))
          else alloc_slots es vnpu_id is (insert i served) (t', st'))"

definition npu_allocator_write_swap_cmd ::
    "u64 \<Rightarrow> shm_manager \<Rightarrow> int \<Rightarrow> string \<Rightarrow> int \<Rightarrow> int \<Rightarrow> int \<Rightarrow> int \<times> shm_manager" where
  "npu_allocator_write_swap_cmd now_s mgr phy_id pod_uid vnpu_id action to_swap_out =
     shm_manager_write_swap_cmd now_s mgr phy_id pod_uid vnpu_id action to_swap_out"

definition swap_resolver_write_swap_command ::
    "u64 \<Rightarrow> (nat \<Rightarrow> bool \<times> tlsf_block) \<Rightarrow> tlsf_manager \<Rightarrow> shm_manager \<Rightarrow> int \<Rightarrow> string \<Rightarrow> int \<Rightarrow> int \<Rightarrow> int \<Rightarrow>
     (int \<times> tlsf_manager \<times> shm_manager) option" where
  "swap_resolver_write_swap_command now_s es t mgr phy_id pod_uid vnpu_id action to_swap_out =
     (let write = (\<lambda>t mgr. case npu_allocator_write_swap_cmd now_s mgr phy_id pod_uid vnpu_id action to_swap_out of
                     (ret, mgr') \<Rightarrow> Some (ret, t, mgr')) in
      if phy_id < 0 \<or> vnpu_id < 0 then Some (ENPU_FAIL, t, mgr)
      else if action < SWAP_ACTION_NONE \<or> action > SWAP_ACTION_IN then Some (ENPU_FAIL, t, mgr)
      else if action = SWAP_ACTION_OUT
      then case shm_manager_get_state mgr phy_id of
             None \<Rightarrow> Some (ENPU_NOT_FOUND, t, mgr)
           | Some st \<Rightarrow>
             if \<not> cm_completed (ss_swap_cmd st) then Some (ENPU_SUCCESS, t, mgr)
             else if vnpu_id \<ge> int MAX_VNPU_PER_DIE then None
             else if \<not> vnpu_bitmap_test (ss_vnpu_bitmap st) vnpu_id then Some (ENPU_NOT_FOUND, t, mgr)
             else if active_count (ss_entries st (nat vnpu_id)) = 0 then Some (ENPU_SUCCESS, t, mgr)
             else case alloc_slots es vnpu_id slots {} (t, st) of (ret, t', st') \<Rightarrow>
               if ret \<noteq> ENPU_SUCCESS then Some (ret, t', put_state mgr phy_id st')
               else write t' (put_state mgr phy_id st')
      else write t mgr)"

section \<open>Buffers of processes that are back\<close>

definition swap_in_slot :: "nat \<Rightarrow> nat \<Rightarrow> tlsf_manager \<times> shm_state \<Rightarrow> tlsf_manager \<times> shm_state" where
  "swap_in_slot v s = (\<lambda>(t, st).
     let pe = process_at st (int v) s in
     if \<not> pr_active pe then (t, st)
     else if \<not> pr_swapped pe \<and> pr_swap_size pe \<noteq> 0 then snd (shm_free_per_process t st (int v) (int s))
     else (t, st))"

definition swap_resolver_check_and_swap_in :: "tlsf_manager \<Rightarrow> shm_manager \<Rightarrow> int \<Rightarrow> int \<times> tlsf_manager \<times> shm_manager" where
  "swap_resolver_check_and_swap_in t mgr phy_id =
     (case shm_manager_get_state mgr phy_id of
        None \<Rightarrow> (ENPU_SUCCESS, t, mgr)
      | Some st \<Rightarrow>
        if \<not> cm_completed (ss_swap_cmd st) then (ENPU_SUCCESS, t, mgr)
        else case fold (\<lambda>v. fold (swap_in_slot v) slots) (bitmap_ids (ss_vnpu_bitmap st)) (t, st) of
          (t', st') \<Rightarrow> (ENPU_SUCCESS, t', put_state mgr phy_id st'))"

definition swap_resolver_check_enpu_swap_out :: "shm_manager \<Rightarrow> int \<Rightarrow> int \<Rightarrow> int \<times> int \<times> shm_manager" where
  "swap_resolver_check_enpu_swap_out mgr phy_id flag =
     (case shm_manager_get_state mgr phy_id of
        None \<Rightarrow> (ENPU_SUCCESS, flag, mgr)
      | Some st \<Rightarrow>
        let flag' = so_action (ss_swap_out_cmd st) in
        (ENPU_SUCCESS, flag',
         if flag' \<noteq> SWAP_OUT_NONE
         then put_state mgr phy_id (st\<lparr>ss_swap_out_cmd := (ss_swap_out_cmd st)\<lparr>so_action := SWAP_OUT_NONE\<rparr>\<rparr>)
         else mgr))"

definition swap_resolver_is_swap_pending :: "shm_manager \<Rightarrow> int \<Rightarrow> bool" where
  "swap_resolver_is_swap_pending mgr phy_id =
     (if phy_id < 0 then False
      else case shm_manager_get_state mgr phy_id of
        None \<Rightarrow> False | Some st \<Rightarrow> \<not> cm_completed (ss_swap_cmd st))"

section \<open>A round of the thread\<close>

definition swap_out_round ::
    "u64 \<Rightarrow> (nat \<Rightarrow> bool \<times> tlsf_block) \<Rightarrow> tlsf_manager \<Rightarrow> shm_manager \<Rightarrow> int \<Rightarrow> int \<Rightarrow> (tlsf_manager \<times> shm_manager) option" where
  "swap_out_round now_s es t mgr phy_id to_swap_out =
     do {
       (ret, cs) \<leftarrow> swap_resolver_get_idle_models mgr phy_id (int MAX_VNPU_SCHED) to_swap_out;
       if ret \<noteq> ENPU_SUCCESS \<or> cs = [] then Some (t, mgr)
       else case swap_resolver_select_candidate_from_list cs of
         (_, None) \<Rightarrow> Some (t, mgr)
       | (_, Some c) \<Rightarrow> do {
           (_, t', mgr') \<leftarrow> swap_resolver_write_swap_command now_s es t mgr phy_id ''pod-idle'' (cd_vnpu_id c)
             SWAP_ACTION_OUT to_swap_out;
           Some (t', mgr')
         }
     }"

definition swap_resolver_thread_round ::
    "u64 \<Rightarrow> (nat \<Rightarrow> bool \<times> tlsf_block) \<Rightarrow> swap_resolver \<Rightarrow> tlsf_manager \<Rightarrow> shm_manager \<Rightarrow> int \<Rightarrow>
     (swap_resolver \<times> tlsf_manager \<times> shm_manager) option" where
  "swap_resolver_thread_round now_s es rs t mgr phy_id =
     (if swap_resolver_is_swap_pending mgr phy_id then Some (rs, t, mgr)
      else case swap_resolver_check_and_swap_in t mgr phy_id of (_, t1, mgr1) \<Rightarrow>
        (case swap_resolver_check_watermark rs mgr1 phy_id of (level, rs1) \<Rightarrow>
          (case swap_resolver_check_enpu_swap_out mgr1 phy_id SWAP_OUT_NONE of (_, to_swap_out, mgr2) \<Rightarrow>
            if level = WATERMARK_PRE_SWAP \<or> to_swap_out \<noteq> SWAP_OUT_NONE
            then do { (t3, mgr3) \<leftarrow> swap_out_round now_s es t1 mgr2 phy_id to_swap_out; Some (rs1, t3, mgr3) }
            else Some (rs1, t1, mgr2))))"

section \<open>Size of a buffer\<close>

lemma swap_buffer_aligned_div: "unat (swap_buffer_aligned n) = unat (n + 4095) div 4096 * 4096"
proof -
  have "n + 4096 - 1 = n + 4095" "(4096 :: u64) - 1 = mask 12" by (simp_all add: mask_eq_exp_minus_1)
  then have "swap_buffer_aligned n = (n + 4095) AND NOT (mask 12)" by (simp only: swap_buffer_aligned_def)
  then show ?thesis using unat_and_not_mask [of "n + 4095" 12] by simp
qed

lemma swap_buffer_aligned_request: "tlsf_request (swap_buffer_aligned n)"
proof -
  have "unat (n + 4095) < 2 ^ 64" using unsigned_less [of "n + 4095"] by simp
  then have "unat (n + 4095) div 4096 < 2 ^ 52" by (simp add: div_less_iff_less_mult)
  then show ?thesis by (simp add: tlsf_request_def swap_buffer_aligned_div)
qed

section \<open>What the operations leave alone\<close>

text \<open>The state of a die without the ranges of its processes.\<close>

definition strip :: "shm_state \<Rightarrow> shm_state" where
  "strip st = st\<lparr>ss_entries := (\<lambda>v. (ss_entries st v)\<lparr>ve_processes := (\<lambda>s.
     (ve_processes (ss_entries st v) s)\<lparr>pr_swap_offset := 0, pr_swap_size := 0\<rparr>)\<rparr>)\<rparr>"

lemma strip_upd [simp]:
  "strip (upd_process st v s (\<lambda>pe. pe\<lparr>pr_swap_offset := off, pr_swap_size := n\<rparr>)) = strip st"
  by (auto simp: strip_def upd_process_def upd_entry_def fun_eq_iff)

lemma strip_fields:
  "ss_vnpu_bitmap (strip st) = ss_vnpu_bitmap st" "ss_swap_cmd (strip st) = ss_swap_cmd st"
  "pr_active (process_at (strip st) v s) = pr_active (process_at st v s)"
  "pr_swapped (process_at (strip st) v s) = pr_swapped (process_at st v s)"
  "pr_hbm_used (process_at (strip st) v s) = pr_hbm_used (process_at st v s)"
  by (simp_all add: strip_def)

lemma stripD:
  assumes "strip st' = strip st"
  shows "ss_vnpu_bitmap st' = ss_vnpu_bitmap st" "ss_swap_cmd st' = ss_swap_cmd st"
    "pr_active (process_at st' v s) = pr_active (process_at st v s)"
    "pr_swapped (process_at st' v s) = pr_swapped (process_at st v s)"
    "pr_hbm_used (process_at st' v s) = pr_hbm_used (process_at st v s)"
  using assms strip_fields by metis+

lemma strip_free: "strip (snd (snd (shm_free_per_process t st v s))) = strip st"
  by (simp add: shm_free_per_process_def Let_def)

lemma strip_free_slots: "strip (snd (free_slots v js (t, st))) = strip st"
proof (induction js arbitrary: t st)
  case Nil
  then show ?case by (simp add: free_slots_def)
next
  case (Cons j js)
  obtain r t1 st1 where f: "shm_free_per_process t st v (int j) = (r, t1, st1)" by (metis prod_cases3)
  then have "strip st1 = strip st" using strip_free [of t st v "int j"] by simp
  then show ?case using Cons [of t1 st1] f by (simp add: free_slots_def)
qed

section \<open>Allocating for the slots of a vNPU\<close>

lemma free_per_process_ranges:
  assumes "dies i = Some st" "v < MAX_VNPU_PER_DIE" "s < MAX_PROCESSES_PER_VNPU" "tlsf_inv t"
    "shm_free_per_process t st (int v) (int s) = (r, t', st')"
  shows "tlsf_ranges t' = {x \<in> tlsf_ranges t. \<forall>off n. holds dies (i, v, s) = Some (off, n) \<longrightarrow> fst x \<noteq> unat off}"
  using assms(5)
proof (cases rule: free_per_process_cases)
  case idle
  have "slot_in_range (int v) (int s)" using assms(2,3) by (simp add: slot_in_range_def)
  then have "holds dies (i, v, s) = None" using idle(3) assms(1) by (simp add: holds_def)
  then show ?thesis using idle(1) by simp
next
  case (frees v' s')
  then have "holds dies (i, v, s) = Some (pr_swap_offset (process_at st (int v) s), pr_swap_size (process_at st (int v) s))"
    using assms(1) by (auto simp: holds_Some)
  then show ?thesis using frees tlsf.release_ranges [OF assms(4)] by simp
qed

lemma free_slots_ranges:
  assumes "dies i = Some st" "v < MAX_VNPU_PER_DIE" "set js \<subseteq> {..<MAX_PROCESSES_PER_VNPU}" "owned (holds dies) t"
    "free_slots (int v) js (t, st) = (t', st')"
  shows "tlsf_ranges t' =
    {x \<in> tlsf_ranges t. \<forall>s \<in> set js. \<forall>off n. holds dies (i, v, s) = Some (off, n) \<longrightarrow> fst x \<noteq> unat off}"
  using assms
proof (induction js arbitrary: dies t st)
  case Nil
  then show ?case by (simp add: free_slots_def)
next
  case (Cons j js)
  obtain r t1 st1 where f: "shm_free_per_process t st (int v) (int j) = (r, t1, st1)" by (metis prod_cases3)
  have rest: "free_slots (int v) js (t1, st1) = (t', st')" using Cons.prems(5) f by (simp add: free_slots_def)
  let ?dies1 = "dies(i \<mapsto> st1)"
  have j: "j < MAX_PROCESSES_PER_VNPU" and js: "set js \<subseteq> {..<MAX_PROCESSES_PER_VNPU}" using Cons.prems(3) by simp_all
  note o1 = free_per_process_owned(1) [of dies i, OF Cons.prems(1,4) f]
  have d1: "?dies1 i = Some st1" by simp
  have h1: "holds ?dies1 = (holds dies)((i, v, j) := None)"
    by (rule free_per_process_holds [of dies i, OF Cons.prems(1,2) j f])
  have r1: "tlsf_ranges t1 = {x \<in> tlsf_ranges t. \<forall>off n. holds dies (i, v, j) = Some (off, n) \<longrightarrow> fst x \<noteq> unat off}"
    by (rule free_per_process_ranges [of dies i, OF Cons.prems(1,2) j ownedD(1) [OF Cons.prems(4)] f])
  note IH = Cons.IH [OF d1 Cons.prems(2) js o1 rest]
  show ?case unfolding IH r1 h1 by auto
qed

definition served_slots :: "nat \<Rightarrow> nat \<Rightarrow> nat set \<Rightarrow> slot_id set" where
  "served_slots i v served = {(i, v, s) |s. s \<in> served}"

definition alloc_result :: "(slot_id \<rightharpoonup> u64 \<times> u64) \<Rightarrow> tlsf_manager \<Rightarrow> slot_id set \<Rightarrow>
    (slot_id \<rightharpoonup> u64 \<times> u64) \<Rightarrow> tlsf_manager \<Rightarrow> bool" where
  "alloc_result h t ks h' t' \<longleftrightarrow>
     h' = h |` (- ks) \<and> tlsf_ranges t' = {x \<in> tlsf_ranges t. \<forall>k \<in> ks. \<forall>off n. h k = Some (off, n) \<longrightarrow> fst x \<noteq> unat off}"

lemma alloc_result_insert:
  assumes "k \<notin> ks" "h k = None" "tlsf_ranges t1 = insert (unat off, len) (tlsf_ranges t)"
    "unat off \<notin> fst ` tlsf_ranges t" "alloc_result (h(k \<mapsto> (off, n))) t1 (insert k ks) h' t'"
  shows "alloc_result h t ks h' t'"
proof -
  have "h' = h |` (- ks)" using assms(1,2,5) by (auto simp: alloc_result_def restrict_map_def fun_eq_iff)
  moreover have "tlsf_ranges t' = {x \<in> tlsf_ranges t. \<forall>k \<in> ks. \<forall>off n. h k = Some (off, n) \<longrightarrow> fst x \<noteq> unat off}"
    using assms(1,4,5) unfolding alloc_result_def assms(3) by (auto simp: image_iff)
  ultimately show ?thesis by (simp add: alloc_result_def)
qed

lemma rollback_spec:
  assumes "dies i = Some st" "v < MAX_VNPU_PER_DIE" "served \<subseteq> {..<MAX_PROCESSES_PER_VNPU}" "owned (holds dies) t"
    "free_slots (int v) (filter (\<lambda>j. j \<in> served) slots) (t, st) = (t', st')"
  shows "owned (holds (dies(i \<mapsto> st'))) t' \<and> (no_leak (holds dies) t \<longrightarrow> no_leak (holds (dies(i \<mapsto> st'))) t')
    \<and> strip st' = strip st \<and> alloc_result (holds dies) t (served_slots i v served) (holds (dies(i \<mapsto> st'))) t'"
proof -
  have set: "set (filter (\<lambda>j. j \<in> served) slots) = served" using assms(3) by auto
  then have "set (filter (\<lambda>j. j \<in> served) slots) \<subseteq> {..<MAX_PROCESSES_PER_VNPU}" using assms(3) by simp
  note spec = free_slots_spec [of dies i, OF assms(1,2) this assms(4,5), unfolded set]
    and ranges = free_slots_ranges [of dies i, OF assms(1,2) this assms(4,5), unfolded set]
  have "holds (dies(i \<mapsto> st')) = holds dies |` (- served_slots i v served)"
    using spec by (auto simp: restrict_map_def served_slots_def fun_eq_iff)
  moreover have "tlsf_ranges t' =
      {x \<in> tlsf_ranges t. \<forall>k \<in> served_slots i v served. \<forall>off n. holds dies k = Some (off, n) \<longrightarrow> fst x \<noteq> unat off}"
    unfolding ranges served_slots_def by auto
  ultimately have "alloc_result (holds dies) t (served_slots i v served) (holds (dies(i \<mapsto> st'))) t'"
    by (simp add: alloc_result_def)
  moreover have "strip st' = strip st" using strip_free_slots [of "int v" "filter (\<lambda>j. j \<in> served) slots" t st] assms(5) by simp
  ultimately show ?thesis using spec by blast
qed

definition alloc_post :: "(nat \<Rightarrow> shm_state option) \<Rightarrow> nat \<Rightarrow> nat \<Rightarrow> nat set \<Rightarrow> tlsf_manager \<Rightarrow> shm_state \<Rightarrow>
    int \<times> tlsf_manager \<times> shm_state \<Rightarrow> bool" where
  "alloc_post dies i v served t st = (\<lambda>(ret, t', st').
     owned (holds (dies(i \<mapsto> st'))) t' \<and> (no_leak (holds dies) t \<longrightarrow> no_leak (holds (dies(i \<mapsto> st'))) t')
     \<and> strip st' = strip st
     \<and> (ret \<noteq> 0 \<longrightarrow> alloc_result (holds dies) t (served_slots i v served) (holds (dies(i \<mapsto> st'))) t'))"

definition slots_free :: "shm_state \<Rightarrow> nat \<Rightarrow> nat set \<Rightarrow> bool" where
  "slots_free st v S \<longleftrightarrow> (\<forall>s \<in> S. pr_active (process_at st (int v) s) \<and> \<not> pr_swapped (process_at st (int v) s) \<longrightarrow>
     pr_swap_size (process_at st (int v) s) = 0)"

text \<open>One allocation of the loop that succeeds.\<close>

lemma alloc_step:
  assumes die: "dies i = Some st" and v: "v < MAX_VNPU_PER_DIE" and s: "s < MAX_PROCESSES_PER_VNPU" "s \<notin> served"
    and o: "owned (holds dies) t" and free: "pr_swap_size (process_at st (int v) s) = 0" and req: "tlsf_request n"
    and alloc: "tlsf_alloc (fst e) (snd e) t n = (off, t1)" "off \<noteq> TLSF_FAIL"
    and st1: "st1 = upd_process st (int v) s (\<lambda>pe. pe\<lparr>pr_swap_offset := off, pr_swap_size := n\<rparr>)"
    and post: "alloc_post (dies(i \<mapsto> st1)) i v (insert s served) t1 st1 res"
  shows "alloc_post dies i v served t st res"
proof -
  have "n \<noteq> 0" using alloc by (auto simp: tlsf_alloc_def)
  then have h1: "holds (dies(i \<mapsto> st1)) = (holds dies)((i, v, s) \<mapsto> (off, n))"
    using holds_upd [of dies i, OF die v s(1), of n off] st1 by simp
  have old: "holds dies (i, v, s) = None" using die free by (simp add: holds_def)
  note inv = ownedD(1) [OF o]
  obtain len where len: "tlsf_ranges t1 = insert (unat off, len) (tlsf_ranges t)"
    using tlsf.alloc_gives [OF inv req, of e] alloc by auto
  have fresh: "unat off \<notin> fst ` tlsf_ranges t" using tlsf.alloc_fresh [OF inv req, of e] alloc by simp
  have ks: "served_slots i v (insert s served) = insert (i, v, s) (served_slots i v served)"
    "(i, v, s) \<notin> served_slots i v served" using s(2) by (auto simp: served_slots_def)
  note leak = owned_alloc(2) [OF o req alloc old]
  obtain ret t' st' where res: "res = (ret, t', st')" by (metis prod_cases3)
  have "strip st1 = strip st" unfolding st1 by simp
  moreover have "ret \<noteq> 0 \<longrightarrow> alloc_result (holds dies) t (served_slots i v served) (holds (dies(i \<mapsto> st'))) t'"
  proof
    assume "ret \<noteq> 0"
    then have "alloc_result ((holds dies)((i, v, s) \<mapsto> (off, n))) t1 (insert (i, v, s) (served_slots i v served)) (holds (dies(i \<mapsto> st'))) t'"
      using post unfolding alloc_post_def res h1 ks(1) by simp
    then show "alloc_result (holds dies) t (served_slots i v served) (holds (dies(i \<mapsto> st'))) t'"
      by (rule alloc_result_insert [of "(i, v, s)" _ "holds dies", OF ks(2) old len fresh])
  qed
  ultimately show ?thesis using post leak unfolding alloc_post_def res h1 by simp
qed

lemma alloc_slots_spec:
  assumes "distinct is" "set is \<subseteq> {..<MAX_PROCESSES_PER_VNPU}" "served \<subseteq> {..<MAX_PROCESSES_PER_VNPU}" "served \<inter> set is = {}"
    "v < MAX_VNPU_PER_DIE" "dies i = Some st" "owned (holds dies) t" "slots_free st v (set is)"
  shows "alloc_post dies i v served t st (alloc_slots es (int v) is served (t, st))"
  using assms
proof (induction "is" arbitrary: served dies t st)
  case Nil
  then have "dies(i \<mapsto> st) = dies" by auto
  then show ?case using Nil.prems by (simp add: alloc_post_def)
next
  case (Cons s "is")
  let ?pe = "process_at st (int v) s"
  let ?n = "swap_buffer_aligned (pr_hbm_used ?pe)"
  have s: "s < MAX_PROCESSES_PER_VNPU" "s \<notin> served" and "is": "distinct is" "set is \<subseteq> {..<MAX_PROCESSES_PER_VNPU}" "s \<notin> set is"
    and sv: "served \<inter> set is = {}" and free: "slots_free st v (set is)"
    using Cons.prems by (auto simp: slots_free_def)
  note IH = Cons.IH [OF "is"(1,2)] and req = swap_buffer_aligned_request [of "pr_hbm_used ?pe"]
  consider (skip) "\<not> (pr_active ?pe \<and> \<not> pr_swapped ?pe \<and> pr_hbm_used ?pe \<noteq> 0)"
    | (need) "pr_active ?pe" "\<not> pr_swapped ?pe" "pr_hbm_used ?pe \<noteq> 0" by blast
  then show ?case
  proof cases
    case skip
    then have "alloc_slots es (int v) (s # is) served (t, st) = alloc_slots es (int v) is served (t, st)" by (auto simp: Let_def)
    then show ?thesis using IH [OF Cons.prems(3) sv Cons.prems(5-7) free] by simp
  next
    case need
    show ?thesis
    proof (cases rule: alloc_per_process_cases [of "es s" t st "int v" "int s" ?n, case_names fails gives])
      case (fails t1)
      then have "t1 = t" using alloc_fail_same [OF ownedD(1) [OF Cons.prems(7)] req] by blast
      then have "alloc_slots es (int v) (s # is) served (t, st) = (-1, free_slots (int v) (filter (\<lambda>j. j \<in> served) slots) (t, st))"
        using need fails(1) by (simp add: Let_def)
      then show ?thesis using rollback_spec [of dies i, OF Cons.prems(6,5,3,7)]
        by (auto simp: alloc_post_def split: prod.split)
    next
      case (gives v' s' off t1)
      define st1 where "st1 = upd_process st (int v) s (\<lambda>pe. pe\<lparr>pr_swap_offset := off, pr_swap_size := ?n\<rparr>)"
      have a: "shm_alloc_per_process (es s) t st (int v) (int s) ?n = (0, t1, st1)" using gives(1,2,8) by (simp add: st1_def)
      have size0: "pr_swap_size ?pe = 0" using Cons.prems(8) need by (simp add: slots_free_def)
      then have o1: "owned (holds (dies(i \<mapsto> st1))) t1"
        using alloc_per_process_owned(1) [of dies i, OF Cons.prems(6,7) req _ a] by simp
      have "slots_free st1 v (set is)"
        using free "is"(3) unfolding st1_def slots_free_def by (auto simp: upd_process_def upd_entry_def)
      then have "alloc_post (dies(i \<mapsto> st1)) i v (insert s served) t1 st1 (alloc_slots es (int v) is (insert s served) (t1, st1))"
        by (intro IH o1) (use Cons.prems(3,5) s sv "is"(3) in auto)
      from alloc_step [of dies i, OF Cons.prems(6,5) s Cons.prems(7) size0 req gives(5,6) st1_def this]
      show ?thesis using need a by (simp add: Let_def)
    qed
  qed
qed

section \<open>The command with its buffers\<close>

lemma get_state_Some:
  "shm_manager_get_state mgr phy_id = Some st \<longleftrightarrow>
     0 \<le> phy_id \<and> phy_id < int MAX_NPU_PER_NODE \<and> sm_shm_states mgr (nat phy_id) = Some st"
  by (auto simp: shm_manager_get_state_def)

lemma put_state_states [simp]: "sm_shm_states (put_state mgr phy_id st) = (sm_shm_states mgr)(nat phy_id \<mapsto> st)"
  by (simp add: put_state_def)

lemma holds_cong:
  assumes "\<And>v s. pr_swap_offset (ve_processes (ss_entries st' v) s) = pr_swap_offset (ve_processes (ss_entries st v) s)"
    "\<And>v s. pr_swap_size (ve_processes (ss_entries st' v) s) = pr_swap_size (ve_processes (ss_entries st v) s)"
  shows "holds (dies(i \<mapsto> st')) = holds (dies(i \<mapsto> st))"
  using assms by (auto simp: holds_def fun_eq_iff Let_def)

lemma write_swap_cmd_holds:
  assumes "write_swap_cmd_locked now_s st pod_uid vnpu_id action to_swap_out = (ret, st')"
  shows "holds (dies(i \<mapsto> st')) = holds (dies(i \<mapsto> st))"
  using assms
  by (intro holds_cong) (auto simp: write_swap_cmd_locked_def Let_def upd_entry_def mark_active_def split: if_splits)

lemma npu_write_swap_cmd_holds:
  assumes "npu_allocator_write_swap_cmd now_s mgr phy_id pod_uid vnpu_id action to_swap_out = (ret, mgr')"
  shows "holds (sm_shm_states mgr') = holds (sm_shm_states mgr)"
proof (cases "shm_manager_get_state mgr phy_id")
  case None
  then have "mgr' = mgr"
    using assms by (simp add: npu_allocator_write_swap_cmd_def shm_manager_write_swap_cmd_def split: if_split_asm)
  then show ?thesis by simp
next
  case (Some st)
  obtain r st' where w: "write_swap_cmd_locked now_s st pod_uid vnpu_id action to_swap_out = (r, st')" by fastforce
  have "(sm_shm_states mgr)(nat phy_id \<mapsto> st) = sm_shm_states mgr" using Some by (auto simp: get_state_Some)
  then have "holds ((sm_shm_states mgr)(nat phy_id \<mapsto> st')) = holds (sm_shm_states mgr)"
    using write_swap_cmd_holds [OF w, of "sm_shm_states mgr" "nat phy_id"] by simp
  moreover have "mgr' = mgr \<or> mgr' = put_state mgr phy_id st'"
    using assms Some w by (simp add: npu_allocator_write_swap_cmd_def shm_manager_write_swap_cmd_def split: if_split_asm)
  ultimately show ?thesis by auto
qed

lemma npu_write_swap_cmd_ok:
  assumes "shm_manager_get_state mgr phy_id = Some st" "0 \<le> vnpu_id" "vnpu_id < int MAX_VNPU_PER_DIE" "length pod_uid < MAX_UUID_LEN"
  shows "fst (npu_allocator_write_swap_cmd now_s mgr phy_id pod_uid vnpu_id SWAP_ACTION_OUT to_swap_out) = ENPU_SUCCESS"
  using assms by (auto simp: npu_allocator_write_swap_cmd_def shm_manager_write_swap_cmd_def write_swap_cmd_locked_def
      Let_def shm_manager_get_state_def split: if_splits)

text \<open>All buffers of the vNPU were allocated and are still recorded.\<close>

definition buffers_kept :: "(nat \<Rightarrow> bool \<times> tlsf_block) \<Rightarrow> tlsf_manager \<Rightarrow> shm_manager \<Rightarrow> int \<Rightarrow> int \<Rightarrow> tlsf_manager \<Rightarrow> shm_manager \<Rightarrow> bool" where
  "buffers_kept es t mgr phy_id vnpu_id t' mgr' \<longleftrightarrow>
     (\<exists>st st'. shm_manager_get_state mgr phy_id = Some st \<and> alloc_slots es vnpu_id slots {} (t, st) = (ENPU_SUCCESS, t', st')
        \<and> holds (sm_shm_states mgr') = holds ((sm_shm_states mgr)(nat phy_id \<mapsto> st')))"

lemma write_swap_command_spec:
  assumes w: "swap_resolver_write_swap_command now_s es t mgr phy_id pod_uid vnpu_id SWAP_ACTION_OUT to_swap_out
      = Some (ret, t', mgr')"
    and o: "owned (holds (sm_shm_states mgr)) t"
    and free: "\<forall>st. shm_manager_get_state mgr phy_id = Some st \<longrightarrow> slots_free st (nat vnpu_id) {..<MAX_PROCESSES_PER_VNPU}"
  shows "owned (holds (sm_shm_states mgr')) t'"
    and "no_leak (holds (sm_shm_states mgr)) t \<Longrightarrow> no_leak (holds (sm_shm_states mgr')) t'"
    and "ret \<noteq> ENPU_SUCCESS \<Longrightarrow> holds (sm_shm_states mgr') = holds (sm_shm_states mgr) \<and> tlsf_ranges t' = tlsf_ranges t
      \<or> MAX_UUID_LEN \<le> length pod_uid \<and> buffers_kept es t mgr phy_id vnpu_id t' mgr'"
proof -
  let ?goal = "owned (holds (sm_shm_states mgr')) t'
    \<and> (no_leak (holds (sm_shm_states mgr)) t \<longrightarrow> no_leak (holds (sm_shm_states mgr')) t')
    \<and> (ret \<noteq> ENPU_SUCCESS \<longrightarrow> holds (sm_shm_states mgr') = holds (sm_shm_states mgr) \<and> tlsf_ranges t' = tlsf_ranges t
      \<or> MAX_UUID_LEN \<le> length pod_uid \<and> buffers_kept es t mgr phy_id vnpu_id t' mgr')"
  have "?goal"
  proof (cases "t' = t \<and> mgr' = mgr")
    case True
    then show ?thesis using o by simp
  next
    case False
    define r where "r = alloc_slots es vnpu_id slots {}"
    obtain st where st: "shm_manager_get_state mgr phy_id = Some st" and v: "0 \<le> vnpu_id" "vnpu_id < int MAX_VNPU_PER_DIE"
      and w': "(case r (t, st) of (ret, t', st') \<Rightarrow>
         if ret \<noteq> ENPU_SUCCESS then Some (ret, t', put_state mgr phy_id st')
         else case npu_allocator_write_swap_cmd now_s (put_state mgr phy_id st') phy_id pod_uid vnpu_id SWAP_ACTION_OUT to_swap_out
           of (ret, mgr') \<Rightarrow> Some (ret, t', mgr')) = Some (ret, t', mgr')"
      using w False unfolding swap_resolver_write_swap_command_def r_def [symmetric]
      by (auto simp: Let_def split: if_splits option.splits)
    obtain r1 t1 st1 where r: "r (t, st) = (r1, t1, st1)" by (metis prod_cases3)
    let ?dies = "sm_shm_states mgr" and ?mgr1 = "put_state mgr phy_id st1"
    have die: "?dies (nat phy_id) = Some st" and phy: "0 \<le> phy_id" "phy_id < int MAX_NPU_PER_NODE"
      using st by (auto simp: get_state_Some)
    have "int (nat vnpu_id) = vnpu_id" "nat vnpu_id < MAX_VNPU_PER_DIE" using v by auto
    moreover have "slots_free st (nat vnpu_id) (set slots)" using free st by (simp add: atLeast0LessThan)
    ultimately have post: "alloc_post ?dies (nat phy_id) (nat vnpu_id) {} t st (r1, t1, st1)"
      using alloc_slots_spec [of slots "{}" "nat vnpu_id" ?dies "nat phy_id" st t es] die o r
      by (auto simp: r_def atLeast0LessThan)
    show ?thesis
    proof (cases "r1 = ENPU_SUCCESS")
      case True
      then have n: "npu_allocator_write_swap_cmd now_s ?mgr1 phy_id pod_uid vnpu_id SWAP_ACTION_OUT to_swap_out = (ret, mgr')" "t' = t1"
        using w' r by (auto split: prod.splits)
      have "shm_manager_get_state ?mgr1 phy_id = Some st1" using phy by (simp add: get_state_Some)
      from npu_write_swap_cmd_ok [OF this v] n(1) have "length pod_uid < MAX_UUID_LEN \<longrightarrow> ret = ENPU_SUCCESS"
        by (metis fst_conv)
      moreover have "buffers_kept es t mgr phy_id vnpu_id t' mgr'"
        using st r True npu_write_swap_cmd_holds [OF n(1)] n(2) unfolding buffers_kept_def r_def by auto
      ultimately show ?thesis using npu_write_swap_cmd_holds [OF n(1)] n(2) post unfolding alloc_post_def by auto
    next
      case False
      then have "t' = t1" "mgr' = ?mgr1" using w' r by auto
      then show ?thesis using post False by (auto simp: alloc_post_def alloc_result_def served_slots_def)
    qed
  qed
  then show "owned (holds (sm_shm_states mgr')) t'"
    and "no_leak (holds (sm_shm_states mgr)) t \<Longrightarrow> no_leak (holds (sm_shm_states mgr')) t'"
    and "ret \<noteq> ENPU_SUCCESS \<Longrightarrow> holds (sm_shm_states mgr') = holds (sm_shm_states mgr) \<and> tlsf_ranges t' = tlsf_ranges t
      \<or> MAX_UUID_LEN \<le> length pod_uid \<and> buffers_kept es t mgr phy_id vnpu_id t' mgr'" by auto
qed

section \<open>Releasing the buffers\<close>

definition settled :: "shm_state \<Rightarrow> (nat \<times> nat) set \<Rightarrow> bool" where
  "settled st K \<longleftrightarrow> (\<forall>v s. (v, s) \<in> K \<longrightarrow> pr_active (process_at st (int v) s) \<and> \<not> pr_swapped (process_at st (int v) s) \<longrightarrow>
     pr_swap_size (process_at st (int v) s) = 0)"

definition swap_in_post :: "(nat \<Rightarrow> shm_state option) \<Rightarrow> nat \<Rightarrow> (nat \<times> nat) set \<Rightarrow> tlsf_manager \<Rightarrow> shm_state \<Rightarrow>
    tlsf_manager \<times> shm_state \<Rightarrow> bool" where
  "swap_in_post dies i K t st = (\<lambda>(t', st').
     owned (holds (dies(i \<mapsto> st'))) t' \<and> (no_leak (holds dies) t \<longrightarrow> no_leak (holds (dies(i \<mapsto> st'))) t')
     \<and> strip st' = strip st \<and> settled st' K)"

lemma settled_free:
  assumes "settled st K" "v < MAX_VNPU_PER_DIE" "s < MAX_PROCESSES_PER_VNPU"
    "shm_free_per_process t st (int v) (int s) = (r, t', st')"
  shows "settled st' (insert (v, s) K)"
  using assms(4)
proof (cases rule: free_per_process_cases)
  case idle
  have "slot_in_range (int v) (int s)" using assms(2,3) by (simp add: slot_in_range_def)
  then show ?thesis using idle assms(1) by (simp add: settled_def)
next
  case (frees v' s')
  then have "st' = upd_process st (int v) s (\<lambda>pe. pe\<lparr>pr_swap_offset := 0, pr_swap_size := 0\<rparr>)" by simp
  then show ?thesis using assms(1) by (auto simp: settled_def upd_process_def upd_entry_def)
qed

lemma swap_in_slot_spec:
  assumes "dies i = Some st" "owned (holds dies) t" "settled st K" "v < MAX_VNPU_PER_DIE" "s < MAX_PROCESSES_PER_VNPU"
  shows "swap_in_post dies i (insert (v, s) K) t st (swap_in_slot v s (t, st))"
proof (cases "pr_active (process_at st (int v) s) \<and> \<not> pr_swapped (process_at st (int v) s) \<and> pr_swap_size (process_at st (int v) s) \<noteq> 0")
  case True
  obtain r t' st' where f: "shm_free_per_process t st (int v) (int s) = (r, t', st')" by (metis prod_cases3)
  have "strip st' = strip st" using strip_free [of t st "int v" "int s"] f by simp
  then show ?thesis
    using True f free_per_process_owned [of dies i, OF assms(1,2) f] settled_free [OF assms(3-5) f]
    by (simp add: swap_in_slot_def swap_in_post_def Let_def)
next
  case False
  then have "swap_in_slot v s (t, st) = (t, st)" by (auto simp: swap_in_slot_def Let_def)
  moreover have "dies(i \<mapsto> st) = dies" using assms(1) by auto
  moreover have "settled st (insert (v, s) K)" using False assms(3) by (auto simp: settled_def)
  ultimately show ?thesis using assms(2) by (simp add: swap_in_post_def)
qed

lemma swap_in_slots_spec:
  assumes "dies i = Some st" "owned (holds dies) t" "settled st K"
    "set ks \<subseteq> {..<MAX_VNPU_PER_DIE} \<times> {..<MAX_PROCESSES_PER_VNPU}"
  shows "swap_in_post dies i (set ks \<union> K) t st (fold (\<lambda>(v, s). swap_in_slot v s) ks (t, st))"
  using assms
proof (induction ks arbitrary: dies t st K)
  case Nil
  then have "dies(i \<mapsto> st) = dies" by auto
  then show ?case using Nil by (simp add: swap_in_post_def)
next
  case (Cons k ks)
  obtain v s where k: "k = (v, s)" by fastforce
  obtain t1 st1 where f: "swap_in_slot v s (t, st) = (t1, st1)" by fastforce
  have p1: "swap_in_post dies i (insert k K) t st (t1, st1)"
    using swap_in_slot_spec [of dies i st t K v s] Cons.prems f k by simp
  then have o1: "owned (holds (dies(i \<mapsto> st1))) t1" "settled st1 (insert k K)" by (simp_all add: swap_in_post_def)
  have p2: "swap_in_post (dies(i \<mapsto> st1)) i (set ks \<union> insert k K) t1 st1 (fold (\<lambda>(v, s). swap_in_slot v s) ks (t1, st1))"
    by (rule Cons.IH [OF _ o1]) (use Cons.prems(4) in auto)
  obtain t2 st2 where g: "fold (\<lambda>(v, s). swap_in_slot v s) ks (t1, st1) = (t2, st2)" by fastforce
  have "swap_in_post dies i (set ks \<union> insert k K) t st (t2, st2)"
    using p1 p2 unfolding g swap_in_post_def by auto
  then show ?case using f g k by simp
qed

lemma fold_nested: "fold (\<lambda>v. fold (f v) ys) xs a = fold (\<lambda>(v, s). f v s) (List.product xs ys) a"
proof -
  have "fold (\<lambda>(v, s). f v s) (map (Pair v) ys) a = fold (f v) ys a" for v a
    by (simp add: fold_map comp_def)
  then show ?thesis by (induction xs arbitrary: a) simp_all
qed

lemma bitmap_ids_set: "v \<in> set (bitmap_ids b) \<longleftrightarrow> v < MAX_VNPU_PER_DIE \<and> vnpu_bitmap_test b (int v)"
  by (auto simp: bitmap_ids_def)

lemma check_and_swap_in_spec:
  assumes c: "swap_resolver_check_and_swap_in t mgr phy_id = (ret, t', mgr')"
    and o: "owned (holds (sm_shm_states mgr)) t" and idle: "\<not> swap_resolver_is_swap_pending mgr phy_id"
  shows "owned (holds (sm_shm_states mgr')) t'"
    and "no_leak (holds (sm_shm_states mgr)) t \<Longrightarrow> no_leak (holds (sm_shm_states mgr')) t'"
    and "shm_manager_get_state mgr' phy_id = Some st' \<Longrightarrow> v \<in> set (bitmap_ids (ss_vnpu_bitmap st')) \<Longrightarrow>
      slots_free st' v {..<MAX_PROCESSES_PER_VNPU}"
    and "shm_manager_get_state mgr' phy_id = Some st' \<Longrightarrow>
      \<exists>st. shm_manager_get_state mgr phy_id = Some st \<and> strip st' = strip st"
    and "sm_sched_structs mgr' = sm_sched_structs mgr"
proof -
  have "owned (holds (sm_shm_states mgr')) t'
    \<and> (no_leak (holds (sm_shm_states mgr)) t \<longrightarrow> no_leak (holds (sm_shm_states mgr')) t')
    \<and> (\<forall>st' v. shm_manager_get_state mgr' phy_id = Some st' \<longrightarrow> v \<in> set (bitmap_ids (ss_vnpu_bitmap st')) \<longrightarrow>
        slots_free st' v {..<MAX_PROCESSES_PER_VNPU})
    \<and> (\<forall>st'. shm_manager_get_state mgr' phy_id = Some st' \<longrightarrow>
        (\<exists>st. shm_manager_get_state mgr phy_id = Some st \<and> strip st' = strip st))
    \<and> sm_sched_structs mgr' = sm_sched_structs mgr"
  proof (cases "shm_manager_get_state mgr phy_id")
    case None
    then show ?thesis using c o by (auto simp: swap_resolver_check_and_swap_in_def)
  next
    case (Some st)
    let ?ids = "bitmap_ids (ss_vnpu_bitmap st)"
    have phy: "0 \<le> phy_id" "phy_id < int MAX_NPU_PER_NODE" "sm_shm_states mgr (nat phy_id) = Some st"
      using Some by (auto simp: get_state_Some)
    then have completed: "cm_completed (ss_swap_cmd st)" using idle Some by (simp add: swap_resolver_is_swap_pending_def)
    obtain t1 st1 where f: "fold (\<lambda>(v, s). swap_in_slot v s) (List.product ?ids slots) (t, st) = (t1, st1)" by fastforce
    have eqs: "t' = t1" "mgr' = put_state mgr phy_id st1"
      using c Some completed f by (simp_all add: swap_resolver_check_and_swap_in_def fold_nested)
    have "set (List.product ?ids slots) \<subseteq> {..<MAX_VNPU_PER_DIE} \<times> {..<MAX_PROCESSES_PER_VNPU}"
      by (auto simp: bitmap_ids_set)
    from swap_in_slots_spec [of "sm_shm_states mgr" "nat phy_id", OF phy(3) o _ this, of "{}"]
    have post: "swap_in_post (sm_shm_states mgr) (nat phy_id) (set (List.product ?ids slots)) t st (t1, st1)"
      using f by (simp add: settled_def)
    then have strip: "strip st1 = strip st" by (simp add: swap_in_post_def)
    have free: "slots_free st1 v {..<MAX_PROCESSES_PER_VNPU}" if "v \<in> set (bitmap_ids (ss_vnpu_bitmap st1))" for v
      using post that stripD(1) [OF strip] unfolding swap_in_post_def settled_def slots_free_def
      by (fastforce simp: atLeast0LessThan)
    have "shm_manager_get_state mgr' phy_id = Some st1" using phy eqs by (simp add: get_state_Some)
    then show ?thesis using post strip free eqs Some by (auto simp: swap_in_post_def put_state_def)
  qed
  then show "owned (holds (sm_shm_states mgr')) t'"
    and "no_leak (holds (sm_shm_states mgr)) t \<Longrightarrow> no_leak (holds (sm_shm_states mgr')) t'"
    and "shm_manager_get_state mgr' phy_id = Some st' \<Longrightarrow> v \<in> set (bitmap_ids (ss_vnpu_bitmap st')) \<Longrightarrow>
      slots_free st' v {..<MAX_PROCESSES_PER_VNPU}"
    and "shm_manager_get_state mgr' phy_id = Some st' \<Longrightarrow>
      \<exists>st. shm_manager_get_state mgr phy_id = Some st \<and> strip st' = strip st"
    and "sm_sched_structs mgr' = sm_sched_structs mgr"
    by blast+
qed

section \<open>Candidates\<close>

lemma collect_candidates_map:
  "(\<And>x. x \<in> set xs \<Longrightarrow> f x = Some (g x)) \<Longrightarrow> collect_candidates f xs = Some (map g xs)"
  by (induction xs) auto

lemma newest_index_max:
  assumes "set is \<subseteq> {..<length cs}" "best < length cs"
  shows "newest_index cs is best < length cs
    \<and> (\<forall>i \<in> insert best (set is). cd_last_kernel_time_ns (cs ! i) \<le> cd_last_kernel_time_ns (cs ! newest_index cs is best))"
  using assms
proof (induction "is" arbitrary: best)
  case Nil
  then show ?case by simp
next
  case (Cons i "is")
  let ?b = "if cd_last_kernel_time_ns (cs ! i) > cd_last_kernel_time_ns (cs ! best) then i else best"
  have "?b < length cs" using Cons.prems by auto
  note IH = Cons.IH [OF _ this]
  have "cd_last_kernel_time_ns (cs ! i) \<le> cd_last_kernel_time_ns (cs ! ?b)"
    "cd_last_kernel_time_ns (cs ! best) \<le> cd_last_kernel_time_ns (cs ! ?b)" by auto
  then show ?case using IH Cons.prems(1) by (auto intro: order_trans simp del: if_split)
qed

text \<open>Moving the last entry over the newest one removes exactly that one.\<close>

lemma drop_newest_mset:
  assumes "cs \<noteq> []"
  obtains x where "x \<in> set cs" "\<forall>c \<in> set cs. cd_last_kernel_time_ns c \<le> cd_last_kernel_time_ns x"
    "mset cs = add_mset x (mset (drop_newest cs))"
proof -
  let ?i = "newest_index cs [1..<length cs] 0" and ?n = "length cs - 1"
  have sub: "set [1..<length cs] \<subseteq> {..<length cs}" by auto
  have i: "?i < length cs" and max: "\<forall>j \<in> insert 0 (set [1..<length cs]). cd_last_kernel_time_ns (cs ! j) \<le> cd_last_kernel_time_ns (cs ! ?i)"
    using newest_index_max [OF sub, of 0] assms by auto
  have "cd_last_kernel_time_ns c \<le> cd_last_kernel_time_ns (cs ! ?i)" if c: "c \<in> set cs" for c
  proof -
    obtain j where "j < length cs" "c = cs ! j" using c by (auto simp: in_set_conv_nth)
    then show ?thesis using max by (cases "j = 0") auto
  qed
  moreover have "mset cs = add_mset (cs ! ?i) (mset (drop_newest cs))"
  proof -
    let ?ds = "cs[?i := cs ! ?n]"
    have drop: "drop_newest cs = butlast ?ds"
    proof (cases "length cs > 1")
      case False
      then obtain c where "cs = [c]" using assms by (cases cs) auto
      then show ?thesis by (simp add: drop_newest_def)
    qed (use assms in \<open>simp add: drop_newest_def Let_def\<close>)
    have "?ds \<noteq> []" using assms by simp
    then have "mset ?ds = add_mset (last ?ds) (mset (butlast ?ds))" by (metis append_butlast_last_id mset_append add.commute mset.simps add_mset_add_single)
    moreover have "last ?ds = cs ! ?n" using assms i by (simp add: last_conv_nth nth_list_update)
    moreover have "mset ?ds = add_mset (cs ! ?n) (mset cs - {#cs ! ?i#})" using i by (rule mset_update)
    ultimately have "mset (butlast ?ds) = mset cs - {#cs ! ?i#}" by simp
    then show ?thesis using drop i by (simp add: insert_DiffM)
  qed
  ultimately show ?thesis using that i by (metis nth_mem)
qed

lemma best_candidate_optimal:
  "best_candidate b cs \<in> insert b (set cs) \<and> (\<forall>c \<in> insert b (set cs).
     cd_swap_priority c < cd_swap_priority (best_candidate b cs) \<or>
     cd_swap_priority c = cd_swap_priority (best_candidate b cs) \<and>
       cd_last_kernel_time_ns (best_candidate b cs) \<le> cd_last_kernel_time_ns c)"
proof (induction cs arbitrary: b)
  case Nil
  then show ?case by simp
next
  case (Cons c cs)
  show ?case
  proof (cases "cd_swap_priority c > cd_swap_priority b \<or>
      cd_swap_priority c = cd_swap_priority b \<and> cd_last_kernel_time_ns c < cd_last_kernel_time_ns b")
    case True
    then have "best_candidate b (c # cs) = best_candidate c cs" by auto
    then show ?thesis using Cons [of c] True by fastforce
  next
    case False
    then have "best_candidate b (c # cs) = best_candidate b cs" by auto
    then show ?thesis using Cons [of b] False by fastforce
  qed
qed

section \<open>Properties\<close>

text \<open>When a vNPU may be swapped out: it has memory on the device, not all of its processes are swapped out,
  it is oversubscribed, and, when only borrowed memory is asked back, it uses more than it requested.\<close>

definition swap_eligible :: "shm_state \<Rightarrow> int \<Rightarrow> nat \<Rightarrow> bool" where
  "swap_eligible st to_swap_out v \<longleftrightarrow>
     (let e = ss_entries st v in ve_hbm_used e \<noteq> 0 \<and> \<not> all_swapped e \<and> ve_hbm_request e \<noteq> ve_hbm_limit e \<and>
        (to_swap_out = SWAP_OUT_FROM_BORROWED \<longrightarrow> ve_hbm_request e * 1024 * 1024 < ve_hbm_used e))"

definition kernel_time :: "shm_manager \<Rightarrow> int \<Rightarrow> nat \<Rightarrow> u64" where
  "kernel_time mgr phy_id v =
     (case shm_manager_get_sched_struct mgr phy_id of None \<Rightarrow> 0 | Some sched \<Rightarrow> ts_last_kernel_time_ns sched v)"

lemma swap_candidate_of_spec:
  assumes "shm_manager_get_state mgr phy_id = Some st" "v \<in> set (bitmap_ids (ss_vnpu_bitmap st))" "v < MAX_VNPU_SCHED"
  shows "\<exists>c. swap_candidate_of mgr phy_id st to_swap_out v = Some c \<and> cd_vnpu_id c = int v
    \<and> cd_last_kernel_time_ns c = kernel_time mgr phy_id v \<and> cd_swap_priority c = ve_swap_priority (ss_entries st v)
    \<and> (cd_hbm_used c \<noteq> 0 \<and> \<not> cd_swapped c \<and> cd_swappable c \<longleftrightarrow> swap_eligible st to_swap_out v)"
proof -
  have phy: "0 \<le> phy_id" using assms(1) by (simp add: get_state_Some)
  have t: "\<exists>r. npu_allocator_get_last_kernel_time_ns mgr phy_id (int v) = Some r
      \<and> (case snd r of None \<Rightarrow> 0 | Some ns \<Rightarrow> ns) = kernel_time mgr phy_id v"
    using assms(3) by (auto simp: npu_allocator_get_last_kernel_time_ns_def kernel_time_def split: option.split)
  have sw: "snd (shm_manager_get_vnpu_all_swapped mgr phy_id (int v)) = Some (all_swapped (ss_entries st v))"
    using assms(1,2) phy by (simp add: shm_manager_get_vnpu_all_swapped_def find_entry_def bitmap_ids_set)
  from t obtain r0 kt where r: "npu_allocator_get_last_kernel_time_ns mgr phy_id (int v) = Some (r0, kt)"
    "(case kt of None \<Rightarrow> 0 | Some ns \<Rightarrow> ns) = kernel_time mgr phy_id v" by auto
  show ?thesis
    by (auto simp: swap_candidate_of_def r sw Let_def swap_eligible_def not_le)
qed

text \<open>The resolver offers exactly the eligible vNPUs of the die, except one whose last kernel is the
  most recent of all.\<close>

lemma idle_models_exact:
  assumes st: "shm_manager_get_state mgr phy_id = Some st"
    and ids: "\<forall>v \<in> set (bitmap_ids (ss_vnpu_bitmap st)). v < MAX_VNPU_SCHED" "bitmap_ids (ss_vnpu_bitmap st) \<noteq> []"
    and name: "length (ss_shm_id st) < DIE_ID_LEN"
  shows "\<exists>cs w. swap_resolver_get_idle_models mgr phy_id (int MAX_VNPU_SCHED) to_swap_out = Some (ENPU_SUCCESS, cs)
    \<and> w \<in> set (bitmap_ids (ss_vnpu_bitmap st))
    \<and> (\<forall>v \<in> set (bitmap_ids (ss_vnpu_bitmap st)). kernel_time mgr phy_id v \<le> kernel_time mgr phy_id w)
    \<and> distinct (map cd_vnpu_id cs)
    \<and> cd_vnpu_id ` set cs = int ` {v \<in> set (bitmap_ids (ss_vnpu_bitmap st)). v \<noteq> w \<and> swap_eligible st to_swap_out v}"
proof -
  let ?ids = "bitmap_ids (ss_vnpu_bitmap st)" and ?f = "swap_candidate_of mgr phy_id st to_swap_out"
  define g where "g v = the (?f v)" for v
  have phy: "\<not> phy_id < 0" using st by (simp add: get_state_Some)
  have dist: "distinct ?ids" by (simp add: bitmap_ids_def)
  have "set ?ids \<subseteq> {..<MAX_VNPU_SCHED}" using ids(1) by auto
  then have "length ?ids \<le> MAX_VNPU_SCHED" using card_mono [of "{..<MAX_VNPU_SCHED}" "set ?ids"] distinct_card [OF dist] by simp
  then have take: "take (nat (int MAX_VNPU_SCHED)) ?ids = ?ids" by simp
  have g: "?f v = Some (g v)" "cd_vnpu_id (g v) = int v" "cd_last_kernel_time_ns (g v) = kernel_time mgr phy_id v"
    "cd_hbm_used (g v) \<noteq> 0 \<and> \<not> cd_swapped (g v) \<and> cd_swappable (g v) \<longleftrightarrow> swap_eligible st to_swap_out v"
    if "v \<in> set ?ids" for v
    using swap_candidate_of_spec [OF st that, of to_swap_out] ids(1) that by (auto simp: g_def)
  have cs: "collect_candidates ?f ?ids = Some (map g ?ids)" by (rule collect_candidates_map) (rule g(1))
  have "map g ?ids \<noteq> []" using ids(2) by simp
  then obtain x where x: "x \<in> set (map g ?ids)" "\<forall>c \<in> set (map g ?ids). cd_last_kernel_time_ns c \<le> cd_last_kernel_time_ns x"
    "mset (map g ?ids) = add_mset x (mset (drop_newest (map g ?ids)))" by (rule drop_newest_mset)
  then obtain w where w: "w \<in> set ?ids" "x = g w" by auto
  have "mset (map g ?ids) = add_mset x (mset (map g (remove1 w ?ids)))" using w by (simp add: image_mset_Diff)
  then have rest: "mset (drop_newest (map g ?ids)) = mset (map g (remove1 w ?ids))" using x(3) by simp
  let ?cs = "filter (\<lambda>c. cd_hbm_used c \<noteq> 0 \<and> \<not> cd_swapped c \<and> cd_swappable c) (drop_newest (map g ?ids))"
  have "swap_resolver_get_idle_models mgr phy_id (int MAX_VNPU_SCHED) to_swap_out = Some (ENPU_SUCCESS, ?cs)"
    using st phy name cs take by (simp add: swap_resolver_get_idle_models_def Let_def)
  moreover have "\<forall>v \<in> set ?ids. kernel_time mgr phy_id v \<le> kernel_time mgr phy_id w"
    using x(2) g(3) w by auto
  moreover have "distinct (map cd_vnpu_id ?cs)"
  proof -
    have "map (cd_vnpu_id \<circ> g) (remove1 w ?ids) = map int (remove1 w ?ids)"
      using g(2) dist by (auto simp: set_remove1_eq)
    moreover have "distinct (map int (remove1 w ?ids))" using dist by (simp add: distinct_map inj_on_def)
    ultimately have "distinct (map cd_vnpu_id (map g (remove1 w ?ids)))" by (simp only: map_map)
    then have "distinct (map cd_vnpu_id (drop_newest (map g ?ids)))"
      using rest by (metis mset_eq_imp_distinct_iff mset_map)
    then show ?thesis by (rule distinct_map_filter)
  qed
  moreover have "cd_vnpu_id ` set ?cs = int ` {v \<in> set ?ids. v \<noteq> w \<and> swap_eligible st to_swap_out v}"
  proof -
    have "set (drop_newest (map g ?ids)) = g ` (set ?ids - {w})"
      using rest dist by (metis mset_eq_setD set_map set_remove1_eq)
    then have "set ?cs = g ` {v \<in> set ?ids. v \<noteq> w \<and> swap_eligible st to_swap_out v}" using g(4) by auto
    moreover have "cd_vnpu_id (g v) = int v" if "v \<in> {v \<in> set ?ids. v \<noteq> w \<and> swap_eligible st to_swap_out v}" for v
      using g(2) that by blast
    ultimately show ?thesis by (simp add: image_image)
  qed
  ultimately show ?thesis using w(1) by blast
qed

lemma drop_newest_Nil [simp]: "drop_newest [] = []"
  by (simp add: drop_newest_def)

lemma drop_newest_subset: "set (drop_newest cs) \<subseteq> set cs"
proof (cases "cs = []")
  case False
  then obtain x where "mset cs = add_mset x (mset (drop_newest cs))" by (rule drop_newest_mset)
  then have "set cs = insert x (set (drop_newest cs))" by (metis set_mset_add_mset_insert set_mset_mset)
  then show ?thesis by blast
qed (simp add: drop_newest_def)

lemma idle_models_in_bitmap:
  assumes st: "shm_manager_get_state mgr phy_id = Some st"
    and ids: "\<forall>v \<in> set (bitmap_ids (ss_vnpu_bitmap st)). v < MAX_VNPU_SCHED"
  obtains r cs where "swap_resolver_get_idle_models mgr phy_id max_count to_swap_out = Some (r, cs)"
    "\<forall>c \<in> set cs. cd_vnpu_id c \<in> int ` set (bitmap_ids (ss_vnpu_bitmap st))"
proof -
  let ?ids = "bitmap_ids (ss_vnpu_bitmap st)" and ?f = "swap_candidate_of mgr phy_id st to_swap_out"
  define g where "g v = the (?f v)" for v
  have g: "?f v = Some (g v)" "cd_vnpu_id (g v) = int v" if "v \<in> set ?ids" for v
    using swap_candidate_of_spec [OF st that, of to_swap_out] ids that by (auto simp: g_def)
  have c: "collect_candidates ?f (take m (take n ?ids)) = Some (map g (take m (take n ?ids)))"
    "collect_candidates ?f (take n ?ids) = Some (map g (take n ?ids))" for m n
    by (rule collect_candidates_map, use g(1) in \<open>auto dest: in_set_takeD\<close>)+
  have "cd_vnpu_id c \<in> int ` set ?ids" if c: "c \<in> set (drop_newest (map g (take n ?ids)))" for c n
    using subsetD [OF drop_newest_subset c] g(2) by (auto dest: in_set_takeD)
  then have "\<exists>r cs. swap_resolver_get_idle_models mgr phy_id max_count to_swap_out = Some (r, cs)
      \<and> (\<forall>c \<in> set cs. cd_vnpu_id c \<in> int ` set ?ids)"
    using st c by (auto simp: swap_resolver_get_idle_models_def Let_def)
  then show ?thesis using that by blast
qed

lemma write_swap_command_defined:
  assumes "vnpu_id < int MAX_VNPU_PER_DIE"
  obtains r t' mgr' where
    "swap_resolver_write_swap_command now_s es t mgr phy_id pod_uid vnpu_id action to_swap_out = Some (r, t', mgr')"
proof -
  have "\<exists>x. swap_resolver_write_swap_command now_s es t mgr phy_id pod_uid vnpu_id action to_swap_out = Some x"
    using assms by (auto simp: swap_resolver_write_swap_command_def Let_def split: option.split prod.split)
  then show ?thesis using that by auto
qed

lemma swap_out_round_spec:
  assumes o: "owned (holds (sm_shm_states mgr)) t" and nl: "no_leak (holds (sm_shm_states mgr)) t"
    and st: "shm_manager_get_state mgr phy_id = Some st"
    and ids: "\<forall>v \<in> set (bitmap_ids (ss_vnpu_bitmap st)). v < MAX_VNPU_SCHED \<and> slots_free st v {..<MAX_PROCESSES_PER_VNPU}"
  shows "\<exists>t' mgr'. swap_out_round now_s es t mgr phy_id to_swap_out = Some (t', mgr')
    \<and> owned (holds (sm_shm_states mgr')) t' \<and> no_leak (holds (sm_shm_states mgr')) t'"
proof -
  obtain r cs where cs: "swap_resolver_get_idle_models mgr phy_id (int MAX_VNPU_SCHED) to_swap_out = Some (r, cs)"
    "\<forall>c \<in> set cs. cd_vnpu_id c \<in> int ` set (bitmap_ids (ss_vnpu_bitmap st))"
    by (rule idle_models_in_bitmap [OF st]) (use ids in auto)
  show ?thesis
  proof (cases "r \<noteq> ENPU_SUCCESS \<or> cs = []")
    case True
    then show ?thesis using cs(1) o nl by (auto simp: swap_out_round_def)
  next
    case False
    then obtain c cs' where c: "cs = c # cs'" by (cases cs) auto
    let ?b = "best_candidate c cs'"
    have "?b \<in> set cs" using best_candidate_optimal [of c cs'] c by simp
    then obtain v where v: "cd_vnpu_id ?b = int v" "v \<in> set (bitmap_ids (ss_vnpu_bitmap st))" using cs(2) by blast
    then have "cd_vnpu_id ?b < int MAX_VNPU_PER_DIE" by (simp add: bitmap_ids_set)
    then obtain r' t' mgr' where w: "swap_resolver_write_swap_command now_s es t mgr phy_id ''pod-idle'' (cd_vnpu_id ?b)
        SWAP_ACTION_OUT to_swap_out = Some (r', t', mgr')" by (rule write_swap_command_defined)
    have "\<forall>st. shm_manager_get_state mgr phy_id = Some st \<longrightarrow> slots_free st (nat (cd_vnpu_id ?b)) {..<MAX_PROCESSES_PER_VNPU}"
      using st ids v by simp
    note spec = write_swap_command_spec [OF w o this]
    have "swap_out_round now_s es t mgr phy_id to_swap_out = Some (t', mgr')"
      using cs(1) False c w by (simp add: swap_out_round_def swap_resolver_select_candidate_from_list_def)
    then show ?thesis using spec(1) spec(2) [OF nl] by blast
  qed
qed

text \<open>C23 A round of the resolver thread is defined and keeps the swap buffer consistent: every range a process
  records is allocated to it alone, and every allocated range is recorded by a process.\<close>

theorem resolver_round_keeps_ranges:
  assumes o: "owned (holds (sm_shm_states mgr)) t" and nl: "no_leak (holds (sm_shm_states mgr)) t"
    and ids: "\<forall>st. shm_manager_get_state mgr phy_id = Some st \<longrightarrow>
      (\<forall>v \<in> set (bitmap_ids (ss_vnpu_bitmap st)). v < MAX_VNPU_SCHED)"
  shows "\<exists>rs' t' mgr'. swap_resolver_thread_round now_s es rs t mgr phy_id = Some (rs', t', mgr')
    \<and> owned (holds (sm_shm_states mgr')) t' \<and> no_leak (holds (sm_shm_states mgr')) t'"
proof (cases "swap_resolver_is_swap_pending mgr phy_id")
  case True
  then show ?thesis using o nl by (simp add: swap_resolver_thread_round_def)
next
  case idle: False
  obtain r1 t1 mgr1 where i: "swap_resolver_check_and_swap_in t mgr phy_id = (r1, t1, mgr1)" by (metis prod_cases3)
  obtain level rs1 where w: "swap_resolver_check_watermark rs mgr1 phy_id = (level, rs1)" by fastforce
  obtain r2 flag mgr2 where f: "swap_resolver_check_enpu_swap_out mgr1 phy_id SWAP_OUT_NONE = (r2, flag, mgr2)" by (metis prod_cases3)
  note spec = check_and_swap_in_spec [OF i o idle]
  note nl1 = spec(2) [OF nl]
  show ?thesis
  proof (cases "shm_manager_get_state mgr1 phy_id")
    case None
    then have "mgr2 = mgr1" "flag = SWAP_OUT_NONE" "level = WATERMARK_NORMAL"
      using f w by (simp_all add: swap_resolver_check_enpu_swap_out_def swap_resolver_check_watermark_def split: if_splits)
    then show ?thesis using idle i w f spec(1) nl1 by (simp add: swap_resolver_thread_round_def)
  next
    case (Some st1)
    obtain st where st: "shm_manager_get_state mgr phy_id = Some st" "strip st1 = strip st" using spec(4) [OF Some] by blast
    let ?st2 = "st1\<lparr>ss_swap_out_cmd := (ss_swap_out_cmd st1)\<lparr>so_action := SWAP_OUT_NONE\<rparr>\<rparr>"
    have dies1: "(sm_shm_states mgr1)(nat phy_id \<mapsto> st1) = sm_shm_states mgr1" and phy: "0 \<le> phy_id" "phy_id < int MAX_NPU_PER_NODE"
      using Some by (auto simp: get_state_Some)
    have "holds ((sm_shm_states mgr1)(nat phy_id \<mapsto> ?st2)) = holds ((sm_shm_states mgr1)(nat phy_id \<mapsto> st1))"
      by (rule holds_cong) simp_all
    moreover have "mgr2 = mgr1 \<and> st2 = st1 \<or> mgr2 = put_state mgr1 phy_id ?st2 \<and> st2 = ?st2"
      if "shm_manager_get_state mgr2 phy_id = Some st2" for st2
      using f Some that phy by (auto simp: swap_resolver_check_enpu_swap_out_def Let_def get_put_state split: if_splits)
    moreover obtain st2 where st2: "shm_manager_get_state mgr2 phy_id = Some st2"
      using f Some phy by (auto simp: swap_resolver_check_enpu_swap_out_def Let_def get_put_state split: if_splits)
    ultimately have same: "holds (sm_shm_states mgr2) = holds (sm_shm_states mgr1)" "ss_entries st2 = ss_entries st1"
      "ss_vnpu_bitmap st2 = ss_vnpu_bitmap st1" using dies1 by auto
    have ids2: "\<forall>v \<in> set (bitmap_ids (ss_vnpu_bitmap st2)). v < MAX_VNPU_SCHED \<and> slots_free st2 v {..<MAX_PROCESSES_PER_VNPU}"
      using spec(3) [OF Some] ids st same(2,3) stripD(1) [OF st(2)] by (simp add: slots_free_def)
    have "\<exists>t3 mgr3. swap_out_round now_s es t1 mgr2 phy_id flag = Some (t3, mgr3)
        \<and> owned (holds (sm_shm_states mgr3)) t3 \<and> no_leak (holds (sm_shm_states mgr3)) t3"
      using spec(1) nl1 by (intro swap_out_round_spec [OF _ _ st2 ids2]) (simp_all add: same)
    then show ?thesis using idle i w f spec(1) nl1 same by (auto simp: swap_resolver_thread_round_def)
  qed
qed


lemma alloc_larger_than_pool:
  assumes "tlsf_inv t" "tlsf_request n" "unat (tl_shm_total_size t) < unat n"
  shows "fst (tlsf_alloc (fst e) (snd e) t n) = TLSF_FAIL"
proof (rule ccontr)
  let ?r = "tlsf_alloc (fst e) (snd e) t n"
  assume "fst ?r \<noteq> TLSF_FAIL"
  then obtain len where len: "unat n \<le> len" "(unat (fst ?r), len) \<in> tlsf_ranges (snd ?r)"
    using tlsf.alloc_gives [OF assms(1,2), of e] by auto
  have "unat (fst ?r) + len \<le> unat (tl_shm_total_size t)"
    using tlsf.ranges_in_pool [OF tlsf.inv_alloc [OF assms(1,2)] len(2)] tlsf.pool_alloc [OF assms(1,2), of e] by simp
  then show False using len(1) assms(3) by simp
qed

definition demo_swap_die :: shm_state where
  "demo_swap_die = (upd_entry (upd_process demo_die 1 0 (\<lambda>pe. pe\<lparr>pr_active := True, pr_hbm_used := 5000\<rparr>)) 1
     (\<lambda>e. e\<lparr>ve_hbm_used := 5000, ve_hbm_request := 1, ve_hbm_limit := 2\<rparr>))
     \<lparr>ss_vnpu_bitmap := (3, 0), ss_hbm_total := 8192,
      ss_swap_cmd := (ss_swap_cmd demo_die)\<lparr>cm_completed := True\<rparr>\<rparr>"

definition demo_resolver_mgr :: shm_manager where
  "demo_resolver_mgr = \<lparr>sm_shm_states = [0 \<mapsto> demo_swap_die], sm_sched_structs = (\<lambda>_. None), sm_shm_state_count = 1,
     sm_initialized = True\<rparr>"

definition demo_pool :: tlsf_manager where
  "demo_pool = snd (tlsf_pool_init True demo_block demo_tlsf 0 1024)"

lemma demo_sizes: "pr_swap_size (ve_processes (ss_entries demo_swap_die v) s) = 0"
  by (simp add: demo_swap_die_def demo_die_def upd_process_def upd_entry_def shm_state_posix_shm_create_def
      entry_init_def process_init_def dec_int_def dec_nat.simps)

lemma demo_resolver_facts:
  "shm_manager_get_state demo_resolver_mgr 0 = Some demo_swap_die" "bitmap_ids (ss_vnpu_bitmap demo_swap_die) = [0, 1]"
  "length (ss_shm_id demo_swap_die) = 3"
  "holds (sm_shm_states demo_resolver_mgr) = Map.empty" "tlsf_inv demo_pool" "tlsf_ranges demo_pool = {}"
proof -
  show "shm_manager_get_state demo_resolver_mgr 0 = Some demo_swap_die" by (simp add: shm_manager_get_state_def demo_resolver_mgr_def)
  show "bitmap_ids (ss_vnpu_bitmap demo_swap_die) = [0, 1]" by code_simp
  show "length (ss_shm_id demo_swap_die) = 3" by code_simp
  show "holds (sm_shm_states demo_resolver_mgr) = Map.empty" by (auto simp: holds_def demo_resolver_mgr_def demo_sizes fun_eq_iff)
  show "tlsf_inv demo_pool" "tlsf_ranges demo_pool = {}"
    unfolding demo_pool_def by (rule pool_init_inv; simp add: demo_tlsf_def)+
qed

lemma demo_pool_size: "tl_shm_total_size demo_pool = 1024"
  unfolding demo_pool_def by (rule pool_init_inv(4)) (simp_all add: demo_tlsf_def)

lemma demo_owned: "owned (holds (sm_shm_states demo_resolver_mgr)) demo_pool" "no_leak (holds (sm_shm_states demo_resolver_mgr)) demo_pool"
  using demo_resolver_facts(4-6) by (simp_all add: owned_def no_leak_def)

theorem idle_models_exact_witness:
  "\<exists>cs w. swap_resolver_get_idle_models demo_resolver_mgr 0 (int MAX_VNPU_SCHED) SWAP_OUT_NONE = Some (ENPU_SUCCESS, cs)
     \<and> w \<in> {0, 1} \<and> cd_vnpu_id ` set cs = int ` {v \<in> {0, 1}. v \<noteq> w \<and> swap_eligible demo_swap_die SWAP_OUT_NONE v}"
proof -
  have "\<forall>v \<in> set (bitmap_ids (ss_vnpu_bitmap demo_swap_die)). v < MAX_VNPU_SCHED" "bitmap_ids (ss_vnpu_bitmap demo_swap_die) \<noteq> []"
    "length (ss_shm_id demo_swap_die) < DIE_ID_LEN" by (simp_all add: demo_resolver_facts)
  note exact = idle_models_exact [OF demo_resolver_facts(1) this, of SWAP_OUT_NONE]
  have ids: "set (bitmap_ids (ss_vnpu_bitmap demo_swap_die)) = {0, 1}" by (simp add: demo_resolver_facts)
  show ?thesis using exact unfolding ids by blast
qed

theorem resolver_round_keeps_ranges_witness:
  "\<exists>rs' t' mgr'. swap_resolver_thread_round 0 (\<lambda>_. (True, demo_block)) (the (swap_resolver_create True (1 / 2) 0))
       demo_pool demo_resolver_mgr 0 = Some (rs', t', mgr')
     \<and> owned (holds (sm_shm_states mgr')) t' \<and> no_leak (holds (sm_shm_states mgr')) t'"
  by (rule resolver_round_keeps_ranges [OF demo_owned]) (simp add: demo_resolver_facts)

definition demo_pair_die :: shm_state where
  "demo_pair_die = (upd_process (upd_process demo_die 1 0 (\<lambda>pe. pe\<lparr>pr_active := True, pr_hbm_used := 4096\<rparr>))
      1 1 (\<lambda>pe. pe\<lparr>pr_active := True, pr_hbm_used := 9000\<rparr>))
     \<lparr>ss_vnpu_bitmap := (3, 0), ss_swap_cmd := (ss_swap_cmd demo_die)\<lparr>cm_completed := True\<rparr>\<rparr>"

definition demo_pair_mgr :: shm_manager where
  "demo_pair_mgr = demo_resolver_mgr\<lparr>sm_shm_states := [0 \<mapsto> demo_pair_die]\<rparr>"

definition demo_pool_8k :: tlsf_manager where
  "demo_pool_8k = snd (tlsf_pool_init True demo_block demo_tlsf 0 8192)"

lemma demo_pool_8k_ok: "tlsf_inv demo_pool_8k" "tlsf_ranges demo_pool_8k = {}" "tl_shm_total_size demo_pool_8k = 8192"
  unfolding demo_pool_8k_def by (rule pool_init_inv; simp add: demo_tlsf_def)+

lemma demo_pool_8k_serves: "fst (tlsf_alloc True demo_block demo_pool_8k 4096) \<noteq> TLSF_FAIL"
proof -
  have "tlsf_request 4096" by (simp add: tlsf_request_def)
  note iff = alloc_fails_iff [OF demo_pool_8k_ok(1) this, of True demo_block]
  have "tlsf_ok demo_pool_8k" "tl_used_list demo_pool_8k = []" using demo_pool_8k_ok(1,2) by (simp_all add: tlsf_inv_def tlsf_ranges_def)
  note p = unallocated_pool(2) [OF this, unfolded demo_pool_8k_ok(3)]
  have sz: "unat ((8192 :: u64) AND NOT 1) = 8192" "unat (tlsf_round 4096) = 4096" by (simp_all add: tlsf_round_def)
  show ?thesis unfolding iff using p unfolding sz by auto
qed


end
