(* ===== verification/Pod_Watchdog.thy ===== *)
theory Pod_Watchdog
  imports Swap_Resolver
begin

text \<open>
  The watchdog of the manager (\<^verbatim>\<open>core/src/pod_watchdog.c\<close>): it reclaims what dead processes and vNPUs leave
  behind, acknowledges swap-out commands in their place and completes a command nobody owes an acknowledgement
  for. \<open>now_ns\<close> is the value of the monotonic clock at the start of the poll. The lemmas show that reaping keeps
  the swap buffer consistent and reclaims orphaned ranges, that a command cannot hang on dead processes, and
  when the handling of a vNPU that timed out loses ranges.
\<close>

abbreviation (input) POD_ALIVE_TIMEOUT_NS :: u64 where "POD_ALIVE_TIMEOUT_NS \<equiv> 5000000000"

abbreviation slot_at :: "shm_state \<Rightarrow> nat \<Rightarrow> nat \<Rightarrow> process_entry" where
  "slot_at st v s \<equiv> ve_processes (ss_entries st v) s"

section \<open>Operations\<close>

definition pod_watchdog_cleanup_swap_data :: "tlsf_manager \<Rightarrow> shm_manager \<Rightarrow> int \<Rightarrow> int \<Rightarrow> int \<times> tlsf_manager \<times> shm_manager" where
  "pod_watchdog_cleanup_swap_data t mgr phy_id vnpu_id =
     (case shm_manager_get_swap_state mgr phy_id vnpu_id of
        (ret, None) \<Rightarrow> (ret, t, mgr)
      | (ret, Some (swapped, offset, sz)) \<Rightarrow>
        if \<not> swapped then (ENPU_SUCCESS, t, mgr)
        else let (t1, mgr1) = (case shm_manager_get_state mgr phy_id of
                   None \<Rightarrow> (t, mgr)
                 | Some st \<Rightarrow> (case shm_free t st vnpu_id of (_, t', st') \<Rightarrow> (t', put_state mgr phy_id st')))
             in (case shm_manager_set_swap_state mgr1 phy_id vnpu_id 0 0 of (ret, mgr2) \<Rightarrow> (ret, t1, mgr2)))"

definition reset_process :: "process_entry \<Rightarrow> process_entry" where
  "reset_process pe = pe\<lparr>pr_swapped := False, pr_active := False, pr_hbm_used := 0, pr_last_heartbeat_ns := 0,
     pr_swap_offset := 0, pr_swap_size := 0, pr_ack_pending_seq := 0\<rparr>"

definition reset_runtime_state :: "shm_state \<Rightarrow> nat \<Rightarrow> shm_state" where
  "reset_runtime_state st v = upd_entry st (int v) (\<lambda>e. e\<lparr>ve_hbm_used := 0,
     ve_processes := (\<lambda>s. if s < MAX_PROCESSES_PER_VNPU then reset_process (ve_processes e s) else ve_processes e s)\<rparr>)"

text \<open>One slot of \<^verbatim>\<open>reap_dead_processes\<close>. The call of \<^verbatim>\<open>shm_manager_proxy_ack_process\<close> has arguments in range
  and works on the same state.\<close>

definition proxy_if_marked :: "nat \<Rightarrow> nat \<Rightarrow> shm_state \<Rightarrow> shm_state" where
  "proxy_if_marked v s st =
     (if pr_ack_pending_seq (slot_at st v s) \<noteq> 0 then proxy_ack_locked st (int v) s else st)"

definition free_if_held :: "nat \<Rightarrow> nat \<Rightarrow> tlsf_manager \<times> shm_state \<Rightarrow> tlsf_manager \<times> shm_state" where
  "free_if_held v s = (\<lambda>(t, st).
     if pr_swap_size (slot_at st v s) > 0 then snd (shm_free_per_process t st (int v) (int s)) else (t, st))"

definition return_hbm :: "nat \<Rightarrow> nat \<Rightarrow> shm_state \<Rightarrow> shm_state" where
  "return_hbm v s st =
     (let leaked = pr_hbm_used (slot_at st v s) in
      if leaked > 0
      then upd_process (upd_entry st (int v) (\<lambda>e. e\<lparr>ve_hbm_used := ve_hbm_used e - leaked\<rparr>)) (int v) s (\<lambda>pe. pe\<lparr>pr_hbm_used := 0\<rparr>)
      else st)"

definition reap_slot :: "u64 \<Rightarrow> u64 \<Rightarrow> nat \<Rightarrow> nat \<Rightarrow> tlsf_manager \<times> shm_state \<Rightarrow> tlsf_manager \<times> shm_state" where
  "reap_slot now_ns timeout_ns v s = (\<lambda>(t, st).
     let pe = slot_at st v s; hb = pr_last_heartbeat_ns pe in
     if \<not> pr_active pe then free_if_held v s (t, proxy_if_marked v s st)
     else if hb = 0 then (t, st)
     else if hb > now_ns then (t, upd_process st (int v) s (\<lambda>pe. pe\<lparr>pr_last_heartbeat_ns := 0\<rparr>))
     else if now_ns - hb \<le> timeout_ns then (t, st)
     else case free_if_held v s (t, return_hbm v s (proxy_if_marked v s st)) of
       (t', st') \<Rightarrow> (t', upd_process st' (int v) s (\<lambda>pe. pe\<lparr>pr_swapped := False, pr_active := False\<rparr>)))"

definition reap_dead_processes :: "u64 \<Rightarrow> u64 \<Rightarrow> tlsf_manager \<times> shm_state \<Rightarrow> tlsf_manager \<times> shm_state" where
  "reap_dead_processes now_ns timeout_ns = fold (\<lambda>v. fold (reap_slot now_ns timeout_ns v) slots) [0..<MAX_VNPU_PER_DIE]"

text \<open>One vNPU of the poll. The array of the last signs of life has 100 entries.\<close>

definition set_last_alive :: "shm_manager \<Rightarrow> nat \<Rightarrow> vnpu_time_slice_sched \<Rightarrow> nat \<Rightarrow> u64 \<Rightarrow> shm_manager" where
  "set_last_alive mgr i sched v ns = mgr\<lparr>sm_sched_structs := (sm_sched_structs mgr)
     (i \<mapsto> sched\<lparr>ts_last_alive_time_ns := (ts_last_alive_time_ns sched)(v := ns)\<rparr>)\<rparr>"

definition poll_vnpu :: "u64 \<Rightarrow> nat \<Rightarrow> nat \<Rightarrow> tlsf_manager \<times> shm_manager \<Rightarrow> (tlsf_manager \<times> shm_manager) option" where
  "poll_vnpu now_ns i v = (\<lambda>(t, mgr).
     case sm_sched_structs mgr i of
       None \<Rightarrow> Some (t, mgr)
     | Some sched \<Rightarrow>
       if v \<ge> MAX_VNPU_SCHED then None
       else let last_alive = ts_last_alive_time_ns sched v in
         if last_alive = 0 then Some (t, mgr)
         else if last_alive > now_ns then Some (t, set_last_alive mgr i sched v 0)
         else if now_ns - last_alive \<le> POD_ALIVE_TIMEOUT_NS then Some (t, mgr)
         else let was_swapped = (case snd (shm_manager_get_vnpu_all_swapped mgr (int i) (int v)) of None \<Rightarrow> False | Some b \<Rightarrow> b);
                  (t1, mgr1) = (if was_swapped then snd (pod_watchdog_cleanup_swap_data t mgr (int i) (int v)) else (t, mgr))
              in case sm_shm_states mgr1 i of
                   None \<Rightarrow> Some (t1, mgr1)
                 | Some st1 \<Rightarrow>
                   let st2 = reset_runtime_state (fold (proxy_if_marked v) slots st1) v
                   in Some (t1, set_last_alive (put_state mgr1 (int i) st2) i sched v 0))"

fun poll_vnpus :: "u64 \<Rightarrow> nat \<Rightarrow> nat list \<Rightarrow> tlsf_manager \<times> shm_manager \<Rightarrow> (tlsf_manager \<times> shm_manager) option" where
  "poll_vnpus now_ns i [] c = Some c"
| "poll_vnpus now_ns i (v # vs) c = do { c' \<leftarrow> poll_vnpu now_ns i v c; poll_vnpus now_ns i vs c' }"

definition poll_die :: "u64 \<Rightarrow> nat \<Rightarrow> tlsf_manager \<times> shm_manager \<Rightarrow> (tlsf_manager \<times> shm_manager) option" where
  "poll_die now_ns i = (\<lambda>(t, mgr).
     case sm_shm_states mgr i of
       None \<Rightarrow> Some (t, mgr)
     | Some st \<Rightarrow>
       (case shm_manager_get_sched_struct mgr (int i) of
          None \<Rightarrow> Some (t, mgr)
        | Some sched \<Rightarrow> do {
            (t1, mgr1) \<leftarrow> poll_vnpus now_ns i (bitmap_ids (ss_vnpu_bitmap st)) (t, mgr);
            case sm_shm_states mgr1 i of
              None \<Rightarrow> Some (t1, mgr1)
            | Some st1 \<Rightarrow>
              (case reap_dead_processes now_ns PROCESS_ALIVE_TIMEOUT_NS (t1, st1) of
                 (t2, st2) \<Rightarrow> Some (t2, snd (shm_manager_try_complete_swap_cmd (put_state mgr1 (int i) st2) (int i))))
          }))"

fun poll_dies :: "u64 \<Rightarrow> nat list \<Rightarrow> tlsf_manager \<times> shm_manager \<Rightarrow> (tlsf_manager \<times> shm_manager) option" where
  "poll_dies now_ns [] c = Some c"
| "poll_dies now_ns (i # is) c = do { c' \<leftarrow> poll_die now_ns i c; poll_dies now_ns is c' }"

definition pod_watchdog_poll_and_cleanup :: "u64 \<Rightarrow> tlsf_manager \<times> shm_manager \<Rightarrow> (tlsf_manager \<times> shm_manager) option" where
  "pod_watchdog_poll_and_cleanup now_ns = poll_dies now_ns [0..<MAX_NPU_PER_NODE]"

section \<open>Slots that change and slots that do not\<close>

lemma proxy_processes:
  "slot_at (proxy_ack_locked st (int v) s) w s' =
     (if w = v \<and> s' = s \<and> cm_action (ss_swap_cmd st) = SWAP_ACTION_OUT \<and> cm_cmd_seq (ss_swap_cmd st) \<noteq> 0
      then (slot_at st w s')\<lparr>pr_ack_pending_seq := 0\<rparr> else slot_at st w s')"
  by (simp add: proxy_ack_locked_def Let_def swap_cmd_mark_completed_locked_def upd_process_def upd_entry_def)

lemma proxy_frame:
  "ss_vnpu_bitmap (proxy_ack_locked st (int v) s) = ss_vnpu_bitmap st"
  "cm_completed (ss_swap_cmd st) \<Longrightarrow> cm_completed (ss_swap_cmd (proxy_ack_locked st (int v) s))"
  by (simp_all add: proxy_ack_locked_def Let_def swap_cmd_mark_completed_locked_def)

lemma proxy_holds: "holds (dies(i \<mapsto> proxy_ack_locked st (int v) s)) = holds (dies(i \<mapsto> st))"
  by (rule holds_cong) (use proxy_processes [of st v s] in \<open>simp_all split: if_splits\<close>)

lemma proxy_if_marked_holds: "holds (dies(i \<mapsto> proxy_if_marked v s st)) = holds (dies(i \<mapsto> st))"
  by (simp add: proxy_if_marked_def proxy_holds)

lemma return_hbm_holds: "holds (dies(i \<mapsto> return_hbm v s st)) = holds (dies(i \<mapsto> st))"
  by (rule holds_cong) (simp_all add: return_hbm_def Let_def upd_process_def upd_entry_def)

lemma upd_process_at:
  "slot_at (upd_process st (int v) s f) w s' =
     (if w = v \<and> s' = s then f (slot_at st w s') else slot_at st w s')"
  by (simp add: upd_process_def upd_entry_def)

lemma return_hbm_at:
  "slot_at (return_hbm v s st) w s' =
     (if w = v \<and> s' = s then (slot_at st w s')\<lparr>pr_hbm_used := 0\<rparr> else slot_at st w s')"
proof -
  have "pe\<lparr>pr_hbm_used := 0\<rparr> = pe" if "pr_hbm_used pe = 0" for pe :: process_entry using that by (cases pe) simp
  then show ?thesis by (auto simp: return_hbm_def Let_def upd_process_def upd_entry_def word_gt_0)
qed

lemma proxy_if_marked_at: "(w, s') \<noteq> (v, s) \<Longrightarrow> slot_at (proxy_if_marked v s st) w s' = slot_at st w s'"
  by (auto simp: proxy_if_marked_def proxy_processes)

lemma proxy_if_marked_same:
  "pr_active (slot_at (proxy_if_marked v s st) w s') = pr_active (slot_at st w s')"
  "pr_last_heartbeat_ns (slot_at (proxy_if_marked v s st) w s') = pr_last_heartbeat_ns (slot_at st w s')"
  by (auto simp: proxy_if_marked_def proxy_processes)

lemma free_if_held_spec:
  assumes die: "dies i = Some st" and o: "owned (holds dies) t" and v: "v < MAX_VNPU_PER_DIE" "s < MAX_PROCESSES_PER_VNPU"
    and f: "free_if_held v s (t, st) = (t', st')"
  shows "owned (holds (dies(i \<mapsto> st'))) t'" "no_leak (holds dies) t \<Longrightarrow> no_leak (holds (dies(i \<mapsto> st'))) t'"
    "st' = st \<and> pr_swap_size (slot_at st v s) = 0 \<or>
     st' = upd_process st (int v) s (\<lambda>pe. pe\<lparr>pr_swap_offset := 0, pr_swap_size := 0\<rparr>)"
proof -
  have same: "dies(i \<mapsto> st) = dies" using die by auto
  have "owned (holds (dies(i \<mapsto> st'))) t' \<and> (no_leak (holds dies) t \<longrightarrow> no_leak (holds (dies(i \<mapsto> st'))) t')
    \<and> (st' = st \<and> pr_swap_size (slot_at st v s) = 0 \<or>
       st' = upd_process st (int v) s (\<lambda>pe. pe\<lparr>pr_swap_offset := 0, pr_swap_size := 0\<rparr>))"
  proof (cases "pr_swap_size (slot_at st v s) > 0")
    case True
    then have "snd (shm_free_per_process t st (int v) (int s)) = (t', st')" using f by (simp add: free_if_held_def)
    then obtain r where g: "shm_free_per_process t st (int v) (int s) = (r, t', st')"
      by (cases "shm_free_per_process t st (int v) (int s)") simp
    have "st' = upd_process st (int v) s (\<lambda>pe. pe\<lparr>pr_swap_offset := 0, pr_swap_size := 0\<rparr>)"
      using g
    proof (cases rule: free_per_process_cases)
      case idle
      have "slot_in_range (int v) (int s)" using v by (simp add: slot_in_range_def)
      then show ?thesis using idle(3) True by simp
    next
      case (frees v' s')
      then show ?thesis by simp
    qed
    then show ?thesis using free_per_process_owned [of dies i, OF die o g] by blast
  next
    case False
    then have "t' = t" "st' = st" "pr_swap_size (slot_at st v s) = 0" using f by (auto simp: free_if_held_def word_gt_0)
    then show ?thesis using o same by simp
  qed
  then show "owned (holds (dies(i \<mapsto> st'))) t'" "no_leak (holds dies) t \<Longrightarrow> no_leak (holds (dies(i \<mapsto> st'))) t'"
    "st' = st \<and> pr_swap_size (slot_at st v s) = 0 \<or>
     st' = upd_process st (int v) s (\<lambda>pe. pe\<lparr>pr_swap_offset := 0, pr_swap_size := 0\<rparr>)" by blast+
qed

text \<open>What reaping one slot does: the buffer stays consistent, a slot without a process has no range, other
  slots are untouched.\<close>

definition reap_post :: "(nat \<Rightarrow> shm_state option) \<Rightarrow> nat \<Rightarrow> (nat \<times> nat) set \<Rightarrow> (nat \<times> nat) set \<Rightarrow> tlsf_manager \<Rightarrow> shm_state \<Rightarrow>
    tlsf_manager \<times> shm_state \<Rightarrow> bool" where
  "reap_post dies i K T t st = (\<lambda>(t', st').
     owned (holds (dies(i \<mapsto> st'))) t' \<and> (no_leak (holds dies) t \<longrightarrow> no_leak (holds (dies(i \<mapsto> st'))) t')
     \<and> (\<forall>v s. (v, s) \<in> K \<longrightarrow> \<not> pr_active (slot_at st' v s) \<longrightarrow> pr_swap_size (slot_at st' v s) = 0)
     \<and> (\<forall>v s. (v, s) \<notin> T \<longrightarrow> slot_at st' v s = slot_at st v s))"

lemma reap_slot_free:
  assumes die: "dies i = Some st" and o: "owned (holds dies) t" and v: "v < MAX_VNPU_PER_DIE" "s < MAX_PROCESSES_PER_VNPU"
    and st1: "holds (dies(i \<mapsto> st1)) = holds (dies(i \<mapsto> st))" "\<And>w s'. (w, s') \<noteq> (v, s) \<Longrightarrow> slot_at st1 w s' = slot_at st w s'"
    and f: "free_if_held v s (t, st1) = (t', st2)"
    and g: "\<And>pe. pr_swap_offset (g pe) = pr_swap_offset pe \<and> pr_swap_size (g pe) = pr_swap_size pe"
  shows "reap_post dies i {(v, s)} {(v, s)} t st (t', upd_process st2 (int v) s g)"
proof -
  have same: "dies(i \<mapsto> st) = dies" using die by auto
  have "owned (holds (dies(i \<mapsto> st1))) t" using o st1(1) same by simp
  note spec = free_if_held_spec [of "dies(i \<mapsto> st1)" i st1 t v s t' st2, OF _ this v f, simplified fun_upd_upd fun_upd_same, OF refl]
  have h: "holds (dies(i \<mapsto> upd_process st2 (int v) s g)) = holds (dies(i \<mapsto> st2))"
    by (rule holds_cong) (simp_all add: upd_process_def upd_entry_def g)
  have sz: "pr_swap_size (slot_at st2 v s) = 0" using spec(3) by (auto simp: upd_process_at)
  have fr: "slot_at st2 w s' = slot_at st w s'" if "(w, s') \<noteq> (v, s)" for w s'
    using spec(3) st1(2) [OF that] that by (auto simp: upd_process_at)
  show ?thesis
    unfolding reap_post_def case_prod_conv h
  proof (intro conjI impI allI)
    show "owned (holds (dies(i \<mapsto> st2))) t'" by (rule spec(1))
    show "no_leak (holds (dies(i \<mapsto> st2))) t'" if "no_leak (holds dies) t" using that spec(2) st1(1) same by simp
    show "pr_swap_size (slot_at (upd_process st2 (int v) s g) w s') = 0" if "(w, s') \<in> {(v, s)}" for w s'
      using that sz unfolding upd_process_at by (simp add: g)
    show "slot_at (upd_process st2 (int v) s g) w s' = slot_at st w s'" if "(w, s') \<notin> {(v, s)}" for w s'
      using that fr unfolding upd_process_at by auto
  qed
qed

lemma upd_process_id: "upd_process st v s (\<lambda>pe. pe) = st"
  by (simp add: upd_process_def upd_entry_def)

lemma reap_slot_spec:
  assumes die: "dies i = Some st" and o: "owned (holds dies) t" and v: "v < MAX_VNPU_PER_DIE" "s < MAX_PROCESSES_PER_VNPU"
  shows "reap_post dies i {(v, s)} {(v, s)} t st (reap_slot now_ns timeout_ns v s (t, st))"
proof -
  have same: "dies(i \<mapsto> st) = dies" using die by auto
  let ?pe = "slot_at st v s"
  let ?hb = "pr_last_heartbeat_ns ?pe"
  consider (orphan) "\<not> pr_active ?pe" | (keep) "pr_active ?pe" "?hb = 0 \<or> \<not> ?hb > now_ns \<and> now_ns - ?hb \<le> timeout_ns"
    | (clock) "pr_active ?pe" "?hb \<noteq> 0" "?hb > now_ns" | (dead) "pr_active ?pe" "?hb \<noteq> 0" "\<not> ?hb > now_ns" "\<not> now_ns - ?hb \<le> timeout_ns" by blast
  then show ?thesis
  proof cases
    case orphan
    obtain t' st2 where f: "free_if_held v s (t, proxy_if_marked v s st) = (t', st2)" by fastforce
    have "reap_post dies i {(v, s)} {(v, s)} t st (t', upd_process st2 (int v) s (\<lambda>pe. pe))"
      by (rule reap_slot_free [OF die o v _ _ f]) (simp_all add: proxy_if_marked_holds proxy_if_marked_at)
    moreover have "reap_slot now_ns timeout_ns v s (t, st) = (t', st2)" using orphan f by (simp add: reap_slot_def Let_def)
    ultimately show ?thesis by (simp add: upd_process_id)
  next
    case keep
    then have "reap_slot now_ns timeout_ns v s (t, st) = (t, st)" by (auto simp: reap_slot_def Let_def)
    then show ?thesis using o same keep(1) by (simp add: reap_post_def)
  next
    case clock
    let ?st = "upd_process st (int v) s (\<lambda>pe. pe\<lparr>pr_last_heartbeat_ns := 0\<rparr>)"
    have "reap_slot now_ns timeout_ns v s (t, st) = (t, ?st)" using clock by (simp add: reap_slot_def Let_def)
    moreover have "holds (dies(i \<mapsto> ?st)) = holds (dies(i \<mapsto> st))" by (rule holds_cong) (simp_all add: upd_process_def upd_entry_def)
    moreover have "pr_active (slot_at ?st v s)" using clock(1) by (simp add: upd_process_def upd_entry_def)
    moreover have "slot_at ?st w s' = slot_at st w s'" if "(w, s') \<noteq> (v, s)" for w s' using that unfolding upd_process_at by auto
    ultimately show ?thesis using o same unfolding reap_post_def by simp
  next
    case dead
    obtain t' st2 where f: "free_if_held v s (t, return_hbm v s (proxy_if_marked v s st)) = (t', st2)" by fastforce
    have "reap_post dies i {(v, s)} {(v, s)} t st (t', upd_process st2 (int v) s (\<lambda>pe. pe\<lparr>pr_swapped := False, pr_active := False\<rparr>))"
      by (rule reap_slot_free [OF die o v _ _ f])
        (auto simp: return_hbm_holds proxy_if_marked_holds return_hbm_at proxy_if_marked_at)
    moreover have "reap_slot now_ns timeout_ns v s (t, st) = (t', upd_process st2 (int v) s (\<lambda>pe. pe\<lparr>pr_swapped := False, pr_active := False\<rparr>))"
      using dead f by (simp add: reap_slot_def Let_def)
    ultimately show ?thesis by simp
  qed
qed

lemma reap_slots_spec:
  assumes "dies i = Some st" "owned (holds dies) t" "set ks \<subseteq> {..<MAX_VNPU_PER_DIE} \<times> {..<MAX_PROCESSES_PER_VNPU}" "distinct ks"
  shows "reap_post dies i (set ks) (set ks) t st (fold (\<lambda>(v, s). reap_slot now_ns timeout_ns v s) ks (t, st))"
  using assms
proof (induction ks arbitrary: dies t st)
  case Nil
  then have "dies(i \<mapsto> st) = dies" by auto
  then show ?case using Nil by (simp add: reap_post_def)
next
  case (Cons k ks)
  obtain v s where k: "k = (v, s)" by fastforce
  obtain t1 st1 where f: "reap_slot now_ns timeout_ns v s (t, st) = (t1, st1)" by fastforce
  have p1: "reap_post dies i {k} {k} t st (t1, st1)"
    using reap_slot_spec [of dies i st t v s now_ns timeout_ns] Cons.prems f k by simp
  then have o1: "owned (holds (dies(i \<mapsto> st1))) t1" by (simp add: reap_post_def)
  have p2: "reap_post (dies(i \<mapsto> st1)) i (set ks) (set ks) t1 st1 (fold (\<lambda>(v, s). reap_slot now_ns timeout_ns v s) ks (t1, st1))"
    by (rule Cons.IH [OF _ o1]) (use Cons.prems in auto)
  obtain t2 st2 where g: "fold (\<lambda>(v, s). reap_slot now_ns timeout_ns v s) ks (t1, st1) = (t2, st2)" by fastforce
  have old: "slot_at st2 v s = slot_at st1 v s" using p2 Cons.prems(4) k unfolding g reap_post_def by simp
  have "reap_post dies i (set (k # ks)) (set (k # ks)) t st (t2, st2)"
    unfolding reap_post_def case_prod_conv
  proof (intro conjI impI allI)
    show "owned (holds (dies(i \<mapsto> st2))) t2" using p2 unfolding g reap_post_def by simp
    show "no_leak (holds (dies(i \<mapsto> st2))) t2" if "no_leak (holds dies) t" using that p1 p2 unfolding g reap_post_def by simp
    show "pr_swap_size (slot_at st2 w s') = 0" if "(w, s') \<in> set (k # ks)" "\<not> pr_active (slot_at st2 w s')" for w s'
    proof (cases "(w, s') \<in> set ks")
      case True
      then show ?thesis using that p2 unfolding g reap_post_def by simp
    next
      case False
      then have "(w, s') = (v, s)" using that(1) k by simp
      then show ?thesis using old that(2) p1 unfolding k reap_post_def by simp
    qed
    show "slot_at st2 w s' = slot_at st w s'" if "(w, s') \<notin> set (k # ks)" for w s'
      using that p1 p2 unfolding g reap_post_def by simp
  qed
  then show ?case using f g k by simp
qed

definition all_slots :: "(nat \<times> nat) list" where
  "all_slots = List.product [0..<MAX_VNPU_PER_DIE] slots"

lemma reap_dead_eq: "reap_dead_processes now_ns timeout_ns = fold (\<lambda>(v, s). reap_slot now_ns timeout_ns v s) all_slots"
  unfolding reap_dead_processes_def all_slots_def by (rule ext) (rule fold_nested)

lemma all_slots_set: "set all_slots = {..<MAX_VNPU_PER_DIE} \<times> {..<MAX_PROCESSES_PER_VNPU}" "distinct all_slots"
  by (auto simp: all_slots_def distinct_product)

text \<open>A process that has stopped sending signs of life, and what reaping makes of a slot.\<close>

definition expired :: "u64 \<Rightarrow> u64 \<Rightarrow> process_entry \<Rightarrow> bool" where
  "expired now_ns timeout_ns pe \<longleftrightarrow> pr_active pe \<and> pr_last_heartbeat_ns pe \<noteq> 0 \<and> pr_last_heartbeat_ns pe \<le> now_ns
     \<and> now_ns - pr_last_heartbeat_ns pe > timeout_ns"

definition reap_effect :: "u64 \<Rightarrow> u64 \<Rightarrow> process_entry \<Rightarrow> process_entry \<Rightarrow> bool" where
  "reap_effect now_ns timeout_ns pe pe' \<longleftrightarrow>
     (pr_active pe' \<longleftrightarrow> pr_active pe \<and> \<not> expired now_ns timeout_ns pe)
     \<and> (expired now_ns timeout_ns pe \<longrightarrow> pr_hbm_used pe' = 0)
     \<and> (if pr_active pe' then pr_swap_offset pe' = pr_swap_offset pe \<and> pr_swap_size pe' = pr_swap_size pe else pr_swap_size pe' = 0)"

lemma free_if_held_at:
  assumes "v < MAX_VNPU_PER_DIE" "s < MAX_PROCESSES_PER_VNPU"
  shows "slot_at (snd (free_if_held v s (t, st))) w s' =
    (if w = v \<and> s' = s \<and> pr_swap_size (slot_at st v s) > 0 then (slot_at st v s)\<lparr>pr_swap_offset := 0, pr_swap_size := 0\<rparr> else slot_at st w s')"
proof (cases "pr_swap_size (slot_at st v s) > 0")
  case True
  then have "snd (free_if_held v s (t, st)) = upd_process st (int v) s (\<lambda>pe. pe\<lparr>pr_swap_offset := 0, pr_swap_size := 0\<rparr>)"
    using assms by (auto simp: free_if_held_def shm_free_per_process_def slot_in_range_def Let_def)
  then show ?thesis using True by (simp only: upd_process_at) auto
qed (simp add: free_if_held_def)

lemma proxy_if_marked_swap:
  "pr_swap_size (slot_at (proxy_if_marked v s st) w s') = pr_swap_size (slot_at st w s')"
  by (auto simp: proxy_if_marked_def proxy_processes)

lemma reap_slot_at:
  assumes v: "v < MAX_VNPU_PER_DIE" "s < MAX_PROCESSES_PER_VNPU"
  shows "if (w, s') = (v, s) then reap_effect now_ns timeout_ns (slot_at st v s) (slot_at (snd (reap_slot now_ns timeout_ns v s (t, st))) v s)
    else slot_at (snd (reap_slot now_ns timeout_ns v s (t, st))) w s' = slot_at st w s'"
proof -
  let ?pe = "slot_at st v s"
  let ?hb = "pr_last_heartbeat_ns ?pe"
  consider (orphan) "\<not> pr_active ?pe" | (keep) "pr_active ?pe" "?hb = 0 \<or> \<not> ?hb > now_ns \<and> now_ns - ?hb \<le> timeout_ns"
    | (clock) "pr_active ?pe" "?hb \<noteq> 0" "?hb > now_ns" | (dead) "pr_active ?pe" "?hb \<noteq> 0" "\<not> ?hb > now_ns" "\<not> now_ns - ?hb \<le> timeout_ns" by blast
  then show ?thesis
  proof cases
    case orphan
    then have "reap_slot now_ns timeout_ns v s (t, st) = free_if_held v s (t, proxy_if_marked v s st)" by (simp add: reap_slot_def Let_def)
    then show ?thesis using orphan
      by (auto simp: free_if_held_at [OF v] proxy_if_marked_at proxy_if_marked_same proxy_if_marked_swap reap_effect_def expired_def word_gt_0)
  next
    case keep
    then have "reap_slot now_ns timeout_ns v s (t, st) = (t, st)" by (auto simp: reap_slot_def Let_def)
    then show ?thesis using keep by (auto simp: reap_effect_def expired_def)
  next
    case clock
    then have "snd (reap_slot now_ns timeout_ns v s (t, st)) = upd_process st (int v) s (\<lambda>pe. pe\<lparr>pr_last_heartbeat_ns := 0\<rparr>)"
      by (simp add: reap_slot_def Let_def)
    then show ?thesis using clock by (auto simp: upd_process_at reap_effect_def expired_def)
  next
    case dead
    let ?st1 = "return_hbm v s (proxy_if_marked v s st)"
    have "snd (reap_slot now_ns timeout_ns v s (t, st)) =
        upd_process (snd (free_if_held v s (t, ?st1))) (int v) s (\<lambda>pe. pe\<lparr>pr_swapped := False, pr_active := False\<rparr>)"
      using dead by (simp add: reap_slot_def Let_def split: prod.split)
    then show ?thesis using dead
      by (auto simp: upd_process_at free_if_held_at [OF v] return_hbm_at proxy_if_marked_at proxy_if_marked_swap reap_effect_def expired_def word_gt_0)
  qed
qed

lemma reap_slots_at:
  assumes "set ks \<subseteq> {..<MAX_VNPU_PER_DIE} \<times> {..<MAX_PROCESSES_PER_VNPU}" "distinct ks"
  shows "if (w, s') \<in> set ks
    then reap_effect now_ns timeout_ns (slot_at st w s') (slot_at (snd (fold (\<lambda>(v, s). reap_slot now_ns timeout_ns v s) ks (t, st))) w s')
    else slot_at (snd (fold (\<lambda>(v, s). reap_slot now_ns timeout_ns v s) ks (t, st))) w s' = slot_at st w s'"
  using assms
proof (induction ks arbitrary: t st)
  case (Cons k ks)
  obtain v s where k: "k = (v, s)" by fastforce
  obtain t1 st1 where f: "reap_slot now_ns timeout_ns v s (t, st) = (t1, st1)" by fastforce
  have "v < MAX_VNPU_PER_DIE" "s < MAX_PROCESSES_PER_VNPU" using Cons.prems(1) k by auto
  note one = reap_slot_at [OF this, of w s' now_ns timeout_ns st t, unfolded f snd_conv]
  have "set ks \<subseteq> {..<MAX_VNPU_PER_DIE} \<times> {..<MAX_PROCESSES_PER_VNPU}" "distinct ks" "(v, s) \<notin> set ks" using Cons.prems k by auto
  note rest = Cons.IH [OF this(1,2), of st1 t1] and new = this(3)
  show ?case using one rest new f unfolding k by (cases "(w, s') = (v, s)") (auto split: if_splits)
qed simp

text \<open>C39 A reaping pass over a die, taken as one step. Exactly the processes whose last sign of life is older than the timeout lose their
  slot, and their memory is no longer counted; exactly their swap ranges and those left in slots without a process are given back, all
  other ranges of this die and of the other dies stay recorded. The swap buffer stays consistent: every recorded range is allocated and no allocated range is unrecorded.\<close>

theorem reap_reclaims_ranges:
  assumes "dies i = Some st" "owned (holds dies) t" "no_leak (holds dies) t"
    and "reap_dead_processes now_ns timeout_ns (t, st) = (t', st')"
  shows "(\<forall>v < MAX_VNPU_PER_DIE. \<forall>s < MAX_PROCESSES_PER_VNPU.
        (pr_active (slot_at st' v s) \<longleftrightarrow> pr_active (slot_at st v s) \<and> \<not> expired now_ns timeout_ns (slot_at st v s))
        \<and> (expired now_ns timeout_ns (slot_at st v s) \<longrightarrow> pr_hbm_used (slot_at st' v s) = 0))
    \<and> holds (dies(i \<mapsto> st')) = (\<lambda>(j, v, s).
        if j = i \<and> (\<not> pr_active (slot_at st v s) \<or> expired now_ns timeout_ns (slot_at st v s)) then None else holds dies (j, v, s))
    \<and> owned (holds (dies(i \<mapsto> st'))) t' \<and> no_leak (holds (dies(i \<mapsto> st'))) t'"
proof (intro conjI)
  have post: "reap_post dies i (set all_slots) (set all_slots) t st (t', st')"
    using reap_slots_spec [of dies i st t all_slots now_ns timeout_ns] assms by (simp add: all_slots_set reap_dead_eq)
  then show "owned (holds (dies(i \<mapsto> st'))) t'" "no_leak (holds (dies(i \<mapsto> st'))) t'" using assms(3) by (simp_all add: reap_post_def)
  have "set all_slots \<subseteq> {..<MAX_VNPU_PER_DIE} \<times> {..<MAX_PROCESSES_PER_VNPU}" by (simp add: all_slots_set)
  note at = reap_slots_at [OF this all_slots_set(2)]
  have eff: "reap_effect now_ns timeout_ns (slot_at st v s) (slot_at st' v s)" if "v < MAX_VNPU_PER_DIE" "s < MAX_PROCESSES_PER_VNPU" for v s
    using that assms(4) at [of v s now_ns timeout_ns st t] by (simp add: reap_dead_eq all_slots_set)
  then show "\<forall>v < MAX_VNPU_PER_DIE. \<forall>s < MAX_PROCESSES_PER_VNPU.
      (pr_active (slot_at st' v s) \<longleftrightarrow> pr_active (slot_at st v s) \<and> \<not> expired now_ns timeout_ns (slot_at st v s))
      \<and> (expired now_ns timeout_ns (slot_at st v s) \<longrightarrow> pr_hbm_used (slot_at st' v s) = 0)" by (simp add: reap_effect_def)
  show "holds (dies(i \<mapsto> st')) = (\<lambda>(j, v, s).
      if j = i \<and> (\<not> pr_active (slot_at st v s) \<or> expired now_ns timeout_ns (slot_at st v s)) then None else holds dies (j, v, s))"
  proof (rule ext, clarify)
    fix j v s
    show "holds (dies(i \<mapsto> st')) (j, v, s) =
        (if j = i \<and> (\<not> pr_active (slot_at st v s) \<or> expired now_ns timeout_ns (slot_at st v s)) then None else holds dies (j, v, s))"
      using eff [of v s] assms(1) by (auto simp: holds_def Let_def reap_effect_def split: if_splits)
  qed
qed

section \<open>Commands do not wait for the dead\<close>

definition cmd_open :: "shm_state \<Rightarrow> nat \<Rightarrow> u64 \<Rightarrow> bool" where
  "cmd_open st v seq \<longleftrightarrow> (let c = ss_swap_cmd st in
     cm_action c = SWAP_ACTION_OUT \<and> cm_cmd_seq c = seq \<and> cm_target_vnpu_id c = int v \<and> \<not> cm_completed c \<and> seq \<noteq> 0)"

definition cmd_done :: "shm_state \<Rightarrow> bool" where
  "cmd_done st \<longleftrightarrow> cm_completed (ss_swap_cmd st)"

definition alive :: "u64 \<Rightarrow> process_entry \<Rightarrow> bool" where
  "alive now_ns pe \<longleftrightarrow> (let hb = pr_last_heartbeat_ns pe in
     pr_active pe \<and> (hb = 0 \<or> hb > now_ns \<or> now_ns - hb \<le> PROCESS_ALIVE_TIMEOUT_NS))"

text \<open>A step that advances the command: a complete command stays complete; an open one is completed, or stays open,
  owed by no slot that did not owe it before and with the life signs of the processes that owe it unchanged.\<close>

definition advances :: "u64 \<Rightarrow> nat \<Rightarrow> u64 \<Rightarrow> shm_state \<Rightarrow> shm_state \<Rightarrow> bool" where
  "advances now_ns v seq st st' \<longleftrightarrow> (cmd_done st \<longrightarrow> cmd_done st') \<and> (cmd_open st v seq \<longrightarrow> cmd_done st' \<or> cmd_open st' v seq \<and>
     (\<forall>s < MAX_PROCESSES_PER_VNPU. pr_ack_pending_seq (slot_at st' v s) = seq \<longrightarrow>
        pr_ack_pending_seq (slot_at st v s) = seq \<and> alive now_ns (slot_at st' v s) = alive now_ns (slot_at st v s)))"

lemma advances_refl [simp]: "advances now_ns v seq st st"
  by (simp add: advances_def)

lemma advances_trans: "advances now_ns v seq st st1 \<Longrightarrow> advances now_ns v seq st1 st2 \<Longrightarrow> advances now_ns v seq st st2"
  unfolding advances_def by blast

lemma advances_fold:
  "(\<And>x st. x \<in> set xs \<Longrightarrow> advances now_ns v seq st (f x st)) \<Longrightarrow> advances now_ns v seq st (fold f xs st)"
proof (induction xs arbitrary: st)
  case (Cons x xs)
  have "advances now_ns v seq (f x st) (fold f xs (f x st))" by (rule Cons.IH) (use Cons.prems in simp)
  then show ?case using advances_trans Cons.prems [of x st] by simp
qed simp

lemma proxy_cmd:
  assumes "cmd_open st v seq"
  shows "cmd_done (proxy_ack_locked st (int w) s) \<or> cmd_open (proxy_ack_locked st (int w) s) v seq"
  using assms by (auto simp: cmd_open_def cmd_done_def proxy_ack_locked_def Let_def swap_cmd_mark_completed_locked_def)

lemma advances_proxy: "advances now_ns v seq st (proxy_if_marked w s st)"
proof -
  have "cmd_done (proxy_if_marked w s st)" if "cmd_done st"
    using that by (simp add: cmd_done_def proxy_if_marked_def proxy_frame)
  moreover have "cmd_done (proxy_if_marked w s st) \<or> cmd_open (proxy_if_marked w s st) v seq" if "cmd_open st v seq"
    using that proxy_cmd [OF that] by (simp add: proxy_if_marked_def)
  moreover have "pr_ack_pending_seq (slot_at (proxy_if_marked w s st) v s') = pr_ack_pending_seq (slot_at st v s')
      \<or> pr_ack_pending_seq (slot_at (proxy_if_marked w s st) v s') = 0" for s'
    using proxy_processes [of st w s v s'] by (auto simp: proxy_if_marked_def)
  moreover have "alive now_ns (slot_at (proxy_if_marked w s st) v s') = alive now_ns (slot_at st v s')" for s'
    by (simp add: alive_def proxy_if_marked_same)
  ultimately show ?thesis unfolding advances_def cmd_open_def Let_def by metis
qed

lemma proxy_clears: "cmd_open st v seq \<Longrightarrow> pr_ack_pending_seq (slot_at (proxy_if_marked v s st) v s) \<noteq> seq"
  using proxy_processes [of st v s v s] by (auto simp: proxy_if_marked_def cmd_open_def Let_def)

text \<open>Steps that leave the command and the markers alone.\<close>

definition same_marks :: "u64 \<Rightarrow> shm_state \<Rightarrow> shm_state \<Rightarrow> bool" where
  "same_marks now_ns st st' \<longleftrightarrow> ss_swap_cmd st' = ss_swap_cmd st
     \<and> (\<forall>v s. pr_ack_pending_seq (slot_at st' v s) = 0 \<or>
          pr_ack_pending_seq (slot_at st' v s) = pr_ack_pending_seq (slot_at st v s) \<and> alive now_ns (slot_at st' v s) = alive now_ns (slot_at st v s))"

lemma advances_same_marks: "same_marks now_ns st st' \<Longrightarrow> advances now_ns v seq st st'"
  unfolding same_marks_def advances_def cmd_done_def cmd_open_def Let_def by metis

lemma return_hbm_marks: "same_marks now_ns st (return_hbm v s st)"
proof -
  have "ss_swap_cmd (return_hbm v s st) = ss_swap_cmd st" by (simp add: return_hbm_def Let_def upd_process_def upd_entry_def)
  then show ?thesis by (auto simp: same_marks_def return_hbm_at alive_def)
qed

lemma strip_marks: "strip st' = strip st \<Longrightarrow> same_marks now_ns st st'"
proof -
  assume eq: "strip st' = strip st"
  have f: "pr_ack_pending_seq (slot_at (strip st) v s) = pr_ack_pending_seq (slot_at st v s)"
    "pr_last_heartbeat_ns (slot_at (strip st) v s) = pr_last_heartbeat_ns (slot_at st v s)"
    "pr_active (slot_at (strip st) v s) = pr_active (slot_at st v s)" for st v s
    by (simp_all add: strip_def)
  have "pr_ack_pending_seq (slot_at st' v s) = pr_ack_pending_seq (slot_at st v s)"
    "pr_last_heartbeat_ns (slot_at st' v s) = pr_last_heartbeat_ns (slot_at st v s)"
    "pr_active (slot_at st' v s) = pr_active (slot_at st v s)" for v s
    using f [of st' v s] f [of st v s] eq by simp_all
  then show ?thesis using stripD(2) [OF eq] by (simp add: same_marks_def alive_def)
qed

lemma free_if_held_marks: "same_marks now_ns st (snd (free_if_held v s (t, st)))"
  by (rule strip_marks) (simp add: free_if_held_def strip_free)

lemma reset_marks: "same_marks now_ns st (reset_runtime_state st v)"
  by (simp add: same_marks_def reset_runtime_state_def upd_entry_def reset_process_def alive_def)

section \<open>Reaping advances the command\<close>

lemma reap_slot_frame: "(w, s') \<noteq> (v, s) \<Longrightarrow> slot_at (snd (reap_slot now_ns timeout_ns v s (t, st))) w s' = slot_at st w s'"
proof -
  assume ne: "(w, s') \<noteq> (v, s)"
  have free: "slot_at (snd (free_if_held v s (t, st))) w s' = slot_at st w s'" for st
    using ne by (auto simp: free_if_held_def shm_free_per_process_def Let_def upd_process_def upd_entry_def)
  have upd: "slot_at (upd_process st (int v) s f) w s' = slot_at st w s'" for st f
    using ne by (auto simp: upd_process_def upd_entry_def)
  show ?thesis
    using ne free [of "proxy_if_marked v s st"] free [of "return_hbm v s (proxy_if_marked v s st)"]
    by (auto simp: reap_slot_def Let_def upd return_hbm_at proxy_if_marked_at split: prod.split)
qed

lemma advances_flags:
  assumes a: "advances now_ns v seq st st3" and clear: "cmd_open st v seq \<Longrightarrow> w = v \<Longrightarrow> pr_ack_pending_seq (slot_at st3 v s) \<noteq> seq"
  shows "advances now_ns v seq st (upd_process st3 (int w) s (\<lambda>pe. pe\<lparr>pr_swapped := False, pr_active := False\<rparr>))"
proof -
  let ?st = "upd_process st3 (int w) s (\<lambda>pe. pe\<lparr>pr_swapped := False, pr_active := False\<rparr>)"
  have cmd: "cmd_done ?st = cmd_done st3" "cmd_open ?st v seq = cmd_open st3 v seq"
    by (simp_all add: cmd_done_def cmd_open_def)
  have at: "slot_at ?st v s' = (if v = w \<and> s' = s then (slot_at st3 v s')\<lparr>pr_swapped := False, pr_active := False\<rparr> else slot_at st3 v s')" for s'
    by (rule upd_process_at)
  show ?thesis using a clear unfolding advances_def cmd at by (auto split: if_splits)
qed

lemma reap_slot_advances:
  "advances now_ns v seq st (snd (reap_slot now_ns PROCESS_ALIVE_TIMEOUT_NS w s (t, st)))"
proof -
  let ?pe = "slot_at st w s" and ?st1 = "proxy_if_marked w s st"
  let ?hb = "pr_last_heartbeat_ns ?pe"
  let ?st2 = "snd (free_if_held w s (t, return_hbm w s ?st1))"
  have a1: "advances now_ns v seq st ?st1" by (rule advances_proxy)
  have free: "advances now_ns v seq st (snd (free_if_held w s (t, ?st1)))"
    by (rule advances_trans [OF a1 advances_same_marks [OF free_if_held_marks]])
  have a2: "advances now_ns v seq st ?st2"
    by (rule advances_trans [OF a1 advances_trans [OF advances_same_marks [OF return_hbm_marks] advances_same_marks [OF free_if_held_marks]]])
  have "advances now_ns v seq st (upd_process ?st2 (int w) s (\<lambda>pe. pe\<lparr>pr_swapped := False, pr_active := False\<rparr>))"
  proof (rule advances_flags [OF a2])
    assume "cmd_open st v seq" "w = v"
    then show "pr_ack_pending_seq (slot_at ?st2 v s) \<noteq> seq"
      using proxy_clears [of st v seq s] by (simp add: free_if_held_def shm_free_per_process_def Let_def upd_process_def upd_entry_def return_hbm_at)
  qed
  moreover have "advances now_ns v seq st (upd_process st (int w) s (\<lambda>pe. pe\<lparr>pr_last_heartbeat_ns := 0\<rparr>))" if "?hb > now_ns"
    by (rule advances_same_marks) (use that in \<open>auto simp: same_marks_def upd_process_def upd_entry_def alive_def Let_def\<close>)
  ultimately show ?thesis using free by (auto simp: reap_slot_def Let_def split: prod.split)
qed

lemma reap_slot_clears:
  assumes "cmd_open st v seq" "pr_ack_pending_seq (slot_at (snd (reap_slot now_ns PROCESS_ALIVE_TIMEOUT_NS v s (t, st))) v s) = seq"
  shows "alive now_ns (slot_at st v s)"
proof (rule ccontr)
  assume dead: "\<not> alive now_ns (slot_at st v s)"
  have free: "pr_ack_pending_seq (slot_at (snd (free_if_held v s (t, st))) v s) = pr_ack_pending_seq (slot_at st v s)" for st
    by (simp add: free_if_held_def shm_free_per_process_def Let_def upd_process_def upd_entry_def)
  have "pr_ack_pending_seq (slot_at (snd (reap_slot now_ns PROCESS_ALIVE_TIMEOUT_NS v s (t, st))) v s)
      = pr_ack_pending_seq (slot_at (proxy_if_marked v s st) v s)"
    using dead free [of "proxy_if_marked v s st"] free [of "return_hbm v s (proxy_if_marked v s st)"]
    by (auto simp: alive_def reap_slot_def Let_def upd_process_def upd_entry_def return_hbm_at split: prod.split)
  then show False using proxy_clears [OF assms(1), of s] assms(2) by simp
qed

lemma reap_slots_advances:
  "advances now_ns v seq (snd c) (snd (fold (\<lambda>(v, s). reap_slot now_ns PROCESS_ALIVE_TIMEOUT_NS v s) xs c))"
proof (induction xs arbitrary: c)
  case (Cons x xs)
  let ?f = "\<lambda>(v, s). reap_slot now_ns PROCESS_ALIVE_TIMEOUT_NS v s"
  have "advances now_ns v seq (snd c) (snd (?f x c))"
    using reap_slot_advances [of now_ns v seq "snd c" "fst x" "snd x" "fst c"] by (simp add: split_beta)
  then show ?case using Cons [of "?f x c"] advances_trans by simp
qed simp

lemma reap_slots_clears:
  assumes "distinct ks" "(v, s) \<in> set ks" "cmd_open st v seq" "s < MAX_PROCESSES_PER_VNPU"
    "fold (\<lambda>(v, s). reap_slot now_ns PROCESS_ALIVE_TIMEOUT_NS v s) ks (t, st) = (t', st')" "\<not> cmd_done st'"
    "pr_ack_pending_seq (slot_at st' v s) = seq"
  shows "alive now_ns (slot_at st v s)"
  using assms
proof (induction ks arbitrary: t st)
  case (Cons k ks)
  let ?f = "\<lambda>(v, s). reap_slot now_ns PROCESS_ALIVE_TIMEOUT_NS v s"
  obtain w u where k: "k = (w, u)" by fastforce
  obtain t1 st1 where f: "reap_slot now_ns PROCESS_ALIVE_TIMEOUT_NS w u (t, st) = (t1, st1)" by fastforce
  have rest: "fold ?f ks (t1, st1) = (t', st')" using Cons.prems(5) k f by simp
  have a1: "advances now_ns v seq st st1" using reap_slot_advances [of now_ns v seq st w u t] f by simp
  have "\<not> cmd_done st1" using reap_slots_advances [of now_ns v seq "(t1, st1)" ks] rest Cons.prems(6) by (auto simp: advances_def)
  then have open1: "cmd_open st1 v seq" using a1 Cons.prems(3) unfolding advances_def by blast
  have frame: "slot_at (snd (fold ?f xs c)) v s = slot_at (snd c) v s" if "(v, s) \<notin> set xs" for xs c
    using that
  proof (induction xs arbitrary: c)
    case (Cons x xs)
    have "slot_at (snd (?f x c)) v s = slot_at (snd c) v s"
      using reap_slot_frame [of v s "fst x" "snd x" now_ns PROCESS_ALIVE_TIMEOUT_NS "fst c" "snd c"] Cons.prems by (auto simp: split_beta)
    then show ?case using Cons by simp
  qed simp
  show ?case
  proof (cases "(v, s) = k")
    case True
    then have "(v, s) \<notin> set ks" using Cons.prems(1) by auto
    from frame [OF this, of "(t1, st1)"] rest have "slot_at st' v s = slot_at st1 v s" by simp
    then show ?thesis using reap_slot_clears [OF Cons.prems(3), of now_ns s t] f k True Cons.prems(7) by simp
  next
    case False
    then have "(v, s) \<in> set ks" using Cons.prems(2) by auto
    then have "alive now_ns (slot_at st1 v s)" using Cons.IH [OF _ _ open1 Cons.prems(4) rest Cons.prems(6,7)] Cons.prems(1) by simp
    moreover have "slot_at st1 v s = slot_at st v s"
      using reap_slot_frame [of v s w u now_ns PROCESS_ALIVE_TIMEOUT_NS t st] f False k by simp
    ultimately show ?thesis by simp
  qed
qed simp

lemma reap_dead_advances:
  "advances now_ns v seq st (snd (reap_dead_processes now_ns PROCESS_ALIVE_TIMEOUT_NS (t, st)))"
  using reap_slots_advances [of now_ns v seq "(t, st)" all_slots] by (simp add: reap_dead_eq)

section \<open>The poll of a die\<close>

lemma set_last_alive_states [simp]: "sm_shm_states (set_last_alive mgr i sched v ns) = sm_shm_states mgr"
  "sm_sched_structs (set_last_alive mgr i sched v ns) i \<noteq> None"
  by (simp_all add: set_last_alive_def)

lemma put_state_scheds [simp]: "sm_sched_structs (put_state mgr phy_id st) = sm_sched_structs mgr"
  by (simp add: put_state_def)

lemma cleanup_result:
  assumes "i < MAX_NPU_PER_NODE" "sm_shm_states mgr i = Some st" "v \<in> set (bitmap_ids (ss_vnpu_bitmap st))"
  shows "\<exists>t' st'. snd (pod_watchdog_cleanup_swap_data t mgr (int i) (int v)) = (t', put_state mgr (int i) st')
    \<and> (t' = t \<and> st' = st \<or> (\<exists>r. shm_free t st (int v) = (r, t', st')))"
proof -
  have get: "shm_manager_get_state mgr (int i) = Some st" using assms(1,2) by (simp add: get_state_Some)
  have e: "find_entry st (int v) = Some (ss_entries st v)" using assms(3) by (simp add: find_entry_def bitmap_ids_set)
  have same: "put_state mgr (int i) st = mgr" using assms(2) by (cases mgr) (auto simp: put_state_def)
  obtain sw off sz where s: "shm_manager_get_swap_state mgr (int i) (int v) = (ENPU_SUCCESS, Some (sw, off, sz))"
    using get e by (cases "swap_state_scan (ve_processes (ss_entries st v)) slots (True, 0, 0)")
      (simp add: shm_manager_get_swap_state_def)
  obtain r t' st' where f: "shm_free t st (int v) = (r, t', st')" by (metis prod_cases3)
  have set: "snd (shm_manager_set_swap_state m (int i) (int v) 0 0) = m" for m
    by (simp add: shm_manager_set_swap_state_def split: option.split)
  show ?thesis
  proof (cases sw)
    case True
    have "snd (pod_watchdog_cleanup_swap_data t mgr (int i) (int v)) = (t', put_state mgr (int i) st')"
      using True s get f set [of "put_state mgr (int i) st'"]
      by (cases "shm_manager_set_swap_state (put_state mgr (int i) st') (int i) (int v) 0 0")
        (simp add: pod_watchdog_cleanup_swap_data_def)
    then show ?thesis using f by blast
  next
    case False
    then have "snd (pod_watchdog_cleanup_swap_data t mgr (int i) (int v)) = (t, put_state mgr (int i) st)"
      using s same by (simp add: pod_watchdog_cleanup_swap_data_def)
    then show ?thesis by blast
  qed
qed

lemma strip_shm_free: "strip (snd (snd (shm_free t st v))) = strip st"
  by (simp add: shm_free_def strip_free_slots)

lemma bitmap_frame:
  "ss_vnpu_bitmap (proxy_if_marked v s st) = ss_vnpu_bitmap st" "ss_vnpu_bitmap (reset_runtime_state st v) = ss_vnpu_bitmap st"
  "ss_vnpu_bitmap (fold (proxy_if_marked v) ss st) = ss_vnpu_bitmap st"
proof -
  show p: "ss_vnpu_bitmap (proxy_if_marked v s st) = ss_vnpu_bitmap st" for s st
    by (simp add: proxy_if_marked_def proxy_frame)
  show "ss_vnpu_bitmap (reset_runtime_state st v) = ss_vnpu_bitmap st" by (simp add: reset_runtime_state_def upd_entry_def)
  show "ss_vnpu_bitmap (fold (proxy_if_marked v) ss st) = ss_vnpu_bitmap st" by (induction ss arbitrary: st) (simp_all add: p)
qed

text \<open>The handling of one vNPU.\<close>

lemma poll_vnpu_cases:
  assumes i: "i < MAX_NPU_PER_NODE" and st: "sm_shm_states mgr i = Some st" and sched: "sm_sched_structs mgr i = Some sched"
    and v: "v \<in> set (bitmap_ids (ss_vnpu_bitmap st))" "v < MAX_VNPU_SCHED"
  obtains (nothing_due) mgr' where "poll_vnpu now_ns i v (t, mgr) = Some (t, mgr')" "sm_shm_states mgr' = sm_shm_states mgr"
      "sm_sched_structs mgr' i \<noteq> None"
      "ts_last_alive_time_ns sched v = 0 \<or> now_ns < ts_last_alive_time_ns sched v \<or>
       now_ns - ts_last_alive_time_ns sched v \<le> POD_ALIVE_TIMEOUT_NS"
  | (timeout) t1 st1 mgr' where "poll_vnpu now_ns i v (t, mgr) = Some (t1, mgr')" "sm_sched_structs mgr' i \<noteq> None"
      "sm_shm_states mgr' = (sm_shm_states mgr)(i \<mapsto> reset_runtime_state (fold (proxy_if_marked v) slots st1) v)"
      "if all_swapped (ss_entries st v) then (t1, put_state mgr (int i) st1) = snd (pod_watchdog_cleanup_swap_data t mgr (int i) (int v))
       else t1 = t \<and> st1 = st"
      "ts_last_alive_time_ns sched v \<noteq> 0" "\<not> now_ns < ts_last_alive_time_ns sched v"
      "\<not> now_ns - ts_last_alive_time_ns sched v \<le> POD_ALIVE_TIMEOUT_NS"
proof -
  let ?la = "ts_last_alive_time_ns sched v"
  have get: "shm_manager_get_state mgr (int i) = Some st" using i st by (simp add: get_state_Some)
  have all: "snd (shm_manager_get_vnpu_all_swapped mgr (int i) (int v)) = Some (all_swapped (ss_entries st v))"
    using get v(1) by (simp add: shm_manager_get_vnpu_all_swapped_def find_entry_def bitmap_ids_set)
  obtain t1 st1 where c: "snd (pod_watchdog_cleanup_swap_data t mgr (int i) (int v)) = (t1, put_state mgr (int i) st1)"
    using cleanup_result [OF i st v(1), of t] by blast
  have nv: "\<not> MAX_VNPU_SCHED \<le> v" using v(2) by simp
  consider "?la = 0" | "?la \<noteq> 0" "now_ns < ?la" | "?la \<noteq> 0" "\<not> now_ns < ?la" "now_ns - ?la \<le> POD_ALIVE_TIMEOUT_NS"
    | (due) "?la \<noteq> 0" "\<not> now_ns < ?la" "\<not> now_ns - ?la \<le> POD_ALIVE_TIMEOUT_NS" by blast
  then show ?thesis
  proof cases
    case 1
    then show ?thesis using sched nv by (intro nothing_due [of mgr]) (simp_all add: poll_vnpu_def)
  next
    case 2
    then show ?thesis using sched nv by (intro nothing_due [of "set_last_alive mgr i sched v 0"]) (simp_all add: poll_vnpu_def Let_def)
  next
    case 3
    then show ?thesis using sched nv by (intro nothing_due [of mgr]) (simp_all add: poll_vnpu_def Let_def)
  next
    case due
    let ?R = "\<lambda>st1. reset_runtime_state (fold (proxy_if_marked v) slots st1) v"
    show ?thesis
    proof (cases "all_swapped (ss_entries st v)")
      case True
      let ?m = "set_last_alive (put_state (put_state mgr (int i) st1) (int i) (?R st1)) i sched v 0"
      have "poll_vnpu now_ns i v (t, mgr) = Some (t1, ?m)"
        using due sched nv all c True by (simp add: poll_vnpu_def Let_def)
      then show ?thesis using True c due by (intro timeout [of t1 ?m st1]) simp_all
    next
      case False
      let ?m = "set_last_alive (put_state mgr (int i) (?R st)) i sched v 0"
      have "poll_vnpu now_ns i v (t, mgr) = Some (t, ?m)"
        using due sched nv all st False by (simp add: poll_vnpu_def Let_def)
      then show ?thesis using False due by (intro timeout [of t ?m st]) simp_all
    qed
  qed
qed

lemma poll_vnpus_advances:
  assumes "i < MAX_NPU_PER_NODE" "sm_shm_states mgr i = Some st" "sm_sched_structs mgr i \<noteq> None"
    "set vs \<subseteq> set (bitmap_ids (ss_vnpu_bitmap st))" "\<forall>v \<in> set vs. v < MAX_VNPU_SCHED"
  shows "\<exists>t' mgr' st'. poll_vnpus now_ns i vs (t, mgr) = Some (t', mgr') \<and> sm_shm_states mgr' i = Some st'
    \<and> sm_sched_structs mgr' i \<noteq> None \<and> advances now_ns v seq st st'"
  using assms
proof (induction vs arbitrary: t mgr st)
  case (Cons u vs)
  obtain sched where sched: "sm_sched_structs mgr i = Some sched" using Cons.prems(3) by blast
  have u: "u \<in> set (bitmap_ids (ss_vnpu_bitmap st))" "u < MAX_VNPU_SCHED" using Cons.prems(4,5) by auto
  have "\<exists>t1 mgr1 st1. poll_vnpu now_ns i u (t, mgr) = Some (t1, mgr1) \<and> sm_shm_states mgr1 i = Some st1
      \<and> sm_sched_structs mgr1 i \<noteq> None \<and> ss_vnpu_bitmap st1 = ss_vnpu_bitmap st \<and> advances now_ns v seq st st1"
  proof (rule poll_vnpu_cases [OF Cons.prems(1,2) sched u, of now_ns t])
    fix mgr' assume "poll_vnpu now_ns i u (t, mgr) = Some (t, mgr')" "sm_shm_states mgr' = sm_shm_states mgr" "sm_sched_structs mgr' i \<noteq> None"
    then show ?thesis using Cons.prems(2) by (intro exI [of _ t] exI [of _ mgr'] exI [of _ st]) simp
  next
    fix t1 st1 mgr'
    let ?R = "reset_runtime_state (fold (proxy_if_marked u) slots st1) u"
    assume p: "poll_vnpu now_ns i u (t, mgr) = Some (t1, mgr')" "sm_sched_structs mgr' i \<noteq> None"
      "sm_shm_states mgr' = (sm_shm_states mgr)(i \<mapsto> ?R)"
      "if all_swapped (ss_entries st u) then (t1, put_state mgr (int i) st1) = snd (pod_watchdog_cleanup_swap_data t mgr (int i) (int u))
       else t1 = t \<and> st1 = st"
    have "strip st1 = strip st"
    proof (cases "all_swapped (ss_entries st u)")
      case True
      obtain t' st' where c: "snd (pod_watchdog_cleanup_swap_data t mgr (int i) (int u)) = (t', put_state mgr (int i) st')"
        "t' = t \<and> st' = st \<or> (\<exists>r. shm_free t st (int u) = (r, t', st'))" using cleanup_result [OF Cons.prems(1,2) u(1), of t] by blast
      have "sm_shm_states (put_state mgr (int i) st1) i = sm_shm_states (put_state mgr (int i) st') i" using True p(4) c(1) by simp
      then have "st1 = st'" by simp
      then show ?thesis using c(2) strip_shm_free [of t st "int u"] by auto
    qed (use p(4) in simp)
    then have "advances now_ns v seq st st1" "ss_vnpu_bitmap st1 = ss_vnpu_bitmap st"
      using advances_same_marks [OF strip_marks] stripD(1) by blast+
    moreover have "advances now_ns v seq st1 (fold (proxy_if_marked u) slots st1)" by (rule advances_fold) (rule advances_proxy)
    moreover have "advances now_ns v seq (fold (proxy_if_marked u) slots st1) ?R" by (rule advances_same_marks) (rule reset_marks)
    ultimately have "advances now_ns v seq st ?R" "ss_vnpu_bitmap ?R = ss_vnpu_bitmap st"
      using advances_trans by (blast, simp add: bitmap_frame)
    then show ?thesis using p by (intro exI [of _ t1] exI [of _ mgr'] exI [of _ ?R]) simp
  qed
  then obtain t1 mgr1 st1 where s: "poll_vnpu now_ns i u (t, mgr) = Some (t1, mgr1)" "sm_shm_states mgr1 i = Some st1"
    "sm_sched_structs mgr1 i \<noteq> None" "ss_vnpu_bitmap st1 = ss_vnpu_bitmap st" "advances now_ns v seq st st1" by blast
  have "\<exists>t' mgr' st'. poll_vnpus now_ns i vs (t1, mgr1) = Some (t', mgr') \<and> sm_shm_states mgr' i = Some st'
      \<and> sm_sched_structs mgr' i \<noteq> None \<and> advances now_ns v seq st1 st'"
    by (rule Cons.IH [OF Cons.prems(1) s(2,3)]) (use Cons.prems(4,5) s(4) in auto)
  then show ?case using s(1,5) advances_trans by fastforce
qed auto

text \<open>C40 A swap-out command cannot hang on dead processes: after a poll of the die, an open command that is owed
  only by slots whose process has gone or has not given a sign of life in time is complete.\<close>

theorem dead_processes_cannot_block:
  assumes i: "i < MAX_NPU_PER_NODE" and st: "sm_shm_states mgr i = Some st" and sched: "sm_sched_structs mgr i \<noteq> None"
    and ids: "\<forall>u \<in> set (bitmap_ids (ss_vnpu_bitmap st)). u < MAX_VNPU_SCHED"
    and cmd: "cmd_open st v seq" "v < MAX_VNPU_PER_DIE"
    and dead: "\<forall>s < MAX_PROCESSES_PER_VNPU. pr_ack_pending_seq (slot_at st v s) = seq \<longrightarrow> \<not> alive now_ns (slot_at st v s)"
  shows "\<exists>t' mgr' st'. poll_die now_ns i (t, mgr) = Some (t', mgr') \<and> sm_shm_states mgr' i = Some st' \<and> cmd_done st'"
proof -
  obtain t1 mgr1 st1 where p: "poll_vnpus now_ns i (bitmap_ids (ss_vnpu_bitmap st)) (t, mgr) = Some (t1, mgr1)"
    "sm_shm_states mgr1 i = Some st1" "advances now_ns v seq st st1"
    using poll_vnpus_advances [OF i st sched _ ids, of now_ns t v seq] by blast
  obtain t2 st2 where r: "reap_dead_processes now_ns PROCESS_ALIVE_TIMEOUT_NS (t1, st1) = (t2, st2)" by fastforce
  let ?st = "try_complete_locked st2"
  have "\<exists>sch. shm_manager_get_sched_struct mgr (int i) = Some sch" using sched i by (simp add: shm_manager_get_sched_struct_def)
  then have poll: "poll_die now_ns i (t, mgr) = Some (t2, put_state (put_state mgr1 (int i) st2) (int i) ?st)"
    using st p(1,2) r i by (auto simp: poll_die_def shm_manager_try_complete_swap_cmd_def get_put_state)
  have a2: "advances now_ns v seq st1 st2" using reap_dead_advances [of now_ns v seq st1 t1] r by simp
  have "cmd_done ?st"
  proof (cases "cmd_done st2")
    case True
    then show ?thesis by (simp add: cmd_done_def try_complete_locked_def Let_def)
  next
    case False
    then have "\<not> cmd_done st1" using a2 by (auto simp: advances_def)
    then have o1: "cmd_open st1 v seq" and s1: "\<And>s. s < MAX_PROCESSES_PER_VNPU \<Longrightarrow> pr_ack_pending_seq (slot_at st1 v s) = seq \<Longrightarrow> \<not> alive now_ns (slot_at st1 v s)"
      using p(3) cmd(1) dead unfolding advances_def by blast+
    have o2: "cmd_open st2 v seq" using a2 o1 False unfolding advances_def by blast
    have "pr_ack_pending_seq (slot_at st2 v s) \<noteq> seq" if s: "s < MAX_PROCESSES_PER_VNPU" for s
    proof
      assume e: "pr_ack_pending_seq (slot_at st2 v s) = seq"
      then have "pr_ack_pending_seq (slot_at st1 v s) = seq" using a2 o1 False s unfolding advances_def by blast
      moreover have "alive now_ns (slot_at st1 v s)"
        by (rule reap_slots_clears [OF all_slots_set(2) _ o1 s r [unfolded reap_dead_eq] False e]) (use s cmd(2) in \<open>simp add: all_slots_set\<close>)
      ultimately show False using s1 [OF s] by blast
    qed
    then have "\<not> swap_cmd_has_pending_ack_locked st2 (int v) seq"
      by (auto simp: swap_cmd_has_pending_ack_locked_def find_entry_def owes_ack_def list_ex_iff)
    then show ?thesis using o2 cmd(2)
      by (simp add: cmd_done_def cmd_open_def try_complete_locked_def Let_def swap_cmd_mark_completed_locked_def)
  qed
  then show ?thesis using poll by simp
qed

section \<open>Ranges of a vNPU that timed out\<close>

lemma poll_vnpu_due:
  assumes "i < MAX_NPU_PER_NODE" "sm_shm_states mgr i = Some st" "sm_sched_structs mgr i = Some sched"
    "v \<in> set (bitmap_ids (ss_vnpu_bitmap st))" "v < MAX_VNPU_SCHED" "ts_last_alive_time_ns sched v \<noteq> 0"
    "ts_last_alive_time_ns sched v \<le> now_ns" "now_ns - ts_last_alive_time_ns sched v > POD_ALIVE_TIMEOUT_NS"
  shows "\<exists>t1 st1 mgr'. poll_vnpu now_ns i v (t, mgr) = Some (t1, mgr')
    \<and> sm_shm_states mgr' = (sm_shm_states mgr)(i \<mapsto> reset_runtime_state (fold (proxy_if_marked v) slots st1) v)
    \<and> (if all_swapped (ss_entries st v) then (t1, put_state mgr (int i) st1) = snd (pod_watchdog_cleanup_swap_data t mgr (int i) (int v))
       else t1 = t \<and> st1 = st)"
proof (rule poll_vnpu_cases [OF assms(1-5), of now_ns t])
  assume "ts_last_alive_time_ns sched v = 0 \<or> now_ns < ts_last_alive_time_ns sched v \<or>
    now_ns - ts_last_alive_time_ns sched v \<le> POD_ALIVE_TIMEOUT_NS"
  then show ?thesis using assms(6-8) by auto
qed blast

lemma reset_holds:
  assumes "v < MAX_VNPU_PER_DIE"
  shows "holds (dies(i \<mapsto> reset_runtime_state st v)) =
    (\<lambda>k. if \<exists>s < MAX_PROCESSES_PER_VNPU. k = (i, v, s) then None else holds (dies(i \<mapsto> st)) k)"
  using assms by (auto simp: holds_def reset_runtime_state_def upd_entry_def reset_process_def Let_def fun_eq_iff)

lemma proxies_holds: "holds (dies(i \<mapsto> fold (proxy_if_marked v) ss st)) = holds (dies(i \<mapsto> st))"
  by (induction ss arbitrary: st) (simp_all add: proxy_if_marked_holds)

lemma swap_state_scan_swapped:
  "fst (swap_state_scan ps is (b, off, sz)) \<longleftrightarrow> b \<and> (\<forall>i \<in> set is. pr_active (ps i) \<longrightarrow> pr_swapped (ps i))"
  by (induction "is" arbitrary: b off sz) auto

lemma all_swapped_slots:
  assumes "all_swapped e" "s < MAX_PROCESSES_PER_VNPU" "pr_active (ve_processes e s)"
  shows "pr_swapped (ve_processes e s)"
proof (rule ccontr)
  assume n: "\<not> pr_swapped (ve_processes e s)"
  let ?act = "filter (\<lambda>i. pr_active (ve_processes e i)) slots"
  have "s \<in> set ?act" using assms(2,3) by simp
  then have "length (filter (\<lambda>i. pr_swapped (ve_processes e i)) ?act) < length ?act" using n by (rule length_filter_less)
  then show False using assms(1) by (simp add: all_swapped_def Let_def)
qed

lemma cleanup_all_swapped:
  assumes "i < MAX_NPU_PER_NODE" "sm_shm_states mgr i = Some st" "v \<in> set (bitmap_ids (ss_vnpu_bitmap st))"
    "all_swapped (ss_entries st v)" "shm_free t st (int v) = (r, t', st')"
  shows "snd (pod_watchdog_cleanup_swap_data t mgr (int i) (int v)) = (t', put_state mgr (int i) st')"
proof -
  have get: "shm_manager_get_state mgr (int i) = Some st" using assms(1,2) by (simp add: get_state_Some)
  have e: "find_entry st (int v) = Some (ss_entries st v)" using assms(3) by (simp add: find_entry_def bitmap_ids_set)
  have "fst (swap_state_scan (ve_processes (ss_entries st v)) slots (True, 0, 0))"
    unfolding swap_state_scan_swapped using all_swapped_slots [OF assms(4)] by simp
  then obtain off sz where s: "shm_manager_get_swap_state mgr (int i) (int v) = (ENPU_SUCCESS, Some (True, off, sz))"
    using get e by (cases "swap_state_scan (ve_processes (ss_entries st v)) slots (True, 0, 0)")
      (simp add: shm_manager_get_swap_state_def)
  have "snd (shm_manager_set_swap_state (put_state mgr (int i) st') (int i) (int v) 0 0) = put_state mgr (int i) st'"
    by (simp add: shm_manager_set_swap_state_def split: option.split)
  then show ?thesis using s get assms(5)
    by (cases "shm_manager_set_swap_state (put_state mgr (int i) st') (int i) (int v) 0 0")
      (simp add: pod_watchdog_cleanup_swap_data_def)
qed

text \<open>Forgetting a range that is recorded loses it.\<close>

lemma forget_range_leaks:
  assumes o: "owned h t" and k: "h k = Some (off, n)" "k \<in> K"
  shows "\<not> no_leak (h |` (- K)) t"
proof
  assume nl: "no_leak (h |` (- K)) t"
  obtain len where "(unat off, len) \<in> tlsf_ranges t" using ownedD(2) [OF o k(1)] by blast
  then obtain k' off' n' where k': "(h |` (- K)) k' = Some (off', n')" "unat off' = unat off"
    using nl by (auto simp: no_leak_def)
  then have "off' = off" "h k' = Some (off', n')" "k' \<notin> K" by (auto simp: word_unat_eq_iff restrict_map_def split: if_splits)
  then show False using ownedD(3) [OF o k(1), of k' n'] k(2) by simp
qed

text \<open>When the watchdog handles a vNPU that timed out, no range is lost exactly if all its active processes were
  swapped out or none of its slots holds a range. In the remaining case, a process that was given a range and
  died before it was swapped out, the range is forgotten without being freed.\<close>

lemma timeout_loses_ranges_iff:
  assumes i: "i < MAX_NPU_PER_NODE" and st: "sm_shm_states mgr i = Some st" and sched: "sm_sched_structs mgr i = Some sched"
    and v: "v \<in> set (bitmap_ids (ss_vnpu_bitmap st))" "v < MAX_VNPU_SCHED"
    and due: "ts_last_alive_time_ns sched v \<noteq> 0" "ts_last_alive_time_ns sched v \<le> now_ns"
      "now_ns - ts_last_alive_time_ns sched v > POD_ALIVE_TIMEOUT_NS"
    and o: "owned (holds (sm_shm_states mgr)) t" and nl: "no_leak (holds (sm_shm_states mgr)) t"
  shows "\<exists>t' mgr'. poll_vnpu now_ns i v (t, mgr) = Some (t', mgr') \<and> (no_leak (holds (sm_shm_states mgr')) t' \<longleftrightarrow>
    all_swapped (ss_entries st v) \<or> (\<forall>s < MAX_PROCESSES_PER_VNPU. pr_swap_size (slot_at st v s) = 0))"
proof -
  let ?dies = "sm_shm_states mgr" and ?R = "\<lambda>st1. reset_runtime_state (fold (proxy_if_marked v) slots st1) v"
  let ?K = "{(i, v, s) |s. s < MAX_PROCESSES_PER_VNPU}"
  have vd: "v < MAX_VNPU_PER_DIE" using v(1) by (simp add: bitmap_ids_set)
  have same: "?dies(i \<mapsto> st) = ?dies" using st by auto
  have R: "holds (?dies(i \<mapsto> ?R st1)) = holds (?dies(i \<mapsto> st1)) |` (- ?K)" for st1
    unfolding reset_holds [OF vd] proxies_holds by (auto simp: restrict_map_def fun_eq_iff)
  obtain t1 st1 mgr' where p: "poll_vnpu now_ns i v (t, mgr) = Some (t1, mgr')" "sm_shm_states mgr' = ?dies(i \<mapsto> ?R st1)"
    and c: "if all_swapped (ss_entries st v) then (t1, put_state mgr (int i) st1) = snd (pod_watchdog_cleanup_swap_data t mgr (int i) (int v))
       else t1 = t \<and> st1 = st"
    using poll_vnpu_due [OF i st sched v due] by metis
  have "no_leak (holds (sm_shm_states mgr')) t1 \<longleftrightarrow>
      all_swapped (ss_entries st v) \<or> (\<forall>s < MAX_PROCESSES_PER_VNPU. pr_swap_size (slot_at st v s) = 0)"
  proof (cases "all_swapped (ss_entries st v)")
    case True
    obtain r t2 st2 where f: "shm_free t st (int v) = (r, t2, st2)" by (metis prod_cases3)
    have "(t1, put_state mgr (int i) st1) = (t2, put_state mgr (int i) st2)"
      using c True cleanup_all_swapped [OF i st v(1) True f] by simp
    then have "t1 = t2" "sm_shm_states (put_state mgr (int i) st1) i = sm_shm_states (put_state mgr (int i) st2) i" by simp_all
    then have eq: "t1 = t2" "st1 = st2" by simp_all
    note spec = shm_free_spec [of ?dies i, OF st o f]
    have "holds (?dies(i \<mapsto> st2)) |` (- ?K) = holds (?dies(i \<mapsto> st2))"
      using spec(3) vd by (auto simp: restrict_map_def fun_eq_iff)
    then show ?thesis using spec(2) [OF nl] True unfolding p(2) R eq by simp
  next
    case False
    then have eq: "t1 = t" "st1 = st" using c by simp_all
    show ?thesis
    proof (cases "\<forall>s < MAX_PROCESSES_PER_VNPU. pr_swap_size (slot_at st v s) = 0")
      case True
      then have "holds ?dies k = None" if "k \<in> ?K" for k using that st by (auto simp: holds_def)
      then have "holds ?dies |` (- ?K) = holds ?dies" by (auto simp: restrict_map_def fun_eq_iff)
      then show ?thesis using nl True unfolding p(2) R eq same by simp
    next
      case nonzero: False
      then obtain s where s: "s < MAX_PROCESSES_PER_VNPU" "pr_swap_size (slot_at st v s) \<noteq> 0" by blast
      then obtain off n where "holds ?dies (i, v, s) = Some (off, n)" using st vd by (auto simp: holds_def Let_def)
      from forget_range_leaks [OF o this, of ?K] s(1) show ?thesis using False nonzero unfolding p(2) R eq same by blast
    qed
  qed
  then show ?thesis using p(1) by blast
qed

section \<open>Examples\<close>

text \<open>A die with one vNPU whose slot 0 holds a range and owes an acknowledgement, with a process (\<open>a\<close>) or without.\<close>

definition demo_held :: "bool \<Rightarrow> shm_state" where
  "demo_held a = (upd_process demo_die 0 0 (\<lambda>pe. pe\<lparr>pr_active := a, pr_swap_size := 200, pr_ack_pending_seq := 1\<rparr>))
     \<lparr>ss_vnpu_bitmap := (1, 0), ss_swap_cmd := (ss_swap_cmd demo_die)
       \<lparr>cm_action := SWAP_ACTION_OUT, cm_cmd_seq := 1, cm_target_vnpu_id := 0, cm_completed := False\<rparr>\<rparr>"

definition demo_wd_mgr :: "bool \<Rightarrow> shm_manager" where
  "demo_wd_mgr a = \<lparr>sm_shm_states = [0 \<mapsto> demo_held a], sm_sched_structs = [0 \<mapsto> sched_init\<lparr>ts_last_alive_time_ns := (\<lambda>_. 1)\<rparr>],
     sm_shm_state_count = 1, sm_initialized = True\<rparr>"

definition demo_wd_pool :: tlsf_manager where
  "demo_wd_pool = snd (tlsf_alloc True demo_block demo_pool 200)"

lemma demo_held_slot:
  "slot_at (demo_held a) v s = (if v = 0 \<and> s = 0
     then process_init\<lparr>pr_active := a, pr_swap_size := 200, pr_ack_pending_seq := 1\<rparr> else process_init)"
  by (simp add: demo_held_def demo_die_def upd_process_def upd_entry_def shm_state_posix_shm_create_def entry_init_def
      dec_int_def dec_nat.simps process_init_def)

lemma demo_held_facts:
  "bitmap_ids (ss_vnpu_bitmap (demo_held a)) = [0]" "cmd_open (demo_held a) 0 1"
  "owned (holds [0 \<mapsto> demo_held a]) demo_wd_pool" "no_leak (holds [0 \<mapsto> demo_held a]) demo_wd_pool"
proof -
  have "bitmap_ids (1, 0) = [0]" by code_simp
  then show "bitmap_ids (ss_vnpu_bitmap (demo_held a)) = [0]" by (simp add: demo_held_def)
  show "cmd_open (demo_held a) 0 1" by (simp add: cmd_open_def demo_held_def)
  have "fst (tlsf_alloc True demo_block demo_pool 200) = 0" unfolding demo_pool_def by code_simp
  then have a: "tlsf_alloc (fst (True, demo_block)) (snd (True, demo_block)) demo_pool 200 = (0, demo_wd_pool)"
    unfolding demo_wd_pool_def by (metis fst_conv prod.collapse snd_conv)
  have o: "owned Map.empty demo_pool" "no_leak Map.empty demo_pool"
    using demo_resolver_facts(5,6) by (simp_all add: owned_def no_leak_def)
  have req: "tlsf_request 200" by (simp add: tlsf_request_def)
  have h: "holds [0 \<mapsto> demo_held a] = [(0, 0, 0) \<mapsto> (0, 200)]"
    by (auto simp: holds_def demo_held_slot process_init_def fun_eq_iff)
  show "owned (holds [0 \<mapsto> demo_held a]) demo_wd_pool" "no_leak (holds [0 \<mapsto> demo_held a]) demo_wd_pool"
    unfolding h using owned_alloc [OF o(1) req a, of "(0, 0, 0)"] o(2) by simp_all
qed

text \<open>The process has a range; its last sign of life is 9 ns old, the timeout is 5 ns.\<close>

definition demo_expired :: shm_state where
  "demo_expired = upd_process (demo_held True) 0 0 (\<lambda>pe. pe\<lparr>pr_last_heartbeat_ns := 1\<rparr>)"

theorem reap_reclaims_ranges_witness:
  "\<exists>t' st'. holds [0 \<mapsto> demo_expired] (0, 0, 0) = Some (0, 200) \<and> pr_active (slot_at demo_expired 0 0)
     \<and> reap_dead_processes 10 5 (demo_wd_pool, demo_expired) = (t', st')
     \<and> \<not> pr_active (slot_at st' 0 0) \<and> holds [0 \<mapsto> st'] = Map.empty \<and> tlsf_ranges t' = {}"
proof -
  obtain t' st' where r: "reap_dead_processes 10 5 (demo_wd_pool, demo_expired) = (t', st')" by fastforce
  have "holds (Map.empty(0 \<mapsto> demo_expired)) = holds (Map.empty(0 \<mapsto> demo_held True))"
    unfolding demo_expired_def by (rule holds_cong) (simp_all add: upd_process_def upd_entry_def)
  then have h: "holds [0 \<mapsto> demo_expired] = holds [0 \<mapsto> demo_held True]" by simp
  have pe: "slot_at demo_expired v s = (if v = 0 \<and> s = 0
      then process_init\<lparr>pr_active := True, pr_swap_size := 200, pr_ack_pending_seq := 1, pr_last_heartbeat_ns := 1\<rparr> else process_init)" for v s
    by (simp add: demo_expired_def upd_process_def upd_entry_def demo_held_slot [unfolded upd_process_def])
  have e: "\<not> pr_active (slot_at demo_expired v s) \<or> expired 10 5 (slot_at demo_expired v s)" for v s
    unfolding pe by (simp add: expired_def process_init_def)
  have "[0 \<mapsto> demo_expired] 0 = Some demo_expired" by simp
  note reap = reap_reclaims_ranges [of "[0 \<mapsto> demo_expired]" 0, OF this _ _ r, unfolded h, OF demo_held_facts(3,4)]
  have empty: "holds [0 \<mapsto> st'] = Map.empty" using reap e by (auto simp: holds_def fun_eq_iff)
  moreover have "\<not> pr_active (slot_at st' 0 0)" using reap e by simp
  moreover have "tlsf_ranges t' = {}" using reap unfolding no_leak_def fun_upd_upd empty by auto
  moreover have "holds [0 \<mapsto> demo_expired] (0, 0, 0) = Some (0, 200)" "pr_active (slot_at demo_expired 0 0)"
    by (simp_all add: holds_def pe process_init_def)
  ultimately show ?thesis using r by blast
qed

theorem dead_processes_cannot_block_witness:
  "\<exists>t' mgr' st'. poll_die 10 0 (demo_wd_pool, demo_wd_mgr False) = Some (t', mgr') \<and> sm_shm_states mgr' 0 = Some st' \<and> cmd_done st'"
proof (rule dead_processes_cannot_block)
  show "sm_shm_states (demo_wd_mgr False) 0 = Some (demo_held False)" "sm_sched_structs (demo_wd_mgr False) 0 \<noteq> None"
    by (simp_all add: demo_wd_mgr_def)
  show "\<forall>u \<in> set (bitmap_ids (ss_vnpu_bitmap (demo_held False))). u < MAX_VNPU_SCHED" by (simp add: demo_held_facts)
  show "cmd_open (demo_held False) 0 1" by (rule demo_held_facts)
  show "\<forall>s < MAX_PROCESSES_PER_VNPU. pr_ack_pending_seq (slot_at (demo_held False) 0 s) = 1 \<longrightarrow> \<not> alive 10 (slot_at (demo_held False) 0 s)"
    by (auto simp: demo_held_slot process_init_def alive_def Let_def)
qed simp_all

theorem timeout_loses_ranges_iff_witness:
  "\<exists>t' mgr'. poll_vnpu 10000000000 0 0 (demo_wd_pool, demo_wd_mgr True) = Some (t', mgr')
     \<and> \<not> no_leak (holds (sm_shm_states mgr')) t'"
proof -
  have st: "sm_shm_states (demo_wd_mgr True) 0 = Some (demo_held True)"
    and sched: "sm_sched_structs (demo_wd_mgr True) 0 = Some (sched_init\<lparr>ts_last_alive_time_ns := (\<lambda>_. 1)\<rparr>)"
    by (simp_all add: demo_wd_mgr_def)
  have "\<not> all_swapped (ss_entries (demo_held True) 0)"
    using all_swapped_slots [of "ss_entries (demo_held True) 0" 0] by (auto simp: demo_held_slot process_init_def)
  moreover have "\<not> (\<forall>s < MAX_PROCESSES_PER_VNPU. pr_swap_size (slot_at (demo_held True) 0 s) = 0)"
    by (auto simp: demo_held_slot process_init_def intro: exI [of _ 0])
  moreover have "\<exists>t' mgr'. poll_vnpu 10000000000 0 0 (demo_wd_pool, demo_wd_mgr True) = Some (t', mgr')
      \<and> (no_leak (holds (sm_shm_states mgr')) t' \<longleftrightarrow> all_swapped (ss_entries (demo_held True) 0)
        \<or> (\<forall>s < MAX_PROCESSES_PER_VNPU. pr_swap_size (slot_at (demo_held True) 0 s) = 0))"
    by (rule timeout_loses_ranges_iff [OF _ st sched]) (simp_all add: demo_held_facts demo_wd_mgr_def)
  ultimately show ?thesis by blast
qed

end
