(* ===== verification/Hash_Map.thy ===== *)
theory Hash_Map
  imports Enpu_Prelude
begin

text \<open>
  The chained hash map of the runtime (\<^verbatim>\<open>vcann-rt/src/utils/hash_map.c\<close>), keyed by addresses. A bucket is the
  list of its nodes from the head on. The locale \<open>address_map\<close> is what clients rely on: lookups after an insertion
  or a removal, and the cases in which an insertion fails; the hash map is its interpretation, and refines a
  finite map whose size it counts.
\<close>

section \<open>Operations\<close>

record 'p map_value =
  mv_ptr :: 'p
  mv_capture_status :: bool

record 'p hash_map =
  hm_buckets :: "nat \<Rightarrow> (u64 \<times> 'p map_value) list"
  hm_capacity :: u64
  hm_size :: u64

abbreviation (input) HASH_MOD :: u64 where "HASH_MOD \<equiv> 2654435761"

definition hash_ptr :: "u64 \<Rightarrow> u64 \<Rightarrow> u64" where
  "hash_ptr ptr capacity = (if capacity = 0 then 0 else ptr * HASH_MOD mod capacity)"

text \<open>\<open>map_ok\<close> and \<open>buckets_ok\<close> are the outcomes of the two allocations; a node pointer takes 8 bytes.\<close>

definition hashmap_create :: "bool \<Rightarrow> bool \<Rightarrow> u64 \<Rightarrow> 'p hash_map option" where
  "hashmap_create map_ok buckets_ok capacity =
     (if capacity = 0 then None
      else if capacity > -1 div 8 then None
      else if \<not> map_ok then None
      else if \<not> buckets_ok then None
      else Some \<lparr>hm_buckets = (\<lambda>_. []), hm_capacity = capacity, hm_size = 0\<rparr>)"

definition bucket_of :: "'p hash_map \<Rightarrow> u64 \<Rightarrow> nat" where
  "bucket_of m key = unat (hash_ptr key (hm_capacity m))"

fun update_node :: "u64 \<Rightarrow> 'v \<Rightarrow> (u64 \<times> 'v) list \<Rightarrow> (u64 \<times> 'v) list option" where
  "update_node key v [] = None"
| "update_node key v ((k, w) # ns) =
     (if k = key then Some ((k, v) # ns) else map_option ((#) (k, w)) (update_node key v ns))"

definition hashmap_put :: "bool \<Rightarrow> 'p hash_map \<Rightarrow> u64 \<Rightarrow> 'p \<Rightarrow> bool \<Rightarrow> int \<times> 'p hash_map" where
  "hashmap_put mem_ok m key ptr capture_status =
     (if key = 0 then (-1, m)
      else let idx = bucket_of m key; v = \<lparr>mv_ptr = ptr, mv_capture_status = capture_status\<rparr> in
        case update_node key v (hm_buckets m idx) of
          Some ns \<Rightarrow> (0, m\<lparr>hm_buckets := (hm_buckets m)(idx := ns)\<rparr>)
        | None \<Rightarrow>
          if \<not> mem_ok then (-1, m)
          else (0, m\<lparr>hm_buckets := (hm_buckets m)(idx := (key, v) # hm_buckets m idx), hm_size := hm_size m + 1\<rparr>))"

definition hashmap_get :: "'p hash_map \<Rightarrow> u64 \<Rightarrow> int \<times> 'p map_value option" where
  "hashmap_get m key =
     (if key = 0 then (-1, None)
      else case map_of (hm_buckets m (bucket_of m key)) key of None \<Rightarrow> (-1, None) | Some v \<Rightarrow> (0, Some v))"

definition hashmap_get_ptr :: "'p hash_map \<Rightarrow> u64 \<Rightarrow> int \<times> 'p option" where
  "hashmap_get_ptr m key =
     (if key = 0 then (-1, None)
      else case map_of (hm_buckets m (bucket_of m key)) key of None \<Rightarrow> (-1, None) | Some v \<Rightarrow> (0, Some (mv_ptr v)))"

definition hashmap_get_capture_status :: "'p hash_map \<Rightarrow> u64 \<Rightarrow> int \<times> bool option" where
  "hashmap_get_capture_status m key =
     (if key = 0 then (-1, None)
      else case map_of (hm_buckets m (bucket_of m key)) key of
        None \<Rightarrow> (-1, None) | Some v \<Rightarrow> (0, Some (mv_capture_status v)))"

fun remove_node :: "u64 \<Rightarrow> (u64 \<times> 'v) list \<Rightarrow> (u64 \<times> 'v) list option" where
  "remove_node key [] = None"
| "remove_node key ((k, w) # ns) = (if k = key then Some ns else map_option ((#) (k, w)) (remove_node key ns))"

definition hashmap_remove :: "'p hash_map \<Rightarrow> u64 \<Rightarrow> int \<times> 'p hash_map" where
  "hashmap_remove m key =
     (if key = 0 then (-1, m)
      else let idx = bucket_of m key in
        case remove_node key (hm_buckets m idx) of
          None \<Rightarrow> (-1, m)
        | Some ns \<Rightarrow> (0, m\<lparr>hm_buckets := (hm_buckets m)(idx := ns), hm_size := hm_size m - 1\<rparr>))"

definition hashmap_contains :: "'p hash_map \<Rightarrow> u64 \<Rightarrow> int" where
  "hashmap_contains m key =
     (if key = 0 then 0
      else case map_of (hm_buckets m (bucket_of m key)) key of None \<Rightarrow> 0 | Some _ \<Rightarrow> 1)"

definition hashmap_size :: "'p hash_map option \<Rightarrow> u64" where
  "hashmap_size m = (case m of None \<Rightarrow> 0 | Some m \<Rightarrow> hm_size m)"

section \<open>The interface of clients\<close>

locale address_map =
  fixes inv :: "'m \<Rightarrow> bool"
    and lookup :: "'m \<Rightarrow> u64 \<rightharpoonup> 'v"
    and put :: "bool \<Rightarrow> 'm \<Rightarrow> u64 \<Rightarrow> 'v \<Rightarrow> int \<times> 'm"
    and remove :: "'m \<Rightarrow> u64 \<Rightarrow> int \<times> 'm"
  assumes put_ok: "inv m \<Longrightarrow> key \<noteq> 0 \<Longrightarrow> mem_ok \<or> lookup m key \<noteq> None \<Longrightarrow>
        fst (put mem_ok m key v) = 0 \<and> inv (snd (put mem_ok m key v)) \<and> lookup (snd (put mem_ok m key v)) = (lookup m)(key \<mapsto> v)"
    and put_fails: "inv m \<Longrightarrow> key = 0 \<or> \<not> mem_ok \<and> lookup m key = None \<Longrightarrow> put mem_ok m key v = (-1, m)"
    and remove_ok: "inv m \<Longrightarrow> lookup m key \<noteq> None \<Longrightarrow>
        fst (remove m key) = 0 \<and> inv (snd (remove m key)) \<and> lookup (snd (remove m key)) = (lookup m)(key := None)"
    and remove_fails: "inv m \<Longrightarrow> lookup m key = None \<Longrightarrow> remove m key = (-1, m)"
begin

text \<open>A loop that inserts entries one after the other and stops at the first failure. \<open>mems\<close> gives
  the outcome of the allocation of each round.\<close>

fun put_list :: "(nat \<Rightarrow> bool) \<Rightarrow> nat \<Rightarrow> 'm \<Rightarrow> (u64 \<times> 'v) list \<Rightarrow> int \<times> 'm" where
  "put_list mems i m [] = (0, m)"
| "put_list mems i m ((k, v) # kvs) =
     (case put (mems i) m k v of (ret, m') \<Rightarrow> if ret \<noteq> 0 then (ret, m') else put_list mems (Suc i) m' kvs)"

lemma put_inv: "inv m \<Longrightarrow> inv (snd (put mem_ok m key v))"
  by (metis put_fails put_ok snd_conv)

lemma put_list_inv: "inv m \<Longrightarrow> inv (snd (put_list mems i m kvs))"
proof (induction mems i m kvs rule: put_list.induct)
  case (2 mems i m k v kvs)
  obtain r m' where p: "put (mems i) m k v = (r, m')" by fastforce
  then have "inv m'" using put_inv [OF 2(2), of "mems i" k v] by simp
  then show ?case using 2(1) [OF p [symmetric]] p by (simp add: put_inv)
qed simp

lemma put_list_ok:
  "inv m \<Longrightarrow> fst (put_list mems i m kvs) = 0 \<Longrightarrow> lookup (snd (put_list mems i m kvs)) = lookup m ++ map_of (rev kvs)"
proof (induction mems i m kvs rule: put_list.induct)
  case (2 mems i m k v kvs)
  obtain r m' where p: "put (mems i) m k v = (r, m')" by fastforce
  then have r: "r = 0" using 2(3) by (auto split: if_splits)
  then have m': "inv m' \<and> lookup m' = (lookup m)(k \<mapsto> v)"
    using put_ok [OF 2(2), of k "mems i" v] put_fails [OF 2(2), of k "mems i" v] p
    by (cases "k \<noteq> 0 \<and> (mems i \<or> lookup m k \<noteq> None)") auto
  then show ?case using 2(1) [OF p [symmetric]] 2(3) p r by (simp add: map_add_upd_left del: fun_upd_apply)
qed simp

lemma put_list_total:
  assumes "inv m" "\<forall>k \<in> fst ` set kvs. k \<noteq> 0 \<and> ((\<forall>j. mems j) \<or> lookup m k \<noteq> None)"
  shows "fst (put_list mems i m kvs) = 0"
  using assms
proof (induction mems i m kvs rule: put_list.induct)
  case (2 mems i m k v kvs)
  obtain r m' where p: "put (mems i) m k v = (r, m')" by fastforce
  have "k \<noteq> 0" "mems i \<or> lookup m k \<noteq> None" using 2(3) by auto
  from put_ok [OF 2(2) this, of v] p have m': "r = 0" "inv m'" "lookup m' = (lookup m)(k \<mapsto> v)" by auto
  have "\<forall>k' \<in> fst ` set kvs. k' \<noteq> 0 \<and> ((\<forall>j. mems j) \<or> lookup m' k' \<noteq> None)" using 2(3) m'(3) by auto
  then have "fst (put_list mems (Suc i) m' kvs) = 0" using 2(1) [OF p [symmetric]] m'(1,2) by blast
  then show ?case using p m'(1) by simp
qed simp

end

section \<open>The hash map keeps the contract\<close>

definition hash_lookup :: "'p hash_map \<Rightarrow> u64 \<rightharpoonup> 'p map_value" where
  "hash_lookup m key = (if key = 0 then None else map_of (hm_buckets m (bucket_of m key)) key)"

text \<open>Every node is in the bucket of its key, keys are unique and not NULL, and the size counts the nodes.\<close>

definition hash_inv :: "'p hash_map \<Rightarrow> bool" where
  "hash_inv m \<longleftrightarrow> hm_capacity m \<noteq> 0 \<and> hm_capacity m \<le> -1 div 8
     \<and> (\<forall>i. distinct (map fst (hm_buckets m i)) \<and> (\<forall>k \<in> fst ` set (hm_buckets m i). k \<noteq> 0 \<and> bucket_of m k = i))
     \<and> finite (dom (hash_lookup m)) \<and> hm_size m = of_nat (card (dom (hash_lookup m)))"

lemma update_node_None: "update_node key v ns = None \<longleftrightarrow> map_of ns key = None"
  by (induction ns) auto

lemma update_node_Some:
  "update_node key v ns = Some ns' \<Longrightarrow> map_of ns' = (map_of ns)(key \<mapsto> v) \<and> map fst ns' = map fst ns"
proof (induction ns arbitrary: ns')
  case (Cons n ns)
  obtain k w where n: "n = (k, w)" by fastforce
  show ?case
  proof (cases "k = key")
    case True
    then show ?thesis using Cons.prems n by auto
  next
    case False
    then obtain ms where ms: "update_node key v ns = Some ms" "ns' = (k, w) # ms" using Cons.prems n by auto
    with Cons.IH [OF ms(1)] show ?thesis using n False by (simp add: fun_upd_twist del: fun_upd_apply)
  qed
qed simp

lemma remove_node_None: "remove_node key ns = None \<longleftrightarrow> map_of ns key = None"
  by (induction ns) auto

lemma remove_node_Some:
  "distinct (map fst ns) \<Longrightarrow> remove_node key ns = Some ns' \<Longrightarrow>
     map_of ns' = (map_of ns)(key := None) \<and> distinct (map fst ns') \<and> fst ` set ns' = fst ` set ns - {key}"
proof (induction ns arbitrary: ns')
  case (Cons n ns)
  obtain k w where n: "n = (k, w)" by fastforce
  show ?case
  proof (cases "k = key")
    case True
    then have "ns' = ns" "map_of ns key = None" "key \<notin> fst ` set ns" using Cons.prems n by (auto simp: map_of_eq_None_iff)
    then show ?thesis using True n Cons.prems(1) by (auto simp: fun_upd_idem)
  next
    case False
    then obtain ms where ms: "remove_node key ns = Some ms" "ns' = (k, w) # ms" using Cons.prems n by auto
    with Cons.IH [OF _ ms(1)] Cons.prems(1) show ?thesis using n False by (auto simp: fun_upd_twist)
  qed
qed simp

lemma hash_invD:
  assumes "hash_inv m"
  shows "distinct (map fst (hm_buckets m i))" "k \<in> fst ` set (hm_buckets m i) \<Longrightarrow> k \<noteq> 0 \<and> bucket_of m k = i"
    "finite (dom (hash_lookup m))" "hm_size m = of_nat (card (dom (hash_lookup m)))"
  using assms by (auto simp: hash_inv_def)

text \<open>Replacing a bucket replaces the entries whose key hashes there.\<close>

lemma hash_lookup_bucket:
  assumes ns: "map_of ns = (map_of (hm_buckets m (bucket_of m key)))(key := x)" and key: "key \<noteq> 0"
  shows "hash_lookup (m\<lparr>hm_buckets := (hm_buckets m)(bucket_of m key := ns), hm_size := n\<rparr>) = (hash_lookup m)(key := x)"
  using assms by (auto simp: hash_lookup_def bucket_of_def fun_eq_iff)

lemma hash_inv_bucket:
  assumes inv: "hash_inv m" and key: "key \<noteq> 0"
    and ns: "map_of ns = (map_of (hm_buckets m (bucket_of m key)))(key := x)" "distinct (map fst ns)"
      "fst ` set ns \<subseteq> insert key (fst ` set (hm_buckets m (bucket_of m key)))"
    and n: "n = of_nat (card (dom ((hash_lookup m)(key := x))))"
  shows "hash_inv (m\<lparr>hm_buckets := (hm_buckets m)(bucket_of m key := ns), hm_size := n\<rparr>)"
proof -
  let ?m = "m\<lparr>hm_buckets := (hm_buckets m)(bucket_of m key := ns), hm_size := n\<rparr>"
  note look = hash_lookup_bucket [OF ns(1) key, of n]
  have b: "bucket_of ?m k = bucket_of m k" for k by (simp add: bucket_of_def)
  have fin: "finite (dom ((hash_lookup m)(key := x)))" using hash_invD(3) [OF inv] by (cases x) auto
  have home: "k \<noteq> 0 \<and> bucket_of m k = i" if "k \<in> fst ` set (hm_buckets ?m i)" for k i
  proof (cases "i = bucket_of m key")
    case True
    then have "k = key \<or> k \<in> fst ` set (hm_buckets m i)" using that subsetD [OF ns(3), of k] by simp
    then show ?thesis using True key hash_invD(2) [OF inv] by blast
  next
    case False
    then show ?thesis using that hash_invD(2) [OF inv, of k i] by simp
  qed
  have dist: "distinct (map fst (hm_buckets ?m i))" for i using hash_invD(1) [OF inv] ns(2) by simp
  show ?thesis
    unfolding hash_inv_def look b
  proof (intro conjI allI ballI)
    show "hm_capacity ?m \<noteq> 0" "hm_capacity ?m \<le> -1 div 8" using inv by (simp_all add: hash_inv_def)
    show "distinct (map fst (hm_buckets ?m i))" for i by (rule dist)
    show "k \<noteq> 0" "bucket_of m k = i" if "k \<in> fst ` set (hm_buckets ?m i)" for k i using home [OF that] by blast+
    show "finite (dom ((hash_lookup m)(key := x)))" by (rule fin)
    show "hm_size ?m = of_nat (card (dom ((hash_lookup m)(key := x))))" using n by simp
  qed
qed

lemma hash_put_ok:
  assumes inv: "hash_inv m" and key: "key \<noteq> 0" and ok: "mem_ok \<or> hash_lookup m key \<noteq> None"
  shows "fst (hashmap_put mem_ok m key p c) = 0" "hash_inv (snd (hashmap_put mem_ok m key p c))"
    "hash_lookup (snd (hashmap_put mem_ok m key p c)) = (hash_lookup m)(key \<mapsto> \<lparr>mv_ptr = p, mv_capture_status = c\<rparr>)"
proof -
  let ?v = "\<lparr>mv_ptr = p, mv_capture_status = c\<rparr>" and ?b = "bucket_of m key"
  let ?ns = "hm_buckets m ?b"
  have "\<exists>ns n. hashmap_put mem_ok m key p c = (0, m\<lparr>hm_buckets := (hm_buckets m)(?b := ns), hm_size := n\<rparr>)
      \<and> map_of ns = (map_of ?ns)(key \<mapsto> ?v) \<and> distinct (map fst ns) \<and> fst ` set ns \<subseteq> insert key (fst ` set ?ns)
      \<and> n = of_nat (card (dom ((hash_lookup m)(key \<mapsto> ?v))))"
  proof (cases "update_node key ?v ?ns")
    case None
    then have new: "map_of ?ns key = None" by (simp add: update_node_None)
    then have l: "hash_lookup m key = None" by (simp add: hash_lookup_def)
    then have "card (dom ((hash_lookup m)(key \<mapsto> ?v))) = Suc (card (dom (hash_lookup m)))"
      using hash_invD(3) [OF inv] by (simp add: domIff)
    moreover have "key \<notin> fst ` set ?ns" using new by (simp add: map_of_eq_None_iff)
    ultimately show ?thesis
      using None key ok l hash_invD(1,4) [OF inv]
      by (intro exI [of _ "(key, ?v) # ?ns"] exI [of _ "hm_size m + 1"]) (auto simp: hashmap_put_def Let_def)
  next
    case (Some ns)
    note s = update_node_Some [OF Some]
    have "map_of ?ns key \<noteq> None" using Some update_node_None [of key ?v ?ns] by auto
    then have "dom ((hash_lookup m)(key \<mapsto> ?v)) = dom (hash_lookup m)" using key by (auto simp: hash_lookup_def)
    moreover have "fst ` set ns = fst ` set ?ns" using s by (metis list.set_map)
    ultimately show ?thesis
      using Some key s hash_invD(1,4) [OF inv]
      by (intro exI [of _ ns] exI [of _ "hm_size m"]) (auto simp: hashmap_put_def Let_def)
  qed
  then obtain ns n where eq: "hashmap_put mem_ok m key p c = (0, m\<lparr>hm_buckets := (hm_buckets m)(?b := ns), hm_size := n\<rparr>)"
    and ns: "map_of ns = (map_of ?ns)(key \<mapsto> ?v)" "distinct (map fst ns)" "fst ` set ns \<subseteq> insert key (fst ` set ?ns)"
    and n: "n = of_nat (card (dom ((hash_lookup m)(key \<mapsto> ?v))))" by blast
  show "fst (hashmap_put mem_ok m key p c) = 0" unfolding eq by simp
  show "hash_inv (snd (hashmap_put mem_ok m key p c))" unfolding eq snd_conv by (rule hash_inv_bucket [OF inv key ns n])
  show "hash_lookup (snd (hashmap_put mem_ok m key p c)) = (hash_lookup m)(key \<mapsto> ?v)"
    unfolding eq snd_conv by (rule hash_lookup_bucket [OF ns(1) key])
qed

lemma hash_remove_ok:
  assumes inv: "hash_inv m" and l: "hash_lookup m key \<noteq> None"
  shows "fst (hashmap_remove m key) = 0" "hash_inv (snd (hashmap_remove m key))"
    "hash_lookup (snd (hashmap_remove m key)) = (hash_lookup m)(key := None)"
proof -
  let ?b = "bucket_of m key" and ?n = "hm_size m - 1"
  let ?ns = "hm_buckets m ?b"
  have key: "key \<noteq> 0" and "map_of ?ns key \<noteq> None" using l by (auto simp: hash_lookup_def split: if_splits)
  then obtain ns where r: "remove_node key ?ns = Some ns" using remove_node_None [of key ?ns] by auto
  note s = remove_node_Some [OF hash_invD(1) [OF inv] r]
  have eq: "hashmap_remove m key = (0, m\<lparr>hm_buckets := (hm_buckets m)(?b := ns), hm_size := ?n\<rparr>)"
    using r key by (simp add: hashmap_remove_def Let_def)
  have "key \<in> dom (hash_lookup m)" using l by blast
  then have "card (dom (hash_lookup m)) = Suc (card (dom (hash_lookup m) - {key}))"
    using hash_invD(3) [OF inv] by (metis card_Suc_Diff1)
  moreover have "dom ((hash_lookup m)(key := None)) = dom (hash_lookup m) - {key}" by auto
  ultimately have n: "?n = of_nat (card (dom ((hash_lookup m)(key := None))))"
    using hash_invD(4) [OF inv] by simp
  show "fst (hashmap_remove m key) = 0" using eq by simp
  show "hash_lookup (snd (hashmap_remove m key)) = (hash_lookup m)(key := None)"
    using eq hash_lookup_bucket [of ns m key None ?n] s key by simp
  show "hash_inv (snd (hashmap_remove m key))"
    using eq hash_inv_bucket [OF inv key _ _ _ n, of ns] s by auto
qed

lemma hash_remove_absent: "hash_lookup m key = None \<Longrightarrow> hashmap_remove m key = (-1, m)"
  by (auto simp: hashmap_remove_def hash_lookup_def Let_def remove_node_None split: option.split if_splits)

lemma hash_put_fails:
  "key = 0 \<or> \<not> mem_ok \<and> hash_lookup m key = None \<Longrightarrow> hashmap_put mem_ok m key p c = (-1, m)"
  by (auto simp: hashmap_put_def hash_lookup_def Let_def split: option.split if_splits)
    (metis option.distinct(1) update_node_None)

lemma hash_get:
  "hashmap_get m key = (case hash_lookup m key of None \<Rightarrow> (-1, None) | Some v \<Rightarrow> (0, Some v))"
  "hashmap_get_ptr m key = (case hash_lookup m key of None \<Rightarrow> (-1, None) | Some v \<Rightarrow> (0, Some (mv_ptr v)))"
  "hashmap_get_capture_status m key = (case hash_lookup m key of None \<Rightarrow> (-1, None) | Some v \<Rightarrow> (0, Some (mv_capture_status v)))"
  "hashmap_contains m key = (case hash_lookup m key of None \<Rightarrow> 0 | Some v \<Rightarrow> 1)"
  by (auto simp: hashmap_get_def hashmap_get_ptr_def hashmap_get_capture_status_def hashmap_contains_def hash_lookup_def
      split: option.split)

lemma map_value_eta [simp]: "\<lparr>mv_ptr = mv_ptr v, mv_capture_status = mv_capture_status v\<rparr> = v"
  by (cases v) simp

lemma hash_create_inv:
  assumes "hashmap_create map_ok buckets_ok capacity = Some m"
  shows "hash_inv m \<and> hash_lookup m = Map.empty"
proof -
  have m: "m = \<lparr>hm_buckets = (\<lambda>_. []), hm_capacity = capacity, hm_size = 0\<rparr>" "capacity \<noteq> 0" "capacity \<le> -1 div 8"
    using assms by (auto simp: hashmap_create_def not_less split: if_splits)
  then have "hash_lookup m = Map.empty" by (simp add: hash_lookup_def fun_eq_iff)
  then show ?thesis using m by (simp add: hash_inv_def)
qed

interpretation hm: address_map hash_inv hash_lookup
    "\<lambda>mem_ok m key v. hashmap_put mem_ok m key (mv_ptr v) (mv_capture_status v)" hashmap_remove
  by unfold_locales (simp_all add: hash_put_ok hash_put_fails hash_remove_ok hash_remove_absent)

section \<open>Refinement of a finite map\<close>

datatype 'p map_op = Put bool u64 'p bool | Remove u64

fun hash_step :: "'p map_op \<Rightarrow> 'p hash_map \<Rightarrow> int \<times> 'p hash_map" where
  "hash_step (Put mem_ok key p c) m = hashmap_put mem_ok m key p c"
| "hash_step (Remove key) m = hashmap_remove m key"

fun map_step :: "'p map_op \<Rightarrow> (u64 \<rightharpoonup> 'p map_value) \<Rightarrow> int \<times> (u64 \<rightharpoonup> 'p map_value)" where
  "map_step (Put mem_ok key p c) f =
     (if key = 0 \<or> \<not> mem_ok \<and> f key = None then (-1, f) else (0, f(key \<mapsto> \<lparr>mv_ptr = p, mv_capture_status = c\<rparr>)))"
| "map_step (Remove key) f = (if f key = None then (-1, f) else (0, f(key := None)))"

fun run_ops :: "('op \<Rightarrow> 'm \<Rightarrow> int \<times> 'm) \<Rightarrow> 'op list \<Rightarrow> 'm \<Rightarrow> int list \<times> 'm" where
  "run_ops step [] m = ([], m)"
| "run_ops step (x # xs) m = (case step x m of (r, m') \<Rightarrow> case run_ops step xs m' of (rs, m'') \<Rightarrow> (r # rs, m''))"

lemma hash_step_refines:
  assumes "hash_inv m"
  shows "hash_inv (snd (hash_step x m)) \<and> fst (hash_step x m) = fst (map_step x (hash_lookup m))
    \<and> hash_lookup (snd (hash_step x m)) = snd (map_step x (hash_lookup m))"
proof (cases x)
  case (Put mem_ok key p c)
  then show ?thesis using assms by (auto simp: hash_put_ok hash_put_fails)
next
  case (Remove key)
  then show ?thesis using assms by (auto simp: hash_remove_ok hash_remove_absent)
qed

text \<open>C37 The hash map refines a finite map: after any sequence of insertions and removals, with any outcome of the
  node allocations, the results are those of the map, every lookup function reads the map, and the size is the
  number of its keys.\<close>

theorem hashmap_refines_map:
  assumes "hashmap_create True True capacity = Some m0"
    and run: "run_ops hash_step xs m0 = (rs, m)" "run_ops map_step xs Map.empty = (rs', f)"
  shows "rs = rs' \<and> hashmap_size (Some m) = of_nat (card (dom f))
    \<and> (\<forall>key. hashmap_get m key = (case f key of None \<Rightarrow> (-1, None) | Some v \<Rightarrow> (0, Some v)))
    \<and> (\<forall>key. hashmap_get_ptr m key = (case f key of None \<Rightarrow> (-1, None) | Some v \<Rightarrow> (0, Some (mv_ptr v))))
    \<and> (\<forall>key. hashmap_get_capture_status m key = (case f key of None \<Rightarrow> (-1, None) | Some v \<Rightarrow> (0, Some (mv_capture_status v))))
    \<and> (\<forall>key. hashmap_contains m key = (if f key = None then 0 else 1))"
proof -
  have "rs = rs' \<and> hash_inv m \<and> hash_lookup m = f" if "hash_inv m0" "hash_lookup m0 = f0"
      "run_ops hash_step xs m0 = (rs, m)" "run_ops map_step xs f0 = (rs', f)" for m0 f0 rs rs'
    using that
  proof (induction xs arbitrary: m0 f0 rs rs')
    case (Cons x xs)
    obtain r m1 where s: "hash_step x m0 = (r, m1)" by fastforce
    obtain r' f1 where s': "map_step x f0 = (r', f1)" by fastforce
    have "hash_inv m1" "r = r'" "hash_lookup m1 = f1" using hash_step_refines [OF Cons.prems(1), of x] s s' Cons.prems(2) by auto
    then show ?case using Cons.IH [of m1 f1] Cons.prems(3,4) s s' by (auto split: prod.splits)
  qed simp
  from this [OF _ _ run] hash_create_inv [OF assms(1)] have r: "rs = rs'" "hash_inv m" "hash_lookup m = f" by auto
  then show ?thesis using hash_invD(4) [OF r(2)] by (auto simp: hash_get hashmap_size_def split: option.split)
qed

definition demo_map_ops :: "nat map_op list" where
  "demo_map_ops = [Put True 8 1 False, Put True 16 2 True, Put False 24 3 False, Put False 8 4 True, Remove 16, Remove 40]"

theorem hashmap_refines_map_witness:
  "\<exists>m. run_ops hash_step demo_map_ops (the (hashmap_create True True 4)) = ([0, 0, -1, 0, 0, -1], m)
     \<and> hashmap_get_ptr m 8 = (0, Some 4) \<and> hashmap_contains m 16 = 0 \<and> hashmap_size (Some m) = 1"
proof -
  have c: "hashmap_create True True 4 = Some (the (hashmap_create True True 4))" by (simp add: hashmap_create_def)
  obtain rs m where h: "run_ops hash_step demo_map_ops (the (hashmap_create True True 4)) = (rs, m)" by fastforce
  obtain rs' f where f: "run_ops map_step demo_map_ops Map.empty = (rs', f)" by fastforce
  then have v: "rs' = [0, 0, -1, 0, 0, -1]" "f = [8 \<mapsto> \<lparr>mv_ptr = 4, mv_capture_status = True\<rparr>]"
    by (auto simp: demo_map_ops_def fun_eq_iff)
  from hashmap_refines_map [OF c h f] h v show ?thesis by auto
qed

end
