(* ===== verification/Memory_Tracker.thy ===== *)
theory Memory_Tracker
  imports Hash_Map
begin

text \<open>
  The record of device memory a process has allocated (\<^verbatim>\<open>vcann-rt/src/memory_tracker.c\<close>). The array of
  records is the list of its first \<^verbatim>\<open>count\<close> entries; an entry of the hash map points into the array and is
  represented by the index. The lock is recursive: \<open>mt_lock\<close> is the number of times the calling thread holds
  it, and an unlock by a thread that does not hold it fails without effect. Records of mappings and of
  handles are lists from the node after the dummy head on; the property structure of the driver is a type
  parameter.
\<close>

section \<open>State\<close>

abbreviation (input) RT_FAIL :: int where "RT_FAIL \<equiv> 1"

record memory_record =
  mr_ptr :: u64
  mr_size :: u64
  mr_handle :: u64
  mr_is_swapped :: bool
  mr_is_physical :: bool
  mr_swap_offset :: u64
  mr_alloc_time_ns :: u64

record map_record =
  mp_va :: u64
  mp_handle :: u64
  mp_size :: u64
  mp_offset :: u64
  mp_flags :: u64

record 'prop handle_record =
  hr_handle :: u64
  hr_size :: u64
  hr_prop :: 'prop
  hr_flags :: u64

record 'prop memory_tracker =
  mt_lock :: nat
  mt_map :: "nat hash_map"
  mt_records :: "memory_record list"
  mt_capacity :: u64
  mt_check_record :: u64
  mt_check_record_in :: u64
  mt_map_records :: "map_record list"
  mt_handle_records :: "'prop handle_record list"

definition tracker_lock :: "'prop memory_tracker \<Rightarrow> 'prop memory_tracker" where
  "tracker_lock t = t\<lparr>mt_lock := mt_lock t + 1\<rparr>"

definition tracker_unlock :: "'prop memory_tracker \<Rightarrow> 'prop memory_tracker" where
  "tracker_unlock t = t\<lparr>mt_lock := mt_lock t - 1\<rparr>"

text \<open>The outcomes of the allocations of a call; \<open>te_nodes\<close> for the nodes of the hash map, by round.\<close>

record tracker_env =
  te_tracker :: bool
  te_records :: bool
  te_map :: bool
  te_buckets :: bool
  te_map_head :: bool
  te_handle_head :: bool
  te_node :: bool
  te_nodes :: "nat \<Rightarrow> bool"

abbreviation (input) RECORD_BYTES :: u64 where "RECORD_BYTES \<equiv> 48"

section \<open>Operations\<close>

definition memory_tracker_create :: "tracker_env \<Rightarrow> u64 \<Rightarrow> 'prop memory_tracker option" where
  "memory_tracker_create env capacity =
     (if capacity = 0 then None
      else if capacity > -1 div RECORD_BYTES then None
      else if \<not> te_tracker env \<or> \<not> te_records env then None
      else case hashmap_create (te_map env) (te_buckets env) capacity of
        None \<Rightarrow> None
      | Some m \<Rightarrow>
        if \<not> te_map_head env \<or> \<not> te_handle_head env then None
        else Some \<lparr>mt_lock = 0, mt_map = m, mt_records = [], mt_capacity = capacity, mt_check_record = 0,
               mt_check_record_in = 0, mt_map_records = [], mt_handle_records = []\<rparr>)"

text \<open>The loop of \<^verbatim>\<open>memory_tracker_expand\<close> that fills the new hash map.\<close>

fun put_records :: "(nat \<Rightarrow> bool) \<Rightarrow> nat hash_map \<Rightarrow> nat \<Rightarrow> memory_record list \<Rightarrow> int \<times> nat hash_map" where
  "put_records nodes m i [] = (ENPU_SUCCESS, m)"
| "put_records nodes m i (r # rs) =
     (if mr_ptr r = 0 then put_records nodes m (Suc i) rs
      else case hashmap_put (nodes i) m (mr_ptr r) i False of
        (ret, m') \<Rightarrow> if ret \<noteq> ENPU_SUCCESS then (ret, m') else put_records nodes m' (Suc i) rs)"

text \<open>A new capacity below the number of records makes the loop read past the new array.\<close>

definition memory_tracker_expand :: "tracker_env \<Rightarrow> 'prop memory_tracker \<Rightarrow> u64 \<Rightarrow> (int \<times> 'prop memory_tracker) option" where
  "memory_tracker_expand env t new_capacity =
     (if new_capacity = 0 \<or> new_capacity > -1 div RECORD_BYTES then Some (RT_FAIL, t)
      else if \<not> te_records env then Some (RT_FAIL, t)
      else case hashmap_create (te_map env) (te_buckets env) new_capacity of
        None \<Rightarrow> Some (RT_FAIL, t)
      | Some new_map \<Rightarrow>
        if unat new_capacity < length (mt_records t) then None
        else case put_records (te_nodes env) new_map 0 (mt_records t) of (ret, m) \<Rightarrow>
          if ret \<noteq> ENPU_SUCCESS then Some (ret, t)
          else Some (ENPU_SUCCESS, t\<lparr>mt_map := m, mt_capacity := new_capacity\<rparr>))"

definition memory_tracker_add ::
    "tracker_env \<Rightarrow> u64 \<Rightarrow> 'prop memory_tracker \<Rightarrow> u64 \<Rightarrow> u64 \<Rightarrow> u64 \<Rightarrow> bool \<Rightarrow> (int \<times> 'prop memory_tracker) option" where
  "memory_tracker_add env now_ns t ptr sz handle is_physical =
     (if ptr = 0 \<or> sz = 0 then Some (RT_FAIL, t)
      else let t1 = tracker_lock t; count = length (mt_records t1) in
        if count \<ge> unat (mt_capacity t1) then Some (RT_FAIL, tracker_unlock t1)
        else let rec = \<lparr>mr_ptr = ptr, mr_size = sz, mr_handle = handle, mr_is_swapped = False,
                   mr_is_physical = is_physical, mr_swap_offset = 0, mr_alloc_time_ns = now_ns\<rparr> in
          case hashmap_put (te_node env) (mt_map t1) ptr count False of (ret, m) \<Rightarrow>
            if ret \<noteq> 0 then Some (RT_FAIL, tracker_unlock t1)
            else let t2 = t1\<lparr>mt_map := m, mt_records := mt_records t1 @ [rec]\<rparr> in
              if unat (mt_capacity t2) \<le> 2 * length (mt_records t2)
              then do {
                (ret, t3) \<leftarrow> memory_tracker_expand env t2 (mt_capacity t2 * 2);
                if ret \<noteq> ENPU_SUCCESS then Some (RT_FAIL, tracker_unlock t3)
                else Some (ENPU_SUCCESS, tracker_unlock t3)
              }
              else Some (ENPU_SUCCESS, tracker_unlock t2))"

text \<open>The loop of \<^verbatim>\<open>memory_tracker_remove\<close> that moves the following records down.\<close>

fun shift_records :: "(nat \<Rightarrow> bool) \<Rightarrow> nat list \<Rightarrow> nat hash_map \<Rightarrow> memory_record list \<Rightarrow>
    int \<times> nat hash_map \<times> memory_record list" where
  "shift_records nodes [] m rs = (ENPU_SUCCESS, m, rs)"
| "shift_records nodes (i # is) m rs =
     (let rs' = rs[i := rs ! Suc i] in
      case hashmap_put (nodes i) m (mr_ptr (rs' ! i)) i False of (ret, m') \<Rightarrow>
        if ret \<noteq> ENPU_SUCCESS then (ret, m', rs') else shift_records nodes is m' rs')"

fun find_record_index :: "u64 \<Rightarrow> nat \<Rightarrow> memory_record list \<Rightarrow> nat option" where
  "find_record_index ptr i [] = None"
| "find_record_index ptr i (r # rs) = (if mr_ptr r = ptr then Some i else find_record_index ptr (Suc i) rs)"

definition memory_tracker_remove :: "tracker_env \<Rightarrow> 'prop memory_tracker \<Rightarrow> u64 \<Rightarrow> int \<times> 'prop memory_tracker" where
  "memory_tracker_remove env t ptr =
     (if ptr = 0 then (RT_FAIL, t)
      else let t1 = tracker_lock t in
        case find_record_index ptr 0 (mt_records t1) of
          None \<Rightarrow> (ENPU_SUCCESS, tracker_unlock t1)
        | Some found \<Rightarrow>
          (case shift_records (te_nodes env) [found..<length (mt_records t1) - 1] (mt_map t1) (mt_records t1) of
             (ret, m, rs) \<Rightarrow>
               let t2 = t1\<lparr>mt_map := m, mt_records := rs\<rparr> in
               if ret \<noteq> ENPU_SUCCESS then (RT_FAIL, tracker_unlock t2)
               else case hashmap_remove m ptr of (ret, m') \<Rightarrow>
                 if ret \<noteq> 0 then (RT_FAIL, tracker_unlock (t2\<lparr>mt_map := m'\<rparr>))
                 else (ENPU_SUCCESS, tracker_unlock (t2\<lparr>mt_map := m', mt_records := butlast rs\<rparr>))))"

text \<open>The result is the index of the record.\<close>

definition memory_tracker_find :: "'prop memory_tracker \<Rightarrow> u64 \<Rightarrow> nat option" where
  "memory_tracker_find t ptr =
     (if ptr = 0 then None
      else case hashmap_get_ptr (mt_map t) ptr of (ret, p) \<Rightarrow> if ret \<noteq> 0 then None else p)"

definition memory_record_mark_swapped :: "memory_record \<Rightarrow> u64 \<Rightarrow> memory_record" where
  "memory_record_mark_swapped rec offset = rec\<lparr>mr_is_swapped := True, mr_swap_offset := offset\<rparr>"

definition memory_tracker_mark_swapped :: "'prop memory_tracker \<Rightarrow> u64 \<Rightarrow> u64 \<Rightarrow> int \<times> 'prop memory_tracker" where
  "memory_tracker_mark_swapped t ptr offset =
     (if ptr = 0 then (RT_FAIL, t)
      else case memory_tracker_find t ptr of
        None \<Rightarrow> (RT_FAIL, t)
      | Some i \<Rightarrow> (ENPU_SUCCESS, t\<lparr>mt_records := (mt_records t)
          [i := (mt_records t ! i)\<lparr>mr_is_swapped := True, mr_swap_offset := offset\<rparr>]\<rparr>))"

definition memory_tracker_mark_active :: "'prop memory_tracker \<Rightarrow> u64 \<Rightarrow> u64 \<Rightarrow> int \<times> 'prop memory_tracker" where
  "memory_tracker_mark_active t ptr new_handle =
     (if ptr = 0 then (RT_FAIL, t)
      else case memory_tracker_find t ptr of
        None \<Rightarrow> (RT_FAIL, t)
      | Some i \<Rightarrow> (ENPU_SUCCESS, t\<lparr>mt_records := (mt_records t)
          [i := (mt_records t ! i)\<lparr>mr_is_swapped := False, mr_handle := new_handle, mr_swap_offset := 0\<rparr>]\<rparr>))"

text \<open>The records are handed out as pointers into the array, in order; the count is cut to an \<^verbatim>\<open>int\<close>.
  \<open>mem_ok\<close> says whether \<^verbatim>\<open>malloc\<close> returns a pointer, also for a size of 0.\<close>

definition memory_tracker_collect_records :: "bool \<Rightarrow> 'prop memory_tracker \<Rightarrow> int \<times> (nat list \<times> int) option" where
  "memory_tracker_collect_records mem_ok t =
     (if \<not> mem_ok then (RT_FAIL, None)
      else (ENPU_SUCCESS, Some ([0..<length (mt_records t)], sint (of_nat (length (mt_records t)) :: i32))))"

definition memory_tracker_find_swapped :: "'prop memory_tracker \<Rightarrow> memory_record option" where
  "memory_tracker_find_swapped t = List.find mr_is_swapped (mt_records t)"

definition get_record_size :: "'prop memory_tracker option \<Rightarrow> u64 \<Rightarrow> u64 \<Rightarrow> u64" where
  "get_record_size tracker ptr sz =
     (case tracker of None \<Rightarrow> sz
      | Some t \<Rightarrow> (case memory_tracker_find t ptr of None \<Rightarrow> sz | Some i \<Rightarrow> mr_size (mt_records t ! i)))"

section \<open>Records of mappings and handles\<close>

definition memory_tracker_add_map_record ::
    "bool \<Rightarrow> 'prop memory_tracker \<Rightarrow> u64 \<Rightarrow> u64 \<Rightarrow> u64 \<Rightarrow> u64 \<Rightarrow> u64 \<Rightarrow> int \<times> 'prop memory_tracker" where
  "memory_tracker_add_map_record mem_ok t ptr sz offset handle flags =
     (let t1 = tracker_lock t in
      if \<not> mem_ok then (RT_FAIL, t1)
      else (ENPU_SUCCESS, tracker_unlock (t1\<lparr>mt_map_records :=
        \<lparr>mp_va = ptr, mp_handle = handle, mp_size = sz, mp_offset = offset, mp_flags = flags\<rparr> # mt_map_records t1\<rparr>)))"

definition memory_tracker_add_handle_record ::
    "bool \<Rightarrow> 'prop memory_tracker \<Rightarrow> u64 \<Rightarrow> u64 \<Rightarrow> 'prop \<Rightarrow> u64 \<Rightarrow> int \<times> 'prop memory_tracker" where
  "memory_tracker_add_handle_record mem_ok t handle sz prop flags =
     (let t1 = tracker_lock t in
      if \<not> mem_ok then (RT_FAIL, t1)
      else (ENPU_SUCCESS, tracker_unlock (t1\<lparr>mt_handle_records :=
        \<lparr>hr_handle = handle, hr_size = sz, hr_prop = prop, hr_flags = flags\<rparr> # mt_handle_records t1\<rparr>)))"

fun remove_first :: "('a \<Rightarrow> bool) \<Rightarrow> 'a list \<Rightarrow> 'a list option" where
  "remove_first P [] = None"
| "remove_first P (x # xs) = (if P x then Some xs else map_option ((#) x) (remove_first P xs))"

text \<open>When the record is found, the lock is released inside the loop and again after it.\<close>

definition memory_tracker_remove_map_record :: "'prop memory_tracker \<Rightarrow> u64 \<Rightarrow> int \<times> 'prop memory_tracker" where
  "memory_tracker_remove_map_record t ptr =
     (let t1 = tracker_lock t in
      case remove_first (\<lambda>r. mp_va r = ptr) (mt_map_records t1) of
        None \<Rightarrow> (ENPU_SUCCESS, tracker_unlock t1)
      | Some rs \<Rightarrow> (ENPU_SUCCESS, tracker_unlock (tracker_unlock (t1\<lparr>mt_map_records := rs\<rparr>))))"

definition memory_tracker_remove_handle_record :: "'prop memory_tracker \<Rightarrow> u64 \<Rightarrow> int \<times> 'prop memory_tracker" where
  "memory_tracker_remove_handle_record t handle =
     (let t1 = tracker_lock t in
      case remove_first (\<lambda>r. hr_handle r = handle) (mt_handle_records t1) of
        None \<Rightarrow> (ENPU_SUCCESS, tracker_unlock t1)
      | Some rs \<Rightarrow> (ENPU_SUCCESS, tracker_unlock (tracker_unlock (t1\<lparr>mt_handle_records := rs\<rparr>))))"

text \<open>The address is 0 (NULL) when there is no mapping.\<close>

definition memory_tracker_get_map_va :: "'prop memory_tracker \<Rightarrow> u64 \<Rightarrow> int \<times> u64" where
  "memory_tracker_get_map_va t handle =
     (case List.find (\<lambda>r. mp_handle r = handle) (mt_map_records t) of
        None \<Rightarrow> (ENPU_SUCCESS, 0) | Some r \<Rightarrow> (ENPU_SUCCESS, mp_va r))"

definition memory_tracker_get_map_prop :: "'prop memory_tracker \<Rightarrow> u64 \<Rightarrow> int \<times> (u64 \<times> u64 \<times> u64) option" where
  "memory_tracker_get_map_prop t va =
     (case List.find (\<lambda>r. mp_va r = va) (mt_map_records t) of
        None \<Rightarrow> (RT_FAIL, None) | Some r \<Rightarrow> (ENPU_SUCCESS, Some (mp_size r, mp_offset r, mp_flags r)))"

definition memory_tracker_get_handle_prop :: "'prop memory_tracker \<Rightarrow> u64 \<Rightarrow> int \<times> (u64 \<times> 'prop \<times> u64) option" where
  "memory_tracker_get_handle_prop t handle =
     (case List.find (\<lambda>r. hr_handle r = handle) (mt_handle_records t) of
        None \<Rightarrow> (RT_FAIL, None) | Some r \<Rightarrow> (ENPU_SUCCESS, Some (hr_size r, hr_prop r, hr_flags r)))"

section \<open>Invariant\<close>

text \<open>The records have different addresses, and the hash map finds exactly their indices.\<close>

definition points_to :: "nat hash_map \<Rightarrow> memory_record list \<Rightarrow> bool" where
  "points_to m rs \<longleftrightarrow> hash_inv m
     \<and> (\<forall>k. map_option mv_ptr (hash_lookup m k) = find_record_index k 0 rs)"

definition tracker_inv :: "'prop memory_tracker \<Rightarrow> bool" where
  "tracker_inv t \<longleftrightarrow> points_to (mt_map t) (mt_records t) \<and> distinct (map mr_ptr (mt_records t))
     \<and> 0 \<notin> mr_ptr ` set (mt_records t) \<and> length (mt_records t) \<le> unat (mt_capacity t)
     \<and> mt_capacity t \<le> -1 div RECORD_BYTES"

lemma find_record_index_None: "find_record_index k j rs = None \<longleftrightarrow> k \<notin> mr_ptr ` set rs"
  by (induction rs arbitrary: j) auto

lemma find_record_index_Some:
  "distinct (map mr_ptr rs) \<Longrightarrow> find_record_index k j rs = Some i \<longleftrightarrow> (\<exists>n < length rs. i = j + n \<and> mr_ptr (rs ! n) = k)"
proof (induction rs arbitrary: j)
  case (Cons r rs)
  show ?case
  proof (cases "mr_ptr r = k")
    case True
    then have "mr_ptr (rs ! n) \<noteq> k" if "n < length rs" for n
      using Cons.prems imageI [OF nth_mem [OF that], of mr_ptr] True by auto
    then show ?thesis using True by (auto simp: less_Suc_eq_0_disj)
  next
    case False
    then show ?thesis using Cons by (auto simp: less_Suc_eq_0_disj)
  qed
qed simp


lemma points_to_iff:
  assumes "distinct (map mr_ptr rs)"
  shows "points_to m rs \<longleftrightarrow> hash_inv m
    \<and> (\<forall>k i. map_option mv_ptr (hash_lookup m k) = Some i \<longleftrightarrow> i < length rs \<and> mr_ptr (rs ! i) = k)"
proof -
  have f: "find_record_index k 0 rs = Some i \<longleftrightarrow> i < length rs \<and> mr_ptr (rs ! i) = k" for k i
    using find_record_index_Some [OF assms, of k 0 i] by auto
  have o: "x = y \<longleftrightarrow> (\<forall>i. x = Some i \<longleftrightarrow> y = Some i)" for x y :: "nat option"
    by (cases x; cases y) auto
  have "map_option mv_ptr (hash_lookup m k) = find_record_index k 0 rs \<longleftrightarrow>
      (\<forall>i. map_option mv_ptr (hash_lookup m k) = Some i \<longleftrightarrow> i < length rs \<and> mr_ptr (rs ! i) = k)" for k
    by (subst o) (simp only: f)
  then show ?thesis unfolding points_to_def by (simp only:)
qed

lemma tracker_find_record:
  assumes "tracker_inv t"
  shows "memory_tracker_find t ptr = find_record_index ptr 0 (mt_records t)"
proof (cases "ptr = 0")
  case True
  then have "find_record_index ptr 0 (mt_records t) = None" using assms by (simp add: tracker_inv_def find_record_index_None)
  then show ?thesis using True by (simp add: memory_tracker_find_def)
next
  case False
  have "map_option mv_ptr (hash_lookup (mt_map t) ptr) = find_record_index ptr 0 (mt_records t)"
    using assms by (simp add: tracker_inv_def points_to_def)
  then show ?thesis using False by (auto simp: memory_tracker_find_def hash_get split: option.split)
qed

section \<open>Filling and shifting\<close>

definition index_entries :: "nat \<Rightarrow> memory_record list \<Rightarrow> (u64 \<times> nat map_value) list" where
  "index_entries i rs = zip (map mr_ptr rs) (map (\<lambda>j. \<lparr>mv_ptr = j, mv_capture_status = False\<rparr>) [i..<i + length rs])"

lemma index_entries_Cons:
  "index_entries i (r # rs) = (mr_ptr r, \<lparr>mv_ptr = i, mv_capture_status = False\<rparr>) # index_entries (Suc i) rs"
  by (simp add: index_entries_def upt_conv_Cons del: upt_Suc)

lemma index_entries_keys: "map fst (index_entries i rs) = map mr_ptr rs"
  by (simp add: index_entries_def)

lemma index_entries_lookup:
  "map_option mv_ptr (map_of (index_entries i rs) k) = find_record_index k i rs"
  by (induction rs arbitrary: i) (simp_all add: index_entries_Cons, simp add: index_entries_def)

lemma put_records_list:
  "0 \<notin> mr_ptr ` set rs \<Longrightarrow> put_records nodes m i rs = hm.put_list nodes i m (index_entries i rs)"
proof (induction rs arbitrary: i m)
  case Nil
  then show ?case by (simp add: index_entries_def)
next
  case (Cons r rs)
  then show ?case by (auto simp: index_entries_Cons split: prod.split)
qed

lemma map_of_rev: "distinct (map fst kvs) \<Longrightarrow> map_of (rev kvs) = map_of kvs"
  by (simp add: map_of_inject_set distinct_map rev_map [symmetric] del: map_map)

lemma put_records_points_to:
  assumes "hash_inv m" "hash_lookup m = Map.empty" "put_records nodes m 0 rs = (ENPU_SUCCESS, m')"
    "distinct (map mr_ptr rs)" "0 \<notin> mr_ptr ` set rs"
  shows "points_to m' rs"
proof -
  let ?kvs = "index_entries 0 rs"
  have p: "hm.put_list nodes 0 m ?kvs = (0, m')" using assms(3,5) by (simp add: put_records_list)
  have "hash_lookup m' = map_of (rev ?kvs)" using hm.put_list_ok [OF assms(1), of nodes 0 ?kvs] p assms(2) by simp
  also have "\<dots> = map_of ?kvs" by (rule map_of_rev) (simp add: index_entries_keys assms(4))
  finally show ?thesis
    using hm.put_list_inv [OF assms(1), of nodes 0 ?kvs] p by (simp add: points_to_def index_entries_lookup)
qed

definition shift_entries :: "nat \<Rightarrow> nat \<Rightarrow> memory_record list \<Rightarrow> (u64 \<times> nat map_value) list" where
  "shift_entries f d rs = map (\<lambda>i. (mr_ptr (rs ! Suc i), \<lparr>mv_ptr = i, mv_capture_status = False\<rparr>)) [f..<f + d]"

lemma shift_records_list:
  assumes "f + d < length rs" "hm.put_list nodes f m (shift_entries f d rs) = (0, m')"
  shows "shift_records nodes [f..<f + d] m rs = (0, m', take f rs @ take d (drop (Suc f) rs) @ drop (f + d) rs)"
  using assms
proof (induction d arbitrary: f m rs)
  case 0
  then show ?case by (simp add: shift_entries_def)
next
  case (Suc d)
  let ?rs = "rs[f := rs ! Suc f]"
  have upt: "[f..<f + Suc d] = f # [Suc f..<Suc f + d]" by (simp add: upt_conv_Cons del: upt_Suc)
  have e: "shift_entries f (Suc d) rs = (mr_ptr (rs ! Suc f), \<lparr>mv_ptr = f, mv_capture_status = False\<rparr>) # shift_entries (Suc f) d ?rs"
    unfolding shift_entries_def upt by (auto simp: nth_list_update)
  obtain r m1 where p: "hashmap_put (nodes f) m (mr_ptr (rs ! Suc f)) f False = (r, m1)" by fastforce
  have r: "r = 0" "hm.put_list nodes (Suc f) m1 (shift_entries (Suc f) d ?rs) = (0, m')"
    using Suc.prems(2) p unfolding e by (auto split: if_splits)
  have "shift_records nodes [Suc f..<Suc f + d] m1 ?rs =
      (0, m', take (Suc f) ?rs @ take d (drop (Suc (Suc f)) ?rs) @ drop (Suc f + d) ?rs)"
    using Suc.prems(1) r(2) by (intro Suc.IH) auto
  moreover have "take (Suc f) ?rs @ take d (drop (Suc (Suc f)) ?rs) @ drop (Suc f + d) ?rs
      = take f rs @ take (Suc d) (drop (Suc f) rs) @ drop (f + Suc d) rs"
    using Suc.prems(1) by (simp add: take_Suc_conv_app_nth drop_update_cancel take_update_cancel Cons_nth_drop_Suc [symmetric])
  ultimately show ?case using p r(1) Suc.prems(1) unfolding upt by (simp add: Let_def)
qed

section \<open>Adding and removing\<close>

lemma lock_unlock [simp]: "mt_lock (tracker_unlock (tracker_lock t)) = mt_lock t"
  "mt_lock (tracker_lock t) = Suc (mt_lock t)" "mt_lock (tracker_unlock t) = mt_lock t - 1"
  by (simp_all add: tracker_lock_def tracker_unlock_def)

lemma tracker_lock_fields [simp]:
  "mt_records (tracker_lock t) = mt_records t" "mt_records (tracker_unlock t) = mt_records t"
  "mt_map (tracker_lock t) = mt_map t" "mt_map (tracker_unlock t) = mt_map t"
  "mt_capacity (tracker_lock t) = mt_capacity t" "mt_capacity (tracker_unlock t) = mt_capacity t"
  "tracker_inv (tracker_lock t) = tracker_inv t" "tracker_inv (tracker_unlock t) = tracker_inv t"
  by (simp_all add: tracker_lock_def tracker_unlock_def tracker_inv_def)

lemma find_record_index_append:
  "find_record_index k j (rs @ [r]) =
     (case find_record_index k j rs of Some i \<Rightarrow> Some i | None \<Rightarrow> if mr_ptr r = k then Some (j + length rs) else None)"
  by (induction rs arbitrary: j) (auto split: option.split)

lemma points_to_append:
  assumes "points_to m rs" "mr_ptr r \<notin> mr_ptr ` set rs" "hash_inv m'"
    "hash_lookup m' = (hash_lookup m)(mr_ptr r \<mapsto> \<lparr>mv_ptr = length rs, mv_capture_status = False\<rparr>)"
  shows "points_to m' (rs @ [r])"
proof -
  have "map_option mv_ptr (hash_lookup m' k) = find_record_index k 0 (rs @ [r])" for k
    using assms(1,2,4) find_record_index_None [of "mr_ptr r" 0 rs]
    by (cases "k = mr_ptr r") (auto simp: points_to_def find_record_index_append split: option.split)
  then show ?thesis using assms(3) by (simp add: points_to_def)
qed

lemma expand_spec:
  assumes inv: "tracker_inv t" and cap: "unat new_capacity \<ge> length (mt_records t)"
  obtains r t' where "memory_tracker_expand env t new_capacity = Some (r, t')" "tracker_inv t'"
    "mt_records t' = mt_records t" "mt_lock t' = mt_lock t" "r \<noteq> ENPU_SUCCESS \<Longrightarrow> t' = t"
proof (cases "new_capacity = 0 \<or> new_capacity > -1 div RECORD_BYTES \<or> \<not> te_records env
    \<or> (hashmap_create (te_map env) (te_buckets env) new_capacity :: nat hash_map option) = None")
  case True
  then have "memory_tracker_expand env t new_capacity = Some (RT_FAIL, t)"
    by (auto simp: memory_tracker_expand_def)
  then show ?thesis using inv by (rule that) simp_all
next
  case False
  then obtain m0 where m0: "hashmap_create (te_map env) (te_buckets env) new_capacity = Some (m0 :: nat hash_map)" by auto
  obtain r m where p: "put_records (te_nodes env) m0 0 (mt_records t) = (r, m)" by fastforce
  have e: "memory_tracker_expand env t new_capacity =
      (if r \<noteq> ENPU_SUCCESS then Some (r, t) else Some (ENPU_SUCCESS, t\<lparr>mt_map := m, mt_capacity := new_capacity\<rparr>))"
    using False m0 p cap by (simp add: memory_tracker_expand_def)
  show ?thesis
  proof (cases "r = ENPU_SUCCESS")
    case True
    have "points_to m (mt_records t)"
      using hash_create_inv [OF m0] p True inv by (intro put_records_points_to [of m0]) (auto simp: tracker_inv_def)
    then have "tracker_inv (t\<lparr>mt_map := m, mt_capacity := new_capacity\<rparr>)"
      using inv cap False by (simp add: tracker_inv_def not_less)
    then show ?thesis using e True by (intro that [of ENPU_SUCCESS "t\<lparr>mt_map := m, mt_capacity := new_capacity\<rparr>"]) simp_all
  next
    case False
    then show ?thesis using e inv by (intro that [of r t]) simp_all
  qed
qed

text \<open>An addition keeps the invariant; when it fails, the record may or may not have been kept.\<close>

lemma add_spec:
  assumes inv: "tracker_inv t" and new: "ptr \<notin> mr_ptr ` set (mt_records t)"
  obtains r t' where "memory_tracker_add env now_ns t ptr sz handle phys = Some (r, t')" "tracker_inv t'" "mt_lock t' = mt_lock t"
    "mt_records t' = mt_records t \<and> r \<noteq> ENPU_SUCCESS \<or>
     mt_records t' = mt_records t @ [\<lparr>mr_ptr = ptr, mr_size = sz, mr_handle = handle, mr_is_swapped = False,
       mr_is_physical = phys, mr_swap_offset = 0, mr_alloc_time_ns = now_ns\<rparr>]"
proof -
  let ?rec = "\<lparr>mr_ptr = ptr, mr_size = sz, mr_handle = handle, mr_is_swapped = False,
    mr_is_physical = phys, mr_swap_offset = 0, mr_alloc_time_ns = now_ns\<rparr>"
  let ?n = "length (mt_records t)" and ?m = "mt_map t"
  consider (fails) "memory_tracker_add env now_ns t ptr sz handle phys = Some (RT_FAIL, tracker_unlock (tracker_lock t))"
    | (zero) "memory_tracker_add env now_ns t ptr sz handle phys = Some (RT_FAIL, t)"
    | (puts) m where "ptr \<noteq> 0" "sz \<noteq> 0" "?n < unat (mt_capacity t)" "hashmap_put (te_node env) ?m ptr ?n False = (0, m)"
  proof (cases "hashmap_put (te_node env) ?m ptr ?n False")
    case (Pair r m)
    then show ?thesis using fails zero puts [of m]
      by (cases "ptr = 0 \<or> sz = 0"; cases "?n < unat (mt_capacity t)"; cases "r = 0") (auto simp: memory_tracker_add_def Let_def)
  qed
  then show ?thesis
  proof cases
    case fails
    then show ?thesis using inv by (intro that [OF fails]) simp_all
  next
    case zero
    then show ?thesis using inv by (intro that [OF zero]) simp_all
  next
    case (puts m)
    let ?t2 = "(tracker_lock t)\<lparr>mt_map := m, mt_records := mt_records t @ [?rec]\<rparr>"
    have h: "hash_inv ?m" "points_to ?m (mt_records t)" using inv by (auto simp: tracker_inv_def points_to_def)
    have "te_node env \<or> hash_lookup ?m ptr \<noteq> None" using puts(4) hash_put_fails [of ptr "te_node env" ?m ?n False]
      by (cases "te_node env"; cases "hash_lookup ?m ptr") auto
    note p = hash_put_ok [OF h(1) puts(1) this, of ?n False]
    have "points_to m (mt_records t @ [?rec])"
      using p puts(4) new by (intro points_to_append [OF h(2)]) auto
    then have inv2: "tracker_inv ?t2" using inv new puts(1,3) by (auto simp: tracker_inv_def tracker_lock_def)
    show ?thesis
    proof (cases "unat (mt_capacity t) \<le> 2 * Suc ?n")
      case False
      then show ?thesis using puts inv2
        by (intro that [of ENPU_SUCCESS "tracker_unlock ?t2"]) (simp_all add: memory_tracker_add_def Let_def)
    next
      case True
      have "mt_capacity t \<le> -1 div RECORD_BYTES" using inv by (simp add: tracker_inv_def)
      then have "unat (mt_capacity t) * 2 < 2 ^ 64" by (simp add: word_le_nat_alt)
      then have dbl: "unat (mt_capacity t * 2) = unat (mt_capacity t) * 2" using unat_mult_lem [of "mt_capacity t" 2] by simp
      then have "unat (mt_capacity t * 2) \<ge> length (mt_records ?t2)" using puts(3) by simp
      from expand_spec [OF inv2 this, of env] obtain r t3 where e: "memory_tracker_expand env ?t2 (mt_capacity t * 2) = Some (r, t3)"
        "tracker_inv t3" "mt_records t3 = mt_records ?t2" "mt_lock t3 = mt_lock ?t2" by metis
      then show ?thesis using puts True
        by (intro that [of "if r \<noteq> ENPU_SUCCESS then RT_FAIL else ENPU_SUCCESS" "tracker_unlock t3"])
          (simp_all add: memory_tracker_add_def Let_def tracker_lock_def)
    qed
  qed
qed

lemma filter_drop_nth:
  assumes "distinct (map mr_ptr rs)" "f < length rs"
  shows "filter (\<lambda>r. mr_ptr r \<noteq> mr_ptr (rs ! f)) rs = take f rs @ drop (Suc f) rs"
proof -
  have rs: "rs = take f rs @ rs ! f # drop (Suc f) rs" by (rule id_take_nth_drop [OF assms(2)])
  have "distinct (map mr_ptr (take f rs @ rs ! f # drop (Suc f) rs))" using assms(1) rs by simp
  then have "mr_ptr (rs ! f) \<notin> mr_ptr ` set (take f rs)" "mr_ptr (rs ! f) \<notin> mr_ptr ` set (drop (Suc f) rs)" by auto
  then have "\<forall>r \<in> set (take f rs) \<union> set (drop (Suc f) rs). mr_ptr r \<noteq> mr_ptr (rs ! f)" by (metis UnE imageI)
  then have "filter (\<lambda>r. mr_ptr r \<noteq> mr_ptr (rs ! f)) (take f rs @ rs ! f # drop (Suc f) rs) = take f rs @ drop (Suc f) rs"
    by (simp add: filter_id_conv)
  then show ?thesis using rs by simp
qed

lemma shift_points_to:
  assumes pt: "points_to m rs" and dist: "distinct (map mr_ptr rs)" and f: "f < length rs" and m': "hash_inv m'"
    and look: "hash_lookup m' = (hash_lookup m ++ map_of (rev (shift_entries f (length rs - 1 - f) rs)))(mr_ptr (rs ! f) := None)"
  shows "points_to m' (take f rs @ drop (Suc f) rs)"
proof -
  let ?rs = "take f rs @ drop (Suc f) rs" and ?d = "length rs - 1 - f"
  let ?kvs = "shift_entries f ?d rs"
  have inj: "mr_ptr (rs ! i) = mr_ptr (rs ! j) \<longleftrightarrow> i = j" if "i < length rs" "j < length rs" for i j
    using nth_eq_iff_index_eq [OF dist] that by simp
  have nth: "?rs ! i = (if i < f then rs ! i else rs ! Suc i)" if "i < length rs - 1" for i
    using that f by (auto simp: nth_append min_def)
  have len: "length ?rs = length rs - 1" using f by simp
  have keys: "map fst ?kvs = map (\<lambda>i. mr_ptr (rs ! Suc i)) [f..<f + ?d]" by (simp add: shift_entries_def)
  have kd: "distinct (map fst ?kvs)" unfolding keys distinct_map using f by (auto simp: inj_on_def inj)
  then have rev: "map_of (rev ?kvs) = map_of ?kvs" by (rule map_of_rev)
  then have look': "hash_lookup m' = (hash_lookup m ++ map_of ?kvs)(mr_ptr (rs ! f) := None)" using look by simp
  have new: "map_of ?kvs k = Some v \<longleftrightarrow> (\<exists>i \<ge> f. i < length rs - 1 \<and> k = mr_ptr (rs ! Suc i) \<and> v = \<lparr>mv_ptr = i, mv_capture_status = False\<rparr>)" for k v
    unfolding map_of_eq_Some_iff [OF kd] using f by (auto simp: shift_entries_def)
  have old: "map_option mv_ptr (hash_lookup m k) = Some i \<longleftrightarrow> i < length rs \<and> mr_ptr (rs ! i) = k" for k i
    using pt points_to_iff [OF dist] by blast
  have "map_option mv_ptr (hash_lookup m' k) = Some i \<longleftrightarrow> i < length ?rs \<and> mr_ptr (?rs ! i) = k" for k i
  proof -
    consider (removed) "k = mr_ptr (rs ! f)" | (moved) j where "f \<le> j" "j < length rs - 1" "k = mr_ptr (rs ! Suc j)"
      | (kept) "k \<noteq> mr_ptr (rs ! f)" "\<forall>j \<ge> f. j < length rs - 1 \<longrightarrow> k \<noteq> mr_ptr (rs ! Suc j)" by blast
    then show ?thesis
    proof cases
      case removed
      then show ?thesis using f by (auto simp: look len nth inj split: if_splits)
    next
      case (moved j)
      then have "map_of ?kvs k = Some \<lparr>mv_ptr = j, mv_capture_status = False\<rparr>" using new by blast
      moreover have "k \<noteq> mr_ptr (rs ! f)" using moved f by (simp add: inj)
      ultimately have "map_option mv_ptr (hash_lookup m' k) = Some j" by (simp add: look' map_add_def)
      moreover have "mr_ptr (?rs ! i) = k \<longleftrightarrow> i = j" if "i < length rs - 1"
        using that moved f by (auto simp: nth inj)
      ultimately show ?thesis using moved(2) len by auto
    next
      case kept
      then have "map_of ?kvs k = None" using new [of k] by (cases "map_of ?kvs k") auto
      then have l: "hash_lookup m' k = hash_lookup m k" using kept(1) by (simp add: look' map_add_def)
      have "i < length ?rs \<and> mr_ptr (?rs ! i) = k \<longleftrightarrow> i < f \<and> mr_ptr (rs ! i) = k"
      proof (cases "i < f")
        case True
        then have "i < length rs - 1" using f by linarith
        then show ?thesis using True unfolding len by (simp add: nth)
      next
        case False
        then have "f \<le> i" by simp
        then have "i < length rs - 1 \<Longrightarrow> mr_ptr (?rs ! i) \<noteq> k" using kept(2) by (metis False nth)
        then show ?thesis using False unfolding len by blast
      qed
      moreover have "i < f" if "i < length rs" "mr_ptr (rs ! i) = k"
      proof (rule ccontr)
        assume "\<not> i < f"
        moreover have "i \<noteq> f" using that kept(1) by auto
        ultimately have "f < i" by simp
        then have "f \<le> i - 1" "i - 1 < length rs - 1" "Suc (i - 1) = i" using that(1) by linarith+
        then show False using kept(2) that(2) by metis
      qed
      ultimately show ?thesis using f unfolding l old by auto
    qed
  qed
  moreover have "distinct (map mr_ptr ?rs)"
    unfolding filter_drop_nth [OF dist f, symmetric] by (rule distinct_map_filter [OF dist])
  ultimately show ?thesis using m' points_to_iff by blast
qed

lemma remove_spec:
  assumes inv: "tracker_inv t" and ptr: "ptr \<noteq> 0"
  obtains t' where "memory_tracker_remove env t ptr = (ENPU_SUCCESS, t')" "tracker_inv t'" "mt_lock t' = mt_lock t"
    "mt_records t' = filter (\<lambda>r. mr_ptr r \<noteq> ptr) (mt_records t)"
proof (cases "find_record_index ptr 0 (mt_records t)")
  case None
  then have "ptr \<notin> mr_ptr ` set (mt_records t)" by (simp add: find_record_index_None)
  then have "filter (\<lambda>r. mr_ptr r \<noteq> ptr) (mt_records t) = mt_records t" by (auto simp: filter_id_conv)
  then show ?thesis using None ptr inv
    by (intro that [of "tracker_unlock (tracker_lock t)"]) (simp_all add: memory_tracker_remove_def Let_def)
next
  case (Some f)
  let ?rs = "mt_records t" and ?m = "mt_map t"
  let ?d = "length ?rs - 1 - f"
  let ?kvs = "shift_entries f ?d ?rs"
  have pt: "points_to ?m ?rs" and dist: "distinct (map mr_ptr ?rs)" and h: "hash_inv ?m"
    using inv by (auto simp: tracker_inv_def points_to_def)
  have f: "f < length ?rs" "mr_ptr (?rs ! f) = ptr" using Some find_record_index_Some [OF dist, of ptr 0 f] by auto
  have present: "hash_lookup ?m (mr_ptr r) \<noteq> None" if "r \<in> set ?rs" for r
  proof -
    have "find_record_index (mr_ptr r) 0 ?rs \<noteq> None" using that by (simp add: find_record_index_None)
    moreover have "map_option mv_ptr (hash_lookup ?m (mr_ptr r)) = find_record_index (mr_ptr r) 0 ?rs"
      using pt by (simp add: points_to_def)
    ultimately show ?thesis by auto
  qed
  have "\<forall>k \<in> fst ` set ?kvs. k \<noteq> 0 \<and> hash_lookup ?m k \<noteq> None"
  proof
    fix k assume "k \<in> fst ` set ?kvs"
    then obtain i where "f \<le> i" "i < f + ?d" "k = mr_ptr (?rs ! Suc i)" by (auto simp: shift_entries_def)
    then have "?rs ! Suc i \<in> set ?rs" "k = mr_ptr (?rs ! Suc i)" by auto
    then show "k \<noteq> 0 \<and> hash_lookup ?m k \<noteq> None" using present inv by (auto simp: tracker_inv_def image_iff)
  qed
  then have ok: "fst (hm.put_list (te_nodes env) f ?m ?kvs) = 0" by (intro hm.put_list_total [OF h]) auto
  define m1 where "m1 = snd (hm.put_list (te_nodes env) f ?m ?kvs)"
  have m1: "hm.put_list (te_nodes env) f ?m ?kvs = (0, m1)" by (rule prod_eqI) (simp_all only: ok m1_def fst_conv snd_conv)
  have sh: "shift_records (te_nodes env) [f..<length ?rs - 1] ?m ?rs = (0, m1, take f ?rs @ drop (Suc f) ?rs @ drop (length ?rs - 1) ?rs)"
    using shift_records_list [OF _ m1] f(1) by simp
  have inv1: "hash_inv m1" "hash_lookup m1 = hash_lookup ?m ++ map_of (rev ?kvs)"
    using hm.put_list_inv [OF h, of "te_nodes env" f ?kvs] hm.put_list_ok [OF h ok] m1 by auto
  have "hash_lookup m1 ptr \<noteq> None" using present [OF nth_mem [OF f(1)]] f(2) inv1(2) by (auto simp: map_add_def split: option.split)
  note rm = hash_remove_ok [OF inv1(1) this]
  obtain m2 where m2: "hashmap_remove m1 ptr = (0, m2)" using rm(1) by (metis prod.collapse)
  have p2: "points_to m2 (take f ?rs @ drop (Suc f) ?rs)"
    using rm m2 inv1(2) f by (intro shift_points_to [OF pt dist f(1)]) auto
  have fl: "filter (\<lambda>r. mr_ptr r \<noteq> ptr) ?rs = take f ?rs @ drop (Suc f) ?rs" using filter_drop_nth [OF dist f(1)] f(2) by simp
  obtain x where x: "drop (length ?rs - 1) ?rs = [x]"
    using f(1) Cons_nth_drop_Suc [of "length ?rs - 1" ?rs, symmetric] by auto
  let ?t = "tracker_unlock ((tracker_lock t)\<lparr>mt_map := m2, mt_records := filter (\<lambda>r. mr_ptr r \<noteq> ptr) ?rs\<rparr>)"
  have "memory_tracker_remove env t ptr = (ENPU_SUCCESS, ?t)"
    using ptr Some sh m2 x by (simp add: memory_tracker_remove_def Let_def fl butlast_append)
  moreover have "tracker_inv ?t"
  proof -
    let ?fs = "filter (\<lambda>r. mr_ptr r \<noteq> ptr) ?rs"
    have "length ?fs \<le> length ?rs" by (rule length_filter_le)
    then have "length ?fs \<le> unat (mt_capacity t)" using inv unfolding tracker_inv_def by linarith
    moreover have "0 \<notin> mr_ptr ` set ?fs" "mt_capacity t \<le> -1 div RECORD_BYTES" using inv unfolding tracker_inv_def by auto
    moreover have "points_to m2 ?fs" unfolding fl by (rule p2)
    ultimately show ?thesis using distinct_map_filter [OF dist] by (simp add: tracker_inv_def [of "_ \<lparr>mt_records := _\<rparr>"])
  qed
  ultimately show ?thesis by (rule that) simp_all
qed

section \<open>Properties\<close>

datatype 'prop tracker_op =
    Track tracker_env u64 u64 u64 u64 bool
  | Untrack tracker_env u64
  | MarkSwapped u64 u64
  | MarkActive u64 u64
  | AddMap bool u64 u64 u64 u64 u64
  | RemoveMap u64
  | AddHandle bool u64 u64 'prop u64
  | RemoveHandle u64

text \<open>A run of operations, in which an address (or a physical handle, which is recorded in its place) is added only while it is not
  recorded. \<open>None\<close> is undefined behaviour.\<close>

inductive tracker_step :: "'prop memory_tracker \<Rightarrow> 'prop tracker_op \<Rightarrow> ('prop memory_tracker) option \<Rightarrow> bool" where
  track: "ptr \<notin> mr_ptr ` set (mt_records t) \<Longrightarrow>
    tracker_step t (Track env now ptr sz handle phys) (map_option snd (memory_tracker_add env now t ptr sz handle phys))"
| untrack: "tracker_step t (Untrack env ptr) (Some (snd (memory_tracker_remove env t ptr)))"
| mark_swapped: "tracker_step t (MarkSwapped ptr off) (Some (snd (memory_tracker_mark_swapped t ptr off)))"
| mark_active: "tracker_step t (MarkActive ptr h) (Some (snd (memory_tracker_mark_active t ptr h)))"
| add_map: "tracker_step t (AddMap ok ptr sz off h flags) (Some (snd (memory_tracker_add_map_record ok t ptr sz off h flags)))"
| remove_map: "tracker_step t (RemoveMap ptr) (Some (snd (memory_tracker_remove_map_record t ptr)))"
| add_handle: "tracker_step t (AddHandle ok h sz prop flags) (Some (snd (memory_tracker_add_handle_record ok t h sz prop flags)))"
| remove_handle: "tracker_step t (RemoveHandle h) (Some (snd (memory_tracker_remove_handle_record t h)))"

text \<open>The operations on the memory records.\<close>

fun record_op :: "'prop tracker_op \<Rightarrow> bool" where
  "record_op (Track env now ptr sz handle phys) = True"
| "record_op (Untrack env ptr) = True"
| "record_op (MarkSwapped ptr off) = True"
| "record_op (MarkActive ptr h) = True"
| "record_op _ = False"

inductive tracker_reach :: "'prop memory_tracker \<Rightarrow> ('prop memory_tracker) option \<Rightarrow> bool" for t0 where
  start: "tracker_reach t0 (Some t0)"
| step: "tracker_reach t0 (Some t) \<Longrightarrow> tracker_step t x r \<Longrightarrow> tracker_reach t0 r"

lemma create_inv:
  assumes "memory_tracker_create env capacity = Some t"
  shows "tracker_inv t \<and> mt_lock t = 0"
proof -
  obtain m where m: "hashmap_create (te_map env) (te_buckets env) capacity = Some m" and cap: "\<not> capacity > -1 div RECORD_BYTES"
    and t: "t = \<lparr>mt_lock = 0, mt_map = m, mt_records = [], mt_capacity = capacity, mt_check_record = 0,
      mt_check_record_in = 0, mt_map_records = [], mt_handle_records = []\<rparr>"
    using assms by (auto simp: memory_tracker_create_def split: if_split_asm option.split_asm)
  then show ?thesis using hash_create_inv [OF m] by (simp add: tracker_inv_def points_to_def not_less)
qed

lemma find_record_index_cong: "map mr_ptr rs = map mr_ptr rs' \<Longrightarrow> find_record_index k j rs = find_record_index k j rs'"
proof (induction rs arbitrary: rs' j)
  case (Cons r rs)
  then obtain r' rs'' where "rs' = r' # rs''" "mr_ptr r = mr_ptr r'" "map mr_ptr rs = map mr_ptr rs''" by (cases rs') auto
  then show ?case using Cons.IH by simp
qed simp

lemma tracker_inv_update:
  assumes "tracker_inv t" "map mr_ptr rs = map mr_ptr (mt_records t)"
  shows "tracker_inv (t\<lparr>mt_records := rs\<rparr>)"
proof -
  have "mr_ptr ` set rs = mr_ptr ` set (mt_records t)" by (metis assms(2) list.set_map)
  moreover have "length rs = length (mt_records t)" by (metis assms(2) length_map)
  moreover have "find_record_index k 0 rs = find_record_index k 0 (mt_records t)" for k
    by (rule find_record_index_cong [OF assms(2)])
  ultimately show ?thesis using assms by (simp add: tracker_inv_def points_to_def)
qed

lemma map_mr_ptr_update: "i < length rs \<Longrightarrow> mr_ptr x = mr_ptr (rs ! i) \<Longrightarrow> map mr_ptr (rs[i := x]) = map mr_ptr rs"
  by (simp add: map_update list_update_same_conv)

lemma mark_spec:
  assumes "tracker_inv t"
  shows "tracker_inv (snd (memory_tracker_mark_swapped t ptr off))" "tracker_inv (snd (memory_tracker_mark_active t ptr h))"
    "mt_lock (snd (memory_tracker_mark_swapped t ptr off)) = mt_lock t" "mt_lock (snd (memory_tracker_mark_active t ptr h)) = mt_lock t"
proof -
  have bound: "i < length (mt_records t)" if "memory_tracker_find t ptr = Some i" for i
    using that find_record_index_Some [of "mt_records t" ptr 0 i] assms
    by (auto simp: tracker_find_record [OF assms] tracker_inv_def)
  show "tracker_inv (snd (memory_tracker_mark_swapped t ptr off))" "tracker_inv (snd (memory_tracker_mark_active t ptr h))"
    unfolding memory_tracker_mark_swapped_def memory_tracker_mark_active_def
    by (cases "memory_tracker_find t ptr"; simp add: assms tracker_inv_update map_mr_ptr_update bound)+
  show "mt_lock (snd (memory_tracker_mark_swapped t ptr off)) = mt_lock t" "mt_lock (snd (memory_tracker_mark_active t ptr h)) = mt_lock t"
    unfolding memory_tracker_mark_swapped_def memory_tracker_mark_active_def by (cases "memory_tracker_find t ptr"; simp)+
qed

lemma map_handle_inv:
  assumes "tracker_inv t"
  shows "tracker_inv (snd (memory_tracker_add_map_record ok t ptr sz off h flags))" "tracker_inv (snd (memory_tracker_remove_map_record t ptr))"
    "tracker_inv (snd (memory_tracker_add_handle_record ok t h sz prop flags))" "tracker_inv (snd (memory_tracker_remove_handle_record t h))"
proof -
  have "tracker_inv (t\<lparr>mt_map_records := ms\<rparr>)" "tracker_inv (t\<lparr>mt_handle_records := hs\<rparr>)" "tracker_inv (t\<lparr>mt_lock := l\<rparr>)" if "tracker_inv t" for ms hs l and t :: "'a memory_tracker"
    using that by (simp_all add: tracker_inv_def)
  then show "tracker_inv (snd (memory_tracker_add_map_record ok t ptr sz off h flags))" "tracker_inv (snd (memory_tracker_remove_map_record t ptr))"
    "tracker_inv (snd (memory_tracker_add_handle_record ok t h sz prop flags))" "tracker_inv (snd (memory_tracker_remove_handle_record t h))"
    using assms by (simp_all add: memory_tracker_add_map_record_def memory_tracker_remove_map_record_def memory_tracker_add_handle_record_def
        memory_tracker_remove_handle_record_def Let_def split: option.split)
qed

lemma tracker_step_inv:
  assumes "tracker_step t x r" "tracker_inv t"
  shows "\<exists>t'. r = Some t' \<and> tracker_inv t' \<and> (record_op x \<longrightarrow> mt_lock t' = mt_lock t)"
  using assms(1)
proof cases
  case (track ptr env now sz handle phys)
  from add_spec [OF assms(2) track(3)] obtain r' t' where
    "memory_tracker_add env now t ptr sz handle phys = Some (r', t')" "tracker_inv t'" "mt_lock t' = mt_lock t" by metis
  then show ?thesis using track by simp
next
  case (untrack env ptr)
  show ?thesis
  proof (cases "ptr = 0")
    case True
    then show ?thesis using untrack assms(2) by (simp add: memory_tracker_remove_def)
  next
    case False
    then show ?thesis using untrack by (rule_tac remove_spec [OF assms(2) False, of env]) simp
  qed
qed (use mark_spec [OF assms(2)] map_handle_inv [OF assms(2)] in simp_all)

text \<open>An address that is added again while it is recorded: the map points to the second record, and removing the address
  takes it out of the map although one of the records stays.\<close>

definition readded :: "tracker_env \<Rightarrow> unit memory_tracker \<Rightarrow> int \<times> unit memory_tracker" where
  "readded env t = (let add = (\<lambda>t. snd (the (memory_tracker_add env 7 t 4096 64 1 False))) in memory_tracker_remove env (add (add t)) 4096)"


definition demo_env :: tracker_env where
  "demo_env = \<lparr>te_tracker = True, te_records = True, te_map = True, te_buckets = True, te_map_head = True,
     te_handle_head = True, te_node = True, te_nodes = (\<lambda>_. True)\<rparr>"

definition demo_tracker :: "unit memory_tracker" where
  "demo_tracker = the (memory_tracker_create demo_env 1)"

lemma demo_tracker_create: "memory_tracker_create demo_env 1 = Some demo_tracker"
  by (simp add: demo_tracker_def memory_tracker_create_def hashmap_create_def demo_env_def)

lemma demo_tracker_fields: "mt_records demo_tracker = []" "mt_capacity demo_tracker = 1"
  by (simp_all add: demo_tracker_def memory_tracker_create_def hashmap_create_def demo_env_def)


lemma readded_address_lost:
  "fst (readded demo_env demo_tracker) = ENPU_SUCCESS \<and> memory_tracker_find (snd (readded demo_env demo_tracker)) 4096 = None
     \<and> map mr_ptr (mt_records (snd (readded demo_env demo_tracker))) = [4096]"
  by code_simp

text \<open>When the record array cannot grow, an addition reports a failure although the record is kept: the caller
  treats the memory as not allocated, and the tracker will swap it out.\<close>

lemma add_failure_keeps_record:
  assumes inv: "tracker_inv t" and new: "ptr \<notin> mr_ptr ` set (mt_records t)" and args: "ptr \<noteq> 0" "sz \<noteq> 0"
    and full: "length (mt_records t) < unat (mt_capacity t)" "unat (mt_capacity t) \<le> 2 * Suc (length (mt_records t))"
    and node: "te_node env" and no_mem: "\<not> te_records env"
  shows "\<exists>t'. memory_tracker_add env now_ns t ptr sz handle phys = Some (RT_FAIL, t') \<and> ptr \<in> mr_ptr ` set (mt_records t')"
proof -
  obtain r m where p: "hashmap_put (te_node env) (mt_map t) ptr (length (mt_records t)) False = (r, m)" by fastforce
  have "hash_inv (mt_map t)" using inv by (simp add: tracker_inv_def points_to_def)
  then have "r = 0" using hash_put_ok(1) [of "mt_map t" ptr "te_node env"] args(1) node p by (metis fst_conv)
  then show ?thesis using p args full no_mem
    by (simp add: memory_tracker_add_def Let_def memory_tracker_expand_def)
qed

theorem add_failure_keeps_record_witness:
  "\<exists>t'. memory_tracker_add (demo_env\<lparr>te_records := False\<rparr>) 7 demo_tracker 4096 64 1 False = Some (RT_FAIL, t')
     \<and> 4096 \<in> mr_ptr ` set (mt_records t')"
proof -
  show ?thesis
    by (rule add_failure_keeps_record [OF conjunct1 [OF create_inv [OF demo_tracker_create]]])
      (simp_all add: demo_tracker_fields demo_env_def)
qed

text \<open>The lock around the mapping records is not balanced: a failed addition keeps the lock, and a removal that
  finds its record releases one level more than it took, so a caller that holds the lock loses it.\<close>

theorem map_record_lock_unbalanced:
  "mt_lock (snd (memory_tracker_add_map_record mem_ok t ptr sz offset handle flags)) =
     (if mem_ok then mt_lock t else Suc (mt_lock t))
   \<and> mt_lock (snd (memory_tracker_remove_map_record t ptr)) =
     (if \<exists>r \<in> set (mt_map_records t). mp_va r = ptr then mt_lock t - 1 else mt_lock t)"
proof
  show "mt_lock (snd (memory_tracker_add_map_record mem_ok t ptr sz offset handle flags)) =
      (if mem_ok then mt_lock t else Suc (mt_lock t))"
    by (simp add: memory_tracker_add_map_record_def Let_def)
  have none: "remove_first P xs = None \<longleftrightarrow> (\<forall>x \<in> set xs. \<not> P x)" for P and xs :: "map_record list"
    by (induction xs) auto
  show "mt_lock (snd (memory_tracker_remove_map_record t ptr)) =
      (if \<exists>r \<in> set (mt_map_records t). mp_va r = ptr then mt_lock t - 1 else mt_lock t)"
  proof (cases "remove_first (\<lambda>r. mp_va r = ptr) (mt_map_records t)")
    case None
    then have "\<forall>r \<in> set (mt_map_records t). mp_va r \<noteq> ptr" by (simp only: none)
    then show ?thesis using None by (simp add: memory_tracker_remove_map_record_def Let_def tracker_lock_def tracker_unlock_def)
  next
    case (Some rs)
    then have "\<exists>r \<in> set (mt_map_records t). mp_va r = ptr"
      using none [of "\<lambda>r. mp_va r = ptr" "mt_map_records t"] by auto
    then show ?thesis using Some by (simp add: memory_tracker_remove_map_record_def Let_def tracker_lock_def tracker_unlock_def)
  qed
qed

end
