(* ===== verification/Npu_Tree.thy ===== *)
theory Npu_Tree
  imports Enpu_Prelude
begin

text \<open>
  The device tree of the manager (\<^verbatim>\<open>core/src/npu_tree.c\<close>, \<^verbatim>\<open>core/include/common.h\<close>,
  \<^verbatim>\<open>core/include/allocation.h\<close>) and the stub device adapter
  (\<^verbatim>\<open>core/src/dcmi_stub_adapter.c\<close>) it can be built from.

  Nodes live in a store from addresses to nodes, because the code passes node pointers around,
  keeps the same pointer in several tables and follows the parent pointer. A node pointer is an
  address or NULL (\<^typ>\<open>nat option\<close>). Every tree operation of the source is one definition; the
  bit mask \<open>na_vnpu_mask\<close> has a one for every FREE vNPU number.
\<close>

section \<open>Data\<close>

record allocation =
  al_pod_uid :: string
  al_container_name :: string
  al_phy_id :: int
  al_vnpu_id :: int
  al_die_id :: string
  al_shm_id :: string
  al_aicore_quota :: int
  al_hbm_quota :: u64
  al_hbm_limit :: u64
  al_sched_policy :: int
  al_swap_priority :: int
  al_vnpu_priority :: int
  al_create_time_ns :: u64
  al_update_time_ns :: u64
  al_swap_offset :: u64
  al_swap_size :: u64
  al_swapped :: bool

datatype npu_topo_level = NPU_TOPO_SYS | NPU_TOPO_CPU | NPU_TOPO_CARD | NPU_TOPO_DIE

record npu_meta =
  nm_id :: int
  nm_phy_id :: int
  nm_die_id :: string
  nm_minor_id :: int
  nm_uuid :: string
  nm_minor_name :: string
  nm_total_memory :: u64
  nm_card_type :: string

record npu_allocatable =
  na_aicore_quota :: i32
  na_hbm_quota :: u64
  na_vnpu_count :: int
  na_vnpu_mask :: u64

record vnpu_policy_entry =
  pe_vnpu_id :: int
  pe_sched_policy :: int
  pe_vnpu_priority :: int

text \<open>The policy array is NULL until the first policy is attached; afterwards its first
  \<^verbatim>\<open>policy_entry_count\<close> cells are the list.\<close>

record npu_node =
  nd_meta :: npu_meta
  nd_allocatable :: npu_allocatable
  nd_policy_entries :: "vnpu_policy_entry list option"
  nd_parent :: "nat option"
  nd_children :: "nat list"
  nd_mask :: u64
  nd_topo_level :: npu_topo_level

record npu_tree =
  nt_heap :: "nat \<rightharpoonup> npu_node"
  nt_next :: nat
  nt_root :: "nat option"
  nt_leaves :: "nat list"
  nt_die_nodes :: "nat list"
  nt_query_table :: "nat \<Rightarrow> nat option"
  nt_query_size :: int
  nt_real_mode :: bool
  nt_initialized :: bool

definition policy_list :: "npu_node \<Rightarrow> vnpu_policy_entry list" where
  "policy_list n = (case nd_policy_entries n of None \<Rightarrow> [] | Some es \<Rightarrow> es)"

abbreviation upd_allocatable :: "(npu_allocatable \<Rightarrow> npu_allocatable) \<Rightarrow> npu_node \<Rightarrow> npu_node" where
  "upd_allocatable f n \<equiv> n\<lparr>nd_allocatable := f (nd_allocatable n)\<rparr>"

definition put_node :: "npu_tree \<Rightarrow> nat \<Rightarrow> npu_node \<Rightarrow> npu_tree" where
  "put_node t p n = t\<lparr>nt_heap := (nt_heap t)(p \<mapsto> n)\<rparr>"

section \<open>The device adapter\<close>

record dcmi_device_info =
  di_card_id :: int
  di_device_id :: int
  di_logic_id :: int
  di_uuid :: string
  di_total_memory :: u64
  di_total_aicore :: u32

record dcmi_die_info =
  dd_phy_id :: int
  dd_card_id :: int
  dd_device_id :: int
  dd_die_id :: string
  dd_shm_id :: string

text \<open>The adapter is a table of functions; each returns its code with the out-parameters it
  writes. \<open>da_get_device_list\<close> returns the ids it stored and \<^verbatim>\<open>*actual_count\<close>.\<close>

record dcmi_adapter =
  da_get_device_count :: "int \<times> int"
  da_get_device_list :: "int \<Rightarrow> int \<times> int list \<times> int"
  da_get_device_info :: "int \<Rightarrow> int \<times> dcmi_device_info"
  da_get_die_info :: "int \<Rightarrow> int \<times> dcmi_die_info"

record dcmi_stub_config =
  sc_device_count :: int
  sc_total_memory_mb :: int
  sc_total_aicore :: int

definition hex4 :: "nat \<Rightarrow> string" where
  "hex4 n = map (\<lambda>k. let d = n div 16 ^ k mod 16 in char_of (if d < 10 then 48 + d else 87 + d)) [3, 2, 1, 0]"

definition dec2 :: "nat \<Rightarrow> string" where
  "dec2 n = (if n < 10 then CHR ''0'' # dec_nat n else dec_nat n)"

definition stub_get_device_count :: "dcmi_stub_config \<Rightarrow> int \<times> int" where
  "stub_get_device_count c = (ENPU_SUCCESS, sc_device_count c)"

definition stub_get_device_list :: "dcmi_stub_config \<Rightarrow> int \<Rightarrow> int \<times> int list \<times> int" where
  "stub_get_device_list c max_count =
     (let count = (if max_count < sc_device_count c then max_count else sc_device_count c)
      in (ENPU_SUCCESS, map int [0..<nat count], count))"

definition stub_get_device_info :: "dcmi_stub_config \<Rightarrow> int \<Rightarrow> int \<times> dcmi_device_info" where
  "stub_get_device_info c logic_id =
     (if logic_id < 0 \<or> logic_id \<ge> sc_device_count c
      then (ENPU_INVALID_PARAM, \<lparr>di_card_id = 0, di_device_id = 0, di_logic_id = 0, di_uuid = [],
              di_total_memory = 0, di_total_aicore = 0\<rparr>)
      else (ENPU_SUCCESS,
        \<lparr>di_card_id = logic_id div 4, di_device_id = logic_id mod 4, di_logic_id = logic_id,
         di_uuid = ''stub-npu-'' @ dec_int logic_id @ ''-'' @ hex4 (nat logic_id),
         di_total_memory = word_of_int (sc_total_memory_mb c),
         di_total_aicore = word_of_int (sc_total_aicore c)\<rparr>))"

definition stub_get_die_info :: "dcmi_stub_config \<Rightarrow> int \<Rightarrow> int \<times> dcmi_die_info" where
  "stub_get_die_info c logic_id =
     (if logic_id < 0 \<or> logic_id \<ge> sc_device_count c
      then (ENPU_INVALID_PARAM, \<lparr>dd_phy_id = 0, dd_card_id = 0, dd_device_id = 0, dd_die_id = [], dd_shm_id = []\<rparr>)
      else let d = ''14422CC3-2040D918-27A73226-80B40A0A-BB1000'' @ dec2 (nat logic_id)
        in (ENPU_SUCCESS, \<lparr>dd_phy_id = logic_id, dd_card_id = logic_id div 4, dd_device_id = logic_id mod 4,
                            dd_die_id = d, dd_shm_id = d\<rparr>))"

definition dcmi_adapter_create_stub :: "dcmi_stub_config \<Rightarrow> dcmi_adapter" where
  "dcmi_adapter_create_stub c =
     \<lparr>da_get_device_count = stub_get_device_count c, da_get_device_list = stub_get_device_list c,
      da_get_device_info = stub_get_device_info c, da_get_die_info = stub_get_die_info c\<rparr>"

section \<open>Construction and destruction\<close>

definition create_node :: npu_node where
  "create_node =
     \<lparr>nd_meta = \<lparr>nm_id = 0, nm_phy_id = 0, nm_die_id = [], nm_minor_id = 0, nm_uuid = [], nm_minor_name = [],
                 nm_total_memory = 0, nm_card_type = []\<rparr>,
      nd_allocatable = \<lparr>na_aicore_quota = 0, na_hbm_quota = 0, na_vnpu_count = 0, na_vnpu_mask = 0\<rparr>,
      nd_policy_entries = None, nd_parent = None, nd_children = [], nd_mask = 0,
      nd_topo_level = NPU_TOPO_CARD\<rparr>"

text \<open>\<^verbatim>\<open>calloc\<close> of a node: a fresh address of the store.\<close>

definition alloc_node :: "npu_tree \<Rightarrow> npu_node \<Rightarrow> nat \<times> npu_tree" where
  "alloc_node t n = (nt_next t, t\<lparr>nt_heap := (nt_heap t)(nt_next t \<mapsto> n), nt_next := Suc (nt_next t)\<rparr>)"

fun destroy_node :: "nat \<Rightarrow> (nat \<rightharpoonup> npu_node) \<Rightarrow> nat option \<Rightarrow> (nat \<rightharpoonup> npu_node) option" where
  "destroy_node fuel h None = Some h"
| "destroy_node 0 h (Some p) = None"
| "destroy_node (Suc fuel) h (Some p) =
     do {
       n \<leftarrow> h p;
       h' \<leftarrow> foldl (\<lambda>r c. r \<bind> (\<lambda>g. destroy_node fuel g (Some c))) (Some h) (nd_children n);
       Some (h'(p := None))
     }"

definition build_tree_hierarchy :: "bool \<Rightarrow> npu_tree \<Rightarrow> int \<times> npu_tree" where
  "build_tree_hierarchy mem_ok t =
     (if \<not> mem_ok then (ENPU_FAIL, t\<lparr>nt_root := None\<rparr>)
      else case alloc_node t (create_node\<lparr>nd_topo_level := NPU_TOPO_SYS\<rparr>) of
             (p, t') \<Rightarrow> (ENPU_SUCCESS, t'\<lparr>nt_root := Some p\<rparr>))"

definition npu_tree_create :: npu_tree where
  "npu_tree_create =
     \<lparr>nt_heap = (\<lambda>_. None), nt_next = 0, nt_root = None, nt_leaves = [], nt_die_nodes = [],
      nt_query_table = (\<lambda>_. None), nt_query_size = 0, nt_real_mode = True, nt_initialized = False\<rparr>"

text \<open>The node built for one device in the loop of \<^verbatim>\<open>npu_tree_init\<close>.\<close>

definition device_node :: "int \<Rightarrow> u64 \<Rightarrow> dcmi_device_info \<Rightarrow> dcmi_die_info \<Rightarrow> npu_node" where
  "device_node lid bmsk dev die =
     create_node\<lparr>
       nd_meta := \<lparr>nm_id = lid, nm_phy_id = lid, nm_die_id = copy_str DIE_ID_LEN (dd_die_id die),
                   nm_minor_id = lid, nm_uuid = copy_str MAX_UUID_LEN (di_uuid dev),
                   nm_minor_name = ''Ascend'' @ dec_int lid,
                   nm_total_memory = di_total_memory dev * 1024 * 1024,
                   nm_card_type = ''Ascend910B''\<rparr>,
       nd_topo_level := NPU_TOPO_DIE,
       nd_mask := bmsk,
       nd_allocatable := \<lparr>na_aicore_quota = di_total_aicore dev, na_hbm_quota = di_total_memory dev,
                          na_vnpu_count = 0, na_vnpu_mask = 0xFFFFFFFFFFFFFFFF\<rparr>\<rparr>"

text \<open>The device loop: \<open>ids\<close> are the remaining ids, \<open>i\<close> the loop counter and
  \<open>mem_ok (Suc i)\<close> whether the allocation of iteration \<open>i\<close> succeeds. The store into
  \<^verbatim>\<open>leaves\<close> and into \<^verbatim>\<open>query_table\<close> is undefined out of bounds.\<close>

fun init_devices :: "dcmi_adapter \<Rightarrow> (nat \<Rightarrow> bool) \<Rightarrow> nat \<Rightarrow> int list \<Rightarrow> npu_tree \<Rightarrow> (int \<times> npu_tree) option" where
  "init_devices A mem_ok i [] t = Some (ENPU_SUCCESS, t)"
| "init_devices A mem_ok i (lid # ids) t =
     (case da_get_device_info A lid of (ret, dev) \<Rightarrow>
        if ret \<noteq> ENPU_SUCCESS then init_devices A mem_ok (Suc i) ids t
        else if \<not> mem_ok (Suc i) then Some (ENPU_FAIL, t)
        else do {
          bmsk \<leftarrow> shl64 lid;
          case da_get_die_info A lid of (die_ret, die) \<Rightarrow>
            if die_ret \<noteq> ENPU_SUCCESS then Some (ENPU_FAIL, t)
            else if length (nt_leaves t) \<ge> MAX_NPU_PER_NODE then None
            else case alloc_node t (device_node lid bmsk dev die) of (p, t1) \<Rightarrow>
              let t2 = t1\<lparr>nt_leaves := nt_leaves t1 @ [p]\<rparr> in
              if lid < int MAX_NPU_PER_NODE
              then if lid < 0 then None
                   else init_devices A mem_ok (Suc i) ids
                          (t2\<lparr>nt_query_table := (nt_query_table t2)(nat lid := Some p)\<rparr>)
              else init_devices A mem_ok (Suc i) ids t2
        })"

definition npu_tree_init_with_adapter ::
    "dcmi_adapter \<Rightarrow> (nat \<Rightarrow> bool) \<Rightarrow> npu_tree \<Rightarrow> (int \<times> npu_tree) option" where
  "npu_tree_init_with_adapter A mem_ok t =
     (if nt_initialized t then Some (ENPU_SUCCESS, t)
      else case da_get_device_count A of (ret, count) \<Rightarrow>
        if ret \<noteq> ENPU_SUCCESS \<or> count \<le> 0 then Some (ENPU_FAIL, t)
        else let device_count = (if count > int MAX_NPU_PER_NODE then int MAX_NPU_PER_NODE else count) in
        if \<not> mem_ok 0 then Some (ENPU_FAIL, t)
        else case da_get_device_list A device_count of (ret, written, actual_count) \<Rightarrow>
          if nat device_count < length written then None
          else if ret \<noteq> ENPU_SUCCESS then Some (ENPU_FAIL, t)
          else let logic_ids = written @ replicate (nat device_count - length written) 0 in
          if device_count < actual_count then None
          else do {
            (ret, t') \<leftarrow> init_devices A mem_ok 0 (take (nat actual_count) logic_ids) t;
            if ret \<noteq> ENPU_SUCCESS then Some (ret, t')
            else let t'' = snd (build_tree_hierarchy (mem_ok (Suc (nat actual_count))) t')
                 in Some (ENPU_SUCCESS, t''\<lparr>nt_query_size := int (length (nt_leaves t'')),
                                              nt_initialized := True\<rparr>)
          })"

text \<open>\<^verbatim>\<open>npu_tree_init\<close> repeats the same body over the \<^verbatim>\<open>dcmi_*\<close> functions of the vendor wrapper
  after \<^verbatim>\<open>dcmi_wrapper_init\<close>, whose code is the first parameter.\<close>

definition npu_tree_init :: "int \<Rightarrow> dcmi_adapter \<Rightarrow> (nat \<Rightarrow> bool) \<Rightarrow> npu_tree \<Rightarrow> (int \<times> npu_tree) option" where
  "npu_tree_init wrapper_ret dcmi mem_ok t =
     (if nt_initialized t then Some (ENPU_SUCCESS, t)
      else if wrapper_ret \<noteq> ENPU_SUCCESS then Some (ENPU_FAIL, t)
      else npu_tree_init_with_adapter dcmi mem_ok t)"

text \<open>\<^verbatim>\<open>npu_tree_destroy\<close> returns the store that is left: what it still contains is leaked.\<close>

definition npu_tree_destroy :: "npu_tree \<Rightarrow> (int \<times> (nat \<rightharpoonup> npu_node)) option" where
  "npu_tree_destroy t =
     do { h \<leftarrow> destroy_node (Suc (nt_next t)) (nt_heap t) (nt_root t); Some (ENPU_SUCCESS, h) }"

section \<open>Queries\<close>

fun find_leaf :: "npu_tree \<Rightarrow> (npu_meta \<Rightarrow> bool) \<Rightarrow> nat list \<Rightarrow> nat option option" where
  "find_leaf t P [] = Some None"
| "find_leaf t P (p # ps) =
     do { n \<leftarrow> nt_heap t p; if P (nd_meta n) then Some (Some p) else find_leaf t P ps }"

definition npu_tree_query :: "npu_tree \<Rightarrow> string \<Rightarrow> nat option option" where
  "npu_tree_query t minor_name =
     (if \<not> nt_initialized t then Some None
      else find_leaf t (\<lambda>m. take MAX_NAME_LEN (nm_minor_name m) = take MAX_NAME_LEN minor_name) (nt_leaves t))"

definition npu_tree_get_leaf :: "npu_tree \<Rightarrow> int \<Rightarrow> nat option option" where
  "npu_tree_get_leaf t phy_id =
     (if phy_id < 0 then Some None
      else if \<not> nt_initialized t then Some None
      else find_leaf t (\<lambda>m. nm_phy_id m = phy_id) (nt_leaves t))"

text \<open>The search loop for the first set bit: each iteration evaluates \<^verbatim>\<open>1ULL << i\<close>.\<close>

fun first_free :: "u64 \<Rightarrow> nat list \<Rightarrow> int option" where
  "first_free m [] = Some ENPU_NO_RESOURCE"
| "first_free m (i # is) =
     do { b \<leftarrow> shl64 (int i); if m AND b \<noteq> 0 then Some (int i) else first_free m is }"

definition npu_tree_get_available_vnpu_id :: "npu_node option \<Rightarrow> int option" where
  "npu_tree_get_available_vnpu_id np =
     (case np of None \<Rightarrow> Some ENPU_INVALID_PARAM
      | Some n \<Rightarrow>
        if na_vnpu_mask (nd_allocatable n) = 0 then Some ENPU_NO_RESOURCE
        else first_free (na_vnpu_mask (nd_allocatable n)) [0..<MAX_VNPU_PER_DIE])"

definition npu_node_get_available_aicore :: "npu_node option \<Rightarrow> int" where
  "npu_node_get_available_aicore np =
     (case np of None \<Rightarrow> -1 | Some n \<Rightarrow> sint (na_aicore_quota (nd_allocatable n)))"

definition npu_node_get_available_hbm :: "npu_node option \<Rightarrow> u64" where
  "npu_node_get_available_hbm np = (case np of None \<Rightarrow> 0 | Some n \<Rightarrow> na_hbm_quota (nd_allocatable n))"

definition npu_tree_get_available_aicore :: "npu_node option \<Rightarrow> u64" where
  "npu_tree_get_available_aicore np =
     (case np of None \<Rightarrow> 0 | Some n \<Rightarrow> word_of_int (sint (na_aicore_quota (nd_allocatable n))))"

definition npu_node_get_vnpu_count :: "npu_node option \<Rightarrow> int" where
  "npu_node_get_vnpu_count np = (case np of None \<Rightarrow> -1 | Some n \<Rightarrow> na_vnpu_count (nd_allocatable n))"

definition npu_node_get_phy_id :: "npu_node option \<Rightarrow> int" where
  "npu_node_get_phy_id np = (case np of None \<Rightarrow> -1 | Some n \<Rightarrow> nm_phy_id (nd_meta n))"

definition npu_node_get_minor_id :: "npu_node option \<Rightarrow> int" where
  "npu_node_get_minor_id np = (case np of None \<Rightarrow> -1 | Some n \<Rightarrow> nm_minor_id (nd_meta n))"

definition npu_node_get_die_id :: "npu_node option \<Rightarrow> string option" where
  "npu_node_get_die_id np = map_option (\<lambda>n. nm_die_id (nd_meta n)) np"

definition npu_node_get_total_memory :: "npu_node option \<Rightarrow> u64" where
  "npu_node_get_total_memory np = (case np of None \<Rightarrow> 0 | Some n \<Rightarrow> nm_total_memory (nd_meta n))"

definition npu_node_get_vnpu_mask :: "npu_node option \<Rightarrow> u64" where
  "npu_node_get_vnpu_mask np = (case np of None \<Rightarrow> 0 | Some n \<Rightarrow> na_vnpu_mask (nd_allocatable n))"

fun policies_conform :: "vnpu_policy_entry list \<Rightarrow> int \<Rightarrow> bool" where
  "policies_conform [] sched_policy = True"
| "policies_conform (e # es) sched_policy =
     (if pe_vnpu_priority e = VNPU_PRIORITY_HIGH then policies_conform es sched_policy
      else if pe_sched_policy e \<noteq> sched_policy then False
      else policies_conform es sched_policy)"

definition npu_node_validate_policy :: "npu_node option \<Rightarrow> int \<Rightarrow> int" where
  "npu_node_validate_policy np sched_policy =
     (case np of None \<Rightarrow> ENPU_INVALID_PARAM
      | Some n \<Rightarrow> if policies_conform (policy_list n) sched_policy then ENPU_SUCCESS else ENPU_FAIL)"

section \<open>Updates\<close>

text \<open>The update of the parent's device mask that every mark operation ends with.\<close>

definition update_parent :: "npu_tree \<Rightarrow> npu_node \<Rightarrow> (u64 \<Rightarrow> u64) \<Rightarrow> npu_tree option" where
  "update_parent t n f =
     (case nd_parent n of None \<Rightarrow> Some t
      | Some q \<Rightarrow> do { pn \<leftarrow> nt_heap t q; Some (put_node t q (pn\<lparr>nd_mask := f (nd_mask pn)\<rparr>)) })"

definition npu_tree_mark_occupied ::
    "npu_tree \<Rightarrow> nat option \<Rightarrow> int \<Rightarrow> allocation \<Rightarrow> (int \<times> npu_tree) option" where
  "npu_tree_mark_occupied t np vnpu_id alloc =
     (case np of None \<Rightarrow> Some (ENPU_INVALID_PARAM, t)
      | Some p \<Rightarrow>
        if vnpu_id < 0 \<or> vnpu_id \<ge> int MAX_VNPU_PER_DIE then Some (ENPU_INVALID_PARAM, t)
        else do {
          n \<leftarrow> nt_heap t p;
          bit_mask \<leftarrow> shl64 vnpu_id;
          if na_vnpu_mask (nd_allocatable n) AND bit_mask = 0 then Some (ENPU_ALREADY_EXISTS, t)
          else do {
            let n' = upd_allocatable (\<lambda>a. a\<lparr>
                  na_vnpu_mask := na_vnpu_mask a AND NOT bit_mask,
                  na_aicore_quota := na_aicore_quota a - word_of_int (al_aicore_quota alloc),
                  na_hbm_quota := na_hbm_quota a - al_hbm_quota alloc,
                  na_vnpu_count := na_vnpu_count a + 1\<rparr>) n;
            t' \<leftarrow> update_parent (put_node t p n') n' (\<lambda>m. m AND NOT (nd_mask n'));
            Some (ENPU_SUCCESS, t')
          }
        })"

definition npu_tree_mark_free :: "npu_tree \<Rightarrow> nat option \<Rightarrow> int \<Rightarrow> (int \<times> npu_tree) option" where
  "npu_tree_mark_free t np vnpu_id =
     (case np of None \<Rightarrow> Some (ENPU_INVALID_PARAM, t)
      | Some p \<Rightarrow>
        if vnpu_id < 0 \<or> vnpu_id \<ge> int MAX_VNPU_PER_DIE then Some (ENPU_INVALID_PARAM, t)
        else do {
          n \<leftarrow> nt_heap t p;
          bit_mask \<leftarrow> shl64 vnpu_id;
          if na_vnpu_mask (nd_allocatable n) AND bit_mask \<noteq> 0 then Some (ENPU_SUCCESS, t)
          else do {
            let n' = upd_allocatable (\<lambda>a. a\<lparr>
                  na_vnpu_mask := na_vnpu_mask a OR bit_mask,
                  na_vnpu_count := na_vnpu_count a - 1\<rparr>) n;
            t' \<leftarrow> update_parent (put_node t p n') n' (\<lambda>m. m OR nd_mask n');
            Some (ENPU_SUCCESS, t')
          }
        })"

definition npu_tree_mark_vnpu_occupied :: "npu_tree \<Rightarrow> nat option \<Rightarrow> int \<Rightarrow> (int \<times> npu_tree) option" where
  "npu_tree_mark_vnpu_occupied t np vnpu_id =
     (case np of None \<Rightarrow> Some (ENPU_INVALID_PARAM, t)
      | Some p \<Rightarrow>
        if vnpu_id < 0 \<or> vnpu_id \<ge> int MAX_VNPU_PER_DIE then Some (ENPU_INVALID_PARAM, t)
        else do {
          n \<leftarrow> nt_heap t p;
          bit_mask \<leftarrow> shl64 vnpu_id;
          if na_vnpu_mask (nd_allocatable n) AND bit_mask = 0 then Some (ENPU_ALREADY_EXISTS, t)
          else do {
            let n' = upd_allocatable (\<lambda>a. a\<lparr>na_vnpu_mask := na_vnpu_mask a AND NOT bit_mask\<rparr>) n;
            t' \<leftarrow> update_parent (put_node t p n') n' (\<lambda>m. m AND NOT (nd_mask n'));
            Some (ENPU_SUCCESS, t')
          }
        })"

definition npu_tree_mark_vnpu_free :: "npu_tree \<Rightarrow> nat option \<Rightarrow> int \<Rightarrow> (int \<times> npu_tree) option" where
  "npu_tree_mark_vnpu_free t np vnpu_id =
     (case np of None \<Rightarrow> Some (ENPU_INVALID_PARAM, t)
      | Some p \<Rightarrow>
        if vnpu_id < 0 \<or> vnpu_id \<ge> int MAX_VNPU_PER_DIE then Some (ENPU_INVALID_PARAM, t)
        else do {
          n \<leftarrow> nt_heap t p;
          bit_mask \<leftarrow> shl64 vnpu_id;
          if na_vnpu_mask (nd_allocatable n) AND bit_mask \<noteq> 0 then Some (ENPU_SUCCESS, t)
          else do {
            let n' = upd_allocatable (\<lambda>a. a\<lparr>na_vnpu_mask := na_vnpu_mask a OR bit_mask\<rparr>) n;
            t' \<leftarrow> update_parent (put_node t p n') n' (\<lambda>m. m OR nd_mask n');
            Some (ENPU_SUCCESS, t')
          }
        })"

text \<open>\<^verbatim>\<open>npu_tree_update_quota\<close>: \<open>hbm_delta\<close> is an \<^verbatim>\<open>int64_t\<close>; negating its minimum overflows and is
  undefined.\<close>

definition npu_tree_update_quota ::
    "npu_tree \<Rightarrow> nat option \<Rightarrow> int \<Rightarrow> int \<Rightarrow> (int \<times> npu_tree) option" where
  "npu_tree_update_quota t np aicore_delta hbm_delta =
     (case np of None \<Rightarrow> Some (ENPU_INVALID_PARAM, t)
      | Some p \<Rightarrow> do {
          n \<leftarrow> nt_heap t p;
          let n1 = (if aicore_delta \<noteq> 0
                    then upd_allocatable (\<lambda>a. a\<lparr>na_aicore_quota := na_aicore_quota a + word_of_int aicore_delta\<rparr>) n
                    else n);
          if hbm_delta = - (2 ^ 63) then None
          else let n2 = (if hbm_delta \<noteq> 0
                    then upd_allocatable (\<lambda>a. a\<lparr>na_hbm_quota :=
                           (if hbm_delta \<ge> 0 then na_hbm_quota a + word_of_int hbm_delta
                            else na_hbm_quota a - word_of_int (- hbm_delta))\<rparr>) n1
                    else n1)
               in Some (ENPU_SUCCESS, put_node t p n2)
        })"

definition npu_tree_attach_policy ::
    "bool \<Rightarrow> npu_tree \<Rightarrow> nat option \<Rightarrow> int \<Rightarrow> int \<Rightarrow> int \<Rightarrow> (int \<times> npu_tree) option" where
  "npu_tree_attach_policy mem_ok t np vnpu_id sched_policy vnpu_priority =
     (case np of None \<Rightarrow> Some (ENPU_INVALID_PARAM, t)
      | Some p \<Rightarrow>
        if vnpu_id < 0 \<or> vnpu_id \<ge> int MAX_VNPU_PER_DIE then Some (ENPU_INVALID_PARAM, t)
        else do {
          n \<leftarrow> nt_heap t p;
          if nd_policy_entries n = None \<and> \<not> mem_ok then Some (ENPU_FAIL, t)
          else let es = policy_list n; n1 = n\<lparr>nd_policy_entries := Some es\<rparr> in
            if length es < MAX_VNPU_PER_DIE
            then Some (ENPU_SUCCESS, put_node t p
                   (upd_allocatable (\<lambda>a. a\<lparr>na_vnpu_count := na_vnpu_count a + 1\<rparr>)
                     (n1\<lparr>nd_policy_entries := Some (es @ [\<lparr>pe_vnpu_id = vnpu_id,
                        pe_sched_policy = sched_policy, pe_vnpu_priority = vnpu_priority\<rparr>])\<rparr>)))
            else Some (ENPU_SUCCESS, put_node t p n1)
        })"

text \<open>The two loops of \<^verbatim>\<open>npu_tree_detach_policy\<close>: the first entry with the number, removed by
  shifting the tail left.\<close>

fun remove_policy :: "int \<Rightarrow> vnpu_policy_entry list \<Rightarrow> vnpu_policy_entry list option" where
  "remove_policy v [] = None"
| "remove_policy v (e # es) =
     (if pe_vnpu_id e = v then Some es else map_option ((#) e) (remove_policy v es))"

definition npu_tree_detach_policy :: "npu_tree \<Rightarrow> nat option \<Rightarrow> int \<Rightarrow> (int \<times> npu_tree) option" where
  "npu_tree_detach_policy t np vnpu_id =
     (case np of None \<Rightarrow> Some (ENPU_INVALID_PARAM, t)
      | Some p \<Rightarrow>
        if vnpu_id < 0 \<or> vnpu_id \<ge> int MAX_VNPU_PER_DIE then Some (ENPU_INVALID_PARAM, t)
        else do {
          n \<leftarrow> nt_heap t p;
          case remove_policy vnpu_id (policy_list n) of
            None \<Rightarrow> Some (ENPU_SUCCESS, t)
          | Some es \<Rightarrow> Some (ENPU_SUCCESS, put_node t p
               (upd_allocatable (\<lambda>a. a\<lparr>na_vnpu_count := na_vnpu_count a - 1\<rparr>)
                 (n\<lparr>nd_policy_entries := Some es\<rparr>)))
        })"

section \<open>Well-formedness\<close>

text \<open>The vNPU numbers a node has given out, the invariant of a device node (the policy entries
  are exactly the occupied numbers, and the counter counts them) and of the tree.\<close>

definition occupied :: "npu_node \<Rightarrow> nat set" where
  "occupied n = {i. i < 64 \<and> \<not> bit (na_vnpu_mask (nd_allocatable n)) i}"

definition node_ok :: "npu_node \<Rightarrow> bool" where
  "node_ok n \<longleftrightarrow> nd_parent n = None
     \<and> distinct (map pe_vnpu_id (policy_list n))
     \<and> pe_vnpu_id ` set (policy_list n) = int ` occupied n
     \<and> na_vnpu_count (nd_allocatable n) = int (length (policy_list n))"

definition leaf_phy :: "npu_tree \<Rightarrow> nat \<Rightarrow> int" where
  "leaf_phy t p = nm_phy_id (nd_meta (the (nt_heap t p)))"

definition tree_wf :: "npu_tree \<Rightarrow> bool" where
  "tree_wf t \<longleftrightarrow> length (nt_leaves t) \<le> MAX_NPU_PER_NODE
     \<and> distinct (map (leaf_phy t) (nt_leaves t))
     \<and> (\<forall>p \<in> set (nt_leaves t). p < nt_next t \<and> 0 \<le> leaf_phy t p \<and> leaf_phy t p < int MAX_NPU_PER_NODE
            \<and> (\<exists>n. nt_heap t p = Some n \<and> node_ok n))"

definition tree_fresh :: "npu_tree \<Rightarrow> bool" where
  "tree_fresh t \<longleftrightarrow> (\<forall>p \<in> set (nt_leaves t). \<forall>n. nt_heap t p = Some n \<longrightarrow> policy_list n = [])"

section \<open>Behaviour of the queries\<close>

lemma first_free_least:
  assumes "bit m j" "\<And>i. i < j \<Longrightarrow> \<not> bit m i" "k \<le> j" "j < N"
  shows "first_free m [k..<N] = Some (int j)"
  using assms(3,4)
proof (induction "j - k" arbitrary: k)
  case 0
  then have "k = j" by simp
  moreover have "j < 64" using assms(1) by (rule bit_u64_less)
  ultimately show ?case using assms(1) 0 by (simp add: upt_conv_Cons mask_test_iff)
next
  case (Suc d)
  then have "k < j" and "j < 64" using assms(1) bit_u64_less by auto
  then have "\<not> bit m k" and "k < 64" using assms(2) by auto
  moreover have "first_free m [Suc k..<N] = Some (int j)"
    using Suc.hyps(1) [of "Suc k"] Suc.hyps(2) \<open>k < j\<close> Suc.prems by simp
  ultimately show ?case using \<open>k < j\<close> Suc.prems by (simp add: upt_conv_Cons mask_test_iff)
qed

lemma least_bit:
  assumes "(m :: u64) \<noteq> 0"
  obtains i where "bit m i" "i < 64" "\<forall>j < i. \<not> bit m j"
proof -
  obtain k where "bit m k" using assms u64_nonzero_bit by blast
  then have "bit m (LEAST i. bit m i)" by (rule LeastI)
  moreover have "\<forall>j < (LEAST i. bit m i). \<not> bit m j" using not_less_Least by blast
  ultimately show ?thesis using that bit_u64_less by blast
qed

lemma available_vnpu_id_cases:
  obtains (full) "na_vnpu_mask (nd_allocatable n) = 0"
      "npu_tree_get_available_vnpu_id (Some n) = Some ENPU_NO_RESOURCE"
  | (free) i where "npu_tree_get_available_vnpu_id (Some n) = Some (int i)" "i < 64"
      "bit (na_vnpu_mask (nd_allocatable n)) i" "\<forall>j < i. \<not> bit (na_vnpu_mask (nd_allocatable n)) j"
proof (cases "na_vnpu_mask (nd_allocatable n) = 0")
  case True
  then show ?thesis by (intro full) (simp_all add: npu_tree_get_available_vnpu_id_def)
next
  case False
  then obtain i where i: "bit (na_vnpu_mask (nd_allocatable n)) i" "i < 64"
      "\<forall>j < i. \<not> bit (na_vnpu_mask (nd_allocatable n)) j"
    using least_bit by blast
  have "first_free (na_vnpu_mask (nd_allocatable n)) [0..<MAX_VNPU_PER_DIE] = Some (int i)"
    by (rule first_free_least) (use i in auto)
  then have "npu_tree_get_available_vnpu_id (Some n) = Some (int i)"
    using False by (simp add: npu_tree_get_available_vnpu_id_def del: upt_rec_numeral)
  then show ?thesis using i free by blast
qed

lemma find_leaf_total:
  assumes "\<forall>p \<in> set ps. nt_heap t p \<noteq> None"
  shows "find_leaf t P ps = Some (List.find (\<lambda>p. P (nd_meta (the (nt_heap t p)))) ps)"
  using assms by (induction ps) auto

lemma tree_wf_leaf:
  assumes "tree_wf t" "p \<in> set (nt_leaves t)"
  obtains n where "nt_heap t p = Some n" "node_ok n" "leaf_phy t p = nm_phy_id (nd_meta n)"
  using assms by (auto simp: tree_wf_def leaf_phy_def)

lemma get_leaf_eq:
  assumes "tree_wf t"
  shows "npu_tree_get_leaf t phy_id =
           Some (if phy_id < 0 \<or> \<not> nt_initialized t then None
                 else List.find (\<lambda>p. leaf_phy t p = phy_id) (nt_leaves t))"
proof -
  have "\<forall>p \<in> set (nt_leaves t). nt_heap t p \<noteq> None" using assms by (auto simp: tree_wf_def)
  then show ?thesis by (simp add: npu_tree_get_leaf_def find_leaf_total leaf_phy_def)
qed

lemma get_leaf_SomeD:
  assumes "tree_wf t" "npu_tree_get_leaf t phy_id = Some (Some p)"
  shows "p \<in> set (nt_leaves t)" "leaf_phy t p = phy_id" "nt_initialized t"
  using assms(2) unfolding get_leaf_eq [OF assms(1)]
  by (auto simp: find_Some_iff split: if_splits)

lemma get_leaf_leaf:
  assumes "tree_wf t" "nt_initialized t" "p \<in> set (nt_leaves t)"
  shows "npu_tree_get_leaf t (leaf_phy t p) = Some (Some p)"
proof -
  obtain q where q: "List.find (\<lambda>q. leaf_phy t q = leaf_phy t p) (nt_leaves t) = Some q"
    using assms(3) by (metis (mono_tags, lifting) find_None_iff not_None_eq)
  then have "q \<in> set (nt_leaves t)" "leaf_phy t q = leaf_phy t p"
    by (auto simp: find_Some_iff)
  then have "q = p" using assms(1,3) by (auto simp: tree_wf_def distinct_map inj_on_def)
  moreover have "0 \<le> leaf_phy t p" using assms(1,3) by (auto simp: tree_wf_def)
  ultimately show ?thesis using q assms(2) by (simp add: get_leaf_eq [OF assms(1)])
qed

lemma policies_conform_iff:
  "policies_conform es pol \<longleftrightarrow>
     (\<forall>e \<in> set es. pe_vnpu_priority e = VNPU_PRIORITY_HIGH \<or> pe_sched_policy e = pol)"
  by (induction es) auto

section \<open>Behaviour of the updates\<close>

lemma policy_list_simps [simp]:
  "policy_list (n\<lparr>nd_allocatable := x\<rparr>) = policy_list n"
  "policy_list (n\<lparr>nd_policy_entries := Some es\<rparr>) = es"
  by (simp_all add: policy_list_def)

lemma put_node_simps [simp]:
  "nt_heap (put_node t p n) = (nt_heap t)(p \<mapsto> n)"
  "nt_leaves (put_node t p n) = nt_leaves t"
  "nt_next (put_node t p n) = nt_next t"
  "nt_initialized (put_node t p n) = nt_initialized t"
  "put_node (put_node t p n) p n' = put_node t p n'"
  by (simp_all add: put_node_def)

lemma put_node_same [simp]: "nt_heap t p = Some n \<Longrightarrow> put_node t p n = t"
  by (cases t) (auto simp: put_node_def)

lemma update_parent_none [simp]: "nd_parent n = None \<Longrightarrow> update_parent t n f = Some t"
  by (simp add: update_parent_def)

lemma mark_vnpu_occupied_eq:
  assumes "nt_heap t p = Some n" "nd_parent n = None" "i < 64"
  shows "npu_tree_mark_vnpu_occupied t (Some p) (int i) =
           (if bit (na_vnpu_mask (nd_allocatable n)) i
            then Some (ENPU_SUCCESS, put_node t p (upd_allocatable
                   (\<lambda>a. a\<lparr>na_vnpu_mask := na_vnpu_mask a AND NOT (bmask i)\<rparr>) n))
            else Some (ENPU_ALREADY_EXISTS, t))"
  using assms by (simp add: npu_tree_mark_vnpu_occupied_def mask_test_iff)

lemma mark_vnpu_free_eq:
  assumes "nt_heap t p = Some n" "nd_parent n = None" "i < 64"
  shows "npu_tree_mark_vnpu_free t (Some p) (int i) =
           (if bit (na_vnpu_mask (nd_allocatable n)) i then Some (ENPU_SUCCESS, t)
            else Some (ENPU_SUCCESS, put_node t p (upd_allocatable
                   (\<lambda>a. a\<lparr>na_vnpu_mask := na_vnpu_mask a OR bmask i\<rparr>) n)))"
  using assms by (simp add: npu_tree_mark_vnpu_free_def mask_test_iff)

lemma mark_vnpu_undefined_iff:
  assumes "nt_heap t p = Some n" "nd_parent n = None"
  shows "npu_tree_mark_vnpu_occupied t (Some p) v = None \<longleftrightarrow> 64 \<le> v \<and> v < 128"
    and "npu_tree_mark_vnpu_free t (Some p) v = None \<longleftrightarrow> 64 \<le> v \<and> v < 128"
  using assms
  by (auto simp: npu_tree_mark_vnpu_occupied_def npu_tree_mark_vnpu_free_def shl64_def bind_eq_None_conv
           split: if_splits)

lemma update_quota_eq:
  assumes "nt_heap t p = Some n" "- (2 ^ 63) < h"
  shows "npu_tree_update_quota t (Some p) a h =
           Some (ENPU_SUCCESS, put_node t p (upd_allocatable
             (\<lambda>x. x\<lparr>na_aicore_quota := na_aicore_quota x + word_of_int a,
                     na_hbm_quota := na_hbm_quota x + word_of_int h\<rparr>) n))"
  using assms by (auto simp: npu_tree_update_quota_def Let_def wi_hom_neg [symmetric])

lemma attach_policy_eq:
  assumes "nt_heap t p = Some n" "0 \<le> v" "v < 128" "length (policy_list n) < 128"
  shows "npu_tree_attach_policy ok t (Some p) v pol prio =
           (if nd_policy_entries n = None \<and> \<not> ok then Some (ENPU_FAIL, t)
            else Some (ENPU_SUCCESS, put_node t p (n\<lparr>
               nd_policy_entries := Some (policy_list n @ [\<lparr>pe_vnpu_id = v, pe_sched_policy = pol,
                                                             pe_vnpu_priority = prio\<rparr>]),
               nd_allocatable := (nd_allocatable n)\<lparr>na_vnpu_count := na_vnpu_count (nd_allocatable n) + 1\<rparr>\<rparr>)))"
  using assms by (simp add: npu_tree_attach_policy_def Let_def)

lemma remove_policy_None: "remove_policy v es = None \<longleftrightarrow> v \<notin> pe_vnpu_id ` set es"
  by (induction es) auto

lemma remove_policy_SomeD:
  assumes "remove_policy v es = Some es'" "distinct (map pe_vnpu_id es)"
  shows "es' = filter (\<lambda>e. pe_vnpu_id e \<noteq> v) es" "length es = Suc (length es')"
proof -
  have "es' = filter (\<lambda>e. pe_vnpu_id e \<noteq> v) es \<and> length es = Suc (length es')"
    using assms
  proof (induction es arbitrary: es')
    case (Cons e es)
    show ?case
    proof (cases "pe_vnpu_id e = v")
      case True
      then have "filter (\<lambda>e. pe_vnpu_id e \<noteq> v) es = es" using Cons.prems
        by (intro filter_True) (auto simp: image_iff dest: sym)
      then show ?thesis using True Cons.prems by simp
    next
      case False
      then show ?thesis using Cons by auto
    qed
  qed simp
  then show "es' = filter (\<lambda>e. pe_vnpu_id e \<noteq> v) es" "length es = Suc (length es')" by auto
qed

lemma remove_policy_append:
  "v \<notin> pe_vnpu_id ` set es \<Longrightarrow> pe_vnpu_id e = v \<Longrightarrow> remove_policy v (es @ [e]) = Some es"
  by (induction es) auto

lemma detach_policy_eq:
  assumes "nt_heap t p = Some n" "0 \<le> v" "v < 128"
  shows "npu_tree_detach_policy t (Some p) v =
           (case remove_policy v (policy_list n) of None \<Rightarrow> Some (ENPU_SUCCESS, t)
            | Some es \<Rightarrow> Some (ENPU_SUCCESS, put_node t p (n\<lparr>nd_policy_entries := Some es,
               nd_allocatable := (nd_allocatable n)\<lparr>na_vnpu_count := na_vnpu_count (nd_allocatable n) - 1\<rparr>\<rparr>)))"
  using assms by (simp add: npu_tree_detach_policy_def split: option.split)

text \<open>A node that keeps its \<open>nm_phy_id\<close> and the node invariant can replace a leaf.\<close>

lemma tree_wf_put_node:
  assumes "tree_wf t" "p \<in> set (nt_leaves t)" "node_ok n" "nm_phy_id (nd_meta n) = leaf_phy t p"
  shows "tree_wf (put_node t p n)"
proof -
  have "leaf_phy (put_node t p n) = leaf_phy t"
    using assms(4) by (auto simp: leaf_phy_def fun_eq_iff)
  then show ?thesis using assms by (auto simp: tree_wf_def)
qed

lemma node_ok_policy_length: "node_ok n \<Longrightarrow> length (policy_list n) = card (occupied n)"
  by (metis card_image distinct_card inj_on_of_nat length_map list.set_map node_ok_def)

lemma card_occupied_le: "card (occupied n) \<le> 64"
  using card_mono [of "{..<64}" "occupied n"] by (auto simp: occupied_def)

lemma occupied_cong:
  "na_vnpu_mask (nd_allocatable n) = na_vnpu_mask (nd_allocatable n') \<Longrightarrow> occupied n = occupied n'"
  by (simp add: occupied_def)

section \<open>Building the tree\<close>

text \<open>What the manager relies on of a device adapter: the list it stores fits the buffer, the
  count it reports fits too, and the logic ids are distinct device numbers below
  \<^verbatim>\<open>MAX_NPU_PER_NODE\<close>. The client lemma is that building the tree never leaves the defined
  fragment of C and yields a well-formed tree whatever allocation fails.\<close>

lemma device_node_ok: "node_ok (device_node d m dev die)"
  by (auto simp: node_ok_def device_node_def create_node_def policy_list_def occupied_def all_ones)

lemma leaf_phy_flags: "leaf_phy (t\<lparr>nt_query_size := q, nt_initialized := b\<rparr>) = leaf_phy t"
  by (simp add: leaf_phy_def fun_eq_iff)

lemma tree_wf_flags [simp]:
  "tree_wf (t\<lparr>nt_query_size := q, nt_initialized := b\<rparr>) = tree_wf t"
  "tree_fresh (t\<lparr>nt_query_size := q, nt_initialized := b\<rparr>) = tree_fresh t"
  by (simp_all add: tree_wf_def tree_fresh_def leaf_phy_flags)

lemma init_devices_ret:
  "init_devices A ok i ids t = Some (ret, t') \<Longrightarrow>
     (ret = ENPU_SUCCESS \<or> ret = ENPU_FAIL) \<and> nt_initialized t' = nt_initialized t"
proof (induction ids arbitrary: i t)
  case (Cons d ids)
  obtain ret1 dev where dev: "da_get_device_info A d = (ret1, dev)" by (cases "da_get_device_info A d")
  obtain dret die where die: "da_get_die_info A d = (dret, die)" by (cases "da_get_die_info A d")
  from Cons.prems show ?case
    using Cons.IH [of "Suc i"]
    by (fastforce simp: dev die alloc_node_def Let_def bind_eq_Some_conv split: if_splits)
qed simp

lemma build_tree_hierarchy_keeps:
  assumes "tree_wf t"
  shows "tree_wf (snd (build_tree_hierarchy ok t))"
    and "tree_fresh t \<Longrightarrow> tree_fresh (snd (build_tree_hierarchy ok t))"
proof -
  have old: "p \<noteq> nt_next t" if "p \<in> set (nt_leaves t)" for p
    using that assms by (auto simp: tree_wf_def)
  let ?t = "snd (build_tree_hierarchy ok t)"
  have eqs: "nt_leaves ?t = nt_leaves t" "nt_next t \<le> nt_next ?t"
    by (simp_all add: build_tree_hierarchy_def alloc_node_def)
  have heap: "nt_heap ?t p = nt_heap t p" if "p \<in> set (nt_leaves t)" for p
    using old [OF that] by (simp add: build_tree_hierarchy_def alloc_node_def)
  then have phy: "leaf_phy ?t p = leaf_phy t p" if "p \<in> set (nt_leaves t)" for p
    using that by (simp add: leaf_phy_def)
  then have "map (leaf_phy ?t) (nt_leaves t) = map (leaf_phy t) (nt_leaves t)" by simp
  then show "tree_wf ?t"
    using assms eqs by (auto simp: tree_wf_def heap phy simp del: map_eq_conv)
  show "tree_fresh t \<Longrightarrow> tree_fresh ?t"
    using eqs heap by (simp add: tree_fresh_def)
qed

locale device_adapter =
  fixes A :: dcmi_adapter
  assumes list_fits: "0 < m \<Longrightarrow> m \<le> int MAX_NPU_PER_NODE \<Longrightarrow> da_get_device_list A m = (ret, ids, k) \<Longrightarrow>
        length ids \<le> nat m \<and> nat k = length ids \<and> distinct ids
        \<and> (\<forall>d \<in> set ids. 0 \<le> d \<and> d < int MAX_NPU_PER_NODE)"
begin

lemma init_devices_wf:
  assumes "tree_wf t" "distinct ids" "\<forall>d \<in> set ids. 0 \<le> d \<and> d < int MAX_NPU_PER_NODE"
    "set ids \<inter> leaf_phy t ` set (nt_leaves t) = {}"
    "length (nt_leaves t) + length ids \<le> MAX_NPU_PER_NODE"
  shows "\<exists>ret t'. init_devices A ok i ids t = Some (ret, t') \<and> tree_wf t' \<and> (tree_fresh t \<longrightarrow> tree_fresh t')"
  using assms
proof (induction ids arbitrary: i t)
  case Nil
  then show ?case by simp
next
  case (Cons d ids)
  obtain ret dev where dev: "da_get_device_info A d = (ret, dev)" by (cases "da_get_device_info A d")
  obtain dret die where die: "da_get_die_info A d = (dret, die)" by (cases "da_get_die_info A d")
  let ?n = "device_node d (bmask (nat d)) dev die"
  let ?t = "t\<lparr>nt_heap := (nt_heap t)(nt_next t \<mapsto> ?n), nt_next := Suc (nt_next t),
             nt_leaves := nt_leaves t @ [nt_next t],
             nt_query_table := (nt_query_table t)(nat d := Some (nt_next t))\<rparr>"
  have d: "0 \<le> d" "d < 16" using Cons.prems(3) by auto
  have old: "p \<noteq> nt_next t" if "p \<in> set (nt_leaves t)" for p
    using that Cons.prems(1) by (auto simp: tree_wf_def)
  have phy: "leaf_phy ?t p = leaf_phy t p" if "p \<in> set (nt_leaves t)" for p
    using old [OF that] by (simp add: leaf_phy_def)
  have new: "leaf_phy ?t (nt_next t) = d" by (simp add: leaf_phy_def device_node_def)
  have ok: "node_ok ?n" by (rule device_node_ok)
  have map_eq: "map (leaf_phy ?t) (nt_leaves t) = map (leaf_phy t) (nt_leaves t)" by (simp add: phy)
  have "tree_wf ?t"
    unfolding tree_wf_def
  proof (intro conjI ballI)
    show "length (nt_leaves ?t) \<le> MAX_NPU_PER_NODE" using Cons.prems(5) by simp
    show "distinct (map (leaf_phy ?t) (nt_leaves ?t))"
      using Cons.prems(1,4) by (simp add: map_eq new tree_wf_def)
  qed (use Cons.prems(1) d ok new phy old in \<open>auto simp: tree_wf_def less_Suc_eq\<close>)
  moreover have fresh: "tree_fresh t \<Longrightarrow> tree_fresh ?t"
    using old by (auto simp: tree_fresh_def device_node_def create_node_def policy_list_def)
  moreover have "set ids \<inter> leaf_phy ?t ` set (nt_leaves ?t) = {}"
    using Cons.prems(2,4) by (auto simp: new phy)
  ultimately have "\<exists>ret t'. init_devices A ok (Suc i) ids ?t = Some (ret, t') \<and> tree_wf t' \<and> (tree_fresh ?t \<longrightarrow> tree_fresh t')"
    using Cons.prems by (intro Cons.IH) auto
  moreover have "\<exists>ret t'. init_devices A ok (Suc i) ids t = Some (ret, t') \<and> tree_wf t' \<and> (tree_fresh t \<longrightarrow> tree_fresh t')"
    using Cons.prems by (intro Cons.IH) auto
  ultimately show ?case
    using Cons.prems d fresh by (auto simp: dev die alloc_node_def Let_def)
qed

lemma init_wf:
  obtains ret t where "npu_tree_init_with_adapter A ok npu_tree_create = Some (ret, t)"
    "tree_wf t" "tree_fresh t" "nt_initialized t \<longleftrightarrow> ret = ENPU_SUCCESS" "ret = ENPU_SUCCESS \<or> ret = ENPU_FAIL"
proof -
  obtain cret count where count: "da_get_device_count A = (cret, count)"
    by (cases "da_get_device_count A")
  let ?dc = "if count > int MAX_NPU_PER_NODE then int MAX_NPU_PER_NODE else count"
  have empty: "tree_wf npu_tree_create" "tree_fresh npu_tree_create"
    by (simp_all add: tree_wf_def npu_tree_create_def tree_fresh_def)
  obtain lret ids k where ids: "da_get_device_list A ?dc = (lret, ids, k)"
    by (metis prod_cases3)
  show ?thesis
  proof (cases "cret \<noteq> 0 \<or> count \<le> 0 \<or> \<not> ok 0 \<or> lret \<noteq> 0")
    case True
    moreover have "count \<le> 0 \<or> length ids \<le> nat ?dc"
      using list_fits [OF _ _ ids] by (cases "count \<le> 0") simp_all
    ultimately have "npu_tree_init_with_adapter A ok npu_tree_create = Some (ENPU_FAIL, npu_tree_create)"
      using ids by (auto simp: npu_tree_init_with_adapter_def count Let_def npu_tree_create_def)
    then show ?thesis by (intro that [OF _ empty]) (auto simp: npu_tree_create_def)
  next
    case False
    then have fits: "length ids \<le> nat ?dc" "nat k = length ids" "distinct ids"
        "\<forall>d \<in> set ids. 0 \<le> d \<and> d < int MAX_NPU_PER_NODE"
      using list_fits [OF _ _ ids] by auto
    then have "length (nt_leaves npu_tree_create) + length ids \<le> MAX_NPU_PER_NODE"
      by (auto simp: npu_tree_create_def split: if_splits)
    moreover have "set ids \<inter> leaf_phy npu_tree_create ` set (nt_leaves npu_tree_create) = {}"
      by (simp add: npu_tree_create_def)
    ultimately obtain ret t where
      t: "init_devices A ok 0 ids npu_tree_create = Some (ret, t)" "tree_wf t" "tree_fresh t"
      using init_devices_wf [OF empty(1) fits(3,4)] empty(2) by blast
    let ?t = "snd (build_tree_hierarchy (ok (Suc (nat k))) t)"
    have root: "tree_wf ?t" "tree_fresh ?t"
      using build_tree_hierarchy_keeps t(2,3) by blast+
    have ret: "ret = 0 \<or> ret = -1" "\<not> nt_initialized t"
      using init_devices_ret [OF t(1)] by (simp_all add: npu_tree_create_def)
    have "npu_tree_init_with_adapter A ok npu_tree_create =
            Some (ret, if ret = 0 then ?t\<lparr>nt_query_size := int (length (nt_leaves ?t)), nt_initialized := True\<rparr> else t)"
      using False ids fits(1,2) t(1) ret
      by (auto simp: npu_tree_init_with_adapter_def count Let_def npu_tree_create_def)
    then show ?thesis
      using t(2,3) ret root by (cases "ret = 0") (auto intro: that)
  qed
qed

end

interpretation stub: device_adapter "dcmi_adapter_create_stub c" for c
proof
  fix m ret ids k
  assume "0 < m" "da_get_device_list (dcmi_adapter_create_stub c) m = (ret, ids, k)" "m \<le> int MAX_NPU_PER_NODE"
  then show "length ids \<le> nat m \<and> nat k = length ids \<and> distinct ids
      \<and> (\<forall>d \<in> set ids. 0 \<le> d \<and> d < int MAX_NPU_PER_NODE)"
    by (auto simp: dcmi_adapter_create_stub_def stub_get_device_list_def Let_def distinct_map split: if_splits)
qed

section \<open>Occupying and vacating a slot\<close>

interpretation vnpu_slots: slot_set
  "\<lambda>m i. i < 64 \<and> \<not> bit (m :: u64) i" "\<lambda>m i. m AND NOT (bmask i)" "\<lambda>m i. m OR bmask i" 64
  by unfold_locales (auto simp: bit_clear_iff bit_set_iff)

lemma occupied_members: "occupied n = vnpu_slots.members (na_vnpu_mask (nd_allocatable n))"
  by (auto simp: occupied_def)

text \<open>Whatever happens to the quotas, clearing a free bit, appending its policy entry and counting
  it keeps a node well-formed, and so does the reverse.\<close>

lemma node_ok_occupy:
  assumes "node_ok n" "bit (na_vnpu_mask (nd_allocatable n)) i"
    and "nd_parent n' = None" "policy_list n' = policy_list n @ [e]" "pe_vnpu_id e = int i"
    and "na_vnpu_mask (nd_allocatable n') = na_vnpu_mask (nd_allocatable n) AND NOT (bmask i)"
    and "na_vnpu_count (nd_allocatable n') = na_vnpu_count (nd_allocatable n) + 1"
  shows "node_ok n'" "occupied n' = insert i (occupied n)"
proof -
  have i: "i < 64" using assms(2) by (rule bit_u64_less)
  show occ: "occupied n' = insert i (occupied n)"
    using i assms(6) by (simp add: occupied_members vnpu_slots.members_occupy)
  have "i \<notin> occupied n" using assms(2) by (simp add: occupied_def)
  then have "int i \<notin> pe_vnpu_id ` set (policy_list n)"
    using assms(1) by (auto simp: node_ok_def)
  then show "node_ok n'" using assms by (simp add: node_ok_def occ)
qed

lemma node_ok_vacate:
  assumes "node_ok n" "i \<in> occupied n" "remove_policy (int i) (policy_list n) = Some es"
    and "nd_parent n' = None" "policy_list n' = es"
    and "na_vnpu_mask (nd_allocatable n') = na_vnpu_mask (nd_allocatable n) OR bmask i"
    and "na_vnpu_count (nd_allocatable n') = na_vnpu_count (nd_allocatable n) - 1"
  shows "node_ok n'" "occupied n' = occupied n - {i}"
proof -
  have i: "i < 64" using assms(2) by (simp add: occupied_def)
  show occ: "occupied n' = occupied n - {i}"
    using i assms(6) by (simp add: occupied_members vnpu_slots.members_vacate)
  have es: "es = filter (\<lambda>e. pe_vnpu_id e \<noteq> int i) (policy_list n)" "length (policy_list n) = Suc (length es)"
    using remove_policy_SomeD [OF assms(3)] assms(1) by (auto simp: node_ok_def)
  have "pe_vnpu_id ` set es = pe_vnpu_id ` set (policy_list n) - {int i}"
    by (auto simp: es(1))
  also have "\<dots> = int ` occupied n'" using assms(1) by (auto simp: node_ok_def occ)
  finally show "node_ok n'"
    using assms(1,4,5,7) es by (simp add: node_ok_def distinct_map inj_on_def)
qed

lemma node_ok_remove_policy:
  assumes "node_ok n" "i \<in> occupied n"
  obtains es where "remove_policy (int i) (policy_list n) = Some es"
proof -
  have "int i \<in> pe_vnpu_id ` set (policy_list n)" using assms by (simp add: node_ok_def)
  then show ?thesis using that remove_policy_None by blast
qed

section \<open>Properties\<close>

text \<open>The search for a vNPU number is total: although its loop runs the shift
  \<^verbatim>\<open>1ULL << i\<close> up to \<open>i = 127\<close>, it always returns before the shift becomes undefined. On a full
  device it returns \<^verbatim>\<open>ENPU_NO_RESOURCE\<close>, otherwise the smallest free number, which is below
  64.\<close>

lemma get_available_vnpu_id_total:
  "\<exists>r. npu_tree_get_available_vnpu_id (Some n) = Some r \<and>
      (r = ENPU_NO_RESOURCE \<and> na_vnpu_mask (nd_allocatable n) = 0 \<or>
       (\<exists>i < 64. r = int i \<and> bit (na_vnpu_mask (nd_allocatable n)) i
            \<and> {j. j < i \<and> bit (na_vnpu_mask (nd_allocatable n)) j} = {}))"
  by (cases rule: available_vnpu_id_cases [of n]) auto

text \<open>C13: building the tree from the stub adapter never has undefined behaviour, whatever the
  configuration (also a negative or too large device count) and whichever allocations fail. The
  tree it leaves is well-formed, with no vNPU given out, and it is marked initialised exactly
  when the code returned is \<^verbatim>\<open>ENPU_SUCCESS\<close>.\<close>

theorem npu_tree_init_stub_wf:
  "\<exists>ret t. npu_tree_init_with_adapter (dcmi_adapter_create_stub c) mem_ok npu_tree_create = Some (ret, t)
     \<and> tree_wf t \<and> tree_fresh t \<and> (nt_initialized t \<longleftrightarrow> ret = ENPU_SUCCESS)"
  by (metis stub.init_wf)

text \<open>The topology operations guard the vNPU number by 128 but shift a 64-bit one by it: on a
  device node they are undefined for exactly the numbers 64 to 127.\<close>

lemma mark_vnpu_undefined:
  assumes "nt_heap t p = Some n" "node_ok n"
  shows "(npu_tree_mark_vnpu_occupied t (Some p) v = None \<longleftrightarrow> 64 \<le> v \<and> v < 128)
       \<and> (npu_tree_mark_vnpu_free t (Some p) v = None \<longleftrightarrow> 64 \<le> v \<and> v < 128)"
  using assms mark_vnpu_undefined_iff by (simp add: node_ok_def)

text \<open>Occupying a slot of a device (topology bit, quotas, policy entry) and then vacating it with
  the opposite quota deltas gives back the device as it was: the same mask, quotas, counter and
  policy entries (the policy array stays allocated).\<close>

theorem occupy_vacate_roundtrip:
  assumes "nt_heap t p = Some n" "node_ok n" "bit (na_vnpu_mask (nd_allocatable n)) i"
    and "- (2 ^ 63) < h" "h < 2 ^ 63"
  shows "do {
           (r1, t1) \<leftarrow> npu_tree_mark_vnpu_occupied t (Some p) (int i);
           (r2, t2) \<leftarrow> npu_tree_update_quota t1 (Some p) (- a) (- h);
           (r3, t3) \<leftarrow> npu_tree_attach_policy True t2 (Some p) (int i) pol prio;
           (r4, t4) \<leftarrow> npu_tree_detach_policy t3 (Some p) (int i);
           (r5, t5) \<leftarrow> npu_tree_update_quota t4 (Some p) a h;
           (r6, t6) \<leftarrow> npu_tree_mark_vnpu_free t5 (Some p) (int i);
           Some ([r1, r2, r3, r4, r5, r6], t6)
         } = Some ([0, 0, 0, 0, 0, 0], put_node t p (n\<lparr>nd_policy_entries := Some (policy_list n)\<rparr>))"
proof -
  have i: "i < 64" using assms(3) by (rule bit_u64_less)
  have len: "length (policy_list n) < 128"
    using node_ok_policy_length [OF assms(2)] card_occupied_le [of n] by simp
  have fresh: "int i \<notin> pe_vnpu_id ` set (policy_list n)"
    using assms(2,3) by (auto simp: node_ok_def occupied_def)
  have parent: "nd_parent n = None" using assms(2) by (simp add: node_ok_def)
  show ?thesis
    using assms i len fresh
    by (simp add: mark_vnpu_occupied_eq [OF _ _ i] mark_vnpu_free_eq [OF _ _ i] update_quota_eq
        attach_policy_eq detach_policy_eq parent remove_policy_append bit_clear_iff clear_set_bit)
qed

section \<open>Witnesses\<close>

text \<open>A device as the stub adapter describes it: 64 GiB of memory and 100 cores.\<close>

definition demo_node :: npu_node where
  "demo_node = device_node 0 1 (snd (stub_get_device_info \<lparr>sc_device_count = 2, sc_total_memory_mb = 65536,
     sc_total_aicore = 100\<rparr> 0)) (snd (stub_get_die_info \<lparr>sc_device_count = 2, sc_total_memory_mb = 65536,
     sc_total_aicore = 100\<rparr> 0))"

definition demo_tree :: npu_tree where
  "demo_tree = put_node npu_tree_create 0 demo_node"

lemma demo_tree_node: "nt_heap demo_tree 0 = Some demo_node" "node_ok demo_node"
  "na_vnpu_mask (nd_allocatable demo_node) = -1"
  by (simp_all add: demo_tree_def demo_node_def device_node_ok) (simp add: device_node_def)

theorem mark_vnpu_undefined_witness:
  "npu_tree_mark_vnpu_occupied demo_tree (Some 0) 64 = None
   \<and> npu_tree_mark_vnpu_occupied demo_tree (Some 0) 63 \<noteq> None"
  using mark_vnpu_undefined [OF demo_tree_node(1,2), of 64] mark_vnpu_undefined [OF demo_tree_node(1,2), of 63]
  by simp

theorem occupy_vacate_roundtrip_witness:
  "do {
     (r1, t1) \<leftarrow> npu_tree_mark_vnpu_occupied demo_tree (Some 0) 5;
     (r2, t2) \<leftarrow> npu_tree_update_quota t1 (Some 0) (- 50) (- 1024);
     (r3, t3) \<leftarrow> npu_tree_attach_policy True t2 (Some 0) 5 1 0;
     (r4, t4) \<leftarrow> npu_tree_detach_policy t3 (Some 0) 5;
     (r5, t5) \<leftarrow> npu_tree_update_quota t4 (Some 0) 50 1024;
     (r6, t6) \<leftarrow> npu_tree_mark_vnpu_free t5 (Some 0) 5;
     Some ([r1, r2, r3, r4, r5, r6], t6)
   } = Some ([0, 0, 0, 0, 0, 0], put_node demo_tree 0 (demo_node\<lparr>nd_policy_entries := Some []\<rparr>))"
proof -
  have "policy_list demo_node = []"
    by (simp add: demo_node_def device_node_def create_node_def policy_list_def)
  then show ?thesis
    using occupy_vacate_roundtrip [OF demo_tree_node(1,2), of 5 1024 50 1 0]
    by (simp add: demo_tree_node(3))
qed

end
