(* ===== verification/Allocation_Registry.thy ===== *)
theory Allocation_Registry
  imports Npu_Tree
begin

text \<open>
  The registry of allocations (\<^verbatim>\<open>core/src/allocation_registry.c\<close>) and the storage adapters behind
  it (\<^verbatim>\<open>core/src/storage_adapter.c\<close>, \<^verbatim>\<open>core/src/memory_storage_adapter.c\<close>). A registry is the
  array of its first \<^verbatim>\<open>count\<close> entries, keyed by pod and container, together with an optional
  adapter; an adapter is its two operations and its private state \<open>'st\<close>. The locale
  \<open>keyed_store\<close> states the map laws a keyed store promises, the registry interprets it.
\<close>

section \<open>Keyed stores\<close>

text \<open>The operations on a store: adding a value (with the outcome of the memory allocation, should one be needed), deleting a key,
  changing the value of a key by \<open>'u\<close>, and saving. The specification is a map and the capacity of the store.\<close>

datatype ('k, 'v, 'u) kv_op = Put bool 'v | Del 'k | Change 'k 'u | Save

type_synonym ('k, 'v) kv_state = "('k \<rightharpoonup> 'v) \<times> nat"

definition kv_refuses :: "nat \<Rightarrow> ('v \<Rightarrow> 'k) \<Rightarrow> ('v \<Rightarrow> bool) \<Rightarrow> bool \<Rightarrow> 'v \<Rightarrow> ('k, 'v) kv_state \<Rightarrow> bool" where
  "kv_refuses limit key valid mem_ok v s \<longleftrightarrow> \<not> valid v \<or> fst s (key v) \<noteq> None \<or> card (dom (fst s)) \<ge> limit
     \<or> card (dom (fst s)) \<ge> snd s \<and> \<not> mem_ok"

fun kv_apply :: "nat \<Rightarrow> ('v \<Rightarrow> 'k) \<Rightarrow> ('v \<Rightarrow> bool) \<Rightarrow> ('u \<Rightarrow> 'v \<Rightarrow> 'v) \<Rightarrow> ('k, 'v, 'u) kv_op \<Rightarrow> ('k, 'v) kv_state \<Rightarrow> ('k, 'v) kv_state" where
  "kv_apply limit key valid upd (Put mem_ok v) (m, c) =
     (if kv_refuses limit key valid mem_ok v (m, c) then (m, c)
      else (m(key v \<mapsto> v), if card (dom m) \<ge> c then min limit (c * 2) else c))"
| "kv_apply limit key valid upd (Del k) (m, c) = (m(k := None), c)"
| "kv_apply limit key valid upd (Change k u) (m, c) = (m(k := map_option (upd u) (m k)), c)"
| "kv_apply limit key valid upd Save (m, c) = (m, c)"

locale keyed_store =
  fixes inv :: "'s \<Rightarrow> bool"
    and view :: "'s \<Rightarrow> ('k, 'v) kv_state"
    and limit :: nat
    and key :: "'v \<Rightarrow> 'k"
    and valid :: "'v \<Rightarrow> bool"
    and upd :: "'u \<Rightarrow> 'v \<Rightarrow> 'v"
    and put :: "bool \<Rightarrow> 'v \<Rightarrow> 's \<Rightarrow> 's"
    and del :: "'k \<Rightarrow> 's \<Rightarrow> 's"
    and change :: "'k \<Rightarrow> 'u \<Rightarrow> 's \<Rightarrow> 's"
    and save :: "'s \<Rightarrow> 's"
  assumes put_law: "inv s \<Longrightarrow> inv (put ok v s) \<and> view (put ok v s) = kv_apply limit key valid upd (Put ok v) (view s)"
    and del_law: "inv s \<Longrightarrow> inv (del k s) \<and> view (del k s) = kv_apply limit key valid upd (Del k) (view s)"
    and change_law: "inv s \<Longrightarrow> inv (change k u s) \<and> view (change k u s) = kv_apply limit key valid upd (Change k u) (view s)"
    and save_law: "inv s \<Longrightarrow> inv (save s) \<and> view (save s) = kv_apply limit key valid upd Save (view s)"
begin

fun apply_op :: "('k, 'v, 'u) kv_op \<Rightarrow> 's \<Rightarrow> 's" where
  "apply_op (Put ok v) s = put ok v s"
| "apply_op (Del k) s = del k s"
| "apply_op (Change k u) s = change k u s"
| "apply_op Save s = save s"

lemma apply_law: "inv s \<Longrightarrow> inv (apply_op op s) \<and> view (apply_op op s) = kv_apply limit key valid upd op (view s)"
  by (cases op) (simp_all only: apply_op.simps put_law del_law change_law save_law simp_thms)

text \<open>A run of operations refines the same run on maps.\<close>

lemma run_refines:
  "inv s \<Longrightarrow> inv (fold apply_op ops s) \<and> view (fold apply_op ops s) = fold (kv_apply limit key valid upd) ops (view s)"
  by (induction ops arbitrary: s) (simp_all add: apply_law)

end

section \<open>Storage adapters\<close>

record 'st storage_ops =
  so_save :: "'st \<Rightarrow> allocation list \<Rightarrow> int \<times> 'st"
  so_load :: "'st \<Rightarrow> int \<times> allocation list"

abbreviation (input) MEMORY_ADAPTER_MAX_CAPACITY :: nat where "MEMORY_ADAPTER_MAX_CAPACITY \<equiv> 256"

record memory_adapter_data =
  ma_allocations :: "allocation list"
  ma_capacity :: nat

definition memory_storage_adapter_create :: memory_adapter_data where
  "memory_storage_adapter_create = \<lparr>ma_allocations = [], ma_capacity = MEMORY_ADAPTER_MAX_CAPACITY\<rparr>"

definition memory_adapter_save :: "bool \<Rightarrow> memory_adapter_data \<Rightarrow> allocation list \<Rightarrow> int \<times> memory_adapter_data" where
  "memory_adapter_save mem_ok d allocs =
     (let count = length allocs;
          cap = (if count > ma_capacity d
                 then (if count > MEMORY_ADAPTER_MAX_CAPACITY then MEMORY_ADAPTER_MAX_CAPACITY else count)
                 else ma_capacity d)
      in if count > ma_capacity d \<and> \<not> mem_ok then (ENPU_NO_RESOURCE, d)
         else (ENPU_SUCCESS, \<lparr>ma_allocations = take cap allocs, ma_capacity = cap\<rparr>))"

definition memory_adapter_load :: "memory_adapter_data \<Rightarrow> int \<times> allocation list" where
  "memory_adapter_load d = (ENPU_SUCCESS, ma_allocations d)"

definition memory_ops :: "bool \<Rightarrow> memory_adapter_data storage_ops" where
  "memory_ops mem_ok = \<lparr>so_save = memory_adapter_save mem_ok, so_load = memory_adapter_load\<rparr>"

section \<open>The registry\<close>

abbreviation (input) ALLOC_REGISTRY_INIT_CAPACITY :: nat where "ALLOC_REGISTRY_INIT_CAPACITY \<equiv> 64"

record 'st registry =
  rg_entries :: "allocation list"
  rg_capacity :: nat
  rg_adapter :: "('st storage_ops \<times> 'st) option"

definition allocation_registry_create_with_adapter :: "('st storage_ops \<times> 'st) option \<Rightarrow> 'st registry" where
  "allocation_registry_create_with_adapter ad =
     \<lparr>rg_entries = [], rg_capacity = ALLOC_REGISTRY_INIT_CAPACITY, rg_adapter = ad\<rparr>"

fun find_entry_from :: "int \<Rightarrow> allocation list \<Rightarrow> string \<Rightarrow> string \<Rightarrow> int" where
  "find_entry_from i [] pod_uid container_name = -1"
| "find_entry_from i (e # es) pod_uid container_name =
     (if al_pod_uid e = pod_uid \<and> al_container_name e = container_name then i
      else find_entry_from (i + 1) es pod_uid container_name)"

definition find_entry_index :: "'st registry \<Rightarrow> string \<Rightarrow> string \<Rightarrow> int" where
  "find_entry_index r pod_uid container_name = find_entry_from 0 (rg_entries r) pod_uid container_name"

definition persist_to_adapter :: "'st registry \<Rightarrow> int \<times> 'st registry" where
  "persist_to_adapter r =
     (case rg_adapter r of None \<Rightarrow> (ENPU_SUCCESS, r)
      | Some (ops, st) \<Rightarrow>
        (case so_save ops st (rg_entries r) of (ret, st') \<Rightarrow> (ret, r\<lparr>rg_adapter := Some (ops, st')\<rparr>)))"

definition allocation_registry_register :: "bool \<Rightarrow> 'st registry \<Rightarrow> allocation \<Rightarrow> int \<times> 'st registry" where
  "allocation_registry_register mem_ok r a =
     (if al_pod_uid a = [] \<or> al_container_name a = [] then (ENPU_INVALID_PARAM, r)
      else if find_entry_index r (al_pod_uid a) (al_container_name a) \<ge> 0 then (ENPU_ALREADY_EXISTS, r)
      else if length (rg_entries r) \<ge> MAX_ALLOC_COUNT then (ENPU_NO_RESOURCE, r)
      else if length (rg_entries r) \<ge> rg_capacity r \<and> \<not> mem_ok then (ENPU_NO_RESOURCE, r)
      else let cap = (if length (rg_entries r) \<ge> rg_capacity r
                      then (if rg_capacity r * 2 > MAX_ALLOC_COUNT then MAX_ALLOC_COUNT else rg_capacity r * 2)
                      else rg_capacity r)
           in persist_to_adapter (r\<lparr>rg_entries := rg_entries r @ [a], rg_capacity := cap\<rparr>))"

definition allocation_registry_release :: "'st registry \<Rightarrow> string \<Rightarrow> string \<Rightarrow> int \<times> 'st registry" where
  "allocation_registry_release r pod_uid container_name =
     (let idx = find_entry_index r pod_uid container_name in
      if idx < 0 then (ENPU_NOT_FOUND, r)
      else persist_to_adapter (r\<lparr>rg_entries := take (nat idx) (rg_entries r) @ drop (Suc (nat idx)) (rg_entries r)\<rparr>))"

definition allocation_registry_update_shm_id ::
    "'st registry \<Rightarrow> string \<Rightarrow> string \<Rightarrow> string \<Rightarrow> int \<times> 'st registry" where
  "allocation_registry_update_shm_id r pod_uid container_name new_shm_id =
     (let idx = find_entry_index r pod_uid container_name in
      if idx < 0 then (ENPU_NOT_FOUND, r)
      else persist_to_adapter (r\<lparr>rg_entries :=
             (rg_entries r)[nat idx := (rg_entries r ! nat idx)\<lparr>al_shm_id := copy_str DIE_ID_LEN new_shm_id\<rparr>]\<rparr>))"

definition allocation_registry_get :: "'st registry \<Rightarrow> string \<Rightarrow> string \<Rightarrow> int \<times> allocation option" where
  "allocation_registry_get r pod_uid container_name =
     (let idx = find_entry_index r pod_uid container_name in
      if idx < 0 then (ENPU_NOT_FOUND, None) else (ENPU_SUCCESS, Some (rg_entries r ! nat idx)))"

definition allocation_registry_list :: "'st registry \<Rightarrow> int \<times> allocation list" where
  "allocation_registry_list r = (ENPU_SUCCESS, rg_entries r)"

fun get_by_ids :: "allocation list \<Rightarrow> int \<Rightarrow> int \<Rightarrow> int \<times> allocation option" where
  "get_by_ids [] phy_id vnpu_id = (ENPU_NOT_FOUND, None)"
| "get_by_ids (e # es) phy_id vnpu_id =
     (if al_phy_id e = phy_id \<and> al_vnpu_id e = vnpu_id then (ENPU_SUCCESS, Some e)
      else get_by_ids es phy_id vnpu_id)"

definition allocation_registry_get_by_phy_id_vnpu_id :: "'st registry \<Rightarrow> int \<Rightarrow> int \<Rightarrow> int \<times> allocation option" where
  "allocation_registry_get_by_phy_id_vnpu_id r phy_id vnpu_id = get_by_ids (rg_entries r) phy_id vnpu_id"

definition allocation_registry_list_by_phy_id :: "'st registry \<Rightarrow> int \<Rightarrow> int \<times> allocation list" where
  "allocation_registry_list_by_phy_id r phy_id = (ENPU_SUCCESS, filter (\<lambda>e. al_phy_id e = phy_id) (rg_entries r))"

definition allocation_registry_save :: "'st registry \<Rightarrow> int \<times> 'st registry" where
  "allocation_registry_save r = persist_to_adapter r"

definition allocation_registry_recover :: "bool \<Rightarrow> 'st registry \<Rightarrow> int \<times> 'st registry" where
  "allocation_registry_recover mem_ok r =
     (case rg_adapter r of None \<Rightarrow> (ENPU_INVALID_PARAM, r)
      | Some (ops, st) \<Rightarrow>
        (case so_load ops st of (ret, loaded) \<Rightarrow>
          if ret \<noteq> ENPU_SUCCESS then (ret, r)
          else if length loaded > rg_capacity r \<and> \<not> mem_ok then (ENPU_NO_RESOURCE, r)
          else (ENPU_SUCCESS, r\<lparr>rg_entries := loaded,
                  rg_capacity := (if length loaded > rg_capacity r then length loaded else rg_capacity r)\<rparr>)))"

section \<open>The registry as a map\<close>

type_synonym alloc_key = "string \<times> string"

definition alloc_key :: "allocation \<Rightarrow> alloc_key" where
  "alloc_key a = (al_pod_uid a, al_container_name a)"

definition reg_lookup :: "'st registry \<Rightarrow> alloc_key \<Rightarrow> allocation option" where
  "reg_lookup r = map_of (map (\<lambda>a. (alloc_key a, a)) (rg_entries r))"

definition registry_ok :: "'st registry \<Rightarrow> bool" where
  "registry_ok r \<longleftrightarrow> distinct (map alloc_key (rg_entries r)) \<and> length (rg_entries r) \<le> rg_capacity r
     \<and> ALLOC_REGISTRY_INIT_CAPACITY \<le> rg_capacity r \<and> rg_capacity r \<le> MAX_ALLOC_COUNT"

definition named :: "allocation \<Rightarrow> bool" where
  "named a \<longleftrightarrow> al_pod_uid a \<noteq> [] \<and> al_container_name a \<noteq> []"

definition with_shm_id :: "string \<Rightarrow> allocation \<Rightarrow> allocation" where
  "with_shm_id new_shm_id a = a\<lparr>al_shm_id := copy_str DIE_ID_LEN new_shm_id\<rparr>"

fun reg_apply :: "(alloc_key, allocation, string) kv_op \<Rightarrow> 'st registry \<Rightarrow> 'st registry" where
  "reg_apply (Put mem_ok a) r = snd (allocation_registry_register mem_ok r a)"
| "reg_apply (Del k) r = snd (allocation_registry_release r (fst k) (snd k))"
| "reg_apply (Change k new_shm_id) r = snd (allocation_registry_update_shm_id r (fst k) (snd k) new_shm_id)"
| "reg_apply Save r = snd (allocation_registry_save r)"

definition reg_view :: "'st registry \<Rightarrow> (alloc_key, allocation) kv_state" where
  "reg_view r = (reg_lookup r, rg_capacity r)"

lemma find_entry_from_cases:
  obtains (absent) "find_entry_from i es pod cont = -1" "\<forall>a \<in> set es. alloc_key a \<noteq> (pod, cont)"
  | (found) k where "find_entry_from i es pod cont = i + int k" "k < length es"
      "alloc_key (es ! k) = (pod, cont)" "\<forall>a \<in> set (take k es). alloc_key a \<noteq> (pod, cont)"
proof -
  have "find_entry_from i es pod cont = -1 \<and> (\<forall>a \<in> set es. alloc_key a \<noteq> (pod, cont)) \<or>
     (\<exists>k < length es. find_entry_from i es pod cont = i + int k \<and> alloc_key (es ! k) = (pod, cont)
        \<and> (\<forall>a \<in> set (take k es). alloc_key a \<noteq> (pod, cont)))"
  proof (induction es arbitrary: i)
    case (Cons e es)
    show ?case
    proof (cases "alloc_key e = (pod, cont)")
      case True
      then show ?thesis by (intro disjI2 exI [of _ 0]) (auto simp: alloc_key_def)
    next
      case False
      from Cons.IH [of "i + 1"] show ?thesis
      proof
        assume "find_entry_from (i + 1) es pod cont = - 1 \<and> (\<forall>a \<in> set es. alloc_key a \<noteq> (pod, cont))"
        then show ?thesis using False by (auto simp: alloc_key_def)
      next
        assume "\<exists>k < length es. find_entry_from (i + 1) es pod cont = i + 1 + int k
          \<and> alloc_key (es ! k) = (pod, cont) \<and> (\<forall>a \<in> set (take k es). alloc_key a \<noteq> (pod, cont))"
        then obtain k where k: "k < length es" "find_entry_from (i + 1) es pod cont = i + 1 + int k"
          "alloc_key (es ! k) = (pod, cont)" "\<forall>a \<in> set (take k es). alloc_key a \<noteq> (pod, cont)" by blast
        then show ?thesis using False
          by (intro disjI2 exI [of _ "Suc k"]) (auto simp: alloc_key_def)
      qed
    qed
  qed simp
  then show ?thesis using absent found by blast
qed

lemma reg_lookup_None: "reg_lookup r k = None \<longleftrightarrow> (\<forall>a \<in> set (rg_entries r). alloc_key a \<noteq> k)"
  by (force simp: reg_lookup_def map_of_eq_None_iff)

lemma reg_lookup_Some:
  "distinct (map alloc_key (rg_entries r)) \<Longrightarrow>
     reg_lookup r k = Some a \<longleftrightarrow> a \<in> set (rg_entries r) \<and> alloc_key a = k"
  by (auto simp: reg_lookup_def comp_def)

lemma find_entry_index_neg: "find_entry_index r pod cont < 0 \<longleftrightarrow> reg_lookup r (pod, cont) = None"
  by (cases rule: find_entry_from_cases [of 0 "rg_entries r" pod cont])
     (auto simp: find_entry_index_def reg_lookup_None)

lemma find_entry_index_nonneg: "0 \<le> find_entry_index r pod cont \<longleftrightarrow> reg_lookup r (pod, cont) \<noteq> None"
  using find_entry_index_neg [of r pod cont] by linarith

lemma find_entry_index_nth:
  assumes "0 \<le> find_entry_index r pod cont"
  obtains k where "find_entry_index r pod cont = int k" "k < length (rg_entries r)"
    "alloc_key (rg_entries r ! k) = (pod, cont)"
  using assms by (cases rule: find_entry_from_cases [of 0 "rg_entries r" pod cont])
     (auto simp: find_entry_index_def)

lemma distinct_keys_remove:
  assumes "distinct (map alloc_key es)" "k < length es" "alloc_key (es ! k) = key"
  shows "take k es @ drop (Suc k) es = filter (\<lambda>a. alloc_key a \<noteq> key) es"
proof -
  have es: "es = take k es @ es ! k # drop (Suc k) es" using assms(2) by (rule id_take_nth_drop)
  have "distinct (map alloc_key (take k es @ es ! k # drop (Suc k) es))" using assms(1) es by metis
  then have "\<forall>a \<in> set (take k es) \<union> set (drop (Suc k) es). alloc_key a \<noteq> key"
    using assms(3) by (fastforce simp: image_iff)
  then have "filter (\<lambda>a. alloc_key a \<noteq> key) (take k es @ es ! k # drop (Suc k) es)
               = take k es @ drop (Suc k) es"
    using assms(3) by (auto simp: filter_id_conv)
  then show ?thesis using es by metis
qed

lemma persist_entries [simp]:
  "rg_entries (snd (persist_to_adapter r)) = rg_entries r"
  "rg_capacity (snd (persist_to_adapter r)) = rg_capacity r"
  by (auto simp: persist_to_adapter_def split: option.splits prod.splits)

lemma release_entries:
  assumes "registry_ok r"
  shows "rg_entries (snd (allocation_registry_release r pod cont))
           = filter (\<lambda>a. alloc_key a \<noteq> (pod, cont)) (rg_entries r)"
    and "rg_capacity (snd (allocation_registry_release r pod cont)) = rg_capacity r"
proof -
  show "rg_entries (snd (allocation_registry_release r pod cont))
           = filter (\<lambda>a. alloc_key a \<noteq> (pod, cont)) (rg_entries r)"
  proof (cases "find_entry_index r pod cont < 0")
    case True
    then have "filter (\<lambda>a. alloc_key a \<noteq> (pod, cont)) (rg_entries r) = rg_entries r"
      by (auto simp: find_entry_index_neg reg_lookup_None filter_id_conv)
    then show ?thesis using True by (simp add: allocation_registry_release_def)
  next
    case False
    then obtain k where "find_entry_index r pod cont = int k" "k < length (rg_entries r)"
      "alloc_key (rg_entries r ! k) = (pod, cont)" using find_entry_index_nth by (metis not_less)
    then show ?thesis using assms distinct_keys_remove
      by (auto simp: allocation_registry_release_def registry_ok_def)
  qed
  show "rg_capacity (snd (allocation_registry_release r pod cont)) = rg_capacity r"
    by (simp add: allocation_registry_release_def Let_def)
qed

lemma registry_ok_release: "registry_ok r \<Longrightarrow> registry_ok (snd (allocation_registry_release r pod cont))"
  by (auto simp: registry_ok_def release_entries distinct_map inj_on_def intro: le_trans [OF length_filter_le])

lemma register_accept:
  assumes "registry_ok r" "al_pod_uid a \<noteq> []" "al_container_name a \<noteq> []" "reg_lookup r (alloc_key a) = None"
    "length (rg_entries r) < MAX_ALLOC_COUNT" "length (rg_entries r) < rg_capacity r \<or> mem_ok"
  obtains cap where "length (rg_entries r) < cap" "rg_capacity r \<le> cap" "cap \<le> MAX_ALLOC_COUNT"
    "allocation_registry_register mem_ok r a =
       persist_to_adapter (r\<lparr>rg_entries := rg_entries r @ [a], rg_capacity := cap\<rparr>)"
proof -
  let ?cap = "if length (rg_entries r) < rg_capacity r then rg_capacity r
              else if rg_capacity r * 2 > MAX_ALLOC_COUNT then MAX_ALLOC_COUNT else rg_capacity r * 2"
  show ?thesis
    using assms
    by (intro that [of ?cap])
       (auto simp: allocation_registry_register_def find_entry_index_nonneg alloc_key_def Let_def registry_ok_def)
qed

lemma registry_ok_register: "registry_ok r \<Longrightarrow> registry_ok (snd (allocation_registry_register mem_ok r a))"
proof (cases "al_pod_uid a = [] \<or> al_container_name a = [] \<or> reg_lookup r (alloc_key a) \<noteq> None
     \<or> MAX_ALLOC_COUNT \<le> length (rg_entries r) \<or> rg_capacity r \<le> length (rg_entries r) \<and> \<not> mem_ok")
  case True
  assume "registry_ok r"
  with True show ?thesis
    by (auto simp: allocation_registry_register_def find_entry_index_nonneg alloc_key_def)
next
  case False
  assume ok: "registry_ok r"
  from False obtain cap where cap: "length (rg_entries r) < cap" "rg_capacity r \<le> cap" "cap \<le> MAX_ALLOC_COUNT"
    "allocation_registry_register mem_ok r a =
       persist_to_adapter (r\<lparr>rg_entries := rg_entries r @ [a], rg_capacity := cap\<rparr>)"
    using register_accept [OF ok] by (metis not_le)
  have "alloc_key a \<notin> alloc_key ` set (rg_entries r)" using False by (auto simp: reg_lookup_None)
  then show ?thesis using ok cap by (auto simp: registry_ok_def)
qed

lemma map_of_snoc: "map_of (xs @ [(k, v)]) = (map_of [(k, v)]) ++ map_of xs"
  by (rule map_of_append)

lemma reg_lookup_append:
  "rg_entries r' = rg_entries r @ [a] \<Longrightarrow> reg_lookup r (alloc_key a) = None \<Longrightarrow> reg_lookup r' = (reg_lookup r)(alloc_key a \<mapsto> a)"
  by (auto simp: reg_lookup_def map_add_def fun_eq_iff split: option.splits)

lemma reg_lookup_register:
  assumes "registry_ok r" "al_pod_uid a \<noteq> []" "al_container_name a \<noteq> []" "reg_lookup r (alloc_key a) = None"
    "length (rg_entries r) < MAX_ALLOC_COUNT"
  shows "reg_lookup (snd (allocation_registry_register True r a)) = (reg_lookup r)(alloc_key a \<mapsto> a)"
proof -
  obtain cap where "allocation_registry_register True r a =
       persist_to_adapter (r\<lparr>rg_entries := rg_entries r @ [a], rg_capacity := cap\<rparr>)"
    using register_accept [OF assms] by metis
  then show ?thesis using assms(4) by (intro reg_lookup_append) simp_all
qed

lemma card_reg_lookup: "registry_ok r \<Longrightarrow> card (dom (reg_lookup r)) = length (rg_entries r)"
proof -
  assume "registry_ok r"
  then have d: "distinct (map alloc_key (rg_entries r))" by (simp add: registry_ok_def)
  have "dom (reg_lookup r) = set (map alloc_key (rg_entries r))" by (force simp: reg_lookup_def dom_map_of_conv_image_fst)
  then show ?thesis using distinct_card [OF d] by simp
qed

text \<open>Registering, for any outcome of the memory allocation and of the save.\<close>

lemma register_view:
  assumes "registry_ok r"
  shows "reg_view (snd (allocation_registry_register ok r a)) = kv_apply MAX_ALLOC_COUNT alloc_key named with_shm_id (Put ok a) (reg_view r)"
proof (cases "kv_refuses MAX_ALLOC_COUNT alloc_key named ok a (reg_view r)")
  case True
  then have "\<not> named a \<or> reg_lookup r (alloc_key a) \<noteq> None \<or> MAX_ALLOC_COUNT \<le> length (rg_entries r) \<or> rg_capacity r \<le> length (rg_entries r) \<and> \<not> ok"
    by (simp add: kv_refuses_def reg_view_def card_reg_lookup [OF assms])
  then have "snd (allocation_registry_register ok r a) = r"
    by (auto simp: allocation_registry_register_def find_entry_index_nonneg alloc_key_def named_def)
  then show ?thesis using True by (simp add: reg_view_def)
next
  case False
  let ?c = "if length (rg_entries r) \<ge> rg_capacity r then min MAX_ALLOC_COUNT (rg_capacity r * 2) else rg_capacity r"
  have k: "named a" "reg_lookup r (alloc_key a) = None" "length (rg_entries r) < MAX_ALLOC_COUNT" "length (rg_entries r) < rg_capacity r \<or> ok"
    using False by (auto simp: kv_refuses_def reg_view_def card_reg_lookup [OF assms])
  then have e: "allocation_registry_register ok r a = persist_to_adapter (r\<lparr>rg_entries := rg_entries r @ [a], rg_capacity := ?c\<rparr>)"
    by (auto simp: allocation_registry_register_def find_entry_index_nonneg alloc_key_def named_def Let_def min_def)
  have "rg_entries (snd (allocation_registry_register ok r a)) = rg_entries r @ [a]" "rg_capacity (snd (allocation_registry_register ok r a)) = ?c"
    unfolding e by simp_all
  then show ?thesis using False reg_lookup_append [OF _ k(2)] by (simp add: reg_view_def card_reg_lookup [OF assms])
qed

lemma reg_lookup_release:
  assumes "registry_ok r"
  shows "reg_lookup (snd (allocation_registry_release r pod cont)) = (reg_lookup r)((pod, cont) := None)"
proof -
  have "map_of (map (\<lambda>a. (alloc_key a, a)) (filter (\<lambda>a. alloc_key a \<noteq> key) es))
          = (map_of (map (\<lambda>a. (alloc_key a, a)) es))(key := None)" for key and es
    by (induction es) (auto simp: fun_eq_iff)
  then show ?thesis by (simp add: reg_lookup_def release_entries [OF assms])
qed

lemma map_of_key_update:
  assumes "distinct (map alloc_key es)" "k < length es" "alloc_key e = alloc_key (es ! k)"
  shows "map_of (map (\<lambda>a. (alloc_key a, a)) (es[k := e])) = (map_of (map (\<lambda>a. (alloc_key a, a)) es))(alloc_key e \<mapsto> e)"
  using assms
proof (induction es arbitrary: k)
  case (Cons x es)
  show ?case
  proof (cases k)
    case (Suc l)
    then have "alloc_key x \<noteq> alloc_key e" using Cons.prems by (auto simp: nth_mem)
    then show ?thesis using Suc Cons by (auto simp: fun_upd_twist)
  qed (use Cons.prems in \<open>auto simp: fun_eq_iff\<close>)
qed simp

lemma update_view:
  assumes "registry_ok r"
  shows "registry_ok (snd (allocation_registry_update_shm_id r pod cont new_shm_id))
    \<and> reg_view (snd (allocation_registry_update_shm_id r pod cont new_shm_id))
        = kv_apply MAX_ALLOC_COUNT alloc_key named with_shm_id (Change (pod, cont) new_shm_id) (reg_view r)"
proof (cases "reg_lookup r (pod, cont)")
  case None
  then show ?thesis using assms by (simp add: allocation_registry_update_shm_id_def find_entry_index_neg reg_view_def fun_upd_idem)
next
  case (Some a)
  then have "0 \<le> find_entry_index r pod cont" by (simp add: find_entry_index_nonneg)
  then obtain k where k: "find_entry_index r pod cont = int k" "k < length (rg_entries r)" "alloc_key (rg_entries r ! k) = (pod, cont)"
    by (rule find_entry_index_nth)
  have d: "distinct (map alloc_key (rg_entries r))" using assms by (simp add: registry_ok_def)
  then have a: "a = rg_entries r ! k" using Some k(2,3) by (metis reg_lookup_Some nth_mem option.inject)
  let ?e = "with_shm_id new_shm_id a"
  have key: "alloc_key ?e = alloc_key (rg_entries r ! k)" by (simp add: with_shm_id_def alloc_key_def a)
  have r': "snd (allocation_registry_update_shm_id r pod cont new_shm_id) = snd (persist_to_adapter (r\<lparr>rg_entries := (rg_entries r)[k := ?e]\<rparr>))"
    using k(1) by (simp add: allocation_registry_update_shm_id_def with_shm_id_def a)
  have "map alloc_key ((rg_entries r)[k := ?e]) = map alloc_key (rg_entries r)"
    using key k(2) by (simp add: map_update) (metis list_update_id nth_map)
  then have "registry_ok (snd (allocation_registry_update_shm_id r pod cont new_shm_id))" unfolding r' using assms by (simp add: registry_ok_def)
  moreover have "reg_lookup (snd (allocation_registry_update_shm_id r pod cont new_shm_id)) = (reg_lookup r)((pod, cont) \<mapsto> ?e)"
    using map_of_key_update [OF d k(2) key] key k(3) unfolding r' by (simp add: reg_lookup_def)
  moreover have "rg_capacity (snd (allocation_registry_update_shm_id r pod cont new_shm_id)) = rg_capacity r" unfolding r' by simp
  ultimately show ?thesis using Some by (simp add: reg_view_def)
qed

interpretation reg: keyed_store registry_ok reg_view MAX_ALLOC_COUNT alloc_key named with_shm_id
  "\<lambda>ok a r. snd (allocation_registry_register ok r a)"
  "\<lambda>k r. snd (allocation_registry_release r (fst k) (snd k))"
  "\<lambda>k new_shm_id r. snd (allocation_registry_update_shm_id r (fst k) (snd k) new_shm_id)"
  "\<lambda>r. snd (allocation_registry_save r)"
proof unfold_locales
  fix r :: "'a registry" and k :: alloc_key and u
  assume ok: "registry_ok r"
  show "registry_ok (snd (allocation_registry_register b r a))
      \<and> reg_view (snd (allocation_registry_register b r a)) = kv_apply MAX_ALLOC_COUNT alloc_key named with_shm_id (Put b a) (reg_view r)" for b a
    using ok registry_ok_register register_view by blast
  show "registry_ok (snd (allocation_registry_release r (fst k) (snd k)))
      \<and> reg_view (snd (allocation_registry_release r (fst k) (snd k))) = kv_apply MAX_ALLOC_COUNT alloc_key named with_shm_id (Del k) (reg_view r)"
    using ok by (simp add: registry_ok_release reg_view_def reg_lookup_release release_entries)
  show "registry_ok (snd (allocation_registry_update_shm_id r (fst k) (snd k) u))
      \<and> reg_view (snd (allocation_registry_update_shm_id r (fst k) (snd k) u)) = kv_apply MAX_ALLOC_COUNT alloc_key named with_shm_id (Change k u) (reg_view r)"
    using update_view [OF ok, of "fst k" "snd k" u] by simp
  show "registry_ok (snd (allocation_registry_save r)) \<and> reg_view (snd (allocation_registry_save r)) = kv_apply MAX_ALLOC_COUNT alloc_key named with_shm_id Save (reg_view r)"
    using ok by (simp add: allocation_registry_save_def registry_ok_def reg_view_def reg_lookup_def)
qed

lemma reg_apply_eq: "reg.apply_op = reg_apply"
proof
  show "reg.apply_op op = reg_apply op" for op :: "(alloc_key, allocation, string) kv_op"
    by (cases op) (auto simp: fun_eq_iff)
qed

text \<open>\<^verbatim>\<open>allocation_registry_get\<close> is the lookup of that map: \<^verbatim>\<open>ENPU_NOT_FOUND\<close> for an absent key
  and \<^verbatim>\<open>ENPU_SUCCESS\<close> with the stored allocation for a present one.\<close>

lemma registry_get_lookup:
  assumes "registry_ok r"
  shows "allocation_registry_get r pod cont =
           (case reg_lookup r (pod, cont) of None \<Rightarrow> (ENPU_NOT_FOUND, None) | Some a \<Rightarrow> (ENPU_SUCCESS, Some a))"
proof (cases "reg_lookup r (pod, cont)")
  case None
  then show ?thesis by (simp add: allocation_registry_get_def find_entry_index_neg)
next
  case (Some a)
  then have "0 \<le> find_entry_index r pod cont" by (simp add: find_entry_index_nonneg)
  then obtain k where k: "find_entry_index r pod cont = int k" "k < length (rg_entries r)"
    "alloc_key (rg_entries r ! k) = (pod, cont)" by (rule find_entry_index_nth)
  then have "reg_lookup r (pod, cont) = Some (rg_entries r ! k)"
    using assms by (subst reg_lookup_Some) (auto simp: registry_ok_def)
  then show ?thesis using k by (simp add: allocation_registry_get_def)
qed

section \<open>Properties\<close>


text \<open>A registration whose persistence fails reports the failure but keeps the new entry: the key
  is present afterwards, so a caller that treats the code as "not registered" is out of step with
  the table.\<close>

lemma register_persist_failure_keeps_entry:
  assumes "registry_ok r" "al_pod_uid a \<noteq> []" "al_container_name a \<noteq> []" "reg_lookup r (alloc_key a) = None"
    "length (rg_entries r) < MAX_ALLOC_COUNT" "rg_adapter r = Some (ops, st)"
    "\<And>es. fst (so_save ops st es) = e" "e \<noteq> ENPU_SUCCESS"
  shows "fst (allocation_registry_register True r a) = e
       \<and> reg_lookup (snd (allocation_registry_register True r a)) (alloc_key a) = Some a"
proof -
  obtain cap where "allocation_registry_register True r a =
       persist_to_adapter (r\<lparr>rg_entries := rg_entries r @ [a], rg_capacity := cap\<rparr>)"
    using register_accept [OF assms(1-5)] by metis
  then have "fst (allocation_registry_register True r a) = e"
    using assms(6,7) by (auto simp: persist_to_adapter_def split: prod.splits) (metis fst_conv)
  then show ?thesis using reg_lookup_register [OF assms(1-5)] by simp
qed

text \<open>The memory adapter stores what it is given only up to 256 entries: saving more returns
  \<^verbatim>\<open>ENPU_SUCCESS\<close> but a later recovery sees only the first 256 allocations, while the registry
  itself holds up to 1024.\<close>

lemma memory_save_recover:
  "snd (allocation_registry_recover True (allocation_registry_create_with_adapter
        (Some (memory_ops True, snd (memory_adapter_save True memory_storage_adapter_create es)))))
     = \<lparr>rg_entries = take 256 es, rg_capacity = max 64 (min 256 (length es)),
        rg_adapter = Some (memory_ops True, \<lparr>ma_allocations = take 256 es, ma_capacity = 256\<rparr>)\<rparr>
   \<and> fst (memory_adapter_save True memory_storage_adapter_create es) = ENPU_SUCCESS"
  by (auto simp: allocation_registry_recover_def allocation_registry_create_with_adapter_def memory_ops_def
      memory_adapter_load_def memory_adapter_save_def memory_storage_adapter_create_def Let_def max_def min_def)

section \<open>Witnesses\<close>

definition demo_alloc :: "string \<Rightarrow> int \<Rightarrow> allocation" where
  "demo_alloc pod v = \<lparr>al_pod_uid = pod, al_container_name = ''main'', al_phy_id = 0, al_vnpu_id = v,
     al_die_id = ''die0'', al_shm_id = ''die0'', al_aicore_quota = 50, al_hbm_quota = 1024, al_hbm_limit = 1024,
     al_sched_policy = 1, al_swap_priority = 1, al_vnpu_priority = 0, al_create_time_ns = 0,
     al_update_time_ns = 0, al_swap_offset = 0, al_swap_size = 0, al_swapped = False\<rparr>"

definition failing_ops :: "unit storage_ops" where
  "failing_ops = \<lparr>so_save = (\<lambda>st es. (ENPU_FAIL, st)), so_load = (\<lambda>st. (ENPU_FAIL, []))\<rparr>"

lemma empty_registry_ok: "registry_ok (allocation_registry_create_with_adapter ad)"
  by (simp add: registry_ok_def allocation_registry_create_with_adapter_def)


theorem register_persist_failure_witness:
  "fst (allocation_registry_register True (allocation_registry_create_with_adapter (Some (failing_ops, ())))
         (demo_alloc ''p1'' 0)) = ENPU_FAIL
   \<and> reg_lookup (snd (allocation_registry_register True
         (allocation_registry_create_with_adapter (Some (failing_ops, ()))) (demo_alloc ''p1'' 0)))
       (''p1'', ''main'') = Some (demo_alloc ''p1'' 0)"
  using register_persist_failure_keeps_entry [OF empty_registry_ok, of "demo_alloc ''p1'' 0" "Some (failing_ops, ())"
      failing_ops "()" ENPU_FAIL]
  by (simp add: demo_alloc_def alloc_key_def reg_lookup_def allocation_registry_create_with_adapter_def failing_ops_def)

end
