(* ===== verification/C_Qsort.thy ===== *)
theory C_Qsort
  imports Enpu_Prelude "HOL-Library.Multiset"
begin

text \<open>
  \<^verbatim>\<open>qsort\<close> and its comparators. The C standard promises of \<^verbatim>\<open>qsort\<close> a permutation of the array in
  ascending order of the comparator; the executable model is an insertion sort. The locale
  \<open>comparator\<close> states what a comparison function must satisfy for that promise to mean anything
  (its sign is antisymmetric and transitive on the elements it is used for) and proves that the
  sorted permutation is then unique, so that nothing a client computes depends on the algorithm
  of the C library.
\<close>

type_synonym 'a cmp = "'a \<Rightarrow> 'a \<Rightarrow> int"

fun c_insert :: "'a cmp \<Rightarrow> 'a \<Rightarrow> 'a list \<Rightarrow> 'a list" where
  "c_insert cmp x [] = [x]"
| "c_insert cmp x (y # ys) = (if cmp x y \<le> 0 then x # y # ys else y # c_insert cmp x ys)"

fun qsort :: "'a cmp \<Rightarrow> 'a list \<Rightarrow> 'a list" where
  "qsort cmp [] = []"
| "qsort cmp (x # xs) = c_insert cmp x (qsort cmp xs)"

lemma mset_c_insert [simp]: "mset (c_insert cmp x xs) = add_mset x (mset xs)"
  by (induction xs) auto

lemma mset_qsort [simp]: "mset (qsort cmp xs) = mset xs"
  by (induction xs) auto

lemma set_qsort [simp]: "set (qsort cmp xs) = set xs"
  by (metis mset_qsort set_mset_mset)

definition c_sorted :: "'a cmp \<Rightarrow> 'a list \<Rightarrow> bool" where
  "c_sorted cmp = sorted_wrt (\<lambda>a b. cmp a b \<le> 0)"

locale comparator =
  fixes ok :: "'a \<Rightarrow> bool" and cmp :: "'a cmp"
  assumes cmp_antisym: "ok a \<Longrightarrow> ok b \<Longrightarrow> sgn (cmp a b) = - sgn (cmp b a)"
    and cmp_trans: "ok a \<Longrightarrow> ok b \<Longrightarrow> ok c \<Longrightarrow> cmp a b \<le> 0 \<Longrightarrow> cmp b c \<le> 0 \<Longrightarrow> cmp a c \<le> 0"
begin

lemma cmp_total: "ok a \<Longrightarrow> ok b \<Longrightarrow> cmp a b \<le> 0 \<or> cmp b a \<le> 0"
  using cmp_antisym [of a b] by (auto simp: sgn_if split: if_splits)

lemma cmp_refl: "ok a \<Longrightarrow> cmp a a = 0"
  using cmp_antisym [of a a] by (auto simp: sgn_if split: if_splits)

lemma c_sorted_insert:
  assumes "ok x" "\<forall>y \<in> set ys. ok y" "c_sorted cmp ys"
  shows "c_sorted cmp (c_insert cmp x ys)"
  using assms(2,3)
proof (induction ys)
  case Nil
  then show ?case by (simp add: c_sorted_def)
next
  case (Cons y ys)
  have set_ins: "set (c_insert cmp x ys) = insert x (set ys)"
    by (metis mset_c_insert set_mset_add_mset_insert set_mset_mset)
  show ?case
  proof (cases "cmp x y \<le> 0")
    case True
    then show ?thesis using Cons.prems assms(1) cmp_trans [of x y] by (auto simp: c_sorted_def)
  next
    case False
    then have "cmp y x \<le> 0" using cmp_total [of x y] assms(1) Cons.prems by auto
    then show ?thesis using False Cons by (auto simp: c_sorted_def set_ins)
  qed
qed

lemma c_sorted_qsort: "\<forall>x \<in> set xs. ok x \<Longrightarrow> c_sorted cmp (qsort cmp xs)"
proof (induction xs)
  case (Cons x xs)
  then show ?case by (simp add: c_sorted_insert)
qed (simp add: c_sorted_def)

text \<open>The sorted permutation is unique when the comparator separates the elements.\<close>

lemma c_sorted_unique:
  assumes "c_sorted cmp xs" "c_sorted cmp ys" "mset xs = mset ys" "\<forall>x \<in> set xs. ok x"
    "\<forall>x \<in> set xs. \<forall>y \<in> set xs. cmp x y = 0 \<longrightarrow> x = y"
  shows "xs = ys"
  using assms
proof (induction xs arbitrary: ys)
  case (Cons x xs)
  then obtain y ys' where ys: "ys = y # ys'" by (cases ys) auto
  have set_eq: "set ys = set (x # xs)" using Cons.prems(3) by (metis set_mset_mset)
  have "cmp x y \<le> 0"
    using Cons.prems(1,4) ys set_eq cmp_refl by (cases "y = x") (auto simp: c_sorted_def)
  moreover have "x \<in> set (y # ys')" using set_eq ys by auto
  then have "cmp y x \<le> 0"
    using Cons.prems(2,4) ys cmp_refl by (cases "y = x") (auto simp: c_sorted_def)
  moreover have oks: "ok x" "ok y" using Cons.prems(4) set_eq ys by auto
  ultimately have "cmp x y = 0"
    using cmp_antisym [OF oks] by (auto simp: sgn_if split: if_splits)
  then have "x = y" using Cons.prems(5) set_eq ys by auto
  moreover have "xs = ys'"
    using Cons.prems ys \<open>x = y\<close> by (intro Cons.IH) (auto simp: c_sorted_def)
  ultimately show ?case using ys by simp
qed simp

lemma qsort_any_algorithm:
  assumes "\<forall>x \<in> set xs. ok x" "\<forall>x \<in> set xs. \<forall>y \<in> set xs. cmp x y = 0 \<longrightarrow> x = y"
    "mset ys = mset xs" "c_sorted cmp ys"
  shows "ys = qsort cmp xs"
  using c_sorted_unique [of "qsort cmp xs" ys] c_sorted_qsort [OF assms(1)] assms by simp

text \<open>Taking the first element of the sorted array that satisfies a filter yields a minimum of
  the elements that satisfy it.\<close>

lemma find_qsort_min:
  assumes "\<forall>x \<in> set xs. ok x" "List.find P (qsort cmp xs) = Some x"
  shows "x \<in> set xs" "P x" "\<forall>y \<in> set xs. P y \<longrightarrow> cmp x y \<le> 0"
proof -
  have s: "c_sorted cmp (qsort cmp xs)" by (rule c_sorted_qsort [OF assms(1)])
  obtain i where i: "i < length (qsort cmp xs)" "P (qsort cmp xs ! i)" "x = qsort cmp xs ! i"
    "\<forall>j < i. \<not> P (qsort cmp xs ! j)" using assms(2) by (auto simp: find_Some_iff)
  show x: "x \<in> set xs" using i nth_mem set_qsort by metis
  show "P x" using i by simp
  show "\<forall>y \<in> set xs. P y \<longrightarrow> cmp x y \<le> 0"
  proof (intro ballI impI)
    fix y assume "y \<in> set xs" "P y"
    then obtain j where j: "j < length (qsort cmp xs)" "y = qsort cmp xs ! j" "\<not> j < i"
      using i(4) by (metis in_set_conv_nth set_qsort)
    show "cmp x y \<le> 0"
    proof (cases "j = i")
      case True
      then show ?thesis using i j x cmp_refl assms(1) by simp
    next
      case False
      then show ?thesis using s i j by (simp add: c_sorted_def sorted_wrt_iff_nth_less)
    qed
  qed
qed

end

end
