(* ===== verification/Evaluator_Share.thy ===== *)
theory Evaluator_Share
  imports Npu_Tree C_Double C_Qsort
begin

text \<open>
  The placement evaluator: the evaluator registry (\<^verbatim>\<open>core/src/evaluator.c\<close>) and the share evaluator
  (\<^verbatim>\<open>core/src/evaluator_share.c\<close>), which screens every device for a request, sorts the admissible
  ones and picks the first whose policies agree. \<open>share_request_ok\<close> and \<open>admissible\<close> say when a request
  is valid and when a device may serve it; the lemmas relate the loops of the code to that
  specification. The text of \<^verbatim>\<open>error_msg\<close> is represented by the data that is printed into it.
\<close>

section \<open>Requests, responses, candidates\<close>

record eval_request =
  rq_aicore_quota :: int
  rq_hbm_quota :: u64
  rq_hbm_limit :: u64
  rq_vnpu_count :: int
  rq_sched_policy :: int
  rq_vnpu_priority :: int
  rq_predicate_phy_id :: int
  rq_oversub_ratio_per_die :: "nat \<Rightarrow> double"
  rq_allocated_hbm_limit_per_die :: "nat \<Rightarrow> u64"

datatype reject_reason = Phy_id_out_of_range | Requires_oversub | Limit_exceeds_total
  | Sum_exceeds_threshold | Insufficient_quota | No_free_slot

record reject_info =
  rj_reason :: "reject_reason option"
  rj_phy_id :: int
  rj_die_total :: u64
  rj_allocated :: u64
  rj_threshold :: u64

datatype eval_error = No_error | All_rejected reject_info | No_candidate
  | Card_policy_conflict int int | All_policy_conflict nat int

record eval_response =
  rs_node :: "nat option"
  rs_vnpu_id :: int
  rs_error_msg :: eval_error

record share_candidate =
  sc_node :: nat
  sc_vnpu_id :: int
  sc_avail_aicore :: int
  sc_avail_hbm :: u64
  sc_vnpu_count :: int
  sc_minor_id :: int
  sc_vnpu_priority :: int
  sc_policy_ok :: bool
  sc_die_oversub_enabled :: bool

datatype share_strategy = SHARE_STRATEGY_COMPACT | SHARE_STRATEGY_ANTI_FRAGMENT

section \<open>Comparators\<close>

definition compare_compact :: "share_candidate cmp" where
  "compare_compact ca cb =
     (if sc_vnpu_count ca \<noteq> sc_vnpu_count cb then sc_vnpu_count cb - sc_vnpu_count ca
      else if sc_avail_aicore ca \<noteq> sc_avail_aicore cb then sc_avail_aicore ca - sc_avail_aicore cb
      else sc_minor_id ca - sc_minor_id cb)"

definition compare_anti_fragment :: "share_candidate cmp" where
  "compare_anti_fragment ca cb =
     (if sc_vnpu_count ca \<noteq> sc_vnpu_count cb then sc_vnpu_count ca - sc_vnpu_count cb
      else if sc_avail_aicore ca \<noteq> sc_avail_aicore cb then sc_avail_aicore cb - sc_avail_aicore ca
      else sc_minor_id ca - sc_minor_id cb)"

definition compare_load_balance :: "share_candidate cmp" where
  "compare_load_balance ca cb =
     (if sc_vnpu_count ca \<noteq> sc_vnpu_count cb then sc_vnpu_count ca - sc_vnpu_count cb
      else if sc_avail_hbm ca \<noteq> sc_avail_hbm cb then (if sc_avail_hbm ca < sc_avail_hbm cb then 1 else -1)
      else sc_minor_id ca - sc_minor_id cb)"

definition compare_share_candidates :: "share_strategy \<Rightarrow> share_candidate cmp" where
  "compare_share_candidates g_share_strategy ca cb =
     (if sc_vnpu_priority ca = VNPU_PRIORITY_HIGH then compare_load_balance ca cb
      else if sc_die_oversub_enabled ca \<noteq> sc_die_oversub_enabled cb
      then (if sc_die_oversub_enabled ca then 1 else -1)
      else if g_share_strategy = SHARE_STRATEGY_COMPACT then compare_compact ca cb
      else compare_anti_fragment ca cb)"

definition evaluator_share_set_strategy :: "int \<Rightarrow> share_strategy" where
  "evaluator_share_set_strategy strategy =
     (if strategy = 0 then SHARE_STRATEGY_COMPACT else SHARE_STRATEGY_ANTI_FRAGMENT)"

section \<open>Screening the devices\<close>

definition die_hbm_total_mb :: "npu_node \<Rightarrow> u64" where
  "die_hbm_total_mb n = npu_node_get_total_memory (Some n) div (1024 * 1024)"

text \<open>\<^verbatim>\<open>(uint64_t)((1.0 + die_oversub) * (double)die_hbm_total_mb)\<close>\<close>

definition oversub_threshold :: "double \<Rightarrow> u64 \<Rightarrow> u64 option" where
  "oversub_threshold ratio die_total = u64_of_double (fl_mul (fl_add 1 ratio) (double_of_u64 die_total))"

datatype screen_result = Skipped | Rejected reject_info | Accepted share_candidate

definition screen_leaf :: "eval_request \<Rightarrow> reject_info \<Rightarrow> nat \<Rightarrow> npu_node \<Rightarrow> screen_result option" where
  "screen_leaf req last_reject p n =
     (let phy_id = npu_node_get_phy_id (Some n);
          avail_aicore = npu_node_get_available_aicore (Some n);
          avail_hbm = npu_node_get_available_hbm (Some n) in
      if rq_predicate_phy_id req \<ge> 0 \<and> phy_id \<noteq> rq_predicate_phy_id req then Some Skipped
      else if phy_id < 0 \<or> phy_id \<ge> int MAX_NPU_PER_NODE
      then Some (Rejected (last_reject\<lparr>rj_phy_id := phy_id, rj_reason := Some Phy_id_out_of_range\<rparr>))
      else let die_total = die_hbm_total_mb n;
               ratio = rq_oversub_ratio_per_die req (nat phy_id);
               die_oversub_enabled = (ratio > 0);
               vnpu_oversub = (rq_hbm_quota req < rq_hbm_limit req) in
      if vnpu_oversub \<and> \<not> die_oversub_enabled
      then Some (Rejected (last_reject\<lparr>rj_phy_id := phy_id, rj_reason := Some Requires_oversub\<rparr>))
      else if rq_hbm_limit req > die_total
      then Some (Rejected (last_reject\<lparr>rj_phy_id := phy_id, rj_reason := Some Limit_exceeds_total,
                               rj_die_total := die_total\<rparr>))
      else do {
        let allocated = rq_allocated_hbm_limit_per_die req (nat phy_id);
        let new_total = allocated + rq_hbm_limit req;
        threshold \<leftarrow> oversub_threshold ratio die_total;
        if new_total > threshold
        then Some (Rejected (last_reject\<lparr>rj_phy_id := phy_id, rj_reason := Some Sum_exceeds_threshold,
                       rj_die_total := die_total, rj_allocated := allocated, rj_threshold := threshold\<rparr>))
        else if avail_aicore < rq_aicore_quota req \<or> avail_hbm < rq_hbm_quota req
        then Some (Rejected (last_reject\<lparr>rj_phy_id := phy_id, rj_reason := Some Insufficient_quota\<rparr>))
        else do {
          vnpu_id \<leftarrow> npu_tree_get_available_vnpu_id (Some n);
          if vnpu_id < 0
          then Some (Rejected (last_reject\<lparr>rj_phy_id := phy_id, rj_reason := Some No_free_slot\<rparr>))
          else Some (Accepted \<lparr>sc_node = p, sc_vnpu_id = vnpu_id, sc_avail_aicore = avail_aicore,
                 sc_avail_hbm = avail_hbm, sc_vnpu_count = npu_node_get_vnpu_count (Some n),
                 sc_minor_id = npu_node_get_minor_id (Some n), sc_vnpu_priority = rq_vnpu_priority req,
                 sc_policy_ok = (rq_vnpu_priority req = VNPU_PRIORITY_HIGH \<or>
                    npu_node_validate_policy (Some n) (rq_sched_policy req) = ENPU_SUCCESS),
                 sc_die_oversub_enabled = die_oversub_enabled\<rparr>)
        }
      })"

abbreviation (input) MAX_CANDIDATES :: nat where "MAX_CANDIDATES \<equiv> MAX_NPU_PER_NODE"

fun screen_leaves :: "eval_request \<Rightarrow> npu_tree \<Rightarrow> nat list \<Rightarrow> share_candidate list \<Rightarrow> reject_info \<Rightarrow>
    (share_candidate list \<times> reject_info) option" where
  "screen_leaves req t [] cands last_reject = Some (cands, last_reject)"
| "screen_leaves req t (p # ps) cands last_reject =
     (if length cands \<ge> MAX_CANDIDATES then Some (cands, last_reject)
      else do {
        n \<leftarrow> nt_heap t p;
        res \<leftarrow> screen_leaf req last_reject p n;
        case res of
          Skipped \<Rightarrow> screen_leaves req t ps cands last_reject
        | Rejected last_reject' \<Rightarrow> screen_leaves req t ps cands last_reject'
        | Accepted c \<Rightarrow> screen_leaves req t ps (cands @ [c]) last_reject
      })"

section \<open>The evaluation\<close>

definition no_reject :: reject_info where
  "no_reject = \<lparr>rj_reason = None, rj_phy_id = -1, rj_die_total = 0, rj_allocated = 0, rj_threshold = 0\<rparr>"

definition share_request_ok :: "eval_request \<Rightarrow> bool" where
  "share_request_ok req \<longleftrightarrow>
     \<not> (rq_vnpu_priority req = VNPU_PRIORITY_NORMAL \<and> rq_aicore_quota req \<le> 0 \<or> rq_hbm_quota req = 0)
     \<and> \<not> (rq_vnpu_priority req \<noteq> VNPU_PRIORITY_NORMAL \<and> rq_vnpu_priority req \<noteq> VNPU_PRIORITY_HIGH)
     \<and> \<not> (rq_vnpu_priority req = VNPU_PRIORITY_NORMAL \<and>
          (rq_sched_policy req < SCHED_POLICY_FIXED_SHARE \<or> rq_sched_policy req > SCHED_POLICY_BEST_EFFORT))"

definition evaluator_share_evaluate ::
    "share_strategy \<Rightarrow> npu_tree \<Rightarrow> eval_request \<Rightarrow> eval_response \<Rightarrow> (int \<times> eval_response) option" where
  "evaluator_share_evaluate g_share_strategy t req resp =
     (if \<not> share_request_ok req then Some (ENPU_INVALID_PARAM, resp)
      else if \<not> nt_initialized t then Some (ENPU_FAIL, resp)
      else do {
        (cands, last_reject) \<leftarrow> screen_leaves req t (nt_leaves t) [] no_reject;
        if cands = []
        then Some (ENPU_NO_RESOURCE, resp\<lparr>rs_error_msg :=
               (if rj_reason last_reject \<noteq> None then All_rejected last_reject else No_candidate)\<rparr>)
        else if rq_predicate_phy_id req \<ge> 0
        then (if \<not> sc_policy_ok (hd cands)
              then Some (ENPU_NO_RESOURCE, resp\<lparr>rs_error_msg :=
                     Card_policy_conflict (rq_predicate_phy_id req) (rq_sched_policy req)\<rparr>)
              else Some (ENPU_SUCCESS, resp\<lparr>rs_node := Some (sc_node (hd cands)),
                     rs_vnpu_id := sc_vnpu_id (hd cands)\<rparr>))
        else case List.find sc_policy_ok (qsort (compare_share_candidates g_share_strategy) cands) of
               Some c \<Rightarrow> Some (ENPU_SUCCESS, resp\<lparr>rs_node := Some (sc_node c), rs_vnpu_id := sc_vnpu_id c\<rparr>)
             | None \<Rightarrow> Some (ENPU_NO_RESOURCE, resp\<lparr>rs_error_msg :=
                     All_policy_conflict (length cands) (rq_sched_policy req)\<rparr>)
      })"

section \<open>The evaluator registry\<close>

abbreviation (input) MAX_EVALUATORS :: nat where "MAX_EVALUATORS \<equiv> 16"

type_synonym 'e evaluator_registry = "(string \<times> 'e) list"

definition evaluator_registry_register :: "'e evaluator_registry \<Rightarrow> string \<Rightarrow> 'e \<Rightarrow> int \<times> 'e evaluator_registry" where
  "evaluator_registry_register reg name e =
     (if length reg \<ge> MAX_EVALUATORS then (ENPU_FAIL, reg)
      else if list_ex (\<lambda>x. fst x = name) reg then (ENPU_FAIL, reg)
      else (ENPU_SUCCESS, reg @ [(name, e)]))"

definition evaluator_registry_get :: "'e evaluator_registry \<Rightarrow> string \<Rightarrow> 'e option" where
  "evaluator_registry_get reg name = map_option snd (List.find (\<lambda>x. fst x = name) reg)"

section \<open>The comparators are orders\<close>

interpretation compact_order: comparator "\<lambda>_. True" compare_compact
  by unfold_locales (auto simp: compare_compact_def sgn_if split: if_splits)

interpretation anti_fragment_order: comparator "\<lambda>_. True" compare_anti_fragment
  by unfold_locales (auto simp: compare_anti_fragment_def sgn_if split: if_splits)

interpretation load_balance_order: comparator "\<lambda>_. True" compare_load_balance
  by unfold_locales (auto simp: compare_load_balance_def sgn_if split: if_splits)

text \<open>The composed comparator tests the priority of its first argument only; it is an order on
  candidates of one request, which all carry the priority of the request.\<close>

interpretation share_order: comparator "\<lambda>c. sc_vnpu_priority c = prio" "compare_share_candidates strat" for prio strat
proof unfold_locales
  fix a b c :: share_candidate
  assume pr: "sc_vnpu_priority a = prio" "sc_vnpu_priority b = prio"
  show "sgn (compare_share_candidates strat a b) = - sgn (compare_share_candidates strat b a)"
    using pr compact_order.cmp_antisym [of a b] anti_fragment_order.cmp_antisym [of a b]
      load_balance_order.cmp_antisym [of a b]
    by (auto simp: compare_share_candidates_def)
  assume "sc_vnpu_priority c = prio" "compare_share_candidates strat a b \<le> 0" "compare_share_candidates strat b c \<le> 0"
  then show "compare_share_candidates strat a c \<le> 0"
    using pr compact_order.cmp_trans [of a b c] anti_fragment_order.cmp_trans [of a b c]
      load_balance_order.cmp_trans [of a b c]
    by (auto simp: compare_share_candidates_def split: if_splits)
qed

lemma compare_share_eq_0:
  "sc_vnpu_priority a = sc_vnpu_priority b \<Longrightarrow> compare_share_candidates strat a b = 0 \<Longrightarrow> sc_minor_id a = sc_minor_id b"
  by (auto simp: compare_share_candidates_def compare_compact_def compare_anti_fragment_def compare_load_balance_def
      split: if_splits)

section \<open>The specification of a placement\<close>

definition admissible :: "eval_request \<Rightarrow> npu_node \<Rightarrow> bool" where
  "admissible req n \<longleftrightarrow>
     (let phy = nm_phy_id (nd_meta n); alloc = nd_allocatable n in
      (rq_predicate_phy_id req < 0 \<or> phy = rq_predicate_phy_id req)
      \<and> 0 \<le> phy \<and> phy < int MAX_NPU_PER_NODE
      \<and> (rq_hbm_limit req \<le> rq_hbm_quota req \<or> rq_oversub_ratio_per_die req (nat phy) > 0)
      \<and> rq_hbm_limit req \<le> die_hbm_total_mb n
      \<and> (case oversub_threshold (rq_oversub_ratio_per_die req (nat phy)) (die_hbm_total_mb n) of
           None \<Rightarrow> False
         | Some threshold \<Rightarrow> rq_allocated_hbm_limit_per_die req (nat phy) + rq_hbm_limit req \<le> threshold)
      \<and> rq_aicore_quota req \<le> sint (na_aicore_quota alloc)
      \<and> rq_hbm_quota req \<le> na_hbm_quota alloc
      \<and> na_vnpu_mask alloc \<noteq> 0)"

definition policy_agrees :: "eval_request \<Rightarrow> npu_node \<Rightarrow> bool" where
  "policy_agrees req n \<longleftrightarrow> rq_vnpu_priority req = VNPU_PRIORITY_HIGH \<or>
     (\<forall>e \<in> set (policy_list n). pe_vnpu_priority e = VNPU_PRIORITY_HIGH \<or> pe_sched_policy e = rq_sched_policy req)"

definition candidate_of :: "eval_request \<Rightarrow> nat \<Rightarrow> npu_node \<Rightarrow> share_candidate" where
  "candidate_of req p n =
     \<lparr>sc_node = p, sc_vnpu_id = the (npu_tree_get_available_vnpu_id (Some n)),
      sc_avail_aicore = sint (na_aicore_quota (nd_allocatable n)), sc_avail_hbm = na_hbm_quota (nd_allocatable n),
      sc_vnpu_count = na_vnpu_count (nd_allocatable n), sc_minor_id = nm_minor_id (nd_meta n),
      sc_vnpu_priority = rq_vnpu_priority req, sc_policy_ok = policy_agrees req n,
      sc_die_oversub_enabled = (rq_oversub_ratio_per_die req (nat (nm_phy_id (nd_meta n))) > 0)\<rparr>"

text \<open>The conversion of the threshold to \<^verbatim>\<open>uint64_t\<close> is defined for this device.\<close>

definition threshold_defined :: "eval_request \<Rightarrow> npu_node \<Rightarrow> bool" where
  "threshold_defined req n \<longleftrightarrow>
     oversub_threshold (rq_oversub_ratio_per_die req (nat (nm_phy_id (nd_meta n)))) (die_hbm_total_mb n) \<noteq> None"

lemma candidate_of_simps [simp]:
  "sc_node (candidate_of req p n) = p"
  "sc_vnpu_priority (candidate_of req p n) = rq_vnpu_priority req"
  "sc_policy_ok (candidate_of req p n) = policy_agrees req n"
  "sc_minor_id (candidate_of req p n) = nm_minor_id (nd_meta n)"
  by (simp_all add: candidate_of_def)

lemma policy_agrees_iff:
  "rq_vnpu_priority req = VNPU_PRIORITY_HIGH \<or> npu_node_validate_policy (Some n) (rq_sched_policy req) = ENPU_SUCCESS
     \<longleftrightarrow> policy_agrees req n"
  by (auto simp: policy_agrees_def npu_node_validate_policy_def policies_conform_iff)

lemmas node_getters = npu_node_get_phy_id_def npu_node_get_available_aicore_def npu_node_get_available_hbm_def
  npu_node_get_vnpu_count_def npu_node_get_minor_id_def

lemma screen_leaf_admissible:
  assumes "admissible req n"
  shows "screen_leaf req l p n = Some (Accepted (candidate_of req p n))"
proof (cases rule: available_vnpu_id_cases [of n])
  case full
  then show ?thesis using assms by (simp add: admissible_def Let_def)
next
  case (free i)
  from assms obtain th where
    "oversub_threshold (rq_oversub_ratio_per_die req (nat (nm_phy_id (nd_meta n)))) (die_hbm_total_mb n) = Some th"
    "rq_allocated_hbm_limit_per_die req (nat (nm_phy_id (nd_meta n))) + rq_hbm_limit req \<le> th"
    by (auto simp: admissible_def Let_def split: option.splits)
  then show ?thesis
    using assms free(1)
    by (auto simp: screen_leaf_def admissible_def Let_def node_getters policy_agrees_iff candidate_of_def not_less)
qed

lemma screen_leaf_inadmissible:
  assumes "threshold_defined req n" "\<not> admissible req n"
  obtains "screen_leaf req l p n = Some Skipped" | l' where "screen_leaf req l p n = Some (Rejected l')"
proof -
  obtain th where th: "oversub_threshold (rq_oversub_ratio_per_die req (nat (nm_phy_id (nd_meta n))))
      (die_hbm_total_mb n) = Some th" using assms by (auto simp: threshold_defined_def)
  obtain v where v: "npu_tree_get_available_vnpu_id (Some n) = Some v"
    "v \<ge> 0 \<Longrightarrow> na_vnpu_mask (nd_allocatable n) \<noteq> 0"
    by (cases rule: available_vnpu_id_cases [of n]) (auto, metis bit_0_eq bot_apply bot_bool_def)
  have "\<not> (\<exists>c. screen_leaf req l p n = Some (Accepted c))"
    using assms(2) v(2)
    by (simp add: screen_leaf_def node_getters Let_def th v(1) admissible_def not_less, blast)
  moreover have "screen_leaf req l p n \<noteq> None"
    by (simp add: screen_leaf_def node_getters Let_def th v(1))
  ultimately obtain res where "screen_leaf req l p n = Some res" "\<And>c. res \<noteq> Accepted c" by auto
  then show ?thesis using that by (cases res) auto
qed

lemma screen_leaves_spec:
  assumes "\<forall>p \<in> set ps. \<exists>n. nt_heap t p = Some n \<and> threshold_defined req n"
    "length cands + length ps \<le> MAX_CANDIDATES"
  shows "\<exists>l'. screen_leaves req t ps cands l = Some (cands @ map (\<lambda>p. candidate_of req p (the (nt_heap t p)))
           (filter (\<lambda>p. admissible req (the (nt_heap t p))) ps), l')"
  using assms
proof (induction ps arbitrary: cands l)
  case (Cons p ps)
  then obtain n where n: "nt_heap t p = Some n" "threshold_defined req n" by auto
  note IH = Cons.IH
  show ?case
  proof (cases "admissible req n")
    case True
    then have "screen_leaf req l p n = Some (Accepted (candidate_of req p n))"
      by (rule screen_leaf_admissible)
    then show ?thesis using IH [of "cands @ [candidate_of req p n]" l] Cons.prems n True by simp
  next
    case False
    then consider "screen_leaf req l p n = Some Skipped" | l' where "screen_leaf req l p n = Some (Rejected l')"
      using screen_leaf_inadmissible [OF n(2)] by blast
    then show ?thesis
    proof cases
      case 1
      then show ?thesis using IH [of cands l] Cons.prems n False by simp
    next
      case 2
      then show ?thesis using IH [of cands l'] Cons.prems n False by simp
    qed
  qed
qed simp

section \<open>Correctness of the evaluation\<close>

text \<open>The devices the loop accepts, in tree order.\<close>

definition admissible_leaves :: "npu_tree \<Rightarrow> eval_request \<Rightarrow> nat list" where
  "admissible_leaves t req = filter (\<lambda>p. admissible req (the (nt_heap t p))) (nt_leaves t)"

abbreviation leaf_candidate :: "npu_tree \<Rightarrow> eval_request \<Rightarrow> nat \<Rightarrow> share_candidate" where
  "leaf_candidate t req p \<equiv> candidate_of req p (the (nt_heap t p))"

lemma screen_tree:
  assumes "tree_wf t" "\<forall>p \<in> set (nt_leaves t). threshold_defined req (the (nt_heap t p))"
  obtains l where "screen_leaves req t (nt_leaves t) [] no_reject
      = Some (map (leaf_candidate t req) (admissible_leaves t req), l)"
proof -
  have "\<forall>p \<in> set (nt_leaves t). \<exists>n. nt_heap t p = Some n \<and> threshold_defined req n"
    using assms tree_wf_leaf by (metis option.sel)
  moreover have "length [] + length (nt_leaves t) \<le> MAX_CANDIDATES" using assms(1) by (simp add: tree_wf_def)
  ultimately show ?thesis
    using screen_leaves_spec [of "nt_leaves t" t req "[]" no_reject] that by (auto simp: admissible_leaves_def)
qed

lemma admissible_phy:
  assumes "tree_wf t" "p \<in> set (admissible_leaves t req)" "0 \<le> rq_predicate_phy_id req"
  shows "leaf_phy t p = rq_predicate_phy_id req"
  using assms by (auto simp: admissible_leaves_def admissible_def Let_def leaf_phy_def)

lemma admissible_predicate_unique:
  assumes "tree_wf t" "0 \<le> rq_predicate_phy_id req" "p \<in> set (admissible_leaves t req)" "q \<in> set (admissible_leaves t req)"
  shows "p = q"
proof -
  have "leaf_phy t p = leaf_phy t q" using admissible_phy assms by metis
  moreover have "inj_on (leaf_phy t) (set (nt_leaves t))" using assms(1) by (simp add: tree_wf_def distinct_map)
  ultimately show ?thesis using assms(3,4) by (auto simp: admissible_leaves_def inj_on_def)
qed

text \<open>A device is a possible answer if it is admissible and its policies agree.\<close>

definition eligible :: "npu_tree \<Rightarrow> eval_request \<Rightarrow> nat set" where
  "eligible t req = {p \<in> set (nt_leaves t). admissible req (the (nt_heap t p)) \<and> policy_agrees req (the (nt_heap t p))}"

lemma eligible_alt: "p \<in> eligible t req \<longleftrightarrow> p \<in> set (admissible_leaves t req) \<and> policy_agrees req (the (nt_heap t p))"
  by (auto simp: eligible_def admissible_leaves_def)

lemma find_map_qsort:
  assumes "List.find sc_policy_ok (qsort (compare_share_candidates strat) (map (leaf_candidate t req) ps)) = Some c"
  obtains p where "p \<in> set ps" "c = leaf_candidate t req p" "policy_agrees req (the (nt_heap t p))"
    "\<forall>q \<in> set ps. policy_agrees req (the (nt_heap t q)) \<longrightarrow>
       compare_share_candidates strat c (leaf_candidate t req q) \<le> 0"
proof -
  have "\<forall>x \<in> set (map (leaf_candidate t req) ps). sc_vnpu_priority x = rq_vnpu_priority req" by auto
  from share_order.find_qsort_min [OF this assms] show ?thesis using that by fastforce
qed

lemma evaluate_cases:
  assumes "tree_wf t" "nt_initialized t" "share_request_ok req"
    "\<forall>p \<in> set (nt_leaves t). threshold_defined req (the (nt_heap t p))"
  obtains (placed) p resp' where "evaluator_share_evaluate strat t req resp = Some (ENPU_SUCCESS, resp')"
      "p \<in> eligible t req" "rs_node resp' = Some p" "rs_vnpu_id resp' = sc_vnpu_id (leaf_candidate t req p)"
      "\<forall>q \<in> eligible t req. compare_share_candidates strat (leaf_candidate t req p) (leaf_candidate t req q) \<le> 0"
  | (refused) e where "evaluator_share_evaluate strat t req resp = Some (ENPU_NO_RESOURCE, resp\<lparr>rs_error_msg := e\<rparr>)"
      "eligible t req = {}"
proof -
  let ?ps = "admissible_leaves t req"
  obtain l where l: "screen_leaves req t (nt_leaves t) [] no_reject = Some (map (leaf_candidate t req) ?ps, l)"
    using screen_tree [OF assms(1,4)] by blast
  note eval = evaluator_share_evaluate_def [of strat t req resp] assms(2,3) l
  show ?thesis
  proof (cases ?ps)
    case Nil
    then show ?thesis by (intro refused) (auto simp: eval eligible_alt)
  next
    case (Cons p ps)
    show ?thesis
    proof (cases "0 \<le> rq_predicate_phy_id req")
      case True
      have only: "q = p" if "q \<in> set ?ps" for q
        using admissible_predicate_unique [OF assms(1) True that] Cons by auto
      then have only_p: "eligible t req \<subseteq> {p}" by (auto simp: eligible_alt)
      show ?thesis
      proof (cases "policy_agrees req (the (nt_heap t p))")
        case agrees: True
        have "compare_share_candidates strat (leaf_candidate t req p) (leaf_candidate t req p) = 0"
          by (rule share_order.cmp_refl) simp
        moreover have "evaluator_share_evaluate strat t req resp = Some (ENPU_SUCCESS, resp\<lparr>rs_node := Some p,
            rs_vnpu_id := sc_vnpu_id (leaf_candidate t req p)\<rparr>)"
          using agrees True Cons by (simp add: eval)
        moreover have "p \<in> eligible t req" using agrees Cons by (simp add: eligible_alt)
        ultimately show ?thesis using only_p by (intro placed [of _ p]) auto
      next
        case False
        then have "p \<notin> eligible t req" by (simp add: eligible_alt)
        then have "eligible t req = {}" using only_p by blast
        moreover have "evaluator_share_evaluate strat t req resp = Some (ENPU_NO_RESOURCE,
            resp\<lparr>rs_error_msg := Card_policy_conflict (rq_predicate_phy_id req) (rq_sched_policy req)\<rparr>)"
          using False True Cons by (simp add: eval)
        ultimately show ?thesis by (intro refused)
      qed
    next
      case False
      have ne: "?ps \<noteq> []" using Cons by simp
      let ?find = "List.find sc_policy_ok (qsort (compare_share_candidates strat) (map (leaf_candidate t req) ?ps))"
      show ?thesis
      proof (cases ?find)
        case None
        then have "\<forall>c \<in> set (map (leaf_candidate t req) ?ps). \<not> sc_policy_ok c"
          by (metis find_None_iff set_qsort)
        then have "\<forall>q \<in> set ?ps. \<not> policy_agrees req (the (nt_heap t q))" by simp
        moreover have "evaluator_share_evaluate strat t req resp = Some (ENPU_NO_RESOURCE,
            resp\<lparr>rs_error_msg := All_policy_conflict (length ?ps) (rq_sched_policy req)\<rparr>)"
          using None False ne by (simp add: eval)
        ultimately show ?thesis by (intro refused) (auto simp: eligible_alt)
      next
        case (Some c)
        then obtain q where q: "q \<in> set ?ps" "c = leaf_candidate t req q" "policy_agrees req (the (nt_heap t q))"
          "\<forall>r \<in> set ?ps. policy_agrees req (the (nt_heap t r)) \<longrightarrow>
             compare_share_candidates strat c (leaf_candidate t req r) \<le> 0"
          by (rule find_map_qsort)
        moreover have "evaluator_share_evaluate strat t req resp = Some (ENPU_SUCCESS,
            resp\<lparr>rs_node := Some (sc_node c), rs_vnpu_id := sc_vnpu_id c\<rparr>)"
          using Some False ne by (simp add: eval)
        ultimately show ?thesis by (intro placed [of _ q]) (auto simp: eligible_alt)
      qed
    qed
  qed
qed

lemma oversub_threshold_zero:
  assumes "uint die_total < 2 ^ 53"
  shows "oversub_threshold 0 die_total = Some die_total"
proof -
  have "rnd 1 = 1" using rnd_of_int [of 1] by simp
  moreover have "\<bar>uint die_total\<bar> < 2 ^ 53" using assms by simp
  then have "rnd (double_of_u64 die_total) = double_of_u64 die_total"
    using rnd_of_int [of "uint die_total"] by (simp only: double_of_u64_exact [OF assms])
  ultimately show ?thesis
    using u64_double_roundtrip [OF assms] by (simp add: oversub_threshold_def fl_add_def fl_mul_def)
qed

section \<open>Properties\<close>

text \<open>C18: on a well-formed tree a valid request is answered, and answered as specified. Either
  some device is eligible (all resource, oversubscription and policy conditions hold); then the call
  succeeds with an eligible device that is minimal in the configured order among all eligible devices,
  and with the smallest free vNPU number of that device. Or no device is eligible; then the call
  returns \<^verbatim>\<open>ENPU_NO_RESOURCE\<close> and leaves the response without a device. There is no third case and no
  undefined behaviour.\<close>

theorem evaluate_correct:
  assumes "tree_wf t" "nt_initialized t" "share_request_ok req"
    "\<forall>p \<in> set (nt_leaves t). threshold_defined req (the (nt_heap t p))"
  shows "(\<exists>p resp'. evaluator_share_evaluate strat t req resp = Some (ENPU_SUCCESS, resp')
            \<and> p \<in> eligible t req \<and> rs_node resp' = Some p
            \<and> npu_tree_get_available_vnpu_id (nt_heap t p) = Some (rs_vnpu_id resp') \<and> 0 \<le> rs_vnpu_id resp'
            \<and> (\<forall>q \<in> eligible t req.
                 compare_share_candidates strat (leaf_candidate t req p) (leaf_candidate t req q) \<le> 0))
       \<or> (\<exists>e. evaluator_share_evaluate strat t req resp = Some (ENPU_NO_RESOURCE, resp\<lparr>rs_error_msg := e\<rparr>)
            \<and> eligible t req = {})"
proof (rule evaluate_cases [OF assms, of strat resp], goal_cases)
  case (1 p resp')
  then have "p \<in> set (nt_leaves t)" by (simp add: eligible_def)
  with assms(1) obtain n where n: "nt_heap t p = Some n" by (rule tree_wf_leaf)
  then have "na_vnpu_mask (nd_allocatable n) \<noteq> 0"
    using 1(2) by (auto simp: eligible_def admissible_def Let_def)
  then obtain i where i: "npu_tree_get_available_vnpu_id (Some n) = Some (int i)"
    by (cases rule: available_vnpu_id_cases [of n]) auto
  then have "rs_vnpu_id resp' = int i" using 1(4) n by (simp add: candidate_of_def)
  then show ?case using 1 n i by auto
next
  case (2 e)
  then show ?case by blast
qed

text \<open>The answer does not depend on the sorting algorithm. When the devices have distinct minor
  numbers, every permutation of the candidates that is ascending for the comparator is the one the
  model computes, so any \<^verbatim>\<open>qsort\<close> gives the same placement.\<close>

lemma sort_algorithm_irrelevant:
  assumes "distinct (map (\<lambda>p. nm_minor_id (nd_meta (the (nt_heap t p)))) (nt_leaves t))"
    "mset ys = mset (map (leaf_candidate t req) (admissible_leaves t req))"
    "c_sorted (compare_share_candidates strat) ys"
  shows "ys = qsort (compare_share_candidates strat) (map (leaf_candidate t req) (admissible_leaves t req))"
proof (rule share_order.qsort_any_algorithm [where prio = "rq_vnpu_priority req"])
  have inj: "inj_on (\<lambda>p. nm_minor_id (nd_meta (the (nt_heap t p)))) (set (nt_leaves t))"
    using assms(1) by (simp add: distinct_map)
  show "\<forall>x \<in> set (map (leaf_candidate t req) (admissible_leaves t req)).
      \<forall>y \<in> set (map (leaf_candidate t req) (admissible_leaves t req)).
        compare_share_candidates strat x y = 0 \<longrightarrow> x = y"
  proof (clarsimp simp: admissible_leaves_def)
    fix p q
    assume pq: "p \<in> set (nt_leaves t)" "q \<in> set (nt_leaves t)"
      "compare_share_candidates strat (leaf_candidate t req p) (leaf_candidate t req q) = 0"
    then have "nm_minor_id (nd_meta (the (nt_heap t p))) = nm_minor_id (nd_meta (the (nt_heap t q)))"
      using compare_share_eq_0 [OF _ pq(3)] by simp
    then have "p = q" using inj pq by (auto simp: inj_on_def)
    then show "leaf_candidate t req p = leaf_candidate t req q" by simp
  qed
qed (use assms in auto)

lemma limits_no_wrap:
  fixes a l total :: u64
  assumes "a + l \<le> total" "l \<le> total" "a \<le> total" "uint total < 2 ^ 53"
  shows "unat a + unat l \<le> unat total"
proof -
  have "uint a + uint l < 2 ^ 64" using assms(2-4) by (simp add: word_le_def)
  then have "uint (a + l) = uint a + uint l" by (simp add: uint_word_ariths(1))
  then show ?thesis using assms(1) by (simp add: word_le_def) (simp flip: of_nat_le_iff [where 'a = int])
qed

text \<open>C19: without oversubscription no device is overcommitted. If the ratio of the chosen device is
  \<open>0.0\<close>, a granted request has \<^verbatim>\<open>hbm_limit <= hbm_quota\<close>, asks for at most the cores and at most the memory
  quota the device has left, and has a memory limit which, with the limits already given out, passes the comparison with the
  total: the floating-point threshold \<^verbatim>\<open>(1.0 + 0.0) * total\<close> is exactly the total. That comparison is made on a
  64-bit sum; if the limits given out so far fit in the device, the sum does not wrap and the limits still fit.\<close>

theorem no_oversub_no_overcommit:
  assumes "tree_wf t" "nt_initialized t" "share_request_ok req"
    "\<forall>p \<in> set (nt_leaves t). threshold_defined req (the (nt_heap t p))"
    "evaluator_share_evaluate strat t req resp = Some (ENPU_SUCCESS, resp')" "rs_node resp' = Some p"
    "nt_heap t p = Some n" "rq_oversub_ratio_per_die req (nat (nm_phy_id (nd_meta n))) = 0"
    "uint (die_hbm_total_mb n) < 2 ^ 53"
  shows "rq_aicore_quota req \<le> sint (na_aicore_quota (nd_allocatable n))
       \<and> rq_hbm_quota req \<le> na_hbm_quota (nd_allocatable n)
       \<and> rq_hbm_limit req \<le> rq_hbm_quota req
       \<and> rq_allocated_hbm_limit_per_die req (nat (nm_phy_id (nd_meta n))) + rq_hbm_limit req \<le> die_hbm_total_mb n
       \<and> (rq_allocated_hbm_limit_per_die req (nat (nm_phy_id (nd_meta n))) \<le> die_hbm_total_mb n \<longrightarrow>
          unat (rq_allocated_hbm_limit_per_die req (nat (nm_phy_id (nd_meta n)))) + unat (rq_hbm_limit req) \<le> unat (die_hbm_total_mb n))"
proof (rule evaluate_cases [OF assms(1-4), of strat resp], goal_cases)
  case (1 q resp'')
  then have "p \<in> eligible t req" using assms(5,6) by simp
  then have l: "rq_aicore_quota req \<le> sint (na_aicore_quota (nd_allocatable n))" "rq_hbm_quota req \<le> na_hbm_quota (nd_allocatable n)"
    "rq_hbm_limit req \<le> rq_hbm_quota req" "rq_hbm_limit req \<le> die_hbm_total_mb n"
    "rq_allocated_hbm_limit_per_die req (nat (nm_phy_id (nd_meta n))) + rq_hbm_limit req \<le> die_hbm_total_mb n"
    using assms(7,8) oversub_threshold_zero [OF assms(9)] by (auto simp: eligible_def admissible_def Let_def)
  then show ?case using limits_no_wrap [OF l(5,4)] assms(9) by simp
next
  case (2 e)
  then show ?case using assms(5) by simp
qed

section \<open>Witnesses\<close>

definition demo_config :: dcmi_stub_config where
  "demo_config = \<lparr>sc_device_count = 2, sc_total_memory_mb = 65536, sc_total_aicore = 100\<rparr>"

definition demo_two :: npu_tree where
  "demo_two = snd (the (npu_tree_init_with_adapter (dcmi_adapter_create_stub demo_config) (\<lambda>_. True) npu_tree_create))"

definition demo_req :: eval_request where
  "demo_req = \<lparr>rq_aicore_quota = 50, rq_hbm_quota = 1024, rq_hbm_limit = 1024, rq_vnpu_count = 1,
     rq_sched_policy = 1, rq_vnpu_priority = 0, rq_predicate_phy_id = -1,
     rq_oversub_ratio_per_die = (\<lambda>_. 0), rq_allocated_hbm_limit_per_die = (\<lambda>_. 0)\<rparr>"

definition demo_resp :: eval_response where
  "demo_resp = \<lparr>rs_node = None, rs_vnpu_id = 0, rs_error_msg = No_error\<rparr>"

lemma demo_two_eq:
  "demo_two = \<lparr>nt_heap = (\<lambda>_. None)(0 \<mapsto> device_node 0 (bmask 0) (snd (stub_get_device_info demo_config 0)) (snd (stub_get_die_info demo_config 0)),
       1 \<mapsto> device_node 1 (bmask 1) (snd (stub_get_device_info demo_config 1)) (snd (stub_get_die_info demo_config 1)),
       2 \<mapsto> create_node\<lparr>nd_topo_level := NPU_TOPO_SYS\<rparr>),
     nt_next = 3, nt_root = Some 2, nt_leaves = [0, 1], nt_die_nodes = [],
     nt_query_table = (\<lambda>_. None)(0 := Some 0, 1 := Some 1), nt_query_size = 2, nt_real_mode = True,
     nt_initialized = True\<rparr>"
  by (simp add: demo_two_def demo_config_def npu_tree_init_with_adapter_def dcmi_adapter_create_stub_def
      stub_get_device_count_def stub_get_device_list_def stub_get_device_info_def stub_get_die_info_def
      npu_tree_create_def Let_def alloc_node_def build_tree_hierarchy_def upt_rec numeral_2_eq_2 numeral_3_eq_3)

lemma demo_two_wf: "tree_wf demo_two"
proof -
  obtain ret t where "npu_tree_init_with_adapter (dcmi_adapter_create_stub demo_config) (\<lambda>_. True) npu_tree_create
      = Some (ret, t)" "tree_wf t" using stub.init_wf by metis
  then show ?thesis by (simp add: demo_two_def)
qed

lemma demo_total: "die_hbm_total_mb (device_node d m (snd (stub_get_device_info demo_config d')) die)
    = (if 0 \<le> d' \<and> d' < 2 then 65536 else 0)"
  by (simp add: die_hbm_total_mb_def npu_node_get_total_memory_def device_node_def stub_get_device_info_def
      demo_config_def)

lemma demo_hyps:
  "nt_initialized demo_two" "share_request_ok demo_req"
  "\<forall>p \<in> set (nt_leaves demo_two). threshold_defined demo_req (the (nt_heap demo_two p))"
proof -
  show "nt_initialized demo_two" by (simp add: demo_two_eq)
  show "share_request_ok demo_req" by (simp add: share_request_ok_def demo_req_def)
  have "oversub_threshold 0 65536 = Some 65536" by (rule oversub_threshold_zero) simp
  then show "\<forall>p \<in> set (nt_leaves demo_two). threshold_defined demo_req (the (nt_heap demo_two p))"
    by (simp add: demo_two_eq threshold_defined_def demo_total demo_req_def)
qed

lemma demo_eval:
  "evaluator_share_evaluate SHARE_STRATEGY_COMPACT demo_two demo_req demo_resp
     = Some (ENPU_SUCCESS, demo_resp\<lparr>rs_node := Some 0, rs_vnpu_id := 0\<rparr>)"
proof -
  let ?n = "\<lambda>d. device_node d (bmask (nat d)) (snd (stub_get_device_info demo_config d)) (snd (stub_get_die_info demo_config d))"
  have th: "oversub_threshold 0 65536 = Some 65536" by (rule oversub_threshold_zero) simp
  have free: "npu_tree_get_available_vnpu_id (Some (?n d)) = Some 0" for d
    by (simp add: npu_tree_get_available_vnpu_id_def device_node_def upt_conv_Cons bmask_def)
  have quota: "admissible demo_req (?n d)" if "d = 0 \<or> d = 1" for d
    using that by (auto simp: admissible_def Let_def demo_req_def demo_total th)
      (simp_all add: device_node_def demo_config_def stub_get_device_info_def)
  have adm: "admissible_leaves demo_two demo_req = [0, 1]"
    using quota [of 0] quota [of 1] by (simp add: admissible_leaves_def demo_two_eq)
  obtain l where l: "screen_leaves demo_req demo_two (nt_leaves demo_two) [] no_reject
      = Some (map (leaf_candidate demo_two demo_req) [0, 1], l)"
    using screen_tree [OF demo_two_wf demo_hyps(3)] unfolding adm by blast
  have pol: "policy_agrees demo_req (?n d)" for d
    by (simp add: policy_agrees_def device_node_def create_node_def policy_list_def)
  have cmp: "compare_share_candidates SHARE_STRATEGY_COMPACT (leaf_candidate demo_two demo_req 0)
      (leaf_candidate demo_two demo_req 1) \<le> 0"
    by (simp add: compare_share_candidates_def compare_compact_def candidate_of_def demo_two_eq demo_req_def
        device_node_def stub_get_device_info_def demo_config_def)
  show ?thesis
    using free [of 0] pol [of 0] cmp
    by (simp add: evaluator_share_evaluate_def demo_hyps l) (simp add: demo_req_def demo_two_eq candidate_of_def demo_resp_def)
qed

theorem evaluate_correct_witness:
  "\<exists>p resp'. evaluator_share_evaluate SHARE_STRATEGY_COMPACT demo_two demo_req demo_resp = Some (ENPU_SUCCESS, resp')
     \<and> p \<in> eligible demo_two demo_req \<and> rs_node resp' = Some p
     \<and> npu_tree_get_available_vnpu_id (nt_heap demo_two p) = Some (rs_vnpu_id resp')"
  using evaluate_correct [OF demo_two_wf demo_hyps, of SHARE_STRATEGY_COMPACT demo_resp] demo_eval by auto

theorem sort_algorithm_irrelevant_witness:
  "qsort (compare_share_candidates SHARE_STRATEGY_COMPACT)
       (rev (map (leaf_candidate demo_two demo_req) (admissible_leaves demo_two demo_req)))
     = qsort (compare_share_candidates SHARE_STRATEGY_COMPACT)
       (map (leaf_candidate demo_two demo_req) (admissible_leaves demo_two demo_req))"
proof (rule sort_algorithm_irrelevant)
  show "distinct (map (\<lambda>p. nm_minor_id (nd_meta (the (nt_heap demo_two p)))) (nt_leaves demo_two))"
    by (simp add: demo_two_eq device_node_def)
  show "c_sorted (compare_share_candidates SHARE_STRATEGY_COMPACT)
     (qsort (compare_share_candidates SHARE_STRATEGY_COMPACT)
       (rev (map (leaf_candidate demo_two demo_req) (admissible_leaves demo_two demo_req))))"
    by (rule share_order.c_sorted_qsort [where prio = "rq_vnpu_priority demo_req"]) auto
qed simp

theorem no_oversub_no_overcommit_witness:
  "evaluator_share_evaluate SHARE_STRATEGY_COMPACT demo_two demo_req demo_resp
     = Some (ENPU_SUCCESS, demo_resp\<lparr>rs_node := Some 0, rs_vnpu_id := 0\<rparr>)
   \<and> rq_aicore_quota demo_req \<le> sint (na_aicore_quota (nd_allocatable (the (nt_heap demo_two 0))))
   \<and> unat (rq_hbm_limit demo_req) \<le> unat (die_hbm_total_mb (the (nt_heap demo_two 0)))"
proof -
  have "nt_heap demo_two 0 = Some (the (nt_heap demo_two 0))" by (simp add: demo_two_eq)
  moreover have "uint (die_hbm_total_mb (the (nt_heap demo_two 0))) < 2 ^ 53"
    by (simp add: demo_two_eq demo_total)
  moreover have "rq_oversub_ratio_per_die demo_req k = 0" "rq_allocated_hbm_limit_per_die demo_req k = 0" for k by (simp_all add: demo_req_def)
  ultimately show ?thesis
    using no_oversub_no_overcommit [OF demo_two_wf demo_hyps demo_eval, of 0 "the (nt_heap demo_two 0)"] demo_eval
    by simp
qed

end
