(* ===== verification/Npu_Config.thy ===== *)
theory Npu_Config
  imports Enpu_Prelude
begin

text \<open>
  The configuration file \<^verbatim>\<open>npu_info.config\<close> that carries an allocation from the manager to the
  runtime: the writer (\<^verbatim>\<open>enpu-manager/core/src/config_manager.c\<close>) and the loader
  (\<^verbatim>\<open>vcann-rt/src/utils/config.c\<close>). The files are a map from paths to contents; directories are
  not represented, and what \<^verbatim>\<open>mkdir\<close>, \<^verbatim>\<open>open\<close>, \<^verbatim>\<open>write\<close> and \<^verbatim>\<open>unlink\<close> answer is a parameter. The
  loader is the composition of the C library calls it makes (\<^verbatim>\<open>fgets\<close>, \<^verbatim>\<open>strtol\<close>, \<^verbatim>\<open>strtoull\<close>), which are
  modelled on character lists; \<open>char_sgn\<close> says whether \<^verbatim>\<open>char\<close> is signed, on which the skipping of
  characters depends.
\<close>

section \<open>The writer\<close>

record vnpu_config =
  vc_phy_npu_id :: int
  vc_vnpu_id :: int
  vc_aicore_quota :: int
  vc_memory_request :: u64
  vc_memory_limit :: u64
  vc_scheduling_policy :: int
  vc_vnpu_priority :: int
  vc_shm_id :: string

type_synonym files = "string \<rightharpoonup> string"

text \<open>\<open>fe_mkdir p\<close>: \<^verbatim>\<open>mkdir(p)\<close> succeeds or the directory exists. \<open>fe_short_write p = Some n\<close>: \<^verbatim>\<open>write\<close> stores
  only the first \<open>n\<close> bytes. \<open>fe_unlink p\<close>: \<^verbatim>\<open>unlink(p)\<close> succeeds or
  there is no such file.\<close>

record file_env =
  fe_mkdir :: "string \<Rightarrow> bool"
  fe_open :: "string \<Rightarrow> bool"
  fe_short_write :: "string \<Rightarrow> nat option"
  fe_unlink :: "string \<Rightarrow> bool"

abbreviation (input) MAX_DIR_PATH_LEN :: nat where "MAX_DIR_PATH_LEN \<equiv> 512"
abbreviation (input) MAX_CONFIG_CONTENT_LEN :: nat where "MAX_CONFIG_CONTENT_LEN \<equiv> 1024"

text \<open>The prefixes of a path that end before a slash, the first character excepted.\<close>

definition path_prefixes :: "string \<Rightarrow> string list" where
  "path_prefixes tmp = map (\<lambda>i. take i tmp) (filter (\<lambda>i. tmp ! i = CHR ''/'') [1..<length tmp])"

definition create_dir_recursive :: "file_env \<Rightarrow> string \<Rightarrow> int option" where
  "create_dir_recursive env path =
     (if length path \<ge> MAX_DIR_PATH_LEN then Some ENPU_INVALID_PARAM
      else if path = [] then None
      else let tmp = (if last path = CHR ''/'' then butlast path else path) in
        if list_all (fe_mkdir env) (path_prefixes tmp) \<and> fe_mkdir env tmp then Some ENPU_SUCCESS
        else Some ENPU_FAIL)"

definition config_line :: "string \<Rightarrow> string \<Rightarrow> string" where
  "config_line key val = key @ ''='' @ val @ [CHR 0x0A]"

definition config_content :: "vnpu_config \<Rightarrow> string" where
  "config_content c =
     config_line ''physical-npu-id'' (dec_int (vc_phy_npu_id c)) @
     config_line ''virtual-npu-id'' (dec_int (vc_vnpu_id c)) @
     config_line ''aicore-quota'' (dec_int (vc_aicore_quota c)) @
     config_line ''memory-request'' (dec_nat (unat (vc_memory_request c))) @
     config_line ''memory-limit'' (dec_nat (unat (vc_memory_limit c))) @
     config_line ''shm-id'' (vc_shm_id c) @
     config_line ''scheduling-policy'' (dec_int (vc_scheduling_policy c)) @
     config_line ''vnpu_priority'' (dec_int (vc_vnpu_priority c))"

definition generate_config_content :: "vnpu_config \<Rightarrow> nat \<Rightarrow> int \<times> string option" where
  "generate_config_content c max_len =
     (if max_len = 0 then (ENPU_INVALID_PARAM, None)
      else if length (config_content c) \<ge> max_len then (ENPU_FAIL, None)
      else (ENPU_SUCCESS, Some (config_content c)))"

definition write_file_content :: "file_env \<Rightarrow> files \<Rightarrow> string \<Rightarrow> string \<Rightarrow> int \<times> files" where
  "write_file_content env fs path content =
     (if \<not> fe_open env path then (ENPU_FAIL, fs)
      else case fe_short_write env path of
        None \<Rightarrow> (ENPU_SUCCESS, fs(path \<mapsto> content))
      | Some n \<Rightarrow> (ENPU_FAIL, if fe_unlink env path then fs(path := None) else fs(path \<mapsto> take n content)))"

text \<open>\<^verbatim>\<open>snprintf_s\<close> into a buffer of \<open>len\<close> bytes: \<^term>\<open>None\<close> when the text does not fit.\<close>

definition format_into :: "nat \<Rightarrow> string \<Rightarrow> string option" where
  "format_into len s = (if length s < len then Some s else None)"

definition config_manager_create :: "file_env \<Rightarrow> bool \<Rightarrow> string option \<Rightarrow> string option option" where
  "config_manager_create env mem_ok base_path =
     (if \<not> mem_ok then Some None
      else case format_into MAX_PATH_LEN
                  (case base_path of Some b \<Rightarrow> if b \<noteq> [] then b else ''/etc/enpu/vcann-rt/''
                                   | None \<Rightarrow> ''/etc/enpu/vcann-rt/'') of
             None \<Rightarrow> Some None
           | Some b \<Rightarrow>
             let b' = (if b \<noteq> [] \<and> last b \<noteq> CHR ''/'' \<and> length b + 1 < MAX_PATH_LEN then b @ ''/'' else b) in
             do { ret \<leftarrow> create_dir_recursive env b'; Some (if ret = ENPU_SUCCESS then Some b' else None) })"

definition config_manager_write_config ::
    "file_env \<Rightarrow> string \<Rightarrow> files \<Rightarrow> string \<Rightarrow> string \<Rightarrow> vnpu_config \<Rightarrow> (int \<times> files) option" where
  "config_manager_write_config env base fs pod_uid container_name c =
     (case format_into MAX_DIR_PATH_LEN (base @ pod_uid @ ''/'' @ container_name) of
        None \<Rightarrow> Some (ENPU_FAIL, fs)
      | Some dir_path \<Rightarrow> do {
          ret \<leftarrow> create_dir_recursive env dir_path;
          if ret \<noteq> ENPU_SUCCESS then Some (ret, fs)
          else case generate_config_content c MAX_CONFIG_CONTENT_LEN of
            (ret, None) \<Rightarrow> Some (ret, fs)
          | (ret, Some content) \<Rightarrow>
            (case format_into MAX_DIR_PATH_LEN (dir_path @ ''/npu_info.config'') of
               None \<Rightarrow> Some (ENPU_FAIL, fs)
             | Some file_path \<Rightarrow> Some (write_file_content env fs file_path content))
        })"

text \<open>The result of the last \<^verbatim>\<open>snprintf_s\<close>, the number of characters it printed, is also the result of
  the function.\<close>

definition config_manager_delete_config ::
    "file_env \<Rightarrow> string \<Rightarrow> files \<Rightarrow> string \<Rightarrow> string \<Rightarrow> int \<times> files" where
  "config_manager_delete_config env base fs pod_uid container_name =
     (case format_into MAX_DIR_PATH_LEN (base @ pod_uid @ ''/'' @ container_name) of
        None \<Rightarrow> (ENPU_FAIL, fs)
      | Some dir_path \<Rightarrow>
        (case format_into MAX_DIR_PATH_LEN (dir_path @ ''/npu_info.config'') of
           None \<Rightarrow> (ENPU_FAIL, fs)
         | Some file_path \<Rightarrow>
           let fs1 = (if fe_unlink env file_path then fs(file_path := None) else fs) in
           (case format_into MAX_DIR_PATH_LEN (base @ pod_uid) of
              None \<Rightarrow> (ENPU_FAIL, fs1)
            | Some parent_path \<Rightarrow> (int (length parent_path), fs1))))"

definition config_manager_get_config_path :: "string \<Rightarrow> string \<Rightarrow> string \<Rightarrow> nat \<Rightarrow> string option" where
  "config_manager_get_config_path base pod_uid container_name buf_len =
     format_into buf_len (base @ pod_uid @ ''/'' @ container_name @ ''/npu_info.config'')"

section \<open>The C library calls of the loader\<close>

definition c_isspace :: "char \<Rightarrow> bool" where
  "c_isspace c \<longleftrightarrow> (let n = of_char c :: nat in n = 32 \<or> 9 \<le> n \<and> n \<le> 13)"

definition c_isdigit :: "char \<Rightarrow> bool" where
  "c_isdigit c \<longleftrightarrow> (let n = of_char c :: nat in 48 \<le> n \<and> n \<le> 57)"

definition digits_val :: "string \<Rightarrow> nat" where
  "digits_val ds = foldl (\<lambda>a c. a * 10 + (of_char c - 48)) 0 ds"

text \<open>The prefix that \<^verbatim>\<open>strtol\<close> and \<^verbatim>\<open>strtoull\<close> read: sign, digits, what follows.\<close>

definition scan_number :: "string \<Rightarrow> bool \<times> string \<times> string" where
  "scan_number s =
     (let t = dropWhile c_isspace s;
          neg = (t \<noteq> [] \<and> hd t = CHR ''-'');
          u = (if t \<noteq> [] \<and> (hd t = CHR ''-'' \<or> hd t = CHR ''+'') then tl t else t)
      in (neg, takeWhile c_isdigit u, dropWhile c_isdigit u))"

text \<open>Value, unread rest, and whether \<^verbatim>\<open>errno\<close> is \<^verbatim>\<open>ERANGE\<close>. Without digits nothing is read.\<close>

definition strtol :: "string \<Rightarrow> int \<times> string \<times> bool" where
  "strtol s =
     (case scan_number s of (neg, ds, rest) \<Rightarrow>
        if ds = [] then (0, s, False)
        else let v = (if neg then - int (digits_val ds) else int (digits_val ds)) in
          if v < - (2 ^ 63) then (- (2 ^ 63), rest, True)
          else if v > 2 ^ 63 - 1 then (2 ^ 63 - 1, rest, True)
          else (v, rest, False))"

definition strtoull :: "string \<Rightarrow> u64 \<times> string \<times> bool" where
  "strtoull s =
     (case scan_number s of (neg, ds, rest) \<Rightarrow>
        if ds = [] then (0, s, False)
        else if digits_val ds \<ge> 2 ^ 64 then (-1, rest, True)
        else (if neg then - of_nat (digits_val ds) else of_nat (digits_val ds), rest, False))"

text \<open>\<^verbatim>\<open>fgets\<close> with a buffer of \<open>n + 1\<close> bytes: up to \<open>n\<close> characters, through the next newline.\<close>

definition fgets :: "nat \<Rightarrow> string \<Rightarrow> string \<times> string" where
  "fgets n s =
     (let a = takeWhile (\<lambda>c. c \<noteq> CHR 0x0A) s;
          k = (if length a < n then Suc (length a) else n)
      in (take k s, drop k s))"

function fgets_lines :: "nat \<Rightarrow> string \<Rightarrow> string list" where
  "fgets_lines n s = (if n = 0 \<or> s = [] then [] else fst (fgets n s) # fgets_lines n (snd (fgets n s)))"
  by auto
termination
  by (relation "measure (length \<circ> snd)") (auto simp: fgets_def Let_def)

declare fgets_lines.simps [simp del]

section \<open>The loader\<close>

record rt_config =
  rc_phy_npu_id :: int
  rc_vnpu_id :: int
  rc_aicore_quota :: int
  rc_memory_quota :: int
  rc_memory_request :: u64
  rc_memory_limit :: u64
  rc_scheduling_policy :: int
  rc_vnpu_priority :: int
  rc_shm_id :: string

abbreviation (input) INVALID_VALUE :: int where "INVALID_VALUE \<equiv> -1"
abbreviation (input) MAX_LINE_LENGTH :: nat where "MAX_LINE_LENGTH \<equiv> 256"
abbreviation (input) RT_SHM_ID_LEN :: nat where "RT_SHM_ID_LEN \<equiv> 128"

definition reset_config :: rt_config where
  "reset_config = \<lparr>rc_phy_npu_id = INVALID_VALUE, rc_vnpu_id = INVALID_VALUE, rc_aicore_quota = INVALID_VALUE,
     rc_memory_quota = INVALID_VALUE, rc_memory_request = 0, rc_memory_limit = 0,
     rc_scheduling_policy = INVALID_VALUE, rc_vnpu_priority = VNPU_PRIORITY_NORMAL, rc_shm_id = []\<rparr>"

definition check_int32 :: "int \<Rightarrow> int" where
  "check_int32 option_val = (if option_val = INVALID_VALUE then RT_ENPU_FAIL else ENPU_SUCCESS)"

fun has_dotdot :: "string \<Rightarrow> bool" where
  "has_dotdot (a # b # s) \<longleftrightarrow> a = CHR ''.'' \<and> b = CHR ''.'' \<or> has_dotdot (b # s)"
| "has_dotdot s \<longleftrightarrow> False"

definition check_shm_id :: "string \<Rightarrow> int" where
  "check_shm_id str =
     (if str = [] then RT_ENPU_FAIL
      else if CHR ''/'' \<in> set str then RT_ENPU_FAIL
      else if has_dotdot str then RT_ENPU_FAIL
      else ENPU_SUCCESS)"

definition check_memory :: "rt_config \<Rightarrow> rt_config option" where
  "check_memory c =
     (if rc_memory_request c = 0 \<and> rc_memory_limit c = 0
      then (if rc_memory_quota c = INVALID_VALUE then None
            else Some (c\<lparr>rc_memory_request := word_of_int (rc_memory_quota c),
                         rc_memory_limit := word_of_int (rc_memory_quota c)\<rparr>))
      else if rc_memory_request c = 0 \<or> rc_memory_limit c = 0 then None
      else Some c)"

text \<open>\<^verbatim>\<open>check_config\<close> fills in defaults; its result says whether the configuration is accepted.\<close>

definition check_config :: "rt_config \<Rightarrow> bool \<times> rt_config" where
  "check_config c =
     (if rc_vnpu_priority c \<noteq> VNPU_PRIORITY_NORMAL \<and> rc_vnpu_priority c \<noteq> VNPU_PRIORITY_HIGH then (False, c)
      else if rc_vnpu_priority c = VNPU_PRIORITY_HIGH \<and>
         (rc_aicore_quota c \<noteq> INVALID_VALUE \<and> rc_aicore_quota c \<noteq> 0 \<or>
          rc_scheduling_policy c \<noteq> INVALID_VALUE \<and> rc_scheduling_policy c \<noteq> 3) then (False, c)
      else let c1 = (if rc_vnpu_priority c = VNPU_PRIORITY_HIGH
                     then c\<lparr>rc_aicore_quota := 0, rc_scheduling_policy := 3\<rparr> else c) in
        case check_memory c1 of
          None \<Rightarrow> (False, c1)
        | Some c2 \<Rightarrow>
          (check_int32 (rc_phy_npu_id c2) = ENPU_SUCCESS \<and> check_int32 (rc_vnpu_id c2) = ENPU_SUCCESS \<and>
           check_int32 (rc_aicore_quota c2) = ENPU_SUCCESS \<and> check_int32 (rc_scheduling_policy c2) = ENPU_SUCCESS \<and>
           check_shm_id (rc_shm_id c2) = ENPU_SUCCESS, c2))"

text \<open>The value stored, or \<^term>\<open>None\<close> when the call fails and stores nothing.\<close>

definition load_int32 :: "string \<Rightarrow> int option" where
  "load_int32 val =
     (case strtol val of (result, rest, erange) \<Rightarrow>
        if erange then None
        else if rest = val then None
        else if rest \<noteq> [] then None
        else if result < - (2 ^ 31) \<or> result > 2 ^ 31 - 1 then None
        else if result = -1 then None
        else Some result)"

definition load_str :: "string \<Rightarrow> nat \<Rightarrow> string option" where
  "load_str val ret_len = (if length val \<ge> ret_len then None else Some val)"

definition load_uint64 :: "string \<Rightarrow> u64 option" where
  "load_uint64 val =
     (case strtoull val of (result, rest, erange) \<Rightarrow>
        if erange then None
        else if result = 0xFFFFFFFFFFFFFFFF then None
        else if rest = val then None
        else if rest \<noteq> [] then None
        else Some result)"


definition store_with :: "('v \<Rightarrow> rt_config \<Rightarrow> rt_config) \<Rightarrow> 'v option \<Rightarrow> rt_config \<Rightarrow> int \<times> rt_config" where
  "store_with upd v c = (case v of None \<Rightarrow> (RT_ENPU_FAIL, c) | Some x \<Rightarrow> (ENPU_SUCCESS, upd x c))"

definition save2config :: "string \<Rightarrow> string \<Rightarrow> rt_config \<Rightarrow> int \<times> rt_config" where
  "save2config key val c =
     (if key = ''physical-npu-id'' then store_with (\<lambda>x. rc_phy_npu_id_update (\<lambda>_. x)) (load_int32 val) c
      else if key = ''virtual-npu-id'' then store_with (\<lambda>x. rc_vnpu_id_update (\<lambda>_. x)) (load_int32 val) c
      else if key = ''aicore-quota'' then store_with (\<lambda>x. rc_aicore_quota_update (\<lambda>_. x)) (load_int32 val) c
      else if key = ''memory-quota'' then store_with (\<lambda>x. rc_memory_quota_update (\<lambda>_. x)) (load_int32 val) c
      else if key = ''memory-request'' then store_with (\<lambda>x. rc_memory_request_update (\<lambda>_. x)) (load_uint64 val) c
      else if key = ''memory-limit'' then store_with (\<lambda>x. rc_memory_limit_update (\<lambda>_. x)) (load_uint64 val) c
      else if key = ''scheduling-policy''
      then store_with (\<lambda>x. rc_scheduling_policy_update (\<lambda>_. x)) (load_int32 val) c
      else if key = ''vnpu_priority'' then store_with (\<lambda>x. rc_vnpu_priority_update (\<lambda>_. x)) (load_int32 val) c
      else if key = ''shm-id'' then store_with (\<lambda>x. rc_shm_id_update (\<lambda>_. x)) (load_str val RT_SHM_ID_LEN) c
      else (RT_ENPU_FAIL, c))"

text \<open>\<^verbatim>\<open>buffer[pos] < '!'\<close>: with a signed \<^verbatim>\<open>char\<close> the bytes from 128 on compare as negative.\<close>

definition skipped_char :: "bool \<Rightarrow> char \<Rightarrow> bool" where
  "skipped_char char_sgn c \<longleftrightarrow> (of_char c :: nat) < 33 \<or> char_sgn \<and> (of_char c :: nat) \<ge> 128"

text \<open>One iteration of the reading loop on the line \<open>buf\<close> that \<^verbatim>\<open>fgets\<close> returned.\<close>

definition load_line :: "bool \<Rightarrow> string \<Rightarrow> rt_config \<times> bool \<Rightarrow> rt_config \<times> bool" where
  "load_line char_sgn buf st =
     (case st of (c, invalid_compute_setting) \<Rightarrow>
        let b = filter (\<lambda>x. \<not> skipped_char char_sgn x) (takeWhile (\<lambda>x. x \<noteq> CHR 0x00) buf) in
        if b = [] \<or> hd b = CHR ''#'' then (c, invalid_compute_setting)
        else if CHR ''='' \<notin> set b then (c, invalid_compute_setting)
        else let key = takeWhile (\<lambda>x. x \<noteq> CHR ''='') b; val = tl (dropWhile (\<lambda>x. x \<noteq> CHR ''='') b) in
          case save2config key val c of (rc, c') \<Rightarrow>
            (c', invalid_compute_setting \<or>
               rc \<noteq> ENPU_SUCCESS \<and> (key = ''aicore-quota'' \<or> key = ''scheduling-policy'')))"

definition load_config :: "bool \<Rightarrow> string option \<Rightarrow> rt_config \<Rightarrow> int \<times> rt_config" where
  "load_config char_sgn file c =
     (case file of None \<Rightarrow> (RT_ENPU_FAIL, c)
      | Some content \<Rightarrow>
        (case fold (load_line char_sgn) (fgets_lines (MAX_LINE_LENGTH - 1) content) (reset_config, False) of
           (c1, invalid_compute_setting) \<Rightarrow>
             if invalid_compute_setting \<and> rc_vnpu_priority c1 = VNPU_PRIORITY_HIGH then (RT_ENPU_FAIL, c1)
             else case check_config c1 of (ok, c2) \<Rightarrow> (if ok then ENPU_SUCCESS else RT_ENPU_FAIL, c2)))"

section \<open>Reading back what was printed\<close>

lemma digit_char: "d < 10 \<Longrightarrow> c_isdigit (char_of (48 + d))" "d < 10 \<Longrightarrow> of_char (char_of (48 + d :: nat)) = 48 + d"
  by (simp_all add: c_isdigit_def)

lemma dec_nat_digits: "c \<in> set (dec_nat n) \<Longrightarrow> c_isdigit c"
proof (induction n rule: dec_nat.induct)
  case (1 n)
  then show ?case by (subst (asm) (2) dec_nat.simps) (auto simp: digit_char split: if_splits)
qed

lemma digits_val_dec [simp]: "digits_val (dec_nat n) = n"
proof (induction n rule: dec_nat.induct)
  case (1 n)
  then show ?case by (subst dec_nat.simps) (auto simp: digits_val_def)
qed

lemma digit_not_sign: "c_isdigit c \<Longrightarrow> c \<noteq> CHR ''-'' \<and> c \<noteq> CHR ''+'' \<and> \<not> c_isspace c \<and> c \<noteq> CHR ''='' \<and> c \<noteq> CHR 0x0A
   \<and> c \<noteq> CHR 0x00 \<and> \<not> skipped_char char_sgn c"
  by (auto simp: c_isdigit_def c_isspace_def skipped_char_def Let_def)

lemma scan_dec_nat: "scan_number (dec_nat n) = (False, dec_nat n, [])"
proof -
  have d: "\<forall>c \<in> set (dec_nat n). c_isdigit c" using dec_nat_digits by blast
  obtain x xs where x: "dec_nat n = x # xs" by (metis dec_nat_nonempty list.exhaust)
  then have "c_isdigit x" using d by simp
  then have "dropWhile c_isspace (dec_nat n) = dec_nat n" "hd (dec_nat n) \<noteq> CHR ''-''" "hd (dec_nat n) \<noteq> CHR ''+''"
    using digit_not_sign x by auto
  moreover have "takeWhile c_isdigit (dec_nat n) = dec_nat n" "dropWhile c_isdigit (dec_nat n) = []" using d by simp_all
  ultimately show ?thesis by (simp add: scan_number_def Let_def)
qed

lemma scan_minus_dec_nat: "scan_number (CHR ''-'' # dec_nat n) = (True, dec_nat n, [])"
proof -
  have d: "\<forall>c \<in> set (dec_nat n). c_isdigit c" using dec_nat_digits by blast
  then have "takeWhile c_isdigit (dec_nat n) = dec_nat n" "dropWhile c_isdigit (dec_nat n) = []" by simp_all
  moreover have "\<not> c_isspace (CHR ''-'')" by (simp add: c_isspace_def)
  ultimately show ?thesis by (simp add: scan_number_def Let_def)
qed

lemma load_int32_dec:
  assumes "- (2 ^ 31) \<le> i" "i < 2 ^ 31" "i \<noteq> -1"
  shows "load_int32 (dec_int i) = Some i"
  using assms
  by (auto simp: load_int32_def strtol_def dec_int_def scan_dec_nat scan_minus_dec_nat dec_nat_nonempty
      dec_nat_nonempty [symmetric])

lemma load_uint64_dec: "w \<noteq> 0xFFFFFFFFFFFFFFFF \<Longrightarrow> load_uint64 (dec_nat (unat w)) = Some w"
  using unsigned_less [of w, where ?'a = nat]
  by (auto simp: load_uint64_def strtoull_def scan_dec_nat dec_nat_nonempty dec_nat_nonempty [symmetric])

lemma fgets_lines_line:
  assumes "CHR 0x0A \<notin> set a" "length a < n"
  shows "fgets_lines n (a @ CHR 0x0A # s) = (a @ [CHR 0x0A]) # fgets_lines n s"
proof -
  have "takeWhile (\<lambda>c. c \<noteq> CHR 0x0A) (a @ CHR 0x0A # s) = a" using assms(1) by (induction a) auto
  then have "fgets n (a @ CHR 0x0A # s) = (a @ [CHR 0x0A], s)" using assms(2) by (simp add: fgets_def)
  then show ?thesis using assms(2) by (subst fgets_lines.simps) auto
qed


lemma skipped_control:
  "skipped_char char_sgn (CHR 0x00)" "skipped_char char_sgn (CHR 0x0A)" "\<not> skipped_char char_sgn (CHR ''='')"
  by (simp_all add: skipped_char_def)

lemma load_line_config_line:
  assumes "\<forall>x \<in> set key \<union> set val. \<not> skipped_char char_sgn x" "CHR ''='' \<notin> set key" "key \<noteq> []" "hd key \<noteq> CHR ''#''"
  shows "load_line char_sgn (config_line key val) (c, bad) =
    (case save2config key val c of (rc, c') \<Rightarrow>
       (c', bad \<or> rc \<noteq> ENPU_SUCCESS \<and> (key = ''aicore-quota'' \<or> key = ''scheduling-policy'')))"
proof -
  have "CHR 0x00 \<notin> set (config_line key val)"
    using assms(1) skipped_control [of char_sgn] by (auto simp: config_line_def)
  then have 1: "takeWhile (\<lambda>x. x \<noteq> CHR 0x00) (config_line key val) = config_line key val"
    by (auto simp: takeWhile_eq_all_conv)
  have "filter (\<lambda>x. \<not> skipped_char char_sgn x) key = key" "filter (\<lambda>x. \<not> skipped_char char_sgn x) val = val"
    using assms(1) by (auto simp: filter_id_conv)
  then have 2: "filter (\<lambda>x. \<not> skipped_char char_sgn x) (config_line key val) = key @ CHR ''='' # val"
    using skipped_control [of char_sgn] by (simp add: config_line_def)
  have 3: "takeWhile (\<lambda>x. x \<noteq> CHR ''='') (key @ CHR ''='' # val) = key"
    "dropWhile (\<lambda>x. x \<noteq> CHR ''='') (key @ CHR ''='' # val) = CHR ''='' # val"
    using assms(2) by (induction key) auto
  show ?thesis unfolding load_line_def Let_def 1 2 3 using assms(3,4) by simp
qed

lemma fgets_lines_config_line:
  assumes "\<forall>x \<in> set key \<union> set val. \<not> skipped_char char_sgn x" "length key + length val < n - 1"
  shows "fgets_lines n (config_line key val @ s) = config_line key val # fgets_lines n s"
proof -
  have "CHR 0x0A \<notin> set (key @ ''='' @ val)" using assms(1) skipped_control [of char_sgn] by auto
  from fgets_lines_line [OF this, of n s] assms(2) show ?thesis by (simp add: config_line_def)
qed

lemma dec_chars:
  "\<forall>x \<in> set (dec_nat n). \<not> skipped_char char_sgn x"
  "\<forall>x \<in> set (dec_int i). \<not> skipped_char char_sgn x"
  using digit_not_sign dec_nat_digits by (auto simp: dec_int_def skipped_char_def split: if_splits)

lemma length_dec_nat: "n < 10 ^ k \<Longrightarrow> 0 < k \<Longrightarrow> length (dec_nat n) \<le> k"
proof (induction n arbitrary: k rule: dec_nat.induct)
  case (1 n)
  show ?case
  proof (cases "n < 10")
    case True
    then show ?thesis using 1(3) by (subst dec_nat.simps) simp
  next
    case False
    then obtain k' where k: "k = Suc k'" "0 < k'" using 1(2,3) by (cases k; cases "k - 1") auto
    then have "n div 10 < 10 ^ k'" using 1(2) by (simp add: less_mult_imp_div_less)
    then show ?thesis using 1(1) [OF False] k False by (subst dec_nat.simps) simp
  qed
qed

lemma length_dec_u64: "length (dec_nat (unat (w :: u64))) \<le> 20"
proof (rule length_dec_nat)
  have "unat w < 2 ^ 64" using unsigned_less [of w, where ?'a = nat] by simp
  also have "\<dots> \<le> 10 ^ 20" by simp
  finally show "unat w < 10 ^ 20" .
qed simp

lemma length_dec_int32: "- (2 ^ 31) \<le> i \<Longrightarrow> i < 2 ^ 31 \<Longrightarrow> length (dec_int i) \<le> 11"
  using length_dec_nat [of "nat (- i)" 10] length_dec_nat [of "nat i" 10]
  by (cases "i < 0") (auto simp: dec_int_def nat_less_iff)

text \<open>What the writer is given: 32-bit numbers of which none is the reserved value -1, memory sizes
  other than the reserved maximum, and a name of printable characters that fits its field.\<close>

definition int32_ok :: "int \<Rightarrow> bool" where
  "int32_ok i \<longleftrightarrow> - (2 ^ 31) \<le> i \<and> i < 2 ^ 31 \<and> i \<noteq> -1"

definition config_printable :: "bool \<Rightarrow> vnpu_config \<Rightarrow> bool" where
  "config_printable char_sgn c \<longleftrightarrow>
     int32_ok (vc_phy_npu_id c) \<and> int32_ok (vc_vnpu_id c) \<and> int32_ok (vc_aicore_quota c) \<and>
     int32_ok (vc_scheduling_policy c) \<and> int32_ok (vc_vnpu_priority c) \<and>
     vc_memory_request c \<noteq> 0xFFFFFFFFFFFFFFFF \<and> vc_memory_limit c \<noteq> 0xFFFFFFFFFFFFFFFF \<and>
     length (vc_shm_id c) < SHM_ID_LEN \<and> (\<forall>x \<in> set (vc_shm_id c). \<not> skipped_char char_sgn x)"

definition rt_of :: "vnpu_config \<Rightarrow> rt_config" where
  "rt_of c = \<lparr>rc_phy_npu_id = vc_phy_npu_id c, rc_vnpu_id = vc_vnpu_id c, rc_aicore_quota = vc_aicore_quota c,
     rc_memory_quota = INVALID_VALUE, rc_memory_request = vc_memory_request c, rc_memory_limit = vc_memory_limit c,
     rc_scheduling_policy = vc_scheduling_policy c, rc_vnpu_priority = vc_vnpu_priority c, rc_shm_id = vc_shm_id c\<rparr>"


lemma key_chars:
  assumes "key \<in> {''physical-npu-id'', ''virtual-npu-id'', ''aicore-quota'', ''memory-request'', ''memory-limit'',
    ''shm-id'', ''scheduling-policy'', ''vnpu_priority''}"
  shows "\<forall>x \<in> set key. \<not> skipped_char char_sgn x" "CHR ''='' \<notin> set key" "key \<noteq> []" "hd key \<noteq> CHR ''#''" "length key \<le> 17"
  using assms by (auto simp: skipped_char_def)

lemma content_lines:
  assumes "config_printable char_sgn c"
  shows "fgets_lines 255 (config_content c) =
    [config_line ''physical-npu-id'' (dec_int (vc_phy_npu_id c)), config_line ''virtual-npu-id'' (dec_int (vc_vnpu_id c)),
     config_line ''aicore-quota'' (dec_int (vc_aicore_quota c)), config_line ''memory-request'' (dec_nat (unat (vc_memory_request c))),
     config_line ''memory-limit'' (dec_nat (unat (vc_memory_limit c))), config_line ''shm-id'' (vc_shm_id c),
     config_line ''scheduling-policy'' (dec_int (vc_scheduling_policy c)), config_line ''vnpu_priority'' (dec_int (vc_vnpu_priority c))]"
    (is "fgets_lines ?n _ = _")
proof -
  have line: "fgets_lines ?n (config_line key val @ s) = config_line key val # fgets_lines ?n s"
    if "key \<in> {''physical-npu-id'', ''virtual-npu-id'', ''aicore-quota'', ''memory-request'', ''memory-limit'',
      ''shm-id'', ''scheduling-policy'', ''vnpu_priority''}" "\<forall>x \<in> set val. \<not> skipped_char char_sgn x" "length val < 64"
    for key val s
    using fgets_lines_config_line [of key val char_sgn ?n s] key_chars(1) [OF that(1), of char_sgn]
      key_chars(5) [OF that(1)] that(2,3) by auto
  have int: "length (dec_int i) < 64" if "int32_ok i" for i
    using length_dec_int32 [of i] that by (simp add: int32_ok_def)
  have nat: "length (dec_nat (unat (w :: u64))) < 64" for w using length_dec_u64 [of w] by simp
  have last: "fgets_lines ?n [] = []" by (simp add: fgets_lines.simps)
  show ?thesis
    using assms line [of "''vnpu_priority''" "dec_int (vc_vnpu_priority c)" "[]"] unfolding config_content_def config_printable_def
    by (simp add: line int nat dec_chars last)
qed

lemma load_printed:
  assumes "config_printable char_sgn c"
  shows "fold (load_line char_sgn) (fgets_lines 255 (config_content c)) (reset_config, False) = (rt_of c, False)"
proof -
  have read: "load_line char_sgn (config_line key val) (c', False) = (snd (save2config key val c'), False)"
    if k: "key \<in> {''physical-npu-id'', ''virtual-npu-id'', ''aicore-quota'', ''memory-request'', ''memory-limit'',
      ''shm-id'', ''scheduling-policy'', ''vnpu_priority''}" and v: "\<forall>x \<in> set val. \<not> skipped_char char_sgn x"
      and r: "fst (save2config key val c') = ENPU_SUCCESS"
    for key val c'
  proof -
    have "\<forall>x \<in> set key \<union> set val. \<not> skipped_char char_sgn x" using key_chars(1) [OF k] v by blast
    from load_line_config_line [OF this key_chars(2-4) [OF k], of c' False] show ?thesis
      using r by (simp add: split_beta)
  qed
  show ?thesis
    unfolding content_lines [OF assms] using assms
    by (simp add: read dec_chars config_printable_def int32_ok_def save2config_def store_with_def
        load_int32_dec load_uint64_dec load_str_def reset_config_def rt_of_def)
qed

lemma content_fits:
  assumes "config_printable char_sgn c"
  shows "generate_config_content c MAX_CONFIG_CONTENT_LEN = (ENPU_SUCCESS, Some (config_content c))"
proof -
  have int: "length (dec_int i) \<le> 11" if "int32_ok i" for i using length_dec_int32 [of i] that by (simp add: int32_ok_def)
  have "length (config_content c) < MAX_CONFIG_CONTENT_LEN"
    using assms int [of "vc_phy_npu_id c"] int [of "vc_vnpu_id c"] int [of "vc_aicore_quota c"] int [of "vc_scheduling_policy c"]
      int [of "vc_vnpu_priority c"] length_dec_u64 [of "vc_memory_request c"] length_dec_u64 [of "vc_memory_limit c"]
    by (simp add: config_content_def config_line_def config_printable_def)
  then show ?thesis by (simp add: generate_config_content_def)
qed

lemma check_rt_of:
  assumes "vc_vnpu_priority c = VNPU_PRIORITY_NORMAL \<or>
      vc_vnpu_priority c = VNPU_PRIORITY_HIGH \<and> vc_aicore_quota c = 0 \<and> vc_scheduling_policy c = 3"
    "vc_memory_request c \<noteq> 0" "vc_memory_limit c \<noteq> 0" "check_shm_id (vc_shm_id c) = ENPU_SUCCESS" "config_printable char_sgn c"
  shows "check_config (rt_of c) = (True, rt_of c)"
  using assms
  by (auto simp: check_config_def rt_of_def check_memory_def check_int32_def config_printable_def int32_ok_def Let_def)


section \<open>Properties\<close>

text \<open>C21: The file the manager writes for a container is what the runtime reads: when the write succeeds,
  loading the file under the container's path succeeds and yields the values of the allocation, for
  signed and unsigned \<^verbatim>\<open>char\<close> and whatever the loader's previous configuration was. The hypotheses on the
  values are those of an allocation: a valid priority with its quota and policy, nonzero memory sizes,
  a name without path separators.\<close>
theorem config_file_roundtrip:
  assumes "config_manager_write_config env base fs pod cont c = Some (ENPU_SUCCESS, fs')"
    and "config_printable char_sgn c"
    and "vc_vnpu_priority c = VNPU_PRIORITY_NORMAL \<or>
      vc_vnpu_priority c = VNPU_PRIORITY_HIGH \<and> vc_aicore_quota c = 0 \<and> vc_scheduling_policy c = 3"
    and "vc_memory_request c \<noteq> 0" "vc_memory_limit c \<noteq> 0" "check_shm_id (vc_shm_id c) = ENPU_SUCCESS"
    and "config_manager_get_config_path base pod cont MAX_DIR_PATH_LEN = Some path"
  shows "load_config char_sgn (fs' path) old = (ENPU_SUCCESS, rt_of c)"
proof -
  have path: "path = base @ pod @ ''/'' @ cont @ ''/npu_info.config''"
    using assms(7) by (simp add: config_manager_get_config_path_def format_into_def split: if_splits)
  have "fs' path = Some (config_content c)"
    using assms(1) unfolding config_manager_write_config_def content_fits [OF assms(2)] path
    by (auto simp: format_into_def write_file_content_def split: if_splits option.splits bind_splits)
  then show ?thesis
    using load_printed [OF assms(2)] check_rt_of [OF assms(3-6,2)] by (simp add: load_config_def)
qed

definition demo_config_values :: vnpu_config where
  "demo_config_values = \<lparr>vc_phy_npu_id = 0, vc_vnpu_id = 3, vc_aicore_quota = 25, vc_memory_request = 4096,
     vc_memory_limit = 8192, vc_scheduling_policy = 2, vc_vnpu_priority = 0, vc_shm_id = ''14422CC3-BB100000''\<rparr>"

definition demo_file_env :: file_env where
  "demo_file_env = \<lparr>fe_mkdir = (\<lambda>_. True), fe_open = (\<lambda>_. True), fe_short_write = (\<lambda>_. None), fe_unlink = (\<lambda>_. True)\<rparr>"

theorem config_file_roundtrip_witness:
  "\<exists>fs'. config_manager_write_config demo_file_env ''/etc/enpu/'' Map.empty ''pod-0'' ''c'' demo_config_values
      = Some (ENPU_SUCCESS, fs')
    \<and> load_config True (fs' ''/etc/enpu/pod-0/c/npu_info.config'') reset_config = (ENPU_SUCCESS, rt_of demo_config_values)"
proof -
  let ?c = demo_config_values
  have p: "config_printable True ?c"
    by (simp add: config_printable_def demo_config_values_def int32_ok_def skipped_char_def)
  obtain fs' where w: "config_manager_write_config demo_file_env ''/etc/enpu/'' Map.empty ''pod-0'' ''c'' ?c
      = Some (ENPU_SUCCESS, fs')"
    unfolding config_manager_write_config_def content_fits [OF p]
    by (simp add: format_into_def create_dir_recursive_def demo_file_env_def write_file_content_def list_all_iff)
  have "load_config True (fs' ''/etc/enpu/pod-0/c/npu_info.config'') reset_config = (ENPU_SUCCESS, rt_of ?c)"
    by (rule config_file_roundtrip [OF w p])
       (simp_all add: demo_config_values_def check_shm_id_def config_manager_get_config_path_def format_into_def)
  with w show ?thesis by blast
qed

text \<open>Deleting a configuration never reports success: the function returns the length of the
  container's parent path, which is positive, also when the file could not be removed. The rollback of
  an allocation counts that result as a failed step.\<close>
lemma delete_config_never_success:
  assumes "base \<noteq> []"
  shows "fst (config_manager_delete_config env base fs pod cont) \<noteq> ENPU_SUCCESS
    \<and> (\<forall>path. config_manager_get_config_path base pod cont MAX_DIR_PATH_LEN = Some path \<longrightarrow>
      config_manager_delete_config env base fs pod cont =
        (int (length base + length pod), if fe_unlink env path then fs(path := None) else fs))"
proof -
  have "int (length base) + int (length pod) \<noteq> 0" using assms by (cases base) simp_all
  then show ?thesis
    by (auto simp: config_manager_delete_config_def config_manager_get_config_path_def format_into_def Let_def)
qed

theorem delete_config_never_success_witness:
  "fst (config_manager_delete_config demo_file_env ''/etc/'' Map.empty ''p'' ''c'') \<noteq> ENPU_SUCCESS
   \<and> config_manager_delete_config demo_file_env ''/etc/'' Map.empty ''p'' ''c'' = (6, Map.empty)"
  using delete_config_never_success [of "''/etc/''" demo_file_env Map.empty "''p''" "''c''"]
  by (simp add: config_manager_get_config_path_def format_into_def demo_file_env_def)

text \<open>The loader of memory sizes accepts a minus sign: \<^verbatim>\<open>strtoull\<close> negates modulo 2 to the 64, so every
  magnitude from 2 on is stored as a size near the top of the range. Only -1 is rejected, as the
  reserved maximum.\<close>
theorem load_uint64_negative:
  assumes "0 < n" "n < 2 ^ 64"
  shows "load_uint64 (''-'' @ dec_nat n) = (if n = 1 then None else Some (- of_nat n))"
proof -
  have "- of_nat n = (0xFFFFFFFFFFFFFFFF :: u64) \<longleftrightarrow> of_nat n = (1 :: u64)"
  proof -
    have "(0xFFFFFFFFFFFFFFFF :: u64) = - 1" by simp
    then show ?thesis by (simp only: neg_equal_iff_equal)
  qed
  also have "\<dots> \<longleftrightarrow> n = 1"
  proof
    assume "of_nat n = (1 :: u64)"
    then have "unat (of_nat n :: u64) = 1" by simp
    then show "n = 1" using assms by (simp add: unsigned_of_nat take_bit_nat_eq_self)
  qed simp
  finally show ?thesis
    using assms by (auto simp: load_uint64_def strtoull_def scan_minus_dec_nat dec_nat_nonempty)
qed

theorem load_uint64_negative_witness:
  "load_uint64 ''-2'' = Some 0xFFFFFFFFFFFFFFFE"
proof -
  have "dec_nat 2 = ''2''" by code_simp
  then show ?thesis using load_uint64_negative [of 2] by simp
qed

end
