(* ===== verification/Rollback_Log.thy ===== *)
theory Rollback_Log
  imports Swap_Buffer Allocation_Registry Evaluator_Share Npu_Config
begin

text \<open>
  The state of the allocator (\<^verbatim>\<open>core/internal/npu_allocator_internal.h\<close>) and the rollback log that
  undoes a half-finished allocation (\<^verbatim>\<open>core/src/rollback_log.c\<close>). The allocator owns the device tree,
  the shared-memory manager, the registry and the configuration directory; the swap buffer pool is a
  process-wide object that its operations also change. The log is the list of its first
  \<^verbatim>\<open>step_count\<close> steps. Every step undoes one effect of \<^verbatim>\<open>npu_allocator_allocate\<close>.
\<close>

section \<open>The allocator\<close>

type_synonym evaluate_fn = "npu_tree \<Rightarrow> eval_request \<Rightarrow> eval_response \<Rightarrow> (int \<times> eval_response) option"

datatype rollback_step_type = STEP_MARK_OCCUPIED | STEP_UPDATE_QUOTA | STEP_ATTACH_POLICY
  | STEP_CREATE_SHM | STEP_WRITE_CONFIG | STEP_SAVE_CHECKPOINT

record rollback_step =
  rb_type :: rollback_step_type
  rb_phy_id :: int
  rb_vnpu_id :: int
  rb_aicore_delta :: int
  rb_hbm_delta :: int
  rb_sched_policy :: int
  rb_pod_uid :: string
  rb_container_name :: string
  rb_shm_id :: string

abbreviation (input) MAX_STEPS :: nat where "MAX_STEPS \<equiv> 16"

record 'st npu_allocator =
  ac_tree :: npu_tree
  ac_config_base :: string
  ac_files :: files
  ac_shm_mgr :: shm_manager
  ac_pool :: tlsf_manager
  ac_registry :: "'st registry"
  ac_eval_registry :: "evaluate_fn evaluator_registry"
  ac_evaluators :: "(string \<times> evaluate_fn) list"
  ac_log :: "rollback_step list"
  ac_share_strategy :: string
  ac_evaluator_name :: string
  ac_oversub_ratio :: "nat \<Rightarrow> double"

section \<open>Appending\<close>

text \<open>A NULL string is \<^term>\<open>None\<close>. \<^verbatim>\<open>strncpy_s\<close> with a count of the buffer size less one always
  succeeds and truncates.\<close>

definition step_string :: "nat \<Rightarrow> string option \<Rightarrow> string" where
  "step_string len s = (case s of None \<Rightarrow> [] | Some x \<Rightarrow> copy_str len x)"

definition rollback_log_append ::
    "rollback_step list \<Rightarrow> rollback_step_type \<Rightarrow> int \<Rightarrow> int \<Rightarrow> int \<Rightarrow> int \<Rightarrow> int \<Rightarrow>
     string option \<Rightarrow> string option \<Rightarrow> string option \<Rightarrow> int \<times> rollback_step list" where
  "rollback_log_append steps ty phy_id vnpu_id aicore_delta hbm_delta sched_policy pod_uid container_name shm_id =
     (if length steps \<ge> MAX_STEPS then (ENPU_FAIL, steps)
      else (ENPU_SUCCESS, steps @ [\<lparr>rb_type = ty, rb_phy_id = phy_id, rb_vnpu_id = vnpu_id,
              rb_aicore_delta = aicore_delta, rb_hbm_delta = hbm_delta, rb_sched_policy = sched_policy,
              rb_pod_uid = step_string MAX_UUID_LEN pod_uid,
              rb_container_name = step_string MAX_NAME_LEN container_name,
              rb_shm_id = step_string SHM_ID_LEN shm_id\<rparr>]))"

section \<open>Undoing one step\<close>

text \<open>Negation of an \<^verbatim>\<open>int32_t\<close> and of an \<^verbatim>\<open>int64_t\<close>, undefined on the minimum.\<close>

definition neg_i32 :: "int \<Rightarrow> int option" where
  "neg_i32 x = (if x = - (2 ^ 31) then None else Some (- x))"

definition neg_i64 :: "int \<Rightarrow> int option" where
  "neg_i64 x = (if x = - (2 ^ 63) then None else Some (- x))"

definition rollback_mark_occupied :: "'st npu_allocator \<Rightarrow> rollback_step \<Rightarrow> nat option \<Rightarrow> (int \<times> 'st npu_allocator) option" where
  "rollback_mark_occupied a step node =
     (if node = None then Some (ENPU_NOT_FOUND, a)
      else do {
        (ret, t) \<leftarrow> npu_tree_mark_vnpu_free (ac_tree a) node (rb_vnpu_id step);
        Some (ret, a\<lparr>ac_tree := t\<rparr>)
      })"

definition rollback_update_quota :: "'st npu_allocator \<Rightarrow> rollback_step \<Rightarrow> nat option \<Rightarrow> (int \<times> 'st npu_allocator) option" where
  "rollback_update_quota a step node =
     (if node = None then Some (ENPU_NOT_FOUND, a)
      else do {
        aicore \<leftarrow> neg_i32 (rb_aicore_delta step);
        hbm \<leftarrow> neg_i64 (rb_hbm_delta step);
        (ret, t) \<leftarrow> npu_tree_update_quota (ac_tree a) node aicore hbm;
        Some (ret, a\<lparr>ac_tree := t\<rparr>)
      })"

definition rollback_attach_policy :: "'st npu_allocator \<Rightarrow> rollback_step \<Rightarrow> nat option \<Rightarrow> (int \<times> 'st npu_allocator) option" where
  "rollback_attach_policy a step node =
     (if node = None then Some (ENPU_NOT_FOUND, a)
      else do {
        (ret, t) \<leftarrow> npu_tree_detach_policy (ac_tree a) node (rb_vnpu_id step);
        Some (ret, a\<lparr>ac_tree := t\<rparr>)
      })"

definition rollback_create_shm :: "'st npu_allocator \<Rightarrow> rollback_step \<Rightarrow> int \<times> 'st npu_allocator" where
  "rollback_create_shm a step =
     (if rb_shm_id step = [] then (ENPU_INVALID_PARAM, a)
      else case shm_manager_remove_entry (ac_shm_mgr a) (rb_phy_id step) (rb_vnpu_id step) of
        (ret, mgr) \<Rightarrow> (ret, a\<lparr>ac_shm_mgr := mgr\<rparr>))"

definition rollback_write_config :: "file_env \<Rightarrow> 'st npu_allocator \<Rightarrow> rollback_step \<Rightarrow> int \<times> 'st npu_allocator" where
  "rollback_write_config env a step =
     (if rb_pod_uid step = [] \<or> rb_container_name step = [] then (ENPU_INVALID_PARAM, a)
      else case config_manager_delete_config env (ac_config_base a) (ac_files a) (rb_pod_uid step) (rb_container_name step) of
        (ret, fs) \<Rightarrow> (ret, a\<lparr>ac_files := fs\<rparr>))"

definition rollback_save_checkpoint :: "'st npu_allocator \<Rightarrow> rollback_step \<Rightarrow> int \<times> 'st npu_allocator" where
  "rollback_save_checkpoint a step =
     (if rb_pod_uid step = [] \<or> rb_container_name step = [] then (ENPU_INVALID_PARAM, a)
      else case allocation_registry_release (ac_registry a) (rb_pod_uid step) (rb_container_name step) of
        (ret, r) \<Rightarrow> (ret, a\<lparr>ac_registry := r\<rparr>))"

section \<open>Rolling back\<close>

definition rollback_one :: "file_env \<Rightarrow> 'st npu_allocator \<Rightarrow> rollback_step \<Rightarrow> (int \<times> 'st npu_allocator) option" where
  "rollback_one env a step =
     do {
       node \<leftarrow> npu_tree_get_leaf (ac_tree a) (rb_phy_id step);
       case rb_type step of
         STEP_MARK_OCCUPIED \<Rightarrow> rollback_mark_occupied a step node
       | STEP_UPDATE_QUOTA \<Rightarrow> rollback_update_quota a step node
       | STEP_ATTACH_POLICY \<Rightarrow> rollback_attach_policy a step node
       | STEP_CREATE_SHM \<Rightarrow> Some (rollback_create_shm a step)
       | STEP_WRITE_CONFIG \<Rightarrow> Some (rollback_write_config env a step)
       | STEP_SAVE_CHECKPOINT \<Rightarrow> Some (rollback_save_checkpoint a step)
     }"

fun rollback_steps :: "file_env \<Rightarrow> rollback_step list \<Rightarrow> nat \<times> 'st npu_allocator \<Rightarrow> (nat \<times> 'st npu_allocator) option" where
  "rollback_steps env [] c = Some c"
| "rollback_steps env (step # steps) (failed, a) =
     do {
       (ret, a') \<leftarrow> rollback_one env a step;
       rollback_steps env steps (if ret \<noteq> ENPU_SUCCESS then Suc failed else failed, a')
     }"

definition rollback_log_rollback :: "file_env \<Rightarrow> 'st npu_allocator \<Rightarrow> (int \<times> 'st npu_allocator) option" where
  "rollback_log_rollback env a =
     do {
       (failed, a') \<leftarrow> rollback_steps env (rev (ac_log a)) (0, a);
       Some (if failed > 0 then ENPU_FAIL else ENPU_SUCCESS, a'\<lparr>ac_log := []\<rparr>)
     }"

end
