(* ===== verification/Npu_Allocator.thy ===== *)
theory Npu_Allocator
  imports Rollback_Log Swap_Resolver
begin

text \<open>
  The allocator of the manager (\<^verbatim>\<open>core/src/npu_allocator.c\<close>): it checks a request, asks the evaluator
  for a device, and then performs the allocation step by step (device tree, shared memory,
  configuration file, registry), undoing the finished steps with the rollback log when one fails. The
  text of \<^verbatim>\<open>error_msg\<close> is represented by the message and the data printed into it. Memory allocation, the
  system calls and the clocks are the fields of \<open>alloc_env\<close>.
\<close>

section \<open>Requests and responses\<close>

record alloc_request =
  aq_pod_uid :: string
  aq_container_name :: string
  aq_aicore_quota :: int
  aq_hbm_quota :: u64
  aq_hbm_limit :: u64
  aq_sched_policy :: int
  aq_swap_priority :: int
  aq_vnpu_priority :: int
  aq_predicate_phy_id :: int

datatype alloc_error = No_message | Priority_invalid int | Aicore_not_positive int | Aicore_over_die int
  | Fixed_share_needs_request u64 | Fixed_share_no_oversub u64 u64 | Request_over_limit u64 u64 int | Policy_invalid int
  | Card_not_found int | Vnpu_exists string string int int | No_evaluator int | No_nodes_buffer
  | Evaluation_failed eval_error | Card_insufficient int | Evaluator_failed string | No_node_selected | Vnpu_id_invalid int
  | Mark_failed int int int | Quota_failed int int int u64 int | Policy_failed int int int int
  | Shm_failed int string int int | Config_failed string string int | Register_failed string string int int int

record alloc_response =
  rp_phy_id :: int
  rp_vnpu_id :: int
  rp_pod_uid :: string
  rp_container_name :: string
  rp_die_id :: string
  rp_shm_id :: string
  rp_aicore_quota :: int
  rp_hbm_quota :: u64
  rp_hbm_limit :: u64
  rp_sched_policy :: int
  rp_vnpu_priority :: int
  rp_minor_name :: string
  rp_result :: int
  rp_error_msg :: alloc_error

record alloc_env =
  ae_nodes :: bool
  ae_policy :: bool
  ae_registry :: bool
  ae_shm :: bool
  ae_sched :: sched_env
  ae_file :: file_env
  ae_time_s :: u64
  ae_now_ns :: u64

definition reject :: "alloc_response \<Rightarrow> int \<Rightarrow> alloc_error \<Rightarrow> alloc_response" where
  "reject resp ret msg = resp\<lparr>rp_error_msg := msg, rp_result := ret\<rparr>"

section \<open>Checking a request\<close>

definition vnpu_id_is_valid :: "int \<Rightarrow> bool" where
  "vnpu_id_is_valid vnpu_id \<longleftrightarrow>
     vnpu_id \<ge> 0 \<and> vnpu_id < 64 \<and> vnpu_id < int MAX_VNPU_SCHED \<and> vnpu_id < int MAX_VNPU_PER_DIE"

text \<open>The code, the request and limit it stores, and the message.\<close>

definition parse_hbm_request_limit :: "alloc_request \<Rightarrow> int \<times> u64 \<times> u64 \<times> alloc_error" where
  "parse_hbm_request_limit req =
     (let user_req = aq_hbm_quota req; user_lim = aq_hbm_limit req; pol = aq_sched_policy req in
      if pol = SCHED_POLICY_FIXED_SHARE
      then (if user_req = 0 then (ENPU_INVALID_PARAM, 0, 0, Fixed_share_needs_request user_req)
            else if user_req \<noteq> user_lim then (ENPU_INVALID_PARAM, 0, 0, Fixed_share_no_oversub user_req user_lim)
            else (ENPU_SUCCESS, user_req, user_lim, No_message))
      else if pol = SCHED_POLICY_ELASTIC \<or> pol = SCHED_POLICY_BEST_EFFORT
      then (if user_req > user_lim then (ENPU_INVALID_PARAM, 0, 0, Request_over_limit user_req user_lim pol)
            else (ENPU_SUCCESS, user_req, user_lim, No_message))
      else (ENPU_INVALID_PARAM, 0, 0, Policy_invalid pol))"

text \<open>The checks before the lock is taken, on a tree of \<open>leaf_count\<close> devices.\<close>

definition check_request :: "int \<Rightarrow> alloc_request \<Rightarrow> alloc_response \<Rightarrow> int \<times> alloc_request \<times> alloc_response \<times> u64 \<times> u64" where
  "check_request leaf_count req resp =
     (if aq_vnpu_priority req \<noteq> VNPU_PRIORITY_NORMAL \<and> aq_vnpu_priority req \<noteq> VNPU_PRIORITY_HIGH
      then (ENPU_INVALID_PARAM, req, reject resp ENPU_INVALID_PARAM (Priority_invalid (aq_vnpu_priority req)), 0, 0)
      else if aq_vnpu_priority req \<noteq> VNPU_PRIORITY_HIGH \<and> aq_aicore_quota req \<le> 0
      then (ENPU_INVALID_PARAM, req, reject resp ENPU_INVALID_PARAM (Aicore_not_positive (aq_aicore_quota req)), 0, 0)
      else let req1 = (if aq_vnpu_priority req = VNPU_PRIORITY_HIGH
                       then req\<lparr>aq_aicore_quota := 0, aq_sched_policy := SCHED_POLICY_BEST_EFFORT\<rparr> else req) in
        if aq_aicore_quota req1 > HUNDRED_CORE
        then (ENPU_INVALID_PARAM, req1, reject resp ENPU_INVALID_PARAM (Aicore_over_die (aq_aicore_quota req1)), 0, 0)
        else case parse_hbm_request_limit req1 of (ret, hbm_request, hbm_limit, msg) \<Rightarrow>
          if ret \<noteq> ENPU_SUCCESS then (ret, req1, reject resp ret msg, 0, 0)
          else let resp1 = resp\<lparr>rp_error_msg := msg\<rparr> in
            if aq_predicate_phy_id req1 \<ge> 0 \<and> aq_predicate_phy_id req1 \<ge> leaf_count
            then (ENPU_NOT_FOUND, req1, reject resp1 ENPU_NOT_FOUND (Card_not_found (aq_predicate_phy_id req1)), 0, 0)
            else (ENPU_SUCCESS, req1, resp1, hbm_request, hbm_limit))"

section \<open>The evaluator\<close>

definition pick_evaluator :: "'st npu_allocator \<Rightarrow> (string \<times> evaluate_fn) option" where
  "pick_evaluator a =
     (let target = (if ac_evaluator_name a \<noteq> [] then ac_evaluator_name a else ''share'')
      in List.find (\<lambda>e. fst e = target) (ac_evaluators a))"

text \<open>The memory limits given out on a die, added up over the vNPUs of its bitmap.\<close>

definition allocated_limits :: "shm_manager \<Rightarrow> nat \<Rightarrow> u64" where
  "allocated_limits mgr phy_id =
     (case shm_manager_get_state mgr (int phy_id) of None \<Rightarrow> 0
      | Some st \<Rightarrow> sum_list (map (\<lambda>v. ve_hbm_limit (ss_entries st v)) (bitmap_ids (ss_vnpu_bitmap st))))"

definition build_eval_request :: "'st npu_allocator \<Rightarrow> alloc_request \<Rightarrow> u64 \<Rightarrow> u64 \<Rightarrow> eval_request" where
  "build_eval_request a req hbm_request hbm_limit =
     \<lparr>rq_aicore_quota = (if aq_aicore_quota req > HUNDRED_CORE then HUNDRED_CORE else aq_aicore_quota req),
      rq_hbm_quota = hbm_request, rq_hbm_limit = hbm_limit,
      rq_vnpu_count = (if aq_aicore_quota req > HUNDRED_CORE then aq_aicore_quota req div HUNDRED_CORE else 1),
      rq_sched_policy = aq_sched_policy req, rq_vnpu_priority = aq_vnpu_priority req,
      rq_predicate_phy_id = aq_predicate_phy_id req,
      rq_oversub_ratio_per_die = ac_oversub_ratio a,
      rq_allocated_hbm_limit_per_die = allocated_limits (ac_shm_mgr a)\<rparr>"

section \<open>The shared memory of a vNPU\<close>

definition build_shm_entry :: "int \<Rightarrow> u64 \<Rightarrow> u64 \<Rightarrow> int \<Rightarrow> int \<Rightarrow> bool \<Rightarrow> vnpu_shm_entry" where
  "build_shm_entry vnpu_id hbm_request hbm_limit sched_policy swap_priority swap_enabled =
     entry_init\<lparr>ve_vnpu_id := vnpu_id, ve_hbm_request := hbm_request, ve_hbm_limit := hbm_limit,
       ve_sched_policy := sched_policy, ve_swap_priority := swap_priority, ve_swap_enabled := swap_enabled\<rparr>"

text \<open>A change of the scheduling structure of a die at the index of a vNPU; its arrays have
  \<^verbatim>\<open>MAX_VNPU_SCHED\<close> entries.\<close>

definition upd_sched_at :: "shm_manager \<Rightarrow> int \<Rightarrow> int \<Rightarrow> (vnpu_time_slice_sched \<Rightarrow> vnpu_time_slice_sched) \<Rightarrow> shm_manager option" where
  "upd_sched_at mgr phy_id vnpu_id f =
     (case shm_manager_get_sched_struct mgr phy_id of None \<Rightarrow> Some mgr
      | Some sched \<Rightarrow>
        if vnpu_id < 0 \<or> vnpu_id \<ge> int MAX_VNPU_SCHED then None
        else Some (put_sched mgr phy_id (f sched)))"

definition set_alive_time_now :: "u64 \<Rightarrow> shm_manager \<Rightarrow> int \<Rightarrow> int \<Rightarrow> shm_manager option" where
  "set_alive_time_now now_ns mgr phy_id vnpu_id =
     upd_sched_at mgr phy_id vnpu_id
       (\<lambda>s. s\<lparr>ts_last_alive_time_ns := (ts_last_alive_time_ns s)(nat vnpu_id := now_ns)\<rparr>)"

definition set_vnpu_priority :: "shm_manager \<Rightarrow> int \<Rightarrow> int \<Rightarrow> int \<Rightarrow> shm_manager option" where
  "set_vnpu_priority mgr phy_id vnpu_id prio =
     upd_sched_at mgr phy_id vnpu_id
       (\<lambda>s. s\<lparr>ts_vnpu_priority := (ts_vnpu_priority s)(nat vnpu_id := word_of_int prio)\<rparr>)"

text \<open>Dropping an entry that the bitmap still has, with the swap buffers of its processes.\<close>

definition drop_stale_entry :: "tlsf_manager \<Rightarrow> shm_manager \<Rightarrow> int \<Rightarrow> int \<Rightarrow> tlsf_manager \<times> shm_manager" where
  "drop_stale_entry pool mgr phy_id vnpu_id =
     (case shm_manager_get_state mgr phy_id of None \<Rightarrow> (pool, mgr)
      | Some st \<Rightarrow>
        if vnpu_bitmap_test (ss_vnpu_bitmap st) vnpu_id
        then (case shm_free pool st vnpu_id of (_, pool', st') \<Rightarrow>
                (pool', snd (shm_manager_remove_entry (put_state mgr phy_id st') phy_id vnpu_id)))
        else (pool, mgr))"

definition shm_apply_vnpu_locked ::
    "alloc_env \<Rightarrow> 'st npu_allocator \<Rightarrow> int \<Rightarrow> string \<Rightarrow> u64 \<Rightarrow> vnpu_shm_entry \<Rightarrow> int \<Rightarrow> nat option \<Rightarrow>
     (int \<times> 'st npu_allocator \<times> string option) option" where
  "shm_apply_vnpu_locked env a phy_id die_id hbm_total entry vnpu_priority out_len =
     (case shm_manager_get_or_create_shm (ae_shm env) (ae_sched env) (ac_shm_mgr a) phy_id die_id
             (case out_len of Some l \<Rightarrow> if l > 0 then Some l else Some SHM_ID_LEN | None \<Rightarrow> Some SHM_ID_LEN) of
        (ret, mgr1, name) \<Rightarrow>
          if ret \<noteq> ENPU_SUCCESS then Some (ret, a\<lparr>ac_shm_mgr := mgr1\<rparr>, name)
          else let mgr2 = snd (shm_manager_init_state mgr1 phy_id hbm_total);
                   (pool3, mgr3) = drop_stale_entry (ac_pool a) mgr2 phy_id (ve_vnpu_id entry)
               in case shm_manager_add_entry mgr3 phy_id entry of (ret, mgr4) \<Rightarrow>
                    if ret \<noteq> ENPU_SUCCESS then Some (ret, a\<lparr>ac_shm_mgr := mgr4, ac_pool := pool3\<rparr>, name)
                    else do {
                      mgr5 \<leftarrow> set_vnpu_priority mgr4 phy_id (ve_vnpu_id entry) vnpu_priority;
                      mgr6 \<leftarrow> set_alive_time_now (ae_now_ns env) mgr5 phy_id (ve_vnpu_id entry);
                      Some (ENPU_SUCCESS, a\<lparr>ac_shm_mgr := mgr6, ac_pool := pool3\<rparr>, name)
                    })"

definition shm_release_vnpu_locked :: "'st npu_allocator \<Rightarrow> int \<Rightarrow> int \<Rightarrow> (int \<times> 'st npu_allocator) option" where
  "shm_release_vnpu_locked a phy_id vnpu_id =
     (if phy_id < 0 \<or> phy_id \<ge> int MAX_NPU_PER_NODE then Some (ENPU_INVALID_PARAM, a)
      else if vnpu_id < 0 \<or> vnpu_id \<ge> int MAX_VNPU_PER_DIE then Some (ENPU_INVALID_PARAM, a)
      else case shm_manager_get_state (ac_shm_mgr a) phy_id of
        None \<Rightarrow> Some (ENPU_SUCCESS, a)
      | Some st \<Rightarrow>
        if \<not> vnpu_bitmap_test (ss_vnpu_bitmap st) vnpu_id then Some (ENPU_SUCCESS, a)
        else case shm_free (ac_pool a) st vnpu_id of (_, pool', st') \<Rightarrow>
          (case shm_manager_remove_entry (put_state (ac_shm_mgr a) phy_id st') phy_id vnpu_id of (ret, mgr1) \<Rightarrow>
             if ret \<noteq> ENPU_SUCCESS then Some (ret, a\<lparr>ac_shm_mgr := mgr1, ac_pool := pool'\<rparr>)
             else do {
               mgr2 \<leftarrow> upd_sched_at mgr1 phy_id vnpu_id (\<lambda>s. s\<lparr>
                 ts_last_alive_time_ns := (ts_last_alive_time_ns s)(nat vnpu_id := 0),
                 ts_last_kernel_time_ns := (ts_last_kernel_time_ns s)(nat vnpu_id := 0),
                 ts_vnpu_priority := (ts_vnpu_priority s)(nat vnpu_id := word_of_int VNPU_PRIORITY_NORMAL)\<rparr>);
               Some (ENPU_SUCCESS, a\<lparr>ac_shm_mgr := mgr2, ac_pool := pool'\<rparr>)
             }))"


section \<open>Allocating\<close>

definition log_step :: "'st npu_allocator \<Rightarrow> rollback_step_type \<Rightarrow> int \<Rightarrow> int \<Rightarrow> int \<Rightarrow> int \<Rightarrow> int \<Rightarrow>
    string \<Rightarrow> string \<Rightarrow> string \<Rightarrow> 'st npu_allocator" where
  "log_step a ty phy_id vnpu_id aicore_delta hbm_delta sched_policy pod_uid container_name shm_id =
     a\<lparr>ac_log := snd (rollback_log_append (ac_log a) ty phy_id vnpu_id aicore_delta hbm_delta sched_policy
          (Some pod_uid) (Some container_name) (Some shm_id))\<rparr>"

type_synonym 'st alloc_result = "(int \<times> 'st npu_allocator \<times> alloc_request \<times> alloc_response) option"

definition fail_allocate :: "alloc_env \<Rightarrow> 'st npu_allocator \<Rightarrow> alloc_request \<Rightarrow> alloc_response \<Rightarrow> int \<Rightarrow> alloc_error \<Rightarrow> 'st alloc_result" where
  "fail_allocate env a req resp ret msg =
     do { (_, a') \<leftarrow> rollback_log_rollback (ae_file env) a; Some (ret, a', req, reject resp ret msg) }"

definition response_zero :: alloc_response where
  "response_zero = \<lparr>rp_phy_id = 0, rp_vnpu_id = 0, rp_pod_uid = [], rp_container_name = [], rp_die_id = [], rp_shm_id = [],
     rp_aicore_quota = 0, rp_hbm_quota = 0, rp_hbm_limit = 0, rp_sched_policy = 0, rp_vnpu_priority = 0,
     rp_minor_name = [], rp_result = 0, rp_error_msg = No_message\<rparr>"

definition npu_node_get_uuid :: "npu_node \<Rightarrow> string" where
  "npu_node_get_uuid n = nm_uuid (nd_meta n)"

definition config_of :: "allocation \<Rightarrow> string \<Rightarrow> vnpu_config" where
  "config_of e shm_id = \<lparr>vc_phy_npu_id = al_phy_id e, vc_vnpu_id = al_vnpu_id e, vc_aicore_quota = al_aicore_quota e,
     vc_memory_request = al_hbm_quota e, vc_memory_limit = al_hbm_limit e, vc_scheduling_policy = al_sched_policy e,
     vc_vnpu_priority = al_vnpu_priority e, vc_shm_id = copy_str SHM_ID_LEN shm_id\<rparr>"

definition success_response :: "alloc_response \<Rightarrow> allocation \<Rightarrow> npu_node \<Rightarrow> alloc_response" where
  "success_response resp e n = resp\<lparr>rp_phy_id := al_phy_id e, rp_vnpu_id := al_vnpu_id e,
     rp_pod_uid := copy_str MAX_UUID_LEN (al_pod_uid e), rp_container_name := copy_str MAX_NAME_LEN (al_container_name e),
     rp_die_id := copy_str DIE_ID_LEN (al_die_id e), rp_aicore_quota := al_aicore_quota e, rp_hbm_quota := al_hbm_quota e,
     rp_hbm_limit := al_hbm_limit e, rp_sched_policy := al_sched_policy e, rp_vnpu_priority := al_vnpu_priority e,
     rp_shm_id := copy_str SHM_ID_LEN (al_shm_id e), rp_minor_name := copy_str MAX_NAME_LEN (npu_node_get_uuid n),
     rp_result := ENPU_SUCCESS\<rparr>"

text \<open>The end of the transaction: the registration.\<close>

definition commit_register :: "alloc_env \<Rightarrow> 'st npu_allocator \<Rightarrow> npu_node \<Rightarrow> alloc_request \<Rightarrow> alloc_response \<Rightarrow> allocation \<Rightarrow> 'st alloc_result" where
  "commit_register env a n req resp e =
     (let resp1 = success_response resp e n; phy_id = al_phy_id e; v = al_vnpu_id e in
      case allocation_registry_register (ae_registry env) (ac_registry a) e of (ret, r) \<Rightarrow>
        let a1 = a\<lparr>ac_registry := r\<rparr> in
        if ret \<noteq> ENPU_SUCCESS
        then fail_allocate env a1 req resp1 ret (Register_failed (aq_pod_uid req) (aq_container_name req) phy_id v ret)
        else Some (ENPU_SUCCESS, log_step a1 STEP_SAVE_CHECKPOINT phy_id v 0 0 0 (aq_pod_uid req) (aq_container_name req) [],
                   req, resp1))"

text \<open>Writing the configuration of the registered allocation.\<close>

definition commit_config :: "alloc_env \<Rightarrow> 'st npu_allocator \<Rightarrow> npu_node \<Rightarrow> alloc_request \<Rightarrow> alloc_response \<Rightarrow> allocation \<Rightarrow> 'st alloc_result" where
  "commit_config env a n req resp alloc =
     (let phy_id = npu_node_get_phy_id (Some n); v = al_vnpu_id alloc;
          e = alloc\<lparr>al_phy_id := phy_id, al_shm_id := copy_str SHM_ID_LEN (rp_shm_id resp)\<rparr> in
      do {
        (ret, fs) \<leftarrow> config_manager_write_config (ae_file env) (ac_config_base a) (ac_files a)
            (aq_pod_uid req) (aq_container_name req) (config_of e (al_shm_id e));
        let a1 = a\<lparr>ac_files := fs\<rparr>;
        if ret \<noteq> ENPU_SUCCESS
        then fail_allocate env a1 req resp ret (Config_failed (aq_pod_uid req) (aq_container_name req) ret)
        else commit_register env
               (log_step a1 STEP_WRITE_CONFIG phy_id v 0 0 0 (aq_pod_uid req) (aq_container_name req) [])
               n req resp e
      })"

text \<open>The shared-memory step. The response is cleared before it; \<^verbatim>\<open>oversub_ratio\<close> has one entry per
  device.\<close>

definition commit_shm :: "alloc_env \<Rightarrow> 'st npu_allocator \<Rightarrow> npu_node \<Rightarrow> alloc_request \<Rightarrow> allocation \<Rightarrow> 'st alloc_result" where
  "commit_shm env a n req alloc =
     (let phy_id = npu_node_get_phy_id (Some n); v = al_vnpu_id alloc in
      if phy_id < 0 \<or> phy_id \<ge> int MAX_NPU_PER_NODE then None
      else do {
        (ret, a1, name) \<leftarrow> shm_apply_vnpu_locked env a phy_id (al_die_id alloc) (npu_node_get_total_memory (Some n))
            (build_shm_entry v (al_hbm_quota alloc) (al_hbm_limit alloc) (al_sched_policy alloc) (al_swap_priority alloc)
               (ac_oversub_ratio a (nat phy_id) > 0))
            (al_vnpu_priority alloc) (Some SHM_ID_LEN);
        let resp = response_zero\<lparr>rp_shm_id := (case name of None \<Rightarrow> [] | Some s \<Rightarrow> s)\<rparr>;
        if ret \<noteq> ENPU_SUCCESS
        then fail_allocate env a1 req resp ret (Shm_failed phy_id (al_die_id alloc) v ret)
        else commit_config env (log_step a1 STEP_CREATE_SHM phy_id v 0 0 0 [] [] (rp_shm_id resp)) n req resp alloc
      })"

text \<open>The steps on the device tree, for the node \<open>n\<close> at the address \<open>p\<close>.\<close>

definition commit_tree :: "alloc_env \<Rightarrow> 'st npu_allocator \<Rightarrow> nat \<Rightarrow> npu_node \<Rightarrow> alloc_request \<Rightarrow> alloc_response \<Rightarrow> allocation \<Rightarrow> 'st alloc_result" where
  "commit_tree env a p n req resp alloc =
     (let phy_id = npu_node_get_phy_id (Some n); v = al_vnpu_id alloc; aicore = al_aicore_quota alloc in
      do {
        (ret, t1) \<leftarrow> npu_tree_mark_vnpu_occupied (ac_tree a) (Some p) v;
        if ret \<noteq> ENPU_SUCCESS then Some (ret, a\<lparr>ac_tree := t1\<rparr>, req, reject resp ret (Mark_failed phy_id v ret))
        else do {
          let a1 = log_step (a\<lparr>ac_tree := t1\<rparr>) STEP_MARK_OCCUPIED phy_id v 0 0 0 [] [] [];
          hbm \<leftarrow> neg_i64 (sint (al_hbm_quota alloc));
          (ret, t2) \<leftarrow> npu_tree_update_quota (ac_tree a1) (Some p) (- aicore) hbm;
          if ret \<noteq> ENPU_SUCCESS
          then fail_allocate env (a1\<lparr>ac_tree := t2\<rparr>) req resp ret (Quota_failed phy_id v aicore (al_hbm_quota alloc) ret)
          else do {
            let a2 = log_step (a1\<lparr>ac_tree := t2\<rparr>) STEP_UPDATE_QUOTA phy_id v (- aicore) hbm 0 [] [] [];
            (ret, t3) \<leftarrow> npu_tree_attach_policy (ae_policy env) (ac_tree a2) (Some p) v (al_sched_policy alloc) (al_vnpu_priority alloc);
            if ret \<noteq> ENPU_SUCCESS
            then fail_allocate env (a2\<lparr>ac_tree := t3\<rparr>) req resp ret (Policy_failed phy_id v (al_sched_policy alloc) ret)
            else commit_shm env (log_step (a2\<lparr>ac_tree := t3\<rparr>) STEP_ATTACH_POLICY phy_id v 0 0 (al_sched_policy alloc) [] [] [])
                   n req alloc
          }
        }
      })"

text \<open>Default names, and the allocation before its device and shared memory are filled in.\<close>

definition default_names :: "int \<Rightarrow> int \<Rightarrow> alloc_request \<Rightarrow> alloc_request" where
  "default_names phy_id v req =
     (let req1 = (if aq_pod_uid req = [] then req\<lparr>aq_pod_uid := ''pod-'' @ dec_int phy_id\<rparr> else req)
      in if aq_container_name req1 = []
         then req1\<lparr>aq_container_name := ''container-'' @ dec_int phy_id @ ''-'' @ dec_int v\<rparr> else req1)"

definition build_allocation :: "alloc_env \<Rightarrow> npu_node \<Rightarrow> int \<Rightarrow> alloc_request \<Rightarrow> eval_request \<Rightarrow> u64 \<Rightarrow> u64 \<Rightarrow> allocation" where
  "build_allocation env n v req eval_req hbm_request hbm_limit =
     \<lparr>al_pod_uid = copy_str MAX_UUID_LEN (aq_pod_uid req), al_container_name = copy_str MAX_NAME_LEN (aq_container_name req),
      al_phy_id = 0, al_vnpu_id = v, al_die_id = copy_str DIE_ID_LEN (nm_die_id (nd_meta n)), al_shm_id = [],
      al_aicore_quota = rq_aicore_quota eval_req, al_hbm_quota = hbm_request, al_hbm_limit = hbm_limit,
      al_sched_policy = aq_sched_policy req,
      al_swap_priority = (if aq_swap_priority req \<ge> SWAP_PRIORITY_HIGH \<and> aq_swap_priority req \<le> SWAP_PRIORITY_LOW
                          then aq_swap_priority req else SWAP_PRIORITY_MEDIUM),
      al_vnpu_priority = aq_vnpu_priority req, al_create_time_ns = ae_time_s env * 1000000000, al_update_time_ns = 0,
      al_swap_offset = 0, al_swap_size = 0, al_swapped = False\<rparr>"

definition evaluation_message :: "alloc_request \<Rightarrow> string \<Rightarrow> int \<Rightarrow> eval_response \<Rightarrow> alloc_error" where
  "evaluation_message req name ret er =
     (if rs_error_msg er \<noteq> No_error then Evaluation_failed (rs_error_msg er)
      else if aq_predicate_phy_id req \<ge> 0 \<and> ret = ENPU_NO_RESOURCE then Card_insufficient (aq_predicate_phy_id req)
      else Evaluator_failed name)"

text \<open>From the choice of the evaluator to the allocation.\<close>

definition place_and_commit :: "alloc_env \<Rightarrow> 'st npu_allocator \<Rightarrow> alloc_request \<Rightarrow> alloc_response \<Rightarrow> u64 \<Rightarrow> u64 \<Rightarrow> 'st alloc_result" where
  "place_and_commit env a req resp hbm_request hbm_limit =
     (case pick_evaluator a of
        None \<Rightarrow> Some (ENPU_INVALID_PARAM, a, req, reject resp ENPU_INVALID_PARAM (No_evaluator (aq_aicore_quota req)))
      | Some (name, evaluate) \<Rightarrow>
        if \<not> ae_nodes env then Some (ENPU_FAIL, a, req, reject resp ENPU_FAIL No_nodes_buffer)
        else do {
          let eval_req = build_eval_request a req hbm_request hbm_limit;
          (ret, er) \<leftarrow> evaluate (ac_tree a) eval_req \<lparr>rs_node = None, rs_vnpu_id = 0, rs_error_msg = No_error\<rparr>;
          if ret \<noteq> ENPU_SUCCESS then Some (ret, a, req, reject resp ret (evaluation_message req name ret er))
          else case rs_node er of
            None \<Rightarrow> Some (ENPU_FAIL, a, req, reject resp ENPU_FAIL No_node_selected)
          | Some p \<Rightarrow> do {
              n \<leftarrow> nt_heap (ac_tree a) p;
              let v = rs_vnpu_id er;
              if \<not> vnpu_id_is_valid v
              then Some (ENPU_INVALID_PARAM, a, req, reject resp ENPU_INVALID_PARAM (Vnpu_id_invalid v))
              else let req1 = default_names (npu_node_get_phy_id (Some n)) v req in
                commit_tree env (a\<lparr>ac_log := []\<rparr>) p n req1 resp
                  (build_allocation env n v req1 eval_req hbm_request hbm_limit)
            }
        })"

definition exists_response :: "alloc_response \<Rightarrow> allocation \<Rightarrow> alloc_response" where
  "exists_response resp e = resp\<lparr>rp_phy_id := al_phy_id e, rp_vnpu_id := al_vnpu_id e,
     rp_pod_uid := copy_str MAX_UUID_LEN (al_pod_uid e), rp_container_name := copy_str MAX_NAME_LEN (al_container_name e),
     rp_die_id := copy_str DIE_ID_LEN (al_die_id e), rp_aicore_quota := al_aicore_quota e, rp_hbm_quota := al_hbm_quota e,
     rp_hbm_limit := al_hbm_limit e, rp_sched_policy := al_sched_policy e, rp_vnpu_priority := al_vnpu_priority e,
     rp_shm_id := copy_str SHM_ID_LEN (al_shm_id e), rp_result := ENPU_ALREADY_EXISTS,
     rp_error_msg := Vnpu_exists (al_pod_uid e) (al_container_name e) (al_phy_id e) (al_vnpu_id e)\<rparr>"

definition npu_allocator_allocate :: "alloc_env \<Rightarrow> 'st npu_allocator \<Rightarrow> alloc_request \<Rightarrow> alloc_response \<Rightarrow> 'st alloc_result" where
  "npu_allocator_allocate env a req0 resp0 =
     (case check_request (int (length (nt_leaves (ac_tree a)))) req0 resp0 of (ret, req, resp, hbm_request, hbm_limit) \<Rightarrow>
        if ret \<noteq> ENPU_SUCCESS then Some (ret, a, req, resp)
        else do {
          missing \<leftarrow> (if aq_predicate_phy_id req \<ge> 0
                      then map_option (\<lambda>node. node = None) (npu_tree_get_leaf (ac_tree a) (aq_predicate_phy_id req))
                      else Some False);
          if missing then Some (ENPU_FAIL, a, req, reject resp ENPU_FAIL (Card_not_found (aq_predicate_phy_id req)))
          else case allocation_registry_get (ac_registry a) (aq_pod_uid req) (aq_container_name req) of
            (_, Some e) \<Rightarrow> Some (ENPU_ALREADY_EXISTS, a, req, exists_response resp e)
          | (_, None) \<Rightarrow> place_and_commit env a req resp hbm_request hbm_limit
        })"


section \<open>Releasing\<close>

definition release_tree :: "npu_tree \<Rightarrow> nat \<Rightarrow> allocation \<Rightarrow> npu_tree option" where
  "release_tree t p e =
     do {
       n \<leftarrow> nt_heap t p;
       bit_mask \<leftarrow> shl64 (al_vnpu_id e);
       if npu_node_get_vnpu_mask (Some n) AND bit_mask \<noteq> 0 then Some t
       else do {
         (_, t1) \<leftarrow> npu_tree_detach_policy t (Some p) (al_vnpu_id e);
         (_, t2) \<leftarrow> npu_tree_update_quota t1 (Some p) (al_aicore_quota e) (sint (al_hbm_quota e));
         (_, t3) \<leftarrow> npu_tree_mark_vnpu_free t2 (Some p) (al_vnpu_id e);
         Some t3
       }
     }"

definition npu_allocator_release :: "file_env \<Rightarrow> 'st npu_allocator \<Rightarrow> string \<Rightarrow> string \<Rightarrow> (int \<times> 'st npu_allocator) option" where
  "npu_allocator_release env a pod_uid container_name =
     (case allocation_registry_get (ac_registry a) pod_uid container_name of
        (_, None) \<Rightarrow> Some (ENPU_NOT_FOUND, a)
      | (_, Some e) \<Rightarrow> do {
          node \<leftarrow> npu_tree_get_leaf (ac_tree a) (al_phy_id e);
          a1 \<leftarrow> (case node of None \<Rightarrow> Some a
                 | Some p \<Rightarrow> do {
                     t \<leftarrow> release_tree (ac_tree a) p e;
                     (_, a') \<leftarrow> shm_release_vnpu_locked (a\<lparr>ac_tree := t\<rparr>) (al_phy_id e) (al_vnpu_id e);
                     Some a'
                   });
          let fs = snd (config_manager_delete_config env (ac_config_base a1) (ac_files a1) pod_uid container_name);
          let r = snd (allocation_registry_release (ac_registry a1) pod_uid container_name);
          Some (ENPU_SUCCESS, a1\<lparr>ac_files := fs, ac_registry := r\<rparr>)
        })"

definition npu_allocator_release_by_vnpu :: "file_env \<Rightarrow> 'st npu_allocator \<Rightarrow> int \<Rightarrow> int \<Rightarrow> (int \<times> 'st npu_allocator) option" where
  "npu_allocator_release_by_vnpu env a phy_id vnpu_id =
     (if vnpu_id < 0 \<or> vnpu_id \<ge> int MAX_VNPU_PER_DIE then Some (ENPU_INVALID_PARAM, a)
      else case List.find (\<lambda>e. al_phy_id e = phy_id \<and> al_vnpu_id e = vnpu_id) (snd (allocation_registry_list (ac_registry a))) of
        None \<Rightarrow> Some (ENPU_NOT_FOUND, a)
      | Some e \<Rightarrow> npu_allocator_release env a (copy_str MAX_UUID_LEN (al_pod_uid e)) (copy_str MAX_NAME_LEN (al_container_name e)))"

definition npu_allocator_release_external_vnpu :: "'st npu_allocator \<Rightarrow> int \<Rightarrow> int \<Rightarrow> (int \<times> 'st npu_allocator) option" where
  "npu_allocator_release_external_vnpu a phy_id vnpu_id =
     (if phy_id < 0 \<or> phy_id \<ge> int MAX_NPU_PER_NODE then Some (ENPU_INVALID_PARAM, a)
      else if vnpu_id < 0 \<or> vnpu_id \<ge> int MAX_VNPU_PER_DIE then Some (ENPU_INVALID_PARAM, a)
      else shm_release_vnpu_locked a phy_id vnpu_id)"

section \<open>Recovering\<close>

text \<open>Charging an allocation to the tree again; the codes of the three calls are ignored.\<close>

definition recover_tree :: "bool \<Rightarrow> npu_tree \<Rightarrow> nat \<Rightarrow> allocation \<Rightarrow> npu_tree option" where
  "recover_tree mem_ok t p e =
     do {
       (_, t1) \<leftarrow> npu_tree_mark_vnpu_occupied t (Some p) (al_vnpu_id e);
       aicore \<leftarrow> neg_i32 (al_aicore_quota e);
       hbm \<leftarrow> neg_i64 (sint (al_hbm_quota e));
       (_, t2) \<leftarrow> npu_tree_update_quota t1 (Some p) aicore hbm;
       (_, t3) \<leftarrow> npu_tree_attach_policy mem_ok t2 (Some p) (al_vnpu_id e) (al_sched_policy e) (al_vnpu_priority e);
       Some t3
     }"

definition recover_entry :: "allocation \<Rightarrow> vnpu_shm_entry \<Rightarrow> vnpu_shm_entry" where
  "recover_entry e x = x\<lparr>ve_vnpu_id := al_vnpu_id e, ve_hbm_request := al_hbm_quota e, ve_hbm_limit := al_hbm_limit e,
     ve_sched_policy := al_sched_policy e, ve_swap_priority := al_swap_priority e, ve_swap_enabled := True, ve_hbm_used := 0\<rparr>"

definition recover_state :: "shm_manager \<Rightarrow> u64 \<Rightarrow> allocation \<Rightarrow> shm_manager" where
  "recover_state mgr hbm_total e =
     (case shm_manager_get_state mgr (al_phy_id e) of None \<Rightarrow> mgr
      | Some _ \<Rightarrow>
        let mgr1 = snd (shm_manager_init_state mgr (al_phy_id e) hbm_total) in
        (case shm_manager_get_state mgr1 (al_phy_id e) of None \<Rightarrow> mgr1
         | Some st \<Rightarrow> put_state mgr1 (al_phy_id e)
             ((upd_entry st (al_vnpu_id e) (recover_entry e))
                \<lparr>ss_vnpu_bitmap := vnpu_bitmap_set (ss_vnpu_bitmap st) (al_vnpu_id e)\<rparr>)))"

definition recover_one :: "alloc_env \<Rightarrow> 'st npu_allocator \<Rightarrow> allocation \<Rightarrow> 'st npu_allocator option" where
  "recover_one env a e =
     (if \<not> vnpu_id_is_valid (al_vnpu_id e) then Some a
      else do {
        node \<leftarrow> npu_tree_get_leaf (ac_tree a) (al_phy_id e);
        case node of
          None \<Rightarrow> Some a
        | Some p \<Rightarrow> do {
            n \<leftarrow> nt_heap (ac_tree a) p;
            t \<leftarrow> recover_tree (ae_policy env) (ac_tree a) p e;
            case shm_manager_get_or_create_shm (ae_shm env) (ae_sched env) (ac_shm_mgr a) (al_phy_id e) (al_die_id e) (Some SHM_ID_LEN) of
              (ret, mgr1, _) \<Rightarrow>
                if ret \<noteq> ENPU_SUCCESS then Some (a\<lparr>ac_tree := t, ac_shm_mgr := mgr1\<rparr>)
                else do {
                  mgr2 \<leftarrow> set_vnpu_priority mgr1 (al_phy_id e) (al_vnpu_id e) (al_vnpu_priority e);
                  let mgr3 = recover_state mgr2 (npu_node_get_total_memory (Some n)) e;
                  (_, fs) \<leftarrow> config_manager_write_config (ae_file env) (ac_config_base a) (ac_files a)
                      (al_pod_uid e) (al_container_name e) (config_of e (al_shm_id e));
                  Some (a\<lparr>ac_tree := t, ac_shm_mgr := mgr3, ac_files := fs\<rparr>)
                }
          }
      })"

fun recover_all :: "(nat \<Rightarrow> alloc_env) \<Rightarrow> nat \<Rightarrow> 'st npu_allocator \<Rightarrow> allocation list \<Rightarrow> 'st npu_allocator option" where
  "recover_all envs i a [] = Some a"
| "recover_all envs i a (e # es) = do { a' \<leftarrow> recover_one (envs i) a e; recover_all envs (Suc i) a' es }"

text \<open>\<open>envs i\<close> is the environment of the \<open>i\<close>-th iteration.\<close>

definition npu_allocator_recover :: "(nat \<Rightarrow> alloc_env) \<Rightarrow> 'st npu_allocator \<Rightarrow> (int \<times> 'st npu_allocator) option" where
  "npu_allocator_recover envs a =
     do { a' \<leftarrow> recover_all envs 0 a (snd (allocation_registry_list (ac_registry a))); Some (ENPU_SUCCESS, a') }"

definition npu_allocator_checkpoint :: "'st npu_allocator \<Rightarrow> int \<times> 'st npu_allocator" where
  "npu_allocator_checkpoint a =
     (case allocation_registry_save (ac_registry a) of (ret, r) \<Rightarrow> (ret, a\<lparr>ac_registry := r\<rparr>))"

section \<open>Creating and initialising\<close>

text \<open>Until \<^verbatim>\<open>npu_allocator_init\<close> has run, the configuration manager and the shared-memory manager are NULL
  and nothing but \<^verbatim>\<open>npu_allocator_init\<close> and \<^verbatim>\<open>npu_allocator_destroy\<close> is called; the record then holds the configured
  path and an empty manager. \<open>pool\<close> and \<open>fs\<close> are the swap buffer and the files of the system.\<close>

record allocator_config =
  cf_config_base_path :: string
  cf_evaluator_name :: string
  cf_share_strategy :: string

definition npu_allocator_create :: "bool \<Rightarrow> tlsf_manager \<Rightarrow> files \<Rightarrow> allocator_config \<Rightarrow> 'st npu_allocator option" where
  "npu_allocator_create mem_ok pool fs config =
     (if \<not> mem_ok then None
      else Some \<lparr>ac_tree = npu_tree_create, ac_config_base = copy_str MAX_PATH_LEN (cf_config_base_path config), ac_files = fs,
        ac_shm_mgr = shm_manager_create, ac_pool = pool, ac_registry = allocation_registry_create_with_adapter None,
        ac_eval_registry = [], ac_evaluators = [], ac_log = [],
        ac_share_strategy = copy_str MAX_NAME_LEN (cf_share_strategy config),
        ac_evaluator_name = copy_str MAX_NAME_LEN (cf_evaluator_name config), ac_oversub_ratio = (\<lambda>_. 0)\<rparr>)"

definition share_strategy_from_str :: "string \<Rightarrow> int" where
  "share_strategy_from_str s = (if take 13 s = ''anti-fragment'' then 1 else 0)"

text \<open>The environment of the initialisation: the outcome of the calls that create the parts, the device
  tree initialisation, the storage adapter, and the memory outcomes of the registry.\<close>

record 'st init_env =
  ie_eval_registry :: bool
  ie_tree :: "npu_tree \<Rightarrow> (int \<times> npu_tree) option"
  ie_file :: file_env
  ie_config :: bool
  ie_shm :: bool
  ie_storage :: "('st storage_ops \<times> 'st) option"
  ie_registry :: bool
  ie_register :: bool
  ie_load :: bool
  ie_recover :: "nat \<Rightarrow> alloc_env"

definition migrate_one :: "file_env \<Rightarrow> allocation \<Rightarrow> 'st npu_allocator \<Rightarrow> 'st npu_allocator option" where
  "migrate_one env e a =
     (if al_die_id e = [] then Some a
      else if take DIE_ID_LEN (al_shm_id e) = take DIE_ID_LEN (al_die_id e) then Some a
      else do {
        (ret, fs) \<leftarrow> config_manager_write_config env (ac_config_base a) (ac_files a)
            (al_pod_uid e) (al_container_name e) (config_of e (al_die_id e));
        if ret \<noteq> ENPU_SUCCESS then Some (a\<lparr>ac_files := fs\<rparr>)
        else Some (a\<lparr>ac_files := fs, ac_registry :=
               snd (allocation_registry_update_shm_id (ac_registry a) (al_pod_uid e) (al_container_name e) (al_die_id e))\<rparr>)
      })"

fun migrate_all :: "file_env \<Rightarrow> allocation list \<Rightarrow> 'st npu_allocator \<Rightarrow> 'st npu_allocator option" where
  "migrate_all env [] a = Some a"
| "migrate_all env (e # es) a = do { a' \<leftarrow> migrate_one env e a; migrate_all env es a' }"

abbreviation (input) MAX_EVALS :: nat where "MAX_EVALS \<equiv> 3"

definition add_share_evaluator :: "'st npu_allocator \<Rightarrow> 'st npu_allocator" where
  "add_share_evaluator a =
     (let strat = evaluator_share_set_strategy (share_strategy_from_str (ac_share_strategy a));
          reg = snd (evaluator_registry_register [] ''share'' (evaluator_share_evaluate strat)) in
      case evaluator_registry_get reg ''share'' of
        Some f \<Rightarrow> if length (ac_evaluators a) < MAX_EVALS
                  then a\<lparr>ac_eval_registry := reg, ac_evaluators := ac_evaluators a @ [(''share'', f)]\<rparr>
                  else a\<lparr>ac_eval_registry := reg\<rparr>
      | None \<Rightarrow> a\<lparr>ac_eval_registry := reg\<rparr>)"

text \<open>An allocator whose initialisation fails is destroyed by its caller; the result is then
  \<^term>\<open>None\<close> with the code.\<close>

definition npu_allocator_init :: "'st init_env \<Rightarrow> 'st npu_allocator \<Rightarrow> (int \<times> 'st npu_allocator option) option" where
  "npu_allocator_init env a =
     (if \<not> ie_eval_registry env then Some (ENPU_FAIL, None)
      else do {
        (ret, t) \<leftarrow> (if nt_initialized (ac_tree a) then Some (ENPU_SUCCESS, ac_tree a) else ie_tree env (ac_tree a));
        if ret \<noteq> ENPU_SUCCESS then Some (ret, None)
        else do {
          let a1 = add_share_evaluator (a\<lparr>ac_tree := t\<rparr>);
          base \<leftarrow> config_manager_create (ie_file env) (ie_config env) (Some (ac_config_base a1));
          case base of
            None \<Rightarrow> Some (ENPU_FAIL, None)
          | Some b \<Rightarrow>
            if \<not> ie_shm env then Some (ENPU_FAIL, None)
            else case ie_storage env of
              None \<Rightarrow> Some (ENPU_FAIL, None)
            | Some storage \<Rightarrow>
              if \<not> ie_registry env then Some (ENPU_FAIL, None)
              else do {
                let existing = snd (allocation_registry_list (ac_registry a1));
                let r1 = fold (\<lambda>e r. snd (allocation_registry_register (ie_register env) r e)) existing
                           (allocation_registry_create_with_adapter (Some storage));
                let r2 = snd (allocation_registry_recover (ie_load env) r1);
                a2 \<leftarrow> migrate_all (ie_file env) (snd (allocation_registry_list r2))
                        (a1\<lparr>ac_config_base := b, ac_shm_mgr := shm_manager_create, ac_registry := r2\<rparr>);
                (_, a3) \<leftarrow> npu_allocator_recover (ie_recover env) a2;
                Some (ENPU_SUCCESS, Some a3)
              }
        }
      })"

section \<open>Queries\<close>

record allocation_query =
  qy_phy_id :: int
  qy_pod_uid :: string
  qy_container_name :: string

definition query_matches :: "allocation_query \<Rightarrow> allocation \<Rightarrow> bool" where
  "query_matches q e \<longleftrightarrow> \<not> (qy_phy_id q \<ge> 0 \<and> al_phy_id e \<noteq> qy_phy_id q)
     \<and> \<not> (qy_pod_uid q \<noteq> [] \<and> al_pod_uid e \<noteq> qy_pod_uid q)
     \<and> \<not> (qy_container_name q \<noteq> [] \<and> al_container_name e \<noteq> qy_container_name q)"

definition npu_allocator_query_allocations :: "'st npu_allocator \<Rightarrow> allocation_query \<Rightarrow> int \<times> allocation list option" where
  "npu_allocator_query_allocations a q =
     (if qy_phy_id q \<ge> 0 \<and> qy_phy_id q \<ge> int (length (nt_leaves (ac_tree a))) then (ENPU_INVALID_PARAM, None)
      else case allocation_registry_list (ac_registry a) of (ret, es) \<Rightarrow>
        if ret \<noteq> ENPU_SUCCESS then (ret, None)
        else (ENPU_SUCCESS, Some (take MAX_ALLOC_COUNT (filter (query_matches q) es))))"

definition device_row :: "npu_node \<Rightarrow> npu_meta \<times> npu_allocatable" where
  "device_row n =
     (let m = nd_meta n in
      (m\<lparr>nm_die_id := copy_str DIE_ID_LEN (nm_die_id m), nm_uuid := copy_str MAX_UUID_LEN (nm_uuid m),
         nm_minor_name := copy_str MAX_NAME_LEN (nm_minor_name m), nm_card_type := copy_str MAX_NAME_LEN (nm_card_type m)\<rparr>,
       nd_allocatable n))"

fun device_rows :: "npu_tree \<Rightarrow> int \<Rightarrow> int \<Rightarrow> nat list \<Rightarrow> (npu_meta \<times> npu_allocatable) list option" where
  "device_rows t phy_id i [] = Some []"
| "device_rows t phy_id i (p # ps) =
     (if phy_id \<ge> 0 \<and> i \<noteq> phy_id then device_rows t phy_id (i + 1) ps
      else do { n \<leftarrow> nt_heap t p; rows \<leftarrow> device_rows t phy_id (i + 1) ps; Some (device_row n # rows) })"

definition npu_allocator_query_devices :: "'st npu_allocator \<Rightarrow> int \<Rightarrow> (int \<times> (npu_meta \<times> npu_allocatable) list) option" where
  "npu_allocator_query_devices a phy_id =
     (if phy_id \<ge> 0 \<and> phy_id \<ge> int (length (nt_leaves (ac_tree a))) then Some (ENPU_SUCCESS, [])
      else do { rows \<leftarrow> device_rows (ac_tree a) phy_id 0 (nt_leaves (ac_tree a)); Some (ENPU_SUCCESS, rows) })"

fun total_memory_mb :: "npu_tree \<Rightarrow> nat list \<Rightarrow> u64 option" where
  "total_memory_mb t [] = Some 0"
| "total_memory_mb t (p # ps) =
     do { n \<leftarrow> nt_heap t p; s \<leftarrow> total_memory_mb t ps; Some (npu_node_get_total_memory (Some n) div (1024 * 1024) + s) }"

definition npu_allocator_get_total_hbm_mb :: "'st npu_allocator \<Rightarrow> u64 option" where
  "npu_allocator_get_total_hbm_mb a = total_memory_mb (ac_tree a) (nt_leaves (ac_tree a))"

fun per_die_memory :: "npu_tree \<Rightarrow> int \<Rightarrow> nat list \<Rightarrow> (nat \<Rightarrow> u64) \<Rightarrow> (nat \<Rightarrow> u64) option" where
  "per_die_memory t fill [] out = Some out"
| "per_die_memory t fill (p # ps) out =
     do {
       n \<leftarrow> nt_heap t p;
       let phy = npu_node_get_phy_id (Some n);
       per_die_memory t fill ps
         (if phy \<ge> 0 \<and> phy < fill then out(nat phy := npu_node_get_total_memory (Some n) div (1024 * 1024)) else out)
     }"

definition npu_allocator_get_per_die_hbm_mb :: "'st npu_allocator \<Rightarrow> (nat \<Rightarrow> u64) \<Rightarrow> int \<Rightarrow> (int \<times> (nat \<Rightarrow> u64)) option" where
  "npu_allocator_get_per_die_hbm_mb a out max_count =
     (if max_count \<le> 0 then Some (ENPU_INVALID_PARAM, out)
      else let fill = (if max_count < int MAX_NPU_PER_NODE then max_count else int MAX_NPU_PER_NODE) in do {
        out' \<leftarrow> per_die_memory (ac_tree a) fill (nt_leaves (ac_tree a)) (\<lambda>i. if int i < fill then 0 else out i);
        Some (ENPU_SUCCESS, out')
      })"

definition npu_allocator_set_oversub_ratio :: "'st npu_allocator \<Rightarrow> int \<Rightarrow> double \<Rightarrow> int \<times> 'st npu_allocator" where
  "npu_allocator_set_oversub_ratio a die_index ratio =
     (if die_index < 0 \<or> die_index \<ge> int MAX_NPU_PER_NODE then (ENPU_INVALID_PARAM, a)
      else (ENPU_SUCCESS, a\<lparr>ac_oversub_ratio := (ac_oversub_ratio a)(nat die_index := ratio)\<rparr>))"

definition npu_allocator_get_oversub_ratio :: "'st npu_allocator \<Rightarrow> int \<Rightarrow> double" where
  "npu_allocator_get_oversub_ratio a die_index =
     (if die_index < 0 \<or> die_index \<ge> int MAX_NPU_PER_NODE then 0 else ac_oversub_ratio a (nat die_index))"

text \<open>The vNPUs of which every active process is swapped out; the size is added up until the first
  active process that is not.\<close>

fun swapped_size :: "(nat \<Rightarrow> process_entry) \<Rightarrow> nat list \<Rightarrow> u64 \<Rightarrow> u64 option" where
  "swapped_size ps [] acc = Some acc"
| "swapped_size ps (i # is) acc =
     (if pr_active (ps i) \<and> \<not> pr_swapped (ps i) then None else swapped_size ps is (acc + pr_swap_size (ps i)))"

definition swapped_vnpus :: "nat \<Rightarrow> shm_state \<Rightarrow> (nat \<times> int \<times> u64) list" where
  "swapped_vnpus phy_id st = concat (map (\<lambda>v. case swapped_size (ve_processes (ss_entries st v)) slots 0 of
       Some sz \<Rightarrow> if sz > 0 then [(phy_id, ve_vnpu_id (ss_entries st v), sz)] else []
     | None \<Rightarrow> []) (bitmap_ids (ss_vnpu_bitmap st)))"

text \<open>The calls of the callback, in order.\<close>

definition npu_allocator_foreach_swapped_vnpu :: "'st npu_allocator \<Rightarrow> int \<times> (nat \<times> int \<times> u64) list" where
  "npu_allocator_foreach_swapped_vnpu a =
     (ENPU_SUCCESS, concat (map (\<lambda>i. case sm_shm_states (ac_shm_mgr a) i of None \<Rightarrow> [] | Some st \<Rightarrow> swapped_vnpus i st)
        [0..<MAX_NPU_PER_NODE]))"

definition npu_allocator_clear_swap :: "'st npu_allocator \<Rightarrow> int \<Rightarrow> int \<Rightarrow> int \<times> 'st npu_allocator" where
  "npu_allocator_clear_swap a phy_id vnpu_id =
     (let (pool, mgr) = (case shm_manager_get_state (ac_shm_mgr a) phy_id of None \<Rightarrow> (ac_pool a, ac_shm_mgr a)
           | Some st \<Rightarrow> (case shm_free (ac_pool a) st vnpu_id of (_, pool', st') \<Rightarrow> (pool', put_state (ac_shm_mgr a) phy_id st')))
      in case shm_manager_set_swap_state mgr phy_id vnpu_id 0 0 of (ret, mgr') \<Rightarrow> (ret, a\<lparr>ac_pool := pool, ac_shm_mgr := mgr'\<rparr>))"


definition npu_allocator_get_swap_state :: "'st npu_allocator \<Rightarrow> int \<Rightarrow> int \<Rightarrow> int \<times> (bool \<times> u64 \<times> u64) option" where
  "npu_allocator_get_swap_state a phy_id vnpu_id = shm_manager_get_swap_state (ac_shm_mgr a) phy_id vnpu_id"

definition npu_allocator_set_swap_state :: "'st npu_allocator \<Rightarrow> int \<Rightarrow> int \<Rightarrow> u64 \<Rightarrow> u64 \<Rightarrow> int \<times> 'st npu_allocator" where
  "npu_allocator_set_swap_state a phy_id vnpu_id offset sz =
     (case shm_manager_set_swap_state (ac_shm_mgr a) phy_id vnpu_id offset sz of (ret, mgr) \<Rightarrow> (ret, a\<lparr>ac_shm_mgr := mgr\<rparr>))"

definition npu_allocator_get_shm_state :: "'st npu_allocator \<Rightarrow> int \<Rightarrow> shm_state option" where
  "npu_allocator_get_shm_state a phy_id = shm_manager_get_state (ac_shm_mgr a) phy_id"

end
