(* ===== verification/Allocator_Books.thy ===== *)
theory Allocator_Books
  imports Npu_Allocator
begin

text \<open>
  The books of the allocator. An allocation is recorded four times: as an occupied slot with its quotas
  and policy in the device tree, as an entry of the shared memory of the die, as a configuration file
  and as an entry of the registry. This theory shows that the allocator keeps the tree, the shared
  memory and the registry in agreement, that a failed allocation leaves them unchanged, and that a release undoes an
  allocation. The views \<open>tree_view\<close> and \<open>shm_view\<close> forget what no operation depends on: whether the
  policy array of a device is allocated, and the shared-memory entries outside the bitmap.
\<close>

section \<open>The device tree during an allocation\<close>

definition node_view :: "npu_node \<Rightarrow> npu_meta \<times> npu_allocatable \<times> vnpu_policy_entry list \<times> nat option" where
  "node_view n = (nd_meta n, nd_allocatable n, policy_list n, nd_parent n)"

definition tree_view :: "npu_tree \<Rightarrow> nat list \<times> bool \<times> nat \<times>
    (nat \<rightharpoonup> npu_meta \<times> npu_allocatable \<times> vnpu_policy_entry list \<times> nat option)" where
  "tree_view t = (nt_leaves t, nt_initialized t, nt_next t, \<lambda>p. map_option node_view (nt_heap t p))"

definition charge_quota :: "int \<Rightarrow> int \<Rightarrow> npu_allocatable \<Rightarrow> npu_allocatable" where
  "charge_quota ac h x = x\<lparr>na_aicore_quota := na_aicore_quota x + word_of_int ac, na_hbm_quota := na_hbm_quota x + word_of_int h\<rparr>"

definition occupy_node :: "npu_node \<Rightarrow> nat \<Rightarrow> int \<Rightarrow> int \<Rightarrow> int \<Rightarrow> int \<Rightarrow> npu_node" where
  "occupy_node n i ac h pol prio = n\<lparr>
     nd_policy_entries := Some (policy_list n @ [\<lparr>pe_vnpu_id = int i, pe_sched_policy = pol, pe_vnpu_priority = prio\<rparr>]),
     nd_allocatable := (charge_quota (- ac) (- h) (nd_allocatable n))
       \<lparr>na_vnpu_mask := na_vnpu_mask (nd_allocatable n) AND NOT (bmask i),
        na_vnpu_count := na_vnpu_count (nd_allocatable n) + 1\<rparr>\<rparr>"

definition vacate_node :: "npu_node \<Rightarrow> nat \<Rightarrow> int \<Rightarrow> int \<Rightarrow> vnpu_policy_entry list \<Rightarrow> npu_node" where
  "vacate_node n i ac h es = n\<lparr>nd_policy_entries := Some es,
     nd_allocatable := (charge_quota ac h (nd_allocatable n))
       \<lparr>na_vnpu_mask := na_vnpu_mask (nd_allocatable n) OR bmask i,
        na_vnpu_count := na_vnpu_count (nd_allocatable n) - 1\<rparr>\<rparr>"

lemma find_leaf_put_node:
  assumes "nt_heap t p = Some n" "nd_meta n' = nd_meta n"
  shows "find_leaf (put_node t p n') P ps = find_leaf t P ps"
proof (induction ps)
  case (Cons q ps)
  show ?case
  proof (cases "q = p")
    case True
    then show ?thesis using assms Cons.IH by simp
  next
    case False
    then have "nt_heap (put_node t p n') q = nt_heap t q" by simp
    then show ?thesis by (simp only: find_leaf.simps Cons.IH)
  qed
qed simp

lemma get_leaf_put_node:
  "nt_heap t p = Some n \<Longrightarrow> nd_meta n' = nd_meta n \<Longrightarrow>
     npu_tree_get_leaf (put_node t p n') phy_id = npu_tree_get_leaf t phy_id"
  by (simp add: npu_tree_get_leaf_def find_leaf_put_node)

lemma tree_view_put_node: "nt_heap t p = Some n \<Longrightarrow> node_view n' = node_view n \<Longrightarrow> tree_view (put_node t p n') = tree_view t"
  by (auto simp: tree_view_def fun_eq_iff)

lemma tree_view_heap:
  assumes "tree_view t' = tree_view t"
  shows "nt_leaves t' = nt_leaves t" "nt_initialized t' = nt_initialized t" "nt_next t' = nt_next t"
    "map_option node_view (nt_heap t' p) = map_option node_view (nt_heap t p)"
  using assms by (auto simp: tree_view_def dest: fun_cong [of _ _ p])

lemma node_view_ok: "node_view n' = node_view n \<Longrightarrow> node_ok n' = node_ok n"
  by (auto simp: node_view_def node_ok_def occupied_def)

lemma tree_view_node:
  assumes "tree_view t' = tree_view t" "nt_heap t p = Some n"
  obtains n' where "nt_heap t' p = Some n'" "node_view n' = node_view n"
  using tree_view_heap(4) [OF assms(1), of p] assms(2) by auto

lemma tree_view_wf:
  assumes "tree_view t' = tree_view t" "tree_wf t"
  shows "tree_wf t'"
proof -
  note v = tree_view_heap [OF assms(1)]
  have leaf: "leaf_phy t' p = leaf_phy t p \<and> (\<exists>n. nt_heap t' p = Some n \<and> node_ok n)" if p: "p \<in> set (nt_leaves t)" for p
  proof -
    obtain n where n: "nt_heap t p = Some n" "node_ok n" using tree_wf_leaf [OF assms(2) p] by metis
    obtain n' where n': "nt_heap t' p = Some n'" "node_view n' = node_view n" using tree_view_node [OF assms(1) n(1)] .
    then have "node_ok n'" "nd_meta n' = nd_meta n" using n(2) node_view_ok [OF n'(2)] by (auto simp: node_view_def)
    then show ?thesis using n(1) n'(1) by (simp add: leaf_phy_def)
  qed
  then have m: "map (leaf_phy t') (nt_leaves t) = map (leaf_phy t) (nt_leaves t)" by simp
  have "distinct (map (leaf_phy t') (nt_leaves t))" unfolding m using assms(2) by (simp add: tree_wf_def)
  then show ?thesis using assms(2) v(1,3) leaf by (simp add: tree_wf_def)
qed


section \<open>The shared memory during an allocation\<close>

text \<open>The entries of the shared memory that count: those of a vNPU in the bitmap of a die.\<close>

definition shm_view :: "shm_manager \<Rightarrow> nat \<times> nat \<rightharpoonup> vnpu_shm_entry" where
  "shm_view mgr = (\<lambda>(i, v). if i < MAX_NPU_PER_NODE then
     (case sm_shm_states mgr i of None \<Rightarrow> None
      | Some st \<Rightarrow> if vnpu_bitmap_test (ss_vnpu_bitmap st) (int v) then Some (ss_entries st v) else None) else None)"

definition shm_named :: "shm_manager \<Rightarrow> bool" where
  "shm_named mgr \<longleftrightarrow> (\<forall>i < MAX_NPU_PER_NODE. \<forall>st. sm_shm_states mgr i = Some st \<longrightarrow> ss_shm_id st \<noteq> [])"

lemma get_state_die: "i < MAX_NPU_PER_NODE \<Longrightarrow> shm_manager_get_state mgr (int i) = sm_shm_states mgr i"
  by (simp add: shm_manager_get_state_def)

lemma states_put_state [simp]: "sm_shm_states (put_state mgr (int i) st) = (sm_shm_states mgr)(i \<mapsto> st)"
  by (simp add: put_state_def)

lemma view_cong: "sm_shm_states mgr' = sm_shm_states mgr \<Longrightarrow> shm_view mgr' = shm_view mgr \<and> shm_named mgr' = shm_named mgr"
  by (auto simp: shm_view_def shm_named_def fun_eq_iff)

lemma view_put_same:
  assumes "sm_shm_states mgr i = Some st" "ss_vnpu_bitmap st' = ss_vnpu_bitmap st" "ss_entries st' = ss_entries st"
  shows "shm_view (put_state mgr (int i) st') = shm_view mgr"
  using assms by (auto simp: shm_view_def fun_eq_iff)

lemma named_put: "shm_named mgr \<Longrightarrow> ss_shm_id st \<noteq> [] \<Longrightarrow> shm_named (put_state mgr (int i) st)"
  by (auto simp: shm_named_def)

lemma namedD: "shm_named mgr \<Longrightarrow> i < MAX_NPU_PER_NODE \<Longrightarrow> sm_shm_states mgr i = Some st \<Longrightarrow> ss_shm_id st \<noteq> []"
  by (auto simp: shm_named_def)

lemma get_or_create_view:
  assumes i: "i < MAX_NPU_PER_NODE" and die: "die_id \<noteq> []" and named: "shm_named mgr"
    and g: "shm_manager_get_or_create_shm os env mgr (int i) die_id (Some SHM_ID_LEN) = (ret, mgr', name)"
  shows "shm_view mgr' = shm_view mgr \<and> shm_named mgr'
    \<and> (ret = ENPU_SUCCESS \<longrightarrow> (\<exists>st. sm_shm_states mgr' i = Some st \<and> name = Some (ss_shm_id st)))"
proof (cases "sm_shm_states mgr i")
  case (Some st)
  then show ?thesis using i named g
    by (auto simp: shm_manager_get_or_create_shm_def get_state_die Let_def split: if_splits)
next
  case None
  show ?thesis
  proof (cases "shm_state_posix_shm_create os (int i) die_id")
    case create: None
    then show ?thesis using i g None named
      by (auto simp: shm_manager_get_or_create_shm_def get_state_die Let_def)
  next
    case create: (Some st)
    have st: "ss_vnpu_bitmap st = (0, 0)" "ss_shm_id st \<noteq> []"
      using create die by (auto simp: shm_state_posix_shm_create_def copy_str_def split: if_splits)
    have no: "\<not> vnpu_bitmap_test (0, 0) (int v)" for v by (simp add: bitmap_test_bit bitmap_word_def)
    define m1 where "m1 = put_state mgr (int i) (st\<lparr>ss_initialized := True\<rparr>)"
    have m1: "shm_view m1 = shm_view mgr" "shm_named m1" "sm_shm_states m1 i = Some (st\<lparr>ss_initialized := True\<rparr>)"
      using None st named no by (auto simp: m1_def shm_view_def fun_eq_iff named_put)
    have "mgr' = mgr \<and> ret \<noteq> ENPU_SUCCESS \<or> sm_shm_states mgr' = sm_shm_states m1 \<and> name = Some (ss_shm_id st)"
      using i g None create
      by (auto simp: shm_manager_get_or_create_shm_def get_state_die Let_def m1_def split: if_splits prod.splits)
    then show ?thesis using m1 named view_cong [of mgr' m1] by auto
  qed
qed

lemma init_state_view:
  assumes i: "i < MAX_NPU_PER_NODE" and named: "shm_named mgr" and mgr': "mgr' = snd (shm_manager_init_state mgr (int i) h)"
  shows "shm_view mgr' = shm_view mgr" "shm_named mgr'" "sm_shm_states mgr i = Some st \<Longrightarrow> sm_shm_states mgr' i \<noteq> None"
  using assms namedD [OF named i]
  by (auto simp: shm_manager_init_state_def get_state_die view_put_same named_put split: option.splits)

lemma upd_sched_view:
  "upd_sched_at mgr phy v f = Some mgr' \<Longrightarrow> sm_shm_states mgr' = sm_shm_states mgr"
  by (auto simp: upd_sched_at_def put_sched_def split: option.splits if_splits)

lemma upd_sched_defined: "0 \<le> v \<Longrightarrow> v < int MAX_VNPU_SCHED \<Longrightarrow> \<exists>mgr'. upd_sched_at mgr phy v f = Some mgr'"
  by (auto simp: upd_sched_at_def split: option.splits)

lemma add_entry_view:
  assumes "i < MAX_NPU_PER_NODE" "v < MAX_VNPU_PER_DIE" "ve_vnpu_id e = int v" "sm_shm_states mgr i \<noteq> None"
    "shm_view mgr (i, v) = None" "shm_named mgr"
  obtains mgr' where "shm_manager_add_entry mgr (int i) e = (ENPU_SUCCESS, mgr')"
    "shm_view mgr' = (shm_view mgr)((i, v) \<mapsto> e)" "shm_named mgr'"
proof -
  obtain st where st: "sm_shm_states mgr i = Some st" using assms(4) by auto
  have free: "\<not> vnpu_bitmap_test (ss_vnpu_bitmap st) (int v)" using assms(1,5) st by (auto simp: shm_view_def split: if_splits)
  let ?st = "st\<lparr>ss_entries := (ss_entries st)(v := e), ss_vnpu_bitmap := vnpu_bitmap_set (ss_vnpu_bitmap st) (int v)\<rparr>"
  have "shm_manager_add_entry mgr (int i) e = (ENPU_SUCCESS, put_state mgr (int i) ?st)"
    using assms(1-3) st free by (simp add: shm_manager_add_entry_def get_state_die)
  moreover have "shm_view (put_state mgr (int i) ?st) = (shm_view mgr)((i, v) \<mapsto> e)"
    using assms(1,2) st by (auto simp: shm_view_def fun_eq_iff bitmap.test_occupy)
  moreover have "shm_named (put_state mgr (int i) ?st)" using assms(1,6) st namedD by (intro named_put) auto
  ultimately show ?thesis by (rule that)
qed

lemma remove_entry_view:
  assumes "i < MAX_NPU_PER_NODE" "v < MAX_VNPU_PER_DIE" "shm_view mgr (i, v) \<noteq> None" "shm_named mgr"
  obtains mgr' where "shm_manager_remove_entry mgr (int i) (int v) = (ENPU_SUCCESS, mgr')"
    "shm_view mgr' = (shm_view mgr)((i, v) := None)" "shm_named mgr'"
proof -
  obtain st where st: "sm_shm_states mgr i = Some st" and t: "vnpu_bitmap_test (ss_vnpu_bitmap st) (int v)"
    using assms(1,3) by (auto simp: shm_view_def split: option.splits if_splits)
  let ?st = "st\<lparr>ss_entries := (ss_entries st)(v := (ss_entries st v)\<lparr>ve_vnpu_id := -1\<rparr>),
     ss_vnpu_bitmap := vnpu_bitmap_clear (ss_vnpu_bitmap st) (int v)\<rparr>"
  have "shm_manager_remove_entry mgr (int i) (int v) = (ENPU_SUCCESS, put_state mgr (int i) ?st)"
    using assms(1,2) st t by (simp add: shm_manager_remove_entry_def get_state_die)
  moreover have "shm_view (put_state mgr (int i) ?st) = (shm_view mgr)((i, v) := None)"
    using assms(1,2) st by (auto simp: shm_view_def fun_eq_iff bitmap.test_vacate)
  moreover have "shm_named (put_state mgr (int i) ?st)" using assms(1,4) st namedD by (intro named_put) auto
  ultimately show ?thesis by (rule that)
qed

text \<open>Freeing the buffers of a vNPU touches only its own entry.\<close>

definition frees_in :: "nat \<Rightarrow> shm_state \<Rightarrow> shm_state \<Rightarrow> bool" where
  "frees_in v st st' \<longleftrightarrow> ss_vnpu_bitmap st' = ss_vnpu_bitmap st \<and> ss_shm_id st' = ss_shm_id st
     \<and> (\<forall>w. w \<noteq> v \<longrightarrow> ss_entries st' w = ss_entries st w)"

lemma free_per_process_in: "shm_free_per_process t st (int v) s = (r, t', st') \<Longrightarrow> frees_in v st st'"
  by (auto simp: shm_free_per_process_def frees_in_def Let_def upd_process_def upd_entry_def split: if_splits)

lemma free_slots_in: "free_slots (int v) js (t, st) = (t', st') \<Longrightarrow> frees_in v st st'"
proof (induction js arbitrary: t st)
  case Nil
  then show ?case by (simp add: free_slots_def frees_in_def)
next
  case (Cons j js)
  obtain r t1 st1 where f: "shm_free_per_process t st (int v) (int j) = (r, t1, st1)" by (metis prod_cases3)
  have "free_slots (int v) js (t1, st1) = (t', st')" using Cons.prems f by (simp add: free_slots_def)
  from Cons.IH [OF this] free_per_process_in [OF f] show ?case by (simp add: frees_in_def)
qed

lemma shm_free_in: "shm_free t st (int v) = (r, t', st') \<Longrightarrow> frees_in v st st'"
  by (cases "v < MAX_VNPU_PER_DIE") (auto simp: shm_free_def intro: free_slots_in, simp_all add: frees_in_def)


lemma shm_apply_spec:
  assumes i: "i < MAX_NPU_PER_NODE" and v: "v < MAX_VNPU_SCHED" and die: "die_id \<noteq> []" and e: "ve_vnpu_id e = int v"
    and named: "shm_named (ac_shm_mgr a)" and free: "shm_view (ac_shm_mgr a) (i, v) = None"
  obtains (fails) ret mgr' name where "ret \<noteq> ENPU_SUCCESS"
      "shm_apply_vnpu_locked env a (int i) die_id h e prio (Some SHM_ID_LEN) = Some (ret, a\<lparr>ac_shm_mgr := mgr'\<rparr>, name)"
      "shm_view mgr' = shm_view (ac_shm_mgr a)" "shm_named mgr'"
  | (applies) mgr' name where "name \<noteq> []"
      "shm_apply_vnpu_locked env a (int i) die_id h e prio (Some SHM_ID_LEN) = Some (ENPU_SUCCESS, a\<lparr>ac_shm_mgr := mgr'\<rparr>, Some name)"
      "shm_view mgr' = (shm_view (ac_shm_mgr a))((i, v) \<mapsto> e)" "shm_named mgr'"
proof -
  obtain ret mgr1 name where g: "shm_manager_get_or_create_shm (ae_shm env) (ae_sched env) (ac_shm_mgr a) (int i) die_id (Some SHM_ID_LEN)
      = (ret, mgr1, name)" by (metis prod_cases3)
  note g1 = get_or_create_view [OF i die named g]
  show ?thesis
  proof (cases "ret = ENPU_SUCCESS")
    case False
    then show ?thesis using g1 g by (intro fails [of ret mgr1 name]) (auto simp: shm_apply_vnpu_locked_def)
  next
    case True
    then obtain st where st: "sm_shm_states mgr1 i = Some st" "name = Some (ss_shm_id st)" using g1 by auto
    have nm: "ss_shm_id st \<noteq> []" using namedD [OF _ i st(1)] g1 by blast
    have v': "0 \<le> int v" "int v < int MAX_VNPU_SCHED" using v by simp_all
    define mgr2 where "mgr2 = snd (shm_manager_init_state mgr1 (int i) h)"
    have g1n: "shm_named mgr1" using g1 by blast
    note m2 = init_state_view [OF i g1n mgr2_def]
    have free2: "shm_view mgr2 (i, v) = None" using m2(1) g1 free by simp
    have "drop_stale_entry (ac_pool a) mgr2 (int i) (int v) = (ac_pool a, mgr2)"
      using free2 i by (auto simp: drop_stale_entry_def get_state_die shm_view_def split: option.splits if_splits)
    moreover obtain mgr4 where m4: "shm_manager_add_entry mgr2 (int i) e = (ENPU_SUCCESS, mgr4)"
        "shm_view mgr4 = (shm_view mgr2)((i, v) \<mapsto> e)" "shm_named mgr4"
      using add_entry_view [OF i _ e _ free2 m2(2)] m2(3) [OF st(1)] v by auto
    moreover obtain mgr5 where m5: "set_vnpu_priority mgr4 (int i) (int v) prio = Some mgr5"
      unfolding set_vnpu_priority_def using upd_sched_defined [OF v'] by blast
    moreover obtain mgr6 where m6: "set_alive_time_now (ae_now_ns env) mgr5 (int i) (int v) = Some mgr6"
      unfolding set_alive_time_now_def using upd_sched_defined [OF v'] by blast
    ultimately have "shm_apply_vnpu_locked env a (int i) die_id h e prio (Some SHM_ID_LEN)
        = Some (ENPU_SUCCESS, a\<lparr>ac_shm_mgr := mgr6, ac_pool := ac_pool a\<rparr>, Some (ss_shm_id st))"
      using g True st(2) e by (simp add: shm_apply_vnpu_locked_def mgr2_def [symmetric])
    moreover have "a\<lparr>ac_shm_mgr := mgr6, ac_pool := ac_pool a\<rparr> = a\<lparr>ac_shm_mgr := mgr6\<rparr>" by simp
    moreover have "sm_shm_states mgr6 = sm_shm_states mgr4"
      using m5 m6 by (auto simp: set_vnpu_priority_def set_alive_time_now_def dest!: upd_sched_view)
    ultimately show ?thesis using applies [of "ss_shm_id st" mgr6] nm m4(2,3) m2(1) g1 view_cong [of mgr6 mgr4] by simp
  qed
qed

section \<open>Undoing the steps on the tree\<close>

definition touch_policies :: "npu_node \<Rightarrow> npu_node" where
  "touch_policies n = n\<lparr>nd_policy_entries := Some (policy_list n)\<rparr>"

lemma touch_view [simp]: "node_view (touch_policies n) = node_view n" "nd_meta (touch_policies n) = nd_meta n"
  by (simp_all add: touch_policies_def node_view_def)

lemma occupy_meta [simp]: "nd_meta (occupy_node n i ac h pol prio) = nd_meta n" "nd_parent (occupy_node n i ac h pol prio) = nd_parent n"
  by (simp_all add: occupy_node_def)

text \<open>The state of a device in the middle of an allocation of its free slot \<open>i\<close>.\<close>

definition slot_free :: "npu_tree \<Rightarrow> nat \<Rightarrow> npu_node \<Rightarrow> nat \<Rightarrow> bool" where
  "slot_free t p n i \<longleftrightarrow> tree_wf t \<and> nt_initialized t \<and> p \<in> set (nt_leaves t) \<and> nt_heap t p = Some n
     \<and> bit (na_vnpu_mask (nd_allocatable n)) i"

lemma slot_freeD:
  assumes "slot_free t p n i"
  shows "node_ok n" "nd_parent n = None" "i < 64" "length (policy_list n) < 128" "int i \<notin> pe_vnpu_id ` set (policy_list n)"
    "nt_heap t p = Some n" "bit (na_vnpu_mask (nd_allocatable n)) i" "leaf_phy t p = nm_phy_id (nd_meta n)"
proof -
  show ok: "node_ok n" using assms tree_wf_leaf [of t p] by (auto simp: slot_free_def)
  show "nd_parent n = None" using ok by (simp add: node_ok_def)
  show "i < 64" using assms bit_u64_less by (auto simp: slot_free_def)
  show "length (policy_list n) < 128" using node_ok_policy_length [OF ok] card_occupied_le [of n] by simp
  show "int i \<notin> pe_vnpu_id ` set (policy_list n)" using ok assms by (auto simp: node_ok_def occupied_def slot_free_def)
qed (use assms in \<open>auto simp: slot_free_def leaf_phy_def\<close>)

lemma slot_free_leaf:
  assumes "slot_free t p n i" "nd_meta n' = nd_meta n"
  shows "npu_tree_get_leaf (put_node t p n') (nm_phy_id (nd_meta n)) = Some (Some p)"
proof -
  have "npu_tree_get_leaf t (leaf_phy t p) = Some (Some p)" using assms(1) by (intro get_leaf_leaf) (auto simp: slot_free_def)
  then show ?thesis using assms get_leaf_put_node [of t p n n'] slot_freeD [OF assms(1)] by simp
qed


definition charged_node :: "npu_node \<Rightarrow> nat \<Rightarrow> int \<Rightarrow> int \<Rightarrow> npu_node" where
  "charged_node n i ac h = n\<lparr>nd_allocatable := (charge_quota (- ac) (- h) (nd_allocatable n))
     \<lparr>na_vnpu_mask := na_vnpu_mask (nd_allocatable n) AND NOT (bmask i)\<rparr>\<rparr>"

lemma charge_back: "charge_quota ac h (charge_quota (- ac) (- h) x) = x"
  by (simp add: charge_quota_def)

lemma charge_fields [simp]: "na_vnpu_mask (charge_quota ac h x) = na_vnpu_mask x" "na_vnpu_count (charge_quota ac h x) = na_vnpu_count x"
  by (simp_all add: charge_quota_def)

lemma charge_mask: "charge_quota ac h (x\<lparr>na_vnpu_mask := m\<rparr>) = (charge_quota ac h x)\<lparr>na_vnpu_mask := m\<rparr>"
  by (simp add: charge_quota_def)

lemma node_eqI:
  assumes "nd_meta a = nd_meta b" "nd_policy_entries a = nd_policy_entries b" "nd_parent a = nd_parent b"
    "nd_children a = nd_children b" "nd_mask a = nd_mask b" "nd_topo_level a = nd_topo_level b"
    "na_aicore_quota (nd_allocatable a) = na_aicore_quota (nd_allocatable b)"
    "na_hbm_quota (nd_allocatable a) = na_hbm_quota (nd_allocatable b)"
    "na_vnpu_count (nd_allocatable a) = na_vnpu_count (nd_allocatable b)"
    "na_vnpu_mask (nd_allocatable a) = na_vnpu_mask (nd_allocatable b)"
  shows "put_node t p a = put_node t p b"
proof -
  have "nd_allocatable a = nd_allocatable b" using assms by (intro npu_allocatable.equality) simp_all
  then have "a = b" using assms by (intro npu_node.equality) simp_all
  then show ?thesis by simp
qed

lemma occupy_steps:
  assumes s: "slot_free t p n i" and h: "0 \<le> h" "h < 2 ^ 63"
  shows "npu_tree_mark_vnpu_occupied t (Some p) (int i)
      = Some (ENPU_SUCCESS, put_node t p (charged_node n i 0 0))"
    and "npu_tree_update_quota (put_node t p (charged_node n i 0 0)) (Some p) (- ac) (- h)
      = Some (ENPU_SUCCESS, put_node t p (charged_node n i ac h))"
    and "npu_tree_attach_policy ok (put_node t p (charged_node n i ac h)) (Some p) (int i) pol prio
      = (if nd_policy_entries n = None \<and> \<not> ok then Some (ENPU_FAIL, put_node t p (charged_node n i ac h))
         else Some (ENPU_SUCCESS, put_node t p (occupy_node n i ac h pol prio)))"
proof -
  note d = slot_freeD [OF s]
  show "npu_tree_mark_vnpu_occupied t (Some p) (int i) = Some (ENPU_SUCCESS, put_node t p (charged_node n i 0 0))"
    using d by (auto simp: mark_vnpu_occupied_eq charged_node_def charge_quota_def intro!: node_eqI)
  show "npu_tree_update_quota (put_node t p (charged_node n i 0 0)) (Some p) (- ac) (- h)
      = Some (ENPU_SUCCESS, put_node t p (charged_node n i ac h))"
    using h by (subst update_quota_eq [where n = "charged_node n i 0 0"])
      (auto simp: charged_node_def charge_quota_def intro!: node_eqI)
  have "npu_tree_attach_policy ok (put_node t p (charged_node n i ac h)) (Some p) (int i) pol prio
    = (if nd_policy_entries (charged_node n i ac h) = None \<and> \<not> ok then Some (ENPU_FAIL, put_node t p (charged_node n i ac h))
         else Some (ENPU_SUCCESS, put_node (put_node t p (charged_node n i ac h)) p ((charged_node n i ac h)\<lparr>
               nd_policy_entries := Some (policy_list (charged_node n i ac h) @ [\<lparr>pe_vnpu_id = int i, pe_sched_policy = pol, pe_vnpu_priority = prio\<rparr>]),
               nd_allocatable := (nd_allocatable (charged_node n i ac h))\<lparr>na_vnpu_count := na_vnpu_count (nd_allocatable (charged_node n i ac h)) + 1\<rparr>\<rparr>)))"
    using d by (intro attach_policy_eq) (simp_all add: charged_node_def)
  then show "npu_tree_attach_policy ok (put_node t p (charged_node n i ac h)) (Some p) (int i) pol prio
      = (if nd_policy_entries n = None \<and> \<not> ok then Some (ENPU_FAIL, put_node t p (charged_node n i ac h))
         else Some (ENPU_SUCCESS, put_node t p (occupy_node n i ac h pol prio)))"
    by (auto simp: charged_node_def occupy_node_def intro!: node_eqI)
qed

lemma vacate_steps:
  assumes s: "slot_free t p n i" and h: "0 \<le> h" "h < 2 ^ 63"
  shows "npu_tree_detach_policy (put_node t p (occupy_node n i ac h pol prio)) (Some p) (int i)
      = Some (ENPU_SUCCESS, put_node t p (touch_policies (charged_node n i ac h)))"
    and "npu_tree_update_quota (put_node t p (charged_node n i ac h)) (Some p) ac h
      = Some (ENPU_SUCCESS, put_node t p (charged_node n i 0 0))"
    and "npu_tree_update_quota (put_node t p (touch_policies (charged_node n i ac h))) (Some p) ac h
      = Some (ENPU_SUCCESS, put_node t p (touch_policies (charged_node n i 0 0)))"
    and "npu_tree_mark_vnpu_free (put_node t p (charged_node n i 0 0)) (Some p) (int i) = Some (ENPU_SUCCESS, t)"
    and "npu_tree_mark_vnpu_free (put_node t p (touch_policies (charged_node n i 0 0))) (Some p) (int i)
      = Some (ENPU_SUCCESS, put_node t p (touch_policies n))"
proof -
  note d = slot_freeD [OF s]
  show "npu_tree_detach_policy (put_node t p (occupy_node n i ac h pol prio)) (Some p) (int i)
      = Some (ENPU_SUCCESS, put_node t p (touch_policies (charged_node n i ac h)))"
    using d by (subst detach_policy_eq [where n = "occupy_node n i ac h pol prio"])
      (auto simp: occupy_node_def remove_policy_append charged_node_def touch_policies_def intro!: node_eqI)
  show "npu_tree_update_quota (put_node t p (charged_node n i ac h)) (Some p) ac h
      = Some (ENPU_SUCCESS, put_node t p (charged_node n i 0 0))"
    using h by (subst update_quota_eq [where n = "charged_node n i ac h"])
      (auto simp: charged_node_def charge_quota_def intro!: node_eqI)
  show "npu_tree_update_quota (put_node t p (touch_policies (charged_node n i ac h))) (Some p) ac h
      = Some (ENPU_SUCCESS, put_node t p (touch_policies (charged_node n i 0 0)))"
    using h by (subst update_quota_eq [where n = "touch_policies (charged_node n i ac h)"])
      (auto simp: touch_policies_def charged_node_def charge_quota_def intro!: node_eqI)
  show "npu_tree_mark_vnpu_free (put_node t p (charged_node n i 0 0)) (Some p) (int i) = Some (ENPU_SUCCESS, t)"
    using d by (subst mark_vnpu_free_eq [where n = "charged_node n i 0 0"])
      (auto simp: charged_node_def charge_quota_def bit_clear_iff clear_set_bit intro!: node_eqI)
  show "npu_tree_mark_vnpu_free (put_node t p (touch_policies (charged_node n i 0 0))) (Some p) (int i)
      = Some (ENPU_SUCCESS, put_node t p (touch_policies n))"
    using d by (subst mark_vnpu_free_eq [where n = "touch_policies (charged_node n i 0 0)"])
      (auto simp: touch_policies_def charged_node_def charge_quota_def bit_clear_iff clear_set_bit intro!: node_eqI)
qed

text \<open>The steps as the allocation logs them.\<close>

definition mark_step :: "npu_node \<Rightarrow> nat \<Rightarrow> rollback_step" where
  "mark_step n i = \<lparr>rb_type = STEP_MARK_OCCUPIED, rb_phy_id = nm_phy_id (nd_meta n), rb_vnpu_id = int i, rb_aicore_delta = 0,
     rb_hbm_delta = 0, rb_sched_policy = 0, rb_pod_uid = [], rb_container_name = [], rb_shm_id = []\<rparr>"

definition quota_step :: "npu_node \<Rightarrow> nat \<Rightarrow> int \<Rightarrow> int \<Rightarrow> rollback_step" where
  "quota_step n i ac h = \<lparr>rb_type = STEP_UPDATE_QUOTA, rb_phy_id = nm_phy_id (nd_meta n), rb_vnpu_id = int i, rb_aicore_delta = - ac,
     rb_hbm_delta = - h, rb_sched_policy = 0, rb_pod_uid = [], rb_container_name = [], rb_shm_id = []\<rparr>"

definition policy_step :: "npu_node \<Rightarrow> nat \<Rightarrow> int \<Rightarrow> rollback_step" where
  "policy_step n i pol = \<lparr>rb_type = STEP_ATTACH_POLICY, rb_phy_id = nm_phy_id (nd_meta n), rb_vnpu_id = int i, rb_aicore_delta = 0,
     rb_hbm_delta = 0, rb_sched_policy = pol, rb_pod_uid = [], rb_container_name = [], rb_shm_id = []\<rparr>"

lemma rollback_steps_append:
  "rollback_steps env (xs @ ys) c = rollback_steps env xs c \<bind> rollback_steps env ys"
proof (induction xs arbitrary: c)
  case (Cons x xs)
  show ?case by (cases c) (simp add: Cons.IH split: bind_split)
qed simp

lemma rollback_tree_full:
  assumes s: "slot_free t p n i" and h: "0 \<le> h" "h < 2 ^ 63" and ac: "ac \<noteq> 2 ^ 31"
    and t: "ac_tree a = put_node t p (occupy_node n i ac h pol prio)"
  shows "rollback_steps env [policy_step n i pol, quota_step n i ac h, mark_step n i] (k, a)
      = Some (k, a\<lparr>ac_tree := put_node t p (touch_policies n)\<rparr>)"
proof -
  have meta: "nd_meta (charged_node n i x y) = nd_meta n" for x y by (simp add: charged_node_def)
  note leaf = slot_free_leaf [OF s]
  have "rollback_one env a (policy_step n i pol) = Some (0, a\<lparr>ac_tree := put_node t p (touch_policies (charged_node n i ac h))\<rparr>)"
    using leaf [of "occupy_node n i ac h pol prio"] vacate_steps(1) [OF s h, of ac pol prio]
    by (simp add: rollback_one_def policy_step_def rollback_attach_policy_def t)
  moreover have "rollback_one env (a\<lparr>ac_tree := put_node t p (touch_policies (charged_node n i ac h))\<rparr>) (quota_step n i ac h)
      = Some (0, a\<lparr>ac_tree := put_node t p (touch_policies (charged_node n i 0 0))\<rparr>)"
    using leaf [of "touch_policies (charged_node n i ac h)"] vacate_steps(3) [OF s h, of ac] h ac
    by (simp add: rollback_one_def quota_step_def rollback_update_quota_def neg_i32_def neg_i64_def meta)
  moreover have "rollback_one env (a\<lparr>ac_tree := put_node t p (touch_policies (charged_node n i 0 0))\<rparr>) (mark_step n i)
      = Some (0, a\<lparr>ac_tree := put_node t p (touch_policies n)\<rparr>)"
    using leaf [of "touch_policies (charged_node n i 0 0)"] vacate_steps(5) [OF s h]
    by (simp add: rollback_one_def mark_step_def rollback_mark_occupied_def meta)
  ultimately show ?thesis by simp
qed

lemma rollback_tree_half:
  assumes s: "slot_free t p n i" and h: "0 \<le> h" "h < 2 ^ 63" and ac: "ac \<noteq> 2 ^ 31"
    and t: "ac_tree a = put_node t p (charged_node n i ac h)"
  shows "rollback_steps env [quota_step n i ac h, mark_step n i] (k, a) = Some (k, a\<lparr>ac_tree := t\<rparr>)"
proof -
  have meta: "nd_meta (charged_node n i x y) = nd_meta n" for x y by (simp add: charged_node_def)
  note leaf = slot_free_leaf [OF s]
  have "rollback_one env a (quota_step n i ac h) = Some (0, a\<lparr>ac_tree := put_node t p (charged_node n i 0 0)\<rparr>)"
    using leaf [of "charged_node n i ac h"] vacate_steps(2) [OF s h, of ac] h ac
    by (simp add: rollback_one_def quota_step_def rollback_update_quota_def neg_i32_def neg_i64_def meta t)
  moreover have "rollback_one env (a\<lparr>ac_tree := put_node t p (charged_node n i 0 0)\<rparr>) (mark_step n i) = Some (0, a\<lparr>ac_tree := t\<rparr>)"
    using leaf [of "charged_node n i 0 0"] vacate_steps(4) [OF s h]
    by (simp add: rollback_one_def mark_step_def rollback_mark_occupied_def meta)
  ultimately show ?thesis by simp
qed


section \<open>Undoing the steps on the shared memory and the files\<close>

definition shm_step :: "npu_node \<Rightarrow> nat \<Rightarrow> string \<Rightarrow> rollback_step" where
  "shm_step n i name = \<lparr>rb_type = STEP_CREATE_SHM, rb_phy_id = nm_phy_id (nd_meta n), rb_vnpu_id = int i, rb_aicore_delta = 0,
     rb_hbm_delta = 0, rb_sched_policy = 0, rb_pod_uid = [], rb_container_name = [], rb_shm_id = copy_str SHM_ID_LEN name\<rparr>"

definition config_step :: "npu_node \<Rightarrow> nat \<Rightarrow> string \<Rightarrow> string \<Rightarrow> rollback_step" where
  "config_step n i pod cont = \<lparr>rb_type = STEP_WRITE_CONFIG, rb_phy_id = nm_phy_id (nd_meta n), rb_vnpu_id = int i, rb_aicore_delta = 0,
     rb_hbm_delta = 0, rb_sched_policy = 0, rb_pod_uid = copy_str MAX_UUID_LEN pod,
     rb_container_name = copy_str MAX_NAME_LEN cont, rb_shm_id = []\<rparr>"

abbreviation tree_steps :: "npu_node \<Rightarrow> nat \<Rightarrow> int \<Rightarrow> int \<Rightarrow> int \<Rightarrow> rollback_step list" where
  "tree_steps n i ac h pol \<equiv> [mark_step n i, quota_step n i ac h, policy_step n i pol]"

lemmas log_steps = mark_step_def quota_step_def policy_step_def shm_step_def config_step_def

text \<open>What a rolled-back allocation may still have changed: the files, and what the views forget.\<close>

definition restored :: "'st npu_allocator \<Rightarrow> 'st npu_allocator \<Rightarrow> bool" where
  "restored a a' \<longleftrightarrow> (\<exists>t mgr fs. a' = a\<lparr>ac_tree := t, ac_shm_mgr := mgr, ac_files := fs, ac_log := []\<rparr>
     \<and> tree_view t = tree_view (ac_tree a) \<and> shm_view mgr = shm_view (ac_shm_mgr a) \<and> shm_named mgr)"

lemma rollback_shm:
  assumes "nm_phy_id (nd_meta n) = int d" "d < MAX_NPU_PER_NODE" "i < MAX_VNPU_PER_DIE" "name \<noteq> []"
    "shm_view (ac_shm_mgr a) (d, i) \<noteq> None" "shm_named (ac_shm_mgr a)" "npu_tree_get_leaf (ac_tree a) (int d) \<noteq> None"
  obtains mgr' where "rollback_steps env [shm_step n i name] (k, a) = Some (k, a\<lparr>ac_shm_mgr := mgr'\<rparr>)"
    "shm_view mgr' = (shm_view (ac_shm_mgr a))((d, i) := None)" "shm_named mgr'"
proof -
  obtain mgr' where m: "shm_manager_remove_entry (ac_shm_mgr a) (int d) (int i) = (ENPU_SUCCESS, mgr')"
    "shm_view mgr' = (shm_view (ac_shm_mgr a))((d, i) := None)" "shm_named mgr'"
    using remove_entry_view [OF assms(2,3,5,6)] .
  have "copy_str SHM_ID_LEN name \<noteq> []" using assms(4) by (simp add: copy_str_def)
  then have "rollback_steps env [shm_step n i name] (k, a) = Some (k, a\<lparr>ac_shm_mgr := mgr'\<rparr>)"
    using m(1) assms(1,7) by (auto simp: rollback_one_def shm_step_def rollback_create_shm_def)
  then show ?thesis using m(2,3) that by blast
qed

lemma rollback_config:
  assumes "npu_tree_get_leaf (ac_tree a) (nm_phy_id (nd_meta n)) \<noteq> None"
  obtains k' fs where "rollback_steps env [config_step n i pod cont] (k, a) = Some (k', a\<lparr>ac_files := fs\<rparr>)"
proof -
  obtain ret fs where f: "rollback_write_config env a (config_step n i pod cont) = (ret, a\<lparr>ac_files := fs\<rparr>)"
  proof (cases "copy_str MAX_UUID_LEN pod = [] \<or> copy_str MAX_NAME_LEN cont = []")
    case True
    then have "rollback_write_config env a (config_step n i pod cont) = (ENPU_INVALID_PARAM, a\<lparr>ac_files := ac_files a\<rparr>)"
      by (auto simp: rollback_write_config_def config_step_def)
    then show ?thesis by (rule that)
  next
    case False
    obtain ret fs where "config_manager_delete_config env (ac_config_base a) (ac_files a) (copy_str MAX_UUID_LEN pod) (copy_str MAX_NAME_LEN cont)
        = (ret, fs)" by fastforce
    then have "rollback_write_config env a (config_step n i pod cont) = (ret, a\<lparr>ac_files := fs\<rparr>)"
      using False by (simp add: rollback_write_config_def config_step_def)
    then show ?thesis by (rule that)
  qed
  have "rollback_one env a (config_step n i pod cont) = Some (ret, a\<lparr>ac_files := fs\<rparr>)"
    using assms f by (auto simp: rollback_one_def config_step_def)
  then show ?thesis using that by auto
qed

text \<open>The undoing of an allocation that had occupied the slot \<open>i\<close> of the device \<open>n\<close>, from each of the points where it
  can fail. \<open>a0\<close> is the allocator before the allocation.\<close>

definition placeable :: "'st npu_allocator \<Rightarrow> nat \<Rightarrow> npu_node \<Rightarrow> nat \<Rightarrow> nat \<Rightarrow> bool" where
  "placeable a0 p n i d \<longleftrightarrow> slot_free (ac_tree a0) p n i \<and> nm_phy_id (nd_meta n) = int d \<and> d < MAX_NPU_PER_NODE
     \<and> shm_named (ac_shm_mgr a0) \<and> shm_view (ac_shm_mgr a0) (d, i) = None"

lemma placeableD:
  assumes "placeable a0 p n i d"
  shows "slot_free (ac_tree a0) p n i" "nm_phy_id (nd_meta n) = int d" "d < MAX_NPU_PER_NODE" "shm_named (ac_shm_mgr a0)"
    "shm_view (ac_shm_mgr a0) (d, i) = None" "i < MAX_VNPU_PER_DIE" "i < MAX_VNPU_SCHED"
    "npu_tree_get_leaf (put_node (ac_tree a0) p (occupy_node n i ac h pol prio)) (int d) = Some (Some p)"
    "tree_view (put_node (ac_tree a0) p (touch_policies n)) = tree_view (ac_tree a0)"
proof -
  show s: "slot_free (ac_tree a0) p n i" "nm_phy_id (nd_meta n) = int d" "d < MAX_NPU_PER_NODE" "shm_named (ac_shm_mgr a0)"
    "shm_view (ac_shm_mgr a0) (d, i) = None" using assms by (auto simp: placeable_def)
  show "i < MAX_VNPU_PER_DIE" "i < MAX_VNPU_SCHED" using slot_freeD(3) [OF s(1)] by simp_all
  show "npu_tree_get_leaf (put_node (ac_tree a0) p (occupy_node n i ac h pol prio)) (int d) = Some (Some p)"
    using slot_free_leaf [OF s(1), of "occupy_node n i ac h pol prio"] s(2) by simp
  show "tree_view (put_node (ac_tree a0) p (touch_policies n)) = tree_view (ac_tree a0)"
    using slot_freeD(6) [OF s(1)] by (rule tree_view_put_node) simp
qed

lemma restoredI:
  assumes "tree_view t = tree_view (ac_tree a)" "shm_view mgr = shm_view (ac_shm_mgr a)" "shm_named mgr"
  shows "restored a (a\<lparr>ac_tree := t, ac_shm_mgr := mgr, ac_files := fs, ac_log := []\<rparr>)"
  using assms unfolding restored_def by blast

lemma undo_quota:
  assumes pl: "placeable a0 p n i d" and h: "0 \<le> h" "h < 2 ^ 63" and ac: "ac \<noteq> 2 ^ 31"
    and a1: "a1 = a0\<lparr>ac_tree := put_node (ac_tree a0) p (charged_node n i ac h), ac_log := [mark_step n i, quota_step n i ac h]\<rparr>"
  shows "\<exists>a'. fail_allocate env a1 req resp ret msg = Some (ret, a', req, reject resp ret msg) \<and> restored a0 a'"
proof -
  note d = placeableD [OF pl]
  have "rollback_steps (ae_file env) [quota_step n i ac h, mark_step n i] (0, a1) = Some (0, a1\<lparr>ac_tree := ac_tree a0\<rparr>)"
    using a1 by (intro rollback_tree_half [OF d(1) h ac]) simp
  then have "fail_allocate env a1 req resp ret msg = Some (ret, a1\<lparr>ac_tree := ac_tree a0, ac_log := []\<rparr>, req, reject resp ret msg)"
    using a1 by (simp add: fail_allocate_def rollback_log_rollback_def)
  moreover have "restored a0 (a1\<lparr>ac_tree := ac_tree a0, ac_log := []\<rparr>)"
    using restoredI [of "ac_tree a0" a0 "ac_shm_mgr a0" "ac_files a0"] d(4) a1 by simp
  ultimately show ?thesis by blast
qed

lemma undo_tree:
  assumes pl: "placeable a0 p n i d" and h: "0 \<le> h" "h < 2 ^ 63" and ac: "ac \<noteq> 2 ^ 31"
    and a1: "a1 = a0\<lparr>ac_tree := put_node (ac_tree a0) p (occupy_node n i ac h pol prio), ac_shm_mgr := mgr, ac_files := fs, ac_log := l\<rparr>"
    and mgr: "shm_view mgr = shm_view (ac_shm_mgr a0)" "shm_named mgr"
  shows "\<exists>a'. rollback_steps env [policy_step n i pol, quota_step n i ac h, mark_step n i] (k, a1) = Some (k, a') \<and> restored a0 (a'\<lparr>ac_log := []\<rparr>)"
proof -
  note d = placeableD [OF pl]
  have "rollback_steps env [policy_step n i pol, quota_step n i ac h, mark_step n i] (k, a1)
      = Some (k, a1\<lparr>ac_tree := put_node (ac_tree a0) p (touch_policies n)\<rparr>)"
    by (rule rollback_tree_full [OF d(1) h ac]) (simp add: a1)
  moreover have "restored a0 (a1\<lparr>ac_tree := put_node (ac_tree a0) p (touch_policies n), ac_log := []\<rparr>)"
    using restoredI [OF d(9) mgr, of fs] a1 by (cases a0) simp
  ultimately show ?thesis by blast
qed

lemma undo_shm:
  assumes pl: "placeable a0 p n i d" and h: "0 \<le> h" "h < 2 ^ 63" and ac: "ac \<noteq> 2 ^ 31"
    and a1: "a1 = a0\<lparr>ac_tree := put_node (ac_tree a0) p (occupy_node n i ac h pol prio), ac_shm_mgr := mgr, ac_files := fs, ac_log := l\<rparr>"
    and mgr: "shm_view mgr = (shm_view (ac_shm_mgr a0))((d, i) \<mapsto> e)" "shm_named mgr" "name \<noteq> []"
  shows "\<exists>a'. rollback_steps env [shm_step n i name, policy_step n i pol, quota_step n i ac h, mark_step n i] (k, a1) = Some (k, a')
    \<and> restored a0 (a'\<lparr>ac_log := []\<rparr>)"
proof -
  note d = placeableD [OF pl]
  obtain mgr' where m: "rollback_steps env [shm_step n i name] (k, a1) = Some (k, a1\<lparr>ac_shm_mgr := mgr'\<rparr>)"
    "shm_view mgr' = (shm_view (ac_shm_mgr a1))((d, i) := None)" "shm_named mgr'"
    using rollback_shm [of n d i name a1 env k, OF d(2,3,6) mgr(3)] a1 mgr(1,2) d(8) by auto
  have v: "shm_view mgr' = shm_view (ac_shm_mgr a0)" using m(2) a1 mgr(1) d(5) by (simp add: fun_upd_idem)
  have a2: "a1\<lparr>ac_shm_mgr := mgr'\<rparr> = a0\<lparr>ac_tree := put_node (ac_tree a0) p (occupy_node n i ac h pol prio), ac_shm_mgr := mgr',
      ac_files := fs, ac_log := l\<rparr>" using a1 by simp
  obtain a' where a': "rollback_steps env [policy_step n i pol, quota_step n i ac h, mark_step n i] (k, a1\<lparr>ac_shm_mgr := mgr'\<rparr>) = Some (k, a')"
      "restored a0 (a'\<lparr>ac_log := []\<rparr>)" using undo_tree [OF pl h ac a2 v m(3), of env k] by blast
  have "rollback_steps env ([shm_step n i name] @ [policy_step n i pol, quota_step n i ac h, mark_step n i]) (k, a1) = Some (k, a')"
    unfolding rollback_steps_append m(1) bind.bind_lunit by (rule a'(1))
  then show ?thesis using a'(2) by auto
qed

lemma undo_config:
  assumes pl: "placeable a0 p n i d" and h: "0 \<le> h" "h < 2 ^ 63" and ac: "ac \<noteq> 2 ^ 31"
    and a1: "a1 = a0\<lparr>ac_tree := put_node (ac_tree a0) p (occupy_node n i ac h pol prio), ac_shm_mgr := mgr, ac_files := fs, ac_log := l\<rparr>"
    and mgr: "shm_view mgr = (shm_view (ac_shm_mgr a0))((d, i) \<mapsto> e)" "shm_named mgr" "name \<noteq> []"
  shows "\<exists>k' a'. rollback_steps env [config_step n i pod cont, shm_step n i name, policy_step n i pol, quota_step n i ac h, mark_step n i] (k, a1)
      = Some (k', a') \<and> restored a0 (a'\<lparr>ac_log := []\<rparr>)"
proof -
  note d = placeableD [OF pl]
  obtain k' fs' where c: "rollback_steps env [config_step n i pod cont] (k, a1) = Some (k', a1\<lparr>ac_files := fs'\<rparr>)"
    using rollback_config [of a1 n env i pod cont k] a1 d(2,8) by auto
  have a2: "a1\<lparr>ac_files := fs'\<rparr> = a0\<lparr>ac_tree := put_node (ac_tree a0) p (occupy_node n i ac h pol prio), ac_shm_mgr := mgr,
      ac_files := fs', ac_log := l\<rparr>" using a1 by simp
  obtain a' where a': "rollback_steps env [shm_step n i name, policy_step n i pol, quota_step n i ac h, mark_step n i] (k', a1\<lparr>ac_files := fs'\<rparr>) = Some (k', a')"
      "restored a0 (a'\<lparr>ac_log := []\<rparr>)" using undo_shm [OF pl h ac a2 mgr, of env k'] by blast
  have "rollback_steps env ([config_step n i pod cont] @ [shm_step n i name, policy_step n i pol, quota_step n i ac h, mark_step n i]) (k, a1) = Some (k', a')"
    unfolding rollback_steps_append c bind.bind_lunit by (rule a'(1))
  then show ?thesis using a'(2) by auto
qed

lemma fail_allocate_restores:
  assumes "\<exists>k a'. rollback_steps (ae_file env) (rev (ac_log a1)) (0, a1) = Some (k, a') \<and> restored a0 (a'\<lparr>ac_log := []\<rparr>)"
  shows "\<exists>a'. fail_allocate env a1 req resp ret msg = Some (ret, a', req, reject resp ret msg) \<and> restored a0 a'"
  using assms by (auto simp: fail_allocate_def rollback_log_rollback_def)


section \<open>The outcome of the transaction\<close>

text \<open>The storage adapter of the registry accepts the next save.\<close>

definition saves :: "'st registry \<Rightarrow> bool" where
  "saves r \<longleftrightarrow> (\<forall>es. fst (persist_to_adapter (r\<lparr>rg_entries := es\<rparr>)) = ENPU_SUCCESS)"

text \<open>A registration whose save failed with \<open>ret\<close>: the entry is in the table all the same.\<close>

definition kept_unsaved :: "'st registry \<Rightarrow> int \<Rightarrow> 'st registry \<Rightarrow> bool" where
  "kept_unsaved r ret r' \<longleftrightarrow> (\<exists>e. rg_entries r' = rg_entries r @ [e] \<and> reg_lookup r (alloc_key e) = None
     \<and> fst (persist_to_adapter (r\<lparr>rg_entries := rg_entries r @ [e]\<rparr>)) = ret)"

lemma persist_capacity: "fst (persist_to_adapter (r\<lparr>rg_entries := es, rg_capacity := c\<rparr>)) = fst (persist_to_adapter (r\<lparr>rg_entries := es\<rparr>))"
  by (simp add: persist_to_adapter_def split: option.split prod.split)

lemma register_outcome:
  assumes "registry_ok r" "allocation_registry_register ok r e = (ret, r')"
  obtains (refused) "ret \<noteq> ENPU_SUCCESS" "r' = r"
  | (unsaved) "ret \<noteq> ENPU_SUCCESS" "kept_unsaved r ret r'"
  | (stored) "ret = ENPU_SUCCESS" "rg_entries r' = rg_entries r @ [e]" "registry_ok r'" "reg_lookup r (alloc_key e) = None"
proof (cases "al_pod_uid e = [] \<or> al_container_name e = [] \<or> reg_lookup r (alloc_key e) \<noteq> None
     \<or> MAX_ALLOC_COUNT \<le> length (rg_entries r) \<or> rg_capacity r \<le> length (rg_entries r) \<and> \<not> ok")
  case True
  then have "ret \<noteq> ENPU_SUCCESS \<and> r' = r"
    using assms(2) by (auto simp: allocation_registry_register_def find_entry_index_nonneg alloc_key_def split: if_splits)
  then show ?thesis using refused by blast
next
  case False
  obtain cap where reg: "allocation_registry_register ok r e = persist_to_adapter (r\<lparr>rg_entries := rg_entries r @ [e], rg_capacity := cap\<rparr>)"
    using register_accept [OF assms(1), of e ok] False by (metis not_le)
  define q where "q = r\<lparr>rg_entries := rg_entries r @ [e], rg_capacity := cap\<rparr>"
  have pq: "persist_to_adapter q = (ret, r')" using reg assms(2) unfolding q_def by metis
  have es: "rg_entries r' = rg_entries r @ [e]" using persist_entries(1) [of q] unfolding pq by (simp add: q_def)
  have fresh: "reg_lookup r (alloc_key e) = None" using False by blast
  show ?thesis
  proof (cases "ret = ENPU_SUCCESS")
    case True
    moreover have "registry_ok r'" using registry_ok_register [OF assms(1), of ok e] assms(2) by simp
    ultimately show ?thesis using stored es fresh by blast
  next
    case False
    have "fst (persist_to_adapter (r\<lparr>rg_entries := rg_entries r @ [e]\<rparr>)) = ret"
      using pq persist_capacity [of cap "rg_entries r @ [e]" r] unfolding q_def by simp
    then show ?thesis using unsaved False es fresh unfolding kept_unsaved_def by blast
  qed
qed

text \<open>The allocation that is registered, and the allocator after a granted request.\<close>

definition final_alloc :: "allocation \<Rightarrow> nat \<Rightarrow> string \<Rightarrow> allocation" where
  "final_alloc e0 d name = e0\<lparr>al_phy_id := int d, al_shm_id := copy_str SHM_ID_LEN name\<rparr>"

definition config_path :: "'st npu_allocator \<Rightarrow> alloc_request \<Rightarrow> string" where
  "config_path a req = ac_config_base a @ aq_pod_uid req @ ''/'' @ aq_container_name req @ ''/npu_info.config''"

definition granted :: "'st npu_allocator \<Rightarrow> nat \<Rightarrow> npu_node \<Rightarrow> nat \<Rightarrow> nat \<Rightarrow> alloc_request \<Rightarrow> allocation \<Rightarrow> 'st npu_allocator \<Rightarrow> bool" where
  "granted a0 p n i d req e a' \<longleftrightarrow> (\<exists>mgr r l. a' = a0\<lparr>
       ac_tree := put_node (ac_tree a0) p (occupy_node n i (al_aicore_quota e) (int (unat (al_hbm_quota e))) (al_sched_policy e) (al_vnpu_priority e)),
       ac_shm_mgr := mgr, ac_files := (ac_files a0)(config_path a0 req \<mapsto> config_content (config_of e (al_shm_id e))),
       ac_registry := r, ac_log := l\<rparr>
     \<and> shm_view mgr = (shm_view (ac_shm_mgr a0))((d, i) \<mapsto> build_shm_entry (int i) (al_hbm_quota e) (al_hbm_limit e) (al_sched_policy e)
           (al_swap_priority e) (ac_oversub_ratio a0 d > 0))
     \<and> shm_named mgr \<and> rg_entries r = rg_entries (ac_registry a0) @ [e] \<and> registry_ok r
     \<and> reg_lookup (ac_registry a0) (alloc_key e) = None)"

definition outcome :: "'st npu_allocator \<Rightarrow> nat \<Rightarrow> npu_node \<Rightarrow> nat \<Rightarrow> nat \<Rightarrow> alloc_request \<Rightarrow> allocation \<Rightarrow> 'st alloc_result \<Rightarrow> bool" where
  "outcome a0 p n i d req e0 result \<longleftrightarrow>
     (\<exists>ret a' resp' r. result = Some (ret, a', req, resp') \<and> ret \<noteq> ENPU_SUCCESS \<and> rp_result resp' = ret
       \<and> (r = ac_registry a0 \<or> kept_unsaved (ac_registry a0) ret r) \<and> restored (a0\<lparr>ac_registry := r\<rparr>) a')
   \<or> (\<exists>name a'. result = Some (ENPU_SUCCESS, a', req,
         success_response (response_zero\<lparr>rp_shm_id := name\<rparr>) (final_alloc e0 d name) n)
       \<and> granted a0 p n i d req (final_alloc e0 d name) a')"

lemma outcome_fail:
  assumes "\<exists>a'. result = Some (ret, a', req, reject resp ret msg) \<and> restored a0 a'" "ret \<noteq> ENPU_SUCCESS"
  shows "outcome a0 p n i d req e0 result"
proof -
  obtain a' where "result = Some (ret, a', req, reject resp ret msg)" "restored (a0\<lparr>ac_registry := ac_registry a0\<rparr>) a'" using assms(1) by auto
  moreover have "rp_result (reject resp ret msg) = ret" by (simp add: reject_def)
  ultimately show ?thesis unfolding outcome_def using assms(2) by blast
qed

lemma outcome_unsaved:
  assumes "\<exists>a'. result = Some (ret, a', req, reject resp ret msg) \<and> restored (a0\<lparr>ac_registry := r\<rparr>) a'" "ret \<noteq> ENPU_SUCCESS"
    "kept_unsaved (ac_registry a0) ret r"
  shows "outcome a0 p n i d req e0 result"
proof -
  obtain a' where "result = Some (ret, a', req, reject resp ret msg)" "restored (a0\<lparr>ac_registry := r\<rparr>) a'" using assms(1) by auto
  moreover have "rp_result (reject resp ret msg) = ret" by (simp add: reject_def)
  ultimately show ?thesis unfolding outcome_def using assms(2,3) by blast
qed

lemma log_step_simps:
  "length (ac_log a) < MAX_STEPS \<Longrightarrow>
     log_step a ty phy v x y z pod cont shm = a\<lparr>ac_log := ac_log a @ [\<lparr>rb_type = ty, rb_phy_id = phy, rb_vnpu_id = v, rb_aicore_delta = x,
       rb_hbm_delta = y, rb_sched_policy = z, rb_pod_uid = copy_str MAX_UUID_LEN pod, rb_container_name = copy_str MAX_NAME_LEN cont,
       rb_shm_id = copy_str SHM_ID_LEN shm\<rparr>]\<rparr>"
  by (simp add: log_step_def rollback_log_append_def step_string_def)

lemma copy_str_Nil [simp]: "copy_str k [] = []"
  by (simp add: copy_str_def)

text \<open>A request whose allocation \<open>e0\<close> fits the free slot.\<close>

definition fits :: "'st npu_allocator \<Rightarrow> nat \<Rightarrow> npu_node \<Rightarrow> nat \<Rightarrow> nat \<Rightarrow> allocation \<Rightarrow> bool" where
  "fits a0 p n i d e0 \<longleftrightarrow> placeable a0 p n i d \<and> al_vnpu_id e0 = int i \<and> 0 \<le> al_aicore_quota e0 \<and> al_aicore_quota e0 \<le> HUNDRED_CORE
     \<and> unat (al_hbm_quota e0) < 2 ^ 63 \<and> al_die_id e0 \<noteq> [] \<and> length (al_die_id e0) < DIE_ID_LEN
     \<and> registry_ok (ac_registry a0)"

lemma sint_unat: "unat (w :: u64) < 2 ^ 63 \<Longrightarrow> sint w = int (unat w)"
proof -
  assume "unat w < 2 ^ 63"
  then have "uint w < 2 ^ 63" by (simp only: uint_nat of_nat_less_numeral_power_cancel_iff)
  moreover have "- (2 ^ 63) \<le> uint w" by (rule order_trans [OF _ uint_ge_0]) simp
  ultimately have "signed_take_bit 63 (uint w) = uint w" by (intro signed_take_bit_int_eq_self)
  then show ?thesis by (simp add: sint_uint)
qed

lemma fitsD:
  assumes "fits a0 p n i d e0"
  shows "placeable a0 p n i d" "al_vnpu_id e0 = int i" "al_aicore_quota e0 \<noteq> 2 ^ 31" "0 \<le> int (unat (al_hbm_quota e0))"
    "int (unat (al_hbm_quota e0)) < 2 ^ 63" "al_die_id e0 \<noteq> []" "registry_ok (ac_registry a0)"
    "npu_node_get_phy_id (Some n) = int d" "sint (al_hbm_quota e0) = int (unat (al_hbm_quota e0))"
proof -
  show "sint (al_hbm_quota e0) = int (unat (al_hbm_quota e0))"
    using assms by (intro sint_unat) (simp add: fits_def)
  note f = assms [unfolded fits_def]
  show "placeable a0 p n i d" "al_vnpu_id e0 = int i" "al_die_id e0 \<noteq> []" "registry_ok (ac_registry a0)"
    using f by blast+
  show "al_aicore_quota e0 \<noteq> 2 ^ 31" using f by auto
  show "int (unat (al_hbm_quota e0)) < 2 ^ 63" using f by (simp only: of_nat_less_numeral_power_cancel_iff)
  show "npu_node_get_phy_id (Some n) = int d" using f by (simp add: placeable_def npu_node_get_phy_id_def)
qed simp

lemma register_outcome_spec:
  assumes f: "fits a0 p n i d e0" and e: "e = final_alloc e0 d name"
    and a1: "a1 = a0\<lparr>ac_tree := put_node (ac_tree a0) p (occupy_node n i (al_aicore_quota e) (int (unat (al_hbm_quota e))) (al_sched_policy e) (al_vnpu_priority e)),
      ac_shm_mgr := mgr, ac_files := (ac_files a0)(config_path a0 req \<mapsto> config_content (config_of e (al_shm_id e))),
      ac_log := tree_steps n i (al_aicore_quota e) (int (unat (al_hbm_quota e))) (al_sched_policy e)
        @ [shm_step n i name, config_step n i (aq_pod_uid req) (aq_container_name req)]\<rparr>"
    and mgr: "shm_view mgr = (shm_view (ac_shm_mgr a0))((d, i) \<mapsto> build_shm_entry (int i) (al_hbm_quota e) (al_hbm_limit e) (al_sched_policy e)
           (al_swap_priority e) (ac_oversub_ratio a0 d > 0))" "shm_named mgr" "name \<noteq> []"
  shows "outcome a0 p n i d req e0 (commit_register env a1 n req (response_zero\<lparr>rp_shm_id := name\<rparr>) e)"
proof -
  note fd = fitsD [OF f]
  have same: "al_aicore_quota e = al_aicore_quota e0" "al_hbm_quota e = al_hbm_quota e0" "al_vnpu_id e = al_vnpu_id e0"
    by (simp_all add: e final_alloc_def)
  obtain ret r where reg: "allocation_registry_register (ae_registry env) (ac_registry a0) e = (ret, r)" by fastforce
  from fd(7) reg show ?thesis
  proof (cases rule: register_outcome)
    case refused
    have "\<exists>k a'. rollback_steps (ae_file env) (rev (ac_log a1)) (0, a1) = Some (k, a') \<and> restored a0 (a'\<lparr>ac_log := []\<rparr>)"
      using undo_config [OF fd(1) _ _ _ a1 mgr, of "ae_file env" "aq_pod_uid req" "aq_container_name req" 0] fd(3,4,5)
      unfolding same by (simp add: a1 same)
    from fail_allocate_restores [OF this] have "\<exists>a'. fail_allocate env a1 req resp ret msg = Some (ret, a', req, reject resp ret msg) \<and> restored a0 a'" for resp msg .
    moreover have "a1\<lparr>ac_registry := r\<rparr> = a1" using refused(2) a1 by simp
    ultimately show ?thesis
      using refused(1) reg a1 by (intro outcome_fail [where ret = ret]) (simp_all add: commit_register_def Let_def)
  next
    case unsaved
    let ?a0 = "a0\<lparr>ac_registry := r\<rparr>" and ?a1 = "a1\<lparr>ac_registry := r\<rparr>"
    have pl: "placeable ?a0 p n i d" using fd(1) by (simp add: placeable_def)
    have a1': "?a1 = ?a0\<lparr>ac_tree := put_node (ac_tree ?a0) p (occupy_node n i (al_aicore_quota e) (int (unat (al_hbm_quota e))) (al_sched_policy e) (al_vnpu_priority e)),
      ac_shm_mgr := mgr, ac_files := ac_files a1, ac_log := ac_log a1\<rparr>" using a1 by simp
    have mgr': "shm_view mgr = (shm_view (ac_shm_mgr ?a0))((d, i) \<mapsto> build_shm_entry (int i) (al_hbm_quota e) (al_hbm_limit e) (al_sched_policy e)
           (al_swap_priority e) (ac_oversub_ratio a0 d > 0))" using mgr(1) by simp
    have "\<exists>k a'. rollback_steps (ae_file env) (rev (ac_log ?a1)) (0, ?a1) = Some (k, a') \<and> restored ?a0 (a'\<lparr>ac_log := []\<rparr>)"
      using undo_config [OF pl _ _ _ a1' mgr' mgr(2,3), of "ae_file env" "aq_pod_uid req" "aq_container_name req" 0] fd(3,4,5)
      unfolding same by (simp add: a1 same)
    from fail_allocate_restores [OF this] have "\<exists>a'. fail_allocate env ?a1 req resp ret msg = Some (ret, a', req, reject resp ret msg) \<and> restored ?a0 a'" for resp msg .
    then show ?thesis
      using unsaved reg a1 by (intro outcome_unsaved [where ret = ret]) (simp_all add: commit_register_def Let_def)
  next
    case stored
    let ?a = "log_step (a1\<lparr>ac_registry := r\<rparr>) STEP_SAVE_CHECKPOINT (al_phy_id e) (al_vnpu_id e) 0 0 0 (aq_pod_uid req) (aq_container_name req) []"
    have "commit_register env a1 n req (response_zero\<lparr>rp_shm_id := name\<rparr>) e
        = Some (ENPU_SUCCESS, ?a, req, success_response (response_zero\<lparr>rp_shm_id := name\<rparr>) e n)"
      using reg stored(1) a1 by (simp add: commit_register_def Let_def)
    moreover have "granted a0 p n i d req e ?a"
      unfolding granted_def
      by (intro exI [of _ mgr] exI [of _ r] exI [of _ "ac_log ?a"] conjI)
         (use stored mgr a1 in \<open>simp_all add: log_step_def\<close>)
    ultimately show ?thesis unfolding outcome_def e by blast
  qed
qed


lemma write_config_outcome:
  "\<exists>ret fs'. config_manager_write_config env base fs pod cont c = Some (ret, fs')
    \<and> (ret = ENPU_SUCCESS \<longrightarrow> fs' = fs(base @ pod @ ''/'' @ cont @ ''/npu_info.config'' \<mapsto> config_content c))"
proof (cases "config_manager_write_config env base fs pod cont c")
  case None
  then show ?thesis
    by (auto simp: config_manager_write_config_def format_into_def create_dir_recursive_def Let_def generate_config_content_def
        split: if_splits)
next
  case (Some r)
  obtain ret fs' where r: "r = (ret, fs')" by fastforce
  have "fs' = fs(base @ pod @ ''/'' @ cont @ ''/npu_info.config'' \<mapsto> config_content c)" if "ret = ENPU_SUCCESS"
    using Some that unfolding r
    by (auto simp: config_manager_write_config_def format_into_def generate_config_content_def write_file_content_def bind_eq_Some_conv
        split: if_splits option.splits)
  then show ?thesis using Some r by blast
qed

lemma config_outcome_spec:
  assumes f: "fits a0 p n i d e0" and e: "e = final_alloc e0 d name"
    and a1: "a1 = a0\<lparr>ac_tree := put_node (ac_tree a0) p (occupy_node n i (al_aicore_quota e0) (int (unat (al_hbm_quota e0))) (al_sched_policy e0) (al_vnpu_priority e0)),
      ac_shm_mgr := mgr,
      ac_log := tree_steps n i (al_aicore_quota e0) (int (unat (al_hbm_quota e0))) (al_sched_policy e0) @ [shm_step n i name]\<rparr>"
    and mgr: "shm_view mgr = (shm_view (ac_shm_mgr a0))((d, i) \<mapsto> build_shm_entry (int i) (al_hbm_quota e0) (al_hbm_limit e0) (al_sched_policy e0)
           (al_swap_priority e0) (ac_oversub_ratio a0 d > 0))" "shm_named mgr" "name \<noteq> []"
  shows "outcome a0 p n i d req e0 (commit_config env a1 n req (response_zero\<lparr>rp_shm_id := name\<rparr>) e0)"
proof -
  note fd = fitsD [OF f]
  have same: "al_aicore_quota e = al_aicore_quota e0" "al_hbm_quota e = al_hbm_quota e0" "al_sched_policy e = al_sched_policy e0"
    "al_vnpu_priority e = al_vnpu_priority e0" "al_hbm_limit e = al_hbm_limit e0" "al_swap_priority e = al_swap_priority e0"
    by (simp_all add: e final_alloc_def)
  have e': "e0\<lparr>al_phy_id := int d, al_shm_id := copy_str SHM_ID_LEN name\<rparr> = e" by (simp add: e final_alloc_def)
  obtain ret fs' where w: "config_manager_write_config (ae_file env) (ac_config_base a0) (ac_files a0) (aq_pod_uid req) (aq_container_name req)
      (config_of e (al_shm_id e)) = Some (ret, fs')"
    "ret = ENPU_SUCCESS \<Longrightarrow> fs' = (ac_files a0)(config_path a0 req \<mapsto> config_content (config_of e (al_shm_id e)))"
    using write_config_outcome [of "ae_file env" "ac_config_base a0" "ac_files a0" "aq_pod_uid req" "aq_container_name req" "config_of e (al_shm_id e)"]
    unfolding config_path_def by blast
  define a2 where "a2 = a1\<lparr>ac_files := fs'\<rparr>"
  have a2: "a2 = a0\<lparr>ac_tree := put_node (ac_tree a0) p (occupy_node n i (al_aicore_quota e0) (int (unat (al_hbm_quota e0))) (al_sched_policy e0) (al_vnpu_priority e0)),
      ac_shm_mgr := mgr, ac_files := fs', ac_log := ac_log a1\<rparr>" using a1 by (simp add: a2_def)
  have r: "rev (ac_log a2) = [shm_step n i name, policy_step n i (al_sched_policy e0),
      quota_step n i (al_aicore_quota e0) (int (unat (al_hbm_quota e0))), mark_step n i]" using a1 a2 by simp
  have shm: "al_shm_id e = copy_str SHM_ID_LEN name" by (simp add: e final_alloc_def)
  have a1_fields: "ac_config_base a1 = ac_config_base a0" "ac_files a1 = ac_files a0" using a1 by simp_all
  have eq: "commit_config env a1 n req (response_zero\<lparr>rp_shm_id := name\<rparr>) e0 =
      (if ret \<noteq> ENPU_SUCCESS
       then fail_allocate env a2 req (response_zero\<lparr>rp_shm_id := name\<rparr>) ret (Config_failed (aq_pod_uid req) (aq_container_name req) ret)
       else commit_register env (log_step a2 STEP_WRITE_CONFIG (int d) (int i) 0 0 0 (aq_pod_uid req) (aq_container_name req) [])
              n req (response_zero\<lparr>rp_shm_id := name\<rparr>) e)"
    by (simp add: commit_config_def Let_def fd(2,8) e' a1_fields w(1) [unfolded shm] a2_def)
  show ?thesis
  proof (cases "ret = ENPU_SUCCESS")
    case False
    have "\<exists>k a'. rollback_steps (ae_file env) (rev (ac_log a2)) (0, a2) = Some (k, a') \<and> restored a0 (a'\<lparr>ac_log := []\<rparr>)"
      using undo_shm [OF fd(1,4,5,3) a2 mgr, of "ae_file env" 0] unfolding r by blast
    from fail_allocate_restores [OF this] have
      "\<exists>a'. fail_allocate env a2 req resp ret msg = Some (ret, a', req, reject resp ret msg) \<and> restored a0 a'" for resp msg .
    then show ?thesis using False unfolding eq by (intro outcome_fail [where ret = ret]) auto
  next
    case True
    let ?a = "log_step a2 STEP_WRITE_CONFIG (int d) (int i) 0 0 0 (aq_pod_uid req) (aq_container_name req) []"
    have "?a = a0\<lparr>ac_tree := put_node (ac_tree a0) p (occupy_node n i (al_aicore_quota e) (int (unat (al_hbm_quota e))) (al_sched_policy e) (al_vnpu_priority e)),
      ac_shm_mgr := mgr, ac_files := (ac_files a0)(config_path a0 req \<mapsto> config_content (config_of e (al_shm_id e))),
      ac_log := tree_steps n i (al_aicore_quota e) (int (unat (al_hbm_quota e))) (al_sched_policy e)
        @ [shm_step n i name, config_step n i (aq_pod_uid req) (aq_container_name req)]\<rparr>"
      using w(2) [OF True] a1 placeableD(2) [OF fd(1)] by (simp add: log_step_simps a2 same config_step_def)
    from register_outcome_spec [OF f e this, of env] mgr show ?thesis using True unfolding eq by (simp add: same)
  qed
qed

lemma shm_outcome_spec:
  assumes f: "fits a0 p n i d e0"
    and a1: "a1 = a0\<lparr>ac_tree := put_node (ac_tree a0) p (occupy_node n i (al_aicore_quota e0) (int (unat (al_hbm_quota e0))) (al_sched_policy e0) (al_vnpu_priority e0)),
      ac_log := tree_steps n i (al_aicore_quota e0) (int (unat (al_hbm_quota e0))) (al_sched_policy e0)\<rparr>"
  shows "outcome a0 p n i d req e0 (commit_shm env a1 n req e0)"
proof -
  note fd = fitsD [OF f]
  note pd = placeableD [OF fd(1)]
  let ?e = "build_shm_entry (int i) (al_hbm_quota e0) (al_hbm_limit e0) (al_sched_policy e0) (al_swap_priority e0) (ac_oversub_ratio a0 d > 0)"
  have id: "ve_vnpu_id ?e = int i" by (simp add: build_shm_entry_def)
  have m1: "shm_named (ac_shm_mgr a1)" "shm_view (ac_shm_mgr a1) (d, i) = None" using pd(4,5) a1 by simp_all
  show ?thesis
  proof (cases rule: shm_apply_spec [OF pd(3,7) fd(6) id m1, of env "npu_node_get_total_memory (Some n)" "al_vnpu_priority e0", case_names fails applies])
    case (fails ret mgr' name)
    define a2 where "a2 = a1\<lparr>ac_shm_mgr := mgr'\<rparr>"
    have a2: "a2 = a0\<lparr>ac_tree := put_node (ac_tree a0) p (occupy_node n i (al_aicore_quota e0) (int (unat (al_hbm_quota e0))) (al_sched_policy e0) (al_vnpu_priority e0)),
      ac_shm_mgr := mgr', ac_files := ac_files a0, ac_log := ac_log a1\<rparr>" using a1 by (simp add: a2_def)
    have r: "rev (ac_log a2) = [policy_step n i (al_sched_policy e0),
      quota_step n i (al_aicore_quota e0) (int (unat (al_hbm_quota e0))), mark_step n i]" using a1 a2 by simp
    have mgr': "shm_view mgr' = shm_view (ac_shm_mgr a0)" "shm_named mgr'" using fails(3,4) a1 by simp_all
    have "\<exists>k a'. rollback_steps (ae_file env) (rev (ac_log a2)) (0, a2) = Some (k, a') \<and> restored a0 (a'\<lparr>ac_log := []\<rparr>)"
      using undo_tree [OF fd(1,4,5,3) a2 mgr', of "ae_file env" 0] unfolding r by blast
    from fail_allocate_restores [OF this] have
      "\<exists>a'. fail_allocate env a2 req resp ret msg = Some (ret, a', req, reject resp ret msg) \<and> restored a0 a'" for resp msg .
    then show ?thesis using fails(1,2) fd(2,8) pd(3) a1
      by (intro outcome_fail [where ret = ret]) (simp_all add: commit_shm_def Let_def a2_def)
  next
    case (applies mgr' name)
    let ?a = "log_step (a1\<lparr>ac_shm_mgr := mgr'\<rparr>) STEP_CREATE_SHM (int d) (int i) 0 0 0 [] [] name"
    have "?a = a0\<lparr>ac_tree := put_node (ac_tree a0) p (occupy_node n i (al_aicore_quota e0) (int (unat (al_hbm_quota e0))) (al_sched_policy e0) (al_vnpu_priority e0)),
      ac_shm_mgr := mgr',
      ac_log := tree_steps n i (al_aicore_quota e0) (int (unat (al_hbm_quota e0))) (al_sched_policy e0) @ [shm_step n i name]\<rparr>"
      using a1 pd(2) by (simp add: log_step_simps shm_step_def)
    moreover have "shm_view mgr' = (shm_view (ac_shm_mgr a0))((d, i) \<mapsto> ?e)" using applies(3) a1 by simp
    ultimately have "outcome a0 p n i d req e0 (commit_config env ?a n req (response_zero\<lparr>rp_shm_id := name\<rparr>) e0)"
      using applies(1,4) by (intro config_outcome_spec [OF f refl])
    then show ?thesis using applies(2) fd(2,8) pd(3) a1 by (simp add: commit_shm_def Let_def)
  qed
qed

lemma tree_outcome_spec:
  assumes f: "fits a0 p n i d e0" and l: "ac_log a0 = []"
  shows "outcome a0 p n i d req e0 (commit_tree env a0 p n req resp e0)"
proof -
  note fd = fitsD [OF f]
  note pd = placeableD [OF fd(1)]
  define ac where "ac = al_aicore_quota e0"
  define h where "h = int (unat (al_hbm_quota e0))"
  define pol where "pol = al_sched_policy e0"
  define prio where "prio = al_vnpu_priority e0"
  have h: "0 \<le> h" "h < 2 ^ 63" "sint (al_hbm_quota e0) = h" unfolding h_def by (rule fd)+
  have ac: "ac \<noteq> 2 ^ 31" unfolding ac_def by (rule fd)
  note steps = occupy_steps [OF pd(1) h(1,2)]
  have neg: "neg_i64 h = Some (- h)" using h(1) by (auto simp: neg_i64_def)
  define a1 where "a1 = log_step (a0\<lparr>ac_tree := put_node (ac_tree a0) p (charged_node n i 0 0)\<rparr>) STEP_MARK_OCCUPIED (int d) (int i) 0 0 0 [] [] []"
  define a2 where "a2 = log_step (a1\<lparr>ac_tree := put_node (ac_tree a0) p (charged_node n i ac h)\<rparr>) STEP_UPDATE_QUOTA (int d) (int i) (- ac) (- h) 0 [] [] []"
  have a1: "a1 = a0\<lparr>ac_tree := put_node (ac_tree a0) p (charged_node n i 0 0), ac_log := [mark_step n i]\<rparr>"
    using l pd(2) by (simp add: a1_def log_step_simps mark_step_def)
  have a2: "a2 = a0\<lparr>ac_tree := put_node (ac_tree a0) p (charged_node n i ac h), ac_log := [mark_step n i, quota_step n i ac h]\<rparr>"
    using pd(2) by (simp add: a2_def a1 log_step_simps quota_step_def)
  have t: "ac_tree a1 = put_node (ac_tree a0) p (charged_node n i 0 0)" "ac_tree a2 = put_node (ac_tree a0) p (charged_node n i ac h)"
    by (simp_all add: a1 a2)
  have eq: "commit_tree env a0 p n req resp e0 =
      (if nd_policy_entries n = None \<and> \<not> ae_policy env
       then fail_allocate env a2 req resp ENPU_FAIL (Policy_failed (int d) (int i) pol ENPU_FAIL)
       else commit_shm env (log_step (a2\<lparr>ac_tree := put_node (ac_tree a0) p (occupy_node n i ac h pol prio)\<rparr>)
              STEP_ATTACH_POLICY (int d) (int i) 0 0 pol [] [] []) n req e0)"
  proof -
    have same: "a2\<lparr>ac_tree := put_node (ac_tree a0) p (charged_node n i ac h)\<rparr> = a2" by (simp add: a2)
    show ?thesis
      by (simp add: commit_tree_def Let_def same fd(2,8) steps(1) steps(2) [of ac] steps(3) [of "ae_policy env" ac pol prio] neg h(3)
          ac_def [symmetric] pol_def [symmetric] prio_def [symmetric] t a1_def [symmetric] a2_def [symmetric])
  qed
  show ?thesis
  proof (cases "nd_policy_entries n = None \<and> \<not> ae_policy env")
    case True
    then show ?thesis unfolding eq using undo_quota [OF fd(1) h(1,2) ac a2]
      by (intro outcome_fail [where ret = ENPU_FAIL and resp = resp]) auto
  next
    case False
    let ?a = "log_step (a2\<lparr>ac_tree := put_node (ac_tree a0) p (occupy_node n i ac h pol prio)\<rparr>) STEP_ATTACH_POLICY (int d) (int i) 0 0 pol [] [] []"
    have "?a = a0\<lparr>ac_tree := put_node (ac_tree a0) p (occupy_node n i ac h pol prio), ac_log := tree_steps n i ac h pol\<rparr>"
      using pd(2) by (simp add: a2 log_step_simps policy_step_def)
    from shm_outcome_spec [OF f this [unfolded ac_def h_def pol_def prio_def], of req env] False show ?thesis
      unfolding eq by (simp only: if_False ac_def h_def pol_def prio_def)
  qed
qed

end
