(* ===== verification/Allocator_Runs.thy ===== *)
theory Allocator_Runs
  imports Allocator_Books
begin

text \<open>
  The allocator as a whole. \<open>books\<close> is the invariant that ties the device tree, the shared memory
  and the registry together: every registered allocation occupies one slot of its device, is charged to the
  quotas of that device exactly once, and is mirrored by one entry of the shared memory of the die. The theory
  shows that allocation and release keep it on every branch, that a failed allocation leaves no trace, what a
  granted one does, that a release undoes it, and that recovery rebuilds it.
\<close>

section \<open>The books\<close>

definition on_die :: "allocation list \<Rightarrow> int \<Rightarrow> allocation list" where
  "on_die es phy_id = filter (\<lambda>e. al_phy_id e = phy_id) es"

definition shm_slot :: "allocation \<Rightarrow> nat \<times> nat" where
  "shm_slot e = (nat (al_phy_id e), nat (al_vnpu_id e))"

definition policy_of :: "allocation \<Rightarrow> vnpu_policy_entry" where
  "policy_of e = \<lparr>pe_vnpu_id = al_vnpu_id e, pe_sched_policy = al_sched_policy e, pe_vnpu_priority = al_vnpu_priority e\<rparr>"

text \<open>The vNPUs of normal priority on a device share one scheduling policy.\<close>

definition one_policy :: "allocation list \<Rightarrow> bool" where
  "one_policy es \<longleftrightarrow> (\<forall>x \<in> set es. \<forall>y \<in> set es. al_vnpu_priority x \<noteq> VNPU_PRIORITY_HIGH \<longrightarrow> al_vnpu_priority y \<noteq> VNPU_PRIORITY_HIGH
     \<longrightarrow> al_sched_policy x = al_sched_policy y)"

definition device_books :: "int \<times> nat \<Rightarrow> allocation list \<Rightarrow> npu_node \<Rightarrow> bool" where
  "device_books c es n \<longleftrightarrow>
     occupied n = (\<lambda>e. nat (al_vnpu_id e)) ` set es
     \<and> 0 \<le> sint (na_aicore_quota (nd_allocatable n))
     \<and> sint (na_aicore_quota (nd_allocatable n)) + (\<Sum>e\<leftarrow>es. al_aicore_quota e) = fst c
     \<and> unat (na_hbm_quota (nd_allocatable n)) + (\<Sum>e\<leftarrow>es. unat (al_hbm_quota e)) = snd c
     \<and> fst c < 2 ^ 31 \<and> snd c < 2 ^ 64
     \<and> set (policy_list n) = policy_of ` set es \<and> one_policy es
     \<and> (\<forall>e \<in> set es. al_hbm_limit e \<le> die_hbm_total_mb n)"

definition mirrors :: "vnpu_shm_entry \<Rightarrow> allocation \<Rightarrow> bool" where
  "mirrors x e \<longleftrightarrow> ve_vnpu_id x = al_vnpu_id e \<and> ve_hbm_request x = al_hbm_quota e \<and> ve_hbm_limit x = al_hbm_limit e
     \<and> ve_sched_policy x = al_sched_policy e \<and> ve_swap_priority x = al_swap_priority e"

definition shm_books :: "(nat \<times> nat \<rightharpoonup> vnpu_shm_entry) \<Rightarrow> allocation list \<Rightarrow> bool" where
  "shm_books view es \<longleftrightarrow> dom view = shm_slot ` set es \<and> (\<forall>e \<in> set es. mirrors (the (view (shm_slot e))) e)"

definition entry_ok :: "allocation \<Rightarrow> bool" where
  "entry_ok e \<longleftrightarrow> 0 \<le> al_vnpu_id e \<and> al_vnpu_id e < 64 \<and> 0 \<le> al_aicore_quota e \<and> al_aicore_quota e \<le> HUNDRED_CORE
     \<and> unat (al_hbm_quota e) < 2 ^ 63 \<and> al_die_id e \<noteq> [] \<and> length (al_die_id e) < DIE_ID_LEN"

definition tree_books :: "(nat \<Rightarrow> int \<times> nat) \<Rightarrow> allocation list \<Rightarrow> npu_tree \<Rightarrow> bool" where
  "tree_books cap es t \<longleftrightarrow> tree_wf t \<and> nt_initialized t
     \<and> (\<forall>p \<in> set (nt_leaves t). nm_die_id (nd_meta (the (nt_heap t p))) \<noteq> []
          \<and> device_books (cap p) (on_die es (leaf_phy t p)) (the (nt_heap t p)))
     \<and> (\<forall>e \<in> set es. entry_ok e \<and> al_phy_id e \<in> leaf_phy t ` set (nt_leaves t))
     \<and> distinct (map shm_slot es)"

definition books :: "(nat \<Rightarrow> int \<times> nat) \<Rightarrow> 'st npu_allocator \<Rightarrow> bool" where
  "books cap a \<longleftrightarrow> tree_books cap (rg_entries (ac_registry a)) (ac_tree a)
     \<and> registry_ok (ac_registry a)
     \<and> shm_named (ac_shm_mgr a) \<and> shm_books (shm_view (ac_shm_mgr a)) (rg_entries (ac_registry a))"

lemma on_die_simps [simp]:
  "on_die [] phy = []" "on_die (es @ es') phy = on_die es phy @ on_die es' phy"
  "on_die (e # es) phy = (if al_phy_id e = phy then e # on_die es phy else on_die es phy)"
  "set (on_die es phy) = {e \<in> set es. al_phy_id e = phy}"
  by (auto simp: on_die_def)

lemma tree_booksD:
  assumes "tree_books cap es t" "p \<in> set (nt_leaves t)"
  obtains n d where "nt_heap t p = Some n" "node_ok n" "nm_phy_id (nd_meta n) = int d" "leaf_phy t p = int d" "d < MAX_NPU_PER_NODE"
    "nm_die_id (nd_meta n) \<noteq> []" "device_books (cap p) (on_die es (int d)) n"
proof -
  obtain n where n: "nt_heap t p = Some n" "node_ok n" "leaf_phy t p = nm_phy_id (nd_meta n)"
    using assms tree_wf_leaf unfolding tree_books_def by metis
  have "0 \<le> leaf_phy t p" "leaf_phy t p < int MAX_NPU_PER_NODE" using assms by (auto simp: tree_books_def tree_wf_def)
  then obtain d where "leaf_phy t p = int d" "d < MAX_NPU_PER_NODE" by (metis nonneg_int_cases of_nat_less_iff)
  then show ?thesis using that n assms unfolding tree_books_def by (metis option.sel)
qed

lemma tree_books_wf: "tree_books cap es t \<Longrightarrow> tree_wf t" "tree_books cap es t \<Longrightarrow> nt_initialized t"
  by (simp_all add: tree_books_def)

lemma tree_books_view:
  assumes "tree_books cap es t" "tree_view t' = tree_view t"
  shows "tree_books cap es t'"
proof -
  have same: "nt_leaves t' = nt_leaves t" "nt_initialized t' = nt_initialized t" using assms(2) by (auto simp: tree_view_def)
  have wf: "tree_wf t'" using tree_view_wf assms unfolding tree_books_def by blast
  have phy: "leaf_phy t' p = leaf_phy t p \<and> nd_meta (the (nt_heap t' p)) = nd_meta (the (nt_heap t p))
      \<and> nd_allocatable (the (nt_heap t' p)) = nd_allocatable (the (nt_heap t p))
      \<and> policy_list (the (nt_heap t' p)) = policy_list (the (nt_heap t p))" if p: "p \<in> set (nt_leaves t)" for p
  proof -
    obtain n where n: "nt_heap t p = Some n" using assms(1) p by (rule tree_booksD)
    have "map_option node_view (nt_heap t' p) = map_option node_view (nt_heap t p)"
      using assms(2) by (auto simp: tree_view_def fun_eq_iff)
    then obtain n' where "nt_heap t' p = Some n'" "node_view n' = node_view n" using n by auto
    then show ?thesis using n by (auto simp: leaf_phy_def node_view_def)
  qed
  have db: "device_books c es' n' = device_books c es' n" 
    if "nd_meta n' = nd_meta n" "nd_allocatable n' = nd_allocatable n" "policy_list n' = policy_list n" for c es' n n'
    using that by (simp add: device_books_def occupied_def die_hbm_total_mb_def npu_node_get_total_memory_def)
  have "leaf_phy t' ` set (nt_leaves t) = leaf_phy t ` set (nt_leaves t)" using phy by (auto intro!: image_cong)
  moreover have "nm_die_id (nd_meta (the (nt_heap t' p))) \<noteq> []
          \<and> device_books (cap p) (on_die es (leaf_phy t' p)) (the (nt_heap t' p))" if p: "p \<in> set (nt_leaves t)" for p
  proof -
    have "device_books (cap p) (on_die es (leaf_phy t p)) (the (nt_heap t p))" "nm_die_id (nd_meta (the (nt_heap t p))) \<noteq> []"
      using assms(1) p by (auto simp: tree_books_def)
    then show ?thesis using phy [OF p] db by metis
  qed
  ultimately show ?thesis using assms(1) wf by (simp add: tree_books_def same)
qed

lemma books_restored:
  assumes "books cap a" "restored a a'"
  shows "books cap a'"
proof -
  obtain t mgr fs where "a' = a\<lparr>ac_tree := t, ac_shm_mgr := mgr, ac_files := fs, ac_log := []\<rparr>"
     "tree_view t = tree_view (ac_tree a)" "shm_view mgr = shm_view (ac_shm_mgr a)" "shm_named mgr"
    using assms(2) by (auto simp: restored_def)
  then show ?thesis using assms(1) tree_books_view by (auto simp: books_def)
qed


lemma slots_on_die:
  assumes "tree_books cap es t"
  shows "distinct (map (\<lambda>e. nat (al_vnpu_id e)) (on_die es (int d)))" "length (on_die es (int d)) \<le> 64"
proof -
  have d: "distinct (map shm_slot es)" and ok: "\<forall>e \<in> set es. entry_ok e" using assms by (auto simp: tree_books_def)
  have "distinct (map shm_slot (on_die es (int d)))" using d by (auto simp: on_die_def distinct_map inj_on_def)
  then have inj: "distinct (on_die es (int d))" "inj_on shm_slot (set (on_die es (int d)))" by (auto simp: distinct_map)
  have "inj_on (\<lambda>e. nat (al_vnpu_id e)) (set (on_die es (int d)))"
    using inj(2) by (auto simp: inj_on_def shm_slot_def)
  then show dist: "distinct (map (\<lambda>e. nat (al_vnpu_id e)) (on_die es (int d)))" using inj(1) by (simp add: distinct_map)
  have "set (map (\<lambda>e. nat (al_vnpu_id e)) (on_die es (int d))) \<subseteq> {..<64}" using ok by (auto simp: entry_ok_def)
  from card_mono [OF _ this] show "length (on_die es (int d)) \<le> 64" using distinct_card [OF dist] by simp
qed

text \<open>The sum the allocator forms over the bitmap of a die is the exact sum of the registered limits.\<close>

lemma word_sum_list: "sum_list (map f xs) = (of_nat (\<Sum>x\<leftarrow>xs. unat (f x)) :: u64)"
  by (induction xs) simp_all

lemma bitmap_ids_sum:
  assumes books: "tree_books cap es t" and shm: "shm_books view es"
    and view: "\<And>v. view (d, v) = (if vnpu_bitmap_test bm (int v) then Some (en v) else None)"
  shows "sum_list (map (\<lambda>v. ve_hbm_limit (en v)) (bitmap_ids bm)) = sum_list (map al_hbm_limit (on_die es (int d)))"
proof -
  let ?v = "\<lambda>e. nat (al_vnpu_id e)"
  have ok: "\<forall>e \<in> set es. entry_ok e \<and> 0 \<le> al_phy_id e"
    using books by (auto simp: tree_books_def tree_wf_def)
  have slot: "shm_slot e = (d, ?v e)" if "e \<in> set (on_die es (int d))" for e using that by (simp add: shm_slot_def)
  have test: "vnpu_bitmap_test bm (int v) \<longleftrightarrow> v \<in> ?v ` set (on_die es (int d))" for v
  proof -
    have "vnpu_bitmap_test bm (int v) \<longleftrightarrow> (d, v) \<in> shm_slot ` set es"
      using view [of v] shm unfolding shm_books_def by (metis domIff option.simps(3))
    also have "\<dots> \<longleftrightarrow> v \<in> ?v ` set (on_die es (int d))" using ok by (force simp: shm_slot_def)
    finally show ?thesis .
  qed
  have ids: "set (bitmap_ids bm) = ?v ` set (on_die es (int d))" "distinct (bitmap_ids bm)"
    using ok by (auto simp: bitmap_ids_def test entry_ok_def)
  have lim: "ve_hbm_limit (en (?v e)) = al_hbm_limit e" if e: "e \<in> set (on_die es (int d))" for e
  proof -
    have "mirrors (the (view (shm_slot e))) e" using shm e by (auto simp: shm_books_def)
    moreover have "view (d, ?v e) = Some (en (?v e))" using e test view by auto
    ultimately show ?thesis using slot [OF e] by (simp add: mirrors_def)
  qed
  have inj: "inj_on ?v (set (on_die es (int d)))" "distinct (on_die es (int d))"
    using slots_on_die(1) [OF books, of d] by (auto simp: distinct_map)
  have "sum_list (map (\<lambda>v. ve_hbm_limit (en v)) (bitmap_ids bm)) = (\<Sum>v \<in> ?v ` set (on_die es (int d)). ve_hbm_limit (en v))"
    using ids by (simp add: sum_list_distinct_conv_sum_set)
  also have "\<dots> = (\<Sum>e \<in> set (on_die es (int d)). ve_hbm_limit (en (?v e)))" using inj(1) by (simp add: sum.reindex)
  also have "\<dots> = (\<Sum>e \<in> set (on_die es (int d)). al_hbm_limit e)" using lim by (intro sum.cong) auto
  also have "\<dots> = sum_list (map al_hbm_limit (on_die es (int d)))" using inj(2) by (simp add: sum_list_distinct_conv_sum_set)
  finally show ?thesis .
qed

definition limits_on :: "allocation list \<Rightarrow> nat \<Rightarrow> nat" where
  "limits_on es d = (\<Sum>e\<leftarrow>on_die es (int d). unat (al_hbm_limit e))"

lemma die_total_small: "unat (die_hbm_total_mb n) < 2 ^ 44"
proof -
  have "unat (die_hbm_total_mb n) = unat (npu_node_get_total_memory (Some n)) div 2 ^ 20"
    by (simp add: die_hbm_total_mb_def unat_div)
  also have "\<dots> < 2 ^ 44"
  proof (rule less_mult_imp_div_less)
    have "unat (npu_node_get_total_memory (Some n)) < 2 ^ LENGTH(64)" by (rule unsigned_less)
    then show "unat (npu_node_get_total_memory (Some n)) < 2 ^ 44 * 2 ^ 20" by simp
  qed
  finally show ?thesis .
qed

lemma limits_small:
  assumes "tree_books cap es t"
  shows "limits_on es d \<le> 64 * 2 ^ 44"
proof -
  have "unat (al_hbm_limit e) \<le> 2 ^ 44" if e: "e \<in> set (on_die es (int d))" for e
  proof -
    obtain p where p: "p \<in> set (nt_leaves t)" "leaf_phy t p = int d" using assms e by (fastforce simp: tree_books_def)
    obtain n d' where "leaf_phy t p = int d'" "device_books (cap p) (on_die es (int d')) n"
      by (rule tree_booksD [OF assms p(1)])
    then have "al_hbm_limit e \<le> die_hbm_total_mb n" using e p(2) by (simp add: device_books_def)
    then show ?thesis using die_total_small [of n] by (simp add: word_le_nat_alt)
  qed
  then have "limits_on es d \<le> (\<Sum>e\<leftarrow>on_die es (int d). 2 ^ 44)" unfolding limits_on_def by (intro sum_list_mono) auto
  also have "\<dots> = length (on_die es (int d)) * 2 ^ 44" by (simp add: sum_list_triv)
  also have "\<dots> \<le> 64 * 2 ^ 44" using slots_on_die(2) [OF assms, of d] by (intro mult_right_mono) auto
  finally show ?thesis .
qed

lemma allocated_limits_exact:
  assumes "books cap a" "d < MAX_NPU_PER_NODE"
  shows "unat (allocated_limits (ac_shm_mgr a) d) = limits_on (rg_entries (ac_registry a)) d"
proof -
  let ?es = "rg_entries (ac_registry a)"
  have b: "tree_books cap ?es (ac_tree a)" "shm_books (shm_view (ac_shm_mgr a)) ?es" using assms(1) by (auto simp: books_def)
  have "allocated_limits (ac_shm_mgr a) d = sum_list (map al_hbm_limit (on_die ?es (int d)))"
  proof (cases "sm_shm_states (ac_shm_mgr a) d")
    case None
    then have v: "shm_view (ac_shm_mgr a) (d, v) = None" for v by (simp add: shm_view_def)
    have "on_die ?es (int d) = []"
    proof (rule ccontr)
      assume "on_die ?es (int d) \<noteq> []"
      then obtain e where e: "e \<in> set (on_die ?es (int d))" by (metis last_in_set)
      then have "shm_slot e \<in> dom (shm_view (ac_shm_mgr a))" using b(2) by (auto simp: shm_books_def)
      then show False using v e by (auto simp: shm_slot_def)
    qed
    then show ?thesis using None assms(2) by (simp add: allocated_limits_def get_state_die)
  next
    case (Some st)
    have "shm_view (ac_shm_mgr a) (d, v) = (if vnpu_bitmap_test (ss_vnpu_bitmap st) (int v) then Some (ss_entries st v) else None)" for v
      using Some assms(2) by (simp add: shm_view_def)
    from bitmap_ids_sum [OF b this] show ?thesis using Some assms(2) by (simp add: allocated_limits_def get_state_die)
  qed
  also have "\<dots> = of_nat (limits_on ?es d)" by (simp only: word_sum_list limits_on_def)
  finally show ?thesis using limits_small [OF b(1), of d] by (simp add: unsigned_of_nat take_bit_nat_eq_self)
qed


section \<open>Entering and leaving the books\<close>

lemma sint_i32_add: "- (2 ^ 31) \<le> sint (w :: i32) + x \<Longrightarrow> sint w + x < 2 ^ 31 \<Longrightarrow> sint (w + word_of_int x) = sint w + x"
proof -
  assume b: "- (2 ^ 31) \<le> sint w + x" "sint w + x < 2 ^ 31"
  have "w + word_of_int x = word_of_int (sint w + x)" by simp
  moreover have "sint (word_of_int (sint w + x) :: i32) = signed_take_bit 31 (sint w + x)" by (subst sint_sbintrunc') simp
  ultimately show ?thesis using signed_take_bit_int_eq_self [of 31 "sint w + x"] b by (simp only: power_numeral)
qed

lemma unat_u64_sub: "unat (h :: u64) \<le> unat (w :: u64) \<Longrightarrow> unat (w + word_of_int (- int (unat h))) = unat w - unat h"
  by (simp add: unat_sub word_le_nat_alt)

lemma unat_u64_add: "unat (w :: u64) + unat (h :: u64) < 2 ^ 64 \<Longrightarrow> unat (w + word_of_int (int (unat h))) = unat w + unat h"
  by (simp add: unat_add_lem [where 'a = 64, simplified])

lemma quota_sub:
  assumes "device_books c es n" "0 \<le> x" "x \<le> sint (na_aicore_quota (nd_allocatable n))"
  shows "sint (na_aicore_quota (nd_allocatable n) + word_of_int (- x)) = sint (na_aicore_quota (nd_allocatable n)) - x"
proof -
  have "sint (na_aicore_quota (nd_allocatable n)) < 2 ^ 31" using sint_lt [of "na_aicore_quota (nd_allocatable n)"] by simp
  then have "- (2 ^ 31) \<le> sint (na_aicore_quota (nd_allocatable n)) + - x" "sint (na_aicore_quota (nd_allocatable n)) + - x < 2 ^ 31"
    using assms(2,3) by linarith+
  from sint_i32_add [OF this] show ?thesis by linarith
qed

text \<open>The node with an allocation entered, and the agreement of its policy with those of the device.\<close>

abbreviation occupy_for :: "npu_node \<Rightarrow> allocation \<Rightarrow> npu_node" where
  "occupy_for n e \<equiv> occupy_node n (nat (al_vnpu_id e)) (al_aicore_quota e) (int (unat (al_hbm_quota e))) (al_sched_policy e) (al_vnpu_priority e)"

definition joins :: "allocation \<Rightarrow> npu_node \<Rightarrow> bool" where
  "joins e n \<longleftrightarrow> al_vnpu_priority e = VNPU_PRIORITY_HIGH \<or>
     (\<forall>x \<in> set (policy_list n). pe_vnpu_priority x = VNPU_PRIORITY_HIGH \<or> pe_sched_policy x = al_sched_policy e)"

lemma joins_one_policy:
  assumes "set (policy_list n) = policy_of ` set es" "one_policy es" "joins e n"
  shows "one_policy (es @ [e])"
proof -
  have new: "al_sched_policy x = al_sched_policy e"
    if "x \<in> set es" "al_vnpu_priority x \<noteq> VNPU_PRIORITY_HIGH" "al_vnpu_priority e \<noteq> VNPU_PRIORITY_HIGH" for x
    using assms(1,3) that by (auto simp: joins_def policy_of_def)
  show ?thesis unfolding one_policy_def
  proof (intro ballI impI)
    fix x y assume xy: "x \<in> set (es @ [e])" "y \<in> set (es @ [e])" "al_vnpu_priority x \<noteq> VNPU_PRIORITY_HIGH" "al_vnpu_priority y \<noteq> VNPU_PRIORITY_HIGH"
    then have "x = e \<or> x \<in> set es" "y = e \<or> y \<in> set es" by auto
    then show "al_sched_policy x = al_sched_policy y" using xy(3,4) new assms(2) unfolding one_policy_def by metis
  qed
qed

lemma device_books_occupy:
  assumes b: "device_books c es n" and i: "bit (na_vnpu_mask (nd_allocatable n)) i"
    and e: "al_vnpu_id e = int i" "0 \<le> al_aicore_quota e" "al_aicore_quota e \<le> sint (na_aicore_quota (nd_allocatable n))"
      "al_hbm_quota e \<le> na_hbm_quota (nd_allocatable n)" "al_hbm_limit e \<le> die_hbm_total_mb n" "joins e n"
  shows "device_books c (es @ [e]) (occupy_for n e)"
proof -
  let ?n = "occupy_for n e"
  have i': "nat (al_vnpu_id e) = i" using e(1) by simp
  have "i < 64" using i by (rule bit_u64_less)
  then have occ: "occupied ?n = insert i (occupied n)"
    by (simp add: i' occupied_members vnpu_slots.members_occupy occupy_node_def)
  have "sint (na_aicore_quota (nd_allocatable ?n)) = sint (na_aicore_quota (nd_allocatable n)) - al_aicore_quota e"
    using quota_sub [OF b e(2,3)] by (simp add: occupy_node_def charge_quota_def)
  moreover have "unat (na_hbm_quota (nd_allocatable ?n)) = unat (na_hbm_quota (nd_allocatable n)) - unat (al_hbm_quota e)"
    using unat_u64_sub [of "al_hbm_quota e" "na_hbm_quota (nd_allocatable n)"] e(4)
    by (simp add: occupy_node_def charge_quota_def word_le_nat_alt)
  moreover have "die_hbm_total_mb ?n = die_hbm_total_mb n" by (simp add: die_hbm_total_mb_def npu_node_get_total_memory_def)
  moreover have "unat (al_hbm_quota e) \<le> unat (na_hbm_quota (nd_allocatable n))" using e(4) by (simp add: word_le_nat_alt)
  moreover have "set (policy_list ?n) = policy_of ` set (es @ [e])"
    using b e(1) by (auto simp: device_books_def occupy_node_def policy_list_def policy_of_def)
  moreover have "one_policy (es @ [e])" using b e(6) joins_one_policy by (auto simp: device_books_def)
  ultimately show ?thesis using b occ e(1,3,5) unfolding device_books_def by auto
qed

lemma sum_list_remove1: "x \<in> set xs \<Longrightarrow> sum_list (map f xs) = f x + (sum_list (map f (remove1 x xs)) :: 'a :: comm_monoid_add)"
  by (rule sum_list_map_remove1)

lemma device_books_vacate:
  assumes b: "device_books c es n" and d: "distinct (map (\<lambda>e. nat (al_vnpu_id e)) es)"
    and e: "e \<in> set es" "al_vnpu_id e = int i" "\<forall>x \<in> set es. 0 \<le> al_aicore_quota x \<and> 0 \<le> al_vnpu_id x"
    and ps: "ps = filter (\<lambda>x. pe_vnpu_id x \<noteq> int i) (policy_list n)"
  shows "device_books c (remove1 e es) (vacate_node n i (al_aicore_quota e) (int (unat (al_hbm_quota e))) ps)"
proof -
  let ?n = "vacate_node n i (al_aicore_quota e) (int (unat (al_hbm_quota e))) ps"
  have i: "i \<in> occupied n" using b e(1,2) by (force simp: device_books_def)
  then have "i < 64" by (simp add: occupied_def)
  then have occ: "occupied ?n = occupied n - {i}"
    by (simp add: occupied_members vnpu_slots.members_vacate vacate_node_def)
  have inj: "distinct es" "inj_on (\<lambda>e. nat (al_vnpu_id e)) (set es)" using d by (auto simp: distinct_map)
  have "(\<lambda>e. nat (al_vnpu_id e)) ` set es - {i} = (\<lambda>e. nat (al_vnpu_id e)) ` (set es - {e})"
    using inj_on_image_set_diff [OF inj(2), of "set es" "{e}"] e(1,2) by auto
  then have occ': "occupied ?n = (\<lambda>e. nat (al_vnpu_id e)) ` set (remove1 e es)"
    using b inj(1) occ by (simp add: device_books_def set_remove1_eq)
  have ac: "(\<Sum>x\<leftarrow>es. al_aicore_quota x) = al_aicore_quota e + (\<Sum>x\<leftarrow>remove1 e es. al_aicore_quota x)"
    using e(1) by (rule sum_list_remove1)
  have h: "(\<Sum>x\<leftarrow>es. unat (al_hbm_quota x)) = unat (al_hbm_quota e) + (\<Sum>x\<leftarrow>remove1 e es. unat (al_hbm_quota x))"
    using e(1) by (rule sum_list_remove1)
  have nn: "0 \<le> (\<Sum>x\<leftarrow>remove1 e es. al_aicore_quota x)"
    using e(3) by (intro sum_list_nonneg) (auto dest: notin_set_remove1 set_remove1_subset [THEN subsetD])
  have "sint (na_aicore_quota (nd_allocatable ?n)) = sint (na_aicore_quota (nd_allocatable n)) + al_aicore_quota e"
  proof -
    have "0 \<le> sint (na_aicore_quota (nd_allocatable n))" "sint (na_aicore_quota (nd_allocatable n)) + al_aicore_quota e < 2 ^ 31"
      "0 \<le> al_aicore_quota e" using b ac nn e(1,3) unfolding device_books_def by (linarith, linarith, blast)
    then show ?thesis using sint_i32_add [of "na_aicore_quota (nd_allocatable n)" "al_aicore_quota e"]
      by (simp add: vacate_node_def charge_quota_def)
  qed
  moreover have "unat (na_hbm_quota (nd_allocatable ?n)) = unat (na_hbm_quota (nd_allocatable n)) + unat (al_hbm_quota e)"
    using unat_u64_add [of "na_hbm_quota (nd_allocatable n)" "al_hbm_quota e"] b h
    by (simp add: vacate_node_def charge_quota_def device_books_def)
  moreover have "die_hbm_total_mb ?n = die_hbm_total_mb n"
    by (simp add: die_hbm_total_mb_def npu_node_get_total_memory_def vacate_node_def)
  moreover have "\<forall>x \<in> set (remove1 e es). al_hbm_limit x \<le> die_hbm_total_mb n"
    using b by (auto simp: device_books_def dest: set_remove1_subset [THEN subsetD])
  moreover have "0 \<le> al_aicore_quota e" using e by blast
  moreover have "set ps = policy_of ` set (remove1 e es)"
  proof -
    have "{x \<in> set es. al_vnpu_id x \<noteq> int i} = set es - {e}"
      using inj(2) e by (auto simp: inj_on_def)
    moreover have "set ps = policy_of ` {x \<in> set es. al_vnpu_id x \<noteq> int i}"
      using b by (auto simp: ps device_books_def policy_of_def)
    ultimately show ?thesis using inj(1) by (simp add: set_remove1_eq)
  qed
  then have "set (policy_list ?n) = policy_of ` set (remove1 e es)" by (simp add: vacate_node_def policy_list_def)
  moreover have "one_policy (remove1 e es)"
    using b unfolding device_books_def one_policy_def by (meson notin_set_remove1)
  ultimately show ?thesis using b occ' ac h unfolding device_books_def by simp
qed


lemma on_die_remove1: "on_die (remove1 e es) phy = (if al_phy_id e = phy then remove1 e (on_die es phy) else on_die es phy)"
  by (simp add: on_die_def filter_remove1)

lemma leaf_phy_put: "nt_heap t p = Some n \<Longrightarrow> nd_meta n' = nd_meta n \<Longrightarrow> leaf_phy (put_node t p n') = leaf_phy t"
  by (auto simp: leaf_phy_def fun_eq_iff)

text \<open>Replacing the node of one device, while the allocations of the other devices stay the same.\<close>

lemma tree_books_put:
  assumes b: "tree_books cap es t" and p: "p \<in> set (nt_leaves t)" "nt_heap t p = Some n" "nd_meta n' = nd_meta n" "node_ok n'"
    and dev: "device_books (cap p) (on_die es' (leaf_phy t p)) n'"
    and other: "\<And>phy. phy \<noteq> leaf_phy t p \<Longrightarrow> on_die es' phy = on_die es phy"
    and ok: "\<forall>e \<in> set (on_die es' (leaf_phy t p)). entry_ok e" and dist: "distinct (map shm_slot es')"
  shows "tree_books cap es' (put_node t p n')"
proof -
  have phy: "leaf_phy (put_node t p n') = leaf_phy t" by (rule leaf_phy_put [OF p(2,3)])
  have inj: "inj_on (leaf_phy t) (set (nt_leaves t))" using b by (auto simp: tree_books_def tree_wf_def distinct_map)
  have "tree_wf (put_node t p n')"
    using tree_wf_put_node [OF _ p(1,4)] b p(2,3) by (simp add: tree_books_def leaf_phy_def)
  moreover have "nm_die_id (nd_meta (the (nt_heap (put_node t p n') q))) \<noteq> []
      \<and> device_books (cap q) (on_die es' (leaf_phy t q)) (the (nt_heap (put_node t p n') q))" if q: "q \<in> set (nt_leaves t)" for q
  proof (cases "q = p")
    case True
    then show ?thesis using b p dev by (auto simp: tree_books_def)
  next
    case False
    then have "leaf_phy t q \<noteq> leaf_phy t p" using inj q p(1) by (auto simp: inj_on_def)
    then show ?thesis using b q False other [of "leaf_phy t q"] by (simp add: tree_books_def)
  qed
  moreover have "entry_ok e \<and> al_phy_id e \<in> leaf_phy t ` set (nt_leaves t)" if e: "e \<in> set es'" for e
  proof (cases "al_phy_id e = leaf_phy t p")
    case True
    then show ?thesis using e ok p(1) by simp
  next
    case False
    have "e \<in> set (on_die es' (al_phy_id e))" using e by simp
    then have "e \<in> set es" using other [OF False] by simp
    then show ?thesis using b by (auto simp: tree_books_def)
  qed
  ultimately show ?thesis using b dist phy by (simp add: tree_books_def)
qed

lemma slot_occupied:
  assumes "tree_books cap es t" "device_books c (on_die es (int d)) n" "(d, i) \<in> shm_slot ` set es"
  shows "i \<in> occupied n"
proof -
  obtain e where e: "e \<in> set es" "nat (al_phy_id e) = d" "nat (al_vnpu_id e) = i" using assms(3) by (auto simp: shm_slot_def)
  have "0 \<le> al_phy_id e" using assms(1) e(1) by (auto simp: tree_books_def tree_wf_def)
  then have "e \<in> set (on_die es (int d))" using e by simp
  then show ?thesis using assms(2) e(3) by (force simp: device_books_def)
qed

lemma tree_books_occupy:
  assumes b: "tree_books cap es t" and s: "slot_free t p n i"
    and e: "shm_slot e = (d, i)" "al_phy_id e = int d" "leaf_phy t p = int d" "entry_ok e"
      "al_aicore_quota e \<le> sint (na_aicore_quota (nd_allocatable n))"
      "al_hbm_quota e \<le> na_hbm_quota (nd_allocatable n)" "al_hbm_limit e \<le> die_hbm_total_mb n" "joins e n"
  shows "tree_books cap (es @ [e]) (put_node t p (occupy_for n e))"
proof -
  note sd = slot_freeD [OF s]
  have p: "p \<in> set (nt_leaves t)" using s by (simp add: slot_free_def)
  have v: "al_vnpu_id e = int i" using e(1,4) by (auto simp: shm_slot_def entry_ok_def)
  have dev: "device_books (cap p) (on_die es (int d)) n" using b p sd(6) e(3) by (auto simp: tree_books_def)
  have "i \<notin> occupied n" using sd(7) by (simp add: occupied_def)
  then have "shm_slot e \<notin> shm_slot ` set es" using slot_occupied [OF b dev, of i] e(1) by auto
  then have "distinct (map shm_slot (es @ [e]))" using b by (simp add: tree_books_def)
  moreover have "node_ok (occupy_node n i ac h pol prio)" for ac h pol prio
    by (rule node_ok_occupy [OF sd(1,7), where e = "\<lparr>pe_vnpu_id = int i, pe_sched_policy = pol, pe_vnpu_priority = prio\<rparr>"]) (simp_all add: occupy_node_def sd(2) policy_list_def)
  moreover have "0 \<le> al_aicore_quota e" using e(4) by (simp add: entry_ok_def)
  note device_books_occupy [OF dev sd(7) v this e(5,6,7,8)]
  then have "device_books (cap p) (on_die (es @ [e]) (leaf_phy t p)) (occupy_for n e)"
    by (simp add: e(2,3))
  ultimately show ?thesis
    using b e(2-4) v by (intro tree_books_put [OF b p sd(6)] ballI) (auto simp: tree_books_def)
qed

lemma tree_books_vacate:
  assumes b: "tree_books cap es t" and p: "p \<in> set (nt_leaves t)" "nt_heap t p = Some n"
    and e: "e \<in> set es" "al_phy_id e = leaf_phy t p" "al_vnpu_id e = int i" and r: "remove_policy (int i) (policy_list n) = Some ps"
  shows "tree_books cap (remove1 e es) (put_node t p (vacate_node n i (al_aicore_quota e) (int (unat (al_hbm_quota e))) ps))"
proof -
  obtain d where d: "leaf_phy t p = int d" "device_books (cap p) (on_die es (int d)) n" "node_ok n"
    using tree_booksD [OF b p(1)] p(2) by (metis option.inject)
  have on: "e \<in> set (on_die es (int d))" using e d(1) by simp
  have i: "i \<in> occupied n" using d(2) on e(3) by (force simp: device_books_def)
  have ps: "ps = filter (\<lambda>x. pe_vnpu_id x \<noteq> int i) (policy_list n)"
    using remove_policy_SomeD(1) [OF r] d(3) by (simp add: node_ok_def)
  have "node_ok (vacate_node n i ac h ps)" for ac h
    by (rule node_ok_vacate [OF d(3) i r]) (use d(3) in \<open>simp_all add: vacate_node_def policy_list_def node_ok_def\<close>)
  moreover have "device_books (cap p) (on_die (remove1 e es) (leaf_phy t p)) (vacate_node n i (al_aicore_quota e) (int (unat (al_hbm_quota e))) ps)"
    using device_books_vacate [OF d(2) slots_on_die(1) [OF b] on e(3) _ ps] b e(2) d(1)
    by (simp add: on_die_remove1 tree_books_def entry_ok_def)
  moreover have "distinct (map shm_slot (remove1 e es))"
    using b by (auto simp: tree_books_def distinct_map inj_on_def dest: set_remove1_subset [THEN subsetD])
  ultimately show ?thesis
    using b e(2) by (intro tree_books_put [OF b p(1,2)]) (auto simp: vacate_node_def on_die_remove1 tree_books_def dest: set_remove1_subset [THEN subsetD])
qed

lemma shm_books_put:
  assumes "shm_books view es" "mirrors x e" "shm_slot e \<notin> shm_slot ` set es"
  shows "shm_books (view(shm_slot e \<mapsto> x)) (es @ [e])"
  using assms by (auto simp: shm_books_def image_iff)

lemma shm_books_del:
  assumes "shm_books view es" "distinct (map shm_slot es)" "e \<in> set es"
  shows "shm_books (view(shm_slot e := None)) (remove1 e es)"
proof -
  have inj: "distinct es" "inj_on shm_slot (set es)" using assms(2) by (auto simp: distinct_map)
  have set: "set (remove1 e es) = set es - {e}" using inj(1) by (rule set_remove1_eq)
  have "shm_slot ` (set es - {e}) = shm_slot ` set es - {shm_slot e}"
    using inj_on_image_set_diff [OF inj(2), of "set es" "{e}"] assms(3) by auto
  moreover have "mirrors (the ((view(shm_slot e := None)) (shm_slot x))) x" if x: "x \<in> set es - {e}" for x
  proof -
    have "shm_slot x \<noteq> shm_slot e" using inj(2) x assms(3) by (auto simp: inj_on_def)
    then show ?thesis using assms(1) x by (simp add: shm_books_def)
  qed
  ultimately show ?thesis using assms(1) by (simp add: shm_books_def set)
qed

lemma books_granted:
  assumes b: "books cap a" and f: "fits a p n i d e0" and e: "e = final_alloc e0 d name"
    and q: "al_aicore_quota e0 \<le> sint (na_aicore_quota (nd_allocatable n))"
      "al_hbm_quota e0 \<le> na_hbm_quota (nd_allocatable n)" "al_hbm_limit e0 \<le> die_hbm_total_mb n" "joins e0 n"
    and g: "granted a p n i d req e a'"
  shows "books cap a'"
proof -
  note fd = fitsD [OF f]
  note pd = placeableD [OF fd(1)]
  have slot: "shm_slot e = (d, i)" "al_phy_id e = int d" by (simp_all add: e shm_slot_def final_alloc_def fd)
  have phy: "leaf_phy (ac_tree a) p = int d" using slot_freeD [OF pd(1)] pd(2) by simp
  have eok: "entry_ok e" using fd slot_freeD(3) [OF pd(1)] f by (auto simp: entry_ok_def e final_alloc_def fits_def)
  have fresh: "shm_slot e \<notin> shm_slot ` set (rg_entries (ac_registry a))"
    using b pd(5) slot(1) by (auto simp: books_def shm_books_def)
  have "mirrors (build_shm_entry (int i) (al_hbm_quota e) (al_hbm_limit e) (al_sched_policy e) (al_swap_priority e) sw) e" for sw
    by (simp add: mirrors_def build_shm_entry_def e final_alloc_def fd)
  from shm_books_put [OF _ this fresh] b slot(1)
  have shm: "shm_books ((shm_view (ac_shm_mgr a))((d, i) \<mapsto> build_shm_entry (int i) (al_hbm_quota e) (al_hbm_limit e) (al_sched_policy e)
           (al_swap_priority e) sw)) (rg_entries (ac_registry a) @ [e])" for sw by (simp add: books_def)
  have v: "nat (al_vnpu_id e) = i" using slot(1) by (simp add: shm_slot_def)
  have tree: "tree_books cap (rg_entries (ac_registry a) @ [e]) (put_node (ac_tree a) p (occupy_for n e))"
    using b q by (intro tree_books_occupy [OF _ pd(1) slot phy eok]) (simp_all add: books_def e final_alloc_def joins_def)
  show ?thesis using g b tree [unfolded v] shm unfolding granted_def by (auto simp: books_def)
qed


section \<open>The contract of an evaluator\<close>

text \<open>What the allocator relies on of the evaluator it calls: on a well-formed tree it answers, and a positive
  answer is a free slot of a device that can take the request.\<close>

locale placement =
  fixes evaluate :: evaluate_fn and decides :: "eval_request \<Rightarrow> npu_node \<Rightarrow> bool"
  assumes answers: "tree_wf t \<Longrightarrow> nt_initialized t \<Longrightarrow> (\<And>p. p \<in> set (nt_leaves t) \<Longrightarrow> decides rq (the (nt_heap t p))) \<Longrightarrow>
      \<exists>ret er. evaluate t rq resp = Some (ret, er)"
    and chosen: "tree_wf t \<Longrightarrow> nt_initialized t \<Longrightarrow> (\<And>p. p \<in> set (nt_leaves t) \<Longrightarrow> decides rq (the (nt_heap t p))) \<Longrightarrow>
      evaluate t rq resp = Some (ENPU_SUCCESS, er) \<Longrightarrow>
      \<exists>p n i. rs_node er = Some p \<and> rs_vnpu_id er = int i \<and> slot_free t p n i \<and> admissible rq n \<and> policy_agrees rq n"

lemma share_chosen:
  assumes "tree_wf t" "nt_initialized t" "\<And>p. p \<in> set (nt_leaves t) \<Longrightarrow> threshold_defined rq (the (nt_heap t p))"
    "evaluator_share_evaluate strat t rq resp = Some (ENPU_SUCCESS, er)"
  shows "\<exists>p n i. rs_node er = Some p \<and> rs_vnpu_id er = int i \<and> slot_free t p n i \<and> admissible rq n \<and> policy_agrees rq n"
proof -
  have ok: "share_request_ok rq" using assms(4) by (auto simp: evaluator_share_evaluate_def split: if_splits)
  have dec: "\<forall>p \<in> set (nt_leaves t). threshold_defined rq (the (nt_heap t p))" using assms(3) by blast
  show ?thesis
  proof (rule evaluate_cases [OF assms(1,2) ok dec, of strat resp], goal_cases)
    case (1 p resp')
    then have p: "p \<in> set (nt_leaves t)" "admissible rq (the (nt_heap t p))" "policy_agrees rq (the (nt_heap t p))"
      by (auto simp: eligible_def)
    obtain n where n: "nt_heap t p = Some n" using assms(1) p(1) by (rule tree_wf_leaf)
    have "na_vnpu_mask (nd_allocatable n) \<noteq> 0" using p(2) n by (auto simp: admissible_def Let_def)
    then obtain i where i: "npu_tree_get_available_vnpu_id (Some n) = Some (int i)" "bit (na_vnpu_mask (nd_allocatable n)) i"
      by (cases rule: available_vnpu_id_cases [of n]) auto
    have "er = resp'" using 1 assms(4) by simp
    moreover have "rs_vnpu_id resp' = int i" using 1 n i by (simp add: candidate_of_def)
    ultimately show ?thesis using 1 p n i assms(1,2) by (auto simp: slot_free_def)
  next
    case (2 e)
    then show ?thesis using assms(4) by simp
  qed
qed

interpretation share: placement "evaluator_share_evaluate strat" threshold_defined for strat
proof
  fix t rq resp
  assume h: "tree_wf t" "nt_initialized t" "\<And>p. p \<in> set (nt_leaves t) \<Longrightarrow> threshold_defined rq (the (nt_heap t p))"
  show "\<exists>ret er. evaluator_share_evaluate strat t rq resp = Some (ret, er)"
  proof (cases "share_request_ok rq")
    case True
    have dec: "\<forall>p \<in> set (nt_leaves t). threshold_defined rq (the (nt_heap t p))" using h(3) by blast
    show ?thesis by (rule evaluate_cases [OF h(1,2) True dec, of strat resp]) auto
  qed (simp add: evaluator_share_evaluate_def)
qed (rule share_chosen)

section \<open>What an allocation does\<close>

text \<open>A granted request: the slot and the device it was given, the allocation that is registered, and
  the response.\<close>

definition committed :: "alloc_env \<Rightarrow> 'st npu_allocator \<Rightarrow> alloc_request \<Rightarrow> u64 \<Rightarrow> u64 \<Rightarrow> 'st npu_allocator \<Rightarrow> alloc_request \<Rightarrow> alloc_response \<Rightarrow> allocation \<Rightarrow> bool" where
  "committed env a req hbm_request hbm_limit a' req' resp' e \<longleftrightarrow>
     0 \<le> aq_aicore_quota req \<and> aq_aicore_quota req \<le> HUNDRED_CORE \<and> hbm_request \<le> hbm_limit \<and> (\<exists>p n i d name.
     slot_free (ac_tree a) p n i \<and> nm_phy_id (nd_meta n) = int d \<and> d < MAX_NPU_PER_NODE
     \<and> admissible (build_eval_request a req hbm_request hbm_limit) n
     \<and> policy_agrees (build_eval_request a req hbm_request hbm_limit) n
     \<and> req' = default_names (int d) (int i) req
     \<and> e = final_alloc (build_allocation env n (int i) req' (build_eval_request a req hbm_request hbm_limit) hbm_request hbm_limit) d name
     \<and> resp' = success_response (response_zero\<lparr>rp_shm_id := name\<rparr>) e n
     \<and> granted (a\<lparr>ac_log := []\<rparr>) p n i d req' e a')"

definition unchanged :: "'st npu_allocator \<Rightarrow> 'st npu_allocator \<Rightarrow> bool" where
  "unchanged a a' \<longleftrightarrow> a' = a \<or> restored a a'"

text \<open>A failed allocation leaves no trace, except that a failed save of the registry leaves the entry in its table.\<close>

definition failed :: "'st npu_allocator \<Rightarrow> int \<Rightarrow> 'st npu_allocator \<Rightarrow> bool" where
  "failed a ret a' \<longleftrightarrow> a' = a \<or> (\<exists>r. (r = ac_registry a \<or> kept_unsaved (ac_registry a) ret r) \<and> restored (a\<lparr>ac_registry := r\<rparr>) a')"

lemma failed_saves: "failed a ret a' \<Longrightarrow> ret \<noteq> ENPU_SUCCESS \<Longrightarrow> saves (ac_registry a) \<Longrightarrow> unchanged a a'"
  by (auto simp: failed_def unchanged_def saves_def kept_unsaved_def)

definition alloc_outcome :: "alloc_env \<Rightarrow> 'st npu_allocator \<Rightarrow> alloc_request \<Rightarrow> u64 \<Rightarrow> u64 \<Rightarrow> 'st alloc_result \<Rightarrow> bool" where
  "alloc_outcome env a req hbm_request hbm_limit result \<longleftrightarrow>
     (\<exists>ret a' req' resp'. result = Some (ret, a', req', resp') \<and> rp_result resp' = ret \<and>
        (if ret = ENPU_SUCCESS then \<exists>e. committed env a req hbm_request hbm_limit a' req' resp' e else failed a ret a'))"

lemma alloc_outcomeI:
  "result = Some (ret, a', req', resp') \<Longrightarrow> ret \<noteq> ENPU_SUCCESS \<Longrightarrow> rp_result resp' = ret \<Longrightarrow> failed a ret a' \<Longrightarrow>
   alloc_outcome env a req hr hl result"
  "result = Some (ENPU_SUCCESS, a', req', resp') \<Longrightarrow> rp_result resp' = ENPU_SUCCESS \<Longrightarrow> committed env a req hr hl a' req' resp' e \<Longrightarrow>
   alloc_outcome env a req hr hl result"
  by (auto simp: alloc_outcome_def)

lemma restored_clear_log:
  assumes "r = ac_registry a \<or> kept_unsaved (ac_registry a) ret r" "restored (a\<lparr>ac_log := [], ac_registry := r\<rparr>) a'"
  shows "failed a ret a'"
proof -
  have "restored (a\<lparr>ac_registry := r\<rparr>) a'" using assms(2) by (auto simp: restored_def)
  then show ?thesis using assms(1) unfolding failed_def by blast
qed

lemma reject_result [simp]: "rp_result (reject resp ret msg) = ret"
  by (simp add: reject_def)

lemma success_result [simp]: "rp_result (success_response resp e n) = ENPU_SUCCESS"
  by (simp add: success_response_def)

lemma build_allocation_simps [simp]:
  "al_vnpu_id (build_allocation env n v req rq hr hl) = v" "al_aicore_quota (build_allocation env n v req rq hr hl) = rq_aicore_quota rq"
  "al_hbm_quota (build_allocation env n v req rq hr hl) = hr" "al_hbm_limit (build_allocation env n v req rq hr hl) = hl"
  "al_sched_policy (build_allocation env n v req rq hr hl) = aq_sched_policy req"
  "al_vnpu_priority (build_allocation env n v req rq hr hl) = aq_vnpu_priority req"
  "al_die_id (build_allocation env n v req rq hr hl) = copy_str DIE_ID_LEN (nm_die_id (nd_meta n))"
  by (simp_all add: build_allocation_def)

lemma default_names_simps [simp]:
  "aq_sched_policy (default_names d v req) = aq_sched_policy req" "aq_vnpu_priority (default_names d v req) = aq_vnpu_priority req"
  by (simp_all add: default_names_def Let_def)

text \<open>The chosen slot satisfies what the transaction needs.\<close>

lemma chosen_fits:
  assumes b: "books cap a" and s: "slot_free (ac_tree a) p n i" "admissible rq n"
    and r: "rq_aicore_quota rq = ac" "0 \<le> ac" "ac \<le> HUNDRED_CORE" "rq_hbm_quota rq = hr" "rq_hbm_limit rq = hl" "hr \<le> hl"
  shows "fits (a\<lparr>ac_log := []\<rparr>) p n i (nat (nm_phy_id (nd_meta n))) (build_allocation env n (int i) req rq hr hl)"
    and "nm_phy_id (nd_meta n) = int (nat (nm_phy_id (nd_meta n)))" "nat (nm_phy_id (nd_meta n)) < MAX_NPU_PER_NODE"
proof -
  define d where "d = nat (nm_phy_id (nd_meta n))"
  note sd = slot_freeD [OF s(1)]
  have p: "p \<in> set (nt_leaves (ac_tree a))" using s(1) by (simp add: slot_free_def)
  have tb: "tree_books cap (rg_entries (ac_registry a)) (ac_tree a)" using b by (simp add: books_def)
  obtain n' d' where n': "nt_heap (ac_tree a) p = Some n'" "nm_phy_id (nd_meta n') = int d'" "d' < MAX_NPU_PER_NODE"
    "nm_die_id (nd_meta n') \<noteq> []" "device_books (cap p) (on_die (rg_entries (ac_registry a)) (int d')) n'"
    by (rule tree_booksD [OF tb p])
  have "n' = n" using n'(1) sd(6) by simp
  then have phy: "nm_phy_id (nd_meta n) = int d" "d < MAX_NPU_PER_NODE"
    and dev: "nm_die_id (nd_meta n) \<noteq> []" "device_books (cap p) (on_die (rg_entries (ac_registry a)) (int d)) n"
    using n' by (simp_all add: d_def)
  then show "nm_phy_id (nd_meta n) = int (nat (nm_phy_id (nd_meta n)))" "nat (nm_phy_id (nd_meta n)) < MAX_NPU_PER_NODE" by simp_all
  have "i \<notin> occupied n" using sd(7) by (simp add: occupied_def)
  then have "(d, i) \<notin> shm_slot ` set (rg_entries (ac_registry a))" using slot_occupied [OF tb dev(2)] by blast
  then have view: "shm_view (ac_shm_mgr a) (d, i) = None" using b by (auto simp: books_def shm_books_def)
  have "hl \<le> die_hbm_total_mb n" using s(2) r(5) by (simp add: admissible_def Let_def)
  then have "unat hr < 2 ^ 63" using die_total_small [of n] r(6) by (simp add: word_le_nat_alt)
  then show "fits (a\<lparr>ac_log := []\<rparr>) p n i (nat (nm_phy_id (nd_meta n))) (build_allocation env n (int i) req rq hr hl)"
    using b s(1) phy view dev(1) r by (simp add: fits_def placeable_def books_def d_def [symmetric] copy_str_def)
qed


context placement
begin

lemma place_outcome:
  assumes b: "books cap a" and pick: "\<And>name f. pick_evaluator a = Some (name, f) \<Longrightarrow> f = evaluate"
    and dec: "\<And>p. p \<in> set (nt_leaves (ac_tree a)) \<Longrightarrow> decides (build_eval_request a req hr hl) (the (nt_heap (ac_tree a) p))"
    and r: "0 \<le> aq_aicore_quota req" "aq_aicore_quota req \<le> HUNDRED_CORE" "hr \<le> hl"
  shows "alloc_outcome env a req hr hl (place_and_commit env a req resp hr hl)"
proof (cases "pick_evaluator a")
  case None
  then show ?thesis by (intro alloc_outcomeI(1)) (auto simp: place_and_commit_def failed_def)
next
  case (Some ev)
  then obtain name where ev: "pick_evaluator a = Some (name, evaluate)" using pick by (cases ev) auto
  define rq where "rq = build_eval_request a req hr hl"
  define er0 where "er0 = \<lparr>rs_node = None, rs_vnpu_id = 0, rs_error_msg = No_error\<rparr>"
  have wf: "tree_wf (ac_tree a)" "nt_initialized (ac_tree a)" using b by (auto simp: books_def tree_books_def)
  have dec': "decides rq (the (nt_heap (ac_tree a) p))" if p: "p \<in> set (nt_leaves (ac_tree a))" for p using dec [OF p] by (simp add: rq_def)
  obtain ret er where er: "evaluate (ac_tree a) rq er0 = Some (ret, er)" using answers [OF wf dec'] by blast
  show ?thesis
  proof (cases "ae_nodes env \<and> ret = ENPU_SUCCESS")
    case False
    then show ?thesis using ev er
      by (auto simp: place_and_commit_def alloc_outcome_def failed_def rq_def er0_def Let_def)
  next
    case True
    then obtain p n i where c: "rs_node er = Some p" "rs_vnpu_id er = int i" "slot_free (ac_tree a) p n i" "admissible rq n" "policy_agrees rq n"
      using chosen [OF wf dec'] er by blast
    define d where "d = nat (nm_phy_id (nd_meta n))"
    define req1 where "req1 = default_names (int d) (int i) req"
    define e0 where "e0 = build_allocation env n (int i) req1 rq hr hl"
    have rq: "rq_aicore_quota rq = aq_aicore_quota req" "rq_hbm_quota rq = hr" "rq_hbm_limit rq = hl"
      using r(2) by (simp_all add: rq_def build_eval_request_def)
    note cf = chosen_fits(1) [OF b c(3,4) rq(1) r(1,2) rq(2,3) r(3), of env req1] chosen_fits(2,3) [OF b c(3,4) rq(1) r(1,2) rq(2,3) r(3)]
    have f: "fits (a\<lparr>ac_log := []\<rparr>) p n i d e0" and phy: "nm_phy_id (nd_meta n) = int d" "d < MAX_NPU_PER_NODE"
      using cf by (simp_all add: d_def e0_def)
    have valid: "vnpu_id_is_valid (int i)" using slot_freeD(3) [OF c(3)] by (simp add: vnpu_id_is_valid_def)
    have eq: "place_and_commit env a req resp hr hl = commit_tree env (a\<lparr>ac_log := []\<rparr>) p n req1 resp e0"
      using True ev er c(1,2) slot_freeD(6) [OF c(3)] valid phy(1)
      by (simp add: place_and_commit_def Let_def rq_def [symmetric] er0_def [symmetric] e0_def req1_def npu_node_get_phy_id_def)
    from tree_outcome_spec [OF f, of req1 env resp] consider
      (fails) ret a' resp' r where "place_and_commit env a req resp hr hl = Some (ret, a', req1, resp')" "ret \<noteq> ENPU_SUCCESS"
        "rp_result resp' = ret" "r = ac_registry a \<or> kept_unsaved (ac_registry a) ret r" "restored (a\<lparr>ac_log := [], ac_registry := r\<rparr>) a'"
    | (granted) name a' where "place_and_commit env a req resp hr hl = Some (ENPU_SUCCESS, a', req1,
         success_response (response_zero\<lparr>rp_shm_id := name\<rparr>) (final_alloc e0 d name) n)"
       "granted (a\<lparr>ac_log := []\<rparr>) p n i d req1 (final_alloc e0 d name) a'"
      unfolding eq [symmetric] outcome_def by auto
    then show ?thesis
    proof cases
      case fails
      show ?thesis by (rule alloc_outcomeI(1) [OF fails(1,2,3) restored_clear_log [OF fails(4,5)]])
    next
      case granted
      have "committed env a req hr hl a' req1 (success_response (response_zero\<lparr>rp_shm_id := name\<rparr>) (final_alloc e0 d name) n) (final_alloc e0 d name)"
        unfolding committed_def
        by (intro conjI r, intro exI [of _ p] exI [of _ n] exI [of _ i] exI [of _ d] exI [of _ name])
          (use c(3,4,5) phy granted(2) in \<open>simp add: rq_def e0_def req1_def\<close>)
      then show ?thesis using granted(1) by (intro alloc_outcomeI(2)) auto
    qed
  qed
qed

end

text \<open>The checks before the placement: what a request that passes them looks like.\<close>

definition effective_request :: "alloc_request \<Rightarrow> alloc_request" where
  "effective_request req = (if aq_vnpu_priority req = VNPU_PRIORITY_HIGH
     then req\<lparr>aq_aicore_quota := 0, aq_sched_policy := SCHED_POLICY_BEST_EFFORT\<rparr> else req)"

lemma effective_request_simps [simp]:
  "aq_hbm_quota (effective_request req) = aq_hbm_quota req" "aq_hbm_limit (effective_request req) = aq_hbm_limit req"
  "aq_pod_uid (effective_request req) = aq_pod_uid req" "aq_container_name (effective_request req) = aq_container_name req"
  "aq_vnpu_priority (effective_request req) = aq_vnpu_priority req" "aq_swap_priority (effective_request req) = aq_swap_priority req"
  by (simp_all add: effective_request_def)

lemma parse_hbm_cases:
  assumes "parse_hbm_request_limit req = (ret, hr, hl, msg)"
  shows "ret = ENPU_SUCCESS \<Longrightarrow> hr = aq_hbm_quota req \<and> hl = aq_hbm_limit req \<and> hr \<le> hl"
  using assms by (auto simp: parse_hbm_request_limit_def Let_def not_less split: if_splits)

lemma check_request_cases:
  assumes "check_request lc req resp = (ret, req', resp', hr, hl)"
  shows "ret \<noteq> ENPU_SUCCESS \<Longrightarrow> rp_result resp' = ret"
    and "ret = ENPU_SUCCESS \<Longrightarrow> req' = effective_request req \<and> hr = aq_hbm_quota req' \<and> hl = aq_hbm_limit req' \<and> hr \<le> hl
       \<and> 0 \<le> aq_aicore_quota req' \<and> aq_aicore_quota req' \<le> HUNDRED_CORE"
  using assms parse_hbm_cases [of "effective_request req"]
  by (auto simp: check_request_def effective_request_def Let_def split: if_splits prod.splits)


lemma joins_agrees:
  "policy_agrees (build_eval_request a req hr hl) n \<Longrightarrow> joins (build_allocation env n v (default_names d v' req) rq hr' hl') n"
  by (simp add: policy_agrees_def joins_def build_eval_request_def)

lemma books_clear_log: "books cap (a\<lparr>ac_log := l\<rparr>) = books cap a"
  by (simp add: books_def)

lemma books_committed:
  assumes b: "books cap a" and c: "committed env a req hr hl a' req' resp' e"
  shows "books cap a'"
proof -
  have r: "0 \<le> aq_aicore_quota req" "aq_aicore_quota req \<le> HUNDRED_CORE" "hr \<le> hl" using c by (auto simp: committed_def)
  define rq where "rq = build_eval_request a req hr hl"
  obtain p n i d name where s: "slot_free (ac_tree a) p n i" "nm_phy_id (nd_meta n) = int d" "admissible rq n" "policy_agrees rq n"
    and req': "req' = default_names (int d) (int i) req"
    and e: "e = final_alloc (build_allocation env n (int i) req' rq hr hl) d name"
    and g: "granted (a\<lparr>ac_log := []\<rparr>) p n i d req' e a'"
    using c unfolding committed_def rq_def by blast
  have rq: "rq_aicore_quota rq = aq_aicore_quota req" "rq_hbm_quota rq = hr" "rq_hbm_limit rq = hl"
    using r(2) by (simp_all add: rq_def build_eval_request_def)
  have f: "fits (a\<lparr>ac_log := []\<rparr>) p n i d (build_allocation env n (int i) req' rq hr hl)"
    using chosen_fits(1) [OF b s(1,3) rq(1) r(1,2) rq(2,3) r(3), of env req'] s(2) by simp
  have j: "joins (build_allocation env n (int i) req' rq hr hl) n" using s(4) unfolding rq_def req' by (rule joins_agrees)
  show ?thesis
    by (rule books_granted [OF _ f e _ _ _ j g]) (use b s(3) rq in \<open>auto simp: books_clear_log admissible_def Let_def\<close>)
qed

lemma books_unchanged: "books cap a \<Longrightarrow> unchanged a a' \<Longrightarrow> books cap a'"
  using books_restored by (auto simp: unchanged_def)

text \<open>The allocator as \<^verbatim>\<open>npu_allocator_init\<close> leaves it: the share evaluator is installed, and the
  oversubscription ratios keep the conversion of the threshold defined.\<close>

definition ratio_ok :: "double \<Rightarrow> bool" where
  "ratio_ok ratio \<longleftrightarrow> (\<forall>n. oversub_threshold ratio (die_hbm_total_mb n) \<noteq> None)"

definition ready :: "share_strategy \<Rightarrow> 'st npu_allocator \<Rightarrow> bool" where
  "ready strat a \<longleftrightarrow> ac_evaluators a = [(''share'', evaluator_share_evaluate strat)] \<and> (\<forall>d. ratio_ok (ac_oversub_ratio a d))"

lemma ratio_ok_zero: "ratio_ok 0"
proof -
  have "oversub_threshold 0 (die_hbm_total_mb n) = Some (die_hbm_total_mb n)" for n
  proof (rule oversub_threshold_zero)
    have "int (unat (die_hbm_total_mb n)) < int (2 ^ 44)" using die_total_small [of n] by (simp only: of_nat_less_iff)
    then show "uint (die_hbm_total_mb n) < 2 ^ 53" by simp
  qed
  then show ?thesis by (simp add: ratio_ok_def)
qed

lemma allocate_outcome:
  assumes b: "books cap a" and r: "ready strat a"
  shows "alloc_outcome env a (effective_request req) (aq_hbm_quota req) (aq_hbm_limit req) (npu_allocator_allocate env a req resp)"
proof -
  obtain ret req1 resp1 hr hl where c: "check_request (int (length (nt_leaves (ac_tree a)))) req resp = (ret, req1, resp1, hr, hl)"
    by (metis prod_cases5)
  note cc = check_request_cases [OF c]
  show ?thesis
  proof (cases "ret = ENPU_SUCCESS")
    case False
    then show ?thesis using c cc(1) by (intro alloc_outcomeI(1)) (auto simp: npu_allocator_allocate_def failed_def)
  next
    case True
    have h: "req1 = effective_request req" "hr = aq_hbm_quota req" "hl = aq_hbm_limit req" "hr \<le> hl"
        "0 \<le> aq_aicore_quota req1" "aq_aicore_quota req1 \<le> HUNDRED_CORE"
      using cc(2) [OF True] by auto
    have wf: "tree_wf (ac_tree a)" using b by (auto simp: books_def tree_books_def)
    obtain missing where m: "(if aq_predicate_phy_id req1 \<ge> 0
        then map_option (\<lambda>node. node = None) (npu_tree_get_leaf (ac_tree a) (aq_predicate_phy_id req1)) else Some False) = Some missing"
      by (cases "aq_predicate_phy_id req1 \<ge> 0") (auto simp: get_leaf_eq [OF wf])
    have pick: "f = evaluator_share_evaluate strat" if "pick_evaluator a = Some (name, f)" for name f
      using that r by (auto simp: pick_evaluator_def ready_def Let_def split: if_splits)
    have dec: "threshold_defined (build_eval_request a req1 hr hl) n" for n
      using r by (auto simp: threshold_defined_def build_eval_request_def ready_def ratio_ok_def)
    have "alloc_outcome env a req1 hr hl (place_and_commit env a req1 resp1 hr hl)"
      by (rule share.place_outcome [OF b pick dec h(5,6,4)])
    moreover have "alloc_outcome env a req1 hr hl (Some (ENPU_ALREADY_EXISTS, a, req1, exists_response resp1 e))" for e
      by (intro alloc_outcomeI(1)) (auto simp: failed_def exists_response_def)
    moreover have "alloc_outcome env a req1 hr hl (Some (ENPU_FAIL, a, req1, reject resp1 ENPU_FAIL (Card_not_found (aq_predicate_phy_id req1))))"
      by (intro alloc_outcomeI(1)) (auto simp: failed_def)
    ultimately have "alloc_outcome env a req1 hr hl (npu_allocator_allocate env a req resp)"
      using c True m by (cases "allocation_registry_get (ac_registry a) (aq_pod_uid req1) (aq_container_name req1)")
        (auto simp: npu_allocator_allocate_def split: option.split)
    then show ?thesis by (simp only: h(1-3))
  qed
qed

lemma committed_ready: "ready strat a \<Longrightarrow> committed env a req hr hl a' req' resp' e \<Longrightarrow> ready strat a'"
  by (auto simp: committed_def granted_def ready_def)

lemma failed_ready: "ready strat a \<Longrightarrow> failed a ret a' \<Longrightarrow> ready strat a'"
  by (auto simp: failed_def restored_def ready_def)


section \<open>What a release does\<close>

lemma release_tree_spec:
  assumes "nt_heap t p = Some n" "node_ok n" "i \<in> occupied n" "al_vnpu_id e = int i" "unat (al_hbm_quota e) < 2 ^ 63"
  obtains ps where "remove_policy (int i) (policy_list n) = Some ps"
    "release_tree t p e = Some (put_node t p (vacate_node n i (al_aicore_quota e) (int (unat (al_hbm_quota e))) ps))"
proof -
  have i: "i < 64" "\<not> bit (na_vnpu_mask (nd_allocatable n)) i" using assms(3) by (auto simp: occupied_def)
  have par: "nd_parent n = None" using assms(2) by (simp add: node_ok_def)
  have "int i \<in> pe_vnpu_id ` set (policy_list n)" using assms(2,3) by (auto simp: node_ok_def)
  then obtain ps where ps: "remove_policy (int i) (policy_list n) = Some ps" using remove_policy_None by blast
  define h where "h = int (unat (al_hbm_quota e))"
  have h: "sint (al_hbm_quota e) = h" "- (2 ^ 63) < h"
    unfolding h_def by (rule sint_unat [OF assms(5)]) (rule less_le_trans [OF _ of_nat_0_le_iff], simp)
  define n1 where "n1 = n\<lparr>nd_policy_entries := Some ps, nd_allocatable := (nd_allocatable n)\<lparr>na_vnpu_count := na_vnpu_count (nd_allocatable n) - 1\<rparr>\<rparr>"
  define n2 where "n2 = upd_allocatable (charge_quota (al_aicore_quota e) h) n1"
  have t1: "npu_tree_detach_policy t (Some p) (int i) = Some (ENPU_SUCCESS, put_node t p n1)"
    using assms(1) i ps by (simp add: detach_policy_eq n1_def)
  have t2: "npu_tree_update_quota (put_node t p n1) (Some p) (al_aicore_quota e) h = Some (ENPU_SUCCESS, put_node t p n2)"
    using h(2) by (subst update_quota_eq [where n = n1]) (auto simp: n2_def charge_quota_def)
  have t3: "npu_tree_mark_vnpu_free (put_node t p n2) (Some p) (int i)
      = Some (ENPU_SUCCESS, put_node t p (vacate_node n i (al_aicore_quota e) h ps))"
    using i par by (subst mark_vnpu_free_eq [where n = n2]) (auto simp: n2_def n1_def vacate_node_def charge_quota_def intro!: node_eqI)
  have "release_tree t p e = Some (put_node t p (vacate_node n i (al_aicore_quota e) h ps))"
    using i by (simp add: release_tree_def assms(1,4) h(1) t1 t2 t3 shl64_nat mask_test_nonzero_iff npu_node_get_vnpu_mask_def)
  then show ?thesis using that ps by (simp only: h_def)
qed

lemma shm_release_spec:
  assumes i: "i < MAX_NPU_PER_NODE" and v: "v < MAX_VNPU_SCHED" and named: "shm_named (ac_shm_mgr a)"
    and held: "shm_view (ac_shm_mgr a) (i, v) \<noteq> None"
  obtains mgr pool where "shm_release_vnpu_locked a (int i) (int v) = Some (ENPU_SUCCESS, a\<lparr>ac_shm_mgr := mgr, ac_pool := pool\<rparr>)"
    "shm_view mgr = (shm_view (ac_shm_mgr a))((i, v) := None)" "shm_named mgr"
proof -
  obtain st where st: "sm_shm_states (ac_shm_mgr a) i = Some st" "vnpu_bitmap_test (ss_vnpu_bitmap st) (int v)"
    using held i by (auto simp: shm_view_def split: option.splits if_splits)
  obtain r pool st' where f: "shm_free (ac_pool a) st (int v) = (r, pool, st')" by (metis prod_cases3)
  have fr: "frees_in v st st'" using shm_free_in [OF f] .
  let ?m = "put_state (ac_shm_mgr a) (int i) st'"
  have n1: "shm_named ?m" using named_put [OF named] namedD [OF named i st(1)] fr by (simp add: frees_in_def)
  have v1: "(shm_view ?m)((i, v) := None) = (shm_view (ac_shm_mgr a))((i, v) := None)" "shm_view ?m (i, v) \<noteq> None"
    using fr st i by (auto simp: shm_view_def frees_in_def fun_eq_iff)
  have "v < MAX_VNPU_PER_DIE" using v by simp
  from remove_entry_view [OF i this v1(2) n1] obtain mgr1 where m1: "shm_manager_remove_entry ?m (int i) (int v) = (ENPU_SUCCESS, mgr1)"
    "shm_view mgr1 = (shm_view ?m)((i, v) := None)" "shm_named mgr1" .
  define g where "g = (\<lambda>s :: vnpu_time_slice_sched. s\<lparr>ts_last_alive_time_ns := (ts_last_alive_time_ns s)(nat (int v) := 0),
                 ts_last_kernel_time_ns := (ts_last_kernel_time_ns s)(nat (int v) := 0),
                 ts_vnpu_priority := (ts_vnpu_priority s)(nat (int v) := word_of_int VNPU_PRIORITY_NORMAL)\<rparr>)"
  obtain mgr2 where m2: "upd_sched_at mgr1 (int i) (int v) g = Some mgr2" using upd_sched_defined [of "int v" mgr1 "int i" g] v by auto
  have "shm_release_vnpu_locked a (int i) (int v) = Some (ENPU_SUCCESS, a\<lparr>ac_shm_mgr := mgr2, ac_pool := pool\<rparr>)"
    using i v st f m1(1) m2 by (simp add: shm_release_vnpu_locked_def get_state_die g_def)
  moreover have "shm_view mgr2 = shm_view mgr1" "shm_named mgr2" using upd_sched_view [OF m2] view_cong [of mgr2 mgr1] m1(3) by auto
  ultimately show ?thesis using that m1(2) v1(1) by simp
qed

text \<open>The allocator after the release of the allocation \<open>e\<close>.\<close>

definition released :: "'st npu_allocator \<Rightarrow> allocation \<Rightarrow> 'st npu_allocator \<Rightarrow> bool" where
  "released a e a' \<longleftrightarrow> (\<exists>p n ps mgr pool fs r. p \<in> set (nt_leaves (ac_tree a)) \<and> leaf_phy (ac_tree a) p = al_phy_id e \<and> nt_heap (ac_tree a) p = Some n
     \<and> remove_policy (al_vnpu_id e) (policy_list n) = Some ps
     \<and> a' = a\<lparr>ac_tree := put_node (ac_tree a) p (vacate_node n (nat (al_vnpu_id e)) (al_aicore_quota e) (int (unat (al_hbm_quota e))) ps),
              ac_shm_mgr := mgr, ac_pool := pool, ac_files := fs, ac_registry := r\<rparr>
     \<and> shm_view mgr = (shm_view (ac_shm_mgr a))(shm_slot e := None) \<and> shm_named mgr
     \<and> rg_entries r = remove1 e (rg_entries (ac_registry a)) \<and> registry_ok r)"

lemma filter_key_remove1:
  "distinct (map alloc_key es) \<Longrightarrow> e \<in> set es \<Longrightarrow> filter (\<lambda>x. alloc_key x \<noteq> alloc_key e) es = remove1 e es"
proof (induction es)
  case (Cons x es)
  show ?case
  proof (cases "x = e")
    case True
    then have "filter (\<lambda>x. alloc_key x \<noteq> alloc_key e) es = es" using Cons.prems by (intro filter_True) (auto simp: image_iff)
    then show ?thesis using True by simp
  next
    case False
    then have "alloc_key x \<noteq> alloc_key e" using Cons.prems by (auto simp: image_iff)
    then show ?thesis using False Cons by auto
  qed
qed simp

lemma entry_slot:
  assumes "books cap a" "e \<in> set (rg_entries (ac_registry a))"
  obtains p n d i where "p \<in> set (nt_leaves (ac_tree a))" "leaf_phy (ac_tree a) p = int d" "al_phy_id e = int d" "d < MAX_NPU_PER_NODE"
    "nt_heap (ac_tree a) p = Some n" "node_ok n" "al_vnpu_id e = int i" "i < 64" "i \<in> occupied n" "shm_slot e = (d, i)"
    "shm_view (ac_shm_mgr a) (d, i) \<noteq> None" "unat (al_hbm_quota e) < 2 ^ 63"
proof -
  have tb: "tree_books cap (rg_entries (ac_registry a)) (ac_tree a)" using assms(1) by (simp add: books_def)
  obtain p where p: "p \<in> set (nt_leaves (ac_tree a))" "leaf_phy (ac_tree a) p = al_phy_id e"
    using tb assms(2) by (auto simp: tree_books_def)
  obtain n d where n: "nt_heap (ac_tree a) p = Some n" "node_ok n" "leaf_phy (ac_tree a) p = int d" "d < MAX_NPU_PER_NODE"
    "device_books (cap p) (on_die (rg_entries (ac_registry a)) (int d)) n"
    using tree_booksD [OF tb p(1)] by metis
  have ok: "entry_ok e" using tb assms(2) by (auto simp: tree_books_def)
  define i where "i = nat (al_vnpu_id e)"
  have i: "al_vnpu_id e = int i" "i < 64" using ok by (auto simp: entry_ok_def i_def)
  have slot: "shm_slot e = (d, i)" using n(3) p(2) i by (simp add: shm_slot_def)
  have "i \<in> occupied n" using slot_occupied [OF tb n(5)] assms(2) slot by (metis imageI)
  moreover have "shm_view (ac_shm_mgr a) (d, i) \<noteq> None"
    using assms slot unfolding books_def shm_books_def by (metis domIff imageI)
  moreover have "unat (al_hbm_quota e) < 2 ^ 63" "al_phy_id e = int d" using ok n(3) p(2) by (simp_all add: entry_ok_def)
  ultimately show ?thesis using that [OF p(1) n(3) _ n(4,1,2) i] slot by blast
qed

lemma release_absent:
  "registry_ok (ac_registry a) \<Longrightarrow> reg_lookup (ac_registry a) (pod, cont) = None \<Longrightarrow> npu_allocator_release env a pod cont = Some (ENPU_NOT_FOUND, a)"
  by (simp add: npu_allocator_release_def registry_get_lookup)

lemma release_present:
  assumes b: "books cap a" and e: "reg_lookup (ac_registry a) (pod, cont) = Some e"
  shows "\<exists>a'. npu_allocator_release env a pod cont = Some (ENPU_SUCCESS, a') \<and> released a e a'"
proof -
  have rok: "registry_ok (ac_registry a)" and wf: "tree_wf (ac_tree a)" "nt_initialized (ac_tree a)"
    using b by (auto simp: books_def tree_books_def)
  have mem: "e \<in> set (rg_entries (ac_registry a))" "alloc_key e = (pod, cont)"
    using e rok by (auto simp: reg_lookup_Some registry_ok_def)
  obtain p n d i where s: "p \<in> set (nt_leaves (ac_tree a))" "leaf_phy (ac_tree a) p = int d" "al_phy_id e = int d" "d < MAX_NPU_PER_NODE"
    "nt_heap (ac_tree a) p = Some n" "node_ok n" "al_vnpu_id e = int i" "i < 64" "i \<in> occupied n" "shm_slot e = (d, i)"
    "shm_view (ac_shm_mgr a) (d, i) \<noteq> None" "unat (al_hbm_quota e) < 2 ^ 63" by (rule entry_slot [OF b mem(1)])
  obtain ps where ps: "remove_policy (int i) (policy_list n) = Some ps"
    "release_tree (ac_tree a) p e = Some (put_node (ac_tree a) p (vacate_node n i (al_aicore_quota e) (int (unat (al_hbm_quota e))) ps))"
    by (rule release_tree_spec [OF s(5,6,9,7,12)])
  define t where "t = put_node (ac_tree a) p (vacate_node n i (al_aicore_quota e) (int (unat (al_hbm_quota e))) ps)"
  obtain mgr pool where sh: "shm_release_vnpu_locked (a\<lparr>ac_tree := t\<rparr>) (int d) (int i) = Some (ENPU_SUCCESS, a\<lparr>ac_tree := t, ac_shm_mgr := mgr, ac_pool := pool\<rparr>)"
    "shm_view mgr = (shm_view (ac_shm_mgr a))((d, i) := None)" "shm_named mgr"
    by (rule shm_release_spec [of d i "a\<lparr>ac_tree := t\<rparr>"]) (use s(4,8,11) b in \<open>auto simp: books_def\<close>)
  have leaf: "npu_tree_get_leaf (ac_tree a) (int d) = Some (Some p)" using get_leaf_leaf [OF wf s(1)] s(2) by simp
  define r where "r = snd (allocation_registry_release (ac_registry a) pod cont)"
  define fs where "fs = snd (config_manager_delete_config env (ac_config_base a) (ac_files a) pod cont)"
  have "npu_allocator_release env a pod cont = Some (ENPU_SUCCESS,
      a\<lparr>ac_tree := t, ac_shm_mgr := mgr, ac_pool := pool, ac_files := fs, ac_registry := r\<rparr>)"
    using e leaf sh(1) ps(2) by (simp add: npu_allocator_release_def registry_get_lookup [OF rok] s(3,7) t_def r_def fs_def)
  moreover have "rg_entries r = remove1 e (rg_entries (ac_registry a))"
    using filter_key_remove1 [OF _ mem(1)] rok mem(2) by (simp add: r_def release_entries registry_ok_def)
  moreover have "registry_ok r" using registry_ok_release [OF rok] by (simp add: r_def)
  ultimately show ?thesis using s ps(1) sh(2,3) unfolding released_def t_def
    by (intro exI conjI) (assumption | rule refl | simp)+
qed

lemma books_released:
  assumes b: "books cap a" and r: "released a e a'" and e: "e \<in> set (rg_entries (ac_registry a))"
  shows "books cap a'"
proof -
  obtain p n ps mgr pool fs r where p: "p \<in> set (nt_leaves (ac_tree a))" "leaf_phy (ac_tree a) p = al_phy_id e" "nt_heap (ac_tree a) p = Some n"
     and ps: "remove_policy (al_vnpu_id e) (policy_list n) = Some ps"
     and a': "a' = a\<lparr>ac_tree := put_node (ac_tree a) p (vacate_node n (nat (al_vnpu_id e)) (al_aicore_quota e) (int (unat (al_hbm_quota e))) ps),
              ac_shm_mgr := mgr, ac_pool := pool, ac_files := fs, ac_registry := r\<rparr>"
     and m: "shm_view mgr = (shm_view (ac_shm_mgr a))(shm_slot e := None)" "shm_named mgr"
     and rg: "rg_entries r = remove1 e (rg_entries (ac_registry a))" "registry_ok r"
    using r unfolding released_def by blast
  obtain i where i: "al_vnpu_id e = int i" by (rule entry_slot [OF b e])
  have tb: "tree_books cap (rg_entries (ac_registry a)) (ac_tree a)" and sb: "shm_books (shm_view (ac_shm_mgr a)) (rg_entries (ac_registry a))"
    using b by (auto simp: books_def)
  have "distinct (map shm_slot (rg_entries (ac_registry a)))" using tb by (simp add: tree_books_def)
  from tree_books_vacate [OF tb p(1,3) e p(2) [symmetric] i ps [unfolded i]] shm_books_del [OF sb this e] show ?thesis
    using m rg i by (simp add: books_def a')
qed

lemma released_ready: "ready strat a \<Longrightarrow> released a e a' \<Longrightarrow> ready strat a'"
  by (auto simp: released_def ready_def)

section \<open>Runs of the allocator\<close>

datatype allocator_op = is_Allocate: Allocate alloc_env alloc_request alloc_response | Release file_env string string
  | Release_vnpu file_env int int | Set_ratio int double | Checkpoint

fun allocator_step :: "allocator_op \<Rightarrow> 'st npu_allocator \<Rightarrow> 'st npu_allocator option" where
  "allocator_step (Allocate env req resp) a = map_option (\<lambda>(ret, a', req', resp'). a') (npu_allocator_allocate env a req resp)"
| "allocator_step (Release env pod cont) a = map_option snd (npu_allocator_release env a pod cont)"
| "allocator_step (Release_vnpu env phy v) a = map_option snd (npu_allocator_release_by_vnpu env a phy v)"
| "allocator_step (Set_ratio die r) a = Some (snd (npu_allocator_set_oversub_ratio a die r))"
| "allocator_step Checkpoint a = Some (snd (npu_allocator_checkpoint a))"

fun allocator_run :: "allocator_op list \<Rightarrow> 'st npu_allocator \<Rightarrow> 'st npu_allocator option" where
  "allocator_run [] a = Some a"
| "allocator_run (op # ops) a = do { a' \<leftarrow> allocator_step op a; allocator_run ops a' }"

fun ratio_op_ok :: "allocator_op \<Rightarrow> bool" where
  "ratio_op_ok (Set_ratio die r) = ratio_ok r"
| "ratio_op_ok op = True"

text \<open>The storage accepts the save of every allocation of the run; the saves of releases and checkpoints may fail.\<close>

fun saves_along :: "allocator_op list \<Rightarrow> 'st npu_allocator \<Rightarrow> bool" where
  "saves_along [] a = True"
| "saves_along (op # ops) a = ((is_Allocate op \<longrightarrow> saves (ac_registry a))
     \<and> (case allocator_step op a of None \<Rightarrow> True | Some a' \<Rightarrow> saves_along ops a'))"

lemma release_step:
  assumes "books cap a" "ready strat a"
  shows "\<exists>ret a'. npu_allocator_release env a pod cont = Some (ret, a') \<and> books cap a' \<and> ready strat a'"
proof (cases "reg_lookup (ac_registry a) (pod, cont)")
  case None
  moreover have "registry_ok (ac_registry a)" using assms(1) by (simp add: books_def)
  ultimately show ?thesis using assms release_absent by blast
next
  case (Some e)
  moreover have "e \<in> set (rg_entries (ac_registry a))" using Some assms(1) by (auto simp: books_def registry_ok_def reg_lookup_Some)
  ultimately show ?thesis using release_present [OF assms(1) Some] books_released [OF assms(1)] released_ready [OF assms(2)] by blast
qed

lemma checkpoint_step:
  assumes "books cap a" "ready strat a"
  shows "books cap (snd (npu_allocator_checkpoint a)) \<and> ready strat (snd (npu_allocator_checkpoint a))"
proof -
  have "npu_allocator_checkpoint a = (fst (persist_to_adapter (ac_registry a)), a\<lparr>ac_registry := snd (persist_to_adapter (ac_registry a))\<rparr>)"
    by (simp add: npu_allocator_checkpoint_def allocation_registry_save_def split: prod.split)
  then show ?thesis using assms by (simp add: books_def ready_def registry_ok_def)
qed

lemma allocator_step_books:
  assumes b: "books cap a" "ready strat a" and g: "ratio_op_ok op" "is_Allocate op \<longrightarrow> saves (ac_registry a)"
  shows "\<exists>a'. allocator_step op a = Some a' \<and> books cap a' \<and> ready strat a'"
proof (cases op)
  case (Allocate env req resp)
  from allocate_outcome [OF b, of env req resp] obtain ret a' req' resp' where
    "npu_allocator_allocate env a req resp = Some (ret, a', req', resp')"
    "if ret = ENPU_SUCCESS then \<exists>e. committed env a (effective_request req) (aq_hbm_quota req) (aq_hbm_limit req) a' req' resp' e else failed a ret a'"
    by (auto simp: alloc_outcome_def)
  moreover have "books cap a'" if "ret \<noteq> ENPU_SUCCESS" "failed a ret a'"
    using that g(2) Allocate by (intro books_unchanged [OF b(1)] failed_saves) simp_all
  ultimately show ?thesis using Allocate books_committed [OF b(1)] committed_ready [OF b(2)] failed_ready [OF b(2)]
    by (cases "ret = ENPU_SUCCESS") auto
next
  case (Release env pod cont)
  then show ?thesis using release_step [OF b, of env pod cont] by auto
next
  case (Release_vnpu env phy v)
  then show ?thesis using b release_step [OF b] by (fastforce simp: npu_allocator_release_by_vnpu_def split: option.split)
next
  case (Set_ratio die r)
  then show ?thesis using b g by (auto simp: npu_allocator_set_oversub_ratio_def books_def ready_def)
next
  case Checkpoint
  then show ?thesis using checkpoint_step [OF b] by simp
qed

lemma allocator_run_books:
  "books cap a \<Longrightarrow> ready strat a \<Longrightarrow> \<forall>op \<in> set ops. ratio_op_ok op \<Longrightarrow> saves_along ops a \<Longrightarrow>
   \<exists>a'. allocator_run ops a = Some a' \<and> books cap a' \<and> ready strat a'"
proof (induction ops arbitrary: a)
  case (Cons op ops)
  then obtain a1 where "allocator_step op a = Some a1" "books cap a1" "ready strat a1" using allocator_step_books [of cap a strat op] by auto
  then show ?case using Cons by auto
qed simp


section \<open>Recovery\<close>

text \<open>A registry that an allocator with the capacities \<open>cap\<close> can have written: what \<open>tree_books\<close> says
  about the allocations alone.\<close>

definition recoverable :: "(nat \<Rightarrow> int \<times> nat) \<Rightarrow> npu_tree \<Rightarrow> allocation list \<Rightarrow> bool" where
  "recoverable cap t es \<longleftrightarrow> distinct (map shm_slot es)
     \<and> (\<forall>e \<in> set es. entry_ok e \<and> al_phy_id e \<in> leaf_phy t ` set (nt_leaves t))
     \<and> (\<forall>p \<in> set (nt_leaves t).
          (\<Sum>e\<leftarrow>on_die es (leaf_phy t p). al_aicore_quota e) \<le> fst (cap p)
          \<and> (\<Sum>e\<leftarrow>on_die es (leaf_phy t p). unat (al_hbm_quota e)) \<le> snd (cap p)
          \<and> one_policy (on_die es (leaf_phy t p))
          \<and> (\<forall>e \<in> set (on_die es (leaf_phy t p)). al_hbm_limit e \<le> die_hbm_total_mb (the (nt_heap t p))))"

definition shm_short :: "shm_manager \<Rightarrow> bool" where
  "shm_short mgr \<longleftrightarrow> (\<forall>i st. sm_shm_states mgr i = Some st \<longrightarrow> length (ss_shm_id st) < SHM_ID_LEN)"

lemma dec_int_die: "d < MAX_NPU_PER_NODE \<Longrightarrow> length (dec_int (int d)) \<le> 2"
  using length_dec_nat [of d 2] by (simp add: dec_int_def)

lemma get_or_create_succeeds:
  assumes i: "i < MAX_NPU_PER_NODE" and die: "length die_id < DIE_ID_LEN" and sh: "shm_short mgr" and os: "os \<or> sm_shm_states mgr i \<noteq> None"
  obtains mgr' name where "shm_manager_get_or_create_shm os env mgr (int i) die_id (Some SHM_ID_LEN) = (ENPU_SUCCESS, mgr', name)" "shm_short mgr'"
    "dom (sm_shm_states mgr') = insert i (dom (sm_shm_states mgr))"
proof (cases "sm_shm_states mgr i")
  case (Some st)
  then have "length (ss_shm_id st) < SHM_ID_LEN" using sh by (auto simp: shm_short_def)
  then show ?thesis using that [OF _ sh] Some i by (auto simp: shm_manager_get_or_create_shm_def get_state_die)
next
  case None
  have "length (''/shm_state-'' @ dec_int (int i) @ ''-'' @ die_id) < 128" using dec_int_die [OF i] die by simp
  then obtain st where st: "shm_state_posix_shm_create os (int i) die_id = Some st" "ss_shm_id st = copy_str DIE_ID_LEN die_id"
    using None os by (simp add: shm_state_posix_shm_create_def)
  have len: "length (ss_shm_id st) < SHM_ID_LEN" using st(2) by (simp add: copy_str_def)
  obtain ret sched where s: "shm_struct_init env = (ret, sched)" by fastforce
  define m1 where "m1 = (put_state mgr (int i) (st\<lparr>ss_initialized := True\<rparr>))\<lparr>sm_shm_state_count := sm_shm_state_count mgr + 1\<rparr>"
  define m2 where "m2 = (if ret = ENPU_SUCCESS then m1\<lparr>sm_sched_structs := (sm_sched_structs m1)(nat (int i) := sched)\<rparr> else m1)"
  have "shm_manager_get_or_create_shm os env mgr (int i) die_id (Some SHM_ID_LEN) = (ENPU_SUCCESS, m2, Some (ss_shm_id st))"
    using i None st(1) len s by (simp add: shm_manager_get_or_create_shm_def get_state_die m2_def m1_def)
  moreover have "shm_short m2" using sh len by (auto simp: shm_short_def m2_def m1_def)
  moreover have "dom (sm_shm_states m2) = insert i (dom (sm_shm_states mgr))" by (auto simp: m2_def m1_def)
  ultimately show ?thesis by (rule that)
qed

lemma get_or_create_fails:
  "i < MAX_NPU_PER_NODE \<Longrightarrow> sm_shm_states mgr i = None \<Longrightarrow>
   shm_manager_get_or_create_shm False env mgr (int i) die_id (Some SHM_ID_LEN) = (ENPU_FAIL, mgr, None)"
  by (simp add: shm_manager_get_or_create_shm_def get_state_die shm_state_posix_shm_create_def)

lemma recover_state_spec:
  assumes i: "i < MAX_NPU_PER_NODE" and v: "v < MAX_VNPU_PER_DIE" and e: "al_phy_id e = int i" "al_vnpu_id e = int v"
    and st: "sm_shm_states mgr i = Some st" and named: "shm_named mgr" and short: "shm_short mgr"
  shows "\<exists>x. shm_view (recover_state mgr h e) = (shm_view mgr)((i, v) \<mapsto> recover_entry e x)" "shm_named (recover_state mgr h e)"
    "shm_short (recover_state mgr h e)" "dom (sm_shm_states (recover_state mgr h e)) = dom (sm_shm_states mgr)"
proof -
  define st1 where "st1 = st\<lparr>ss_hbm_total := h, ss_swap_cmd := (ss_swap_cmd st)\<lparr>cm_completed := True\<rparr>,
            ss_swap_out_cmd := (ss_swap_out_cmd st)\<lparr>so_completed := True\<rparr>\<rparr>"
  define st2 where "st2 = (upd_entry st1 (int v) (recover_entry e))\<lparr>ss_vnpu_bitmap := vnpu_bitmap_set (ss_vnpu_bitmap st1) (int v)\<rparr>"
  have r: "recover_state mgr h e = put_state (put_state mgr (int i) st1) (int i) st2"
    using i st e by (simp add: recover_state_def shm_manager_init_state_def get_state_die st1_def st2_def)
  have f: "ss_vnpu_bitmap st2 = vnpu_bitmap_set (ss_vnpu_bitmap st) (int v)" "ss_shm_id st2 = ss_shm_id st"
    "ss_entries st2 = (ss_entries st)(v := recover_entry e (ss_entries st v))"
    by (simp_all add: st2_def st1_def upd_entry_def)
  have "shm_view (recover_state mgr h e) = (shm_view mgr)((i, v) \<mapsto> recover_entry e (ss_entries st v))"
    using i v st f by (auto simp: r shm_view_def fun_eq_iff bitmap.test_occupy)
  then show "\<exists>x. shm_view (recover_state mgr h e) = (shm_view mgr)((i, v) \<mapsto> recover_entry e x)" ..
  have nm: "ss_shm_id st \<noteq> []" using namedD [OF named i st] .
  then have "ss_shm_id st1 \<noteq> []" "ss_shm_id st2 \<noteq> []" using f(2) by (simp_all add: st1_def)
  then show "shm_named (recover_state mgr h e)" unfolding r by (intro named_put named)
  show "shm_short (recover_state mgr h e)" using short st f(2) by (auto simp: r shm_short_def)
  show "dom (sm_shm_states (recover_state mgr h e)) = dom (sm_shm_states mgr)" using st by (auto simp: r)
qed

lemma recover_tree_spec:
  assumes s: "slot_free t p n (nat (al_vnpu_id e))" and e: "entry_ok e"
  shows "recover_tree True t p e = Some (put_node t p (occupy_for n e))"
proof -
  define h where "h = int (unat (al_hbm_quota e))"
  have lt: "unat (al_hbm_quota e) < 2 ^ 63" using e by (simp add: entry_ok_def)
  have h: "0 \<le> h" "h < 2 ^ 63" "sint (al_hbm_quota e) = h"
    unfolding h_def using sint_unat [OF lt] lt by (simp, simp only: of_nat_less_numeral_power_cancel_iff, simp)
  define i where "i = nat (al_vnpu_id e)"
  have i: "al_vnpu_id e = int i" using e by (simp add: i_def entry_ok_def)
  note st = occupy_steps [OF s [folded i_def] h(1,2)]
  have "neg_i32 (al_aicore_quota e) = Some (- al_aicore_quota e)" "neg_i64 h = Some (- h)"
    using e h(1) by (auto simp: neg_i32_def neg_i64_def entry_ok_def)
  then have "recover_tree True t p e = Some (put_node t p (occupy_node n i (al_aicore_quota e) h (al_sched_policy e) (al_vnpu_priority e)))"
    by (simp add: recover_tree_def i h(3) st(1) st(2) [of "al_aicore_quota e"] st(3) [of True "al_aicore_quota e" "al_sched_policy e" "al_vnpu_priority e"])
  then show ?thesis unfolding h_def i_def .
qed


lemma recoverable_put:
  assumes "nt_heap t p = Some n" "nd_meta n' = nd_meta n" "recoverable cap t es"
  shows "recoverable cap (put_node t p n') es"
proof -
  have "die_hbm_total_mb (the (nt_heap (put_node t p n') q)) = die_hbm_total_mb (the (nt_heap t q))" for q
    using assms(1,2) by (simp add: die_hbm_total_mb_def npu_node_get_total_memory_def)
  then show ?thesis using assms(3) by (simp add: recoverable_def leaf_phy_put [OF assms(1,2)])
qed

text \<open>The next allocation of a recoverable registry finds its slot free, and the device can take it.\<close>

lemma recoverable_next:
  assumes tb: "tree_books cap pre t" and r: "recoverable cap t (pre @ e # post)"
  obtains p n d i where "slot_free t p n i" "shm_slot e = (d, i)" "al_phy_id e = int d" "leaf_phy t p = int d" "d < MAX_NPU_PER_NODE"
    "al_vnpu_id e = int i" "al_aicore_quota e \<le> sint (na_aicore_quota (nd_allocatable n))" "al_hbm_quota e \<le> na_hbm_quota (nd_allocatable n)"
    "al_hbm_limit e \<le> die_hbm_total_mb n" "joins e n" "p \<in> set (nt_leaves t)"
proof -
  have eok: "entry_ok e" using r by (simp add: recoverable_def)
  obtain p where p: "p \<in> set (nt_leaves t)" "leaf_phy t p = al_phy_id e" using r by (auto simp: recoverable_def)
  obtain n d where n: "nt_heap t p = Some n" "node_ok n" "leaf_phy t p = int d" "d < MAX_NPU_PER_NODE" "device_books (cap p) (on_die pre (int d)) n"
    using tree_booksD [OF tb p(1)] by metis
  define i where "i = nat (al_vnpu_id e)"
  have i: "al_vnpu_id e = int i" "i < 64" using eok by (auto simp: entry_ok_def i_def)
  have phy: "al_phy_id e = int d" using p(2) n(3) by simp
  have slot: "shm_slot e = (d, i)" by (simp add: shm_slot_def phy i)
  have "i \<notin> occupied n"
  proof
    assume "i \<in> occupied n"
    then obtain x where x: "x \<in> set pre" "al_phy_id x = int d" "nat (al_vnpu_id x) = i" using n(5) by (auto simp: device_books_def)
    then have "shm_slot x = shm_slot e" by (simp add: shm_slot_def phy i)
    moreover have "shm_slot e \<notin> shm_slot ` set pre" using r by (auto simp: recoverable_def)
    ultimately show False using x(1) by (metis imageI)
  qed
  then have free: "slot_free t p n i" using tb p(1) n(1) i(2) by (simp add: slot_free_def tree_books_def occupied_def)
  define post' where "post' = on_die post (int d)"
  have on: "on_die (pre @ e # post) (leaf_phy t p) = on_die pre (int d) @ e # post'" using n(3) phy by (simp add: post'_def)
  have R: "(\<Sum>x\<leftarrow>on_die pre (int d) @ e # post'. al_aicore_quota x) \<le> fst (cap p)"
      "(\<Sum>x\<leftarrow>on_die pre (int d) @ e # post'. unat (al_hbm_quota x)) \<le> snd (cap p)"
      "one_policy (on_die pre (int d) @ e # post')" "al_hbm_limit e \<le> die_hbm_total_mb n"
    using r p(1) n(1) unfolding recoverable_def on [symmetric] by (auto simp: phy n(3))
  have "0 \<le> (\<Sum>x\<leftarrow>post'. al_aicore_quota x)" using r by (intro sum_list_nonneg) (auto simp: post'_def recoverable_def entry_ok_def)
  then have "al_aicore_quota e \<le> sint (na_aicore_quota (nd_allocatable n))" using R(1) n(5) by (simp add: device_books_def)
  moreover have "al_hbm_quota e \<le> na_hbm_quota (nd_allocatable n)" using R(2) n(5) by (simp add: device_books_def word_le_nat_alt)
  moreover have "joins e n"
  proof -
    have "pe_vnpu_priority y = VNPU_PRIORITY_HIGH \<or> pe_sched_policy y = al_sched_policy e"
      if ne: "al_vnpu_priority e \<noteq> VNPU_PRIORITY_HIGH" and y: "y \<in> set (policy_list n)" for y
    proof -
      obtain x where x: "x \<in> set (on_die pre (int d))" "y = policy_of x" using y n(5) by (auto simp: device_books_def)
      have "al_vnpu_priority x \<noteq> VNPU_PRIORITY_HIGH \<longrightarrow> al_sched_policy x = al_sched_policy e"
        using R(3) x(1) ne unfolding one_policy_def by (metis Un_iff list.set_intros(1) set_append)
      then show ?thesis by (auto simp: x(2) policy_of_def)
    qed
    then show ?thesis by (auto simp: joins_def)
  qed
  ultimately show ?thesis using that [OF free slot phy n(3,4) i(1)] R(4) p(1) by blast
qed

text \<open>The allocations whose entries recovery writes: those on a die whose shared memory exists or can be created in their
  iteration. \<open>D\<close> is the set of the dies that have one.\<close>

fun reopened :: "(nat \<Rightarrow> alloc_env) \<Rightarrow> nat \<Rightarrow> int set \<Rightarrow> allocation list \<Rightarrow> allocation list" where
  "reopened envs k D [] = []"
| "reopened envs k D (e # es) = (if al_phy_id e \<in> D \<or> ae_shm (envs k) then e # reopened envs (Suc k) (insert (al_phy_id e) D) es
     else reopened envs (Suc k) D es)"

lemma reopened_all: "\<forall>i. ae_shm (envs i) \<Longrightarrow> reopened envs k D es = es"
  by (induction es arbitrary: k D) auto

definition recovering :: "(nat \<Rightarrow> int \<times> nat) \<Rightarrow> allocation list \<Rightarrow> allocation list \<Rightarrow> int set \<Rightarrow> 'st npu_allocator \<Rightarrow> bool" where
  "recovering cap pre ms D a \<longleftrightarrow> tree_books cap pre (ac_tree a) \<and> shm_named (ac_shm_mgr a) \<and> shm_short (ac_shm_mgr a)
     \<and> shm_books (shm_view (ac_shm_mgr a)) ms \<and> set ms \<subseteq> set pre \<and> int ` dom (sm_shm_states (ac_shm_mgr a)) = D"

text \<open>One iteration, by the outcome of creating the shared memory.\<close>

lemma recover_shm_fails:
  assumes a: "recovering cap pre ms D a" and e: "al_phy_id e = int d" "d < MAX_NPU_PER_NODE" "al_phy_id e \<notin> D" "\<not> ae_shm env"
    and leaf: "vnpu_id_is_valid (al_vnpu_id e)" "npu_tree_get_leaf (ac_tree a) (int d) = Some (Some p)" "nt_heap (ac_tree a) p = Some n"
    and t: "recover_tree (ae_policy env) (ac_tree a) p e = Some t"
  shows "recover_one env a e = Some (a\<lparr>ac_tree := t, ac_shm_mgr := ac_shm_mgr a, ac_files := ac_files a\<rparr>)"
proof -
  have "sm_shm_states (ac_shm_mgr a) d = None" using a e(1,3) by (auto simp: recovering_def)
  from get_or_create_fails [OF e(2) this] show ?thesis using e leaf t by (simp add: recover_one_def)
qed

lemma recover_shm_succeeds:
  assumes sh: "shm_named (ac_shm_mgr a)" "shm_short (ac_shm_mgr a)" and e: "al_phy_id e = int d" "d < MAX_NPU_PER_NODE" "al_vnpu_id e = int i" "i < 64"
    "entry_ok e" "ae_shm env \<or> d \<in> dom (sm_shm_states (ac_shm_mgr a))"
    and leaf: "npu_tree_get_leaf (ac_tree a) (int d) = Some (Some p)" "nt_heap (ac_tree a) p = Some n"
    and t: "recover_tree (ae_policy env) (ac_tree a) p e = Some t"
  shows "\<exists>mgr fs x. recover_one env a e = Some (a\<lparr>ac_tree := t, ac_shm_mgr := mgr, ac_files := fs\<rparr>)
    \<and> shm_view mgr = (shm_view (ac_shm_mgr a))((d, i) \<mapsto> recover_entry e x) \<and> shm_named mgr \<and> shm_short mgr
    \<and> dom (sm_shm_states mgr) = insert d (dom (sm_shm_states (ac_shm_mgr a)))"
proof -
  have die: "al_die_id e \<noteq> []" "length (al_die_id e) < DIE_ID_LEN" using e(5) by (simp_all add: entry_ok_def)
  have os: "ae_shm env \<or> sm_shm_states (ac_shm_mgr a) d \<noteq> None" using e(6) by blast
  obtain mgr1 name where m1: "shm_manager_get_or_create_shm (ae_shm env) (ae_sched env) (ac_shm_mgr a) (int d) (al_die_id e) (Some SHM_ID_LEN) = (ENPU_SUCCESS, mgr1, name)"
    "shm_short mgr1" "dom (sm_shm_states mgr1) = insert d (dom (sm_shm_states (ac_shm_mgr a)))" by (rule get_or_create_succeeds [OF e(2) die(2) sh(2) os])
  note v1 = get_or_create_view [OF e(2) die(1) sh(1) m1(1)]
  have iv: "0 \<le> int i" "int i < int MAX_VNPU_SCHED" "i < MAX_VNPU_PER_DIE" using e(4) by simp_all
  obtain mgr2 where m2: "set_vnpu_priority mgr1 (int d) (int i) (al_vnpu_priority e) = Some mgr2"
    unfolding set_vnpu_priority_def using upd_sched_defined [OF iv(1,2)] by blast
  have st2: "sm_shm_states mgr2 = sm_shm_states mgr1" using upd_sched_view m2 unfolding set_vnpu_priority_def by blast
  define mgr3 where "mgr3 = recover_state mgr2 (npu_node_get_total_memory (Some n)) e"
  obtain st where st: "sm_shm_states mgr2 d = Some st" using v1 st2 by auto
  have n2: "shm_named mgr2" "shm_short mgr2" "shm_view mgr2 = shm_view (ac_shm_mgr a)"
    using v1 m1(2) st2 view_cong [OF st2] by (auto simp: shm_short_def)
  obtain x where m3: "shm_view mgr3 = (shm_view (ac_shm_mgr a))((d, i) \<mapsto> recover_entry e x)" "shm_named mgr3" "shm_short mgr3"
    "dom (sm_shm_states mgr3) = dom (sm_shm_states mgr2)"
    using recover_state_spec [OF e(2) iv(3) e(1,3) st n2(1,2)] n2(3) unfolding mgr3_def by metis
  obtain ret fs where w: "config_manager_write_config (ae_file env) (ac_config_base a) (ac_files a) (al_pod_uid e) (al_container_name e)
      (config_of e (al_shm_id e)) = Some (ret, fs)" using write_config_outcome by blast
  have valid: "vnpu_id_is_valid (int i)" using e(4) by (simp add: vnpu_id_is_valid_def)
  have "recover_one env a e = Some (a\<lparr>ac_tree := t, ac_shm_mgr := mgr3, ac_files := fs\<rparr>)"
    using valid leaf t m1(1) m2 w by (simp add: recover_one_def e(1,3) mgr3_def)
  then show ?thesis using m3 m1(3) st2 by auto
qed

lemma recover_one_step:
  assumes a: "recovering cap pre ms D a" and r: "recoverable cap (ac_tree a) (pre @ e # post)" and env: "ae_policy env"
    and hit: "hit \<longleftrightarrow> al_phy_id e \<in> D \<or> ae_shm env"
  shows "\<exists>t mgr fs. recover_one env a e = Some (a\<lparr>ac_tree := t, ac_shm_mgr := mgr, ac_files := fs\<rparr>)
    \<and> recovering cap (pre @ [e]) (if hit then ms @ [e] else ms) (if hit then insert (al_phy_id e) D else D) (a\<lparr>ac_tree := t, ac_shm_mgr := mgr, ac_files := fs\<rparr>)
    \<and> recoverable cap t (pre @ e # post)"
proof -
  have tb: "tree_books cap pre (ac_tree a)" and sh: "shm_named (ac_shm_mgr a)" "shm_short (ac_shm_mgr a)" "shm_books (shm_view (ac_shm_mgr a)) ms"
    "set ms \<subseteq> set pre" "int ` dom (sm_shm_states (ac_shm_mgr a)) = D" using a by (auto simp: recovering_def)
  obtain p n d i where s: "slot_free (ac_tree a) p n i" "shm_slot e = (d, i)" "al_phy_id e = int d" "leaf_phy (ac_tree a) p = int d" "d < MAX_NPU_PER_NODE"
    "al_vnpu_id e = int i" "al_aicore_quota e \<le> sint (na_aicore_quota (nd_allocatable n))" "al_hbm_quota e \<le> na_hbm_quota (nd_allocatable n)"
    "al_hbm_limit e \<le> die_hbm_total_mb n" "joins e n" "p \<in> set (nt_leaves (ac_tree a))" by (rule recoverable_next [OF tb r])
  note sd = slot_freeD [OF s(1)]
  have e: "entry_ok e" using r by (simp add: recoverable_def)
  define t where "t = put_node (ac_tree a) p (occupy_for n e)"
  have t: "recover_tree (ae_policy env) (ac_tree a) p e = Some t" using recover_tree_spec [of "ac_tree a" p n e] s(1,6) e env by (simp add: t_def)
  have leaf: "npu_tree_get_leaf (ac_tree a) (int d) = Some (Some p)"
    using get_leaf_leaf [OF tree_books_wf [OF tb] s(11)] s(4) by simp
  have valid: "vnpu_id_is_valid (al_vnpu_id e)" using sd(3) s(6) by (simp add: vnpu_id_is_valid_def)
  have tree: "tree_books cap (pre @ [e]) t" unfolding t_def by (rule tree_books_occupy [OF tb s(1,2,3,4) e s(7-10)])
  have rec: "recoverable cap t (pre @ e # post)" unfolding t_def by (rule recoverable_put [OF sd(6) _ r]) simp
  show ?thesis
  proof (cases hit)
    case False
    then have "recover_one env a e = Some (a\<lparr>ac_tree := t, ac_shm_mgr := ac_shm_mgr a, ac_files := ac_files a\<rparr>)"
      using hit by (intro recover_shm_fails [OF a s(3,5) _ _ valid leaf sd(6) t]) simp_all
    moreover have "recovering cap (pre @ [e]) ms D (a\<lparr>ac_tree := t, ac_shm_mgr := ac_shm_mgr a, ac_files := ac_files a\<rparr>)"
      using tree sh by (auto simp: recovering_def)
    ultimately show ?thesis
      using rec False by (intro exI [of _ t] exI [of _ "ac_shm_mgr a"] exI [of _ "ac_files a"]) (simp only: if_False simp_thms)
  next
    case True
    then have "ae_shm env \<or> d \<in> dom (sm_shm_states (ac_shm_mgr a))" using hit sh(5) s(3) by auto
    from recover_shm_succeeds [OF sh(1,2) s(3,5,6) sd(3) e this leaf sd(6) t] obtain mgr fs x where
      m: "recover_one env a e = Some (a\<lparr>ac_tree := t, ac_shm_mgr := mgr, ac_files := fs\<rparr>)" "shm_view mgr = (shm_view (ac_shm_mgr a))((d, i) \<mapsto> recover_entry e x)"
        "shm_named mgr" "shm_short mgr" "dom (sm_shm_states mgr) = insert d (dom (sm_shm_states (ac_shm_mgr a)))" by blast
    have "shm_slot e \<notin> shm_slot ` set ms" using r sh(4) by (auto simp: recoverable_def)
    then have "shm_books (shm_view mgr) (ms @ [e])"
      unfolding m(2) s(2) [symmetric] by (intro shm_books_put [OF sh(3)]) (auto simp: mirrors_def recover_entry_def)
    moreover have "int ` dom (sm_shm_states mgr) = insert (al_phy_id e) D" using m(5) sh(5) s(3) by auto
    ultimately have "recovering cap (pre @ [e]) (ms @ [e]) (insert (al_phy_id e) D) (a\<lparr>ac_tree := t, ac_shm_mgr := mgr, ac_files := fs\<rparr>)"
      using tree m(3,4) sh(4) by (auto simp: recovering_def)
    then show ?thesis using m(1) rec True by auto
  qed
qed

lemma recover_all_steps:
  assumes "recovering cap pre ms D a" "recoverable cap (ac_tree a) (pre @ es)" "\<forall>i. ae_policy (envs i)"
  shows "\<exists>t mgr fs D'. recover_all envs k a es = Some (a\<lparr>ac_tree := t, ac_shm_mgr := mgr, ac_files := fs\<rparr>)
    \<and> recovering cap (pre @ es) (ms @ reopened envs k D es) D' (a\<lparr>ac_tree := t, ac_shm_mgr := mgr, ac_files := fs\<rparr>)"
  using assms
proof (induction es arbitrary: pre ms D a k)
  case Nil
  have "a = a\<lparr>ac_tree := ac_tree a, ac_shm_mgr := ac_shm_mgr a, ac_files := ac_files a\<rparr>" by simp
  then show ?case using Nil by (metis append_Nil2 recover_all.simps(1) reopened.simps(1))
next
  case (Cons e es)
  define hit where "hit \<longleftrightarrow> al_phy_id e \<in> D \<or> ae_shm (envs k)"
  obtain t mgr fs where s: "recover_one (envs k) a e = Some (a\<lparr>ac_tree := t, ac_shm_mgr := mgr, ac_files := fs\<rparr>)"
    "recovering cap (pre @ [e]) (if hit then ms @ [e] else ms) (if hit then insert (al_phy_id e) D else D) (a\<lparr>ac_tree := t, ac_shm_mgr := mgr, ac_files := fs\<rparr>)"
    "recoverable cap t (pre @ e # es)"
    using recover_one_step [OF Cons.prems(1,2) _ hit_def] Cons.prems(3) by blast
  then have "recoverable cap (ac_tree (a\<lparr>ac_tree := t, ac_shm_mgr := mgr, ac_files := fs\<rparr>)) ((pre @ [e]) @ es)" by simp
  from Cons.IH [OF s(2) this Cons.prems(3), of "Suc k"] obtain t' mgr' fs' D' where
    r: "recover_all envs (Suc k) (a\<lparr>ac_tree := t, ac_shm_mgr := mgr, ac_files := fs\<rparr>) es = Some (a\<lparr>ac_tree := t', ac_shm_mgr := mgr', ac_files := fs'\<rparr>)"
      "recovering cap (pre @ e # es) ((if hit then ms @ [e] else ms) @ reopened envs (Suc k) (if hit then insert (al_phy_id e) D else D) es) D'
        (a\<lparr>ac_tree := t', ac_shm_mgr := mgr', ac_files := fs'\<rparr>)" by auto
  have "(if hit then ms @ [e] else ms) @ reopened envs (Suc k) (if hit then insert (al_phy_id e) D else D) es = ms @ reopened envs k D (e # es)"
    by (simp add: hit_def)
  then have "recovering cap (pre @ e # es) (ms @ reopened envs k D (e # es)) D' (a\<lparr>ac_tree := t', ac_shm_mgr := mgr', ac_files := fs'\<rparr>)"
    using r(2) by (rule subst)
  moreover have "recover_all envs k a (e # es) = Some (a\<lparr>ac_tree := t', ac_shm_mgr := mgr', ac_files := fs'\<rparr>)" using s(1) r(1) by simp
  ultimately show ?case by blast
qed

end
