(* ===== verification/Allocator_Properties.thy ===== *)
theory Allocator_Properties
  imports Allocator_Runs
begin

text \<open>
  The properties of the allocator as a whole, from the lemmas of the transaction and the books: runs keep the books,
  failures leave no trace, a request that can be placed is granted when no system call fails, a grant does what
  the response says, a release undoes it, and recovery after a restart rebuilds the books but must not be
  repeated.
\<close>

section \<open>When an allocation succeeds\<close>

text \<open>No system call and no memory allocation fails, and the names and paths fit their buffers.\<close>

definition calls_succeed :: "alloc_env \<Rightarrow> bool" where
  "calls_succeed env \<longleftrightarrow> ae_nodes env \<and> ae_policy env \<and> ae_registry env \<and> ae_shm env
     \<and> (\<forall>s. fe_mkdir (ae_file env) s \<and> fe_open (ae_file env) s \<and> fe_short_write (ae_file env) s = None)"

definition names_fit :: "'st npu_allocator \<Rightarrow> alloc_request \<Rightarrow> bool" where
  "names_fit a req \<longleftrightarrow> aq_pod_uid req \<noteq> [] \<and> length (aq_pod_uid req) < MAX_UUID_LEN
     \<and> aq_container_name req \<noteq> [] \<and> length (aq_container_name req) < MAX_NAME_LEN
     \<and> length (config_path a req) < MAX_DIR_PATH_LEN"

lemma config_content_short:
  assumes "\<forall>x \<in> {vc_phy_npu_id c, vc_vnpu_id c, vc_aicore_quota c, vc_scheduling_policy c, vc_vnpu_priority c}. 0 \<le> x \<and> x \<le> 100"
    "length (vc_shm_id c) < SHM_ID_LEN"
  shows "generate_config_content c MAX_CONFIG_CONTENT_LEN = (ENPU_SUCCESS, Some (config_content c))"
proof -
  have small: "length (dec_int x) \<le> 3" if "0 \<le> x \<and> x \<le> 100" for x
    using length_dec_nat [of "nat x" 3] that by (simp add: dec_int_def nat_less_iff)
  have "length (config_content c) < MAX_CONFIG_CONTENT_LEN"
    using assms small [of "vc_phy_npu_id c"] small [of "vc_vnpu_id c"] small [of "vc_aicore_quota c"] small [of "vc_scheduling_policy c"]
      small [of "vc_vnpu_priority c"] length_dec_u64 [of "vc_memory_request c"] length_dec_u64 [of "vc_memory_limit c"]
    by (simp add: config_content_def config_line_def)
  then show ?thesis by (simp add: generate_config_content_def)
qed

lemma write_config_succeeds:
  assumes "calls_succeed env" "length (base @ pod @ ''/'' @ cont @ ''/npu_info.config'') < MAX_DIR_PATH_LEN"
    "generate_config_content c MAX_CONFIG_CONTENT_LEN = (ENPU_SUCCESS, Some content)"
  shows "\<exists>fs'. config_manager_write_config (ae_file env) base fs pod cont c = Some (ENPU_SUCCESS, fs')"
  using assms by (simp add: config_manager_write_config_def format_into_def create_dir_recursive_def write_file_content_def
      calls_succeed_def Let_def list_all_iff)

lemma commit_register_succeeds:
  assumes "calls_succeed env" "registry_ok (ac_registry a)" "saves (ac_registry a)" "length (rg_entries (ac_registry a)) < MAX_ALLOC_COUNT"
    "al_pod_uid e \<noteq> []" "al_container_name e \<noteq> []" "reg_lookup (ac_registry a) (alloc_key e) = None"
  shows "\<exists>a' resp'. commit_register env a n req resp e = Some (ENPU_SUCCESS, a', req, resp')"
proof -
  have "ae_registry env" using assms(1) by (simp add: calls_succeed_def)
  then obtain cap where c: "allocation_registry_register (ae_registry env) (ac_registry a) e
      = persist_to_adapter ((ac_registry a)\<lparr>rg_entries := rg_entries (ac_registry a) @ [e], rg_capacity := cap\<rparr>)"
    using register_accept [OF assms(2,5,6,7,4)] by metis
  have "fst (persist_to_adapter ((ac_registry a)\<lparr>rg_entries := rg_entries (ac_registry a) @ [e], rg_capacity := cap\<rparr>)) = ENPU_SUCCESS"
    using assms(3) by (simp add: saves_def persist_capacity)
  then obtain r where "allocation_registry_register (ae_registry env) (ac_registry a) e = (ENPU_SUCCESS, r)"
    unfolding c by (metis prod.collapse)
  then show ?thesis by (simp add: commit_register_def Let_def)
qed

lemma shm_apply_succeeds:
  assumes i: "i < MAX_NPU_PER_NODE" and v: "v < MAX_VNPU_SCHED" and die: "die_id \<noteq> []" and e: "ve_vnpu_id e = int v"
    and named: "shm_named (ac_shm_mgr a)" and free: "shm_view (ac_shm_mgr a) (i, v) = None"
    and g: "shm_manager_get_or_create_shm (ae_shm env) (ae_sched env) (ac_shm_mgr a) (int i) die_id (Some SHM_ID_LEN) = (ENPU_SUCCESS, mgr1, nm)"
  shows "\<exists>mgr' name. shm_apply_vnpu_locked env a (int i) die_id h e prio (Some SHM_ID_LEN) = Some (ENPU_SUCCESS, a\<lparr>ac_shm_mgr := mgr'\<rparr>, Some name)"
proof -
  note g1 = get_or_create_view [OF i die named g]
  obtain st where st: "sm_shm_states mgr1 i = Some st" using g1 by auto
  have g1n: "shm_named mgr1" using g1 by blast
  define mgr2 where "mgr2 = snd (shm_manager_init_state mgr1 (int i) h)"
  note m2 = init_state_view [OF i g1n mgr2_def]
  have free2: "shm_view mgr2 (i, v) = None" using m2(1) g1 free by simp
  have v': "0 \<le> int v" "int v < int MAX_VNPU_SCHED" using v by simp_all
  have "v < MAX_VNPU_PER_DIE" using v by simp
  from add_entry_view [OF i this e _ free2 m2(2)] m2(3) [OF st]
  obtain mgr4 where "shm_manager_add_entry mgr2 (int i) e = (ENPU_SUCCESS, mgr4)" by metis
  moreover have "drop_stale_entry (ac_pool a) mgr2 (int i) (int v) = (ac_pool a, mgr2)"
    using free2 i by (auto simp: drop_stale_entry_def get_state_die shm_view_def split: option.splits if_splits)
  moreover obtain mgr5 where "set_vnpu_priority mgr4 (int i) (int v) prio = Some mgr5"
    unfolding set_vnpu_priority_def using upd_sched_defined [OF v'] by blast
  moreover obtain mgr6 where "set_alive_time_now (ae_now_ns env) mgr5 (int i) (int v) = Some mgr6"
    unfolding set_alive_time_now_def using upd_sched_defined [OF v'] by blast
  moreover have "a\<lparr>ac_shm_mgr := mgr6, ac_pool := ac_pool a\<rparr> = a\<lparr>ac_shm_mgr := mgr6\<rparr>" by simp
  ultimately show ?thesis using g g1 e by (auto simp: shm_apply_vnpu_locked_def mgr2_def [symmetric])
qed

text \<open>When no system call fails, the transaction after the placement reaches the registration.\<close>

lemma commit_tree_registers:
  assumes env: "calls_succeed env" and f: "fits a p n i d e0" and sh: "shm_short (ac_shm_mgr a)" and nf: "names_fit a req"
    and die: "length (al_die_id e0) < DIE_ID_LEN" and names: "al_pod_uid e0 = aq_pod_uid req" "al_container_name e0 = aq_container_name req"
    and small: "0 \<le> al_sched_policy e0" "al_sched_policy e0 \<le> 3" "0 \<le> al_vnpu_priority e0" "al_vnpu_priority e0 \<le> 1"
  shows "\<exists>a' resp' e. commit_tree env a p n req resp e0 = commit_register env a' n req resp' e \<and> ac_registry a' = ac_registry a
    \<and> al_pod_uid e = aq_pod_uid req \<and> al_container_name e = aq_container_name req"
proof -
  note fd = fitsD [OF f]
  note pd = placeableD [OF fd(1)]
  define h where "h = int (unat (al_hbm_quota e0))"
  have h: "0 \<le> h" "h < 2 ^ 63" "sint (al_hbm_quota e0) = h" unfolding h_def by (rule fd)+
  have neg: "neg_i64 h = Some (- h)" using h(1) by (auto simp: neg_i64_def)
  note steps = occupy_steps [OF pd(1) h(1,2)]
  have pol: "ae_policy env" and shm_ok: "ae_shm env = True" using env by (simp_all add: calls_succeed_def)
  define a1 where "a1 = log_step (a\<lparr>ac_tree := put_node (ac_tree a) p (charged_node n i 0 0)\<rparr>) STEP_MARK_OCCUPIED (int d) (int i) 0 0 0 [] [] []"
  define a2 where "a2 = log_step (a1\<lparr>ac_tree := put_node (ac_tree a) p (charged_node n i (al_aicore_quota e0) h)\<rparr>) STEP_UPDATE_QUOTA (int d) (int i) (- al_aicore_quota e0) (- h) 0 [] [] []"
  define a3 where "a3 = log_step (a2\<lparr>ac_tree := put_node (ac_tree a) p (occupy_node n i (al_aicore_quota e0) h (al_sched_policy e0) (al_vnpu_priority e0))\<rparr>)
      STEP_ATTACH_POLICY (int d) (int i) 0 0 (al_sched_policy e0) [] [] []"
  have t: "ac_tree a1 = put_node (ac_tree a) p (charged_node n i 0 0)" "ac_tree a2 = put_node (ac_tree a) p (charged_node n i (al_aicore_quota e0) h)"
    by (simp_all add: a1_def a2_def log_step_def)
  have "commit_tree env a p n req resp e0 = commit_shm env a3 n req e0"
    by (simp add: commit_tree_def Let_def fd(2,8) steps(1) steps(2) [of "al_aicore_quota e0"]
        steps(3) [of True "al_aicore_quota e0" "al_sched_policy e0" "al_vnpu_priority e0"] neg h(3) pol
        t a1_def [symmetric] a2_def [symmetric] a3_def [symmetric])
  moreover have a3: "ac_shm_mgr a3 = ac_shm_mgr a" "ac_registry a3 = ac_registry a" "ac_config_base a3 = ac_config_base a"
    by (simp_all add: a3_def a2_def a1_def log_step_def)
  define x where "x = build_shm_entry (int i) (al_hbm_quota e0) (al_hbm_limit e0) (al_sched_policy e0) (al_swap_priority e0) (ac_oversub_ratio a3 (nat (int d)) > 0)"
  have x: "ve_vnpu_id x = int i" by (simp add: x_def build_shm_entry_def)
  have m: "shm_named (ac_shm_mgr a3)" "shm_view (ac_shm_mgr a3) (d, i) = None" using pd(4,5) a3 by simp_all
  obtain mgr1 nm where g: "shm_manager_get_or_create_shm (ae_shm env) (ae_sched env) (ac_shm_mgr a3) (int d) (al_die_id e0) (Some SHM_ID_LEN) = (ENPU_SUCCESS, mgr1, nm)"
    unfolding a3(1) using get_or_create_succeeds [OF pd(3) die sh, of "ae_shm env" "ae_sched env"] shm_ok by metis
  obtain mgr' name where "shm_apply_vnpu_locked env a3 (int d) (al_die_id e0) (npu_node_get_total_memory (Some n)) x (al_vnpu_priority e0) (Some SHM_ID_LEN)
      = Some (ENPU_SUCCESS, a3\<lparr>ac_shm_mgr := mgr'\<rparr>, Some name)"
    using shm_apply_succeeds [OF pd(3,7) fd(6) x m g] by blast
  moreover define a4 where "a4 = log_step (a3\<lparr>ac_shm_mgr := mgr'\<rparr>) STEP_CREATE_SHM (int d) (int i) 0 0 0 [] [] name"
  ultimately have "commit_tree env a p n req resp e0 = commit_config env a4 n req (response_zero\<lparr>rp_shm_id := name\<rparr>) e0"
    using pd(3) by (simp add: commit_shm_def Let_def fd(2,8) x_def)
  moreover define e where "e = final_alloc e0 d name"
  have e': "e0\<lparr>al_phy_id := int d, al_shm_id := copy_str SHM_ID_LEN name\<rparr> = e" by (simp add: e_def final_alloc_def)
  have a4: "ac_registry a4 = ac_registry a" "ac_config_base a4 = ac_config_base a" by (simp_all add: a4_def log_step_def a3)
  have i: "i < 64" using slot_freeD(3) [OF pd(1)] .
  have "generate_config_content (config_of e (al_shm_id e)) MAX_CONFIG_CONTENT_LEN = (ENPU_SUCCESS, Some (config_content (config_of e (al_shm_id e))))"
    using small pd(3) i f by (intro config_content_short) (auto simp: config_of_def e_def final_alloc_def fits_def fd(2) copy_str_def)
  then obtain fs where "config_manager_write_config (ae_file env) (ac_config_base a4) (ac_files a4) (aq_pod_uid req) (aq_container_name req)
      (config_of e (al_shm_id e)) = Some (ENPU_SUCCESS, fs)"
    using write_config_succeeds [OF env] nf unfolding names_fit_def config_path_def a4(2) by blast
  moreover define a5 where "a5 = log_step (a4\<lparr>ac_files := fs\<rparr>) STEP_WRITE_CONFIG (int d) (int i) 0 0 0 (aq_pod_uid req) (aq_container_name req) []"
  moreover have shm: "al_shm_id e = copy_str SHM_ID_LEN name" by (simp add: e_def final_alloc_def)
  ultimately have eq: "commit_tree env a p n req resp e0 = commit_register env a5 n req (response_zero\<lparr>rp_shm_id := name\<rparr>) e"
    by (simp add: commit_config_def Let_def fd(2,8) e')
  have "ac_registry a5 = ac_registry a" by (simp add: a5_def log_step_def a4)
  moreover have "al_pod_uid e = aq_pod_uid req" "al_container_name e = aq_container_name req" by (simp_all add: e_def final_alloc_def names)
  ultimately show ?thesis unfolding eq by blast
qed


text \<open>A request that passes the checks is one the evaluator accepts, if it asks for memory.\<close>

lemma checked_request:
  assumes "check_request lc req resp = (ENPU_SUCCESS, req1, resp1, hr, hl)"
  shows "req1 = effective_request req" "hr = aq_hbm_quota req" "hl = aq_hbm_limit req" "hr \<le> hl"
    "0 \<le> aq_aicore_quota req1" "aq_aicore_quota req1 \<le> HUNDRED_CORE" "0 \<le> aq_sched_policy req1" "aq_sched_policy req1 \<le> 3"
    "0 \<le> aq_vnpu_priority req1" "aq_vnpu_priority req1 \<le> 1"
    "hr \<noteq> 0 \<Longrightarrow> share_request_ok (build_eval_request a req1 hr hl)"
proof -
  show h: "req1 = effective_request req" "hr = aq_hbm_quota req" "hl = aq_hbm_limit req" "hr \<le> hl"
    "0 \<le> aq_aicore_quota req1" "aq_aicore_quota req1 \<le> HUNDRED_CORE"
    using check_request_cases(2) [OF assms] by auto
  have prio: "aq_vnpu_priority req = VNPU_PRIORITY_NORMAL \<or> aq_vnpu_priority req = VNPU_PRIORITY_HIGH"
    "aq_vnpu_priority req \<noteq> VNPU_PRIORITY_HIGH \<Longrightarrow> 0 < aq_aicore_quota req"
    using assms by (auto simp: check_request_def Let_def split: if_splits prod.splits)
  have pol: "aq_sched_policy req1 \<in> {SCHED_POLICY_FIXED_SHARE, SCHED_POLICY_ELASTIC, SCHED_POLICY_BEST_EFFORT}"
    using assms by (auto simp: check_request_def parse_hbm_request_limit_def Let_def split: if_splits prod.splits)
  show "0 \<le> aq_sched_policy req1" "aq_sched_policy req1 \<le> 3" using pol by auto
  show "0 \<le> aq_vnpu_priority req1" "aq_vnpu_priority req1 \<le> 1" using prio(1) by (auto simp: h(1))
  show "share_request_ok (build_eval_request a req1 hr hl)" if "hr \<noteq> 0"
    using that prio pol h(6) by (auto simp: share_request_ok_def build_eval_request_def h(1) effective_request_def split: if_splits)
qed

lemma place_registers:
  assumes b: "books cap a" and r: "ready strat a" and nm: "ac_evaluator_name a = [] \<or> ac_evaluator_name a = ''share''"
    and sh: "shm_short (ac_shm_mgr a)" and env: "calls_succeed env" and nf: "names_fit a req1"
    and c: "check_request lc req resp = (ENPU_SUCCESS, req1, resp1, hr, hl)" "hr \<noteq> 0"
  shows "eligible (ac_tree a) (build_eval_request a req1 hr hl) = {}
     \<and> (\<exists>a' req' resp'. place_and_commit env a req1 resp1 hr hl = Some (ENPU_NO_RESOURCE, a', req', resp'))
   \<or> eligible (ac_tree a) (build_eval_request a req1 hr hl) \<noteq> {}
     \<and> (\<exists>a' n resp' e. place_and_commit env a req1 resp1 hr hl = commit_register env a' n req1 resp' e \<and> ac_registry a' = ac_registry a
          \<and> al_pod_uid e = aq_pod_uid req1 \<and> al_container_name e = aq_container_name req1)"
proof -
  note cr = checked_request [OF c(1)]
  define rq where "rq = build_eval_request a req1 hr hl"
  define er0 where "er0 = \<lparr>rs_node = None, rs_vnpu_id = 0, rs_error_msg = No_error\<rparr>"
  have wf: "tree_wf (ac_tree a)" "nt_initialized (ac_tree a)" using b by (auto simp: books_def tree_books_def)
  have pick: "pick_evaluator a = Some (''share'', evaluator_share_evaluate strat)"
    using r nm by (auto simp: pick_evaluator_def ready_def)
  have ok: "share_request_ok rq" unfolding rq_def by (rule cr(11) [OF c(2)])
  have dec: "threshold_defined rq n" for n
    using r by (auto simp: threshold_defined_def rq_def build_eval_request_def ready_def ratio_ok_def)
  have nodes: "ae_nodes env" using env by (simp add: calls_succeed_def)
  show ?thesis
  proof (rule evaluate_cases [OF wf ok ballI [OF dec], of strat er0], goal_cases)
    case (1 p er)
    have ev: "evaluator_share_evaluate strat (ac_tree a) rq er0 = Some (ENPU_SUCCESS, er)" by (rule 1(1))
    obtain p' n i where s: "rs_node er = Some p'" "rs_vnpu_id er = int i" "slot_free (ac_tree a) p' n i" "admissible rq n"
      using share_chosen [OF wf dec ev] by blast
    have rq: "rq_aicore_quota rq = aq_aicore_quota req1" "rq_hbm_quota rq = hr" "rq_hbm_limit rq = hl"
      using cr(6) by (simp_all add: rq_def build_eval_request_def)
    define d where "d = nat (nm_phy_id (nd_meta n))"
    define e0 where "e0 = build_allocation env n (int i) req1 rq hr hl"
    have f: "fits (a\<lparr>ac_log := []\<rparr>) p' n i d e0" and phy: "nm_phy_id (nd_meta n) = int d"
      using chosen_fits(1) [OF b s(3,4) rq(1) cr(5,6) rq(2,3) cr(4), of env req1] chosen_fits(2) [OF b s(3,4) rq(1) cr(5,6) rq(2,3) cr(4)]
      by (simp_all add: d_def e0_def)
    have names: "default_names (int d) (int i) req1 = req1" using nf by (simp add: names_fit_def default_names_def)
    have valid: "vnpu_id_is_valid (int i)" using slot_freeD(3) [OF s(3)] by (simp add: vnpu_id_is_valid_def)
    have eq: "place_and_commit env a req1 resp1 hr hl = commit_tree env (a\<lparr>ac_log := []\<rparr>) p' n req1 resp1 e0"
      using nodes pick ev s(1,2) slot_freeD(6) [OF s(3)] valid phy names
      by (simp add: place_and_commit_def Let_def rq_def [symmetric] er0_def [symmetric] e0_def npu_node_get_phy_id_def)
    have "\<exists>a' resp' e. commit_tree env (a\<lparr>ac_log := []\<rparr>) p' n req1 resp1 e0 = commit_register env a' n req1 resp' e \<and> ac_registry a' = ac_registry (a\<lparr>ac_log := []\<rparr>)
        \<and> al_pod_uid e = aq_pod_uid req1 \<and> al_container_name e = aq_container_name req1"
      using nf cr(7-10) sh
      by (intro commit_tree_registers [OF env f]) (simp_all add: names_fit_def config_path_def e0_def build_allocation_def copy_str_def)
    moreover have "eligible (ac_tree a) (build_eval_request a req1 hr hl) \<noteq> {}" using 1(2) unfolding rq_def by auto
    ultimately show ?thesis unfolding eq by auto
  next
    case (2 e)
    then show ?thesis using nodes pick by (simp add: place_and_commit_def Let_def rq_def [symmetric] er0_def)
  qed
qed

lemma place_complete:
  assumes b: "books cap a" and r: "ready strat a" and nm: "ac_evaluator_name a = [] \<or> ac_evaluator_name a = ''share''"
    and sh: "shm_short (ac_shm_mgr a)" and env: "calls_succeed env" and nf: "names_fit a req1" and sv: "saves (ac_registry a)"
    and room: "length (rg_entries (ac_registry a)) < MAX_ALLOC_COUNT" and absent: "reg_lookup (ac_registry a) (aq_pod_uid req1, aq_container_name req1) = None"
    and c: "check_request lc req resp = (ENPU_SUCCESS, req1, resp1, hr, hl)" "hr \<noteq> 0"
  shows "\<exists>a' req' resp'. place_and_commit env a req1 resp1 hr hl
     = Some (if eligible (ac_tree a) (build_eval_request a req1 hr hl) = {} then ENPU_NO_RESOURCE else ENPU_SUCCESS, a', req', resp')"
proof (cases "eligible (ac_tree a) (build_eval_request a req1 hr hl) = {}")
  case True
  then show ?thesis using place_registers [OF b r nm sh env nf c] by auto
next
  case False
  then obtain a' n resp' e where p: "place_and_commit env a req1 resp1 hr hl = commit_register env a' n req1 resp' e" "ac_registry a' = ac_registry a"
    "al_pod_uid e = aq_pod_uid req1" "al_container_name e = aq_container_name req1"
    using place_registers [OF b r nm sh env nf c] by blast
  have "registry_ok (ac_registry a)" using b by (simp add: books_def)
  then show ?thesis unfolding p(1) using False p(2-4) sv room absent nf commit_register_succeeds [OF env, of a' e n req1 resp']
    by (auto simp: names_fit_def alloc_key_def)
qed

lemma allocate_place:
  assumes b: "books cap a" and absent: "reg_lookup (ac_registry a) (aq_pod_uid req, aq_container_name req) = None"
    and c: "check_request (int (length (nt_leaves (ac_tree a)))) req resp = (ENPU_SUCCESS, req1, resp1, hr, hl)"
    and card: "aq_predicate_phy_id req < 0 \<or> aq_predicate_phy_id req \<in> leaf_phy (ac_tree a) ` set (nt_leaves (ac_tree a))"
  shows "npu_allocator_allocate env a req resp = place_and_commit env a req1 resp1 hr hl"
    "aq_pod_uid req1 = aq_pod_uid req" "aq_container_name req1 = aq_container_name req"
proof -
  have wf: "tree_wf (ac_tree a)" "nt_initialized (ac_tree a)" "registry_ok (ac_registry a)" using b by (auto simp: books_def tree_books_def)
  show same: "aq_pod_uid req1 = aq_pod_uid req" "aq_container_name req1 = aq_container_name req"
    by (simp_all add: checked_request(1) [OF c] effective_request_def)
  have pred: "aq_predicate_phy_id req1 = aq_predicate_phy_id req" by (simp add: checked_request(1) [OF c] effective_request_def)
  have "npu_tree_get_leaf (ac_tree a) (aq_predicate_phy_id req) \<noteq> Some None \<and> npu_tree_get_leaf (ac_tree a) (aq_predicate_phy_id req) \<noteq> None"
    if "0 \<le> aq_predicate_phy_id req" using card that get_leaf_leaf [OF wf(1,2)] by auto
  then show "npu_allocator_allocate env a req resp = place_and_commit env a req1 resp1 hr hl"
    using absent c by (auto simp: npu_allocator_allocate_def same pred registry_get_lookup [OF wf(3)])
qed

section \<open>The properties\<close>

text \<open>C4: placement is complete. For a request that passes the checks, asks for memory and carries fresh names that
  fit their buffers, and when no system call and no save of the registry fails, \<^verbatim>\<open>npu_allocator_allocate\<close> succeeds exactly if some device is
  eligible (it has the quotas, a free slot, room under its oversubscription threshold and agreeing policies), and
  otherwise reports \<^verbatim>\<open>ENPU_NO_RESOURCE\<close>.\<close>

theorem allocate_complete:
  assumes "books cap a" "ready strat a" "ac_evaluator_name a = [] \<or> ac_evaluator_name a = ''share''"
    "shm_short (ac_shm_mgr a)" "calls_succeed env" "names_fit a req"
    "saves (ac_registry a)" "length (rg_entries (ac_registry a)) < MAX_ALLOC_COUNT" "reg_lookup (ac_registry a) (aq_pod_uid req, aq_container_name req) = None"
    "check_request (int (length (nt_leaves (ac_tree a)))) req resp = (ENPU_SUCCESS, req1, resp1, hbm_request, hbm_limit)" "aq_hbm_quota req \<noteq> 0"
    "aq_predicate_phy_id req < 0 \<or> aq_predicate_phy_id req \<in> leaf_phy (ac_tree a) ` set (nt_leaves (ac_tree a))"
  shows "\<exists>a' req' resp'. npu_allocator_allocate env a req resp
     = Some (if eligible (ac_tree a) (build_eval_request a req1 hbm_request hbm_limit) = {} then ENPU_NO_RESOURCE else ENPU_SUCCESS, a', req', resp')"
proof -
  note ap = allocate_place [OF assms(1,9,10,12)]
  have "names_fit a req1" using assms(6) by (simp add: names_fit_def config_path_def ap(2,3))
  then show ?thesis
    using place_complete [OF assms(1-5) _ assms(7,8) _ assms(10)] assms(9,11) checked_request(2) [OF assms(10)] by (simp add: ap)
qed

text \<open>C1: the books are kept. Any sequence of allocations, releases, ratio changes and checkpoints, with any requests,
  responses and outcomes of the system calls, is free of undefined behaviour. Afterwards every registered
  allocation has its own slot, and on every device the quotas that are left and the quotas of the registered
  allocations add up to its capacity, the occupied slots are those of the allocations, the shared memory mirrors them,
  and the vNPUs of normal priority share one policy. Two conditions are needed. The storage behind the registry accepts the
  save of every allocation (saves of releases and checkpoints may fail): otherwise the table keeps an entry whose resources
  were given back, as the next property says. And the ratios keep the threshold within \<^verbatim>\<open>uint64_t\<close>, to which
  the code converts it without a check.\<close>

theorem allocator_keeps_books:
  assumes "books cap a" "ready strat a" "\<forall>op \<in> set ops. ratio_op_ok op" "saves_along ops a"
  shows "\<exists>a'. allocator_run ops a = Some a' \<and> books cap a' \<and> distinct (map shm_slot (rg_entries (ac_registry a')))
    \<and> (\<forall>p \<in> set (nt_leaves (ac_tree a')). \<forall>n. nt_heap (ac_tree a') p = Some n \<longrightarrow>
         (let es = on_die (rg_entries (ac_registry a')) (nm_phy_id (nd_meta n)) in
          occupied n = (\<lambda>e. nat (al_vnpu_id e)) ` set es \<and> one_policy es
          \<and> sint (na_aicore_quota (nd_allocatable n)) + (\<Sum>e\<leftarrow>es. al_aicore_quota e) = fst (cap p)
          \<and> unat (na_hbm_quota (nd_allocatable n)) + (\<Sum>e\<leftarrow>es. unat (al_hbm_quota e)) = snd (cap p)))"
proof -
  obtain a' where a': "allocator_run ops a = Some a'" "books cap a'" using allocator_run_books [OF assms] by blast
  then have tb: "tree_books cap (rg_entries (ac_registry a')) (ac_tree a')" by (simp add: books_def)
  have "device_books (cap p) (on_die (rg_entries (ac_registry a')) (nm_phy_id (nd_meta n))) n"
    if "p \<in> set (nt_leaves (ac_tree a'))" "nt_heap (ac_tree a') p = Some n" for p n
    using tree_booksD [OF tb that(1)] that(2) by (metis option.inject)
  then show ?thesis using a' tb by (auto simp: Let_def device_books_def tree_books_def)
qed



lemma committedE:
  assumes b: "books cap a" and c: "committed env a req hr hl a' req' resp' e"
  obtains p n i d name where "e = final_alloc (build_allocation env n (int i) req' (build_eval_request a req hr hl) hr hl) d name"
    "req' = default_names (int d) (int i) req" "resp' = success_response (response_zero\<lparr>rp_shm_id := name\<rparr>) e n"
    "granted (a\<lparr>ac_log := []\<rparr>) p n i d req' e a'" "shm_view (ac_shm_mgr a) (d, i) = None"
    "slot_free (ac_tree a) p n i" "nm_phy_id (nd_meta n) = int d" "d < MAX_NPU_PER_NODE" "admissible (build_eval_request a req hr hl) n"
proof -
  define rq where "rq = build_eval_request a req hr hl"
  obtain p n i d name where s: "slot_free (ac_tree a) p n i" "nm_phy_id (nd_meta n) = int d" "d < MAX_NPU_PER_NODE" "admissible rq n"
    and e: "e = final_alloc (build_allocation env n (int i) req' rq hr hl) d name" "req' = default_names (int d) (int i) req"
      "resp' = success_response (response_zero\<lparr>rp_shm_id := name\<rparr>) e n" "granted (a\<lparr>ac_log := []\<rparr>) p n i d req' e a'"
    using c unfolding committed_def rq_def by blast
  have r: "0 \<le> aq_aicore_quota req" "aq_aicore_quota req \<le> HUNDRED_CORE" "hr \<le> hl" using c by (auto simp: committed_def)
  have rq: "rq_aicore_quota rq = aq_aicore_quota req" "rq_hbm_quota rq = hr" "rq_hbm_limit rq = hl"
    using r(2) by (simp_all add: rq_def build_eval_request_def)
  have "fits (a\<lparr>ac_log := []\<rparr>) p n i d (build_allocation env n (int i) req' rq hr hl)"
    using chosen_fits(1) [OF b s(1,4) rq(1) r(1,2) rq(2,3) r(3), of env req'] s(2) by simp
  then have "shm_view (ac_shm_mgr a) (d, i) = None" by (simp add: fits_def placeable_def)
  then show ?thesis using that s e unfolding rq_def by blast
qed

text \<open>The limits on a die after a grant.\<close>

lemma committed_limits:
  assumes b: "books cap a" and c: "committed env a req hr hl a' req' resp' e"
  shows "\<exists>p n th. p \<in> set (nt_leaves (ac_tree a)) \<and> nt_heap (ac_tree a) p = Some n \<and> nm_phy_id (nd_meta n) = al_phy_id e
    \<and> oversub_threshold (ac_oversub_ratio a (nat (al_phy_id e))) (die_hbm_total_mb n) = Some th
    \<and> limits_on (rg_entries (ac_registry a) @ [e]) (nat (al_phy_id e)) \<le> unat th"
proof -
  define rq where "rq = build_eval_request a req hr hl"
  obtain p n i d name where e: "e = final_alloc (build_allocation env n (int i) req' rq hr hl) d name"
    and s: "slot_free (ac_tree a) p n i" "nm_phy_id (nd_meta n) = int d" "d < MAX_NPU_PER_NODE" "admissible rq n"
    unfolding rq_def by (rule committedE [OF b c])
  have ef: "al_phy_id e = int d" "al_hbm_limit e = hl" by (simp_all add: e final_alloc_def)
  have p: "p \<in> set (nt_leaves (ac_tree a))" "nt_heap (ac_tree a) p = Some n" using s(1) by (auto simp: slot_free_def)
  obtain th where th: "oversub_threshold (ac_oversub_ratio a d) (die_hbm_total_mb n) = Some th" "allocated_limits (ac_shm_mgr a) d + hl \<le> th"
    using s(2,4) by (auto simp: admissible_def Let_def rq_def build_eval_request_def split: option.splits)
  have tb: "tree_books cap (rg_entries (ac_registry a)) (ac_tree a)" using b by (simp add: books_def)
  have "hl \<le> die_hbm_total_mb n" using s(4) by (simp add: admissible_def Let_def rq_def build_eval_request_def)
  then have "unat hl \<le> 2 ^ 44" using die_total_small [of n] by (simp add: word_le_nat_alt)
  then have "unat (allocated_limits (ac_shm_mgr a) d) + unat hl < 2 ^ 64"
    using limits_small [OF tb, of d] allocated_limits_exact [OF b s(3)] by simp
  then have "unat (allocated_limits (ac_shm_mgr a) d + hl) = limits_on (rg_entries (ac_registry a)) d + unat hl"
    unfolding allocated_limits_exact [OF b s(3), symmetric] by (simp add: unat_add_lem [where 'a = 64, simplified])
  then have "limits_on (rg_entries (ac_registry a)) d + unat hl \<le> unat th" using th(2) by (simp add: word_le_nat_alt)
  then show ?thesis using p s(2) th(1) ef by (auto simp: limits_on_def)
qed

text \<open>C3: what a grant means. When \<^verbatim>\<open>npu_allocator_allocate\<close> succeeds, exactly one allocation is added to the registry;
  it has the quotas of the request, names that were not registered, and a slot that was free; the response reports
  it; the configuration file of the container holds its configuration and the shared memory of the die an entry that
  mirrors it; the memory limits on the die, computed without wrap-around, stay within the oversubscription
  threshold of the device.\<close>

theorem granted_allocation:
  assumes "books cap a" "ready strat a" "npu_allocator_allocate env a req resp = Some (ENPU_SUCCESS, a', req', resp')"
  shows "\<exists>e. rg_entries (ac_registry a') = rg_entries (ac_registry a) @ [e] \<and> reg_lookup (ac_registry a) (alloc_key e) = None
    \<and> al_hbm_quota e = aq_hbm_quota req \<and> al_hbm_limit e = aq_hbm_limit req \<and> al_vnpu_priority e = aq_vnpu_priority req
    \<and> al_aicore_quota e = (if aq_vnpu_priority req = VNPU_PRIORITY_HIGH then 0 else aq_aicore_quota req)
    \<and> rp_result resp' = ENPU_SUCCESS \<and> rp_phy_id resp' = al_phy_id e \<and> rp_vnpu_id resp' = al_vnpu_id e
    \<and> rp_pod_uid resp' = al_pod_uid e \<and> rp_container_name resp' = al_container_name e
    \<and> ac_files a' (config_path a req') = Some (config_content (config_of e (al_shm_id e)))
    \<and> shm_view (ac_shm_mgr a) (shm_slot e) = None
    \<and> (\<exists>x. shm_view (ac_shm_mgr a') = (shm_view (ac_shm_mgr a))(shm_slot e \<mapsto> x) \<and> mirrors x e)
    \<and> (\<exists>p n th. p \<in> set (nt_leaves (ac_tree a)) \<and> nt_heap (ac_tree a) p = Some n \<and> nm_phy_id (nd_meta n) = al_phy_id e
         \<and> oversub_threshold (ac_oversub_ratio a (nat (al_phy_id e))) (die_hbm_total_mb n) = Some th
         \<and> limits_on (rg_entries (ac_registry a')) (nat (al_phy_id e)) \<le> unat th)"
proof -
  obtain e where c: "committed env a (effective_request req) (aq_hbm_quota req) (aq_hbm_limit req) a' req' resp' e"
    using allocate_outcome [OF assms(1,2), of env req resp] assms(3) by (auto simp: alloc_outcome_def)
  obtain p n i d name where k: "e = final_alloc (build_allocation env n (int i) req'
        (build_eval_request a (effective_request req) (aq_hbm_quota req) (aq_hbm_limit req)) (aq_hbm_quota req) (aq_hbm_limit req)) d name"
      "req' = default_names (int d) (int i) (effective_request req)" "resp' = success_response (response_zero\<lparr>rp_shm_id := name\<rparr>) e n"
      "granted (a\<lparr>ac_log := []\<rparr>) p n i d req' e a'" "shm_view (ac_shm_mgr a) (d, i) = None"
    by (rule committedE [OF assms(1) c])
  have ac: "aq_aicore_quota (effective_request req) \<le> HUNDRED_CORE" using c by (simp add: committed_def)
  have slot: "shm_slot e = (d, i)" by (simp add: k(1) shm_slot_def final_alloc_def)
  have ef: "al_hbm_quota e = aq_hbm_quota req" "al_hbm_limit e = aq_hbm_limit req" "al_vnpu_priority e = aq_vnpu_priority req" "al_vnpu_id e = int i"
    "al_aicore_quota e = aq_aicore_quota (effective_request req)" "copy_str MAX_UUID_LEN (al_pod_uid e) = al_pod_uid e"
    "copy_str MAX_NAME_LEN (al_container_name e) = al_container_name e"
    using ac by (simp_all add: k(1,2) final_alloc_def build_eval_request_def build_allocation_def)
  have "mirrors (build_shm_entry (int i) (al_hbm_quota e) (al_hbm_limit e) (al_sched_policy e) (al_swap_priority e) b) e" for b
    by (simp add: mirrors_def build_shm_entry_def ef)
  moreover have "al_aicore_quota e = (if aq_vnpu_priority req = VNPU_PRIORITY_HIGH then 0 else aq_aicore_quota req)"
    by (simp add: ef(5) effective_request_def)
  moreover have "rp_result resp' = ENPU_SUCCESS" "rp_phy_id resp' = al_phy_id e" "rp_vnpu_id resp' = al_vnpu_id e"
    "rp_pod_uid resp' = al_pod_uid e" "rp_container_name resp' = al_container_name e"
    using ef(6,7) by (simp_all add: k(3) success_response_def)
  moreover obtain mgr r l where a': "a' = a\<lparr>
       ac_tree := put_node (ac_tree a) p (occupy_node n i (al_aicore_quota e) (int (unat (al_hbm_quota e))) (al_sched_policy e) (al_vnpu_priority e)),
       ac_shm_mgr := mgr, ac_files := (ac_files a)(config_path (a\<lparr>ac_log := []\<rparr>) req' \<mapsto> config_content (config_of e (al_shm_id e))), ac_registry := r, ac_log := l\<rparr>"
     "shm_view mgr = (shm_view (ac_shm_mgr a))((d, i) \<mapsto> build_shm_entry (int i) (al_hbm_quota e) (al_hbm_limit e) (al_sched_policy e)
           (al_swap_priority e) (ac_oversub_ratio a d > 0))"
     "rg_entries r = rg_entries (ac_registry a) @ [e]" "reg_lookup (ac_registry a) (alloc_key e) = None"
    using k(4) unfolding granted_def by auto
  ultimately show ?thesis using committed_limits [OF assms(1) c] ef k(5) slot
    by (intro exI [of _ e]) (auto simp: config_path_def)
qed


lemma node_view_vacate_occupy:
  assumes "int i \<notin> pe_vnpu_id ` set (policy_list n)" "remove_policy (int i) (policy_list (occupy_node n i ac h pol prio)) = Some ps" "i < 64"
    "bit (na_vnpu_mask (nd_allocatable n)) i"
  shows "node_view (vacate_node (occupy_node n i ac h pol prio) i ac h ps) = node_view n"
proof -
  have "policy_list (occupy_node n i ac h pol prio) = policy_list n @ [\<lparr>pe_vnpu_id = int i, pe_sched_policy = pol, pe_vnpu_priority = prio\<rparr>]"
    by (simp add: occupy_node_def policy_list_def)
  then have ps: "ps = policy_list n" using assms(1,2) remove_policy_append [of "int i" "policy_list n"] by simp
  have "nd_allocatable (vacate_node (occupy_node n i ac h pol prio) i ac h ps) = nd_allocatable n"
    using assms(3,4) by (simp add: vacate_node_def occupy_node_def charge_quota_def clear_set_bit)
  then show ?thesis by (simp add: node_view_def vacate_node_def ps policy_list_def occupy_node_def)
qed

text \<open>C5: a release undoes an allocation. Releasing the names that the response of a successful allocation reports
  succeeds, whatever the file system does, and brings back the device tree (quotas, masks, counts and policies), the
  entries of the shared memory and the registered allocations as they were before the allocation.\<close>

theorem release_undoes_allocation:
  assumes "books cap a" "ready strat a" "npu_allocator_allocate env a req resp = Some (ENPU_SUCCESS, a', req', resp')"
  shows "\<exists>a''. npu_allocator_release env' a' (rp_pod_uid resp') (rp_container_name resp') = Some (ENPU_SUCCESS, a'')
    \<and> tree_view (ac_tree a'') = tree_view (ac_tree a) \<and> shm_view (ac_shm_mgr a'') = shm_view (ac_shm_mgr a)
    \<and> rg_entries (ac_registry a'') = rg_entries (ac_registry a)"
proof -
  obtain e where c: "committed env a (effective_request req) (aq_hbm_quota req) (aq_hbm_limit req) a' req' resp' e"
    using allocate_outcome [OF assms(1,2), of env req resp] assms(3) by (auto simp: alloc_outcome_def)
  have b': "books cap a'" by (rule books_committed [OF assms(1) c])
  obtain p n i d name where k: "e = final_alloc (build_allocation env n (int i) req'
        (build_eval_request a (effective_request req) (aq_hbm_quota req) (aq_hbm_limit req)) (aq_hbm_quota req) (aq_hbm_limit req)) d name"
      "resp' = success_response (response_zero\<lparr>rp_shm_id := name\<rparr>) e n"
      "granted (a\<lparr>ac_log := []\<rparr>) p n i d req' e a'" "shm_view (ac_shm_mgr a) (d, i) = None" "slot_free (ac_tree a) p n i" "nm_phy_id (nd_meta n) = int d"
    by (rule committedE [OF assms(1) c])
  note sd = slot_freeD [OF k(5)]
  have ef: "al_vnpu_id e = int i" "al_phy_id e = int d" "shm_slot e = (d, i)" by (simp_all add: k(1) final_alloc_def shm_slot_def)
  have nm: "(rp_pod_uid resp', rp_container_name resp') = alloc_key e"
    by (simp add: k(1,2) alloc_key_def success_response_def final_alloc_def build_allocation_def)
  have a': "ac_tree a' = put_node (ac_tree a) p (occupy_node n i (al_aicore_quota e) (int (unat (al_hbm_quota e))) (al_sched_policy e) (al_vnpu_priority e))"
     "rg_entries (ac_registry a') = rg_entries (ac_registry a) @ [e]" "registry_ok (ac_registry a')"
     "\<exists>x. shm_view (ac_shm_mgr a') = (shm_view (ac_shm_mgr a))((d, i) \<mapsto> x)" "reg_lookup (ac_registry a) (alloc_key e) = None"
    using k(3) unfolding granted_def by auto
  have "reg_lookup (ac_registry a') (alloc_key e) = Some e" using a'(2,3) by (simp add: reg_lookup_Some registry_ok_def)
  from release_present [OF b', of "rp_pod_uid resp'" "rp_container_name resp'" e env'] this nm obtain a'' where
    rel: "npu_allocator_release env' a' (rp_pod_uid resp') (rp_container_name resp') = Some (ENPU_SUCCESS, a'')" "released a' e a''" by auto
  obtain q n' ps where q: "q \<in> set (nt_leaves (ac_tree a'))" "leaf_phy (ac_tree a') q = int d" "nt_heap (ac_tree a') q = Some n'"
      "remove_policy (int i) (policy_list n') = Some ps"
      "ac_tree a'' = put_node (ac_tree a') q (vacate_node n' i (al_aicore_quota e) (int (unat (al_hbm_quota e))) ps)"
      "shm_view (ac_shm_mgr a'') = (shm_view (ac_shm_mgr a'))((d, i) := None)"
      "rg_entries (ac_registry a'') = remove1 e (rg_entries (ac_registry a'))"
    using rel(2) unfolding released_def ef by auto
  have wf: "tree_wf (ac_tree a')" using b' by (simp add: books_def tree_books_def)
  have "p \<in> set (nt_leaves (ac_tree a'))" "leaf_phy (ac_tree a') p = int d"
    using k(5,6) by (auto simp: a'(1) slot_free_def leaf_phy_def)
  then have "q = p" using wf q(1,2) by (auto simp: tree_wf_def distinct_map inj_on_def)
  then have "tree_view (ac_tree a'') = tree_view (ac_tree a)"
    using q(3,4,5) sd node_view_vacate_occupy by (auto simp: a'(1) intro!: tree_view_put_node)
  moreover have "shm_view (ac_shm_mgr a'') = shm_view (ac_shm_mgr a)" using q(6) a'(4) k(4) by (auto simp: fun_eq_iff)
  moreover have "e \<notin> set (rg_entries (ac_registry a))" using a'(5) by (auto simp: reg_lookup_None)
  ultimately show ?thesis using rel(1) q(7) a'(2) by (simp add: remove1_append)
qed

text \<open>The device tree of a restarted manager: the same devices, nothing occupied.\<close>

definition same_devices :: "npu_tree \<Rightarrow> npu_tree \<Rightarrow> bool" where
  "same_devices t t' \<longleftrightarrow> nt_leaves t = nt_leaves t'
     \<and> (\<forall>p \<in> set (nt_leaves t). nd_meta (the (nt_heap t p)) = nd_meta (the (nt_heap t' p)))"

lemma books_recoverable:
  assumes "tree_books cap es t0" "same_devices t t0"
  shows "recoverable cap t es"
proof -
  have same: "nt_leaves t = nt_leaves t0" "\<And>p. p \<in> set (nt_leaves t0) \<Longrightarrow> leaf_phy t p = leaf_phy t0 p"
    "\<And>p. p \<in> set (nt_leaves t0) \<Longrightarrow> die_hbm_total_mb (the (nt_heap t p)) = die_hbm_total_mb (the (nt_heap t0 p))"
    using assms(2) by (auto simp: same_devices_def leaf_phy_def die_hbm_total_mb_def npu_node_get_total_memory_def)
  have img: "leaf_phy t ` set (nt_leaves t0) = leaf_phy t0 ` set (nt_leaves t0)" using same(2) by (auto intro!: image_cong)
  have dev: "(\<Sum>e\<leftarrow>on_die es (leaf_phy t0 p). al_aicore_quota e) \<le> fst (cap p)
        \<and> (\<Sum>e\<leftarrow>on_die es (leaf_phy t0 p). unat (al_hbm_quota e)) \<le> snd (cap p) \<and> one_policy (on_die es (leaf_phy t0 p))
        \<and> (\<forall>e \<in> set (on_die es (leaf_phy t0 p)). al_hbm_limit e \<le> die_hbm_total_mb (the (nt_heap t0 p)))"
    if p: "p \<in> set (nt_leaves t0)" for p
  proof -
    have "device_books (cap p) (on_die es (leaf_phy t0 p)) (the (nt_heap t0 p))" using assms(1) p by (auto simp: tree_books_def)
    then show ?thesis unfolding device_books_def by linarith
  qed
  show ?thesis unfolding recoverable_def same(1) img
    using assms(1) dev same(2,3) by (auto simp: tree_books_def)
qed


text \<open>C6: recovery rebuilds the books. After a restart the device tree is fresh and the registry holds the allocations
  of the last checkpoint, which an allocator with consistent books had written. \<^verbatim>\<open>npu_allocator_recover\<close> then
  charges every allocation to the tree again, so that its quotas, slots and policies are consistent with the registry as
  before the restart, whatever happens to the configuration files and the shared memory; only the memory for
  the policy tables of the devices must be available. The shared memory mirrors exactly the allocations on
  dies whose shared memory could be created: all of them, and the books are complete, when every creation succeeds, but none of
  a die whose object is left over from an unclean exit, since \<^verbatim>\<open>shm_open\<close> with \<^verbatim>\<open>O_EXCL\<close> then fails and recovery reports success.\<close>

theorem recover_rebuilds_books:
  assumes "books cap a0" "same_devices (ac_tree a) (ac_tree a0)" "tree_books cap [] (ac_tree a)"
    "rg_entries (ac_registry a) = rg_entries (ac_registry a0)" "registry_ok (ac_registry a)"
    "ac_shm_mgr a = shm_manager_create" "\<forall>i. ae_policy (envs i)"
  shows "\<exists>a'. npu_allocator_recover envs a = Some (ENPU_SUCCESS, a') \<and> ac_registry a' = ac_registry a
    \<and> tree_books cap (rg_entries (ac_registry a)) (ac_tree a')
    \<and> shm_books (shm_view (ac_shm_mgr a')) (reopened envs 0 {} (rg_entries (ac_registry a)))
    \<and> ((\<forall>i. ae_shm (envs i)) \<longrightarrow> books cap a')"
proof -
  have view: "shm_view shm_manager_create = (\<lambda>_. None)" by (auto simp: shm_view_def shm_manager_create_def fun_eq_iff)
  have start: "recovering cap [] [] {} a"
    using assms(3,6) view by (simp add: recovering_def shm_named_def shm_short_def shm_books_def shm_manager_create_def)
  have "tree_books cap (rg_entries (ac_registry a)) (ac_tree a0)" using assms(1,4) by (simp add: books_def)
  from books_recoverable [OF this assms(2)] have "recoverable cap (ac_tree a) ([] @ rg_entries (ac_registry a))" by simp
  from recover_all_steps [OF start this assms(7), of 0] obtain t mgr fs D where
    r: "recover_all envs 0 a (rg_entries (ac_registry a)) = Some (a\<lparr>ac_tree := t, ac_shm_mgr := mgr, ac_files := fs\<rparr>)"
      "recovering cap (rg_entries (ac_registry a)) (reopened envs 0 {} (rg_entries (ac_registry a))) D (a\<lparr>ac_tree := t, ac_shm_mgr := mgr, ac_files := fs\<rparr>)"
    by auto
  have "books cap (a\<lparr>ac_tree := t, ac_shm_mgr := mgr, ac_files := fs\<rparr>)" if "\<forall>i. ae_shm (envs i)"
    using r(2) reopened_all [OF that] assms(5) by (simp add: recovering_def books_def)
  then show ?thesis using r by (auto simp: npu_allocator_recover_def allocation_registry_list_def recovering_def)
qed

text \<open>Recovery on a live allocator: the tree \<open>t'\<close> is the tree \<open>t\<close> with the allocations \<open>es\<close> charged to the quotas
  once more.\<close>

definition charged_with :: "npu_tree \<Rightarrow> allocation list \<Rightarrow> npu_tree \<Rightarrow> bool" where
  "charged_with t es t' \<longleftrightarrow> nt_leaves t' = nt_leaves t \<and> npu_tree_get_leaf t' = npu_tree_get_leaf t
     \<and> (\<forall>p \<in> set (nt_leaves t). \<exists>n n'. nt_heap t p = Some n \<and> nt_heap t' p = Some n' \<and> nd_meta n' = nd_meta n \<and> nd_parent n' = None
          \<and> na_vnpu_mask (nd_allocatable n') = na_vnpu_mask (nd_allocatable n)
          \<and> na_aicore_quota (nd_allocatable n') = na_aicore_quota (nd_allocatable n) - (\<Sum>e\<leftarrow>on_die es (nm_phy_id (nd_meta n)). word_of_int (al_aicore_quota e))
          \<and> na_hbm_quota (nd_allocatable n') = na_hbm_quota (nd_allocatable n) - (\<Sum>e\<leftarrow>on_die es (nm_phy_id (nd_meta n)). al_hbm_quota e))"

lemma recover_tree_again:
  assumes n: "nt_heap t p = Some n" "nd_parent n = None" "\<not> bit (na_vnpu_mask (nd_allocatable n)) i"
    and e: "al_vnpu_id e = int i" "i < 64" "entry_ok e"
  shows "\<exists>n'. recover_tree ok t p e = Some (put_node t p n') \<and> nd_meta n' = nd_meta n \<and> nd_parent n' = None
    \<and> na_vnpu_mask (nd_allocatable n') = na_vnpu_mask (nd_allocatable n)
    \<and> na_aicore_quota (nd_allocatable n') = na_aicore_quota (nd_allocatable n) - word_of_int (al_aicore_quota e)
    \<and> na_hbm_quota (nd_allocatable n') = na_hbm_quota (nd_allocatable n) - al_hbm_quota e"
proof -
  define h where "h = sint (al_hbm_quota e)"
  have lt: "unat (al_hbm_quota e) < 2 ^ 63" using e(3) by (simp add: entry_ok_def)
  have h: "0 \<le> h" "h < 2 ^ 63" using sint_unat [OF lt] lt by (simp add: h_def, simp only: h_def of_nat_less_numeral_power_cancel_iff)
  have mark: "npu_tree_mark_vnpu_occupied t (Some p) (int i) = Some (ENPU_ALREADY_EXISTS, t)" using n e(2) by (simp add: mark_vnpu_occupied_eq)
  define n1 where "n1 = upd_allocatable (\<lambda>x. x\<lparr>na_aicore_quota := na_aicore_quota x + word_of_int (- al_aicore_quota e), na_hbm_quota := na_hbm_quota x + word_of_int (- h)\<rparr>) n"
  have quota: "npu_tree_update_quota t (Some p) (- al_aicore_quota e) (- h) = Some (ENPU_SUCCESS, put_node t p n1)"
    using n(1) h(2) by (simp add: update_quota_eq n1_def)
  have neg: "neg_i32 (al_aicore_quota e) = Some (- al_aicore_quota e)" "neg_i64 h = Some (- h)"
    using e(3) h(1) by (auto simp: neg_i32_def neg_i64_def entry_ok_def)
  have hw: "word_of_int h = al_hbm_quota e" by (simp add: h_def)
  have n1: "nd_meta n1 = nd_meta n" "nd_parent n1 = None" "na_vnpu_mask (nd_allocatable n1) = na_vnpu_mask (nd_allocatable n)"
    "na_aicore_quota (nd_allocatable n1) = na_aicore_quota (nd_allocatable n) - word_of_int (al_aicore_quota e)"
    "na_hbm_quota (nd_allocatable n1) = na_hbm_quota (nd_allocatable n) - al_hbm_quota e"
    using n(2) by (simp_all add: n1_def hw)
  obtain ret t3 where t3: "npu_tree_attach_policy ok (put_node t p n1) (Some p) (int i) (al_sched_policy e) (al_vnpu_priority e) = Some (ret, t3)"
    "\<exists>n'. t3 = put_node t p n' \<and> nd_meta n' = nd_meta n1 \<and> nd_parent n' = nd_parent n1
      \<and> na_vnpu_mask (nd_allocatable n') = na_vnpu_mask (nd_allocatable n1) \<and> na_aicore_quota (nd_allocatable n') = na_aicore_quota (nd_allocatable n1)
      \<and> na_hbm_quota (nd_allocatable n') = na_hbm_quota (nd_allocatable n1)"
  proof (cases "npu_tree_attach_policy ok (put_node t p n1) (Some p) (int i) (al_sched_policy e) (al_vnpu_priority e)")
    case (Some rt)
    then show ?thesis using that [of "fst rt" "snd rt"] e(2) by (force simp: npu_tree_attach_policy_def Let_def split: if_splits)
  qed (use e(2) in \<open>simp add: npu_tree_attach_policy_def Let_def split: if_splits\<close>)
  then have "recover_tree ok t p e = Some t3" by (simp add: recover_tree_def e(1) mark quota neg h_def [symmetric])
  then show ?thesis using t3(2) n1 by metis
qed

lemma recover_one_again:
  assumes tb: "tree_books cap es t" and e: "e \<in> set es" and c: "charged_with t pre (ac_tree a)"
  shows "\<exists>a'. recover_one env a e = Some a' \<and> charged_with t (pre @ [e]) (ac_tree a') \<and> ac_registry a' = ac_registry a"
proof -
  have eok: "entry_ok e" using tb e by (auto simp: tree_books_def)
  define i where "i = nat (al_vnpu_id e)"
  have i: "al_vnpu_id e = int i" "i < 64" using eok by (auto simp: entry_ok_def i_def)
  obtain p where p: "p \<in> set (nt_leaves t)" "leaf_phy t p = al_phy_id e" using tb e by (auto simp: tree_books_def)
  obtain n d where n: "nt_heap t p = Some n" "leaf_phy t p = int d" "nm_phy_id (nd_meta n) = int d" "device_books (cap p) (on_die es (int d)) n"
    using tree_booksD [OF tb p(1)] by metis
  obtain m where m: "nt_heap (ac_tree a) p = Some m" "nd_meta m = nd_meta n" "nd_parent m = None" "na_vnpu_mask (nd_allocatable m) = na_vnpu_mask (nd_allocatable n)"
    "na_aicore_quota (nd_allocatable m) = na_aicore_quota (nd_allocatable n) - (\<Sum>e\<leftarrow>on_die pre (int d). word_of_int (al_aicore_quota e))"
    "na_hbm_quota (nd_allocatable m) = na_hbm_quota (nd_allocatable n) - (\<Sum>e\<leftarrow>on_die pre (int d). al_hbm_quota e)"
    using c p(1) n(1,3) unfolding charged_with_def by fastforce
  have "(d, i) \<in> shm_slot ` set es" using e p(2) n(2) i(1) by (force simp: shm_slot_def)
  then have "i \<in> occupied n" using slot_occupied [OF tb n(4)] by blast
  then have "\<not> bit (na_vnpu_mask (nd_allocatable m)) i" by (simp add: m(4) occupied_def)
  from recover_tree_again [OF m(1,3) this i eok, of "ae_policy env"] obtain n' where
    n': "recover_tree (ae_policy env) (ac_tree a) p e = Some (put_node (ac_tree a) p n')" "nd_meta n' = nd_meta m" "nd_parent n' = None"
      "na_vnpu_mask (nd_allocatable n') = na_vnpu_mask (nd_allocatable m)"
      "na_aicore_quota (nd_allocatable n') = na_aicore_quota (nd_allocatable m) - word_of_int (al_aicore_quota e)"
      "na_hbm_quota (nd_allocatable n') = na_hbm_quota (nd_allocatable m) - al_hbm_quota e" by blast
  have "npu_tree_get_leaf (ac_tree a) (al_phy_id e) = Some (Some p)"
    using c get_leaf_leaf [OF tree_books_wf [OF tb] p(1)] p(2) by (simp add: charged_with_def)
  moreover have "vnpu_id_is_valid (int i)" using i(2) by (simp add: vnpu_id_is_valid_def)
  moreover obtain ret mgr1 nm where "shm_manager_get_or_create_shm (ae_shm env) (ae_sched env) (ac_shm_mgr a) (al_phy_id e) (al_die_id e) (Some SHM_ID_LEN) = (ret, mgr1, nm)"
    by (metis prod_cases3)
  moreover have iv: "0 \<le> int i" "int i < int MAX_VNPU_SCHED" using i(2) by simp_all
  obtain mgr2 where "set_vnpu_priority mgr1 (al_phy_id e) (int i) (al_vnpu_priority e) = Some mgr2"
    unfolding set_vnpu_priority_def using upd_sched_defined [OF iv] by blast
  moreover obtain ret' fs where "config_manager_write_config (ae_file env) (ac_config_base a) (ac_files a) (al_pod_uid e) (al_container_name e)
      (config_of e (al_shm_id e)) = Some (ret', fs)" using write_config_outcome by blast
  ultimately have "\<exists>a'. recover_one env a e = Some a' \<and> ac_tree a' = put_node (ac_tree a) p n' \<and> ac_registry a' = ac_registry a"
    using m(1) n'(1) i(1) by (auto simp: recover_one_def)
  moreover have "charged_with t (pre @ [e]) (put_node (ac_tree a) p n')"
  proof -
    have other: "on_die (pre @ [e]) (nm_phy_id (nd_meta k)) = on_die pre (nm_phy_id (nd_meta k))"
      if "q \<in> set (nt_leaves t)" "q \<noteq> p" "nt_heap t q = Some k" for q k
    proof -
      have "inj_on (leaf_phy t) (set (nt_leaves t))" using tb by (auto simp: tree_books_def tree_wf_def distinct_map)
      then have "leaf_phy t q \<noteq> leaf_phy t p" using that(1,2) p(1) by (auto simp: inj_on_def)
      then show ?thesis using that(3) p(2) by (simp add: leaf_phy_def)
    qed
    have phy: "al_phy_id e = int d" using p(2) n(2) by simp
    have "npu_tree_get_leaf (put_node (ac_tree a) p n') = npu_tree_get_leaf t"
      using get_leaf_put_node [OF m(1) n'(2)] c by (auto simp: charged_with_def fun_eq_iff)
    moreover have "\<exists>k k'. nt_heap t q = Some k \<and> nt_heap (put_node (ac_tree a) p n') q = Some k' \<and> nd_meta k' = nd_meta k \<and> nd_parent k' = None
          \<and> na_vnpu_mask (nd_allocatable k') = na_vnpu_mask (nd_allocatable k)
          \<and> na_aicore_quota (nd_allocatable k') = na_aicore_quota (nd_allocatable k) - (\<Sum>e\<leftarrow>on_die (pre @ [e]) (nm_phy_id (nd_meta k)). word_of_int (al_aicore_quota e))
          \<and> na_hbm_quota (nd_allocatable k') = na_hbm_quota (nd_allocatable k) - (\<Sum>e\<leftarrow>on_die (pre @ [e]) (nm_phy_id (nd_meta k)). al_hbm_quota e)"
      if q: "q \<in> set (nt_leaves t)" for q
    proof (cases "q = p")
      case True
      show ?thesis
        by (rule exI [of _ n], rule exI [of _ n']) (use n(1) n'(2-6) m(2-6) True phy in \<open>simp add: n(3)\<close>)
    next
      case False
      then show ?thesis using c q other [OF q False] by (fastforce simp: charged_with_def)
    qed
    ultimately show ?thesis using c unfolding charged_with_def by simp
  qed
  ultimately show ?thesis by metis
qed


lemma recover_all_again:
  assumes tb: "tree_books cap es t" and es: "set es' \<subseteq> set es" and c: "charged_with t pre (ac_tree a)"
  shows "\<exists>a'. recover_all envs k a es' = Some a' \<and> charged_with t (pre @ es') (ac_tree a') \<and> ac_registry a' = ac_registry a"
  using es c
proof (induction es' arbitrary: pre a k)
  case (Cons e es')
  then obtain a1 where "recover_one (envs k) a e = Some a1" "charged_with t (pre @ [e]) (ac_tree a1)" "ac_registry a1 = ac_registry a"
    using recover_one_again [OF tb, of e pre a "envs k"] by auto
  then show ?case using Cons.IH [of "pre @ [e]" a1 "Suc k"] Cons.prems(1) by auto
qed simp

text \<open>Recovery must not be repeated. On an allocator whose books are consistent, \<^verbatim>\<open>npu_allocator_recover\<close> (which the
  control operation \<^verbatim>\<open>CONTROL_OP_RECOVER\<close> calls on the running manager) succeeds and leaves the slots as they are, but
  subtracts the quotas of every registered allocation from its device a second time, because the result
  \<^verbatim>\<open>ENPU_ALREADY_EXISTS\<close> of marking the slot is ignored.\<close>

lemma recover_live_charges_twice:
  assumes "books cap a"
  shows "\<exists>a'. npu_allocator_recover envs a = Some (ENPU_SUCCESS, a') \<and> ac_registry a' = ac_registry a
    \<and> (\<forall>p \<in> set (nt_leaves (ac_tree a)). \<exists>n n'. nt_heap (ac_tree a) p = Some n \<and> nt_heap (ac_tree a') p = Some n'
         \<and> na_vnpu_mask (nd_allocatable n') = na_vnpu_mask (nd_allocatable n)
         \<and> na_aicore_quota (nd_allocatable n') = na_aicore_quota (nd_allocatable n)
             - (\<Sum>e\<leftarrow>on_die (rg_entries (ac_registry a)) (nm_phy_id (nd_meta n)). word_of_int (al_aicore_quota e))
         \<and> na_hbm_quota (nd_allocatable n') = na_hbm_quota (nd_allocatable n)
             - (\<Sum>e\<leftarrow>on_die (rg_entries (ac_registry a)) (nm_phy_id (nd_meta n)). al_hbm_quota e))"
proof -
  have tb: "tree_books cap (rg_entries (ac_registry a)) (ac_tree a)" using assms by (simp add: books_def)
  have "charged_with (ac_tree a) [] (ac_tree a)"
    unfolding charged_with_def
  proof (intro conjI ballI refl)
    fix p assume "p \<in> set (nt_leaves (ac_tree a))"
    with tb obtain n where "nt_heap (ac_tree a) p = Some n" "node_ok n" by (rule tree_booksD)
    then show "\<exists>n n'. nt_heap (ac_tree a) p = Some n \<and> nt_heap (ac_tree a) p = Some n' \<and> nd_meta n' = nd_meta n \<and> nd_parent n' = None
          \<and> na_vnpu_mask (nd_allocatable n') = na_vnpu_mask (nd_allocatable n)
          \<and> na_aicore_quota (nd_allocatable n') = na_aicore_quota (nd_allocatable n) - (\<Sum>e\<leftarrow>on_die [] (nm_phy_id (nd_meta n)). word_of_int (al_aicore_quota e))
          \<and> na_hbm_quota (nd_allocatable n') = na_hbm_quota (nd_allocatable n) - (\<Sum>e\<leftarrow>on_die [] (nm_phy_id (nd_meta n)). al_hbm_quota e)"
      by (simp add: node_ok_def)
  qed
  from recover_all_again [OF tb subset_refl this, of envs 0] obtain a' where
    a': "recover_all envs 0 a (rg_entries (ac_registry a)) = Some a'" "ac_registry a' = ac_registry a"
      "charged_with (ac_tree a) (rg_entries (ac_registry a)) (ac_tree a')" by auto
  have "npu_allocator_recover envs a = Some (ENPU_SUCCESS, a')" using a'(1) by (simp add: npu_allocator_recover_def allocation_registry_list_def)
  then show ?thesis using a'(2,3) unfolding charged_with_def by blast
qed

text \<open>An allocation completes a pending swap command. \<^verbatim>\<open>shm_apply_vnpu_locked\<close> initialises the state of the die again,
  which sets \<^verbatim>\<open>swap_cmd.completed\<close>. So adding a vNPU to a die marks the swap-out command of another vNPU as
  finished although the processes that have not acknowledged it are still to do so.\<close>

lemma apply_completes_pending_swap:
  assumes "shm_manager_get_state (ac_shm_mgr a) phy_id = Some st" "ve_vnpu_id entry \<noteq> v" "\<not> vnpu_bitmap_test (ss_vnpu_bitmap st) (ve_vnpu_id entry)" "0 \<le> v"
    "shm_apply_vnpu_locked env a phy_id die_id hbm_total entry prio out_len = Some (ENPU_SUCCESS, a', name)"
  shows "\<exists>st'. shm_manager_get_state (ac_shm_mgr a') phy_id = Some st' \<and> cm_completed (ss_swap_cmd st')
    \<and> cm_cmd_seq (ss_swap_cmd st') = cm_cmd_seq (ss_swap_cmd st)
    \<and> pending st' v (cm_cmd_seq (ss_swap_cmd st)) = pending st v (cm_cmd_seq (ss_swap_cmd st))"
proof -
  have r: "0 \<le> phy_id" "phy_id < int MAX_NPU_PER_NODE" "sm_shm_states (ac_shm_mgr a) (nat phy_id) = Some st"
    using assms(1) by (auto simp: shm_manager_get_state_def split: if_splits)
  define i where "i = nat phy_id"
  have i: "phy_id = int i" "i < MAX_NPU_PER_NODE" "sm_shm_states (ac_shm_mgr a) i = Some st" using r by (auto simp: i_def)
  define st1 where "st1 = st\<lparr>ss_hbm_total := hbm_total, ss_swap_cmd := (ss_swap_cmd st)\<lparr>cm_completed := True\<rparr>,
      ss_swap_out_cmd := (ss_swap_out_cmd st)\<lparr>so_completed := True\<rparr>\<rparr>"
  define st2 where "st2 = st1\<lparr>ss_entries := (ss_entries st1)(nat (ve_vnpu_id entry) := entry),
      ss_vnpu_bitmap := vnpu_bitmap_set (ss_vnpu_bitmap st1) (ve_vnpu_id entry)\<rparr>"
  define m1 where "m1 = put_state (ac_shm_mgr a) (int i) st1"
  have same: "fst (snd (shm_manager_get_or_create_shm (ae_shm env) (ae_sched env) (ac_shm_mgr a) (int i) die_id l)) = ac_shm_mgr a" for l
    using i(2,3) by (simp add: shm_manager_get_or_create_shm_def get_state_die Let_def)
  define out where "out = (case out_len of Some l \<Rightarrow> if l > 0 then Some l else Some SHM_ID_LEN | None \<Rightarrow> Some SHM_ID_LEN)"
  define res where "res = shm_manager_get_or_create_shm (ae_shm env) (ae_sched env) (ac_shm_mgr a) (int i) die_id out"
  have g: "shm_manager_get_or_create_shm (ae_shm env) (ae_sched env) (ac_shm_mgr a) (int i) die_id out = (fst res, ac_shm_mgr a, snd (snd res))"
    using same [of out] by (simp add: res_def prod_eq_iff)
  have init: "snd (shm_manager_init_state (ac_shm_mgr a) (int i) hbm_total) = m1"
    using i(2,3) by (simp add: shm_manager_init_state_def get_state_die m1_def st1_def)
  have m1: "sm_shm_states m1 i = Some st1" by (simp add: m1_def)
  have drop: "drop_stale_entry (ac_pool a) m1 (int i) (ve_vnpu_id entry) = (ac_pool a, m1)"
    using i(2) m1 assms(3) by (simp add: drop_stale_entry_def get_state_die st1_def)
  obtain m2 where add: "shm_manager_add_entry m1 (int i) entry = (ENPU_SUCCESS, m2)"
    "set_vnpu_priority m2 (int i) (ve_vnpu_id entry) prio \<bind> (\<lambda>m5. set_alive_time_now (ae_now_ns env) m5 (int i) (ve_vnpu_id entry)) = Some (ac_shm_mgr a')"
    using assms(5) g by (auto simp: shm_apply_vnpu_locked_def i(1) init drop bind_eq_Some_conv out_def [symmetric] split: prod.splits if_splits)
  have "0 \<le> ve_vnpu_id entry" "m2 = put_state m1 (int i) st2"
    using add(1) i(2) m1 by (auto simp: shm_manager_add_entry_def get_state_die st2_def split: if_splits)
  moreover have "sm_shm_states (ac_shm_mgr a') = sm_shm_states m2"
    using add(2) by (auto simp: set_vnpu_priority_def set_alive_time_now_def bind_eq_Some_conv dest!: upd_sched_view)
  ultimately have st': "sm_shm_states (ac_shm_mgr a') i = Some st2" "nat (ve_vnpu_id entry) \<noteq> nat v"
    using assms(2,4) by (auto simp: nat_eq_iff)
  then have "ss_entries st2 (nat v) = ss_entries st (nat v)" by (simp add: st2_def st1_def)
  then have "pending st2 v s = pending st v s" for s by (simp add: pending_def)
  moreover have "shm_manager_get_state (ac_shm_mgr a') phy_id = Some st2" using st'(1) i(1,2) by (simp add: get_state_die)
  ultimately show ?thesis by (simp add: st2_def st1_def)
qed


section \<open>Witnesses\<close>

definition demo_alloc :: "unit npu_allocator" where
  "demo_alloc = \<lparr>ac_tree = demo_two, ac_config_base = ''/etc/enpu/'', ac_files = (\<lambda>_. None), ac_shm_mgr = shm_manager_create,
     ac_pool = demo_tlsf, ac_registry = allocation_registry_create_with_adapter None,
     ac_eval_registry = [], ac_evaluators = [(''share'', evaluator_share_evaluate SHARE_STRATEGY_COMPACT)], ac_log = [],
     ac_share_strategy = ''compact'', ac_evaluator_name = ''share'', ac_oversub_ratio = (\<lambda>_. 0)\<rparr>"

definition demo_cap :: "nat \<Rightarrow> int \<times> nat" where
  "demo_cap p = (100, 65536)"

definition demo_file_env :: file_env where
  "demo_file_env = \<lparr>fe_mkdir = (\<lambda>_. True), fe_open = (\<lambda>_. True), fe_short_write = (\<lambda>_. None), fe_unlink = (\<lambda>_. True)\<rparr>"

definition demo_env :: alloc_env where
  "demo_env = \<lparr>ae_nodes = True, ae_policy = True, ae_registry = True, ae_shm = True,
     ae_sched = \<lparr>xe_open = True, xe_existing = None, xe_map_existing = True, xe_reopen = True, xe_truncate = True, xe_map = True\<rparr>,
     ae_file = demo_file_env, ae_time_s = 1, ae_now_ns = 5\<rparr>"

definition demo_areq :: alloc_request where
  "demo_areq = \<lparr>aq_pod_uid = ''p1'', aq_container_name = ''main'', aq_aicore_quota = 50, aq_hbm_quota = 1024, aq_hbm_limit = 1024,
     aq_sched_policy = 1, aq_swap_priority = 1, aq_vnpu_priority = 0, aq_predicate_phy_id = -1\<rparr>"

lemma demo_books: "books demo_cap demo_alloc" "ready SHARE_STRATEGY_COMPACT demo_alloc" "tree_books demo_cap [] demo_two" "shm_short (ac_shm_mgr demo_alloc)" "saves (ac_registry demo_alloc)"
proof -
  have dev: "device_books (100, 65536) [] (device_node d m (snd (stub_get_device_info demo_config d')) die)" if "0 \<le> d'" "d' < 2" for d m d' die
    using that by (simp add: device_books_def device_node_def create_node_def occupied_def policy_list_def one_policy_def stub_get_device_info_def demo_config_def all_ones)
  show tb: "tree_books demo_cap [] demo_two"
    unfolding tree_books_def using demo_two_wf dev [of 0] dev [of 1]
    by (auto simp: demo_two_eq demo_cap_def) (simp_all add: device_node_def stub_get_die_info_def demo_config_def Let_def copy_str_def)
  have view: "shm_view shm_manager_create = (\<lambda>_. None)" by (auto simp: shm_view_def shm_manager_create_def fun_eq_iff)
  show "books demo_cap demo_alloc"
    using tb empty_registry_ok [of None] view
    by (simp add: books_def demo_alloc_def allocation_registry_create_with_adapter_def shm_named_def shm_books_def shm_manager_create_def)
  show "ready SHARE_STRATEGY_COMPACT demo_alloc" by (simp add: ready_def demo_alloc_def ratio_ok_zero)
  show "saves (ac_registry demo_alloc)" by (simp add: saves_def persist_to_adapter_def demo_alloc_def allocation_registry_create_with_adapter_def)
  show "shm_short (ac_shm_mgr demo_alloc)" by (simp add: shm_short_def demo_alloc_def shm_manager_create_def)
qed

lemma demo_request:
  "check_request (int (length (nt_leaves (ac_tree demo_alloc)))) demo_areq response_zero = (ENPU_SUCCESS, demo_areq, response_zero, 1024, 1024)"
  "names_fit demo_alloc demo_areq" "calls_succeed demo_env" "build_eval_request demo_alloc demo_areq 1024 1024 = demo_req"
  "eligible demo_two demo_req \<noteq> {}"
proof -
  show "check_request (int (length (nt_leaves (ac_tree demo_alloc)))) demo_areq response_zero = (ENPU_SUCCESS, demo_areq, response_zero, 1024, 1024)"
    by (simp add: check_request_def demo_areq_def parse_hbm_request_limit_def Let_def response_zero_def)
  show "names_fit demo_alloc demo_areq" by (simp add: names_fit_def demo_areq_def demo_alloc_def config_path_def)
  show "calls_succeed demo_env" by (simp add: calls_succeed_def demo_env_def demo_file_env_def)
  have "allocated_limits shm_manager_create = (\<lambda>_. 0)"
    by (auto simp: allocated_limits_def shm_manager_get_state_def shm_manager_create_def fun_eq_iff)
  then show "build_eval_request demo_alloc demo_areq 1024 1024 = demo_req"
    by (simp add: build_eval_request_def demo_areq_def demo_req_def demo_alloc_def)
  show "eligible demo_two demo_req \<noteq> {}"
    by (rule evaluate_cases [OF demo_two_wf demo_hyps, of SHARE_STRATEGY_COMPACT demo_resp]) (use demo_eval in auto)
qed

lemma demo_granted: "\<exists>a' req' resp'. npu_allocator_allocate demo_env demo_alloc demo_areq response_zero = Some (ENPU_SUCCESS, a', req', resp')"
proof -
  have absent: "reg_lookup (ac_registry demo_alloc) k = None" for k by (simp add: demo_alloc_def reg_lookup_def allocation_registry_create_with_adapter_def)
  have "npu_allocator_allocate demo_env demo_alloc demo_areq response_zero = place_and_commit demo_env demo_alloc demo_areq response_zero 1024 1024"
    by (rule allocate_place(1) [OF demo_books(1) absent demo_request(1)]) (simp add: demo_areq_def)
  moreover have "\<exists>a' req' resp'. place_and_commit demo_env demo_alloc demo_areq response_zero 1024 1024
     = Some (if eligible (ac_tree demo_alloc) (build_eval_request demo_alloc demo_areq 1024 1024) = {} then ENPU_NO_RESOURCE else ENPU_SUCCESS, a', req', resp')"
    by (rule place_complete [OF demo_books(1,2) _ demo_books(4) demo_request(3,2) demo_books(5) _ absent demo_request(1)])
      (simp_all add: demo_alloc_def allocation_registry_create_with_adapter_def)
  moreover have "ac_tree demo_alloc = demo_two" by (simp add: demo_alloc_def)
  ultimately show ?thesis using demo_request(4,5) by simp
qed


text \<open>The allocator after the first allocation.\<close>

lemma demo_after:
  obtains a1 :: "unit npu_allocator" and e where "books demo_cap a1" "rg_entries (ac_registry a1) = [e]" "al_hbm_quota e = 1024" "registry_ok (ac_registry a1)"
    "same_devices demo_two (ac_tree a1)"
proof -
  obtain a1 req' resp' where s: "npu_allocator_allocate demo_env demo_alloc demo_areq response_zero = Some (ENPU_SUCCESS, a1, req', resp')"
    using demo_granted by blast
  obtain e where c: "committed demo_env demo_alloc (effective_request demo_areq) (aq_hbm_quota demo_areq) (aq_hbm_limit demo_areq) a1 req' resp' e"
    using allocate_outcome [OF demo_books(1,2), of demo_env demo_areq response_zero] s by (auto simp: alloc_outcome_def)
  have b: "books demo_cap a1" by (rule books_committed [OF demo_books(1) c])
  obtain p n i d name where k: "e = final_alloc (build_allocation demo_env n (int i) req'
        (build_eval_request demo_alloc (effective_request demo_areq) (aq_hbm_quota demo_areq) (aq_hbm_limit demo_areq)) (aq_hbm_quota demo_areq) (aq_hbm_limit demo_areq)) d name"
      "granted (demo_alloc\<lparr>ac_log := []\<rparr>) p n i d req' e a1" "slot_free (ac_tree demo_alloc) p n i"
    by (rule committedE [OF demo_books(1) c])
  have p: "p \<in> set (nt_leaves demo_two)" "nt_heap demo_two p = Some n" using k(3) by (auto simp: slot_free_def demo_alloc_def)
  have "rg_entries (ac_registry a1) = [e]" "ac_tree a1 = put_node demo_two p (occupy_node n i (al_aicore_quota e) (int (unat (al_hbm_quota e))) (al_sched_policy e) (al_vnpu_priority e))"
    using k(2) by (auto simp: granted_def demo_alloc_def allocation_registry_create_with_adapter_def)
  moreover from this(2) have "same_devices demo_two (ac_tree a1)" using p by (auto simp: same_devices_def)
  moreover have "al_hbm_quota e = 1024" by (simp add: k(1) final_alloc_def demo_areq_def)
  moreover have "registry_ok (ac_registry a1)" using b by (simp add: books_def)
  ultimately show ?thesis using that b by blast
qed

theorem allocate_complete_witness:
  "\<exists>a' req' resp'. npu_allocator_allocate demo_env demo_alloc demo_areq response_zero = Some (ENPU_SUCCESS, a', req', resp')"
proof -
  have absent: "reg_lookup (ac_registry demo_alloc) k = None" for k by (simp add: demo_alloc_def reg_lookup_def allocation_registry_create_with_adapter_def)
  have t: "ac_tree demo_alloc = demo_two" by (simp add: demo_alloc_def)
  show ?thesis
    using allocate_complete [OF demo_books(1,2) _ demo_books(4) demo_request(3,2) demo_books(5) _ absent demo_request(1)] demo_request(4,5)
    by (simp add: t demo_areq_def [of] demo_alloc_def allocation_registry_create_with_adapter_def)
qed

theorem allocator_keeps_books_witness:
  "\<exists>a'. allocator_run [Allocate demo_env demo_areq response_zero, Set_ratio 1 0, Release demo_file_env ''p1'' ''main'', Checkpoint] demo_alloc = Some a'
     \<and> books demo_cap a'"
proof -
  have "saves_along [Allocate demo_env demo_areq response_zero, Set_ratio 1 0, Release demo_file_env ''p1'' ''main'', Checkpoint] demo_alloc"
    using demo_books(5) by (auto split: option.split)
  then show ?thesis
    using allocator_keeps_books [OF demo_books(1,2), of "[Allocate demo_env demo_areq response_zero, Set_ratio 1 0, Release demo_file_env ''p1'' ''main'', Checkpoint]"]
      ratio_ok_zero by auto
qed

text \<open>With a storage that refuses every save, an allocation fails in its last step, after the tree, the shared memory and the
  configuration file have been changed and logged.\<close>

definition demo_unsaved :: "unit npu_allocator" where
  "demo_unsaved = demo_alloc\<lparr>ac_registry := allocation_registry_create_with_adapter (Some (failing_ops, ()))\<rparr>"

lemma demo_unsaved_books: "books demo_cap demo_unsaved" "ready SHARE_STRATEGY_COMPACT demo_unsaved" "ac_tree demo_unsaved = demo_two"
  "reg_lookup (ac_registry demo_unsaved) k = None"
  using demo_books(1,2) empty_registry_ok [of "Some (failing_ops, ())"]
  by (simp_all add: books_def ready_def demo_unsaved_def demo_alloc_def allocation_registry_create_with_adapter_def reg_lookup_def)

lemma demo_unsaved_register:
  assumes "ac_registry a = ac_registry demo_unsaved" "al_pod_uid e = ''p1''" "al_container_name e = ''main''"
  shows "\<exists>r phy v resp'. commit_register demo_env a n demo_areq resp e
     = fail_allocate demo_env (a\<lparr>ac_registry := r\<rparr>) demo_areq resp' ENPU_FAIL (Register_failed ''p1'' ''main'' phy v ENPU_FAIL)"
  using assms
  by (auto simp: commit_register_def Let_def allocation_registry_register_def persist_to_adapter_def demo_unsaved_def
      find_entry_index_def allocation_registry_create_with_adapter_def failing_ops_def demo_areq_def)


theorem granted_allocation_witness:
  "\<exists>a' req' resp' e. npu_allocator_allocate demo_env demo_alloc demo_areq response_zero = Some (ENPU_SUCCESS, a', req', resp')
     \<and> rg_entries (ac_registry a') = [e] \<and> al_hbm_quota e = 1024 \<and> rp_vnpu_id resp' = al_vnpu_id e"
proof -
  obtain a' req' resp' where s: "npu_allocator_allocate demo_env demo_alloc demo_areq response_zero = Some (ENPU_SUCCESS, a', req', resp')"
    using demo_granted by blast
  have "rg_entries (ac_registry demo_alloc) = []" "aq_hbm_quota demo_areq = 1024"
    by (simp_all add: demo_alloc_def allocation_registry_create_with_adapter_def demo_areq_def)
  then show ?thesis using s granted_allocation [OF demo_books(1,2) s] by auto
qed

theorem release_undoes_allocation_witness:
  "\<exists>a' req' resp' a''. npu_allocator_allocate demo_env demo_alloc demo_areq response_zero = Some (ENPU_SUCCESS, a', req', resp')
     \<and> npu_allocator_release demo_file_env a' (rp_pod_uid resp') (rp_container_name resp') = Some (ENPU_SUCCESS, a'')
     \<and> tree_view (ac_tree a'') = tree_view demo_two \<and> rg_entries (ac_registry a'') = []"
proof -
  obtain a' req' resp' where s: "npu_allocator_allocate demo_env demo_alloc demo_areq response_zero = Some (ENPU_SUCCESS, a', req', resp')"
    using demo_granted by blast
  have "rg_entries (ac_registry demo_alloc) = []" "ac_tree demo_alloc = demo_two"
    by (simp_all add: demo_alloc_def allocation_registry_create_with_adapter_def)
  then show ?thesis using s release_undoes_allocation [OF demo_books(1,2) s, of demo_file_env] by auto
qed

theorem recover_rebuilds_books_witness:
  "\<exists>(a0 :: unit npu_allocator) e a'. books demo_cap a0 \<and> rg_entries (ac_registry a0) = [e]
     \<and> npu_allocator_recover (\<lambda>_. demo_env) (demo_alloc\<lparr>ac_registry := ac_registry a0\<rparr>) = Some (ENPU_SUCCESS, a') \<and> books demo_cap a'"
proof -
  obtain a0 :: "unit npu_allocator" and e where a0: "books demo_cap a0" "rg_entries (ac_registry a0) = [e]" "registry_ok (ac_registry a0)"
    "same_devices demo_two (ac_tree a0)" by (rule demo_after)
  then show ?thesis
    using recover_rebuilds_books [OF a0(1), of "demo_alloc\<lparr>ac_registry := ac_registry a0\<rparr>" "\<lambda>_. demo_env"] demo_books(3)
    by (auto simp: demo_alloc_def demo_env_def)
qed

theorem recover_live_charges_twice_witness:
  "\<exists>(a0 :: unit npu_allocator) a' p n n'. books demo_cap a0 \<and> npu_allocator_recover (\<lambda>_. demo_env) a0 = Some (ENPU_SUCCESS, a')
     \<and> nt_heap (ac_tree a0) p = Some n \<and> nt_heap (ac_tree a') p = Some n'
     \<and> na_hbm_quota (nd_allocatable n') = na_hbm_quota (nd_allocatable n) - 1024"
proof -
  obtain a0 :: "unit npu_allocator" and e where a0: "books demo_cap a0" "rg_entries (ac_registry a0) = [e]" "al_hbm_quota e = 1024" by (rule demo_after)
  have "e \<in> set (rg_entries (ac_registry a0))" using a0(2) by simp
  with a0(1) obtain p d where p: "p \<in> set (nt_leaves (ac_tree a0))" "leaf_phy (ac_tree a0) p = int d" "al_phy_id e = int d" by (rule entry_slot)
  obtain a' n n' where r: "npu_allocator_recover (\<lambda>_. demo_env) a0 = Some (ENPU_SUCCESS, a')" "nt_heap (ac_tree a0) p = Some n" "nt_heap (ac_tree a') p = Some n'"
    "na_hbm_quota (nd_allocatable n') = na_hbm_quota (nd_allocatable n) - (\<Sum>e\<leftarrow>on_die (rg_entries (ac_registry a0)) (nm_phy_id (nd_meta n)). al_hbm_quota e)"
    using recover_live_charges_twice [OF a0(1), of "\<lambda>_. demo_env"] p(1) by blast
  have "al_phy_id e = nm_phy_id (nd_meta n)" using r(2) p(2,3) by (simp add: leaf_phy_def)
  then have "na_hbm_quota (nd_allocatable n') = na_hbm_quota (nd_allocatable n) - 1024" using r(4) a0(2,3) by simp
  then show ?thesis using a0(1) r(1-3) by blast
qed

definition demo_pending :: shm_state where
  "demo_pending = (the (shm_state_posix_shm_create True 0 ''die0''))\<lparr>
     ss_entries := (\<lambda>v. entry_init\<lparr>ve_processes := (\<lambda>s. if v = 5 \<and> s = 2 then process_init\<lparr>pr_ack_pending_seq := 7\<rparr> else process_init)\<rparr>),
     ss_swap_cmd := \<lparr>cm_target_pod_uid = ''p5'', cm_target_vnpu_id = 5, cm_action = SWAP_ACTION_OUT, cm_completed = False,
       cm_refcount = 1, cm_cmd_seq = 7, cm_timestamp_ns = 0\<rparr>\<rparr>"

theorem apply_completes_pending_swap_witness:
  "\<exists>a' name st'. shm_apply_vnpu_locked demo_env (demo_alloc\<lparr>ac_shm_mgr := put_state shm_manager_create 0 demo_pending\<rparr>) 0 ''die0'' 0
       (build_shm_entry 1 1024 1024 1 1 False) 0 (Some SHM_ID_LEN) = Some (ENPU_SUCCESS, a', name)
     \<and> shm_manager_get_state (ac_shm_mgr a') 0 = Some st' \<and> \<not> cm_completed (ss_swap_cmd demo_pending) \<and> cm_completed (ss_swap_cmd st')
     \<and> pending st' 5 7 = {2}"
proof -
  define a where "a = demo_alloc\<lparr>ac_shm_mgr := put_state shm_manager_create 0 demo_pending\<rparr>"
  define x where "x = build_shm_entry 1 1024 1024 1 1 False"
  have d: "ss_shm_id demo_pending = ''die0''" "ss_vnpu_bitmap demo_pending = (0, 0)" "cm_cmd_seq (ss_swap_cmd demo_pending) = 7"
    "\<not> cm_completed (ss_swap_cmd demo_pending)"
    by (simp_all add: demo_pending_def shm_state_posix_shm_create_def copy_str_def dec_int_def dec_nat.simps [of 0])
  have st: "shm_manager_get_state (ac_shm_mgr a) 0 = Some demo_pending" by (simp add: a_def shm_manager_get_state_def put_state_def)
  have no: "\<not> vnpu_bitmap_test (0, 0) 1" using bitmap_test_bit [of "(0, 0)" 1] by (simp add: bitmap_word_def)
  have pend: "pending demo_pending 5 7 = {2}" by (auto simp: pending_def demo_pending_def process_init_def)
  have named: "shm_named (ac_shm_mgr a)" and free: "shm_view (ac_shm_mgr a) (0, 1) = None"
    using d no by (auto simp: a_def shm_named_def shm_view_def put_state_def shm_manager_create_def)
  have x: "ve_vnpu_id x = int 1" by (simp add: x_def build_shm_entry_def)
  have g: "shm_manager_get_or_create_shm (ae_shm demo_env) (ae_sched demo_env) (ac_shm_mgr a) (int 0) ''die0'' (Some SHM_ID_LEN)
      = (ENPU_SUCCESS, ac_shm_mgr a, Some ''die0'')"
    using st d(1) by (simp add: shm_manager_get_or_create_shm_def)
  obtain mgr' name where ap: "shm_apply_vnpu_locked demo_env a 0 ''die0'' 0 x 0 (Some SHM_ID_LEN) = Some (ENPU_SUCCESS, a\<lparr>ac_shm_mgr := mgr'\<rparr>, Some name)"
    using shm_apply_succeeds [OF _ _ _ x named free g, of 0 0] by auto
  have "ve_vnpu_id x \<noteq> 5" "\<not> vnpu_bitmap_test (ss_vnpu_bitmap demo_pending) (ve_vnpu_id x)" "0 \<le> (5 :: int)" using x d(2) no by simp_all
  from apply_completes_pending_swap [OF st this ap] obtain st' where "shm_manager_get_state mgr' 0 = Some st'" "cm_completed (ss_swap_cmd st')" "pending st' 5 7 = {2}"
    using d(3) pend by auto
  then show ?thesis using ap d(4) unfolding a_def x_def by fastforce
qed

end
