(* ===== verification/Core_Scheduler.thy ===== *)
theory Core_Scheduler
  imports Shm_State
begin

text \<open>
  The time-slice scheduler of the runtime (\<^verbatim>\<open>vcann-rt/src/core_limiter.c\<close>): the processes of the
  vNPUs of a die share one \<^typ>\<open>vnpu_time_slice_sched\<close> in shared memory and pass the ownership of the
  device round robin. Every process runs a scheduler thread; the thread of the owner injects the
  quota of the turn, lets the process submit work for the resulting time slice, measures how long the
  submitted work overran the slice, and the first thread that gets there (the leader) charges the
  overrun to the next slices and hands the device over.

  The arrays have \<^verbatim>\<open>MAX_VNPU\<close> = 100 entries; the index of the process's own vNPU is below 100 because
  \<^verbatim>\<open>enpu_config_info_init\<close> refuses other configurations. Readings of the clock and what other
  processes do to the shared memory between two reads are parameters. The section of a thread under
  \<^verbatim>\<open>vnpu_schedule_mutex\<close> is one step; accesses outside that mutex are steps of their own.
\<close>

section \<open>Constants and clocks\<close>

abbreviation (input) MAGIC_INITIALIZING :: u32 where "MAGIC_INITIALIZING \<equiv> 0x5A494E47"
abbreviation (input) MAGIC_UNINITIALIZED :: u32 where "MAGIC_UNINITIALIZED \<equiv> 0"
abbreviation (input) VNPU_SCHEULE_PERIOD :: u64 where "VNPU_SCHEULE_PERIOD \<equiv> 100000000"
abbreviation (input) VNPU_NORMAL_FAIRNESS_PERIOD :: u64 where "VNPU_NORMAL_FAIRNESS_PERIOD \<equiv> 1000000000"
abbreviation (input) VNPU_NORMAL_FAIRNESS_WINDOW :: u64 where "VNPU_NORMAL_FAIRNESS_WINDOW \<equiv> 10000000"
abbreviation (input) VNPU_TIMEOUT_PERIOD :: u64 where "VNPU_TIMEOUT_PERIOD \<equiv> 3000000"
abbreviation (input) VNPU_NO_TASK_TIMEOUT_PERIOD :: u64 where "VNPU_NO_TASK_TIMEOUT_PERIOD \<equiv> 5000000"
abbreviation (input) WAITING_SLEEP_PERIOD :: u64 where "WAITING_SLEEP_PERIOD \<equiv> 100000"
abbreviation (input) SYNC_WAIT_TIMEOUT_NS :: u64 where "SYNC_WAIT_TIMEOUT_NS \<equiv> 200000000"
abbreviation (input) SCHED_SHM_STALE_THRESHOLD_NS :: u64 where "SCHED_SHM_STALE_THRESHOLD_NS \<equiv> 2000000000"
abbreviation (input) UTILIZATION_RATE_MAX :: nat where "UTILIZATION_RATE_MAX \<equiv> 95"
abbreviation (input) UTILIZATION_RATE_MIN :: nat where "UTILIZATION_RATE_MIN \<equiv> 80"
abbreviation (input) MAX_STREAK :: int where "MAX_STREAK \<equiv> 2"
abbreviation (input) PRIO_NORMAL :: u8 where "PRIO_NORMAL \<equiv> 0"
abbreviation (input) PRIO_HIGH :: u8 where "PRIO_HIGH \<equiv> 1"

type_synonym sched = vnpu_time_slice_sched

section \<open>Priority admission\<close>

definition priority_timestamp_is_recent :: "u64 \<Rightarrow> u64 \<Rightarrow> u64 \<Rightarrow> bool" where
  "priority_timestamp_is_recent timestamp now timeout =
     (if timestamp = 0 then False
      else let elapsed = (if timestamp \<le> now then now - timestamp else timestamp - now)
           in elapsed \<le> timeout)"

fun admission_loop :: "sched \<Rightarrow> u8 \<Rightarrow> u64 \<Rightarrow> nat list \<Rightarrow> bool" where
  "admission_loop s priority now [] = True"
| "admission_loop s priority now (i # is) =
     (let competing_priority = (if priority = PRIO_HIGH then PRIO_NORMAL else PRIO_HIGH) in
      if ts_vnpu_priority s i \<noteq> competing_priority
         \<or> \<not> priority_timestamp_is_recent (ts_last_alive_time_ns s i) now VNPU_TIMEOUT_PERIOD
         \<or> \<not> priority_timestamp_is_recent (ts_last_kernel_time_ns s i) now VNPU_NO_TASK_TIMEOUT_PERIOD
      then admission_loop s priority now is
      else let in_normal_window = (now mod VNPU_NORMAL_FAIRNESS_PERIOD < VNPU_NORMAL_FAIRNESS_WINDOW)
           in if priority = PRIO_HIGH then \<not> in_normal_window else in_normal_window)"

definition priority_admission_allowed :: "sched option \<Rightarrow> u8 \<Rightarrow> u64 \<Rightarrow> bool" where
  "priority_admission_allowed so priority now =
     (case so of None \<Rightarrow> True | Some s \<Rightarrow> admission_loop s priority now [0..<MAX_VNPU_SCHED])"

text \<open>What one iteration of a waiting loop meets: whether the process is terminating, the reading of
  the clock, and what the other processes did to the shared memory since the last iteration.\<close>

record tick =
  tk_terminate :: bool
  tk_now :: u64
  tk_others :: "sched \<Rightarrow> sched"

definition store_kernel_time :: "nat \<Rightarrow> u64 \<Rightarrow> sched \<Rightarrow> sched" where
  "store_kernel_time me now s = s\<lparr>ts_last_kernel_time_ns := (ts_last_kernel_time_ns s)(me := now)\<rparr>"

definition update_last_kernel_time_now :: "nat \<Rightarrow> u64 \<Rightarrow> sched option \<Rightarrow> sched option" where
  "update_last_kernel_time_now me now so = map_option (store_kernel_time me now) so"

text \<open>The loop returns the number of the iteration it left from and the shared memory.\<close>

partial_function (option) wait_window_loop ::
    "(nat \<Rightarrow> tick) \<Rightarrow> nat \<Rightarrow> u8 \<Rightarrow> nat \<Rightarrow> sched \<Rightarrow> (nat \<times> sched) option" where
  "wait_window_loop env me priority k s =
     (let s0 = tk_others (env k) s in
      if tk_terminate (env k) then Some (k, s0)
      else let now = tk_now (env k); s1 = store_kernel_time me now s0 in
        if priority_admission_allowed (Some s1) priority now then Some (k, s1)
        else wait_window_loop env me priority (Suc k) s1)"

definition wait_for_priority_fairness_window ::
    "(nat \<Rightarrow> tick) \<Rightarrow> nat \<Rightarrow> u8 \<Rightarrow> sched option \<Rightarrow> (nat \<times> sched option) option" where
  "wait_for_priority_fairness_window env me priority so =
     (case so of None \<Rightarrow> Some (0, None)
      | Some s \<Rightarrow> map_option (apsnd Some) (wait_window_loop env me priority 0 s))"

section \<open>Liveness of vNPUs and the owner rotation\<close>

definition check_timeout :: "u64 \<Rightarrow> u64 \<Rightarrow> u64 \<Rightarrow> bool" where
  "check_timeout stamp now timeout_period =
     (if stamp < now then now - stamp \<le> timeout_period else stamp - now \<le> timeout_period)"

definition is_vnpu_alive :: "sched \<Rightarrow> u64 \<Rightarrow> int \<Rightarrow> bool" where
  "is_vnpu_alive s now vnpu_id =
     (if vnpu_id < 0 \<or> vnpu_id \<ge> int MAX_VNPU_SCHED then False
      else check_timeout (ts_last_alive_time_ns s (nat vnpu_id)) now VNPU_TIMEOUT_PERIOD)"

definition is_normal_priority_vnpu :: "sched \<Rightarrow> int \<Rightarrow> bool" where
  "is_normal_priority_vnpu s vnpu_id \<longleftrightarrow>
     vnpu_id \<ge> 0 \<and> vnpu_id < int MAX_VNPU_SCHED \<and> ts_vnpu_priority s (nat vnpu_id) = PRIO_NORMAL"

text \<open>A view is the shared memory and the clock as one iteration of a loop reads them.\<close>

type_synonym view = "sched \<times> u64"

definition in_rotation :: "view \<Rightarrow> int \<Rightarrow> bool" where
  "in_rotation v c \<longleftrightarrow> is_vnpu_alive (fst v) (snd v) c \<and> is_normal_priority_vnpu (fst v) c"

text \<open>\<^verbatim>\<open>%\<close> of C truncates towards zero; for an owner of at least -1 and \<open>i \<ge> 1\<close> it is \<open>mod\<close>.\<close>

fun next_owner_loop :: "(nat \<Rightarrow> view) \<Rightarrow> int \<Rightarrow> nat list \<Rightarrow> int" where
  "next_owner_loop seen vnpu_id [] = -1"
| "next_owner_loop seen vnpu_id (i # is) =
     (let candidate = (vnpu_id + int i) mod int MAX_VNPU_SCHED in
      if in_rotation (seen i) candidate then candidate else next_owner_loop seen vnpu_id is)"

definition select_next_owner :: "(nat \<Rightarrow> view) \<Rightarrow> int \<Rightarrow> int" where
  "select_next_owner seen vnpu_id = next_owner_loop seen vnpu_id [1..<Suc MAX_VNPU_SCHED]"

text \<open>\<^verbatim>\<open>vnpu_idling\<close>: the nanoseconds it sleeps, or nothing when the quotas exceed the device.\<close>

fun idling_loop :: "(nat \<Rightarrow> view) \<Rightarrow> int \<Rightarrow> nat list \<Rightarrow> int option" where
  "idling_loop seen q [] = Some q"
| "idling_loop seen q (i # is) =
     (let q' = (if in_rotation (seen i) (int i) then q + uint (ts_vnpu_core_limit_quota (fst (seen i)) i) else q) in
      if q' > 100 then None else idling_loop seen q' is)"

definition vnpu_idling :: "(nat \<Rightarrow> view) \<Rightarrow> u64 option" where
  "vnpu_idling seen =
     map_option (\<lambda>q. word_of_int (100 - q) * VNPU_SCHEULE_PERIOD div 100) (idling_loop seen 0 [0..<MAX_VNPU_SCHED])"

text \<open>\<^verbatim>\<open>set_vnpu_and_idle\<close>: the sleep before the device is handed over, and the store of the owner.\<close>

definition set_vnpu_and_idle :: "int \<Rightarrow> (nat \<Rightarrow> view) \<Rightarrow> int \<Rightarrow> int \<Rightarrow> sched \<Rightarrow> u64 option \<times> sched" where
  "set_vnpu_and_idle policy seen vnpu_id next_vnpu_id s =
     (if next_vnpu_id = -1 then (None, s)
      else ((if policy = SCHED_POLICY_FIXED_SHARE \<and> next_vnpu_id \<le> vnpu_id then vnpu_idling seen else None),
            s\<lparr>ts_owner := next_vnpu_id\<rparr>))"

definition calculate_alive_vnpu_num :: "(nat \<Rightarrow> view) \<Rightarrow> int" where
  "calculate_alive_vnpu_num seen =
     int (length (filter (\<lambda>i. is_vnpu_alive (fst (seen i)) (snd (seen i)) (int i)) [0..<MAX_VNPU_SCHED]))"

section \<open>Elastic scheduling: the sliding window\<close>

fun slide_loop :: "nat \<Rightarrow> (nat \<Rightarrow> view) \<Rightarrow> int \<Rightarrow> int \<Rightarrow> nat list \<Rightarrow> bool" where
  "slide_loop me seen owner len [] = False"
| "slide_loop me seen owner len (i # is) =
     (if len \<le> 0 then False
      else let next_vnpu = (owner + int i) mod int MAX_VNPU_SCHED in
        if next_vnpu = int me then True
        else slide_loop me seen owner (if in_rotation (seen i) next_vnpu then len - 1 else len) is)"

definition slide_window_check :: "nat \<Rightarrow> (nat \<Rightarrow> view) \<Rightarrow> int \<Rightarrow> int \<Rightarrow> bool" where
  "slide_window_check me seen slide_window_len owner = slide_loop me seen owner slide_window_len [1..<Suc MAX_VNPU_SCHED]"

text \<open>One measurement of the monitor thread: the two streak counters and the window length.\<close>

definition adjust_window :: "int \<Rightarrow> nat \<Rightarrow> int \<times> int \<times> int \<Rightarrow> int \<times> int \<times> int" where
  "adjust_window alive utilization_rate st =
     (case st of (high_load_streak, low_load_streak, current_window) \<Rightarrow>
        if utilization_rate > UTILIZATION_RATE_MAX
        then (if high_load_streak + 1 \<ge> MAX_STREAK \<and> current_window > 0 then (0, 0, current_window - 1)
              else (high_load_streak + 1, 0, current_window))
        else if utilization_rate < UTILIZATION_RATE_MIN
        then (if low_load_streak + 1 \<ge> MAX_STREAK
              then let max_len = (if alive - 1 < 0 then 0 else alive - 1)
                   in (0, 0, if current_window < max_len then current_window + 1 else current_window)
              else (0, low_load_streak + 1, current_window))
        else (0, 0, current_window))"

section \<open>One turn of a scheduler thread\<close>

text \<open>
  The first section of \<^verbatim>\<open>add_and_consume_time_slice\<close>, under the mutex of the vNPU. The first thread
  of a turn adds the quota to the balance of the vNPU and takes what is positive as the slice of the
  turn; the balance is a \<^verbatim>\<open>uint64_t\<close> read as a signed number.
\<close>

definition inject_quota :: "nat \<Rightarrow> sched \<Rightarrow> sched" where
  "inject_quota me s =
     (let cur_turn = ts_vnpu_schedule_turn s me;
          quota = ts_vnpu_quota_timeslice s me;
          injected = ts_vnpu_cur_timeslice s me + quota;
          cur_after_inject = sint injected;
          ts = (if cur_after_inject > 0 then injected else 0)
      in s\<lparr>ts_vnpu_sync_expected := (ts_vnpu_sync_expected s)(me := 0),
           ts_vnpu_sync_completed := (ts_vnpu_sync_completed s)(me := 0),
           ts_vnpu_turn_max_sync := (ts_vnpu_turn_max_sync s)(me := 0),
           ts_vnpu_cur_timeslice := (ts_vnpu_cur_timeslice s)(me := injected - ts),
           ts_vnpu_timeslice_for_turn := (ts_vnpu_timeslice_for_turn s)(me := ts),
           ts_vnpu_quota_injected_for_turn := (ts_vnpu_quota_injected_for_turn s)(me := cur_turn)\<rparr>)"

definition needs_quota :: "nat \<Rightarrow> sched \<Rightarrow> bool" where
  "needs_quota me s \<longleftrightarrow> ts_vnpu_schedule_turn s me \<noteq> ts_vnpu_quota_injected_for_turn s me"

definition count_expected :: "nat \<Rightarrow> sched \<Rightarrow> sched" where
  "count_expected me s = s\<lparr>ts_vnpu_sync_expected := (ts_vnpu_sync_expected s)(me := ts_vnpu_sync_expected s me + 1)\<rparr>"

text \<open>\<open>lock_ok\<close> is whether the mutex was obtained (also from a dead owner). The result is the turn, the
  next owner and the shared memory.\<close>

definition enter_turn :: "bool \<Rightarrow> (nat \<Rightarrow> view) \<Rightarrow> nat \<Rightarrow> sched \<Rightarrow> u8 \<times> int \<times> sched" where
  "enter_turn lock_ok seen me s =
     (if \<not> lock_ok then (ts_vnpu_schedule_turn s me, -1, s)
      else let s1 = count_expected me (if needs_quota me s then inject_quota me s else s)
           in (ts_vnpu_schedule_turn s me, select_next_owner seen (ts_owner s1), s1))"

text \<open>The slice itself: the process may submit until the slice is used up, the device is taken away or
  the process terminates.\<close>

partial_function (option) consume_loop :: "(nat \<Rightarrow> tick) \<Rightarrow> nat \<Rightarrow> u64 \<Rightarrow> nat \<Rightarrow> sched \<Rightarrow> (nat \<times> sched) option" where
  "consume_loop env me end_ns k s =
     (let s0 = tk_others (env k) s in
      if \<not> (tk_now (env k) < end_ns \<and> \<not> tk_terminate (env k)) then Some (k, s0)
      else if ts_owner s0 \<noteq> int me then Some (k, s0)
      else consume_loop env me end_ns (Suc k) s0)"

text \<open>The report of the measured overrun, two atomic operations.\<close>

definition fetch_max_sync :: "nat \<Rightarrow> u64 \<Rightarrow> sched \<Rightarrow> sched" where
  "fetch_max_sync me ns s =
     s\<lparr>ts_vnpu_turn_max_sync := (ts_vnpu_turn_max_sync s)(me := max (ts_vnpu_turn_max_sync s me) ns)\<rparr>"

definition count_completed :: "nat \<Rightarrow> sched \<Rightarrow> sched" where
  "count_completed me s = s\<lparr>ts_vnpu_sync_completed := (ts_vnpu_sync_completed s)(me := ts_vnpu_sync_completed s me + 1)\<rparr>"

text \<open>\<^verbatim>\<open>wait_for_sibling_sync\<close>: polls until the turn advanced, all siblings reported, or the deadline.\<close>

partial_function (option) sibling_loop :: "(nat \<Rightarrow> tick) \<Rightarrow> nat \<Rightarrow> u8 \<Rightarrow> u64 \<Rightarrow> nat \<Rightarrow> sched \<Rightarrow> (nat \<times> sched) option" where
  "sibling_loop env vnpu_id turn_id wait_deadline k s =
     (let s0 = tk_others (env k) s in
      if \<not> tk_now (env k) < wait_deadline then Some (k, s0)
      else if ts_vnpu_schedule_turn s0 vnpu_id \<noteq> turn_id then Some (k, s0)
      else if ts_vnpu_sync_completed s0 vnpu_id \<ge> ts_vnpu_sync_expected s0 vnpu_id then Some (k, s0)
      else sibling_loop env vnpu_id turn_id wait_deadline (Suc k) s0)"

definition wait_for_sibling_sync :: "(nat \<Rightarrow> tick) \<Rightarrow> nat \<Rightarrow> u8 \<Rightarrow> sched \<Rightarrow> (nat \<times> sched) option" where
  "wait_for_sibling_sync env vnpu_id turn_id s =
     sibling_loop env vnpu_id turn_id (tk_now (env 0) + SYNC_WAIT_TIMEOUT_NS) 1 s"

text \<open>The second section under the mutex: the first thread that finds the turn unchanged charges the
  longest overrun, hands the device over and advances the turn.\<close>

definition charge_debt :: "nat \<Rightarrow> sched \<Rightarrow> sched" where
  "charge_debt me s =
     s\<lparr>ts_vnpu_cur_timeslice := (ts_vnpu_cur_timeslice s)(me := ts_vnpu_cur_timeslice s me - ts_vnpu_turn_max_sync s me)\<rparr>"

definition advance_turn :: "nat \<Rightarrow> u8 \<Rightarrow> sched \<Rightarrow> sched" where
  "advance_turn me turn_id s = s\<lparr>ts_vnpu_schedule_turn := (ts_vnpu_schedule_turn s)(me := turn_id + 1)\<rparr>"

definition lead_turn :: "int \<Rightarrow> (nat \<Rightarrow> view) \<Rightarrow> nat \<Rightarrow> u8 \<Rightarrow> u64 \<Rightarrow> int \<Rightarrow> sched \<Rightarrow> sched" where
  "lead_turn policy seen me turn_id timeslice next_vnpu_id s =
     (if ts_vnpu_schedule_turn s me \<noteq> turn_id then s
      else let s1 = (if timeslice > 0 then charge_debt me s else s)
           in advance_turn me turn_id (snd (set_vnpu_and_idle policy seen (ts_owner s1) next_vnpu_id s1)))"

section \<open>Creation of the shared memory\<close>

definition newest_alive :: "sched \<Rightarrow> u64" where
  "newest_alive s = fold (\<lambda>i n. if ts_last_alive_time_ns s i > n then ts_last_alive_time_ns s i else n) [0..<MAX_VNPU_SCHED] 0"

definition sched_shm_is_stale :: "sched \<Rightarrow> u64 \<Rightarrow> bool" where
  "sched_shm_is_stale s now =
     (if newest_alive s = 0 then False
      else now > newest_alive s \<and> now - newest_alive s > SCHED_SHM_STALE_THRESHOLD_NS)"

text \<open>One pass of the loop over the vNPUs; \<open>mutex_ok\<close> says for which of them the mutex is created.\<close>

definition reset_vnpu :: "nat \<Rightarrow> sched \<Rightarrow> sched" where
  "reset_vnpu i s =
     s\<lparr>ts_last_alive_time_ns := (ts_last_alive_time_ns s)(i := 0),
       ts_last_kernel_time_ns := (ts_last_kernel_time_ns s)(i := 0),
       ts_vnpu_core_limit_quota := (ts_vnpu_core_limit_quota s)(i := 0),
       ts_vnpu_priority := (ts_vnpu_priority s)(i := PRIO_NORMAL),
       ts_vnpu_schedule_turn := (ts_vnpu_schedule_turn s)(i := 0),
       ts_vnpu_quota_timeslice := (ts_vnpu_quota_timeslice s)(i := 0),
       ts_vnpu_cur_timeslice := (ts_vnpu_cur_timeslice s)(i := 0),
       ts_vnpu_quota_injected_for_turn := (ts_vnpu_quota_injected_for_turn s)(i := 0xFF),
       ts_vnpu_sync_expected := (ts_vnpu_sync_expected s)(i := 0),
       ts_vnpu_sync_completed := (ts_vnpu_sync_completed s)(i := 0),
       ts_vnpu_turn_max_sync := (ts_vnpu_turn_max_sync s)(i := 0),
       ts_vnpu_timeslice_for_turn := (ts_vnpu_timeslice_for_turn s)(i := 0)\<rparr>"

fun reset_vnpus :: "(nat \<Rightarrow> bool) \<Rightarrow> nat list \<Rightarrow> sched \<Rightarrow> bool \<times> sched" where
  "reset_vnpus mutex_ok [] s = (True, s)"
| "reset_vnpus mutex_ok (i # is) s =
     (let s1 = reset_vnpu i s in if mutex_ok i then reset_vnpus mutex_ok is s1 else (False, s1))"

text \<open>The branch of \<^verbatim>\<open>share_mem_init\<close> that creates the structure; \<open>mutex_ok 100\<close> is the monitor mutex.\<close>

definition create_sched :: "(nat \<Rightarrow> bool) \<Rightarrow> sched \<Rightarrow> int \<times> sched" where
  "create_sched mutex_ok s =
     (case reset_vnpus mutex_ok [0..<MAX_VNPU_SCHED] (s\<lparr>ts_magic_number := MAGIC_INITIALIZING, ts_owner := -1\<rparr>) of
        (ok, s1) \<Rightarrow>
          if \<not> ok then (RT_ENPU_FAIL, s1)
          else if \<not> mutex_ok MAX_VNPU_SCHED then (RT_ENPU_FAIL, s1)
          else (ENPU_SUCCESS, s1\<lparr>ts_magic_number := MAGIC_INITIALIZED\<rparr>))"

partial_function (option) init_loop ::
    "(nat \<Rightarrow> bool) \<Rightarrow> (nat \<Rightarrow> tick) \<Rightarrow> u64 \<Rightarrow> nat \<Rightarrow> sched \<Rightarrow> (int \<times> sched) option" where
  "init_loop mutex_ok env begin_ns k s =
     (let s0 = tk_others (env k) s; now = tk_now (env k) in
      if tk_terminate (env k) then Some (RT_ENPU_FAIL, s0)
      else if ts_magic_number s0 = MAGIC_INITIALIZED
      then (if \<not> sched_shm_is_stale s0 now then Some (ENPU_SUCCESS, s0)
            else init_loop mutex_ok env begin_ns (Suc k) (s0\<lparr>ts_magic_number := MAGIC_UNINITIALIZED\<rparr>))
      else if ts_magic_number s0 = MAGIC_INITIALIZING
      then (if now - begin_ns > VNPU_TIMEOUT_PERIOD
            then init_loop mutex_ok env now (Suc k) (s0\<lparr>ts_magic_number := MAGIC_UNINITIALIZED\<rparr>)
            else init_loop mutex_ok env begin_ns (Suc k) s0)
      else Some (create_sched mutex_ok s0))"

definition share_mem_init :: "(nat \<Rightarrow> bool) \<Rightarrow> (nat \<Rightarrow> tick) \<Rightarrow> sched \<Rightarrow> (int \<times> sched) option" where
  "share_mem_init mutex_ok env s = init_loop mutex_ok env (tk_now (env 0)) 1 s"

definition vnpu_scheduler_init :: "nat \<Rightarrow> u8 \<Rightarrow> u8 \<Rightarrow> sched \<Rightarrow> sched" where
  "vnpu_scheduler_init me aicore_limit_percent vnpu_priority s =
     (let s1 = s\<lparr>ts_vnpu_priority := (ts_vnpu_priority s)(me := vnpu_priority)\<rparr> in
      if vnpu_priority = PRIO_HIGH then s1
      else s1\<lparr>ts_vnpu_core_limit_quota := (ts_vnpu_core_limit_quota s1)(me := aicore_limit_percent),
              ts_vnpu_quota_timeslice := (ts_vnpu_quota_timeslice s1)(me :=
                 ucast aicore_limit_percent * VNPU_SCHEULE_PERIOD div 100)\<rparr>)"

text \<open>One beat of \<^verbatim>\<open>vnpu_scheduler_flush_thread\<close> on the scheduling structure.\<close>

definition flush_alive :: "nat \<Rightarrow> u64 \<Rightarrow> sched \<Rightarrow> sched" where
  "flush_alive me now s = s\<lparr>ts_last_alive_time_ns := (ts_last_alive_time_ns s)(me := now)\<rparr>"

section \<open>Admission\<close>

lemma admission_loop_iff:
  "admission_loop s priority now is \<longleftrightarrow>
     (\<forall>i \<in> set is. ts_vnpu_priority s i \<noteq> (if priority = PRIO_HIGH then PRIO_NORMAL else PRIO_HIGH)
        \<or> \<not> priority_timestamp_is_recent (ts_last_alive_time_ns s i) now VNPU_TIMEOUT_PERIOD
        \<or> \<not> priority_timestamp_is_recent (ts_last_kernel_time_ns s i) now VNPU_NO_TASK_TIMEOUT_PERIOD)
     \<or> (if priority = PRIO_HIGH then \<not> now mod VNPU_NORMAL_FAIRNESS_PERIOD < VNPU_NORMAL_FAIRNESS_WINDOW
         else now mod VNPU_NORMAL_FAIRNESS_PERIOD < VNPU_NORMAL_FAIRNESS_WINDOW)"
  by (induction "is") (auto simp: Let_def)

definition in_normal_window :: "u64 \<Rightarrow> bool" where
  "in_normal_window now \<longleftrightarrow> unat now mod 1000000000 < 10000000"

lemma in_normal_window_word: "now mod VNPU_NORMAL_FAIRNESS_PERIOD < VNPU_NORMAL_FAIRNESS_WINDOW \<longleftrightarrow> in_normal_window now"
  by (simp add: in_normal_window_def word_less_nat_alt unat_mod)

text \<open>Inside its part of the period a priority is admitted whatever the shared memory holds.\<close>

lemma admitted_in_window:
  "in_normal_window now \<longleftrightarrow> priority \<noteq> PRIO_HIGH \<Longrightarrow> priority_admission_allowed (Some s) priority now"
  by (simp add: priority_admission_allowed_def admission_loop_iff in_normal_window_word del: upt.simps upt_rec_numeral)

text \<open>C10: at any moment at which a high-priority and a normal-priority vNPU both have recent demand,
  exactly one of the two priorities is admitted: the normal one in the first 10 ms of every second,
  the high one in the rest. A priority without a competitor is always admitted.\<close>

theorem admission_exclusive:
  assumes "h < MAX_VNPU_SCHED" "n < MAX_VNPU_SCHED" "ts_vnpu_priority s h = PRIO_HIGH" "ts_vnpu_priority s n = PRIO_NORMAL"
    and "\<forall>i \<in> {h, n}. priority_timestamp_is_recent (ts_last_alive_time_ns s i) now VNPU_TIMEOUT_PERIOD
           \<and> priority_timestamp_is_recent (ts_last_kernel_time_ns s i) now VNPU_NO_TASK_TIMEOUT_PERIOD"
  shows "(priority_admission_allowed (Some s) PRIO_NORMAL now \<longleftrightarrow> unat now mod 1000000000 < 10000000)
    \<and> (priority_admission_allowed (Some s) PRIO_HIGH now \<longleftrightarrow> \<not> unat now mod 1000000000 < 10000000)"
proof -
  have "h \<in> set [0..<MAX_VNPU_SCHED]" "n \<in> set [0..<MAX_VNPU_SCHED]" using assms(1,2) by simp_all
  then show ?thesis
    using assms(3-5)
    by (auto simp: priority_admission_allowed_def admission_loop_iff in_normal_window_word in_normal_window_def
        simp del: set_upt upt.simps upt_rec_numeral)
qed

theorem admission_exclusive_witness:
  "let s = sched_init\<lparr>ts_vnpu_priority := (\<lambda>_. 0)(3 := 1), ts_last_alive_time_ns := (\<lambda>_. 5000000000),
             ts_last_kernel_time_ns := (\<lambda>_. 5000000000)\<rparr>
   in priority_admission_allowed (Some s) PRIO_NORMAL 5001000000 \<and> \<not> priority_admission_allowed (Some s) PRIO_HIGH 5001000000"
  using admission_exclusive [of 3 4 "sched_init\<lparr>ts_vnpu_priority := (\<lambda>_. 0)(3 := 1), ts_last_alive_time_ns := (\<lambda>_. 5000000000),
             ts_last_kernel_time_ns := (\<lambda>_. 5000000000)\<rparr>" 5001000000]
  by (simp add: priority_timestamp_is_recent_def Let_def)

section \<open>The waiting loops end\<close>

text \<open>A clock that is read again after every sleep: consecutive readings are at least \<open>lo\<close> and at
  most \<open>hi\<close> apart, for \<open>N\<close> readings.\<close>

definition ticking :: "(nat \<Rightarrow> tick) \<Rightarrow> nat \<Rightarrow> nat \<Rightarrow> nat \<Rightarrow> bool" where
  "ticking env lo hi N \<longleftrightarrow>
     (\<forall>k < N. unat (tk_now (env k)) + lo \<le> unat (tk_now (env (Suc k))) \<and> unat (tk_now (env (Suc k))) \<le> unat (tk_now (env k)) + hi)"

lemma ticking_progress: "ticking env lo hi N \<Longrightarrow> k \<le> N \<Longrightarrow> unat (tk_now (env 0)) + k * lo \<le> unat (tk_now (env k))"
proof (induction k)
  case (Suc k)
  have "unat (tk_now (env k)) + lo \<le> unat (tk_now (env (Suc k)))" using Suc.prems by (simp add: ticking_def)
  then show ?case using Suc by simp
qed simp

lemma ticking_hits:
  assumes t: "ticking env lo hi N" and before: "unat (tk_now (env 0)) < P" and bound: "P \<le> unat (tk_now (env 0)) + N * lo"
  shows "\<exists>m \<le> N. P \<le> unat (tk_now (env m)) \<and> unat (tk_now (env m)) < P + hi"
proof -
  have N: "P \<le> unat (tk_now (env N))" using ticking_progress [OF t, of N] bound by simp
  define m where "m = (LEAST m. P \<le> unat (tk_now (env m)))"
  have m: "P \<le> unat (tk_now (env m))" and mN: "m \<le> N" unfolding m_def using N by (rule LeastI, rule Least_le)
  obtain j where j: "m = Suc j" using m before by (cases m) auto
  have "\<not> P \<le> unat (tk_now (env j))" using not_less_Least [of j "\<lambda>m. P \<le> unat (tk_now (env m))"] j m_def by simp
  moreover have "unat (tk_now (env m)) \<le> unat (tk_now (env j)) + hi" using t j mN by (auto simp: ticking_def)
  ultimately show ?thesis using m mN by (intro exI [of _ m]) simp
qed

lemma window_comes:
  assumes t: "ticking env 100000 10000000 10000"
  shows "\<exists>m \<le> 10000. in_normal_window (tk_now (env m)) = b"
proof -
  define x where "x = unat (tk_now (env 0))"
  define base where "base = 1000000000 * (x div 1000000000)"
  have x: "x = base + x mod 1000000000" "x mod 1000000000 < 1000000000" unfolding base_def by simp_all
  have phase: "y mod 1000000000 = y - base" if le: "base \<le> y" and lt: "y < base + 1000000000" for y
  proof -
    obtain d where d: "y = base + d" using le_Suc_ex [OF le] by blast
    then show ?thesis using lt by (simp add: base_def)
  qed
  consider "in_normal_window (tk_now (env 0)) = b" | "in_normal_window (tk_now (env 0))" "\<not> b" | "\<not> in_normal_window (tk_now (env 0))" b
    by blast
  then show ?thesis
  proof cases
    case 1
    then show ?thesis by (intro exI [of _ 0]) simp
  next
    case 2
    then have "x mod 1000000000 < 10000000" by (simp add: in_normal_window_def x_def)
    then have "x < base + 10000000" "base + 10000000 \<le> x + 10000 * 100000" using x by linarith+
    then obtain m where m: "m \<le> 10000" "base + 10000000 \<le> unat (tk_now (env m))" "unat (tk_now (env m)) < base + 10000000 + 10000000"
      using ticking_hits [OF t] unfolding x_def by blast
    have "\<not> in_normal_window (tk_now (env m))"
      using phase [of "unat (tk_now (env m))"] m(2,3) by (simp add: in_normal_window_def)
    then show ?thesis using m(1) 2 by blast
  next
    case 3
    have "x < base + 1000000000" "base + 1000000000 \<le> x + 10000 * 100000" using x by linarith+
    then obtain m where m: "m \<le> 10000" "base + 1000000000 \<le> unat (tk_now (env m))" "unat (tk_now (env m)) < base + 1000000000 + 10000000"
      using ticking_hits [OF t] unfolding x_def by blast
    obtain d where d: "unat (tk_now (env m)) = base + 1000000000 + d" using le_Suc_ex [OF m(2)] by blast
    then have "d < 10000000" using m(3) by simp
    moreover have "unat (tk_now (env m)) = d + 1000000000 * Suc (x div 1000000000)" unfolding d base_def by simp
    then have "unat (tk_now (env m)) mod 1000000000 = d mod 1000000000" by (simp only: mod_mult_self2)
    ultimately have "in_normal_window (tk_now (env m))" by (simp add: in_normal_window_def)
    then show ?thesis using m(1) 3 by blast
  qed
qed

lemma wait_window_loop_ends:
  assumes "k \<le> m" and "\<forall>s. priority_admission_allowed (Some s) priority (tk_now (env m))"
  shows "\<exists>j s'. wait_window_loop env me priority k s = Some (j, s') \<and> k \<le> j \<and> j \<le> m
    \<and> (tk_terminate (env j) \<or> priority_admission_allowed (Some s') priority (tk_now (env j)))"
  using assms(1)
proof (induction "m - k" arbitrary: k s)
  case 0
  then have "k = m" by simp
  then show ?case using assms(2) by (subst wait_window_loop.simps) (auto simp: Let_def)
next
  case (Suc d)
  have d: "d = m - Suc k" "Suc k \<le> m" using Suc.hyps(2) by linarith+
  let ?s1 = "store_kernel_time me (tk_now (env k)) (tk_others (env k) s)"
  obtain j s' where "wait_window_loop env me priority (Suc k) ?s1 = Some (j, s')" "Suc k \<le> j" "j \<le> m"
      "tk_terminate (env j) \<or> priority_admission_allowed (Some s') priority (tk_now (env j))"
    using Suc.hyps(1) [OF d, of ?s1] by blast
  then show ?case using Suc.prems by (subst wait_window_loop.simps) (auto simp: Let_def)
qed

text \<open>C9: waiting for the fairness window ends: whatever the other processes do to the shared memory, a
  process that rereads the clock every 0.1 to 10 ms leaves the loop after at most 10000 rounds,
  because it terminates or because it is admitted. (The sleep between two readings lasts at least
  \<^verbatim>\<open>WAITING_SLEEP_PERIOD\<close>.)\<close>

theorem fairness_wait_ends:
  assumes "ticking env 100000 10000000 10000"
  shows "\<exists>k s'. wait_for_priority_fairness_window env me priority (Some s) = Some (k, Some s') \<and> k \<le> 10000
    \<and> (tk_terminate (env k) \<or> priority_admission_allowed (Some s') priority (tk_now (env k)))"
proof -
  obtain m where m: "m \<le> 10000" "in_normal_window (tk_now (env m)) \<longleftrightarrow> priority \<noteq> PRIO_HIGH"
    using window_comes [OF assms] by metis
  then show ?thesis
    using wait_window_loop_ends [of 0 m priority env me s] admitted_in_window [OF m(2)]
    by (fastforce simp: wait_for_priority_fairness_window_def)
qed

text \<open>A clock that advances by 1 ms per reading, while a competitor of the other priority keeps demand.\<close>

theorem fairness_wait_ends_witness:
  "\<exists>k s'. wait_for_priority_fairness_window
       (\<lambda>k. \<lparr>tk_terminate = False, tk_now = of_nat (1000000 * k + 20000000),
             tk_others = (\<lambda>s. s\<lparr>ts_vnpu_priority := (\<lambda>_. 1)\<rparr>)\<rparr>) 4 PRIO_NORMAL (Some sched_init)
     = Some (k, Some s') \<and> k \<le> 10000"
proof -
  have "ticking (\<lambda>k. \<lparr>tk_terminate = False, tk_now = of_nat (1000000 * k + 20000000),
             tk_others = (\<lambda>s. s\<lparr>ts_vnpu_priority := (\<lambda>_. 1)\<rparr>)\<rparr>) 100000 10000000 10000"
  proof -
    have "unat (of_nat (1000000 * k + 20000000) :: u64) = 1000000 * k + 20000000" if "k \<le> 10000" for k
      using that by (simp only: unat_of_nat) (simp add: take_bit_nat_eq_self)
    note u = this
    show ?thesis unfolding ticking_def tick.simps
    proof (intro allI impI)
      fix k :: nat
      assume k: "k < 10000"
      show "unat (of_nat (1000000 * k + 20000000) :: u64) + 100000 \<le> unat (of_nat (1000000 * Suc k + 20000000) :: u64)
        \<and> unat (of_nat (1000000 * Suc k + 20000000) :: u64) \<le> unat (of_nat (1000000 * k + 20000000) :: u64) + 10000000"
        unfolding u [OF less_imp_le [OF k]] u [OF Suc_leI [OF k]] by simp
    qed
  qed
  from fairness_wait_ends [OF this] show ?thesis by blast
qed

text \<open>The other two waiting loops have a deadline; they end once the clock passes it.\<close>

lemma consume_loop_ends:
  assumes "k \<le> m" and "\<not> tk_now (env m) < end_ns"
  shows "\<exists>j s'. consume_loop env me end_ns k s = Some (j, s') \<and> k \<le> j \<and> j \<le> m"
  using assms(1)
proof (induction "m - k" arbitrary: k s)
  case 0
  then have "k = m" by simp
  then show ?case using assms(2) by (subst consume_loop.simps) (auto simp: Let_def)
next
  case (Suc d)
  have d: "d = m - Suc k" "Suc k \<le> m" using Suc.hyps(2) by linarith+
  obtain j s' where "consume_loop env me end_ns (Suc k) (tk_others (env k) s) = Some (j, s')" "Suc k \<le> j" "j \<le> m"
    using Suc.hyps(1) [OF d, of "tk_others (env k) s"] by blast
  then show ?case using Suc.prems by (subst consume_loop.simps) (auto simp: Let_def)
qed

lemma sibling_loop_ends:
  assumes "k \<le> m" and "\<not> tk_now (env m) < deadline"
  shows "\<exists>j s'. sibling_loop env v turn_id deadline k s = Some (j, s') \<and> k \<le> j \<and> j \<le> m"
  using assms(1)
proof (induction "m - k" arbitrary: k s)
  case 0
  then have "k = m" by simp
  then show ?case using assms(2) by (subst sibling_loop.simps) (auto simp: Let_def)
next
  case (Suc d)
  have d: "d = m - Suc k" "Suc k \<le> m" using Suc.hyps(2) by linarith+
  obtain j s' where "sibling_loop env v turn_id deadline (Suc k) (tk_others (env k) s) = Some (j, s')" "Suc k \<le> j" "j \<le> m"
    using Suc.hyps(1) [OF d, of "tk_others (env k) s"] by blast
  then show ?case using Suc.prems by (subst sibling_loop.simps) (auto simp: Let_def)
qed

text \<open>A thread waits for its siblings at most 2001 rounds, whatever they do: at 0.1 ms per round
  the deadline of 200 ms is then reached.\<close>

lemma sibling_wait_ends:
  assumes t: "ticking env 100000 hi 2001" and no_wrap: "unat (tk_now (env 0)) + 200000000 < 2 ^ 64"
  shows "\<exists>k s'. wait_for_sibling_sync env v turn_id s = Some (k, s') \<and> k \<le> 2001"
proof -
  have "unat (tk_now (env 0) + SYNC_WAIT_TIMEOUT_NS) = unat (tk_now (env 0)) + 200000000"
    using no_wrap by (subst unat_add_lem [THEN iffD1]) simp_all
  moreover have "unat (tk_now (env 0)) + 2001 * 100000 \<le> unat (tk_now (env 2001))"
    using ticking_progress [OF t, of 2001] by simp
  ultimately have "\<not> tk_now (env 2001) < tk_now (env 0) + SYNC_WAIT_TIMEOUT_NS" by (simp add: word_less_nat_alt)
  then show ?thesis
    using sibling_loop_ends [of 1 2001 env "tk_now (env 0) + SYNC_WAIT_TIMEOUT_NS" v turn_id s]
    by (auto simp: wait_for_sibling_sync_def)
qed

section \<open>The rotation\<close>

lemma next_owner_loop_first:
  assumes "i \<in> set xs" "in_rotation (seen i) ((own + int i) mod int MAX_VNPU_SCHED)" and "sorted xs"
  shows "\<exists>j \<in> set xs. j \<le> i \<and> next_owner_loop seen own xs = (own + int j) mod int MAX_VNPU_SCHED"
  using assms by (induction xs) (auto simp: Let_def)

text \<open>The steps from an owner to a vNPU on the circle of vNPU numbers.\<close>

definition circle_dist :: "int \<Rightarrow> nat \<Rightarrow> nat" where
  "circle_dist own v = Suc (nat ((int v - own - 1) mod 100))"

lemma circle_dist_bounds: "1 \<le> circle_dist own v" "circle_dist own v \<le> 100"
proof -
  have "(int v - own - 1) mod 100 < 100" by simp
  then show "circle_dist own v \<le> 100" unfolding circle_dist_def by linarith
qed (simp add: circle_dist_def)

lemma circle_dist_reach: "v < 100 \<Longrightarrow> (own + int (circle_dist own v)) mod 100 = int v"
proof -
  assume v: "v < 100"
  have "(own + int (circle_dist own v)) mod 100 = (own + 1 + (int v - own - 1) mod 100) mod 100"
    by (simp add: circle_dist_def ac_simps)
  also have "\<dots> = int v mod 100" by (simp add: mod_simps)
  finally show ?thesis using v by simp
qed

lemma circle_dist_step:
  assumes "1 \<le> j" and "j < circle_dist own v"
  shows "circle_dist ((own + int j) mod 100) v = circle_dist own v - j"
proof -
  let ?r = "(int v - own - 1) mod 100"
  have r: "0 \<le> ?r" "?r < 100" and j: "int j \<le> ?r" using assms(2) unfolding circle_dist_def by auto
  have "int v - (own + int j) mod 100 - 1 = int v - 1 - (own + int j) mod 100" by simp
  also have "\<dots> mod 100 = (int v - 1 - (own + int j)) mod 100" by (rule mod_diff_right_eq)
  also have "int v - 1 - (own + int j) = int v - own - 1 - int j" by simp
  also have "\<dots> mod 100 = (?r - int j) mod 100" by (rule mod_diff_left_eq [symmetric])
  also have "\<dots> = ?r - int j" using r j by simp
  finally have "nat ((int v - (own + int j) mod 100 - 1) mod 100) = nat ?r - j" using r(1) by (simp add: nat_diff_distrib)
  moreover have "j \<le> nat ?r" using j by linarith
  ultimately show ?thesis unfolding circle_dist_def by (simp only: Suc_diff_le)
qed

text \<open>The successive owners: the hand-overs choose from what they see of the shared memory, each from its own views.\<close>

fun owners :: "(nat \<Rightarrow> view) list \<Rightarrow> int \<Rightarrow> int list" where
  "owners [] own = []"
| "owners (seen # seens) own = (let next_vnpu_id = select_next_owner seen own in next_vnpu_id # owners seens next_vnpu_id)"

lemma rotation_reaches:
  assumes v: "v < MAX_VNPU_SCHED"
  shows "\<forall>seen \<in> set seens. \<forall>i. in_rotation (seen i) (int v) \<Longrightarrow> circle_dist own v \<le> length seens \<Longrightarrow>
    int v \<in> set (take (circle_dist own v) (owners seens own))"
proof (induction seens arbitrary: own)
  case Nil
  then show ?case using circle_dist_bounds(1) [of own v] by simp
next
  case (Cons seen seens)
  let ?d = "circle_dist own v"
  have "in_rotation (seen ?d) ((own + int ?d) mod int MAX_VNPU_SCHED)" using circle_dist_reach [of v own] v Cons.prems(1) by simp
  moreover have "?d \<in> set [1..<Suc MAX_VNPU_SCHED]" using circle_dist_bounds [of own v] by simp
  ultimately obtain j where j: "j \<in> set [1..<Suc MAX_VNPU_SCHED]" "j \<le> ?d"
      and nxt: "select_next_owner seen own = (own + int j) mod 100"
    using next_owner_loop_first [of ?d "[1..<Suc MAX_VNPU_SCHED]" seen own] sorted_upt
    unfolding select_next_owner_def by (metis (no_types, lifting) of_nat_numeral)
  have j1: "1 \<le> j" using j(1) by simp
  obtain d where d: "?d = Suc d" using circle_dist_bounds(1) [of own v] by (metis Suc_le_D One_nat_def)
  show ?case
  proof (cases "j = ?d")
    case True
    then show ?thesis using nxt circle_dist_reach [of v own] v d by (simp add: Let_def)
  next
    case False
    then have jd: "j < ?d" using j(2) by simp
    note step = circle_dist_step [OF j1 jd]
    have "int v \<in> set (take (?d - j) (owners seens ((own + int j) mod 100)))"
      using Cons.IH [of "(own + int j) mod 100"] Cons.prems j1 jd unfolding step by simp
    moreover have "?d - j \<le> d" using d j1 by simp
    ultimately show ?thesis using set_take_subset_set_take nxt d by (fastforce simp: Let_def)
  qed
qed

text \<open>C8: the rotation starves no vNPU: from any owner, also the initial -1 and a dead one, the device belongs after at most 100
  hand-overs to any given vNPU that is alive and of normal priority whenever a hand-over looks at it. Every hand-over chooses
  from its own views of the shared memory and of the clock, which may change in any way between and during the choices:
  other vNPUs come, go and change their priority. (A hand-over stores the vNPU that was chosen for the owner that it
  replaces; two hand-overs that overlap are not considered.)\<close>

theorem rotation_starves_none:
  assumes "v < MAX_VNPU_SCHED" and "length seens = 100" and "\<forall>seen \<in> set seens. \<forall>i. in_rotation (seen i) (int v)"
  shows "int v \<in> set (owners seens own)"
proof -
  have "circle_dist own v \<le> length seens" using circle_dist_bounds(2) [of own v] assms(2) by simp
  from rotation_reaches [OF assms(1,3) this] show ?thesis by (rule in_set_takeD)
qed

text \<open>The vNPUs below \<open>k\<close> except 42 have become of high priority before hand-over \<open>k\<close>.\<close>

definition demo_views :: "nat \<Rightarrow> nat \<Rightarrow> view" where
  "demo_views k i = (sched_init\<lparr>ts_vnpu_priority := (\<lambda>c. if c < k \<and> c \<noteq> 42 then 1 else 0)\<rparr>, 1000)"

theorem rotation_starves_none_witness: "42 \<in> set (owners (map demo_views [0..<100]) (-1))"
  using rotation_starves_none [of 42 "map demo_views [0..<100]" "-1"]
  by (simp add: demo_views_def in_rotation_def is_vnpu_alive_def check_timeout_def is_normal_priority_vnpu_def sched_init_def)

section \<open>Idling\<close>

lemma idling_loop_sum:
  fixes w :: view
  defines "c i \<equiv> (if in_rotation w (int i) then uint (ts_vnpu_core_limit_quota (fst w) i) else 0)"
  assumes "q + (\<Sum>i\<leftarrow>xs. c i) \<le> 100"
  shows "idling_loop (\<lambda>_. w) q xs = Some (q + (\<Sum>i\<leftarrow>xs. c i))"
  using assms(2)
proof (induction xs arbitrary: q)
  case (Cons i xs)
  have c0: "0 \<le> c j" for j by (simp add: c_def)
  have "0 \<le> (\<Sum>i\<leftarrow>xs. c i)" by (rule sum_list_nonneg) (auto simp: c0)
  then have "q + c i \<le> 100" using Cons.prems by simp
  moreover have "idling_loop (\<lambda>_. w) q (i # xs) = (if q + c i > 100 then None else idling_loop (\<lambda>_. w) (q + c i) xs)"
    by (simp add: c_def Let_def)
  ultimately show ?case using Cons.IH [of "q + c i"] Cons.prems by (simp del: idling_loop.simps add: add.assoc)
qed simp

text \<open>Under the fixed-share policy the device idles at the end of a round for exactly the part of the
  100 ms period that the quotas of the vNPUs in rotation leave over.\<close>

lemma idling_exact:
  fixes w :: view
  defines "quotas \<equiv> (\<Sum>i\<leftarrow>[0..<MAX_VNPU_SCHED]. if in_rotation w (int i) then uint (ts_vnpu_core_limit_quota (fst w) i) else 0)"
  assumes "quotas \<le> 100"
  shows "\<exists>ns. vnpu_idling (\<lambda>_. w) = Some ns \<and> int (unat ns) + 1000000 * quotas = 100000000"
proof -
  have t: "idling_loop (\<lambda>_. w) 0 [0..<MAX_VNPU_SCHED] = Some quotas"
    using idling_loop_sum [of 0 w "[0..<MAX_VNPU_SCHED]"] assms by (simp del: upt.simps upt_rec_numeral)
  have "0 \<le> quotas" unfolding quotas_def by (rule sum_list_nonneg) auto
  then obtain r where r: "100 - quotas = int r" "r \<le> 100" using assms(2) by (metis diff_ge_0_iff_ge diff_le_eq le_add_same_cancel1 nat_0_le nat_le_iff of_nat_numeral zero_le_imp_eq_int of_nat_le_iff)
  have "unat (of_nat r * 100000000 div 100 :: u64) = 1000000 * r"
  proof -
    have "unat (of_nat r * 100000000 :: u64) = r * 100000000" using r(2) unat_of_nat [of "r * 100000000", where 'a = 64]
      by (simp add: take_bit_nat_eq_self)
    then show ?thesis by (simp add: unat_div)
  qed
  moreover have "vnpu_idling (\<lambda>_. w) = Some (of_nat r * 100000000 div 100)"
    unfolding vnpu_idling_def t option.map(2) r(1) of_int_of_nat_eq ..
  moreover have "int (1000000 * r) + 1000000 * quotas = 100000000" using r(1) by simp
  ultimately show ?thesis by (intro exI [of _ "of_nat r * 100000000 div 100"]) (simp only: simp_thms)
qed

end
