(* ===== verification/Scheduler_Runs.thy ===== *)
theory Scheduler_Runs
  imports Core_Scheduler
begin

text \<open>
  The scheduler threads of all processes of a die interleaved: \<^verbatim>\<open>vnpu_scheduler_thread\<close> as a state
  machine on the shared scheduling structure. The step relation lets any thread run at any moment,
  lets a process die and be replaced at any point outside the two sections under the mutex, and lets
  the heartbeats, kernel times and the sliding window change freely. The invariant of these runs is
  the account of the device time of a vNPU: what it was granted, what it overran and its balance.
\<close>

section \<open>Threads\<close>

text \<open>Where a scheduler thread is in its loop: at the top; after it found the owner dead; with the
  next owner it selected in that case; after it found itself the owner; after the first section; with
  the slice it read; with an overrun to report; before it counts itself as completed; waiting for its
  siblings; before the second section.\<close>

datatype pc = P_top | P_dead | P_takeover int int | P_owner | P_entered | P_running | P_report u64
  | P_reported | P_wait | P_lead

record thread =
  th_pc :: pc
  th_turn :: u8
  th_next :: int
  th_ts :: u64

text \<open>Events carry what the account needs: a thread entered a turn, and the slice if it injected the
  quota; a thread passed the second section, and the debt it charged if it advanced the turn.\<close>

datatype event = E_enter nat "u64 option" | E_lead nat "u64 option" | E_other

type_synonym config = "sched \<times> (nat \<Rightarrow> thread)"

text \<open>\<open>vn\<close> is the vNPU of a process, \<open>cfg\<close> the core quota and the priority a vNPU is configured with, \<open>D\<close> a bound on the measured overruns. A robust mutex is obtained
  unless the lock operation fails altogether, which only the second section survives here.\<close>

inductive sched_step :: "(nat \<Rightarrow> nat) \<Rightarrow> (nat \<Rightarrow> u8 \<times> u8) \<Rightarrow> int \<Rightarrow> u64 \<Rightarrow> config \<Rightarrow> event \<Rightarrow> config \<Rightarrow> bool"
  for vn :: "nat \<Rightarrow> nat" and cfg :: "nat \<Rightarrow> u8 \<times> u8" and policy :: int and D :: u64 where
  owner_dead: "th_pc (T p) = P_top \<Longrightarrow> ts_owner s \<noteq> int (vn p) \<Longrightarrow> \<not> is_vnpu_alive (fst w) (snd w) (ts_owner s) \<Longrightarrow>
     sched_step vn cfg policy D (s, T) E_other (s, T(p := (T p)\<lparr>th_pc := P_dead\<rparr>))"
| select_owner: "th_pc (T p) = P_dead \<Longrightarrow>
     sched_step vn cfg policy D (s, T) E_other (s, T(p := (T p)\<lparr>th_pc := P_takeover (ts_owner s) (select_next_owner seen (ts_owner s))\<rparr>))"
| take_over: "th_pc (T p) = P_takeover own nxt \<Longrightarrow>
     sched_step vn cfg policy D (s, T) E_other (snd (set_vnpu_and_idle policy seen own nxt s), T(p := (T p)\<lparr>th_pc := P_top\<rparr>))"
| own_turn: "th_pc (T p) = P_top \<Longrightarrow> ts_owner s = int (vn p) \<Longrightarrow>
     sched_step vn cfg policy D (s, T) E_other (s, T(p := (T p)\<lparr>th_pc := P_owner\<rparr>))"
| enter: "th_pc (T p) = P_owner \<Longrightarrow> enter_turn True seen (vn p) s = (turn_id, nxt, s') \<Longrightarrow>
     sched_step vn cfg policy D (s, T)
       (E_enter p (if needs_quota (vn p) s then Some (ts_vnpu_timeslice_for_turn s' (vn p)) else None))
       (s', T(p := (T p)\<lparr>th_pc := P_entered, th_turn := turn_id, th_next := nxt\<rparr>))"
| load_slice: "th_pc (T p) = P_entered \<Longrightarrow>
     sched_step vn cfg policy D (s, T) E_other
       (s, T(p := (T p)\<lparr>th_pc := P_running, th_ts := ts_vnpu_timeslice_for_turn s (vn p)\<rparr>))"
| synced: "th_pc (T p) = P_running \<Longrightarrow> th_ts (T p) > 0 \<Longrightarrow> ts_vnpu_schedule_turn s (vn p) = th_turn (T p) \<Longrightarrow> ns \<le> D \<Longrightarrow>
     sched_step vn cfg policy D (s, T) E_other (s, T(p := (T p)\<lparr>th_pc := P_report ns\<rparr>))"
| stale: "th_pc (T p) = P_running \<Longrightarrow> th_ts (T p) > 0 \<Longrightarrow> ts_vnpu_schedule_turn s (vn p) \<noteq> th_turn (T p) \<Longrightarrow>
     sched_step vn cfg policy D (s, T) E_other (s, T(p := (T p)\<lparr>th_pc := P_top\<rparr>))"
| no_slice: "th_pc (T p) = P_running \<Longrightarrow> th_ts (T p) = 0 \<Longrightarrow>
     sched_step vn cfg policy D (s, T) E_other (s, T(p := (T p)\<lparr>th_pc := P_reported\<rparr>))"
| report: "th_pc (T p) = P_report ns \<Longrightarrow>
     sched_step vn cfg policy D (s, T) E_other (fetch_max_sync (vn p) ns s, T(p := (T p)\<lparr>th_pc := P_reported\<rparr>))"
| completed: "th_pc (T p) = P_reported \<Longrightarrow>
     sched_step vn cfg policy D (s, T) E_other (count_completed (vn p) s, T(p := (T p)\<lparr>th_pc := P_wait\<rparr>))"
| waited: "th_pc (T p) = P_wait \<Longrightarrow>
     sched_step vn cfg policy D (s, T) E_other (s, T(p := (T p)\<lparr>th_pc := P_lead\<rparr>))"
| lead: "th_pc (T p) = P_lead \<Longrightarrow>
     sched_step vn cfg policy D (s, T)
       (E_lead p (if ts_vnpu_schedule_turn s (vn p) = th_turn (T p)
                  then Some (if th_ts (T p) > 0 then ts_vnpu_turn_max_sync s (vn p) else 0) else None))
       (lead_turn policy seen (vn p) (th_turn (T p)) (th_ts (T p)) (th_next (T p)) s, T(p := (T p)\<lparr>th_pc := P_top\<rparr>))"
| lead_unlocked: "th_pc (T p) = P_lead \<Longrightarrow>
     sched_step vn cfg policy D (s, T) E_other (s, T(p := (T p)\<lparr>th_pc := P_top\<rparr>))"
| restart: "sched_step vn cfg policy D (s, T) E_other (s, T(p := t\<lparr>th_pc := P_top\<rparr>))"
| join: "sched_step vn cfg policy D (s, T) E_other
     (vnpu_scheduler_init (vn p) (fst (cfg (vn p))) (snd (cfg (vn p))) s, T(p := t\<lparr>th_pc := P_top\<rparr>))"
| beat: "sched_step vn cfg policy D (s, T) E_other
     (s\<lparr>ts_last_alive_time_ns := alive, ts_last_kernel_time_ns := kernel_times, ts_slide_window_len := len,
        ts_last_slide_window_time_ns := slid\<rparr>, T)"

text \<open>A run keeps its events, the latest first.\<close>

inductive sched_run :: "(nat \<Rightarrow> nat) \<Rightarrow> (nat \<Rightarrow> u8 \<times> u8) \<Rightarrow> int \<Rightarrow> u64 \<Rightarrow> config \<Rightarrow> event list \<Rightarrow> config \<Rightarrow> bool"
  for vn :: "nat \<Rightarrow> nat" and cfg :: "nat \<Rightarrow> u8 \<times> u8" and policy :: int and D :: u64 and c :: config where
  run_start: "sched_run vn cfg policy D c [] c"
| run_step: "sched_run vn cfg policy D c es c' \<Longrightarrow> sched_step vn cfg policy D c' e c'' \<Longrightarrow> sched_run vn cfg policy D c (e # es) c''"

section \<open>The account of a run\<close>

fun injections :: "(nat \<Rightarrow> nat) \<Rightarrow> nat \<Rightarrow> event list \<Rightarrow> nat" where
  "injections vn v [] = 0"
| "injections vn v (E_enter p (Some ts) # es) = (if vn p = v then 1 else 0) + injections vn v es"
| "injections vn v (_ # es) = injections vn v es"

fun granted_ns :: "(nat \<Rightarrow> nat) \<Rightarrow> nat \<Rightarrow> event list \<Rightarrow> nat" where
  "granted_ns vn v [] = 0"
| "granted_ns vn v (E_enter p (Some ts) # es) = (if vn p = v then unat ts else 0) + granted_ns vn v es"
| "granted_ns vn v (_ # es) = granted_ns vn v es"

fun advances :: "(nat \<Rightarrow> nat) \<Rightarrow> nat \<Rightarrow> event list \<Rightarrow> nat" where
  "advances vn v [] = 0"
| "advances vn v (E_lead p (Some d) # es) = (if vn p = v then 1 else 0) + advances vn v es"
| "advances vn v (_ # es) = advances vn v es"

fun charged_ns :: "(nat \<Rightarrow> nat) \<Rightarrow> nat \<Rightarrow> event list \<Rightarrow> nat" where
  "charged_ns vn v [] = 0"
| "charged_ns vn v (E_lead p (Some d) # es) = (if vn p = v then unat d else 0) + charged_ns vn v es"
| "charged_ns vn v (_ # es) = charged_ns vn v es"

text \<open>The turns of its vNPU that passed since a thread entered one. A run is prompt if no thread enters
  the second section 256 or more turns after the turn it belongs to: turns are counted in a byte.\<close>

fun turns_since :: "(nat \<Rightarrow> nat) \<Rightarrow> nat \<Rightarrow> event list \<Rightarrow> nat" where
  "turns_since vn p [] = 0"
| "turns_since vn p (E_enter q ts # es) = (if q = p then 0 else turns_since vn p es)"
| "turns_since vn p (E_lead q (Some d) # es) = (if vn q = vn p then 1 else 0) + turns_since vn p es"
| "turns_since vn p (_ # es) = turns_since vn p es"

fun prompt :: "(nat \<Rightarrow> nat) \<Rightarrow> event list \<Rightarrow> bool" where
  "prompt vn [] = True"
| "prompt vn (E_lead p d # es) \<longleftrightarrow> turns_since vn p es < 256 \<and> prompt vn es"
| "prompt vn (_ # es) \<longleftrightarrow> prompt vn es"

section \<open>The invariant\<close>

definition balance :: "nat \<Rightarrow> sched \<Rightarrow> int" where
  "balance v s = sint (ts_vnpu_cur_timeslice s v)"

definition account :: "(nat \<Rightarrow> nat) \<Rightarrow> u64 \<Rightarrow> u64 \<Rightarrow> nat \<Rightarrow> sched \<Rightarrow> event list \<Rightarrow> bool" where
  "account vn q D v s es \<longleftrightarrow>
     ts_vnpu_quota_timeslice s v = q \<and> ts_vnpu_turn_max_sync s v \<le> D
     \<and> - int (unat D) \<le> balance v s \<and> balance v s \<le> 0
     \<and> int (unat q) * int (injections vn v es) = int (granted_ns vn v es) + int (charged_ns vn v es) + balance v s
     \<and> granted_ns vn v es \<le> unat q * injections vn v es
     \<and> injections vn v es = advances vn v es + (if needs_quota v s then 0 else 1)
     \<and> (\<not> needs_quota v s \<longrightarrow> ts_vnpu_timeslice_for_turn s v \<noteq> 0 \<longrightarrow> balance v s = 0)"

fun in_turn :: "pc \<Rightarrow> bool" where
  "in_turn P_entered = True" | "in_turn P_running = True" | "in_turn (P_report _) = True"
| "in_turn P_reported = True" | "in_turn P_wait = True" | "in_turn P_lead = True" | "in_turn _ = False"

definition thread_fits :: "(nat \<Rightarrow> nat) \<Rightarrow> u64 \<Rightarrow> sched \<Rightarrow> event list \<Rightarrow> nat \<Rightarrow> thread \<Rightarrow> bool" where
  "thread_fits vn D s es p t \<longleftrightarrow>
     (in_turn (th_pc t) \<longrightarrow>
        ts_vnpu_schedule_turn s (vn p) = th_turn t + of_nat (turns_since vn p es)
        \<and> (turns_since vn p es = 0 \<longrightarrow> \<not> needs_quota (vn p) s
             \<and> (th_pc t \<noteq> P_entered \<longrightarrow> th_ts t \<noteq> 0 \<longrightarrow> ts_vnpu_timeslice_for_turn s (vn p) \<noteq> 0)))
     \<and> (\<forall>ns. th_pc t = P_report ns \<longrightarrow> ns \<le> D)"

definition sched_inv :: "(nat \<Rightarrow> nat) \<Rightarrow> u64 \<Rightarrow> u64 \<Rightarrow> nat \<Rightarrow> config \<Rightarrow> event list \<Rightarrow> bool" where
  "sched_inv vn q D v c es \<longleftrightarrow>
     account vn q D v (fst c) es \<and> (\<forall>p. vn p = v \<longrightarrow> thread_fits vn D (fst c) es p (snd c p))"

text \<open>What the account of a vNPU depends on.\<close>

definition same_turn :: "nat \<Rightarrow> sched \<Rightarrow> sched \<Rightarrow> bool" where
  "same_turn v s s' \<longleftrightarrow>
     ts_vnpu_quota_timeslice s' v = ts_vnpu_quota_timeslice s v \<and> ts_vnpu_turn_max_sync s' v = ts_vnpu_turn_max_sync s v
     \<and> ts_vnpu_cur_timeslice s' v = ts_vnpu_cur_timeslice s v \<and> ts_vnpu_schedule_turn s' v = ts_vnpu_schedule_turn s v
     \<and> ts_vnpu_quota_injected_for_turn s' v = ts_vnpu_quota_injected_for_turn s v
     \<and> ts_vnpu_timeslice_for_turn s' v = ts_vnpu_timeslice_for_turn s v"

named_theorems sched_ops "the operations on the scheduling structure"

declare set_vnpu_and_idle_def [sched_ops] count_expected_def [sched_ops] count_completed_def [sched_ops]
  fetch_max_sync_def [sched_ops] charge_debt_def [sched_ops] advance_turn_def [sched_ops] lead_turn_def [sched_ops]
  inject_quota_def [sched_ops]

lemma same_turn_refl [simp]: "same_turn v s s"
  by (simp add: same_turn_def)

lemma same_turn_owner [simp]: "same_turn v s (snd (set_vnpu_and_idle policy seen own nxt s))"
  by (simp add: same_turn_def sched_ops)

lemma same_turn_completed [simp]: "same_turn v s (count_completed w s)"
  by (simp add: same_turn_def sched_ops)

lemma same_turn_report [simp]: "w \<noteq> v \<Longrightarrow> same_turn v s (fetch_max_sync w ns s)"
  by (simp add: same_turn_def sched_ops)

lemma same_turn_lead [simp]: "w \<noteq> v \<Longrightarrow> same_turn v s (lead_turn policy seen w turn_id ts nxt s)"
  by (simp add: same_turn_def sched_ops Let_def)

lemma same_turn_enter: "w \<noteq> v \<Longrightarrow> enter_turn True seen w s = (turn_id, nxt, s') \<Longrightarrow> same_turn v s s'"
  by (auto simp: same_turn_def enter_turn_def sched_ops Let_def)

lemma same_turn_beat [simp]:
  "same_turn v s (s\<lparr>ts_last_alive_time_ns := alive, ts_last_kernel_time_ns := kernel_times, ts_slide_window_len := len,
     ts_last_slide_window_time_ns := slid\<rparr>)"
  by (simp add: same_turn_def)

lemma same_turn_needs: "same_turn v s s' \<Longrightarrow> needs_quota v s' = needs_quota v s"
  by (simp add: same_turn_def needs_quota_def)

lemma same_turn_account:
  assumes "same_turn v s s'" and "injections vn v es' = injections vn v es" and "granted_ns vn v es' = granted_ns vn v es"
    and "advances vn v es' = advances vn v es" and "charged_ns vn v es' = charged_ns vn v es" and "account vn q D v s es"
  shows "account vn q D v s' es'"
proof -
  have eqs: "ts_vnpu_quota_timeslice s' v = ts_vnpu_quota_timeslice s v" "ts_vnpu_turn_max_sync s' v = ts_vnpu_turn_max_sync s v"
      "ts_vnpu_timeslice_for_turn s' v = ts_vnpu_timeslice_for_turn s v" "balance v s' = balance v s"
    using assms(1) by (simp_all add: same_turn_def balance_def)
  show ?thesis
    using assms(6) unfolding account_def eqs same_turn_needs [OF assms(1)] assms(2-5) .
qed

lemma same_turn_fits:
  assumes "same_turn (vn p) s s'" and "turns_since vn p es' = turns_since vn p es" and "thread_fits vn D s es p t"
  shows "thread_fits vn D s' es' p t"
  using assms(3) same_turn_needs [OF assms(1)] assms(1) unfolding thread_fits_def assms(2)
  by (simp add: same_turn_def)

text \<open>A step that is no event of the vNPU and changes nothing of its turn only has to keep the thread
  that moved in order.\<close>

lemma inv_quiet:
  assumes inv: "sched_inv vn q D v (s, T) es" and same: "same_turn v s s'"
    and t: "vn p = v \<Longrightarrow> thread_fits vn D s es p t'"
  shows "sched_inv vn q D v (s', T(p := t')) (E_other # es)"
proof -
  have "account vn q D v s' (E_other # es)"
    by (rule same_turn_account [OF same, of vn _ es]) (use inv in \<open>auto simp: sched_inv_def\<close>)
  moreover have "thread_fits vn D s' (E_other # es) r ((T(p := t')) r)" if r: "vn r = v" for r
  proof (rule same_turn_fits [of vn r s s' _ es])
    show "same_turn (vn r) s s'" using same r by simp
    show "thread_fits vn D s es r ((T(p := t')) r)" using inv t r by (cases "r = p") (simp_all add: sched_inv_def)
  qed simp
  ultimately show ?thesis by (simp add: sched_inv_def)
qed

text \<open>The events of another vNPU.\<close>

lemma inv_foreign:
  assumes inv: "sched_inv vn q D v (s, T) es" and same: "same_turn v s s'" and p: "vn p \<noteq> v"
    and e: "e = E_enter p ts \<or> e = E_lead p d"
  shows "sched_inv vn q D v (s', T(p := t')) (e # es)"
proof -
  have cnt: "injections vn v (e # es) = injections vn v es" "granted_ns vn v (e # es) = granted_ns vn v es"
      "advances vn v (e # es) = advances vn v es" "charged_ns vn v (e # es) = charged_ns vn v es"
    using e p by (cases ts; cases d; auto)+
  have "account vn q D v s' (e # es)"
    by (rule same_turn_account [OF same cnt]) (use inv in \<open>simp add: sched_inv_def\<close>)
  moreover have "thread_fits vn D s' (e # es) r ((T(p := t')) r)" if r: "vn r = v" for r
  proof (rule same_turn_fits [of vn r s s' _ es])
    have rp: "r \<noteq> p" using r p by auto
    show "same_turn (vn r) s s'" using same r by simp
    show "turns_since vn r (e # es) = turns_since vn r es" using e rp r p by (cases d; cases ts) auto
    show "thread_fits vn D s es r ((T(p := t')) r)" using inv r rp by (simp add: sched_inv_def)
  qed
  ultimately show ?thesis by (simp add: sched_inv_def)
qed

section \<open>Signed readings\<close>

lemma sint_u64_add: "- (2 ^ 63) \<le> sint a + sint b \<Longrightarrow> sint a + sint b < 2 ^ 63 \<Longrightarrow> sint (a + b :: u64) = sint a + sint b"
  by (simp add: sint_word_ariths signed_take_bit_int_eq_self)

lemma sint_u64_diff: "- (2 ^ 63) \<le> sint a - sint b \<Longrightarrow> sint a - sint b < 2 ^ 63 \<Longrightarrow> sint (a - b :: u64) = sint a - sint b"
  by (simp add: sint_word_ariths signed_take_bit_int_eq_self)

lemma sint_u64_small:
  assumes "unat (a :: u64) < 2 ^ 63"
  shows "sint a = int (unat a)"
proof -
  have "uint a < 2 ^ 63" using assms by (simp only: uint_nat of_nat_less_numeral_power_cancel_iff)
  moreover have "- (2 ^ 63) \<le> uint a" by (rule order_trans [OF _ uint_ge_0]) simp
  ultimately have "signed_take_bit 63 (uint a) = uint a" by (intro signed_take_bit_int_eq_self)
  then show ?thesis by (simp add: sint_uint)
qed

lemma unat_u64_nonneg:
  assumes "0 \<le> sint (a :: u64)"
  shows "int (unat a) = sint a"
proof -
  have "sint a < 2 ^ 63" using sint_lt [of a] by simp
  then have "take_bit 64 (sint a) = sint a" using assms by (intro take_bit_int_eq_self) simp_all
  then have "uint a = sint a" by (simp add: uint_sint)
  then show ?thesis by simp
qed

section \<open>The two sections under the mutex\<close>

lemma inject_facts:
  assumes b: "- int (unat D) \<le> balance v s" "balance v s \<le> 0" and q: "ts_vnpu_quota_timeslice s v = q"
    and small: "unat q < 2 ^ 62" "unat D < 2 ^ 62"
  defines "s' \<equiv> inject_quota v s" and "x \<equiv> balance v s + int (unat q)"
  shows "int (unat (ts_vnpu_timeslice_for_turn s' v)) = max x 0" and "balance v s' = min x 0"
proof -
  let ?w = "ts_vnpu_cur_timeslice s v + q"
  have sq: "sint q = int (unat q)" using small(1) by (intro sint_u64_small) simp
  have lo: "- (2 ^ 63) \<le> balance v s + int (unat q)"
  proof -
    have "int (unat D) < 2 ^ 62" using small(2) by (simp only: of_nat_less_numeral_power_cancel_iff)
    moreover have "0 \<le> int (unat q)" "(2 :: int) ^ 62 \<le> 2 ^ 63" by simp_all
    ultimately show ?thesis using b(1) by linarith
  qed
  have hi: "balance v s + int (unat q) < 2 ^ 63"
  proof -
    have "int (unat q) < 2 ^ 62" using small(1) by (simp only: of_nat_less_numeral_power_cancel_iff)
    moreover have "(2 :: int) ^ 62 \<le> 2 ^ 63" by simp
    ultimately show ?thesis using b(2) by linarith
  qed
  have w: "sint ?w = x"
    unfolding x_def using sint_u64_add [of "ts_vnpu_cur_timeslice s v" q] lo hi sq by (simp add: balance_def)
  have ts: "ts_vnpu_timeslice_for_turn s' v = (if x > 0 then ?w else 0)"
    unfolding s'_def inject_quota_def by (simp add: Let_def q w)
  show "int (unat (ts_vnpu_timeslice_for_turn s' v)) = max x 0"
    unfolding ts using unat_u64_nonneg [of ?w] w by simp
  have "ts_vnpu_cur_timeslice s' v = (if x > 0 then 0 else ?w)"
    unfolding s'_def inject_quota_def by (simp add: Let_def q w)
  then show "balance v s' = min x 0" unfolding balance_def using w by simp
qed

lemma inject_turn [simp]:
  "ts_vnpu_schedule_turn (inject_quota v s) = ts_vnpu_schedule_turn s"
  "ts_vnpu_quota_timeslice (inject_quota v s) = ts_vnpu_quota_timeslice s"
  "ts_vnpu_turn_max_sync (inject_quota v s) v = 0"
  "\<not> needs_quota v (inject_quota v s)"
  by (simp_all add: inject_quota_def needs_quota_def Let_def)

lemma same_turn_expected [simp]: "same_turn v s (count_expected w s)"
  by (simp add: same_turn_def sched_ops)

lemma accountD:
  assumes "account vn q D v s es"
  shows "ts_vnpu_quota_timeslice s v = q" "ts_vnpu_turn_max_sync s v \<le> D"
    "- int (unat D) \<le> balance v s" "balance v s \<le> 0"
    "int (unat q) * int (injections vn v es) = int (granted_ns vn v es) + int (charged_ns vn v es) + balance v s"
    "granted_ns vn v es \<le> unat q * injections vn v es"
    "injections vn v es = advances vn v es + (if needs_quota v s then 0 else 1)"
    "\<not> needs_quota v s \<Longrightarrow> ts_vnpu_timeslice_for_turn s v \<noteq> 0 \<Longrightarrow> balance v s = 0"
  using assms unfolding account_def by blast+

lemma account_inject:
  assumes acc: "account vn q D v s es" and need: "needs_quota v s" and p: "vn p = v"
    and small: "unat q < 2 ^ 62" "unat D < 2 ^ 62"
  shows "account vn q D v (inject_quota v s) (E_enter p (Some (ts_vnpu_timeslice_for_turn (inject_quota v s) v)) # es)"
proof -
  have b: "- int (unat D) \<le> balance v s" "balance v s \<le> 0" and q: "ts_vnpu_quota_timeslice s v = q"
    and eq: "int (unat q) * int (injections vn v es) = int (granted_ns vn v es) + int (charged_ns vn v es) + balance v s"
    and le: "granted_ns vn v es \<le> unat q * injections vn v es" and n: "injections vn v es = advances vn v es"
    using accountD(1,3-6) [OF acc] accountD(7) [OF acc, unfolded if_P [OF need] add_0_right] by blast+
  let ?s = "inject_quota v s" and ?x = "balance v s + int (unat q)"
  let ?e = "E_enter p (Some (ts_vnpu_timeslice_for_turn ?s v)) # es"
  note f = inject_facts [OF b q small]
  have inj: "injections vn v ?e = Suc (injections vn v es)" and adv: "advances vn v ?e = advances vn v es"
    and chg: "charged_ns vn v ?e = charged_ns vn v es"
    and gr: "granted_ns vn v ?e = unat (ts_vnpu_timeslice_for_turn ?s v) + granted_ns vn v es"
    using p by simp_all
  have tsq: "unat (ts_vnpu_timeslice_for_turn ?s v) \<le> unat q" using f(1) b(2) by linarith
  have c1: "- int (unat D) \<le> balance v ?s" "balance v ?s \<le> 0" using f(2) b(1) by linarith+
  have c2: "int (unat q) * int (Suc (injections vn v es))
      = int (unat (ts_vnpu_timeslice_for_turn ?s v) + granted_ns vn v es) + int (charged_ns vn v es) + balance v ?s"
    using eq f by (simp only: of_nat_Suc distrib_left mult_1_right of_nat_add)
  have c3: "unat (ts_vnpu_timeslice_for_turn ?s v) + granted_ns vn v es \<le> unat q * Suc (injections vn v es)"
    using tsq le by simp
  have c4: "balance v ?s = 0" if "ts_vnpu_timeslice_for_turn ?s v \<noteq> 0"
  proof -
    have "0 < unat (ts_vnpu_timeslice_for_turn ?s v)" using that by (simp add: unat_gt_0)
    then show ?thesis using f by linarith
  qed
  show ?thesis
    unfolding account_def inj adv chg gr using q c1 c2 c3 c4 n by (simp only: inject_turn if_False simp_thms Suc_eq_plus1 add_0_right) simp
qed

lemma enter_threads:
  assumes inv: "sched_inv vn q D v (s, T) es" and p: "vn p = v" and s1: "s1 = (if needs_quota v s then inject_quota v s else s)"
    and t: "th_turn t = ts_vnpu_schedule_turn s v" "th_pc t = P_entered"
    and r: "vn r = v"
  shows "thread_fits vn D s1 (E_enter p ts # es) r ((T(p := t)) r)"
proof (cases "r = p")
  case True
  then show ?thesis using t p unfolding thread_fits_def s1 by simp
next
  case False
  have fits: "thread_fits vn D s es r (T r)" using inv r by (simp add: sched_inv_def)
  show ?thesis
  proof (cases "needs_quota v s")
    case True
    have "ts_vnpu_schedule_turn s1 v = ts_vnpu_schedule_turn s v" by (simp add: s1)
    moreover have "turns_since vn r es \<noteq> 0" if "in_turn (th_pc (T r))"
      using fits True that r unfolding thread_fits_def by auto
    ultimately show ?thesis using fits False r unfolding thread_fits_def by auto
  next
    case n: False
    then show ?thesis using fits False unfolding thread_fits_def s1 by simp
  qed
qed

lemma inv_enter:
  assumes inv: "sched_inv vn q D v (s, T) es" and p: "vn p = v"
    and small: "unat q < 2 ^ 62" "unat D < 2 ^ 62"
    and e: "enter_turn True seen v s = (turn_id, nxt, s')"
  shows "sched_inv vn q D v (s', T(p := (T p)\<lparr>th_pc := P_entered, th_turn := turn_id, th_next := nxt\<rparr>))
           (E_enter p (if needs_quota v s then Some (ts_vnpu_timeslice_for_turn s' v) else None) # es)"
proof -
  define s1 where "s1 = (if needs_quota v s then inject_quota v s else s)"
  have s': "s' = count_expected v s1" and tid: "turn_id = ts_vnpu_schedule_turn s v"
    using e by (auto simp: enter_turn_def s1_def Let_def)
  have same: "same_turn v s1 s'" unfolding s' by simp
  define ev where "ev = E_enter p (if needs_quota v s then Some (ts_vnpu_timeslice_for_turn s1 v) else None)"
  have ts: "ts_vnpu_timeslice_for_turn s' v = ts_vnpu_timeslice_for_turn s1 v" using same by (simp add: same_turn_def)
  have acc: "account vn q D v s es" using inv by (simp add: sched_inv_def)
  have "account vn q D v s1 (ev # es)"
  proof (cases "needs_quota v s")
    case True
    then show ?thesis using account_inject [OF acc True p small] by (simp add: s1_def ev_def)
  next
    case False
    show ?thesis unfolding s1_def ev_def using False
      by (simp, intro same_turn_account [OF same_turn_refl _ _ _ _ acc]) simp_all
  qed
  then have "account vn q D v s' (ev # es)" by (rule same_turn_account [OF same refl refl refl refl])
  moreover have "thread_fits vn D s' (ev # es) r ((T(p := (T p)\<lparr>th_pc := P_entered, th_turn := turn_id, th_next := nxt\<rparr>)) r)"
    if r: "vn r = v" for r
  proof (rule same_turn_fits [of vn r s1 s' _ "ev # es"])
    show "same_turn (vn r) s1 s'" using same r by simp
    show "thread_fits vn D s1 (ev # es) r ((T(p := (T p)\<lparr>th_pc := P_entered, th_turn := turn_id, th_next := nxt\<rparr>)) r)"
      unfolding ev_def by (rule enter_threads [OF inv p s1_def _ _ r]) (simp_all add: tid)
  qed simp
  ultimately show ?thesis unfolding ts ev_def by (simp add: sched_inv_def)
qed

lemma account_lead:
  assumes acc: "account vn q D v s es" and cur: "\<not> needs_quota v s" and p: "vn p = v"
    and slice: "ts \<noteq> 0 \<Longrightarrow> ts_vnpu_timeslice_for_turn s v \<noteq> 0"
    and small: "unat D < 2 ^ 62" and turn: "ts_vnpu_schedule_turn s v = turn_id"
    and s'_def: "s' = lead_turn policy seen v turn_id ts nxt s" and d_def: "d = (if ts > 0 then ts_vnpu_turn_max_sync s v else 0)"
  shows "account vn q D v s' (E_lead p (Some d) # es)"
proof -
  note a = accountD [OF acc]
  have m: "unat (ts_vnpu_turn_max_sync s v) \<le> unat D" using a(2) by (simp add: word_le_nat_alt)
  have fields: "ts_vnpu_quota_timeslice s' v = ts_vnpu_quota_timeslice s v" "ts_vnpu_turn_max_sync s' v = ts_vnpu_turn_max_sync s v"
      "ts_vnpu_schedule_turn s' v = turn_id + 1" "ts_vnpu_quota_injected_for_turn s' v = ts_vnpu_quota_injected_for_turn s v"
      "ts_vnpu_cur_timeslice s' v = ts_vnpu_cur_timeslice s v - d"
    unfolding s'_def d_def using turn by (auto simp: sched_ops Let_def)
  have need: "needs_quota v s'" using cur turn fields(3,4) unfolding needs_quota_def by auto
  have b: "balance v s' = balance v s - int (unat d)" and d: "unat d \<le> unat D" and z: "ts > 0 \<Longrightarrow> balance v s = 0"
  proof -
    show d: "unat d \<le> unat D" unfolding d_def using m by simp
    show z: "balance v s = 0" if "ts > 0" using that slice a(8) [OF cur] by (auto simp: word_gt_0)
    show "balance v s' = balance v s - int (unat d)"
    proof (cases "ts > 0")
      case False
      then show ?thesis by (simp add: balance_def fields(5) d_def)
    next
      case True
      have sd: "sint d = int (unat d)" using d small by (intro sint_u64_small) simp
      have "int (unat d) < 2 ^ 62" using d small by (simp only: of_nat_less_numeral_power_cancel_iff)
      moreover have "0 \<le> int (unat d)" "(2 :: int) ^ 62 \<le> 2 ^ 63" by simp_all
      ultimately have "- (2 ^ 63) \<le> sint (ts_vnpu_cur_timeslice s v) - sint d" "sint (ts_vnpu_cur_timeslice s v) - sint d < 2 ^ 63"
        using z [OF True] unfolding balance_def sd by linarith+
      then show ?thesis using sint_u64_diff unfolding balance_def fields(5) sd [symmetric] by blast
    qed
  qed
  have lo: "- int (unat D) \<le> balance v s'"
  proof (cases "ts > 0")
    case True
    then show ?thesis using b z d by (simp del: of_nat_unat)
  next
    case False
    then show ?thesis using b a(3) by (simp add: d_def)
  qed
  have n: "injections vn v es = Suc (advances vn v es)" using a(7) cur by simp
  have cnt: "injections vn v (E_lead p (Some d) # es) = injections vn v es" "granted_ns vn v (E_lead p (Some d) # es) = granted_ns vn v es"
      "advances vn v (E_lead p (Some d) # es) = Suc (advances vn v es)" "charged_ns vn v (E_lead p (Some d) # es) = unat d + charged_ns vn v es"
    using p by simp_all
  have eq: "int (unat q) * int (injections vn v es) = int (granted_ns vn v es) + int (unat d + charged_ns vn v es) + balance v s'"
    using a(5) b by (simp only: of_nat_add)
  have hi: "balance v s' \<le> 0" using a(4) b by linarith
  show ?thesis
    unfolding account_def cnt fields(1,2) using a(1,2,6) lo hi eq n need by (simp only: if_True add_0_right) simp
qed

lemma lead_threads:
  assumes inv: "sched_inv vn q D v (s, T) es" and p: "vn p = v" and r: "vn r = v"
    and turn: "ts_vnpu_schedule_turn s v = turn_id" and t: "\<not> in_turn (th_pc t)"
  shows "thread_fits vn D (lead_turn policy seen v turn_id ts nxt s) (E_lead p (Some d) # es) r ((T(p := t)) r)"
proof (cases "r = p")
  case True
  then show ?thesis using t unfolding thread_fits_def by (cases "th_pc t") auto
next
  case False
  have fits: "thread_fits vn D s es r (T r)" using inv r by (simp add: sched_inv_def)
  have "ts_vnpu_schedule_turn (lead_turn policy seen v turn_id ts nxt s) v = ts_vnpu_schedule_turn s v + 1"
    using turn by (simp add: sched_ops Let_def)
  moreover have "turns_since vn r (E_lead p (Some d) # es) = Suc (turns_since vn r es)" using p r by simp
  ultimately show ?thesis
    using fits False r unfolding thread_fits_def by (simp del: turns_since.simps add: add.assoc)
qed

lemma inv_lead:
  assumes inv: "sched_inv vn q D v (s, T) es" and p: "vn p = v" and pc: "th_pc (T p) = P_lead"
    and small: "unat D < 2 ^ 62" and age: "turns_since vn p es < 256"
  shows "sched_inv vn q D v
     (lead_turn policy seen v (th_turn (T p)) (th_ts (T p)) (th_next (T p)) s, T(p := (T p)\<lparr>th_pc := P_top\<rparr>))
     (E_lead p (if ts_vnpu_schedule_turn s v = th_turn (T p)
                then Some (if th_ts (T p) > 0 then ts_vnpu_turn_max_sync s v else 0) else None) # es)"
proof (cases "ts_vnpu_schedule_turn s v = th_turn (T p)")
  case False
  have acc: "account vn q D v s es" using inv by (simp add: sched_inv_def)
  have "account vn q D v s (E_lead p None # es)"
    by (rule same_turn_account [OF same_turn_refl _ _ _ _ acc]) simp_all
  moreover have "thread_fits vn D s (E_lead p None # es) r ((T(p := (T p)\<lparr>th_pc := P_top\<rparr>)) r)" if "vn r = v" for r
    using inv that unfolding sched_inv_def thread_fits_def by (cases "r = p") auto
  ultimately show ?thesis using False by (simp add: sched_inv_def lead_turn_def)
next
  case True
  have fits: "thread_fits vn D s es p (T p)" and acc: "account vn q D v s es" using inv p by (simp_all add: sched_inv_def)
  have "th_turn (T p) = th_turn (T p) + of_nat (turns_since vn p es)"
    using fits pc True p unfolding thread_fits_def by simp
  then have "(of_nat (turns_since vn p es) :: u8) = 0" by (metis add_cancel_right_right)
  then have age0: "turns_since vn p es = 0" using age by (auto simp: word_of_nat_eq_0_iff dest: dvd_imp_le)
  have cur: "\<not> needs_quota v s" and slice: "th_ts (T p) \<noteq> 0 \<Longrightarrow> ts_vnpu_timeslice_for_turn s v \<noteq> 0"
    using fits pc age0 p unfolding thread_fits_def by simp_all
  show ?thesis
    unfolding sched_inv_def if_P [OF True] fst_conv snd_conv
    using account_lead [OF acc cur p slice small True refl refl] lead_threads [OF inv p _ True] by simp
qed

section \<open>Every step keeps the account\<close>

lemma report_threads:
  assumes "thread_fits vn D s es r t"
  shows "thread_fits vn D (fetch_max_sync w ns s) es r t"
  using assms unfolding thread_fits_def needs_quota_def by (auto simp: fetch_max_sync_def)

lemma inv_report:
  assumes inv: "sched_inv vn q D v (s, T) es" and p: "vn p = v" and pc: "th_pc (T p) = P_report ns"
  shows "sched_inv vn q D v (fetch_max_sync v ns s, T(p := (T p)\<lparr>th_pc := P_reported\<rparr>)) (E_other # es)"
proof -
  have fits: "thread_fits vn D s es p (T p)" using inv p by (simp add: sched_inv_def)
  then have ns: "ns \<le> D" using pc by (simp add: thread_fits_def)
  have fields: "ts_vnpu_quota_timeslice (fetch_max_sync v ns s) v = ts_vnpu_quota_timeslice s v"
      "balance v (fetch_max_sync v ns s) = balance v s" "needs_quota v (fetch_max_sync v ns s) = needs_quota v s"
      "ts_vnpu_timeslice_for_turn (fetch_max_sync v ns s) v = ts_vnpu_timeslice_for_turn s v"
    by (simp_all add: fetch_max_sync_def balance_def needs_quota_def)
  have acc: "account vn q D v s es" using inv by (simp add: sched_inv_def)
  have "ts_vnpu_turn_max_sync (fetch_max_sync v ns s) v \<le> D"
    using ns accountD(2) [OF acc] by (simp add: fetch_max_sync_def)
  then have "account vn q D v (fetch_max_sync v ns s) es"
    using acc unfolding account_def fields by blast
  moreover have "thread_fits vn D (fetch_max_sync v ns s) es r (T r)" if "vn r = v" for r
    using inv that by (intro report_threads) (simp add: sched_inv_def)
  ultimately have "sched_inv vn q D v (fetch_max_sync v ns s, T) es" by (simp add: sched_inv_def)
  then show ?thesis
  proof (rule inv_quiet)
    show "thread_fits vn D (fetch_max_sync v ns s) es p ((T p)\<lparr>th_pc := P_reported\<rparr>)"
      using report_threads [OF fits] pc unfolding thread_fits_def by simp
  qed simp
qed

text \<open>The time a core quota, a percentage, gives per turn.\<close>

definition quota_ns :: "u8 \<Rightarrow> u64" where
  "quota_ns aicore_limit_percent = ucast aicore_limit_percent * VNPU_SCHEULE_PERIOD div 100"

lemma same_turn_join:
  assumes "w = v \<Longrightarrow> snd (cfg v) = PRIO_NORMAL \<and> ts_vnpu_quota_timeslice s v = quota_ns (fst (cfg v))"
  shows "same_turn v s (vnpu_scheduler_init w (fst (cfg w)) (snd (cfg w)) s)"
  using assms by (auto simp: same_turn_def vnpu_scheduler_init_def quota_ns_def Let_def)

lemma inv_moved:
  assumes inv: "sched_inv vn q D v c es" and "c = (s, T)" "e = E_other" "c' = (s', T(p := t'))" "same_turn v s s'"
    and "vn p = v \<Longrightarrow> thread_fits vn D s es p (T p) \<Longrightarrow> thread_fits vn D s es p t'"
  shows "sched_inv vn q D v c' (e # es)"
  unfolding assms(3,4) using inv unfolding assms(2)
  by (rule inv_quiet [OF _ assms(5)]) (use assms(2,6) inv in \<open>simp add: sched_inv_def\<close>)

lemma sched_step_inv:
  assumes "sched_step vn cfg policy D c e c'" and "sched_inv vn q D v c es" and "prompt vn (e # es)"
    and small: "unat q < 2 ^ 62" "unat D < 2 ^ 62" and q: "snd (cfg v) = PRIO_NORMAL" "q = quota_ns (fst (cfg v))"
  shows "sched_inv vn q D v c' (e # es)"
  using assms(1)
proof (cases rule: sched_step.cases)
  case (enter T p seen s turn_id nxt s')
  show ?thesis
  proof (cases "vn p = v")
    case True
    have "enter_turn True seen v s = (turn_id, nxt, s')" using enter(5) True by simp
    from inv_enter [OF assms(2) [unfolded enter(1)] True small this] show ?thesis unfolding enter(2,3) True .
  next
    case False
    show ?thesis using inv_foreign [OF assms(2) [unfolded enter(1)] same_turn_enter [OF False enter(5)] False] unfolding enter(2,3) by blast
  qed
next
  case (report T p ns s)
  show ?thesis
  proof (cases "vn p = v")
    case True
    from inv_report [OF assms(2) [unfolded report(1)] True report(4)] show ?thesis unfolding report(2,3) True .
  next
    case False
    show ?thesis using inv_quiet [OF assms(2) [unfolded report(1)] same_turn_report [OF False]] False report by simp
  qed
next
  case (lead T p s seen)
  show ?thesis
  proof (cases "vn p = v")
    case True
    have "turns_since vn p es < 256" using assms(3) unfolding lead(2) by simp
    from inv_lead [OF assms(2) [unfolded lead(1)] True lead(4) small(2) this] show ?thesis unfolding lead(2,3) True .
  next
    case False
    show ?thesis using inv_foreign [OF assms(2) [unfolded lead(1)] same_turn_lead [OF False] False] unfolding lead(2,3) by blast
  qed
next
  case (join s T p t)
  have "ts_vnpu_quota_timeslice s v = q" using assms(2) accountD(1) unfolding join(1) by (auto simp: sched_inv_def)
  then show ?thesis
    by (intro inv_moved [OF assms(2) join(1-3)] same_turn_join) (use q in \<open>auto simp: thread_fits_def\<close>)
next
  case (beat s T slid len kernel_times alive)
  have "sched_inv vn q D v (s\<lparr>ts_last_alive_time_ns := alive, ts_last_kernel_time_ns := kernel_times,
      ts_slide_window_len := len, ts_last_slide_window_time_ns := slid\<rparr>, T(p := T p)) (E_other # es)" for p
    by (rule inv_quiet [OF assms(2) [unfolded beat(1)] same_turn_beat]) (use assms(2) beat in \<open>simp add: sched_inv_def\<close>)
  then show ?thesis using beat by simp
next
  case owner_dead
  show ?thesis by (rule inv_moved [OF assms(2) owner_dead(1-3)]) (use owner_dead in \<open>auto simp: thread_fits_def\<close>)
next
  case select_owner
  show ?thesis by (rule inv_moved [OF assms(2) select_owner(1-3)]) (use select_owner in \<open>auto simp: thread_fits_def\<close>)
next
  case take_over
  show ?thesis by (rule inv_moved [OF assms(2) take_over(1-3)]) (use take_over in \<open>auto simp: thread_fits_def\<close>)
next
  case own_turn
  show ?thesis by (rule inv_moved [OF assms(2) own_turn(1-3)]) (use own_turn in \<open>auto simp: thread_fits_def\<close>)
next
  case load_slice
  show ?thesis by (rule inv_moved [OF assms(2) load_slice(1-3)]) (use load_slice in \<open>auto simp: thread_fits_def\<close>)
next
  case synced
  show ?thesis by (rule inv_moved [OF assms(2) synced(1-3)]) (use synced in \<open>auto simp: thread_fits_def\<close>)
next
  case stale
  show ?thesis by (rule inv_moved [OF assms(2) stale(1-3)]) (use stale in \<open>auto simp: thread_fits_def\<close>)
next
  case no_slice
  show ?thesis by (rule inv_moved [OF assms(2) no_slice(1-3)]) (use no_slice in \<open>auto simp: thread_fits_def\<close>)
next
  case completed
  show ?thesis by (rule inv_moved [OF assms(2) completed(1-3)]) (use completed in \<open>auto simp: thread_fits_def\<close>)
next
  case waited
  show ?thesis by (rule inv_moved [OF assms(2) waited(1-3)]) (use waited in \<open>auto simp: thread_fits_def\<close>)
next
  case lead_unlocked
  show ?thesis by (rule inv_moved [OF assms(2) lead_unlocked(1-3)]) (use lead_unlocked in \<open>auto simp: thread_fits_def\<close>)
next
  case restart
  show ?thesis by (rule inv_moved [OF assms(2) restart(1-3)]) (use restart in \<open>auto simp: thread_fits_def\<close>)
qed

section \<open>Runs from a fresh structure\<close>

definition turn_reset :: "nat \<Rightarrow> sched \<Rightarrow> bool" where
  "turn_reset v s \<longleftrightarrow> ts_vnpu_cur_timeslice s v = 0 \<and> ts_vnpu_schedule_turn s v = 0 \<and> ts_vnpu_quota_injected_for_turn s v = 0xFF
     \<and> ts_vnpu_turn_max_sync s v = 0 \<and> ts_vnpu_timeslice_for_turn s v = 0 \<and> ts_vnpu_quota_timeslice s v = 0"

lemma reset_vnpus_turn:
  "fst (reset_vnpus mutex_ok is s) \<Longrightarrow> v \<in> set is \<or> turn_reset v s \<Longrightarrow> turn_reset v (snd (reset_vnpus mutex_ok is s))"
proof (induction "is" arbitrary: s)
  case (Cons i "is")
  have "v \<in> set is \<or> turn_reset v (reset_vnpu i s)"
    using Cons.prems(2) by (cases "v = i") (auto simp: turn_reset_def reset_vnpu_def)
  then show ?case using Cons.IH [of "reset_vnpu i s"] Cons.prems(1) by (simp add: Let_def split: if_splits)
qed simp

lemma create_sched_turn:
  assumes "create_sched mutex_ok raw = (ENPU_SUCCESS, s)" and "v < MAX_VNPU_SCHED"
  shows "turn_reset v s"
proof -
  let ?r = "reset_vnpus mutex_ok [0..<MAX_VNPU_SCHED] (raw\<lparr>ts_magic_number := MAGIC_INITIALIZING, ts_owner := -1\<rparr>)"
  have "fst ?r" and s: "s = (snd ?r)\<lparr>ts_magic_number := MAGIC_INITIALIZED\<rparr>"
    using assms(1) by (auto simp: create_sched_def split: prod.splits if_splits)
  then have "turn_reset v (snd ?r)" using assms(2) by (intro reset_vnpus_turn) simp_all
  then show ?thesis by (simp add: s turn_reset_def)
qed

lemma quota_ns_unat: "unat (quota_ns pct) = 1000000 * unat pct"
proof -
  have "unat pct < 2 ^ 8" using unsigned_less [of pct] by simp
  moreover have "unat (ucast pct :: u64) = unat pct" 
    using \<open>unat pct < 2 ^ 8\<close> by (simp add: unsigned_ucast_eq take_bit_nat_eq_self)
  ultimately have "unat (ucast pct * 100000000 :: u64) = unat pct * 100000000"
    by (subst unat_mult_lem [THEN iffD1]) simp_all
  then show ?thesis by (simp add: quota_ns_def unat_div)
qed

lemma sched_inv_start:
  assumes "turn_reset v s" and "\<forall>p. th_pc (T p) = P_top" and "snd (cfg v) = PRIO_NORMAL"
  shows "sched_inv vn (quota_ns (fst (cfg v))) D v (vnpu_scheduler_init v (fst (cfg v)) (snd (cfg v)) s, T) []"
  using assms by (simp add: sched_inv_def account_def thread_fits_def turn_reset_def balance_def needs_quota_def
      vnpu_scheduler_init_def quota_ns_def Let_def)

lemma sched_run_inv:
  assumes "sched_run vn cfg policy D c es c'" and "prompt vn es" and "sched_inv vn q D v c []"
    and "unat q < 2 ^ 62" "unat D < 2 ^ 62" "snd (cfg v) = PRIO_NORMAL" "q = quota_ns (fst (cfg v))"
  shows "sched_inv vn q D v c' es"
  using assms(1,2)
proof (induction rule: sched_run.induct)
  case run_start
  show ?case by (rule assms(3))
next
  case (run_step es c' e c'')
  have "prompt vn es" using run_step.prems by (cases e) simp_all
  then show ?case using sched_step_inv [OF run_step.hyps(2) run_step.IH run_step.prems assms(4-7)] by simp
qed

text \<open>C7: the device time of a vNPU is accounted exactly, for any number of processes and under any
  interleaving of their scheduler threads, crashes outside the critical sections included. Starting
  from freshly created shared memory, let \<open>q\<close> be the time its core quota gives per turn (its
  percentage of 100 ms). After \<open>n\<close> quota injections the vNPU was granted slices of at most \<open>n q\<close> in
  total, and the slices together with the overruns charged to it lie between \<open>n q\<close> and \<open>n q\<close> plus one
  overrun; every turn is injected exactly once. The hypotheses: no thread arrives 256 turns late at
  the hand-over (turn numbers are bytes), and overruns are below 2 to the 62 ns.\<close>

theorem device_time_account:
  assumes "create_sched mutex_ok raw = (ENPU_SUCCESS, s)" and "v < MAX_VNPU_SCHED" and "snd (cfg v) = PRIO_NORMAL"
    and "\<forall>p. th_pc (T p) = P_top"
    and "sched_run vn cfg policy D (vnpu_scheduler_init v (fst (cfg v)) (snd (cfg v)) s, T) es (s', T')"
    and "prompt vn es" and "unat D < 2 ^ 62"
  shows "let q = 1000000 * unat (fst (cfg v)); n = injections vn v es; used = granted_ns vn v es + charged_ns vn v es
         in granted_ns vn v es \<le> n * q \<and> n * q \<le> used \<and> used \<le> n * q + unat D
            \<and> (n = advances vn v es \<or> n = Suc (advances vn v es))"
proof -
  let ?q = "quota_ns (fst (cfg v))"
  have "unat (fst (cfg v)) < 2 ^ 8" using unsigned_less [of "fst (cfg v)"] by simp
  then have small: "unat ?q < 2 ^ 62" by (simp add: quota_ns_unat)
  have "sched_inv vn ?q D v (s', T') es"
    using sched_run_inv [OF assms(5,6) _ small assms(7,3) refl]
      sched_inv_start [where cfg = cfg and v = v and T = T, OF create_sched_turn [OF assms(1,2)] assms(4,3)] by blast
  then have acc: "account vn ?q D v s' es" by (simp add: sched_inv_def)
  note a = accountD [OF acc]
  let ?n = "injections vn v es" and ?u = "granted_ns vn v es + charged_ns vn v es"
  have eq: "int (?n * unat ?q) = int ?u + balance v s'"
    using a(5) by (simp only: of_nat_mult of_nat_add mult.commute add.assoc)
  have "?n * unat ?q \<le> ?u" and "?u \<le> ?n * unat ?q + unat D" using eq a(3,4) by linarith+
  moreover have "granted_ns vn v es \<le> ?n * unat ?q" using a(6) by (simp only: mult.commute)
  moreover have "?n = advances vn v es \<or> ?n = Suc (advances vn v es)" using a(7) by (simp split: if_splits)
  ultimately show ?thesis unfolding Let_def quota_ns_unat by blast
qed

text \<open>One turn of one process with a core quota of 50 percent that overruns its slice by 7 ns.\<close>

lemma create_sched_owner:
  assumes "create_sched mutex_ok raw = (ENPU_SUCCESS, s)"
  shows "ts_owner s = -1"
proof -
  have keep: "ts_owner (snd (reset_vnpus mutex_ok is x)) = ts_owner x" for "is" and x :: sched
    by (induction "is" arbitrary: x) (simp_all add: reset_vnpu_def Let_def)
  let ?r = "reset_vnpus mutex_ok [0..<MAX_VNPU_SCHED] (raw\<lparr>ts_magic_number := MAGIC_INITIALIZING, ts_owner := -1\<rparr>)"
  have "s = (snd ?r)\<lparr>ts_magic_number := MAGIC_INITIALIZED\<rparr>"
    using assms by (auto simp: create_sched_def split: prod.splits if_splits)
  then show ?thesis by (simp add: keep del: upt.simps upt_rec_numeral)
qed

lemma reset_vnpus_ok: "\<forall>i. mutex_ok i \<Longrightarrow> fst (reset_vnpus mutex_ok is s)"
  by (induction "is" arbitrary: s) (simp_all add: Let_def)

lemma create_sched_ok: "\<forall>i. mutex_ok i \<Longrightarrow> \<exists>s. create_sched mutex_ok raw = (ENPU_SUCCESS, s)"
  using reset_vnpus_ok [of mutex_ok "[0..<MAX_VNPU_SCHED]" "raw\<lparr>ts_magic_number := MAGIC_INITIALIZING, ts_owner := -1\<rparr>"]
  by (cases "reset_vnpus mutex_ok [0..<MAX_VNPU_SCHED] (raw\<lparr>ts_magic_number := MAGIC_INITIALIZING, ts_owner := -1\<rparr>)")
    (simp add: create_sched_def del: upt.simps upt_rec_numeral)

definition demo_seen :: "nat \<Rightarrow> view" where
  "demo_seen = (\<lambda>_. (sched_init, 0))"

lemma demo_next: "select_next_owner demo_seen (-1) = 0" "select_next_owner demo_seen 0 = 1"
  by (simp_all add: select_next_owner_def upt_conv_Cons demo_seen_def in_rotation_def is_vnpu_alive_def check_timeout_def
      is_normal_priority_vnpu_def sched_init_def)

definition demo_thread :: "pc \<Rightarrow> thread" where
  "demo_thread x = \<lparr>th_pc = x, th_turn = 0, th_next = 1, th_ts = 50000000\<rparr>"

definition demo_events :: "event list" where
  "demo_events = [E_lead 0 (Some 7), E_other, E_other, E_other, E_other, E_other, E_enter 0 (Some 50000000), E_other, E_other,
     E_other, E_other]"

lemma demo_turn:
  assumes s: "turn_reset 0 s" "ts_owner s = -1"
  shows "\<exists>c. sched_run (\<lambda>_. 0) (\<lambda>_. (50, 0)) SCHED_POLICY_ELASTIC 7
     (vnpu_scheduler_init 0 50 0 s, (\<lambda>_. demo_thread P_top)) demo_events c"
proof -
  let ?run = "sched_run (\<lambda>_. 0) (\<lambda>_. (50, 0)) SCHED_POLICY_ELASTIC 7 (vnpu_scheduler_init 0 50 0 s, (\<lambda>_. demo_thread P_top))"
  let ?T = "\<lambda>x. (\<lambda>_. demo_thread P_top)(0 := x)"
  define s0 where "s0 = vnpu_scheduler_init 0 50 0 s"
  define s1 where "s1 = s0\<lparr>ts_owner := 0\<rparr>"
  define s2 where "s2 = count_expected 0 (inject_quota 0 s1)"
  define s3 where "s3 = fetch_max_sync 0 7 s2"
  define s4 where "s4 = count_completed 0 s3"
  have own: "ts_owner s0 = -1" and own1: "ts_owner s1 = 0"
    using s by (simp_all add: s0_def s1_def vnpu_scheduler_init_def Let_def)
  have need: "needs_quota 0 s1"
    using s by (simp add: s1_def s0_def vnpu_scheduler_init_def Let_def needs_quota_def turn_reset_def)
  have turn: "ts_vnpu_schedule_turn s1 0 = 0" "ts_vnpu_cur_timeslice s1 0 + ts_vnpu_quota_timeslice s1 0 = 50000000"
    using s by (simp_all add: s1_def s0_def vnpu_scheduler_init_def Let_def turn_reset_def)
  have slice: "ts_vnpu_timeslice_for_turn s2 0 = 50000000"
    using turn(2) by (simp add: s2_def count_expected_def inject_quota_def Let_def)
  have turn2: "ts_vnpu_schedule_turn s2 0 = 0" "ts_vnpu_schedule_turn s4 0 = 0" and max: "ts_vnpu_turn_max_sync s4 0 = 7"
    using turn(1) by (simp_all add: s4_def s3_def s2_def count_expected_def count_completed_def fetch_max_sync_def inject_quota_def Let_def)
  have r1: "?run [E_other] (s0, ?T (demo_thread P_dead))"
    using run_step [OF run_start owner_dead [where vn = "\<lambda>_. 0" and p = 0 and w = "(s0, 0)" and s = s0 and T = "\<lambda>_. demo_thread P_top"]] own
    by (simp add: demo_thread_def is_vnpu_alive_def flip: s0_def)
  have r2: "?run [E_other, E_other] (s0, ?T (demo_thread (P_takeover (-1) 0)))"
    using run_step [OF r1 select_owner [where p = 0 and seen = demo_seen]] own
    by (simp add: demo_thread_def demo_next)
  have r3: "?run [E_other, E_other, E_other] (s1, ?T (demo_thread P_top))"
    using run_step [OF r2 take_over [where p = 0 and seen = demo_seen]] own
    by (simp add: demo_thread_def set_vnpu_and_idle_def s1_def)
  have r4: "?run [E_other, E_other, E_other, E_other] (s1, ?T (demo_thread P_owner))"
    using run_step [OF r3 own_turn [where p = 0]] own1 by (simp add: demo_thread_def)
  have e: "enter_turn True demo_seen 0 s1 = (0, 1, s2)"
    using need turn(1) own1 demo_next(2) by (simp add: enter_turn_def s2_def Let_def count_expected_def inject_quota_def)
  have r5: "?run [E_enter 0 (Some 50000000), E_other, E_other, E_other, E_other] (s2, ?T (demo_thread P_entered))"
    using run_step [OF r4 enter [where p = 0 and seen = demo_seen]] e need slice by (simp add: demo_thread_def)
  have r6: "?run [E_other, E_enter 0 (Some 50000000), E_other, E_other, E_other, E_other] (s2, ?T (demo_thread P_running))"
    using run_step [OF r5 load_slice [where p = 0]] slice by (simp add: demo_thread_def)
  have r7: "?run [E_other, E_other, E_enter 0 (Some 50000000), E_other, E_other, E_other, E_other] (s2, ?T (demo_thread (P_report 7)))"
    using run_step [OF r6 synced [where p = 0 and ns = 7]] turn2 by (simp add: demo_thread_def)
  have r8: "?run [E_other, E_other, E_other, E_enter 0 (Some 50000000), E_other, E_other, E_other, E_other] (s3, ?T (demo_thread P_reported))"
    using run_step [OF r7 report [where p = 0]] by (simp add: demo_thread_def s3_def)
  have r9: "?run [E_other, E_other, E_other, E_other, E_enter 0 (Some 50000000), E_other, E_other, E_other, E_other] (s4, ?T (demo_thread P_wait))"
    using run_step [OF r8 completed [where p = 0]] by (simp add: demo_thread_def s4_def)
  have r10: "?run (tl demo_events) (s4, ?T (demo_thread P_lead))"
    using run_step [OF r9 waited [where p = 0]] by (simp add: demo_thread_def demo_events_def)
  show ?thesis
    using run_step [OF r10 lead [where p = 0 and seen = demo_seen]] turn2 max
    by (auto simp: demo_thread_def demo_events_def)
qed

theorem device_time_account_witness:
  "\<exists>s T s' T'. create_sched (\<lambda>_. True) sched_init = (ENPU_SUCCESS, s)
     \<and> sched_run (\<lambda>_. 0) (\<lambda>_. (50, 0)) SCHED_POLICY_ELASTIC 7 (vnpu_scheduler_init 0 50 0 s, T) demo_events (s', T')
     \<and> granted_ns (\<lambda>_. 0) 0 demo_events + charged_ns (\<lambda>_. 0) 0 demo_events \<le> 50000000 + 7"
proof -
  obtain s where s: "create_sched (\<lambda>_. True) sched_init = (ENPU_SUCCESS, s)" using create_sched_ok [of "\<lambda>_. True"] by auto
  obtain s' T' where r: "sched_run (\<lambda>_. 0) (\<lambda>_. (50, 0)) SCHED_POLICY_ELASTIC 7
      (vnpu_scheduler_init 0 50 0 s, (\<lambda>_. demo_thread P_top)) demo_events (s', T')"
    using demo_turn [OF create_sched_turn [OF s] create_sched_owner [OF s]] by auto
  have "prompt (\<lambda>_. 0) demo_events" by (simp add: demo_events_def)
  then have "granted_ns (\<lambda>_. 0) 0 demo_events + charged_ns (\<lambda>_. 0) 0 demo_events \<le> 50000000 + 7"
    using device_time_account [OF s, where v = 0 and cfg = "\<lambda>_. (50, 0)" and T = "\<lambda>_. demo_thread P_top" and vn = "\<lambda>_. 0"] r
    by (auto simp: demo_events_def demo_thread_def Let_def)
  then show ?thesis using s r by blast
qed

end
