(* ===== verification/Stream_Cache.thy ===== *)
theory Stream_Cache
  imports Core_Scheduler Hash_Map
begin

text \<open>
  The streams a process submitted work to (\<^verbatim>\<open>vcann-rt/src/core_limiter.c\<close>). A launch passes the core
  limiter, which remembers its stream in a cache; at the end of a time slice the scheduler thread
  synchronises the cached streams and forgets them, except those that are capturing a graph. The map
  \<^verbatim>\<open>stream_map\<close> holds, for every known stream, the stream that heads its capture and whether it is
  capturing; \<^verbatim>\<open>event_map\<close> holds the same for events. Handles are words, the null handle is 0.
\<close>

section \<open>State\<close>

abbreviation (input) MAX_STREAMS_PER_PROCESS :: nat where "MAX_STREAMS_PER_PROCESS \<equiv> 128"

record streams =
  st_cache :: "u64 list"
  st_map :: "u64 hash_map"
  st_events :: "u64 hash_map"

definition known :: "streams \<Rightarrow> u64 \<Rightarrow> bool" where
  "known st stream \<longleftrightarrow> hashmap_contains (st_map st) stream \<noteq> 0"

definition put_stream :: "bool \<Rightarrow> u64 \<Rightarrow> u64 \<Rightarrow> bool \<Rightarrow> streams \<Rightarrow> streams" where
  "put_stream mem_ok stream ptr capture st = st\<lparr>st_map := snd (hashmap_put mem_ok (st_map st) stream ptr capture)\<rparr>"

section \<open>Operations\<close>

definition restore_streams :: "bool \<Rightarrow> u64 \<Rightarrow> streams \<Rightarrow> streams" where
  "restore_streams mem_ok stream st =
     (if stream = 0 then st
      else if known st stream then st
      else if length (st_cache st) \<ge> MAX_STREAMS_PER_PROCESS then st
      else put_stream mem_ok stream 0 False (st\<lparr>st_cache := st_cache st @ [stream]\<rparr>))"

definition add_stream :: "bool \<Rightarrow> u64 \<Rightarrow> streams \<Rightarrow> streams" where
  "add_stream mem_ok stream st = (if known st stream then st else put_stream mem_ok stream 0 False st)"

text \<open>The loop of \<^verbatim>\<open>synchronize_and_clear_streams\<close> writes the kept streams to the front of the array while
  it reads it. When the map misses a stream it returns at once and leaves the length of the array
  unchanged. The result is whether it ran to the end, the array, the map, and the streams that were
  synchronised.\<close>

fun sync_loop :: "u64 list \<Rightarrow> u64 list \<Rightarrow> u64 list \<Rightarrow> u64 hash_map \<Rightarrow> u64 list \<Rightarrow> bool \<times> u64 list \<times> u64 hash_map \<times> u64 list" where
  "sync_loop orig kept [] m synced = (True, kept, m, synced)"
| "sync_loop orig kept (stm # rest) m synced =
     (case hashmap_get_capture_status m stm of
        (_, None) \<Rightarrow> (False, kept @ drop (length kept) orig, m, synced)
      | (_, Some capture) \<Rightarrow>
          if capture then sync_loop orig (kept @ [stm]) rest m synced
          else case hashmap_remove m stm of (rc, m') \<Rightarrow>
            if rc = -1 then (False, kept @ drop (length kept) orig, m', synced @ [stm])
            else sync_loop orig kept rest m' (synced @ [stm]))"

definition synchronize_and_clear_streams :: "streams \<Rightarrow> u64 list \<times> streams" where
  "synchronize_and_clear_streams st =
     (case sync_loop (st_cache st) [] (st_cache st) (st_map st) [] of
        (_, cache, m, synced) \<Rightarrow> (synced, st\<lparr>st_cache := cache, st_map := m\<rparr>))"

fun clear_capture :: "(nat \<Rightarrow> bool) \<Rightarrow> u64 \<Rightarrow> u64 list \<Rightarrow> nat \<Rightarrow> u64 hash_map \<Rightarrow> u64 hash_map" where
  "clear_capture mems stream [] i m = m"
| "clear_capture mems stream (stm # stms) i m =
     (case hashmap_get_ptr m stm of
        (_, None) \<Rightarrow> m
      | (_, Some head_stream) \<Rightarrow>
          if head_stream = stream
          then case hashmap_put (mems i) m stm 0 False of (rc, m') \<Rightarrow>
                 if rc = -1 then m' else clear_capture mems stream stms (Suc i) m'
          else clear_capture mems stream stms (Suc i) m)"

definition set_stream_capture :: "(nat \<Rightarrow> bool) \<Rightarrow> bool \<Rightarrow> u64 \<Rightarrow> streams \<Rightarrow> streams" where
  "set_stream_capture mems capture stream st =
     (if \<not> capture then st\<lparr>st_map := clear_capture mems stream (st_cache st) 0 (st_map st)\<rparr>
      else put_stream (mems 0) stream stream capture st)"

definition set_event_create_status :: "bool \<Rightarrow> u64 \<Rightarrow> streams \<Rightarrow> streams" where
  "set_event_create_status mem_ok evt st = st\<lparr>st_events := snd (hashmap_put mem_ok (st_events st) evt 0 False)\<rparr>"

definition set_event_wait_status :: "bool \<Rightarrow> u64 \<Rightarrow> u64 \<Rightarrow> streams \<Rightarrow> streams" where
  "set_event_wait_status mem_ok evt stm st =
     (case hashmap_get (st_events st) evt of
        (_, None) \<Rightarrow> st
      | (_, Some event_status) \<Rightarrow>
          if mv_ptr event_status \<noteq> 0 then put_stream mem_ok stm (mv_ptr event_status) True st else st)"

definition set_event_record_status :: "bool \<Rightarrow> u64 \<Rightarrow> u64 \<Rightarrow> streams \<Rightarrow> streams" where
  "set_event_record_status mem_ok evt stm st =
     (case hashmap_get (st_events st) evt of
        (_, None) \<Rightarrow> st
      | (_, Some _) \<Rightarrow>
        (case hashmap_get_ptr (st_map st) stm of
           (_, None) \<Rightarrow> st
         | (_, Some head_stream) \<Rightarrow>
             if head_stream \<noteq> 0 then st\<lparr>st_events := snd (hashmap_put mem_ok (st_events st) evt head_stream True)\<rparr> else st))"

definition set_event_destroy_status :: "u64 \<Rightarrow> streams \<Rightarrow> streams" where
  "set_event_destroy_status evt st = st\<lparr>st_events := snd (hashmap_remove (st_events st) evt)\<rparr>"

definition remove_stream :: "u64 \<Rightarrow> streams \<Rightarrow> streams" where
  "remove_stream stm st =
     (if stm \<in> set (st_cache st)
      then st\<lparr>st_cache := remove1 stm (st_cache st), st_map := snd (hashmap_remove (st_map st) stm)\<rparr>
      else st)"

definition stream_is_capturing :: "u64 \<Rightarrow> streams option \<Rightarrow> bool" where
  "stream_is_capturing stm so =
     (case so of None \<Rightarrow> False
      | Some st \<Rightarrow> if stm = 0 then False
        else case hashmap_get_capture_status (st_map st) stm of (_, None) \<Rightarrow> False | (_, Some capturing) \<Rightarrow> capturing)"

section \<open>The core limiter\<close>

text \<open>What one round of \<^verbatim>\<open>core_limiter\<close> meets: the two tests of termination and of \<^verbatim>\<open>g_sched_locking\<close>, the
  ticks of the wait for the fairness window, whether the mutex is obtained, what the other threads of the
  process did to the streams until then, and two clock readings.\<close>

record round =
  rn_terminate :: bool
  rn_others :: "sched \<Rightarrow> sched"
  rn_now :: u64
  rn_locking :: bool
  rn_wait :: "nat \<Rightarrow> tick"
  rn_terminate_again :: bool
  rn_lock_ok :: bool
  rn_streams :: "streams \<Rightarrow> streams"
  rn_locking_again :: bool
  rn_done :: u64

partial_function (option) limiter_loop ::
    "(nat \<Rightarrow> round) \<Rightarrow> nat \<Rightarrow> u8 \<Rightarrow> bool \<Rightarrow> u64 \<Rightarrow> (streams \<Rightarrow> streams) \<Rightarrow> nat \<Rightarrow> sched \<Rightarrow> streams \<Rightarrow> (sched \<times> streams) option" where
  "limiter_loop env me priority mem_ok stream func k s st =
     (let r = env k; s0 = rn_others r s in
      if rn_terminate r then Some (s0, st)
      else let s1 = store_kernel_time me (rn_now r) s0 in
        if rn_locking r then limiter_loop env me priority mem_ok stream func (Suc k) s1 st
        else Option.bind (wait_window_loop (rn_wait r) me priority 0 s1) (\<lambda>w.
          let s2 = snd w; st1 = rn_streams r st in
          if rn_terminate_again r then Some (s2, st)
          else if \<not> rn_lock_ok r then Some (s2, st)
          else if rn_locking_again r then limiter_loop env me priority mem_ok stream func (Suc k) s2 st1
          else Some (store_kernel_time me (rn_done r) s2, func (restore_streams mem_ok stream st1))))"

definition core_limiter ::
    "(nat \<Rightarrow> round) \<Rightarrow> bool \<Rightarrow> nat \<Rightarrow> u8 \<Rightarrow> bool \<Rightarrow> u64 \<Rightarrow> (streams \<Rightarrow> streams) \<Rightarrow> sched \<Rightarrow> streams \<Rightarrow> (sched \<times> streams) option" where
  "core_limiter env is_core_limit me priority mem_ok stream func s st =
     (if \<not> is_core_limit then map_option (\<lambda>w. (snd w, st)) (wait_window_loop (rn_wait (env 0)) me priority 0 s)
      else limiter_loop env me priority mem_ok stream func 0 s st)"

section \<open>The end of a time slice\<close>

definition stream_inv :: "streams \<Rightarrow> bool" where
  "stream_inv st \<longleftrightarrow> hash_inv (st_map st) \<and> distinct (st_cache st) \<and> length (st_cache st) \<le> MAX_STREAMS_PER_PROCESS
     \<and> (\<forall>stm \<in> set (st_cache st). hash_lookup (st_map st) stm \<noteq> None)"

definition capturing_in :: "u64 hash_map \<Rightarrow> u64 \<Rightarrow> bool" where
  "capturing_in m stm \<longleftrightarrow> (case hash_lookup m stm of None \<Rightarrow> False | Some v \<Rightarrow> mv_capture_status v)"

lemma known_iff: "known st stm \<longleftrightarrow> hash_lookup (st_map st) stm \<noteq> None"
  by (auto simp: known_def hash_get split: option.splits)

lemma hash_lookup_null [simp]: "hash_lookup m 0 = None"
  by (simp add: hash_lookup_def)

lemma sync_loop_exact:
  assumes "hash_inv m" and "distinct rest" and "\<forall>stm \<in> set rest. hash_lookup m stm \<noteq> None"
  shows "\<exists>m'. sync_loop orig kept rest m synced
      = (True, kept @ filter (capturing_in m) rest, m', synced @ filter (\<lambda>stm. \<not> capturing_in m stm) rest)
    \<and> hash_inv m' \<and> hash_lookup m' = (\<lambda>stm. if stm \<in> set rest \<and> \<not> capturing_in m stm then None else hash_lookup m stm)"
  using assms
proof (induction rest arbitrary: kept m synced)
  case (Cons stm rest)
  obtain v where v: "hash_lookup m stm = Some v" using Cons.prems(3) by auto
  show ?case
  proof (cases "mv_capture_status v")
    case True
    obtain m' where "sync_loop orig (kept @ [stm]) rest m synced
        = (True, (kept @ [stm]) @ filter (capturing_in m) rest, m', synced @ filter (\<lambda>stm. \<not> capturing_in m stm) rest)"
        "hash_inv m'" "hash_lookup m' = (\<lambda>stm. if stm \<in> set rest \<and> \<not> capturing_in m stm then None else hash_lookup m stm)"
      using Cons.IH [of m "kept @ [stm]" synced] Cons.prems by auto
    moreover have "capturing_in m stm" using v True by (simp add: capturing_in_def)
    ultimately show ?thesis using v True by (auto simp: hash_get fun_eq_iff)
  next
    case False
    let ?m = "snd (hashmap_remove m stm)"
    have r: "fst (hashmap_remove m stm) = 0" "hash_inv ?m" "hash_lookup ?m = (hash_lookup m)(stm := None)"
      using hash_remove_ok [OF Cons.prems(1), of stm] v by simp_all
    have cap: "capturing_in ?m x = capturing_in m x" if "x \<in> set rest" for x
      using that Cons.prems(2) r(3) by (auto simp: capturing_in_def)
    have f: "filter (capturing_in ?m) rest = filter (capturing_in m) rest"
        "filter (\<lambda>x. \<not> capturing_in ?m x) rest = filter (\<lambda>x. \<not> capturing_in m x) rest"
      by (auto intro!: filter_cong simp: cap)
    have p: "\<forall>x \<in> set rest. hash_lookup ?m x \<noteq> None" using Cons.prems r(3) by auto
    obtain m' where m': "sync_loop orig kept rest ?m (synced @ [stm])
        = (True, kept @ filter (capturing_in ?m) rest, m', (synced @ [stm]) @ filter (\<lambda>x. \<not> capturing_in ?m x) rest)"
        "hash_inv m'" "hash_lookup m' = (\<lambda>x. if x \<in> set rest \<and> \<not> capturing_in ?m x then None else hash_lookup ?m x)"
      using Cons.IH [of ?m kept "synced @ [stm]"] r(2) p Cons.prems(2) by auto
    have n: "\<not> capturing_in m stm" using v False by (simp add: capturing_in_def)
    have "hash_lookup m' = (\<lambda>x. if x \<in> set (stm # rest) \<and> \<not> capturing_in m x then None else hash_lookup m x)"
      unfolding m'(3) r(3) using n cap by (auto simp: fun_eq_iff)
    moreover have "sync_loop orig kept (stm # rest) m synced = sync_loop orig kept rest ?m (synced @ [stm])"
      using v False r(1) by (cases "hashmap_remove m stm") (simp add: hash_get)
    ultimately show ?thesis using m'(1,2) n unfolding f by (intro exI [of _ m']) simp
  qed
qed simp

lemma synchronize_state:
  assumes "stream_inv st"
  obtains m' where "synchronize_and_clear_streams st = (filter (\<lambda>stm. \<not> capturing_in (st_map st) stm) (st_cache st),
        st\<lparr>st_cache := filter (capturing_in (st_map st)) (st_cache st), st_map := m'\<rparr>)"
    and "hash_inv m'"
    and "hash_lookup m' = (\<lambda>stm. if stm \<in> set (st_cache st) \<and> \<not> capturing_in (st_map st) stm then None else hash_lookup (st_map st) stm)"
proof -
  obtain m' where "sync_loop (st_cache st) [] (st_cache st) (st_map st) []
      = (True, filter (capturing_in (st_map st)) (st_cache st), m', filter (\<lambda>stm. \<not> capturing_in (st_map st) stm) (st_cache st))"
      "hash_inv m'" "hash_lookup m' = (\<lambda>stm. if stm \<in> set (st_cache st) \<and> \<not> capturing_in (st_map st) stm then None else hash_lookup (st_map st) stm)"
    using sync_loop_exact [of "st_map st" "st_cache st" "st_cache st" "[]" "[]"] assms by (auto simp: stream_inv_def)
  then show ?thesis using that by (simp add: synchronize_and_clear_streams_def)
qed

lemma stream_inv_sync: "stream_inv st \<Longrightarrow> stream_inv (snd (synchronize_and_clear_streams st))"
  by (rule synchronize_state, assumption) (auto simp: stream_inv_def intro: le_trans [OF length_filter_le])

text \<open>C25: at the end of a time slice every cached stream that is not capturing a graph is synchronised
  exactly once and forgotten, every capturing stream stays cached, and nothing else changes.\<close>

theorem synchronize_exact:
  assumes "stream_inv st" and "synchronize_and_clear_streams st = (synced, st')"
  shows "synced = filter (\<lambda>stm. \<not> stream_is_capturing stm (Some st)) (st_cache st)
    \<and> st_cache st' = filter (\<lambda>stm. stream_is_capturing stm (Some st)) (st_cache st)
    \<and> (\<forall>stm. known st' stm \<longleftrightarrow> known st stm \<and> stm \<notin> set synced) \<and> st_events st' = st_events st \<and> stream_inv st'"
proof -
  have cap: "stream_is_capturing stm (Some st) = capturing_in (st_map st) stm" if "stm \<in> set (st_cache st)" for stm
    using assms(1) that by (auto simp: stream_is_capturing_def capturing_in_def hash_get stream_inv_def split: option.split)
  obtain m' where e: "synchronize_and_clear_streams st = (filter (\<lambda>stm. \<not> capturing_in (st_map st) stm) (st_cache st),
        st\<lparr>st_cache := filter (capturing_in (st_map st)) (st_cache st), st_map := m'\<rparr>)"
    and m': "hash_lookup m' = (\<lambda>stm. if stm \<in> set (st_cache st) \<and> \<not> capturing_in (st_map st) stm then None else hash_lookup (st_map st) stm)"
    by (rule synchronize_state [OF assms(1)])
  have st': "st' = st\<lparr>st_cache := filter (capturing_in (st_map st)) (st_cache st), st_map := m'\<rparr>"
    and sy: "synced = filter (\<lambda>stm. \<not> capturing_in (st_map st) stm) (st_cache st)"
    using e assms(2) by simp_all
  have "stream_inv st'" using stream_inv_sync [OF assms(1)] assms(2) by simp
  moreover have "known st' stm \<longleftrightarrow> known st stm \<and> stm \<notin> set synced" for stm
    using m' by (auto simp: known_iff st' sy)
  moreover have "filter (\<lambda>stm. \<not> stream_is_capturing stm (Some st)) (st_cache st) = synced"
      "filter (\<lambda>stm. stream_is_capturing stm (Some st)) (st_cache st) = st_cache st'"
    by (auto simp: sy st' cap intro!: filter_cong)
  ultimately show ?thesis by (simp add: st')
qed

text \<open>Three cached streams, the second capturing.\<close>

definition demo_map :: "u64 hash_map" where
  "demo_map = \<lparr>hm_buckets = (\<lambda>i. if i = 0 then [(8, \<lparr>mv_ptr = 0, mv_capture_status = False\<rparr>), (16, \<lparr>mv_ptr = 16, mv_capture_status = True\<rparr>),
     (24, \<lparr>mv_ptr = 0, mv_capture_status = False\<rparr>)] else []), hm_capacity = 1, hm_size = 3\<rparr>"

definition demo_streams :: streams where
  "demo_streams = \<lparr>st_cache = [8, 16, 24], st_map = demo_map, st_events = demo_map\<rparr>"

lemma demo_map_lookup: "hash_lookup demo_map = [8 \<mapsto> \<lparr>mv_ptr = 0, mv_capture_status = False\<rparr>, 16 \<mapsto> \<lparr>mv_ptr = 16, mv_capture_status = True\<rparr>,
     24 \<mapsto> \<lparr>mv_ptr = 0, mv_capture_status = False\<rparr>]"
  by (auto simp: hash_lookup_def demo_map_def bucket_of_def hash_ptr_def fun_eq_iff)

lemma demo_streams_inv: "stream_inv demo_streams"
proof -
  have "hash_inv demo_map"
    unfolding hash_inv_def demo_map_lookup by (auto simp: demo_map_def bucket_of_def hash_ptr_def)
  then show ?thesis by (simp add: stream_inv_def demo_streams_def demo_map_lookup)
qed

theorem synchronize_exact_witness:
  "fst (synchronize_and_clear_streams demo_streams) = [8, 24] \<and> st_cache (snd (synchronize_and_clear_streams demo_streams)) = [16]"
  using synchronize_exact [OF demo_streams_inv prod.collapse [symmetric]]
  by (simp add: stream_is_capturing_def hash_get demo_map_lookup) (simp add: demo_streams_def demo_map_lookup)

section \<open>Streams the cache never sees\<close>

text \<open>The calls of the hooks: a launch (any call through the limiter without a function), an event recorded on
  or awaited by a stream, begin and end of a capture, the end of a slice, the destruction of a stream,
  the creation and destruction of an event.\<close>

datatype stream_op =
    Launch bool u64
  | Event_record bool bool u64 u64
  | Event_wait bool bool u64 u64
  | Capture "nat \<Rightarrow> bool" bool u64
  | Slice_end
  | Stream_destroy bool u64
  | Event_create bool u64
  | Event_destroy u64

fun stream_step :: "stream_op \<Rightarrow> streams \<Rightarrow> u64 list \<times> streams" where
  "stream_step (Launch mem_ok stm) st = ([], restore_streams mem_ok stm st)"
| "stream_step (Event_record mem_ok mem_ok' evt stm) st = ([], set_event_record_status mem_ok' evt stm (add_stream mem_ok stm st))"
| "stream_step (Event_wait mem_ok mem_ok' evt stm) st = ([], set_event_wait_status mem_ok' evt stm (add_stream mem_ok stm st))"
| "stream_step (Capture mems b stm) st = ([], set_stream_capture (\<lambda>i. mems (Suc i)) b stm (restore_streams (mems 0) stm st))"
| "stream_step Slice_end st = synchronize_and_clear_streams st"
| "stream_step (Stream_destroy mem_ok stm) st = ([], remove_stream stm (restore_streams mem_ok stm st))"
| "stream_step (Event_create mem_ok evt) st = ([], set_event_create_status mem_ok evt st)"
| "stream_step (Event_destroy evt) st = ([], set_event_destroy_status evt st)"

fun synced_by :: "stream_op list \<Rightarrow> streams \<Rightarrow> u64 list" where
  "synced_by [] st = []"
| "synced_by (x # xs) st = (case stream_step x st of (synced, st') \<Rightarrow> synced @ synced_by xs st')"

definition mapped :: "u64 \<Rightarrow> u64 hash_map \<Rightarrow> bool" where
  "mapped stm m \<longleftrightarrow> hash_inv m \<and> hash_lookup m stm \<noteq> None"

definition uncached :: "u64 \<Rightarrow> streams \<Rightarrow> bool" where
  "uncached stm st \<longleftrightarrow> mapped stm (st_map st) \<and> stm \<notin> set (st_cache st)"

lemma put_keeps: "mapped stm m \<Longrightarrow> mapped stm (snd (hashmap_put mem_ok m key ptr c))"
  using hash_put_ok [of m key mem_ok ptr c] hash_put_fails [of key mem_ok m ptr c]
  by (cases "key = 0 \<or> \<not> mem_ok \<and> hash_lookup m key = None") (auto simp: mapped_def)

lemma remove_keeps: "mapped stm m \<Longrightarrow> key \<noteq> stm \<Longrightarrow> mapped stm (snd (hashmap_remove m key))"
  using hash_remove_ok [of m key] hash_remove_absent [of m key] by (cases "hash_lookup m key = None") (auto simp: mapped_def)

lemma clear_capture_keeps: "mapped stm m \<Longrightarrow> mapped stm (clear_capture mems stream stms i m)"
proof (induction stms arbitrary: i m)
  case (Cons x stms)
  obtain r po where g: "hashmap_get_ptr m x = (r, po)" by fastforce
  obtain rc m1 where p: "hashmap_put (mems i) m x 0 False = (rc, m1)" by fastforce
  have "mapped stm m1" using put_keeps [OF Cons.prems, of "mems i" x 0 False] p by simp
  then show ?case using Cons.IH [OF Cons.prems, of "Suc i"] Cons.IH [of m1 "Suc i"] Cons.prems g p by (cases po) simp_all
qed simp

lemma sync_loop_keeps:
  assumes "mapped stm m" "stm \<notin> set orig" "stm \<notin> set kept" "stm \<notin> set rest" "stm \<notin> set synced"
    and "sync_loop orig kept rest m synced = (ok, cache, m', synced')"
  shows "mapped stm m' \<and> stm \<notin> set cache \<and> stm \<notin> set synced'"
  using assms
proof (induction rest arbitrary: kept m synced)
  case (Cons x rest)
  have x: "x \<noteq> stm" using Cons.prems by auto
  have d: "stm \<notin> set (drop n orig)" for n using Cons.prems(2) by (meson in_set_dropD)
  obtain g co where g: "hashmap_get_capture_status m x = (g, co)" by fastforce
  obtain rc m1 where r: "hashmap_remove m x = (rc, m1)" by fastforce
  have k: "mapped stm m1" using remove_keeps [OF Cons.prems(1) x] r by simp
  show ?case
  proof (cases co)
    case None
    then show ?thesis using Cons.prems d g by auto
  next
    case (Some c)
    consider "c" | "\<not> c" "rc = -1" | "\<not> c" "rc \<noteq> -1" by blast
    then show ?thesis
    proof cases
      case 1
      then have "sync_loop orig (kept @ [x]) rest m synced = (ok, cache, m', synced')" using Cons.prems(6) g Some by simp
      then show ?thesis by (rule Cons.IH [OF Cons.prems(1,2), rotated 3]) (use Cons.prems(3-5) x in auto)
    next
      case 2
      then have "cache = kept @ drop (length kept) orig" "m' = m1" "synced' = synced @ [x]" using Cons.prems(6) g Some r by auto
      then show ?thesis using k d Cons.prems(3,5) x by auto
    next
      case 3
      then have "sync_loop orig kept rest m1 (synced @ [x]) = (ok, cache, m', synced')" using Cons.prems(6) g Some r by simp
      then show ?thesis by (rule Cons.IH [OF k Cons.prems(2), rotated 3]) (use Cons.prems(3-5) x in auto)
    qed
  qed
qed auto

lemma uncached_put: "uncached stm st \<Longrightarrow> uncached stm (put_stream mem_ok key ptr c st)"
  by (simp add: uncached_def put_stream_def put_keeps)

lemma uncached_restore: "uncached stm st \<Longrightarrow> uncached stm (restore_streams mem_ok key st)"
  by (auto simp: restore_streams_def known_iff uncached_def put_stream_def put_keeps) (auto simp: mapped_def)

lemma uncached_add: "uncached stm st \<Longrightarrow> uncached stm (add_stream mem_ok key st)"
  by (simp add: add_stream_def uncached_put)

lemma uncached_events: "uncached stm (st\<lparr>st_events := e\<rparr>) = uncached stm st"
  by (simp add: uncached_def)

lemma uncached_step:
  assumes "uncached stm st" and "stream_step x st = (synced, st')"
  shows "stm \<notin> set synced \<and> uncached stm st'"
proof (cases x)
  case (Capture mems b key)
  then show ?thesis using assms uncached_restore [OF assms(1), of "mems 0" key]
    by (auto simp: set_stream_capture_def uncached_put) (simp add: uncached_def clear_capture_keeps)
next
  case Slice_end
  obtain ok cache m sy where "sync_loop (st_cache st) [] (st_cache st) (st_map st) [] = (ok, cache, m, sy)" by (metis prod_cases4)
  then show ?thesis using assms Slice_end sync_loop_keeps [of stm "st_map st" "st_cache st" "[]" "st_cache st" "[]"]
    by (auto simp: synchronize_and_clear_streams_def uncached_def)
next
  case (Stream_destroy mem_ok key)
  define st1 where "st1 = restore_streams mem_ok key st"
  have u: "mapped stm (st_map st1)" "stm \<notin> set (st_cache st1)" using uncached_restore [OF assms(1)] by (auto simp: st1_def uncached_def)
  have s: "synced = []" "st' = remove_stream key st1" using assms(2) Stream_destroy by (auto simp: st1_def)
  show ?thesis
  proof (cases "key \<in> set (st_cache st1)")
    case True
    then have "key \<noteq> stm" using u(2) by blast
    then show ?thesis using True u s remove_keeps [OF u(1), of key] notin_set_remove1 [OF u(2), of key]
      by (simp add: remove_stream_def uncached_def)
  next
    case False
    then show ?thesis using u s by (simp add: remove_stream_def uncached_def)
  qed
qed (use assms in \<open>auto simp: set_event_record_status_def set_event_wait_status_def set_event_create_status_def set_event_destroy_status_def
        uncached_events uncached_restore uncached_add uncached_put split: prod.split option.split\<close>)

text \<open>A stream on which an event is recorded, or which waits for an event, before its first launch is
  never cached and so never synchronised at the end of a slice, whatever the process does afterwards,
  the destruction of the stream included: the event hooks enter it in the map only, and the limiter
  takes a stream in the map for a cached one. The overrun of its work is never charged to the vNPU.\<close>

lemma event_first_stream_never_synchronised:
  assumes "stream_inv st" and "stm \<noteq> 0" and "\<not> known st stm" and "x = Event_record True mem_ok evt stm \<or> x = Event_wait True mem_ok evt stm"
  shows "stm \<notin> set (synced_by (x # xs) st)"
proof -
  have inv: "hash_inv (st_map st)" and none: "hash_lookup (st_map st) stm = None" and out: "stm \<notin> set (st_cache st)"
    using assms(1,3) by (auto simp: stream_inv_def known_iff)
  have "uncached stm (add_stream True stm st)"
    using hash_put_ok [OF inv assms(2), of True 0 False] none out assms(3)
    by (simp add: uncached_def mapped_def add_stream_def put_stream_def)
  then have u: "uncached stm (snd (stream_step x st))" and e: "fst (stream_step x st) = []"
    using assms(4) by (auto simp: set_event_record_status_def set_event_wait_status_def uncached_events uncached_put split: prod.split option.split)
  have "stm \<notin> set (synced_by xs st')" if "uncached stm st'" for st'
    using that
  proof (induction xs arbitrary: st')
    case (Cons y ys)
    obtain sy st2 where "stream_step y st' = (sy, st2)" by fastforce
    then show ?case using uncached_step [OF Cons.prems] Cons.IH by auto
  qed simp
  then show ?thesis using u e by (cases "stream_step x st") auto
qed

theorem event_first_stream_never_synchronised_witness:
  "40 \<notin> set (synced_by [Event_record True True 8 40, Launch True 40, Launch True 40, Slice_end] demo_streams)"
  by (rule event_first_stream_never_synchronised [OF demo_streams_inv]) (simp_all add: known_iff demo_streams_def demo_map_lookup)

section \<open>The invariant of the cache\<close>

text \<open>When the map can allocate, every call keeps the invariant that the cached streams are distinct, at most
  128, and in the map. (A failed insertion in \<^verbatim>\<open>restore_streams\<close> leaves a cached stream outside the map; the
  synchronisation then stops at it at the end of every slice.)\<close>

fun mem_fine :: "stream_op \<Rightarrow> bool" where
  "mem_fine (Launch mem_ok stm) = mem_ok"
| "mem_fine (Capture mems b stm) = mems 0"
| "mem_fine (Stream_destroy mem_ok stm) = mem_ok"
| "mem_fine _ = True"

lemma hash_put_inv: "hash_inv m \<Longrightarrow> hash_inv (snd (hashmap_put mem_ok m key ptr c))"
  using hm.put_inv [of m mem_ok key "\<lparr>mv_ptr = ptr, mv_capture_status = c\<rparr>"] by simp

lemma clear_capture_inv: "hash_inv m \<Longrightarrow> hash_inv (clear_capture mems stream stms i m)"
proof (induction stms arbitrary: i m)
  case (Cons x stms)
  obtain rc m1 where "hashmap_put (mems i) m x 0 False = (rc, m1)" by fastforce
  then show ?case using hash_put_inv [OF Cons.prems, of "mems i" x 0 False] Cons by (auto simp: hash_get split: option.split)
qed simp

lemma stream_inv_mapped:
  "stream_inv st \<longleftrightarrow> hash_inv (st_map st) \<and> distinct (st_cache st) \<and> length (st_cache st) \<le> MAX_STREAMS_PER_PROCESS
     \<and> (\<forall>stm \<in> set (st_cache st). mapped stm (st_map st))"
  by (auto simp: stream_inv_def mapped_def)

lemma stream_inv_put: "stream_inv st \<Longrightarrow> stream_inv (put_stream mem_ok key ptr c st)"
  by (auto simp: stream_inv_mapped put_stream_def put_keeps hash_put_inv)

lemma stream_inv_restore:
  assumes "stream_inv st"
  shows "stream_inv (restore_streams True key st)"
proof (cases "key = 0 \<or> known st key \<or> length (st_cache st) \<ge> MAX_STREAMS_PER_PROCESS")
  case False
  then have k: "key \<noteq> 0" "key \<notin> set (st_cache st)" using assms by (auto simp: stream_inv_def known_iff)
  have inv: "hash_inv (st_map st)" using assms by (simp add: stream_inv_def)
  have "stream_inv (st\<lparr>st_cache := st_cache st @ [key], st_map := snd (hashmap_put True (st_map st) key 0 False)\<rparr>)"
    using assms False k hash_put_ok [OF inv k(1), of True 0 False] by (auto simp: stream_inv_def)
  then show ?thesis using False by (simp add: restore_streams_def put_stream_def)
qed (use assms in \<open>auto simp: restore_streams_def\<close>)

lemma stream_inv_remove:
  assumes "stream_inv st"
  shows "stream_inv (remove_stream key st)"
proof (cases "key \<in> set (st_cache st)")
  case True
  have "hash_inv (st_map st)" "hash_lookup (st_map st) key \<noteq> None" using assms True by (auto simp: stream_inv_def)
  note r = hash_remove_ok [OF this]
  show ?thesis using assms True r(2,3) by (auto simp: stream_inv_def remove_stream_def length_remove1)
qed (use assms in \<open>simp add: remove_stream_def\<close>)

lemma stream_inv_events [simp]: "stream_inv (st\<lparr>st_events := e\<rparr>) = stream_inv st"
  by (simp add: stream_inv_def)

lemma stream_step_inv:
  assumes "stream_inv st" and "mem_fine x"
  shows "stream_inv (snd (stream_step x st))"
proof (cases x)
  case (Capture mems b key)
  then have "stream_inv (restore_streams (mems 0) key st)" using assms stream_inv_restore by simp
  then show ?thesis using Capture
    by (simp add: set_stream_capture_def stream_inv_put) (simp add: stream_inv_mapped clear_capture_keeps clear_capture_inv)
qed (use assms in \<open>auto simp: set_event_record_status_def set_event_wait_status_def set_event_create_status_def set_event_destroy_status_def
        add_stream_def stream_inv_put stream_inv_restore stream_inv_remove stream_inv_sync split: prod.split option.split\<close>)

section \<open>The limiter returns\<close>

definition lets_go :: "round \<Rightarrow> bool" where
  "lets_go r \<longleftrightarrow> rn_terminate r \<or> \<not> rn_locking r \<and> (rn_terminate_again r \<or> \<not> rn_lock_ok r \<or> \<not> rn_locking_again r)"

lemma wait_ends:
  assumes "ticking env 100000 10000000 10000"
  shows "\<exists>w. wait_window_loop env me priority 0 s = Some w"
proof -
  obtain m where m: "in_normal_window (tk_now (env m)) \<longleftrightarrow> priority \<noteq> PRIO_HIGH"
    using window_comes [OF assms] by metis
  then show ?thesis using wait_window_loop_ends [of 0 m priority env me s] admitted_in_window [OF m] by auto
qed

text \<open>Every submission returns once the scheduler thread leaves its critical section for one round, whatever
  the other processes and threads do: the wait for the fairness window inside each round ends.\<close>

lemma core_limiter_returns:
  assumes "lets_go (env n)" and "\<And>k. ticking (rn_wait (env k)) 100000 10000000 10000"
  shows "\<exists>y. core_limiter env is_core_limit me priority mem_ok stream func s st = Some y"
proof -
  have "\<exists>y. limiter_loop env me priority mem_ok stream func k s st = Some y" if "k \<le> n" for k s st
    using that
  proof (induction "n - k" arbitrary: k s st)
    case 0
    then have go: "lets_go (env k)" using assms(1) by simp
    obtain w where "wait_window_loop (rn_wait (env k)) me priority 0 (store_kernel_time me (rn_now (env k)) (rn_others (env k) s)) = Some w"
      using wait_ends [OF assms(2)] by blast
    then show ?case using go by (subst limiter_loop.simps) (auto simp: Let_def lets_go_def)
  next
    case (Suc d)
    obtain w where w: "wait_window_loop (rn_wait (env k)) me priority 0 (store_kernel_time me (rn_now (env k)) (rn_others (env k) s)) = Some w"
      using wait_ends [OF assms(2)] by blast
    have "d = n - Suc k" "Suc k \<le> n" using Suc.hyps(2) by auto
    then show ?case using Suc.hyps(1) w by (subst limiter_loop.simps) (auto simp: Let_def)
  qed
  then show ?thesis using wait_ends [OF assms(2), of 0 me priority s] by (auto simp: core_limiter_def)
qed

end
