(* ===== verification/Vnpu_Stats.thy ===== *)
theory Vnpu_Stats
  imports Core_Scheduler
begin

text \<open>
  The utilisation statistics of the runtime (\<^verbatim>\<open>vcann-rt/src/vnpu_stats.c\<close>): every process of a vNPU
  adds its kernel launches to a ring of time buckets in shared memory, publishes the average duration
  of its kernels in a slot of its own, and the monitor reads both for all vNPUs. The process-local
  samples behind the average are a list, newest first.
\<close>

section \<open>Data\<close>

record stats_bucket =
  sb_bucket_start_ns :: u64
  sb_sum_block_dim :: u64
  sb_launch_count :: u64

record stats_avg_slot =
  sa_sum_ns :: u64
  sa_count :: u64
  sa_ts_ns :: u64

record vnpu_stats_shm =
  vs_buckets :: "nat \<Rightarrow> nat \<Rightarrow> stats_bucket"
  vs_avg_slot_seq :: "nat \<Rightarrow> u64"
  vs_avg_slots :: "nat \<Rightarrow> nat \<Rightarrow> stats_avg_slot"
  vs_magic_number :: u32

record sample_record =
  sp_kernel_count :: int
  sp_sample_time :: u64
  sp_timestamp :: u64

abbreviation (input) VNPU_STATS_BUCKET_DURATION_NS :: u64 where "VNPU_STATS_BUCKET_DURATION_NS \<equiv> 50000000"
abbreviation (input) VNPU_STATS_NUM_BUCKETS :: nat where "VNPU_STATS_NUM_BUCKETS \<equiv> 12"
abbreviation (input) VNPU_STATS_WINDOW_NS :: u64 where "VNPU_STATS_WINDOW_NS \<equiv> 1000000000"
abbreviation (input) VNPU_STATS_INIT_TIMEOUT_NS :: u64 where "VNPU_STATS_INIT_TIMEOUT_NS \<equiv> 3000000"
abbreviation (input) VNPU_STATS_AVG_STALE_NS :: u64 where "VNPU_STATS_AVG_STALE_NS \<equiv> 3000000000"
abbreviation (input) INVALID_SAMPLE_PERIOD :: u64 where "INVALID_SAMPLE_PERIOD \<equiv> VNPU_STATS_WINDOW_NS"
abbreviation (input) VNPU_STATS_AVG_SLOTS :: nat where "VNPU_STATS_AVG_SLOTS \<equiv> 64"
abbreviation (input) VNPU_STATS_MAGIC_INITIALIZED :: u32 where "VNPU_STATS_MAGIC_INITIALIZED \<equiv> 0x495A4546"
abbreviation (input) VNPU_STATS_MAGIC_INITIALIZING :: u32 where "VNPU_STATS_MAGIC_INITIALIZING \<equiv> 0x5A494E47"
abbreviation (input) VNPU_STATS_MAGIC_UNINITIALIZED :: u32 where "VNPU_STATS_MAGIC_UNINITIALIZED \<equiv> 0"

section \<open>Creation\<close>

definition bucket_zero :: stats_bucket where
  "bucket_zero = \<lparr>sb_bucket_start_ns = 0, sb_sum_block_dim = 0, sb_launch_count = 0\<rparr>"

definition avg_zero :: stats_avg_slot where
  "avg_zero = \<lparr>sa_sum_ns = 0, sa_count = 0, sa_ts_ns = 0\<rparr>"

definition create_stats :: "vnpu_stats_shm \<Rightarrow> vnpu_stats_shm" where
  "create_stats s =
     s\<lparr>vs_avg_slot_seq := (\<lambda>i. if i < MAX_VNPU_SCHED then 0 else vs_avg_slot_seq s i),
       vs_avg_slots := (\<lambda>i j. if i < MAX_VNPU_SCHED \<and> j < VNPU_STATS_AVG_SLOTS then avg_zero else vs_avg_slots s i j),
       vs_buckets := (\<lambda>i j. if i < MAX_VNPU_SCHED \<and> j < VNPU_STATS_NUM_BUCKETS then bucket_zero else vs_buckets s i j),
       vs_magic_number := VNPU_STATS_MAGIC_INITIALIZED\<rparr>"

text \<open>The loop of \<^verbatim>\<open>vnpu_stats_do_init\<close>: per round the clock and what the other processes did; the result
  is whether this process created the content.\<close>

partial_function (option) stats_init_loop ::
    "(nat \<Rightarrow> u64) \<Rightarrow> (nat \<Rightarrow> vnpu_stats_shm \<Rightarrow> vnpu_stats_shm) \<Rightarrow> u64 \<Rightarrow> nat \<Rightarrow> vnpu_stats_shm \<Rightarrow> (bool \<times> vnpu_stats_shm) option" where
  "stats_init_loop clk others begin_ns k s =
     (let s0 = others k s in
      if vs_magic_number s0 = VNPU_STATS_MAGIC_INITIALIZED then Some (False, s0)
      else if vs_magic_number s0 = VNPU_STATS_MAGIC_INITIALIZING
      then (if clk k - begin_ns > VNPU_STATS_INIT_TIMEOUT_NS
            then stats_init_loop clk others (clk k) (Suc k) (s0\<lparr>vs_magic_number := VNPU_STATS_MAGIC_UNINITIALIZED\<rparr>)
            else stats_init_loop clk others begin_ns (Suc k) s0)
      else Some (True, create_stats s0))"

definition vnpu_stats_do_init ::
    "(nat \<Rightarrow> u64) \<Rightarrow> (nat \<Rightarrow> vnpu_stats_shm \<Rightarrow> vnpu_stats_shm) \<Rightarrow> vnpu_stats_shm \<Rightarrow> (int \<times> bool \<times> vnpu_stats_shm) option" where
  "vnpu_stats_do_init clk others s = map_option (\<lambda>r. (ENPU_SUCCESS, r)) (stats_init_loop clk others (clk 0) 1 s)"

section \<open>Launches\<close>

definition bucket_start_of :: "u64 \<Rightarrow> u64" where
  "bucket_start_of now = now - now mod VNPU_STATS_BUCKET_DURATION_NS"

definition bucket_index :: "u64 \<Rightarrow> nat" where
  "bucket_index bucket_start = unat (bucket_start div VNPU_STATS_BUCKET_DURATION_NS) mod VNPU_STATS_NUM_BUCKETS"

text \<open>The atomic operations on a bucket: the exchange that claims it for a new time, the stores of the
  process that claimed it, and the additions of the others.\<close>

definition claim_bucket :: "u64 \<Rightarrow> stats_bucket \<Rightarrow> bool \<times> stats_bucket" where
  "claim_bucket bucket_start b =
     (if sb_bucket_start_ns b \<noteq> bucket_start then (True, b\<lparr>sb_bucket_start_ns := bucket_start\<rparr>) else (False, b))"

definition store_bucket :: "u32 \<Rightarrow> u64 \<Rightarrow> stats_bucket \<Rightarrow> stats_bucket" where
  "store_bucket block_dim count b = b\<lparr>sb_sum_block_dim := ucast block_dim, sb_launch_count := count\<rparr>"

definition add_bucket :: "u32 \<Rightarrow> u64 \<Rightarrow> stats_bucket \<Rightarrow> stats_bucket" where
  "add_bucket block_dim count b =
     b\<lparr>sb_sum_block_dim := sb_sum_block_dim b + ucast block_dim, sb_launch_count := sb_launch_count b + count\<rparr>"

definition record_in_bucket :: "u64 \<Rightarrow> u32 \<Rightarrow> u64 \<Rightarrow> stats_bucket \<Rightarrow> stats_bucket" where
  "record_in_bucket bucket_start block_dim count b =
     (case claim_bucket bucket_start b of (claimed, b') \<Rightarrow>
        if claimed then store_bucket block_dim count b' else add_bucket block_dim count b')"

text \<open>The shared memory is absent while the statistics are not initialised.\<close>

definition vnpu_stats_record :: "u64 \<Rightarrow> nat \<Rightarrow> u32 \<Rightarrow> u64 \<Rightarrow> vnpu_stats_shm option \<Rightarrow> vnpu_stats_shm option" where
  "vnpu_stats_record now vnpu_id block_dim count so =
     (case so of None \<Rightarrow> None
      | Some s \<Rightarrow>
        if vnpu_id \<ge> MAX_VNPU_SCHED then so
        else let bucket_start = bucket_start_of now; idx = bucket_index bucket_start;
                 row = vs_buckets s vnpu_id
             in Some (s\<lparr>vs_buckets := (vs_buckets s)(vnpu_id :=
                  row(idx := record_in_bucket bucket_start block_dim count (row idx)))\<rparr>))"

definition add_if_recent :: "u64 \<Rightarrow> stats_bucket \<Rightarrow> u64 \<times> u64 \<Rightarrow> u64 \<times> u64" where
  "add_if_recent now b out =
     (let window_start = (if now \<ge> VNPU_STATS_WINDOW_NS then now - VNPU_STATS_WINDOW_NS else 0); bts = sb_bucket_start_ns b in
      if bts = 0 \<or> bts < window_start \<or> bts > now then out
      else (fst out + sb_sum_block_dim b, snd out + sb_launch_count b))"

definition vnpu_stats_query :: "u64 \<Rightarrow> nat \<Rightarrow> vnpu_stats_shm option \<Rightarrow> int \<times> u64 \<times> u64" where
  "vnpu_stats_query now vnpu_id so =
     (case so of None \<Rightarrow> (RT_ENPU_FAIL, 0, 0)
      | Some s \<Rightarrow>
        if vnpu_id \<ge> MAX_VNPU_SCHED then (RT_ENPU_FAIL, 0, 0)
        else (ENPU_SUCCESS, fold (\<lambda>i. add_if_recent now (vs_buckets s vnpu_id i)) [0..<VNPU_STATS_NUM_BUCKETS] (0, 0)))"

section \<open>Average durations\<close>

text \<open>The samples of a process: a record is added in front, and reading the average drops the records
  from the first stale one on. \<^verbatim>\<open>int\<close> overflow of the kernel count is undefined.\<close>

definition add_sample_record :: "bool \<Rightarrow> int \<Rightarrow> u64 \<Rightarrow> u64 \<Rightarrow> sample_record list option \<Rightarrow> int \<times> sample_record list option" where
  "add_sample_record mem_ok kernel_count sample_time timestamp head =
     (case head of None \<Rightarrow> (RT_ENPU_FAIL, None)
      | Some rs \<Rightarrow>
        if \<not> mem_ok then (RT_ENPU_FAIL, head)
        else (ENPU_SUCCESS, Some (\<lparr>sp_kernel_count = kernel_count, sp_sample_time = sample_time, sp_timestamp = timestamp\<rparr> # rs)))"

fun sum_samples :: "u64 \<Rightarrow> sample_record list \<Rightarrow> int \<Rightarrow> u64 \<Rightarrow> (int \<times> u64 \<times> sample_record list) option" where
  "sum_samples now [] total_kernel_count total_sample_time = Some (total_kernel_count, total_sample_time, [])"
| "sum_samples now (r # rs) total_kernel_count total_sample_time =
     (if now - sp_timestamp r \<le> INVALID_SAMPLE_PERIOD
      then (let n = total_kernel_count + sp_kernel_count r in
            if n < - (2 ^ 31) \<or> n \<ge> 2 ^ 31 then None
            else map_option (apsnd (apsnd (Cons r))) (sum_samples now rs n (total_sample_time + sp_sample_time r)))
      else Some (total_kernel_count, total_sample_time, []))"

definition get_ker_ave_exec_time :: "u64 \<Rightarrow> sample_record list option \<Rightarrow> (u64 \<times> u64 \<times> sample_record list option) option" where
  "get_ker_ave_exec_time now head =
     (case head of None \<Rightarrow> Some (0, 0, None)
      | Some rs \<Rightarrow> map_option (\<lambda>(n, t, rs'). (if n = 0 then 0 else t div word_of_int n, word_of_int n, Some rs')) (sum_samples now rs 0 0))"

text \<open>\<open>my_slot\<close> is the slot of the process, negative before its first publication.\<close>

definition vnpu_stats_set_local_avg_duration ::
    "u64 \<Rightarrow> nat \<Rightarrow> u64 \<Rightarrow> u64 \<Rightarrow> int \<times> vnpu_stats_shm option \<Rightarrow> int \<times> vnpu_stats_shm option" where
  "vnpu_stats_set_local_avg_duration now vnpu_id avg_duration_ns count st =
     (case st of (my_slot, None) \<Rightarrow> (my_slot, None)
      | (my_slot, Some s) \<Rightarrow>
        if vnpu_id \<ge> MAX_VNPU_SCHED \<or> count = 0 then (my_slot, Some s)
        else let seq = vs_avg_slot_seq s vnpu_id;
                 slot = (if my_slot < 0 then int (unat seq mod VNPU_STATS_AVG_SLOTS) else my_slot);
                 s1 = (if my_slot < 0 then s\<lparr>vs_avg_slot_seq := (vs_avg_slot_seq s)(vnpu_id := seq + 1)\<rparr> else s);
                 row = vs_avg_slots s1 vnpu_id
             in (slot, Some (s1\<lparr>vs_avg_slots := (vs_avg_slots s1)(vnpu_id := row(nat slot :=
                   \<lparr>sa_sum_ns = avg_duration_ns * count, sa_count = count, sa_ts_ns = now\<rparr>))\<rparr>)))"

definition add_if_fresh :: "u64 \<Rightarrow> stats_avg_slot \<Rightarrow> u64 \<times> u64 \<Rightarrow> u64 \<times> u64" where
  "add_if_fresh now slot acc =
     (let ts = sa_ts_ns slot in
      if ts = 0 \<or> now < ts \<or> now - ts > VNPU_STATS_AVG_STALE_NS then acc
      else if sa_count slot = 0 then acc
      else (fst acc + sa_sum_ns slot, snd acc + sa_count slot))"

definition vnpu_stats_get_avg_duration_ns :: "u64 \<Rightarrow> nat \<Rightarrow> vnpu_stats_shm option \<Rightarrow> int" where
  "vnpu_stats_get_avg_duration_ns now vnpu_id so =
     (case so of None \<Rightarrow> 0
      | Some s \<Rightarrow>
        if vnpu_id \<ge> MAX_VNPU_SCHED then 0
        else case fold (\<lambda>i. add_if_fresh now (vs_avg_slots s vnpu_id i)) [0..<VNPU_STATS_AVG_SLOTS] (0, 0) of
               (total_sum, total_count) \<Rightarrow> if total_count = 0 then 0 else sint (total_sum div total_count))"

section \<open>What a query reports\<close>

text \<open>A launch: when, its block dimension and its count.\<close>

record launch =
  la_time :: u64
  la_dim :: u32
  la_count :: u64

abbreviation la_start :: "launch \<Rightarrow> u64" where "la_start l \<equiv> bucket_start_of (la_time l)"
abbreviation la_index :: "launch \<Rightarrow> nat" where "la_index l \<equiv> bucket_index (la_start l)"

definition record_launches :: "nat \<Rightarrow> launch list \<Rightarrow> vnpu_stats_shm \<Rightarrow> vnpu_stats_shm option" where
  "record_launches v ls s = fold (\<lambda>l. vnpu_stats_record (la_time l) v (la_dim l) (la_count l)) ls (Some s)"

text \<open>The launches in the window whose place in the ring was not taken by a later one.\<close>

definition reported :: "u64 \<Rightarrow> launch list \<Rightarrow> launch \<Rightarrow> bool" where
  "reported now ls l \<longleftrightarrow>
     (now < VNPU_STATS_WINDOW_NS \<or> now - VNPU_STATS_WINDOW_NS \<le> la_start l)
     \<and> (\<forall>l' \<in> set ls. la_index l' = la_index l \<longrightarrow> la_start l' \<le> la_start l)"

definition bucket_of_launches :: "launch list \<Rightarrow> nat \<Rightarrow> stats_bucket" where
  "bucket_of_launches ls j =
     (let here = filter (\<lambda>l. la_index l = j) ls in
      if here = [] then bucket_zero
      else let top = la_start (last here); ours = filter (\<lambda>l. la_start l = top) ls
           in \<lparr>sb_bucket_start_ns = top, sb_sum_block_dim = (\<Sum>l\<leftarrow>ours. ucast (la_dim l)), sb_launch_count = (\<Sum>l\<leftarrow>ours. la_count l)\<rparr>)"

lemma bucket_index_less: "bucket_index b < VNPU_STATS_NUM_BUCKETS"
  by (simp add: bucket_index_def)

lemma unat_bucket_start: "unat (bucket_start_of x) = unat x div 50000000 * 50000000"
proof -
  have "x mod VNPU_STATS_BUCKET_DURATION_NS \<le> x" by (simp add: word_le_nat_alt unat_mod)
  then have "unat (bucket_start_of x) = unat x - unat (x mod VNPU_STATS_BUCKET_DURATION_NS)"
    unfolding bucket_start_of_def by (rule unat_sub)
  also have "\<dots> = unat x - unat x mod 50000000" by (simp only: unat_mod unat_numeral) simp
  finally show ?thesis by (simp only: minus_mod_eq_div_mult)
qed

lemma bucket_start_mono: "t \<le> t' \<Longrightarrow> bucket_start_of t \<le> bucket_start_of t'"
  by (simp add: word_le_nat_alt unat_bucket_start div_le_mono)

lemma bucket_start_nonzero: "50000000 \<le> t \<Longrightarrow> bucket_start_of t \<noteq> 0"
  using bucket_start_mono [of 50000000 t] by (auto simp: bucket_start_of_def)

lemma bucket_start_le: "bucket_start_of t \<le> t"
  by (simp add: word_le_nat_alt unat_bucket_start)

lemma sorted_map_last: "sorted (map f ys) \<Longrightarrow> y \<in> set ys \<Longrightarrow> f y \<le> f (last ys)"
proof (induction ys)
  case (Cons a ys)
  then show ?case using last_in_set [of ys] by (cases "ys = []") auto
qed simp

lemma last_filter_top:
  assumes "sorted (map f xs)" "x \<in> set xs" "P x"
  shows "f x \<le> f (last (filter P xs))"
  using sorted_map_last [OF sorted_filter [OF assms(1)], of x P] assms(2,3) by simp

lemma record_step:
  assumes srt: "sorted (map la_start (ls @ [l]))" and pos: "la_start l \<noteq> 0"
  shows "record_in_bucket (la_start l) (la_dim l) (la_count l) (bucket_of_launches ls (la_index l)) = bucket_of_launches (ls @ [l]) (la_index l)"
proof -
  let ?here = "filter (\<lambda>x. la_index x = la_index l) ls"
  let ?top = "la_start (last ?here)"
  have le: "la_start x \<le> la_start l" if "x \<in> set ls" for x using srt that by (auto simp: sorted_append)
  have srt': "sorted (map la_start ls)" using srt by (simp add: sorted_append)
  show ?thesis
  proof (cases "?here \<noteq> [] \<and> ?top = la_start l")
    case True
    then show ?thesis
      by (simp add: bucket_of_launches_def Let_def record_in_bucket_def claim_bucket_def add_bucket_def)
  next
    case False
    have none: "filter (\<lambda>x. la_start x = la_start l) ls = []"
    proof (rule ccontr)
      assume "filter (\<lambda>x. la_start x = la_start l) ls \<noteq> []"
      then obtain x where x: "x \<in> set ls" "la_start x = la_start l" by (auto simp: filter_empty_conv)
      then have "x \<in> set ?here" by simp
      then have "?here \<noteq> []" by (metis empty_iff list.set(1))
      moreover have "la_start l \<le> ?top" using last_filter_top [OF srt' x(1), of "\<lambda>x. la_index x = la_index l"] x(2) by simp
      moreover have "last ?here \<in> set ls" using \<open>?here \<noteq> []\<close> last_in_set [of ?here] by simp
      ultimately show False using False le by (metis order_antisym)
    qed
    have "sb_bucket_start_ns (bucket_of_launches ls (la_index l)) \<noteq> la_start l"
      using False pos by (auto simp: bucket_of_launches_def Let_def bucket_zero_def)
    then show ?thesis using none
      by (simp add: bucket_of_launches_def [of "ls @ [l]"] Let_def record_in_bucket_def claim_bucket_def store_bucket_def)
  qed
qed

lemma record_other: "j \<noteq> la_index l \<Longrightarrow> bucket_of_launches (ls @ [l]) j = bucket_of_launches ls j"
proof -
  assume j: "j \<noteq> la_index l"
  have "la_start l \<noteq> la_start (last (filter (\<lambda>x. la_index x = j) ls))" if ne: "filter (\<lambda>x. la_index x = j) ls \<noteq> []"
    using last_in_set [OF ne] j by auto
  then show ?thesis using j by (simp add: bucket_of_launches_def Let_def)
qed

lemma record_launches_buckets:
  assumes v: "v < MAX_VNPU_SCHED" and fresh: "\<forall>j. vs_buckets s v j = bucket_zero"
    and srt: "sorted (map la_start ls)" and pos: "\<forall>l \<in> set ls. la_start l \<noteq> 0"
  shows "\<exists>s'. record_launches v ls s = Some s' \<and> (\<forall>j. vs_buckets s' v j = bucket_of_launches ls j)"
  using srt pos
proof (induction ls rule: rev_induct)
  case Nil
  then show ?case using fresh by (simp add: record_launches_def bucket_of_launches_def)
next
  case (snoc l ls)
  obtain s' where s': "record_launches v ls s = Some s'" "\<forall>j. vs_buckets s' v j = bucket_of_launches ls j"
    using snoc by (auto simp: sorted_append)
  let ?b = "record_in_bucket (la_start l) (la_dim l) (la_count l) (bucket_of_launches ls (la_index l))"
  have b: "?b = bucket_of_launches (ls @ [l]) (la_index l)" using record_step [OF snoc.prems(1)] snoc.prems(2) by simp
  have "record_launches v (ls @ [l]) s = vnpu_stats_record (la_time l) v (la_dim l) (la_count l) (Some s')"
    using s'(1) by (simp add: record_launches_def)
  then show ?case using v s'(2) b record_other [of _ l ls]
    by (auto simp: vnpu_stats_record_def Let_def)
qed

definition in_window :: "u64 \<Rightarrow> u64 \<Rightarrow> bool" where
  "in_window now bts \<longleftrightarrow> \<not> bts < (if now \<ge> VNPU_STATS_WINDOW_NS then now - VNPU_STATS_WINDOW_NS else 0)"

lemma in_window_iff: "in_window now bts \<longleftrightarrow> now < VNPU_STATS_WINDOW_NS \<or> now - VNPU_STATS_WINDOW_NS \<le> bts"
  unfolding in_window_def not_less not_le [symmetric] by simp

definition counts_in :: "u64 \<Rightarrow> stats_bucket \<Rightarrow> bool" where
  "counts_in now b \<longleftrightarrow> sb_bucket_start_ns b \<noteq> 0 \<and> in_window now (sb_bucket_start_ns b) \<and> \<not> sb_bucket_start_ns b > now"

lemma add_if_recent_counts:
  "add_if_recent now b out =
     (fst out + (if counts_in now b then sb_sum_block_dim b else 0), snd out + (if counts_in now b then sb_launch_count b else 0))"
  unfolding add_if_recent_def counts_in_def in_window_def Let_def by (cases out) simp

lemma fold_add_if_recent:
  "fold (\<lambda>i. add_if_recent now (B i)) xs out =
     (fst out + (\<Sum>i\<leftarrow>xs. if counts_in now (B i) then sb_sum_block_dim (B i) else 0),
      snd out + (\<Sum>i\<leftarrow>xs. if counts_in now (B i) then sb_launch_count (B i) else 0))"
  by (induction xs arbitrary: out) (simp_all add: add_if_recent_counts add.assoc)

lemma sum_list_swap: "(\<Sum>j\<leftarrow>xs. \<Sum>l\<leftarrow>ls. f j l) = (\<Sum>l\<leftarrow>ls. \<Sum>j\<leftarrow>xs. f j l :: 'a :: comm_monoid_add)"
  by (induction ls) (simp_all add: sum_list_addf)

lemma sum_list_pick:
  fixes d :: "'a :: comm_monoid_add"
  assumes "i < n"
  shows "(\<Sum>j\<leftarrow>[0..<n]. if j = i \<and> P then d else 0) = (if P then d else 0)"
  using assms by (cases P) (simp_all add: interv_sum_list_conv_sum_set_nat)

text \<open>A bucket holds a launch and is counted exactly if the launch is reported and belongs there.\<close>

lemma counted_iff:
  assumes srt: "sorted (map la_start ls)" and pos: "\<forall>l \<in> set ls. la_start l \<noteq> 0" and past: "\<forall>l \<in> set ls. la_time l \<le> now" and l: "l \<in> set ls"
  shows "counts_in now (bucket_of_launches ls j) \<and> la_start l = sb_bucket_start_ns (bucket_of_launches ls j) \<longleftrightarrow> j = la_index l \<and> reported now ls l"
proof -
  let ?here = "filter (\<lambda>x. la_index x = j) ls"
  show ?thesis
  proof (cases "?here = []")
    case True
    then have "j \<noteq> la_index l" using l by (auto simp: filter_empty_conv)
    then show ?thesis using True by (simp add: bucket_of_launches_def counts_in_def bucket_zero_def)
  next
    case False
    let ?top = "la_start (last ?here)"
    have b: "sb_bucket_start_ns (bucket_of_launches ls j) = ?top" using False by (simp add: bucket_of_launches_def Let_def)
    have top: "last ?here \<in> set ls" "bucket_index ?top = j" using last_in_set [OF False] by simp_all
    have le: "la_start x \<le> ?top" if "x \<in> set ls" "la_index x = j" for x
      using last_filter_top [OF srt that(1), of "\<lambda>x. la_index x = j"] that(2) by simp
    have now: "?top \<noteq> 0" using top(1) pos by blast
    have "?top \<le> now" by (rule order_trans [OF bucket_start_le]) (use top(1) past in blast)
    then have c: "counts_in now (bucket_of_launches ls j) \<longleftrightarrow> in_window now ?top" unfolding counts_in_def b using now by (simp add: not_less)
    show ?thesis
    proof
      assume a: "counts_in now (bucket_of_launches ls j) \<and> la_start l = sb_bucket_start_ns (bucket_of_launches ls j)"
      then have "la_start l = ?top" by (simp add: b)
      then show "j = la_index l \<and> reported now ls l"
        using a c top(2) le unfolding reported_def in_window_iff [symmetric] by auto
    next
      assume a: "j = la_index l \<and> reported now ls l"
      then have "?top \<le> la_start l" using top unfolding reported_def by blast
      then have "la_start l = ?top" using le [OF l] a by (simp add: order_antisym)
      then show "counts_in now (bucket_of_launches ls j) \<and> la_start l = sb_bucket_start_ns (bucket_of_launches ls j)"
        using a c unfolding reported_def in_window_iff [symmetric] b by simp
    qed
  qed
qed

lemma bucket_sum:
  fixes d :: "launch \<Rightarrow> u64"
  assumes srt: "sorted (map la_start ls)" and pos: "\<forall>l \<in> set ls. la_start l \<noteq> 0" and past: "\<forall>l \<in> set ls. la_time l \<le> now"
    and B: "\<And>j. filter (\<lambda>l. la_index l = j) ls \<noteq> [] \<Longrightarrow>
              D j = (\<Sum>l\<leftarrow>filter (\<lambda>l. la_start l = sb_bucket_start_ns (bucket_of_launches ls j)) ls. d l)"
  shows "(\<Sum>j\<leftarrow>[0..<VNPU_STATS_NUM_BUCKETS]. if counts_in now (bucket_of_launches ls j) then D j else 0)
    = (\<Sum>l\<leftarrow>filter (reported now ls) ls. d l)"
proof -
  have row: "(if counts_in now (bucket_of_launches ls j) then D j else 0)
      = (\<Sum>l\<leftarrow>ls. if j = la_index l \<and> reported now ls l then d l else 0)" for j
  proof (cases "counts_in now (bucket_of_launches ls j)")
    case True
    then have "filter (\<lambda>l. la_index l = j) ls \<noteq> []" by (auto simp: counts_in_def bucket_of_launches_def bucket_zero_def Let_def)
    then have "D j = (\<Sum>l\<leftarrow>ls. if la_start l = sb_bucket_start_ns (bucket_of_launches ls j) then d l else 0)"
      using B by (simp add: sum_list_map_filter')
    also have "\<dots> = (\<Sum>l\<leftarrow>ls. if j = la_index l \<and> reported now ls l then d l else 0)"
      using counted_iff [OF srt pos past, of _ j] True by (intro arg_cong [where f = sum_list] map_cong) auto
    finally show ?thesis using True by simp
  next
    case False
    then have "(\<Sum>l\<leftarrow>ls. if j = la_index l \<and> reported now ls l then d l else 0) = (\<Sum>l\<leftarrow>ls. 0)"
      using counted_iff [OF srt pos past, of _ j] by (intro arg_cong [where f = sum_list] map_cong) auto
    then show ?thesis using False by simp
  qed
  have "(\<Sum>j\<leftarrow>[0..<VNPU_STATS_NUM_BUCKETS]. if counts_in now (bucket_of_launches ls j) then D j else 0)
    = (\<Sum>l\<leftarrow>ls. \<Sum>j\<leftarrow>[0..<VNPU_STATS_NUM_BUCKETS]. if j = la_index l \<and> reported now ls l then d l else 0)"
    unfolding row by (rule sum_list_swap)
  also have "\<dots> = (\<Sum>l\<leftarrow>ls. if reported now ls l then d l else 0)"
    using bucket_index_less by (intro arg_cong [where f = sum_list] map_cong refl sum_list_pick)
  also have "\<dots> = (\<Sum>l\<leftarrow>filter (reported now ls) ls. d l)" by (simp add: sum_list_map_filter')
  finally show ?thesis .
qed

text \<open>C26: a query reports exactly the launches of the last second whose bucket in the ring has not been
  reused: for launches recorded in the order of their times from an empty structure on (at least
  50 ms after the start of the clock), the two sums are those of the launches in the window that no
  later launch displaced. The ring covers 600 ms while the window is one second, so of two launches
  600 ms apart only the later one is reported.\<close>

theorem stats_query_exact:
  assumes "v < MAX_VNPU_SCHED" and "\<forall>j. vs_buckets s v j = bucket_zero"
    and "sorted (map la_time ls)" and "\<forall>l \<in> set ls. 50000000 \<le> la_time l \<and> la_time l \<le> now"
  shows "\<exists>s'. record_launches v ls s = Some s' \<and> vnpu_stats_query now v (Some s') =
    (ENPU_SUCCESS, (\<Sum>l\<leftarrow>filter (reported now ls) ls. ucast (la_dim l)), (\<Sum>l\<leftarrow>filter (reported now ls) ls. la_count l))"
proof -
  have srt: "sorted (map la_start ls)"
    using assms(3) by (simp add: sorted_map) (erule sorted_wrt_mono_rel [rotated], rule bucket_start_mono)
  have pos: "\<forall>l \<in> set ls. la_start l \<noteq> 0" and past: "\<forall>l \<in> set ls. la_time l \<le> now"
    using assms(4) bucket_start_nonzero by auto
  obtain s' where s': "record_launches v ls s = Some s'" "\<forall>j. vs_buckets s' v j = bucket_of_launches ls j"
    using record_launches_buckets [OF assms(1,2) srt pos] by blast
  have sums: "(\<Sum>j\<leftarrow>[0..<VNPU_STATS_NUM_BUCKETS]. if counts_in now (bucket_of_launches ls j) then sb_sum_block_dim (bucket_of_launches ls j) else 0)
      = (\<Sum>l\<leftarrow>filter (reported now ls) ls. ucast (la_dim l))"
    "(\<Sum>j\<leftarrow>[0..<VNPU_STATS_NUM_BUCKETS]. if counts_in now (bucket_of_launches ls j) then sb_launch_count (bucket_of_launches ls j) else 0)
      = (\<Sum>l\<leftarrow>filter (reported now ls) ls. la_count l)"
    by (rule bucket_sum [OF srt pos past]; simp add: bucket_of_launches_def Let_def)+
  have "vnpu_stats_query now v (Some s') = (ENPU_SUCCESS, (\<Sum>l\<leftarrow>filter (reported now ls) ls. ucast (la_dim l)), (\<Sum>l\<leftarrow>filter (reported now ls) ls. la_count l))"
    using assms(1) s'(2) sums by (simp add: vnpu_stats_query_def fold_add_if_recent del: upt.simps upt_rec_numeral)
  then show ?thesis using s'(1) by blast
qed

definition demo_stats :: vnpu_stats_shm where
  "demo_stats = \<lparr>vs_buckets = (\<lambda>_ _. bucket_zero), vs_avg_slot_seq = (\<lambda>_. 0), vs_avg_slots = (\<lambda>_ _. avg_zero),
     vs_magic_number = VNPU_STATS_MAGIC_INITIALIZED\<rparr>"

theorem stats_query_exact_witness:
  "\<exists>s'. record_launches 5 [\<lparr>la_time = 1000000000, la_dim = 8, la_count = 1\<rparr>, \<lparr>la_time = 1600000000, la_dim = 20, la_count = 1\<rparr>]
          demo_stats = Some s'
     \<and> vnpu_stats_query 1650000000 5 (Some s') = (ENPU_SUCCESS, 20, 1)"
  using stats_query_exact [of 5 demo_stats "[\<lparr>la_time = 1000000000, la_dim = 8, la_count = 1\<rparr>, \<lparr>la_time = 1600000000, la_dim = 20, la_count = 1\<rparr>]"
      1650000000]
  by (simp add: demo_stats_def reported_def bucket_index_def bucket_start_of_def)

section \<open>Two races of the statistics\<close>

text \<open>The clock is read before the lock of the samples is taken. A sample that is added in between has a
  later time stamp; its age is computed modulo 2 to the 64, counts as stale, and with it every older
  sample is dropped and the average is reported as 0.\<close>

lemma late_sample_drops_all:
  assumes "now < sp_timestamp r" and "unat (sp_timestamp r) - unat now < 2 ^ 63"
  shows "get_ker_ave_exec_time now (Some (r # rs)) = Some (0, 0, Some [])"
proof -
  have lt: "unat now < unat (sp_timestamp r)" using assms(1) by (simp add: word_less_nat_alt)
  then have "unat (now - sp_timestamp r) = unat now + 2 ^ 64 - unat (sp_timestamp r)" by (simp add: unat_sub_if')
  then have "2 ^ 63 \<le> unat (now - sp_timestamp r)" using assms(2) lt by simp
  then have "\<not> unat (now - sp_timestamp r) \<le> 1000000000" by simp
  then have "\<not> now - sp_timestamp r \<le> INVALID_SAMPLE_PERIOD" by (simp add: word_le_nat_alt)
  then show ?thesis by (simp add: get_ker_ave_exec_time_def)
qed

text \<open>Claiming a bucket and storing the first launch are two steps. A launch another process adds in
  between is overwritten.\<close>

lemma launch_between_claim_and_store_lost:
  assumes "claim_bucket start b = (True, b1)" and "claim_bucket start b1 = (claimed, b2)"
  shows "\<not> claimed \<and> store_bucket dim count (add_bucket dim' count' b2) = store_bucket dim count b1"
  using assms by (auto simp: claim_bucket_def store_bucket_def add_bucket_def split: if_splits)

end
