(* ===== verification/Capture_Stats.thy ===== *)
theory Capture_Stats
  imports Stream_Cache Vnpu_Stats
begin

text \<open>
  The utilisation statistics of captured graphs (\<^verbatim>\<open>vcann-rt/src/core_limiter.c\<close>, \<^verbatim>\<open>ascend/graph.c\<close>). A launch on a
  capturing stream is counted in a buffer of the stream; at the end of the capture the buffer moves to
  the model, and every execution of the model reports it. The block dimensions of a task group are kept
  under the handle of the group, since a group can be updated after the capture. The four hash maps
  hold pointers to buffers that no one else holds; the model stores the buffers in the maps. A body runs
  under \<^verbatim>\<open>g_stats_map_mutex\<close>. A pair of booleans gives the outcomes of \<^verbatim>\<open>calloc\<close> and of the allocation in
  \<^verbatim>\<open>hashmap_put\<close>.
\<close>

section \<open>State\<close>

abbreviation (input) MAX_GRPS_PER_CAPTURE :: nat where "MAX_GRPS_PER_CAPTURE \<equiv> 64"

record stats_buffer =
  bf_block_dim :: u64
  bf_count :: u64
  bf_grp_handles :: "u64 list"

record task_grp_state =
  tg_mode :: int
  tg_update_handle :: u64
  tg_tmp_block_dim :: u64
  tg_tmp_count :: u64

record capture_maps =
  cm_capture :: "stats_buffer hash_map option"
  cm_model :: "stats_buffer hash_map option"
  cm_grp_state :: "task_grp_state hash_map option"
  cm_group :: "u64 hash_map option"

definition empty_buffer :: stats_buffer where
  "empty_buffer = \<lparr>bf_block_dim = 0, bf_count = 0, bf_grp_handles = []\<rparr>"

definition idle_state :: task_grp_state where
  "idle_state = \<lparr>tg_mode = 0, tg_update_handle = 0, tg_tmp_block_dim = 0, tg_tmp_count = 0\<rparr>"

text \<open>Finding the buffer of a key or inserting a fresh one, and writing through the pointer found.\<close>

definition obtain_entry :: "bool \<times> bool \<Rightarrow> 'p \<Rightarrow> u64 \<Rightarrow> 'p hash_map \<Rightarrow> ('p \<times> 'p hash_map) option" where
  "obtain_entry mem fresh key m =
     (case hashmap_get_ptr m key of
        (_, Some p) \<Rightarrow> Some (p, m)
      | (_, None) \<Rightarrow>
          if \<not> fst mem then None
          else case hashmap_put (snd mem) m key fresh False of (rc, m') \<Rightarrow> if rc \<noteq> 0 then None else Some (fresh, m'))"

definition write_entry :: "u64 \<Rightarrow> 'p \<Rightarrow> 'p hash_map \<Rightarrow> 'p hash_map" where
  "write_entry key p m = snd (hashmap_put True m key p False)"

section \<open>Launches of a capture\<close>

definition capture_stats_add :: "bool \<times> bool \<Rightarrow> u64 \<Rightarrow> u32 \<Rightarrow> capture_maps \<Rightarrow> capture_maps" where
  "capture_stats_add mem stm block_dim cm =
     (case cm_capture cm of None \<Rightarrow> cm
      | Some m \<Rightarrow>
        if stm = 0 then cm
        else case obtain_entry mem empty_buffer stm m of None \<Rightarrow> cm
        | Some (buf, m') \<Rightarrow>
            cm\<lparr>cm_capture := Some (write_entry stm
              (buf\<lparr>bf_block_dim := bf_block_dim buf + ucast block_dim, bf_count := bf_count buf + 1\<rparr>) m')\<rparr>)"

fun append_groups :: "u64 list \<Rightarrow> u64 list \<Rightarrow> u64 list" where
  "append_groups [] hs = hs"
| "append_groups (g # gs) hs = (if length hs \<ge> MAX_GRPS_PER_CAPTURE then hs else append_groups gs (hs @ [g]))"

definition capture_stats_transfer_to_model :: "bool \<times> bool \<Rightarrow> u64 \<Rightarrow> u64 \<Rightarrow> capture_maps \<Rightarrow> int \<times> capture_maps" where
  "capture_stats_transfer_to_model mem stm mdl cm =
     (case (cm_capture cm, cm_model cm) of
        (Some cap, Some models) \<Rightarrow>
          if stm = 0 \<or> mdl = 0 then (-1, cm)
          else (case hashmap_get_ptr cap stm of
            (_, None) \<Rightarrow> (-1, cm)
          | (_, Some stream_buf) \<Rightarrow>
            (case obtain_entry mem empty_buffer mdl models of None \<Rightarrow> (-1, cm)
             | Some (model_buf, models') \<Rightarrow>
                 (0, cm\<lparr>cm_model := Some (write_entry mdl
                        \<lparr>bf_block_dim = bf_block_dim model_buf + bf_block_dim stream_buf,
                         bf_count = bf_count model_buf + bf_count stream_buf,
                         bf_grp_handles = append_groups (bf_grp_handles stream_buf) (bf_grp_handles model_buf)\<rparr> models'),
                      cm_capture := Some (write_entry stm empty_buffer cap)\<rparr>)))
      | _ \<Rightarrow> (-1, cm))"

section \<open>Task groups\<close>

definition task_group_map_get :: "u64 \<Rightarrow> capture_maps \<Rightarrow> u64" where
  "task_group_map_get handle cm =
     (case cm_group cm of None \<Rightarrow> 0
      | Some m \<Rightarrow> if handle = 0 then 0 else case hashmap_get_ptr m handle of (_, None) \<Rightarrow> 0 | (_, Some v) \<Rightarrow> v)"

definition model_stats_total_block_dim :: "stats_buffer \<Rightarrow> capture_maps \<Rightarrow> u64" where
  "model_stats_total_block_dim buf cm =
     fold (\<lambda>h total. total + task_group_map_get h cm) (bf_grp_handles buf) (bf_block_dim buf)"

definition model_stats_get :: "u64 \<Rightarrow> capture_maps \<Rightarrow> int \<times> (u64 \<times> u64) option" where
  "model_stats_get mdl cm =
     (case cm_model cm of None \<Rightarrow> (-1, None)
      | Some m \<Rightarrow>
        if mdl = 0 then (-1, None)
        else case hashmap_get_ptr m mdl of (_, None) \<Rightarrow> (-1, None)
        | (_, Some buf) \<Rightarrow> (0, Some (model_stats_total_block_dim buf cm, bf_count buf)))"

definition task_grp_state_get :: "u64 \<Rightarrow> capture_maps \<Rightarrow> task_grp_state option" where
  "task_grp_state_get stm cm =
     (case cm_grp_state cm of None \<Rightarrow> None | Some m \<Rightarrow> if stm = 0 then None else snd (hashmap_get_ptr m stm))"

definition write_grp_state :: "u64 \<Rightarrow> task_grp_state \<Rightarrow> capture_maps \<Rightarrow> capture_maps" where
  "write_grp_state stm st cm = cm\<lparr>cm_grp_state := map_option (write_entry stm st) (cm_grp_state cm)\<rparr>"

definition task_grp_state_reset :: "bool \<times> bool \<Rightarrow> u64 \<Rightarrow> capture_maps \<Rightarrow> capture_maps option" where
  "task_grp_state_reset mem stm cm =
     (case cm_grp_state cm of None \<Rightarrow> None
      | Some m \<Rightarrow>
        if stm = 0 then None
        else case obtain_entry mem idle_state stm m of None \<Rightarrow> None
        | Some (_, m') \<Rightarrow> Some (write_grp_state stm idle_state (cm\<lparr>cm_grp_state := Some m'\<rparr>)))"

definition task_group_map_set :: "bool \<times> bool \<Rightarrow> u64 \<Rightarrow> u64 \<Rightarrow> capture_maps \<Rightarrow> capture_maps" where
  "task_group_map_set mem handle block_dim cm =
     (case cm_group cm of None \<Rightarrow> cm
      | Some m \<Rightarrow>
        if handle = 0 then cm
        else case obtain_entry mem 0 handle m of None \<Rightarrow> cm
        | Some (_, m') \<Rightarrow> cm\<lparr>cm_group := Some (write_entry handle block_dim m')\<rparr>)"

definition task_grp_begin :: "bool \<times> bool \<Rightarrow> u64 \<Rightarrow> capture_maps \<Rightarrow> capture_maps" where
  "task_grp_begin mem stm cm =
     (case task_grp_state_reset mem stm cm of None \<Rightarrow> cm
      | Some cm' \<Rightarrow> write_grp_state stm (idle_state\<lparr>tg_mode := 1\<rparr>) cm')"

definition add_group :: "u64 \<Rightarrow> u64 \<Rightarrow> stats_buffer \<Rightarrow> stats_buffer" where
  "add_group handle tmp_count cap =
     cap\<lparr>bf_grp_handles := (if length (bf_grp_handles cap) < MAX_GRPS_PER_CAPTURE then bf_grp_handles cap @ [handle] else bf_grp_handles cap),
        bf_count := bf_count cap + tmp_count\<rparr>"

definition task_grp_end :: "bool \<times> bool \<Rightarrow> bool \<times> bool \<Rightarrow> u64 \<Rightarrow> u64 \<Rightarrow> capture_maps \<Rightarrow> capture_maps" where
  "task_grp_end mem mem' stm handle cm =
     (case task_grp_state_get stm cm of None \<Rightarrow> cm
      | Some st \<Rightarrow>
        if tg_mode st \<noteq> 1 then cm
        else let cm1 = task_group_map_set mem handle (tg_tmp_block_dim st) cm;
                 cm2 = (case cm_capture cm1 of None \<Rightarrow> cm1
                        | Some m \<Rightarrow>
                          (case obtain_entry mem' empty_buffer stm m of None \<Rightarrow> cm1
                           | Some (cap, m') \<Rightarrow> cm1\<lparr>cm_capture := Some (write_entry stm (add_group handle (tg_tmp_count st) cap) m')\<rparr>))
             in write_grp_state stm (st\<lparr>tg_mode := 0, tg_tmp_block_dim := 0, tg_tmp_count := 0\<rparr>) cm2)"

definition task_update_begin :: "bool \<times> bool \<Rightarrow> u64 \<Rightarrow> u64 \<Rightarrow> capture_maps \<Rightarrow> capture_maps" where
  "task_update_begin mem stm handle cm =
     (case task_grp_state_reset mem stm cm of None \<Rightarrow> cm
      | Some cm' \<Rightarrow> write_grp_state stm (idle_state\<lparr>tg_mode := 2, tg_update_handle := handle\<rparr>) cm')"

definition task_update_end :: "bool \<times> bool \<Rightarrow> u64 \<Rightarrow> capture_maps \<Rightarrow> capture_maps" where
  "task_update_end mem stm cm =
     (case task_grp_state_get stm cm of None \<Rightarrow> cm
      | Some st \<Rightarrow>
        if tg_mode st \<noteq> 2 then cm
        else write_grp_state stm idle_state (task_group_map_set mem (tg_update_handle st) (tg_tmp_block_dim st) cm))"

section \<open>Launches and executions\<close>

record launch_state =
  lh_maps :: capture_maps
  lh_streams :: "streams option"
  lh_stats :: "vnpu_stats_shm option"

definition launch_stats_dispatch :: "u64 \<Rightarrow> nat \<Rightarrow> bool \<times> bool \<Rightarrow> u64 \<Rightarrow> u32 \<Rightarrow> launch_state \<Rightarrow> launch_state" where
  "launch_stats_dispatch now vnpu_id mem stm block_dim s =
     (let otherwise = (if stream_is_capturing stm (lh_streams s)
           then s\<lparr>lh_maps := capture_stats_add mem stm block_dim (lh_maps s)\<rparr>
           else s\<lparr>lh_stats := vnpu_stats_record now vnpu_id block_dim 1 (lh_stats s)\<rparr>)
      in case task_grp_state_get stm (lh_maps s) of None \<Rightarrow> otherwise
         | Some st \<Rightarrow>
             if tg_mode st \<noteq> 0
             then s\<lparr>lh_maps := write_grp_state stm
                (st\<lparr>tg_tmp_block_dim := tg_tmp_block_dim st + ucast block_dim, tg_tmp_count := tg_tmp_count st + 1\<rparr>) (lh_maps s)\<rparr>
             else otherwise)"

definition record_model_execute_stats :: "u64 \<Rightarrow> nat \<Rightarrow> u64 \<Rightarrow> launch_state \<Rightarrow> launch_state" where
  "record_model_execute_stats now vnpu_id mdl s =
     (case model_stats_get mdl (lh_maps s) of
        (_, Some (block_dim, count)) \<Rightarrow>
          if count > 0 then s\<lparr>lh_stats := vnpu_stats_record now vnpu_id (ucast block_dim) count (lh_stats s)\<rparr> else s
      | (_, None) \<Rightarrow> s)"


section \<open>The maps as functions\<close>

definition entry :: "'p hash_map \<Rightarrow> u64 \<Rightarrow> 'p option" where
  "entry m key = map_option mv_ptr (hash_lookup m key)"

lemma get_entry: "snd (hashmap_get_ptr m key) = entry m key" "hashmap_get_ptr m key = (if entry m key = None then -1 else 0, entry m key)"
  by (auto simp: hash_get entry_def split: option.split)

lemma write_entry_ok:
  assumes "hash_inv m" and "key \<noteq> 0"
  shows "hash_inv (write_entry key p m)" and "entry (write_entry key p m) = (entry m)(key \<mapsto> p)"
  using hash_put_ok [OF assms, of True p False] by (auto simp: write_entry_def entry_def fun_eq_iff)

definition entry_or :: "'p \<Rightarrow> 'p hash_map \<Rightarrow> u64 \<Rightarrow> 'p" where
  "entry_or fresh m key = (case entry m key of None \<Rightarrow> fresh | Some p \<Rightarrow> p)"

lemma obtain_entry_ok:
  assumes "hash_inv m" and "key \<noteq> 0"
  obtains m' where "obtain_entry (True, True) fresh key m = Some (entry_or fresh m key, m')" and "hash_inv m'"
    and "entry m' = (entry m)(key \<mapsto> entry_or fresh m key)"
proof (cases "entry m key")
  case None
  note p = hash_put_ok [OF assms, of True fresh False]
  obtain m' where m': "hashmap_put True m key fresh False = (0, m')" using p(1) by (cases "hashmap_put True m key fresh False") simp
  have "entry m' = (entry m)(key \<mapsto> fresh)" using p(3) m' by (auto simp: entry_def fun_eq_iff)
  then show ?thesis using that [of m'] None m' p(2) by (simp add: obtain_entry_def get_entry(2) entry_or_def)
next
  case (Some p)
  then show ?thesis using that [of m] assms by (auto simp: obtain_entry_def get_entry(2) entry_or_def fun_upd_idem)
qed

text \<open>All maps exist and are well-formed.\<close>

definition maps_ok :: "capture_maps \<Rightarrow> bool" where
  "maps_ok cm \<longleftrightarrow> (\<exists>cap models states groups. cm = \<lparr>cm_capture = Some cap, cm_model = Some models, cm_grp_state = Some states, cm_group = Some groups\<rparr>
     \<and> hash_inv cap \<and> hash_inv models \<and> hash_inv states \<and> hash_inv groups)"

definition captured :: "capture_maps \<Rightarrow> u64 \<Rightarrow> stats_buffer option" where
  "captured cm stm = (case cm_capture cm of None \<Rightarrow> None | Some m \<Rightarrow> entry m stm)"

definition modelled :: "capture_maps \<Rightarrow> u64 \<Rightarrow> stats_buffer option" where
  "modelled cm mdl = (case cm_model cm of None \<Rightarrow> None | Some m \<Rightarrow> entry m mdl)"

definition grouped :: "capture_maps \<Rightarrow> u64 \<Rightarrow> task_grp_state option" where
  "grouped cm stm = (case cm_grp_state cm of None \<Rightarrow> None | Some m \<Rightarrow> entry m stm)"

definition group_dim :: "capture_maps \<Rightarrow> u64 \<Rightarrow> u64 option" where
  "group_dim cm h = (case cm_group cm of None \<Rightarrow> None | Some m \<Rightarrow> entry m h)"

lemmas view_defs = captured_def modelled_def grouped_def group_dim_def

definition buf_of :: "stats_buffer option \<Rightarrow> stats_buffer" where
  "buf_of b = (case b of None \<Rightarrow> empty_buffer | Some p \<Rightarrow> p)"

lemma maps_okE:
  assumes "maps_ok cm"
  obtains cap models states groups where "cm = \<lparr>cm_capture = Some cap, cm_model = Some models, cm_grp_state = Some states, cm_group = Some groups\<rparr>"
    "hash_inv cap" "hash_inv models" "hash_inv states" "hash_inv groups"
  using assms by (auto simp: maps_ok_def)

named_theorems view_eqs

lemma view_add [view_eqs]:
  fixes d :: u32
  assumes "maps_ok cm" and "stm \<noteq> 0"
  defines "cm' \<equiv> capture_stats_add (True, True) stm d cm" and "b \<equiv> buf_of (captured cm stm)"
  shows "maps_ok cm'" "captured cm' = (captured cm)(stm \<mapsto> b\<lparr>bf_block_dim := bf_block_dim b + ucast d, bf_count := bf_count b + 1\<rparr>)"
    "modelled cm' = modelled cm" "grouped cm' = grouped cm" "group_dim cm' = group_dim cm"
proof -
  obtain cap models states groups where cm: "cm = \<lparr>cm_capture = Some cap, cm_model = Some models, cm_grp_state = Some states, cm_group = Some groups\<rparr>"
    and inv: "hash_inv cap" "hash_inv models" "hash_inv states" "hash_inv groups" using maps_okE [OF assms(1)] .
  obtain m' where o: "obtain_entry (True, True) empty_buffer stm cap = Some (entry_or empty_buffer cap stm, m')" and m': "hash_inv m'"
    and e: "entry m' = (entry cap)(stm \<mapsto> entry_or empty_buffer cap stm)" using obtain_entry_ok [OF inv(1) assms(2)] .
  have b: "b = entry_or empty_buffer cap stm" by (simp add: b_def buf_of_def captured_def cm entry_or_def)
  note w = write_entry_ok [OF m' assms(2), of "b\<lparr>bf_block_dim := bf_block_dim b + ucast d, bf_count := bf_count b + 1\<rparr>"]
  have cm': "cm' = cm\<lparr>cm_capture := Some (write_entry stm (b\<lparr>bf_block_dim := bf_block_dim b + ucast d, bf_count := bf_count b + 1\<rparr>) m')\<rparr>"
    using assms(2) o by (simp add: cm'_def capture_stats_add_def cm b)
  show "maps_ok cm'" using w(1) inv by (simp add: cm' cm maps_ok_def)
  show "captured cm' = (captured cm)(stm \<mapsto> b\<lparr>bf_block_dim := bf_block_dim b + ucast d, bf_count := bf_count b + 1\<rparr>)"
    using w(2) e by (auto simp: cm' cm captured_def fun_eq_iff)
  show "modelled cm' = modelled cm" "grouped cm' = grouped cm" "group_dim cm' = group_dim cm"
    by (simp_all add: cm' view_defs fun_eq_iff)
qed

lemma view_transfer:
  assumes "maps_ok cm" and "stm \<noteq> 0" and "mdl \<noteq> 0" and "captured cm stm = Some sb"
  defines "b \<equiv> buf_of (modelled cm mdl)"
  obtains cm' where "capture_stats_transfer_to_model (True, True) stm mdl cm = (0, cm')" and "maps_ok cm'"
    and "captured cm' = (captured cm)(stm \<mapsto> empty_buffer)"
    and "modelled cm' = (modelled cm)(mdl \<mapsto> \<lparr>bf_block_dim = bf_block_dim b + bf_block_dim sb, bf_count = bf_count b + bf_count sb,
           bf_grp_handles = append_groups (bf_grp_handles sb) (bf_grp_handles b)\<rparr>)"
    and "grouped cm' = grouped cm" and "group_dim cm' = group_dim cm"
proof -
  obtain cap models states groups where cm: "cm = \<lparr>cm_capture = Some cap, cm_model = Some models, cm_grp_state = Some states, cm_group = Some groups\<rparr>"
    and inv: "hash_inv cap" "hash_inv models" "hash_inv states" "hash_inv groups" using maps_okE [OF assms(1)] .
  obtain m' where o: "obtain_entry (True, True) empty_buffer mdl models = Some (entry_or empty_buffer models mdl, m')" and m': "hash_inv m'"
    and e: "entry m' = (entry models)(mdl \<mapsto> entry_or empty_buffer models mdl)" using obtain_entry_ok [OF inv(2) assms(3)] .
  have b: "entry_or empty_buffer models mdl = b" by (simp add: b_def buf_of_def modelled_def cm entry_or_def)
  let ?nb = "\<lparr>bf_block_dim = bf_block_dim b + bf_block_dim sb, bf_count = bf_count b + bf_count sb,
           bf_grp_handles = append_groups (bf_grp_handles sb) (bf_grp_handles b)\<rparr>"
  let ?cm' = "cm\<lparr>cm_model := Some (write_entry mdl ?nb m'), cm_capture := Some (write_entry stm empty_buffer cap)\<rparr>"
  note w = write_entry_ok [OF m' assms(3), of ?nb] and w' = write_entry_ok [OF inv(1) assms(2), of empty_buffer]
  have sb: "entry cap stm = Some sb" using assms(4) by (simp add: captured_def cm)
  have t: "capture_stats_transfer_to_model (True, True) stm mdl cm = (0, ?cm')"
    using assms(2,3) o b sb by (simp add: capture_stats_transfer_to_model_def cm get_entry(2))
  show ?thesis
  proof (rule that [OF t])
    show "maps_ok ?cm'" using w(1) w'(1) inv by (simp add: cm maps_ok_def)
  qed (use w(2) w'(2) e in \<open>auto simp: cm view_defs fun_eq_iff\<close>)
qed

lemma view_state [view_eqs]:
  fixes st :: task_grp_state
  assumes "maps_ok cm" and "stm \<noteq> 0"
  defines "cm' \<equiv> write_grp_state stm st cm"
  shows "maps_ok cm'" "captured cm' = captured cm" "modelled cm' = modelled cm" "grouped cm' = (grouped cm)(stm \<mapsto> st)" "group_dim cm' = group_dim cm"
proof -
  obtain cap models states groups where cm: "cm = \<lparr>cm_capture = Some cap, cm_model = Some models, cm_grp_state = Some states, cm_group = Some groups\<rparr>"
    and inv: "hash_inv cap" "hash_inv models" "hash_inv states" "hash_inv groups" using maps_okE [OF assms(1)] .
  note w = write_entry_ok [OF inv(3) assms(2), of st]
  show "maps_ok cm'" using w(1) inv by (simp add: cm cm'_def write_grp_state_def maps_ok_def)
  show "captured cm' = captured cm" "modelled cm' = modelled cm" "grouped cm' = (grouped cm)(stm \<mapsto> st)" "group_dim cm' = group_dim cm"
    using w(2) by (auto simp: cm cm'_def write_grp_state_def view_defs fun_eq_iff)
qed

lemma view_reset:
  assumes "maps_ok cm" and "stm \<noteq> 0"
  obtains cm' where "task_grp_state_reset (True, True) stm cm = Some cm'" and "maps_ok cm'" and "captured cm' = captured cm"
    and "modelled cm' = modelled cm" and "grouped cm' = (grouped cm)(stm \<mapsto> idle_state)" and "group_dim cm' = group_dim cm"
proof -
  obtain cap models states groups where cm: "cm = \<lparr>cm_capture = Some cap, cm_model = Some models, cm_grp_state = Some states, cm_group = Some groups\<rparr>"
    and inv: "hash_inv cap" "hash_inv models" "hash_inv states" "hash_inv groups" using maps_okE [OF assms(1)] .
  obtain m' where o: "obtain_entry (True, True) idle_state stm states = Some (entry_or idle_state states stm, m')" and m': "hash_inv m'"
    and e: "entry m' = (entry states)(stm \<mapsto> entry_or idle_state states stm)" using obtain_entry_ok [OF inv(3) assms(2)] .
  let ?cm1 = "cm\<lparr>cm_grp_state := Some m'\<rparr>"
  have "maps_ok ?cm1" using m' inv by (simp add: cm maps_ok_def)
  note v = view_state [OF this assms(2), of idle_state]
  have "task_grp_state_reset (True, True) stm cm = Some (write_grp_state stm idle_state ?cm1)"
    using assms(2) o by (simp add: task_grp_state_reset_def cm)
  then show ?thesis by (rule that) (use v e in \<open>auto simp: cm view_defs fun_eq_iff\<close>)
qed

lemma view_group_set [view_eqs]:
  fixes h d :: u64
  assumes "maps_ok cm"
  defines "cm' \<equiv> task_group_map_set (True, True) h d cm"
  shows "maps_ok cm'" "captured cm' = captured cm" "modelled cm' = modelled cm" "grouped cm' = grouped cm"
    "group_dim cm' = (if h = 0 then group_dim cm else (group_dim cm)(h \<mapsto> d))"
proof -
  obtain cap models states groups where cm: "cm = \<lparr>cm_capture = Some cap, cm_model = Some models, cm_grp_state = Some states, cm_group = Some groups\<rparr>"
    and inv: "hash_inv cap" "hash_inv models" "hash_inv states" "hash_inv groups" using maps_okE [OF assms(1)] .
  have "maps_ok cm' \<and> captured cm' = captured cm \<and> modelled cm' = modelled cm \<and> grouped cm' = grouped cm
    \<and> group_dim cm' = (if h = 0 then group_dim cm else (group_dim cm)(h \<mapsto> d))"
  proof (cases "h = 0")
    case True
    then show ?thesis using assms(1) by (simp add: cm'_def task_group_map_set_def split: option.split)
  next
    case False
    obtain m' where o: "obtain_entry (True, True) 0 h groups = Some (entry_or 0 groups h, m')" and m': "hash_inv m'"
      and e: "entry m' = (entry groups)(h \<mapsto> entry_or 0 groups h)" using obtain_entry_ok [OF inv(4) False] .
    note w = write_entry_ok [OF m' False, of d]
    have cm': "cm' = cm\<lparr>cm_group := Some (write_entry h d m')\<rparr>" using False o by (simp add: cm'_def task_group_map_set_def cm)
    have "maps_ok cm'" using w(1) inv by (simp add: cm' cm maps_ok_def)
    then show ?thesis using w(2) e False by (auto simp: cm' cm view_defs fun_eq_iff)
  qed
  then show "maps_ok cm'" "captured cm' = captured cm" "modelled cm' = modelled cm" "grouped cm' = grouped cm"
    "group_dim cm' = (if h = 0 then group_dim cm else (group_dim cm)(h \<mapsto> d))" by auto
qed

lemma view_begin [view_eqs]:
  assumes "maps_ok cm" and "stm \<noteq> 0"
  shows "maps_ok (task_grp_begin (True, True) stm cm)" "captured (task_grp_begin (True, True) stm cm) = captured cm"
    "modelled (task_grp_begin (True, True) stm cm) = modelled cm" "group_dim (task_grp_begin (True, True) stm cm) = group_dim cm"
    "grouped (task_grp_begin (True, True) stm cm) = (grouped cm)(stm \<mapsto> idle_state\<lparr>tg_mode := 1\<rparr>)"
  by (rule view_reset [OF assms], simp add: task_grp_begin_def view_state [OF _ assms(2)])+

lemma view_update_begin [view_eqs]:
  assumes "maps_ok cm" and "stm \<noteq> 0"
  shows "maps_ok (task_update_begin (True, True) stm h cm)" "captured (task_update_begin (True, True) stm h cm) = captured cm"
    "modelled (task_update_begin (True, True) stm h cm) = modelled cm" "group_dim (task_update_begin (True, True) stm h cm) = group_dim cm"
    "grouped (task_update_begin (True, True) stm h cm) = (grouped cm)(stm \<mapsto> idle_state\<lparr>tg_mode := 2, tg_update_handle := h\<rparr>)"
  by (rule view_reset [OF assms], simp add: task_update_begin_def view_state [OF _ assms(2)])+

lemma grp_state_get: "maps_ok cm \<Longrightarrow> stm \<noteq> 0 \<Longrightarrow> task_grp_state_get stm cm = grouped cm stm"
  by (auto simp: task_grp_state_get_def grouped_def get_entry maps_ok_def)

lemma view_end [view_eqs]:
  fixes h :: u64
  assumes "maps_ok cm" and "stm \<noteq> 0" and "grouped cm stm = Some st" and "tg_mode st = 1"
  defines "cm' \<equiv> task_grp_end (True, True) (True, True) stm h cm" and "b \<equiv> buf_of (captured cm stm)"
  shows "maps_ok cm'" "captured cm' = (captured cm)(stm \<mapsto> add_group h (tg_tmp_count st) b)" "modelled cm' = modelled cm"
    "grouped cm' = (grouped cm)(stm \<mapsto> st\<lparr>tg_mode := 0, tg_tmp_block_dim := 0, tg_tmp_count := 0\<rparr>)"
    "group_dim cm' = (if h = 0 then group_dim cm else (group_dim cm)(h \<mapsto> tg_tmp_block_dim st))"
proof -
  define cm1 where "cm1 = task_group_map_set (True, True) h (tg_tmp_block_dim st) cm"
  note g = view_group_set [OF assms(1), of h "tg_tmp_block_dim st", folded cm1_def]
  obtain cap models states groups where cm: "cm1 = \<lparr>cm_capture = Some cap, cm_model = Some models, cm_grp_state = Some states, cm_group = Some groups\<rparr>"
    and inv: "hash_inv cap" "hash_inv models" "hash_inv states" "hash_inv groups" using maps_okE [OF g(1)] .
  obtain m' where o: "obtain_entry (True, True) empty_buffer stm cap = Some (entry_or empty_buffer cap stm, m')" and m': "hash_inv m'"
    and e: "entry m' = (entry cap)(stm \<mapsto> entry_or empty_buffer cap stm)" using obtain_entry_ok [OF inv(1) assms(2)] .
  have b: "entry_or empty_buffer cap stm = b" unfolding b_def g(2) [symmetric] by (simp add: buf_of_def captured_def cm entry_or_def)
  let ?cm2 = "cm1\<lparr>cm_capture := Some (write_entry stm (add_group h (tg_tmp_count st) b) m')\<rparr>"
  note w = write_entry_ok [OF m' assms(2), of "add_group h (tg_tmp_count st) b"]
  have ok: "maps_ok ?cm2" using w(1) inv by (simp add: cm maps_ok_def)
  have v2: "captured ?cm2 = (captured cm1)(stm \<mapsto> add_group h (tg_tmp_count st) b)" "modelled ?cm2 = modelled cm1"
      "grouped ?cm2 = grouped cm1" "group_dim ?cm2 = group_dim cm1"
    using w(2) e by (auto simp: cm view_defs fun_eq_iff)
  have cm': "cm' = write_grp_state stm (st\<lparr>tg_mode := 0, tg_tmp_block_dim := 0, tg_tmp_count := 0\<rparr>) ?cm2"
    using assms(3,4) o b by (simp add: cm'_def task_grp_end_def grp_state_get [OF assms(1,2)] Let_def cm flip: cm1_def)
  note v = view_state [OF ok assms(2), of "st\<lparr>tg_mode := 0, tg_tmp_block_dim := 0, tg_tmp_count := 0\<rparr>", folded cm']
  show "maps_ok cm'" by (rule v(1))
  show "captured cm' = (captured cm)(stm \<mapsto> add_group h (tg_tmp_count st) b)" "modelled cm' = modelled cm"
    "grouped cm' = (grouped cm)(stm \<mapsto> st\<lparr>tg_mode := 0, tg_tmp_block_dim := 0, tg_tmp_count := 0\<rparr>)"
    "group_dim cm' = (if h = 0 then group_dim cm else (group_dim cm)(h \<mapsto> tg_tmp_block_dim st))"
    using v(2-) v2 g(2-) by simp_all
qed

lemma view_update_end [view_eqs]:
  assumes "maps_ok cm" and "stm \<noteq> 0" and "grouped cm stm = Some st" and "tg_mode st = 2"
  defines "cm' \<equiv> task_update_end (True, True) stm cm"
  shows "maps_ok cm'" "captured cm' = captured cm" "modelled cm' = modelled cm" "grouped cm' = (grouped cm)(stm \<mapsto> idle_state)"
    "group_dim cm' = (if tg_update_handle st = 0 then group_dim cm else (group_dim cm)(tg_update_handle st \<mapsto> tg_tmp_block_dim st))"
  using assms(3,4) view_group_set [OF assms(1), of "tg_update_handle st" "tg_tmp_block_dim st"] view_state [OF _ assms(2)]
  by (simp_all add: cm'_def task_update_end_def grp_state_get [OF assms(1,2)])

section \<open>A captured graph\<close>

text \<open>What the hooks of one stream see during a capture: a launch, or a task group with its launches. After the
  capture a group can be updated with other launches.\<close>

datatype segment = Plain u32 | Group u64 "u32 list"

definition launches :: "u64 \<Rightarrow> nat \<Rightarrow> u64 \<Rightarrow> u32 list \<Rightarrow> launch_state \<Rightarrow> launch_state" where
  "launches now vnpu_id stm ds s = fold (launch_stats_dispatch now vnpu_id (True, True) stm) ds s"

definition on_maps :: "(capture_maps \<Rightarrow> capture_maps) \<Rightarrow> launch_state \<Rightarrow> launch_state" where
  "on_maps f s = s\<lparr>lh_maps := f (lh_maps s)\<rparr>"

fun run_segment :: "u64 \<Rightarrow> nat \<Rightarrow> u64 \<Rightarrow> segment \<Rightarrow> launch_state \<Rightarrow> launch_state" where
  "run_segment now vnpu_id stm (Plain d) s = launch_stats_dispatch now vnpu_id (True, True) stm d s"
| "run_segment now vnpu_id stm (Group h ds) s =
     on_maps (task_grp_end (True, True) (True, True) stm h)
       (launches now vnpu_id stm ds (on_maps (task_grp_begin (True, True) stm) s))"

fun run_update :: "u64 \<Rightarrow> nat \<Rightarrow> u64 \<Rightarrow> u64 \<times> u32 list \<Rightarrow> launch_state \<Rightarrow> launch_state" where
  "run_update now vnpu_id stm (h, ds) s =
     on_maps (task_update_end (True, True) stm)
       (launches now vnpu_id stm ds (on_maps (task_update_begin (True, True) stm h) s))"

text \<open>What the statistics should say.\<close>

definition dims :: "u32 list \<Rightarrow> u64" where
  "dims ds = (\<Sum>d\<leftarrow>ds. ucast d)"

fun plain_dims :: "segment \<Rightarrow> u64" where
  "plain_dims (Plain d) = ucast d"
| "plain_dims (Group h ds) = 0"

fun seg_count :: "segment \<Rightarrow> nat" where
  "seg_count (Plain d) = 1"
| "seg_count (Group h ds) = length ds"

fun seg_groups :: "segment \<Rightarrow> (u64 \<times> u32 list) list" where
  "seg_groups (Plain d) = []"
| "seg_groups (Group h ds) = [(h, ds)]"

definition all_groups :: "segment list \<Rightarrow> (u64 \<times> u32 list) list" where
  "all_groups segs = concat (map seg_groups segs)"

text \<open>The launches last given for a group.\<close>

definition latest :: "(u64 \<times> u32 list) list \<Rightarrow> u64 \<Rightarrow> u64" where
  "latest gs h = (case map_of (rev gs) h of None \<Rightarrow> 0 | Some ds \<Rightarrow> dims ds)"

definition idle :: "capture_maps \<Rightarrow> u64 \<Rightarrow> bool" where
  "idle cm stm \<longleftrightarrow> (case grouped cm stm of None \<Rightarrow> True | Some st \<Rightarrow> tg_mode st = 0)"

lemma dispatch_in_group:
  assumes "maps_ok (lh_maps s)" and "stm \<noteq> 0" and "grouped (lh_maps s) stm = Some st" and "tg_mode st \<noteq> 0"
  shows "launch_stats_dispatch now v mem stm d s = on_maps (write_grp_state stm
      (st\<lparr>tg_tmp_block_dim := tg_tmp_block_dim st + ucast d, tg_tmp_count := tg_tmp_count st + 1\<rparr>)) s"
  using assms by (simp add: launch_stats_dispatch_def grp_state_get on_maps_def)

lemma launches_in_group:
  fixes now :: u64 and v :: nat and ds :: "u32 list"
  assumes "maps_ok (lh_maps s)" and "stm \<noteq> 0" and "grouped (lh_maps s) stm = Some st" and "tg_mode st \<noteq> 0"
  defines "s' \<equiv> launches now v stm ds s"
  shows "maps_ok (lh_maps s') \<and> lh_streams s' = lh_streams s \<and> lh_stats s' = lh_stats s
    \<and> captured (lh_maps s') = captured (lh_maps s) \<and> modelled (lh_maps s') = modelled (lh_maps s) \<and> group_dim (lh_maps s') = group_dim (lh_maps s)
    \<and> grouped (lh_maps s') = (grouped (lh_maps s))(stm \<mapsto> st\<lparr>tg_tmp_block_dim := tg_tmp_block_dim st + dims ds, tg_tmp_count := tg_tmp_count st + of_nat (length ds)\<rparr>)"
  unfolding s'_def using assms(1,3,4)
proof (induction ds arbitrary: s st)
  case Nil
  then show ?case by (simp add: launches_def dims_def fun_upd_idem)
next
  case (Cons d ds)
  let ?st = "st\<lparr>tg_tmp_block_dim := tg_tmp_block_dim st + ucast d, tg_tmp_count := tg_tmp_count st + 1\<rparr>"
  let ?s = "on_maps (write_grp_state stm ?st) s"
  note v = view_state [OF Cons.prems(1) assms(2), of ?st]
  have l: "launches now v stm (d # ds) s = launches now v stm ds ?s"
    using dispatch_in_group [OF Cons.prems(1) assms(2) Cons.prems(2,3)] by (simp add: launches_def)
  have f: "lh_maps ?s = write_grp_state stm ?st (lh_maps s)" "lh_streams ?s = lh_streams s" "lh_stats ?s = lh_stats s" by (simp_all add: on_maps_def)
  have "maps_ok (lh_maps ?s)" "grouped (lh_maps ?s) stm = Some ?st" "tg_mode ?st \<noteq> 0" using v(1,4) Cons.prems(3) by (simp_all add: f)
  note ih = Cons.IH [OF this]
  show ?case unfolding l using ih v(2-) by (simp add: f dims_def add.assoc fun_eq_iff)
qed

definition set_groups :: "(u64 \<times> u32 list) list \<Rightarrow> (u64 \<rightharpoonup> u64) \<Rightarrow> (u64 \<rightharpoonup> u64)" where
  "set_groups gs g = fold (\<lambda>(h, ds) g. if h = 0 then g else g(h \<mapsto> dims ds)) gs g"

lemma set_groups_lookup:
  assumes "h \<noteq> 0"
  shows "set_groups gs g h = (case map_of (rev gs) h of None \<Rightarrow> g h | Some ds \<Rightarrow> Some (dims ds))"
proof (induction gs rule: rev_induct)
  case (snoc x gs)
  obtain h' ds where x: "x = (h', ds)" by fastforce
  then show ?case using snoc assms by (cases "h' = h") (auto simp: set_groups_def split: option.split)
qed (simp add: set_groups_def)

lemma run_group_view:
  fixes h now :: u64 and v :: nat and ds :: "u32 list"
  assumes "maps_ok (lh_maps s)" and "stm \<noteq> 0"
  defines "s' \<equiv> run_segment now v stm (Group h ds) s" and "b \<equiv> buf_of (captured (lh_maps s) stm)"
  shows "maps_ok (lh_maps s')" "lh_streams s' = lh_streams s" "lh_stats s' = lh_stats s" "modelled (lh_maps s') = modelled (lh_maps s)"
    "captured (lh_maps s') stm = Some (add_group h (of_nat (length ds)) b)" "idle (lh_maps s') stm"
    "group_dim (lh_maps s') = set_groups [(h, ds)] (group_dim (lh_maps s))"
proof -
  let ?s1 = "on_maps (task_grp_begin (True, True) stm) s"
  let ?s2 = "launches now v stm ds ?s1"
  note v1 = view_begin [OF assms(1,2)]
  have f: "lh_maps ?s1 = task_grp_begin (True, True) stm (lh_maps s)" "lh_streams ?s1 = lh_streams s" "lh_stats ?s1 = lh_stats s"
    by (simp_all add: on_maps_def)
  let ?st = "idle_state\<lparr>tg_mode := 1, tg_tmp_block_dim := dims ds, tg_tmp_count := of_nat (length ds)\<rparr>"
  have v2: "maps_ok (lh_maps ?s2) \<and> lh_streams ?s2 = lh_streams ?s1 \<and> lh_stats ?s2 = lh_stats ?s1
    \<and> captured (lh_maps ?s2) = captured (lh_maps ?s1) \<and> modelled (lh_maps ?s2) = modelled (lh_maps ?s1) \<and> group_dim (lh_maps ?s2) = group_dim (lh_maps ?s1)
    \<and> grouped (lh_maps ?s2) = (grouped (lh_maps ?s1))(stm \<mapsto> ?st)"
    using launches_in_group [of ?s1 stm "idle_state\<lparr>tg_mode := 1\<rparr>" now v ds] v1 assms(2) by (simp add: f idle_state_def)
  have ok2: "maps_ok (lh_maps ?s2)" and g2: "grouped (lh_maps ?s2) stm = Some ?st" and m: "tg_mode ?st = 1" using v2 by simp_all
  note v3 = view_end [OF ok2 assms(2) g2 m, of h]
  have s': "lh_maps s' = task_grp_end (True, True) (True, True) stm h (lh_maps ?s2)" "lh_streams s' = lh_streams ?s2" "lh_stats s' = lh_stats ?s2"
    by (simp_all add: s'_def on_maps_def)
  show "maps_ok (lh_maps s')" using v3(1) by (simp only: s')
  show "lh_streams s' = lh_streams s" "lh_stats s' = lh_stats s" using v2 f(2,3) by (simp_all add: s'(2,3))
  show "modelled (lh_maps s') = modelled (lh_maps s)" using v3(3) v2 v1 by (simp add: s'(1) f(1))
  show "captured (lh_maps s') stm = Some (add_group h (of_nat (length ds)) b)" using v3(2) v2 v1 by (simp add: s'(1) f(1) b_def)
  show "idle (lh_maps s') stm" using v3(4) by (simp add: s'(1) idle_def)
  show "group_dim (lh_maps s') = set_groups [(h, ds)] (group_dim (lh_maps s))" using v3(5) v2 v1 by (simp add: s'(1) f(1) set_groups_def)
qed

lemma run_plain_view:
  fixes d :: u32 and now :: u64 and v :: nat
  assumes "maps_ok (lh_maps s)" and "stm \<noteq> 0" and "stream_is_capturing stm (lh_streams s)" and "idle (lh_maps s) stm"
  defines "s' \<equiv> run_segment now v stm (Plain d) s" and "b \<equiv> buf_of (captured (lh_maps s) stm)"
  shows "maps_ok (lh_maps s')" "lh_streams s' = lh_streams s" "lh_stats s' = lh_stats s" "modelled (lh_maps s') = modelled (lh_maps s)"
    "captured (lh_maps s') stm = Some (b\<lparr>bf_block_dim := bf_block_dim b + ucast d, bf_count := bf_count b + 1\<rparr>)" "idle (lh_maps s') stm"
    "group_dim (lh_maps s') = group_dim (lh_maps s)"
proof -
  have s': "s' = on_maps (capture_stats_add (True, True) stm d) s"
    using assms(3,4) by (auto simp: s'_def launch_stats_dispatch_def grp_state_get [OF assms(1,2)] idle_def on_maps_def split: option.splits)
  note v = view_add [OF assms(1,2), of d]
  show "maps_ok (lh_maps s')" "lh_streams s' = lh_streams s" "lh_stats s' = lh_stats s" "modelled (lh_maps s') = modelled (lh_maps s)"
    "captured (lh_maps s') stm = Some (b\<lparr>bf_block_dim := bf_block_dim b + ucast d, bf_count := bf_count b + 1\<rparr>)" "idle (lh_maps s') stm"
    "group_dim (lh_maps s') = group_dim (lh_maps s)"
    using v assms(4) by (simp_all add: s' on_maps_def b_def idle_def)
qed

lemma run_segments_view:
  fixes now :: u64 and v :: nat
  assumes "maps_ok (lh_maps s)" and "stm \<noteq> 0" and "stream_is_capturing stm (lh_streams s)" and "idle (lh_maps s) stm"
    and "length (bf_grp_handles (buf_of (captured (lh_maps s) stm))) + length (all_groups segs) \<le> MAX_GRPS_PER_CAPTURE"
  defines "s' \<equiv> fold (run_segment now v stm) segs s"
  shows "maps_ok (lh_maps s') \<and> lh_stats s' = lh_stats s \<and> modelled (lh_maps s') = modelled (lh_maps s) \<and> (segs \<noteq> [] \<longrightarrow> captured (lh_maps s') stm \<noteq> None)
    \<and> buf_of (captured (lh_maps s') stm) = \<lparr>bf_block_dim = bf_block_dim (buf_of (captured (lh_maps s) stm)) + (\<Sum>x\<leftarrow>segs. plain_dims x),
         bf_count = bf_count (buf_of (captured (lh_maps s) stm)) + of_nat (\<Sum>x\<leftarrow>segs. seg_count x),
         bf_grp_handles = bf_grp_handles (buf_of (captured (lh_maps s) stm)) @ map fst (all_groups segs)\<rparr>
    \<and> group_dim (lh_maps s') = set_groups (all_groups segs) (group_dim (lh_maps s))"
  unfolding s'_def using assms(1,3-5)
proof (induction segs arbitrary: s)
  case Nil
  then show ?case by (simp add: all_groups_def set_groups_def)
next
  case (Cons x segs)
  let ?b = "buf_of (captured (lh_maps s) stm)" and ?s1 = "run_segment now v stm x s"
  have st: "maps_ok (lh_maps ?s1)" "lh_streams ?s1 = lh_streams s" "lh_stats ?s1 = lh_stats s" "modelled (lh_maps ?s1) = modelled (lh_maps s)"
      "idle (lh_maps ?s1) stm" "group_dim (lh_maps ?s1) = set_groups (seg_groups x) (group_dim (lh_maps s))"
      "captured (lh_maps ?s1) stm = Some \<lparr>bf_block_dim = bf_block_dim ?b + plain_dims x, bf_count = bf_count ?b + of_nat (seg_count x),
          bf_grp_handles = bf_grp_handles ?b @ map fst (seg_groups x)\<rparr>"
    using run_plain_view [OF Cons.prems(1) assms(2) Cons.prems(2,3), where now = now and v = v]
      run_group_view [OF Cons.prems(1) assms(2), where now = now and v = v] Cons.prems(4)
    by (cases x; simp add: set_groups_def add_group_def all_groups_def)+
  have cap: "stream_is_capturing stm (lh_streams ?s1)" using Cons.prems(2) st(2) by simp
  have b1: "buf_of (captured (lh_maps ?s1) stm) = \<lparr>bf_block_dim = bf_block_dim ?b + plain_dims x, bf_count = bf_count ?b + of_nat (seg_count x),
          bf_grp_handles = bf_grp_handles ?b @ map fst (seg_groups x)\<rparr>" by (simp add: st(7) buf_of_def)
  have len: "length (bf_grp_handles (buf_of (captured (lh_maps ?s1) stm))) + length (all_groups segs) \<le> MAX_GRPS_PER_CAPTURE"
    using Cons.prems(4) by (simp add: b1 all_groups_def)
  note ih = Cons.IH [OF st(1) cap st(5) len]
  have ne: "captured (lh_maps (fold (run_segment now v stm) segs ?s1)) stm \<noteq> None" using ih st(7) by (cases segs) auto
  show ?case using ih ne by (simp add: b1 st(3,4,6) all_groups_def set_groups_def add.assoc)
qed

lemma run_update_view:
  fixes now :: u64 and v :: nat and u :: "u64 \<times> u32 list"
  assumes "maps_ok (lh_maps s)" and "stm \<noteq> 0"
  defines "s' \<equiv> run_update now v stm u s"
  shows "maps_ok (lh_maps s') \<and> lh_stats s' = lh_stats s \<and> modelled (lh_maps s') = modelled (lh_maps s)
    \<and> group_dim (lh_maps s') = set_groups [u] (group_dim (lh_maps s))"
proof -
  obtain h ds where u: "u = (h, ds)" by fastforce
  define s1 where "s1 = on_maps (task_update_begin (True, True) stm h) s"
  define s2 where "s2 = launches now v stm ds s1"
  let ?st = "idle_state\<lparr>tg_mode := 2, tg_update_handle := h, tg_tmp_block_dim := dims ds, tg_tmp_count := of_nat (length ds)\<rparr>"
  note v1 = view_update_begin [OF assms(1,2), of h]
  have f: "lh_maps s1 = task_update_begin (True, True) stm h (lh_maps s)" "lh_stats s1 = lh_stats s" by (simp_all add: s1_def on_maps_def)
  have v2: "maps_ok (lh_maps s2) \<and> lh_stats s2 = lh_stats s1 \<and> modelled (lh_maps s2) = modelled (lh_maps s1)
    \<and> group_dim (lh_maps s2) = group_dim (lh_maps s1) \<and> grouped (lh_maps s2) = (grouped (lh_maps s1))(stm \<mapsto> ?st)"
    using launches_in_group [of s1 stm "idle_state\<lparr>tg_mode := 2, tg_update_handle := h\<rparr>" now v ds] v1 assms(2) by (simp add: f idle_state_def s2_def)
  have ok2: "maps_ok (lh_maps s2)" and g2: "grouped (lh_maps s2) stm = Some ?st" and m: "tg_mode ?st = 2" using v2 by simp_all
  note v3 = view_update_end [OF ok2 assms(2) g2 m]
  have s': "lh_maps s' = task_update_end (True, True) stm (lh_maps s2)" "lh_stats s' = lh_stats s2" by (simp_all add: s'_def u on_maps_def s1_def s2_def)
  have "group_dim (lh_maps s2) = group_dim (lh_maps s)" "modelled (lh_maps s2) = modelled (lh_maps s)" using v2 v1 by (simp_all add: f(1))
  then show ?thesis using v3 v2 f(2) by (simp add: s' set_groups_def u)
qed

lemma run_updates_view:
  assumes "maps_ok (lh_maps s)" and "stm \<noteq> 0"
  shows "maps_ok (lh_maps (fold (run_update now v stm) us s)) \<and> lh_stats (fold (run_update now v stm) us s) = lh_stats s
    \<and> modelled (lh_maps (fold (run_update now v stm) us s)) = modelled (lh_maps s)
    \<and> group_dim (lh_maps (fold (run_update now v stm) us s)) = set_groups us (group_dim (lh_maps s))"
  using assms(1)
proof (induction us arbitrary: s)
  case (Cons u us)
  note v = run_update_view [OF Cons.prems assms(2), of now v u]
  then show ?case using Cons.IH [of "run_update now v stm u s"] by (simp add: set_groups_def)
qed (simp add: set_groups_def)

lemma append_groups_fits: "length hs + length gs \<le> MAX_GRPS_PER_CAPTURE \<Longrightarrow> append_groups gs hs = hs @ gs"
  by (induction gs arbitrary: hs) auto

lemma group_get: "maps_ok cm \<Longrightarrow> h \<noteq> 0 \<Longrightarrow> task_group_map_get h cm = (case group_dim cm h of None \<Rightarrow> 0 | Some d \<Rightarrow> d)"
  by (auto simp: maps_ok_def task_group_map_get_def group_dim_def get_entry(2) split: option.split)

lemma total_dim: "model_stats_total_block_dim b cm = bf_block_dim b + (\<Sum>h\<leftarrow>bf_grp_handles b. task_group_map_get h cm)"
proof -
  have "fold (\<lambda>h t. t + f h) hs d = d + (\<Sum>h\<leftarrow>hs. f h)" for f :: "u64 \<Rightarrow> u64" and hs d
    by (induction hs arbitrary: d) (auto simp: add.assoc)
  then show ?thesis by (simp add: model_stats_total_block_dim_def)
qed

lemma model_get: "maps_ok cm \<Longrightarrow> mdl \<noteq> 0 \<Longrightarrow> modelled cm mdl = Some b \<Longrightarrow> model_stats_get mdl cm = (0, Some (model_stats_total_block_dim b cm, bf_count b))"
  by (auto simp: maps_ok_def model_stats_get_def modelled_def get_entry(2))

text \<open>C29: the statistics of a captured graph are exact: after a capture with any launches and task groups (at
  most 64 groups), the transfer to a new model, and any later updates of groups, the model reports the
  block dimensions of the launches outside groups plus, for every group, those of its latest launches,
  and the number of the captured launches. Nothing is reported as executed before the model runs.\<close>

theorem captured_graph_exact:
  assumes "maps_ok (lh_maps s)" and "stm \<noteq> 0" and "mdl \<noteq> 0" and "stm' \<noteq> 0"
    and "stream_is_capturing stm (lh_streams s)" and "idle (lh_maps s) stm" and "buf_of (captured (lh_maps s) stm) = empty_buffer"
    and "modelled (lh_maps s) mdl = None" and "segs \<noteq> []"
    and "length (all_groups segs) \<le> MAX_GRPS_PER_CAPTURE" and "0 \<notin> fst ` set (all_groups segs)"
    and "s1 = fold (run_segment now v stm) segs s"
    and "capture_stats_transfer_to_model (True, True) stm mdl (lh_maps s1) = (rc, cm)"
    and "s2 = fold (run_update now v stm') us (s1\<lparr>lh_maps := cm\<rparr>)"
  shows "rc = 0 \<and> lh_stats s2 = lh_stats s \<and> model_stats_get mdl (lh_maps s2) =
    (0, Some ((\<Sum>x\<leftarrow>segs. plain_dims x) + (\<Sum>(h, _)\<leftarrow>all_groups segs. latest (all_groups segs @ us) h), of_nat (\<Sum>x\<leftarrow>segs. seg_count x)))"
proof -
  let ?gs = "all_groups segs"
  let ?b = "\<lparr>bf_block_dim = (\<Sum>x\<leftarrow>segs. plain_dims x), bf_count = of_nat (\<Sum>x\<leftarrow>segs. seg_count x), bf_grp_handles = map fst ?gs\<rparr> :: stats_buffer"
  have len: "length (bf_grp_handles (buf_of (captured (lh_maps s) stm))) + length ?gs \<le> MAX_GRPS_PER_CAPTURE"
    using assms(7,10) by (simp add: empty_buffer_def)
  note r = run_segments_view [OF assms(1,2,5,6) len, where now = now and v = v, folded assms(12)]
  have c: "captured (lh_maps s1) stm = Some ?b" using r assms(7,9) by (auto simp: buf_of_def empty_buffer_def split: option.splits)
  have ok1: "maps_ok (lh_maps s1)" and m1: "modelled (lh_maps s1) mdl = None" using r assms(8) by simp_all
  obtain cm' where t: "capture_stats_transfer_to_model (True, True) stm mdl (lh_maps s1) = (0, cm')" and ok: "maps_ok cm'"
    and mm: "modelled cm' = (modelled (lh_maps s1))(mdl \<mapsto> \<lparr>bf_block_dim = bf_block_dim (buf_of (modelled (lh_maps s1) mdl)) + bf_block_dim ?b,
           bf_count = bf_count (buf_of (modelled (lh_maps s1) mdl)) + bf_count ?b,
           bf_grp_handles = append_groups (bf_grp_handles ?b) (bf_grp_handles (buf_of (modelled (lh_maps s1) mdl)))\<rparr>)"
    and gg: "group_dim cm' = group_dim (lh_maps s1)"
    using view_transfer [OF ok1 assms(2,3) c] .
  have cm: "cm = cm'" "rc = 0" using t assms(13) by simp_all
  have mb: "modelled cm' mdl = Some ?b" using mm m1 assms(10) by (simp add: buf_of_def empty_buffer_def append_groups_fits)
  have ok': "maps_ok (lh_maps (s1\<lparr>lh_maps := cm\<rparr>))" using ok by (simp add: cm)
  note u = run_updates_view [OF ok' assms(4), where now = now and v = v and us = us, folded assms(14)]
  have m2: "modelled (lh_maps s2) mdl = Some ?b" and st: "lh_stats s2 = lh_stats s" and ok2: "maps_ok (lh_maps s2)" using u r mb by (simp_all add: cm)
  have g2: "group_dim (lh_maps s2) = set_groups (?gs @ us) (group_dim (lh_maps s))" using u r gg by (simp add: cm set_groups_def)
  have "task_group_map_get h (lh_maps s2) = latest (?gs @ us) h" if hin: "h \<in> fst ` set ?gs" for h
  proof -
    have "h \<noteq> 0" using hin assms(11) by blast
    moreover obtain ds where "map_of (rev (?gs @ us)) h = Some ds"
      using hin map_of_eq_None_iff [of "rev (?gs @ us)" h] by (cases "map_of (rev (?gs @ us)) h") (auto simp: image_Un)
    ultimately show ?thesis using group_get [OF ok2, of h] by (simp add: g2 set_groups_lookup latest_def del: rev_append)
  qed
  then have "(\<Sum>h\<leftarrow>map fst ?gs. task_group_map_get h (lh_maps s2)) = (\<Sum>(h, _)\<leftarrow>?gs. latest (?gs @ us) h)"
    by (force simp: case_prod_beta intro!: arg_cong [where f = sum_list] map_cong)
  then show ?thesis using model_get [OF ok2 assms(3) m2] st cm(2) by (simp add: total_dim)
qed

definition no_entries :: "'p hash_map" where
  "no_entries = \<lparr>hm_buckets = (\<lambda>_. []), hm_capacity = 1, hm_size = 0\<rparr>"

definition demo_capture :: launch_state where
  "demo_capture = \<lparr>lh_maps = \<lparr>cm_capture = Some no_entries, cm_model = Some no_entries, cm_grp_state = Some no_entries, cm_group = Some no_entries\<rparr>,
     lh_streams = Some demo_streams, lh_stats = None\<rparr>"

lemma no_entries_lookup [simp]: "hash_lookup no_entries key = None"
  by (simp add: hash_lookup_def no_entries_def)

lemma no_entries_inv [simp]: "hash_inv (no_entries :: 'p hash_map)"
proof -
  have "dom (hash_lookup (no_entries :: 'p hash_map)) = {}" by (simp add: dom_def)
  moreover have "hm_capacity (no_entries :: 'p hash_map) = 1" "hm_buckets (no_entries :: 'p hash_map) = (\<lambda>_. [])" "hm_size (no_entries :: 'p hash_map) = 0" by (simp_all add: no_entries_def)
  ultimately show ?thesis by (simp add: hash_inv_def del: dom_eq_empty_conv)
qed

theorem captured_graph_exact_witness:
  "\<exists>cm. capture_stats_transfer_to_model (True, True) 16 99
       (lh_maps (fold (run_segment 5 3 16) [Plain 8, Group 5 [2, 3], Plain 1] demo_capture)) = (0, cm)
     \<and> model_stats_get 99 (lh_maps (fold (run_update 5 3 24) [(5, [7])]
         ((fold (run_segment 5 3 16) [Plain 8, Group 5 [2, 3], Plain 1] demo_capture)\<lparr>lh_maps := cm\<rparr>))) = (0, Some (16, 4))"
proof -
  let ?segs = "[Plain 8, Group 5 [2, 3], Plain 1]"
  let ?s1 = "fold (run_segment 5 3 16) ?segs demo_capture"
  obtain rc cm where t: "capture_stats_transfer_to_model (True, True) 16 99 (lh_maps ?s1) = (rc, cm)" by fastforce
  have "maps_ok (lh_maps demo_capture)" by (simp add: demo_capture_def maps_ok_def)
  moreover have "stream_is_capturing 16 (lh_streams demo_capture)"
    by (simp add: demo_capture_def stream_is_capturing_def hash_get demo_streams_def demo_map_lookup)
  moreover have "idle (lh_maps demo_capture) 16" "buf_of (captured (lh_maps demo_capture) 16) = empty_buffer" "modelled (lh_maps demo_capture) 99 = None"
    by (simp_all add: demo_capture_def idle_def view_defs entry_def buf_of_def)
  moreover have "length (all_groups ?segs) \<le> MAX_GRPS_PER_CAPTURE" "0 \<notin> fst ` set (all_groups ?segs)" by (simp_all add: all_groups_def)
  ultimately have "rc = 0 \<and> lh_stats (fold (run_update 5 3 24) [(5, [7])] (?s1\<lparr>lh_maps := cm\<rparr>)) = lh_stats demo_capture
    \<and> model_stats_get 99 (lh_maps (fold (run_update 5 3 24) [(5, [7])] (?s1\<lparr>lh_maps := cm\<rparr>))) =
      (0, Some ((\<Sum>x\<leftarrow>?segs. plain_dims x) + (\<Sum>(h, _)\<leftarrow>all_groups ?segs. latest (all_groups ?segs @ [(5, [7])]) h), of_nat (\<Sum>x\<leftarrow>?segs. seg_count x)))"
    by (intro captured_graph_exact [OF _ _ _ _ _ _ _ _ _ _ _ refl t refl]) simp_all
  then show ?thesis using t by (simp add: all_groups_def latest_def dims_def del: fold_simps)
qed

text \<open>The transfer at the end of a capture moves the buffer of the stream that began it; the buffers of streams
  that joined the capture through an event stay behind and are charged to the next model captured on them.\<close>

lemma joined_stream_left_behind:
  assumes "maps_ok cm" and "stm \<noteq> 0" and "mdl \<noteq> 0" and "captured cm stm = Some sb" and "stm' \<noteq> stm"
    and "capture_stats_transfer_to_model (True, True) stm mdl cm = (rc, cm')"
  shows "captured cm' stm' = captured cm stm'"
  by (rule view_transfer [OF assms(1-4)]) (use assms(5,6) in simp)

end
