(* ===== verification/Sampling.thy ===== *)
theory Sampling
  imports Vnpu_Stats
begin

text \<open>
  The sampling of kernel durations (\<^verbatim>\<open>vcann-rt/src/vnpu_stats.c\<close>). A hook that samples a launch holds
  \<^verbatim>\<open>g_sampling_mutex\<close> from \<^verbatim>\<open>sampling_begin\<close> to \<^verbatim>\<open>sampling_end\<close>; between the two it forwards the launch to the driver.
  A thread of its own waits for the stream and records the time between the two events. The calls into
  the driver are logged, with their outcomes as parameters.
\<close>

section \<open>State\<close>

datatype driver_call =
    Event_create u64
  | Event_record u64 u64
  | Event_destroy u64
  | Stream_synchronize u64
  | Event_elapsed u64 u64

record sampler =
  sm_locked :: bool
  sm_sampling :: bool
  sm_flag :: bool
  sm_start_event :: u64
  sm_end_event :: u64
  sm_stream :: u64
  sm_sync_count :: int
  sm_records :: "sample_record list option"
  sm_calls :: "driver_call list"

definition call :: "driver_call \<Rightarrow> sampler \<Rightarrow> sampler" where
  "call c s = s\<lparr>sm_calls := sm_calls s @ [c]\<rparr>"

text \<open>Whether to sample: the statistics are enabled, the random device delivers four bytes, and they are in the
  lowest fifth.\<close>

definition is_random_sampling :: "bool \<Rightarrow> bool \<Rightarrow> int \<Rightarrow> int \<Rightarrow> u32 \<Rightarrow> bool" where
  "is_random_sampling inited enabled fd bytes_read rand_val =
     (if \<not> inited \<or> \<not> enabled then False
      else if fd < 0 then False
      else if bytes_read \<noteq> 4 then False
      else rand_val < 0xFFFFFFFF div 5)"

section \<open>The number of kernels of a model\<close>

text \<open>The driver reports the streams of the model twice (first their number) and then the tasks of each stream;
  a pair is the return code and the number of tasks. \<^verbatim>\<open>int\<close> overflow is undefined.\<close>

fun count_tasks :: "(int \<times> u32) list \<Rightarrow> int \<Rightarrow> int option" where
  "count_tasks [] count = Some (if count = 0 then -1 else count)"
| "count_tasks ((ret, num_tasks) # rest) count =
     (if ret \<noteq> 0 then Some (-1)
      else let n = count + sint num_tasks in
        if n < - (2 ^ 31) \<or> n \<ge> 2 ^ 31 then None else count_tasks rest n)"

definition get_kernel_count :: "int \<Rightarrow> u32 \<Rightarrow> int \<Rightarrow> u32 \<Rightarrow> (nat \<Rightarrow> int \<times> u32) \<Rightarrow> int option" where
  "get_kernel_count ret num_streams ret' num_streams' tasks =
     (if ret \<noteq> 0 \<or> num_streams = 0 \<or> num_streams > 128 then Some (-1)
      else if ret' \<noteq> 0 then Some (-1)
      else if num_streams' > num_streams then None
      else count_tasks (map tasks [0..<unat num_streams']) 0)"

section \<open>Beginning a sample\<close>

text \<open>The outcomes of a begin: the query of the capture state (return code, and whether the stream is not capturing),
  the creation of the event (return code and handle) and its recording.\<close>

record begin_env =
  be_capture_ret :: int
  be_not_capturing :: bool
  be_create_ret :: int
  be_event :: u64
  be_record_ret :: int

definition sampling_begin :: "begin_env \<Rightarrow> u64 \<Rightarrow> sampler \<Rightarrow> sampler" where
  "sampling_begin e stm s =
     (let s1 = s\<lparr>sm_locked := True, sm_sampling := True\<rparr> in
      if be_capture_ret e \<noteq> 0 then s1\<lparr>sm_sampling := False\<rparr>
      else if \<not> be_not_capturing e then s1\<lparr>sm_sampling := False\<rparr>
      else if sm_flag s1 then s1\<lparr>sm_sampling := False\<rparr>
      else let s2 = s1\<lparr>sm_flag := True, sm_stream := stm\<rparr> in
        if be_create_ret e \<noteq> 0 \<or> be_event e = 0
        then s2\<lparr>sm_start_event := 0, sm_stream := 0, sm_flag := False, sm_sampling := False\<rparr>
        else let s3 = call (Event_create (be_event e)) (s2\<lparr>sm_start_event := be_event e\<rparr>) in
          if be_record_ret e \<noteq> 0
          then (call (Event_destroy (be_event e)) (call (Event_record (be_event e) stm) s3))
                 \<lparr>sm_start_event := 0, sm_stream := 0, sm_flag := False, sm_sampling := False\<rparr>
          else call (Event_record (be_event e) stm) s3)"

section \<open>Ending a sample\<close>

record end_env =
  ee_create_ret :: int
  ee_event :: u64
  ee_record_ret :: int
  ee_thread_ret :: int

text \<open>The result says whether the thread that finishes the sample was started.\<close>

definition record_event_time :: "end_env \<Rightarrow> u64 \<Rightarrow> int \<Rightarrow> sampler \<Rightarrow> bool \<times> sampler" where
  "record_event_time e stm count s =
     (if ee_create_ret e \<noteq> 0 \<or> ee_event e = 0
      then (False, (call (Event_destroy (sm_start_event s)) s)\<lparr>sm_start_event := 0, sm_end_event := 0, sm_flag := False\<rparr>)
      else let s1 = call (Event_record (ee_event e) stm) (call (Event_create (ee_event e)) (s\<lparr>sm_end_event := ee_event e\<rparr>)) in
        if ee_record_ret e \<noteq> 0
        then (False, (call (Event_destroy (sm_end_event s1)) (call (Event_destroy (sm_start_event s1)) s1))
                \<lparr>sm_start_event := 0, sm_end_event := 0, sm_flag := False\<rparr>)
        else let s2 = s1\<lparr>sm_sync_count := count\<rparr> in
          if ee_thread_ret e \<noteq> 0
          then (False, (call (Event_destroy (sm_end_event s2)) (call (Event_destroy (sm_start_event s2)) s2))
                  \<lparr>sm_start_event := 0, sm_end_event := 0, sm_flag := False\<rparr>)
          else (True, s2))"

text \<open>\<^verbatim>\<open>sampling_end\<close> counts one kernel, \<^verbatim>\<open>sampling_graph_end\<close> those of the model.\<close>

definition sampling_end :: "end_env \<Rightarrow> u64 \<Rightarrow> sampler \<Rightarrow> bool \<times> sampler" where
  "sampling_end e stm s =
     (if \<not> sm_sampling s then (False, s\<lparr>sm_locked := False\<rparr>)
      else case record_event_time e stm 1 s of (started, s') \<Rightarrow> (started, s'\<lparr>sm_sampling := False, sm_locked := False\<rparr>))"

definition sampling_graph_end :: "end_env \<Rightarrow> int option \<Rightarrow> u64 \<Rightarrow> sampler \<Rightarrow> (bool \<times> sampler) option" where
  "sampling_graph_end e kernel_count stm s =
     (if \<not> sm_sampling s then Some (False, s\<lparr>sm_locked := False\<rparr>)
      else map_option (\<lambda>count. case record_event_time e stm count s of (started, s') \<Rightarrow>
             (started, s'\<lparr>sm_sampling := False, sm_locked := False\<rparr>)) kernel_count)"

text \<open>The thread: it waits for the stream and destroys the events, then it adds the record and allows the next
  sample. \<open>use_time\<close> is the time in ns after the conversion from \<^verbatim>\<open>float\<close> milliseconds.\<close>

definition sample_sync_events :: "sampler \<Rightarrow> sampler" where
  "sample_sync_events s =
     (call (Event_destroy (sm_end_event s)) (call (Event_destroy (sm_start_event s))
       (call (Event_elapsed (sm_start_event s) (sm_end_event s)) (call (Stream_synchronize (sm_stream s)) s))))
       \<lparr>sm_start_event := 0, sm_end_event := 0, sm_stream := 0\<rparr>"

definition sample_sync_record :: "bool \<Rightarrow> u64 \<Rightarrow> u64 \<Rightarrow> sampler \<Rightarrow> sampler" where
  "sample_sync_record mem_ok use_time now s =
     s\<lparr>sm_records := snd (add_sample_record mem_ok (sm_sync_count s) use_time now (sm_records s)), sm_flag := False\<rparr>"


section \<open>Interleavings of the hooks, the thread and the scheduler\<close>

text \<open>The calls that are logged use events that exist, and destroy each of them once.\<close>

fun after_call :: "driver_call \<Rightarrow> u64 set \<Rightarrow> u64 set" where
  "after_call (Event_create e) L = insert e L"
| "after_call (Event_destroy e) L = L - {e}"
| "after_call _ L = L"

fun call_ok :: "u64 set \<Rightarrow> driver_call \<Rightarrow> bool" where
  "call_ok L (Event_create e) \<longleftrightarrow> e \<noteq> 0 \<and> e \<notin> L"
| "call_ok L (Event_record e stm) \<longleftrightarrow> e \<in> L"
| "call_ok L (Event_destroy e) \<longleftrightarrow> e \<in> L"
| "call_ok L (Event_elapsed e e') \<longleftrightarrow> e \<in> L \<and> e' \<in> L"
| "call_ok L (Stream_synchronize stm) \<longleftrightarrow> True"

fun calls_ok :: "u64 set \<Rightarrow> driver_call list \<Rightarrow> bool" where
  "calls_ok L [] \<longleftrightarrow> True"
| "calls_ok L (c # cs) \<longleftrightarrow> call_ok L c \<and> calls_ok (after_call c L) cs"

definition live :: "driver_call list \<Rightarrow> u64 set" where
  "live cs = fold after_call cs {}"

text \<open>Positions: the stream of the hook that holds the mutex, and the state of the thread.\<close>

datatype sync_pc = No_thread | Waiting | Recording

record world =
  wd_sampler :: sampler
  wd_hook :: "u64 option"
  wd_sync :: sync_pc

text \<open>The driver hands out handles of no live event.\<close>

inductive sample_step :: "world \<Rightarrow> world \<Rightarrow> bool" where
  start: "wd_hook w = None \<Longrightarrow> be_event e \<notin> live (sm_calls (wd_sampler w)) \<Longrightarrow>
    sample_step w (w\<lparr>wd_sampler := sampling_begin e stm (wd_sampler w), wd_hook := Some stm\<rparr>)"
| finish: "wd_hook w = Some stm \<Longrightarrow> ee_event e \<notin> live (sm_calls (wd_sampler w)) \<Longrightarrow>
    sampling_end e stm (wd_sampler w) = (started, s') \<Longrightarrow>
    sample_step w (w\<lparr>wd_sampler := s', wd_hook := None, wd_sync := (if started then Waiting else wd_sync w)\<rparr>)"
| graph_finish: "wd_hook w = Some stm \<Longrightarrow> ee_event e \<notin> live (sm_calls (wd_sampler w)) \<Longrightarrow>
    sampling_graph_end e (get_kernel_count ret n ret' n' tasks) stm (wd_sampler w) = Some (started, s') \<Longrightarrow>
    sample_step w (w\<lparr>wd_sampler := s', wd_hook := None, wd_sync := (if started then Waiting else wd_sync w)\<rparr>)"
| wait: "wd_sync w = Waiting \<Longrightarrow>
    sample_step w (w\<lparr>wd_sampler := sample_sync_events (wd_sampler w), wd_sync := Recording\<rparr>)"
| recorded: "wd_sync w = Recording \<Longrightarrow>
    sample_step w (w\<lparr>wd_sampler := sample_sync_record mem_ok use_time now (wd_sampler w), wd_sync := No_thread\<rparr>)"
| read: "get_ker_ave_exec_time now (sm_records (wd_sampler w)) = Some (avg, n, rs) \<Longrightarrow>
    sample_step w (w\<lparr>wd_sampler := (wd_sampler w)\<lparr>sm_records := rs\<rparr>\<rparr>)"

definition sampler_start :: "sampler \<Rightarrow> bool" where
  "sampler_start s \<longleftrightarrow> \<not> sm_locked s \<and> \<not> sm_sampling s \<and> \<not> sm_flag s \<and> sm_start_event s = 0 \<and> sm_end_event s = 0 \<and> sm_calls s = []"

definition sample_inv :: "world \<Rightarrow> bool" where
  "sample_inv w \<longleftrightarrow> (let s = wd_sampler w; L = live (sm_calls s) in
     calls_ok {} (sm_calls s) \<and> (sm_locked s \<longleftrightarrow> wd_hook w \<noteq> None) \<and> (sm_sampling s \<longrightarrow> wd_hook w \<noteq> None)
     \<and> (case wd_sync w of
          Waiting \<Rightarrow> sm_flag s \<and> \<not> sm_sampling s \<and> sm_start_event s \<noteq> sm_end_event s \<and> L = {sm_start_event s, sm_end_event s}
        | Recording \<Rightarrow> sm_flag s \<and> \<not> sm_sampling s \<and> L = {}
        | No_thread \<Rightarrow> (sm_flag s \<longleftrightarrow> sm_sampling s) \<and> L = (if sm_sampling s then {sm_start_event s} else {})))"

lemma sampling_begin_cases:
  obtains (skip) "sampling_begin e stm s = s\<lparr>sm_locked := True, sm_sampling := False\<rparr>"
  | (no_event) "\<not> sm_flag s" "sampling_begin e stm s = s\<lparr>sm_locked := True, sm_sampling := False, sm_flag := False, sm_stream := 0, sm_start_event := 0\<rparr>"
  | (no_record) "\<not> sm_flag s" "be_event e \<noteq> 0" "sampling_begin e stm s = s\<lparr>sm_locked := True, sm_sampling := False, sm_flag := False, sm_stream := 0,
      sm_start_event := 0, sm_calls := sm_calls s @ [Event_create (be_event e)] @ [Event_record (be_event e) stm] @ [Event_destroy (be_event e)]\<rparr>"
  | (sampled) "\<not> sm_flag s" "be_event e \<noteq> 0" "sampling_begin e stm s = s\<lparr>sm_locked := True, sm_sampling := True, sm_flag := True, sm_stream := stm,
      sm_start_event := be_event e, sm_calls := sm_calls s @ [Event_create (be_event e)] @ [Event_record (be_event e) stm]\<rparr>"
proof (cases "be_capture_ret e \<noteq> 0 \<or> \<not> be_not_capturing e \<or> sm_flag s")
  case True
  then show ?thesis by (intro skip) (auto simp: sampling_begin_def Let_def)
next
  case False
  note f = this
  consider "be_create_ret e \<noteq> 0 \<or> be_event e = 0" | "be_create_ret e = 0" "be_event e \<noteq> 0" "be_record_ret e \<noteq> 0"
    | "be_create_ret e = 0" "be_event e \<noteq> 0" "be_record_ret e = 0" by blast
  then show ?thesis
  proof cases
    case 1
    then show ?thesis using f by (intro no_event) (simp_all add: sampling_begin_def Let_def)
  next
    case 2
    then show ?thesis using f by (intro no_record) (simp_all add: sampling_begin_def call_def Let_def)
  next
    case 3
    then show ?thesis using f by (intro sampled) (simp_all add: sampling_begin_def call_def Let_def)
  qed
qed

lemma calls_ok_app: "calls_ok {} (cs @ ds) \<longleftrightarrow> calls_ok {} cs \<and> calls_ok (live cs) ds" and live_app: "live (cs @ ds) = fold after_call ds (live cs)"
proof -
  have "calls_ok L (cs @ ds) \<longleftrightarrow> calls_ok L cs \<and> calls_ok (fold after_call cs L) ds" for L by (induction cs arbitrary: L) auto
  then show "calls_ok {} (cs @ ds) \<longleftrightarrow> calls_ok {} cs \<and> calls_ok (live cs) ds" by (simp add: live_def)
qed (simp add: live_def)

lemma begin_inv:
  assumes "sample_inv w" and "wd_hook w = None" and "be_event e \<notin> live (sm_calls (wd_sampler w))"
  shows "sample_inv (w\<lparr>wd_sampler := sampling_begin e stm (wd_sampler w), wd_hook := Some stm\<rparr>)"
proof -
  have n: "\<not> sm_sampling (wd_sampler w)" using assms(1,2) by (simp add: sample_inv_def Let_def)
  show ?thesis
  proof (cases rule: sampling_begin_cases [of e stm "wd_sampler w"])
    case skip
    then show ?thesis using assms n by (simp add: sample_inv_def Let_def split: sync_pc.splits)
  next
    case no_event
    then show ?thesis using assms n by (simp add: sample_inv_def Let_def split: sync_pc.splits)
  next
    case no_record
    then show ?thesis using assms n by (cases "wd_sync w") (simp_all add: sample_inv_def Let_def calls_ok_app live_app)
  next
    case sampled
    then show ?thesis using assms n by (cases "wd_sync w") (simp_all add: sample_inv_def Let_def calls_ok_app live_app)
  qed
qed

lemma record_event_time_cases:
  obtains (no_event) "record_event_time e stm c s = (False, s\<lparr>sm_start_event := 0, sm_end_event := 0, sm_flag := False, sm_calls := sm_calls s @ [Event_destroy (sm_start_event s)]\<rparr>)"
  | (undone) n where "ee_event e \<noteq> 0" "record_event_time e stm c s = (False, s\<lparr>sm_start_event := 0, sm_end_event := 0, sm_flag := False, sm_sync_count := n,
      sm_calls := sm_calls s @ [Event_create (ee_event e), Event_record (ee_event e) stm, Event_destroy (sm_start_event s), Event_destroy (ee_event e)]\<rparr>)"
  | (started) "ee_event e \<noteq> 0" "record_event_time e stm c s = (True, s\<lparr>sm_end_event := ee_event e, sm_sync_count := c,
      sm_calls := sm_calls s @ [Event_create (ee_event e), Event_record (ee_event e) stm]\<rparr>)"
proof (cases "ee_create_ret e \<noteq> 0 \<or> ee_event e = 0")
  case True
  then show ?thesis by (intro no_event) (simp add: record_event_time_def call_def)
next
  case False
  note f = this
  consider "ee_record_ret e \<noteq> 0" | "ee_record_ret e = 0" "ee_thread_ret e \<noteq> 0" | "ee_record_ret e = 0" "ee_thread_ret e = 0" by blast
  then show ?thesis
  proof cases
    case 1
    then show ?thesis using f by (intro undone [of "sm_sync_count s"]) (simp_all add: record_event_time_def call_def Let_def)
  next
    case 2
    then show ?thesis using f by (intro undone [of c]) (simp_all add: record_event_time_def call_def Let_def)
  next
    case 3
    then show ?thesis using f by (intro started) (simp_all add: record_event_time_def call_def Let_def)
  qed
qed

lemma record_event_time_inv:
  assumes "sample_inv w" and "sm_sampling (wd_sampler w)" and "ee_event e \<notin> live (sm_calls (wd_sampler w))"
    and "record_event_time e stm count (wd_sampler w) = (st, s')"
  shows "sample_inv (w\<lparr>wd_sampler := s'\<lparr>sm_sampling := False, sm_locked := False\<rparr>, wd_hook := None, wd_sync := (if st then Waiting else wd_sync w)\<rparr>)"
proof -
  have n: "wd_sync w = No_thread" using assms(1,2) by (cases "wd_sync w") (simp_all add: sample_inv_def Let_def)
  then have m: "sm_flag (wd_sampler w)" "live (sm_calls (wd_sampler w)) = {sm_start_event (wd_sampler w)}" "calls_ok {} (sm_calls (wd_sampler w))"
    using assms(1,2) by (simp_all add: sample_inv_def Let_def)
  show ?thesis
  proof (cases rule: record_event_time_cases [of e stm count "wd_sampler w"])
    case no_event
    then show ?thesis using assms(4) n m by (simp add: sample_inv_def Let_def calls_ok_app live_app)
  next
    case undone
    then show ?thesis using assms(3,4) n m by (simp add: sample_inv_def Let_def calls_ok_app live_app) blast
  next
    case started
    then show ?thesis using assms(3,4) n m by (simp add: sample_inv_def Let_def calls_ok_app live_app insert_commute)
  qed
qed

lemma skip_inv:
  assumes "sample_inv w" and "\<not> sm_sampling (wd_sampler w)"
  shows "sample_inv (w\<lparr>wd_sampler := (wd_sampler w)\<lparr>sm_locked := False\<rparr>, wd_hook := None\<rparr>)"
  using assms by (cases "wd_sync w") (simp_all add: sample_inv_def Let_def)

lemma sync_inv:
  assumes "sample_inv w" and "wd_sync w = Waiting"
  shows "sample_inv (w\<lparr>wd_sampler := sample_sync_events (wd_sampler w), wd_sync := Recording\<rparr>)"
proof -
  have "sm_calls (sample_sync_events (wd_sampler w)) = sm_calls (wd_sampler w) @ [Stream_synchronize (sm_stream (wd_sampler w)),
      Event_elapsed (sm_start_event (wd_sampler w)) (sm_end_event (wd_sampler w)), Event_destroy (sm_start_event (wd_sampler w)), Event_destroy (sm_end_event (wd_sampler w))]"
    by (simp add: sample_sync_events_def call_def)
  then show ?thesis using assms
    by (simp add: sample_inv_def Let_def calls_ok_app live_app) (simp add: sample_sync_events_def call_def)
qed

lemma recorded_inv:
  assumes "sample_inv w" and "wd_sync w = Recording"
  shows "sample_inv (w\<lparr>wd_sampler := sample_sync_record mem_ok use_time now (wd_sampler w), wd_sync := No_thread\<rparr>)"
  using assms by (simp add: sample_inv_def sample_sync_record_def Let_def)

lemma sample_step_inv: "sample_step w w' \<Longrightarrow> sample_inv w \<Longrightarrow> sample_inv w'"
proof (induction rule: sample_step.induct)
  case (start w e stm)
  then show ?case by (intro begin_inv)
next
  case (finish w stm e started s')
  show ?case
  proof (cases "sm_sampling (wd_sampler w)")
    case True
    obtain st s1 where r: "record_event_time e stm 1 (wd_sampler w) = (st, s1)" by fastforce
    then show ?thesis using record_event_time_inv [OF finish.prems True finish.hyps(2) r] finish.hyps(3) True by (simp add: sampling_end_def)
  next
    case False
    then show ?thesis using skip_inv [OF finish.prems] finish.hyps(3) by (auto simp: sampling_end_def)
  qed
next
  case (graph_finish w stm e ret n ret' n' tasks started s')
  show ?case
  proof (cases "sm_sampling (wd_sampler w)")
    case True
    then obtain c where c: "get_kernel_count ret n ret' n' tasks = Some c" using graph_finish.hyps(3) by (auto simp: sampling_graph_end_def)
    obtain st s1 where r: "record_event_time e stm c (wd_sampler w) = (st, s1)" by fastforce
    then show ?thesis using record_event_time_inv [OF graph_finish.prems True graph_finish.hyps(2) r] graph_finish.hyps(3) True c
      by (simp add: sampling_graph_end_def)
  next
    case False
    then show ?thesis using skip_inv [OF graph_finish.prems] graph_finish.hyps(3) by (auto simp: sampling_graph_end_def)
  qed
next
  case (read now w avg n rs)
  then show ?case by (cases "wd_sync w") (simp_all add: sample_inv_def Let_def)
qed (simp_all add: sync_inv recorded_inv)

text \<open>C30: under any interleaving of sampling hooks, the thread that finishes a sample and the reader of the
  samples, and for all outcomes of the driver, every event is used only while it exists and destroyed
  exactly once, at most one sample is in flight, and when no hook and no thread is at work no event is
  left, the mutex is free and the next launch can be sampled.\<close>

theorem sampling_leaks_no_event:
  assumes "sampler_start s" and "sample_step\<^sup>*\<^sup>* \<lparr>wd_sampler = s, wd_hook = None, wd_sync = No_thread\<rparr> w"
  shows "calls_ok {} (sm_calls (wd_sampler w)) \<and> card (live (sm_calls (wd_sampler w))) \<le> 2
    \<and> \<not> (sm_sampling (wd_sampler w) \<and> wd_sync w \<noteq> No_thread)
    \<and> (wd_hook w = None \<and> wd_sync w = No_thread \<longrightarrow>
        live (sm_calls (wd_sampler w)) = {} \<and> \<not> sm_locked (wd_sampler w) \<and> \<not> sm_flag (wd_sampler w))"
proof -
  have "sample_inv w" using assms(2)
  proof (induction rule: rtranclp_induct)
    case base
    then show ?case using assms(1) by (simp add: sample_inv_def sampler_start_def live_def)
  next
    case (step w w')
    then show ?case using sample_step_inv by blast
  qed
  then show ?thesis by (cases "wd_sync w") (auto simp: sample_inv_def Let_def)
qed

text \<open>A sample whose end event cannot be recorded.\<close>

theorem sampling_leaks_no_event_witness:
  "live (sm_calls (snd (sampling_end \<lparr>ee_create_ret = 0, ee_event = 9, ee_record_ret = 1, ee_thread_ret = 0\<rparr> 5
      (sampling_begin \<lparr>be_capture_ret = 0, be_not_capturing = True, be_create_ret = 0, be_event = 7, be_record_ret = 0\<rparr> 5
        \<lparr>sm_locked = False, sm_sampling = False, sm_flag = False, sm_start_event = 0, sm_end_event = 0, sm_stream = 0,
         sm_sync_count = 0, sm_records = Some [], sm_calls = []\<rparr>)))) = {}"
proof -
  let ?s = "\<lparr>sm_locked = False, sm_sampling = False, sm_flag = False, sm_start_event = 0, sm_end_event = 0, sm_stream = 0,
         sm_sync_count = 0, sm_records = Some [], sm_calls = []\<rparr> :: sampler"
  let ?b = "\<lparr>be_capture_ret = 0, be_not_capturing = True, be_create_ret = 0, be_event = 7, be_record_ret = 0\<rparr> :: begin_env"
  let ?e = "\<lparr>ee_create_ret = 0, ee_event = 9, ee_record_ret = 1, ee_thread_ret = 0\<rparr> :: end_env"
  let ?w = "\<lparr>wd_sampler = ?s, wd_hook = None, wd_sync = No_thread\<rparr>"
  let ?w1 = "?w\<lparr>wd_sampler := sampling_begin ?b 5 ?s, wd_hook := Some 5\<rparr>"
  obtain st s2 where s2: "sampling_end ?e 5 (sampling_begin ?b 5 ?s) = (st, s2)" by fastforce
  let ?w2 = "?w1\<lparr>wd_sampler := s2, wd_hook := None, wd_sync := (if st then Waiting else wd_sync ?w1)\<rparr>"
  have "sample_step ?w ?w1" using sample_step.start [of ?w ?b 5] by (simp add: live_def)
  moreover have "sample_step ?w1 ?w2"
    by (rule sample_step.finish [where stm = 5 and e = ?e]) (use s2 in \<open>simp_all add: sampling_begin_def call_def live_def\<close>)
  ultimately have "sample_step\<^sup>*\<^sup>* ?w ?w2" by auto
  moreover have "\<not> st" using s2 by (simp add: sampling_end_def sampling_begin_def record_event_time_def call_def)
  ultimately show ?thesis using sampling_leaks_no_event [of ?s ?w2] s2 by (simp add: sampler_start_def)
qed

end
