(* ===== verification/Mem_Limiter.thy ===== *)
theory Mem_Limiter
  imports Swap_Protocol Npu_Config
begin

text \<open>
  The memory limit of a runtime process (\<^verbatim>\<open>vcann-rt/src/mem_limiter.c\<close>, \<^verbatim>\<open>npu_manager.c\<close>, \<^verbatim>\<open>ascend/memory.c\<close>). The
  configuration gives a guaranteed quota (\<^verbatim>\<open>request\<close>) and a hard one (\<^verbatim>\<open>limit\<close>); where they differ, memory above
  the request is borrowed from what the vNPUs of the die have not been promised. What the driver
  reports (memory in use, free memory of the device) and the outcome of the file lock are parameters.
  A process registers in a slot of its vNPU in the shared memory. The waiting loops are partial
  functions over an environment that says what the other processes do; \<^term>\<open>None\<close> is a loop that never ends
  or the use of a null pointer.
\<close>

section \<open>Configuration\<close>

record npu_info =
  ni_pnpu_id :: u32
  ni_vnpu_id :: u8
  ni_vnpu_priority :: u8
  ni_mem_request_quota :: u64
  ni_mem_limit_quota :: u64
  ni_core_limit_quota :: u8
  ni_is_core_limit :: bool
  ni_sched_policy :: int
  ni_shm_id :: string
  ni_vcann_rt_id :: int
  ni_registry_slot :: int
  ni_last_seen_cmd_seq :: u64

abbreviation (input) MAX_NPU_ID :: int where "MAX_NPU_ID \<equiv> 15"
abbreviation (input) MAX_CORE_QUOTA :: int where "MAX_CORE_QUOTA \<equiv> 100"

definition get_swap_enabled :: "npu_info \<Rightarrow> bool" where
  "get_swap_enabled n \<longleftrightarrow> ni_mem_request_quota n \<noteq> ni_mem_limit_quota n"

definition in_range :: "u64 \<Rightarrow> bool" where
  "in_range mb \<longleftrightarrow> 1 \<le> mb \<and> mb \<le> -1 div MB_TO_B"

definition config_memory :: "rt_config \<Rightarrow> npu_info \<Rightarrow> npu_info option" where
  "config_memory c n =
     (if rc_memory_request c = 0 \<and> rc_memory_limit c = 0
      then let q = word_of_int (rc_memory_quota c) in
        if \<not> in_range q then None
        else Some (n\<lparr>ni_mem_request_quota := q * MB_TO_B, ni_mem_limit_quota := q * MB_TO_B\<rparr>)
      else if \<not> in_range (rc_memory_request c) then None
      else if \<not> in_range (rc_memory_limit c) then None
      else Some (n\<lparr>ni_mem_request_quota := rc_memory_request c * MB_TO_B, ni_mem_limit_quota := rc_memory_limit c * MB_TO_B\<rparr>))"

definition config_cores :: "rt_config \<Rightarrow> npu_info \<Rightarrow> npu_info option" where
  "config_cores c n =
     (if rc_scheduling_policy c = 1 \<or> rc_scheduling_policy c = 2
      then (if rc_aicore_quota c < 1 \<or> rc_aicore_quota c > MAX_CORE_QUOTA then None
            else Some (n\<lparr>ni_core_limit_quota := word_of_int (rc_aicore_quota c), ni_is_core_limit := True\<rparr>))
      else if rc_scheduling_policy c = 3 then Some (n\<lparr>ni_is_core_limit := False\<rparr>)
      else None)"

definition enpu_config_info_init :: "rt_config \<Rightarrow> npu_info \<Rightarrow> int \<times> npu_info" where
  "enpu_config_info_init c n =
     (if rc_phy_npu_id c < 0 \<or> rc_phy_npu_id c > MAX_NPU_ID then (RT_ENPU_FAIL, n)
      else if rc_vnpu_id c < 0 \<or> rc_vnpu_id c > int MAX_VNPU_SCHED - 1 then (RT_ENPU_FAIL, n)
      else case config_memory c n of None \<Rightarrow> (RT_ENPU_FAIL, n)
      | Some n1 \<Rightarrow>
        (case config_cores c n1 of None \<Rightarrow> (RT_ENPU_FAIL, n1)
         | Some n2 \<Rightarrow>
           let n3 = n2\<lparr>ni_pnpu_id := word_of_int (rc_phy_npu_id c), ni_vnpu_id := word_of_int (rc_vnpu_id c),
                 ni_vnpu_priority := word_of_int (rc_vnpu_priority c), ni_sched_policy := rc_scheduling_policy c\<rparr>
           in if length (rc_shm_id c) \<ge> RT_SHM_ID_LEN then (RT_ENPU_FAIL, n3\<lparr>ni_shm_id := []\<rparr>)
              else (ENPU_SUCCESS, n3\<lparr>ni_shm_id := rc_shm_id c\<rparr>)))"

definition enpu_load_config :: "bool \<Rightarrow> string option \<Rightarrow> rt_config \<Rightarrow> npu_info \<Rightarrow> int \<times> rt_config \<times> npu_info" where
  "enpu_load_config char_sgn file c n =
     (case load_config char_sgn file c of (rc, c') \<Rightarrow>
        if rc \<noteq> ENPU_SUCCESS then (rc, c', n)
        else case enpu_config_info_init c' n of (rc', n') \<Rightarrow> (rc', c', n'))"

text \<open>The part of \<^verbatim>\<open>__enpu_global_init_post\<close> that adjusts the quota: \<open>total_size\<close> is what the driver stored (0 when the
  query failed, which is only logged).\<close>

definition post_init_quota :: "u64 \<Rightarrow> shm_state option \<Rightarrow> npu_info \<Rightarrow> npu_info" where
  "post_init_quota total_size so n =
     (if ni_mem_request_quota n > total_size
      then (case so of None \<Rightarrow> n\<lparr>ni_mem_limit_quota := total_size\<rparr> | Some _ \<Rightarrow> n)
      else n)"

section \<open>Registration of a process\<close>

fun first_inactive :: "vnpu_shm_entry \<Rightarrow> nat list \<Rightarrow> nat option" where
  "first_inactive e [] = None"
| "first_inactive e (i # is) = (if \<not> pr_active (ve_processes e i) then Some i else first_inactive e is)"

text \<open>\<^verbatim>\<open>next_vcann_rt_id\<close> is a 32-bit counter that wraps around.\<close>

definition register_to_shm_state :: "int \<Rightarrow> u64 \<Rightarrow> shm_state option \<Rightarrow> int \<Rightarrow> npu_info \<Rightarrow> int \<times> shm_state option \<times> npu_info" where
  "register_to_shm_state pid now so vnpu_id n =
     (case so of None \<Rightarrow> (RT_ENPU_FAIL, None, n)
      | Some st \<Rightarrow>
        if vnpu_id < 0 \<or> vnpu_id \<ge> int MAX_VNPU_PER_DIE then (RT_ENPU_FAIL, so, n)
        else let next_id = ss_next_vcann_rt_id st;
                 vcann_rt_id = (if next_id \<le> 0 then 1 else next_id);
                 st1 = st\<lparr>ss_next_vcann_rt_id := (if next_id \<le> 0 then 2 else sint (word_of_int (next_id + 1) :: i32))\<rparr>
             in case first_inactive (ss_entries st1 (nat vnpu_id)) slots of
                  None \<Rightarrow> (RT_ENPU_FAIL, Some st1, n)
                | Some slot \<Rightarrow>
                    (ENPU_SUCCESS,
                     Some (upd_process st1 vnpu_id slot (\<lambda>p. p\<lparr>pr_active := True, pr_vcann_rt_id := vcann_rt_id, pr_pid := pid,
                        pr_swapped := False, pr_last_heartbeat_ns := now, pr_hbm_used := 0, pr_swap_offset := 0, pr_swap_size := 0,
                        pr_ack_pending_seq := 0\<rparr>)),
                     n\<lparr>ni_vcann_rt_id := vcann_rt_id, ni_registry_slot := int slot,
                       ni_last_seen_cmd_seq := cm_cmd_seq (ss_swap_cmd st1)\<rparr>))"

definition unregister_from_shm_state :: "shm_state option \<Rightarrow> int \<Rightarrow> int \<Rightarrow> npu_info \<Rightarrow> shm_state option \<times> npu_info" where
  "unregister_from_shm_state so vnpu_id slot n =
     (case so of None \<Rightarrow> (None, n)
      | Some st \<Rightarrow>
        if vnpu_id < 0 \<or> vnpu_id \<ge> int MAX_VNPU_PER_DIE \<or> slot < 0 \<or> slot \<ge> int MAX_PROCESSES_PER_VNPU then (so, n)
        else let remaining = pr_hbm_used (ve_processes (ss_entries st (nat vnpu_id)) (nat slot));
                 st1 = (if remaining > 0
                        then upd_process (upd_entry st vnpu_id (\<lambda>e. e\<lparr>ve_hbm_used := ve_hbm_used e - remaining\<rparr>)) vnpu_id (nat slot)
                               (\<lambda>p. p\<lparr>pr_hbm_used := 0\<rparr>)
                        else st)
             in (Some (upd_process st1 vnpu_id (nat slot) (\<lambda>p. p\<lparr>pr_swapped := False, pr_active := False\<rparr>)),
                 n\<lparr>ni_registry_slot := -1, ni_vcann_rt_id := -1\<rparr>))"

section \<open>Making room on the device\<close>

text \<open>The loop that waits until the request of an earlier process is served. Round \<open>k\<close> sees what the other
  processes did; the result is the next round and the state.\<close>

partial_function (option) wait_completed :: "(nat \<Rightarrow> shm_state \<Rightarrow> shm_state) \<Rightarrow> nat \<Rightarrow> shm_state \<Rightarrow> (nat \<times> shm_state) option" where
  "wait_completed others k st =
     (let st0 = others k st in
      if so_completed (ss_swap_out_cmd st0) then Some (Suc k, st0) else wait_completed others (Suc k) st0)"

definition post_swap_out :: "u8 \<Rightarrow> int \<Rightarrow> shm_state \<Rightarrow> shm_state" where
  "post_swap_out me flag st =
     (let existing = so_action (ss_swap_out_cmd st) in
      if existing = SWAP_OUT_NONE \<or> flag = SWAP_OUT_FROM_ALL \<and> existing = SWAP_OUT_FROM_BORROWED
      then st\<lparr>ss_swap_out_cmd := (ss_swap_out_cmd st)\<lparr>so_target_vnpu_id := uint me, so_action := flag, so_completed := False\<rparr>\<rparr>
      else st)"

text \<open>\<open>mem i\<close> is what the driver answers in round \<open>i\<close>: a return code and the free memory of the device.\<close>

fun swap_out_retry ::
    "(nat \<Rightarrow> int \<times> u64) \<Rightarrow> (nat \<Rightarrow> shm_state \<Rightarrow> shm_state) \<Rightarrow> u8 \<Rightarrow> u64 \<Rightarrow> int \<Rightarrow> nat list \<Rightarrow> nat \<Rightarrow> shm_state option \<Rightarrow> (int \<times> shm_state option) option" where
  "swap_out_retry mem others me requested flag [] k so = Some (RT_ENPU_FAIL, so)"
| "swap_out_retry mem others me requested flag (i # is) k so =
     (case mem i of (ret, free_size) \<Rightarrow>
        if ret \<noteq> 0 then Some (RT_ENPU_FAIL, so)
        else if requested \<le> free_size then Some (ENPU_SUCCESS, so)
        else case so of None \<Rightarrow> None
        | Some st \<Rightarrow>
            Option.bind (wait_completed others k st) (\<lambda>(k1, st1).
              Option.bind (wait_completed others k1 (post_swap_out me flag st1)) (\<lambda>(k2, st2).
                swap_out_retry mem others me requested flag is k2 (Some st2))))"

abbreviation (input) SWAP_OUT_MAX_RETRY :: nat where "SWAP_OUT_MAX_RETRY \<equiv> 10"

definition check_and_swap_out ::
    "(nat \<Rightarrow> int \<times> u64) \<Rightarrow> (nat \<Rightarrow> shm_state \<Rightarrow> shm_state) \<Rightarrow> u8 \<Rightarrow> u64 \<Rightarrow> int \<Rightarrow> shm_state option \<Rightarrow> (int \<times> shm_state option) option" where
  "check_and_swap_out mem others me requested flag so =
     swap_out_retry mem others me requested flag [0..<SWAP_OUT_MAX_RETRY] 0 so"

section \<open>The checks\<close>

text \<open>\<open>used\<close> is the memory in use the driver reports, or \<^term>\<open>None\<close> when the query fails.\<close>

definition add_overflows :: "u64 \<Rightarrow> u64 \<Rightarrow> bool" where
  "add_overflows a b \<longleftrightarrow> unat a + unat b \<ge> 2 ^ 64"

definition memory_check :: "npu_info \<Rightarrow> u64 option \<Rightarrow> u64 \<Rightarrow> bool" where
  "memory_check n used requested =
     (case used of None \<Rightarrow> False
      | Some used \<Rightarrow>
        if add_overflows requested used then False
        else if requested + used > ni_mem_limit_quota n then False
        else True)"

definition get_mem_dynamic_free :: "shm_state option \<Rightarrow> u64" where
  "get_mem_dynamic_free so = (case so of None \<Rightarrow> 0 | Some st \<Rightarrow> shm_get_dynamic_free st)"

definition memory_check_elastic ::
    "(nat \<Rightarrow> int \<times> u64) \<Rightarrow> (nat \<Rightarrow> shm_state \<Rightarrow> shm_state) \<Rightarrow> npu_info \<Rightarrow> u64 option \<Rightarrow> u64 \<Rightarrow> shm_state option \<Rightarrow> (bool \<times> shm_state option) option" where
  "memory_check_elastic mem others n used requested so =
     (case used of None \<Rightarrow> Some (False, so)
      | Some used \<Rightarrow>
        if add_overflows requested used then Some (False, so)
        else let new_total = requested + used in
          if new_total > ni_mem_limit_quota n then Some (False, so)
          else if ni_mem_request_quota n = 0 \<or> new_total \<le> ni_mem_request_quota n
          then map_option (\<lambda>(ret, so'). (ret = ENPU_SUCCESS, so'))
                 (check_and_swap_out mem others (ni_vnpu_id n) requested SWAP_OUT_FROM_BORROWED so)
          else let borrow_needed = (if used > ni_mem_request_quota n then requested else new_total - ni_mem_request_quota n)
               in Some (\<not> borrow_needed > get_mem_dynamic_free so, so))"

datatype guard_result = Granted | Lock_failed | Over_limit

definition guard_memory ::
    "bool \<Rightarrow> (nat \<Rightarrow> int \<times> u64) \<Rightarrow> (nat \<Rightarrow> shm_state \<Rightarrow> shm_state) \<Rightarrow> npu_info \<Rightarrow> u64 option \<Rightarrow> u64 \<Rightarrow> bool \<Rightarrow> shm_state option \<Rightarrow> (guard_result \<times> shm_state option) option" where
  "guard_memory lock_ok mem others n used requested swap_enabled so =
     (if \<not> lock_ok then Some (Lock_failed, so)
      else map_option (\<lambda>(ok, so'). (if ok then Granted else Over_limit, so'))
        (if swap_enabled \<and> get_swap_enabled n then memory_check_elastic mem others n used requested so
         else Some (memory_check n used requested, so)))"

section \<open>What the process is told\<close>

text \<open>The free and the total memory the hook of \<^verbatim>\<open>rtMemGetInfoEx\<close> reports, \<^term>\<open>None\<close> for an error.\<close>

definition rtMemGetInfoEx :: "npu_info \<Rightarrow> u64 option \<Rightarrow> shm_state option \<Rightarrow> (u64 \<times> u64) option" where
  "rtMemGetInfoEx n used so =
     (let quota = ni_mem_limit_quota n in
      case used of None \<Rightarrow> None
      | Some used \<Rightarrow>
        if used > quota then None
        else let remain = quota - used in
          if so = None \<or> quota = ni_mem_request_quota n then Some (remain, quota)
          else let dynamic_free = get_mem_dynamic_free so; request = ni_mem_request_quota n in
            if request > used
            then let free_mem_1 = request - used + dynamic_free;
                     free_mem_2 = (if free_mem_1 < remain then free_mem_1 else remain)
                 in Some (if free_mem_2 > request - used then free_mem_2 else request - used, quota)
            else Some (if dynamic_free < remain then dynamic_free else remain, quota))"

definition aclrtGetMemInfoImpl :: "npu_info \<Rightarrow> u64 option \<Rightarrow> (u64 \<times> u64) option" where
  "aclrtGetMemInfoImpl n used =
     (case used of None \<Rightarrow> None
      | Some used \<Rightarrow>
        if used > ni_mem_limit_quota n then None else Some (ni_mem_limit_quota n - used, ni_mem_limit_quota n))"


section \<open>The reported free memory is what the guard grants\<close>

lemma u64_bound: "unat (x :: u64) < 2 ^ 64"
  using unsigned_less [of x] by simp

lemma unat_sum: "\<not> add_overflows a b \<Longrightarrow> unat (a + b) = unat a + unat b"
  by (simp add: add_overflows_def unat_plus_if_size size_word_def)

lemma guard_fixed:
  assumes "ni_mem_request_quota n = ni_mem_limit_quota n" and "rtMemGetInfoEx n (Some used) so = Some (free, total')"
  shows "guard_memory True mem others n (Some used) requested True so = Some (if requested \<le> free then Granted else Over_limit, so)"
proof -
  have u: "used \<le> ni_mem_limit_quota n" and f: "free = ni_mem_limit_quota n - used"
    using assms by (auto simp: rtMemGetInfoEx_def Let_def split: if_splits)
  have "memory_check n (Some used) requested \<longleftrightarrow> requested \<le> free"
  proof (cases "add_overflows requested used")
    case True
    then have "unat requested > unat (ni_mem_limit_quota n) - unat used"
      using u64_bound [of "ni_mem_limit_quota n"] u64_bound [of used] unfolding add_overflows_def by linarith
    then show ?thesis using True u by (simp add: memory_check_def f word_le_nat_alt unat_sub)
  next
    case False
    then show ?thesis using u by (auto simp: memory_check_def f word_le_nat_alt word_less_nat_alt unat_sub unat_sum)
  qed
  then show ?thesis using assms(1) by (simp add: guard_memory_def get_swap_enabled_def)
qed

lemma room_on_device:
  assumes "mem 0 = (0, device_free)" and "requested \<le> device_free"
  shows "check_and_swap_out mem others me requested flag so = Some (ENPU_SUCCESS, so)"
proof -
  have "[0..<SWAP_OUT_MAX_RETRY] = 0 # [1..<10]" by (simp add: upt_rec)
  then show ?thesis using assms unfolding check_and_swap_out_def by (simp only: swap_out_retry.simps) simp
qed

text \<open>The elastic check in natural numbers.\<close>

lemma elastic_check:
  assumes "ni_mem_request_quota n \<noteq> 0" and "mem 0 = (0, device_free)" and "requested \<le> device_free"
  shows "memory_check_elastic mem others n (Some used) requested so =
    Some (unat requested + unat used \<le> unat (ni_mem_limit_quota n)
      \<and> (unat requested + unat used \<le> unat (ni_mem_request_quota n)
         \<or> unat requested \<le> unat (get_mem_dynamic_free so) + (unat (ni_mem_request_quota n) - unat used)), so)"
proof (cases "add_overflows requested used")
  case True
  then show ?thesis using u64_bound [of "ni_mem_limit_quota n"] by (simp add: memory_check_elastic_def add_overflows_def)
next
  case False
  note s = unat_sum [OF False]
  show ?thesis
  proof (cases "requested + used > ni_mem_limit_quota n")
    case True
    then show ?thesis using False s by (simp add: memory_check_elastic_def word_less_nat_alt)
  next
    case lim: False
    show ?thesis
    proof (cases "requested + used \<le> ni_mem_request_quota n")
      case True
      then show ?thesis using False lim s assms by (simp add: memory_check_elastic_def Let_def room_on_device word_le_nat_alt word_less_nat_alt)
    next
      case req: False
      have "unat (if used > ni_mem_request_quota n then requested else requested + used - ni_mem_request_quota n)
          = unat requested - (unat (ni_mem_request_quota n) - unat used)"
        using req s by (auto simp: word_le_nat_alt word_less_nat_alt unat_sub)
      then show ?thesis using False lim req s assms(1)
        by (auto simp: memory_check_elastic_def Let_def word_le_nat_alt word_less_nat_alt)
    qed
  qed
qed

lemma guard_elastic:
  assumes "ni_mem_request_quota n < ni_mem_limit_quota n" and "ni_mem_request_quota n \<noteq> 0"
    and "rtMemGetInfoEx n (Some used) (Some st) = Some (free, total')"
    and "\<not> add_overflows (ni_mem_request_quota n) (shm_get_dynamic_free st)"
    and "mem 0 = (0, device_free)" and "requested \<le> device_free"
  shows "guard_memory True mem others n (Some used) requested True (Some st) = Some (if requested \<le> free then Granted else Over_limit, Some st)"
proof -
  define L R D u a where d: "L = unat (ni_mem_limit_quota n)" "R = unat (ni_mem_request_quota n)" "D = unat (shm_get_dynamic_free st)"
    "u = unat used" "a = unat requested"
  have lim: "R < L" using assms(1) by (simp add: d word_less_nat_alt)
  have ov: "R + D < 2 ^ 64" using assms(4) by (simp add: d add_overflows_def)
  have uL: "u \<le> L" and f: "unat free = (if R > u then max (min (R - u + D) (L - u)) (R - u) else min D (L - u))"
  proof -
    have uq: "used \<le> ni_mem_limit_quota n" using assms(3) by (auto simp: rtMemGetInfoEx_def Let_def split: if_splits)
    then show "u \<le> L" by (simp add: d word_le_nat_alt)
    have rem: "unat (ni_mem_limit_quota n - used) = L - u" using uq by (simp add: d unat_sub)
    have ne: "ni_mem_limit_quota n \<noteq> ni_mem_request_quota n" using assms(1) by auto
    show "unat free = (if R > u then max (min (R - u + D) (L - u)) (R - u) else min D (L - u))"
    proof (cases "ni_mem_request_quota n > used")
      case True
      then have ru: "unat (ni_mem_request_quota n - used) = R - u" and Ru: "R > u" using unat_sub [of used "ni_mem_request_quota n"] by (simp_all add: d word_less_nat_alt word_le_nat_alt)
      have "unat (ni_mem_request_quota n - used + shm_get_dynamic_free st) = R - u + D"
        using unat_sum [of "ni_mem_request_quota n - used" "shm_get_dynamic_free st"] ru ov unfolding add_overflows_def d by linarith
      then show ?thesis using assms(3) True uq ne rem ru Ru
        by (auto simp: rtMemGetInfoEx_def Let_def get_mem_dynamic_free_def word_less_nat_alt max_def min_def split: if_splits)
    next
      case False
      then show ?thesis using assms(3) uq ne rem
        by (auto simp: rtMemGetInfoEx_def Let_def get_mem_dynamic_free_def word_less_nat_alt d min_def split: if_splits)
    qed
  qed
  have e: "(a + u \<le> L \<and> (a + u \<le> R \<or> a \<le> D + (R - u))) \<longleftrightarrow> a \<le> unat free"
    unfolding f using uL lim by (auto simp: max_def min_def)
  have sw: "get_swap_enabled n" using assms(1) by (auto simp: get_swap_enabled_def)
  have "memory_check_elastic mem others n (Some used) requested (Some st) = Some (a \<le> unat free, Some st)"
    using elastic_check [of n mem device_free requested others used "Some st"] assms(2,5,6) e by (simp add: d get_mem_dynamic_free_def)
  then show ?thesis using sw by (simp add: guard_memory_def d word_le_nat_alt)
qed

text \<open>C27: the free memory reported to a process is exactly what it can allocate: as long as the device itself has
  room, the guard grants a request if and only if it is at most the reported free memory, with and
  without overcommitment. (The sum of the guaranteed quota and the memory to borrow must not wrap around.)\<close>

theorem reported_free_is_granted:
  assumes "ni_mem_request_quota n \<le> ni_mem_limit_quota n" and "ni_mem_request_quota n \<noteq> 0"
    and "rtMemGetInfoEx n (Some used) (Some st) = Some (free, total')"
    and "\<not> add_overflows (ni_mem_request_quota n) (shm_get_dynamic_free st)"
    and "mem 0 = (0, device_free)" and "requested \<le> device_free"
  shows "guard_memory True mem others n (Some used) requested True (Some st) = Some (if requested \<le> free then Granted else Over_limit, Some st)"
proof (cases "ni_mem_request_quota n = ni_mem_limit_quota n")
  case True
  then show ?thesis using guard_fixed [OF True assms(3)] by simp
next
  case False
  then have "ni_mem_request_quota n < ni_mem_limit_quota n" using assms(1) by simp
  then show ?thesis using guard_elastic [of n used st free total' mem device_free requested others] assms(2-6) by blast
qed

section \<open>The quota under concurrent allocations\<close>

text \<open>The guard releases its lock before the allocation is made. A vNPU with \<open>n\<close> threads that allocate: a thread
  checks, then the driver allocates or fails; memory is freed at any time. The driver reports the
  bytes in use.\<close>

record quota_state =
  qs_used :: nat
  qs_granted :: "nat \<Rightarrow> nat"

inductive quota_step :: "npu_info \<Rightarrow> nat \<Rightarrow> quota_state \<Rightarrow> quota_state \<Rightarrow> bool" for info n where
  check: "p < n \<Longrightarrow> qs_granted s p = 0 \<Longrightarrow> memory_check info (Some (of_nat (qs_used s))) requested \<Longrightarrow>
    quota_step info n s (s\<lparr>qs_granted := (qs_granted s)(p := unat requested)\<rparr>)"
| alloc: "p < n \<Longrightarrow> quota_step info n s (s\<lparr>qs_used := qs_used s + qs_granted s p, qs_granted := (qs_granted s)(p := 0)\<rparr>)"
| fail: "p < n \<Longrightarrow> quota_step info n s (s\<lparr>qs_granted := (qs_granted s)(p := 0)\<rparr>)"
| release: "b \<le> qs_used s \<Longrightarrow> quota_step info n s (s\<lparr>qs_used := qs_used s - b\<rparr>)"

definition quota_start :: quota_state where
  "quota_start = \<lparr>qs_used = 0, qs_granted = (\<lambda>_. 0)\<rparr>"

definition quota_inv :: "npu_info \<Rightarrow> nat \<Rightarrow> quota_state \<Rightarrow> bool" where
  "quota_inv info n s \<longleftrightarrow> qs_used s + (\<Sum>p<n. qs_granted s p) \<le> n * unat (ni_mem_limit_quota info)
     \<and> (\<forall>p<n. qs_granted s p \<le> unat (ni_mem_limit_quota info))"

lemma memory_check_nat:
  assumes "u < 2 ^ 64"
  shows "memory_check info (Some (of_nat u)) requested \<longleftrightarrow> unat requested + u \<le> unat (ni_mem_limit_quota info)"
proof -
  have u: "unat (of_nat u :: u64) = u" using assms by (simp add: unsigned_of_nat take_bit_nat_eq_self)
  show ?thesis
  proof (cases "add_overflows requested (of_nat u)")
    case True
    then show ?thesis using u u64_bound [of "ni_mem_limit_quota info"] by (simp add: memory_check_def add_overflows_def)
  next
    case False
    then show ?thesis using u by (simp add: memory_check_def word_less_nat_alt unat_sum not_less)
  qed
qed

lemma sum_without: "p < n \<Longrightarrow> (\<Sum>q<n. (f(p := v)) q) = v + (\<Sum>q\<in>{..<n} - {p}. f q)" for f :: "nat \<Rightarrow> nat"
proof -
  assume "p < n"
  moreover have "(\<Sum>q\<in>{..<n} - {p}. (f(p := v)) q) = (\<Sum>q\<in>{..<n} - {p}. f q)" by (rule sum.cong) auto
  ultimately show ?thesis using sum.remove [of "{..<n}" p "f(p := v)"] by simp
qed

lemma sum_upd: "p < n \<Longrightarrow> (\<Sum>q<n. (f(p := v)) q) + f p = (\<Sum>q<n. f q) + v" for f :: "nat \<Rightarrow> nat"
  using sum_without [of p n f v] sum_without [of p n f "f p"] by simp

lemma quota_step_inv:
  assumes "quota_step info n s s'" and "quota_inv info n s" and "n * unat (ni_mem_limit_quota info) < 2 ^ 64"
  shows "quota_inv info n s'"
  using assms(1)
proof cases
  case (check p requested)
  have "unat requested + qs_used s \<le> unat (ni_mem_limit_quota info)"
    using check(4) memory_check_nat [of "qs_used s" info requested] assms(2,3) by (simp add: quota_inv_def)
  moreover have "(\<Sum>q\<in>{..<n} - {p}. qs_granted s q) \<le> (n - 1) * unat (ni_mem_limit_quota info)"
    using sum_bounded_above [of "{..<n} - {p}" "qs_granted s" "unat (ni_mem_limit_quota info)"] assms(2) check(2) by (simp add: quota_inv_def)
  moreover have "unat (ni_mem_limit_quota info) + (n - 1) * unat (ni_mem_limit_quota info) = n * unat (ni_mem_limit_quota info)"
    using check(2) by (cases n) auto
  moreover have "(\<Sum>q<n. ((qs_granted s)(p := unat requested)) q) = unat requested + (\<Sum>q\<in>{..<n} - {p}. qs_granted s q)"
    by (rule sum_without [OF check(2)])
  ultimately show ?thesis using assms(2) by (simp add: check(1) quota_inv_def)
next
  case (alloc p)
  then show ?thesis using assms(2) sum_upd [of p n "qs_granted s" 0] by (auto simp: quota_inv_def)
next
  case (fail p)
  then show ?thesis using assms(2) sum_upd [of p n "qs_granted s" 0] by (auto simp: quota_inv_def)
next
  case (release b)
  then show ?thesis using assms(2) by (auto simp: quota_inv_def)
qed

text \<open>All threads check before the first one allocates.\<close>

lemma check_all:
  assumes "k \<le> n" and "0 < unat (ni_mem_limit_quota info)"
  shows "(quota_step info n)\<^sup>*\<^sup>* quota_start \<lparr>qs_used = 0, qs_granted = (\<lambda>p. if p < k then unat (ni_mem_limit_quota info) else 0)\<rparr>"
  using assms(1)
proof (induction k)
  case 0
  then show ?case by (simp add: quota_start_def)
next
  case (Suc k)
  let ?s = "\<lparr>qs_used = 0, qs_granted = (\<lambda>p. if p < k then unat (ni_mem_limit_quota info) else 0)\<rparr>"
  have "quota_step info n ?s (?s\<lparr>qs_granted := (qs_granted ?s)(k := unat (ni_mem_limit_quota info))\<rparr>)"
    by (rule check) (use Suc.prems memory_check_nat [of 0 info "ni_mem_limit_quota info"] in auto)
  moreover have "(qs_granted ?s)(k := unat (ni_mem_limit_quota info)) = (\<lambda>p. if p < Suc k then unat (ni_mem_limit_quota info) else 0)"
    by (auto simp: fun_eq_iff)
  ultimately show ?case using Suc by (auto intro: rtranclp.rtrancl_into_rtrancl)
qed

lemma alloc_all:
  assumes "k \<le> n"
  shows "(quota_step info n)\<^sup>*\<^sup>* \<lparr>qs_used = 0, qs_granted = (\<lambda>p. if p < n then q else 0)\<rparr> \<lparr>qs_used = k * q, qs_granted = (\<lambda>p. if k \<le> p \<and> p < n then q else 0)\<rparr>"
  using assms
proof (induction k)
  case 0
  then show ?case by simp
next
  case (Suc k)
  let ?s = "\<lparr>qs_used = k * q, qs_granted = (\<lambda>p. if k \<le> p \<and> p < n then q else 0)\<rparr>"
  have "quota_step info n ?s (?s\<lparr>qs_used := qs_used ?s + qs_granted ?s k, qs_granted := (qs_granted ?s)(k := 0)\<rparr>)"
    by (rule alloc) (use Suc.prems in simp)
  moreover have "(qs_granted ?s)(k := 0) = (\<lambda>p. if Suc k \<le> p \<and> p < n then q else 0)" by (auto simp: fun_eq_iff)
  ultimately show ?case using Suc by (auto intro: rtranclp.rtrancl_into_rtrancl simp: add.commute)
qed

text \<open>C28: the limit of a vNPU is exceeded at most by the number of threads that allocate at the same time: with
  \<open>n\<close> threads the memory in use never exceeds \<open>n\<close> times the limit, so one thread keeps the limit, and
  \<open>n\<close> times the limit is reached when all of them pass the check before the first one allocates.\<close>

theorem quota_exceeded_at_most:
  assumes "n * unat (ni_mem_limit_quota info) < 2 ^ 64"
  shows "(\<forall>s. (quota_step info n)\<^sup>*\<^sup>* quota_start s \<longrightarrow> qs_used s \<le> n * unat (ni_mem_limit_quota info))
    \<and> (\<exists>s. (quota_step info n)\<^sup>*\<^sup>* quota_start s \<and> qs_used s = n * unat (ni_mem_limit_quota info))"
proof
  have "quota_inv info n s" if "(quota_step info n)\<^sup>*\<^sup>* quota_start s" for s
    using that
  proof (induction rule: rtranclp_induct)
    case base
    then show ?case by (simp add: quota_inv_def quota_start_def)
  next
    case (step s s')
    then show ?case using quota_step_inv assms by blast
  qed
  then show "\<forall>s. (quota_step info n)\<^sup>*\<^sup>* quota_start s \<longrightarrow> qs_used s \<le> n * unat (ni_mem_limit_quota info)"
    by (fastforce simp: quota_inv_def)
  let ?q = "unat (ni_mem_limit_quota info)"
  show "\<exists>s. (quota_step info n)\<^sup>*\<^sup>* quota_start s \<and> qs_used s = n * ?q"
  proof (cases "?q = 0")
    case True
    then show ?thesis by (intro exI [of _ quota_start]) (simp add: quota_start_def)
  next
    case False
    then have "(quota_step info n)\<^sup>*\<^sup>* quota_start \<lparr>qs_used = 0, qs_granted = (\<lambda>p. if p < n then ?q else 0)\<rparr>"
      using check_all [of n n info] by simp
    then show ?thesis using alloc_all [of n n info ?q] by (meson order_refl quota_state.select_convs(1) rtranclp_trans)
  qed
qed

definition demo_info :: npu_info where
  "demo_info = \<lparr>ni_pnpu_id = 0, ni_vnpu_id = 3, ni_vnpu_priority = 0, ni_mem_request_quota = 100, ni_mem_limit_quota = 200,
     ni_core_limit_quota = 50, ni_is_core_limit = True, ni_sched_policy = 1, ni_shm_id = ''die0'', ni_vcann_rt_id = -1,
     ni_registry_slot = -1, ni_last_seen_cmd_seq = 0\<rparr>"

theorem quota_exceeded_at_most_witness:
  "\<exists>s. (quota_step demo_info 2)\<^sup>*\<^sup>* quota_start s \<and> qs_used s = 400"
  using quota_exceeded_at_most [of 2 demo_info] by (simp add: demo_info_def)

lemma dynamic_free_le: "shm_get_dynamic_free st \<le> ss_hbm_total st"
proof -
  obtain u r where f: "free_totals st [0..<MAX_VNPU_PER_DIE] (0, 0) = (u, r)" by fastforce
  have "ss_hbm_total st - r - u \<le> ss_hbm_total st" if "\<not> ss_hbm_total st \<le> r" "ss_hbm_total st - r > u"
  proof -
    have "ss_hbm_total st - r - u \<le> ss_hbm_total st - r" using that(2) by (simp add: word_sub_le)
    also have "\<dots> \<le> ss_hbm_total st" using that(1) by (simp add: word_sub_le)
    finally show ?thesis .
  qed
  then show ?thesis by (simp add: shm_get_dynamic_free_def f del: upt_rec_numeral upt.simps)
qed

theorem reported_free_is_granted_witness:
  "guard_memory True (\<lambda>_. (0, 1000)) (\<lambda>_ st. st) demo_info (Some 50) 30 True (Some demo_state) = Some (Granted, Some demo_state)"
proof -
  have t: "unat (shm_get_dynamic_free demo_state) \<le> unat (ss_hbm_total demo_state)" using dynamic_free_le [of demo_state] by (simp add: word_le_nat_alt)
  have "ss_hbm_total demo_state = 0"
    by (simp add: demo_state_def shm_state_posix_shm_create_def dec_int_def dec_nat.simps upd_process_def upd_entry_def)
  then have ov: "\<not> add_overflows (ni_mem_request_quota demo_info) (shm_get_dynamic_free demo_state)"
    using t by (simp add: add_overflows_def demo_info_def)
  obtain free tot where f: "rtMemGetInfoEx demo_info (Some 50) (Some demo_state) = Some (free, tot)"
    by (simp add: rtMemGetInfoEx_def Let_def demo_info_def)
  have "50 \<le> free" using f by (auto simp: rtMemGetInfoEx_def Let_def demo_info_def split: if_splits)
  then have "30 \<le> free" by (rule order_trans [rotated]) simp
  then show ?thesis
    using reported_free_is_granted [of demo_info 50 demo_state free tot "\<lambda>_. (0, 1000)" 1000 30 "\<lambda>_ st. st"] f ov by (simp add: demo_info_def)
qed

section \<open>Waiting for room\<close>

text \<open>When the manager serves the requests again and again, the waiting ends: some later round completes whatever
  the state is.\<close>

definition served :: "(nat \<Rightarrow> shm_state \<Rightarrow> shm_state) \<Rightarrow> bool" where
  "served others \<longleftrightarrow> (\<forall>k. \<exists>j \<ge> k. \<forall>st. so_completed (ss_swap_out_cmd (others j st)))"

lemma wait_completed_ends:
  assumes "served others"
  shows "\<exists>k' st'. wait_completed others k st = Some (k', st')"
proof -
  obtain j where j: "j \<ge> k" "\<forall>st. so_completed (ss_swap_out_cmd (others j st))" using assms by (auto simp: served_def)
  have "\<exists>k' st'. wait_completed others k st = Some (k', st')" if "k \<le> j" for k st
    using that
  proof (induction "j - k" arbitrary: k st)
    case 0
    then have "k = j" by simp
    then show ?case using j(2) by (subst wait_completed.simps) (simp add: Let_def)
  next
    case (Suc d)
    then have "d = j - Suc k" "Suc k \<le> j" by auto
    then show ?case using Suc.hyps(1) by (subst wait_completed.simps) (auto simp: Let_def)
  qed
  then show ?thesis using j(1) by blast
qed

lemma swap_out_retry_ends:
  assumes "served others"
  shows "\<exists>ret so'. swap_out_retry mem others me requested flag is k (Some st) = Some (ret, so')
    \<and> (ret = ENPU_SUCCESS \<longrightarrow> (\<exists>i \<in> set is. \<exists>f. mem i = (0, f) \<and> requested \<le> f))"
proof (induction "is" arbitrary: k st)
  case (Cons i "is")
  obtain ret f where m: "mem i = (ret, f)" by fastforce
  show ?case
  proof (cases "ret \<noteq> 0 \<or> requested \<le> f")
    case True
    then show ?thesis using m by auto
  next
    case False
    obtain k1 st1 where 1: "wait_completed others k st = Some (k1, st1)" using wait_completed_ends [OF assms] by blast
    obtain k2 st2 where 2: "wait_completed others k1 (post_swap_out me flag st1) = Some (k2, st2)" using wait_completed_ends [OF assms] by blast
    show ?thesis using Cons.IH [of k2 st2] False m 1 2 by auto
  qed
qed simp

text \<open>With a shared memory and a manager that serves, the request for room returns, and success means that the
  device had room for the request in one of the ten rounds.\<close>

lemma check_and_swap_out_ends:
  assumes "served others"
  shows "\<exists>ret so'. check_and_swap_out mem others me requested flag (Some st) = Some (ret, so')
    \<and> (ret = ENPU_SUCCESS \<longrightarrow> (\<exists>i < SWAP_OUT_MAX_RETRY. \<exists>f. mem i = (0, f) \<and> requested \<le> f))"
  using swap_out_retry_ends [OF assms, of mem me requested flag "[0..<SWAP_OUT_MAX_RETRY]" 0 st]
  unfolding check_and_swap_out_def set_upt by fastforce

text \<open>Without one, a request beyond the free memory dereferences a null pointer.\<close>

lemma check_and_swap_out_null:
  assumes "mem 0 = (0, f)" and "f < requested"
  shows "check_and_swap_out mem others me requested flag None = None"
proof -
  have "[0..<SWAP_OUT_MAX_RETRY] = 0 # [1..<10]" by (simp add: upt_rec)
  then show ?thesis using assms unfolding check_and_swap_out_def by (simp only: swap_out_retry.simps) (simp add: not_le)
qed

section \<open>Configuration and registration\<close>

text \<open>An accepted configuration indexes the arrays of the scheduler in bounds and its quotas do not wrap around.\<close>

lemma config_info_bounds:
  assumes "enpu_config_info_init c n = (ENPU_SUCCESS, n')" and "rc_memory_request c \<noteq> 0"
  shows "unat (ni_vnpu_id n') < MAX_VNPU_SCHED" "unat (ni_mem_request_quota n') = unat (rc_memory_request c) * 2 ^ 20"
    "unat (ni_mem_limit_quota n') = unat (rc_memory_limit c) * 2 ^ 20" "ni_is_core_limit n' \<Longrightarrow> ni_core_limit_quota n' \<noteq> 0"
proof -
  have mul: "unat (q * MB_TO_B) = unat q * 2 ^ 20" if "in_range q" for q
  proof -
    have "unat q \<le> unat (-1 div MB_TO_B :: u64)" using that by (simp add: in_range_def word_le_nat_alt)
    also have "\<dots> = 17592186044415" by simp
    finally have "unat q * unat (MB_TO_B :: u64) < 2 ^ 64" by simp
    then show ?thesis by (simp add: unat_word_ariths)
  qed
  obtain n1 n2 where 1: "config_memory c n = Some n1" and 2: "config_cores c n1 = Some n2" and v: "0 \<le> rc_vnpu_id c" "rc_vnpu_id c < 100"
    and n': "n' = n2\<lparr>ni_pnpu_id := word_of_int (rc_phy_npu_id c), ni_vnpu_id := word_of_int (rc_vnpu_id c),
        ni_vnpu_priority := word_of_int (rc_vnpu_priority c), ni_sched_policy := rc_scheduling_policy c, ni_shm_id := rc_shm_id c\<rparr>"
    using assms(1) by (auto simp: enpu_config_info_init_def Let_def split: if_splits option.splits)
  have r: "in_range (rc_memory_request c)" "in_range (rc_memory_limit c)" "ni_mem_request_quota n1 = rc_memory_request c * MB_TO_B"
      "ni_mem_limit_quota n1 = rc_memory_limit c * MB_TO_B"
    using 1 assms(2) by (auto simp: config_memory_def split: if_splits)
  have q: "ni_mem_request_quota n2 = ni_mem_request_quota n1" "ni_mem_limit_quota n2 = ni_mem_limit_quota n1"
    using 2 by (auto simp: config_cores_def split: if_splits)
  show "unat (ni_mem_request_quota n') = unat (rc_memory_request c) * 2 ^ 20" "unat (ni_mem_limit_quota n') = unat (rc_memory_limit c) * 2 ^ 20"
    using mul r q by (simp_all add: n')
  show "unat (ni_vnpu_id n') < MAX_VNPU_SCHED" using v by (simp add: n' unat_eq_nat_uint uint_word_of_int_eq take_bit_int_eq_self)
  show "ni_core_limit_quota n' \<noteq> 0" if "ni_is_core_limit n'"
  proof -
    have "1 \<le> rc_aicore_quota c" "rc_aicore_quota c \<le> 100" "ni_core_limit_quota n2 = word_of_int (rc_aicore_quota c)"
      using 2 that by (auto simp: n' config_cores_def split: if_splits)
    then show ?thesis by (simp add: n' word_of_int_eq_0_iff zdvd_not_zless)
  qed
qed

lemma first_inactive_Some: "first_inactive e is = Some i \<Longrightarrow> i \<in> set is \<and> \<not> pr_active (ve_processes e i)"
  by (induction "is") (auto split: if_splits)

lemma first_inactive_None: "first_inactive e is = None \<longleftrightarrow> (\<forall>i \<in> set is. pr_active (ve_processes e i))"
  by (induction "is") auto

text \<open>A registration takes a free slot and touches no other slot; it fails for a valid vNPU only when all 64 slots
  are taken. The number given to a process is positive, also after the counter wraps around.\<close>

lemma register_exact:
  assumes "register_to_shm_state pid now (Some st) v n = (rc, so', n')" and "0 \<le> v" and "v < int MAX_VNPU_PER_DIE"
  shows "rc = ENPU_SUCCESS \<longleftrightarrow> (\<exists>i < MAX_PROCESSES_PER_VNPU. \<not> pr_active (ve_processes (ss_entries st (nat v)) i))"
    and "rc = ENPU_SUCCESS \<Longrightarrow> \<exists>i st'. so' = Some st' \<and> i < MAX_PROCESSES_PER_VNPU \<and> ni_registry_slot n' = int i \<and> ni_vcann_rt_id n' > 0
      \<and> \<not> pr_active (ve_processes (ss_entries st (nat v)) i) \<and> pr_active (ve_processes (ss_entries st' (nat v)) i)
      \<and> (\<forall>w j. (w, j) \<noteq> (nat v, i) \<longrightarrow> ve_processes (ss_entries st' w) j = ve_processes (ss_entries st w) j)"
proof -
  have "(rc = ENPU_SUCCESS \<longleftrightarrow> (\<exists>i < MAX_PROCESSES_PER_VNPU. \<not> pr_active (ve_processes (ss_entries st (nat v)) i)))
    \<and> (rc = ENPU_SUCCESS \<longrightarrow> (\<exists>i st'. so' = Some st' \<and> i < MAX_PROCESSES_PER_VNPU \<and> ni_registry_slot n' = int i \<and> ni_vcann_rt_id n' > 0
      \<and> \<not> pr_active (ve_processes (ss_entries st (nat v)) i) \<and> pr_active (ve_processes (ss_entries st' (nat v)) i)
      \<and> (\<forall>w j. (w, j) \<noteq> (nat v, i) \<longrightarrow> ve_processes (ss_entries st' w) j = ve_processes (ss_entries st w) j)))"
  proof (cases "first_inactive (ss_entries st (nat v)) slots")
    case None
    then have "\<forall>i < MAX_PROCESSES_PER_VNPU. pr_active (ve_processes (ss_entries st (nat v)) i)"
      unfolding first_inactive_None set_upt by simp
    then show ?thesis using assms None by (auto simp: register_to_shm_state_def Let_def simp del: upt_rec_numeral upt.simps)
  next
    case (Some i)
    have i: "i < MAX_PROCESSES_PER_VNPU" "\<not> pr_active (ve_processes (ss_entries st (nat v)) i)"
      using first_inactive_Some [OF Some] unfolding set_upt by simp_all
    have rc: "rc = ENPU_SUCCESS" and n': "ni_registry_slot n' = int i" "ni_vcann_rt_id n' > 0"
      using assms Some by (auto simp: register_to_shm_state_def Let_def simp del: upt_rec_numeral upt.simps)
    obtain st' where so': "so' = Some st'" "pr_active (ve_processes (ss_entries st' (nat v)) i)"
        "\<forall>w j. (w, j) \<noteq> (nat v, i) \<longrightarrow> ve_processes (ss_entries st' w) j = ve_processes (ss_entries st w) j"
      using assms Some by (auto simp: register_to_shm_state_def Let_def upd_process_def upd_entry_def simp del: upt_rec_numeral upt.simps)
    show ?thesis using i rc n' so' by blast
  qed
  then show "rc = ENPU_SUCCESS \<longleftrightarrow> (\<exists>i < MAX_PROCESSES_PER_VNPU. \<not> pr_active (ve_processes (ss_entries st (nat v)) i))"
    and "rc = ENPU_SUCCESS \<Longrightarrow> \<exists>i st'. so' = Some st' \<and> i < MAX_PROCESSES_PER_VNPU \<and> ni_registry_slot n' = int i \<and> ni_vcann_rt_id n' > 0
      \<and> \<not> pr_active (ve_processes (ss_entries st (nat v)) i) \<and> pr_active (ve_processes (ss_entries st' (nat v)) i)
      \<and> (\<forall>w j. (w, j) \<noteq> (nat v, i) \<longrightarrow> ve_processes (ss_entries st' w) j = ve_processes (ss_entries st w) j)" by blast+
qed

text \<open>A process that leaves gives its memory back to the account of the vNPU.\<close>

lemma unregister_returns_memory:
  assumes "unregister_from_shm_state (Some st) v slot n = (so', n')" and "0 \<le> v" "v < int MAX_VNPU_PER_DIE" "0 \<le> slot" "slot < int MAX_PROCESSES_PER_VNPU"
  shows "\<exists>st'. so' = Some st' \<and> ve_hbm_used (ss_entries st' (nat v)) = ve_hbm_used (ss_entries st (nat v)) - pr_hbm_used (ve_processes (ss_entries st (nat v)) (nat slot))
    \<and> \<not> pr_active (ve_processes (ss_entries st' (nat v)) (nat slot)) \<and> pr_hbm_used (ve_processes (ss_entries st' (nat v)) (nat slot)) = 0"
proof (cases "pr_hbm_used (ve_processes (ss_entries st (nat v)) (nat slot)) = 0")
  case True
  then show ?thesis using assms by (auto simp: unregister_from_shm_state_def Let_def upd_process_def upd_entry_def)
next
  case False
  then have "pr_hbm_used (ve_processes (ss_entries st (nat v)) (nat slot)) > 0" by (simp add: word_neq_0_conv)
  then show ?thesis using assms by (auto simp: unregister_from_shm_state_def Let_def upd_process_def upd_entry_def)
qed

end
