(* ===== verification/Swap_Executor.thy ===== *)
theory Swap_Executor
  imports Memory_Tracker Mem_Limiter Core_Scheduler
begin

text \<open>
  Swapping of the memory of a runtime process (\<^verbatim>\<open>vcann-rt/src/swap_executor.c\<close>, \<^verbatim>\<open>swap_hook.c\<close>,
  \<^verbatim>\<open>swap_monitor_thread.c\<close>). On a swap-out command the monitor thread copies the tracked memory of the
  process to its range of the swap buffer and frees it on the device; the first hooked call after that
  copies it back. The calls into the driver are logged with their return codes; the outcome of the
  call with number \<open>k\<close> is a parameter. Addresses and handles are words.
\<close>

section \<open>Calls into the driver\<close>

datatype mem_call =
    Reserve_address u64
  | Release_address u64
  | Map_mem u64 u64 u64 u64 u64
  | Unmap_mem u64
  | Memcpy u64 u64 u64
  | Malloc_physical u64
  | Free_physical u64
  | Get_granularity

type_synonym call_log = "(mem_call \<times> int) list"

text \<open>The return code and the value (an address, a handle or the granularity) of every call.\<close>

record driver =
  dv_ret :: "nat \<Rightarrow> int"
  dv_val :: "nat \<Rightarrow> u64"

definition invoke :: "driver \<Rightarrow> mem_call \<Rightarrow> call_log \<Rightarrow> int \<times> u64 \<times> call_log" where
  "invoke d c l = (dv_ret d (length l), dv_val d (length l), l @ [(c, dv_ret d (length l))])"

section \<open>Swapping out\<close>

definition copy_and_unmap :: "driver \<Rightarrow> u64 \<Rightarrow> u64 \<Rightarrow> u64 \<Rightarrow> call_log \<Rightarrow> bool \<times> call_log" where
  "copy_and_unmap d dst va sz l =
     (case invoke d (Memcpy dst va sz) l of (rc, _, l1) \<Rightarrow>
        if rc \<noteq> 0 then (False, l1)
        else case invoke d (Unmap_mem va) l1 of (rc, _, l2) \<Rightarrow> (rc = 0, l2))"

definition swap_out_physical :: "driver \<Rightarrow> 'prop memory_tracker \<Rightarrow> u64 \<Rightarrow> memory_record \<Rightarrow> call_log \<Rightarrow> bool \<times> call_log" where
  "swap_out_physical d t dst r l =
     (case memory_tracker_get_map_va t (mr_ptr r) of (rc, va) \<Rightarrow>
        if rc \<noteq> ENPU_SUCCESS \<or> va = 0
        then (case invoke d (Reserve_address (mr_size r)) l of (rc1, va1, l1) \<Rightarrow>
          if rc1 \<noteq> 0 then (False, l1)
          else case invoke d (Map_mem va1 (mr_size r) 0 (mr_handle r) 0) l1 of (rc2, _, l2) \<Rightarrow>
            if rc2 \<noteq> 0 then (False, l2)
            else case copy_and_unmap d dst va1 (mr_size r) l2 of (ok, l3) \<Rightarrow>
              if \<not> ok then (False, l3)
              else case invoke d (Release_address va1) l3 of (rc3, _, l4) \<Rightarrow> (rc3 = 0, l4))
        else copy_and_unmap d dst va (mr_size r) l)"

definition swap_out_one :: "driver \<Rightarrow> 'prop memory_tracker \<Rightarrow> u64 \<Rightarrow> memory_record \<Rightarrow> call_log \<Rightarrow> bool \<times> call_log" where
  "swap_out_one d t dst r l =
     (case (if mr_is_physical r then swap_out_physical d t dst r l else copy_and_unmap d dst (mr_ptr r) (mr_size r) l) of (ok, l1) \<Rightarrow>
        if \<not> ok then (False, l1)
        else case invoke d (Free_physical (mr_handle r)) l1 of (rc, _, l2) \<Rightarrow> (rc = 0, l2))"

text \<open>The loop returns the records, the next offset, the bytes swapped, the number of records swapped and the log.\<close>

fun swap_out_loop ::
    "driver \<Rightarrow> 'prop memory_tracker \<Rightarrow> u64 \<Rightarrow> memory_record list \<Rightarrow> u64 \<Rightarrow> u64 \<Rightarrow> u64 \<Rightarrow> call_log \<Rightarrow> memory_record list \<times> u64 \<times> u64 \<times> call_log" where
  "swap_out_loop d t base [] current_offset act_swapped check_record l = ([], act_swapped, check_record, l)"
| "swap_out_loop d t base (r # rs) current_offset act_swapped check_record l =
     (if mr_ptr r = 0 \<or> mr_is_swapped r
      then apfst ((#) r) (swap_out_loop d t base rs current_offset act_swapped check_record l)
      else case swap_out_one d t (base + current_offset) r l of (ok, l1) \<Rightarrow>
        if \<not> ok then apfst ((#) r) (swap_out_loop d t base rs current_offset act_swapped check_record l1)
        else apfst ((#) (memory_record_mark_swapped r current_offset))
          (swap_out_loop d t base rs (current_offset + mr_size r) (act_swapped + mr_size r) (check_record + 1) l1))"

text \<open>The executor is its base address, absent when it is null. The records are the first \<open>count\<close> of the tracker.\<close>

definition swap_executor_swap_out ::
    "driver \<Rightarrow> u64 option \<Rightarrow> 'prop memory_tracker \<Rightarrow> int \<Rightarrow> u64 \<Rightarrow> u64 \<Rightarrow> call_log \<Rightarrow> int \<times> 'prop memory_tracker \<times> u64 \<times> call_log" where
  "swap_executor_swap_out d executor t count swap_offset act_swapped l =
     (case executor of None \<Rightarrow> (RT_ENPU_FAIL, t, act_swapped, l)
      | Some base \<Rightarrow>
        if count \<le> 0 then (RT_ENPU_FAIL, t, act_swapped, l)
        else case swap_out_loop d t base (take (nat count) (mt_records t)) swap_offset act_swapped 0 l of
          (rs, act, check, l') \<Rightarrow>
            (ENPU_SUCCESS, t\<lparr>mt_records := rs @ drop (nat count) (mt_records t), mt_check_record := check\<rparr>, act, l'))"

section \<open>Swapping in\<close>

text \<open>A result is the return code and the address, size and handle as the call leaves them. A granularity of 0
  divides by zero.\<close>

definition free_and_fail :: "driver \<Rightarrow> u64 \<Rightarrow> call_log \<Rightarrow> call_log" where
  "free_and_fail d handle l = snd (snd (invoke d (Free_physical handle) l))"

definition map_and_copy ::
    "driver \<Rightarrow> u64 \<Rightarrow> bool \<Rightarrow> u64 \<Rightarrow> u64 \<Rightarrow> u64 \<Rightarrow> u64 \<Rightarrow> u64 \<Rightarrow> call_log \<Rightarrow> int \<times> u64 \<times> u64 \<times> u64 \<times> call_log" where
  "map_and_copy d base copy ptr offset sz aligned handle l =
     (case invoke d (Map_mem ptr aligned 0 handle 0) l of (rc, _, l1) \<Rightarrow>
        if rc \<noteq> 0 then (RT_ENPU_FAIL, ptr, sz, handle, free_and_fail d handle l1)
        else if \<not> copy then (ENPU_SUCCESS, ptr, aligned, handle, l1)
        else case invoke d (Memcpy ptr (base + offset) aligned) l1 of (rc, _, l2) \<Rightarrow>
          if rc \<noteq> 0 then (RT_ENPU_FAIL, ptr, aligned, handle, free_and_fail d handle l2)
          else (ENPU_SUCCESS, ptr, aligned, handle, l2))"

definition swap_executor_swap_in ::
    "driver \<Rightarrow> u64 option \<Rightarrow> bool \<Rightarrow> u64 \<Rightarrow> u64 \<Rightarrow> u64 \<Rightarrow> u64 \<Rightarrow> call_log \<Rightarrow> (int \<times> u64 \<times> u64 \<times> u64 \<times> call_log) option" where
  "swap_executor_swap_in d executor copy ptr offset sz handle l =
     (case executor of None \<Rightarrow> Some (RT_ENPU_FAIL, ptr, sz, handle, l)
      | Some base \<Rightarrow>
        (case invoke d Get_granularity l of (rc, granularity, l1) \<Rightarrow>
           if rc \<noteq> 0 then Some (RT_ENPU_FAIL, ptr, sz, handle, l1)
           else if granularity = 0 then None
           else let aligned = (sz + granularity - 1) div granularity * granularity in
             case invoke d (Malloc_physical aligned) l1 of (rc, new_handle, l2) \<Rightarrow>
               if rc \<noteq> 0 then Some (RT_ENPU_FAIL, ptr, sz, handle, l2)
               else if copy then Some (map_and_copy d base copy ptr offset sz aligned new_handle l2)
               else case invoke d (Reserve_address aligned) l2 of (rc, va, l3) \<Rightarrow>
                 if rc \<noteq> 0 then Some (rc, ptr, sz, new_handle, l3)
                 else Some (map_and_copy d base copy va offset sz aligned new_handle l3)))"

definition map_physical :: "driver \<Rightarrow> 'prop memory_tracker \<Rightarrow> u64 \<Rightarrow> u64 \<Rightarrow> u64 \<Rightarrow> call_log \<Rightarrow> (int \<times> u64 \<times> bool) option \<times> call_log" where
  "map_physical d t handle sz new_handle l =
     (case memory_tracker_get_map_va t handle of (ret, va) \<Rightarrow>
        if ret \<noteq> ENPU_SUCCESS \<or> va = 0
        then (case invoke d (Reserve_address sz) l of (rc, va1, l1) \<Rightarrow>
          if rc \<noteq> 0 then (None, l1)
          else case invoke d (Map_mem va1 sz 0 new_handle 0) l1 of (rc, _, l2) \<Rightarrow> (Some (rc, va1, True), l2))
        else case (case memory_tracker_get_map_prop t va of
                 (_, Some (map_size, map_offset, map_flags)) \<Rightarrow> invoke d (Map_mem va map_size map_offset new_handle map_flags) l
               | (_, None) \<Rightarrow> invoke d (Map_mem va sz 0 new_handle 0) l) of (rc, _, l1) \<Rightarrow> (Some (rc, va, False), l1))"

definition swap_executor_swap_in_physical ::
    "driver \<Rightarrow> u64 option \<Rightarrow> 'prop memory_tracker \<Rightarrow> u64 \<Rightarrow> u64 \<Rightarrow> u64 \<Rightarrow> u64 \<Rightarrow> call_log \<Rightarrow> int \<times> u64 \<times> u64 \<times> call_log" where
  "swap_executor_swap_in_physical d executor t handle offset sz old_handle l =
     (case executor of None \<Rightarrow> (RT_ENPU_FAIL, sz, old_handle, l)
      | Some base \<Rightarrow>
        if handle = 0 then (RT_ENPU_FAIL, sz, old_handle, l)
        else let sz1 = (case memory_tracker_get_handle_prop t handle of (_, Some (s, _)) \<Rightarrow> s | (_, None) \<Rightarrow> sz) in
          case invoke d (Malloc_physical sz1) l of (rc, new_handle, l1) \<Rightarrow>
            if rc \<noteq> 0 then (RT_ENPU_FAIL, sz1, old_handle, l1)
            else case map_physical d t handle sz1 new_handle l1 of
              (None, l2) \<Rightarrow> (RT_ENPU_FAIL, sz1, new_handle, l2)
            | (Some (rc, va, temporary), l2) \<Rightarrow>
                if rc \<noteq> 0 then (RT_ENPU_FAIL, sz1, new_handle, free_and_fail d new_handle l2)
                else case invoke d (Memcpy va (base + offset) sz1) l2 of (rc, _, l3) \<Rightarrow>
                  if rc \<noteq> 0 then (RT_ENPU_FAIL, sz1, new_handle, free_and_fail d new_handle l3)
                  else if \<not> temporary then (ENPU_SUCCESS, sz1, new_handle, l3)
                  else case invoke d (Unmap_mem va) l3 of (rc, _, l4) \<Rightarrow>
                    if rc \<noteq> 0 then (RT_ENPU_FAIL, sz1, new_handle, l4)
                    else case invoke d (Release_address va) l4 of (rc, _, l5) \<Rightarrow>
                      (if rc \<noteq> 0 then RT_ENPU_FAIL else ENPU_SUCCESS, sz1, new_handle, l5))"

section \<open>The hook of a process\<close>

text \<open>What the hook works on: the executor, the tracker, the shared memory, the scheduling structure, the process
  information, whether the process holds \<^verbatim>\<open>swap_in_mutex\<close>, and the log.\<close>

record 'prop swap_ctx =
  sx_executor :: "u64 option"
  sx_tracker :: "'prop memory_tracker"
  sx_shm :: "shm_state option"
  sx_sched :: "sched option"
  sx_info :: npu_info
  sx_swap_in_locked :: bool
  sx_log :: call_log

abbreviation (input) sx_vnpu :: "'prop swap_ctx \<Rightarrow> int" where "sx_vnpu x \<equiv> uint (ni_vnpu_id (sx_info x))"
abbreviation (input) sx_slot :: "'prop swap_ctx \<Rightarrow> int" where "sx_slot x \<equiv> ni_registry_slot (sx_info x)"

definition shm_get_process_swapped :: "shm_state option \<Rightarrow> int \<Rightarrow> int \<Rightarrow> bool" where
  "shm_get_process_swapped so vnpu_id slot =
     (case so of None \<Rightarrow> False
      | Some st \<Rightarrow>
        if vnpu_id < 0 \<or> vnpu_id \<ge> int MAX_VNPU_PER_DIE \<or> slot < 0 \<or> slot \<ge> int MAX_PROCESSES_PER_VNPU then False
        else pr_swapped (ve_processes (ss_entries st (nat vnpu_id)) (nat slot)))"

text \<open>The account of a process and of its vNPU; the vNPU must be present.\<close>

definition account :: "(u64 \<Rightarrow> u64) \<Rightarrow> 'prop swap_ctx \<Rightarrow> 'prop swap_ctx" where
  "account f x =
     (case sx_shm x of None \<Rightarrow> x
      | Some st \<Rightarrow>
        (case shm_get_entry st (sx_vnpu x) of None \<Rightarrow> x
         | Some _ \<Rightarrow>
           let st1 = (if sx_slot x \<ge> 0
                      then upd_process st (sx_vnpu x) (nat (sx_slot x)) (\<lambda>p. p\<lparr>pr_hbm_used := f (pr_hbm_used p)\<rparr>) else st)
           in x\<lparr>sx_shm := Some (upd_entry st1 (sx_vnpu x) (\<lambda>e. e\<lparr>ve_hbm_used := f (ve_hbm_used e)\<rparr>))\<rparr>))"

definition swap_hook_malloc_mem ::
    "driver \<Rightarrow> tracker_env \<Rightarrow> u64 \<Rightarrow> u64 \<Rightarrow> u64 \<Rightarrow> u64 \<Rightarrow> 'prop swap_ctx option \<Rightarrow> (int \<times> u64 \<times> 'prop swap_ctx option) option" where
  "swap_hook_malloc_mem d env now_ns ptr sz junk xo =
     (case xo of None \<Rightarrow> Some (RT_ENPU_FAIL, ptr, None)
      | Some x \<Rightarrow>
        Option.bind (swap_executor_swap_in d (sx_executor x) False ptr 0 sz junk (sx_log x)) (\<lambda>(ret, ptr1, sz1, handle, l).
          let x1 = x\<lparr>sx_log := l\<rparr> in
          if ret \<noteq> ENPU_SUCCESS then Some (ret, ptr1, Some x1)
          else Option.bind (memory_tracker_add env now_ns (sx_tracker x1) ptr1 sz1 handle False) (\<lambda>(ret, t).
            let x2 = x1\<lparr>sx_tracker := t\<rparr> in
            if ret \<noteq> ENPU_SUCCESS then Some (ret, ptr1, Some x2)
            else Some (ENPU_SUCCESS, ptr1, Some (account (\<lambda>u. u + sz1) x2)))))"

definition swap_hook_malloc_physical_mem ::
    "tracker_env \<Rightarrow> bool \<Rightarrow> u64 \<Rightarrow> u64 \<Rightarrow> u64 \<Rightarrow> 'prop \<Rightarrow> u64 \<Rightarrow> 'prop swap_ctx option \<Rightarrow> (int \<times> 'prop swap_ctx option) option" where
  "swap_hook_malloc_physical_mem env mem_ok now_ns handle sz prop flags xo =
     (case xo of None \<Rightarrow> Some (RT_ENPU_FAIL, None)
      | Some x \<Rightarrow>
        Option.bind (memory_tracker_add env now_ns (sx_tracker x) handle sz handle True) (\<lambda>(ret, t).
          if ret \<noteq> ENPU_SUCCESS then Some (ret, Some (x\<lparr>sx_tracker := t\<rparr>))
          else case memory_tracker_add_handle_record mem_ok t handle sz prop flags of (ret, t1) \<Rightarrow>
            if ret \<noteq> ENPU_SUCCESS then Some (ret, Some (x\<lparr>sx_tracker := t1\<rparr>))
            else Some (ENPU_SUCCESS, Some (account (\<lambda>u. u + sz) (x\<lparr>sx_tracker := t1\<rparr>)))))"

definition swap_hook_free_mem ::
    "driver \<Rightarrow> tracker_env \<Rightarrow> u64 \<Rightarrow> 'prop swap_ctx option \<Rightarrow> int \<times> 'prop swap_ctx option" where
  "swap_hook_free_mem d env ptr xo =
     (case xo of None \<Rightarrow> (RT_ENPU_FAIL, None)
      | Some x \<Rightarrow>
        (case invoke d (Unmap_mem ptr) (sx_log x) of (rc, _, l1) \<Rightarrow>
           if rc \<noteq> 0 then (rc, Some (x\<lparr>sx_log := l1\<rparr>))
           else case memory_tracker_find (sx_tracker x) ptr of None \<Rightarrow> (RT_ENPU_FAIL, Some (x\<lparr>sx_log := l1\<rparr>))
           | Some i \<Rightarrow>
             let r = mt_records (sx_tracker x) ! i in
             case invoke d (Free_physical (mr_handle r)) l1 of (rc, _, l2) \<Rightarrow>
               let l3 = (if rc = 0 then snd (snd (invoke d (Release_address ptr) l2)) else l2) in
               case memory_tracker_remove env (sx_tracker x) ptr of (ret, t) \<Rightarrow>
                 let x1 = x\<lparr>sx_log := l3, sx_tracker := t\<rparr> in
                 if ret \<noteq> ENPU_SUCCESS then (ret, Some x1)
                 else (ENPU_SUCCESS, Some (account (\<lambda>u. u - mr_size r) x1))))"

definition swap_hook_free_physical_mem ::
    "driver \<Rightarrow> tracker_env \<Rightarrow> u64 \<Rightarrow> 'prop swap_ctx option \<Rightarrow> int \<times> 'prop swap_ctx option" where
  "swap_hook_free_physical_mem d env handle xo =
     (case xo of None \<Rightarrow> (RT_ENPU_FAIL, None)
      | Some x \<Rightarrow>
        (case memory_tracker_find (sx_tracker x) handle of
           None \<Rightarrow> (case invoke d (Free_physical handle) (sx_log x) of (rc, _, l1) \<Rightarrow> (rc, Some (x\<lparr>sx_log := l1\<rparr>)))
         | Some i \<Rightarrow>
           let r = mt_records (sx_tracker x) ! i; l1 = snd (snd (invoke d (Free_physical (mr_handle r)) (sx_log x))) in
           case memory_tracker_remove env (sx_tracker x) (mr_ptr r) of (ret, t) \<Rightarrow>
             let x1 = x\<lparr>sx_log := l1, sx_tracker := t\<rparr> in
             if ret \<noteq> ENPU_SUCCESS then (ret, Some x1)
             else case memory_tracker_remove_handle_record t handle of (ret, t1) \<Rightarrow>
               let x2 = x1\<lparr>sx_tracker := t1\<rparr> in
               if ret \<noteq> ENPU_SUCCESS then (ret, Some x2)
               else (ENPU_SUCCESS, Some (account (\<lambda>u. u - mr_size r) x2))))"

definition swap_hook_map_mem ::
    "bool \<Rightarrow> u64 \<Rightarrow> u64 \<Rightarrow> u64 \<Rightarrow> u64 \<Rightarrow> u64 \<Rightarrow> 'prop swap_ctx option \<Rightarrow> int \<times> u64 \<times> 'prop swap_ctx option" where
  "swap_hook_map_mem mem_ok dev_ptr sz offset handle flags xo =
     (case xo of None \<Rightarrow> (RT_ENPU_FAIL, handle, None)
      | Some x \<Rightarrow>
        (case memory_tracker_find (sx_tracker x) handle of None \<Rightarrow> (ENPU_SUCCESS, handle, xo)
         | Some i \<Rightarrow>
           let r = mt_records (sx_tracker x) ! i in
           case memory_tracker_add_map_record mem_ok (sx_tracker x) dev_ptr sz offset (mr_ptr r) flags of (ret, t) \<Rightarrow>
             (ret, mr_handle r, Some (x\<lparr>sx_tracker := t\<rparr>))))"

definition swap_hook_unmap_mem :: "u64 \<Rightarrow> 'prop swap_ctx option \<Rightarrow> int \<times> 'prop swap_ctx option" where
  "swap_hook_unmap_mem dev_ptr xo =
     (case xo of None \<Rightarrow> (RT_ENPU_FAIL, None)
      | Some x \<Rightarrow> (case memory_tracker_remove_map_record (sx_tracker x) dev_ptr of (ret, t) \<Rightarrow> (ret, Some (x\<lparr>sx_tracker := t\<rparr>))))"

section \<open>Swapping in on demand\<close>

definition swap_in_record :: "driver \<Rightarrow> 'prop swap_ctx \<Rightarrow> memory_record \<Rightarrow> (int \<times> u64 \<times> u64 \<times> u64 \<times> call_log) option" where
  "swap_in_record d x r =
     (if mr_is_physical r
      then (case swap_executor_swap_in_physical d (sx_executor x) (sx_tracker x) (mr_ptr r) (mr_swap_offset r) (mr_size r) (mr_handle r) (sx_log x) of
              (ret, sz, handle, l) \<Rightarrow> Some (ret, mr_ptr r, sz, handle, l))
      else swap_executor_swap_in d (sx_executor x) True (mr_ptr r) (mr_swap_offset r) (mr_size r) (mr_handle r) (sx_log x))"

fun swap_in_loop :: "driver \<Rightarrow> nat list \<Rightarrow> 'prop swap_ctx \<Rightarrow> 'prop swap_ctx option" where
  "swap_in_loop d [] x = Some x"
| "swap_in_loop d (i # is) x =
     (let t = sx_tracker x; r = mt_records t ! i in
      if \<not> mr_is_swapped r then swap_in_loop d is x
      else Option.bind (swap_in_record d x r) (\<lambda>(ret, ptr, sz, handle, l).
        let t1 = t\<lparr>mt_records := (mt_records t)[i := r\<lparr>mr_ptr := ptr, mr_size := sz, mr_handle := handle\<rparr>]\<rparr> in
        if ret \<noteq> ENPU_SUCCESS then swap_in_loop d is (x\<lparr>sx_tracker := t1, sx_log := l\<rparr>)
        else case memory_tracker_mark_active t1 ptr handle of (ret, t2) \<Rightarrow>
          if ret \<noteq> ENPU_SUCCESS then swap_in_loop d is (x\<lparr>sx_tracker := t2, sx_log := l\<rparr>)
          else swap_in_loop d is (x\<lparr>sx_tracker := t2\<lparr>mt_check_record_in := mt_check_record_in t2 + 1\<rparr>, sx_log := l\<rparr>)))"

definition my_process :: "'prop swap_ctx \<Rightarrow> shm_state \<Rightarrow> process_entry" where
  "my_process x st = ve_processes (ss_entries st (nat (sx_vnpu x))) (nat (sx_slot x))"

definition restore_used :: "u64 \<Rightarrow> 'prop swap_ctx \<Rightarrow> 'prop swap_ctx" where
  "restore_used used x =
     (case sx_shm x of None \<Rightarrow> x
      | Some st \<Rightarrow>
        let v = sx_vnpu x;
            st1 = upd_process st v (nat (sx_slot x)) (\<lambda>p. p\<lparr>pr_hbm_used := pr_hbm_used p + used\<rparr>);
            st2 = (case shm_get_entry st1 v of None \<Rightarrow> st1
                   | Some _ \<Rightarrow> upd_entry st1 v (\<lambda>e. e\<lparr>ve_hbm_used := ve_hbm_used e + used\<rparr>))
        in x\<lparr>sx_shm := Some (shm_set_process_swapped st2 v (sx_slot x) False)\<rparr>)"

abbreviation (input) EOWNERDEAD :: int where "EOWNERDEAD \<equiv> 130"

definition swap_hook_check_and_swap_in ::
    "driver \<Rightarrow> (nat \<Rightarrow> int \<times> u64) \<Rightarrow> (nat \<Rightarrow> shm_state \<Rightarrow> shm_state) \<Rightarrow> int \<Rightarrow> u64 \<Rightarrow> 'prop swap_ctx option \<Rightarrow> (int \<times> 'prop swap_ctx option) option" where
  "swap_hook_check_and_swap_in d mem others lock_rc now xo =
     (case xo of None \<Rightarrow> Some (ENPU_SUCCESS, None)
      | Some x \<Rightarrow>
        if \<not> get_swap_enabled (sx_info x) then Some (ENPU_SUCCESS, xo)
        else let x1 = x\<lparr>sx_tracker := tracker_lock (sx_tracker x)\<rparr> in
          if sx_slot x < 0 \<or> \<not> shm_get_process_swapped (sx_shm x) (sx_vnpu x) (sx_slot x)
          then Some (ENPU_SUCCESS, Some (x1\<lparr>sx_tracker := tracker_unlock (sx_tracker x1)\<rparr>))
          else if lock_rc \<noteq> 0 \<and> lock_rc \<noteq> EOWNERDEAD then Some (RT_ENPU_FAIL, Some x1)
          else case sx_shm x of None \<Rightarrow> None
          | Some st \<Rightarrow>
            let x2 = x1\<lparr>sx_swap_in_locked := True,
                  sx_sched := update_last_kernel_time_now (unat (ni_vnpu_id (sx_info x))) now (sx_sched x)\<rparr>
            in Option.bind (check_and_swap_out mem others (ni_vnpu_id (sx_info x)) (pr_swap_size (my_process x st)) SWAP_OUT_FROM_ALL (Some st))
                 (\<lambda>(ret, so).
                   let x3 = x2\<lparr>sx_shm := so\<rparr> in
                   if ret \<noteq> ENPU_SUCCESS then Some (ret, Some x3)
                   else let used = (case so of None \<Rightarrow> 0 | Some st' \<Rightarrow> pr_swap_size (my_process x st')) in
                     Option.bind (swap_in_loop d [0..<length (mt_records (sx_tracker x3))]
                          (x3\<lparr>sx_tracker := (sx_tracker x3)\<lparr>mt_check_record_in := 0\<rparr>\<rparr>))
                       (\<lambda>x4. let x5 = (if used \<noteq> 0 then restore_used used x4 else x4)
                             in Some (ENPU_SUCCESS, Some (x5\<lparr>sx_swap_in_locked := False, sx_tracker := tracker_unlock (sx_tracker x5)\<rparr>)))))"

section \<open>The monitor thread\<close>

definition swap_ack_and_decrement :: "int \<Rightarrow> u64 \<Rightarrow> 'prop swap_ctx \<Rightarrow> 'prop swap_ctx" where
  "swap_ack_and_decrement cmd_vnpu_id seq x =
     x\<lparr>sx_shm := map_option (\<lambda>st. snd (shm_try_ack_swap_cmd st cmd_vnpu_id (sx_slot x) seq)) (sx_shm x)\<rparr>"

definition clamp_sub :: "u64 \<Rightarrow> u64 \<Rightarrow> u64" where
  "clamp_sub used act = used - (if act < used then act else used)"

text \<open>The account after a swap-out of \<open>act_swapped\<close> bytes.\<close>

definition swapped_out :: "u64 \<Rightarrow> 'prop swap_ctx \<Rightarrow> shm_state \<Rightarrow> shm_state" where
  "swapped_out act_swapped x st =
     (if act_swapped > 0
      then upd_entry (upd_process st (sx_vnpu x) (nat (sx_slot x)) (\<lambda>p. p\<lparr>pr_swap_size := act_swapped,
             pr_hbm_used := clamp_sub (pr_hbm_used p) act_swapped, pr_swapped := True\<rparr>))
           (sx_vnpu x) (\<lambda>e. e\<lparr>ve_hbm_used := clamp_sub (ve_hbm_used e) act_swapped\<rparr>)
      else st)"

definition monitor_swap_out :: "driver \<Rightarrow> bool \<Rightarrow> shm_state \<Rightarrow> 'prop swap_ctx \<Rightarrow> 'prop swap_ctx" where
  "monitor_swap_out d mem_ok st x =
     (let t1 = tracker_lock (sx_tracker x) in
      case memory_tracker_collect_records mem_ok t1 of
        (_, None) \<Rightarrow> x\<lparr>sx_tracker := tracker_unlock t1\<rparr>
      | (_, Some (_, count)) \<Rightarrow>
        if count = 0 then x\<lparr>sx_tracker := tracker_unlock t1\<rparr>
        else case swap_executor_swap_out d (sx_executor x) t1 count (pr_swap_offset (my_process x st)) 0 (sx_log x) of
          (_, t2, act_swapped, l) \<Rightarrow>
            x\<lparr>sx_tracker := tracker_unlock t2, sx_log := l, sx_shm := Some (swapped_out act_swapped x st)\<rparr>)"

text \<open>One round of the thread for a process with a slot.\<close>

definition swap_monitor_round :: "driver \<Rightarrow> bool \<Rightarrow> 'prop swap_ctx \<Rightarrow> 'prop swap_ctx" where
  "swap_monitor_round d mem_ok x =
     (case sx_shm x of None \<Rightarrow> x
      | Some st \<Rightarrow>
        (case shm_check_swap_cmd st of (cmd_vnpu_id, action) \<Rightarrow>
           if action = SWAP_ACTION_NONE \<or> cmd_vnpu_id \<noteq> sx_vnpu x \<or> action = SWAP_ACTION_IN \<or> action \<noteq> SWAP_ACTION_OUT then x
           else let current_seq = cm_cmd_seq (ss_swap_cmd st) in
             if current_seq = ni_last_seen_cmd_seq (sx_info x) then x
             else let x1 = x\<lparr>sx_info := (sx_info x)\<lparr>ni_last_seen_cmd_seq := current_seq\<rparr>\<rparr>;
                      x2 = (if \<not> pr_swapped (my_process x st)
                            then (case shm_get_entry st (sx_vnpu x) of None \<Rightarrow> x1 | Some _ \<Rightarrow> monitor_swap_out d mem_ok st x1)
                            else x1)
                  in swap_ack_and_decrement cmd_vnpu_id current_seq x2))"

section \<open>No record is lost\<close>

lemma invoke_simps: "invoke d c l = (rc, v, l') \<longleftrightarrow> rc = dv_ret d (length l) \<and> v = dv_val d (length l) \<and> l' = l @ [(c, rc)]"
  by (auto simp: invoke_def)

text \<open>What was logged after a point, and the frees that succeeded in it.\<close>

definition frees :: "call_log \<Rightarrow> u64 set" where
  "frees l = {h. (Free_physical h, 0) \<in> set l}"

lemma frees_simps [simp]: "frees [] = {}" "frees (l @ l') = frees l \<union> frees l'"
    "frees (x # l) = (case x of (Free_physical h, rc) \<Rightarrow> (if rc = 0 then insert h (frees l) else frees l) | _ \<Rightarrow> frees l)"
  by (auto simp: frees_def split: mem_call.splits prod.splits)

lemma copy_and_unmap_log:
  assumes "copy_and_unmap d dst va sz l = (ok, l')"
  shows "\<exists>n. l' = l @ n \<and> frees n = {} \<and> (ok \<longrightarrow> n = [(Memcpy dst va sz, 0), (Unmap_mem va, 0)])"
  using assms by (auto simp: copy_and_unmap_def invoke_simps invoke_def split: if_splits)

text \<open>Where the bytes of a record are read: at its address, or for physical memory at the address where the process has
  mapped it, or else at an address where the call before has mapped its handle.\<close>

definition read_at :: "'prop memory_tracker \<Rightarrow> memory_record \<Rightarrow> call_log \<Rightarrow> u64 \<Rightarrow> bool" where
  "read_at t r before va \<longleftrightarrow>
     (if \<not> mr_is_physical r then va = mr_ptr r
      else case memory_tracker_get_map_va t (mr_ptr r) of (rc, mapped) \<Rightarrow>
        if rc = ENPU_SUCCESS \<and> mapped \<noteq> 0 then va = mapped
        else \<exists>b. before = b @ [(Map_mem va (mr_size r) 0 (mr_handle r) 0, 0)])"

definition copied :: "'prop memory_tracker \<Rightarrow> u64 \<Rightarrow> memory_record \<Rightarrow> call_log \<Rightarrow> bool" where
  "copied t dst r n \<longleftrightarrow> (\<exists>before va after. n = before @ (Memcpy dst va (mr_size r), 0) # after \<and> read_at t r before va)"

definition copied_then_freed :: "'prop memory_tracker \<Rightarrow> u64 \<Rightarrow> memory_record \<Rightarrow> call_log \<Rightarrow> bool" where
  "copied_then_freed t dst r n \<longleftrightarrow> (\<exists>before after. n = before @ (Free_physical (mr_handle r), 0) # after \<and> copied t dst r before)"

lemma read_at_append: "read_at t r before va \<Longrightarrow> read_at t r (l @ before) va"
  by (auto simp: read_at_def split: prod.splits if_splits)

lemma copied_append: "copied t dst r n \<Longrightarrow> copied t dst r (l @ n)"
  unfolding copied_def using read_at_append by (metis append_assoc)

lemma copied_then_freed_append:
  "copied_then_freed t dst r n \<Longrightarrow> copied_then_freed t dst r (l @ n)" "copied_then_freed t dst r n \<Longrightarrow> copied_then_freed t dst r (n @ l)"
proof -
  assume "copied_then_freed t dst r n"
  then obtain b a where n: "n = b @ (Free_physical (mr_handle r), 0) # a" "copied t dst r b" by (auto simp: copied_then_freed_def)
  have "l @ n = (l @ b) @ (Free_physical (mr_handle r), 0) # a" "n @ l = b @ (Free_physical (mr_handle r), 0) # (a @ l)" using n(1) by simp_all
  then show "copied_then_freed t dst r (l @ n)" "copied_then_freed t dst r (n @ l)"
    using n(2) copied_append unfolding copied_then_freed_def by blast+
qed

lemma swap_out_physical_log:
  assumes "swap_out_physical d t dst r l = (ok, l')" "mr_is_physical r"
  shows "\<exists>n. l' = l @ n \<and> frees n = {} \<and> (ok \<longrightarrow> copied t dst r n)"
proof -
  obtain rc va where m: "memory_tracker_get_map_va t (mr_ptr r) = (rc, va)" by fastforce
  show ?thesis
  proof (cases "rc \<noteq> ENPU_SUCCESS \<or> va = 0")
    case False
    then have "read_at t r [] va" using m assms(2) by (simp add: read_at_def)
    then have "copied t dst r [(Memcpy dst va (mr_size r), 0), (Unmap_mem va, 0)]" unfolding copied_def by fastforce
    then show ?thesis using False assms m copy_and_unmap_log [of d dst va "mr_size r" l ok l'] by (auto simp: swap_out_physical_def)
  next
    case True
    let ?va = "dv_val d (length l)"
    let ?l1 = "l @ [(Reserve_address (mr_size r), dv_ret d (length l))]"
    let ?l2 = "?l1 @ [(Map_mem ?va (mr_size r) 0 (mr_handle r) 0, dv_ret d (Suc (length l)))]"
    obtain ok3 l3 where c: "copy_and_unmap d dst ?va (mr_size r) ?l2 = (ok3, l3)" by fastforce
    then obtain n where n: "l3 = ?l2 @ n" "frees n = {}" "ok3 \<longrightarrow> n = [(Memcpy dst ?va (mr_size r), 0), (Unmap_mem ?va, 0)]"
      using copy_and_unmap_log by blast
    consider "dv_ret d (length l) \<noteq> 0" | "dv_ret d (length l) = 0" "dv_ret d (Suc (length l)) \<noteq> 0"
      | "dv_ret d (length l) = 0" "dv_ret d (Suc (length l)) = 0" "\<not> ok3" | "dv_ret d (length l) = 0" "dv_ret d (Suc (length l)) = 0" "ok3" by blast
    then show ?thesis
    proof cases
      case 1
      then show ?thesis using assms m True by (auto simp: swap_out_physical_def invoke_def)
    next
      case 2
      then show ?thesis using assms m True by (auto simp: swap_out_physical_def invoke_def)
    next
      case 3
      then have "ok = False" "l' = l3" using assms m True c by (auto simp: swap_out_physical_def invoke_def)
      then show ?thesis using n by simp
    next
      case 4
      let ?b = "[(Reserve_address (mr_size r), 0), (Map_mem ?va (mr_size r) 0 (mr_handle r) 0, 0)]"
      let ?n = "?b @ (Memcpy dst ?va (mr_size r), 0) # [(Unmap_mem ?va, 0), (Release_address ?va, dv_ret d (length l3))]"
      have "l' = l3 @ [(Release_address ?va, dv_ret d (length l3))]" using 4 assms m True c by (auto simp: swap_out_physical_def invoke_def)
      then have "l' = l @ ?n" using n 4 by simp
      moreover have "read_at t r ?b ?va" using m True assms(2) by (auto simp: read_at_def)
      then have "copied t dst r ?n" unfolding copied_def by blast
      ultimately show ?thesis by (intro exI [of _ ?n]) simp
    qed
  qed
qed

lemma swap_out_one_log:
  assumes "swap_out_one d t dst r l = (ok, l')"
  shows "\<exists>n. l' = l @ n \<and> (if ok then frees n = {mr_handle r} \<and> copied_then_freed t dst r n else frees n = {})"
proof -
  obtain ok1 l1 where b: "(if mr_is_physical r then swap_out_physical d t dst r l else copy_and_unmap d dst (mr_ptr r) (mr_size r) l) = (ok1, l1)" by fastforce
  have "copied t dst r [(Memcpy dst (mr_ptr r) (mr_size r), 0), (Unmap_mem (mr_ptr r), 0)]" if "\<not> mr_is_physical r"
  proof -
    have "read_at t r [] (mr_ptr r)" using that by (simp add: read_at_def)
    then show ?thesis unfolding copied_def by fastforce
  qed
  then obtain n where n: "l1 = l @ n" "frees n = {}" "ok1 \<longrightarrow> copied t dst r n"
    using b swap_out_physical_log [of d t dst r l ok1 l1] copy_and_unmap_log [of d dst "mr_ptr r" "mr_size r" l ok1 l1] by (auto split: if_splits)
  show ?thesis
  proof (cases ok1)
    case False
    then have "ok = False" "l' = l1" using assms b by (auto simp: swap_out_one_def)
    then show ?thesis using n by simp
  next
    case True
    then have l': "ok = (dv_ret d (length l1) = 0)" "l' = l1 @ [(Free_physical (mr_handle r), dv_ret d (length l1))]"
      using assms b by (auto simp: swap_out_one_def invoke_def)
    have "copied_then_freed t dst r (n @ [(Free_physical (mr_handle r), 0)])" using n(3) True unfolding copied_then_freed_def by blast
    then show ?thesis using n(1,2) l' by auto
  qed
qed

text \<open>The record before and after, when it was swapped out by the loop.\<close>

definition newly :: "memory_record list \<Rightarrow> memory_record list \<Rightarrow> (memory_record \<times> memory_record) list" where
  "newly rs rs' = filter (\<lambda>(r, r'). \<not> mr_is_swapped r \<and> mr_is_swapped r') (zip rs rs')"

fun consecutive :: "u64 \<Rightarrow> (u64 \<times> u64) list \<Rightarrow> bool" where
  "consecutive off [] \<longleftrightarrow> True"
| "consecutive off ((o1, s) # xs) \<longleftrightarrow> o1 = off \<and> consecutive (off + s) xs"

lemma swap_out_loop_spec:
  assumes "swap_out_loop d t base rs off act chk l = (rs', act', chk', l')"
  shows "\<exists>n. l' = l @ n \<and> length rs' = length rs
    \<and> consecutive off (map (\<lambda>(r, r'). (mr_swap_offset r', mr_size r')) (newly rs rs'))
    \<and> act' = act + (\<Sum>(r, r')\<leftarrow>newly rs rs'. mr_size r)
    \<and> frees n = (\<lambda>(r, r'). mr_handle r) ` set (newly rs rs')
    \<and> (\<forall>(r, r') \<in> set (newly rs rs'). copied_then_freed t (base + mr_swap_offset r') r n)
    \<and> (\<forall>(r, r') \<in> set (zip rs rs'). r' = r \<or> r' = memory_record_mark_swapped r (mr_swap_offset r'))"
  using assms
proof (induction rs arbitrary: off act chk l rs' act' chk' l')
  case Nil
  then show ?case by (auto simp: newly_def)
next
  case (Cons r rs)
  obtain ok l1 where o: "swap_out_one d t (base + off) r l = (ok, l1)" by fastforce
  consider (keep) "mr_ptr r = 0 \<or> mr_is_swapped r" | (failed) "\<not> (mr_ptr r = 0 \<or> mr_is_swapped r)" "\<not> ok" | (out) "\<not> (mr_ptr r = 0 \<or> mr_is_swapped r)" "ok" by blast
  then show ?case
  proof cases
    case keep
    obtain q where q: "swap_out_loop d t base rs off act chk l = (q, act', chk', l')" "rs' = r # q"
      using Cons.prems keep by (cases "swap_out_loop d t base rs off act chk l") auto
    show ?thesis using Cons.IH [OF q(1)] keep unfolding q(2) by (auto simp: newly_def)
  next
    case failed
    obtain q where q: "swap_out_loop d t base rs off act chk l1 = (q, act', chk', l')" "rs' = r # q"
      using Cons.prems failed o by (cases "swap_out_loop d t base rs off act chk l1") auto
    obtain n1 where n1: "l1 = l @ n1" "frees n1 = {}" using swap_out_one_log [OF o] failed by auto
    obtain n where n: "l' = l1 @ n" "length q = length rs" "consecutive off (map (\<lambda>(r, r'). (mr_swap_offset r', mr_size r')) (newly rs q))"
      "act' = act + (\<Sum>(r, r')\<leftarrow>newly rs q. mr_size r)" "frees n = (\<lambda>(r, r'). mr_handle r) ` set (newly rs q)"
      "\<forall>(r, r') \<in> set (newly rs q). copied_then_freed t (base + mr_swap_offset r') r n"
      "\<forall>(r, r') \<in> set (zip rs q). r' = r \<or> r' = memory_record_mark_swapped r (mr_swap_offset r')"
      using Cons.IH [OF q(1)] by blast
    have nw: "newly (r # rs) (r # q) = newly rs q" by (simp add: newly_def)
    show ?thesis unfolding q(2) nw using n n1 by (intro exI [of _ "n1 @ n"]) (auto intro: copied_then_freed_append)
  next
    case out
    let ?r = "memory_record_mark_swapped r off"
    obtain q where q: "swap_out_loop d t base rs (off + mr_size r) (act + mr_size r) (chk + 1) l1 = (q, act', chk', l')" "rs' = ?r # q"
      using Cons.prems out o by (cases "swap_out_loop d t base rs (off + mr_size r) (act + mr_size r) (chk + 1) l1") auto
    obtain n1 where n1: "l1 = l @ n1" "frees n1 = {mr_handle r}" "copied_then_freed t (base + off) r n1"
      using swap_out_one_log [OF o] out by auto
    obtain n where n: "l' = l1 @ n" "length q = length rs" "consecutive (off + mr_size r) (map (\<lambda>(r, r'). (mr_swap_offset r', mr_size r')) (newly rs q))"
      "act' = act + mr_size r + (\<Sum>(r, r')\<leftarrow>newly rs q. mr_size r)" "frees n = (\<lambda>(r, r'). mr_handle r) ` set (newly rs q)"
      "\<forall>(r, r') \<in> set (newly rs q). copied_then_freed t (base + mr_swap_offset r') r n"
      "\<forall>(r, r') \<in> set (zip rs q). r' = r \<or> r' = memory_record_mark_swapped r (mr_swap_offset r')"
      using Cons.IH [OF q(1)] by blast
    have m: "mr_is_swapped ?r" "mr_swap_offset ?r = off" "mr_size ?r = mr_size r" by (simp_all add: memory_record_mark_swapped_def)
    have nw: "newly (r # rs) (?r # q) = (r, ?r) # newly rs q" using out m(1) by (simp add: newly_def)
    have z: "zip (r # rs) (?r # q) = (r, ?r) # zip rs q" by simp
    show ?thesis unfolding q(2) nw z using n n1 m by (intro exI [of _ "n1 @ n"]) (auto simp: add.assoc intro: copied_then_freed_append)
  qed
qed

text \<open>C12: for all failures of the driver, a swap-out frees the memory of exactly the records it marks as swapped.
  For each of them the log has a successful copy of its bytes, from its own address (for physical memory from
  the address where the process or the call before has mapped its handle) to the offset recorded for it, and after
  the copy its free. The ranges lie one after the other in the swap buffer from the offset of the process on, and their
  total is the number of bytes reported to the manager. No other record changes.\<close>

theorem swap_out_frees_only_copied:
  assumes "swap_executor_swap_out d (Some base) t (int (length (mt_records t))) off 0 l = (rc, t', act, l')" and "mt_records t \<noteq> []"
  shows "\<exists>n. l' = l @ n \<and> frees n = (\<lambda>(r, r'). mr_handle r) ` set (newly (mt_records t) (mt_records t'))
    \<and> (\<forall>(r, r') \<in> set (newly (mt_records t) (mt_records t')). copied_then_freed t (base + mr_swap_offset r') r n)
    \<and> consecutive off (map (\<lambda>(r, r'). (mr_swap_offset r', mr_size r')) (newly (mt_records t) (mt_records t')))
    \<and> act = (\<Sum>(r, r')\<leftarrow>newly (mt_records t) (mt_records t'). mr_size r)
    \<and> (\<forall>(r, r') \<in> set (zip (mt_records t) (mt_records t')). r' = r \<or> r' = memory_record_mark_swapped r (mr_swap_offset r'))"
proof -
  obtain rs' chk where lp: "swap_out_loop d t base (mt_records t) off 0 0 l = (rs', act, chk, l')" and t': "mt_records t' = rs'"
    using assms by (auto simp: swap_executor_swap_out_def split: prod.splits)
  show ?thesis unfolding t' using swap_out_loop_spec [OF lp] unfolding add_0_left by blast
qed

text \<open>Two records; freeing the second one fails.\<close>

definition demo_record :: "u64 \<Rightarrow> u64 \<Rightarrow> u64 \<Rightarrow> memory_record" where
  "demo_record ptr sz handle = \<lparr>mr_ptr = ptr, mr_size = sz, mr_handle = handle, mr_is_swapped = False, mr_is_physical = False,
     mr_swap_offset = 0, mr_alloc_time_ns = 0\<rparr>"

definition demo_tracker :: "unit memory_tracker" where
  "demo_tracker = \<lparr>mt_lock = 0, mt_map = \<lparr>hm_buckets = (\<lambda>i. if i = 0 then [(4096, \<lparr>mv_ptr = 0, mv_capture_status = False\<rparr>),
       (8192, \<lparr>mv_ptr = 1, mv_capture_status = False\<rparr>)] else []), hm_capacity = 1, hm_size = 2\<rparr>,
     mt_records = [demo_record 4096 16 101, demo_record 8192 8 102], mt_capacity = 300, mt_check_record = 0,
     mt_check_record_in = 0, mt_map_records = [], mt_handle_records = []\<rparr>"

theorem swap_out_frees_only_copied_witness:
  "frees (snd (snd (snd (swap_executor_swap_out \<lparr>dv_ret = (\<lambda>k. if k = 5 then 1 else 0), dv_val = (\<lambda>_. 0)\<rparr> (Some 65536) demo_tracker 2 64 0 [])))) = {101}"
proof -
  let ?d = "\<lparr>dv_ret = (\<lambda>k. if k = 5 then 1 else 0), dv_val = (\<lambda>_. 0)\<rparr>"
  obtain rc t act l where e: "swap_executor_swap_out ?d (Some 65536) demo_tracker 2 64 0 [] = (rc, t, act, l)" by (metis prod_cases4)
  then have "mt_records t = [memory_record_mark_swapped (demo_record 4096 16 101) 64, demo_record 8192 8 102]"
    by (auto simp: swap_executor_swap_out_def demo_tracker_def demo_record_def swap_out_one_def copy_and_unmap_def invoke_def memory_record_mark_swapped_def)
  then have "newly (mt_records demo_tracker) (mt_records t) = [(demo_record 4096 16 101, memory_record_mark_swapped (demo_record 4096 16 101) 64)]"
    by (simp add: newly_def demo_tracker_def demo_record_def memory_record_mark_swapped_def)
  moreover have "int (length (mt_records demo_tracker)) = 2" "mt_records demo_tracker \<noteq> []" by (simp_all add: demo_tracker_def)
  ultimately show ?thesis using swap_out_frees_only_copied [of ?d 65536 demo_tracker 64 "[]" rc t act l] e by (simp add: demo_record_def)
qed

section \<open>The contents survive\<close>

text \<open>The copies that succeeded, and their effect on the memory of the process: the device addresses and the swap
  buffer are mapped in one address space.\<close>

fun copies_of :: "call_log \<Rightarrow> (nat \<times> nat \<times> nat) list" where
  "copies_of [] = []"
| "copies_of ((Memcpy dst src n, rc) # l) = (if rc = 0 then (unat dst, unat src, unat n) # copies_of l else copies_of l)"
| "copies_of (_ # l) = copies_of l"

definition copy :: "nat \<times> nat \<times> nat \<Rightarrow> (nat \<Rightarrow> 'b) \<Rightarrow> nat \<Rightarrow> 'b" where
  "copy c m = (case c of (dst, src, n) \<Rightarrow> (\<lambda>a. if dst \<le> a \<and> a < dst + n then m (src + (a - dst)) else m a))"

definition range_of :: "nat \<Rightarrow> nat \<Rightarrow> nat set" where
  "range_of a n = {a..<a + n}"

lemma copies_of_append [simp]: "copies_of (l @ l') = copies_of l @ copies_of l'"
  by (induction l rule: copies_of.induct) auto

lemma copy_outside: "a \<notin> range_of dst n \<Longrightarrow> copy (dst, src, n) m a = m a"
  by (auto simp: copy_def range_of_def)

lemma copies_outside: "\<forall>(dst, src, n) \<in> set cs. a \<notin> range_of dst n \<Longrightarrow> fold copy cs m a = m a"
  by (induction cs arbitrary: m) (auto simp: copy_outside)

text \<open>Copies whose targets are disjoint, also from all sources.\<close>

fun separate :: "(nat \<times> nat \<times> nat) list \<Rightarrow> bool" where
  "separate [] \<longleftrightarrow> True"
| "separate ((dst, src, n) # cs) \<longleftrightarrow>
     (\<forall>(dst', src', n') \<in> set cs. range_of dst n \<inter> range_of dst' n' = {} \<and> range_of dst n \<inter> range_of src' n' = {}) \<and> separate cs"

lemma copies_inside:
  "separate cs \<Longrightarrow> (dst, src, n) \<in> set cs \<Longrightarrow> j < n \<Longrightarrow> fold copy cs m (dst + j) = m (src + j)"
proof (induction cs arbitrary: m)
  case (Cons c cs)
  obtain d0 s0 n0 where c: "c = (d0, s0, n0)" by (cases c)
  show ?case
  proof (cases "(dst, src, n) \<in> set cs")
    case True
    have "fold copy cs (copy c m) (dst + j) = copy c m (src + j)" using Cons True by (auto simp: c)
    moreover have "src + j \<in> range_of src n" using Cons.prems(3) by (simp add: range_of_def)
    then have "src + j \<notin> range_of d0 n0" using Cons.prems(1) True by (auto simp: c)
    ultimately show ?thesis by (simp add: c copy_outside)
  next
    case False
    then have e: "dst = d0" "src = s0" "n = n0" using Cons.prems(2) by (auto simp: c)
    have "dst + j \<in> range_of d0 n0" using Cons.prems(3) e by (simp add: range_of_def)
    then have "\<forall>(dst', src', n') \<in> set cs. dst + j \<notin> range_of dst' n'" using Cons.prems(1) by (auto simp: c)
    then have "fold copy cs (copy c m) (dst + j) = copy c m (dst + j)" by (rule copies_outside)
    also have "\<dots> = m (src + j)" using Cons.prems(3) by (simp add: c e copy_def)
    finally show ?thesis by simp
  qed
qed simp

text \<open>The driver never fails; the granularity divides the sizes.\<close>

lemma swap_out_loop_ok:
  assumes "\<forall>k. dv_ret d k = 0" and "\<forall>r \<in> set rs. \<not> mr_is_physical r \<and> \<not> mr_is_swapped r \<and> mr_ptr r \<noteq> 0"
    and "swap_out_loop d t base rs off act chk l = (rs', act', chk', l')"
  shows "copies_of l' = copies_of l @ map (\<lambda>r. (unat (base + mr_swap_offset r), unat (mr_ptr r), unat (mr_size r))) rs'
    \<and> map (\<lambda>r. (mr_ptr r, mr_size r)) rs' = map (\<lambda>r. (mr_ptr r, mr_size r)) rs
    \<and> (\<forall>r \<in> set rs'. mr_is_swapped r \<and> \<not> mr_is_physical r) \<and> consecutive off (map (\<lambda>r. (mr_swap_offset r, mr_size r)) rs')"
  using assms(2,3)
proof (induction rs arbitrary: off act chk l rs' act' chk' l')
  case (Cons r rs)
  let ?l1 = "l @ [(Memcpy (base + off) (mr_ptr r) (mr_size r), 0), (Unmap_mem (mr_ptr r), 0), (Free_physical (mr_handle r), 0)]"
  let ?r = "memory_record_mark_swapped r off"
  have o: "swap_out_one d t (base + off) r l = (True, ?l1)"
    using Cons.prems(1) assms(1) by (simp add: swap_out_one_def copy_and_unmap_def invoke_def)
  obtain q where q: "swap_out_loop d t base rs (off + mr_size r) (act + mr_size r) (chk + 1) ?l1 = (q, act', chk', l')" "rs' = ?r # q"
    using Cons.prems o by (cases "swap_out_loop d t base rs (off + mr_size r) (act + mr_size r) (chk + 1) ?l1") auto
  have "\<forall>r \<in> set rs. \<not> mr_is_physical r \<and> \<not> mr_is_swapped r \<and> mr_ptr r \<noteq> 0" using Cons.prems(1) by simp
  note ih = Cons.IH [OF this q(1)]
  show ?case unfolding q(2) using ih Cons.prems(1) by (simp add: memory_record_mark_swapped_def)
qed simp

lemma aligned_eq:
  fixes s g :: u64
  assumes "g \<noteq> 0" and "unat g dvd unat s" and "unat s + unat g \<le> 2 ^ 64"
  shows "(s + g - 1) div g * g = s"
proof -
  obtain k where k: "unat s = unat g * k" using assms(2) by (auto simp: dvd_def)
  have g: "0 < unat g" using assms(1) by (simp add: unat_gt_0)
  have "unat (s + (g - 1)) = unat s + (unat g - 1)"
  proof -
    have "unat (g - 1) = unat g - 1" using assms(1) by (simp add: unat_minus_one)
    then have "\<not> add_overflows s (g - 1)" using assms(3) g by (simp add: add_overflows_def)
    then show ?thesis using unat_sum [of s "g - 1"] \<open>unat (g - 1) = unat g - 1\<close> by simp
  qed
  then have "unat ((s + (g - 1)) div g) = (unat g * k + (unat g - 1)) div unat g" by (simp add: unat_div k)
  also have "\<dots> = k" using g by (intro div_nat_eqI) (simp_all add: algebra_simps)
  finally have d: "unat ((s + (g - 1)) div g) = k" .
  have "unat (q * g) = k * unat g mod 2 ^ 64" if "unat q = k" for q using that by (simp add: unat_word_ariths)
  from this [OF d] have "unat ((s + (g - 1)) div g * g) = k * unat g mod 2 ^ 64" .
  also have "\<dots> = unat s" using u64_bound [of s] by (simp add: k mult.commute)
  finally show ?thesis by (simp add: word_unat_eq_iff add_diff_eq)
qed

definition aligned :: "u64 \<Rightarrow> u64 \<Rightarrow> bool" where
  "aligned g s \<longleftrightarrow> unat g dvd unat s \<and> unat s + unat g \<le> 2 ^ 64"

lemma swap_in_record_ok:
  assumes d: "\<forall>k. dv_ret d k = 0" "\<forall>k. dv_val d (4 * k) = g" "g \<noteq> 0"
    and x: "sx_executor x = Some base" "length (sx_log x) = 4 * j"
    and r: "\<not> mr_is_physical r" "aligned g (mr_size r)"
  obtains h where "swap_in_record d x r = Some (ENPU_SUCCESS, mr_ptr r, mr_size r, h, sx_log x @ [(Get_granularity, 0),
    (Malloc_physical (mr_size r), 0), (Map_mem (mr_ptr r) (mr_size r) 0 h 0, 0), (Memcpy (mr_ptr r) (base + mr_swap_offset r) (mr_size r), 0)])"
proof -
  have a: "(mr_size r + g - 1) div g * g = mr_size r" using aligned_eq d(3) r(2) by (simp add: aligned_def)
  show thesis using x r(1) d a
    by (intro that [of "dv_val d (Suc (4 * j))"]) (simp add: swap_in_record_def swap_executor_swap_in_def invoke_def map_and_copy_def Let_def)
qed

lemma mark_active_at:
  assumes "tracker_inv t" and "i < length (mt_records t)" and "mr_ptr (mt_records t ! i) = ptr"
  shows "memory_tracker_mark_active t ptr h = (ENPU_SUCCESS, t\<lparr>mt_records := (mt_records t)
    [i := (mt_records t ! i)\<lparr>mr_is_swapped := False, mr_handle := h, mr_swap_offset := 0\<rparr>]\<rparr>)"
proof -
  have "find_record_index ptr 0 (mt_records t) = Some i"
    using assms find_record_index_Some [of "mt_records t" ptr 0 i] by (simp add: tracker_inv_def)
  moreover have "ptr \<noteq> 0" using assms nth_mem [OF assms(2)] by (auto simp: tracker_inv_def)
  ultimately show ?thesis by (simp add: memory_tracker_mark_active_def tracker_find_record [OF assms(1)])
qed

lemma swap_in_loop_step:
  assumes "mr_is_swapped (mt_records (sx_tracker x) ! i)"
    and "swap_in_record d x (mt_records (sx_tracker x) ! i) = Some (ENPU_SUCCESS, ptr, sz, h, l)"
    and "memory_tracker_mark_active ((sx_tracker x)\<lparr>mt_records := (mt_records (sx_tracker x))
      [i := (mt_records (sx_tracker x) ! i)\<lparr>mr_ptr := ptr, mr_size := sz, mr_handle := h\<rparr>]\<rparr>) ptr h = (ENPU_SUCCESS, t2)"
  shows "swap_in_loop d (i # is) x
    = swap_in_loop d is (x\<lparr>sx_tracker := t2\<lparr>mt_check_record_in := mt_check_record_in t2 + 1\<rparr>, sx_log := l\<rparr>)"
  using assms by (simp add: Let_def)

lemma swap_in_loop_ok:
  assumes d: "\<forall>k. dv_ret d k = 0" "\<forall>k. dv_val d (4 * k) = g" "g \<noteq> 0"
    and x: "tracker_inv (sx_tracker x)" "sx_executor x = Some base" "length (sx_log x) = 4 * j"
    and rs: "rs = mt_records (sx_tracker x)" "\<forall>r \<in> set (drop k rs). mr_is_swapped r \<and> \<not> mr_is_physical r \<and> aligned g (mr_size r)"
  shows "\<exists>x'. swap_in_loop d [k..<length rs] x = Some x'
    \<and> copies_of (sx_log x') = copies_of (sx_log x) @ map (\<lambda>r. (unat (mr_ptr r), unat (base + mr_swap_offset r), unat (mr_size r))) (drop k rs)
    \<and> take k (mt_records (sx_tracker x')) = take k rs \<and> (\<forall>r \<in> set (drop k (mt_records (sx_tracker x'))). \<not> mr_is_swapped r)
    \<and> map (\<lambda>r. (mr_ptr r, mr_size r)) (mt_records (sx_tracker x')) = map (\<lambda>r. (mr_ptr r, mr_size r)) rs"
  using x rs
proof (induction "length rs - k" arbitrary: k x rs j)
  case 0
  then show ?case by simp
next
  case (Suc n)
  define r where "r = rs ! k"
  have k: "k < length rs" using Suc.hyps(2) by simp
  then have dr: "drop k rs = r # drop (Suc k) rs" by (simp add: r_def Cons_nth_drop_Suc)
  then have rp: "mr_is_swapped r" "\<not> mr_is_physical r" "aligned g (mr_size r)" using Suc.prems(5) by simp_all
  obtain h where h: "swap_in_record d x r = Some (ENPU_SUCCESS, mr_ptr r, mr_size r, h, sx_log x @ [(Get_granularity, 0),
    (Malloc_physical (mr_size r), 0), (Map_mem (mr_ptr r) (mr_size r) 0 h 0, 0), (Memcpy (mr_ptr r) (base + mr_swap_offset r) (mr_size r), 0)])"
    using swap_in_record_ok [OF d Suc.prems(2,3) rp(2,3)] by blast
  define r1 where "r1 = r\<lparr>mr_handle := h\<rparr>"
  define r2 where "r2 = r1\<lparr>mr_is_swapped := False, mr_handle := h, mr_swap_offset := 0\<rparr>"
  define t1 where "t1 = (sx_tracker x)\<lparr>mt_records := rs[k := r1]\<rparr>"
  define t2 where "t2 = t1\<lparr>mt_records := rs[k := r2], mt_check_record_in := mt_check_record_in t1 + 1\<rparr>"
  define l where "l = sx_log x @ [(Get_granularity, 0),
    (Malloc_physical (mr_size r), 0), (Map_mem (mr_ptr r) (mr_size r) 0 h 0, 0), (Memcpy (mr_ptr r) (base + mr_swap_offset r) (mr_size r), 0)]"
  have ptrs: "mr_ptr r1 = mr_ptr r" "mr_ptr r2 = mr_ptr r" "mr_size r2 = mr_size r" "\<not> mr_is_swapped r2" by (simp_all add: r1_def r2_def)
  have inv1: "tracker_inv t1" unfolding t1_def using Suc.prems(1,4) k ptrs by (intro tracker_inv_update) (simp_all add: map_mr_ptr_update r_def)
  have ma: "memory_tracker_mark_active t1 (mr_ptr r) h = (ENPU_SUCCESS, t1\<lparr>mt_records := rs[k := r2]\<rparr>)"
    using mark_active_at [OF inv1, of k "mr_ptr r" h] k by (simp add: t1_def r2_def ptrs)
  have "tracker_inv (t1\<lparr>mt_records := rs[k := r2]\<rparr>)"
    using inv1 k ptrs by (intro tracker_inv_update) (simp_all add: map_mr_ptr_update t1_def r_def)
  then have inv2: "tracker_inv t2" by (simp add: t2_def tracker_inv_def)
  let ?x = "x\<lparr>sx_tracker := t2, sx_log := l\<rparr>"
  have rx: "r\<lparr>mr_ptr := mr_ptr r, mr_size := mr_size r, mr_handle := h\<rparr> = r1" by (simp add: r1_def)
  have "swap_in_loop d (k # [Suc k..<length rs]) x = swap_in_loop d [Suc k..<length rs] ?x"
    using swap_in_loop_step [of x k d "mr_ptr r" "mr_size r" h l] rp(1) h ma
    unfolding Suc.prems(4) [symmetric] r_def [symmetric] rx t1_def [symmetric] l_def [symmetric] by (simp add: t2_def)
  then have step: "swap_in_loop d [k..<length rs] x = swap_in_loop d [Suc k..<length rs] ?x" using k by (simp add: upt_conv_Cons)
  have mt: "mt_records t2 = rs[k := r2]" by (simp add: t2_def)
  have "\<forall>r \<in> set (drop (Suc k) (rs[k := r2])). mr_is_swapped r \<and> \<not> mr_is_physical r \<and> aligned g (mr_size r)"
    using Suc.prems(5) dr by simp
  moreover have hn: "n = length (rs[k := r2]) - Suc k" using Suc.hyps(2) by simp
  moreover have xs: "tracker_inv (sx_tracker ?x)" "sx_executor ?x = Some base" "length (sx_log ?x) = 4 * Suc j" "rs[k := r2] = mt_records (sx_tracker ?x)"
    using inv2 Suc.prems(2,3) mt by (simp_all add: l_def)
  ultimately have ih: "\<exists>x'. swap_in_loop d [Suc k..<length (rs[k := r2])] ?x = Some x'
    \<and> copies_of (sx_log x') = copies_of (sx_log ?x)
        @ map (\<lambda>r. (unat (mr_ptr r), unat (base + mr_swap_offset r), unat (mr_size r))) (drop (Suc k) (rs[k := r2]))
    \<and> take (Suc k) (mt_records (sx_tracker x')) = take (Suc k) (rs[k := r2])
    \<and> (\<forall>r \<in> set (drop (Suc k) (mt_records (sx_tracker x'))). \<not> mr_is_swapped r)
    \<and> map (\<lambda>r. (mr_ptr r, mr_size r)) (mt_records (sx_tracker x')) = map (\<lambda>r. (mr_ptr r, mr_size r)) (rs[k := r2])"
    by (intro Suc.hyps(1)) assumption+
  have dl: "drop (Suc k) (rs[k := r2]) = drop (Suc k) rs" "length (rs[k := r2]) = length rs" "sx_log ?x = l" by simp_all
  obtain x' where x': "swap_in_loop d [Suc k..<length rs] ?x = Some x'"
    "copies_of (sx_log x') = copies_of l @ map (\<lambda>r. (unat (mr_ptr r), unat (base + mr_swap_offset r), unat (mr_size r))) (drop (Suc k) rs)"
    "take (Suc k) (mt_records (sx_tracker x')) = take (Suc k) (rs[k := r2])" "\<forall>r \<in> set (drop (Suc k) (mt_records (sx_tracker x'))). \<not> mr_is_swapped r"
    "map (\<lambda>r. (mr_ptr r, mr_size r)) (mt_records (sx_tracker x')) = map (\<lambda>r. (mr_ptr r, mr_size r)) (rs[k := r2])"
    using ih unfolding dl by blast
  have len: "length (mt_records (sx_tracker x')) = length rs" using arg_cong [OF x'(5), of length] by simp
  have "mt_records (sx_tracker x') ! k = r2"
    using arg_cong [OF x'(3), of "\<lambda>q. q ! k"] k len by simp
  then have drx: "drop k (mt_records (sx_tracker x')) = r2 # drop (Suc k) (mt_records (sx_tracker x'))" using k len by (simp add: Cons_nth_drop_Suc [symmetric])
  have "take k (mt_records (sx_tracker x')) = take k rs" using arg_cong [OF x'(3), of "take k"] by (simp add: min_def)
  moreover have "map (\<lambda>r. (mr_ptr r, mr_size r)) (rs[k := r2]) = map (\<lambda>r. (mr_ptr r, mr_size r)) rs"
    using k ptrs by (simp add: map_update list_update_same_conv r_def)
  moreover have "\<forall>r \<in> set (drop k (mt_records (sx_tracker x'))). \<not> mr_is_swapped r" unfolding drx using x'(4) ptrs(4) by simp
  ultimately show ?case unfolding step dr using x' by (intro exI [of _ x']) (simp add: l_def)
qed

text \<open>The records are apart from each other and from the range of the swap buffer, which ends before the address space does.\<close>

definition va_range :: "memory_record \<Rightarrow> nat set" where
  "va_range r = range_of (unat (mr_ptr r)) (unat (mr_size r))"

definition total_size :: "memory_record list \<Rightarrow> nat" where
  "total_size rs = (\<Sum>r\<leftarrow>rs. unat (mr_size r))"

definition well_placed :: "u64 \<Rightarrow> u64 \<Rightarrow> memory_record list \<Rightarrow> bool" where
  "well_placed base off rs \<longleftrightarrow> sorted_wrt (\<lambda>r r'. va_range r \<inter> va_range r' = {}) rs
     \<and> (\<forall>r \<in> set rs. va_range r \<inter> range_of (unat base + unat off) (total_size rs) = {})
     \<and> unat base + unat off + total_size rs < 2 ^ 64"

lemma range_of_split: "range_of a (n + k) = range_of a n \<union> range_of (a + n) k" "range_of a n \<inter> range_of (a + n) k = {}"
  by (auto simp: range_of_def)

text \<open>Where the records lie in the swap buffer: one after the other.\<close>

lemma consecutive_copies:
  assumes "consecutive off (map (\<lambda>r. (mr_swap_offset r, mr_size r)) rs)"
    and "unat base + unat off + total_size rs < 2 ^ 64" and "\<forall>r \<in> set rs. va_range r \<inter> range_of (unat base + unat off) (total_size rs) = {}"
  shows "separate (map (\<lambda>r. (unat (base + mr_swap_offset r), unat (mr_ptr r), unat (mr_size r))) rs)
    \<and> (\<forall>r \<in> set rs. range_of (unat (base + mr_swap_offset r)) (unat (mr_size r)) \<subseteq> range_of (unat base + unat off) (total_size rs))"
  using assms
proof (induction rs arbitrary: off)
  case (Cons r rs)
  have t: "total_size (r # rs) = unat (mr_size r) + total_size rs" by (simp add: total_size_def)
  have "\<not> add_overflows off (mr_size r)" "\<not> add_overflows base off" using Cons.prems(2) by (auto simp: add_overflows_def t)
  then have u: "unat (off + mr_size r) = unat off + unat (mr_size r)" "unat (base + off) = unat base + unat off" by (simp_all add: unat_sum)
  have o: "mr_swap_offset r = off" using Cons.prems(1) by simp
  have ih: "separate (map (\<lambda>r. (unat (base + mr_swap_offset r), unat (mr_ptr r), unat (mr_size r))) rs)"
    "\<forall>q \<in> set rs. range_of (unat (base + mr_swap_offset q)) (unat (mr_size q)) \<subseteq> range_of (unat base + unat off + unat (mr_size r)) (total_size rs)"
    using Cons.IH [of "off + mr_size r"] Cons.prems by (auto simp: u t range_of_split add.assoc)
  have "range_of (unat (base + off)) (unat (mr_size r)) \<inter> range_of (unat (base + mr_swap_offset q)) (unat (mr_size q)) = {}
      \<and> range_of (unat (base + off)) (unat (mr_size r)) \<inter> va_range q = {}" if "q \<in> set rs" for q
  proof -
    have "va_range q \<inter> range_of (unat base + unat off) (unat (mr_size r)) = {}" using Cons.prems(3) that by (auto simp: t range_of_split)
    then show ?thesis using ih(2) that range_of_split(2) [of "unat base + unat off" "unat (mr_size r)" "total_size rs"] by (auto simp: u)
  qed
  then show ?case using ih by (auto simp: o u t range_of_split va_range_def)
qed simp

lemma separate_back:
  assumes "sorted_wrt (\<lambda>r r'. va_range r \<inter> va_range r' = {}) rs"
    and "\<forall>r \<in> set rs. va_range r \<inter> B = {}" and "\<forall>r \<in> set rs. range_of (unat (base + mr_swap_offset r)) (unat (mr_size r)) \<subseteq> B"
  shows "separate (map (\<lambda>r. (unat (mr_ptr r), unat (base + mr_swap_offset r), unat (mr_size r))) rs)"
  using assms
proof (induction rs)
  case (Cons r rs)
  have "va_range r \<inter> va_range q = {} \<and> va_range r \<inter> range_of (unat (base + mr_swap_offset q)) (unat (mr_size q)) = {}" if "q \<in> set rs" for q
  proof -
    have "va_range r \<inter> va_range q = {}" "va_range r \<inter> B = {}" "range_of (unat (base + mr_swap_offset q)) (unat (mr_size q)) \<subseteq> B"
      using Cons.prems that by simp_all
    then show ?thesis by blast
  qed
  then show ?case using Cons by (auto simp: va_range_def)
qed simp

lemma well_placed_cong:
  assumes "map (\<lambda>r. (mr_ptr r, mr_size r)) rs' = map (\<lambda>r. (mr_ptr r, mr_size r)) rs"
  shows "well_placed base off rs' = well_placed base off rs" "va_range ` set rs' = va_range ` set rs" "total_size rs' = total_size rs"
proof -
  have v: "va_range = (\<lambda>(p, s). range_of (unat p) (unat s)) \<circ> (\<lambda>r. (mr_ptr r, mr_size r))" by (auto simp: va_range_def)
  have m: "map va_range rs' = map va_range rs" unfolding v map_map [symmetric] assms ..
  show vs: "va_range ` set rs' = va_range ` set rs" using m by (metis list.set_map)
  have "map (\<lambda>r. unat (mr_size r)) rs' = map (\<lambda>r. unat (mr_size r)) rs" using arg_cong [OF assms, of "map (unat \<circ> snd)"] by (simp add: comp_def)
  then show t: "total_size rs' = total_size rs" by (simp add: total_size_def)
  have "sorted_wrt (\<lambda>r r'. va_range r \<inter> va_range r' = {}) q = sorted_wrt (\<lambda>a b. a \<inter> b = {}) (map va_range q)" for q
    by (simp add: sorted_wrt_map)
  then have "sorted_wrt (\<lambda>r r'. va_range r \<inter> va_range r' = {}) rs' = sorted_wrt (\<lambda>r r'. va_range r \<inter> va_range r' = {}) rs" by (simp add: m)
  moreover have "(\<forall>r \<in> set rs'. va_range r \<inter> B = {}) = (\<forall>r \<in> set rs. va_range r \<inter> B = {})" for B using vs by (metis (no_types, lifting) image_iff)
  ultimately show "well_placed base off rs' = well_placed base off rs" by (simp add: well_placed_def t)
qed

lemma swap_out_whole:
  assumes "swap_executor_swap_out d (Some base) t (int (length (mt_records t))) off 0 l0 = (rc, t', act, l)" and "mt_records t \<noteq> []"
  obtains qs chk where "swap_out_loop d t base (mt_records t) off 0 0 l0 = (qs, act, chk, l)" "t' = t\<lparr>mt_records := qs, mt_check_record := chk\<rparr>"
proof -
  obtain qs a chk k where lp: "swap_out_loop d t base (mt_records t) off 0 0 l0 = (qs, a, chk, k)" by (metis prod_cases4)
  then have "swap_executor_swap_out d (Some base) t (int (length (mt_records t))) off 0 l0
      = (ENPU_SUCCESS, t\<lparr>mt_records := qs, mt_check_record := chk\<rparr>, a, k)" using assms(2) by (simp add: swap_executor_swap_out_def)
  then show thesis using that lp assms(1) by simp
qed

text \<open>C11: swapping out and back in keeps the contents of the memory. Take a tracker whose records are plain allocations, none swapped,
  of sizes the granularity divides, apart from each other and from the range of the swap buffer, and a driver that does not fail.
  After a swap-out of all records and a swap-in in a state of the memory that only keeps the bytes of that range of the buffer
  (the device memory has been given to others in between), every record is active again at its old address with its old size, and
  every byte of it has the value it had before the swap-out.\<close>

theorem swap_round_trip_keeps_contents:
  fixes m m' :: "nat \<Rightarrow> 'b"
  assumes d: "\<forall>k. dv_ret d k = 0" "\<forall>k. dv_ret d' k = 0" "\<forall>k. dv_val d' (4 * k) = g" "g \<noteq> 0"
    and t: "tracker_inv t" "mt_records t \<noteq> []"
    and rs: "\<forall>r \<in> set (mt_records t). \<not> mr_is_physical r \<and> \<not> mr_is_swapped r \<and> aligned g (mr_size r)"
    and placed: "well_placed base off (mt_records t)"
    and out: "swap_executor_swap_out d (Some base) t (int (length (mt_records t))) off 0 [] = (rc, t', act, l)"
    and buffer: "\<forall>a \<in> range_of (unat base + unat off) (total_size (mt_records t)). m' a = fold copy (copies_of l) m a"
    and x: "sx_executor x = Some base" "sx_tracker x = t'" "sx_log x = []"
  shows "\<exists>x'. swap_in_loop d' [0..<length (mt_records t')] x = Some x'
    \<and> map (\<lambda>r. (mr_ptr r, mr_size r)) (mt_records (sx_tracker x')) = map (\<lambda>r. (mr_ptr r, mr_size r)) (mt_records t)
    \<and> (\<forall>r \<in> set (mt_records (sx_tracker x')). \<not> mr_is_swapped r)
    \<and> (\<forall>r \<in> set (mt_records t). \<forall>a \<in> va_range r. fold copy (copies_of (sx_log x')) m' a = m a)"
proof -
  let ?R = "range_of (unat base + unat off) (total_size (mt_records t))"
  obtain qs chk where lp: "swap_out_loop d t base (mt_records t) off 0 0 [] = (qs, act, chk, l)" and t': "t' = t\<lparr>mt_records := qs, mt_check_record := chk\<rparr>"
    using swap_out_whole [OF out t(2)] .
  have qs_def: "qs = mt_records t'" by (simp add: t')
  have "\<forall>r \<in> set (mt_records t). \<not> mr_is_physical r \<and> \<not> mr_is_swapped r \<and> mr_ptr r \<noteq> 0" using rs t(1) by (auto simp: tracker_inv_def)
  note o = swap_out_loop_ok [OF d(1) this lp]
  have ps: "map (\<lambda>r. (mr_ptr r, mr_size r)) qs = map (\<lambda>r. (mr_ptr r, mr_size r)) (mt_records t)" using o by blast
  note c = well_placed_cong [OF ps]
  have "map mr_ptr qs = map mr_ptr (mt_records t)" using arg_cong [OF ps, of "map fst"] by (simp add: comp_def)
  then have "tracker_inv (t\<lparr>mt_records := qs\<rparr>)" using t(1) by (rule tracker_inv_update [rotated])
  then have inv: "tracker_inv (sx_tracker x)" by (simp add: x t' tracker_inv_def)
  have p: "well_placed base off qs" using placed c(1) by simp
  have al: "\<forall>r \<in> set qs. aligned g (mr_size r)"
  proof -
    have "mr_size ` set qs = mr_size ` set (mt_records t)" using arg_cong [OF ps, of "\<lambda>q. snd ` set q"] by (simp add: image_image)
    then show ?thesis using rs by (metis (no_types, lifting) image_iff)
  qed
  have sq: "\<forall>r \<in> set (drop 0 qs). mr_is_swapped r \<and> \<not> mr_is_physical r \<and> aligned g (mr_size r)" using o al by simp
  have cc: "separate (copies_of l)" "\<forall>r \<in> set qs. range_of (unat (base + mr_swap_offset r)) (unat (mr_size r)) \<subseteq> ?R"
  proof -
    have "copies_of l = map (\<lambda>r. (unat (base + mr_swap_offset r), unat (mr_ptr r), unat (mr_size r))) qs" using o by simp
    moreover have "consecutive off (map (\<lambda>r. (mr_swap_offset r, mr_size r)) qs)" using o by blast
    ultimately show "separate (copies_of l)" "\<forall>r \<in> set qs. range_of (unat (base + mr_swap_offset r)) (unat (mr_size r)) \<subseteq> ?R"
      using consecutive_copies [of off qs base] p unfolding well_placed_def c(3) by simp_all
  qed
  obtain x' where x': "swap_in_loop d' [0..<length qs] x = Some x'"
    "copies_of (sx_log x') = map (\<lambda>r. (unat (mr_ptr r), unat (base + mr_swap_offset r), unat (mr_size r))) qs"
    "\<forall>r \<in> set (mt_records (sx_tracker x')). \<not> mr_is_swapped r"
    "map (\<lambda>r. (mr_ptr r, mr_size r)) (mt_records (sx_tracker x')) = map (\<lambda>r. (mr_ptr r, mr_size r)) qs"
  proof -
    have "length (sx_log x) = 4 * 0" "qs = mt_records (sx_tracker x)" "copies_of (sx_log x) = []" by (simp_all add: x t')
    then show thesis using that swap_in_loop_ok [OF d(2-4) inv x(1) _ _ sq] unfolding drop_0 by force
  qed
  have sep: "separate (copies_of (sx_log x'))" unfolding x'(2) using p cc(2) c(3)
    by (intro separate_back [of _ ?R]) (auto simp: well_placed_def)
  have keep: "fold copy (copies_of (sx_log x')) m' a = m a" if q: "q \<in> set qs" and a: "a \<in> va_range q" for q a
  proof -
    obtain j where j: "a = unat (mr_ptr q) + j" "j < unat (mr_size q)" using a by (auto simp: va_range_def range_of_def dest: le_Suc_ex)
    have "fold copy (copies_of (sx_log x')) m' a = m' (unat (base + mr_swap_offset q) + j)"
      unfolding j(1) using q by (intro copies_inside [OF sep _ j(2)]) (auto simp: x'(2))
    also have "\<dots> = fold copy (copies_of l) m (unat (base + mr_swap_offset q) + j)"
    proof -
      have "unat (base + mr_swap_offset q) + j \<in> ?R" using cc(2) q j(2) by (force simp: range_of_def)
      then show ?thesis using buffer by blast
    qed
    also have "\<dots> = m a" unfolding j(1) using q o by (intro copies_inside [OF cc(1) _ j(2)]) auto
    finally show ?thesis .
  qed
  have "\<forall>r \<in> set (mt_records t). \<forall>a \<in> va_range r. fold copy (copies_of (sx_log x')) m' a = m a"
  proof (intro ballI)
    fix r a assume "r \<in> set (mt_records t)" "a \<in> va_range r"
    moreover then obtain q where "q \<in> set qs" "va_range q = va_range r" using c(2) by (metis image_iff)
    ultimately show "fold copy (copies_of (sx_log x')) m' a = m a" using keep by blast
  qed
  then show ?thesis using x' ps unfolding qs_def [symmetric] by (intro exI [of _ x']) simp
qed

lemma demo_tracker_inv: "tracker_inv demo_tracker"
proof -
  have b: "hash_ptr k 1 = 0" for k by (simp add: hash_ptr_def)
  have l: "hash_lookup (mt_map demo_tracker) = [4096 \<mapsto> \<lparr>mv_ptr = 0, mv_capture_status = False\<rparr>, 8192 \<mapsto> \<lparr>mv_ptr = 1, mv_capture_status = False\<rparr>]"
    by (rule ext) (simp add: hash_lookup_def bucket_of_def demo_tracker_def b)
  then have "dom (hash_lookup (mt_map demo_tracker)) = {4096, 8192}" by auto
  then have "hash_inv (mt_map demo_tracker)" unfolding hash_inv_def by (auto simp: demo_tracker_def bucket_of_def b)
  then show ?thesis unfolding tracker_inv_def points_to_def l by (simp add: demo_tracker_def demo_record_def)
qed

definition demo_driver :: driver where
  "demo_driver = \<lparr>dv_ret = (\<lambda>_. 0), dv_val = (\<lambda>_. 8)\<rparr>"

definition demo_out :: "int \<times> unit memory_tracker \<times> u64 \<times> call_log" where
  "demo_out = swap_executor_swap_out demo_driver (Some 65536) demo_tracker 2 64 0 []"

definition demo_ctx :: "unit swap_ctx" where
  "demo_ctx = \<lparr>sx_executor = Some 65536, sx_tracker = fst (snd demo_out), sx_shm = None, sx_sched = None, sx_info = demo_info,
     sx_swap_in_locked = True, sx_log = []\<rparr>"

theorem swap_round_trip_keeps_contents_witness:
  "\<exists>x'. swap_in_loop demo_driver [0..<2] demo_ctx = Some x'
    \<and> (\<forall>a \<in> {4096..<4112}. fold copy (copies_of (sx_log x')) (fold copy (copies_of (snd (snd (snd demo_out)))) id) a = a)"
proof -
  obtain rc t act l where o: "demo_out = (rc, t, act, l)" by (metis prod_cases4)
  have len: "length (mt_records demo_tracker) = 2" by (simp add: demo_tracker_def)
  have out: "swap_executor_swap_out demo_driver (Some 65536) demo_tracker (int (length (mt_records demo_tracker))) 64 0 [] = (rc, t, act, l)"
    using o by (simp add: len demo_out_def)
  have rs: "\<forall>r \<in> set (mt_records demo_tracker). \<not> mr_is_physical r \<and> \<not> mr_is_swapped r \<and> aligned 8 (mr_size r)"
    by (simp add: demo_tracker_def demo_record_def aligned_def)
  have p: "well_placed 65536 64 (mt_records demo_tracker)"
    by (auto simp: well_placed_def demo_tracker_def demo_record_def va_range_def range_of_def total_size_def)
  have d: "\<forall>k. dv_ret demo_driver k = 0" "\<forall>k. dv_val demo_driver (4 * k) = 8" "(8::u64) \<noteq> 0" by (simp_all add: demo_driver_def)
  have x: "sx_executor demo_ctx = Some 65536" "sx_tracker demo_ctx = t" "sx_log demo_ctx = []" by (simp_all add: demo_ctx_def o)
  have ne: "mt_records demo_tracker \<noteq> []" by (simp add: demo_tracker_def)
  have "length (mt_records t) = 2"
  proof -
    obtain qs chk where "swap_out_loop demo_driver demo_tracker 65536 (mt_records demo_tracker) 64 0 0 [] = (qs, act, chk, l)"
      "t = demo_tracker\<lparr>mt_records := qs, mt_check_record := chk\<rparr>" using swap_out_whole [OF out ne] .
    then show ?thesis using swap_out_loop_spec len by fastforce
  qed
  moreover have "demo_record 4096 16 101 \<in> set (mt_records demo_tracker)" "va_range (demo_record 4096 16 101) = {4096..<4112}"
    by (simp_all add: demo_tracker_def va_range_def range_of_def demo_record_def)
  ultimately have r: "demo_record 4096 16 101 \<in> set (mt_records demo_tracker)" "va_range (demo_record 4096 16 101) = {4096..<4112}"
    and l2: "length (mt_records t) = 2" by blast+
  have b: "\<forall>a \<in> range_of (unat (65536::u64) + unat (64::u64)) (total_size (mt_records demo_tracker)). fold copy (copies_of l) id a = fold copy (copies_of l) id a" by simp
  obtain x' where "swap_in_loop demo_driver [0..<length (mt_records t)] demo_ctx = Some x'"
    "\<forall>r \<in> set (mt_records demo_tracker). \<forall>a \<in> va_range r. fold copy (copies_of (sx_log x')) (fold copy (copies_of l) id) a = id a"
    using swap_round_trip_keeps_contents [OF d(1) d(1) d(2) d(3) demo_tracker_inv ne rs p out b x] by blast
  moreover from this(2) r have "\<forall>a \<in> {4096..<4112}. fold copy (copies_of (sx_log x')) (fold copy (copies_of l) id) a = a" by (metis id_apply)
  ultimately show ?thesis unfolding l2 o snd_conv by blast
qed

end
