(* ===== verification/Mcs_Sched.thy ===== *)
theory Mcs_Sched
  imports Npu_Config
begin

text \<open>
  Priority scheduling of the co-scheduling library (\<^verbatim>\<open>mcs/src/mcs_sched.c\<close>): processes of several vNPUs share a
  structure in shared memory; before a launch, a process of normal priority waits while a process of
  high priority is active, but at most for a burst of launches. Readings of the clock are a parameter
  \<open>now\<close>, and \<open>others k\<close> is what the other processes do to the shared structure between two accesses.
  The initialisation of the structure and the launches are also step relations over all processes.
\<close>

section \<open>The shared structure\<close>

abbreviation (input) MCS_MAX_VNPU :: nat where "MCS_MAX_VNPU \<equiv> 100"
abbreviation (input) MCS_MAGIC_INITIALIZING :: u32 where "MCS_MAGIC_INITIALIZING \<equiv> 0x4D435300"
abbreviation (input) MCS_MAGIC_INITIALIZED :: u32 where "MCS_MAGIC_INITIALIZED \<equiv> 0x4D435301"
abbreviation (input) MCS_NO_TASK_TIMEOUT_NS :: u64 where "MCS_NO_TASK_TIMEOUT_NS \<equiv> 5000000"
abbreviation (input) MCS_WAIT_SLEEP_NS :: nat where "MCS_WAIT_SLEEP_NS \<equiv> 100000"
abbreviation (input) MCS_HIGH_LAUNCH_BURST_DEFAULT :: int where "MCS_HIGH_LAUNCH_BURST_DEFAULT \<equiv> 300"

text \<open>\<open>ms_mutex\<close>: the mutex has been initialised.\<close>

record mcs_state =
  ms_mutex :: bool
  ms_last_kernel_time_ns :: "nat \<Rightarrow> u64"
  ms_high_launch_count :: u64
  ms_vnpu_priority :: "nat \<Rightarrow> u8"
  ms_magic_number :: u32

text \<open>\<^verbatim>\<open>memset\<close> clears the whole structure, the magic number included.\<close>

definition mcs_shared_state_init :: mcs_state where
  "mcs_shared_state_init = \<lparr>ms_mutex = True, ms_last_kernel_time_ns = (\<lambda>_. 0), ms_high_launch_count = 0,
     ms_vnpu_priority = (\<lambda>_. 0), ms_magic_number = 0\<rparr>"

text \<open>The loop that claims the initialisation. \<open>observed\<close> is the value read last; a round with a failed claim or a
  sleep starts with the accesses of the others.\<close>

partial_function (option) claim_loop :: "(nat \<Rightarrow> mcs_state \<Rightarrow> mcs_state) \<Rightarrow> nat \<Rightarrow> u32 \<Rightarrow> mcs_state \<Rightarrow> mcs_state option" where
  "claim_loop others k observed st =
     (if observed = MCS_MAGIC_INITIALIZED then Some st
      else let st1 = others k st in
        if observed \<noteq> MCS_MAGIC_INITIALIZING
        then if ms_magic_number st1 = observed
          then Some ((others (Suc k) mcs_shared_state_init)\<lparr>ms_magic_number := MCS_MAGIC_INITIALIZED\<rparr>)
          else claim_loop others (Suc k) (ms_magic_number st1) st1
        else claim_loop others (Suc k) (ms_magic_number st1) st1)"

text \<open>What the system calls answer; \<open>se_size\<close> is the size of the object, \<open>se_bytes\<close> that of the structure.\<close>

record shm_env =
  se_open :: bool
  se_stat :: bool
  se_size :: int
  se_bytes :: nat
  se_truncate :: bool
  se_mmap :: bool

definition mcs_shm_init :: "shm_env \<Rightarrow> (nat \<Rightarrow> mcs_state \<Rightarrow> mcs_state) \<Rightarrow> bool \<Rightarrow> mcs_state \<Rightarrow> (int \<times> mcs_state) option" where
  "mcs_shm_init env others args_ok st =
     (if \<not> args_ok then Some (-1, st)
      else if \<not> se_open env then Some (-1, st)
      else if \<not> se_stat env then Some (-1, st)
      else if se_size env \<ge> 0 \<and> nat (se_size env) < se_bytes env \<and> \<not> se_truncate env then Some (-1, st)
      else if \<not> se_mmap env then Some (-1, st)
      else map_option (Pair 0) (claim_loop others 0 (ms_magic_number st) st))"

section \<open>Activity of the vNPUs\<close>

definition mcs_mark_active :: "u64 \<Rightarrow> int \<Rightarrow> mcs_state option \<Rightarrow> mcs_state option" where
  "mcs_mark_active now vnpu_id so =
     (case so of None \<Rightarrow> None
      | Some st \<Rightarrow>
        if vnpu_id < 0 \<or> vnpu_id \<ge> int MCS_MAX_VNPU then so
        else Some (st\<lparr>ms_last_kernel_time_ns := (ms_last_kernel_time_ns st)(nat vnpu_id := now)\<rparr>))"

fun high_active_loop :: "u64 \<Rightarrow> nat \<Rightarrow> mcs_state \<Rightarrow> nat list \<Rightarrow> bool" where
  "high_active_loop now me st [] \<longleftrightarrow> False"
| "high_active_loop now me st (i # is) \<longleftrightarrow>
     (if i = me then high_active_loop now me st is
      else if ms_vnpu_priority st i \<noteq> 1 then high_active_loop now me st is
      else let last = ms_last_kernel_time_ns st i in
        if last = 0 then high_active_loop now me st is
        else if now \<ge> last \<and> now - last \<le> MCS_NO_TASK_TIMEOUT_NS then True
        else if now < last \<and> last - now \<le> MCS_NO_TASK_TIMEOUT_NS then True
        else high_active_loop now me st is)"

definition mcs_has_high_priority_active :: "u64 \<Rightarrow> int \<Rightarrow> mcs_state option \<Rightarrow> bool" where
  "mcs_has_high_priority_active now my_vnpu_id so \<longleftrightarrow>
     (case so of None \<Rightarrow> False
      | Some st \<Rightarrow>
        if my_vnpu_id < 0 \<or> my_vnpu_id \<ge> int MCS_MAX_VNPU then False
        else if ms_vnpu_priority st (nat my_vnpu_id) \<noteq> 0 then False
        else high_active_loop now (nat my_vnpu_id) st [0..<MCS_MAX_VNPU])"

partial_function (option) wait_idle_loop ::
    "(nat \<Rightarrow> u64) \<Rightarrow> (nat \<Rightarrow> mcs_state \<Rightarrow> mcs_state) \<Rightarrow> int \<Rightarrow> nat \<Rightarrow> mcs_state \<Rightarrow> mcs_state option" where
  "wait_idle_loop now others me k st =
     (let st1 = others k st in
      if mcs_has_high_priority_active (now k) me (Some st1) then wait_idle_loop now others me (Suc k) st1 else Some st1)"

definition mcs_wait_for_idle ::
    "(nat \<Rightarrow> u64) \<Rightarrow> (nat \<Rightarrow> mcs_state \<Rightarrow> mcs_state) \<Rightarrow> int \<Rightarrow> mcs_state option \<Rightarrow> mcs_state option option" where
  "mcs_wait_for_idle now others me so =
     (case so of None \<Rightarrow> Some None | Some st \<Rightarrow> map_option Some (wait_idle_loop now others me 0 st))"

section \<open>Before a launch\<close>

text \<open>\<open>cached\<close> is the static variable, negative before the first call; \<open>env\<close> the environment variable.\<close>

definition mcs_high_launch_burst_limit :: "string option \<Rightarrow> int \<Rightarrow> u64 \<times> int" where
  "mcs_high_launch_burst_limit env cached =
     (let limit = (if cached < 0
            then (case env of None \<Rightarrow> MCS_HIGH_LAUNCH_BURST_DEFAULT
                  | Some s \<Rightarrow>
                    if s = [] then MCS_HIGH_LAUNCH_BURST_DEFAULT
                    else case strtol s of (parsed, rest, _) \<Rightarrow>
                      if rest \<noteq> s \<and> rest = [] \<and> parsed \<ge> 1 then parsed else MCS_HIGH_LAUNCH_BURST_DEFAULT)
            else cached)
      in (word_of_int limit, limit))"

definition high_launch :: "u64 \<Rightarrow> nat \<Rightarrow> mcs_state \<Rightarrow> mcs_state" where
  "high_launch now v st = st\<lparr>ms_high_launch_count := ms_high_launch_count st + 1,
     ms_last_kernel_time_ns := (ms_last_kernel_time_ns st)(v := now)\<rparr>"

text \<open>The two operands of the loop condition are read at different times. The result is the number of the round.\<close>

partial_function (option) gate_loop ::
    "(nat \<Rightarrow> u64) \<Rightarrow> (nat \<Rightarrow> mcs_state \<Rightarrow> mcs_state) \<Rightarrow> u64 \<Rightarrow> int \<Rightarrow> nat \<Rightarrow> mcs_state \<Rightarrow> (nat \<times> mcs_state) option" where
  "gate_loop now others limit me k st =
     (let st1 = others (2 * k) st in
      if \<not> mcs_has_high_priority_active (now k) me (Some st1) then Some (k, st1)
      else let st2 = others (2 * k + 1) st1 in
        if ms_high_launch_count st2 \<ge> limit then Some (k, st2)
        else gate_loop now others limit me (Suc k) st2)"

definition pass_gate :: "u64 \<Rightarrow> nat \<Rightarrow> mcs_state \<Rightarrow> mcs_state" where
  "pass_gate now v st = st\<lparr>ms_high_launch_count := 0, ms_last_kernel_time_ns := (ms_last_kernel_time_ns st)(v := now)\<rparr>"

definition mcs_before_launch ::
    "(nat \<Rightarrow> u64) \<Rightarrow> (nat \<Rightarrow> mcs_state \<Rightarrow> mcs_state) \<Rightarrow> u64 \<Rightarrow> int \<Rightarrow> u8 \<Rightarrow> mcs_state option \<Rightarrow> mcs_state option option" where
  "mcs_before_launch now others limit vnpu_id my_priority so =
     (case so of None \<Rightarrow> Some None
      | Some st \<Rightarrow>
        if vnpu_id < 0 \<or> vnpu_id \<ge> int MCS_MAX_VNPU then Some so
        else if my_priority = 1 then Some (Some (high_launch (now 0) (nat vnpu_id) st))
        else map_option (\<lambda>(k, st1). Some (pass_gate (now (Suc k)) (nat vnpu_id) st1)) (gate_loop now others limit vnpu_id 0 st))"


section \<open>A launch of normal priority is served\<close>

text \<open>What the loop looks for.\<close>

definition recent :: "u64 \<Rightarrow> u64 \<Rightarrow> bool" where
  "recent now stamp \<longleftrightarrow> stamp \<noteq> 0 \<and> (now \<ge> stamp \<and> now - stamp \<le> MCS_NO_TASK_TIMEOUT_NS \<or> now < stamp \<and> stamp - now \<le> MCS_NO_TASK_TIMEOUT_NS)"

lemma high_active_iff:
  "high_active_loop now me st is \<longleftrightarrow> (\<exists>i \<in> set is. i \<noteq> me \<and> ms_vnpu_priority st i = 1 \<and> recent now (ms_last_kernel_time_ns st i))"
  by (induction now me st "is" rule: high_active_loop.induct) (auto simp: recent_def Let_def)

lemma recent_bound: "recent now stamp \<Longrightarrow> unat now \<le> unat stamp + 5000000"
proof (cases "now < stamp")
  case False
  assume "recent now stamp"
  then have "now - stamp \<le> 5000000" using False by (auto simp: recent_def)
  moreover have "unat (now - stamp) = unat now - unat stamp" using False by (simp add: unat_sub not_less)
  ultimately show ?thesis by (simp add: word_le_nat_alt)
qed (simp add: word_less_nat_alt)

text \<open>The other processes launch, with high or normal priority: in every interval a list of launches with their time stamps. A launch
  of another process is one step here, the update of the count and of the time stamp together.\<close>

datatype launch = High_launch (launch_time: u64) nat | Normal_launch (launch_time: u64) nat

fun run_launch :: "launch \<Rightarrow> mcs_state \<Rightarrow> mcs_state" where
  "run_launch (High_launch t v) st = high_launch t v st"
| "run_launch (Normal_launch t v) st = pass_gate t v st"

definition run_launches :: "launch list \<Rightarrow> mcs_state \<Rightarrow> mcs_state" where
  "run_launches es st = fold run_launch es st"

lemma run_launches_simps [simp]: "run_launches [] st = st" "run_launches (es @ fs) st = run_launches fs (run_launches es st)"
  by (simp_all add: run_launches_def)

lemma run_launches_count:
  "(\<And>t v. Normal_launch t v \<notin> set es) \<Longrightarrow> ms_high_launch_count (run_launches es st) = ms_high_launch_count st + of_nat (length es)"
proof (induction es arbitrary: st)
  case (Cons e es)
  then obtain t v where e: "e = High_launch t v" by (cases e) auto
  have "ms_high_launch_count (run_launches es (high_launch t v st)) = ms_high_launch_count (high_launch t v st) + of_nat (length es)"
    using Cons.prems by (intro Cons.IH) simp
  then show ?case by (simp add: e run_launches_def high_launch_def)
qed simp

lemma run_launches_stamp:
  "ms_last_kernel_time_ns (run_launches es st) v = ms_last_kernel_time_ns st v \<or> ms_last_kernel_time_ns (run_launches es st) v \<in> launch_time ` set es"
proof (induction es arbitrary: st)
  case (Cons e es)
  show ?case using Cons [of "run_launch e st"] by (cases e) (auto simp: run_launches_def high_launch_def pass_gate_def split: if_splits)
qed simp

definition launched :: "(nat \<Rightarrow> launch list) \<Rightarrow> nat \<Rightarrow> launch list" where
  "launched es i = concat (map es [0..<i])"

lemma launched_Suc: "launched es (Suc i) = launched es i @ es i"
  by (simp add: launched_def)

lemma launched_mono: "i \<le> j \<Longrightarrow> \<exists>fs. launched es j = launched es i @ fs"
  by (induction j rule: dec_induct) (auto simp: launched_Suc)

lemma gate_loop_returns:
  assumes "j \<le> k" and "\<not> mcs_has_high_priority_active (now k) me (Some (run_launches (launched es (2 * k + 1)) st))
      \<or> limit \<le> ms_high_launch_count (run_launches (launched es (2 * k + 2)) st)"
  shows "\<exists>i st1. i \<le> k \<and> gate_loop now (\<lambda>i. run_launches (es i)) limit me j (run_launches (launched es (2 * j)) st) = Some (i, st1)"
  using assms(1)
proof (induction "k - j" arbitrary: j)
  case 0
  then have "j = k" by simp
  then show ?case using assms(2) by (subst gate_loop.simps) (auto simp: Let_def launched_Suc)
next
  case (Suc n)
  have "\<exists>i st1. i \<le> k \<and> gate_loop now (\<lambda>i. run_launches (es i)) limit me (Suc j) (run_launches (launched es (2 * Suc j)) st) = Some (i, st1)"
    using Suc.hyps(2) by (intro Suc.hyps(1)) simp_all
  then show ?case using Suc.prems by (subst gate_loop.simps) (auto simp: Let_def launched_Suc)
qed

text \<open>No time stamp is ahead of the clock.\<close>

lemma stamps_past:
  assumes mono: "\<And>i j. i \<le> j \<Longrightarrow> j \<le> N \<Longrightarrow> now i \<le> (now j :: u64)"
    and es: "\<forall>i < 2 * N + 1. \<forall>e \<in> set (es i). launch_time e \<le> now (Suc i div 2)" and st: "\<forall>v. ms_last_kernel_time_ns st v \<le> now 0"
    and i: "i \<le> 2 * N + 1"
  shows "ms_last_kernel_time_ns (run_launches (launched es i) st) v \<le> now (i div 2)"
  using i
proof (induction i)
  case 0
  then show ?case using st by (simp add: launched_def)
next
  case (Suc i)
  have m: "now (i div 2) \<le> now (Suc i div 2)" using Suc.prems by (intro mono) auto
  have "ms_last_kernel_time_ns (run_launches (launched es i) st) v \<le> now (i div 2)" using Suc by simp
  moreover have "t \<le> now (Suc i div 2)" if "t \<in> launch_time ` set (es i)" for t
    using es [rule_format, of i] Suc.prems that by auto
  ultimately show ?case unfolding launched_Suc run_launches_simps
    using run_launches_stamp [of "es i" "run_launches (launched es i) st" v] order_trans [OF _ m] by auto
qed

lemma gate_opens:
  assumes clock: "\<forall>k < 51 * unat limit. unat (now k) + MCS_WAIT_SLEEP_NS \<le> unat (now (Suc k))"
    and es: "\<forall>i < 2 * (51 * unat limit) + 1. \<forall>e \<in> set (es i). launch_time e \<le> now (Suc i div 2)"
    and st: "\<forall>v. ms_last_kernel_time_ns st v \<le> now 0"
    and wrap: "unat (ms_high_launch_count st) + length (launched es (2 * (51 * unat limit) + 2)) < 2 ^ 64"
    and high: "\<And>t v. Normal_launch t v \<notin> set (launched es (2 * (51 * unat limit) + 2))"
  shows "\<exists>k st1. k \<le> 51 * unat limit \<and> gate_loop now (\<lambda>i. run_launches (es i)) limit me 0 st = Some (k, st1)"
proof -
  define N where "N = 51 * unat limit"
  let ?s = "\<lambda>i. run_launches (launched es i) st"
  let ?open = "\<lambda>k. \<not> mcs_has_high_priority_active (now k) me (Some (?s (2 * k + 1))) \<or> limit \<le> ms_high_launch_count (?s (2 * k + 2))"
  have adv: "unat (now i) + n * MCS_WAIT_SLEEP_NS \<le> unat (now (i + n))" if "i + n \<le> N" for i n
    using that
  proof (induction n)
    case (Suc n)
    then have "unat (now (i + n)) + MCS_WAIT_SLEEP_NS \<le> unat (now (Suc (i + n)))" using clock by (simp add: N_def)
    then show ?case using Suc by simp
  qed simp
  have mono: "now i \<le> now j" if "i \<le> j" "j \<le> N" for i j
    using adv [of i "j - i"] that by (simp add: word_le_nat_alt)
  have past: "ms_last_kernel_time_ns (?s i) v \<le> now (i div 2)" if "i \<le> 2 * N + 1" for i v
    by (rule stamps_past [where now = now and N = N]) (use mono es st that in \<open>simp_all add: N_def\<close>)
  have grow: "length (launched es (2 * k + 1)) < length (launched es (2 * (k + 51) + 1))" if k: "k + 51 \<le> N" and closed: "\<not> ?open (k + 51)" for k
  proof (rule ccontr)
    obtain fs where fs: "launched es (2 * (k + 51) + 1) = launched es (2 * k + 1) @ fs" using launched_mono [of "2 * k + 1" "2 * (k + 51) + 1" es] by auto
    assume "\<not> ?thesis"
    then have eq: "?s (2 * (k + 51) + 1) = ?s (2 * k + 1)" using fs by simp
    obtain i where "recent (now (k + 51)) (ms_last_kernel_time_ns (?s (2 * (k + 51) + 1)) i)"
      using closed by (auto simp: mcs_has_high_priority_active_def high_active_iff split: if_splits)
    then have "unat (now (k + 51)) \<le> unat (ms_last_kernel_time_ns (?s (2 * k + 1)) i) + 5000000" unfolding eq by (rule recent_bound)
    moreover have "ms_last_kernel_time_ns (?s (2 * k + 1)) i \<le> now k" using past [of "2 * k + 1" i] k by simp
    ultimately show False using adv [OF k] by (simp add: word_le_nat_alt)
  qed
  have "\<exists>k \<le> N. ?open k"
  proof (rule ccontr)
    assume c: "\<not> ?thesis"
    have "j \<le> unat limit \<Longrightarrow> j \<le> length (launched es (2 * (51 * j) + 1))" for j
    proof (induction j)
      case (Suc j)
      have "51 * j + 51 \<le> N" using Suc.prems by (simp add: N_def)
      then have "length (launched es (2 * (51 * j) + 1)) < length (launched es (2 * (51 * j + 51) + 1))" using c by (intro grow) auto
      then show ?case using Suc by (simp add: algebra_simps)
    qed simp
    then have "unat limit \<le> length (launched es (2 * N + 1))" by (simp add: N_def)
    moreover obtain fs where "launched es (2 * N + 2) = launched es (2 * N + 1) @ fs" using launched_mono [of "2 * N + 1" "2 * N + 2" es] by auto
    ultimately have "unat limit \<le> length (launched es (2 * N + 2))" by simp
    moreover have "unat (ms_high_launch_count (?s (2 * N + 2))) = unat (ms_high_launch_count st) + length (launched es (2 * N + 2))"
    proof -
      have "unat (of_nat (length (launched es (2 * N + 2))) :: u64) = length (launched es (2 * N + 2))"
        using wrap by (simp add: N_def unat_of_nat)
      then show ?thesis using wrap unfolding N_def run_launches_count [OF high] by (subst unat_add_lem [THEN iffD1]) simp_all
    qed
    ultimately have "limit \<le> ms_high_launch_count (?s (2 * N + 2))" by (simp add: word_le_nat_alt)
    then show False using c by blast
  qed
  then obtain k where k: "k \<le> N" "?open k" by blast
  then obtain i st1 where "i \<le> N" "gate_loop now (\<lambda>i. run_launches (es i)) limit me 0 st = Some (i, st1)"
    using gate_loop_returns [of 0 k now me es st limit] by (auto simp: launched_def)
  then show ?thesis by (auto simp: N_def)
qed

text \<open>Another process of normal priority that keeps passing can starve the waiting one: it resets the count each time, here always
  between the two reads of the loop.\<close>

definition starving_launches :: "nat \<Rightarrow> launch list" where
  "starving_launches i = (let t = of_nat (100000 * Suc (i div 2) + 1) in if even i then [High_launch t 7] else [Normal_launch t 5])"

lemma starved_round:
  assumes "ms_vnpu_priority st 7 = 1" "ms_vnpu_priority st 3 = 0"
  shows "mcs_has_high_priority_active (of_nat (100000 * Suc k + 1)) 3 (Some (run_launches (starving_launches (2 * k)) st))"
    and "ms_high_launch_count (run_launches (starving_launches (2 * k + 1)) st') = 0"
    and "ms_vnpu_priority (run_launches (starving_launches i) st) = ms_vnpu_priority st"
proof -
  have "\<not> 2 ^ 64 dvd 100000 * Suc k + 1" using dvd_trans [of 2 "2 ^ 64" "100000 * Suc k + 1"] by auto
  then have "(of_nat (100000 * Suc k + 1) :: u64) \<noteq> 0" by (simp only: word_of_nat_eq_0_iff) simp
  then have "recent (of_nat (100000 * Suc k + 1)) (of_nat (100000 * Suc k + 1))" by (simp add: recent_def del: of_nat_add of_nat_mult of_nat_Suc)
  then show "mcs_has_high_priority_active (of_nat (100000 * Suc k + 1)) 3 (Some (run_launches (starving_launches (2 * k)) st))"
    using assms by (auto simp: mcs_has_high_priority_active_def high_active_iff run_launches_def starving_launches_def high_launch_def Let_def
        simp del: of_nat_add of_nat_mult of_nat_Suc intro!: bexI [of _ 7])
  show "ms_high_launch_count (run_launches (starving_launches (2 * k + 1)) st') = 0"
    by (simp add: run_launches_def starving_launches_def pass_gate_def Let_def)
  show "ms_vnpu_priority (run_launches (starving_launches i) st) = ms_vnpu_priority st"
    by (simp add: run_launches_def starving_launches_def pass_gate_def high_launch_def Let_def)
qed

lemma normal_launch_starved:
  assumes "ms_vnpu_priority st 7 = 1" "ms_vnpu_priority st 3 = 0" "0 < limit"
  shows "gate_loop (\<lambda>k. of_nat (100000 * Suc k + 1)) (\<lambda>i. run_launches (starving_launches i)) limit 3 k st = None"
proof (rule ccontr)
  let ?now = "\<lambda>k. of_nat (100000 * Suc k + 1) :: u64" and ?others = "\<lambda>i. run_launches (starving_launches i)"
  let ?P = "\<lambda>now others (limit :: u64) (me :: int) (k :: nat) st (y :: nat \<times> mcs_state). now = ?now \<longrightarrow> others = ?others \<longrightarrow> 0 < limit \<longrightarrow> me = 3 \<longrightarrow>
    ms_vnpu_priority st 7 = 1 \<longrightarrow> ms_vnpu_priority st 3 \<noteq> 0"
  assume "\<not> ?thesis"
  then obtain y where y: "gate_loop ?now ?others limit 3 k st = Some y" by blast
  have "?P ?now ?others limit 3 k st y"
  proof (rule gate_loop.raw_induct [where P = ?P, OF _ y], intro impI notI)
    fix f and now :: "nat \<Rightarrow> u64" and others and limit :: u64 and me :: int and k st y
    assume ih: "\<And>now others limit me k st y. f now others limit me k st = Some y \<Longrightarrow> ?P now others limit me k st y"
      and body: "(let st1 = others (2 * k) st in
         if \<not> mcs_has_high_priority_active (now k) me (Some st1) then Some (k, st1)
         else let st2 = others (2 * k + 1) st1 in if limit \<le> ms_high_launch_count st2 then Some (k, st2) else f now others limit me (Suc k) st2) = Some y"
      and eq: "now = ?now" "others = ?others" "0 < limit" "me = 3" and st: "ms_vnpu_priority st 7 = 1" "ms_vnpu_priority st 3 = 0"
    let ?st1 = "?others (2 * k) st"
    have lim: "(limit \<le> 0) = False" using eq(3) by auto
    have "f ?now ?others limit 3 (Suc k) (?others (2 * k + 1) ?st1) = Some y"
      using body unfolding eq(1,2,4) Let_def by (simp only: starved_round(1,2) [OF st] lim simp_thms if_False)
    from ih [OF this] have "ms_vnpu_priority (?others (2 * k + 1) ?st1) 7 = 1 \<Longrightarrow> ms_vnpu_priority (?others (2 * k + 1) ?st1) 3 \<noteq> 0"
      using eq(3) by blast
    moreover have "ms_vnpu_priority ?st1 = ms_vnpu_priority st" by (rule starved_round(3) [OF st])
    moreover have "ms_vnpu_priority (?others (2 * k + 1) ?st1) = ms_vnpu_priority ?st1"
      by (rule starved_round(3)) (simp_all add: calculation(2) st)
    ultimately show False using st by simp
  qed
  then show False using assms by blast
qed

text \<open>C31: the burst limit keeps the launches of normal priority going under any load of high priority. Whatever launches the other processes
  make between the accesses of a waiting process of normal priority, with time stamps not ahead of the clock, within 51 rounds per launch of the burst limit
  either the gate opens for this process, or another launch of normal priority has passed in the meantime: within 51 rounds (5.1 ms) either a launch of high
  priority has been counted or none of them is active any more, and only a passing launch of normal priority resets the count. (The clock
  advances by the sleep of 0.1 ms in every round, and the count does not wrap around. One process of normal priority can starve
  behind others, see \<open>normal_launch_starved\<close>.)\<close>

theorem normal_launch_served:
  assumes clock: "\<forall>k < 51 * unat limit. unat (now k) + MCS_WAIT_SLEEP_NS \<le> unat (now (Suc k))"
    and es: "\<forall>i < 2 * (51 * unat limit) + 1. \<forall>e \<in> set (es i). launch_time e \<le> now (Suc i div 2)"
    and st: "\<forall>v. ms_last_kernel_time_ns st v \<le> now 0"
    and wrap: "unat (ms_high_launch_count st) + length (launched es (2 * (51 * unat limit) + 2)) < 2 ^ 64"
    and me: "0 \<le> me" "me < int MCS_MAX_VNPU" and prio: "prio \<noteq> 1"
  shows "(\<exists>t v. Normal_launch t v \<in> set (launched es (2 * (51 * unat limit) + 2)))
    \<or> (\<exists>k st1. k \<le> 51 * unat limit \<and> gate_loop now (\<lambda>i. run_launches (es i)) limit me 0 st = Some (k, st1)
        \<and> mcs_before_launch now (\<lambda>i. run_launches (es i)) limit me prio (Some st) = Some (Some (pass_gate (now (Suc k)) (nat me) st1)))"
proof (cases "\<exists>t v. Normal_launch t v \<in> set (launched es (2 * (51 * unat limit) + 2))")
  case False
  then obtain k st1 where "k \<le> 51 * unat limit" "gate_loop now (\<lambda>i. run_launches (es i)) limit me 0 st = Some (k, st1)"
    using gate_opens [OF clock es st wrap] by blast
  then show ?thesis using me prio by (auto simp: mcs_before_launch_def)
qed simp

text \<open>The burst limit 2; a process of high priority launches once in every round.\<close>

definition demo_mcs :: mcs_state where
  "demo_mcs = \<lparr>ms_mutex = True, ms_last_kernel_time_ns = (\<lambda>_. 0), ms_high_launch_count = 0,
     ms_vnpu_priority = (\<lambda>v. if v = 7 then 1 else 0), ms_magic_number = MCS_MAGIC_INITIALIZED\<rparr>"

definition demo_launches :: "nat \<Rightarrow> launch list" where
  "demo_launches i = (if even i then [High_launch (of_nat (100000 * Suc (i div 2))) 7] else [])"

theorem normal_launch_served_witness:
  "\<exists>st. mcs_before_launch (\<lambda>k. of_nat (100000 * Suc k)) (\<lambda>i. run_launches (demo_launches i)) 2 3 0 (Some demo_mcs) = Some (Some st)"
proof -
  let ?now = "\<lambda>k. of_nat (100000 * Suc k) :: u64"
  have u: "unat (?now k) = 100000 * Suc k" if "k \<le> 102" for k using that by (subst unat_of_nat) simp
  have l: "length (launched demo_launches n) \<le> n" "Normal_launch t v \<notin> set (launched demo_launches n)" for n t v
    by (induction n) (simp_all add: launched_def demo_launches_def)
  have "\<forall>k < 51 * unat (2::u64). unat (?now k) + MCS_WAIT_SLEEP_NS \<le> unat (?now (Suc k))"
  proof (intro allI impI)
    fix k assume "k < 51 * unat (2::u64)"
    then have "unat (?now k) = 100000 * Suc k" "unat (?now (Suc k)) = 100000 * Suc (Suc k)" by (intro u; simp)+
    then show "unat (?now k) + MCS_WAIT_SLEEP_NS \<le> unat (?now (Suc k))" by (simp only:) simp
  qed
  moreover have "\<forall>i < 2 * (51 * unat (2::u64)) + 1. \<forall>e \<in> set (demo_launches i). launch_time e \<le> ?now (Suc i div 2)"
    by (auto simp: demo_launches_def elim!: evenE)
  moreover have "unat (ms_high_launch_count demo_mcs) + length (launched demo_launches (2 * (51 * unat (2::u64)) + 2)) < 2 ^ 64"
    using l(1) [of "2 * (51 * unat (2::u64)) + 2"] by (simp add: demo_mcs_def)
  ultimately show ?thesis
    using normal_launch_served [of 2 ?now demo_launches demo_mcs 3 0] l(2) by (auto simp: demo_mcs_def)
qed

section \<open>How many launches pass during a burst\<close>

text \<open>The threads that launch, of any processes, all with one limit: \<^verbatim>\<open>mcs_before_launch\<close> takes no lock, and several threads
  of a process can be in it at once. A thread of high priority counts and stamps its launch; thread \<open>p\<close> of normal priority
  looks for activity, reads the count, and resets it when it passes. What it finds when it looks is left open.
  \<open>bw_high\<close> counts the launches of high priority, \<open>bw_passed p\<close> the launches of thread \<open>p\<close> that the count let
  through; launches that pass because nobody of high priority is found active are steps as well, but not counted there.\<close>

datatype gate_pc = Look | Read_count | Entitled | Idle_pass

record burst_world =
  bw_count :: u64
  bw_high :: nat
  bw_pc :: "nat \<Rightarrow> gate_pc"
  bw_passed :: "nat \<Rightarrow> nat"

inductive burst_step :: "u64 \<Rightarrow> nat \<Rightarrow> burst_world \<Rightarrow> burst_world \<Rightarrow> bool" for limit n where
  high: "burst_step limit n w (w\<lparr>bw_count := ms_high_launch_count (high_launch now v st), bw_high := Suc (bw_high w)\<rparr>)"
    if "ms_high_launch_count st = bw_count w"
| active: "burst_step limit n w (w\<lparr>bw_pc := (bw_pc w)(p := Read_count)\<rparr>)" if "p < n" "bw_pc w p = Look"
| idle: "burst_step limit n w (w\<lparr>bw_pc := (bw_pc w)(p := Idle_pass)\<rparr>)" if "p < n" "bw_pc w p = Look"
| wait: "burst_step limit n w (w\<lparr>bw_pc := (bw_pc w)(p := Look)\<rparr>)" if "p < n" "bw_pc w p = Read_count" "bw_count w < limit"
| entitled: "burst_step limit n w (w\<lparr>bw_pc := (bw_pc w)(p := Entitled)\<rparr>)" if "p < n" "bw_pc w p = Read_count" "limit \<le> bw_count w"
| pass: "burst_step limit n w (w\<lparr>bw_count := ms_high_launch_count (pass_gate now v st), bw_pc := (bw_pc w)(p := Look),
      bw_passed := (bw_passed w)(p := Suc (bw_passed w p))\<rparr>)" if "p < n" "bw_pc w p = Entitled"
| pass_idle: "burst_step limit n w (w\<lparr>bw_count := ms_high_launch_count (pass_gate now v st), bw_pc := (bw_pc w)(p := Look)\<rparr>)"
    if "p < n" "bw_pc w p = Idle_pass"

definition burst_start :: burst_world where
  "burst_start = \<lparr>bw_count = 0, bw_high = 0, bw_pc = (\<lambda>_. Look), bw_passed = (\<lambda>_. 0)\<rparr>"

text \<open>Each thread can account for its launches: those of high priority before its last pass pay for the earlier ones.\<close>

definition paid :: "nat \<Rightarrow> nat \<Rightarrow> nat \<Rightarrow> nat \<Rightarrow> gate_pc \<Rightarrow> bool" where
  "paid limit high count passed pc \<longleftrightarrow> (if pc = Entitled then limit * Suc passed \<le> high else limit * passed + count \<le> high)"

definition burst_inv :: "u64 \<Rightarrow> burst_world \<Rightarrow> bool" where
  "burst_inv limit w \<longleftrightarrow> (\<forall>p. paid (unat limit) (bw_high w) (unat (bw_count w)) (bw_passed w p) (bw_pc w p))"

lemma paid_high: "paid limit h c k pc \<Longrightarrow> c' \<le> Suc c \<Longrightarrow> paid limit (Suc h) c' k pc"
  by (simp add: paid_def split: if_splits)

lemma paid_reset: "paid limit h c k pc \<Longrightarrow> paid limit h 0 k pc"
  by (simp add: paid_def split: if_splits)

lemma unat_Suc_le: "unat (c + 1 :: u64) \<le> Suc (unat c)"
  using mod_less_eq_dividend [of "Suc (unat c)"] by (simp add: unat_word_ariths)

lemma burst_step_inv: "burst_step limit n w w' \<Longrightarrow> burst_inv limit w \<Longrightarrow> burst_inv limit w'"
proof (induction rule: burst_step.induct)
  case (high st w now v)
  then show ?case by (auto simp: burst_inv_def high_launch_def intro: paid_high [OF _ unat_Suc_le])
next
  case (entitled p w)
  then have "paid (unat limit) (bw_high w) (unat (bw_count w)) (bw_passed w p) Read_count" by (metis burst_inv_def)
  then show ?case using entitled by (auto simp: burst_inv_def paid_def [of _ _ _ "bw_passed w p"] word_le_nat_alt)
next
  case (pass p w now v st)
  then have "paid (unat limit) (bw_high w) (unat (bw_count w)) (bw_passed w p) Entitled" by (metis burst_inv_def)
  then have "paid (unat limit) (bw_high w) 0 (Suc (bw_passed w p)) Look" by (simp add: paid_def)
  then show ?case using pass by (auto simp: burst_inv_def pass_gate_def intro: paid_reset)
next
  case (pass_idle p w now v st)
  then have "paid (unat limit) (bw_high w) (unat (bw_count w)) (bw_passed w p) Idle_pass" by (metis burst_inv_def)
  then have "paid (unat limit) (bw_high w) 0 (bw_passed w p) Look" by (simp add: paid_def)
  then show ?case using pass_idle by (auto simp: burst_inv_def pass_gate_def intro: paid_reset)
next
  case (active p w)
  then have "paid (unat limit) (bw_high w) (unat (bw_count w)) (bw_passed w p) Look" by (metis burst_inv_def)
  then show ?case using active by (auto simp: burst_inv_def paid_def [of _ _ _ "bw_passed w p"])
next
  case (idle p w)
  then have "paid (unat limit) (bw_high w) (unat (bw_count w)) (bw_passed w p) Look" by (metis burst_inv_def)
  then show ?case using idle by (auto simp: burst_inv_def paid_def [of _ _ _ "bw_passed w p"])
next
  case (wait p w)
  then have "paid (unat limit) (bw_high w) (unat (bw_count w)) (bw_passed w p) Read_count" by (metis burst_inv_def)
  then show ?case using wait by (auto simp: burst_inv_def paid_def [of _ _ _ "bw_passed w p"])
qed

definition burst_path :: "u64 \<Rightarrow> nat \<Rightarrow> nat \<Rightarrow> burst_world" where
  "burst_path c h k = \<lparr>bw_count = c, bw_high = h, bw_pc = (\<lambda>p. if p < k then Entitled else Look), bw_passed = (\<lambda>_. 0)\<rparr>"

lemma burst_highs: "h < 2 ^ 64 \<Longrightarrow> (burst_step limit n)\<^sup>*\<^sup>* burst_start (burst_path (of_nat h) h 0)"
proof (induction h)
  case 0
  then show ?case by (simp add: burst_path_def burst_start_def)
next
  case (Suc h)
  have "burst_step limit n (burst_path (of_nat h) h 0) ((burst_path (of_nat h) h 0)\<lparr>bw_count := ms_high_launch_count (high_launch 0 0
      (demo_mcs\<lparr>ms_high_launch_count := of_nat h\<rparr>)), bw_high := Suc h\<rparr>)"
    using burst_step.high [of "demo_mcs\<lparr>ms_high_launch_count := of_nat h\<rparr>" "burst_path (of_nat h) h 0" limit n 0 0] by (simp add: burst_path_def)
  moreover have "(burst_path (of_nat h) h 0)\<lparr>bw_count := ms_high_launch_count (high_launch 0 0 (demo_mcs\<lparr>ms_high_launch_count := of_nat h\<rparr>)),
      bw_high := Suc h\<rparr> = burst_path (of_nat (Suc h)) (Suc h) 0"
    by (simp add: burst_path_def high_launch_def add.commute)
  ultimately show ?case using Suc by (metis Suc_lessD rtranclp.rtrancl_into_rtrancl)
qed

lemma burst_entitle:
  "k \<le> n \<Longrightarrow> limit \<le> c \<Longrightarrow> (burst_step limit n)\<^sup>*\<^sup>* (burst_path c h 0) (burst_path c h k)"
proof (induction k)
  case (Suc k)
  let ?w = "burst_path c h k"
  let ?w1 = "?w\<lparr>bw_pc := (bw_pc ?w)(k := Read_count)\<rparr>"
  have "burst_step limit n ?w ?w1" using Suc.prems by (intro burst_step.active) (simp_all add: burst_path_def)
  moreover have "burst_step limit n ?w1 (?w1\<lparr>bw_pc := (bw_pc ?w1)(k := Entitled)\<rparr>)"
    using Suc.prems by (intro burst_step.entitled) (simp_all add: burst_path_def)
  moreover have "?w1\<lparr>bw_pc := (bw_pc ?w1)(k := Entitled)\<rparr> = burst_path c h (Suc k)" by (auto simp: burst_path_def fun_eq_iff)
  ultimately show ?case using Suc by (metis Suc_leD rtranclp.rtrancl_into_rtrancl)
qed simp

lemma burst_pass_all:
  "k \<le> n \<Longrightarrow> (burst_step limit n)\<^sup>*\<^sup>* \<lparr>bw_count = c, bw_high = h, bw_pc = (\<lambda>p. if j \<le> p \<and> p < k then Entitled else Look), bw_passed = (\<lambda>p. if p < j then 1 else 0)\<rparr>
    \<lparr>bw_count = if j < k then 0 else c, bw_high = h, bw_pc = (\<lambda>_. Look), bw_passed = (\<lambda>p. if p < max j k then 1 else 0)\<rparr>"
proof (induction "k - j" arbitrary: j c)
  case 0
  then have "(\<lambda>p. if j \<le> p \<and> p < k then Entitled else Look) = (\<lambda>_. Look)" "max j k = j" by auto
  then show ?case using 0 by simp
next
  case (Suc m)
  let ?w = "\<lambda>c j. \<lparr>bw_count = c, bw_high = h, bw_pc = (\<lambda>p. if j \<le> p \<and> p < k then Entitled else Look), bw_passed = (\<lambda>p. if p < j then 1 else 0)\<rparr> :: burst_world"
  have j: "j < k" using Suc.hyps(2) by simp
  have "burst_step limit n (?w c j) ((?w c j)\<lparr>bw_count := ms_high_launch_count (pass_gate 0 0 demo_mcs), bw_pc := (bw_pc (?w c j))(j := Look),
      bw_passed := (bw_passed (?w c j))(j := Suc (bw_passed (?w c j) j))\<rparr>)"
    using j Suc.prems by (intro burst_step.pass) simp_all
  moreover have "(?w c j)\<lparr>bw_count := ms_high_launch_count (pass_gate 0 0 demo_mcs), bw_pc := (bw_pc (?w c j))(j := Look),
      bw_passed := (bw_passed (?w c j))(j := Suc (bw_passed (?w c j) j))\<rparr> = ?w 0 (Suc j)"
    using j by (auto simp: pass_gate_def fun_eq_iff)
  ultimately have step: "burst_step limit n (?w c j) (?w 0 (Suc j))" by (simp only:)
  have "(burst_step limit n)\<^sup>*\<^sup>* (?w 0 (Suc j)) \<lparr>bw_count = 0, bw_high = h, bw_pc = (\<lambda>_. Look), bw_passed = (\<lambda>p. if p < max j k then 1 else 0)\<rparr>"
    using Suc.hyps(1) [of "Suc j" 0] Suc.hyps(2) Suc.prems j by (simp add: max_def)
  from converse_rtranclp_into_rtranclp [of "burst_step limit n", OF step this] show ?case using j by simp
qed



section \<open>Initialisation by several processes\<close>

text \<open>Process \<open>p\<close> serves vNPU \<open>p\<close>. It registers its priority after \<^verbatim>\<open>mcs_shm_init\<close> has returned.\<close>

datatype init_pc = Start | Observed u32 | Claimed | Cleared | Attached | Registered

record init_world =
  iw_state :: mcs_state
  iw_pc :: "nat \<Rightarrow> init_pc"

definition goto :: "nat \<Rightarrow> init_pc \<Rightarrow> mcs_state \<Rightarrow> init_world \<Rightarrow> init_world" where
  "goto p pc st w = w\<lparr>iw_state := st, iw_pc := (iw_pc w)(p := pc)\<rparr>"

inductive init_step :: "(nat \<Rightarrow> u8) \<Rightarrow> init_world \<Rightarrow> init_world \<Rightarrow> bool" for prio where
  load: "init_step prio w (goto p (Observed (ms_magic_number (iw_state w))) (iw_state w) w)" if "iw_pc w p = Start"
| ready: "init_step prio w (goto p Attached (iw_state w) w)" if "iw_pc w p = Observed MCS_MAGIC_INITIALIZED"
| claim: "init_step prio w (goto p Claimed ((iw_state w)\<lparr>ms_magic_number := MCS_MAGIC_INITIALIZING\<rparr>) w)"
    if "iw_pc w p = Observed v" "v \<noteq> MCS_MAGIC_INITIALIZED" "v \<noteq> MCS_MAGIC_INITIALIZING" "ms_magic_number (iw_state w) = v"
| again: "init_step prio w (goto p (Observed (ms_magic_number (iw_state w))) (iw_state w) w)"
    if "iw_pc w p = Observed v" "v \<noteq> MCS_MAGIC_INITIALIZED" "v = MCS_MAGIC_INITIALIZING \<or> ms_magic_number (iw_state w) \<noteq> v"
| clear: "init_step prio w (goto p Cleared mcs_shared_state_init w)" if "iw_pc w p = Claimed"
| publish: "init_step prio w (goto p Attached ((iw_state w)\<lparr>ms_magic_number := MCS_MAGIC_INITIALIZED\<rparr>) w)" if "iw_pc w p = Cleared"
| register: "init_step prio w (goto p Registered ((iw_state w)\<lparr>ms_vnpu_priority := (ms_vnpu_priority (iw_state w))(p := prio p)\<rparr>) w)"
    if "iw_pc w p = Attached"

definition init_settled :: "(nat \<Rightarrow> u8) \<Rightarrow> init_world \<Rightarrow> bool" where
  "init_settled prio w \<longleftrightarrow> ms_magic_number (iw_state w) = MCS_MAGIC_INITIALIZED
     \<and> (\<forall>p. iw_pc w p \<noteq> Claimed \<and> iw_pc w p \<noteq> Cleared \<and> (iw_pc w p = Registered \<longrightarrow> ms_vnpu_priority (iw_state w) p = prio p))"

lemma init_step_settled: "init_step prio w w' \<Longrightarrow> init_settled prio w \<Longrightarrow> init_settled prio w'"
  by (induction rule: init_step.induct) (auto simp: init_settled_def goto_def)

text \<open>The structure of a new shared-memory object.\<close>

definition init_fresh :: init_world where
  "init_fresh = \<lparr>iw_state = mcs_shared_state_init\<lparr>ms_mutex := False\<rparr>, iw_pc = (\<lambda>_. Start)\<rparr>"

lemma init_race:
  assumes "prio 0 = (1 :: u8)"
  shows "\<exists>w. (init_step prio)\<^sup>*\<^sup>* init_fresh w \<and> iw_pc w 0 = Registered \<and> iw_pc w 1 = Cleared \<and> ms_vnpu_priority (iw_state w) 0 = 0"
proof -
  let ?st = "mcs_shared_state_init\<lparr>ms_magic_number := MCS_MAGIC_INITIALIZING\<rparr>"
  define w1 where "w1 = goto 0 (Observed 0) (iw_state init_fresh) init_fresh"
  define w2 where "w2 = goto 0 Claimed ((iw_state w1)\<lparr>ms_magic_number := MCS_MAGIC_INITIALIZING\<rparr>) w1"
  define w3 where "w3 = goto 0 Cleared mcs_shared_state_init w2"
  define w4 where "w4 = goto 1 (Observed 0) (iw_state w3) w3"
  define w5 where "w5 = goto 1 Claimed ((iw_state w4)\<lparr>ms_magic_number := MCS_MAGIC_INITIALIZING\<rparr>) w4"
  define w6 where "w6 = goto 0 Attached ((iw_state w5)\<lparr>ms_magic_number := MCS_MAGIC_INITIALIZED\<rparr>) w5"
  define w7 where "w7 = goto 0 Registered ((iw_state w6)\<lparr>ms_vnpu_priority := (ms_vnpu_priority (iw_state w6))(0 := prio 0)\<rparr>) w6"
  define w8 where "w8 = goto 1 Cleared mcs_shared_state_init w7"
  note ws = w1_def w2_def w3_def w4_def w5_def w6_def w7_def w8_def goto_def init_fresh_def mcs_shared_state_init_def
  have "init_step prio init_fresh w1" using init_step.load [of init_fresh 0 prio] by (simp add: w1_def init_fresh_def mcs_shared_state_init_def)
  moreover have "init_step prio w1 w2" unfolding w2_def by (rule init_step.claim [where v = 0]) (simp_all add: ws)
  moreover have "init_step prio w2 w3" unfolding w3_def by (rule init_step.clear) (simp add: ws)
  moreover have "init_step prio w3 w4" using init_step.load [of w3 1 prio] by (simp add: ws)
  moreover have "init_step prio w4 w5" unfolding w5_def by (rule init_step.claim [where v = 0]) (simp_all add: ws)
  moreover have "init_step prio w5 w6" unfolding w6_def by (rule init_step.publish) (simp add: ws)
  moreover have "init_step prio w6 w7" unfolding w7_def by (rule init_step.register) (simp add: ws)
  moreover have "init_step prio w7 w8" unfolding w8_def by (rule init_step.clear) (simp add: ws)
  ultimately have "(init_step prio)\<^sup>*\<^sup>* init_fresh w8" by (meson converse_rtranclp_into_rtranclp rtranclp.rtrancl_refl)
  moreover have "iw_pc w8 0 = Registered" "iw_pc w8 1 = Cleared" "ms_vnpu_priority (iw_state w8) 0 = 0" by (simp_all add: ws)
  ultimately show ?thesis by blast
qed

text \<open>C33: the registration of priorities. Once the structure is initialised and nobody is initialising it, it stays so
  whatever processes attach, and every registered process keeps its priority. Before that, the claim on the
  initialisation does not exclude a second one: clearing the structure clears the claim, so another process can
  claim it as well, and clear the priority that the first one has registered meanwhile.\<close>

theorem registration_kept_once_settled:
  shows "(init_settled prio w \<and> (init_step prio)\<^sup>*\<^sup>* w w' \<longrightarrow> init_settled prio w')
    \<and> (prio 0 = 1 \<longrightarrow> (\<exists>v. (init_step prio)\<^sup>*\<^sup>* init_fresh v \<and> iw_pc v 0 = Registered \<and> ms_vnpu_priority (iw_state v) 0 \<noteq> prio 0))"
proof
  have "init_settled prio w'" if "(init_step prio)\<^sup>*\<^sup>* w w'" "init_settled prio w"
    using that by (induction rule: rtranclp_induct) (auto intro: init_step_settled)
  then show "init_settled prio w \<and> (init_step prio)\<^sup>*\<^sup>* w w' \<longrightarrow> init_settled prio w'" by blast
  show "prio 0 = 1 \<longrightarrow> (\<exists>v. (init_step prio)\<^sup>*\<^sup>* init_fresh v \<and> iw_pc v 0 = Registered \<and> ms_vnpu_priority (iw_state v) 0 \<noteq> prio 0)"
    using init_race [of prio] by force
qed

theorem registration_kept_once_settled_witness:
  "init_settled (\<lambda>_. 1) (goto 0 Attached demo_mcs (goto 0 (Observed MCS_MAGIC_INITIALIZED) demo_mcs init_fresh))
    \<and> (\<exists>v. (init_step (\<lambda>_. 1))\<^sup>*\<^sup>* init_fresh v \<and> iw_pc v 0 = Registered \<and> ms_vnpu_priority (iw_state v) 0 \<noteq> 1)"
proof
  let ?w = "goto 0 (Observed MCS_MAGIC_INITIALIZED) demo_mcs init_fresh"
  have "init_settled (\<lambda>_. 1) ?w" by (simp add: init_settled_def goto_def init_fresh_def demo_mcs_def)
  moreover have "init_step (\<lambda>_. 1) ?w (goto 0 Attached demo_mcs ?w)"
    using init_step.ready [of ?w 0] by (simp add: goto_def)
  ultimately show "init_settled (\<lambda>_. 1) (goto 0 Attached demo_mcs ?w)"
    using registration_kept_once_settled [of "\<lambda>_. 1" ?w "goto 0 Attached demo_mcs ?w"] by blast
  show "\<exists>v. (init_step (\<lambda>_. 1))\<^sup>*\<^sup>* init_fresh v \<and> iw_pc v 0 = Registered \<and> ms_vnpu_priority (iw_state v) 0 \<noteq> 1"
    using registration_kept_once_settled [of "\<lambda>_. 1"] by simp
qed

text \<open>A process alone: it attaches to an initialised structure without a change, clears any other one, and waits for ever
  for an initialisation that a dead process has left behind.\<close>

lemma claim_loop_alone:
  "claim_loop (\<lambda>_ st. st) k MCS_MAGIC_INITIALIZED st = Some st"
  "ms_magic_number st = v \<Longrightarrow> v \<noteq> MCS_MAGIC_INITIALIZED \<Longrightarrow> v \<noteq> MCS_MAGIC_INITIALIZING \<Longrightarrow>
    claim_loop (\<lambda>_ st. st) k v st = Some (mcs_shared_state_init\<lparr>ms_magic_number := MCS_MAGIC_INITIALIZED\<rparr>)"
  by (subst claim_loop.simps; simp)+

lemma claim_loop_abandoned:
  assumes "claim_loop others k v st = Some st'"
  shows "others = (\<lambda>_ st. st) \<and> ms_magic_number st = MCS_MAGIC_INITIALIZING \<longrightarrow> v \<noteq> MCS_MAGIC_INITIALIZING"
proof (rule claim_loop.raw_induct [where P = "\<lambda>others k v st st'. others = (\<lambda>_ st. st) \<and> ms_magic_number st = MCS_MAGIC_INITIALIZING \<longrightarrow>
    v \<noteq> MCS_MAGIC_INITIALIZING", OF _ assms])
  fix f others k observed st and y :: mcs_state
  assume ih: "\<And>others k v st st'. f others k v st = Some st' \<Longrightarrow>
      others = (\<lambda>_ st. st) \<and> ms_magic_number st = MCS_MAGIC_INITIALIZING \<longrightarrow> v \<noteq> MCS_MAGIC_INITIALIZING"
    and body: "(if observed = MCS_MAGIC_INITIALIZED then Some st
      else let st1 = others k st in
        if observed \<noteq> MCS_MAGIC_INITIALIZING
        then if ms_magic_number st1 = observed
          then Some ((others (Suc k) mcs_shared_state_init)\<lparr>ms_magic_number := MCS_MAGIC_INITIALIZED\<rparr>)
          else f others (Suc k) (ms_magic_number st1) st1
        else f others (Suc k) (ms_magic_number st1) st1) = Some y"
  show "others = (\<lambda>_ st. st) \<and> ms_magic_number st = MCS_MAGIC_INITIALIZING \<longrightarrow> observed \<noteq> MCS_MAGIC_INITIALIZING"
  proof (intro impI notI, elim conjE)
    assume "others = (\<lambda>_ st. st)" "ms_magic_number st = MCS_MAGIC_INITIALIZING" "observed = MCS_MAGIC_INITIALIZING"
    then show False using body ih [of others "Suc k" MCS_MAGIC_INITIALIZING st y] by simp
  qed
qed

end
