(* ===== verification/Mcs_Memory.thy ===== *)
theory Mcs_Memory
  imports Enpu_Prelude
begin

text \<open>
  The memory quota of the co-scheduling library (\<^verbatim>\<open>mcs/common/memory.c\<close>, \<^verbatim>\<open>mcs/common/mem_limiter.c\<close>, \<^verbatim>\<open>mcs/src/mcs_mem.c\<close>): hooks
  around the allocation functions of the driver keep a registry of the live allocations, a hash table with
  open addressing, and a counter of the bytes in use, which is checked against the quota. What the driver
  function answers is a parameter, absent when it cannot be resolved.
\<close>

section \<open>The registry\<close>

abbreviation (input) MEM_TRACK_SLOTS :: nat where "MEM_TRACK_SLOTS \<equiv> 65536"
abbreviation (input) SIZE_MAX :: u64 where "SIZE_MAX \<equiv> -1"

text \<open>A slot is a key, 0 when it is empty, and a size.\<close>

type_synonym track_table = "nat \<Rightarrow> u64 \<times> u64"

definition mem_track_hash :: "u64 \<Rightarrow> nat" where
  "mem_track_hash key = unat ((ucast (drop_bit 4 key * 2654435761 :: u64) :: u32) AND 0xFFFF)"

text \<open>The slots that a search visits, and the first of them that is empty or has the key.\<close>

definition probes :: "u64 \<Rightarrow> nat list" where
  "probes key = map (\<lambda>p. (mem_track_hash key + p) mod MEM_TRACK_SLOTS) [0..<MEM_TRACK_SLOTS]"

fun find_slot :: "track_table \<Rightarrow> u64 \<Rightarrow> nat list \<Rightarrow> nat option" where
  "find_slot t key [] = None"
| "find_slot t key (i # is) = (if fst (t i) = 0 \<or> fst (t i) = key then Some i else find_slot t key is)"

definition mem_track_insert :: "u64 \<Rightarrow> u64 \<Rightarrow> track_table \<Rightarrow> u64 \<times> track_table" where
  "mem_track_insert key sz t =
     (case find_slot t key (probes key) of None \<Rightarrow> (SIZE_MAX, t)
      | Some i \<Rightarrow>
        if fst (t i) = 0 then (sz, t(i := (key, sz)))
        else (if sz > snd (t i) then sz - snd (t i) else 0, t(i := (fst (t i), sz))))"

definition mem_track_erase :: "u64 \<Rightarrow> track_table \<Rightarrow> u64 \<times> track_table" where
  "mem_track_erase key t =
     (case find_slot t key (probes key) of None \<Rightarrow> (0, t)
      | Some i \<Rightarrow> if fst (t i) = 0 then (0, t) else (snd (t i), t(i := (0, 0))))"

section \<open>The quota\<close>

record mcs_mem =
  mm_active :: bool
  mm_table :: track_table
  mm_used :: u64
  mm_memory_quota :: int

definition activate_mem_hooks :: "mcs_mem \<Rightarrow> mcs_mem" where
  "activate_mem_hooks m = m\<lparr>mm_active := True\<rparr>"

definition mcs_get_mem_limit_quota :: "mcs_mem \<Rightarrow> u64" where
  "mcs_get_mem_limit_quota m = word_of_int (mm_memory_quota m) * (1024 * 1024)"

definition on_mem_alloc :: "u64 \<Rightarrow> mcs_mem \<Rightarrow> mcs_mem" where
  "on_mem_alloc sz m = m\<lparr>mm_used := mm_used m + sz\<rparr>"

definition on_mem_free :: "u64 \<Rightarrow> mcs_mem \<Rightarrow> mcs_mem" where
  "on_mem_free sz m = m\<lparr>mm_used := (if sz > mm_used m then 0 else mm_used m - sz)\<rparr>"

definition mcs_memory_check :: "u64 \<Rightarrow> mcs_mem \<Rightarrow> bool" where
  "mcs_memory_check requested m \<longleftrightarrow>
     \<not> unat requested + unat (mm_used m) \<ge> 2 ^ 64 \<and> \<not> requested + mm_used m > mcs_get_mem_limit_quota m"

text \<open>The flag against recursion does not change the result.\<close>

abbreviation (input) ACL_ERROR_STORAGE_OVER_LIMIT :: int where "ACL_ERROR_STORAGE_OVER_LIMIT \<equiv> 500006"

definition mcs_guard_memory :: "u64 \<Rightarrow> mcs_mem \<Rightarrow> int" where
  "mcs_guard_memory requested m = (if mcs_memory_check requested m then ENPU_SUCCESS else ACL_ERROR_STORAGE_OVER_LIMIT)"

section \<open>The hooks\<close>

definition count_alloc :: "u64 \<Rightarrow> u64 \<Rightarrow> mcs_mem \<Rightarrow> mcs_mem" where
  "count_alloc key sz m =
     (case mem_track_insert key sz (mm_table m) of (delta, t) \<Rightarrow>
        let m1 = m\<lparr>mm_table := t\<rparr> in if delta \<noteq> SIZE_MAX then on_mem_alloc delta m1 else m1)"

text \<open>\<open>real\<close>: the return code and the pointer that the driver stores; \<open>out_ok\<close>: the caller passed a place to store it.\<close>

definition rtMalloc :: "(int \<times> u64) option \<Rightarrow> bool \<Rightarrow> u64 \<Rightarrow> mcs_mem \<Rightarrow> int \<times> mcs_mem" where
  "rtMalloc real out_ok sz m =
     (if \<not> mm_active m then (case real of None \<Rightarrow> (-1, m) | Some (ret, _) \<Rightarrow> (ret, m))
      else if mcs_guard_memory sz m \<noteq> ENPU_SUCCESS then (mcs_guard_memory sz m, m)
      else case real of None \<Rightarrow> (-1, m)
      | Some (ret, ptr) \<Rightarrow> if ret = ENPU_SUCCESS \<and> out_ok \<and> ptr \<noteq> 0 then (ret, count_alloc ptr sz m) else (ret, m))"

text \<open>The other allocation hooks have the same body around another driver function.\<close>

definition rtMallocCached :: "(int \<times> u64) option \<Rightarrow> bool \<Rightarrow> u64 \<Rightarrow> mcs_mem \<Rightarrow> int \<times> mcs_mem" where
  "rtMallocCached real out_ok sz m = rtMalloc real out_ok sz m"

definition rtDvppMalloc :: "(int \<times> u64) option \<Rightarrow> bool \<Rightarrow> u64 \<Rightarrow> mcs_mem \<Rightarrow> int \<times> mcs_mem" where
  "rtDvppMalloc real out_ok sz m = rtMalloc real out_ok sz m"

definition rtDvppMallocWithFlag :: "(int \<times> u64) option \<Rightarrow> bool \<Rightarrow> u64 \<Rightarrow> mcs_mem \<Rightarrow> int \<times> mcs_mem" where
  "rtDvppMallocWithFlag real out_ok sz m = rtMalloc real out_ok sz m"

definition rtMemAlloc :: "(int \<times> u64) option \<Rightarrow> bool \<Rightarrow> u64 \<Rightarrow> mcs_mem \<Rightarrow> int \<times> mcs_mem" where
  "rtMemAlloc real out_ok sz m = rtMalloc real out_ok sz m"

definition rtMemAllocManaged :: "(int \<times> u64) option \<Rightarrow> bool \<Rightarrow> u64 \<Rightarrow> mcs_mem \<Rightarrow> int \<times> mcs_mem" where
  "rtMemAllocManaged real out_ok sz m = rtMalloc real out_ok sz m"

text \<open>The key of a handle is tagged.\<close>

definition handle_key :: "u32 \<Rightarrow> u64" where
  "handle_key handle = push_bit 1 (ucast handle) OR 1"

definition rtMallocPhysical :: "(int \<times> u32) option \<Rightarrow> bool \<Rightarrow> u64 \<Rightarrow> mcs_mem \<Rightarrow> int \<times> mcs_mem" where
  "rtMallocPhysical real out_ok sz m =
     (if \<not> mm_active m then (case real of None \<Rightarrow> (-1, m) | Some (ret, _) \<Rightarrow> (ret, m))
      else if mcs_guard_memory sz m \<noteq> ENPU_SUCCESS then (mcs_guard_memory sz m, m)
      else case real of None \<Rightarrow> (-1, m)
      | Some (ret, handle) \<Rightarrow> if ret = ENPU_SUCCESS \<and> out_ok then (ret, count_alloc (handle_key handle) sz m) else (ret, m))"

definition rtFree :: "int option \<Rightarrow> u64 \<Rightarrow> mcs_mem \<Rightarrow> int \<times> mcs_mem" where
  "rtFree real ptr m =
     (case real of None \<Rightarrow> (-1, m)
      | Some ret \<Rightarrow>
        if \<not> mm_active m then (ret, m)
        else if ret = ENPU_SUCCESS \<and> ptr \<noteq> 0
        then (case mem_track_erase ptr (mm_table m) of (sz, t) \<Rightarrow> (ret, on_mem_free sz (m\<lparr>mm_table := t\<rparr>)))
        else (ret, m))"

definition rtDvppFree :: "int option \<Rightarrow> u64 \<Rightarrow> mcs_mem \<Rightarrow> int \<times> mcs_mem" where
  "rtDvppFree real ptr m = rtFree real ptr m"

definition rtMemFree :: "int option \<Rightarrow> u64 \<Rightarrow> mcs_mem \<Rightarrow> int \<times> mcs_mem" where
  "rtMemFree real ptr m = rtFree real ptr m"

definition mcs_rtMemGetInfoEx :: "(int \<times> u64 \<times> u64) option \<Rightarrow> mcs_mem \<Rightarrow> int \<times> (u64 \<times> u64) option" where
  "mcs_rtMemGetInfoEx real m =
     (if \<not> mm_active m then (case real of None \<Rightarrow> (-1, None) | Some (ret, info) \<Rightarrow> (ret, Some info))
      else let quota = mcs_get_mem_limit_quota m in
        (ENPU_SUCCESS, Some (if mm_used m \<ge> quota then 0 else quota - mm_used m, quota)))"

section \<open>The table\<close>

definition slot_bytes :: "track_table \<Rightarrow> nat" where
  "slot_bytes t = (\<Sum>i < MEM_TRACK_SLOTS. unat (snd (t i)))"

definition table_ok :: "track_table \<Rightarrow> bool" where
  "table_ok t \<longleftrightarrow> (\<forall>i. fst (t i) = 0 \<longrightarrow> snd (t i) = 0)"

lemma probes_bound: "i \<in> set (probes key) \<Longrightarrow> i < MEM_TRACK_SLOTS"
  by (auto simp: probes_def)

lemma find_slot_Some:
  assumes "find_slot t key is = Some i"
  shows "i \<in> set is" "fst (t i) = 0 \<or> fst (t i) = key"
  using assms by (induction "is") (auto split: if_splits)

lemma slot_bytes_update:
  assumes "i < MEM_TRACK_SLOTS"
  shows "slot_bytes (t(i := (k, s))) + unat (snd (t i)) = slot_bytes t + unat s"
proof -
  have "slot_bytes t = unat (snd (t i)) + (\<Sum>j \<in> {..<MEM_TRACK_SLOTS} - {i}. unat (snd (t j)))"
    unfolding slot_bytes_def using assms by (simp add: sum.remove)
  moreover have "slot_bytes (t(i := (k, s))) = unat s + (\<Sum>j \<in> {..<MEM_TRACK_SLOTS} - {i}. unat (snd (t j)))"
    unfolding slot_bytes_def using assms by (subst sum.remove [of _ i]) (auto intro: sum.cong)
  ultimately show ?thesis by simp
qed


lemma quota_bytes:
  assumes "0 \<le> mm_memory_quota m" and "mm_memory_quota m < 2 ^ 31"
  shows "unat (mcs_get_mem_limit_quota m) = nat (mm_memory_quota m) * (1024 * 1024)" "unat (mcs_get_mem_limit_quota m) < 2 ^ 51"
proof -
  obtain q where q: "mm_memory_quota m = int q" "q < 2 ^ 31" using assms by (metis nat_less_numeral_power_cancel_iff nonneg_int_cases nat_int)
  then have "mcs_get_mem_limit_quota m = of_nat (q * (1024 * 1024))" by (simp add: mcs_get_mem_limit_quota_def)
  moreover have "unat (of_nat (q * (1024 * 1024)) :: u64) = q * (1024 * 1024)" using q(2) by (subst unat_of_nat) simp
  ultimately have "unat (mcs_get_mem_limit_quota m) = q * (1024 * 1024)" by simp
  then show "unat (mcs_get_mem_limit_quota m) = nat (mm_memory_quota m) * (1024 * 1024)" "unat (mcs_get_mem_limit_quota m) < 2 ^ 51" using q by simp_all
qed

text \<open>What an allocation that is let through does to the registry and to the counter.\<close>

lemma count_alloc_spec:
  assumes chk: "mcs_memory_check sz m" and q: "0 \<le> mm_memory_quota m" "mm_memory_quota m < 2 ^ 31" and key: "key \<noteq> 0"
    and ok: "table_ok (mm_table m)" and used: "slot_bytes (mm_table m) \<le> unat (mm_used m)"
    and f: "find_slot (mm_table m) key (probes key) = Some i" and m': "m' = count_alloc key sz m"
  shows "mm_active m' = mm_active m" "mm_memory_quota m' = mm_memory_quota m"
    "table_ok (mm_table m')" "mm_table m' = (mm_table m)(i := (key, sz))" "i < MEM_TRACK_SLOTS"
    "slot_bytes (mm_table m') \<le> unat (mm_used m')" "unat (mm_used m') \<le> unat (mcs_get_mem_limit_quota m)"
proof -
  let ?t = "mm_table m"
  let ?old = "snd (?t i)"
  define delta where "delta = (if fst (?t i) = 0 then sz else if sz > ?old then sz - ?old else 0)"
  have i: "i < MEM_TRACK_SLOTS" "fst (?t i) = 0 \<or> fst (?t i) = key" using find_slot_Some [OF f] probes_bound by blast+
  have ins: "mem_track_insert key sz ?t = (delta, ?t(i := (key, sz)))" using i(2) by (auto simp: mem_track_insert_def f delta_def)
  have sum: "unat sz + unat (mm_used m) < 2 ^ 64" using chk by (simp add: mcs_memory_check_def)
  then have "unat (sz + mm_used m) = unat sz + unat (mm_used m)" by (simp add: unat_word_ariths)
  then have lim: "unat sz + unat (mm_used m) \<le> unat (mcs_get_mem_limit_quota m)" using chk by (simp add: mcs_memory_check_def word_less_nat_alt)
  have du: "unat delta = (if fst (?t i) = 0 then unat sz else unat sz - unat ?old)"
    by (auto simp: delta_def unat_sub word_less_nat_alt less_imp_le)
  then have dl: "unat delta \<le> unat sz" by simp
  have "delta \<noteq> SIZE_MAX"
  proof
    assume "delta = SIZE_MAX"
    then have "unat delta = 2 ^ 64 - 1" by (simp add: unsigned_minus_1_eq_mask mask_eq_exp_minus_1)
    then show False using dl lim quota_bytes(2) [OF q] by simp
  qed
  then have e: "m' = m\<lparr>mm_table := ?t(i := (key, sz)), mm_used := mm_used m + delta\<rparr>" by (simp add: m' count_alloc_def ins on_mem_alloc_def)
  have ua: "unat (mm_used m + delta) = unat (mm_used m) + unat delta" using sum dl by (simp add: unat_word_ariths)
  have "fst (?t i) = 0 \<longrightarrow> ?old = 0" using ok by (simp add: table_ok_def)
  then show "mm_active m' = mm_active m" "mm_memory_quota m' = mm_memory_quota m" "mm_table m' = ?t(i := (key, sz))" "i < MEM_TRACK_SLOTS"
    "slot_bytes (mm_table m') \<le> unat (mm_used m')" "unat (mm_used m') \<le> unat (mcs_get_mem_limit_quota m)"
    using slot_bytes_update [OF i(1), of ?t key sz] used lim dl i(1) du by (auto simp: e ua split: if_splits)
  show "table_ok (mm_table m')" using ok key by (simp add: e table_ok_def)
qed

lemma erase_spec:
  assumes ok: "table_ok (mm_table m)" and used: "slot_bytes (mm_table m) \<le> unat (mm_used m)"
    and e: "mem_track_erase key (mm_table m) = (sz, t)" and key: "key \<noteq> 0"
  shows "table_ok t" "slot_bytes t \<le> unat (mm_used (on_mem_free sz m))" "unat (mm_used (on_mem_free sz m)) \<le> unat (mm_used m)"
    "fst (mm_table m j) \<noteq> key \<Longrightarrow> t j = mm_table m j"
proof -
  have "table_ok t \<and> slot_bytes t + unat sz = slot_bytes (mm_table m) \<and> (\<forall>j. fst (mm_table m j) \<noteq> key \<longrightarrow> t j = mm_table m j)"
  proof (cases "find_slot (mm_table m) key (probes key)")
    case None
    then show ?thesis using e ok by (auto simp: mem_track_erase_def)
  next
    case (Some i)
    show ?thesis
    proof (cases "fst (mm_table m i) = 0")
      case True
      then show ?thesis using e ok Some by (auto simp: mem_track_erase_def)
    next
      case False
      have i: "i < MEM_TRACK_SLOTS" "fst (mm_table m i) = key" using find_slot_Some [OF Some] probes_bound False by blast+
      have "sz = snd (mm_table m i)" "t = (mm_table m)(i := (0, 0))" using e Some False by (auto simp: mem_track_erase_def)
      then show ?thesis using slot_bytes_update [OF i(1), of "mm_table m" 0 0] ok i(2) by (auto simp: table_ok_def)
    qed
  qed
  moreover from this have "unat sz \<le> unat (mm_used m)" using used by linarith
  then have "unat (mm_used (on_mem_free sz m)) = unat (mm_used m) - unat sz" by (simp add: on_mem_free_def word_less_nat_alt unat_sub word_le_nat_alt)
  ultimately show "table_ok t" "slot_bytes t \<le> unat (mm_used (on_mem_free sz m))" "unat (mm_used (on_mem_free sz m)) \<le> unat (mm_used m)"
    "fst (mm_table m j) \<noteq> key \<Longrightarrow> t j = mm_table m j" using used by auto
qed

section \<open>The quota holds\<close>

text \<open>What the driver has handed out, by the keys of the registry, and whether an allocation was not registered because
  the registry was full. A successful call of the driver returns a pointer or handle that is not in use. The driver may also
  free memory without a hook (handles are freed that way).\<close>

record mem_world =
  mw_mem :: mcs_mem
  mw_live :: "u64 \<rightharpoonup> u64"
  mw_uncounted :: bool

definition handed_out :: "u64 \<Rightarrow> u64 \<Rightarrow> int \<Rightarrow> mcs_mem \<Rightarrow> mem_world \<Rightarrow> mem_world" where
  "handed_out key sz ret m' w =
     (if mcs_guard_memory sz (mw_mem w) = ENPU_SUCCESS \<and> ret = ENPU_SUCCESS
      then \<lparr>mw_mem = m', mw_live = (mw_live w)(key \<mapsto> sz),
        mw_uncounted = (mw_uncounted w \<or> find_slot (mm_table (mw_mem w)) key (probes key) = None)\<rparr>
      else w\<lparr>mw_mem := m'\<rparr>)"

inductive mem_step :: "mem_world \<Rightarrow> mem_world \<Rightarrow> bool" where
  malloc: "mem_step w (handed_out ptr sz ret (snd (rtMalloc (Some (ret, ptr)) True sz (mw_mem w))) w)" if "ptr \<noteq> 0" "mw_live w ptr = None"
| physical: "mem_step w (handed_out (handle_key h) sz ret (snd (rtMallocPhysical (Some (ret, h)) True sz (mw_mem w))) w)" if "mw_live w (handle_key h) = None"
| free: "mem_step w (w\<lparr>mw_mem := snd (rtFree (Some ret) ptr (mw_mem w)), mw_live := (if ret = 0 then (mw_live w)(ptr := None) else mw_live w)\<rparr>)" if "ptr \<noteq> 0"
| driver_free: "mem_step w (w\<lparr>mw_live := (mw_live w)(key := None)\<rparr>)"

definition tracked :: "track_table \<Rightarrow> (u64 \<rightharpoonup> u64) \<Rightarrow> bool" where
  "tracked t live \<longleftrightarrow> (\<forall>k s. live k = Some s \<longrightarrow> k \<noteq> 0 \<and> (\<exists>i < MEM_TRACK_SLOTS. t i = (k, s)))"

definition mem_inv :: "int \<Rightarrow> mem_world \<Rightarrow> bool" where
  "mem_inv q w \<longleftrightarrow> mm_active (mw_mem w) \<and> mm_memory_quota (mw_mem w) = q \<and> finite (dom (mw_live w))
     \<and> (\<not> mw_uncounted w \<longrightarrow> table_ok (mm_table (mw_mem w)) \<and> tracked (mm_table (mw_mem w)) (mw_live w)
        \<and> slot_bytes (mm_table (mw_mem w)) \<le> unat (mm_used (mw_mem w)) \<and> unat (mm_used (mw_mem w)) \<le> nat q * (1024 * 1024))"

definition live_bytes :: "(u64 \<rightharpoonup> u64) \<Rightarrow> nat" where
  "live_bytes live = (\<Sum>k \<in> dom live. unat (the (live k)))"

lemma live_le_slots:
  assumes "tracked t live" and "finite (dom live)"
  shows "live_bytes live \<le> slot_bytes t"
proof -
  have "\<forall>k \<in> dom live. \<exists>i < MEM_TRACK_SLOTS. t i = (k, the (live k))" using assms(1) by (auto simp: tracked_def)
  then obtain g where g: "\<forall>k \<in> dom live. g k < MEM_TRACK_SLOTS \<and> t (g k) = (k, the (live k))" by metis
  then have inj: "inj_on g (dom live)" by (metis (mono_tags, lifting) fst_conv inj_onI)
  have "live_bytes live = (\<Sum>k \<in> dom live. unat (snd (t (g k))))" unfolding live_bytes_def using g by (intro sum.cong) auto
  also have "\<dots> = (\<Sum>i \<in> g ` dom live. unat (snd (t i)))" using inj by (simp add: sum.reindex)
  also have "\<dots> \<le> slot_bytes t" unfolding slot_bytes_def using g by (intro sum_mono2) auto
  finally show ?thesis .
qed

lemma alloc_keeps:
  assumes inv: "mem_inv q w" and q: "0 \<le> q" "q < 2 ^ 31" and key: "key \<noteq> 0" "mw_live w key = None"
    and m': "m' = (if mcs_guard_memory sz (mw_mem w) = ENPU_SUCCESS \<and> ret = ENPU_SUCCESS then count_alloc key sz (mw_mem w) else mw_mem w)"
  shows "mem_inv q (handed_out key sz ret m' w)"
proof (cases "mcs_guard_memory sz (mw_mem w) = ENPU_SUCCESS \<and> ret = ENPU_SUCCESS")
  case False
  then show ?thesis using inv by (simp add: handed_out_def m' del: de_Morgan_conj)
next
  case True
  let ?m = "mw_mem w"
  have chk: "mcs_memory_check sz ?m" using True by (auto simp: mcs_guard_memory_def split: if_splits)
  have e: "handed_out key sz ret m' w = \<lparr>mw_mem = count_alloc key sz ?m, mw_live = (mw_live w)(key \<mapsto> sz),
      mw_uncounted = (mw_uncounted w \<or> find_slot (mm_table ?m) key (probes key) = None)\<rparr>" using True by (simp add: handed_out_def m')
  have a: "mm_active (count_alloc key sz ?m) = mm_active ?m" "mm_memory_quota (count_alloc key sz ?m) = mm_memory_quota ?m"
    by (simp_all add: count_alloc_def on_mem_alloc_def Let_def split: prod.split)
  show ?thesis
  proof (cases "mw_uncounted w \<or> find_slot (mm_table ?m) key (probes key) = None")
    case True
    then show ?thesis using inv a unfolding e by (simp add: mem_inv_def)
  next
    case False
    then obtain i where f: "find_slot (mm_table ?m) key (probes key) = Some i" and u: "\<not> mw_uncounted w" by auto
    have qm: "mm_memory_quota ?m = q" and ok: "table_ok (mm_table ?m)" and tr: "tracked (mm_table ?m) (mw_live w)"
      and used: "slot_bytes (mm_table ?m) \<le> unat (mm_used ?m)" using inv u by (simp_all add: mem_inv_def)
    note c = count_alloc_spec [OF chk _ _ key(1) ok used f refl, unfolded qm, OF q]
    have quota: "unat (mcs_get_mem_limit_quota ?m) = nat q * (1024 * 1024)" using quota_bytes(1) [of ?m] q by (simp add: qm)
    have fi: "fst (mm_table ?m i) = 0 \<or> fst (mm_table ?m i) = key" by (rule find_slot_Some(2) [OF f])
    have "tracked (mm_table (count_alloc key sz ?m)) ((mw_live w)(key \<mapsto> sz))"
      unfolding tracked_def
    proof (intro allI impI conjI)
      fix k s assume l: "((mw_live w)(key \<mapsto> sz)) k = Some s"
      then show "k \<noteq> 0" using tr key(1) by (auto simp: tracked_def split: if_splits)
      show "\<exists>j < MEM_TRACK_SLOTS. mm_table (count_alloc key sz ?m) j = (k, s)"
      proof (cases "k = key")
        case True
        then show ?thesis using l c(4,5) by auto
      next
        case False
        then obtain j where j: "j < MEM_TRACK_SLOTS" "mm_table ?m j = (k, s)" and "k \<noteq> 0" using l tr by (auto simp: tracked_def)
        then have "j \<noteq> i" using fi False by auto
        then show ?thesis using j c(4) by auto
      qed
    qed
    then show ?thesis using inv False c a unfolding e by (simp add: mem_inv_def quota)
  qed
qed

lemma free_keeps:
  assumes inv: "mem_inv q w" and ptr: "ptr \<noteq> 0"
  shows "mem_inv q (w\<lparr>mw_mem := snd (rtFree (Some 0) ptr (mw_mem w)), mw_live := (mw_live w)(ptr := None)\<rparr>)"
proof -
  let ?m = "mw_mem w"
  obtain sz t where er: "mem_track_erase ptr (mm_table ?m) = (sz, t)" by fastforce
  have act: "mm_active ?m" using inv by (simp add: mem_inv_def)
  have m': "snd (rtFree (Some 0) ptr ?m) = on_mem_free sz (?m\<lparr>mm_table := t\<rparr>)" using act ptr er by (simp add: rtFree_def)
  have us: "mm_used (on_mem_free sz (?m\<lparr>mm_table := t\<rparr>)) = mm_used (on_mem_free sz ?m)" by (simp add: on_mem_free_def)
  have same: "mm_active (on_mem_free sz (?m\<lparr>mm_table := t\<rparr>))" "mm_memory_quota (on_mem_free sz (?m\<lparr>mm_table := t\<rparr>)) = q"
    "mm_table (on_mem_free sz (?m\<lparr>mm_table := t\<rparr>)) = t" using inv by (simp_all add: on_mem_free_def mem_inv_def)
  have fin: "finite (dom ((mw_live w)(ptr := None)))" using inv by (simp add: mem_inv_def)
  show ?thesis
  proof (cases "mw_uncounted w")
    case True
    then show ?thesis using same fin by (simp add: mem_inv_def m')
  next
    case False
    then have i: "table_ok (mm_table ?m)" "tracked (mm_table ?m) (mw_live w)" "slot_bytes (mm_table ?m) \<le> unat (mm_used ?m)"
      "unat (mm_used ?m) \<le> nat q * (1024 * 1024)" using inv by (simp_all add: mem_inv_def)
    note s = erase_spec [OF i(1,3) er ptr]
    have "tracked t ((mw_live w)(ptr := None))" unfolding tracked_def
    proof (intro allI impI conjI)
      fix k v assume l: "((mw_live w)(ptr := None)) k = Some v"
      then have k: "k \<noteq> ptr" "mw_live w k = Some v" by (auto split: if_splits)
      then show "k \<noteq> 0" using i(2) by (auto simp: tracked_def)
      obtain j where j: "j < MEM_TRACK_SLOTS" "mm_table ?m j = (k, v)" using i(2) k(2) by (auto simp: tracked_def)
      then show "\<exists>j < MEM_TRACK_SLOTS. t j = (k, v)" using s(4) [of j] k(1) by auto
    qed
    then show ?thesis using same fin s(1-3) i(4) by (simp add: mem_inv_def m' us)
  qed
qed

lemma handle_key_nonzero: "handle_key h \<noteq> 0"
proof
  assume "handle_key h = 0"
  then have "bit (handle_key h) 0 = False" by simp
  then show False by (simp add: handle_key_def bit_or_iff)
qed

lemma mem_step_inv:
  assumes "mem_step w w'" and "mem_inv q w" and "0 \<le> q" "q < 2 ^ 31"
  shows "mem_inv q w'"
  using assms
proof (induction rule: mem_step.induct)
  case (malloc ptr w sz ret)
  have "mm_active (mw_mem w)" using malloc.prems(1) by (simp add: mem_inv_def)
  then show ?case using malloc by (intro alloc_keeps) (auto simp: rtMalloc_def)
next
  case (physical w h sz ret)
  have "mm_active (mw_mem w)" using physical.prems(1) by (simp add: mem_inv_def)
  then show ?case using physical by (intro alloc_keeps) (auto simp: rtMallocPhysical_def handle_key_nonzero)
next
  case (free ptr w ret)
  show ?case
  proof (cases "ret = 0")
    case True
    then show ?thesis using free_keeps [OF free.prems(1) free.hyps] by simp
  next
    case False
    then have "snd (rtFree (Some ret) ptr (mw_mem w)) = mw_mem w" by (simp add: rtFree_def)
    then show ?thesis using free.prems(1) False by simp
  qed
next
  case (driver_free w key)
  then show ?case by (auto simp: mem_inv_def tracked_def)
qed

definition mem_start :: "int \<Rightarrow> mem_world" where
  "mem_start q = \<lparr>mw_mem = activate_mem_hooks \<lparr>mm_active = False, mm_table = (\<lambda>_. (0, 0)), mm_used = 0, mm_memory_quota = q\<rparr>,
     mw_live = Map.empty, mw_uncounted = False\<rparr>"

lemma mem_start_inv: "mem_inv q (mem_start q)"
  by (simp add: mem_inv_def mem_start_def activate_mem_hooks_def table_ok_def tracked_def slot_bytes_def)

text \<open>C34: the memory quota holds: after any sequence of hooked allocations and frees, whatever the driver answers, the
  memory that the process holds is at most what the counter says, which is at most the quota. This includes repeated
  handles, frees that the hooks do not see and frees of unknown pointers. (It is assumed that the registry was never full,
  and that the hooks are not called concurrently.)\<close>

theorem mcs_quota_holds:
  assumes "mem_step\<^sup>*\<^sup>* (mem_start q) w" and "0 \<le> q" "q < 2 ^ 31" and "\<not> mw_uncounted w"
  shows "live_bytes (mw_live w) \<le> unat (mm_used (mw_mem w)) \<and> unat (mm_used (mw_mem w)) \<le> nat q * (1024 * 1024)"
proof -
  have "mem_inv q w" using assms(1)
    by (induction rule: rtranclp_induct) (use mem_start_inv mem_step_inv assms(2,3) in \<open>blast+\<close>)
  then have i: "tracked (mm_table (mw_mem w)) (mw_live w)" "finite (dom (mw_live w))" "slot_bytes (mm_table (mw_mem w)) \<le> unat (mm_used (mw_mem w))"
    "unat (mm_used (mw_mem w)) \<le> nat q * (1024 * 1024)" using assms(4) by (simp_all add: mem_inv_def)
  then show ?thesis using live_le_slots [OF i(1,2)] by linarith
qed

section \<open>When the counter is exact\<close>

lemma probes_Cons: "probes key = mem_track_hash key # (mem_track_hash key + 1) mod MEM_TRACK_SLOTS # tl (tl (probes key))"
proof -
  have "[0..<MEM_TRACK_SLOTS] = 0 # 1 # [Suc 1..<MEM_TRACK_SLOTS]" by (subst upt_conv_Cons, simp, subst upt_conv_Cons, simp_all)
  moreover have "mem_track_hash key < MEM_TRACK_SLOTS"
  proof -
    have "(x :: u32) AND 0xFFFF < 0x10000" for x using word_and_le1 [of x "0xFFFF"] by (rule le_less_trans) simp
    then show ?thesis by (simp add: mem_track_hash_def word_less_nat_alt)
  qed
  ultimately show ?thesis unfolding probes_def by (simp only: list.map list.sel) simp
qed

lemma find_first:
  "fst (t (mem_track_hash key)) = 0 \<or> fst (t (mem_track_hash key)) = key \<Longrightarrow> find_slot t key (probes key) = Some (mem_track_hash key)"
  by (subst probes_Cons) simp

lemma find_second:
  assumes "fst (t (mem_track_hash key)) \<noteq> 0" "fst (t (mem_track_hash key)) \<noteq> key"
    and "fst (t ((mem_track_hash key + 1) mod MEM_TRACK_SLOTS)) = 0 \<or> fst (t ((mem_track_hash key + 1) mod MEM_TRACK_SLOTS)) = key"
  shows "find_slot t key (probes key) = Some ((mem_track_hash key + 1) mod MEM_TRACK_SLOTS)"
  using assms by (subst probes_Cons) simp

text \<open>Runs of allocations, of pointers and of physical handles, and of frees, with keys of a set. All frees go through a hook; there is no
  hook for the free of a physical handle.\<close>

inductive pointer_step :: "u64 set \<Rightarrow> mem_world \<Rightarrow> mem_world \<Rightarrow> bool" for K where
  malloc: "pointer_step K w (handed_out ptr sz ret (snd (rtMalloc (Some (ret, ptr)) True sz (mw_mem w))) w)"
    if "ptr \<in> K" "ptr \<noteq> 0" "mw_live w ptr = None"
| physical: "pointer_step K w (handed_out (handle_key h) sz ret (snd (rtMallocPhysical (Some (ret, h)) True sz (mw_mem w))) w)"
    if "handle_key h \<in> K" "mw_live w (handle_key h) = None"
| free: "pointer_step K w (w\<lparr>mw_mem := snd (rtFree (Some ret) ptr (mw_mem w)), mw_live := (if ret = 0 then (mw_live w)(ptr := None) else mw_live w)\<rparr>)"
    if "ptr \<in> K" "ptr \<noteq> 0"

lemma pointer_step_mem_step: "pointer_step K w w' \<Longrightarrow> mem_step w w'"
proof (induction rule: pointer_step.induct)
  case (malloc ptr w sz ret)
  then show ?case by (intro mem_step.malloc)
next
  case (physical h w sz ret)
  then show ?case by (intro mem_step.physical)
next
  case (free ptr w ret)
  then show ?case by (intro mem_step.free)
qed

text \<open>The slot of its hash holds a live allocation, and nothing else is in the table.\<close>

definition exact_inv :: "u64 set \<Rightarrow> mem_world \<Rightarrow> bool" where
  "exact_inv K w \<longleftrightarrow> \<not> mw_uncounted w \<and> dom (mw_live w) \<subseteq> K
     \<and> (\<forall>k s. mw_live w k = Some s \<longrightarrow> mm_table (mw_mem w) (mem_track_hash k) = (k, s))
     \<and> (\<forall>i. fst (mm_table (mw_mem w) i) \<noteq> 0 \<longrightarrow> mw_live w (fst (mm_table (mw_mem w) i)) \<noteq> None \<and> i = mem_track_hash (fst (mm_table (mw_mem w) i)))
     \<and> unat (mm_used (mw_mem w)) = live_bytes (mw_live w)"

lemma exact_slot:
  assumes "exact_inv K w" "inj_on mem_track_hash K" "key \<in> K"
  shows "fst (mm_table (mw_mem w) (mem_track_hash key)) = 0 \<or> fst (mm_table (mw_mem w) (mem_track_hash key)) = key"
proof (rule ccontr)
  let ?k = "fst (mm_table (mw_mem w) (mem_track_hash key))"
  assume "\<not> ?thesis"
  then have "?k \<in> K" "mem_track_hash key = mem_track_hash ?k" "?k \<noteq> key" using assms(1) by (auto simp: exact_inv_def)
  then show False using assms(2,3) by (auto dest: inj_onD)
qed

lemma live_bytes_upd:
  assumes "finite (dom live)"
  shows "live k = None \<Longrightarrow> live_bytes (live(k \<mapsto> s)) = live_bytes live + unat s"
    "live k = Some s \<Longrightarrow> live_bytes (live(k := None)) + unat s = live_bytes live"
proof -
  assume n: "live k = None"
  then have "k \<notin> dom live" by auto
  moreover have "(\<Sum>j \<in> dom live. unat (the ((live(k \<mapsto> s)) j))) = live_bytes live" unfolding live_bytes_def by (rule sum.cong) (use n in auto)
  moreover have "dom (live(k \<mapsto> s)) = insert k (dom live)" by simp
  ultimately show "live_bytes (live(k \<mapsto> s)) = live_bytes live + unat s" unfolding live_bytes_def using assms by simp
next
  assume s: "live k = Some s"
  have "live_bytes live = unat s + (\<Sum>j \<in> dom live - {k}. unat (the (live j)))"
    unfolding live_bytes_def using assms s by (subst sum.remove [of _ k]) auto
  moreover have "live_bytes (live(k := None)) = (\<Sum>j \<in> dom live - {k}. unat (the (live j)))"
    unfolding live_bytes_def by (intro sum.cong) auto
  ultimately show "live_bytes (live(k := None)) + unat s = live_bytes live" by simp
qed

lemma exact_alloc:
  assumes ex: "exact_inv K w" and inv: "mem_inv q w" and q: "0 \<le> q" "q < 2 ^ 31" and inj: "inj_on mem_track_hash K"
    and key: "key \<in> K" "key \<noteq> 0" "mw_live w key = None" and chk: "mcs_memory_check sz (mw_mem w)"
  shows "exact_inv K \<lparr>mw_mem = count_alloc key sz (mw_mem w), mw_live = (mw_live w)(key \<mapsto> sz), mw_uncounted = False\<rparr>"
proof -
  let ?m = "mw_mem w" and ?i = "mem_track_hash key"
  have free: "fst (mm_table ?m ?i) = 0"
  proof (rule ccontr)
    assume "\<not> ?thesis"
    then have "fst (mm_table ?m ?i) = key" using exact_slot [OF ex inj key(1)] by simp
    then have "mw_live w key \<noteq> None" using ex key(2) unfolding exact_inv_def by metis
    then show False using key(3) by simp
  qed
  then have f: "find_slot (mm_table ?m) key (probes key) = Some ?i" by (intro find_first) simp
  have i: "mm_active ?m" "mm_memory_quota ?m = q" "table_ok (mm_table ?m)" "slot_bytes (mm_table ?m) \<le> unat (mm_used ?m)" "finite (dom (mw_live w))"
    using inv ex by (simp_all add: mem_inv_def exact_inv_def)
  note c = count_alloc_spec [OF chk _ _ key(2) i(3,4) f refl, unfolded i(2), OF q]
  have "sz \<noteq> SIZE_MAX"
  proof
    assume "sz = SIZE_MAX"
    then have "unat sz = 2 ^ 64 - 1" by (simp add: unsigned_minus_1_eq_mask mask_eq_exp_minus_1)
    moreover have "unat sz + unat (mm_used ?m) < 2 ^ 64" using chk by (simp add: mcs_memory_check_def)
    moreover from this have "unat (sz + mm_used ?m) = unat sz + unat (mm_used ?m)" by (simp add: unat_word_ariths)
    ultimately show False using chk quota_bytes(2) [of ?m] q i(2) by (simp add: mcs_memory_check_def word_less_nat_alt)
  qed
  then have "mm_used (count_alloc key sz ?m) = mm_used ?m + sz" using f free by (simp add: count_alloc_def mem_track_insert_def on_mem_alloc_def)
  moreover have "unat (mm_used ?m + sz) = unat (mm_used ?m) + unat sz"
  proof -
    have "unat (mm_used ?m) + unat sz < 2 ^ 64" using chk by (simp add: mcs_memory_check_def)
    then show ?thesis by (simp add: unat_word_ariths)
  qed
  moreover have "live_bytes ((mw_live w)(key \<mapsto> sz)) = live_bytes (mw_live w) + unat sz" by (rule live_bytes_upd(1) [OF i(5) key(3)])
  ultimately have used: "unat (mm_used (count_alloc key sz ?m)) = live_bytes ((mw_live w)(key \<mapsto> sz))" using ex by (simp add: exact_inv_def)
  have other: "mem_track_hash k \<noteq> ?i" if "mw_live w k = Some s" for k s
  proof
    assume "mem_track_hash k = ?i"
    moreover have "k \<in> K" using ex that by (auto simp: exact_inv_def)
    ultimately have "k = key" using inj key(1) by (auto dest: inj_onD)
    then show False using that key(3) by simp
  qed
  have "((mw_live w)(key \<mapsto> sz)) k = Some s \<Longrightarrow> mm_table (count_alloc key sz ?m) (mem_track_hash k) = (k, s)" for k s
    using ex other [of k s] c(4) by (cases "k = key") (auto simp: exact_inv_def)
  moreover have "fst (mm_table (count_alloc key sz ?m) j) \<noteq> 0 \<Longrightarrow> ((mw_live w)(key \<mapsto> sz)) (fst (mm_table (count_alloc key sz ?m) j)) \<noteq> None
      \<and> j = mem_track_hash (fst (mm_table (count_alloc key sz ?m) j))" for j
    using ex by (cases "j = ?i") (simp_all add: c(4) exact_inv_def)
  moreover have "dom ((mw_live w)(key \<mapsto> sz)) \<subseteq> K" using ex key(1) by (simp add: exact_inv_def)
  ultimately show ?thesis using used by (simp add: exact_inv_def)
qed

lemma exact_free:
  assumes ex: "exact_inv K w" and inv: "mem_inv q w" and inj: "inj_on mem_track_hash K" and ptr: "ptr \<in> K" "ptr \<noteq> 0"
  shows "exact_inv K (w\<lparr>mw_mem := snd (rtFree (Some 0) ptr (mw_mem w)), mw_live := (mw_live w)(ptr := None)\<rparr>)"
proof (cases "mw_live w ptr")
  let ?m = "mw_mem w" and ?i = "mem_track_hash ptr"
  have act: "mm_active ?m" and fin: "finite (dom (mw_live w))" using inv by (simp_all add: mem_inv_def)
  have f: "find_slot (mm_table ?m) ptr (probes ptr) = Some ?i" by (rule find_first) (rule exact_slot [OF ex inj ptr(1)])
  {
    case None
    then have "fst (mm_table ?m ?i) \<noteq> ptr" using ex ptr(2) unfolding exact_inv_def by metis
    then have "fst (mm_table ?m ?i) = 0" using exact_slot [OF ex inj ptr(1)] by blast
    then have "snd (rtFree (Some 0) ptr ?m) = ?m" using act ptr(2) f by (simp add: rtFree_def mem_track_erase_def on_mem_free_def)
    moreover have "(mw_live w)(ptr := None) = mw_live w" using None by auto
    ultimately show ?thesis using ex by simp
  next
    case (Some s)
    then have t: "mm_table ?m ?i = (ptr, s)" using ex by (simp add: exact_inv_def)
    have lb: "live_bytes ((mw_live w)(ptr := None)) + unat s = live_bytes (mw_live w)" by (rule live_bytes_upd(2) [OF fin Some])
    then have "s \<le> mm_used ?m" using ex by (simp add: exact_inv_def word_le_nat_alt)
    then have m': "snd (rtFree (Some 0) ptr ?m) = ?m\<lparr>mm_table := (mm_table ?m)(?i := (0, 0)), mm_used := mm_used ?m - s\<rparr>"
      using act ptr(2) f t by (simp add: rtFree_def mem_track_erase_def on_mem_free_def)
    have "unat (mm_used ?m - s) = live_bytes ((mw_live w)(ptr := None))" using \<open>s \<le> mm_used ?m\<close> lb ex by (simp add: unat_sub exact_inv_def)
    moreover have "mem_track_hash k \<noteq> ?i" if "mw_live w k = Some v" "k \<noteq> ptr" for k v
      using ex that inj ptr(1) by (auto simp: exact_inv_def dest: inj_onD)
    moreover have "fst (mm_table ?m j) \<noteq> ptr" if "j \<noteq> ?i" for j
      using ex that ptr(2) unfolding exact_inv_def by metis
    ultimately show ?thesis using ex t by (auto simp: exact_inv_def m')
  }
qed

lemma exact_handed_out:
  assumes ex: "exact_inv K w" and inv: "mem_inv q w" and q: "0 \<le> q" "q < 2 ^ 31" and inj: "inj_on mem_track_hash K"
    and key: "key \<in> K" "key \<noteq> 0" "mw_live w key = None"
    and m': "m' = (if mcs_guard_memory sz (mw_mem w) = ENPU_SUCCESS \<and> ret = ENPU_SUCCESS then count_alloc key sz (mw_mem w) else mw_mem w)"
  shows "exact_inv K (handed_out key sz ret m' w)"
proof (cases "mcs_guard_memory sz (mw_mem w) = ENPU_SUCCESS \<and> ret = ENPU_SUCCESS")
  case True
  then have chk: "mcs_memory_check sz (mw_mem w)" by (auto simp: mcs_guard_memory_def split: if_splits)
  have "find_slot (mm_table (mw_mem w)) key (probes key) \<noteq> None"
    using find_first [of "mm_table (mw_mem w)" key] exact_slot [OF ex inj key(1)] by simp
  moreover have "\<not> mw_uncounted w" using ex by (simp add: exact_inv_def)
  ultimately show ?thesis using exact_alloc [OF ex inv q inj key chk] True m' by (auto simp: handed_out_def)
next
  case False
  then show ?thesis using ex by (simp add: handed_out_def m' del: de_Morgan_conj)
qed

lemma pointer_step_exact:
  assumes "pointer_step K w w'" and "exact_inv K w" "mem_inv q w" "0 \<le> q" "q < 2 ^ 31" "inj_on mem_track_hash K"
  shows "exact_inv K w'"
  using assms
proof (induction rule: pointer_step.induct)
  case (malloc ptr w sz ret)
  have "mm_active (mw_mem w)" using malloc.prems(2) by (simp add: mem_inv_def)
  then show ?case using malloc.hyps(2) by (intro exact_handed_out [OF malloc.prems malloc.hyps]) (auto simp: rtMalloc_def)
next
  case (physical h w sz ret)
  have "mm_active (mw_mem w)" using physical.prems(2) by (simp add: mem_inv_def)
  then show ?case by (intro exact_handed_out [OF physical.prems physical.hyps(1) handle_key_nonzero physical.hyps(2)]) (auto simp: rtMallocPhysical_def)
next
  case (free ptr w ret)
  show ?case
  proof (cases "ret = 0")
    case True
    then show ?thesis using exact_free [OF free.prems(1,2,5) free.hyps] by simp
  next
    case False
    then have "snd (rtFree (Some ret) ptr (mw_mem w)) = mw_mem w" by (simp add: rtFree_def)
    then show ?thesis using free.prems(1) False by simp
  qed
qed

text \<open>Two pointers with the same hash. The second one is stored in the next slot; freeing the first one leaves a gap before
  it, at which the search for the second one ends.\<close>

definition demo_table :: "u64 \<Rightarrow> u64 \<Rightarrow> track_table" where
  "demo_table a b = (\<lambda>_. (0, 0))(31153 := (if a = 0 then 0 else 16, a), 31154 := (if b = 0 then 0 else 0x100010, b))"

definition demo_world :: "int \<Rightarrow> u64 \<Rightarrow> u64 \<Rightarrow> (u64 \<rightharpoonup> u64) \<Rightarrow> mem_world" where
  "demo_world q a b live = \<lparr>mw_mem = \<lparr>mm_active = True, mm_table = demo_table a b, mm_used = a + b, mm_memory_quota = q\<rparr>,
     mw_live = live, mw_uncounted = False\<rparr>"

lemma demo_hash: "mem_track_hash 16 = 31153" "mem_track_hash 0x100010 = 31153"
  by (simp_all add: mem_track_hash_def)

lemma demo_find:
  "find_slot (demo_table a b) 16 (probes 16) = Some 31153"
  "find_slot (demo_table 0 b) 0x100010 (probes 0x100010) = Some 31153"
  "a \<noteq> 0 \<Longrightarrow> find_slot (demo_table a b) 0x100010 (probes 0x100010) = Some 31154"
proof -
  show "find_slot (demo_table a b) 16 (probes 16) = Some 31153" using find_first [of "demo_table a b" 16] by (simp add: demo_hash demo_table_def)
  show "find_slot (demo_table 0 b) 0x100010 (probes 0x100010) = Some 31153"
    using find_first [of "demo_table 0 b" "0x100010"] by (simp add: demo_hash demo_table_def)
  show "find_slot (demo_table a b) 0x100010 (probes 0x100010) = Some 31154" if "a \<noteq> 0"
    using find_second [of "demo_table a b" "0x100010"] that by (simp add: demo_hash demo_table_def)
qed

lemma demo_check:
  assumes "1 \<le> q" "q < 2 ^ 31" and "mm_memory_quota m = q" "unat (mm_used m) \<le> 8"
  shows "mcs_memory_check 8 m"
proof -
  have "unat (mcs_get_mem_limit_quota m) = nat q * (1024 * 1024)" using quota_bytes(1) [of m] assms by simp
  moreover have "1 \<le> nat q" using assms(1) by simp
  ultimately have "1024 * 1024 \<le> unat (mcs_get_mem_limit_quota m)" by simp
  moreover have "unat (8 + mm_used m) = 8 + unat (mm_used m)" using assms(4) by (simp add: unat_word_ariths)
  ultimately show ?thesis using assms(4) by (simp add: mcs_memory_check_def word_less_nat_alt)
qed

lemma demo_guard:
  assumes "1 \<le> q" "q < 2 ^ 31" and "unat a \<le> 8"
  shows "mcs_guard_memory 8 (mw_mem (demo_world q a 0 l)) = 0"
  using demo_check [OF assms(1,2), of "mw_mem (demo_world q a 0 l)"] assms(3) by (simp add: mcs_guard_memory_def demo_world_def)

lemma first_alloc:
  assumes q: "1 \<le> q" "q < 2 ^ 31" and "16 \<in> K"
  shows "pointer_step K (mem_start q) (demo_world q 8 0 [16 \<mapsto> 8])"
proof -
  let ?w = "demo_world q 0 0 Map.empty"
  have s: "mem_start q = ?w" by (auto simp: mem_start_def demo_world_def activate_mem_hooks_def demo_table_def)
  have "pointer_step K ?w (handed_out 16 8 0 (snd (rtMalloc (Some (0, 16)) True 8 (mw_mem ?w))) ?w)"
    by (rule pointer_step.malloc) (simp_all add: demo_world_def assms(3))
  also have "handed_out 16 8 0 (snd (rtMalloc (Some (0, 16)) True 8 (mw_mem ?w))) ?w = demo_world q 8 0 [16 \<mapsto> 8]"
    using demo_guard [OF q, of 0 Map.empty] by (simp add: handed_out_def rtMalloc_def demo_world_def count_alloc_def mem_track_insert_def demo_find on_mem_alloc_def)
      (auto simp: demo_table_def)
  finally show ?thesis unfolding s .
qed

lemma collision_run:
  assumes q: "1 \<le> q" "q < 2 ^ 31"
  shows "(pointer_step {16, 0x100010})\<^sup>*\<^sup>* (mem_start q) (demo_world q 0 8 Map.empty)"
proof -
  let ?K = "{16, 0x100010} :: u64 set"
  let ?w1 = "demo_world q 8 0 [16 \<mapsto> 8]" and ?w2 = "demo_world q 8 8 [16 \<mapsto> 8, 0x100010 \<mapsto> 8]" and ?w3 = "demo_world q 0 8 [0x100010 \<mapsto> 8]"
  have 1: "pointer_step ?K (mem_start q) ?w1" by (rule first_alloc [OF q]) simp
  have "pointer_step ?K ?w1 (handed_out 0x100010 8 0 (snd (rtMalloc (Some (0, 0x100010)) True 8 (mw_mem ?w1))) ?w1)"
    by (rule pointer_step.malloc) (simp_all add: demo_world_def)
  also have "handed_out 0x100010 8 0 (snd (rtMalloc (Some (0, 0x100010)) True 8 (mw_mem ?w1))) ?w1 = ?w2"
    using demo_guard [OF q, of 8 "[16 \<mapsto> 8]"] by (simp add: handed_out_def rtMalloc_def demo_world_def count_alloc_def mem_track_insert_def demo_find on_mem_alloc_def)
      (auto simp: demo_table_def)
  finally have 2: "pointer_step ?K ?w1 ?w2" .
  have "pointer_step ?K ?w2 (?w2\<lparr>mw_mem := snd (rtFree (Some 0) 16 (mw_mem ?w2)), mw_live := (if (0::int) = 0 then (mw_live ?w2)(16 := None) else mw_live ?w2)\<rparr>)"
    by (rule pointer_step.free) simp_all
  also have "?w2\<lparr>mw_mem := snd (rtFree (Some 0) 16 (mw_mem ?w2)), mw_live := (if (0::int) = 0 then (mw_live ?w2)(16 := None) else mw_live ?w2)\<rparr> = ?w3"
    by (simp add: rtFree_def demo_world_def mem_track_erase_def demo_find on_mem_free_def) (auto simp: demo_table_def)
  finally have 3: "pointer_step ?K ?w2 ?w3" .
  have "pointer_step ?K ?w3 (?w3\<lparr>mw_mem := snd (rtFree (Some 0) 0x100010 (mw_mem ?w3)), mw_live := (if (0::int) = 0 then (mw_live ?w3)(0x100010 := None) else mw_live ?w3)\<rparr>)"
    by (rule pointer_step.free) simp_all
  also have "?w3\<lparr>mw_mem := snd (rtFree (Some 0) 0x100010 (mw_mem ?w3)), mw_live := (if (0::int) = 0 then (mw_live ?w3)(0x100010 := None) else mw_live ?w3)\<rparr>
      = demo_world q 0 8 Map.empty"
    by (simp add: rtFree_def demo_world_def mem_track_erase_def demo_find on_mem_free_def) (auto simp: demo_table_def)
  finally have 4: "pointer_step ?K ?w3 (demo_world q 0 8 Map.empty)" .
  show ?thesis using 1 2 3 4 by (meson converse_rtranclp_into_rtranclp rtranclp.rtrancl_refl)
qed

text \<open>A physical handle that the driver frees without a hook.\<close>

lemma physical_run:
  assumes q: "1 \<le> q" "q < 2 ^ 31"
  shows "\<exists>v. mem_step\<^sup>*\<^sup>* (mem_start q) v \<and> mw_live v = Map.empty \<and> mm_used (mw_mem v) = 8"
proof -
  let ?w = "mem_start q" and ?k = "handle_key 8"
  let ?m1 = "snd (rtMallocPhysical (Some (0, 8)) True 8 (mw_mem ?w))"
  let ?w1 = "handed_out ?k 8 0 ?m1 ?w"
  have m: "mm_active (mw_mem ?w)" "mm_memory_quota (mw_mem ?w) = q" "mm_used (mw_mem ?w) = 0" "mm_table (mw_mem ?w) = (\<lambda>_. (0, 0))" "mw_live ?w = Map.empty"
    by (simp_all add: mem_start_def activate_mem_hooks_def)
  have g: "mcs_guard_memory 8 (mw_mem ?w) = 0" using demo_check [OF q m(2)] m(3) by (simp add: mcs_guard_memory_def)
  have "find_slot (\<lambda>_. (0, 0)) ?k (probes ?k) = Some (mem_track_hash ?k)" by (rule find_first) simp
  then have "mm_used ?m1 = 8" using g m by (simp add: rtMallocPhysical_def count_alloc_def mem_track_insert_def on_mem_alloc_def)
  then have v: "mw_live (?w1\<lparr>mw_live := (mw_live ?w1)(?k := None)\<rparr>) = Map.empty" "mm_used (mw_mem (?w1\<lparr>mw_live := (mw_live ?w1)(?k := None)\<rparr>)) = 8"
    using g m(5) by (simp_all add: handed_out_def)
  have "mem_step ?w ?w1" using m(5) by (intro mem_step.physical) simp
  moreover have "mem_step ?w1 (?w1\<lparr>mw_live := (mw_live ?w1)(?k := None)\<rparr>)" by (rule mem_step.driver_free)
  ultimately show ?thesis using v by (meson converse_rtranclp_into_rtranclp rtranclp.rtrancl_refl)
qed

text \<open>C35: when the counter is exact: as long as no two keys of the process (pointers, or tagged physical handles) collide in the hash table
  and everything is freed through a hook, the counter is the size of the memory that the process holds, after any sequence of
  allocations of pointers and of physical handles and frees. Both conditions are needed. A collision can spoil the counter: after two allocations
  and the two frees, nothing is held, but the second one stays charged. And a physical handle, which the hooks charge but whose free they
  do not see, stays charged after it has been freed. (Hooks are not called concurrently.)\<close>

theorem counter_exact_without_collisions:
  assumes "1 \<le> q" "q < 2 ^ 31"
  shows "(inj_on mem_track_hash K \<and> (pointer_step K)\<^sup>*\<^sup>* (mem_start q) w \<longrightarrow> unat (mm_used (mw_mem w)) = live_bytes (mw_live w))
    \<and> (\<exists>v. (pointer_step {16, 0x100010})\<^sup>*\<^sup>* (mem_start q) v \<and> mw_live v = Map.empty \<and> mm_used (mw_mem v) = 8)
    \<and> (\<exists>v. mem_step\<^sup>*\<^sup>* (mem_start q) v \<and> mw_live v = Map.empty \<and> mm_used (mw_mem v) = 8)"
proof (intro conjI)
  have start: "exact_inv K (mem_start q)" by (simp add: exact_inv_def mem_start_def activate_mem_hooks_def live_bytes_def)
  have "exact_inv K w \<and> mem_inv q w" if inj: "inj_on mem_track_hash K" and run: "(pointer_step K)\<^sup>*\<^sup>* (mem_start q) w"
    using run
  proof (induction rule: rtranclp_induct)
    case base
    then show ?case using start mem_start_inv by blast
  next
    case (step w w')
    then show ?case using pointer_step_exact [OF step.hyps(2) _ _ _ _ inj] mem_step_inv [OF pointer_step_mem_step] assms by (metis order_trans zero_le_one)
  qed
  then show "inj_on mem_track_hash K \<and> (pointer_step K)\<^sup>*\<^sup>* (mem_start q) w \<longrightarrow> unat (mm_used (mw_mem w)) = live_bytes (mw_live w)"
    unfolding exact_inv_def by blast
  show "\<exists>v. (pointer_step {16, 0x100010})\<^sup>*\<^sup>* (mem_start q) v \<and> mw_live v = Map.empty \<and> mm_used (mw_mem v) = 8"
    using collision_run [OF assms] by (intro exI [of _ "demo_world q 0 8 Map.empty"]) (simp add: demo_world_def)
  show "\<exists>v. mem_step\<^sup>*\<^sup>* (mem_start q) v \<and> mw_live v = Map.empty \<and> mm_used (mw_mem v) = 8" by (rule physical_run [OF assms])
qed

theorem counter_exact_without_collisions_witness:
  "unat (mm_used (mw_mem (demo_world 4 8 0 [16 \<mapsto> 8]))) = live_bytes [16 \<mapsto> 8]
    \<and> (\<exists>v. (pointer_step {16, 0x100010})\<^sup>*\<^sup>* (mem_start 4) v \<and> mw_live v = Map.empty \<and> mm_used (mw_mem v) = 8)"
proof -
  have "(pointer_step {16})\<^sup>*\<^sup>* (mem_start 4) (demo_world 4 8 0 [16 \<mapsto> 8])" using first_alloc [of 4 "{16}"] by simp
  moreover have "mw_live (demo_world 4 8 0 [16 \<mapsto> 8]) = [16 \<mapsto> 8]" by (simp add: demo_world_def)
  ultimately show ?thesis using counter_exact_without_collisions [of 4 "{16}" "demo_world 4 8 0 [16 \<mapsto> 8]"] by simp
qed

theorem mcs_quota_holds_witness:
  "live_bytes (mw_live (demo_world 4 0 8 Map.empty)) \<le> 8 \<and> unat (mm_used (mw_mem (demo_world 4 0 8 Map.empty))) \<le> 4 * (1024 * 1024)"
proof -
  have "mem_step\<^sup>*\<^sup>* (mem_start 4) (demo_world 4 0 8 Map.empty)"
    using collision_run [of 4] by (rule mono_rtranclp [rule_format, rotated]) (auto intro: pointer_step_mem_step)
  then show ?thesis using mcs_quota_holds [of 4 "demo_world 4 0 8 Map.empty"] by (simp add: demo_world_def)
qed

end
