(* ===== verification/Mcs_Device.thy ===== *)
theory Mcs_Device
  imports Mcs_Sched Mcs_Memory
begin

text \<open>
  Configuration and start of the co-scheduling library (\<^verbatim>\<open>mcs/src/mcs_config.c\<close>, \<^verbatim>\<open>mcs_device.c\<close>, \<^verbatim>\<open>mcs_intercept.c\<close>): the
  configuration file, the numbers of cores that a process is told, and the initialisation that connects
  the quota, the shared structure and the memory hooks. What the functions of the driver answer is a
  parameter, absent when a function cannot be resolved. A product that overflows \<^verbatim>\<open>int32_t\<close> is undefined.
\<close>

section \<open>The configuration file\<close>

abbreviation (input) MCS_SHM_ID_LEN :: nat where "MCS_SHM_ID_LEN \<equiv> 128"
abbreviation (input) MCS_MIN_AICORE_QUOTA :: int where "MCS_MIN_AICORE_QUOTA \<equiv> 1"
abbreviation (input) MCS_MAX_AICORE_QUOTA :: int where "MCS_MAX_AICORE_QUOTA \<equiv> 100"

record mcs_config =
  mc_phy_npu_id :: int
  mc_vnpu_id :: int
  mc_aicore_quota :: int
  mc_memory_quota :: int
  mc_vnpu_priority :: u8
  mc_shm_id :: string

definition zero_config :: mcs_config where
  "zero_config = \<lparr>mc_phy_npu_id = 0, mc_vnpu_id = 0, mc_aicore_quota = 0, mc_memory_quota = 0, mc_vnpu_priority = 0, mc_shm_id = []\<rparr>"

definition trimmed :: "char \<Rightarrow> bool" where
  "trimmed c \<longleftrightarrow> c = CHR 0x0A \<or> c = CHR 0x0D \<or> c = CHR '' ''"

definition mcs_parse_line :: "string \<Rightarrow> nat \<Rightarrow> nat \<Rightarrow> (string \<times> string) option" where
  "mcs_parse_line line key_size value_size =
     (if CHR ''='' \<notin> set line then None
      else let key = takeWhile (\<lambda>c. c \<noteq> CHR ''='') line; val_start = tl (dropWhile (\<lambda>c. c \<noteq> CHR ''='') line);
               val = rev (dropWhile trimmed (rev val_start))
           in if length key \<ge> key_size then None
              else if length val \<ge> value_size then None
              else Some (key, val))"

definition mcs_parse_int32 :: "string \<Rightarrow> int option" where
  "mcs_parse_int32 val =
     (if val = [] then None
      else case strtol val of (result, rest, erange) \<Rightarrow>
        if erange \<or> rest = val \<or> rest \<noteq> [] then None
        else if result < - (2 ^ 31) \<or> result > 2 ^ 31 - 1 then None
        else Some result)"

text \<open>The flags of the required keys.\<close>

record mcs_found =
  fd_phy_npu :: bool
  fd_vnpu :: bool
  fd_aicore :: bool
  fd_memory :: bool
  fd_shm_id :: bool

definition nothing_found :: mcs_found where
  "nothing_found = \<lparr>fd_phy_npu = False, fd_vnpu = False, fd_aicore = False, fd_memory = False, fd_shm_id = False\<rparr>"

text \<open>\<^term>\<open>None\<close>: the value is invalid and the loader gives up.\<close>

definition store_key :: "string \<Rightarrow> string \<Rightarrow> mcs_config \<times> mcs_found \<Rightarrow> (mcs_config \<times> mcs_found) option" where
  "store_key key val cf =
     (case cf of (c, f) \<Rightarrow>
        if key = ''physical-npu-id''
        then (case mcs_parse_int32 val of None \<Rightarrow> None
              | Some v \<Rightarrow> if v < 0 then None else Some (c\<lparr>mc_phy_npu_id := v\<rparr>, f\<lparr>fd_phy_npu := True\<rparr>))
        else if key = ''virtual-npu-id''
        then (case mcs_parse_int32 val of None \<Rightarrow> None
              | Some v \<Rightarrow> if v < 0 \<or> v \<ge> int MCS_MAX_VNPU then None else Some (c\<lparr>mc_vnpu_id := v\<rparr>, f\<lparr>fd_vnpu := True\<rparr>))
        else if key = ''aicore-quota''
        then (case mcs_parse_int32 val of None \<Rightarrow> None
              | Some v \<Rightarrow> if v < MCS_MIN_AICORE_QUOTA \<or> v > MCS_MAX_AICORE_QUOTA then None
                         else Some (c\<lparr>mc_aicore_quota := v\<rparr>, f\<lparr>fd_aicore := True\<rparr>))
        else if key = ''memory-quota''
        then (case mcs_parse_int32 val of None \<Rightarrow> None | Some v \<Rightarrow> Some (c\<lparr>mc_memory_quota := v\<rparr>, f\<lparr>fd_memory := True\<rparr>))
        else if key = ''vnpu_priority'' \<or> key = ''priority''
        then (case mcs_parse_int32 val of None \<Rightarrow> None
              | Some v \<Rightarrow> if v < 0 \<or> v > 1 then None else Some (c\<lparr>mc_vnpu_priority := word_of_int v\<rparr>, f))
        else if key = ''shm-id'' then Some (c\<lparr>mc_shm_id := val\<rparr>, f\<lparr>fd_shm_id := True\<rparr>)
        else Some (c, f))"

text \<open>A line is a C string: it ends at a NUL character.\<close>

definition load_mcs_line :: "string \<Rightarrow> mcs_config \<times> mcs_found \<Rightarrow> (mcs_config \<times> mcs_found) option" where
  "load_mcs_line buf cf =
     (let line = takeWhile (\<lambda>c. c \<noteq> CHR 0x00) buf in
      if line = [] \<or> hd line = CHR 0x0A \<or> hd line = CHR ''#'' then Some cf
      else case mcs_parse_line line 64 MCS_SHM_ID_LEN of None \<Rightarrow> Some cf
      | Some (key, val) \<Rightarrow> store_key key val cf)"

fun load_mcs_lines :: "string list \<Rightarrow> mcs_config \<times> mcs_found \<Rightarrow> (mcs_config \<times> mcs_found) option" where
  "load_mcs_lines [] cf = Some cf"
| "load_mcs_lines (l # ls) cf = (case load_mcs_line l cf of None \<Rightarrow> None | Some cf' \<Rightarrow> load_mcs_lines ls cf')"

definition mcs_load_config :: "string option \<Rightarrow> mcs_config \<Rightarrow> int \<times> mcs_config" where
  "mcs_load_config file c =
     (case file of None \<Rightarrow> (-1, c)
      | Some content \<Rightarrow>
        (case load_mcs_lines (fgets_lines 255 content) (c, nothing_found) of
           None \<Rightarrow> (-1, zero_config)
         | Some (c', f) \<Rightarrow>
           if \<not> fd_phy_npu f \<or> \<not> fd_vnpu f \<or> \<not> fd_aicore f \<or> \<not> fd_memory f \<or> \<not> fd_shm_id f then (-1, zero_config)
           else if mc_aicore_quota c' < MCS_MIN_AICORE_QUOTA \<or> mc_aicore_quota c' > MCS_MAX_AICORE_QUOTA then (-1, zero_config)
           else if mc_vnpu_priority c' > 1 then (-1, zero_config)
           else if mc_phy_npu_id c' < 0 then (-1, zero_config)
           else if mc_memory_quota c' \<le> 0 then (-1, zero_config)
           else (0, c')))"

definition mcs_calc_limited_aicore :: "int \<Rightarrow> int \<Rightarrow> int option" where
  "mcs_calc_limited_aicore physical_count quota_percent =
     (if physical_count \<le> 0 \<or> quota_percent \<le> 0 then Some 0
      else if physical_count * quota_percent > 2 ^ 31 - 1 then None
      else let result = physical_count * quota_percent div 100 in Some (if result < 1 then 1 else result))"

section \<open>The process\<close>

record mcs_proc =
  mp_config :: mcs_config
  mp_initialized :: bool
  mp_vnpu_id :: int
  mp_lazy_limited_aicube :: u32
  mp_device_initialized :: bool
  mp_physical_aicube :: int
  mp_physical_aivector :: int
  mp_limited_aicube :: int
  mp_limited_aivector :: int
  mp_state :: "mcs_state option"
  mp_hooks_active :: bool

definition mcs_device_init :: "int \<Rightarrow> int \<Rightarrow> int \<Rightarrow> mcs_proc \<Rightarrow> mcs_proc option" where
  "mcs_device_init physical_aicube physical_aivector quota_percent s =
     do { lc \<leftarrow> mcs_calc_limited_aicore physical_aicube quota_percent;
          lv \<leftarrow> mcs_calc_limited_aicore physical_aivector quota_percent;
          Some (s\<lparr>mp_physical_aicube := physical_aicube, mp_physical_aivector := physical_aivector,
            mp_limited_aicube := lc, mp_limited_aivector := lv, mp_device_initialized := True\<rparr>) }"

text \<open>What the driver answers: the return code of \<^verbatim>\<open>rtGetAiCoreCount\<close> and the count, and for a module and kind of information the
  return code of \<^verbatim>\<open>rtGetDeviceInfo\<close> and the value it stores, if any.\<close>

record mcs_driver =
  md_core_count :: "(int \<times> u32) option"
  md_device_info :: "(int \<Rightarrow> int \<Rightarrow> int \<times> int option) option"

abbreviation (input) MCS_MODULE_TYPE_AICORE :: int where "MCS_MODULE_TYPE_AICORE \<equiv> 4"
abbreviation (input) MCS_MODULE_TYPE_VECTOR_CORE :: int where "MCS_MODULE_TYPE_VECTOR_CORE \<equiv> 7"
abbreviation (input) MCS_INFO_TYPE_CORE_NUM :: int where "MCS_INFO_TYPE_CORE_NUM \<equiv> 3"
abbreviation (input) MCS_INFO_TYPE_CUBE_NUM :: int where "MCS_INFO_TYPE_CUBE_NUM \<equiv> 0x775A5A5A"

definition query_info :: "mcs_driver \<Rightarrow> int \<Rightarrow> int \<Rightarrow> int" where
  "query_info d module old =
     (case md_device_info d of None \<Rightarrow> old
      | Some info \<Rightarrow> (case snd (info module MCS_INFO_TYPE_CORE_NUM) of None \<Rightarrow> old | Some v \<Rightarrow> v))"

definition to_int32 :: "int \<Rightarrow> int" where
  "to_int32 v = sint (word_of_int v :: 32 word)"

text \<open>The shared structure is given by what \<^verbatim>\<open>mcs_shm_init\<close> answers, see \<^const>\<open>mcs_shm_init\<close>.\<close>

definition mcs_do_init :: "string option \<Rightarrow> mcs_driver \<Rightarrow> int \<times> mcs_state \<Rightarrow> mcs_proc \<Rightarrow> (int \<times> mcs_proc) option" where
  "mcs_do_init file d shm s =
     (if mp_initialized s then Some (0, s)
      else case mcs_load_config file (mp_config s) of (ret, cfg) \<Rightarrow>
        let s1 = s\<lparr>mp_config := cfg\<rparr> in
        if ret \<noteq> 0 then Some (-1, s1)
        else let s2 = s1\<lparr>mp_vnpu_id := mc_vnpu_id cfg\<rparr> in
          if mp_vnpu_id s2 < 0 \<or> mp_vnpu_id s2 \<ge> int MCS_MAX_VNPU then Some (-1, s2)
          else let cube0 = (case md_core_count d of Some (ret, count) \<Rightarrow> (if ret = 0 then uint count else 0) | None \<Rightarrow> 0);
                   cube = (if cube0 \<le> 0 then query_info d MCS_MODULE_TYPE_AICORE cube0 else cube0);
                   vector = query_info d MCS_MODULE_TYPE_VECTOR_CORE 0
               in if cube \<le> 0 then Some (-1, s2)
                  else do {
                    s3 \<leftarrow> mcs_device_init (to_int32 cube) (to_int32 vector) (mc_aicore_quota cfg) s2;
                    if fst shm \<noteq> 0 then Some (-1, s3)
                    else let st = snd shm;
                             st1 = st\<lparr>ms_vnpu_priority := (ms_vnpu_priority st)(nat (mp_vnpu_id s3) := mc_vnpu_priority cfg)\<rparr>
                         in Some (0, s3\<lparr>mp_state := Some st1, mp_initialized := True, mp_hooks_active := True\<rparr>)
                  })"

section \<open>Queries of the number of cores\<close>

definition mcs_rtGetDeviceInfo_hook :: "int \<Rightarrow> int \<Rightarrow> mcs_proc \<Rightarrow> int \<times> int option" where
  "mcs_rtGetDeviceInfo_hook module_type info_type s =
     (if \<not> mp_device_initialized s then (-1, None)
      else if module_type = MCS_MODULE_TYPE_AICORE \<and> (info_type = MCS_INFO_TYPE_CORE_NUM \<or> info_type = MCS_INFO_TYPE_CUBE_NUM)
      then (0, Some (mp_limited_aicube s))
      else if module_type = MCS_MODULE_TYPE_VECTOR_CORE \<and> info_type = MCS_INFO_TYPE_CORE_NUM then (0, Some (mp_limited_aivector s))
      else (-1, None))"

definition rtGetDeviceInfo :: "mcs_driver \<Rightarrow> int \<Rightarrow> int \<Rightarrow> mcs_proc \<Rightarrow> int \<times> int option" where
  "rtGetDeviceInfo d module_type info_type s =
     (if mp_initialized s \<and> fst (mcs_rtGetDeviceInfo_hook module_type info_type s) = 0
      then (0, snd (mcs_rtGetDeviceInfo_hook module_type info_type s))
      else case md_device_info d of None \<Rightarrow> (-1, None) | Some info \<Rightarrow> info module_type info_type)"

definition mcs_lazy_limited_aicube :: "string option \<Rightarrow> mcs_driver \<Rightarrow> mcs_proc \<Rightarrow> (u32 \<times> mcs_proc) option" where
  "mcs_lazy_limited_aicube file d s =
     (if mp_lazy_limited_aicube s > 0 then Some (mp_lazy_limited_aicube s, s)
      else case md_core_count d of None \<Rightarrow> Some (0, s)
      | Some (ret, physical) \<Rightarrow>
        (case (if mc_aicore_quota (mp_config s) \<le> 0 then mcs_load_config file (mp_config s) else (0, mp_config s)) of (load, cfg) \<Rightarrow>
           let s1 = s\<lparr>mp_config := cfg\<rparr> in
           if load \<noteq> 0 then Some (0, s1)
           else if ret \<noteq> 0 \<or> physical = 0 then Some (0, s1)
           else do { l \<leftarrow> mcs_calc_limited_aicore (to_int32 (uint physical)) (mc_aicore_quota cfg);
                     Some (word_of_int l, s1\<lparr>mp_lazy_limited_aicube := word_of_int l\<rparr>) }))"

text \<open>The result is the return code and the count that is stored.\<close>

definition rtGetAiCoreCount :: "string option \<Rightarrow> mcs_driver \<Rightarrow> mcs_proc \<Rightarrow> ((int \<times> u32 option) \<times> mcs_proc) option" where
  "rtGetAiCoreCount file d s =
     (if mp_initialized s then Some ((0, Some (word_of_int (mp_limited_aicube s))), s)
      else do {
        (limited, s1) \<leftarrow> mcs_lazy_limited_aicube file d s;
        if limited > 0 then Some ((0, Some limited), s1)
        else case md_core_count d of None \<Rightarrow> Some ((-1, None), s1)
        | Some (ret, passthrough) \<Rightarrow> Some ((ret, if ret = 0 then Some passthrough else None), s1)
      })"

definition rtsGetResInCurrentThread :: "(int \<Rightarrow> int \<times> u32 option) option \<Rightarrow> int \<Rightarrow> mcs_proc \<Rightarrow> int \<times> u32 option" where
  "rtsGetResInCurrentThread real type s =
     (if mp_initialized s \<and> type \<ge> 0 \<and> type < 2
      then (0, Some (word_of_int (if type = 0 then mp_limited_aicube s else mp_limited_aivector s)))
      else case real of None \<Rightarrow> (-1, None) | Some f \<Rightarrow> f type)"


section \<open>A loaded configuration is valid\<close>

lemma parse_int32_range: "mcs_parse_int32 val = Some v \<Longrightarrow> - (2 ^ 31) \<le> v \<and> v < 2 ^ 31"
  by (auto simp: mcs_parse_int32_def split: if_splits prod.splits)

lemma parse_line_len: "mcs_parse_line line ks vs = Some (key, val) \<Longrightarrow> length val < vs"
  by (auto simp: mcs_parse_line_def Let_def split: if_splits)

text \<open>What holds of the values stored so far.\<close>

definition stored_ok :: "mcs_config \<Rightarrow> mcs_found \<Rightarrow> bool" where
  "stored_ok c f \<longleftrightarrow> (fd_phy_npu f \<longrightarrow> 0 \<le> mc_phy_npu_id c \<and> mc_phy_npu_id c < 2 ^ 31)
     \<and> (fd_vnpu f \<longrightarrow> 0 \<le> mc_vnpu_id c \<and> mc_vnpu_id c < int MCS_MAX_VNPU)
     \<and> (fd_aicore f \<longrightarrow> MCS_MIN_AICORE_QUOTA \<le> mc_aicore_quota c \<and> mc_aicore_quota c \<le> MCS_MAX_AICORE_QUOTA)
     \<and> (fd_memory f \<longrightarrow> mc_memory_quota c < 2 ^ 31) \<and> (fd_shm_id f \<longrightarrow> length (mc_shm_id c) < MCS_SHM_ID_LEN) \<and> mc_vnpu_priority c \<le> 1"

definition agree :: "mcs_found \<Rightarrow> mcs_config \<Rightarrow> mcs_config \<Rightarrow> bool" where
  "agree f c d \<longleftrightarrow> (fd_phy_npu f \<longrightarrow> mc_phy_npu_id c = mc_phy_npu_id d) \<and> (fd_vnpu f \<longrightarrow> mc_vnpu_id c = mc_vnpu_id d)
     \<and> (fd_aicore f \<longrightarrow> mc_aicore_quota c = mc_aicore_quota d) \<and> (fd_memory f \<longrightarrow> mc_memory_quota c = mc_memory_quota d)
     \<and> (fd_shm_id f \<longrightarrow> mc_shm_id c = mc_shm_id d)"

text \<open>The seven cases of a key.\<close>

lemma store_key_cases:
  obtains (phy) "\<And>c f. store_key key val (c, f) = (case mcs_parse_int32 val of None \<Rightarrow> None | Some v \<Rightarrow> if v < 0 then None else Some (c\<lparr>mc_phy_npu_id := v\<rparr>, f\<lparr>fd_phy_npu := True\<rparr>))"
    | (vnpu) "\<And>c f. store_key key val (c, f) = (case mcs_parse_int32 val of None \<Rightarrow> None | Some v \<Rightarrow> if v < 0 \<or> v \<ge> int MCS_MAX_VNPU then None else Some (c\<lparr>mc_vnpu_id := v\<rparr>, f\<lparr>fd_vnpu := True\<rparr>))"
    | (aicore) "\<And>c f. store_key key val (c, f) = (case mcs_parse_int32 val of None \<Rightarrow> None | Some v \<Rightarrow> if v < MCS_MIN_AICORE_QUOTA \<or> v > MCS_MAX_AICORE_QUOTA then None
      else Some (c\<lparr>mc_aicore_quota := v\<rparr>, f\<lparr>fd_aicore := True\<rparr>))"
    | (memory) "\<And>c f. store_key key val (c, f) = (case mcs_parse_int32 val of None \<Rightarrow> None | Some v \<Rightarrow> Some (c\<lparr>mc_memory_quota := v\<rparr>, f\<lparr>fd_memory := True\<rparr>))"
    | (priority) "\<And>c f. store_key key val (c, f) = (case mcs_parse_int32 val of None \<Rightarrow> None | Some v \<Rightarrow> if v < 0 \<or> v > 1 then None else Some (c\<lparr>mc_vnpu_priority := word_of_int v\<rparr>, f))"
    | (shm) "\<And>c f. store_key key val (c, f) = Some (c\<lparr>mc_shm_id := val\<rparr>, f\<lparr>fd_shm_id := True\<rparr>)"
    | (other) "\<And>c f. store_key key val (c, f) = Some (c, f)"
proof -
  consider "key = ''physical-npu-id''" | "key \<noteq> ''physical-npu-id''" "key = ''virtual-npu-id''"
    | "key \<noteq> ''physical-npu-id''" "key \<noteq> ''virtual-npu-id''" "key = ''aicore-quota''"
    | "key \<noteq> ''physical-npu-id''" "key \<noteq> ''virtual-npu-id''" "key \<noteq> ''aicore-quota''" "key = ''memory-quota''"
    | "key \<noteq> ''physical-npu-id''" "key \<noteq> ''virtual-npu-id''" "key \<noteq> ''aicore-quota''" "key \<noteq> ''memory-quota''" "key = ''vnpu_priority'' \<or> key = ''priority''"
    | "key \<noteq> ''physical-npu-id''" "key \<noteq> ''virtual-npu-id''" "key \<noteq> ''aicore-quota''" "key \<noteq> ''memory-quota''" "\<not> (key = ''vnpu_priority'' \<or> key = ''priority'')" "key = ''shm-id''"
    | "key \<noteq> ''physical-npu-id''" "key \<noteq> ''virtual-npu-id''" "key \<noteq> ''aicore-quota''" "key \<noteq> ''memory-quota''" "\<not> (key = ''vnpu_priority'' \<or> key = ''priority'')" "key \<noteq> ''shm-id''"
    by blast
  then show thesis
  proof cases
    case 1
    show thesis by (rule phy, unfold store_key_def prod.case) (subst if_P [OF 1], rule refl)
  next
    case 2
    show thesis by (rule vnpu, unfold store_key_def prod.case) (subst if_not_P [OF 2(1)], subst if_P [OF 2(2)], rule refl)
  next
    case 3
    show thesis by (rule aicore, unfold store_key_def prod.case) (subst if_not_P [OF 3(1)], subst if_not_P [OF 3(2)], subst if_P [OF 3(3)], rule refl)
  next
    case 4
    show thesis by (rule memory, unfold store_key_def prod.case) (subst if_not_P [OF 4(1)], subst if_not_P [OF 4(2)], subst if_not_P [OF 4(3)], subst if_P [OF 4(4)], rule refl)
  next
    case 5
    show thesis by (rule priority, unfold store_key_def prod.case) (subst if_not_P [OF 5(1)], subst if_not_P [OF 5(2)], subst if_not_P [OF 5(3)], subst if_not_P [OF 5(4)], subst if_P [OF 5(5)], rule refl)
  next
    case 6
    show thesis by (rule shm, unfold store_key_def prod.case) (subst if_not_P [OF 6(1)], subst if_not_P [OF 6(2)], subst if_not_P [OF 6(3)], subst if_not_P [OF 6(4)], subst if_not_P [OF 6(5)], subst if_P [OF 6(6)], rule refl)
  next
    case 7
    show thesis by (rule other, unfold store_key_def prod.case) (subst if_not_P [OF 7(1)], subst if_not_P [OF 7(2)], subst if_not_P [OF 7(3)], subst if_not_P [OF 7(4)], subst if_not_P [OF 7(5)], subst if_not_P [OF 7(6)], rule refl)
  qed
qed

lemma store_key_ok:
  assumes "store_key key val (c, f) = Some (c', f')" "stored_ok c f" "length val < MCS_SHM_ID_LEN"
  shows "stored_ok c' f'"
proof -
  have p: "(word_of_int v :: u8) \<le> 1" if "0 \<le> v" "v \<le> 1" for v :: int
  proof -
    have "v = 0 \<or> v = 1" using that by auto
    then show ?thesis by auto
  qed
  show ?thesis
  proof (cases key val rule: store_key_cases)
    case phy
    note e = assms(1) [unfolded phy]
    obtain v where v: "mcs_parse_int32 val = Some v" using e by (cases "mcs_parse_int32 val") simp_all
    show ?thesis using e assms(2) parse_int32_range [OF v] unfolding v option.case by (clarsimp simp: stored_ok_def split: if_splits)
  next
    case vnpu
    note e = assms(1) [unfolded vnpu]
    obtain v where v: "mcs_parse_int32 val = Some v" using e by (cases "mcs_parse_int32 val") simp_all
    show ?thesis using e assms(2) parse_int32_range [OF v] unfolding v option.case by (clarsimp simp: stored_ok_def split: if_splits)
  next
    case aicore
    note e = assms(1) [unfolded aicore]
    obtain v where v: "mcs_parse_int32 val = Some v" using e by (cases "mcs_parse_int32 val") simp_all
    show ?thesis using e assms(2) parse_int32_range [OF v] unfolding v option.case by (clarsimp simp: stored_ok_def split: if_splits)
  next
    case memory
    note e = assms(1) [unfolded memory]
    obtain v where v: "mcs_parse_int32 val = Some v" using e by (cases "mcs_parse_int32 val") simp_all
    show ?thesis using e assms(2) parse_int32_range [OF v] unfolding v option.case by (clarsimp simp: stored_ok_def split: if_splits)
  next
    case priority
    note e = assms(1) [unfolded priority]
    obtain v where v: "mcs_parse_int32 val = Some v" using e by (cases "mcs_parse_int32 val") simp_all
    show ?thesis using e assms(2) parse_int32_range [OF v] unfolding v option.case by (clarsimp simp: stored_ok_def p not_less split: if_splits)
  next
    case shm
    show ?thesis using assms(1) [unfolded shm] assms(2,3) by (auto simp: stored_ok_def)
  next
    case other
    show ?thesis using assms(1) [unfolded other] assms(2) by simp
  qed
qed

lemma store_key_agree:
  assumes "store_key key val (c, f) = Some (c', f')" "agree f c d"
  shows "\<exists>d'. store_key key val (d, f) = Some (d', f') \<and> agree f' c' d'"
proof (cases key val rule: store_key_cases)
  case phy
  note e = assms(1) [unfolded phy]
  obtain v where v: "mcs_parse_int32 val = Some v" using e by (cases "mcs_parse_int32 val") simp_all
  show ?thesis using e assms(2) unfolding phy v option.case by (clarsimp simp: agree_def split: if_splits)
next
  case vnpu
  note e = assms(1) [unfolded vnpu]
  obtain v where v: "mcs_parse_int32 val = Some v" using e by (cases "mcs_parse_int32 val") simp_all
  show ?thesis using e assms(2) unfolding vnpu v option.case by (clarsimp simp: agree_def split: if_splits)
next
  case aicore
  note e = assms(1) [unfolded aicore]
  obtain v where v: "mcs_parse_int32 val = Some v" using e by (cases "mcs_parse_int32 val") simp_all
  show ?thesis using e assms(2) unfolding aicore v option.case by (clarsimp simp: agree_def split: if_splits)
next
  case memory
  note e = assms(1) [unfolded memory]
  obtain v where v: "mcs_parse_int32 val = Some v" using e by (cases "mcs_parse_int32 val") simp_all
  show ?thesis using e assms(2) unfolding memory v option.case by (clarsimp simp: agree_def split: if_splits)
next
  case priority
  note e = assms(1) [unfolded priority]
  obtain v where v: "mcs_parse_int32 val = Some v" using e by (cases "mcs_parse_int32 val") simp_all
  show ?thesis using e assms(2) unfolding priority v option.case by (clarsimp simp: agree_def split: if_splits)
next
  case shm
  show ?thesis using assms(1) [unfolded shm] assms(2) unfolding shm by (auto simp: agree_def)
next
  case other
  show ?thesis using assms(1) [unfolded other] assms(2) unfolding other by simp
qed

lemma load_line_ok:
  assumes "load_mcs_line l (c, f) = Some (c', f')" "stored_ok c f"
  shows "stored_ok c' f'"
  using assms by (auto simp: load_mcs_line_def Let_def split: if_splits option.splits dest: parse_line_len intro: store_key_ok)

lemma load_line_agree:
  assumes "load_mcs_line l (c, f) = Some (c', f')" "agree f c d"
  shows "\<exists>d'. load_mcs_line l (d, f) = Some (d', f') \<and> agree f' c' d'"
  using assms by (auto simp: load_mcs_line_def Let_def split: if_splits option.splits dest: store_key_agree)

lemma load_lines_ok: "load_mcs_lines ls (c, f) = Some (c', f') \<Longrightarrow> stored_ok c f \<Longrightarrow> stored_ok c' f'"
proof (induction ls arbitrary: c f)
  case (Cons l ls)
  then obtain c1 f1 where "load_mcs_line l (c, f) = Some (c1, f1)" "load_mcs_lines ls (c1, f1) = Some (c', f')" by (auto split: option.splits)
  then show ?case using Cons.IH load_line_ok Cons.prems(2) by blast
qed simp

lemma load_lines_agree:
  "load_mcs_lines ls (c, f) = Some (c', f') \<Longrightarrow> agree f c d \<Longrightarrow> \<exists>d'. load_mcs_lines ls (d, f) = Some (d', f') \<and> agree f' c' d'"
proof (induction ls arbitrary: c f d)
  case (Cons l ls)
  then obtain c1 f1 where l: "load_mcs_line l (c, f) = Some (c1, f1)" "load_mcs_lines ls (c1, f1) = Some (c', f')" by (auto split: option.splits)
  obtain d1 where "load_mcs_line l (d, f) = Some (d1, f1)" "agree f1 c1 d1" using load_line_agree [OF l(1) Cons.prems(2)] by blast
  then show ?case using Cons.IH [OF l(2)] by auto
qed simp

lemma load_config_cases:
  assumes "mcs_load_config (Some content) c = (0, c')"
  obtains f where "load_mcs_lines (fgets_lines 255 content) (c, nothing_found) = Some (c', f)"
    "fd_phy_npu f" "fd_vnpu f" "fd_aicore f" "fd_memory f" "fd_shm_id f" "0 < mc_memory_quota c'" "mc_vnpu_priority c' \<le> 1"
  using assms by (auto simp: mcs_load_config_def not_le not_less split: option.splits if_splits)

text \<open>A configuration that is loaded is valid: the vNPU indexes the shared arrays, the quotas are in their ranges, the name of
  the shared memory fits, and the priority is one of the two. The result does not depend on what was loaded before, the
  priority of a file without one excepted. A file that cannot be opened changes nothing, any other failure clears
  the configuration.\<close>

lemma loaded_config_valid:
  assumes "mc_vnpu_priority c \<le> 1"
  shows "(mcs_load_config (Some content) c = (0, c') \<longrightarrow>
      0 \<le> mc_phy_npu_id c' \<and> 0 \<le> mc_vnpu_id c' \<and> mc_vnpu_id c' < int MCS_MAX_VNPU
      \<and> 1 \<le> mc_aicore_quota c' \<and> mc_aicore_quota c' \<le> 100 \<and> 0 < mc_memory_quota c' \<and> mc_memory_quota c' < 2 ^ 31
      \<and> length (mc_shm_id c') < MCS_SHM_ID_LEN \<and> mc_vnpu_priority c' \<le> 1
      \<and> (mc_vnpu_priority d \<le> 1 \<longrightarrow> (\<exists>p. mcs_load_config (Some content) d = (0, c'\<lparr>mc_vnpu_priority := p\<rparr>))))
    \<and> (fst (mcs_load_config file c) \<noteq> 0 \<longrightarrow> mcs_load_config file c = (-1, if file = None then c else zero_config))"
proof (intro conjI impI)
  assume load: "mcs_load_config (Some content) c = (0, c')"
  obtain f where f: "load_mcs_lines (fgets_lines 255 content) (c, nothing_found) = Some (c', f)"
    "fd_phy_npu f" "fd_vnpu f" "fd_aicore f" "fd_memory f" "fd_shm_id f" "0 < mc_memory_quota c'" "mc_vnpu_priority c' \<le> 1"
    by (rule load_config_cases [OF load])
  have "stored_ok c nothing_found" using assms by (simp add: stored_ok_def nothing_found_def)
  then have s: "stored_ok c' f" by (rule load_lines_ok [OF f(1)])
  then show "0 \<le> mc_phy_npu_id c'" "0 \<le> mc_vnpu_id c'" "mc_vnpu_id c' < int MCS_MAX_VNPU" "1 \<le> mc_aicore_quota c'" "mc_aicore_quota c' \<le> 100"
    "0 < mc_memory_quota c'" "mc_memory_quota c' < 2 ^ 31" "length (mc_shm_id c') < MCS_SHM_ID_LEN" "mc_vnpu_priority c' \<le> 1"
    using f by (simp_all add: stored_ok_def)
  assume d: "mc_vnpu_priority d \<le> 1"
  have "agree nothing_found c d" by (simp add: agree_def nothing_found_def)
  then obtain d' where d': "load_mcs_lines (fgets_lines 255 content) (d, nothing_found) = Some (d', f)" "agree f c' d'"
    using load_lines_agree [OF f(1)] by blast
  have "stored_ok d nothing_found" using d by (simp add: stored_ok_def nothing_found_def)
  then have sd: "stored_ok d' f" by (rule load_lines_ok [OF d'(1)])
  have e: "d' = c'\<lparr>mc_vnpu_priority := mc_vnpu_priority d'\<rparr>" using d'(2) f(2-6) by (simp add: agree_def)
  have "mcs_load_config (Some content) d = (0, d')"
    using d'(1) f(2-7) sd d'(2) by (simp add: mcs_load_config_def stored_ok_def agree_def not_less not_le)
  then show "\<exists>p. mcs_load_config (Some content) d = (0, c'\<lparr>mc_vnpu_priority := p\<rparr>)" using e by metis
next
  assume "fst (mcs_load_config file c) \<noteq> 0"
  then show "mcs_load_config file c = (-1, if file = None then c else zero_config)"
    by (auto simp: mcs_load_config_def split: option.splits if_splits)
qed

definition demo_mcs_file :: string where
  "demo_mcs_file = concat [config_line ''physical-npu-id'' ''0'', config_line ''virtual-npu-id'' ''3'', config_line ''aicore-quota'' ''50'',
     config_line ''memory-quota'' ''1024'', config_line ''vnpu_priority'' ''1'', config_line ''shm-id'' ''/m'']"

definition demo_mcs_config :: mcs_config where
  "demo_mcs_config = \<lparr>mc_phy_npu_id = 0, mc_vnpu_id = 3, mc_aicore_quota = 50, mc_memory_quota = 1024, mc_vnpu_priority = 1, mc_shm_id = ''/m''\<rparr>"

lemma demo_mcs_load: "mcs_load_config (Some demo_mcs_file) zero_config = (0, demo_mcs_config)"
  by code_simp

lemma loaded_config_valid_witness:
  "\<exists>p. mcs_load_config (Some demo_mcs_file) demo_mcs_config = (0, demo_mcs_config\<lparr>mc_vnpu_priority := p\<rparr>)"
  using loaded_config_valid [of zero_config demo_mcs_file demo_mcs_config demo_mcs_config] demo_mcs_load
  by (simp add: demo_mcs_config_def zero_config_def)

section \<open>The number of cores a process is told\<close>

text \<open>A process with a configuration file and a driver: attempts to initialise it, with any outcome for the shared memory, and
  queries.\<close>

inductive core_step :: "string \<Rightarrow> mcs_driver \<Rightarrow> mcs_proc \<Rightarrow> mcs_proc \<Rightarrow> bool" for content d where
  init: "core_step content d s s'" if "mcs_do_init (Some content) d shm s = Some (rc, s')"
| query: "core_step content d s s'" if "rtGetAiCoreCount (Some content) d s = Some (r, s')"

definition proc_start :: mcs_proc where
  "proc_start = \<lparr>mp_config = zero_config, mp_initialized = False, mp_vnpu_id = 0, mp_lazy_limited_aicube = 0, mp_device_initialized = False,
     mp_physical_aicube = 0, mp_physical_aivector = 0, mp_limited_aicube = 0, mp_limited_aivector = 0, mp_state = None, mp_hooks_active = False\<rparr>"

definition core_limit :: "int \<Rightarrow> int \<Rightarrow> int" where
  "core_limit physical quota = max 1 (physical * quota div 100)"

lemma calc_limit:
  assumes "0 < p" "p * 100 < 2 ^ 31" "1 \<le> q" "q \<le> 100"
  shows "mcs_calc_limited_aicore p q = Some (core_limit p q)" "1 \<le> core_limit p q" "core_limit p q \<le> p"
proof -
  have "p * q \<le> p * 100" using assms by (intro mult_left_mono) simp_all
  then have "\<not> p * q > 2 ^ 31 - 1" and "p * q div 100 \<le> p" using assms(2) zdiv_mono1 [of "p * q" "p * 100" 100] by simp_all
  then show "mcs_calc_limited_aicore p q = Some (core_limit p q)" "1 \<le> core_limit p q" "core_limit p q \<le> p"
    using assms by (auto simp: mcs_calc_limited_aicore_def core_limit_def max_def Let_def)
qed

definition core_inv :: "int \<Rightarrow> int \<Rightarrow> mcs_proc \<Rightarrow> bool" where
  "core_inv p q s \<longleftrightarrow> mc_vnpu_priority (mp_config s) \<le> 1 \<and> (mc_aicore_quota (mp_config s) > 0 \<longrightarrow> mc_aicore_quota (mp_config s) = q)
     \<and> (mp_lazy_limited_aicube s = 0 \<or> mp_lazy_limited_aicube s = word_of_int (core_limit p q))
     \<and> (mp_initialized s \<longrightarrow> mp_limited_aicube s = core_limit p q \<and> mp_device_initialized s)"

lemma load_any:
  assumes "mcs_load_config (Some content) zero_config = (0, c)" and "mc_vnpu_priority k \<le> 1"
  obtains k' where "mcs_load_config (Some content) k = (0, k')" "mc_aicore_quota k' = mc_aicore_quota c" "mc_vnpu_priority k' \<le> 1"
proof -
  have z: "mc_vnpu_priority zero_config \<le> 1" by (simp add: zero_config_def)
  obtain f where f: "load_mcs_lines (fgets_lines 255 content) (zero_config, nothing_found) = Some (c, f)"
    "fd_phy_npu f" "fd_vnpu f" "fd_aicore f" "fd_memory f" "fd_shm_id f" "0 < mc_memory_quota c" "mc_vnpu_priority c \<le> 1"
    by (rule load_config_cases [OF assms(1)])
  have "agree nothing_found zero_config k" by (simp add: agree_def nothing_found_def)
  then obtain k' where k': "load_mcs_lines (fgets_lines 255 content) (k, nothing_found) = Some (k', f)" "agree f c k'"
    using load_lines_agree [OF f(1)] by blast
  have "stored_ok k nothing_found" using assms(2) by (simp add: stored_ok_def nothing_found_def)
  then have "stored_ok k' f" by (rule load_lines_ok [OF k'(1)])
  then show thesis using that [of k'] k' f(2-7) by (simp add: mcs_load_config_def stored_ok_def agree_def not_less not_le)
qed

lemma to_int32_small: "0 \<le> v \<Longrightarrow> v < 2 ^ 31 \<Longrightarrow> to_int32 v = v"
  by (simp add: to_int32_def signed_of_int signed_take_bit_int_eq_self)

lemma do_init_inv:
  assumes load: "mcs_load_config (Some content) zero_config = (0, c)" and q: "q = mc_aicore_quota c" "1 \<le> q" "q \<le> 100"
    and d: "md_core_count d = Some (0, count)" "uint count = p" "0 < p" "p * 100 < 2 ^ 31"
    and inv: "core_inv p q s" and init: "mcs_do_init (Some content) d shm s = Some (rc, s')"
  shows "core_inv p q s'"
proof (cases "mp_initialized s")
  case True
  then show ?thesis using inv init by (simp add: mcs_do_init_def)
next
  case False
  obtain k where k: "mcs_load_config (Some content) (mp_config s) = (0, k)" "mc_aicore_quota k = q" "mc_vnpu_priority k \<le> 1"
    using load_any [OF load] inv q(1) by (auto simp: core_inv_def)
  let ?s2 = "s\<lparr>mp_config := k, mp_vnpu_id := mc_vnpu_id k\<rparr>"
  have i2: "core_inv p q ?s2" using inv k False by (simp add: core_inv_def)
  have cube: "(case md_core_count d of Some (ret, count) \<Rightarrow> (if ret = 0 then uint count else 0) | None \<Rightarrow> 0) = p" by (simp add: d)
  show ?thesis
  proof (cases "mc_vnpu_id k < 0 \<or> mc_vnpu_id k \<ge> int MCS_MAX_VNPU")
    case True
    then have "s' = ?s2" using init False k(1) by (auto simp: mcs_do_init_def)
    then show ?thesis using i2 by simp
  next
    case r: False
    let ?v = "query_info d MCS_MODULE_TYPE_VECTOR_CORE 0"
    have p: "to_int32 p = p" using d(3,4) by (intro to_int32_small) simp_all
    have dev: "mcs_device_init (to_int32 p) (to_int32 ?v) q ?s2 = (case mcs_calc_limited_aicore (to_int32 ?v) q of None \<Rightarrow> None
        | Some lv \<Rightarrow> Some (?s2\<lparr>mp_physical_aicube := p, mp_physical_aivector := to_int32 ?v, mp_limited_aicube := core_limit p q,
            mp_limited_aivector := lv, mp_device_initialized := True\<rparr>))"
      using calc_limit(1) [OF d(3,4) q(2,3)] unfolding mcs_device_init_def p by (simp split: option.split)
    have e: "mcs_do_init (Some content) d shm s = do {
        s3 \<leftarrow> mcs_device_init (to_int32 p) (to_int32 ?v) q ?s2;
        if fst shm \<noteq> 0 then Some (-1, s3)
        else let st = snd shm; st1 = st\<lparr>ms_vnpu_priority := (ms_vnpu_priority st)(nat (mp_vnpu_id s3) := mc_vnpu_priority k)\<rparr>
             in Some (0, s3\<lparr>mp_state := Some st1, mp_initialized := True, mp_hooks_active := True\<rparr>) }"
      using False k r d(3) unfolding mcs_do_init_def cube by (simp add: Let_def k(2))
    obtain lv where "mcs_calc_limited_aicore (to_int32 ?v) q = Some lv" using init unfolding e dev by (cases "mcs_calc_limited_aicore (to_int32 ?v) q") simp_all
    then show ?thesis using init i2 unfolding e dev by (auto simp: core_inv_def Let_def split: if_splits)
  qed
qed

lemma query_spec:
  assumes load: "mcs_load_config (Some content) zero_config = (0, c)" and q: "q = mc_aicore_quota c" "1 \<le> q" "q \<le> 100"
    and d: "md_core_count d = Some (0, count)" "uint count = p" "0 < p" "p * 100 < 2 ^ 31"
    and inv: "core_inv p q s"
  shows "\<exists>s'. rtGetAiCoreCount (Some content) d s = Some ((0, Some (word_of_int (core_limit p q))), s') \<and> core_inv p q s'"
proof -
  have "0 < core_limit p q" "core_limit p q < 2 ^ 31" using calc_limit(2,3) [OF d(3,4) q(2,3)] d(4) by simp_all
  then have pos: "(word_of_int (core_limit p q) :: u32) > 0"
    by (simp add: word_less_def uint_word_of_int_eq take_bit_int_eq_self)
  have p: "to_int32 p = p" using d(3,4) by (intro to_int32_small) simp_all
  have c0: "count \<noteq> 0" using d(2,3) by auto
  consider (init) "mp_initialized s" | (cached) "\<not> mp_initialized s" "mp_lazy_limited_aicube s > 0" | (fresh) "\<not> mp_initialized s" "mp_lazy_limited_aicube s = 0"
    by (auto simp: word_gt_0)
  then show ?thesis
  proof cases
    case init
    then show ?thesis using inv by (simp add: rtGetAiCoreCount_def core_inv_def)
  next
    case cached
    then have "mp_lazy_limited_aicube s = word_of_int (core_limit p q)" using inv by (auto simp: core_inv_def)
    then show ?thesis using cached inv by (simp add: rtGetAiCoreCount_def mcs_lazy_limited_aicube_def)
  next
    case fresh
    obtain k where k: "(if mc_aicore_quota (mp_config s) \<le> 0 then mcs_load_config (Some content) (mp_config s) else (0, mp_config s)) = (0, k)"
      "mc_aicore_quota k = q" "mc_vnpu_priority k \<le> 1"
    proof (cases "mc_aicore_quota (mp_config s) \<le> 0")
      case True
      then show thesis using that load_any [OF load, of "mp_config s"] inv q(1) by (auto simp: core_inv_def)
    next
      case False
      then show thesis using that [of "mp_config s"] inv by (simp add: core_inv_def)
    qed
    have "mcs_lazy_limited_aicube (Some content) d s = Some (word_of_int (core_limit p q),
        s\<lparr>mp_config := k, mp_lazy_limited_aicube := word_of_int (core_limit p q)\<rparr>)"
      using fresh k c0 d(1,2) p calc_limit(1) [OF d(3,4) q(2,3)] by (simp add: mcs_lazy_limited_aicube_def Let_def)
    then show ?thesis using fresh pos k inv by (simp add: rtGetAiCoreCount_def core_inv_def)
  qed
qed

text \<open>C36: a process is told one number of cores. With a valid configuration file and a driver that reports its cores, every call
  of \<^verbatim>\<open>rtGetAiCoreCount\<close> answers the share of the physical cores that the quota gives, rounded down but at least one and at most all
  of them: before and after the initialisation, and after failed attempts. Once initialised, the other two queries of the cube cores agree.\<close>

theorem core_count_consistent:
  assumes load: "mcs_load_config (Some content) zero_config = (0, c)" and d: "md_core_count d = Some (0, count)" "0 < uint count" "uint count * 100 < 2 ^ 31"
    and run: "(core_step content d)\<^sup>*\<^sup>* proc_start s" and limit: "l = max 1 (uint count * mc_aicore_quota c div 100)"
  shows "l \<le> uint count \<and> (\<exists>s'. rtGetAiCoreCount (Some content) d s = Some ((0, Some (word_of_int l)), s'))
    \<and> (mp_initialized s \<longrightarrow> rtGetDeviceInfo d MCS_MODULE_TYPE_AICORE MCS_INFO_TYPE_CORE_NUM s = (0, Some l)
        \<and> rtsGetResInCurrentThread real 0 s = (0, Some (word_of_int l)))"
proof -
  let ?q = "mc_aicore_quota c" and ?p = "uint count"
  have l: "l = core_limit ?p ?q" by (simp add: core_limit_def limit)
  obtain f where f: "load_mcs_lines (fgets_lines 255 content) (zero_config, nothing_found) = Some (c, f)" "fd_aicore f"
    by (rule load_config_cases [OF load])
  have "stored_ok zero_config nothing_found" by (simp add: stored_ok_def nothing_found_def zero_config_def)
  then have "stored_ok c f" by (rule load_lines_ok [OF f(1)])
  then have q: "1 \<le> ?q" "?q \<le> 100" using f(2) by (simp_all add: stored_ok_def)
  have "core_inv ?p ?q s" using run
  proof (induction rule: rtranclp_induct)
    case base
    then show ?case by (simp add: core_inv_def proc_start_def zero_config_def)
  next
    case (step s s')
    from step.hyps(2) show ?case
    proof cases
      case (init shm rc)
      then show ?thesis by (rule do_init_inv [OF load refl q d(1) refl d(2,3) step.IH])
    next
      case (query r)
      then show ?thesis using query_spec [OF load refl q d(1) refl d(2,3) step.IH] by auto
    qed
  qed
  moreover from this have "mp_initialized s \<Longrightarrow> mp_limited_aicube s = l \<and> mp_device_initialized s" by (simp add: core_inv_def l)
  ultimately show ?thesis using query_spec [OF load refl q d(1) refl d(2,3)] calc_limit(3) [OF d(2,3) q]
    unfolding l by (auto simp: rtGetDeviceInfo_def mcs_rtGetDeviceInfo_hook_def rtsGetResInCurrentThread_def)
qed

theorem core_count_consistent_witness:
  "\<exists>s'. rtGetAiCoreCount (Some demo_mcs_file) \<lparr>md_core_count = Some (0, 25), md_device_info = None\<rparr> proc_start = Some ((0, Some 12), s')"
  using core_count_consistent [OF demo_mcs_load, of "\<lparr>md_core_count = Some (0, 25), md_device_info = None\<rparr>" 25 proc_start 12]
  by (simp add: demo_mcs_config_def)

end
