(* ===== verification/Spec2Isabelle.thy ===== *)
theory Spec2Isabelle
  imports Pod_Watchdog Memory_Tracker Allocator_Properties Scheduler_Runs Capture_Stats Sampling Swap_Executor Mcs_Device
begin

text \<open>
  \<^bold>\<open>Verification of the NPU virtualisation of ubs-virt\<close>

  The program (\<^verbatim>\<open>src/ubs-virt-enpu\<close>) splits the NPU dies of a host into virtual NPUs (vNPUs). The manager
  (\<^verbatim>\<open>enpu-manager/core\<close>) decides on which die a container gets a vNPU, keeps the quotas of the dies,
  publishes the vNPUs in shared memory, and moves device memory of idle vNPUs to a swap buffer. The
  runtime (\<^verbatim>\<open>vcann-rt\<close>) is loaded into every container process; it enforces the core quota by time
  slices, tracks the device memory of the process and carries out the swap commands of the manager.
  Manager and runtime meet in two shared-memory structures per die, \<^verbatim>\<open>shm_state_t\<close> and
  \<^verbatim>\<open>vnpu_time_slice_sched_t\<close>, and in the configuration file of a vNPU.

  \<^bold>\<open>Conventions.\<close> C structs are records, arrays are functions from indices, fixed-width integers are
  words, pointers to nodes are keys of an explicit heap. An operation that C leaves undefined has the
  value \<^term>\<open>None\<close>; return codes are integers. The outcomes of system calls and of memory allocation
  are parameters, so a statement holds for every pattern of failures. Bodies that run under their
  mutex are one step; where the code reads and writes shared memory outside a lock, the model has
  separate steps and the statements quantify over the interleavings.

  \<^bold>\<open>Theories and what they show.\<close>
  \<^item> \<open>Enpu_Prelude\<close>: return codes, bounded strings, shifts, the interface of slot sets.
  \<^item> \<open>C_Double\<close>, \<open>C_Qsort\<close>: rounded double arithmetic and the contract of \<^verbatim>\<open>qsort\<close>, as the evaluator uses them.
  \<^item> \<open>Npu_Tree\<close> (\<^verbatim>\<open>npu_tree.c\<close>, \<^verbatim>\<open>dcmi_stub_adapter.c\<close>): the device tree; construction yields a well-formed
    tree, the slot search is total, and the operations are undefined for the vNPU numbers 64 to 127.
  \<^item> \<open>Allocation_Registry\<close> (\<^verbatim>\<open>allocation_registry.c\<close>, \<^verbatim>\<open>memory_storage_adapter.c\<close>): the registry refines a map.
  \<^item> \<open>Evaluator_Share\<close> (\<^verbatim>\<open>evaluator_share.c\<close>, \<^verbatim>\<open>evaluator.c\<close>): the selected device is eligible and best in the order
    of the strategy, whatever sorting algorithm is behind \<^verbatim>\<open>qsort\<close>; no overcommitment without oversubscription.
  \<^item> \<open>Shm_State\<close>, \<open>Swap_Protocol\<close> (\<^verbatim>\<open>shm_manager.c\<close> of both sides): the per-die state and the swap-command
    protocol with acknowledgements in any order; a race in the completion flag.
  \<^item> \<open>Tlsf\<close>, \<open>Swap_Buffer\<close> (\<^verbatim>\<open>shm_manager.c\<close>): the two-level segregated-fit pool of the swap buffer (disjoint ranges,
    completeness, free undoes alloc) and the ownership of its ranges by processes.
  \<^item> \<open>Swap_Resolver\<close>, \<open>Pod_Watchdog\<close> (\<^verbatim>\<open>swap_resolver.c\<close>, \<^verbatim>\<open>swap_resolver_thread.c\<close>, \<^verbatim>\<open>pod_watchdog.c\<close>): the threads
    that issue swap commands and clean up after dead processes keep the ownership of the ranges.
  \<^item> \<open>Npu_Config\<close> (\<^verbatim>\<open>config_manager.c\<close>, \<^verbatim>\<open>vcann-rt/src/utils/config.c\<close>): what the manager writes the runtime loads.
  \<^item> \<open>Rollback_Log\<close>, \<open>Npu_Allocator\<close>, \<open>Allocator_Books\<close>, \<open>Allocator_Runs\<close>, \<open>Allocator_Properties\<close>
    (\<^verbatim>\<open>rollback_log.c\<close>, \<^verbatim>\<open>npu_allocator.c\<close>): the allocator composed from the parts above. The books of the tree, of the
    shared memory and of the registry agree after any sequence of operations; a failed allocation is
    rolled back completely; a valid request is granted exactly if a device is eligible; release and
    recovery invert allocation.
  \<^item> \<open>Hash_Map\<close>, \<open>Memory_Tracker\<close> (\<^verbatim>\<open>hash_map.c\<close>, \<^verbatim>\<open>memory_tracker.c\<close>): the bookkeeping of a runtime process.
  \<^item> \<open>Core_Scheduler\<close>, \<open>Scheduler_Runs\<close> (\<^verbatim>\<open>core_limiter.c\<close>): priority admission, rotation of the owner, and the
    exact account of the device time of a vNPU under any interleaving of the scheduler threads.
  \<^item> \<open>Stream_Cache\<close>, \<open>Capture_Stats\<close> (\<^verbatim>\<open>core_limiter.c\<close>, \<^verbatim>\<open>ascend/graph.c\<close>): the streams a process synchronises at the end
    of a slice, the limiter in front of a submission, and the statistics of captured graphs, which are exact.
  \<^item> \<open>Vnpu_Stats\<close>, \<open>Sampling\<close> (\<^verbatim>\<open>vnpu_stats.c\<close>): the utilisation reported by the ring of buckets, and the sampling
    of execution times with driver events, which uses only live events and leaks none.
  \<^item> \<open>Mem_Limiter\<close> (\<^verbatim>\<open>npu_manager.c\<close>, \<^verbatim>\<open>mem_limiter.c\<close>, \<^verbatim>\<open>ascend/memory.c\<close>): the memory guard; the free memory reported to a
    process is what the guard grants, and the bound on the memory of concurrent allocations.
  \<^item> \<open>Swap_Executor\<close> (\<^verbatim>\<open>swap_executor.c\<close>, \<^verbatim>\<open>swap_hook.c\<close>, \<^verbatim>\<open>swap_monitor_thread.c\<close>): swapping of the memory of a process; only
    memory that has been copied is freed, and the contents survive swapping out and in.
  \<^item> \<open>Mcs_Sched\<close> (\<^verbatim>\<open>mcs/src/mcs_sched.c\<close>): the co-scheduling library, an alternative to the runtime; a launch of normal
    priority is served under any load of high priority, and how many pass during a burst.
  \<^item> \<open>Mcs_Memory\<close>, \<open>Mcs_Device\<close> (\<^verbatim>\<open>mcs/common\<close>, \<^verbatim>\<open>mcs/src\<close>): its memory quota, which holds, and when its counter is exact; its
    configuration, start and the core counts it reports, which are consistent.

  \<^bold>\<open>Loops.\<close> Loops over arrays recurse over the list of indices. The polling loops of the scheduler are
  \<^theory_text>\<open>partial_function (option)\<close>; that they return is proved from the assumption that consecutive clock
  readings are at least one sleep apart (0.1 ms), which bounds the rounds by 10000 and 2001. The wait for a
  completed swap-out in \<^verbatim>\<open>check_and_swap_out\<close> has no bound of its own; it returns when the manager serves commands.

  \<^bold>\<open>Not modelled.\<close> The vendor driver (the calls of the swap executor and of the sampler are logged and their outcomes
  are parameters) and its wrappers, the hooks that only forward to it, logging, the REST and
  command-line front ends and JSON files (third-party libraries), thread creation, and the separate
  programs \<^verbatim>\<open>virt-awaresched\<close>, \<^verbatim>\<open>virt-optimizer\<close> and \<^verbatim>\<open>ub-device-manager\<close>.
\<close>

end
